(* ===== verification/Base.thy ===== *)
theory Base
  imports Main "HOL-Library.Word" "HOL-Library.Signed_Division"
begin

text \<open>
  Prelude of the development: the machine types of the default architecture
  (x86_64-qemu: 64-bit pointers and \<open>size_t\<close>, 32-bit \<open>int\<close>), the faults a C function
  can end in, sequencing of fallible steps, the rounding macros of
  \<open>abstract-machine/klib/include/klib-macros.h\<close>, and the facts on words and lists that the
  components share.
\<close>

unbundle bit_operations_syntax

section \<open>Machine types\<close>

type_synonym u8 = "8 word"
type_synonym u16 = "16 word"
type_synonym u32 = "32 word"
type_synonym u64 = "64 word"

text \<open>An address or \<open>uintptr_t\<close>; \<open>size_t\<close> has the same width. \<open>NULL\<close> is the zero word.\<close>

type_synonym addr = "64 word"

section \<open>Faults and sequencing\<close>

text \<open>
  \<open>AssertFail\<close>: a failed \<open>assert\<close> (klib.h prints and halts); \<open>Panic\<close>: \<open>panic\<close> and
  \<open>panic_on\<close>; \<open>Deadlock\<close>: a loop that waits for what never comes, as that of \<open>spin_lock\<close> on a lock
  the same flow holds; \<open>BadAccess\<close>: a read or write outside the object or any other operation that is
  undefined in C;
  \<open>OutOfFuel\<close>: the model's own bound on a pointer-chasing loop ran out.
\<close>

datatype fault = AssertFail | Panic | Deadlock | BadAccess | OutOfFuel

type_synonym 'a res = "fault + 'a"

definition res_bind :: "'a res \<Rightarrow> ('a \<Rightarrow> 'b res) \<Rightarrow> 'b res" where
  "res_bind m f = (case m of Inl e \<Rightarrow> Inl e | Inr x \<Rightarrow> f x)"

text \<open>\<open>guard e c\<close> stops with the fault \<open>e\<close> unless \<open>c\<close> holds.\<close>

definition guard :: "fault \<Rightarrow> bool \<Rightarrow> unit res" where
  "guard e c = (if c then Inr () else Inl e)"

named_theorems res_simps \<open>evaluation of sequenced fallible steps\<close>

lemma res_bind_simps [simp, res_simps]:
  "res_bind (Inl e) f = Inl e"
  "res_bind (Inr x) f = f x"
  by (simp_all add: res_bind_def)

lemma guard_simps [simp, res_simps]:
  "guard e True = Inr ()"
  "guard e False = Inl e"
  by (simp_all add: guard_def)

lemma guard_eq_Inr [simp]: "guard e c = Inr u \<longleftrightarrow> c"
  by (simp add: guard_def)

lemma guard_eq_Inl [simp]: "guard e c = Inl f \<longleftrightarrow> \<not> c \<and> f = e"
  by (auto simp: guard_def)

lemma res_bind_guard [simp]:
  "res_bind (guard e c) f = (if c then f () else Inl e)"
  by (simp add: guard_def)

lemma res_bind_eq_Inr: "res_bind m f = Inr y \<longleftrightarrow> (\<exists>x. m = Inr x \<and> f x = Inr y)"
  by (cases m) auto

lemma res_bind_eq_Inl: "res_bind m f = Inl e \<longleftrightarrow> m = Inl e \<or> (\<exists>x. m = Inr x \<and> f x = Inl e)"
  by (cases m) auto

lemma res_bindE [elim?]:
  assumes "res_bind m f = Inr y"
  obtains x where "m = Inr x" and "f x = Inr y"
  using assms by (auto simp: res_bind_eq_Inr)

section \<open>The rounding macros of klib-macros.h\<close>

definition ROUNDUP :: "'a::len word \<Rightarrow> 'a word \<Rightarrow> 'a word" where
  "ROUNDUP a sz = (a + sz - 1) AND NOT (sz - 1)"

definition ROUNDDOWN :: "'a::len word \<Rightarrow> 'a word \<Rightarrow> 'a word" where
  "ROUNDDOWN a sz = a AND NOT (sz - 1)"

lemma and_not_mask_conv: "(x :: 'a::len word) AND NOT (mask k) = push_bit k (drop_bit k x)"
  by (rule bit_word_eqI) (auto simp: bit_simps)

lemma unat_and_not_mask:
  "unat ((x :: 'a::len word) AND NOT (mask k)) = unat x div 2 ^ k * 2 ^ k"
proof -
  have "unat x div 2 ^ k * 2 ^ k \<le> unat x"
    by (rule div_times_less_eq_dividend)
  then have lt: "unat x div 2 ^ k * 2 ^ k < 2 ^ LENGTH('a)"
    using unsigned_less [of x] by (rule le_less_trans)
  have "take_bit LENGTH('a) (unat x) = unat x"
    by (simp add: take_bit_nat_eq_self_iff)
  then have "unat (push_bit k (drop_bit k x)) = take_bit LENGTH('a) (push_bit k (drop_bit k (unat x)))"
    by (simp add: unsigned_push_bit_eq unsigned_drop_bit_eq)
  also have "\<dots> = unat x div 2 ^ k * 2 ^ k"
    using lt by (simp add: push_bit_eq_mult drop_bit_eq_div take_bit_eq_mod)
  finally show ?thesis
    by (simp add: and_not_mask_conv)
qed

lemma ROUNDDOWN_pow2:
  "ROUNDDOWN (x :: 'a::len word) (2 ^ k) = x AND NOT (mask k)"
  by (simp add: ROUNDDOWN_def mask_eq_exp_minus_1)

lemma unat_ROUNDDOWN:
  "unat (ROUNDDOWN (x :: 'a::len word) (2 ^ k)) = unat x div 2 ^ k * 2 ^ k"
  by (simp add: ROUNDDOWN_pow2 unat_and_not_mask)

lemma unat_pow2: "k < LENGTH('a) \<Longrightarrow> unat (2 ^ k :: 'a::len word) = 2 ^ k"
  by transfer (simp add: take_bit_nat_eq_self_iff take_bit_eq_mod nat_mod_distrib nat_power_eq)

lemma unat_of_nat_small: "n < 2 ^ LENGTH('a) \<Longrightarrow> unat (of_nat n :: 'a::len word) = n"
  by (simp add: unat_of_nat)

lemma unat_ucast_up:
  fixes x :: "'a::len word"
  assumes "LENGTH('a) \<le> LENGTH('b)"
  shows "unat (ucast x :: 'b::len word) = unat x"
proof -
  have "unat x < 2 ^ LENGTH('a)" by (rule unsigned_less)
  also have "(2 :: nat) ^ LENGTH('a) \<le> 2 ^ LENGTH('b)" using assms by (intro power_increasing) simp_all
  finally have "unat x < 2 ^ LENGTH('b)" .
  then show ?thesis by (simp add: unsigned_ucast_eq take_bit_nat_eq_self_iff)
qed

lemma unat_add_nowrap:
  "unat (x :: 'a::len word) + unat y < 2 ^ LENGTH('a) \<Longrightarrow> unat (x + y) = unat x + unat y"
  by (simp add: unat_word_ariths)

lemma unat_mask: "k \<le> LENGTH('a) \<Longrightarrow> unat (mask k :: 'a::len word) = 2 ^ k - 1"
proof -
  assume "k \<le> LENGTH('a)"
  then have "unat (mask k :: 'a word) = mask k"
    by (intro bit_eqI) (auto simp: bit_unsigned_iff bit_mask_iff)
  then show ?thesis by (simp add: mask_nat_def)
qed

lemma unat_drop_bit: "unat (drop_bit k w) = unat w div 2 ^ k"
proof -
  have "unat (drop_bit k w) = drop_bit k (unat w)" by (intro bit_eqI) (auto simp: bit_simps dest: bit_imp_le_length)
  then show ?thesis by (simp only: drop_bit_eq_div)
qed

lemma unat_take_bit: "unat (take_bit k w) = unat w mod 2 ^ k"
proof -
  have "unat (take_bit k w) = take_bit k (unat w)" by (intro bit_eqI) (auto simp: bit_simps dest: bit_imp_le_length)
  then show ?thesis by (simp only: take_bit_eq_mod)
qed

lemma unat_ROUNDUP:
  fixes x :: "'a::len word"
  assumes "k \<le> LENGTH('a)" and "unat x + (2 ^ k - 1) < 2 ^ LENGTH('a)"
  shows "unat (ROUNDUP x (2 ^ k)) = (unat x + (2 ^ k - 1)) div 2 ^ k * 2 ^ k"
proof -
  have "x + 2 ^ k - 1 = x + mask k"
    by (simp add: mask_eq_exp_minus_1)
  moreover have "unat (x + mask k) = unat x + (2 ^ k - 1)"
    using assms by (simp add: unat_add_nowrap unat_mask)
  moreover have "NOT (2 ^ k - 1 :: 'a word) = NOT (mask k)"
    by (simp add: mask_eq_exp_minus_1)
  ultimately show ?thesis
    by (simp only: ROUNDUP_def unat_and_not_mask)
qed

text \<open>A word is aligned exactly when rounding it down changes nothing, as the code tests it.\<close>

lemma ROUNDDOWN_id_iff:
  "ROUNDDOWN (x :: 'a::len word) (2 ^ k) = x \<longleftrightarrow> 2 ^ k dvd unat x"
  by (metis dvd_div_mult_self dvd_triv_right unat_ROUNDDOWN unsigned_word_eqI)

lemma roundup_nat_bounds:
  fixes n :: nat
  assumes "0 < m"
  shows "n \<le> (n + (m - 1)) div m * m" and "(n + (m - 1)) div m * m < n + m"
proof -
  have "(n + (m - 1)) div m * m + (n + (m - 1)) mod m = n + (m - 1)" by simp
  moreover have "(n + (m - 1)) mod m < m" using assms by simp
  ultimately show "n \<le> (n + (m - 1)) div m * m" and "(n + (m - 1)) div m * m < n + m"
    using assms by linarith+
qed

section \<open>Strings of C\<close>

text \<open>A byte of text as the code compares it: the code point of a character.\<close>

definition chr :: "char \<Rightarrow> u8" where
  "chr c = of_char c"

end
