(* ===== verification/Spinlock.thy ===== *)
theory Spinlock
  imports Base
begin

text \<open>
  The spin lock of \<open>kernel/src/pmm.c\<close>: \<open>spin_lock\<close> and \<open>spin_unlock\<close> over
  \<open>atomic_xchg\<close>. First the operations as one flow of control sees them (the form the
  allocator's definitions use), then the lock shared by any number of CPUs as a step relation,
  with mutual exclusion.
\<close>

section \<open>The lock word and its operations\<close>

type_synonym spinlock_t = "32 word"

definition SPIN_INIT :: spinlock_t where
  "SPIN_INIT = 0"

text \<open>\<open>atomic_xchg addr newval\<close>: the old value is returned, the new one stored, in one step.\<close>

definition atomic_xchg :: "spinlock_t \<Rightarrow> spinlock_t \<Rightarrow> spinlock_t \<times> spinlock_t" where
  "atomic_xchg val newval = (val, newval)"

text \<open>
  \<open>while (atomic_xchg(lk, 1));\<close> run alone: the exchange stores 1 whatever it finds, so when the
  first round finds a value other than 0 every later round finds 1, and the loop never ends.
\<close>

definition spin_lock :: "spinlock_t \<Rightarrow> spinlock_t res" where
  "spin_lock lk = (case atomic_xchg lk 1 of (old, new) \<Rightarrow> if old \<noteq> 0 then Inl Deadlock else Inr new)"

definition spin_unlock :: "spinlock_t \<Rightarrow> spinlock_t" where
  "spin_unlock lk = snd (atomic_xchg lk 0)"

lemma spin_lock_simps [simp]:
  "spin_lock 0 = Inr 1"
  "lk \<noteq> 0 \<Longrightarrow> spin_lock lk = Inl Deadlock"
  by (simp_all add: spin_lock_def atomic_xchg_def)

lemma spin_lock_eq_Inr: "spin_lock lk = Inr lk' \<longleftrightarrow> lk = 0 \<and> lk' = 1"
  by (auto simp: spin_lock_def atomic_xchg_def split: if_splits)

lemma spin_unlock_simp [simp]: "spin_unlock lk = 0"
  by (simp add: spin_unlock_def atomic_xchg_def)

text \<open>The justification of \<open>Deadlock\<close>: \<open>n\<close> rounds of the loop on a held lock all fail.\<close>

fun spin_rounds :: "nat \<Rightarrow> spinlock_t \<Rightarrow> bool" where
  "spin_rounds 0 lk = False"
| "spin_rounds (Suc n) lk =
     (case atomic_xchg lk 1 of (old, new) \<Rightarrow> if old \<noteq> 0 then spin_rounds n new else True)"

lemma spin_rounds_held: "lk \<noteq> 0 \<Longrightarrow> \<not> spin_rounds n lk"
  by (induction n arbitrary: lk) (auto simp: atomic_xchg_def)

lemma spin_rounds_free: "spin_rounds (Suc n) 0"
  by (simp add: atomic_xchg_def)

section \<open>The lock between CPUs\<close>

datatype lock_pc = Outside | Spinning | Inside

record lock_sys =
  lock_word :: spinlock_t
  pcs :: "nat \<Rightarrow> lock_pc"

definition lock_init :: lock_sys where
  "lock_init = \<lparr>lock_word = SPIN_INIT, pcs = (\<lambda>_. Outside)\<rparr>"

text \<open>
  One step is one CPU \<open>i\<close> moving: it calls \<open>spin_lock\<close>, makes one round of the loop (one
  atomic exchange, leaving the loop when it found 0), or calls \<open>spin_unlock\<close>.
\<close>

inductive lock_step :: "lock_sys \<Rightarrow> lock_sys \<Rightarrow> bool" where
  call: "pcs s i = Outside \<Longrightarrow> lock_step s (s\<lparr>pcs := (pcs s)(i := Spinning)\<rparr>)"
| round: "pcs s i = Spinning \<Longrightarrow> atomic_xchg (lock_word s) 1 = (old, new) \<Longrightarrow>
    lock_step s (s\<lparr>lock_word := new, pcs := (pcs s)(i := if old \<noteq> 0 then Spinning else Inside)\<rparr>)"
| unlock: "pcs s i = Inside \<Longrightarrow> atomic_xchg (lock_word s) 0 = (old, new) \<Longrightarrow>
    lock_step s (s\<lparr>lock_word := new, pcs := (pcs s)(i := Outside)\<rparr>)"

inductive lock_reachable :: "lock_sys \<Rightarrow> bool" where
  start: "lock_reachable lock_init"
| step: "lock_reachable s \<Longrightarrow> lock_step s t \<Longrightarrow> lock_reachable t"

inductive_cases lock_stepE: "lock_step s t"

text \<open>The word is 0 with nobody inside, or 1 with exactly one CPU inside.\<close>

definition inside :: "lock_sys \<Rightarrow> nat set" where
  "inside s = {i. pcs s i = Inside}"

definition lock_inv :: "lock_sys \<Rightarrow> bool" where
  "lock_inv s \<longleftrightarrow>
     (lock_word s = 0 \<and> inside s = {}) \<or> (lock_word s = 1 \<and> (\<exists>i. inside s = {i}))"

lemma inside_upd [simp]:
  "inside (s\<lparr>lock_word := w\<rparr>) = inside s"
  "inside (s\<lparr>pcs := (pcs s)(i := p)\<rparr>) = (if p = Inside then insert i (inside s) else inside s - {i})"
  by (auto simp: inside_def)

lemma inside_iff: "i \<in> inside s \<longleftrightarrow> pcs s i = Inside"
  by (simp add: inside_def)

lemma lock_inv_init: "lock_inv lock_init"
  by (simp add: lock_inv_def lock_init_def SPIN_INIT_def inside_def)

lemma lock_step_inv: "lock_step s t \<Longrightarrow> lock_inv s \<Longrightarrow> lock_inv t"
proof (induction rule: lock_step.induct)
  case (call s i)
  then have "i \<notin> inside s" by (simp add: inside_iff)
  then have "inside s - {i} = inside s" by simp
  with call.prems show ?case by (simp add: lock_inv_def)
next
  case (round s i old new)
  then have "i \<notin> inside s" by (simp add: inside_iff)
  then have "inside s - {i} = inside s" by simp
  moreover have "old = lock_word s" and "new = 1"
    using round.hyps by (simp_all add: atomic_xchg_def)
  ultimately show ?case
    using round.prems by (auto simp: lock_inv_def inside_def)
next
  case (unlock s i old new)
  then have "i \<in> inside s" by (simp add: inside_iff)
  then have "inside s - {i} = {}" using unlock.prems by (auto simp: lock_inv_def)
  moreover have "new = 0"
    using unlock.hyps by (simp add: atomic_xchg_def)
  ultimately show ?case
    by (auto simp: lock_inv_def inside_def)
qed

lemma lock_reachable_inv: "lock_reachable s \<Longrightarrow> lock_inv s"
proof (induction rule: lock_reachable.induct)
  case start
  show ?case by (rule lock_inv_init)
next
  case (step s t)
  from step(2) step(3) show ?case by (rule lock_step_inv)
qed

lemma lock_inv_inside_unique: "lock_inv s \<Longrightarrow> pcs s i = Inside \<Longrightarrow> pcs s j = Inside \<Longrightarrow> i = j"
  by (auto simp: lock_inv_def simp flip: inside_iff)

lemma lock_inv_word: "lock_inv s \<Longrightarrow> lock_word s \<noteq> 0 \<longleftrightarrow> (\<exists>i. pcs s i = Inside)"
  by (auto simp: lock_inv_def simp flip: inside_iff)

lemma lock_word_eq: "lock_inv s \<Longrightarrow> lock_word s = (if \<exists>i. pcs s i = Inside then 1 else 0)"
  by (auto simp: lock_inv_def simp flip: inside_iff)

lemma lock_round_eq:
  assumes "lock_inv s" and "pcs s i = Spinning"
  shows "lock_step s (s\<lparr>lock_word := 1, pcs := (pcs s)(i := if \<exists>j. pcs s j = Inside then Spinning else Inside)\<rparr>)"
proof -
  have "atomic_xchg (lock_word s) 1 = (lock_word s, 1)" by (simp add: atomic_xchg_def)
  from lock_step.round [OF assms(2) this] show ?thesis using lock_inv_word [OF assms(1)] by simp
qed

lemma lock_enter_free:
  assumes "lock_inv s" and "lock_step s s'" and "pcs s' i = Inside" and "pcs s i \<noteq> Inside"
  shows "pcs s i = Spinning \<and> (\<forall>j. pcs s j \<noteq> Inside)"
  using assms(2)
proof cases
  case (round k old new)
  then have "k = i" "old = 0" using assms(3,4) by (auto split: if_splits)
  then show ?thesis using round lock_inv_word [OF assms(1)] by (auto simp: atomic_xchg_def)
qed (use assms(3,4) in \<open>auto split: if_splits\<close>)

text \<open>
  C13: mutual exclusion and entry. In every reachable state of any number of CPUs using one lock, at most
  one CPU is between \<open>spin_lock\<close> and \<open>spin_unlock\<close>; the lock word is 1 when there is one and 0 when there is none. The next round of
  a spinning CPU is a step that sets the word to 1 and lets the CPU in exactly when nobody is inside; and a CPU comes in by such a
  round only.
\<close>

theorem spinlock_mutex:
  assumes "lock_reachable s"
  shows "(\<forall>i j. pcs s i = Inside \<longrightarrow> pcs s j = Inside \<longrightarrow> i = j) \<and>
         lock_word s = (if \<exists>i. pcs s i = Inside then 1 else 0) \<and>
         (lock_word s = 0 \<longleftrightarrow> (\<forall>i. pcs s i \<noteq> Inside)) \<and>
         (\<forall>i. pcs s i = Spinning \<longrightarrow>
            lock_step s (s\<lparr>lock_word := 1, pcs := (pcs s)(i := if \<exists>j. pcs s j = Inside then Spinning else Inside)\<rparr>)) \<and>
         (\<forall>i s'. lock_step s s' \<longrightarrow> pcs s' i = Inside \<longrightarrow> pcs s i \<noteq> Inside \<longrightarrow> pcs s i = Spinning \<and> (\<forall>j. pcs s j \<noteq> Inside))"
proof -
  note inv = lock_reachable_inv [OF assms]
  show ?thesis
    using lock_inv_inside_unique [OF inv] lock_word_eq [OF inv] lock_inv_word [OF inv] lock_round_eq [OF inv] lock_enter_free [OF inv]
    by (intro conjI) blast+
qed

text \<open>A run in which CPU 0 enters while CPU 1 spins.\<close>

definition lock_example :: lock_sys where
  "lock_example = \<lparr>lock_word = 1, pcs = (\<lambda>_. Outside)(0 := Inside, 1 := Spinning)\<rparr>"

lemma lock_example_reachable: "lock_reachable lock_example"
proof -
  let ?s1 = "lock_init\<lparr>pcs := (pcs lock_init)(0 := Spinning)\<rparr>"
  let ?s2 = "?s1\<lparr>lock_word := 1, pcs := (pcs ?s1)(0 := if (0 :: spinlock_t) \<noteq> 0 then Spinning else Inside)\<rparr>"
  let ?s3 = "?s2\<lparr>pcs := (pcs ?s2)(1 := Spinning)\<rparr>"
  have "lock_step lock_init ?s1" by (rule lock_step.call) (simp add: lock_init_def)
  moreover have "lock_step ?s1 ?s2"
    by (rule lock_step.round) (simp_all add: lock_init_def SPIN_INIT_def atomic_xchg_def)
  moreover have "lock_step ?s2 ?s3" by (rule lock_step.call) (simp add: lock_init_def)
  ultimately have "lock_reachable ?s3"
    by (blast intro: lock_reachable.intros)
  then show ?thesis by (simp add: lock_example_def lock_init_def)
qed

theorem spinlock_mutex_witness:
  "lock_reachable lock_example \<and> pcs lock_example 0 = Inside \<and> pcs lock_example 1 = Spinning \<and>
   lock_word lock_example = 1 \<and> (\<nexists>s'. lock_step lock_example s' \<and> pcs s' 1 = Inside)"
proof -
  have p: "pcs lock_example 0 = Inside" "pcs lock_example 1 = Spinning" by (simp_all add: lock_example_def)
  note m = spinlock_mutex [OF lock_example_reachable]
  have "\<nexists>s'. lock_step lock_example s' \<and> pcs s' 1 = Inside" using m p by (metis lock_pc.distinct(5))
  moreover have "lock_word lock_example = 1" using m p(1) by metis
  ultimately show ?thesis using p lock_example_reachable by blast
qed

end
