(* ===== verification/Alloc_Spec.thy ===== *)
theory Alloc_Spec
  imports Base
begin

text \<open>
  What an allocator promises its clients, as a locale over its two operations, and what a client
  gets from any allocator of the kind: a program that only frees pointers it holds meets no fault
  and never holds two objects that overlap. The page layer and \<open>kalloc\<close> and \<open>kfree\<close> are
  instances.
\<close>

text \<open>Two objects, as start and length, share no byte.\<close>

definition apart :: "nat \<times> nat \<Rightarrow> nat \<times> nat \<Rightarrow> bool" where
  "apart x y \<longleftrightarrow> fst x + snd x \<le> fst y \<or> fst y + snd y \<le> fst x"

lemma apart_sym: "apart x y = apart y x"
  by (auto simp: apart_def)

text \<open>
  A client's calls: \<open>Get r\<close> allocates, \<open>Put i\<close> frees the \<open>i\<close>-th of the objects held and does
  nothing when there are fewer. \<open>run_calls\<close> gives the objects held at the end, newest first.
\<close>

datatype 'r call = Get 'r | Put nat

primrec run_calls ::
  "('r \<Rightarrow> 's \<Rightarrow> (addr \<times> 's) res) \<Rightarrow> (addr \<Rightarrow> 's \<Rightarrow> 's res) \<Rightarrow> ('r \<Rightarrow> nat) \<Rightarrow> 'r call list \<Rightarrow>
   (addr \<times> nat) list \<Rightarrow> 's \<Rightarrow> ((addr \<times> nat) list \<times> 's) res" where
  "run_calls get put bytes [] ps s = Inr (ps, s)"
| "run_calls get put bytes (c # cs) ps s =
     (case c of
        Get r \<Rightarrow> res_bind (get r s) (\<lambda>(p, s).
          run_calls get put bytes cs (if p = 0 then ps else (p, bytes r) # ps) s)
      | Put i \<Rightarrow>
          if i < length ps
          then res_bind (put (fst (ps ! i)) s) (run_calls get put bytes cs (take i ps @ drop (i + 1) ps))
          else run_calls get put bytes cs ps s)"

definition addrs :: "(addr \<times> nat) list \<Rightarrow> (nat \<times> nat) list" where
  "addrs ps = List.map (\<lambda>(p, n). (unat p, n)) ps"

lemma remove_nth:
  assumes "distinct xs" and "i < length xs"
  shows "distinct (take i xs @ drop (i + 1) xs) \<and> set (take i xs @ drop (i + 1) xs) = set xs - {xs ! i}"
proof -
  have "xs = take i xs @ xs ! i # drop (i + 1) xs" using assms(2) by (simp add: id_take_nth_drop)
  then have "distinct (take i xs @ xs ! i # drop (i + 1) xs)"
    and s: "set xs = set (take i xs @ xs ! i # drop (i + 1) xs)" using assms(1) by metis+
  then show ?thesis unfolding s by auto
qed

locale allocator =
  fixes inv :: "'s \<Rightarrow> bool" and held :: "'s \<Rightarrow> (nat \<times> nat) set"
    and get :: "'r \<Rightarrow> 's \<Rightarrow> (addr \<times> 's) res" and put :: "addr \<Rightarrow> 's \<Rightarrow> 's res"
    and fair :: "'r \<Rightarrow> bool" and bytes :: "'r \<Rightarrow> nat"
  assumes get_ok: "inv s \<Longrightarrow> fair r \<Longrightarrow> \<exists>p s'. get r s = Inr (p, s') \<and> inv s' \<and>
      (if p = 0 then held s' = held s
       else (unat p, bytes r) \<notin> held s \<and> held s' = insert (unat p, bytes r) (held s))"
    and put_ok: "inv s \<Longrightarrow> (unat p, n) \<in> held s \<Longrightarrow>
      \<exists>s'. put p s = Inr s' \<and> inv s' \<and> held s' = held s - {(unat p, n)}"
    and held_apart: "inv s \<Longrightarrow> x \<in> held s \<Longrightarrow> y \<in> held s \<Longrightarrow> x \<noteq> y \<Longrightarrow> apart x y"
begin

lemma run_ok:
  assumes "inv s" and "set (addrs ps) = held s" and "distinct (addrs ps)"
    and "\<And>r. Get r \<in> set cs \<Longrightarrow> fair r"
  shows "\<exists>ps' s'. run_calls get put bytes cs ps s = Inr (ps', s') \<and> inv s' \<and>
    set (addrs ps') = held s' \<and> distinct (addrs ps')"
  using assms
proof (induction cs arbitrary: ps s)
  case (Cons c cs)
  show ?case
  proof (cases c)
    case (Get r)
    then obtain p s' where r: "get r s = Inr (p, s')" "inv s'"
        "if p = 0 then held s' = held s
         else (unat p, bytes r) \<notin> held s \<and> held s' = insert (unat p, bytes r) (held s)"
      using get_ok [OF Cons.prems(1), of r] Cons.prems(4) by auto
    let ?ps = "if p = 0 then ps else (p, bytes r) # ps"
    have "set (addrs ?ps) = held s'" "distinct (addrs ?ps)"
      using r(3) Cons.prems(2,3) by (auto simp: addrs_def split: if_splits)
    then show ?thesis using Cons.IH [OF r(2), of ?ps] Cons.prems(4) Get r(1) by auto
  next
    case (Put i)
    show ?thesis
    proof (cases "i < length ps")
      case False
      then show ?thesis using Cons.IH [OF Cons.prems(1-3)] Cons.prems(4) Put by auto
    next
      case True
      obtain p n where pn: "ps ! i = (p, n)" by (cases "ps ! i")
      have i: "i < length (addrs ps)" "addrs ps ! i = (unat p, n)" using True pn by (simp_all add: addrs_def)
      then have "(unat p, n) \<in> held s" using Cons.prems(2) nth_mem by metis
      then obtain s' where s': "put p s = Inr s'" "inv s'" "held s' = held s - {(unat p, n)}"
        using put_ok [OF Cons.prems(1)] by blast
      let ?ps = "take i ps @ drop (i + 1) ps"
      have a: "addrs ?ps = take i (addrs ps) @ drop (i + 1) (addrs ps)"
        by (simp add: addrs_def take_map drop_map)
      have "set (addrs ?ps) = held s'" "distinct (addrs ?ps)"
        using remove_nth [OF Cons.prems(3) i(1)] i(2) s'(3) Cons.prems(2) unfolding a by simp_all
      then show ?thesis using Cons.IH [OF s'(2), of ?ps] Cons.prems(4) Put True pn s'(1) by auto
    qed
  qed
qed simp

text \<open>Two different objects a client holds at the end of any program do not overlap.\<close>

lemma client_safe:
  assumes "inv s" and "held s = {}" and "\<And>r. Get r \<in> set cs \<Longrightarrow> fair r"
  shows "\<exists>ps s'. run_calls get put bytes cs [] s = Inr (ps, s') \<and> inv s' \<and> set (addrs ps) = held s' \<and>
    (\<forall>i<length ps. \<forall>j<length ps. i \<noteq> j \<longrightarrow> apart (addrs ps ! i) (addrs ps ! j))"
proof -
  have "set (addrs []) = held s" "distinct (addrs [])" using assms(2) by (simp_all add: addrs_def)
  from run_ok [OF assms(1) this assms(3)] obtain ps s' where r:
      "run_calls get put bytes cs [] s = Inr (ps, s')" "inv s'" "set (addrs ps) = held s'" "distinct (addrs ps)"
    by blast
  have "apart (addrs ps ! i) (addrs ps ! j)" if "i < length ps" "j < length ps" "i \<noteq> j" for i j
  proof (rule held_apart [OF r(2)])
    have l: "length (addrs ps) = length ps" by (simp add: addrs_def)
    show "addrs ps ! i \<in> held s'" "addrs ps ! j \<in> held s'" using that l nth_mem r(3) by metis+
    show "addrs ps ! i \<noteq> addrs ps ! j" using that l r(4) by (simp add: nth_eq_iff_index_eq)
  qed
  then show ?thesis using r by blast
qed

end

end
