(* ===== verification/Pmm_Page.thy ===== *)
theory Pmm_Page
  imports Spinlock Alloc_Spec
begin

text \<open>
  The page layer of the physical memory manager, \<open>kernel/src/pmm.c\<close>: the table \<open>Meta\<close>
  with one entry for each 64 KiB page of the heap, its initialisation, and \<open>G_alloc\<close> and
  \<open>G_free\<close> with their assertions and the global lock.
\<close>

unbundle bit_operations_syntax

section \<open>State\<close>

definition MAX_ALLOC :: u64 where
  "MAX_ALLOC = 16 * 2 ^ 20"

definition GPAGE_SZ :: u64 where
  "GPAGE_SZ = 2 ^ 16"

definition META_SZ :: nat where
  "META_SZ = 8 * 1024"

record meta_t =
  m_start :: addr
  m_end :: addr
  is_alloc :: bool
  is_slab :: bool

text \<open>
  The globals of the page layer. \<open>Meta\<close> is the array that \<open>meta_init\<close> places at
  \<open>heap.start\<close>, by index; entries the code has not written hold whatever the memory held
  before. Only indices below \<open>META_SZ\<close> lie in the array, \<open>meta_at\<close> reads no other.
\<close>

record gpages =
  heap_start :: addr
  heap_end :: addr
  G_start :: addr
  G_lock :: spinlock_t
  Meta :: "nat \<Rightarrow> meta_t"
  n_meta :: nat

definition meta_at :: "'a gpages_scheme \<Rightarrow> nat \<Rightarrow> meta_t res" where
  "meta_at st i = (if i < META_SZ then Inr (Meta st i) else Inl BadAccess)"

section \<open>Initialisation\<close>

text \<open>\<open>sizeof(meta_t)\<close>: two pointers and two \<open>bool\<close>s, padded to 24 bytes.\<close>

definition SIZEOF_META :: u64 where
  "SIZEOF_META = 24"

function meta_init_loop :: "nat \<Rightarrow> 'a gpages_scheme \<Rightarrow> 'a gpages_scheme res" where
  "meta_init_loop i st =
     (if i < META_SZ then
        if heap_end st < G_start st + (of_nat i + 1) * GPAGE_SZ
        then Inr (st\<lparr>n_meta := i\<rparr>)
        else meta_init_loop (i + 1)
               (st\<lparr>Meta := (Meta st)(i := \<lparr>m_start = G_start st + of_nat i * GPAGE_SZ,
                                          m_end = 0, is_alloc = False, is_slab = False\<rparr>)\<rparr>)
      else Inl AssertFail)"
  by pat_completeness auto
termination by (relation "measure (\<lambda>(i, st). META_SZ - i)") auto

declare meta_init_loop.simps [simp del]

definition meta_init :: "'a gpages_scheme \<Rightarrow> 'a gpages_scheme res" where
  "meta_init st =
     (let sz = SIZEOF_META * of_nat META_SZ;
          g = heap_start st + sz;
          g = ROUNDUP g GPAGE_SZ
      in meta_init_loop 0 (st\<lparr>G_start := g\<rparr>))"

definition G_init :: "'a gpages_scheme \<Rightarrow> 'a gpages_scheme res" where
  "G_init st = meta_init (st\<lparr>G_lock := SPIN_INIT\<rparr>)"

section \<open>Index of a page, validity of an address\<close>

text \<open>
  \<open>(p - G_start) / GPAGE_SZ\<close> on \<open>void *\<close>: a signed 64-bit difference, C division (towards
  zero), truncated to the 32-bit \<open>int\<close> that is returned.
\<close>

definition get_meta_index :: "'a gpages_scheme \<Rightarrow> addr \<Rightarrow> int res" where
  "get_meta_index st p =
     res_bind (guard AssertFail (ROUNDDOWN p GPAGE_SZ = p)) (\<lambda>_.
       Inr (signed_take_bit 31 (sint (p - G_start st) sdiv 65536)))"

definition is_valid_ret :: "'a gpages_scheme \<Rightarrow> addr \<Rightarrow> bool res" where
  "is_valid_ret st p =
     res_bind (guard AssertFail (p \<noteq> 0)) (\<lambda>_.
       if p < G_start st then Inr False
       else if G_start st + of_nat (n_meta st) * GPAGE_SZ \<le> p then Inr False
       else res_bind (get_meta_index st p) (\<lambda>idx.
         res_bind (guard AssertFail (0 \<le> idx \<and> idx < int (n_meta st))) (\<lambda>_. Inr True)))"

section \<open>Allocation\<close>

text \<open>The loop of \<open>try_alloc\<close>: no entry of the \<open>n\<close> from \<open>idx\<close> on may be allocated.\<close>

function try_alloc_loop :: "'a gpages_scheme \<Rightarrow> nat \<Rightarrow> nat \<Rightarrow> nat \<Rightarrow> bool res" where
  "try_alloc_loop st idx n i =
     (if i < n then
        res_bind (meta_at st (idx + i)) (\<lambda>m.
          if is_alloc m then Inr False else try_alloc_loop st idx n (i + 1))
      else Inr True)"
  by pat_completeness auto
termination by (relation "measure (\<lambda>(st, idx, n, i). n - i)") auto

declare try_alloc_loop.simps [simp del]

definition try_alloc :: "'a gpages_scheme \<Rightarrow> addr \<Rightarrow> u64 \<Rightarrow> bool \<Rightarrow> bool res" where
  "try_alloc st ret sz slab =
     res_bind (guard AssertFail (ROUNDDOWN ret sz = ret)) (\<lambda>_.
     res_bind (guard AssertFail (0 < sz \<and> ROUNDUP sz GPAGE_SZ = sz)) (\<lambda>_.
     res_bind (is_valid_ret st ret) (\<lambda>valid.
     res_bind (guard AssertFail valid) (\<lambda>_.
     res_bind (get_meta_index st ret) (\<lambda>idx.
     res_bind (guard AssertFail (0 \<le> idx \<and> idx < int (n_meta st))) (\<lambda>_.
     res_bind (meta_at st (nat idx)) (\<lambda>m.
     res_bind (guard AssertFail (m_start m = ret)) (\<lambda>_.
     let n_pg = unat (sz div GPAGE_SZ)
     in res_bind (try_alloc_loop st (nat idx) n_pg 0) (\<lambda>free.
        if \<not> free then Inr False
        else res_bind (guard AssertFail (\<not> is_alloc m)) (\<lambda>_. Inr True))))))))))"

function slow_alloc_loop ::
  "nat \<Rightarrow> nat \<Rightarrow> nat \<Rightarrow> addr \<Rightarrow> bool \<Rightarrow> 'a gpages_scheme \<Rightarrow> 'a gpages_scheme res" where
  "slow_alloc_loop idx n i e slab st =
     (if i < n then
        res_bind (meta_at st (idx + i)) (\<lambda>m.
        res_bind (guard AssertFail (\<not> is_alloc m)) (\<lambda>_.
          slow_alloc_loop idx n (i + 1) e slab
            (st\<lparr>Meta := (Meta st)(idx + i := m\<lparr>is_alloc := True, is_slab := slab, m_end := e\<rparr>)\<rparr>)))
      else Inr st)"
  by pat_completeness auto
termination by (relation "measure (\<lambda>(idx, n, i, e, slab, st). n - i)") auto

declare slow_alloc_loop.simps [simp del]

definition slow_alloc ::
  "'a gpages_scheme \<Rightarrow> addr \<Rightarrow> u64 \<Rightarrow> bool \<Rightarrow> (addr \<times> 'a gpages_scheme) res" where
  "slow_alloc st ret sz slab =
     res_bind (get_meta_index st ret) (\<lambda>idx.
     res_bind (guard AssertFail (0 \<le> idx \<and> idx < int (n_meta st))) (\<lambda>_.
     res_bind (meta_at st (nat idx)) (\<lambda>m.
     res_bind (guard AssertFail (\<not> is_alloc m)) (\<lambda>_.
     let n_pg = unat (sz div GPAGE_SZ)
     in res_bind (slow_alloc_loop (nat idx) n_pg 0 (ret + sz) slab st) (\<lambda>st'. Inr (ret, st'))))))"

text \<open>
  The search of \<open>G_alloc\<close>, entered with the lock held. The fuel bounds the rounds: every
  round moves \<open>try_ret\<close> forward by at least a page, and the loop leaves when it has passed
  the \<open>n_meta\<close> pages.
\<close>

fun G_alloc_loop ::
  "nat \<Rightarrow> addr \<Rightarrow> u64 \<Rightarrow> bool \<Rightarrow> 'a gpages_scheme \<Rightarrow> (addr \<times> 'a gpages_scheme) res" where
  "G_alloc_loop 0 try_ret sz slab st = Inl OutOfFuel"
| "G_alloc_loop (Suc fuel) try_ret sz slab st =
     res_bind (is_valid_ret st try_ret) (\<lambda>valid.
       if \<not> valid then Inr (0, st\<lparr>G_lock := spin_unlock (G_lock st)\<rparr>)
       else res_bind (try_alloc st try_ret sz slab) (\<lambda>ok.
         if ok then
           res_bind (slow_alloc st try_ret sz slab) (\<lambda>(_, st).
             let st = st\<lparr>G_lock := spin_unlock (G_lock st)\<rparr>
             in res_bind (guard AssertFail (ROUNDDOWN try_ret sz = try_ret)) (\<lambda>_. Inr (try_ret, st)))
         else G_alloc_loop fuel (try_ret + sz) sz slab st))"

definition G_alloc :: "u64 \<Rightarrow> bool \<Rightarrow> 'a gpages_scheme \<Rightarrow> (addr \<times> 'a gpages_scheme) res" where
  "G_alloc npage slab st =
     res_bind (spin_lock (G_lock st)) (\<lambda>lk.
       let st = st\<lparr>G_lock := lk\<rparr>;
           sz = npage * GPAGE_SZ;
           try_ret = ROUNDUP (G_start st) sz
       in G_alloc_loop (n_meta st + 2) try_ret sz slab st)"

section \<open>Release\<close>

function G_free_loop ::
  "nat \<Rightarrow> nat \<Rightarrow> nat \<Rightarrow> addr \<Rightarrow> 'a gpages_scheme \<Rightarrow> 'a gpages_scheme res" where
  "G_free_loop idx n i free_end st =
     (if i < n then
        res_bind (meta_at st (idx + i)) (\<lambda>m.
        res_bind (guard AssertFail (is_alloc m)) (\<lambda>_.
        res_bind (guard AssertFail (\<not> is_slab m)) (\<lambda>_.
        res_bind (guard AssertFail (m_end m = free_end)) (\<lambda>_.
          G_free_loop idx n (i + 1) free_end
            (st\<lparr>Meta := (Meta st)(idx + i := m\<lparr>is_alloc := False, m_end := 0\<rparr>)\<rparr>)))))
      else Inr st)"
  by pat_completeness auto
termination by (relation "measure (\<lambda>(idx, n, i, e, st). n - i)") auto

declare G_free_loop.simps [simp del]

definition G_free :: "addr \<Rightarrow> 'a gpages_scheme \<Rightarrow> 'a gpages_scheme res" where
  "G_free ptr st =
     res_bind (spin_lock (G_lock st)) (\<lambda>lk.
     let st = st\<lparr>G_lock := lk\<rparr>
     in res_bind (guard AssertFail (ROUNDDOWN ptr GPAGE_SZ = ptr)) (\<lambda>_.
        res_bind (get_meta_index st ptr) (\<lambda>idx.
        res_bind (guard AssertFail (0 \<le> idx \<and> idx < int (n_meta st))) (\<lambda>_.
        res_bind (meta_at st (nat idx)) (\<lambda>m.
        res_bind (guard AssertFail (m_start m = ptr)) (\<lambda>_.
        let free_end = m_end m
        in res_bind (guard AssertFail (free_end \<noteq> 0)) (\<lambda>_.
           let n_pg = signed_take_bit 31 (sint (free_end - ptr) sdiv 65536)
           in res_bind (G_free_loop (nat idx) (nat n_pg) 0 free_end st) (\<lambda>st.
              Inr (st\<lparr>G_lock := spin_unlock (G_lock st)\<rparr>)))))))))"

section \<open>The page table is well formed\<close>

definition pg :: "'a gpages_scheme \<Rightarrow> nat \<Rightarrow> addr" where
  "pg st i = G_start st + of_nat i * GPAGE_SZ"

text \<open>
  What \<open>meta_init\<close> establishes and every later step keeps: the pages start at a page boundary
  above 0, all \<open>n_meta\<close> of them lie in the heap, their \<open>start\<close> fields are right, and the heap
  lies in the lower half of the address space.
\<close>

definition pages_ok :: "'a gpages_scheme \<Rightarrow> bool" where
  "pages_ok st \<longleftrightarrow>
     0 < unat (G_start st) \<and> 65536 dvd unat (G_start st) \<and>
     n_meta st < META_SZ \<and>
     unat (G_start st) + n_meta st * 65536 \<le> unat (heap_end st) \<and>
     unat (heap_end st) \<le> 2 ^ 63 \<and>
     (\<forall>i<n_meta st. m_start (Meta st i) = pg st i)"

lemma META_SZ_val: "META_SZ = 8192"
  by (simp add: META_SZ_def)

lemma unat_GPAGE_SZ [simp]: "unat GPAGE_SZ = 65536"
  by (simp add: GPAGE_SZ_def)

lemma of_nat_page: "of_nat i * GPAGE_SZ = of_nat (i * 65536)"
  by (simp add: GPAGE_SZ_def)

lemma unat_offset: "i \<le> 2 ^ 40 \<Longrightarrow> unat (of_nat i * GPAGE_SZ) = i * 65536"
  unfolding of_nat_page by (subst unat_of_nat) simp

lemma unat_pg_wide:
  assumes "pages_ok st" and "i \<le> 2 ^ 20"
  shows "unat (pg st i) = unat (G_start st) + i * 65536"
  using assms unfolding pg_def pages_ok_def by (subst unat_add_nowrap) (auto simp: unat_offset)

lemma unat_pg:
  assumes "pages_ok st" and "i \<le> n_meta st"
  shows "unat (pg st i) = unat (G_start st) + i * 65536"
  using assms by (intro unat_pg_wide) (auto simp: pages_ok_def META_SZ_val)

lemma pg_inject:
  assumes "pages_ok st" and "i \<le> META_SZ" and "j \<le> META_SZ"
  shows "pg st i = pg st j \<longleftrightarrow> i = j"
  using assms unat_pg_wide [of st i] unat_pg_wide [of st j]
  by (auto simp: word_unat_eq_iff META_SZ_val)

lemma sint_small_word: "n < 2 ^ 63 \<Longrightarrow> sint (of_nat n :: 64 word) = int n"
  by (simp add: signed_of_nat signed_take_bit_int_eq_self)

lemma ROUNDDOWN_GPAGE: "ROUNDDOWN p GPAGE_SZ = p \<longleftrightarrow> 65536 dvd unat p"
  using ROUNDDOWN_id_iff [of p 16] by (simp add: GPAGE_SZ_def)

lemma page_dvd: "pages_ok st \<Longrightarrow> i \<le> n_meta st \<Longrightarrow> 65536 dvd unat (pg st i)"
  by (simp add: unat_pg) (simp add: pages_ok_def)

lemma get_meta_index_pg:
  assumes "pages_ok st" and "i \<le> n_meta st"
  shows "get_meta_index st (pg st i) = Inr (int i)"
proof -
  have i: "i < 8192" using assms by (simp add: pages_ok_def META_SZ_val)
  have "pg st i - G_start st = of_nat (i * 65536)"
    by (simp add: pg_def of_nat_page)
  then have "sint (pg st i - G_start st) = int (i * 65536)"
    using i by (simp only:) (rule sint_small_word, simp)
  then have "sint (pg st i - G_start st) sdiv 65536 = int i"
    by (cases "i = 0") (simp_all add: signed_divide_int_def sgn_mult)
  then show ?thesis
    using i page_dvd [OF assms]
    by (simp add: get_meta_index_def ROUNDDOWN_GPAGE signed_take_bit_int_eq_self)
qed

lemma page_of_addr:
  assumes "pages_ok st" and "65536 dvd unat p" and "unat (G_start st) \<le> unat p"
    and "unat p \<le> unat (G_start st) + n_meta st * 65536"
  obtains i where "i \<le> n_meta st" and "p = pg st i" and "unat p = unat (G_start st) + i * 65536"
proof -
  have "65536 dvd unat p - unat (G_start st)"
    using assms by (simp add: pages_ok_def)
  then obtain i where "unat p - unat (G_start st) = 65536 * i" by (rule dvdE)
  then have eq: "unat p = unat (G_start st) + i * 65536" using assms(3) by simp
  then have i: "i \<le> n_meta st" using assms(4) by simp
  then have "p = pg st i"
    using eq unat_pg [OF assms(1)] by (simp add: word_unat_eq_iff)
  then show thesis using that i eq by blast
qed

lemma is_valid_ret_pg:
  assumes "pages_ok st" and "i \<le> n_meta st"
  shows "is_valid_ret st (pg st i) = Inr (i < n_meta st)"
proof -
  have u: "unat (pg st i) = unat (G_start st) + i * 65536" by (rule unat_pg [OF assms])
  have e: "G_start st + of_nat (n_meta st) * GPAGE_SZ = pg st (n_meta st)"
    by (simp add: pg_def)
  have "pg st i \<noteq> 0" using u assms(1) by (auto simp: pages_ok_def)
  moreover have "\<not> pg st i < G_start st" using u by (simp add: word_less_nat_alt)
  moreover have "G_start st + of_nat (n_meta st) * GPAGE_SZ \<le> pg st i \<longleftrightarrow> n_meta st \<le> i"
    unfolding e using u unat_pg [OF assms(1), of "n_meta st"] by (simp add: word_le_nat_alt)
  ultimately show ?thesis
    using get_meta_index_pg [OF assms] by (auto simp: is_valid_ret_def)
qed

lemma is_valid_ret_above:
  assumes "pages_ok st" and "unat (G_start st) + n_meta st * 65536 \<le> unat p"
  shows "is_valid_ret st p = Inr False"
proof -
  have e: "G_start st + of_nat (n_meta st) * GPAGE_SZ = pg st (n_meta st)"
    by (simp add: pg_def)
  have "p \<noteq> 0" using assms by (auto simp: pages_ok_def)
  moreover have "G_start st + of_nat (n_meta st) * GPAGE_SZ \<le> p"
    unfolding e using assms unat_pg [OF assms(1), of "n_meta st"] by (simp add: word_le_nat_alt)
  ultimately show ?thesis by (simp add: is_valid_ret_def)
qed

section \<open>What the loops compute\<close>

definition all_free :: "'a gpages_scheme \<Rightarrow> nat \<Rightarrow> nat \<Rightarrow> bool" where
  "all_free st idx n \<longleftrightarrow> (\<forall>j<n. \<not> is_alloc (Meta st (idx + j)))"

text \<open>The table after \<open>n\<close> pages from \<open>idx\<close> on were marked as one block ending at \<open>e\<close>.\<close>

definition mark :: "nat \<Rightarrow> nat \<Rightarrow> bool \<Rightarrow> addr \<Rightarrow> (nat \<Rightarrow> meta_t) \<Rightarrow> nat \<Rightarrow> meta_t" where
  "mark idx n slab e M =
     (\<lambda>j. if idx \<le> j \<and> j < idx + n then (M j)\<lparr>is_alloc := True, is_slab := slab, m_end := e\<rparr> else M j)"

definition unmark :: "nat \<Rightarrow> nat \<Rightarrow> (nat \<Rightarrow> meta_t) \<Rightarrow> nat \<Rightarrow> meta_t" where
  "unmark idx n M =
     (\<lambda>j. if idx \<le> j \<and> j < idx + n then (M j)\<lparr>is_alloc := False, m_end := 0\<rparr> else M j)"

lemma all_between_step:
  fixes i n :: nat
  assumes "i < n"
  shows "(\<forall>j. i \<le> j \<and> j < n \<longrightarrow> P j) \<longleftrightarrow> P i \<and> (\<forall>j. i + 1 \<le> j \<and> j < n \<longrightarrow> P j)"
proof -
  have "(\<forall>j. i \<le> j \<and> j < n \<longrightarrow> P j) \<longleftrightarrow> P i \<and> (\<forall>j. i < j \<and> j < n \<longrightarrow> P j)"
    using assms by (auto simp: le_less)
  then show ?thesis by (simp add: Suc_le_eq)
qed

lemma try_alloc_loop_eq:
  "idx + n \<le> META_SZ \<Longrightarrow>
   try_alloc_loop st idx n i = Inr (\<forall>j. i \<le> j \<and> j < n \<longrightarrow> \<not> is_alloc (Meta st (idx + j)))"
proof (induction "n - i" arbitrary: i)
  case 0
  then show ?case by (subst try_alloc_loop.simps) auto
next
  case (Suc d)
  then have lt: "i < n" and IH: "try_alloc_loop st idx n (i + 1) =
      Inr (\<forall>j. i + 1 \<le> j \<and> j < n \<longrightarrow> \<not> is_alloc (Meta st (idx + j)))"
    by auto
  have "meta_at st (idx + i) = Inr (Meta st (idx + i))"
    using lt Suc.prems by (simp add: meta_at_def)
  then show ?case
    using lt by (subst try_alloc_loop.simps, simp only: all_between_step [OF lt] IH) simp
qed

lemma try_alloc_loop_0:
  "idx + n \<le> META_SZ \<Longrightarrow> try_alloc_loop st idx n 0 = Inr (all_free st idx n)"
  by (simp add: try_alloc_loop_eq all_free_def)

lemma mark_0 [simp]: "mark idx 0 slab e M = M"
  by (rule ext) (auto simp: mark_def)

lemma unmark_0 [simp]: "unmark idx 0 M = M"
  by (rule ext) (auto simp: unmark_def)

lemma mark_step:
  "i < n \<Longrightarrow>
   mark (idx + (i + 1)) (n - (i + 1)) slab e (M(idx + i := (M (idx + i))\<lparr>is_alloc := True, is_slab := slab, m_end := e\<rparr>))
     = mark (idx + i) (n - i) slab e M"
  by (rule ext) (auto simp: mark_def)

lemma slow_alloc_loop_eq:
  "idx + n \<le> META_SZ \<Longrightarrow> (\<And>j. i \<le> j \<Longrightarrow> j < n \<Longrightarrow> \<not> is_alloc (Meta st (idx + j))) \<Longrightarrow>
   slow_alloc_loop idx n i e slab st = Inr (st\<lparr>Meta := mark (idx + i) (n - i) slab e (Meta st)\<rparr>)"
proof (induction "n - i" arbitrary: i st)
  case 0
  then show ?case by (subst slow_alloc_loop.simps) simp
next
  case (Suc d)
  define m where "m = (Meta st (idx + i))\<lparr>is_alloc := True, is_slab := slab, m_end := e\<rparr>"
  let ?st = "st\<lparr>Meta := (Meta st)(idx + i := m)\<rparr>"
  from Suc have lt: "i < n" and "\<not> is_alloc (Meta st (idx + i))" and "idx + i < META_SZ" by auto
  then have "slow_alloc_loop idx n i e slab st = slow_alloc_loop idx n (i + 1) e slab ?st"
    by (subst slow_alloc_loop.simps) (simp add: meta_at_def m_def)
  also have "\<dots> = Inr (?st\<lparr>Meta := mark (idx + (i + 1)) (n - (i + 1)) slab e (Meta ?st)\<rparr>)"
    using Suc.hyps(2) Suc.prems by (intro Suc.hyps(1)) auto
  also have "mark (idx + (i + 1)) (n - (i + 1)) slab e (Meta ?st) = mark (idx + i) (n - i) slab e (Meta st)"
    using mark_step [OF lt, of idx slab e "Meta st"] by (simp add: m_def)
  finally show ?case by simp
qed

lemma unmark_step:
  "i < n \<Longrightarrow>
   unmark (idx + (i + 1)) (n - (i + 1)) (M(idx + i := (M (idx + i))\<lparr>is_alloc := False, m_end := 0\<rparr>))
     = unmark (idx + i) (n - i) M"
  by (rule ext) (auto simp: unmark_def)

lemma G_free_loop_eq:
  "idx + n \<le> META_SZ \<Longrightarrow>
   (\<And>j. i \<le> j \<Longrightarrow> j < n \<Longrightarrow> is_alloc (Meta st (idx + j)) \<and> \<not> is_slab (Meta st (idx + j)) \<and>
      m_end (Meta st (idx + j)) = e) \<Longrightarrow>
   G_free_loop idx n i e st = Inr (st\<lparr>Meta := unmark (idx + i) (n - i) (Meta st)\<rparr>)"
proof (induction "n - i" arbitrary: i st)
  case 0
  then show ?case by (subst G_free_loop.simps) simp
next
  case (Suc d)
  define m where "m = (Meta st (idx + i))\<lparr>is_alloc := False, m_end := 0\<rparr>"
  let ?st = "st\<lparr>Meta := (Meta st)(idx + i := m)\<rparr>"
  from Suc have lt: "i < n" and "idx + i < META_SZ" by auto
  then have "G_free_loop idx n i e st = G_free_loop idx n (i + 1) e ?st"
    using Suc.prems(2) [of i] by (subst G_free_loop.simps) (simp add: meta_at_def m_def)
  also have "\<dots> = Inr (?st\<lparr>Meta := unmark (idx + (i + 1)) (n - (i + 1)) (Meta ?st)\<rparr>)"
    using Suc.hyps(2) Suc.prems by (intro Suc.hyps(1)) auto
  also have "unmark (idx + (i + 1)) (n - (i + 1)) (Meta ?st) = unmark (idx + i) (n - i) (Meta st)"
    using unmark_step [OF lt, of idx "Meta st"] by (simp add: m_def)
  finally show ?case by simp
qed

section \<open>The allocator is first fit\<close>

text \<open>
  Requests come in blocks of \<open>2 ^ k\<close> pages with \<open>k\<close> at most 8 (16 MiB), as \<open>kalloc\<close> and the
  slab layer make them; \<open>bsize k\<close> is the block's size in bytes.
\<close>

definition bsize :: "nat \<Rightarrow> u64" where
  "bsize k = 2 ^ (16 + k)"

lemma unat_bsize: "k \<le> 8 \<Longrightarrow> unat (bsize k) = 2 ^ (16 + k)"
  unfolding bsize_def by (rule unat_pow2) simp

lemma bsize_eq: "2 ^ k * GPAGE_SZ = bsize k"
  by (simp add: bsize_def GPAGE_SZ_def power_add)

lemma bsize_pages: "k \<le> 8 \<Longrightarrow> unat (bsize k div GPAGE_SZ) = 2 ^ k"
  by (simp add: unat_div unat_bsize power_add)

lemma bsize_dvd: "k \<le> 8 \<Longrightarrow> 65536 dvd unat (bsize k)"
  by (simp add: unat_bsize power_add)

lemma bsize_le: "k \<le> 8 \<Longrightarrow> unat (bsize k) \<le> 2 ^ 24"
  unfolding unat_bsize by (rule power_increasing) auto

lemma bsize_guards:
  assumes "k \<le> 8"
  shows "0 < bsize k" and "ROUNDUP (bsize k) GPAGE_SZ = bsize k"
proof -
  have u: "unat (bsize k) = 2 ^ (16 + k)" using assms by (rule unat_bsize)
  then show "0 < bsize k" by (simp add: word_less_nat_alt)
  have "unat (ROUNDUP (bsize k) (2 ^ 16)) = (unat (bsize k) + (2 ^ 16 - 1)) div 2 ^ 16 * 2 ^ 16"
    using bsize_le [OF assms] by (intro unat_ROUNDUP) auto
  also have "\<dots> = unat (bsize k)"
    by (simp add: u power_add)
  finally show "ROUNDUP (bsize k) GPAGE_SZ = bsize k"
    by (simp add: GPAGE_SZ_def word_unat_eq_iff)
qed

lemma ROUNDDOWN_bsize: "ROUNDDOWN p (bsize k) = p \<longleftrightarrow> 2 ^ (16 + k) dvd unat p"
  unfolding bsize_def by (rule ROUNDDOWN_id_iff)

lemma try_alloc_pg:
  assumes "pages_ok st" and "i < n_meta st" and "k \<le> 8" and "i + 2 ^ k \<le> META_SZ"
    and "2 ^ (16 + k) dvd unat (pg st i)"
  shows "try_alloc st (pg st i) (bsize k) slab = Inr (all_free st i (2 ^ k))"
proof -
  have "m_start (Meta st i) = pg st i" and "meta_at st i = Inr (Meta st i)"
    using assms(1,2) by (auto simp: pages_ok_def meta_at_def)
  moreover have "all_free st i (2 ^ k) \<Longrightarrow> \<not> is_alloc (Meta st i)"
    by (auto simp: all_free_def dest: spec [of _ 0])
  moreover have "try_alloc_loop st i (unat (bsize k div GPAGE_SZ)) 0 = Inr (all_free st i (2 ^ k))"
    using assms(3,4) by (simp add: bsize_pages try_alloc_loop_0)
  ultimately show ?thesis
    using assms bsize_guards [OF assms(3)]
    by (simp add: try_alloc_def is_valid_ret_pg get_meta_index_pg ROUNDDOWN_bsize Let_def)
qed

lemma slow_alloc_pg:
  assumes "pages_ok st" and "i < n_meta st" and "k \<le> 8" and "i + 2 ^ k \<le> META_SZ"
    and "all_free st i (2 ^ k)"
  shows "slow_alloc st (pg st i) (bsize k) slab =
    Inr (pg st i, st\<lparr>Meta := mark i (2 ^ k) slab (pg st i + bsize k) (Meta st)\<rparr>)"
proof -
  have "meta_at st i = Inr (Meta st i)"
    using assms(1,2) by (auto simp: pages_ok_def meta_at_def)
  moreover have "\<not> is_alloc (Meta st i)"
    using assms(5) by (auto simp: all_free_def dest: spec [of _ 0])
  moreover have "slow_alloc_loop i (unat (bsize k div GPAGE_SZ)) 0 (pg st i + bsize k) slab st =
      Inr (st\<lparr>Meta := mark i (2 ^ k) slab (pg st i + bsize k) (Meta st)\<rparr>)"
    using assms(3-5) slow_alloc_loop_eq [of i "2 ^ k" 0 st]
    by (simp add: bsize_pages all_free_def)
  ultimately show ?thesis
    using assms(1,2) by (simp add: slow_alloc_def get_meta_index_pg Let_def)
qed

text \<open>Page \<open>i\<close> can start a block: it is a page of the heap, aligned, and its run is free.\<close>

definition fits :: "'a gpages_scheme \<Rightarrow> nat \<Rightarrow> nat \<Rightarrow> bool" where
  "fits st k i \<longleftrightarrow> i < n_meta st \<and> 2 ^ (16 + k) dvd unat (pg st i) \<and> all_free st i (2 ^ k)"

definition take_block :: "nat \<Rightarrow> nat \<Rightarrow> bool \<Rightarrow> 'a gpages_scheme \<Rightarrow> 'a gpages_scheme" where
  "take_block k i slab st = st\<lparr>Meta := mark i (2 ^ k) slab (pg st i + bsize k) (Meta st)\<rparr>"

lemma next_aligned_page:
  assumes ok: "pages_ok st" and k: "k \<le> 8" and t: "2 ^ (16 + k) dvd unat t"
    and i: "i < n_meta st" "2 ^ (16 + k) dvd unat (pg st i)" "unat t \<le> unat (pg st i)" "pg st i \<noteq> t"
  shows "unat t + 2 ^ (16 + k) \<le> unat (pg st i)"
proof -
  have "unat t < unat (pg st i)" using i(3,4) by (simp add: word_unat_eq_iff le_less)
  moreover have "2 ^ (16 + k) dvd unat (pg st i) - unat t" using i(2) t by (rule dvd_diff_nat)
  ultimately have "2 ^ (16 + k) \<le> unat (pg st i) - unat t"
    by (intro dvd_imp_le) auto
  with \<open>unat t < unat (pg st i)\<close> show ?thesis by simp
qed

lemma G_alloc_loop_spec:
  assumes ok: "pages_ok st" and k: "k \<le> 8" and size: "n_meta st + 2 ^ k \<le> META_SZ + 1"
    and al: "2 ^ (16 + k) dvd unat t" and lo: "unat (G_start st) \<le> unat t"
    and fuel: "unat (G_start st) + n_meta st * 65536 < unat t + fuel * 65536" "0 < fuel"
  shows "(if \<exists>i. fits st k i \<and> unat t \<le> unat (pg st i)
          then \<exists>i. fits st k i \<and> unat t \<le> unat (pg st i) \<and>
                 (\<forall>j<i. unat t \<le> unat (pg st j) \<longrightarrow> \<not> fits st k j) \<and>
                 G_alloc_loop fuel t (bsize k) slab st = Inr (pg st i, (take_block k i slab st)\<lparr>G_lock := 0\<rparr>)
          else G_alloc_loop fuel t (bsize k) slab st = Inr (0, st\<lparr>G_lock := 0\<rparr>))"
  using al lo fuel
proof (induction fuel arbitrary: t)
  case 0
  then show ?case by simp
next
  case (Suc fuel)
  show ?case
  proof (cases "unat t < unat (G_start st) + n_meta st * 65536")
    case False
    have "\<not> unat t \<le> unat (pg st i)" if "fits st k i" for i
      using that False unat_pg [OF ok, of i] by (simp add: fits_def)
    then have "\<not> (\<exists>i. fits st k i \<and> unat t \<le> unat (pg st i))" by blast
    moreover have "is_valid_ret st t = Inr False"
      using False by (intro is_valid_ret_above [OF ok]) simp
    ultimately show ?thesis by auto
  next
    case True
    have "65536 dvd unat t"
      using Suc.prems(1) by (rule dvd_trans [rotated]) (simp add: power_add)
    then obtain i where i: "i \<le> n_meta st" "t = pg st i" "unat t = unat (G_start st) + i * 65536"
      using page_of_addr [OF ok, of t] Suc.prems(2) True by auto
    then have lt: "i < n_meta st" using True by simp
    have room: "i + 2 ^ k \<le> META_SZ" using lt size by simp
    have valid: "is_valid_ret st t = Inr True" using is_valid_ret_pg [OF ok i(1)] lt i(2) by simp
    have ta: "try_alloc st t (bsize k) slab = Inr (all_free st i (2 ^ k))"
      unfolding i(2) by (rule try_alloc_pg [OF ok lt k room]) (use Suc.prems(1) i(2) in simp)
    show ?thesis
    proof (cases "all_free st i (2 ^ k)")
      case True
      then have fit: "fits st k i" using lt Suc.prems(1) i(2) by (simp add: fits_def)
      have "G_alloc_loop (Suc fuel) t (bsize k) slab st = Inr (pg st i, (take_block k i slab st)\<lparr>G_lock := 0\<rparr>)"
        using valid ta slow_alloc_pg [OF ok lt k room True, of slab] True Suc.prems(1) i(2)
        by (simp add: ROUNDDOWN_bsize take_block_def)
      moreover have "\<not> unat t \<le> unat (pg st j)" if "j < i" for j
        using that lt i(3) unat_pg [OF ok, of j] by simp
      ultimately show ?thesis using fit i(2) by auto
    next
      case False
      let ?t = "t + bsize k"
      have u: "unat ?t = unat t + 2 ^ (16 + k)"
        using \<open>unat t < _\<close> ok bsize_le [OF k]
        by (subst unat_add_nowrap) (auto simp: unat_bsize [OF k] pages_ok_def)
      have iff: "fits st k j \<and> unat t \<le> unat (pg st j) \<longleftrightarrow> fits st k j \<and> unat ?t \<le> unat (pg st j)" for j
      proof -
        have "pg st j \<noteq> t" if "fits st k j"
          using that False lt ok i(2) by (auto simp: fits_def pg_inject pages_ok_def)
        then show ?thesis
          using next_aligned_page [OF ok k Suc.prems(1), of j] u by (auto simp: fits_def)
      qed
      have loop: "G_alloc_loop (Suc fuel) t (bsize k) slab st = G_alloc_loop fuel ?t (bsize k) slab st"
        using valid ta False by simp
      have "65536 \<le> (2::nat) ^ (16 + k)" by (simp add: power_add)
      then have "unat (G_start st) + n_meta st * 65536 < unat ?t + fuel * 65536"
        using Suc.prems(3) u by simp
      moreover have "0 < fuel"
      proof (rule ccontr)
        assume "\<not> 0 < fuel"
        then show False using Suc.prems(3) i(3) lt by simp
      qed
      moreover have "2 ^ (16 + k) dvd unat ?t" using u Suc.prems(1) by simp
      moreover have "unat (G_start st) \<le> unat ?t" using u Suc.prems(2) by simp
      ultimately show ?thesis
        unfolding loop using Suc.IH [of ?t] iff by (simp only:) metis
    qed
  qed
qed

lemma pages_ok_lock [simp]: "pages_ok (st\<lparr>G_lock := l\<rparr>) = pages_ok st"
  by (simp add: pages_ok_def pg_def)

lemma fits_lock [simp]: "fits (st\<lparr>G_lock := l\<rparr>) k i = fits st k i"
  by (simp add: fits_def pg_def all_free_def)

lemma take_block_lock:
  "G_lock st = 0 \<Longrightarrow> (take_block k i slab (st\<lparr>G_lock := l\<rparr>))\<lparr>G_lock := 0\<rparr> = take_block k i slab st"
  by (simp add: take_block_def pg_def)

lemma roundup_least:
  fixes g m p :: nat
  assumes "0 < m" and "m dvd p" and "g \<le> p"
  shows "(g + (m - 1)) div m * m \<le> p"
proof -
  obtain q where q: "p = m * q" using assms(2) by (rule dvdE)
  have "g + (m - 1) < m * q + m" using assms q by simp
  then have "(g + (m - 1)) div m < q + 1"
    using assms(1) by (simp add: div_less_iff_less_mult algebra_simps)
  then have "(g + (m - 1)) div m * m \<le> q * m" by (intro mult_le_mono1) simp
  then show ?thesis using q by (simp add: ac_simps)
qed

theorem G_alloc_first_fit:
  assumes ok: "pages_ok st" and lock: "G_lock st = 0" and k: "k \<le> 8"
    and size: "n_meta st + 2 ^ k \<le> META_SZ + 1"
  shows "if \<exists>i. fits st k i
         then \<exists>i. fits st k i \<and> (\<forall>j<i. \<not> fits st k j) \<and>
                G_alloc (2 ^ k) slab st = Inr (pg st i, take_block k i slab st)
         else G_alloc (2 ^ k) slab st = Inr (0, st)"
proof -
  let ?st = "st\<lparr>G_lock := 1\<rparr>" and ?t = "ROUNDUP (G_start st) (bsize k)"
  have g: "unat (G_start st) + (2 ^ (16 + k) - 1) < 2 ^ 64"
  proof -
    have "unat (G_start st) \<le> 2 ^ 63" using ok by (auto simp: pages_ok_def)
    moreover have "(2::nat) ^ (16 + k) \<le> 2 ^ 24" using bsize_le [OF k] by (simp only: unat_bsize [OF k])
    ultimately show ?thesis by simp
  qed
  have t: "unat ?t = (unat (G_start st) + (2 ^ (16 + k) - 1)) div 2 ^ (16 + k) * 2 ^ (16 + k)"
    unfolding bsize_def using k g by (intro unat_ROUNDUP) auto
  have lo: "unat (G_start st) \<le> unat ?t" unfolding t by (rule roundup_nat_bounds) simp
  have al: "2 ^ (16 + k) dvd unat ?t" unfolding t by simp
  have cover: "fits st k i \<Longrightarrow> unat ?t \<le> unat (pg ?st i)" for i
    unfolding t using unat_pg [OF ok, of i] by (intro roundup_least) (auto simp: fits_def pg_def)
  have start: "G_alloc (2 ^ k) slab st = G_alloc_loop (n_meta st + 2) ?t (bsize k) slab ?st"
    using lock by (simp add: G_alloc_def bsize_eq Let_def del: G_alloc_loop.simps)
  have fuel: "unat (G_start ?st) + n_meta ?st * 65536 < unat ?t + (n_meta st + 2) * 65536"
    using lo by simp
  have eqs: "fits ?st k i \<and> unat ?t \<le> unat (pg ?st i) \<longleftrightarrow> fits st k i"
    "unat ?t \<le> unat (pg ?st i) \<longrightarrow> \<not> fits ?st k i \<longleftrightarrow> \<not> fits st k i"
    "(take_block k i slab ?st)\<lparr>G_lock := 0\<rparr> = take_block k i slab st"
    "?st\<lparr>G_lock := 0\<rparr> = st" "pg ?st i = pg st i" for i
    using cover [of i] take_block_lock [OF lock] lock by (auto simp: pg_def)
  have "if \<exists>i. fits ?st k i \<and> unat ?t \<le> unat (pg ?st i)
        then \<exists>i. fits ?st k i \<and> unat ?t \<le> unat (pg ?st i) \<and>
               (\<forall>j<i. unat ?t \<le> unat (pg ?st j) \<longrightarrow> \<not> fits ?st k j) \<and>
               G_alloc (2 ^ k) slab st = Inr (pg ?st i, (take_block k i slab ?st)\<lparr>G_lock := 0\<rparr>)
        else G_alloc (2 ^ k) slab st = Inr (0, ?st\<lparr>G_lock := 0\<rparr>)"
    unfolding start using ok size lo fuel by (intro G_alloc_loop_spec al k) simp_all
  then show ?thesis
    using cover unfolding eqs(1,3-5) by (metis eqs(1,5))
qed

section \<open>Blocks: what the table says is allocated\<close>

text \<open>
  A block \<open>(i, e)\<close> is a maximal run of allocated pages \<open>i\<close> to \<open>e - 1\<close> that carry the end
  address of page \<open>e\<close>. The set of blocks is the abstract state of the page layer:
  \<open>G_alloc\<close> adds one block, \<open>G_free\<close> removes one.
\<close>

definition in_block :: "'a gpages_scheme \<Rightarrow> nat \<Rightarrow> nat \<Rightarrow> bool" where
  "in_block st e j \<longleftrightarrow> is_alloc (Meta st j) \<and> m_end (Meta st j) = pg st e"

definition block :: "'a gpages_scheme \<Rightarrow> nat \<Rightarrow> nat \<Rightarrow> bool" where
  "block st i e \<longleftrightarrow> i < n_meta st \<and> i < e \<and> e \<le> META_SZ \<and>
     (\<forall>j. i \<le> j \<and> j < e \<longrightarrow> in_block st e j) \<and> (\<forall>j<i. \<not> in_block st e j)"

definition blocks :: "'a gpages_scheme \<Rightarrow> (nat \<times> nat) set" where
  "blocks st = {(i, e). block st i e}"

text \<open>
  \<open>blocks_ok\<close>: an allocated page of the heap is followed by the rest of its block, all of
  one kind; a free page of the heap has no end address and is no slab.
\<close>

definition run_ok :: "'a gpages_scheme \<Rightarrow> nat \<Rightarrow> nat \<Rightarrow> bool \<Rightarrow> bool" where
  "run_ok st i e slab \<longleftrightarrow> i < e \<and> e \<le> META_SZ \<and>
     (\<forall>j. i \<le> j \<and> j < e \<longrightarrow> in_block st e j \<and> is_slab (Meta st j) = slab)"

definition blocks_ok :: "'a gpages_scheme \<Rightarrow> bool" where
  "blocks_ok st \<longleftrightarrow>
     (\<forall>i<n_meta st. (is_alloc (Meta st i) \<longrightarrow> (\<exists>e slab. run_ok st i e slab)) \<and>
                    (\<not> is_alloc (Meta st i) \<longrightarrow> m_end (Meta st i) = 0 \<and> \<not> is_slab (Meta st i)))"

lemma run_okD: "run_ok st i e slab \<Longrightarrow> i \<le> j \<Longrightarrow> j < e \<Longrightarrow> in_block st e j \<and> is_slab (Meta st j) = slab"
  by (simp add: run_ok_def)

lemma blocks_ok_run:
  assumes "blocks_ok st" and "i < n_meta st" and "is_alloc (Meta st i)"
  obtains e b where "run_ok st i e b"
  using assms unfolding blocks_ok_def by meson

lemma blocks_ok_free:
  "blocks_ok st \<Longrightarrow> i < n_meta st \<Longrightarrow> \<not> is_alloc (Meta st i) \<Longrightarrow> m_end (Meta st i) = 0 \<and> \<not> is_slab (Meta st i)"
  by (simp add: blocks_ok_def)

lemma in_block_end_unique:
  assumes "pages_ok st" and "in_block st e j" and "in_block st e' j" and "e \<le> META_SZ" and "e' \<le> META_SZ"
  shows "e = e'"
  using assms pg_inject [of st e e'] by (simp add: in_block_def)

lemma blocks_disjoint_or_equal:
  assumes "pages_ok st" and "block st i e" and "block st i' e'"
    and "i \<le> j" "j < e" "i' \<le> j" "j < e'"
  shows "i = i' \<and> e = e'"
proof -
  have "e = e'"
    using assms by (intro in_block_end_unique [of st e j]) (auto simp: block_def)
  moreover have "\<not> i < i'" and "\<not> i' < i"
    using assms \<open>e = e'\<close> by (auto simp: block_def)
  ultimately show ?thesis by simp
qed

lemma pg_bsize: "pg st i + bsize k = pg st (i + 2 ^ k)"
  by (simp add: pg_def bsize_eq [symmetric] algebra_simps)

lemma take_block_simps [simp]:
  "n_meta (take_block k i slab st) = n_meta st"
  "G_start (take_block k i slab st) = G_start st"
  "heap_end (take_block k i slab st) = heap_end st"
  "G_lock (take_block k i slab st) = G_lock st"
  "pg (take_block k i slab st) = pg st"
  by (simp_all add: take_block_def pg_def fun_eq_iff)

lemma Meta_take_block:
  "Meta (take_block k i slab st) j =
    (if i \<le> j \<and> j < i + 2 ^ k
     then (Meta st j)\<lparr>is_alloc := True, is_slab := slab, m_end := pg st (i + 2 ^ k)\<rparr> else Meta st j)"
  by (simp add: take_block_def mark_def pg_bsize)

lemma pages_ok_take_block [simp]: "pages_ok (take_block k i slab st) = pages_ok st"
proof -
  have "m_start (Meta (take_block k i slab st) j) = m_start (Meta st j)" for j
    by (simp add: Meta_take_block)
  then show ?thesis by (simp add: pages_ok_def)
qed

lemma in_block_take:
  assumes "pages_ok st" and "i + 2 ^ k \<le> META_SZ" and "e \<le> META_SZ"
  shows "in_block (take_block k i slab st) e j \<longleftrightarrow>
    (if i \<le> j \<and> j < i + 2 ^ k then e = i + 2 ^ k else in_block st e j)"
  using assms pg_inject [of st "i + 2 ^ k" e] by (auto simp: in_block_def Meta_take_block)

lemma free_not_in_block: "all_free st i n \<Longrightarrow> i \<le> j \<Longrightarrow> j < i + n \<Longrightarrow> \<not> in_block st e j"
  by (auto simp: all_free_def in_block_def dest: spec [of _ "j - i"])

lemma no_block_ends_in_free_run:
  assumes "blocks_ok st" and "pages_ok st" and "all_free st i n" and "0 < n" and "i + n \<le> META_SZ"
    and "j < n_meta st"
  shows "\<not> in_block st (i + n) j"
proof
  assume j: "in_block st (i + n) j"
  then have "is_alloc (Meta st j)" by (simp add: in_block_def)
  then obtain e b where e: "run_ok st j e b" by (rule blocks_ok_run [OF assms(1,6)])
  then have le: "j < e" "e \<le> META_SZ" by (simp_all add: run_ok_def)
  have "in_block st e j" using run_okD [OF e, of j] le by simp
  then have "e = i + n" using j le(2) assms(5) by (rule in_block_end_unique [OF assms(2)])
  have "in_block st e (e - 1)" using run_okD [OF e, of "e - 1"] le by simp
  moreover have "\<not> in_block st e (e - 1)"
    using assms(3,4) \<open>e = i + n\<close> by (intro free_not_in_block) auto
  ultimately show False by blast
qed

lemma block_take:
  assumes inv: "pages_ok st" "blocks_ok st" and fit: "fits st k i" and room: "i + 2 ^ k \<le> META_SZ"
  shows "block (take_block k i slab st) i' e' \<longleftrightarrow> block st i' e' \<or> (i' = i \<and> e' = i + 2 ^ k)"
proof -
  let ?e = "i + 2 ^ k" and ?st = "take_block k i slab st"
  have free: "all_free st i (2 ^ k)" and i: "i < n_meta st" using fit by (auto simp: fits_def)
  note ib = in_block_take [OF inv(1) room, of _ slab]
  have none: "j < n_meta st \<Longrightarrow> \<not> in_block st ?e j" for j
    by (rule no_block_ends_in_free_run [OF inv(2,1) free _ room]) simp_all
  show ?thesis
  proof (cases "e' = ?e")
    case True
    have "block ?st i ?e"
      using i room none by (auto simp: block_def ib)
    moreover have "i' = i" if "block ?st i' ?e"
      by (rule conjunct1 [OF blocks_disjoint_or_equal [of ?st i' ?e i ?e "max i i'"]])
        (use that \<open>block ?st i ?e\<close> inv(1) in \<open>auto simp: block_def\<close>)
    moreover have "\<not> block st i' ?e"
      using none by (auto simp: block_def)
    ultimately show ?thesis using True by auto
  next
    case False
    have same: "in_block ?st e' j \<longleftrightarrow> in_block st e' j" if "e' \<le> META_SZ" for j
      using ib [OF that] False free_not_in_block [OF free] by auto
    show ?thesis
      using False by (cases "e' \<le> META_SZ") (auto simp: block_def same)
  qed
qed

lemma blocks_ok_take:
  assumes inv: "pages_ok st" "blocks_ok st" and fit: "fits st k i" and room: "i + 2 ^ k \<le> META_SZ"
  shows "blocks_ok (take_block k i slab st)"
  unfolding blocks_ok_def
proof (intro allI impI)
  let ?st = "take_block k i slab st" and ?e = "i + 2 ^ k"
  fix j assume "j < n_meta ?st"
  then have j: "j < n_meta st" by simp
  have free: "all_free st i (2 ^ k)" using fit by (simp add: fits_def)
  note ib = in_block_take [OF inv(1) room, of _ slab]
  show "(is_alloc (Meta ?st j) \<longrightarrow> (\<exists>e b. run_ok ?st j e b)) \<and>
        (\<not> is_alloc (Meta ?st j) \<longrightarrow> m_end (Meta ?st j) = 0 \<and> \<not> is_slab (Meta ?st j))"
  proof (cases "i \<le> j \<and> j < ?e")
    case True
    have "in_block ?st ?e l \<and> is_slab (Meta ?st l) = slab" if "j \<le> l" "l < ?e" for l
      using that True ib [OF room, of l] by (simp add: Meta_take_block)
    then have "run_ok ?st j ?e slab" using True room by (simp add: run_ok_def)
    then show ?thesis using True by (auto simp: Meta_take_block)
  next
    case False
    then have same: "Meta ?st j = Meta st j" by (auto simp: Meta_take_block)
    show ?thesis
    proof (cases "is_alloc (Meta st j)")
      case True
      then obtain e b where e: "run_ok st j e b" by (rule blocks_ok_run [OF inv(2) j])
      then have le: "j < e" "e \<le> META_SZ" by (simp_all add: run_ok_def)
      have out: "\<not> (i \<le> l \<and> l < ?e)" if "j \<le> l" "l < e" for l
        using run_okD [OF e that] free_not_in_block [OF free] by blast
      have "in_block ?st e l \<and> is_slab (Meta ?st l) = b" if "j \<le> l" "l < e" for l
        using run_okD [OF e that] out [OF that] ib [OF le(2), of l] by (auto simp: Meta_take_block)
      then have "run_ok ?st j e b" using le by (simp add: run_ok_def)
      then show ?thesis using True same by auto
    next
      case False
      then show ?thesis using inv(2) j same by (auto simp: blocks_ok_def)
    qed
  qed
qed

section \<open>Release of a block\<close>

definition release :: "nat \<Rightarrow> nat \<Rightarrow> 'a gpages_scheme \<Rightarrow> 'a gpages_scheme" where
  "release i n st = st\<lparr>Meta := unmark i n (Meta st)\<rparr>"

lemma release_simps [simp]:
  "n_meta (release i n st) = n_meta st"
  "G_start (release i n st) = G_start st"
  "heap_end (release i n st) = heap_end st"
  "G_lock (release i n st) = G_lock st"
  "pg (release i n st) = pg st"
  by (simp_all add: release_def pg_def fun_eq_iff)

lemma Meta_release:
  "Meta (release i n st) j =
    (if i \<le> j \<and> j < i + n then (Meta st j)\<lparr>is_alloc := False, m_end := 0\<rparr> else Meta st j)"
  by (simp add: release_def unmark_def)

lemma pages_ok_release [simp]: "pages_ok (release i n st) = pages_ok st"
proof -
  have "m_start (Meta (release i n st) j) = m_start (Meta st j)" for j
    by (simp add: Meta_release)
  then show ?thesis by (simp add: pages_ok_def)
qed

lemma in_block_release:
  "in_block (release i n st) e j \<longleftrightarrow> in_block st e j \<and> \<not> (i \<le> j \<and> j < i + n)"
  by (auto simp: in_block_def Meta_release)

lemma n_pg_of_end:
  assumes ok: "pages_ok st" and "i < e" and "e \<le> META_SZ"
  shows "signed_take_bit 31 (sint (pg st e - pg st i) sdiv 65536) = int (e - i)"
proof -
  have "pg st e - pg st i = of_nat ((e - i) * 65536)"
    using assms(2) by (simp add: pg_def of_nat_page left_diff_distrib of_nat_diff)
  moreover have "(e - i) * 65536 < 2 ^ 63" using assms(3) by (simp add: META_SZ_val)
  ultimately have "sint (pg st e - pg st i) = int ((e - i) * 65536)"
    by (simp only: sint_small_word)
  moreover have "int ((e - i) * 65536) sdiv 65536 = int (e - i)"
    using assms(2) by (simp add: signed_divide_int_def sgn_mult)
  ultimately show ?thesis
    using assms(3) by (simp only:) (rule signed_take_bit_int_eq_self, simp_all add: META_SZ_val)
qed

lemma G_free_block:
  assumes ok: "pages_ok st" and lock: "G_lock st = 0" and b: "block st i e"
    and no_slab: "\<And>j. i \<le> j \<Longrightarrow> j < e \<Longrightarrow> \<not> is_slab (Meta st j)"
  shows "G_free (pg st i) st = Inr (release i (e - i) st)"
proof -
  let ?st = "st\<lparr>G_lock := 1\<rparr>"
  have i: "i < n_meta st" "i < e" "e \<le> META_SZ" using b by (auto simp: block_def)
  have ends: "is_alloc (Meta st j) \<and> \<not> is_slab (Meta st j) \<and> m_end (Meta st j) = pg st e"
    if "i \<le> j" "j < e" for j
    using b that no_slab by (auto simp: block_def in_block_def)
  have "pg st e \<noteq> 0"
    using ok i unat_pg_wide [OF ok, of e] by (auto simp: META_SZ_val pages_ok_def)
  moreover have "ROUNDDOWN (pg st i) GPAGE_SZ = pg st i"
    using page_dvd [OF ok, of i] i by (simp add: ROUNDDOWN_GPAGE)
  moreover have "get_meta_index ?st (pg st i) = Inr (int i)"
    using get_meta_index_pg [of ?st i] ok i by (simp add: pg_def)
  moreover have "meta_at ?st i = Inr (Meta st i)" and "m_start (Meta st i) = pg st i"
    using ok i by (auto simp: meta_at_def pages_ok_def)
  moreover have "m_end (Meta st i) = pg st e" using ends i by simp
  moreover have "G_free_loop i (e - i) 0 (pg st e) ?st = Inr (?st\<lparr>Meta := unmark i (e - i) (Meta st)\<rparr>)"
    using G_free_loop_eq [of i "e - i" 0 ?st "pg st e"] i ends by simp
  moreover have "nat (int e - int i) = e - i" by simp
  ultimately show ?thesis
    using lock i by (simp add: G_free_def Let_def n_pg_of_end [OF ok] release_def)
qed

lemma block_release:
  assumes ok: "pages_ok st" and b: "block st i e"
  shows "block (release i (e - i) st) i' e' \<longleftrightarrow> block st i' e' \<and> (i', e') \<noteq> (i, e)"
proof -
  have ie: "i < e" "e \<le> META_SZ" using b by (auto simp: block_def)
  then have ib: "in_block (release i (e - i) st) e' j \<longleftrightarrow> in_block st e' j \<and> \<not> (i \<le> j \<and> j < e)" for j
    by (simp add: in_block_release)
  show ?thesis
  proof
    assume new: "block (release i (e - i) st) i' e'"
    then have out: "in_block st e' j \<and> \<not> (i \<le> j \<and> j < e)" if "i' \<le> j" "j < e'" for j
      using that by (simp add: block_def ib)
    have i': "i' < n_meta st" "i' < e'" "e' \<le> META_SZ" using new by (auto simp: block_def)
    have "\<not> in_block st e' j" if "j < i'" for j
    proof
      assume j: "in_block st e' j"
      then have "i \<le> j" "j < e" using new that by (auto simp: block_def ib)
      then have "in_block st e j" using b by (simp add: block_def)
      then have "e = e'" using in_block_end_unique [OF ok _ j] ie i' by blast
      then have "i' < i" using out [of i'] i' by auto
      moreover have "in_block st e i'" using out [of i'] i' \<open>e = e'\<close> by simp
      ultimately show False using b by (simp add: block_def)
    qed
    then have "block st i' e'" using i' out by (simp add: block_def)
    moreover have "(i', e') \<noteq> (i, e)" using out [of i'] i' by auto
    ultimately show "block st i' e' \<and> (i', e') \<noteq> (i, e)" ..
  next
    assume old: "block st i' e' \<and> (i', e') \<noteq> (i, e)"
    have "\<not> (i \<le> j \<and> j < e)" if "i' \<le> j" "j < e'" for j
      using blocks_disjoint_or_equal [OF ok b, of i' e' j] old that by auto
    then show "block (release i (e - i) st) i' e'"
      using old by (simp add: block_def ib)
  qed
qed

lemma blocks_ok_release:
  assumes ok: "pages_ok st" "blocks_ok st" and b: "block st i e"
    and no_slab: "\<And>j. i \<le> j \<Longrightarrow> j < e \<Longrightarrow> \<not> is_slab (Meta st j)"
  shows "blocks_ok (release i (e - i) st)"
  unfolding blocks_ok_def
proof (intro allI impI)
  let ?st = "release i (e - i) st"
  fix j assume "j < n_meta ?st"
  then have j: "j < n_meta st" by simp
  have ie: "i < e" "e \<le> META_SZ" using b by (auto simp: block_def)
  show "(is_alloc (Meta ?st j) \<longrightarrow> (\<exists>e b. run_ok ?st j e b)) \<and>
        (\<not> is_alloc (Meta ?st j) \<longrightarrow> m_end (Meta ?st j) = 0 \<and> \<not> is_slab (Meta ?st j))"
  proof (cases "i \<le> j \<and> j < e")
    case True
    then show ?thesis using no_slab [of j] ie by (simp add: Meta_release)
  next
    case False
    then have same: "Meta ?st j = Meta st j" using ie by (auto simp: Meta_release)
    show ?thesis
    proof (cases "is_alloc (Meta st j)")
      case True
      then obtain f b where f: "run_ok st j f b" by (rule blocks_ok_run [OF ok(2) j])
      then have le: "j < f" "f \<le> META_SZ" by (simp_all add: run_ok_def)
      have out: "\<not> (i \<le> l \<and> l < e)" if "j \<le> l" "l < f" for l
      proof
        assume l: "i \<le> l \<and> l < e"
        then have "in_block st e l" using b by (simp add: block_def)
        then have "e = f"
          using run_okD [OF f that] in_block_end_unique [OF ok(1)] ie le by blast
        then have "j < i" using False le by auto
        moreover have "in_block st e j" using run_okD [OF f, of j] le \<open>e = f\<close> by simp
        ultimately show False using b by (simp add: block_def)
      qed
      have "in_block ?st f l \<and> is_slab (Meta ?st l) = b" if "j \<le> l" "l < f" for l
        using run_okD [OF f that] out [OF that] same ie by (simp add: in_block_release Meta_release)
      then have "run_ok ?st j f b" using le by (simp add: run_ok_def)
      then show ?thesis using True same by auto
    next
      case False
      then show ?thesis using ok(2) j same by (auto simp: blocks_ok_def)
    qed
  qed
qed

section \<open>Initialisation establishes the invariant\<close>

definition fresh_pages :: "nat \<Rightarrow> nat \<Rightarrow> 'a gpages_scheme \<Rightarrow> nat \<Rightarrow> meta_t" where
  "fresh_pages i n st = (\<lambda>j. if i \<le> j \<and> j < n
     then \<lparr>m_start = pg st j, m_end = 0, is_alloc = False, is_slab = False\<rparr> else Meta st j)"

lemma fresh_pages_step:
  "i < n \<Longrightarrow> fresh_pages (i + 1) n
     (st\<lparr>Meta := (Meta st)(i := \<lparr>m_start = pg st i, m_end = 0, is_alloc = False, is_slab = False\<rparr>)\<rparr>)
   = fresh_pages i n st"
  by (rule ext) (auto simp: fresh_pages_def pg_def)

lemma heap_full_iff:
  assumes "unat (G_start st) \<le> unat (heap_end st)" and "unat (heap_end st) \<le> 2 ^ 63" and "i < META_SZ"
  shows "heap_end st < G_start st + (of_nat i + 1) * GPAGE_SZ \<longleftrightarrow>
    (unat (heap_end st) - unat (G_start st)) div 65536 \<le> i"
proof -
  have e: "(of_nat i + 1) * GPAGE_SZ = of_nat (i + 1) * GPAGE_SZ" by (simp add: algebra_simps)
  have u: "unat (G_start st + of_nat (i + 1) * GPAGE_SZ) = unat (G_start st) + (i + 1) * 65536"
  proof (subst unat_add_nowrap)
    have "unat (of_nat (i + 1) * GPAGE_SZ) = (i + 1) * 65536"
      using assms(3) by (intro unat_offset) (simp add: META_SZ_val)
    then show "unat (G_start st) + unat (of_nat (i + 1) * GPAGE_SZ) = unat (G_start st) + (i + 1) * 65536"
      and "unat (G_start st) + unat (of_nat (i + 1) * GPAGE_SZ) < 2 ^ LENGTH(64)"
      using assms by (simp_all add: META_SZ_val)
  qed
  have "heap_end st < G_start st + (of_nat i + 1) * GPAGE_SZ \<longleftrightarrow>
      unat (heap_end st) - unat (G_start st) < (i + 1) * 65536"
    unfolding e word_less_nat_alt u using assms(1) by linarith
  also have "\<dots> \<longleftrightarrow> (unat (heap_end st) - unat (G_start st)) div 65536 < i + 1"
    by (simp add: div_less_iff_less_mult)
  also have "\<dots> \<longleftrightarrow> (unat (heap_end st) - unat (G_start st)) div 65536 \<le> i" by linarith
  finally show ?thesis .
qed

lemma meta_init_loop_eq:
  assumes "unat (G_start st) \<le> unat (heap_end st)" and "unat (heap_end st) \<le> 2 ^ 63"
    and "n = (unat (heap_end st) - unat (G_start st)) div 65536" and "i \<le> n" and "i \<le> META_SZ"
  shows "meta_init_loop i st =
    (if n < META_SZ then Inr (st\<lparr>Meta := fresh_pages i n st, n_meta := n\<rparr>) else Inl AssertFail)"
  using assms
proof (induction "META_SZ - i" arbitrary: i st)
  case 0
  then show ?case by (subst meta_init_loop.simps) simp
next
  case (Suc d)
  then have i: "i < META_SZ" by simp
  show ?case
  proof (cases "i = n")
    case True
    moreover have "fresh_pages n n st = Meta st" by (rule ext) (auto simp: fresh_pages_def)
    ultimately show ?thesis
      using i heap_full_iff [OF Suc.prems(1,2) i] Suc.prems(3)
      by (subst meta_init_loop.simps) simp
  next
    case False
    then have lt: "i < n" using Suc.prems(4) by simp
    let ?m = "\<lparr>m_start = pg st i, m_end = 0, is_alloc = False, is_slab = False\<rparr>"
    let ?st = "st\<lparr>Meta := (Meta st)(i := ?m)\<rparr>"
    have "meta_init_loop i st = meta_init_loop (i + 1) ?st"
      using i lt heap_full_iff [OF Suc.prems(1,2) i] Suc.prems(3)
      by (subst meta_init_loop.simps) (simp add: pg_def)
    also have "\<dots> = (if n < META_SZ then Inr (?st\<lparr>Meta := fresh_pages (i + 1) n ?st, n_meta := n\<rparr>)
        else Inl AssertFail)"
      by (rule Suc.hyps(1)) (use Suc.hyps(2) Suc.prems lt i in simp_all)
    also have "fresh_pages (i + 1) n ?st = fresh_pages i n st" by (rule fresh_pages_step [OF lt])
    finally show ?thesis by simp
  qed
qed

text \<open>The first page boundary behind the table.\<close>

definition first_page :: "nat \<Rightarrow> nat" where
  "first_page hs = (hs + 24 * META_SZ + 65535) div 65536 * 65536"

lemma G_start_init:
  assumes "unat hs \<le> 2 ^ 63"
  shows "unat (ROUNDUP (hs + SIZEOF_META * of_nat META_SZ) GPAGE_SZ) = first_page (unat hs)"
proof -
  have sz: "SIZEOF_META * of_nat META_SZ = 196608" by (simp add: SIZEOF_META_def META_SZ_val)
  have u: "unat (hs + 196608) = unat hs + 196608" using assms by (subst unat_add_nowrap) auto
  have "unat (ROUNDUP (hs + 196608) (2 ^ 16)) = (unat (hs + 196608) + (2 ^ 16 - 1)) div 2 ^ 16 * 2 ^ 16"
    using assms u by (intro unat_ROUNDUP) auto
  then show ?thesis unfolding sz by (simp add: GPAGE_SZ_def first_page_def META_SZ_val u)
qed

lemma G_init_eq:
  assumes "first_page (unat (heap_start st)) \<le> unat (heap_end st)" and "unat (heap_end st) \<le> 2 ^ 63"
    and "n = (unat (heap_end st) - first_page (unat (heap_start st))) div 65536"
  shows "G_init st =
    (if n < META_SZ
     then let st = st\<lparr>G_lock := 0, G_start := ROUNDUP (heap_start st + SIZEOF_META * of_nat META_SZ) GPAGE_SZ\<rparr>
          in Inr (st\<lparr>Meta := fresh_pages 0 n st, n_meta := n\<rparr>)
     else Inl AssertFail)"
proof -
  have "unat (heap_start st) \<le> first_page (unat (heap_start st))"
    using roundup_nat_bounds(1) [of 65536 "unat (heap_start st) + 24 * META_SZ"] by (simp add: first_page_def)
  then have "unat (heap_start st) \<le> 2 ^ 63" using assms by linarith
  then have g: "unat (ROUNDUP (heap_start st + SIZEOF_META * of_nat META_SZ) GPAGE_SZ)
      = first_page (unat (heap_start st))"
    by (rule G_start_init)
  show ?thesis
    unfolding G_init_def meta_init_def Let_def
    using meta_init_loop_eq [of "st\<lparr>G_lock := 0, G_start :=
      ROUNDUP (heap_start st + SIZEOF_META * of_nat META_SZ) GPAGE_SZ\<rparr>" n 0] assms g
    by (simp add: SPIN_INIT_def)
qed

section \<open>Properties\<close>

text \<open>The invariant of the page layer between two calls: the lock is free.\<close>

definition page_inv :: "'a gpages_scheme \<Rightarrow> bool" where
  "page_inv st \<longleftrightarrow> pages_ok st \<and> blocks_ok st \<and> G_lock st = 0"

lemma page_inv_take:
  "page_inv st \<Longrightarrow> fits st k i \<Longrightarrow> i + 2 ^ k \<le> META_SZ \<Longrightarrow> page_inv (take_block k i slab st)"
  by (simp add: page_inv_def blocks_ok_take)

lemma blocks_take:
  "page_inv st \<Longrightarrow> fits st k i \<Longrightarrow> i + 2 ^ k \<le> META_SZ \<Longrightarrow>
   blocks (take_block k i slab st) = insert (i, i + 2 ^ k) (blocks st)"
  by (auto simp: page_inv_def blocks_def block_take)

text \<open>
  A small machine for the witnesses: a heap of 2 MiB less a page above 1 MiB, as the boot leaves
  it, with zeroed memory; \<open>ex_pages\<close> is its state after \<open>G_init\<close>, with 12 pages.
\<close>

definition ex_boot :: gpages where
  "ex_boot = \<lparr>heap_start = 0x100000, heap_end = 0x1F0000, G_start = 0, G_lock = 0,
     Meta = (\<lambda>_. \<lparr>m_start = 0, m_end = 0, is_alloc = False, is_slab = False\<rparr>), n_meta = 0\<rparr>"

definition ex_pages :: gpages where
  "ex_pages = \<lparr>heap_start = 0x100000, heap_end = 0x1F0000, G_start = 0x130000, G_lock = 0,
     Meta = (\<lambda>j. \<lparr>m_start = (if j < 12 then 0x130000 + of_nat j * GPAGE_SZ else 0), m_end = 0,
                   is_alloc = False, is_slab = False\<rparr>), n_meta = 12\<rparr>"

lemma ex_first_page: "first_page 0x100000 = 0x130000"
  by (simp add: first_page_def META_SZ_val)

lemma ex_init: "G_init ex_boot = Inr ex_pages"
proof -
  have g: "ROUNDUP (0x100000 + SIZEOF_META * of_nat META_SZ) GPAGE_SZ = 0x130000"
    by (simp add: SIZEOF_META_def META_SZ_val GPAGE_SZ_def ROUNDUP_def)
  have e: "G_init ex_boot = (let st = ex_boot\<lparr>G_lock := 0, G_start := 0x130000\<rparr>
      in Inr (st\<lparr>Meta := fresh_pages 0 12 st, n_meta := 12\<rparr>))"
    using G_init_eq [of ex_boot 12] g ex_first_page by (simp add: ex_boot_def META_SZ_val)
  show ?thesis
    unfolding e Let_def by (simp add: ex_boot_def ex_pages_def fresh_pages_def pg_def fun_eq_iff)
qed

lemma ex_page_inv: "page_inv ex_pages"
  by (simp add: page_inv_def pages_ok_def blocks_ok_def ex_pages_def pg_def META_SZ_val)

lemma G_init_ok:
  assumes "first_page (unat (heap_start st)) \<le> unat (heap_end st)" and "unat (heap_end st) \<le> 2 ^ 63"
  shows "if (unat (heap_end st) - first_page (unat (heap_start st))) div 65536 < META_SZ
         then \<exists>st'. G_init st = Inr st' \<and> page_inv st' \<and>
                n_meta st' = (unat (heap_end st) - first_page (unat (heap_start st))) div 65536 \<and>
                (\<forall>i<n_meta st'. \<not> is_alloc (Meta st' i))
         else G_init st = Inl AssertFail"
proof -
  define n where "n = (unat (heap_end st) - first_page (unat (heap_start st))) div 65536"
  define st1 where "st1 = st\<lparr>G_lock := 0,
    G_start := ROUNDUP (heap_start st + SIZEOF_META * of_nat META_SZ) GPAGE_SZ\<rparr>"
  define st2 where "st2 = st1\<lparr>Meta := fresh_pages 0 n st1, n_meta := n\<rparr>"
  have "unat (heap_start st) \<le> first_page (unat (heap_start st))"
    using roundup_nat_bounds(1) [of 65536 "unat (heap_start st) + 24 * META_SZ"] by (simp add: first_page_def)
  then have g: "unat (G_start st2) = first_page (unat (heap_start st))"
    using assms G_start_init [of "heap_start st"] by (simp add: st2_def st1_def)
  have init: "G_init st = (if n < META_SZ then Inr st2 else Inl AssertFail)"
    using G_init_eq [OF assms n_def] by (simp add: st2_def st1_def Let_def)
  have fresh: "Meta st2 i = \<lparr>m_start = pg st2 i, m_end = 0, is_alloc = False, is_slab = False\<rparr>"
    if "i < n" for i
    using that by (simp add: st2_def fresh_pages_def pg_def)
  have "0 < first_page (unat (heap_start st))"
  proof -
    have "65536 \<le> unat (heap_start st) + 24 * META_SZ + 65535" by (simp add: META_SZ_val)
    then have "1 \<le> (unat (heap_start st) + 24 * META_SZ + 65535) div 65536"
      by (metis div_le_mono div_self zero_neq_numeral)
    then show ?thesis by (simp add: first_page_def)
  qed
  moreover have "65536 dvd first_page (unat (heap_start st))" by (simp add: first_page_def)
  moreover have "first_page (unat (heap_start st)) + n * 65536 \<le> unat (heap_end st)"
  proof -
    have "n * 65536 \<le> unat (heap_end st) - first_page (unat (heap_start st))"
      unfolding n_def by (rule div_times_less_eq_dividend)
    then show ?thesis using assms(1) by linarith
  qed
  moreover have "n_meta st2 = n" "heap_end st2 = heap_end st" "G_lock st2 = 0"
    by (simp_all add: st2_def st1_def)
  ultimately have "n < META_SZ \<Longrightarrow> pages_ok st2"
    using assms(2) g fresh by (simp add: pages_ok_def)
  then show ?thesis
    using init fresh \<open>n_meta st2 = n\<close> \<open>G_lock st2 = 0\<close> by (auto simp: page_inv_def blocks_ok_def simp flip: n_def)
qed

text \<open>
  \<open>G_init\<close> on a heap \<open>[start, end)\<close> sets up one entry for each whole page behind the table:
  the invariant holds, no page is allocated, the lock is free. A heap with \<open>META_SZ\<close> pages or more
  ends in \<open>assert(0)\<close>.
\<close>

theorem G_init_establishes:
  assumes "first_page (unat (heap_start st)) \<le> unat (heap_end st)" and "unat (heap_end st) \<le> 2 ^ 63"
  shows "if (unat (heap_end st) - first_page (unat (heap_start st))) div 65536 < META_SZ
         then \<exists>st'. G_init st = Inr st' \<and> page_inv st' \<and>
                n_meta st' = (unat (heap_end st) - first_page (unat (heap_start st))) div 65536 \<and>
                (\<forall>i<n_meta st'. \<not> is_alloc (Meta st' i))
         else G_init st = Inl AssertFail"
  by (rule G_init_ok [OF assms])

theorem G_init_establishes_witness:
  "\<exists>st'. G_init ex_boot = Inr st' \<and> page_inv st' \<and> n_meta st' = 12"
  using G_init_establishes [of ex_boot] ex_first_page by (auto simp: ex_boot_def META_SZ_val)

lemma G_alloc_ok:
  assumes "page_inv st" and "k \<le> 8" and "n_meta st + 2 ^ k \<le> META_SZ + 1"
  shows "if \<exists>i. fits st k i
         then \<exists>i. fits st k i \<and> (\<forall>j<i. \<not> fits st k j) \<and>
                G_alloc (2 ^ k) slab st = Inr (pg st i, take_block k i slab st)
         else G_alloc (2 ^ k) slab st = Inr (0, st)"
  using assms by (intro G_alloc_first_fit) (auto simp: page_inv_def)

lemma least_fit:
  assumes "\<exists>i. fits st k i"
  obtains i where "fits st k i" and "\<And>l. l < i \<Longrightarrow> \<not> fits st k l"
  using assms exists_least_iff [of "fits st k"] by blast

lemma G_alloc_at:
  assumes "page_inv st" and "k \<le> 8" and "n_meta st + 2 ^ k \<le> META_SZ + 1"
    and i: "fits st k i" and less: "\<And>j. j < i \<Longrightarrow> \<not> fits st k j"
  shows "G_alloc (2 ^ k) slab st = Inr (pg st i, take_block k i slab st)"
proof -
  obtain i' where i': "fits st k i'" "\<forall>j<i'. \<not> fits st k j"
      "G_alloc (2 ^ k) slab st = Inr (pg st i', take_block k i' slab st)"
    using G_alloc_ok [OF assms(1-3), of slab] i by (auto split: if_splits)
  have "\<not> i < i'" using i'(2) i by blast
  moreover have "\<not> i' < i" using less i'(1) by blast
  ultimately have "i' = i" by simp
  then show ?thesis using i'(3) by simp
qed

text \<open>
  C4: \<open>G_alloc\<close> is first fit and complete. Asked for \<open>2 ^ k\<close> pages it never faults and ends; it
  returns the lowest page of the heap that is aligned to the block's size and starts a run of that
  many free pages, marking the run, or \<open>NULL\<close> with the state unchanged when there is none. The
  bound keeps the last run inside the 8192 entries of \<open>Meta\<close>.
\<close>

theorem G_alloc_correct:
  assumes "page_inv st" and "k \<le> 8" and "n_meta st + 2 ^ k \<le> META_SZ + 1"
  shows "if \<exists>i. fits st k i
         then \<exists>i. fits st k i \<and> (\<forall>j<i. \<not> fits st k j) \<and>
                G_alloc (2 ^ k) slab st = Inr (pg st i, take_block k i slab st)
         else G_alloc (2 ^ k) slab st = Inr (0, st)"
  by (rule G_alloc_ok [OF assms])

lemma ex_fits: "fits ex_pages 0 0"
  by (simp add: fits_def all_free_def ex_pages_def pg_def)

theorem G_alloc_correct_witness:
  "\<exists>i. fits ex_pages 0 i \<and> G_alloc 1 True ex_pages = Inr (pg ex_pages i, take_block 0 i True ex_pages)"
proof -
  have "n_meta ex_pages + 2 ^ 0 \<le> META_SZ + 1" by (simp add: ex_pages_def META_SZ_val)
  from G_alloc_correct [OF ex_page_inv _ this, of True] ex_fits show ?thesis
    by (auto split: if_splits)
qed

text \<open>
  \<open>G_alloc\<close> refines the abstract allocator. When it returns a non-null address \<open>p\<close>, the set of
  blocks has gained exactly one block, which starts at \<open>p\<close>, is aligned to its size and shares no
  page with another block; the invariant holds again. When it returns \<open>NULL\<close> nothing changed.
\<close>

theorem G_alloc_refines:
  assumes inv: "page_inv st" and k: "k \<le> 8" and size: "n_meta st + 2 ^ k \<le> META_SZ + 1"
    and run: "G_alloc (2 ^ k) slab st = Inr (p, st')"
  shows "page_inv st' \<and>
    (if p = 0 then st' = st
     else \<exists>i<n_meta st. p = pg st i \<and> 2 ^ (16 + k) dvd unat p \<and>
            blocks st' = insert (i, i + 2 ^ k) (blocks st) \<and>
            (\<forall>(i', e') \<in> blocks st. e' \<le> i \<or> i + 2 ^ k \<le> i'))"
proof -
  note first_fit = G_alloc_ok [OF inv k size, of slab]
  show ?thesis
  proof (cases "\<exists>i. fits st k i")
  case False
  then show ?thesis using first_fit run inv by simp
next
  case True
  then obtain i where i: "fits st k i" "p = pg st i" "st' = take_block k i slab st"
    using first_fit run by auto
  have ok: "pages_ok st" using inv by (simp add: page_inv_def)
  have lt: "i < n_meta st" and free: "all_free st i (2 ^ k)" using i(1) by (auto simp: fits_def)
  then have room: "i + 2 ^ k \<le> META_SZ" using size by simp
  have "p \<noteq> 0" using i(2) lt unat_pg [OF ok, of i] ok by (auto simp: pages_ok_def)
  moreover have "e' \<le> i \<or> i + 2 ^ k \<le> i'" if "block st i' e'" for i' e'
  proof (rule ccontr)
    assume "\<not> (e' \<le> i \<or> i + 2 ^ k \<le> i')"
    then have m: "i \<le> max i i'" "max i i' < i + 2 ^ k" "i' \<le> max i i'" "max i i' < e'"
      using that by (auto simp: block_def)
    then have "in_block st e' (max i i')" using that by (simp add: block_def)
    then show False using free_not_in_block [OF free m(1,2)] by simp
  qed
  ultimately show ?thesis
    using i lt page_inv_take [OF inv i(1) room] blocks_take [OF inv i(1) room]
    by (auto simp: fits_def blocks_def)
  qed
qed

theorem G_alloc_refines_witness:
  "\<exists>p st'. G_alloc 1 True ex_pages = Inr (p, st') \<and> page_inv st'"
proof -
  obtain p st' where run: "G_alloc (2 ^ 0) True ex_pages = Inr (p, st')"
    using G_alloc_first_fit [of ex_pages 0 True] ex_fits ex_page_inv
    by (auto simp: page_inv_def META_SZ_val ex_pages_def split: if_splits)
  have "n_meta ex_pages + 2 ^ 0 \<le> META_SZ + 1" by (simp add: ex_pages_def META_SZ_val)
  from G_alloc_refines [OF ex_page_inv _ this run] run show ?thesis by auto
qed

lemma block_not_slab:
  assumes "page_inv st" and "block st i e" and "\<not> is_slab (Meta st i)" and "i \<le> j" "j < e"
  shows "\<not> is_slab (Meta st j)"
proof -
  have ok: "pages_ok st" "blocks_ok st" using assms(1) by (simp_all add: page_inv_def)
  have i: "i < n_meta st" "i < e" "e \<le> META_SZ" and ib: "in_block st e i" using assms(2) by (auto simp: block_def)
  then have "is_alloc (Meta st i)" by (simp add: in_block_def)
  then obtain f b where f: "run_ok st i f b" by (rule blocks_ok_run [OF ok(2) i(1)])
  then have le: "i < f" "f \<le> META_SZ" by (simp_all add: run_ok_def)
  have "f = e" using run_okD [OF f, of i] le in_block_end_unique [OF ok(1) _ ib] i(3) by simp
  then have "b = False" using run_okD [OF f, of i] le assms(3) by simp
  then show ?thesis using run_okD [OF f, of j] assms(4,5) \<open>f = e\<close> by simp
qed

text \<open>
  \<open>G_free\<close> of the first page of a block that is no slab page never fails an assertion: it
  removes exactly that block, keeps every other and the invariant.
\<close>

theorem G_free_refines:
  assumes "page_inv st" and "(i, e) \<in> blocks st" and "\<not> is_slab (Meta st i)"
  shows "\<exists>st'. G_free (pg st i) st = Inr st' \<and> page_inv st' \<and> blocks st' = blocks st - {(i, e)}"
proof (intro exI conjI)
  have ok: "pages_ok st" "blocks_ok st" "G_lock st = 0" and b: "block st i e"
    using assms by (simp_all add: page_inv_def blocks_def)
  note no_slab = block_not_slab [OF assms(1) b assms(3)]
  show "G_free (pg st i) st = Inr (release i (e - i) st)"
    by (rule G_free_block [OF ok(1,3) b no_slab])
  show "page_inv (release i (e - i) st)"
    using ok blocks_ok_release [OF ok(1,2) b no_slab] by (simp add: page_inv_def)
  show "blocks (release i (e - i) st) = blocks st - {(i, e)}"
    using block_release [OF ok(1) b] by (auto simp: blocks_def)
qed

theorem G_free_refines_witness:
  "\<exists>st'. G_free (pg ex_pages 0) (take_block 0 0 False ex_pages) = Inr st' \<and> blocks st' = {}"
proof -
  have room: "0 + 2 ^ 0 \<le> META_SZ" by (simp add: META_SZ_val)
  have none: "blocks ex_pages = {}"
    by (auto simp: blocks_def block_def in_block_def ex_pages_def)
  have "blocks (take_block 0 0 False ex_pages) = {(0, 1)}"
    using blocks_take [OF ex_page_inv ex_fits room, of False] none by simp
  moreover have "page_inv (take_block 0 0 False ex_pages)"
    by (rule page_inv_take [OF ex_page_inv ex_fits room])
  moreover have "\<not> is_slab (Meta (take_block 0 0 False ex_pages) 0)" by (simp add: Meta_take_block)
  ultimately show ?thesis
    using G_free_refines [of "take_block 0 0 False ex_pages" 0 1] by auto
qed

lemma release_take:
  assumes "blocks_ok st" and "fits st k i" and "i + 2 ^ k \<le> n_meta st"
  shows "release i (2 ^ k) (take_block k i False st) = st"
proof -
  have "Meta (release i (2 ^ k) (take_block k i False st)) j = Meta st j" for j
  proof (cases "i \<le> j \<and> j < i + 2 ^ k")
    case True
    then have "\<not> is_alloc (Meta st j)"
      using assms(2) by (auto simp: fits_def all_free_def dest: spec [of _ "j - i"])
    then have "m_end (Meta st j) = 0 \<and> \<not> is_slab (Meta st j) \<and> \<not> is_alloc (Meta st j)"
      using blocks_ok_free [OF assms(1), of j] True assms(3) by simp
    then show ?thesis using True by (simp add: Meta_release Meta_take_block)
  qed (auto simp: Meta_release Meta_take_block)
  then have "Meta (release i (2 ^ k) (take_block k i False st)) = Meta st" by (rule ext)
  then show ?thesis by (simp add: release_def take_block_def)
qed

text \<open>
  Freeing what \<open>G_alloc\<close> just returned restores the table entry by entry, when the block
  ends inside the \<open>n_meta\<close> pages.
\<close>

theorem G_alloc_free_round_trip:
  assumes inv: "page_inv st" and "k \<le> 8" and "n_meta st + 2 ^ k \<le> META_SZ + 1"
    and "G_alloc (2 ^ k) False st = Inr (pg st i, st')" and "i + 2 ^ k \<le> n_meta st"
  shows "G_free (pg st i) st' = Inr st"
proof -
  have ok: "pages_ok st" "blocks_ok st" "G_lock st = 0" using inv by (simp_all add: page_inv_def)
  have "pg st i \<noteq> 0" using unat_pg [OF ok(1), of i] assms(5) ok(1) by (auto simp: pages_ok_def)
  then obtain i' where i': "fits st k i'" "pg st i = pg st i'" "st' = take_block k i' False st"
    using G_alloc_ok [OF assms(1-3), of False] assms(4) by (auto split: if_splits)
  have "i' < n_meta st" using i' by (simp add: fits_def)
  then have "i' = i" using pg_inject [OF ok(1), of i i'] i'(2) assms(5) ok(1) by (simp add: pages_ok_def)
  have room: "i + 2 ^ k \<le> META_SZ" using assms(5) ok(1) by (simp add: pages_ok_def)
  note fit = i'(1) [unfolded \<open>i' = i\<close>]
  have b: "block (take_block k i False st) i (i + 2 ^ k)"
    using block_take [OF ok(1,2) fit room] by simp
  have "G_free (pg (take_block k i False st) i) (take_block k i False st)
      = Inr (release i (i + 2 ^ k - i) (take_block k i False st))"
    by (rule G_free_block [OF _ _ b]) (use ok in \<open>simp_all add: Meta_take_block\<close>)
  then show ?thesis
    using release_take [OF ok(2) fit assms(5)] i'(3) \<open>i' = i\<close> by simp
qed

theorem G_alloc_free_round_trip_witness:
  "\<exists>st'. G_alloc 1 False ex_pages = Inr (pg ex_pages 0, st') \<and> G_free (pg ex_pages 0) st' = Inr ex_pages"
proof -
  have sz: "n_meta ex_pages + 2 ^ 0 \<le> META_SZ + 1" "0 + 2 ^ 0 \<le> n_meta ex_pages"
    by (simp_all add: ex_pages_def META_SZ_val)
  have run: "G_alloc (2 ^ 0) False ex_pages = Inr (pg ex_pages 0, take_block 0 0 False ex_pages)"
    by (rule G_alloc_at [OF ex_page_inv _ sz(1) ex_fits]) simp_all
  show ?thesis using G_alloc_free_round_trip [OF ex_page_inv _ sz(1) run sz(2)] run by auto
qed

definition page_objs :: "'a gpages_scheme \<Rightarrow> (nat \<times> nat) set" where
  "page_objs st = {(a, n). \<exists>i e. block st i e \<and> \<not> is_slab (Meta st i) \<and> a = unat (pg st i) \<and> n = (e - i) * 65536}"

lemma free_page_no_slab:
  assumes "page_inv st" and "fits st k i" and "i \<le> l" "l < i + 2 ^ k" and "l < n_meta st"
  shows "\<not> is_slab (Meta st l)" and "\<not> block st l e"
proof -
  have free: "all_free st i (2 ^ k)" using assms(2) by (simp add: fits_def)
  have "\<not> in_block st e l" for e by (rule free_not_in_block [OF free assms(3,4)])
  then show "\<not> block st l e" by (auto simp: block_def)
  have "\<not> is_alloc (Meta st l)"
    using free assms(3,4) unfolding all_free_def by (metis le_add_diff_inverse nat_add_left_cancel_less)
  then show "\<not> is_slab (Meta st l)"
    using assms(1,5) by (auto simp: page_inv_def dest: blocks_ok_free)
qed

lemma page_objs_take:
  assumes inv: "page_inv st" and fit: "fits st k i" and room: "i + 2 ^ k \<le> META_SZ"
  shows "page_objs (take_block k i False st) = insert (unat (pg st i), 65536 * 2 ^ k) (page_objs st)"
proof -
  let ?t = "take_block k i False st"
  have ok: "pages_ok st" "blocks_ok st" using inv by (auto simp: page_inv_def)
  have i: "i < n_meta st" using fit by (simp add: fits_def)
  note bt = block_take [OF ok fit room, of False] and nb = free_page_no_slab [OF inv fit]
  have slab: "is_slab (Meta ?t l) = is_slab (Meta st l)" if "l < n_meta st" for l
    using that nb(1) [of l] by (auto simp: Meta_take_block)
  have mem: "(a, n) \<in> page_objs ?t \<longleftrightarrow>
      (\<exists>l e. (block st l e \<or> l = i \<and> e = i + 2 ^ k) \<and> \<not> is_slab (Meta st l) \<and> a = unat (pg st l) \<and> n = (e - l) * 65536)" for a n
    unfolding page_objs_def mem_Collect_eq prod.case bt take_block_simps
    using slab i by (intro ex_cong1) (auto simp: block_def)
  have "\<not> is_slab (Meta st i)" using nb(1) [of i] i by simp
  then have "(a, n) \<in> page_objs ?t \<longleftrightarrow> (a, n) \<in> page_objs st \<or> a = unat (pg st i) \<and> n = 65536 * 2 ^ k" for a n
    by (subst mem) (simp add: page_objs_def ex_disj_distrib conj_disj_distribR mult.commute)
  then show ?thesis by auto
qed

lemma page_objs_release:
  assumes inv: "page_inv st" and b: "block st i e" and no_slab: "\<not> is_slab (Meta st i)"
  shows "page_objs (release i (e - i) st) = page_objs st - {(unat (pg st i), (e - i) * 65536)}"
proof -
  let ?t = "release i (e - i) st" and ?x = "(unat (pg st i), (e - i) * 65536)"
  have ok: "pages_ok st" using inv by (simp add: page_inv_def)
  have ie: "i < e" "i < n_meta st" using b by (auto simp: block_def)
  have slab: "is_slab (Meta ?t l) = is_slab (Meta st l)" for l
    using block_not_slab [OF inv b no_slab, of l] by (auto simp: Meta_release)
  have inj: "l = i \<and> f = e" if "block st l f" "unat (pg st l) = unat (pg st i)" "(f - l) * 65536 = (e - i) * 65536" for l f
  proof -
    have lf: "l < f" "l < n_meta st" using that(1) by (auto simp: block_def)
    have "l = i" using that(2) unat_pg [OF ok, of l] unat_pg [OF ok, of i] lf ie by simp
    then show ?thesis using that(3) lf ie by simp
  qed
  have mem: "(a, n) \<in> page_objs ?t \<longleftrightarrow>
      (\<exists>l f. (block st l f \<and> (l, f) \<noteq> (i, e)) \<and> \<not> is_slab (Meta st l) \<and> a = unat (pg st l) \<and> n = (f - l) * 65536)" for a n
    by (simp add: page_objs_def block_release [OF ok b] slab)
  show ?thesis
  proof (rule set_eqI, clarify)
    fix a n
    show "(a, n) \<in> page_objs ?t \<longleftrightarrow> (a, n) \<in> page_objs st - {?x}"
      unfolding mem using inj by (fastforce simp: page_objs_def)
  qed
qed

lemma page_objs_apart:
  assumes inv: "page_inv st" and x: "x \<in> page_objs st" and y: "y \<in> page_objs st" and "x \<noteq> y"
  shows "apart x y"
proof -
  have ok: "pages_ok st" using inv by (simp add: page_inv_def)
  obtain i e where i: "block st i e" "x = (unat (pg st i), (e - i) * 65536)" using x by (auto simp: page_objs_def)
  obtain l f where l: "block st l f" "y = (unat (pg st l), (f - l) * 65536)" using y by (auto simp: page_objs_def)
  have le: "i < n_meta st" "i < e" "l < n_meta st" "l < f" using i(1) l(1) by (auto simp: block_def)
  have "e \<le> l \<or> f \<le> i"
  proof (rule ccontr)
    assume "\<not> (e \<le> l \<or> f \<le> i)"
    then have "i = l \<and> e = f" using blocks_disjoint_or_equal [OF ok i(1) l(1), of "max i l"] le by auto
    then show False using i(2) l(2) assms(4) by simp
  qed
  then show ?thesis using i(2) l(2) unat_pg [OF ok, of i] unat_pg [OF ok, of l] le by (auto simp: apart_def)
qed

section \<open>The page layer as an allocator\<close>

definition pages_inv :: "gpages \<Rightarrow> bool" where
  "pages_inv st \<longleftrightarrow> page_inv st \<and> n_meta st + 255 \<le> META_SZ"

lemma n_meta_bound:
  assumes "n_meta st + 255 \<le> META_SZ" and "k \<le> 8"
  shows "n_meta st + 2 ^ k \<le> META_SZ + 1"
proof -
  have "(2::nat) ^ k \<le> 2 ^ 8" using assms(2) by (intro power_increasing) simp_all
  then show ?thesis using assms(1) by simp
qed

lemma pages_get:
  assumes inv: "pages_inv st" and k: "k \<le> 8"
  shows "\<exists>p st'. G_alloc (2 ^ k) False st = Inr (p, st') \<and> pages_inv st' \<and>
    (if p = 0 then page_objs st' = page_objs st
     else (unat p, 65536 * 2 ^ k) \<notin> page_objs st \<and> page_objs st' = insert (unat p, 65536 * 2 ^ k) (page_objs st))"
proof (cases "\<exists>i. fits st k i")
  case False
  then show ?thesis using G_alloc_ok [of st k False] n_meta_bound [OF _ k] inv k by (auto simp: pages_inv_def)
next
  case True
  then obtain i where i: "fits st k i" "\<And>l. l < i \<Longrightarrow> \<not> fits st k l" by (rule least_fit) auto
  have pinv: "page_inv st" "pages_ok st" and size: "n_meta st + 2 ^ k \<le> META_SZ + 1"
    using inv n_meta_bound [OF _ k] by (auto simp: pages_inv_def page_inv_def)
  have lt: "i < n_meta st" using i(1) by (simp add: fits_def)
  then have room: "i + 2 ^ k \<le> META_SZ" using size by simp
  have "pg st i \<noteq> 0" using unat_pg [OF pinv(2), of i] lt pinv(2) by (auto simp: pages_ok_def)
  moreover have "(unat (pg st i), 65536 * 2 ^ k) \<notin> page_objs st"
  proof
    assume "(unat (pg st i), 65536 * 2 ^ k) \<in> page_objs st"
    then obtain l e where l: "block st l e" "unat (pg st i) = unat (pg st l)" by (auto simp: page_objs_def)
    then have "l = i" using unat_pg [OF pinv(2), of i] unat_pg [OF pinv(2), of l] lt by (auto simp: block_def)
    then show False using free_page_no_slab(2) [OF pinv(1) i(1), of i e] lt l(1) by simp
  qed
  ultimately show ?thesis
    using G_alloc_at [OF pinv(1) k size i, of False] page_objs_take [OF pinv(1) i(1) room]
      page_inv_take [OF pinv(1) i(1) room] inv by (simp add: pages_inv_def)
qed

lemma pages_put:
  assumes inv: "pages_inv st" and o: "(unat p, n) \<in> page_objs st"
  shows "\<exists>st'. G_free p st = Inr st' \<and> pages_inv st' \<and> page_objs st' = page_objs st - {(unat p, n)}"
proof -
  have pinv: "page_inv st" and ok: "pages_ok st" "blocks_ok st" "G_lock st = 0"
    using inv by (auto simp: pages_inv_def page_inv_def)
  obtain i e where i: "block st i e" "\<not> is_slab (Meta st i)" "unat p = unat (pg st i)" "n = (e - i) * 65536"
    using o by (auto simp: page_objs_def)
  have p: "p = pg st i" using i(3) by (simp add: word_unat_eq_iff)
  note ns = block_not_slab [OF pinv i(1,2)]
  have "page_inv (release i (e - i) st)"
    using ok blocks_ok_release [OF ok(1,2) i(1) ns] by (simp add: page_inv_def)
  moreover have "G_free p st = Inr (release i (e - i) st)"
    unfolding p by (rule G_free_block [OF ok(1,3) i(1) ns])
  ultimately show ?thesis using page_objs_release [OF pinv i(1,2)] inv i(4) p by (simp add: pages_inv_def)
qed

interpretation pages: allocator pages_inv page_objs "\<lambda>k. G_alloc (2 ^ k) False" G_free "\<lambda>k. k \<le> 8" "\<lambda>k. 65536 * 2 ^ k"
proof (unfold_locales, goal_cases)
  case (1 s r)
  then show ?case by (rule pages_get)
next
  case (2 s p n)
  then show ?case by (rule pages_put)
next
  case (3 s x y)
  then show ?case by (intro page_objs_apart) (simp_all add: pages_inv_def)
qed

text \<open>
  Whatever a program of page allocations and releases does, it runs to its end without a fault
  and the blocks it holds never overlap. The bound keeps every search inside \<open>Meta\<close>.
\<close>

theorem page_client_safe:
  assumes "page_inv st" and "n_meta st + 255 \<le> META_SZ" and "page_objs st = {}"
    and "\<And>k. Get k \<in> set cs \<Longrightarrow> k \<le> 8"
  shows "\<exists>ps st'. run_calls (\<lambda>k. G_alloc (2 ^ k) False) G_free (\<lambda>k. 65536 * 2 ^ k) cs [] (st :: gpages) = Inr (ps, st') \<and>
    page_inv st' \<and> set (addrs ps) = page_objs st' \<and>
    (\<forall>i<length ps. \<forall>j<length ps. i \<noteq> j \<longrightarrow> apart (addrs ps ! i) (addrs ps ! j))"
  using pages.client_safe [of st cs] assms by (auto simp: pages_inv_def)

theorem page_client_safe_witness:
  "\<exists>ps st'. run_calls (\<lambda>k. G_alloc (2 ^ k) False) G_free (\<lambda>k. 65536 * 2 ^ k) [Get 0, Get 2, Put 1] [] ex_pages = Inr (ps, st') \<and>
    page_inv st'"
proof -
  have "n_meta ex_pages + 255 \<le> META_SZ" by (simp add: ex_pages_def META_SZ_val)
  moreover have "page_objs ex_pages = {}" by (auto simp: page_objs_def block_def in_block_def ex_pages_def)
  moreover have "k \<le> 8" if "Get k \<in> set [Get 0, Get 2, Put 1]" for k :: nat using that by auto
  ultimately have "\<exists>ps st'. run_calls (\<lambda>k. G_alloc (2 ^ k) False) G_free (\<lambda>k. 65536 * 2 ^ k) [Get 0, Get 2, Put 1] []
      ex_pages = Inr (ps, st') \<and> page_inv st' \<and> set (addrs ps) = page_objs st' \<and>
      (\<forall>i<length ps. \<forall>j<length ps. i \<noteq> j \<longrightarrow> apart (addrs ps ! i) (addrs ps ! j))"
    by (rule page_client_safe [OF ex_page_inv])
  then show ?thesis by blast
qed

text \<open>
  C40: the search only tests where a block starts. On a heap of 12 pages that begins at page 19 of
  memory and ends with page 30, a request for 8 pages gets the pages 24 to 31: the block ends
  64 KiB behind \<open>heap.end\<close>, and entry 12 of \<open>Meta\<close>, which \<open>meta_init\<close> never wrote, was read
  and marked.
\<close>

theorem G_alloc_overruns_heap:
  "\<exists>st'. G_alloc 8 False ex_pages = Inr (0x180000, st') \<and>
         heap_end ex_pages < 0x180000 + 8 * GPAGE_SZ \<and> is_alloc (Meta st' (n_meta ex_pages))"
proof -
  have pg5: "pg ex_pages 5 = 0x180000" by (simp add: pg_def ex_pages_def GPAGE_SZ_def)
  have "fits ex_pages 3 5" by (simp add: fits_def pg5) (simp add: all_free_def ex_pages_def)
  moreover have "\<not> fits ex_pages 3 j" if "j < 5" for j
  proof -
    have "j \<in> {0, 1, 2, 3, 4}" using that by auto
    then show ?thesis by (auto simp: fits_def pg_def ex_pages_def GPAGE_SZ_def)
  qed
  moreover have "n_meta ex_pages + 2 ^ 3 \<le> META_SZ + 1" by (simp add: ex_pages_def META_SZ_val)
  ultimately have "G_alloc (2 ^ 3) False ex_pages = Inr (pg ex_pages 5, take_block 3 5 False ex_pages)"
    by (intro G_alloc_at [OF ex_page_inv]) simp_all
  then have "G_alloc 8 False ex_pages = Inr (0x180000, take_block 3 5 False ex_pages)"
    by (simp add: pg5)
  moreover have "heap_end ex_pages < 0x180000 + 8 * GPAGE_SZ" by (simp add: ex_pages_def GPAGE_SZ_def)
  moreover have "is_alloc (Meta (take_block 3 5 False ex_pages) (n_meta ex_pages))"
    by (simp add: Meta_take_block) (simp add: ex_pages_def)
  ultimately show ?thesis by blast
qed

end
