(* ===== verification/Pmm_Size.thy ===== *)
theory Pmm_Size
  imports Base
begin

text \<open>
  Size classes of the physical memory manager, \<open>kernel/src/pmm.c\<close>: rounding a request up to a
  power of two (\<open>nextPower_2\<close>) and the index of its slab list (\<open>get_slab_index\<close>).
\<close>

unbundle bit_operations_syntax

section \<open>Rounding up to a power of two\<close>

definition nextPower_2 :: "u64 \<Rightarrow> u64" where
  "nextPower_2 x =
     (let x = x - 1;
          x = x OR drop_bit 1 x;
          x = x OR drop_bit 2 x;
          x = x OR drop_bit 4 x;
          x = x OR drop_bit 8 x;
          x = x OR drop_bit 16 x
      in x + 1)"

text \<open>
  The smearing steps: after the step with shift \<open>m\<close> a bit is set exactly when one of the
  \<open>2 * m\<close> bits from it upwards was set in the input.
\<close>

definition smeared :: "nat \<Rightarrow> 'a::len word \<Rightarrow> 'a word \<Rightarrow> bool" where
  "smeared m x y \<longleftrightarrow> (\<forall>n. bit y n \<longleftrightarrow> (\<exists>j<m. bit x (n + j)))"

lemma smeared_start: "smeared 1 x x"
  by (simp add: smeared_def)

lemma smeared_step:
  assumes "smeared m x y"
  shows "smeared (2 * m) x (y OR drop_bit m y)"
proof -
  have "(\<exists>j<2 * m. bit x (n + j)) \<longleftrightarrow> (\<exists>j<m. bit x (n + j)) \<or> (\<exists>j<m. bit x (m + n + j))" for n
  proof
    assume "\<exists>j<2 * m. bit x (n + j)"
    then obtain j where j: "j < 2 * m" "bit x (n + j)" by blast
    show "(\<exists>j<m. bit x (n + j)) \<or> (\<exists>j<m. bit x (m + n + j))"
    proof (cases "j < m")
      case False
      then have "j - m < m" and "bit x (m + n + (j - m))" using j by (auto simp: ac_simps)
      then show ?thesis by blast
    qed (use j in blast)
  next
    assume "(\<exists>j<m. bit x (n + j)) \<or> (\<exists>j<m. bit x (m + n + j))"
    then show "\<exists>j<2 * m. bit x (n + j)"
    proof
      assume "\<exists>j<m. bit x (m + n + j)"
      then obtain j where "j < m" "bit x (n + (m + j))" by (auto simp: ac_simps)
      then show ?thesis by (intro exI [of _ "m + j"]) simp
    qed (force intro: less_le_trans)
  qed
  then show ?thesis
    using assms by (simp add: smeared_def bit_or_iff bit_drop_bit_eq)
qed

lemma top_bit:
  assumes "x \<noteq> (0 :: 'a::len word)"
  obtains k where "bit x k" and "\<And>n. k < n \<Longrightarrow> \<not> bit x n"
    and "2 ^ k \<le> unat x" and "unat x < 2 ^ Suc k"
proof -
  from assms have "1 \<le> unat x" by (simp add: Suc_leI unat_gt_0)
  then obtain k where k: "2 ^ k \<le> unat x" "unat x < 2 ^ (k + 1)"
    using ex_power_ivl1 [of 2 "unat x"] by auto
  have bit: "bit x n \<longleftrightarrow> odd (unat x div 2 ^ n)" for n
  proof -
    have "bit x n \<longleftrightarrow> bit (unat x) n"
      by (auto simp: bit_unsigned_iff dest: bit_imp_le_length)
    then show ?thesis by (simp only: bit_iff_odd [of "unat x"])
  qed
  have "unat x div 2 ^ k = 1"
    using k by (intro div_nat_eqI) auto
  then have "bit x k" by (simp add: bit)
  moreover have "\<not> bit x n" if "k < n" for n
  proof -
    have "(2::nat) ^ (k + 1) \<le> 2 ^ n" using that by (intro power_increasing) auto
    then have "unat x div 2 ^ n = 0" using k by simp
    then show ?thesis by (simp add: bit)
  qed
  ultimately show thesis using that k by simp
qed

lemma smeared_mask:
  assumes "smeared m x y" and "bit x k" and "\<And>n. k < n \<Longrightarrow> \<not> bit x n" and "k < m"
  shows "y = mask (Suc k)"
proof (rule bit_word_eqI)
  fix n assume "n < LENGTH('a)"
  have "(\<exists>j<m. bit x (n + j)) \<longleftrightarrow> n \<le> k"
  proof
    assume "\<exists>j<m. bit x (n + j)"
    then obtain j where "bit x (n + j)" by blast
    then have "\<not> k < n + j" using assms(3) by blast
    then show "n \<le> k" by simp
  next
    assume "n \<le> k"
    then have "k - n < m" and "bit x (n + (k - n))" using assms(2,4) by auto
    then show "\<exists>j<m. bit x (n + j)" by blast
  qed
  then show "bit y n \<longleftrightarrow> bit (mask (Suc k) :: 'a word) n"
    using assms(1) \<open>n < LENGTH('a)\<close> by (simp add: smeared_def bit_mask_iff less_Suc_eq_le)
qed

lemma nextPower_2_smeared:
  obtains y where "smeared 32 (x - 1) y" and "nextPower_2 x = y + 1"
proof -
  have "smeared 32 (x - 1) (let x = x - 1; x = x OR drop_bit 1 x; x = x OR drop_bit 2 x;
      x = x OR drop_bit 4 x; x = x OR drop_bit 8 x in x OR drop_bit 16 x)"
    unfolding Let_def
    using smeared_step [OF smeared_step [OF smeared_step [OF smeared_step [OF smeared_step
            [OF smeared_start [of "x - 1"]]]]]]
    by simp
  then show thesis
    by (rule that) (simp add: nextPower_2_def Let_def)
qed

lemma nextPower_2_1: "nextPower_2 1 = 1"
  by (simp add: nextPower_2_def)

lemma nextPower_2_nat:
  assumes "1 \<le> unat x" and "unat x \<le> 2 ^ 32"
  obtains k where "k \<le> 32" and "nextPower_2 x = 2 ^ k" and "unat x \<le> 2 ^ k" and "2 ^ k < 2 * unat x"
proof (cases "x = 1")
  case True
  then show thesis using that [of 0] by (simp add: nextPower_2_1)
next
  case False
  have pred: "unat (x - 1) = unat x - 1"
    using assms(1) by (simp add: unat_sub_if_size)
  have "x - 1 \<noteq> 0" using False by simp
  then obtain k where k: "bit (x - 1) k" "\<And>n. k < n \<Longrightarrow> \<not> bit (x - 1) n"
      "2 ^ k \<le> unat (x - 1)" "unat (x - 1) < 2 ^ Suc k"
    by (metis top_bit)
  have "(2::nat) ^ k < 2 ^ 32" using k(3) pred assms by linarith
  then have lt: "k < 32" by (rule power_less_imp_less_exp [rotated]) simp
  obtain y where y: "smeared 32 (x - 1) y" "nextPower_2 x = y + 1"
    by (rule nextPower_2_smeared)
  have "y = mask (Suc k)" using smeared_mask [OF y(1) k(1,2) lt] .
  then have "nextPower_2 x = 2 ^ Suc k" using y(2) by (simp add: mask_eq_exp_minus_1)
  moreover have "unat x \<le> 2 ^ Suc k" using k(4) pred by simp
  moreover have "2 ^ Suc k < 2 * unat x" using k(3) pred assms(1) by simp
  ultimately show thesis using that [of "Suc k"] lt by simp
qed


text \<open>Inputs outside the range: zero wraps around to zero, and so does the halting case below.\<close>

lemma nextPower_2_0: "nextPower_2 0 = 0"
  by (simp add: nextPower_2_def)

text \<open>
  The shifts stop at 16, so only the 32 bits below a set bit are filled: beyond \<open>2 ^ 32\<close> the
  result need not be a power of two. \<open>kalloc\<close> never gets there, it refuses sizes over 16 MiB.
\<close>

lemma nextPower_2_limit: "nextPower_2 (2 ^ 32 + 1) = 2 ^ 33 - 1"
  by (simp add: nextPower_2_def)

lemma nextPower_2_pow2:
  assumes "k \<le> 32"
  shows "nextPower_2 (2 ^ k) = 2 ^ k"
proof -
  have u: "unat (2 ^ k :: u64) = 2 ^ k" using assms by (simp add: unat_pow2)
  have "(2::nat) ^ k \<le> 2 ^ 32" using assms by (intro power_increasing) auto
  then obtain j where j: "nextPower_2 (2 ^ k) = 2 ^ j" "(2::nat) ^ k \<le> 2 ^ j" "(2::nat) ^ j < 2 * 2 ^ k"
    using nextPower_2_nat [of "2 ^ k"] u by auto
  then have "k \<le> j" and "j < Suc k"
    by (simp_all add: power_less_imp_less_exp [of "2::nat" j "Suc k"])
  then have "j = k" by simp
  then show ?thesis using j(1) by simp
qed

section \<open>The slab index of a size class\<close>

text \<open>\<open>enum slab_index\<close>: nine lists, for 16 bytes to 4 KiB.\<close>

definition SLAB_SIZE :: nat where
  "SLAB_SIZE = 9"

function slab_index_loop :: "u64 \<Rightarrow> nat \<Rightarrow> nat" where
  "slab_index_loop x index =
     (if 16 < x then slab_index_loop (drop_bit 1 x) (index + 1) else index)"
  by pat_completeness auto
termination
proof (relation "measure (\<lambda>(x, index). unat x)")
  fix x :: u64 and index :: nat
  assume "16 < x"
  then have "0 < unat x" by (simp add: word_less_nat_alt)
  then show "((drop_bit 1 x, index + 1), (x, index)) \<in> measure (\<lambda>(x, index). unat x)"
    by (simp add: drop_bit_eq_div unat_div)
qed simp

declare slab_index_loop.simps [simp del]

definition get_slab_index :: "u64 \<Rightarrow> nat res" where
  "get_slab_index x =
     res_bind (guard AssertFail (x = nextPower_2 x)) (\<lambda>_.
       let index = slab_index_loop x 0
       in res_bind (guard AssertFail (index < SLAB_SIZE)) (\<lambda>_. Inr index))"


lemma slab_index_loop_pow2:
  "k \<le> 32 \<Longrightarrow> slab_index_loop (2 ^ k) i = i + (k - 4)"
proof (induction k arbitrary: i)
  case 0
  show ?case by (subst slab_index_loop.simps) simp
next
  case (Suc k)
  have u: "unat (2 ^ Suc k :: u64) = 2 ^ Suc k" using Suc.prems by (intro unat_pow2) simp
  have gt: "(16 :: u64) < 2 ^ Suc k \<longleftrightarrow> 4 \<le> k"
  proof -
    have "(16 :: u64) < 2 ^ Suc k \<longleftrightarrow> (2::nat) ^ 4 < 2 ^ Suc k"
      by (simp add: word_less_nat_alt u del: power_Suc)
    also have "\<dots> \<longleftrightarrow> 4 < Suc k" by (rule power_strict_increasing_iff) simp
    also have "\<dots> \<longleftrightarrow> 4 \<le> k" by linarith
    finally show ?thesis .
  qed
  have half: "drop_bit 1 (2 ^ Suc k :: u64) = 2 ^ k"
  proof (rule word_unat_eq_iff [THEN iffD2])
    show "unat (drop_bit 1 (2 ^ Suc k :: u64)) = unat (2 ^ k :: u64)"
      using Suc.prems u by (simp add: drop_bit_eq_div unat_div unat_pow2)
  qed
  show ?case
    using Suc gt half by (subst slab_index_loop.simps, simp del: power_Suc) linarith
qed

lemma get_slab_index_pow2:
  "k \<le> 32 \<Longrightarrow> get_slab_index (2 ^ k) = (if k \<le> 12 then Inr (k - 4) else Inl AssertFail)"
  by (auto simp: get_slab_index_def nextPower_2_pow2 slab_index_loop_pow2 SLAB_SIZE_def Let_def)

lemma get_slab_index_other:
  "x \<noteq> nextPower_2 x \<Longrightarrow> get_slab_index x = Inl AssertFail"
  by (simp add: get_slab_index_def)

section \<open>Properties\<close>

text \<open>
  For every size from 1 to \<open>2 ^ 32\<close>, \<open>nextPower_2\<close> is the least power of two that holds it.
\<close>

theorem nextPower_2_least:
  assumes "1 \<le> unat x" and "unat x \<le> 2 ^ 32"
  shows "\<exists>k\<le>32. nextPower_2 x = 2 ^ k \<and> unat x \<le> 2 ^ k \<and> (\<forall>j<k. 2 ^ j < unat x)"
proof -
  obtain k where k: "k \<le> 32" "nextPower_2 x = 2 ^ k" "unat x \<le> 2 ^ k" "2 ^ k < 2 * unat x"
    using nextPower_2_nat [OF assms] by blast
  have "2 ^ j < unat x" if "j < k" for j
  proof -
    have "(2::nat) ^ Suc j \<le> 2 ^ k" using that by (intro power_increasing) simp_all
    then show ?thesis using k(4) by simp
  qed
  then show ?thesis using k by blast
qed

theorem nextPower_2_least_witness:
  "\<exists>k\<le>32. nextPower_2 100 = 2 ^ k \<and> (100::nat) \<le> 2 ^ k \<and> (\<forall>j<k. (2::nat) ^ j < 100)"
  using nextPower_2_least [of 100] by simp

text \<open>
  For a request of 1 to 4096 bytes, \<open>get_slab_index\<close> of the rounded size never fails its
  assertions and picks the smallest of the nine classes that holds the request.
\<close>

theorem get_slab_index_smallest_class:
  assumes "1 \<le> unat x" and "unat x \<le> 4096"
  shows "\<exists>i<SLAB_SIZE. get_slab_index (nextPower_2 x) = Inr i \<and> unat x \<le> 2 ^ (i + 4) \<and> (\<forall>j<i. 2 ^ (j + 4) < unat x)"
proof -
  obtain k where k: "k \<le> 32" "nextPower_2 x = 2 ^ k" "unat x \<le> 2 ^ k" "2 ^ k < 2 * unat x"
    using nextPower_2_nat [of x] assms by auto
  have "(2::nat) ^ k < 2 ^ 13" using k(4) assms(2) by simp
  then have k12: "k \<le> 12" using power_less_imp_less_exp [of "2::nat" k 13] by simp
  have "unat x \<le> 2 ^ (k - 4 + 4)"
  proof -
    have "(2::nat) ^ k \<le> 2 ^ (k - 4 + 4)" by (intro power_increasing) simp_all
    then show ?thesis using k(3) by linarith
  qed
  moreover have "2 ^ (j + 4) < unat x" if "j < k - 4" for j
  proof -
    have "(2::nat) ^ Suc (j + 4) \<le> 2 ^ k" using that by (intro power_increasing) simp_all
    then have "2 * (2::nat) ^ (j + 4) \<le> 2 ^ k" by (simp only: power_Suc)
    then show ?thesis using k(4) by linarith
  qed
  moreover have "get_slab_index (nextPower_2 x) = Inr (k - 4)" "k - 4 < SLAB_SIZE"
    using get_slab_index_pow2 [OF k(1)] k(2) k12 by (simp_all add: SLAB_SIZE_def)
  ultimately show ?thesis by blast
qed

theorem get_slab_index_smallest_class_witness:
  "\<exists>i<SLAB_SIZE. get_slab_index (nextPower_2 100) = Inr i \<and> (100::nat) \<le> 2 ^ (i + 4)"
  using get_slab_index_smallest_class [of 100] by auto

end
