(* ===== verification/Pmm_Slab.thy ===== *)
theory Pmm_Slab
  imports Pmm_Page Pmm_Size
begin

text \<open>
  The slab layer of the physical memory manager, \<open>kernel/src/pmm.c\<close>: for each CPU and each of
  nine size classes a list of 64 KiB slab pages, each with a header and an address-ordered list of
  free nodes inside the page. \<open>slab_init\<close>, \<open>S_init\<close>, \<open>add_slab\<close>, \<open>slab_alloc\<close>,
  \<open>S_alloc\<close>, \<open>S_free\<close>, and what they do to the free chunks of a page.
\<close>

unbundle bit_operations_syntax

section \<open>State\<close>

record S_node_t =
  s_next :: addr
  s_size :: u64

record S_header_t =
  n_head :: addr
  h_next :: addr
  h_sz :: u64
  h_lk :: spinlock_t

text \<open>
  The slab layer adds to the page layer's globals the array \<open>Slab[8][SLAB_SIZE]\<close>, \<open>n_slab\<close>, and
  the part of the heap's memory it writes itself: the headers at the start of slab pages and the
  nodes in free chunks, as two maps from addresses. Reading where nothing was placed is
  \<open>BadAccess\<close>.
\<close>

record slabs = gpages +
  Slab :: "nat \<Rightarrow> nat \<Rightarrow> addr"
  n_slab :: nat
  hdrs :: "addr \<rightharpoonup> S_header_t"
  nodes :: "addr \<rightharpoonup> S_node_t"

text \<open>\<open>&(slab->payload)\<close>: two pointers, a \<open>size_t\<close> and an \<open>int\<close> come before it.\<close>

definition SIZEOF_HEADER :: u64 where
  "SIZEOF_HEADER = 28"

definition SLAB_CPUS :: nat where
  "SLAB_CPUS = 8"

definition hdr_at :: "slabs \<Rightarrow> addr \<Rightarrow> S_header_t res" where
  "hdr_at st s = (case hdrs st s of None \<Rightarrow> Inl BadAccess | Some h \<Rightarrow> Inr h)"

definition node_at :: "slabs \<Rightarrow> addr \<Rightarrow> S_node_t res" where
  "node_at st p = (case nodes st p of None \<Rightarrow> Inl BadAccess | Some n \<Rightarrow> Inr n)"

definition set_hdr :: "addr \<Rightarrow> S_header_t \<Rightarrow> slabs \<Rightarrow> slabs" where
  "set_hdr s h st = st\<lparr>hdrs := (hdrs st)(s \<mapsto> h)\<rparr>"

definition set_node :: "addr \<Rightarrow> S_node_t \<Rightarrow> slabs \<Rightarrow> slabs" where
  "set_node p n st = st\<lparr>nodes := (nodes st)(p \<mapsto> n)\<rparr>"

text \<open>\<open>spin_lock(&slab->lk)\<close> and \<open>spin_unlock(&slab->lk)\<close>.\<close>

definition lock_slab :: "addr \<Rightarrow> slabs \<Rightarrow> slabs res" where
  "lock_slab s st =
     res_bind (hdr_at st s) (\<lambda>h. res_bind (spin_lock (h_lk h)) (\<lambda>lk. Inr (set_hdr s (h\<lparr>h_lk := lk\<rparr>) st)))"

definition unlock_slab :: "addr \<Rightarrow> slabs \<Rightarrow> slabs res" where
  "unlock_slab s st = res_bind (hdr_at st s) (\<lambda>h. Inr (set_hdr s (h\<lparr>h_lk := spin_unlock (h_lk h)\<rparr>) st))"

section \<open>Initialisation\<close>

definition nhead_init :: "addr \<Rightarrow> u64 \<Rightarrow> slabs \<Rightarrow> slabs" where
  "nhead_init head sz st = set_node head \<lparr>s_next = 0, s_size = sz\<rparr> st"

definition slab_init :: "addr \<Rightarrow> u64 \<Rightarrow> slabs \<Rightarrow> slabs res" where
  "slab_init slab sz st =
     res_bind (guard BadAccess (slab \<noteq> 0)) (\<lambda>_.
       let head = ROUNDUP (slab + SIZEOF_HEADER) sz;
           st = set_hdr slab \<lparr>n_head = head, h_next = 0, h_sz = sz, h_lk = SPIN_INIT\<rparr> st;
           next_pg = slab + GPAGE_SZ;
           n_sz = ROUNDDOWN (next_pg - (slab + SIZEOF_HEADER)) sz
       in Inr (nhead_init head n_sz st))"

text \<open>The two loops of \<open>S_init\<close>; \<open>Slab\<close> has eight rows.\<close>

function S_init_row :: "nat \<Rightarrow> nat \<Rightarrow> slabs \<Rightarrow> slabs res" where
  "S_init_row i j st =
     (if j < SLAB_SIZE then
        res_bind (G_alloc 1 True st) (\<lambda>(slab, st).
        res_bind (guard BadAccess (i < SLAB_CPUS)) (\<lambda>_.
        let st = st\<lparr>Slab := (Slab st)(i := (Slab st i)(j := slab))\<rparr>;
            sz = push_bit (j + 4) 1
        in res_bind (slab_init slab sz st) (S_init_row i (j + 1))))
      else Inr st)"
  by pat_completeness auto
termination by (relation "measure (\<lambda>(i, j, st). SLAB_SIZE - j)") auto

text \<open>Nothing in the loop writes \<open>n_slab\<close>, so its value is the bound \<open>n\<close>.\<close>

function S_init_loop :: "nat \<Rightarrow> nat \<Rightarrow> slabs \<Rightarrow> slabs res" where
  "S_init_loop n i st =
     (if i < n then res_bind (S_init_row i 0 st) (S_init_loop n (i + 1)) else Inr st)"
  by pat_completeness auto
termination by (relation "measure (\<lambda>(n, i, st). n - i)") auto

declare S_init_row.simps [simp del] S_init_loop.simps [simp del]

definition S_init :: "nat \<Rightarrow> slabs \<Rightarrow> slabs res" where
  "S_init cpu_count st = S_init_loop cpu_count 0 (st\<lparr>n_slab := cpu_count\<rparr>)"

section \<open>Allocation\<close>

definition add_slab :: "addr \<Rightarrow> slabs \<Rightarrow> (addr \<times> slabs) res" where
  "add_slab slab st =
     res_bind (guard AssertFail (slab \<noteq> 0)) (\<lambda>_.
     res_bind (lock_slab slab st) (\<lambda>st.
     res_bind (G_alloc 1 True st) (\<lambda>(ret, st).
       if ret = 0 then res_bind (unlock_slab slab st) (\<lambda>st. Inr (0, st))
       else
         res_bind (hdr_at st slab) (\<lambda>h.
         res_bind (slab_init ret (h_sz h) st) (\<lambda>st.
         res_bind (hdr_at st slab) (\<lambda>h.
         res_bind (guard AssertFail (h_next h = 0)) (\<lambda>_.
         res_bind (unlock_slab slab (set_hdr slab (h\<lparr>h_next := ret\<rparr>) st)) (\<lambda>st.
           Inr (ret, st)))))))))"

definition slab_alloc :: "addr \<Rightarrow> u64 \<Rightarrow> slabs \<Rightarrow> (addr \<times> slabs) res" where
  "slab_alloc slab sz st =
     res_bind (lock_slab slab st) (\<lambda>st.
     res_bind (hdr_at st slab) (\<lambda>h.
     let node = n_head h in
     res_bind
       (if node \<noteq> 0 then
          res_bind (node_at st node) (\<lambda>nd.
            if s_size nd = sz then Inr (set_hdr slab (h\<lparr>n_head := s_next nd\<rparr>) st)
            else
              res_bind (guard AssertFail (sz < s_size nd)) (\<lambda>_.
              let new_node = node + sz;
                  st = set_node new_node \<lparr>s_next = s_next nd, s_size = s_size nd - sz\<rparr> st
              in Inr (set_hdr slab (h\<lparr>n_head := new_node\<rparr>) st)))
        else Inr st) (\<lambda>st.
     res_bind (unlock_slab slab st) (\<lambda>st.
     res_bind (guard AssertFail (ROUNDDOWN node sz = node)) (\<lambda>_. Inr (node, st))))))"

text \<open>
  The walk of \<open>S_alloc\<close> along the list of slab pages: the chunk found and the page it came from,
  or 0 and the last page of the list. The fuel bounds the pages visited.
\<close>

fun S_alloc_loop :: "nat \<Rightarrow> addr \<Rightarrow> addr \<Rightarrow> u64 \<Rightarrow> slabs \<Rightarrow> (addr \<times> addr \<times> slabs) res" where
  "S_alloc_loop 0 slab prev sz st = Inl OutOfFuel"
| "S_alloc_loop (Suc fuel) slab prev sz st =
     (if slab \<noteq> 0 then
        res_bind (slab_alloc slab sz st) (\<lambda>(ret, st).
          if ret \<noteq> 0 then Inr (ret, slab, st)
          else
            res_bind (lock_slab slab st) (\<lambda>st.
            res_bind (hdr_at st slab) (\<lambda>h.
            res_bind (unlock_slab slab st) (\<lambda>st.
              S_alloc_loop fuel (h_next h) slab sz st))))
      else Inr (0, prev, st))"

text \<open>
  \<open>cpu_current()\<close> and \<open>cpu_count()\<close> belong to the machine and are arguments. The second
  assertion of the code reads \<open>assert(size = nextPower_2(size))\<close>: it assigns.
\<close>

definition S_alloc :: "nat \<Rightarrow> nat \<Rightarrow> u64 \<Rightarrow> slabs \<Rightarrow> (addr \<times> slabs) res" where
  "S_alloc cpu cpu_count sz st =
     res_bind (get_slab_index sz) (\<lambda>id.
     res_bind (guard AssertFail (cpu < cpu_count)) (\<lambda>_.
     let sz = nextPower_2 sz in
     res_bind (guard AssertFail (sz \<noteq> 0)) (\<lambda>_.
     res_bind (guard BadAccess (cpu < SLAB_CPUS)) (\<lambda>_.
     res_bind (S_alloc_loop (n_meta st + 2) (Slab st cpu id) 0 sz st) (\<lambda>(ret, prev, st).
       if ret \<noteq> 0 then Inr (ret, st)
       else
         res_bind (guard AssertFail (prev \<noteq> 0)) (\<lambda>_.
         res_bind (add_slab prev st) (\<lambda>(new_slab, st).
           if new_slab = 0 then Inr (0, st)
           else
             res_bind (slab_alloc new_slab sz st) (\<lambda>(ret, st).
             res_bind (guard AssertFail (ret \<noteq> 0)) (\<lambda>_. Inr (ret, st))))))))))"

section \<open>Release\<close>

text \<open>\<open>addr_leq\<close> of pmm.h: addresses compared as unsigned integers.\<close>

definition addr_leq :: "addr \<Rightarrow> addr \<Rightarrow> bool" where
  "addr_leq a b \<longleftrightarrow> a \<le> b"

text \<open>
  The insertion loop of \<open>S_free\<close>, entered with a list that is not empty. The fuel bounds the
  nodes visited; a page has at most 4096 chunks.
\<close>

fun S_free_loop :: "nat \<Rightarrow> addr \<Rightarrow> addr \<Rightarrow> addr \<Rightarrow> addr \<Rightarrow> slabs \<Rightarrow> slabs res" where
  "S_free_loop 0 slab node prev node_head st = Inl OutOfFuel"
| "S_free_loop (Suc fuel) slab node prev node_head st =
     (if node_head \<noteq> 0 then
        if addr_leq node node_head then
          res_bind (guard AssertFail (node \<noteq> node_head)) (\<lambda>_.
          res_bind (node_at st node) (\<lambda>nd.
          let st = set_node node (nd\<lparr>s_next := node_head\<rparr>) st in
          if prev = 0 then res_bind (hdr_at st slab) (\<lambda>h. Inr (set_hdr slab (h\<lparr>n_head := node\<rparr>) st))
          else res_bind (node_at st prev) (\<lambda>pn. Inr (set_node prev (pn\<lparr>s_next := node\<rparr>) st))))
        else res_bind (node_at st node_head) (\<lambda>hn. S_free_loop fuel slab node node_head (s_next hn) st)
      else
        res_bind (node_at st node) (\<lambda>nd.
        let st = set_node node (nd\<lparr>s_next := 0\<rparr>) st in
        res_bind (node_at st prev) (\<lambda>pn. Inr (set_node prev (pn\<lparr>s_next := node\<rparr>) st))))"

definition S_free :: "addr \<Rightarrow> slabs \<Rightarrow> slabs res" where
  "S_free ptr st =
     (let slab = ROUNDDOWN ptr GPAGE_SZ in
      res_bind (lock_slab slab st) (\<lambda>st.
      res_bind (hdr_at st slab) (\<lambda>h.
      let node = ptr;
          st = set_node node \<lparr>s_next = 0, s_size = h_sz h\<rparr> st;
          node_head = n_head h
      in if node_head = 0 then unlock_slab slab (set_hdr slab (h\<lparr>n_head := node\<rparr>) st)
         else res_bind (S_free_loop 4097 slab node 0 node_head st) (unlock_slab slab))))"

section \<open>Free lists as lists of segments\<close>

text \<open>
  The nodes reachable from \<open>a\<close> are the list \<open>xs\<close> of pairs of an address and a size; \<open>segs_ok\<close>:
  the segments ascend without overlap between \<open>lo\<close> and \<open>hi\<close>, cut in whole chunks of \<open>sz\<close> bytes.
\<close>

type_synonym segs = "(addr \<times> u64) list"

fun free_list :: "(addr \<rightharpoonup> S_node_t) \<Rightarrow> addr \<Rightarrow> segs \<Rightarrow> bool" where
  "free_list m a [] \<longleftrightarrow> a = 0"
| "free_list m a ((p, n) # xs) \<longleftrightarrow>
     a = p \<and> p \<noteq> 0 \<and> (\<exists>nx. m p = Some \<lparr>s_next = nx, s_size = n\<rparr> \<and> free_list m nx xs)"

fun segs_ok :: "nat \<Rightarrow> nat \<Rightarrow> nat \<Rightarrow> segs \<Rightarrow> bool" where
  "segs_ok sz lo hi [] \<longleftrightarrow> lo \<le> hi"
| "segs_ok sz lo hi ((p, n) # xs) \<longleftrightarrow>
     lo \<le> unat p \<and> sz dvd unat p \<and> 0 < unat n \<and> sz dvd unat n \<and> segs_ok sz (unat p + unat n) hi xs"

text \<open>The addresses of the free chunks.\<close>

fun chunks :: "nat \<Rightarrow> segs \<Rightarrow> nat set" where
  "chunks sz [] = {}"
| "chunks sz ((p, n) # xs) = {a. sz dvd a \<and> unat p \<le> a \<and> a < unat p + unat n} \<union> chunks sz xs"

fun pop_chunk :: "u64 \<Rightarrow> segs \<Rightarrow> segs" where
  "pop_chunk sz [] = []"
| "pop_chunk sz ((p, n) # xs) = (if n = sz then xs else (p + sz, n - sz) # xs)"

fun put_chunk :: "u64 \<Rightarrow> addr \<Rightarrow> segs \<Rightarrow> segs" where
  "put_chunk sz p [] = [(p, sz)]"
| "put_chunk sz p ((q, n) # xs) = (if p \<le> q then (p, sz) # (q, n) # xs else (q, n) # put_chunk sz p xs)"

lemma free_list_cong:
  "(\<And>x. x \<in> fst ` set xs \<Longrightarrow> m x = m' x) \<Longrightarrow> free_list m a xs \<longleftrightarrow> free_list m' a xs"
  by (induction m a xs rule: free_list.induct) auto

lemma free_list_unique: "free_list m a xs \<Longrightarrow> free_list m a ys \<Longrightarrow> xs = ys"
proof (induction m a xs arbitrary: ys rule: free_list.induct)
  case (1 m a ys)
  then show ?case by (cases ys) auto
next
  case (2 m a p n xs ys)
  then show ?case by (cases ys) auto
qed

lemma segs_ok_le: "segs_ok sz lo hi xs \<Longrightarrow> lo \<le> hi"
  by (induction sz lo hi xs rule: segs_ok.induct) auto

lemma segs_ok_mono: "segs_ok sz lo hi xs \<Longrightarrow> lo' \<le> lo \<Longrightarrow> segs_ok sz lo' hi xs"
  by (cases "(sz, lo, hi, xs)" rule: segs_ok.cases) auto

lemma segs_okD:
  "segs_ok sz lo hi xs \<Longrightarrow> (p, n) \<in> set xs \<Longrightarrow>
   lo \<le> unat p \<and> unat p + unat n \<le> hi \<and> 0 < unat n \<and> sz dvd unat p \<and> sz dvd unat n"
proof (induction sz lo hi xs rule: segs_ok.induct)
  case (2 sz lo hi q m xs)
  then show ?case using segs_ok_le [of sz "unat q + unat m" hi xs] by force
qed simp

lemma segs_ok_addr: "segs_ok sz lo hi xs \<Longrightarrow> x \<in> fst ` set xs \<Longrightarrow> lo \<le> unat x \<and> unat x < hi"
  using segs_okD by fastforce

lemma chunks_bounds: "segs_ok sz lo hi xs \<Longrightarrow> a \<in> chunks sz xs \<Longrightarrow> lo \<le> a \<and> a < hi \<and> sz dvd a"
proof (induction sz lo hi xs rule: segs_ok.induct)
  case (2 sz lo hi q m xs)
  then show ?case using segs_ok_le [of sz "unat q + unat m" hi xs] by force
qed simp

lemma segs_ok_length: "segs_ok sz lo hi xs \<Longrightarrow> length xs * sz \<le> hi - lo"
proof (induction sz lo hi xs rule: segs_ok.induct)
  case (2 sz lo hi p n xs)
  then have "sz \<le> unat n" by (auto intro: dvd_imp_le)
  then show ?case using 2 segs_ok_le [of sz "unat p + unat n" hi xs] by auto
qed simp

lemma next_multiple:
  fixes a b m :: nat
  assumes "m dvd a" and "m dvd b" and "a < b"
  shows "a + m \<le> b"
proof -
  have "m dvd b - a" using assms by simp
  then have "m \<le> b - a" using assms(3) by (intro dvd_imp_le) simp_all
  then show ?thesis using assms(3) by simp
qed

lemma pop_chunk_ok:
  assumes "segs_ok (unat sz) lo hi ((p, n) # xs)" and "hi < 2 ^ 64"
  shows "segs_ok (unat sz) lo hi (pop_chunk sz ((p, n) # xs))"
    and "chunks (unat sz) (pop_chunk sz ((p, n) # xs)) = chunks (unat sz) ((p, n) # xs) - {unat p}"
    and "unat p \<in> chunks (unat sz) ((p, n) # xs)"
proof -
  have s: "lo \<le> unat p" "unat sz dvd unat p" "0 < unat n" "unat sz dvd unat n"
      "segs_ok (unat sz) (unat p + unat n) hi xs"
    using assms(1) by simp_all
  then have le: "unat sz \<le> unat n" "0 < unat sz" by (auto intro: dvd_imp_le gr0I)
  have hi: "unat p + unat n \<le> hi" by (rule segs_ok_le [OF s(5)])
  have u: "unat (p + sz) = unat p + unat sz" using le hi assms(2) by (subst unat_add_nowrap) auto
  have v: "unat (n - sz) = unat n - unat sz" using le by (simp add: unat_sub word_le_nat_alt)
  have eq: "n = sz \<longleftrightarrow> unat n = unat sz" by (simp add: word_unat_eq_iff)
  show "segs_ok (unat sz) lo hi (pop_chunk sz ((p, n) # xs))"
    using s le u v eq by (auto intro: segs_ok_mono)
  have step: "{a. unat sz dvd a \<and> unat p \<le> a \<and> a < unat p + unat n} - {unat p} =
      {a. unat sz dvd a \<and> unat p + unat sz \<le> a \<and> a < unat p + unat n}"
  proof -
    have "unat p + unat sz \<le> a" if "unat sz dvd a" "unat p \<le> a" "a \<noteq> unat p" for a
      by (rule next_multiple) (use that s(2) in simp_all)
    then show ?thesis using le by force
  qed
  have "unat p \<notin> chunks (unat sz) xs"
    using chunks_bounds [OF s(5), of "unat p"] s(3) by auto
  then have "chunks (unat sz) ((p, n) # xs) - {unat p}
      = {a. unat sz dvd a \<and> unat p + unat sz \<le> a \<and> a < unat p + unat n} \<union> chunks (unat sz) xs"
    using step by auto
  moreover have "{a. unat sz dvd a \<and> unat p + unat sz \<le> a \<and> a < unat p + unat sz} = {}" by auto
  ultimately show "chunks (unat sz) (pop_chunk sz ((p, n) # xs)) = chunks (unat sz) ((p, n) # xs) - {unat p}"
    using le u v by (cases "n = sz") simp_all
  show "unat p \<in> chunks (unat sz) ((p, n) # xs)" using s by simp
qed

lemma put_chunk_ok:
  assumes "segs_ok (unat sz) lo hi xs" and "0 < unat sz" and "unat sz dvd unat p" and "lo \<le> unat p"
    and "unat p + unat sz \<le> hi" and "unat p \<notin> chunks (unat sz) xs"
  shows "segs_ok (unat sz) lo hi (put_chunk sz p xs) \<and>
    chunks (unat sz) (put_chunk sz p xs) = insert (unat p) (chunks (unat sz) xs)"
  using assms
proof (induction "unat sz" lo hi xs rule: segs_ok.induct)
  have one: "{a. unat sz dvd a \<and> unat p \<le> a \<and> a < unat p + unat sz} = {unat p}"
  proof -
    have "a = unat p" if "unat sz dvd a" "unat p \<le> a" "a < unat p + unat sz" for a
    proof (rule ccontr)
      assume "a \<noteq> unat p"
      then have "unat p + unat sz \<le> a" using that assms(3) by (intro next_multiple) simp_all
      then show False using that by simp
    qed
    moreover have "unat p < unat p + unat sz" using assms(2) by simp
    ultimately show ?thesis using assms(3) by blast
  qed
  {
    case (1 lo hi)
    then show ?case using one by simp
  next
    case (2 lo hi q n xs)
    show ?case
    proof (cases "p \<le> q")
      case True
      moreover have "p \<noteq> q" using 2 by auto
      ultimately have "unat p < unat q" by (simp add: word_le_nat_alt word_unat_eq_iff)
      then have "unat p + unat sz \<le> unat q" using 2 by (intro next_multiple) simp_all
      then show ?thesis using True one 2 by auto
    next
      case False
      then have "unat q \<le> unat p" by (simp add: word_le_nat_alt)
      then have "unat q + unat n \<le> unat p" using 2 by auto
      then show ?thesis using False 2 by auto
    qed
  }
qed

section \<open>One slab page\<close>

text \<open>
  The page at \<open>s\<close> has the header \<open>h\<close>, unlocked, and its free list is \<open>xs\<close>: whole chunks of the
  page's size, behind the header and inside the page.
\<close>

definition first_chunk :: "nat \<Rightarrow> nat" where
  "first_chunk sz = (if sz = 16 then 32 else sz)"

definition slab_ok :: "slabs \<Rightarrow> addr \<Rightarrow> S_header_t \<Rightarrow> segs \<Rightarrow> bool" where
  "slab_ok st s h xs \<longleftrightarrow>
     hdrs st s = Some h \<and> h_lk h = 0 \<and> (\<exists>j<SLAB_SIZE. h_sz h = 2 ^ (j + 4)) \<and>
     65536 dvd unat s \<and> unat s < 2 ^ 63 \<and>
     free_list (nodes st) (n_head h) xs \<and>
     segs_ok (unat (h_sz h)) (unat s + first_chunk (unat (h_sz h))) (unat s + 65536) xs"

text \<open>Only the header of \<open>s\<close> and memory inside its page have changed.\<close>

definition page_frame :: "addr \<Rightarrow> slabs \<Rightarrow> S_header_t \<Rightarrow> slabs \<Rightarrow> bool" where
  "page_frame s st h st' \<longleftrightarrow>
     (\<exists>N. st' = st\<lparr>hdrs := (hdrs st)(s \<mapsto> h), nodes := N\<rparr> \<and>
          (\<forall>a. \<not> (unat s \<le> unat a \<and> unat a < unat s + 65536) \<longrightarrow> N a = nodes st a))"

lemma class_size:
  assumes "j < SLAB_SIZE"
  shows "unat (2 ^ (j + 4) :: u64) = 2 ^ (j + 4)" and "(2::nat) ^ (j + 4) dvd 4096" and "16 \<le> (2::nat) ^ (j + 4)"
    and "(2::nat) ^ (j + 4) \<le> 4096"
proof -
  have j: "j \<le> 8" using assms by (simp add: SLAB_SIZE_def)
  then show "unat (2 ^ (j + 4) :: u64) = 2 ^ (j + 4)" by (intro unat_pow2) simp
  have "(2::nat) ^ (j + 4) dvd 2 ^ 12" using j by (intro le_imp_power_dvd) simp
  then show "(2::nat) ^ (j + 4) dvd 4096" by simp
  then show "(2::nat) ^ (j + 4) \<le> 4096" by (rule dvd_imp_le) simp
  have "(2::nat) ^ 4 \<le> 2 ^ (j + 4)" by (intro power_increasing) simp_all
  then show "16 \<le> (2::nat) ^ (j + 4)" by simp
qed

lemma slab_ok_size:
  assumes "slab_ok st s h xs"
  obtains j where "j < SLAB_SIZE" and "h_sz h = 2 ^ (j + 4)" and "unat (h_sz h) = 2 ^ (j + 4)"
    and "16 \<le> unat (h_sz h)" and "unat (h_sz h) \<le> 4096"
proof -
  obtain j where j: "j < SLAB_SIZE" "h_sz h = 2 ^ (j + 4)" using assms by (auto simp: slab_ok_def)
  show thesis by (rule that [of j]) (use j class_size [OF j(1)] in simp_all)
qed

lemma hdr_eta: "h_lk h = 0 \<Longrightarrow> h\<lparr>h_lk := 0\<rparr> = (h :: S_header_t)"
  by (cases h) simp

lemma hdr_lock_back:
  "h_lk h = 0 \<Longrightarrow> h\<lparr>n_head := a, h_lk := 0\<rparr> = h\<lparr>n_head := a\<rparr>"
  "h_lk h = 0 \<Longrightarrow> h\<lparr>h_lk := 0, n_head := a\<rparr> = h\<lparr>n_head := a\<rparr>"
  by (cases h, simp)+

lemmas slab_access = lock_slab_def unlock_slab_def hdr_at_def node_at_def set_hdr_def set_node_def Let_def

lemma slab_alloc_empty:
  assumes "slab_ok st s h []"
  shows "slab_alloc s sz st = Inr (0, st)"
proof -
  have h: "hdrs st s = Some h" "h_lk h = 0" "n_head h = 0" using assms by (auto simp: slab_ok_def)
  have "ROUNDDOWN 0 sz = (0 :: u64)" by (simp add: ROUNDDOWN_def)
  then show ?thesis using h by (simp add: slab_alloc_def slab_access hdr_eta fun_upd_idem)
qed

lemma slab_alloc_nonempty:
  assumes ok: "slab_ok st s h ((p, n) # xs)"
  shows "\<exists>st' h'. slab_alloc s (h_sz h) st = Inr (p, st') \<and> page_frame s st h' st' \<and>
    slab_ok st' s h' (pop_chunk (h_sz h) ((p, n) # xs)) \<and> h_sz h' = h_sz h \<and> h_next h' = h_next h"
proof -
  let ?sz = "h_sz h"
  obtain j where j: "j < SLAB_SIZE" "?sz = 2 ^ (j + 4)" "unat ?sz = 2 ^ (j + 4)" "16 \<le> unat ?sz" "unat ?sz \<le> 4096"
    using slab_ok_size [OF ok] by blast
  obtain nx where h: "hdrs st s = Some h" "h_lk h = 0" "n_head h = p" "p \<noteq> 0" "unat s < 2 ^ 63"
      "nodes st p = Some \<lparr>s_next = nx, s_size = n\<rparr>" "free_list (nodes st) nx xs"
      "segs_ok (unat ?sz) (unat s + first_chunk (unat ?sz)) (unat s + 65536) ((p, n) # xs)"
    using ok by (auto simp: slab_ok_def)
  have hi: "unat s + 65536 < 2 ^ 64" using h(5) by simp
  have "ROUNDDOWN p ?sz = p"
    using h(8) unfolding j(2) by (subst ROUNDDOWN_id_iff) (simp add: j(3) [unfolded j(2)])
  note popped = pop_chunk_ok(1) [OF h(8) hi]
  have inp: "unat s \<le> unat p" "unat p + unat n \<le> unat s + 65536" "unat ?sz dvd unat n" "0 < unat n"
    using segs_okD [OF h(8), of p n] by auto
  show ?thesis
  proof (cases "n = ?sz")
    case True
    let ?st = "st\<lparr>hdrs := (hdrs st)(s \<mapsto> h\<lparr>n_head := nx\<rparr>)\<rparr>"
    have "slab_alloc s ?sz st = Inr (p, ?st)"
      using h True \<open>ROUNDDOWN p ?sz = p\<close> by (simp add: slab_alloc_def slab_access hdr_lock_back)
    moreover have "page_frame s st (h\<lparr>n_head := nx\<rparr>) ?st"
      by (auto simp: page_frame_def intro!: exI [of _ "nodes st"])
    moreover have "slab_ok ?st s (h\<lparr>n_head := nx\<rparr>) (pop_chunk ?sz ((p, n) # xs))"
      using ok h popped True by (auto simp: slab_ok_def)
    ultimately show ?thesis by fastforce
  next
    case False
    let ?q = "p + ?sz"
    let ?N = "(nodes st)(?q \<mapsto> \<lparr>s_next = nx, s_size = n - ?sz\<rparr>)"
    let ?st = "st\<lparr>hdrs := (hdrs st)(s \<mapsto> h\<lparr>n_head := ?q\<rparr>), nodes := ?N\<rparr>"
    have "unat ?sz \<le> unat n" using inp by (auto dest: dvd_imp_le)
    then have lt: "?sz < n" using False by (simp add: word_less_nat_alt word_unat_eq_iff)
    have u: "unat ?q = unat p + unat ?sz" using inp hi lt by (subst unat_add_nowrap) (auto simp: word_less_nat_alt)
    have "slab_alloc s ?sz st = Inr (p, ?st)"
      using h False lt \<open>ROUNDDOWN p ?sz = p\<close> by (simp add: slab_alloc_def slab_access hdr_lock_back)
    moreover have "page_frame s st (h\<lparr>n_head := ?q\<rparr>) ?st"
      using u inp lt by (auto simp: page_frame_def word_less_nat_alt intro!: exI [of _ ?N])
    moreover have "slab_ok ?st s (h\<lparr>n_head := ?q\<rparr>) (pop_chunk ?sz ((p, n) # xs))"
    proof -
      have "x \<noteq> ?q" if "x \<in> fst ` set xs" for x
        using segs_ok_addr [of "unat ?sz" "unat p + unat n" "unat s + 65536" xs x] h(8) that u lt
        by (auto simp: word_less_nat_alt)
      then have "free_list ?N nx xs" using h(7) by (subst free_list_cong [of _ _ "nodes st"]) auto
      moreover have "?q \<noteq> 0"
      proof
        assume "?q = 0"
        then show False using u j(4) by simp
      qed
      ultimately show ?thesis using ok h popped False by (auto simp: slab_ok_def)
    qed
    ultimately show ?thesis by fastforce
  qed
qed

lemma S_free_loop_tail:
  assumes "free_list (nodes st) h0 xs" and "nodes st prev = Some \<lparr>s_next = h0, s_size = m\<rparr>"
    and "distinct (ptr # prev # List.map fst xs)" and "nodes st ptr = Some \<lparr>s_next = nx, s_size = sz\<rparr>"
    and "ptr \<noteq> 0" and "prev \<noteq> 0" and "length xs < fuel"
  shows "\<exists>N. S_free_loop fuel slab ptr prev h0 st = Inr (st\<lparr>nodes := N\<rparr>) \<and>
    free_list N prev ((prev, m) # put_chunk sz ptr xs) \<and>
    (\<forall>a. a \<noteq> ptr \<and> a \<noteq> prev \<and> a \<notin> fst ` set xs \<longrightarrow> N a = nodes st a)"
  using assms
proof (induction xs arbitrary: fuel h0 prev m)
  case Nil
  then obtain f where f: "fuel = Suc f" by (cases fuel) auto
  let ?N = "(nodes st)(ptr \<mapsto> \<lparr>s_next = 0, s_size = sz\<rparr>, prev \<mapsto> \<lparr>s_next = ptr, s_size = m\<rparr>)"
  have "S_free_loop fuel slab ptr prev h0 st = Inr (st\<lparr>nodes := ?N\<rparr>)"
    using Nil f by (simp add: slab_access)
  moreover have "free_list ?N prev ((prev, m) # put_chunk sz ptr [])" using Nil by simp
  moreover have "\<forall>a. a \<noteq> ptr \<and> a \<noteq> prev \<and> a \<notin> fst ` set [] \<longrightarrow> ?N a = nodes st a" by simp
  ultimately show ?case by blast
next
  case (Cons x xs)
  obtain q n where x: "x = (q, n)" by (cases x)
  obtain f where f: "fuel = Suc f" using Cons.prems by (cases fuel) auto
  obtain nq where q: "h0 = q" "q \<noteq> 0" "nodes st q = Some \<lparr>s_next = nq, s_size = n\<rparr>" "free_list (nodes st) nq xs"
    using Cons.prems(1) x by auto
  have dist: "ptr \<noteq> prev" "ptr \<noteq> q" "prev \<noteq> q" "ptr \<notin> fst ` set xs" "prev \<notin> fst ` set xs" "q \<notin> fst ` set xs"
    using Cons.prems(3) x by auto
  show ?case
  proof (cases "ptr \<le> q")
    case True
    let ?N = "(nodes st)(ptr \<mapsto> \<lparr>s_next = q, s_size = sz\<rparr>, prev \<mapsto> \<lparr>s_next = ptr, s_size = m\<rparr>)"
    have "S_free_loop fuel slab ptr prev h0 st = Inr (st\<lparr>nodes := ?N\<rparr>)"
      using Cons.prems f q dist True by (simp add: slab_access addr_leq_def)
    moreover have "free_list ?N nq xs"
      using q(4) dist by (subst free_list_cong [of _ _ "nodes st"]) auto
    then have "free_list ?N prev ((prev, m) # put_chunk sz ptr (x # xs))"
      using Cons.prems(5,6) q dist x True by simp
    moreover have "\<forall>a. a \<noteq> ptr \<and> a \<noteq> prev \<and> a \<notin> fst ` set (x # xs) \<longrightarrow> ?N a = nodes st a" by simp
    ultimately show ?thesis by blast
  next
    case False
    have "\<exists>N. S_free_loop f slab ptr q nq st = Inr (st\<lparr>nodes := N\<rparr>) \<and>
        free_list N q ((q, n) # put_chunk sz ptr xs) \<and>
        (\<forall>a. a \<noteq> ptr \<and> a \<noteq> q \<and> a \<notin> fst ` set xs \<longrightarrow> N a = nodes st a)"
      using Cons.prems f q dist x by (intro Cons.IH) auto
    then obtain N where N: "S_free_loop f slab ptr q nq st = Inr (st\<lparr>nodes := N\<rparr>)"
        "free_list N q ((q, n) # put_chunk sz ptr xs)"
        "\<And>a. a \<noteq> ptr \<Longrightarrow> a \<noteq> q \<Longrightarrow> a \<notin> fst ` set xs \<Longrightarrow> N a = nodes st a"
      by blast
    have "S_free_loop fuel slab ptr prev h0 st = Inr (st\<lparr>nodes := N\<rparr>)"
      using f q False N(1) by (simp add: slab_access addr_leq_def)
    moreover have "N prev = Some \<lparr>s_next = q, s_size = m\<rparr>"
      using N(3) [of prev] Cons.prems(2) q dist by simp
    ultimately show ?thesis
      using Cons.prems(6) N(2,3) x q(1) False by (intro exI [of _ N]) auto
  qed
qed

lemma segs_ok_distinct: "segs_ok sz lo hi xs \<Longrightarrow> distinct (List.map fst xs)"
proof (induction sz lo hi xs rule: segs_ok.induct)
  case (2 sz lo hi p n xs)
  then show ?case using segs_ok_addr [of sz "unat p + unat n" hi xs p] by auto
qed simp

lemma seg_in_chunks: "segs_ok sz lo hi xs \<Longrightarrow> x \<in> fst ` set xs \<Longrightarrow> unat x \<in> chunks sz xs"
  by (induction sz lo hi xs rule: segs_ok.induct) auto

lemma fst_put_chunk: "fst ` set (put_chunk sz p xs) = insert p (fst ` set xs)"
  by (induction sz p xs rule: put_chunk.induct) auto

lemmas S_free_loop_4097 = S_free_loop.simps(2) [of 4096, simplified]

text \<open>
  \<open>S_free\<close> puts the chunk back in its place by address; the preconditions are what a pointer
  handed out by \<open>slab_alloc\<close> satisfies.
\<close>

lemma S_free_page:
  assumes ok: "slab_ok st s h xs" and s: "ROUNDDOWN ptr GPAGE_SZ = s"
    and ptr: "unat (h_sz h) dvd unat ptr" "unat s + first_chunk (unat (h_sz h)) \<le> unat ptr"
      "unat ptr + unat (h_sz h) \<le> unat s + 65536"
    and fresh: "unat ptr \<notin> chunks (unat (h_sz h)) xs"
  shows "\<exists>st' h'. S_free ptr st = Inr st' \<and> page_frame s st h' st' \<and>
    slab_ok st' s h' (put_chunk (h_sz h) ptr xs) \<and> h_sz h' = h_sz h \<and> h_next h' = h_next h"
proof -
  let ?sz = "h_sz h"
  obtain j where j: "j < SLAB_SIZE" "?sz = 2 ^ (j + 4)" "unat ?sz = 2 ^ (j + 4)" "16 \<le> unat ?sz" "unat ?sz \<le> 4096"
    using slab_ok_size [OF ok] by blast
  have h: "hdrs st s = Some h" "h_lk h = 0" "free_list (nodes st) (n_head h) xs" "unat s < 2 ^ 63"
      "segs_ok (unat ?sz) (unat s + first_chunk (unat ?sz)) (unat s + 65536) xs"
    using ok by (auto simp: slab_ok_def)
  have put: "segs_ok (unat ?sz) (unat s + first_chunk (unat ?sz)) (unat s + 65536) (put_chunk ?sz ptr xs)"
    using put_chunk_ok [OF h(5) _ ptr(1,2,3) fresh] j(4) by simp
  have new: "ptr \<notin> fst ` set xs" using seg_in_chunks [OF h(5)] fresh by blast
  have dist: "distinct (List.map fst xs)" by (rule segs_ok_distinct [OF h(5)])
  have "0 < first_chunk (unat ?sz)" using j(4) by (simp add: first_chunk_def)
  then have "ptr \<noteq> 0" using ptr(2) by auto
  have inpage: "unat s \<le> unat a \<and> unat a < unat s + 65536" if "a = ptr \<or> a \<in> fst ` set xs" for a
    using that
  proof
    assume "a = ptr"
    then show ?thesis using ptr j(4) by simp
  next
    assume "a \<in> fst ` set xs"
    from segs_ok_addr [OF h(5) this] show ?thesis by simp
  qed
  let ?N1 = "(nodes st)(ptr \<mapsto> \<lparr>s_next = 0, s_size = ?sz\<rparr>)"
  let ?st1 = "st\<lparr>hdrs := (hdrs st)(s \<mapsto> h\<lparr>h_lk := 1\<rparr>), nodes := ?N1\<rparr>"
  have keep: "free_list ?N1 a ys" if "free_list (nodes st) a ys" "fst ` set ys \<subseteq> fst ` set xs" for a ys
    using that new by (subst free_list_cong [of _ _ "nodes st"]) auto
  have main: "\<exists>N h0. S_free ptr st = Inr (st\<lparr>hdrs := (hdrs st)(s \<mapsto> h\<lparr>n_head := h0\<rparr>), nodes := N\<rparr>) \<and>
    free_list N h0 (put_chunk ?sz ptr xs) \<and>
    (\<forall>a. a \<noteq> ptr \<and> a \<notin> fst ` set xs \<longrightarrow> N a = nodes st a)"
  proof (cases xs)
    case Nil
    then have "S_free ptr st = Inr (st\<lparr>hdrs := (hdrs st)(s \<mapsto> h\<lparr>n_head := ptr\<rparr>), nodes := ?N1\<rparr>)"
      using h s by (simp add: S_free_def slab_access hdr_lock_back)
    then show ?thesis using Nil \<open>ptr \<noteq> 0\<close> by (intro exI [of _ ?N1] exI [of _ ptr]) simp
  next
    case (Cons x ys)
    obtain q n where x: "x = (q, n)" by (cases x)
    obtain nq where q: "n_head h = q" "q \<noteq> 0" "nodes st q = Some \<lparr>s_next = nq, s_size = n\<rparr>" "free_list (nodes st) nq ys"
      using h(3) Cons x by auto
    have run: "S_free ptr st = res_bind (S_free_loop 4097 s ptr 0 q ?st1) (unlock_slab s)"
      using h s q by (simp add: S_free_def slab_access)
    have "length xs \<le> 4096"
    proof -
      have "length xs * 16 \<le> length xs * unat ?sz" using j(4) by simp
      also have "\<dots> \<le> 65536" using segs_ok_length [OF h(5)] by simp
      finally show ?thesis by simp
    qed
    then have len: "length ys < 4096" using Cons by simp
    have dist': "ptr \<noteq> q" "ptr \<notin> fst ` set ys" "q \<notin> fst ` set ys" "distinct (List.map fst ys)"
      using dist new Cons x by auto
    show ?thesis
    proof (cases "ptr \<le> q")
      case True
      let ?N = "(nodes st)(ptr \<mapsto> \<lparr>s_next = q, s_size = ?sz\<rparr>)"
      have "S_free ptr st = Inr (st\<lparr>hdrs := (hdrs st)(s \<mapsto> h\<lparr>n_head := ptr\<rparr>), nodes := ?N\<rparr>)"
        unfolding run using q True dist' h
        by (simp add: S_free_loop_4097 slab_access addr_leq_def hdr_lock_back)
      moreover have "free_list ?N nq ys"
        using q(4) dist' by (subst free_list_cong [of _ _ "nodes st"]) auto
      then have "free_list ?N ptr (put_chunk ?sz ptr xs)"
        using \<open>ptr \<noteq> 0\<close> q x Cons True dist' by simp
      moreover have "\<forall>a. a \<noteq> ptr \<and> a \<notin> fst ` set xs \<longrightarrow> ?N a = nodes st a" by simp
      ultimately show ?thesis by blast
    next
      case False
      have "\<exists>N. S_free_loop 4096 s ptr q nq ?st1 = Inr (?st1\<lparr>nodes := N\<rparr>) \<and>
        free_list N q ((q, n) # put_chunk ?sz ptr ys) \<and>
        (\<forall>a. a \<noteq> ptr \<and> a \<noteq> q \<and> a \<notin> fst ` set ys \<longrightarrow> N a = nodes ?st1 a)"
        using q dist' \<open>ptr \<noteq> 0\<close> len keep [OF q(4)] Cons
        by (intro S_free_loop_tail) auto
      then obtain N where N: "S_free_loop 4096 s ptr q nq ?st1 = Inr (?st1\<lparr>nodes := N\<rparr>)"
        "free_list N q ((q, n) # put_chunk ?sz ptr ys)"
        "\<And>a. a \<noteq> ptr \<Longrightarrow> a \<noteq> q \<Longrightarrow> a \<notin> fst ` set ys \<Longrightarrow> N a = nodes ?st1 a"
        by blast
      have "S_free_loop 4097 s ptr 0 q ?st1 = Inr (?st1\<lparr>nodes := N\<rparr>)"
        using q dist' False N(1) by (simp add: S_free_loop_4097 slab_access addr_leq_def)
      then have "S_free ptr st = Inr (st\<lparr>hdrs := (hdrs st)(s \<mapsto> h\<lparr>n_head := q\<rparr>), nodes := N\<rparr>)"
        unfolding run using h q(1) by (auto simp: slab_access hdr_eta fun_upd_idem)
      then show ?thesis
        using N(2,3) Cons x False by (intro exI [of _ N] exI [of _ q]) auto
    qed
  qed
  then obtain N h0 where N: "S_free ptr st = Inr (st\<lparr>hdrs := (hdrs st)(s \<mapsto> h\<lparr>n_head := h0\<rparr>), nodes := N\<rparr>)"
      "free_list N h0 (put_chunk ?sz ptr xs)" "\<And>a. a \<noteq> ptr \<Longrightarrow> a \<notin> fst ` set xs \<Longrightarrow> N a = nodes st a"
    by blast
  have "page_frame s st (h\<lparr>n_head := h0\<rparr>) (st\<lparr>hdrs := (hdrs st)(s \<mapsto> h\<lparr>n_head := h0\<rparr>), nodes := N\<rparr>)"
    using N(3) inpage unfolding page_frame_def by (intro exI [of _ N]) blast
  moreover have "slab_ok (st\<lparr>hdrs := (hdrs st)(s \<mapsto> h\<lparr>n_head := h0\<rparr>), nodes := N\<rparr>) s (h\<lparr>n_head := h0\<rparr>) (put_chunk ?sz ptr xs)"
    using ok put N(2) by (auto simp: slab_ok_def)
  ultimately show ?thesis
    by (intro exI [of _ "st\<lparr>hdrs := (hdrs st)(s \<mapsto> h\<lparr>n_head := h0\<rparr>), nodes := N\<rparr>"] exI [of _ "h\<lparr>n_head := h0\<rparr>"])
      (simp add: N(1))
qed

section \<open>A fresh slab page\<close>

text \<open>All chunks of a page: every multiple of the size from the first one behind the header on.\<close>

definition page_chunks :: "nat \<Rightarrow> nat \<Rightarrow> nat set" where
  "page_chunks s sz = {a. sz dvd a \<and> s + first_chunk sz \<le> a \<and> a < s + 65536}"

lemma below_nine:
  assumes "j < SLAB_SIZE"
  shows "j \<in> {0, 1, 2, 3, 4, 5, 6, 7, 8}"
  using assms by (auto simp: SLAB_SIZE_def)

lemma first_chunk_roundup:
  assumes "j < SLAB_SIZE"
  shows "(65536 * t + 28 + (2 ^ (j + 4) - 1)) div 2 ^ (j + 4) * 2 ^ (j + 4) = 65536 * t + first_chunk (2 ^ (j + 4))"
proof -
  define m :: nat where "m = 2 ^ (j + 4)"
  have "m dvd 65536" using dvd_trans [OF class_size(2) [OF assms], of 65536] by (simp add: m_def)
  then obtain q where q: "65536 = m * q" by (rule dvdE)
  have "m \<noteq> 0" by (simp add: m_def)
  then have "(m * (q * t) + (28 + (m - 1))) div m * m = m * (q * t) + (28 + (m - 1)) div m * m"
    by (simp only: div_mult_self3 div_mult_self2 div_mult_self4 div_mult_self1 add.commute [of "m * (q * t)"])
      (simp add: add_mult_distrib)
  moreover have "m * (q * t) = 65536 * t" by (simp add: q)
  moreover have "(28 + (m - 1)) div m * m = first_chunk m"
    using below_nine [OF assms] unfolding first_chunk_def m_def by (elim insertE emptyE) simp_all
  ultimately have "(65536 * t + (28 + (m - 1))) div m * m = 65536 * t + first_chunk m" by metis
  then show ?thesis unfolding m_def by (simp only: add.assoc)
qed

lemma payload_size:
  assumes "j < SLAB_SIZE"
  shows "ROUNDDOWN (65508 :: u64) (2 ^ (j + 4)) = of_nat (65536 - first_chunk (2 ^ (j + 4)))"
  using below_nine [OF assms] unfolding first_chunk_def by (elim insertE emptyE) (simp_all add: ROUNDDOWN_def)

lemma slab_init_fresh:
  assumes "65536 dvd unat s" and "0 < unat s" and "unat s < 2 ^ 63" and j: "j < SLAB_SIZE" and sz: "sz = 2 ^ (j + 4)"
  shows "\<exists>st' h p. slab_init s sz st = Inr st' \<and> page_frame s st h st' \<and> h_sz h = sz \<and> h_next h = 0 \<and>
    slab_ok st' s h [(p, of_nat (65536 - first_chunk (unat sz)))] \<and>
    chunks (unat sz) [(p, of_nat (65536 - first_chunk (unat sz)))] = page_chunks (unat s) (unat sz)"
proof -
  note c = class_size [OF j]
  obtain t where t: "unat s = 65536 * t" using assms(1) by (rule dvdE)
  let ?f = "first_chunk (unat sz)"
  let ?p = "ROUNDUP (s + 28) sz"
  let ?n = "of_nat (65536 - ?f) :: u64"
  have usz: "unat sz = 2 ^ (j + 4)" using sz c(1) by simp
  have f: "16 \<le> ?f" "?f \<le> 4096" "unat sz dvd ?f" using c(3,4) usz by (auto simp: first_chunk_def)
  have u28: "unat (s + 28) = unat s + 28" using assms(3) by (subst unat_add_nowrap) simp_all
  have up: "unat ?p = unat s + ?f"
  proof -
    have "unat (ROUNDUP (s + 28) (2 ^ (j + 4))) = (unat (s + 28) + (2 ^ (j + 4) - 1)) div 2 ^ (j + 4) * 2 ^ (j + 4)"
      using u28 assms(3) c(3,4) j by (intro unat_ROUNDUP) (simp_all add: SLAB_SIZE_def)
    then show ?thesis using first_chunk_roundup [OF j, of t] u28 t sz usz by simp
  qed
  have un: "unat ?n = 65536 - ?f" by (subst unat_of_nat) simp
  have d: "s + GPAGE_SZ - (s + SIZEOF_HEADER) = 65508" by (simp add: GPAGE_SZ_def SIZEOF_HEADER_def)
  have n: "ROUNDDOWN (s + GPAGE_SZ - (s + SIZEOF_HEADER)) sz = ?n"
    unfolding d sz payload_size [OF j] using usz sz by simp
  have "s \<noteq> 0" using assms(2) by auto
  let ?h = "\<lparr>n_head = ?p, h_next = 0, h_sz = sz, h_lk = 0\<rparr>"
  let ?N = "(nodes st)(?p \<mapsto> \<lparr>s_next = 0, s_size = ?n\<rparr>)"
  let ?st = "st\<lparr>hdrs := (hdrs st)(s \<mapsto> ?h), nodes := ?N\<rparr>"
  have "slab_init s sz st = Inr ?st"
    using \<open>s \<noteq> 0\<close> n by (simp add: slab_init_def nhead_init_def slab_access SPIN_INIT_def) (simp add: SIZEOF_HEADER_def)
  moreover have "page_frame s st ?h ?st"
    using up f unfolding page_frame_def by (intro exI [of _ ?N]) auto
  moreover have dvd: "unat sz dvd unat s" "unat sz dvd 65536 - ?f"
  proof -
    have "unat sz dvd 65536" using c(2) usz dvd_trans [of "unat sz" 4096 65536] by simp
    then show "unat sz dvd unat s" "unat sz dvd 65536 - ?f" using f t by (simp_all add: dvd_diff_nat)
  qed
  moreover have "slab_ok ?st s ?h [(?p, ?n)]"
  proof -
    have "?p \<noteq> 0"
    proof
      assume "?p = 0"
      then have "unat ?p = 0" by simp
      then show False using up f by simp
    qed
    moreover have "segs_ok (unat sz) (unat s + ?f) (unat s + 65536) [(?p, ?n)]"
      using up un f dvd by simp
    ultimately show ?thesis using assms by (auto simp: slab_ok_def)
  qed
  moreover have "chunks (unat sz) [(?p, ?n)] = page_chunks (unat s) (unat sz)"
    using up un f by (auto simp: page_chunks_def)
  ultimately show ?thesis by (intro exI [of _ ?st] exI [of _ ?h] exI [of _ ?p]) simp
qed

end
