(* ===== verification/Pmm.thy ===== *)
theory Pmm
  imports Pmm_Slab
begin

text \<open>
  The entry points of the physical memory manager, \<open>kernel/src/pmm.c\<close>: \<open>kalloc\<close>, \<open>kfree\<close> and
  \<open>pmm_init\<close> over the page layer and the slab layer; the invariant of the whole allocator, the
  set of objects a client holds, and the contract the operations keep.
\<close>

unbundle bit_operations_syntax

section \<open>Operations\<close>

definition kalloc :: "nat \<Rightarrow> nat \<Rightarrow> u64 \<Rightarrow> slabs \<Rightarrow> (addr \<times> slabs) res" where
  "kalloc cpu cpu_count sz st =
     (if MAX_ALLOC < sz then Inr (0, st)
      else
        let sz = nextPower_2 sz;
            sz = (if sz < 16 then 16 else sz)
        in if sz \<le> 4096 then S_alloc cpu cpu_count sz st
           else
             let npage = sz div GPAGE_SZ;
                 npage = (if npage = 0 then 1 else npage)
             in G_alloc npage False st)"

definition kfree :: "addr \<Rightarrow> slabs \<Rightarrow> slabs res" where
  "kfree ptr st =
     res_bind (guard AssertFail (ptr \<noteq> 0)) (\<lambda>_.
     let p_rd = ROUNDDOWN ptr GPAGE_SZ in
     res_bind (get_meta_index st p_rd) (\<lambda>id.
     res_bind (guard AssertFail (0 \<le> id \<and> id < int (n_meta st))) (\<lambda>_.
     res_bind (meta_at st (nat id)) (\<lambda>m.
     res_bind (guard AssertFail (m_start m = p_rd)) (\<lambda>_.
       if is_slab m then S_free ptr st
       else res_bind (guard AssertFail (p_rd = ptr)) (\<lambda>_. G_free ptr st))))))"

definition pmm_init :: "nat \<Rightarrow> slabs \<Rightarrow> slabs res" where
  "pmm_init cpu_count st = res_bind (G_init st) (S_init cpu_count)"

section \<open>The invariant\<close>

fun chain :: "(addr \<rightharpoonup> S_header_t) \<Rightarrow> addr \<Rightarrow> addr list \<Rightarrow> bool" where
  "chain m a [] \<longleftrightarrow> a = 0"
| "chain m a (s # ss) \<longleftrightarrow> a = s \<and> s \<noteq> 0 \<and> (\<exists>h. m s = Some h \<and> chain m (h_next h) ss)"

text \<open>Every slab page of the table is a block of its own with a well-formed header and free list.\<close>

definition pages_slab_ok :: "slabs \<Rightarrow> bool" where
  "pages_slab_ok st \<longleftrightarrow>
     (\<forall>i<n_meta st. is_slab (Meta st i) \<longrightarrow> block st i (i + 1) \<and> (\<exists>h xs. slab_ok st (pg st i) h xs))"

text \<open>
  \<open>P c j\<close> are the pages of the list \<open>Slab[c][j]\<close>, for the pairs in \<open>D\<close>: a chain of slab pages of
  the right chunk size that shares no page with another list.
\<close>

definition list_page :: "slabs \<Rightarrow> nat \<Rightarrow> addr \<Rightarrow> bool" where
  "list_page st j s \<longleftrightarrow>
     (\<exists>i<n_meta st. s = pg st i \<and> is_slab (Meta st i)) \<and> (\<exists>h. hdrs st s = Some h \<and> h_sz h = 2 ^ (j + 4))"

definition lists_ok :: "(nat \<times> nat) set \<Rightarrow> slabs \<Rightarrow> (nat \<Rightarrow> nat \<Rightarrow> addr list) \<Rightarrow> bool" where
  "lists_ok D st P \<longleftrightarrow>
     (\<forall>(c, j) \<in> D. P c j \<noteq> [] \<and> distinct (P c j) \<and> chain (hdrs st) (Slab st c j) (P c j) \<and>
        (\<forall>s \<in> set (P c j). list_page st j s)) \<and>
     (\<forall>(c, j) \<in> D. \<forall>(c', j') \<in> D. (c, j) \<noteq> (c', j') \<longrightarrow> set (P c j) \<inter> set (P c' j') = {})"

lemma lists_okD:
  assumes "lists_ok D st P" and "(c, j) \<in> D"
  shows "P c j \<noteq> []" "distinct (P c j)" "chain (hdrs st) (Slab st c j) (P c j)"
    "\<And>s. s \<in> set (P c j) \<Longrightarrow> list_page st j s"
  using bspec [OF conjunct1 [OF assms(1) [unfolded lists_ok_def]] assms(2)] by simp_all

lemma lists_ok_disjoint:
  assumes "lists_ok D st P" and "(c, j) \<in> D" and "(c', j') \<in> D" and "(c, j) \<noteq> (c', j')"
  shows "set (P c j) \<inter> set (P c' j') = {}"
  using bspec [OF bspec [OF conjunct2 [OF assms(1) [unfolded lists_ok_def]] assms(2), unfolded prod.case] assms(3)] assms(4)
  by simp

definition slab_rows :: "slabs \<Rightarrow> (nat \<times> nat) set" where
  "slab_rows st = {0..<n_slab st} \<times> {0..<SLAB_SIZE}"

definition pmm_inv :: "slabs \<Rightarrow> bool" where
  "pmm_inv st \<longleftrightarrow> page_inv st \<and> n_slab st \<le> SLAB_CPUS \<and> pages_slab_ok st \<and> (\<exists>P. lists_ok (slab_rows st) st P)"

text \<open>The objects in the client's hands, as start and length: chunks of slab pages and page blocks.\<close>

definition slab_objs_at :: "slabs \<Rightarrow> addr \<Rightarrow> (nat \<times> nat) set" where
  "slab_objs_at st s = {(a, n). \<exists>h xs. slab_ok st s h xs \<and> n = unat (h_sz h) \<and> a \<in> page_chunks (unat s) n - chunks n xs}"

definition slab_objs :: "slabs \<Rightarrow> (nat \<times> nat) set" where
  "slab_objs st = {x. \<exists>i<n_meta st. is_slab (Meta st i) \<and> x \<in> slab_objs_at st (pg st i)}"

definition objs :: "slabs \<Rightarrow> (nat \<times> nat) set" where
  "objs st = slab_objs st \<union> page_objs st"

section \<open>Objects do not overlap\<close>

lemma slab_ok_unique: "slab_ok st s h xs \<Longrightarrow> slab_ok st s h' xs' \<Longrightarrow> h = h' \<and> xs = xs'"
  by (auto simp: slab_ok_def intro: free_list_unique)

lemma slab_objs_at_eq:
  "slab_ok st s h xs \<Longrightarrow>
   slab_objs_at st s = {(a, n). n = unat (h_sz h) \<and> a \<in> page_chunks (unat s) n - chunks n xs}"
  unfolding slab_objs_at_def using slab_ok_unique by blast

lemma size_dvd_page:
  assumes "slab_ok st s h xs"
  shows "unat (h_sz h) dvd 65536" and "unat (h_sz h) dvd unat s"
proof -
  obtain j where "j < SLAB_SIZE" "unat (h_sz h) = 2 ^ (j + 4)" using slab_ok_size [OF assms] by blast
  then show d: "unat (h_sz h) dvd 65536" using dvd_trans [OF class_size(2), of j 65536] by simp
  have "65536 dvd unat s" using assms by (simp add: slab_ok_def)
  then show "unat (h_sz h) dvd unat s" by (rule dvd_trans [OF d])
qed

lemma page_chunk_end:
  assumes "slab_ok st s h xs" and "a \<in> page_chunks (unat s) (unat (h_sz h))"
  shows "unat s \<le> a \<and> a + unat (h_sz h) \<le> unat s + 65536"
proof
  show "unat s \<le> a" using assms(2) by (simp add: page_chunks_def)
  have "unat (h_sz h) dvd unat s + 65536" using size_dvd_page [OF assms(1)] by (rule dvd_add [rotated])
  then show "a + unat (h_sz h) \<le> unat s + 65536"
    using assms(2) by (intro next_multiple) (auto simp: page_chunks_def)
qed

lemma slab_obj_bounds:
  assumes "(a, n) \<in> slab_objs_at st s"
  shows "unat s \<le> a \<and> a + n \<le> unat s + 65536"
  using assms page_chunk_end by (auto simp: slab_objs_at_def)

lemma slab_objs_apart:
  assumes "x \<in> slab_objs_at st s" and "y \<in> slab_objs_at st s" and "x \<noteq> y"
  shows "apart x y"
proof -
  obtain h xs where ok: "slab_ok st s h xs" using assms(1) by (auto simp: slab_objs_at_def)
  obtain a b where ab: "x = (a, unat (h_sz h))" "y = (b, unat (h_sz h))" "unat (h_sz h) dvd a" "unat (h_sz h) dvd b"
    using assms(1,2) unfolding slab_objs_at_eq [OF ok] by (auto simp: page_chunks_def)
  then have "a \<noteq> b" using assms(3) by auto
  then consider "a < b" | "b < a" by linarith
  then show ?thesis using ab next_multiple [of "unat (h_sz h)"] by cases (auto simp: apart_def)
qed

text \<open>Each object lies in the block of pages it belongs to.\<close>

lemma obj_block:
  assumes "pages_ok st" and "pages_slab_ok st" and "(a, n) \<in> objs st"
  obtains i e where "block st i e" and "unat (pg st i) \<le> a" and "a + n \<le> unat (pg st e)"
    and "is_slab (Meta st i) \<and> e = i + 1 \<and> (a, n) \<in> slab_objs_at st (pg st i) \<or>
         \<not> is_slab (Meta st i) \<and> a = unat (pg st i) \<and> n = (e - i) * 65536"
proof -
  have u: "unat (pg st i) = unat (G_start st) + i * 65536" if "i \<le> META_SZ" for i
    using unat_pg_wide [OF assms(1), of i] that by (simp add: META_SZ_val)
  consider i where "i < n_meta st" "is_slab (Meta st i)" "(a, n) \<in> slab_objs_at st (pg st i)"
    | i e where "block st i e" "\<not> is_slab (Meta st i)" "a = unat (pg st i)" "n = (e - i) * 65536"
    using assms(3) by (auto simp: objs_def slab_objs_def page_objs_def)
  then show thesis
  proof cases
    case 1
    have "i + 1 \<le> META_SZ" using 1 assms(1) by (simp add: pages_ok_def)
    then show thesis
      using that [of i "i + 1"] 1 assms(2) slab_obj_bounds [OF 1(3)] u [of i] u [of "i + 1"]
      by (simp add: pages_slab_ok_def)
  next
    case 2
    have "i < e" "e \<le> META_SZ" using 2(1) by (auto simp: block_def)
    moreover from this have "i * 65536 + (e - i) * 65536 = e * 65536" by (simp flip: add_mult_distrib)
    ultimately show thesis using that [of i e] 2 u [of i] u [of e] by simp
  qed
qed

lemma objs_apart:
  assumes "pages_ok st" and "pages_slab_ok st" and x: "x \<in> objs st" and y: "y \<in> objs st" and "x \<noteq> y"
  shows "apart x y"
proof -
  obtain a n where xa: "x = (a, n)" by (cases x)
  obtain b m where yb: "y = (b, m)" by (cases y)
  have u: "unat (pg st i) = unat (G_start st) + i * 65536" if "i \<le> META_SZ" for i
    using unat_pg_wide [OF assms(1), of i] that by (simp add: META_SZ_val)
  obtain i e where i: "block st i e" "unat (pg st i) \<le> a" "a + n \<le> unat (pg st e)"
    "is_slab (Meta st i) \<and> e = i + 1 \<and> (a, n) \<in> slab_objs_at st (pg st i) \<or>
         \<not> is_slab (Meta st i) \<and> a = unat (pg st i) \<and> n = (e - i) * 65536"
    using obj_block [OF assms(1,2)] x xa by metis
  obtain i' e' where i': "block st i' e'" "unat (pg st i') \<le> b" "b + m \<le> unat (pg st e')"
    "is_slab (Meta st i') \<and> e' = i' + 1 \<and> (b, m) \<in> slab_objs_at st (pg st i') \<or>
         \<not> is_slab (Meta st i') \<and> b = unat (pg st i') \<and> m = (e' - i') * 65536"
    using obj_block [OF assms(1,2)] y yb by metis
  have le: "i < e" "e \<le> META_SZ" "i' < e'" "e' \<le> META_SZ" using i(1) i'(1) by (auto simp: block_def)
  show ?thesis
  proof (cases "i = i' \<and> e = e'")
    case True
    then show ?thesis
      using i(4) i'(4) xa yb assms(5) slab_objs_apart [of x st "pg st i" y] by auto
  next
    case False
    have "e \<le> i' \<or> e' \<le> i"
    proof (rule ccontr)
      assume "\<not> (e \<le> i' \<or> e' \<le> i)"
      then show False
        using blocks_disjoint_or_equal [OF assms(1) i(1) i'(1), of "max i i'"] False le by auto
    qed
    then have "unat (pg st e) \<le> unat (pg st i') \<or> unat (pg st e') \<le> unat (pg st i)"
      using le u by auto
    then show ?thesis using i(2,3) i'(2,3) xa yb by (auto simp: apart_def)
  qed
qed

section \<open>A step inside one slab page\<close>

lemma page_layer_upd [simp]:
  "page_inv (st\<lparr>hdrs := H\<rparr>) = page_inv st" "page_inv (st\<lparr>nodes := N\<rparr>) = page_inv st"
  "page_inv (st\<lparr>Slab := S\<rparr>) = page_inv st" "page_inv (st\<lparr>n_slab := n\<rparr>) = page_inv st"
  "pg (st\<lparr>hdrs := H\<rparr>) = pg st" "pg (st\<lparr>nodes := N\<rparr>) = pg st"
  "pg (st\<lparr>Slab := S\<rparr>) = pg st" "pg (st\<lparr>n_slab := n\<rparr>) = pg st"
  "block (st\<lparr>hdrs := H\<rparr>) = block st" "block (st\<lparr>nodes := N\<rparr>) = block st"
  "block (st\<lparr>Slab := S\<rparr>) = block st" "block (st\<lparr>n_slab := n\<rparr>) = block st"
  "fits (st\<lparr>hdrs := H\<rparr>) = fits st" "fits (st\<lparr>nodes := N\<rparr>) = fits st"
  "fits (st\<lparr>Slab := S\<rparr>) = fits st" "fits (st\<lparr>n_slab := n\<rparr>) = fits st"
  by (simp_all add: page_inv_def pages_ok_def blocks_ok_def run_ok_def in_block_def pg_def block_def
      fits_def all_free_def fun_eq_iff)

lemma page_objs_upd [simp]:
  "page_objs (st\<lparr>hdrs := H\<rparr>) = page_objs st" "page_objs (st\<lparr>nodes := N\<rparr>) = page_objs st"
  "page_objs (st\<lparr>Slab := S\<rparr>) = page_objs st" "page_objs (st\<lparr>n_slab := n\<rparr>) = page_objs st"
  by (simp_all add: page_objs_def)

lemma pg_apart:
  assumes "pages_ok st" and "i < n_meta st" and "i' < n_meta st" and "i \<noteq> i'"
  shows "unat (pg st i) + 65536 \<le> unat (pg st i') \<or> unat (pg st i') + 65536 \<le> unat (pg st i)"
  using assms unat_pg [of st i] unat_pg [of st i'] by auto

lemma slab_ok_frame:
  assumes "page_frame s st g st'" and "unat s + 65536 \<le> unat t \<or> unat t + 65536 \<le> unat s"
  shows "slab_ok st' t h xs \<longleftrightarrow> slab_ok st t h xs"
proof -
  obtain N where N: "st' = st\<lparr>hdrs := (hdrs st)(s \<mapsto> g), nodes := N\<rparr>"
      "\<And>a. \<not> (unat s \<le> unat a \<and> unat a < unat s + 65536) \<Longrightarrow> N a = nodes st a"
    using assms(1) by (auto simp: page_frame_def)
  have "t \<noteq> s" using assms(2) by auto
  have "free_list N (n_head h) xs = free_list (nodes st) (n_head h) xs"
    if "segs_ok (unat (h_sz h)) (unat t + first_chunk (unat (h_sz h))) (unat t + 65536) xs"
  proof (rule free_list_cong)
    fix x assume "x \<in> fst ` set xs"
    from segs_ok_addr [OF that this] show "N x = nodes st x" using assms(2) by (intro N(2)) auto
  qed
  then show ?thesis using \<open>t \<noteq> s\<close> by (auto simp: slab_ok_def N(1))
qed

lemma page_frame_simps:
  assumes "page_frame s st g st'"
  shows "Meta st' = Meta st" "n_meta st' = n_meta st" "pg st' = pg st" "block st' = block st"
    "page_inv st' = page_inv st" "Slab st' = Slab st" "n_slab st' = n_slab st" "page_objs st' = page_objs st"
    "hdrs st' = (hdrs st)(s \<mapsto> g)"
  using assms by (auto simp: page_frame_def)

lemma chain_frame:
  assumes "m s = Some h" and "h_next g = h_next h"
  shows "chain (m(s \<mapsto> g)) a ss = chain m a ss"
  using assms by (induction ss arbitrary: a) auto

lemma lists_ok_frame:
  assumes "page_frame s st g st'" and "hdrs st s = Some h" and "h_next g = h_next h" and "h_sz g = h_sz h"
  shows "lists_ok D st' P = lists_ok D st P"
proof -
  have "list_page st' j t = list_page st j t" for j t
    using assms(2,4) by (cases "t = s") (simp_all add: list_page_def page_frame_simps [OF assms(1)])
  then show ?thesis
    using assms(2,3) by (simp add: lists_ok_def page_frame_simps [OF assms(1)] chain_frame)
qed

lemma slab_objs_at_frame:
  assumes "page_frame s st g st'" and "unat s + 65536 \<le> unat t \<or> unat t + 65536 \<le> unat s"
  shows "slab_objs_at st' t = slab_objs_at st t"
  using slab_ok_frame [OF assms] by (simp add: slab_objs_at_def)

text \<open>
  The step from \<open>st\<close> to \<open>st'\<close> changed the free list of slab page \<open>i\<close> from \<open>xs\<close> to \<open>ys\<close>: the
  invariant holds again, and the objects outside the page are the same.
\<close>

lemma slab_step_pages:
  assumes inv: "page_inv st" "pages_slab_ok st" and i: "i < n_meta st" "is_slab (Meta st i)"
    and old: "slab_ok st (pg st i) h xs" and frame: "page_frame (pg st i) st g st'"
    and new: "slab_ok st' (pg st i) g ys" "h_sz g = h_sz h"
  shows "page_inv st' \<and> pages_slab_ok st'"
    and "x \<in> objs st' \<longleftrightarrow> (if x \<in> slab_objs_at st (pg st i) \<or> x \<in> slab_objs_at st' (pg st i)
           then x \<in> slab_objs_at st' (pg st i) else x \<in> objs st)"
proof -
  note fs = page_frame_simps [OF frame]
  have inv': "page_inv st" "pages_slab_ok st" "pages_ok st" using inv by (auto simp: page_inv_def)
  have other: "slab_ok st' (pg st l) h' zs = slab_ok st (pg st l) h' zs" if "l < n_meta st" "l \<noteq> i" for l h' zs
    using that i by (intro slab_ok_frame [OF frame] pg_apart [OF inv'(3)]) auto
  have "pages_slab_ok st'"
    unfolding pages_slab_ok_def fs
  proof (intro allI impI)
    fix l assume l: "l < n_meta st" "is_slab (Meta st l)"
    then have "block st l (l + 1)" "\<exists>h xs. slab_ok st (pg st l) h xs"
      using inv'(2) by (auto simp: pages_slab_ok_def)
    then show "block st l (l + 1) \<and> (\<exists>h xs. slab_ok st' (pg st l) h xs)"
      using new(1) other l(1) by (cases "l = i") auto
  qed
  then show "page_inv st' \<and> pages_slab_ok st'" using inv fs by simp
  have objs_other: "slab_objs_at st' (pg st l) = slab_objs_at st (pg st l)" if "l < n_meta st" "l \<noteq> i" for l
    using that i by (intro slab_objs_at_frame [OF frame] pg_apart [OF inv'(3)]) auto
  have in_i: "l = i" if "l < n_meta st" "x \<in> slab_objs_at st (pg st l)"
    "x \<in> slab_objs_at st (pg st i) \<or> x \<in> slab_objs_at st' (pg st i)" for l
  proof (rule ccontr)
    assume "l \<noteq> i"
    obtain a n where x: "x = (a, n)" by (cases x)
    have "unat (h_sz h) > 0" using slab_ok_size [OF old] by (metis not_numeral_le_zero gr0I)
    then have "0 < n" using that(3) x unfolding slab_objs_at_eq [OF old] slab_objs_at_eq [OF new(1)] new(2) by auto
    moreover have "unat (pg st l) \<le> a \<and> a + n \<le> unat (pg st l) + 65536"
      using that(2) x by (intro slab_obj_bounds) simp
    moreover have "unat (pg st i) \<le> a \<and> a + n \<le> unat (pg st i) + 65536"
      using that(3) x slab_obj_bounds [of a n _ "pg st i"] by auto
    ultimately show False using pg_apart [OF inv'(3) that(1) i(1) \<open>l \<noteq> i\<close>] by linarith
  qed
  have no_page: "x \<notin> page_objs st" if "x \<in> slab_objs_at st (pg st i) \<or> x \<in> slab_objs_at st' (pg st i)"
  proof
    assume "x \<in> page_objs st"
    then obtain i' e' where e': "block st i' e'" "x = (unat (pg st i'), (e' - i') * 65536)"
      by (auto simp: page_objs_def)
    have h: "unat (h_sz h) \<le> 4096" using slab_ok_size [OF old] by metis
    have "snd x = unat (h_sz h)" using that unfolding slab_objs_at_eq [OF old] slab_objs_at_eq [OF new(1)] new(2) by auto
    then show False using h e' by (auto simp: block_def)
  qed
  have "x \<in> slab_objs st' \<longleftrightarrow> (\<exists>l<n_meta st. is_slab (Meta st l) \<and>
      x \<in> (if l = i then slab_objs_at st' (pg st i) else slab_objs_at st (pg st l)))"
    unfolding slab_objs_def fs mem_Collect_eq by (intro ex_cong1 conj_cong refl) (simp add: objs_other)
  then show "x \<in> objs st' \<longleftrightarrow> (if x \<in> slab_objs_at st (pg st i) \<or> x \<in> slab_objs_at st' (pg st i)
           then x \<in> slab_objs_at st' (pg st i) else x \<in> objs st)"
    unfolding objs_def Un_iff fs using in_i no_page i by (auto simp: slab_objs_def split: if_splits)
qed

lemma slab_step:
  assumes inv: "pmm_inv st" and i: "i < n_meta st" "is_slab (Meta st i)"
    and old: "slab_ok st (pg st i) h xs" and frame: "page_frame (pg st i) st g st'"
    and new: "slab_ok st' (pg st i) g ys" "h_sz g = h_sz h" "h_next g = h_next h"
  shows "pmm_inv st'"
    and "x \<in> objs st' \<longleftrightarrow> (if x \<in> slab_objs_at st (pg st i) \<or> x \<in> slab_objs_at st' (pg st i)
           then x \<in> slab_objs_at st' (pg st i) else x \<in> objs st)"
proof -
  note fs = page_frame_simps [OF frame]
  have pages: "page_inv st" "pages_slab_ok st" using inv by (simp_all add: pmm_inv_def)
  have hdr: "hdrs st (pg st i) = Some h" using old by (simp add: slab_ok_def)
  have "slab_rows st' = slab_rows st" by (simp add: slab_rows_def fs)
  then show "pmm_inv st'"
    using inv slab_step_pages(1) [OF pages i old frame new(1,2)]
    by (simp add: pmm_inv_def fs lists_ok_frame [OF frame hdr new(3,2)])
  show "x \<in> objs st' \<longleftrightarrow> (if x \<in> slab_objs_at st (pg st i) \<or> x \<in> slab_objs_at st' (pg st i)
           then x \<in> slab_objs_at st' (pg st i) else x \<in> objs st)"
    by (rule slab_step_pages(2) [OF pages i old frame new(1,2)])
qed

text \<open>One chunk leaves the free list, or comes back to it.\<close>

lemma slab_step_alloc:
  assumes "pmm_inv st" "i < n_meta st" "is_slab (Meta st i)" "slab_ok st (pg st i) h xs" "page_frame (pg st i) st g st'"
    "slab_ok st' (pg st i) g ys" "h_sz g = h_sz h" "h_next g = h_next h"
    and c: "chunks (unat (h_sz h)) ys = chunks (unat (h_sz h)) xs - {a}" "a \<in> chunks (unat (h_sz h)) xs"
  shows "objs st' = insert (a, unat (h_sz h)) (objs st)" and "(a, unat (h_sz h)) \<notin> objs st"
proof -
  note step = slab_step [OF assms(1-8)]
  have xs: "segs_ok (unat (h_sz h)) (unat (pg st i) + first_chunk (unat (h_sz h))) (unat (pg st i) + 65536) xs"
    using assms(4) by (simp add: slab_ok_def)
  have a: "a \<in> page_chunks (unat (pg st i)) (unat (h_sz h))"
    using chunks_bounds [OF xs c(2)] by (simp add: page_chunks_def)
  have at: "slab_objs_at st' (pg st i) = insert (a, unat (h_sz h)) (slab_objs_at st (pg st i))"
    "(a, unat (h_sz h)) \<notin> slab_objs_at st (pg st i)"
    using c a unfolding slab_objs_at_eq [OF assms(4)] slab_objs_at_eq [OF assms(6)] assms(7) by auto
  have sub: "x \<in> objs st" if "x \<in> slab_objs_at st (pg st i)" for x
    using that assms(2,3) by (auto simp: objs_def slab_objs_def)
  have "x \<in> objs st' \<longleftrightarrow> x \<in> insert (a, unat (h_sz h)) (objs st)" for x
    using step(2) [of x] at sub [of x] by (auto split: if_splits)
  then show "objs st' = insert (a, unat (h_sz h)) (objs st)" by blast
  show "(a, unat (h_sz h)) \<notin> objs st"
  proof
    assume o: "(a, unat (h_sz h)) \<in> objs st"
    have ok: "pages_ok st" "pages_slab_ok st" using assms(1) by (auto simp: pmm_inv_def page_inv_def)
    obtain i' e' where e': "block st i' e'" "unat (pg st i') \<le> a" "a + unat (h_sz h) \<le> unat (pg st e')"
      "is_slab (Meta st i') \<and> e' = i' + 1 \<and> (a, unat (h_sz h)) \<in> slab_objs_at st (pg st i') \<or>
       \<not> is_slab (Meta st i') \<and> a = unat (pg st i') \<and> unat (h_sz h) = (e' - i') * 65536"
      using obj_block [OF ok o] by metis
    have b: "block st i (i + 1)" using ok(2) assms(2,3) by (simp add: pages_slab_ok_def)
    have h: "0 < unat (h_sz h)" "unat (h_sz h) \<le> 4096" using slab_ok_size [OF assms(4)] by (metis not_numeral_le_zero gr0I)+
    have ie: "i' < n_meta st" "i' < e'" using e'(1) by (auto simp: block_def)
    then have "e' = i' + 1 \<and> (a, unat (h_sz h)) \<in> slab_objs_at st (pg st i')" using e'(4) h by auto
    moreover from this have "i' \<noteq> i" using at(2) by auto
    ultimately show False
      using pg_apart [OF ok(1) ie(1) assms(2)] slab_obj_bounds [of a "unat (h_sz h)" st "pg st i'"]
        page_chunk_end [OF assms(4) a] h by auto
  qed
qed

lemma slab_step_free:
  assumes "pmm_inv st" "i < n_meta st" "is_slab (Meta st i)" "slab_ok st (pg st i) h xs" "page_frame (pg st i) st g st'"
    "slab_ok st' (pg st i) g ys" "h_sz g = h_sz h" "h_next g = h_next h"
    and c: "chunks (unat (h_sz h)) ys = insert a (chunks (unat (h_sz h)) xs)"
      "(a, unat (h_sz h)) \<in> slab_objs_at st (pg st i)"
  shows "objs st' = objs st - {(a, unat (h_sz h))}"
proof -
  note step = slab_step [OF assms(1-8)]
  have at: "slab_objs_at st' (pg st i) = slab_objs_at st (pg st i) - {(a, unat (h_sz h))}"
    using c unfolding slab_objs_at_eq [OF assms(4)] slab_objs_at_eq [OF assms(6)] assms(7) by auto
  have sub: "x \<in> objs st" if "x \<in> slab_objs_at st (pg st i)" for x
    using that assms(2,3) by (auto simp: objs_def slab_objs_def)
  have "x \<in> objs st' \<longleftrightarrow> x \<in> objs st - {(a, unat (h_sz h))}" for x
    using step(2) [of x] at sub [of x] c(2) by (auto split: if_splits)
  then show ?thesis by blast
qed

section \<open>The walk over the slab pages\<close>

lemma walk_lock:
  assumes "slab_ok st s h xs"
  shows "res_bind (lock_slab s st) (\<lambda>st. res_bind (hdr_at st s) (\<lambda>h. res_bind (unlock_slab s st) (\<lambda>st. f (h_next h) st)))
    = f (h_next h) st"
proof -
  have "hdrs st s = Some h" "h_lk h = 0" using assms by (auto simp: slab_ok_def)
  then show ?thesis by (simp add: slab_access hdr_eta fun_upd_idem)
qed

text \<open>\<open>slab_alloc\<close> took the chunk \<open>p\<close> off the free list of the page \<open>s\<close>.\<close>

definition popped :: "u64 \<Rightarrow> slabs \<Rightarrow> addr \<Rightarrow> addr \<Rightarrow> slabs \<Rightarrow> bool" where
  "popped sz st s p st' \<longleftrightarrow>
     (\<exists>h n xs g. slab_ok st s h ((p, n) # xs) \<and> h_sz h = sz \<and> p \<noteq> 0 \<and> page_frame s st g st' \<and>
        slab_ok st' s g (pop_chunk sz ((p, n) # xs)) \<and> h_sz g = h_sz h \<and> h_next g = h_next h)"

lemma slab_alloc_popped:
  assumes "slab_ok st s h xs" and "h_sz h = sz"
  shows "(xs = [] \<and> slab_alloc s sz st = Inr (0, st)) \<or>
    (xs \<noteq> [] \<and> (\<exists>p st'. slab_alloc s sz st = Inr (p, st') \<and> p \<noteq> 0 \<and> popped sz st s p st'))"
proof (cases xs)
  case Nil
  then show ?thesis using assms slab_alloc_empty by auto
next
  case (Cons x ys)
  obtain p n where x: "x = (p, n)" by (cases x)
  note h' = assms(1) [unfolded Cons x]
  obtain st' g where r: "slab_alloc s sz st = Inr (p, st')" "page_frame s st g st'"
      "slab_ok st' s g (pop_chunk sz ((p, n) # ys))" "h_sz g = h_sz h" "h_next g = h_next h"
    using slab_alloc_nonempty [OF h'] assms(2) by auto
  have "p \<noteq> 0" using h' by (simp add: slab_ok_def)
  then have "popped sz st s p st'" unfolding popped_def using h' assms(2) r(2-5) by blast
  then show ?thesis using r(1) \<open>p \<noteq> 0\<close> Cons by blast
qed

lemma S_alloc_loop_spec:
  assumes "chain (hdrs st) a ss" and "\<And>s. s \<in> set ss \<Longrightarrow> \<exists>h xs. slab_ok st s h xs \<and> h_sz h = sz"
    and "length ss < fuel"
  shows "(\<exists>s p st'. s \<in> set ss \<and> S_alloc_loop fuel a prev sz st = Inr (p, s, st') \<and> p \<noteq> 0 \<and> popped sz st s p st') \<or>
         S_alloc_loop fuel a prev sz st = Inr (0, last (prev # ss), st)"
  using assms
proof (induction ss arbitrary: a prev fuel)
  case Nil
  then show ?case by (cases fuel) auto
next
  case (Cons s ss)
  obtain f where f: "fuel = Suc f" using Cons.prems(3) by (cases fuel) auto
  obtain h xs where h: "slab_ok st s h xs" "h_sz h = sz" using Cons.prems(2) [of s] by auto
  have a: "a = s" "s \<noteq> 0" using Cons.prems(1) by auto
  have rest: "chain (hdrs st) (h_next h) ss" using Cons.prems(1) h(1) by (auto simp: slab_ok_def)
  from slab_alloc_popped [OF h] show ?case
  proof (elim disjE conjE exE)
    assume none: "slab_alloc s sz st = Inr (0, st)"
    have eq: "S_alloc_loop fuel a prev sz st = S_alloc_loop f (h_next h) s sz st"
      using a none walk_lock [OF h(1), of "\<lambda>a st. S_alloc_loop f a s sz st"] by (simp add: f)
    have IH: "(\<exists>s' p st'. s' \<in> set ss \<and> S_alloc_loop f (h_next h) s sz st = Inr (p, s', st') \<and> p \<noteq> 0 \<and> popped sz st s' p st') \<or>
        S_alloc_loop f (h_next h) s sz st = Inr (0, last (s # ss), st)"
      using Cons.prems(2,3) f by (intro Cons.IH [OF rest]) auto
    have last: "last (prev # s # ss) = last (s # ss)" by simp
    from IH show ?thesis unfolding eq last list.set by blast
  next
    fix p st' assume r: "slab_alloc s sz st = Inr (p, st')" "p \<noteq> 0" "popped sz st s p st'"
    then have "S_alloc_loop fuel a prev sz st = Inr (p, s, st')" using a by (simp add: f)
    moreover have "s \<in> set (s # ss)" by simp
    ultimately show ?thesis using r(2,3) by blast
  qed
qed

section \<open>A new slab page\<close>

lemma take_block_ext [simp]:
  "hdrs (take_block k i b st) = hdrs st" "nodes (take_block k i b st) = nodes st"
  "Slab (take_block k i b st) = Slab st" "n_slab (take_block k i b st) = n_slab st"
  by (simp_all add: take_block_def)

lemma take_block_hdrs: "take_block k i b (st\<lparr>hdrs := H\<rparr>) = (take_block k i b st)\<lparr>hdrs := H\<rparr>"
  by (simp add: take_block_def)

lemma slab_ok_cong:
  "hdrs st' s = hdrs st s \<Longrightarrow> nodes st' = nodes st \<Longrightarrow> slab_ok st' s h xs = slab_ok st s h xs"
  by (simp add: slab_ok_def)

lemma slab_ok_take [simp]: "slab_ok (take_block k i b st) s h xs = slab_ok st s h xs"
  by (rule slab_ok_cong) simp_all

lemma slab_objs_at_take [simp]: "slab_objs_at (take_block k i b st) s = slab_objs_at st s"
  by (simp add: slab_objs_at_def)

lemma chain_cong: "(\<And>s. s \<in> set ss \<Longrightarrow> m s = m' s) \<Longrightarrow> chain m a ss = chain m' a ss"
  by (induction ss arbitrary: a) auto

text \<open>The page \<open>i\<close> was free and has become a slab page with all its chunks free.\<close>

lemma fresh_slab_page:
  assumes inv: "page_inv st" "pages_slab_ok st" and fit: "fits st 0 i"
    and frame: "page_frame (pg st i) (take_block 0 i True st) g st'"
    and new: "slab_ok st' (pg st i) g ys" "chunks (unat (h_sz g)) ys = page_chunks (unat (pg st i)) (unat (h_sz g))"
  shows "page_inv st' \<and> pages_slab_ok st'" and "objs st' = objs st"
    and "lists_ok D st P \<Longrightarrow> lists_ok D st' P"
    and "lists_ok D st P \<Longrightarrow> (c, j) \<in> D \<Longrightarrow> pg st i \<notin> set (P c j)"
proof -
  let ?t = "take_block 0 i True st"
  note fs = page_frame_simps [OF frame]
  have ok: "pages_ok st" "blocks_ok st" using inv by (auto simp: page_inv_def)
  have i: "i < n_meta st" using fit by (simp add: fits_def)
  then have room: "i + 2 ^ 0 \<le> META_SZ" using ok(1) by (simp add: pages_ok_def)
  have nslab: "\<not> is_slab (Meta st i)" and nblock: "\<not> block st i e" for e
    using free_page_no_slab [OF inv(1) fit, of i] i by auto
  note bt = block_take [OF ok fit room, of True]
  have M: "Meta ?t l = Meta st l" if "l \<noteq> i" for l using that by (auto simp: Meta_take_block)
  have Mi: "is_slab (Meta ?t i)" by (simp add: Meta_take_block)
  have other: "slab_ok st' (pg st l) h xs = slab_ok st (pg st l) h xs" if "l < n_meta st" "l \<noteq> i" for l h xs
    using slab_ok_frame [OF frame, of "pg st l"] pg_apart [OF ok(1) i that(1)] that(2) by auto
  have "pages_slab_ok st'"
    unfolding pages_slab_ok_def fs
  proof (intro allI impI)
    fix l assume l: "l < n_meta ?t" "is_slab (Meta ?t l)"
    show "block ?t l (l + 1) \<and> (\<exists>h xs. slab_ok st' (pg ?t l) h xs)"
    proof (cases "l = i")
      case True
      then show ?thesis using bt [of i "i + 1"] new(1) by auto
    next
      case False
      then have "block st l (l + 1) \<and> (\<exists>h xs. slab_ok st (pg st l) h xs)"
        using inv(2) l M by (auto simp: pages_slab_ok_def)
      then show ?thesis using bt [of l "l + 1"] other [of l] False l(1) by auto
    qed
  qed
  moreover have "page_inv ?t" by (rule page_inv_take [OF inv(1) fit room])
  ultimately show "page_inv st' \<and> pages_slab_ok st'" by (simp add: fs)
  have "page_objs st' = page_objs st"
  proof -
    have eq: "(block ?t l e \<and> \<not> is_slab (Meta ?t l) \<and> Q) = (block st l e \<and> \<not> is_slab (Meta st l) \<and> Q)" for l e Q
      using bt [of l e] M [of l] Mi nblock [of e] by (cases "l = i") simp_all
    show ?thesis unfolding fs by (simp only: page_objs_def take_block_simps eq)
  qed
  moreover have "slab_objs st' = slab_objs st"
  proof -
    have "slab_objs_at st' (pg st i) = {}" 
      unfolding slab_objs_at_eq [OF new(1)] using new(2) by auto
    moreover have "slab_objs_at st' (pg st l) = slab_objs_at st (pg st l)" if "l < n_meta st" "l \<noteq> i" for l
      using other [OF that] by (simp add: slab_objs_at_def)
    ultimately have "l < n_meta st \<and> is_slab (Meta ?t l) \<and> x \<in> slab_objs_at st' (pg st l) \<longleftrightarrow>
        l < n_meta st \<and> is_slab (Meta st l) \<and> x \<in> slab_objs_at st (pg st l)" for l x
      using M [of l] nslab by (cases "l = i") auto
    then show ?thesis unfolding slab_objs_def fs by simp
  qed
  ultimately show "objs st' = objs st" by (simp add: objs_def)
  have page: "list_page st j s \<Longrightarrow> s \<noteq> pg st i" for j s
    using nslab pg_inject [OF ok(1)] ok(1) i by (auto simp: list_page_def pages_ok_def)
  show notin: "pg st i \<notin> set (P c j)" if "lists_ok D st P" "(c, j) \<in> D" for c j
    using that page by (fastforce simp: lists_ok_def)
  show "lists_ok D st' P" if l: "lists_ok D st P"
  proof -
    have lp: "list_page st' j s" if "list_page st j s" for j s
    proof -
      obtain l where l: "l < n_meta st" "s = pg st l" "is_slab (Meta st l)" using \<open>list_page st j s\<close> by (auto simp: list_page_def)
      then have "l \<noteq> i" using nslab by auto
      moreover have "s \<noteq> pg st i" using page that by blast
      ultimately show ?thesis using that l M [of l] by (auto simp: list_page_def fs)
    qed
    have "chain (hdrs st') (Slab st' c j) (P c j)" if "(c, j) \<in> D" for c j
    proof -
      have "chain (hdrs st) (Slab st c j) (P c j)" using l that by (auto simp: lists_ok_def)
      then show ?thesis using notin [OF l that] by (subst chain_cong [of _ _ "hdrs st"]) (auto simp: fs)
    qed
    then show ?thesis using l lp by (fastforce simp: lists_ok_def)
  qed
qed

lemma slab_inv_objs:
  "page_inv st \<Longrightarrow> pages_slab_ok st \<Longrightarrow> i < n_meta st \<Longrightarrow> is_slab (Meta st i) \<Longrightarrow>
   \<exists>h xs. slab_ok st (pg st i) h xs"
  by (simp add: pages_slab_ok_def)

lemma chain_append:
  assumes "chain m a ss" and "ss \<noteq> []" and "distinct ss" and "r \<notin> set ss" and "r \<noteq> 0"
    and "m (last ss) = Some h" and "h_next g = r" and "m' r = Some k" and "h_next k = 0"
    and "m' (last ss) = Some g" and "\<And>s. s \<noteq> r \<Longrightarrow> s \<noteq> last ss \<Longrightarrow> m' s = m s"
  shows "chain m' a (ss @ [r])"
  using assms
proof (induction ss arbitrary: a)
  case (Cons s ss)
  show ?case
  proof (cases "ss = []")
    case True
    then show ?thesis using Cons.prems by auto
  next
    case False
    then have ne: "s \<noteq> last ss" "s \<noteq> r" using Cons.prems(3,4) by auto
    obtain hs where hs: "a = s" "s \<noteq> 0" "m s = Some hs" "chain m (h_next hs) ss" using Cons.prems(1) by auto
    have "chain m' (h_next hs) (ss @ [r])"
      using Cons.prems False hs(4) by (intro Cons.IH) auto
    moreover have "m' s = Some hs" using Cons.prems(11) [of s] Cons.prems(6,10) ne hs(3) False by simp
    ultimately show ?thesis using hs by auto
  qed
qed simp

lemma chain_last_next:
  assumes "chain m a ss" and "ss \<noteq> []"
  shows "\<exists>h. m (last ss) = Some h \<and> h_next h = 0"
  using assms by (induction ss arbitrary: a) (auto split: if_splits)

text \<open>
  What \<open>add_slab\<close> leaves behind when it gets a page: the fresh page \<open>pg st i\<close>, linked from \<open>prev\<close>.
\<close>

lemma add_slab_run:
  assumes inv: "page_inv st" "pages_slab_ok st" and l: "l < n_meta st" "is_slab (Meta st l)"
    and prev: "slab_ok st (pg st l) h xs" "h_next h = 0" and i: "fits st 0 i" "\<And>k. k < i \<Longrightarrow> \<not> fits st 0 k"
  shows "\<exists>A g ys. page_frame (pg st i) (take_block 0 i True st) g A \<and> slab_ok A (pg st i) g ys \<and>
    chunks (unat (h_sz g)) ys = page_chunks (unat (pg st i)) (unat (h_sz g)) \<and> ys \<noteq> [] \<and>
    h_sz g = h_sz h \<and> h_next g = 0 \<and>
    add_slab (pg st l) st = Inr (pg st i, A\<lparr>hdrs := (hdrs A)(pg st l \<mapsto> h\<lparr>h_next := pg st i\<rparr>)\<rparr>)"
proof -
  let ?s = "pg st l" and ?r = "pg st i"
  let ?h1 = "h\<lparr>h_lk := 1\<rparr>"
  let ?st1 = "st\<lparr>hdrs := (hdrs st)(?s \<mapsto> ?h1)\<rparr>"
  have ok: "pages_ok st" using inv by (simp add: page_inv_def)
  have il: "i < n_meta st" "i \<noteq> l" using i(1) free_page_no_slab [OF inv(1) i(1), of i] l(2) by (auto simp: fits_def)
  have h: "hdrs st ?s = Some h" "h_lk h = 0" using prev(1) by (auto simp: slab_ok_def)
  obtain j where j: "j < SLAB_SIZE" "h_sz h = 2 ^ (j + 4)" using slab_ok_size [OF prev(1)] by blast
  have up: "unat ?r = unat (G_start st) + i * 65536" using unat_pg [OF ok] il by simp
  have r: "65536 dvd unat ?r" "0 < unat ?r" "unat ?r < 2 ^ 63"
    using up ok il unfolding pages_ok_def by auto
  have ne: "?r \<noteq> 0" "?s \<noteq> 0" "?r \<noteq> ?s"
    using r(2) unat_pg [OF ok, of l] l ok il pg_inject [OF ok, of i l] by (auto simp: pages_ok_def)
  have ga: "G_alloc 1 True ?st1 = Inr (?r, take_block 0 i True ?st1)"
    using G_alloc_at [of ?st1 0 i True] inv(1) i ok by (simp add: pages_ok_def)
  obtain st3 g p where st3: "slab_init ?r (h_sz h) (take_block 0 i True ?st1) = Inr st3"
      "page_frame ?r (take_block 0 i True ?st1) g st3" "h_sz g = h_sz h" "h_next g = 0"
      "slab_ok st3 ?r g [(p, of_nat (65536 - first_chunk (unat (h_sz h))))]"
      "chunks (unat (h_sz h)) [(p, of_nat (65536 - first_chunk (unat (h_sz h))))] = page_chunks (unat ?r) (unat (h_sz h))"
    using slab_init_fresh [OF r j, of "take_block 0 i True ?st1"] by blast
  obtain N where N: "st3 = (take_block 0 i True st)\<lparr>hdrs := (hdrs st)(?s \<mapsto> ?h1, ?r \<mapsto> g), nodes := N\<rparr>"
      "\<And>a. \<not> (unat ?r \<le> unat a \<and> unat a < unat ?r + 65536) \<Longrightarrow> N a = nodes st a"
    using st3(2) by (auto simp: page_frame_def take_block_hdrs)
  let ?A = "(take_block 0 i True st)\<lparr>hdrs := (hdrs st)(?r \<mapsto> g), nodes := N\<rparr>"
  have "page_frame ?r (take_block 0 i True st) g ?A"
    using N(2) unfolding page_frame_def by (intro exI [of _ N]) simp
  moreover have "slab_ok ?A ?r g [(p, of_nat (65536 - first_chunk (unat (h_sz h))))]"
  proof -
    have "hdrs ?A ?r = hdrs st3 ?r" "nodes ?A = nodes st3" by (simp_all add: N(1))
    from iffD2 [OF slab_ok_cong [OF this] st3(5)] show ?thesis .
  qed
  moreover have "add_slab ?s st = Inr (?r, ?A\<lparr>hdrs := (hdrs ?A)(?s \<mapsto> h\<lparr>h_next := ?r\<rparr>)\<rparr>)"
  proof -
    have "h\<lparr>h_lk := 1, h_next := ?r, h_lk := 0\<rparr> = h\<lparr>h_next := ?r\<rparr>" using h(2) by (cases h) simp
    moreover have "add_slab ?s st =
        Inr (?r, st3\<lparr>hdrs := (hdrs st3)(?s \<mapsto> h\<lparr>h_lk := 1, h_next := ?r, h_lk := 0\<rparr>)\<rparr>)"
      using ga st3(1) ne h prev(2) N(1) unfolding add_slab_def
      by (simp add: slab_access take_block_hdrs)
    ultimately show ?thesis using ne(3) by (simp add: N(1) fun_upd_twist)
  qed
  ultimately show ?thesis using st3(3,4,6) by (metis list.distinct(1))
qed

lemma popped_step:
  assumes inv: "pmm_inv st" and i: "i < n_meta st" "is_slab (Meta st i)" and pop: "popped sz st (pg st i) p st'"
  shows "pmm_inv st' \<and> unat sz dvd unat p \<and> objs st' = insert (unat p, unat sz) (objs st) \<and> (unat p, unat sz) \<notin> objs st \<and>
    n_meta st' = n_meta st \<and> n_slab st' = n_slab st"
proof -
  obtain h n xs g where r: "slab_ok st (pg st i) h ((p, n) # xs)" "h_sz h = sz" "page_frame (pg st i) st g st'"
      "slab_ok st' (pg st i) g (pop_chunk sz ((p, n) # xs))" "h_sz g = h_sz h" "h_next g = h_next h"
    using pop by (auto simp: popped_def)
  have seg: "segs_ok (unat sz) (unat (pg st i) + first_chunk (unat sz)) (unat (pg st i) + 65536) ((p, n) # xs)"
    and hi: "unat (pg st i) + 65536 < 2 ^ 64" using r(1,2) by (auto simp: slab_ok_def)
  note c = pop_chunk_ok(2,3) [OF seg hi]
  show ?thesis
    using slab_step(1) [OF inv i r(1,3,4,5,6)]
      slab_step_alloc [OF inv i r(1,3,4,5,6), of "unat p"] c r(2) page_frame_simps(2,7) [OF r(3)] seg by simp
qed

text \<open>Linking the fresh page of \<open>add_slab_run\<close> to the end of its list.\<close>

lemma link_fresh_page:
  assumes inv: "pmm_inv st" and D: "(c, j) \<in> slab_rows st" and P: "lists_ok (slab_rows st) st P"
    and l: "l < n_meta st" "is_slab (Meta st l)" "pg st l = last (P c j)"
    and prev: "slab_ok st (pg st l) h xs" "h_next h = 0" and i: "fits st 0 i"
    and A: "page_frame (pg st i) (take_block 0 i True st) g A" "slab_ok A (pg st i) g ys"
      "chunks (unat (h_sz g)) ys = page_chunks (unat (pg st i)) (unat (h_sz g))"
      "h_sz g = h_sz h" "h_next g = 0"
    and B: "B = A\<lparr>hdrs := (hdrs A)(pg st l \<mapsto> h\<lparr>h_next := pg st i\<rparr>)\<rparr>"
  shows "pmm_inv B" and "objs B = objs st" and "slab_ok B (pg st i) g ys"
    and "pg B = pg st" and "i < n_meta B" and "is_slab (Meta B i)" and "n_meta B = n_meta st" and "n_slab B = n_slab st"
proof -
  let ?s = "pg st l" and ?r = "pg st i" and ?g = "h\<lparr>h_next := pg st i\<rparr>"
  have pinv: "page_inv st" "pages_slab_ok st" and ok: "pages_ok st" using inv by (auto simp: pmm_inv_def page_inv_def)
  have il: "i < n_meta st" "i \<noteq> l" using i free_page_no_slab [OF pinv(1) i, of i] l(2) by (auto simp: fits_def)
  have ne: "?r \<noteq> ?s" "?r \<noteq> 0"
    using pg_inject [OF ok, of i l] il l(1) ok unat_pg [OF ok, of i] by (auto simp: pages_ok_def)
  note fresh = fresh_slab_page [OF pinv i A(1-3)]
  note fs = page_frame_simps [OF A(1)]
  have sA: "slab_ok A ?s h xs"
    using slab_ok_frame [OF A(1), of ?s] pg_apart [OF ok il(1) l(1) il(2)] prev(1) by auto
  have fB: "page_frame ?s A ?g B" unfolding page_frame_def B by (intro exI [of _ "nodes A"]) simp
  have sB: "slab_ok B ?s ?g xs" using sA unfolding B by (auto simp: slab_ok_def)
  note fsB = page_frame_simps [OF fB]
  have lA: "l < n_meta A" "is_slab (Meta A l)" using l il by (auto simp: fs Meta_take_block)
  have pgA: "pg A = pg st" by (simp add: fs)
  note stepB = slab_step_pages [OF conjunct1 [OF fresh(1)] conjunct2 [OF fresh(1)] lA, unfolded pgA, OF sA fB sB]
  have at: "slab_objs_at B ?s = slab_objs_at A ?s"
    unfolding slab_objs_at_eq [OF sA] slab_objs_at_eq [OF sB] by simp
  have sub: "x \<in> objs A" if "x \<in> slab_objs_at A ?s" for x
    using that lA pgA by (auto simp: objs_def slab_objs_def)
  have "x \<in> objs B \<longleftrightarrow> x \<in> objs A" for x using stepB(2) [of x] at sub [of x] by (auto split: if_splits)
  then show "objs B = objs st" using fresh(2) by blast
  show rB: "slab_ok B ?r g ys"
    using slab_ok_frame [OF fB, of ?r] pg_apart [OF ok il(1) l(1) il(2)] A(2) by auto
  show "pg B = pg st" "i < n_meta B" "is_slab (Meta B i)" "n_meta B = n_meta st" "n_slab B = n_slab st" using il by (auto simp: fsB fs Meta_take_block)
  let ?P = "P(c := (P c)(j := P c j @ [?r]))"
  have rows: "slab_rows B = slab_rows st" by (simp add: slab_rows_def fsB fs)
  note PA = lists_okD [OF fresh(3) [OF P]] and PS = lists_okD [OF P]
  have lpB: "list_page B j' s" if "list_page A j' s" for j' s
    using that sA unfolding list_page_def fsB by (auto simp: slab_ok_def)
  have sP: "?s \<in> set (P c j)" using PS(1) [OF D] l(3) by simp
  have rP: "?r \<notin> set (P c' j')" if "(c', j') \<in> slab_rows st" for c' j' by (rule fresh(4) [OF P that])
  have h_sz: "h_sz h = 2 ^ (j + 4)" using PA(4) [OF D sP] sA by (auto simp: list_page_def slab_ok_def)
  have lr: "list_page B j ?r"
  proof -
    have "hdrs B ?r = Some g" using rB by (simp add: slab_ok_def)
    then show ?thesis
      unfolding list_page_def using \<open>i < n_meta B\<close> \<open>is_slab (Meta B i)\<close> \<open>pg B = pg st\<close> A(4) h_sz by force
  qed
  have chainA: "chain (hdrs A) (Slab st c' j') (P c' j')" if "(c', j') \<in> slab_rows st" for c' j'
    using PA(3) [OF that] by (simp add: fs)
  note disj = lists_ok_disjoint [OF P]
  have "lists_ok (slab_rows B) B ?P"
    unfolding lists_ok_def rows
  proof (intro conjI ballI)
    fix x assume x: "x \<in> slab_rows st"
    obtain c' j' where cj: "x = (c', j')" by (cases x)
    show "case x of (c, j) \<Rightarrow> ?P c j \<noteq> [] \<and> distinct (?P c j) \<and> chain (hdrs B) (Slab B c j) (?P c j) \<and>
        (\<forall>s\<in>set (?P c j). list_page B j s)"
    proof (cases "c' = c \<and> j' = j")
      case True
      have "chain (hdrs B) (Slab st c j) (P c j @ [?r])"
        by (rule chain_append [OF chainA [OF D] PS(1,2) [OF D] rP [OF D] ne(2), of h ?g _ g])
          (use sA l(3) ne A(5) A(2) in \<open>auto simp: fsB slab_ok_def B\<close>)
      then show ?thesis
        using True cj PS(2) [OF D] rP [OF D] lpB [OF PA(4) [OF D]] lr by (simp add: fsB fs)
    next
      case False
      have x': "(c', j') \<in> slab_rows st" using x cj by simp
      have "?s \<notin> set (P c' j')" using disj [OF x' D] False sP by auto
      then have "chain (hdrs B) (Slab st c' j') (P c' j')"
        using chainA [OF x'] by (subst chain_cong [of _ _ "hdrs A"]) (auto simp: fsB)
      then show ?thesis
        using False cj PS(1,2) [OF x'] lpB [OF PA(4) [OF x']] by (auto simp: fsB fs)
    qed
  next
    fix x assume x: "x \<in> slab_rows st"
    obtain c1 j1 where cj: "x = (c1, j1)" by (cases x)
    have x1: "(c1, j1) \<in> slab_rows st" using x cj by simp
    have "set (?P c1 j1) \<inter> set (?P c2 j2) = {}" if "(c2, j2) \<in> slab_rows st" "(c1, j1) \<noteq> (c2, j2)" for c2 j2
      using disj [OF x1 that] rP [OF x1] rP [OF that(1)] that(2) by auto
    then show "case x of (c, j) \<Rightarrow> \<forall>(c', j') \<in> slab_rows st. (c, j) \<noteq> (c', j') \<longrightarrow> set (?P c j) \<inter> set (?P c' j') = {}"
      unfolding cj prod.case by blast
  qed
  then show "pmm_inv B"
    using stepB(1) inv by (auto simp: pmm_inv_def fsB fs)
qed

section \<open>What the entry points do\<close>

text \<open>The result of an allocation: \<open>NULL\<close> and no change, or a new object.\<close>

definition alloc_result :: "slabs \<Rightarrow> nat \<Rightarrow> addr \<Rightarrow> slabs \<Rightarrow> bool" where
  "alloc_result st n p st' \<longleftrightarrow>
     (if p = 0 then st' = st
      else pmm_inv st' \<and> n dvd unat p \<and> (unat p, n) \<notin> objs st \<and> objs st' = insert (unat p, n) (objs st) \<and>
        n_meta st' = n_meta st \<and> n_slab st' = n_slab st)"

lemma list_pages_bound:
  assumes "lists_ok D st P" and "(c, j) \<in> D"
  shows "length (P c j) \<le> n_meta st"
proof -
  have "set (P c j) \<subseteq> pg st ` {..<n_meta st}"
    using lists_okD(4) [OF assms] by (auto simp: list_page_def)
  then have "card (set (P c j)) \<le> card (pg st ` {..<n_meta st})" by (intro card_mono) auto
  also have "\<dots> \<le> n_meta st" using card_image_le [of "{..<n_meta st}" "pg st"] by simp
  finally show ?thesis using distinct_card [OF lists_okD(2) [OF assms]] by simp
qed

lemma add_slab_full:
  assumes "page_inv st" and "slab_ok st s h xs" and "\<not> (\<exists>i. fits st 0 i)" and "s \<noteq> 0"
  shows "add_slab s st = Inr (0, st)"
proof -
  have h: "hdrs st s = Some h" "h_lk h = 0" using assms(2) by (auto simp: slab_ok_def)
  have "n_meta st + 2 ^ 0 \<le> META_SZ + 1" using assms(1) by (simp add: page_inv_def pages_ok_def)
  then have "G_alloc 1 True (st\<lparr>hdrs := (hdrs st)(s \<mapsto> h\<lparr>h_lk := 1\<rparr>)\<rparr>) = Inr (0, st\<lparr>hdrs := (hdrs st)(s \<mapsto> h\<lparr>h_lk := 1\<rparr>)\<rparr>)"
    using G_alloc_ok [of "st\<lparr>hdrs := (hdrs st)(s \<mapsto> h\<lparr>h_lk := 1\<rparr>)\<rparr>" 0 True] assms(1,3) by simp
  then show ?thesis
    using h assms(4) by (simp add: add_slab_def slab_access hdr_eta fun_upd_idem)
qed

text \<open>
  \<open>S_alloc\<close> hands out a chunk, or \<open>NULL\<close> when every page is taken; of the pages it takes at most one.
\<close>

lemma popped_Meta: "popped sz st s p st' \<Longrightarrow> Meta st' = Meta st"
  by (auto simp: popped_def page_frame_def)

lemma S_alloc_spec:
  assumes inv: "pmm_inv st" and cpu: "cpu < n_slab st" and j: "j < SLAB_SIZE"
  shows "\<exists>p st'. S_alloc cpu (n_slab st) (2 ^ (j + 4)) st = Inr (p, st') \<and> alloc_result st (2 ^ (j + 4)) p st' \<and>
    (p = 0 \<longrightarrow> (\<forall>i<n_meta st. is_alloc (Meta st i))) \<and>
    (\<exists>i. \<forall>l. l \<noteq> i \<longrightarrow> is_alloc (Meta st' l) = is_alloc (Meta st l))"
proof -
  let ?sz = "2 ^ (j + 4) :: u64"
  obtain P where P: "lists_ok (slab_rows st) st P" using inv by (auto simp: pmm_inv_def)
  have D: "(cpu, j) \<in> slab_rows st" using cpu j by (simp add: slab_rows_def)
  have pinv: "page_inv st" "pages_slab_ok st" using inv by (auto simp: pmm_inv_def)
  note PS = lists_okD [OF P D]
  have usz: "unat ?sz = 2 ^ (j + 4)" by (rule class_size(1) [OF j])
  have page: "\<exists>i h xs. i < n_meta st \<and> s = pg st i \<and> is_slab (Meta st i) \<and> slab_ok st s h xs \<and> h_sz h = ?sz"
    if s: "s \<in> set (P cpu j)" for s
  proof -
    obtain i g where i: "i < n_meta st" "s = pg st i" "is_slab (Meta st i)" "hdrs st s = Some g" "h_sz g = ?sz"
      using PS(4) [OF s] by (auto simp: list_page_def)
    obtain h xs where h: "slab_ok st s h xs" using slab_inv_objs [OF pinv i(1,3)] i(2) by auto
    then have "h = g" using i(4) by (simp add: slab_ok_def)
    then show ?thesis using i h by blast
  qed
  let ?loop = "S_alloc_loop (n_meta st + 2) (Slab st cpu j) 0 ?sz st"
  have start: "S_alloc cpu (n_slab st) ?sz st = res_bind ?loop (\<lambda>(ret, prev, st).
       if ret \<noteq> 0 then Inr (ret, st)
       else res_bind (guard AssertFail (prev \<noteq> 0)) (\<lambda>_.
         res_bind (add_slab prev st) (\<lambda>(new_slab, st).
           if new_slab = 0 then Inr (0, st)
           else res_bind (slab_alloc new_slab ?sz st) (\<lambda>(ret, st).
             res_bind (guard AssertFail (ret \<noteq> 0)) (\<lambda>_. Inr (ret, st))))))"
  proof -
    have "j + 4 \<le> 32" "j + 4 \<le> 12" "j + 4 - 4 = j" using j by (simp_all add: SLAB_SIZE_def)
    then have "get_slab_index ?sz = Inr j" "nextPower_2 ?sz = ?sz"
      using get_slab_index_pow2 [of "j + 4"] nextPower_2_pow2 [of "j + 4"] by simp_all
    moreover have "?sz \<noteq> 0" using j by (simp add: SLAB_SIZE_def)
    moreover have "cpu < SLAB_CPUS" using cpu inv by (simp add: pmm_inv_def)
    ultimately show ?thesis using cpu by (simp add: S_alloc_def Let_def del: S_alloc_loop.simps)
  qed
  have "\<exists>h xs. slab_ok st s h xs \<and> h_sz h = ?sz" if "s \<in> set (P cpu j)" for s using page [OF that] by blast
  moreover have "length (P cpu j) < n_meta st + 2" using list_pages_bound [OF P D] by simp
  ultimately consider s p st' where "s \<in> set (P cpu j)" "?loop = Inr (p, s, st')" "p \<noteq> 0" "popped ?sz st s p st'"
    | "?loop = Inr (0, last (0 # P cpu j), st)"
    using S_alloc_loop_spec [OF PS(3), of ?sz "n_meta st + 2" 0] by blast
  then show ?thesis
  proof cases
    case 1
    obtain i where "i < n_meta st" "s = pg st i" "is_slab (Meta st i)" using page [OF 1(1)] by blast
    then have "alloc_result st (2 ^ (j + 4)) p st'"
      using popped_step [OF inv, of i ?sz p st'] 1(3,4) usz by (simp add: alloc_result_def)
    moreover have "Meta st' = Meta st" by (rule popped_Meta [OF 1(4)])
    ultimately show ?thesis using 1(2,3) start by (auto simp del: S_alloc_loop.simps)
  next
    case 2
    let ?s = "last (P cpu j)"
    have prev: "last (0 # P cpu j) = ?s" "?s \<in> set (P cpu j)" using PS(1) by simp_all
    obtain l h xs where l: "l < n_meta st" "?s = pg st l" "is_slab (Meta st l)" "slab_ok st ?s h xs" "h_sz h = ?sz"
      using page [OF prev(2)] by blast
    have nx: "h_next h = 0" using chain_last_next [OF PS(3,1)] l(4) by (auto simp: slab_ok_def)
    have s0: "?s \<noteq> 0" using unat_pg [of st l] l(1,2) pinv(1) by (auto simp: page_inv_def pages_ok_def)
    show ?thesis
    proof (cases "\<exists>i. fits st 0 i")
      case False
      then have "is_alloc (Meta st i)" if "i < n_meta st" for i
        using that page_dvd [of st i] pinv(1) by (auto simp: fits_def all_free_def page_inv_def)
      then show ?thesis
        using 2 start prev s0 add_slab_full [OF pinv(1) l(4) False s0]
        by (auto simp: alloc_result_def simp del: S_alloc_loop.simps)
    next
      case True
      then obtain i where i: "fits st 0 i" "\<And>l. l < i \<Longrightarrow> \<not> fits st 0 l" by (rule least_fit) auto
      note ls = l(4) [unfolded l(2)]
      obtain A g ys where A: "page_frame (pg st i) (take_block 0 i True st) g A" "slab_ok A (pg st i) g ys"
          "chunks (unat (h_sz g)) ys = page_chunks (unat (pg st i)) (unat (h_sz g))" "ys \<noteq> []"
          "h_sz g = h_sz h" "h_next g = 0"
          "add_slab (pg st l) st = Inr (pg st i, A\<lparr>hdrs := (hdrs A)(pg st l \<mapsto> h\<lparr>h_next := pg st i\<rparr>)\<rparr>)"
        using add_slab_run [OF pinv l(1,3) ls nx i] by blast
      define B where "B = A\<lparr>hdrs := (hdrs A)(pg st l \<mapsto> h\<lparr>h_next := pg st i\<rparr>)\<rparr>"
      note B = link_fresh_page [OF inv D P l(1,3) l(2) [symmetric] ls nx i(1) A(1,2,3,5,6) B_def]
      obtain p st' where p: "slab_alloc (pg st i) ?sz B = Inr (p, st')" "p \<noteq> 0" "popped ?sz B (pg st i) p st'"
        using slab_alloc_popped [OF B(3), of ?sz] A(4,5) l(5) by auto
      have "i < n_meta st" using i(1) by (simp add: fits_def)
      then have "pg st i \<noteq> 0" using unat_pg [of st i] pinv(1) by (auto simp: page_inv_def pages_ok_def)
      then have "S_alloc cpu (n_slab st) ?sz st = Inr (p, st')"
        unfolding start using 2 prev s0 l(2) A(7) p(1,2) by (simp add: B_def [symmetric] del: S_alloc_loop.simps)
      moreover have "alloc_result st (2 ^ (j + 4)) p st'"
        using popped_step [OF B(1,5,6), of ?sz p st'] p(2,3) B(2,4,7,8) usz by (simp add: alloc_result_def)
      moreover have "Meta st' = Meta (take_block 0 i True st)"
        using popped_Meta [OF p(3)] page_frame_simps(1) [OF A(1)] by (simp add: B_def)
      then have "is_alloc (Meta st' l) = is_alloc (Meta st l)" if "l \<noteq> i" for l
        using that by (auto simp: Meta_take_block)
      ultimately show ?thesis using p(2) by blast
    qed
  qed
qed

text \<open>A block of pages taken for a client of the page layer.\<close>

lemma page_block_taken:
  assumes inv: "pmm_inv st" and fit: "fits st k i" and room: "i + 2 ^ k \<le> META_SZ"
  shows "pmm_inv (take_block k i False st)"
    and "objs (take_block k i False st) = insert (unat (pg st i), 65536 * 2 ^ k) (objs st)"
    and "(unat (pg st i), 65536 * 2 ^ k) \<notin> objs st"
proof -
  let ?t = "take_block k i False st"
  have pinv: "page_inv st" "pages_slab_ok st" and ok: "pages_ok st" "blocks_ok st"
    using inv by (auto simp: pmm_inv_def page_inv_def)
  have i: "i < n_meta st" using fit by (simp add: fits_def)
  note bt = block_take [OF ok fit room, of False]
  note nb = free_page_no_slab [OF pinv(1) fit]
  have slab: "is_slab (Meta ?t l) = is_slab (Meta st l)" if "l < n_meta st" for l
    using that nb(1) [of l] by (auto simp: Meta_take_block)
  have "pages_slab_ok ?t" using pinv(2) slab bt by (auto simp: pages_slab_ok_def)
  moreover have lp: "list_page ?t j s = list_page st j s" for j s
    using slab by (auto simp: list_page_def)
  moreover have "slab_rows ?t = slab_rows st" by (simp add: slab_rows_def)
  moreover have "lists_ok D ?t P = lists_ok D st P" for D P by (simp add: lists_ok_def lp)
  ultimately show "pmm_inv ?t" using inv page_inv_take [OF pinv(1) fit room] by (simp add: pmm_inv_def)
  have "slab_objs ?t = slab_objs st" using slab by (auto simp: slab_objs_def)
  moreover have "page_objs ?t = insert (unat (pg st i), 65536 * 2 ^ k) (page_objs st)"
    by (rule page_objs_take [OF pinv(1) fit room])
  ultimately show "objs ?t = insert (unat (pg st i), 65536 * 2 ^ k) (objs st)" by (simp add: objs_def)
  show "(unat (pg st i), 65536 * 2 ^ k) \<notin> objs st"
  proof
    assume o: "(unat (pg st i), 65536 * 2 ^ k) \<in> objs st"
    obtain l e where l: "block st l e" "unat (pg st l) \<le> unat (pg st i)" "unat (pg st i) + 65536 * 2 ^ k \<le> unat (pg st e)"
      using obj_block [OF ok(1) pinv(2) o] by metis
    have le: "l < n_meta st" "l < e" "e \<le> META_SZ" using l(1) by (auto simp: block_def)
    have u: "unat (pg st x) = unat (G_start st) + x * 65536" if "x \<le> META_SZ" for x
      using unat_pg_wide [OF ok(1), of x] that by (simp add: META_SZ_val)
    have "0 < (2::nat) ^ k" "l \<le> META_SZ" "i \<le> META_SZ" using le room by simp_all
    then have "l \<le> i" "i < e" using l(2,3) u [of l] u [of i] u [of e] le(3) by linarith+
    then have "in_block st e i" using l(1) by (simp add: block_def)
    then show False using free_not_in_block [of st i "2 ^ k" i e] fit by (simp add: fits_def)
  qed
qed

text \<open>The bytes \<open>kalloc\<close> hands out for a request.\<close>

definition obj_size :: "u64 \<Rightarrow> nat" where
  "obj_size sz = (let n = unat (nextPower_2 sz) in if n < 16 then 16 else if n \<le> 4096 then n else max 65536 n)"

lemma G_alloc_spec:
  assumes inv: "pmm_inv st" and k: "k \<le> 8" and size: "n_meta st + 2 ^ k \<le> META_SZ + 1"
  shows "\<exists>p st'. G_alloc (2 ^ k) False st = Inr (p, st') \<and> alloc_result st (65536 * 2 ^ k) p st' \<and>
    (p = 0 \<longrightarrow> (\<forall>i. \<not> fits st k i))"
proof (cases "\<exists>i. fits st k i")
  case True
  then obtain i where i: "fits st k i" "\<And>l. l < i \<Longrightarrow> \<not> fits st k l" by (rule least_fit) auto
  have pinv: "page_inv st" "pages_ok st" using inv by (auto simp: pmm_inv_def page_inv_def)
  have lt: "i < n_meta st" using i(1) by (simp add: fits_def)
  then have room: "i + 2 ^ k \<le> META_SZ" using size by simp
  have "pg st i \<noteq> 0" using unat_pg [OF pinv(2), of i] lt pinv(2) by (auto simp: pages_ok_def)
  then show ?thesis
    using G_alloc_at [OF pinv(1) k size i, of False] page_block_taken [OF inv i(1) room] i(1)
    by (simp add: alloc_result_def fits_def power_add)
next
  case False
  then show ?thesis
    using G_alloc_ok [of st k False] k size inv by (simp add: alloc_result_def pmm_inv_def)
qed

lemma kalloc_spec:
  assumes inv: "pmm_inv st" and cpu: "cpu < n_slab st" and size: "n_meta st + 255 \<le> META_SZ" and sz: "sz \<le> MAX_ALLOC"
  shows "\<exists>p st'. kalloc cpu (n_slab st) sz st = Inr (p, st') \<and> alloc_result st (obj_size sz) p st' \<and>
    (p = 0 \<longrightarrow> (\<exists>k\<le>8. \<forall>i. \<not> fits st k i))"
proof -
  have max: "unat MAX_ALLOC = 2 ^ 24" by (simp add: MAX_ALLOC_def)
  have not: "\<not> MAX_ALLOC < sz" using sz by simp
  have le: "unat sz \<le> 2 ^ 24" using sz max by (simp add: word_le_nat_alt)
  have full: "\<exists>k\<le>8. \<forall>i. \<not> fits st k i" if "\<forall>i<n_meta st. is_alloc (Meta st i)"
    using that by (intro exI [of _ 0]) (auto simp: fits_def all_free_def)
  have small: ?thesis if j: "j < SLAB_SIZE" "(if nextPower_2 sz < 16 then 16 else nextPower_2 sz) = 2 ^ (j + 4)" "obj_size sz = 2 ^ (j + 4)" for j
  proof -
    have "kalloc cpu (n_slab st) sz st = S_alloc cpu (n_slab st) (2 ^ (j + 4)) st"
      using not class_size(1,4) [OF j(1)] j(2) by (simp add: kalloc_def Let_def word_le_nat_alt)
    then show ?thesis using S_alloc_spec [OF inv cpu j(1)] j(3) full by metis
  qed
  show ?thesis
  proof (cases "sz = 0")
    case True
    then show ?thesis using small [of 0] by (simp add: nextPower_2_0 obj_size_def SLAB_SIZE_def)
  next
    case False
    then have "1 \<le> unat sz" by (simp add: Suc_le_eq unat_gt_0)
    then obtain k where k: "nextPower_2 sz = 2 ^ k" "unat sz \<le> 2 ^ k" "2 ^ k < 2 * unat sz" "k \<le> 32"
      using nextPower_2_nat [of sz] le by auto
    have u: "unat (2 ^ k :: u64) = 2 ^ k" using k(4) by (intro unat_pow2) simp
    have "(2::nat) ^ k < 2 ^ 25" using k(3) le by simp
    then have k24: "k \<le> 24" using power_less_imp_less_exp [of "2::nat" k 25] by simp
    have lt16: "nextPower_2 sz < 16 \<longleftrightarrow> k < 4"
      using power_strict_increasing_iff [of "2::nat" k 4] by (simp add: k(1) word_less_nat_alt u)
    have le4k: "nextPower_2 sz \<le> 4096 \<longleftrightarrow> k \<le> 12"
      using power_increasing_iff [of "2::nat" k 12] by (simp add: k(1) word_le_nat_alt u)
    have os: "obj_size sz = (if k < 4 then 16 else if k \<le> 12 then 2 ^ k else max 65536 (2 ^ k))"
      using power_strict_increasing_iff [of "2::nat" k 4] power_increasing_iff [of "2::nat" k 12] by (simp add: obj_size_def k(1) u)
    show ?thesis
    proof (cases "k \<le> 12")
      case True
      have "k < 4 \<or> k = (k - 4) + 4" by arith
      then show ?thesis
        using small [of "k - 4"] small [of 0] True lt16 os k(1) by (auto simp: SLAB_SIZE_def)
    next
      case False
      define m where "m = k - 16"
      have m: "m \<le> 8" using k24 by (simp add: m_def)
      have pages: "(let npage = 2 ^ k div GPAGE_SZ in if npage = 0 then 1 else npage) = (2 ^ m :: u64)"
      proof -
        have d: "unat (2 ^ k div GPAGE_SZ :: u64) = 2 ^ k div 2 ^ 16" by (simp add: unat_div u)
        show ?thesis
        proof (cases "k < 16")
          case True
          then have "(2::nat) ^ k < 2 ^ 16" by (rule power_strict_increasing) simp
          then have "unat (2 ^ k div GPAGE_SZ :: u64) = 0" unfolding d by simp
          then show ?thesis using True by (simp add: m_def unat_eq_zero)
        next
          case False
          then have "unat (2 ^ k div GPAGE_SZ :: u64) = 2 ^ m" unfolding d m_def by (simp add: power_diff)
          moreover have "unat (2 ^ m :: u64) = 2 ^ m" using m by (intro unat_pow2) simp
          ultimately have "2 ^ k div GPAGE_SZ = (2 ^ m :: u64)" by (simp add: word_unat_eq_iff)
          moreover have "2 ^ m \<noteq> (0 :: u64)" using m by simp
          ultimately show ?thesis by (simp add: Let_def)
        qed
      qed
      have "kalloc cpu (n_slab st) sz st = G_alloc (2 ^ m) False st"
        using not False lt16 le4k pages by (simp add: kalloc_def Let_def k(1))
      moreover have "obj_size sz = 65536 * 2 ^ m"
      proof (cases "k < 16")
        case True
        then have "(2::nat) ^ k \<le> 2 ^ 16" by (intro power_increasing) simp_all
        then show ?thesis using True False by (simp add: os m_def)
      next
        case False
        then have "k = 16 + m" by (simp add: m_def)
        then have "(2::nat) ^ k = 65536 * 2 ^ m" by (simp add: power_add)
        then show ?thesis using False by (simp add: os)
      qed
      moreover have "n_meta st + 2 ^ m \<le> META_SZ + 1"
      proof -
        have "(2::nat) ^ m \<le> 2 ^ 8" using m by (intro power_increasing) simp_all
        then show ?thesis using size by simp
      qed
      ultimately show ?thesis using G_alloc_spec [OF inv m] m by metis
    qed
  qed
qed

lemma page_block_released:
  assumes inv: "pmm_inv st" and b: "block st i e" and no_slab: "\<not> is_slab (Meta st i)"
  shows "pmm_inv (release i (e - i) st)"
    and "objs (release i (e - i) st) = objs st - {(unat (pg st i), (e - i) * 65536)}"
proof -
  let ?t = "release i (e - i) st"
  have pinv: "page_inv st" "pages_slab_ok st" and ok: "pages_ok st" "blocks_ok st"
    using inv by (auto simp: pmm_inv_def page_inv_def)
  have ie: "i < e" "i < n_meta st" "e \<le> META_SZ" using b by (auto simp: block_def)
  note ns = block_not_slab [OF pinv(1) b no_slab]
  note br = block_release [OF ok(1) b]
  have ext: "hdrs ?t = hdrs st" "nodes ?t = nodes st" "Slab ?t = Slab st" "n_slab ?t = n_slab st"
    by (simp_all add: release_def)
  have sok: "slab_ok ?t s h xs = slab_ok st s h xs" for s h xs by (rule slab_ok_cong) (simp_all add: ext)
  have slab: "is_slab (Meta ?t l) = is_slab (Meta st l)" for l
    using ns [of l] by (auto simp: Meta_release)
  have "pages_slab_ok ?t"
    unfolding pages_slab_ok_def
  proof (intro allI impI)
    fix l assume l: "l < n_meta ?t" "is_slab (Meta ?t l)"
    then have "block st l (l + 1)" "\<exists>h xs. slab_ok st (pg st l) h xs" "l \<noteq> i"
      using pinv(2) slab no_slab by (auto simp: pages_slab_ok_def)
    then show "block ?t l (l + 1) \<and> (\<exists>h xs. slab_ok ?t (pg ?t l) h xs)" by (simp add: br sok)
  qed
  moreover have lp: "list_page ?t j s = list_page st j s" for j s by (simp add: list_page_def slab ext)
  moreover have "slab_rows ?t = slab_rows st" by (simp add: slab_rows_def ext)
  moreover have "lists_ok D ?t P = lists_ok D st P" for D P by (simp add: lists_ok_def lp ext)
  moreover have "page_inv ?t"
    using ok pinv(1) blocks_ok_release [OF ok b ns] by (simp add: page_inv_def)
  ultimately show "pmm_inv ?t" using inv by (simp add: pmm_inv_def ext)
  have at: "slab_objs_at ?t s = slab_objs_at st s" for s by (simp add: slab_objs_at_def sok)
  then have so: "slab_objs ?t = slab_objs st" by (simp add: slab_objs_def slab)
  let ?x = "(unat (pg st i), (e - i) * 65536)"
  have "?x \<notin> slab_objs st"
  proof
    assume "?x \<in> slab_objs st"
    then obtain l where l: "l < n_meta st" "is_slab (Meta st l)" "?x \<in> slab_objs_at st (pg st l)" by (auto simp: slab_objs_def)
    obtain h xs where h: "slab_ok st (pg st l) h xs" using slab_inv_objs [OF pinv l(1,2)] by blast
    have "(e - i) * 65536 = unat (h_sz h)" using l(3) unfolding slab_objs_at_eq [OF h] by simp
    moreover have "unat (h_sz h) \<le> 4096" using slab_ok_size [OF h] by metis
    ultimately show False using ie by simp
  qed
  moreover have "page_objs ?t = page_objs st - {?x}" by (rule page_objs_release [OF pinv(1) b no_slab])
  ultimately show "objs ?t = objs st - {?x}" unfolding objs_def so by blast
qed

lemma page_of_slab_obj:
  assumes "pages_ok st" and "i < n_meta st" and "unat (pg st i) \<le> unat p" and "unat p < unat (pg st i) + 65536"
  shows "ROUNDDOWN p GPAGE_SZ = pg st i"
proof -
  have "65536 dvd unat (pg st i)" using page_dvd [OF assms(1)] assms(2) by simp
  then obtain t where t: "unat (pg st i) = 65536 * t" by (rule dvdE)
  then have "unat p div 65536 = t" using assms(3,4) by (intro div_nat_eqI) simp_all
  then have "unat (ROUNDDOWN p (2 ^ 16)) = unat (pg st i)" using t unat_ROUNDDOWN [of p 16] by simp
  then show ?thesis by (simp add: GPAGE_SZ_def word_unat_eq_iff)
qed

lemma kfree_spec:
  assumes inv: "pmm_inv st" and o: "(unat p, n) \<in> objs st"
  shows "\<exists>st'. kfree p st = Inr st' \<and> pmm_inv st' \<and> objs st' = objs st - {(unat p, n)} \<and>
    n_meta st' = n_meta st \<and> n_slab st' = n_slab st"
proof -
  have pinv: "page_inv st" "pages_slab_ok st" and ok: "pages_ok st" "blocks_ok st" "G_lock st = 0"
    using inv by (auto simp: pmm_inv_def page_inv_def)
  obtain i e where i: "block st i e" "unat (pg st i) \<le> unat p" "unat p + n \<le> unat (pg st e)"
    "is_slab (Meta st i) \<and> e = i + 1 \<and> (unat p, n) \<in> slab_objs_at st (pg st i) \<or>
         \<not> is_slab (Meta st i) \<and> unat p = unat (pg st i) \<and> n = (e - i) * 65536"
    using obj_block [OF ok(1) pinv(2) o] by metis
  have lt: "i < n_meta st" "i < e" using i(1) by (auto simp: block_def)
  have "p \<noteq> 0" using i(2) unat_pg [OF ok(1), of i] lt(1) ok(1) by (auto simp: pages_ok_def)
  have kf: "kfree p st = (if is_slab (Meta st i) then S_free p st
      else res_bind (guard AssertFail (pg st i = p)) (\<lambda>_. G_free p st))" if "ROUNDDOWN p GPAGE_SZ = pg st i"
    using that \<open>p \<noteq> 0\<close> get_meta_index_pg [OF ok(1), of i] lt ok(1)
    by (simp add: kfree_def meta_at_def pages_ok_def)
  from i(4) show ?thesis
  proof (elim disjE conjE)
    assume s: "is_slab (Meta st i)" "(unat p, n) \<in> slab_objs_at st (pg st i)"
    obtain h xs where h: "slab_ok st (pg st i) h xs" using slab_inv_objs [OF pinv lt(1) s(1)] by blast
    have hs: "n = unat (h_sz h)" "unat p \<in> page_chunks (unat (pg st i)) n" "unat p \<notin> chunks n xs"
      using s(2) unfolding slab_objs_at_eq [OF h] by auto
    have e: "unat p + n \<le> unat (pg st i) + 65536" using page_chunk_end [OF h] hs(1,2) by simp
    have n: "16 \<le> n" using slab_ok_size [OF h] hs(1) by metis
    have rd: "ROUNDDOWN p GPAGE_SZ = pg st i" using page_of_slab_obj [OF ok(1) lt(1) i(2)] e n by simp
    have c: "unat (h_sz h) dvd unat p" "unat (pg st i) + first_chunk (unat (h_sz h)) \<le> unat p"
      using hs by (auto simp: page_chunks_def)
    obtain st' g where f: "S_free p st = Inr st'" "page_frame (pg st i) st g st'"
        "slab_ok st' (pg st i) g (put_chunk (h_sz h) p xs)" "h_sz g = h_sz h" "h_next g = h_next h"
      using S_free_page [OF h rd c] e hs(1,3) by auto
    have seg: "segs_ok (unat (h_sz h)) (unat (pg st i) + first_chunk (unat (h_sz h))) (unat (pg st i) + 65536) xs"
      using h by (simp add: slab_ok_def)
    have "chunks (unat (h_sz h)) (put_chunk (h_sz h) p xs) = insert (unat p) (chunks (unat (h_sz h)) xs)"
      using put_chunk_ok [OF seg _ c] e n hs(1,3) by simp
    then have "objs st' = objs st - {(unat p, n)}"
      using slab_step_free [OF inv lt(1) s(1) h f(2,3,4,5), of "unat p"] s(2) hs(1) by simp
    moreover have "pmm_inv st'" by (rule slab_step(1) [OF inv lt(1) s(1) h f(2,3,4,5)])
    ultimately show ?thesis using kf [OF rd] s(1) f(1) page_frame_simps(2,7) [OF f(2)] by simp
  next
    assume s: "\<not> is_slab (Meta st i)" "unat p = unat (pg st i)" "n = (e - i) * 65536"
    have p: "p = pg st i" using s(2) by (simp add: word_unat_eq_iff)
    have rd: "ROUNDDOWN p GPAGE_SZ = pg st i" using page_of_slab_obj [OF ok(1) lt(1), of p] s(2) by simp
    have "G_free p st = Inr (release i (e - i) st)"
      unfolding p by (rule G_free_block [OF ok(1,3) i(1)]) (rule block_not_slab [OF pinv(1) i(1) s(1)])
    then show ?thesis
      using kf [OF rd] s p page_block_released [OF inv i(1) s(1)] by (simp add: release_def)
  qed
qed

section \<open>Initialisation\<close>

text \<open>
  The state inside the loops of \<open>S_init\<close> after \<open>m\<close> slab pages: they are the first \<open>m\<close> pages of
  the heap, in order, and nothing else is allocated.
\<close>

definition init_rows :: "nat \<Rightarrow> (nat \<times> nat) set" where
  "init_rows m = {(c, j). j < SLAB_SIZE \<and> SLAB_SIZE * c + j < m}"

definition init_ok :: "nat \<Rightarrow> slabs \<Rightarrow> bool" where
  "init_ok m st \<longleftrightarrow>
     page_inv st \<and> pages_slab_ok st \<and> m \<le> n_meta st \<and> objs st = {} \<and>
     (\<forall>l<n_meta st. is_alloc (Meta st l) \<longleftrightarrow> l < m) \<and>
     lists_ok (init_rows m) st (\<lambda>c j. [pg st (SLAB_SIZE * c + j)])"

lemma row_index:
  assumes "SLAB_SIZE * c + j = SLAB_SIZE * c' + j'" and "j < SLAB_SIZE" and "j' < SLAB_SIZE"
  shows "c = c' \<and> j = j'"
proof -
  have "(SLAB_SIZE * c + j) div SLAB_SIZE = c" "(SLAB_SIZE * c' + j') div SLAB_SIZE = c'"
    using assms(2,3) by simp_all
  then have "c = c'" using assms(1) by simp
  then show ?thesis using assms(1) by simp
qed

lemma init_rows_Suc:
  "j < SLAB_SIZE \<Longrightarrow> init_rows (Suc (SLAB_SIZE * i + j)) = insert (i, j) (init_rows (SLAB_SIZE * i + j))"
  by (auto simp: init_rows_def less_Suc_eq dest: row_index)

lemma lists_ok_insert:
  assumes "lists_ok D st P" and "P c j \<noteq> []" and "distinct (P c j)" and "chain (hdrs st) (Slab st c j) (P c j)"
    and "\<And>s. s \<in> set (P c j) \<Longrightarrow> list_page st j s"
    and "\<And>c' j'. (c', j') \<in> D \<Longrightarrow> set (P c j) \<inter> set (P c' j') = {}"
  shows "lists_ok (insert (c, j) D) st P"
  unfolding lists_ok_def
proof (intro conjI ballI)
  fix x assume "x \<in> insert (c, j) D"
  then show "case x of (c, j) \<Rightarrow> P c j \<noteq> [] \<and> distinct (P c j) \<and> chain (hdrs st) (Slab st c j) (P c j) \<and>
      (\<forall>s\<in>set (P c j). list_page st j s)"
    using assms(2-5) lists_okD [OF assms(1)] by (cases x) auto
next
  fix x assume x: "x \<in> insert (c, j) D"
  obtain c1 j1 where cj: "x = (c1, j1)" by (cases x)
  have "set (P c1 j1) \<inter> set (P c2 j2) = {}" if "(c2, j2) \<in> insert (c, j) D" "(c1, j1) \<noteq> (c2, j2)" for c2 j2
    using that x assms(6) [of c1 j1] assms(6) [of c2 j2] lists_ok_disjoint [OF assms(1), of c1 j1 c2 j2]
    unfolding cj by auto
  then show "case x of (a, b) \<Rightarrow> \<forall>(c', j') \<in> insert (c, j) D. (a, b) \<noteq> (c', j') \<longrightarrow> set (P a b) \<inter> set (P c' j') = {}"
    unfolding cj prod.case by blast
qed

lemma S_init_row_step:
  assumes ok: "init_ok (SLAB_SIZE * i + j) st" and j: "j < SLAB_SIZE" and i: "i < SLAB_CPUS"
    and room: "SLAB_SIZE * i + j < n_meta st"
  shows "\<exists>st'. S_init_row i j st = S_init_row i (j + 1) st' \<and> init_ok (Suc (SLAB_SIZE * i + j)) st' \<and>
    n_meta st' = n_meta st \<and> n_slab st' = n_slab st"
proof -
  define m where "m = SLAB_SIZE * i + j"
  note ok' = ok [folded m_def, unfolded init_ok_def]
  have pinv: "page_inv st" "pages_slab_ok st" and pok: "pages_ok st" using ok' by (auto simp: page_inv_def)
  have alloc: "is_alloc (Meta st l) \<longleftrightarrow> l < m" if "l < n_meta st" for l using ok' that by simp
  have lt: "m < n_meta st" using room by (simp add: m_def)
  have fit: "fits st 0 m" "\<And>l. l < m \<Longrightarrow> \<not> fits st 0 l"
    using alloc lt page_dvd [OF pok, of m] by (auto simp: fits_def all_free_def)
  let ?r = "pg st m" and ?sz = "2 ^ (j + 4) :: u64"
  let ?st0 = "st\<lparr>Slab := (Slab st)(i := (Slab st i)(j := ?r))\<rparr>"
  have up: "unat ?r = unat (G_start st) + m * 65536" using unat_pg [OF pok] lt by simp
  have r: "65536 dvd unat ?r" "0 < unat ?r" "unat ?r < 2 ^ 63"
    using up pok lt unfolding pages_ok_def by auto
  have ga: "G_alloc 1 True st = Inr (?r, take_block 0 m True st)"
    using G_alloc_at [of st 0 m True] pinv(1) fit pok by (simp add: pages_ok_def)
  have t0: "(take_block 0 m True st)\<lparr>Slab := (Slab st)(i := (Slab st i)(j := ?r))\<rparr> = take_block 0 m True ?st0"
    by (simp add: take_block_def)
  obtain st3 g p where st3: "slab_init ?r ?sz (take_block 0 m True ?st0) = Inr st3"
      "page_frame ?r (take_block 0 m True ?st0) g st3" "h_sz g = ?sz" "h_next g = 0"
      "slab_ok st3 ?r g [(p, of_nat (65536 - first_chunk (unat ?sz)))]"
      "chunks (unat ?sz) [(p, of_nat (65536 - first_chunk (unat ?sz)))] = page_chunks (unat ?r) (unat ?sz)"
    using slab_init_fresh [OF r j refl, of "take_block 0 m True ?st0"] by blast
  have run: "S_init_row i j st = S_init_row i (j + 1) st3"
  proof -
    have "push_bit (j + 4) 1 = ?sz" by (simp add: push_bit_of_1)
    then show ?thesis
      using j i ga st3(1) by (subst S_init_row.simps) (simp add: t0 Let_def del: take_bit_of_1)
  qed
  have sok: "slab_ok ?st0 s h xs = slab_ok st s h xs" for s h xs by (simp add: slab_ok_def)
  have lp: "list_page ?st0 j s = list_page st j s" for j s by (simp add: list_page_def)
  have ps0: "pages_slab_ok ?st0" using pinv(2) by (simp add: pages_slab_ok_def sok)
  have o0: "objs ?st0 = objs st" by (simp add: objs_def slab_objs_def slab_objs_at_def sok)
  let ?P = "\<lambda>c j. [pg st (SLAB_SIZE * c + j)]"
  have L: "lists_ok (init_rows m) st ?P" using ok' by simp
  have Ls: "Slab ?st0 c j' = Slab st c j'" if "(c, j') \<in> init_rows m" for c j'
    using that by (auto simp: init_rows_def m_def)
  have L0: "lists_ok (init_rows m) ?st0 ?P"
    using L Ls unfolding lists_ok_def by (fastforce simp: lp)
  have fit0: "fits ?st0 0 m" and pg0: "pg ?st0 = pg st" and pi0: "page_inv ?st0" using fit(1) pinv(1) by simp_all
  note fresh = fresh_slab_page [OF pi0 ps0 fit0, unfolded pg0, OF st3(2,5), unfolded st3(3), OF st3(6)]
  note fs = page_frame_simps [OF st3(2)]
  have pg3: "pg st3 = pg st" by (simp add: fs)
  have lr: "list_page st3 j ?r"
    using lt st3(3,5) unfolding list_page_def fs by (auto simp: Meta_take_block slab_ok_def)
  have "lists_ok (insert (i, j) (init_rows m)) st3 ?P"
  proof (rule lists_ok_insert [OF fresh(3) [OF L0]])
    show "chain (hdrs st3) (Slab st3 i j) [pg st (SLAB_SIZE * i + j)]"
      using st3(4,5) r(2) by (auto simp: fs slab_ok_def m_def)
    show "list_page st3 j s" if "s \<in> set [pg st (SLAB_SIZE * i + j)]" for s
      using that lr by (simp add: m_def)
    show "set [pg st (SLAB_SIZE * i + j)] \<inter> set [pg st (SLAB_SIZE * c' + j')] = {}" if "(c', j') \<in> init_rows m" for c' j'
      using fresh(4) [OF L0 that] by (simp add: m_def)
  qed simp_all
  moreover have "is_alloc (Meta st3 l) \<longleftrightarrow> l < Suc m" if "l < n_meta st" for l
    using alloc [OF that] by (auto simp: fs Meta_take_block less_Suc_eq)
  ultimately have "init_ok (Suc m) st3"
    using fresh(1,2) o0 ok' lt init_rows_Suc [OF j, of i] by (simp add: init_ok_def pg3 fs m_def)
  then show ?thesis using run by (auto simp: m_def fs intro!: exI [of _ st3])
qed

lemma S_init_row_ok:
  assumes "init_ok (SLAB_SIZE * i + j) st" and "j \<le> SLAB_SIZE" and "i < SLAB_CPUS"
    and "SLAB_SIZE * (i + 1) \<le> n_meta st"
  shows "\<exists>st'. S_init_row i j st = Inr st' \<and> init_ok (SLAB_SIZE * (i + 1)) st' \<and>
    n_meta st' = n_meta st \<and> n_slab st' = n_slab st"
  using assms
proof (induction "SLAB_SIZE - j" arbitrary: j st)
  case 0
  then have "j = SLAB_SIZE" by simp
  then show ?case using 0 by (subst S_init_row.simps) (simp add: algebra_simps)
next
  case (Suc d)
  then have j: "j < SLAB_SIZE" by simp
  have "SLAB_SIZE * i + j < n_meta st" using Suc.prems(4) j by (simp add: algebra_simps)
  then obtain st1 where st1: "S_init_row i j st = S_init_row i (j + 1) st1" "init_ok (SLAB_SIZE * i + (j + 1)) st1"
      "n_meta st1 = n_meta st" "n_slab st1 = n_slab st"
    using S_init_row_step [OF Suc.prems(1) j Suc.prems(3)] by auto
  then show ?case using Suc.hyps(1) [of "j + 1" st1] Suc.hyps(2) Suc.prems(3,4) j by auto
qed

lemma S_init_loop_ok:
  assumes "init_ok (SLAB_SIZE * i) st" and "i \<le> n" and "n \<le> SLAB_CPUS" and "SLAB_SIZE * n \<le> n_meta st"
  shows "\<exists>st'. S_init_loop n i st = Inr st' \<and> init_ok (SLAB_SIZE * n) st' \<and> n_meta st' = n_meta st \<and> n_slab st' = n_slab st"
  using assms
proof (induction "n - i" arbitrary: i st)
  case 0
  then show ?case by (subst S_init_loop.simps) simp
next
  case (Suc d)
  then have i: "i < n" by simp
  have le: "SLAB_SIZE * (i + 1) \<le> SLAB_SIZE * n" using i by (intro mult_le_mono2) simp
  then obtain st1 where st1: "S_init_row i 0 st = Inr st1" "init_ok (SLAB_SIZE * (i + 1)) st1"
      "n_meta st1 = n_meta st" "n_slab st1 = n_slab st"
    using S_init_row_ok [of i 0 st] Suc.prems i by auto
  then have "S_init_loop n i st = S_init_loop n (i + 1) st1" using i by (subst S_init_loop.simps) simp
  then show ?case using Suc.hyps(1) [of "i + 1" st1] Suc.hyps(2) Suc.prems st1 i by simp
qed

lemma init_rows_all: "init_rows (SLAB_SIZE * n) = {0..<n} \<times> {0..<SLAB_SIZE}"
proof -
  have "SLAB_SIZE * c + j < SLAB_SIZE * n \<longleftrightarrow> c < n" if "j < SLAB_SIZE" for c j
    using that by (auto simp: SLAB_SIZE_def)
  then show ?thesis by (auto simp: init_rows_def)
qed

lemma pmm_init_ok:
  assumes heap: "first_page (unat (heap_start st)) \<le> unat (heap_end st)" "unat (heap_end st) \<le> 2 ^ 63"
    and n: "n = (unat (heap_end st) - first_page (unat (heap_start st))) div 65536" "n < META_SZ"
    and cpus: "cpu_count \<le> SLAB_CPUS" "SLAB_SIZE * cpu_count \<le> n"
  shows "\<exists>st'. pmm_init cpu_count st = Inr st' \<and> pmm_inv st' \<and> objs st' = {} \<and> n_slab st' = cpu_count \<and> n_meta st' = n \<and>
    (\<forall>l<n. is_alloc (Meta st' l) \<longleftrightarrow> l < SLAB_SIZE * cpu_count)"
proof -
  obtain st1 where st1: "G_init st = Inr st1" "page_inv st1" "n_meta st1 = n" "\<And>i. i < n \<Longrightarrow> \<not> is_alloc (Meta st1 i)"
    using G_init_ok [OF heap] n by auto
  let ?st = "st1\<lparr>n_slab := cpu_count\<rparr>"
  have ns: "\<not> is_slab (Meta st1 i)" if "i < n" for i
    using blocks_ok_free [of st1 i] st1 that by (simp add: page_inv_def)
  have "init_ok (SLAB_SIZE * 0) ?st"
  proof -
    have "page_objs st1 = {}" using st1(3,4) by (auto simp: page_objs_def block_def in_block_def)
    then show ?thesis
      using st1(2-4) ns by (auto simp: init_ok_def pages_slab_ok_def objs_def slab_objs_def lists_ok_def init_rows_def)
  qed
  then obtain st' where st': "S_init_loop cpu_count 0 ?st = Inr st'" "init_ok (SLAB_SIZE * cpu_count) st'"
      "n_meta st' = n" "n_slab st' = cpu_count"
    using S_init_loop_ok [of 0 ?st cpu_count] cpus st1(3) by auto
  have "pmm_inv st'"
    using st'(2,4) cpus(1) by (auto simp: pmm_inv_def init_ok_def slab_rows_def init_rows_all)
  then show ?thesis
    using st' st1(1) by (simp add: pmm_init_def S_init_def init_ok_def)
qed

section \<open>The allocator and its clients\<close>

text \<open>
  \<open>kalloc\<close> and \<open>kfree\<close> as an allocator of bytes, run on one of the CPUs; a request names the
  CPU and the size. The bound on the heap keeps every search inside \<open>Meta\<close>.
\<close>

definition kmm_inv :: "nat \<Rightarrow> slabs \<Rightarrow> bool" where
  "kmm_inv cpus st \<longleftrightarrow> pmm_inv st \<and> n_slab st = cpus \<and> n_meta st + 255 \<le> META_SZ"

lemma kmm_get:
  assumes "kmm_inv cpus st" and "cpu < cpus" and "sz \<le> MAX_ALLOC"
  shows "\<exists>p st'. kalloc cpu cpus sz st = Inr (p, st') \<and> kmm_inv cpus st' \<and>
    (if p = 0 then objs st' = objs st
     else (unat p, obj_size sz) \<notin> objs st \<and> objs st' = insert (unat p, obj_size sz) (objs st))"
proof -
  have inv: "pmm_inv st" "n_slab st = cpus" "n_meta st + 255 \<le> META_SZ" using assms(1) by (auto simp: kmm_inv_def)
  obtain p st' where "kalloc cpu cpus sz st = Inr (p, st')" "alloc_result st (obj_size sz) p st'"
    using kalloc_spec [OF inv(1) _ inv(3) assms(3), of cpu] assms(2) inv(2) by auto
  then show ?thesis using inv by (auto simp: alloc_result_def kmm_inv_def split: if_splits)
qed

lemma kmm_put:
  assumes "kmm_inv cpus st" and "(unat p, n) \<in> objs st"
  shows "\<exists>st'. kfree p st = Inr st' \<and> kmm_inv cpus st' \<and> objs st' = objs st - {(unat p, n)}"
  using kfree_spec [of st p n] assms by (auto simp: kmm_inv_def)

interpretation kmm: allocator "kmm_inv cpus" objs "\<lambda>(cpu, sz). kalloc cpu cpus sz" kfree
  "\<lambda>(cpu, sz). cpu < cpus \<and> sz \<le> MAX_ALLOC" "\<lambda>(cpu, sz). obj_size sz" for cpus
proof (unfold_locales, goal_cases)
  case (1 s r)
  obtain cpu sz where r: "r = (cpu, sz)" by (cases r)
  have "cpu < cpus" "sz \<le> MAX_ALLOC" using 1(2) by (simp_all add: r)
  from kmm_get [OF 1(1) this] show ?case unfolding r prod.case .
next
  case (2 s p n)
  then show ?case by (rule kmm_put)
next
  case (3 s x y)
  then show ?case by (intro objs_apart) (auto simp: kmm_inv_def pmm_inv_def page_inv_def)
qed

lemma nextPower_2_dvd_obj_size:
  assumes "sz \<le> MAX_ALLOC" and "sz \<noteq> 0"
  shows "unat (nextPower_2 sz) dvd obj_size sz" and "unat sz \<le> obj_size sz"
proof -
  have "1 \<le> unat sz" using assms(2) by (simp add: Suc_le_eq unat_gt_0)
  moreover have "unat sz \<le> 2 ^ 24" using assms(1) by (simp add: MAX_ALLOC_def word_le_nat_alt)
  ultimately obtain k where k: "nextPower_2 sz = 2 ^ k" "unat sz \<le> 2 ^ k" "k \<le> 32"
    using nextPower_2_nat [of sz] by auto
  have u: "unat (2 ^ k :: u64) = 2 ^ k" using k(3) by (intro unat_pow2) simp
  have os: "obj_size sz = (if (2::nat) ^ k < 2 ^ 4 then 2 ^ 4 else if (2::nat) ^ k \<le> 2 ^ 12 then 2 ^ k else max (2 ^ 16) (2 ^ k))"
    by (simp add: obj_size_def k(1) u)
  show "unat (nextPower_2 sz) dvd obj_size sz"
  proof -
    have d: "(2::nat) ^ k dvd 2 ^ m" if "(2::nat) ^ k \<le> 2 ^ m" for m
      using that power_increasing_iff [of "2::nat" k m] by (simp add: le_imp_power_dvd)
    show ?thesis unfolding os k(1) u using d [of 4] d [of 16] by (simp add: max_def)
  qed
  show "unat sz \<le> obj_size sz" using k(2) unfolding os by auto
qed

section \<open>Properties\<close>

text \<open>The machine of the witnesses: one CPU, a heap of 12 pages behind the table, as booted.\<close>

definition ex_kboot :: slabs where
  "ex_kboot = \<lparr>heap_start = 0x100000, heap_end = 0x1F0000, G_start = 0, G_lock = 0,
     Meta = (\<lambda>_. \<lparr>m_start = 0, m_end = 0, is_alloc = False, is_slab = False\<rparr>), n_meta = 0,
     Slab = (\<lambda>_ _. 0), n_slab = 0, hdrs = Map.empty, nodes = Map.empty\<rparr>"

lemma ex_kheap:
  "first_page (unat (heap_start ex_kboot)) \<le> unat (heap_end ex_kboot)" "unat (heap_end ex_kboot) \<le> 2 ^ 63"
  "12 = (unat (heap_end ex_kboot) - first_page (unat (heap_start ex_kboot))) div 65536" "12 < META_SZ"
  "1 \<le> SLAB_CPUS" "SLAB_SIZE * 1 \<le> 12"
  using ex_first_page by (simp_all add: ex_kboot_def META_SZ_val SLAB_CPUS_def SLAB_SIZE_def)

lemma ex_booted:
  obtains st where "pmm_init 1 ex_kboot = Inr st" and "pmm_inv st" and "objs st = {}" and "n_slab st = 1" and "n_meta st = 12"
    and "\<not> is_alloc (Meta st 9)"
proof -
  obtain st where st: "pmm_init 1 ex_kboot = Inr st" "pmm_inv st" "objs st = {}" "n_slab st = 1" "n_meta st = 12"
      "\<forall>l<12. is_alloc (Meta st l) \<longleftrightarrow> l < SLAB_SIZE * 1"
    using pmm_init_ok [OF ex_kheap] by blast
  then show thesis by (intro that [of st]) (simp_all add: SLAB_SIZE_def)
qed

text \<open>
  \<open>pmm_init\<close> on a heap with at least nine pages for each CPU ends without a fault in a state
  where the allocator's invariant holds and no object is handed out.
\<close>

theorem pmm_init_establishes:
  assumes "first_page (unat (heap_start st)) \<le> unat (heap_end st)" and "unat (heap_end st) \<le> 2 ^ 63"
    and "n = (unat (heap_end st) - first_page (unat (heap_start st))) div 65536" and "n < META_SZ"
    and "cpu_count \<le> SLAB_CPUS" and "SLAB_SIZE * cpu_count \<le> n"
  shows "\<exists>st'. pmm_init cpu_count st = Inr st' \<and> pmm_inv st' \<and> objs st' = {} \<and> n_slab st' = cpu_count \<and> n_meta st' = n"
  using pmm_init_ok [OF assms] by blast

theorem pmm_init_establishes_witness:
  "\<exists>st. pmm_init 1 ex_kboot = Inr st \<and> pmm_inv st \<and> objs st = {} \<and> n_slab st = 1 \<and> n_meta st = 12"
  by (rule pmm_init_establishes [OF ex_kheap])

text \<open>
  C1: In a heap of at most 7937 pages of 64 KiB, about 496 MiB, which keeps the search for the 256 pages of the largest request
  inside the 8192 entries of \<open>Meta\<close>, \<open>kalloc\<close> on any CPU and for any size up to 16 MiB never faults. It returns a new object of
  \<open>obj_size\<close> bytes, which is aligned to its size, holds the request, overlaps no object handed out
  before and leaves those as they were; or \<open>NULL\<close>, with the state unchanged, and then some size
  class of pages has no free run left. Larger requests get \<open>NULL\<close>.
\<close>

theorem kalloc_correct:
  assumes "pmm_inv st" and "cpu < n_slab st" and "n_meta st + 255 \<le> META_SZ"
  shows "if MAX_ALLOC < sz then kalloc cpu (n_slab st) sz st = Inr (0, st)
    else \<exists>p st'. kalloc cpu (n_slab st) sz st = Inr (p, st') \<and> unat sz \<le> obj_size sz \<and>
      (if p = 0 then st' = st \<and> (\<exists>k\<le>8. \<forall>i. \<not> fits st k i)
       else pmm_inv st' \<and> obj_size sz dvd unat p \<and> objs st' = insert (unat p, obj_size sz) (objs st) \<and>
            (\<forall>x \<in> objs st. apart x (unat p, obj_size sz)))"
proof (cases "MAX_ALLOC < sz")
  case True
  then show ?thesis by (simp add: kalloc_def)
next
  case False
  then have le: "sz \<le> MAX_ALLOC" by simp
  obtain p st' where r: "kalloc cpu (n_slab st) sz st = Inr (p, st')" "alloc_result st (obj_size sz) p st'"
      "p = 0 \<longrightarrow> (\<exists>k\<le>8. \<forall>i. \<not> fits st k i)"
    using kalloc_spec [OF assms le] by blast
  have "unat sz \<le> obj_size sz" by (cases "sz = 0") (simp_all add: nextPower_2_dvd_obj_size(2) [OF le])
  moreover have "apart x (unat p, obj_size sz)" if "p \<noteq> 0" "x \<in> objs st" for x
  proof (rule objs_apart [of st'])
    show "pages_ok st'" "pages_slab_ok st'" "x \<in> objs st'" "(unat p, obj_size sz) \<in> objs st'" "x \<noteq> (unat p, obj_size sz)"
      using r(2) that by (auto simp: alloc_result_def pmm_inv_def page_inv_def)
  qed
  ultimately show ?thesis using r False by (auto simp: alloc_result_def split: if_splits)
qed

theorem kalloc_correct_witness:
  "\<exists>st p st'. pmm_inv st \<and> kalloc 0 1 100 st = Inr (p, st') \<and> (p = 0 \<longrightarrow> st' = st)"
proof -
  obtain st where st: "pmm_init 1 ex_kboot = Inr st" "pmm_inv st" "n_slab st = 1" "n_meta st = 12" by (rule ex_booted)
  have "0 < n_slab st" "n_meta st + 255 \<le> META_SZ" using st(3,4) by (simp_all add: META_SZ_val)
  moreover have "\<not> MAX_ALLOC < 100" by (simp add: MAX_ALLOC_def)
  ultimately obtain p st' where "kalloc 0 (n_slab st) 100 st = Inr (p, st')" "p = 0 \<longrightarrow> st' = st"
    using kalloc_correct [OF st(2), of 0 100] by (auto split: if_splits)
  then show ?thesis using st(2,3) by auto
qed

text \<open>
  The alignment that \<open>kernel/test/test.c\<close> asserts of every pointer it gets: rounding the
  pointer up to the next power of two above the request changes nothing, \<open>NULL\<close> included.
\<close>

theorem kalloc_alignment:
  assumes "pmm_inv st" and "cpu < n_slab st" and "n_meta st + 255 \<le> META_SZ" and "sz \<noteq> 0"
    and run: "kalloc cpu (n_slab st) sz st = Inr (p, st')"
  shows "unat (nextPower_2 sz) dvd unat p"
proof (cases "MAX_ALLOC < sz")
  case True
  then show ?thesis using run by (simp add: kalloc_def)
next
  case False
  then have le: "sz \<le> MAX_ALLOC" by simp
  have "alloc_result st (obj_size sz) p st'" using kalloc_spec [OF assms(1-3) le] run by auto
  then have "p = 0 \<or> obj_size sz dvd unat p" by (auto simp: alloc_result_def split: if_splits)
  then show ?thesis using nextPower_2_dvd_obj_size(1) [OF le assms(4)] by (auto intro: dvd_trans)
qed

theorem kalloc_alignment_witness:
  "\<exists>st p st'. pmm_inv st \<and> kalloc 0 1 100 st = Inr (p, st') \<and> unat (nextPower_2 100) dvd unat p"
proof -
  obtain st where st: "pmm_init 1 ex_kboot = Inr st" "pmm_inv st" "n_slab st = 1" "n_meta st = 12" by (rule ex_booted)
  have h: "0 < n_slab st" "n_meta st + 255 \<le> META_SZ" using st(3,4) by (simp_all add: META_SZ_val)
  have "100 \<le> MAX_ALLOC" by (simp add: MAX_ALLOC_def)
  then obtain p st' where run: "kalloc 0 (n_slab st) 100 st = Inr (p, st')"
    using kalloc_spec [OF st(2) h] by blast
  have "unat (nextPower_2 100) dvd unat p" by (rule kalloc_alignment [OF st(2) h _ run]) simp
  then show ?thesis using st(2,3) run by auto
qed

text \<open>
  C3: \<open>kfree\<close> of any object handed out never faults, whichever layer it came from: exactly that
  object goes back, the others stay, and the invariant holds again.
\<close>

theorem kfree_correct:
  assumes "pmm_inv st" and "(unat p, n) \<in> objs st"
  shows "\<exists>st'. kfree p st = Inr st' \<and> pmm_inv st' \<and> objs st' = objs st - {(unat p, n)}"
  using kfree_spec [OF assms] by blast

theorem kfree_correct_witness:
  "\<exists>st p st' st''. pmm_inv st \<and> kalloc 0 1 100 st = Inr (p, st') \<and> (p \<noteq> 0 \<longrightarrow> kfree p st' = Inr st'' \<and> objs st'' = {})"
proof -
  obtain st where st: "pmm_init 1 ex_kboot = Inr st" "pmm_inv st" "objs st = {}" "n_slab st = 1" "n_meta st = 12"
    by (rule ex_booted)
  have h: "0 < n_slab st" "n_meta st + 255 \<le> META_SZ" using st(4,5) by (simp_all add: META_SZ_val)
  have "100 \<le> MAX_ALLOC" by (simp add: MAX_ALLOC_def)
  then obtain p st' where run: "kalloc 0 (n_slab st) 100 st = Inr (p, st')" "alloc_result st (obj_size 100) p st'"
    using kalloc_spec [OF st(2) h] by blast
  show ?thesis
  proof (cases "p = 0")
    case True
    then show ?thesis using st(2,4) run(1) by auto
  next
    case False
    then have "pmm_inv st'" "objs st' = {(unat p, obj_size 100)}" using run(2) st(3) by (auto simp: alloc_result_def)
    then show ?thesis using kfree_correct [of st' p "obj_size 100"] st(2,4) run(1) by auto
  qed
qed

text \<open>
  C2: In a heap of at most 7937 pages of 64 KiB, about 496 MiB, which keeps every search inside the table \<open>Meta\<close>, a program that
  allocates objects of up to 16 MiB on any CPUs and frees what it holds, in any order, runs from an allocator with its invariant and
  no objects, as \<open>pmm_init\<close> leaves it, without a fault; and no two objects it holds share a byte.
\<close>

theorem kalloc_client_safe:
  assumes "pmm_inv st" and "objs st = {}" and "n_meta st + 255 \<le> META_SZ"
    and "\<And>cpu sz. Get (cpu, sz) \<in> set cs \<Longrightarrow> cpu < n_slab st \<and> sz \<le> MAX_ALLOC"
  shows "\<exists>ps st'. run_calls (\<lambda>(cpu, sz). kalloc cpu (n_slab st) sz) kfree (\<lambda>(cpu, sz). obj_size sz) cs [] st = Inr (ps, st') \<and>
    pmm_inv st' \<and> set (addrs ps) = objs st' \<and>
    (\<forall>i<length ps. \<forall>j<length ps. i \<noteq> j \<longrightarrow> apart (addrs ps ! i) (addrs ps ! j))"
proof -
  have "kmm_inv (n_slab st) st" using assms(1,3) by (simp add: kmm_inv_def)
  moreover have "case r of (cpu, sz) \<Rightarrow> cpu < n_slab st \<and> sz \<le> MAX_ALLOC" if "Get r \<in> set cs" for r
    using assms(4) that by (cases r) auto
  ultimately show ?thesis using kmm.client_safe [of "n_slab st" st cs] assms(2) by (auto simp: kmm_inv_def)
qed

theorem kalloc_client_safe_witness:
  "\<exists>st ps st'. pmm_init 1 ex_kboot = Inr st \<and>
    run_calls (\<lambda>(cpu, sz). kalloc cpu 1 sz) kfree (\<lambda>(cpu, sz). obj_size sz) [Get (0, 100), Get (0, 70000), Put 1, Get (0, 16)] [] st
      = Inr (ps, st') \<and> pmm_inv st'"
proof -
  obtain st where st: "pmm_init 1 ex_kboot = Inr st" "pmm_inv st" "objs st = {}" "n_slab st = 1" "n_meta st = 12"
    by (rule ex_booted)
  let ?cs = "[Get (0, 100), Get (0, 70000), Put 1, Get (0, 16)] :: (nat \<times> u64) call list"
  have "n_meta st + 255 \<le> META_SZ" using st(5) by (simp add: META_SZ_val)
  moreover have "cpu < n_slab st \<and> sz \<le> MAX_ALLOC" if "Get (cpu, sz) \<in> set ?cs" for cpu sz
    using that st(4) by (auto simp: MAX_ALLOC_def)
  ultimately have "\<exists>ps st'. run_calls (\<lambda>(cpu, sz). kalloc cpu (n_slab st) sz) kfree (\<lambda>(cpu, sz). obj_size sz) ?cs [] st = Inr (ps, st') \<and>
    pmm_inv st' \<and> set (addrs ps) = objs st' \<and>
    (\<forall>i<length ps. \<forall>j<length ps. i \<noteq> j \<longrightarrow> apart (addrs ps ! i) (addrs ps ! j))"
    by (rule kalloc_client_safe [OF st(2,3)])
  then show ?thesis using st(1,4) by auto
qed

text \<open>
  The misuses \<open>kfree\<close> detects, each by a failed assertion: \<open>NULL\<close>, a page that is free (so a
  block freed twice), and a pointer into a block that is not the start of a page.
\<close>

theorem kfree_misuse:
  assumes "pmm_inv st" and "i < n_meta st" and "\<not> is_slab (Meta st i)"
  shows "kfree 0 st = Inl AssertFail \<and>
    (\<not> is_alloc (Meta st i) \<longrightarrow> kfree (pg st i) st = Inl AssertFail) \<and>
    (ROUNDDOWN p GPAGE_SZ = pg st i \<and> p \<noteq> pg st i \<longrightarrow> kfree p st = Inl AssertFail)"
proof -
  have ok: "pages_ok st" "blocks_ok st" "G_lock st = 0" using assms(1) by (auto simp: pmm_inv_def page_inv_def)
  have 0: "kfree 0 st = Inl AssertFail" by (simp add: kfree_def)
  have lt: "i < META_SZ" using assms(2) ok(1) by (simp add: pages_ok_def)
  have idx: "get_meta_index st (pg st i) = Inr (int i)" using get_meta_index_pg [OF ok(1)] assms(2) by simp
  have start: "m_start (Meta st i) = pg st i" using ok(1) assms(2) by (simp add: pages_ok_def)
  have rd: "ROUNDDOWN (pg st i) GPAGE_SZ = pg st i" using page_dvd [OF ok(1), of i] assms(2) by (simp add: ROUNDDOWN_GPAGE)
  have nz: "pg st i \<noteq> 0" using unat_pg [OF ok(1), of i] assms(2) ok(1) by (auto simp: pages_ok_def)
  have 1: "kfree (pg st i) st = Inl AssertFail" if "\<not> is_alloc (Meta st i)"
  proof -
    have "m_end (Meta st i) = 0" using blocks_ok_free [OF ok(2) assms(2) that] by simp
    moreover have "get_meta_index (st\<lparr>G_lock := 1\<rparr>) (pg st i) = Inr (int i)"
      using idx by (simp add: get_meta_index_def)
    ultimately have "G_free (pg st i) st = Inl AssertFail"
      using ok(3) rd lt assms(2) start by (simp add: G_free_def meta_at_def Let_def)
    then show ?thesis using nz rd idx assms lt start by (simp add: kfree_def meta_at_def Let_def)
  qed
  have 2: "kfree p st = Inl AssertFail" if p: "ROUNDDOWN p GPAGE_SZ = pg st i" "p \<noteq> pg st i"
  proof (cases "p = 0")
    case False
    then show ?thesis using p idx assms lt start by (auto simp: kfree_def meta_at_def Let_def)
  qed (simp add: kfree_def)
  show ?thesis using 0 1 2 by blast
qed

theorem kfree_misuse_witness:
  "\<exists>st. pmm_init 1 ex_kboot = Inr st \<and> kfree (pg st 9) st = Inl AssertFail"
proof -
  obtain st where st: "pmm_init 1 ex_kboot = Inr st" "pmm_inv st" "n_meta st = 12" "\<not> is_alloc (Meta st 9)"
    by (rule ex_booted)
  have "\<not> is_slab (Meta st 9)" using blocks_ok_free [of st 9] st by (simp add: pmm_inv_def page_inv_def)
  then show ?thesis using kfree_misuse [OF st(2), of 9 0] st by auto
qed

text \<open>
  Objects of at most one page lie inside the heap's pages. For larger ones see
  \<open>G_alloc_overruns_heap\<close>.
\<close>

theorem objs_inside_heap:
  assumes "pmm_inv st" and "(a, n) \<in> objs st" and "n \<le> 65536"
  shows "unat (G_start st) \<le> a \<and> a + n \<le> unat (heap_end st)"
proof -
  have ok: "pages_ok st" "pages_slab_ok st" using assms(1) by (auto simp: pmm_inv_def page_inv_def)
  obtain i e where i: "block st i e" "unat (pg st i) \<le> a" "a + n \<le> unat (pg st e)"
    "is_slab (Meta st i) \<and> e = i + 1 \<and> (a, n) \<in> slab_objs_at st (pg st i) \<or>
         \<not> is_slab (Meta st i) \<and> a = unat (pg st i) \<and> n = (e - i) * 65536"
    using obj_block [OF ok assms(2)] by metis
  have lt: "i < e" "i < n_meta st" using i(1) by (auto simp: block_def)
  have "e = i + 1" using i(4) assms(3) lt(1) by auto
  moreover have "unat (G_start st) + n_meta st * 65536 \<le> unat (heap_end st)" using ok(1) by (simp add: pages_ok_def)
  moreover have "(i + 1) * 65536 \<le> n_meta st * 65536" using lt(2) by simp
  ultimately show ?thesis
    using i(2,3) unat_pg [OF ok(1), of i] unat_pg [OF ok(1), of "i + 1"] lt(2) by auto
qed

theorem objs_inside_heap_witness:
  "\<exists>st p st'. kalloc 0 1 100 st = Inr (p, st') \<and> pmm_inv st \<and>
    (p \<noteq> 0 \<longrightarrow> unat p + obj_size 100 \<le> unat (heap_end st'))"
proof -
  obtain st where st: "pmm_init 1 ex_kboot = Inr st" "pmm_inv st" "objs st = {}" "n_slab st = 1" "n_meta st = 12"
    by (rule ex_booted)
  have h: "0 < n_slab st" "n_meta st + 255 \<le> META_SZ" using st(4,5) by (simp_all add: META_SZ_val)
  have "100 \<le> MAX_ALLOC" by (simp add: MAX_ALLOC_def)
  then obtain p st' where run: "kalloc 0 (n_slab st) 100 st = Inr (p, st')" "alloc_result st (obj_size 100) p st'"
    using kalloc_spec [OF st(2) h] by blast
  have "obj_size 100 \<le> 65536" by (simp add: obj_size_def nextPower_2_def)
  then have "p \<noteq> 0 \<longrightarrow> unat p + obj_size 100 \<le> unat (heap_end st')"
    using objs_inside_heap [of st' "unat p" "obj_size 100"] run(2) by (auto simp: alloc_result_def)
  then show ?thesis using st(2,4) run(1) by auto
qed

end
