(* ===== verification/Klib_String.thy ===== *)
theory Klib_String
  imports Base
begin

text \<open>
  The string and memory routines of \<open>abstract-machine/klib/src/string.c\<close> on an explicit byte
  memory. A pointer is an index into the memory, so that source and destination may be any two
  places of it, overlapping ones included; an access behind the end is \<open>BadAccess\<close>.
\<close>

unbundle bit_operations_syntax

section \<open>Memory\<close>

type_synonym mem = "u8 list"

definition load :: "mem \<Rightarrow> nat \<Rightarrow> u8 res" where
  "load m p = (if p < length m then Inr (m ! p) else Inl BadAccess)"

definition store :: "mem \<Rightarrow> nat \<Rightarrow> u8 \<Rightarrow> mem res" where
  "store m p b = (if p < length m then Inr (m[p := b]) else Inl BadAccess)"

text \<open>The bytes \<open>xs\<close> at \<open>p\<close>, and a C string at \<open>p\<close>.\<close>

definition bytes_at :: "mem \<Rightarrow> nat \<Rightarrow> u8 list \<Rightarrow> bool" where
  "bytes_at m p xs \<longleftrightarrow> p + length xs \<le> length m \<and> (\<forall>i<length xs. m ! (p + i) = xs ! i)"

definition cstr :: "mem \<Rightarrow> nat \<Rightarrow> u8 list \<Rightarrow> bool" where
  "cstr m p xs \<longleftrightarrow> bytes_at m p (xs @ [0]) \<and> 0 \<notin> set xs"

lemma bytes_at_take: "bytes_at m p xs \<longleftrightarrow> p + length xs \<le> length m \<and> take (length xs) (drop p m) = xs"
  unfolding bytes_at_def list_eq_iff_nth_eq by auto

text \<open>The memory with the bytes \<open>xs\<close> written at \<open>p\<close>.\<close>

definition poke :: "nat \<Rightarrow> u8 list \<Rightarrow> mem \<Rightarrow> mem" where
  "poke p xs m = take p m @ xs @ drop (p + length xs) m"

section \<open>The routines\<close>

function strlen_loop :: "mem \<Rightarrow> nat \<Rightarrow> nat \<Rightarrow> nat res" where
  "strlen_loop m s len =
     (case load m (s + len) of Inl e \<Rightarrow> Inl e | Inr c \<Rightarrow>
        if c \<noteq> 0 then strlen_loop m s (len + 1) else Inr len)"
  by pat_completeness auto
termination by (relation "measure (\<lambda>(m, s, len). length m - (s + len))") (auto simp: load_def split: if_splits)

definition strlen :: "mem \<Rightarrow> nat \<Rightarrow> nat res" where
  "strlen m s = strlen_loop m s 0"

text \<open>
  The loop \<open>for (; src[i] != 0; ++i) dst[i] = src[i]\<close> and the final zero. Overlapping strings can
  make it run on: then it reaches the end of the memory.
\<close>

function strcpy_loop :: "nat \<Rightarrow> nat \<Rightarrow> nat \<Rightarrow> mem \<Rightarrow> mem res" where
  "strcpy_loop dst src i m =
     (case load m (src + i) of Inl e \<Rightarrow> Inl e | Inr c \<Rightarrow>
        if c \<noteq> 0
        then (case store m (dst + i) c of Inl e \<Rightarrow> Inl e | Inr m' \<Rightarrow> strcpy_loop dst src (i + 1) m')
        else store m (dst + i) 0)"
  by pat_completeness auto
termination
  by (relation "measure (\<lambda>(dst, src, i, m). length m - (src + i))") (auto simp: load_def store_def split: if_splits)

definition strcpy :: "nat \<Rightarrow> nat \<Rightarrow> mem \<Rightarrow> (nat \<times> mem) res" where
  "strcpy dst src m = res_bind (strcpy_loop dst src 0 m) (\<lambda>m. Inr (dst, m))"

function memset_loop :: "nat \<Rightarrow> u8 \<Rightarrow> nat \<Rightarrow> nat \<Rightarrow> mem \<Rightarrow> mem res" where
  "memset_loop p c n i m =
     (if i < n then res_bind (store m (p + i) c) (memset_loop p c n (i + 1)) else Inr m)"
  by pat_completeness auto
termination by (relation "measure (\<lambda>(p, c, n, i, m). n - i)") auto

text \<open>The first loop of \<open>strncpy\<close> gives back where it stopped; the second one fills up with zeros.\<close>

function strncpy_loop :: "nat \<Rightarrow> nat \<Rightarrow> nat \<Rightarrow> nat \<Rightarrow> mem \<Rightarrow> (nat \<times> mem) res" where
  "strncpy_loop dst src n i m =
     (if i < n then
        res_bind (load m (src + i)) (\<lambda>c.
          if c \<noteq> 0 then res_bind (store m (dst + i) c) (strncpy_loop dst src n (i + 1)) else Inr (i, m))
      else Inr (i, m))"
  by pat_completeness auto
termination by (relation "measure (\<lambda>(dst, src, n, i, m). n - i)") auto

definition strncpy :: "nat \<Rightarrow> nat \<Rightarrow> nat \<Rightarrow> mem \<Rightarrow> (nat \<times> mem) res" where
  "strncpy dst src n m =
     res_bind (strncpy_loop dst src n 0 m) (\<lambda>(i, m).
     res_bind (memset_loop dst 0 n i m) (\<lambda>m. Inr (dst, m)))"

definition strcat :: "nat \<Rightarrow> nat \<Rightarrow> mem \<Rightarrow> (nat \<times> mem) res" where
  "strcat dst src m =
     res_bind (strlen m dst) (\<lambda>dest_len.
     res_bind (strcpy_loop (dst + dest_len) src 0 m) (\<lambda>m. Inr (dst, m)))"

text \<open>\<open>strcmp\<close> compares as \<open>char\<close> for equality and as \<open>unsigned char\<close> for the result.\<close>

function strcmp :: "mem \<Rightarrow> nat \<Rightarrow> nat \<Rightarrow> int res" where
  "strcmp m s1 s2 =
     (case load m s1 of Inl e \<Rightarrow> Inl e | Inr a \<Rightarrow>
      case load m s2 of Inl e \<Rightarrow> Inl e | Inr b \<Rightarrow>
        if a \<noteq> 0 \<and> a = b then strcmp m (s1 + 1) (s2 + 1) else Inr (uint a - uint b))"
  by pat_completeness auto
termination
  by (relation "measure (\<lambda>(m, s1, s2). length m - s1)") (auto simp: load_def split: if_splits)

definition strncmp :: "mem \<Rightarrow> nat \<Rightarrow> nat \<Rightarrow> nat \<Rightarrow> int res" where
  "strncmp m s1 s2 n = Inl Panic"

text \<open>\<open>(unsigned char) c\<close> of the \<open>int\<close> argument.\<close>

definition memset :: "nat \<Rightarrow> 32 word \<Rightarrow> nat \<Rightarrow> mem \<Rightarrow> (nat \<times> mem) res" where
  "memset s c n m = res_bind (memset_loop s (ucast c) n 0 m) (\<lambda>m. Inr (s, m))"

definition memmove :: "nat \<Rightarrow> nat \<Rightarrow> nat \<Rightarrow> mem \<Rightarrow> (nat \<times> mem) res" where
  "memmove dst src n m = Inl Panic"

function memcpy_loop :: "nat \<Rightarrow> nat \<Rightarrow> nat \<Rightarrow> nat \<Rightarrow> mem \<Rightarrow> mem res" where
  "memcpy_loop out inp n i m =
     (if i < n
      then res_bind (load m (inp + i)) (\<lambda>c. res_bind (store m (out + i) c) (memcpy_loop out inp n (i + 1)))
      else Inr m)"
  by pat_completeness auto
termination by (relation "measure (\<lambda>(out, inp, n, i, m). n - i)") auto

definition memcpy :: "nat \<Rightarrow> nat \<Rightarrow> nat \<Rightarrow> mem \<Rightarrow> (nat \<times> mem) res" where
  "memcpy out inp n m = res_bind (memcpy_loop out inp n 0 m) (\<lambda>m. Inr (out, m))"

function memcmp_loop :: "mem \<Rightarrow> nat \<Rightarrow> nat \<Rightarrow> nat \<Rightarrow> nat \<Rightarrow> int res" where
  "memcmp_loop m p q n i =
     (if i < n then
        res_bind (load m (p + i)) (\<lambda>a. res_bind (load m (q + i)) (\<lambda>b.
          if a \<noteq> b then Inr (if a < b then - 1 else 1) else memcmp_loop m p q n (i + 1)))
      else Inr 0)"
  by pat_completeness auto
termination by (relation "measure (\<lambda>(m, p, q, n, i). n - i)") auto

definition memcmp :: "mem \<Rightarrow> nat \<Rightarrow> nat \<Rightarrow> nat \<Rightarrow> int res" where
  "memcmp m s1 s2 n = (if s1 = s2 then Inr 0 else memcmp_loop m s1 s2 n 0)"

declare strlen_loop.simps [simp del] strcpy_loop.simps [simp del] memset_loop.simps [simp del]
  strncpy_loop.simps [simp del] strcmp.simps [simp del] memcpy_loop.simps [simp del] memcmp_loop.simps [simp del]

section \<open>Writing a block\<close>

lemma length_poke [simp]: "p + length xs \<le> length m \<Longrightarrow> length (poke p xs m) = length m"
  by (simp add: poke_def)

lemma nth_poke:
  "p + length xs \<le> length m \<Longrightarrow> i < length m \<Longrightarrow>
   poke p xs m ! i = (if p \<le> i \<and> i < p + length xs then xs ! (i - p) else m ! i)"
  by (auto simp: poke_def nth_append)

lemma poke_Nil [simp]: "poke p [] m = m"
  by (simp add: poke_def)

lemma poke_snoc:
  assumes "p + length xs < length m"
  shows "(poke p xs m)[p + length xs := b] = poke p (xs @ [b]) m"
  using assms by (intro nth_equalityI) (auto simp: nth_list_update nth_poke nth_append)

lemma load_ok: "p < length m \<Longrightarrow> load m p = Inr (m ! p)"
  by (simp add: load_def)

lemma store_ok: "p < length m \<Longrightarrow> store m p b = Inr (m[p := b])"
  by (simp add: store_def)

lemma bytes_atD: "bytes_at m p xs \<Longrightarrow> i < length xs \<Longrightarrow> p + i < length m \<and> m ! (p + i) = xs ! i"
  by (simp add: bytes_at_def)

lemma cstr_nth:
  assumes "cstr m p xs" and "i \<le> length xs"
  shows "p + i < length m" and "m ! (p + i) = (if i < length xs then xs ! i else 0)"
  using assms by (auto simp: cstr_def bytes_at_def nth_append)

lemma cstr_nonzero: "cstr m p xs \<Longrightarrow> i < length xs \<Longrightarrow> xs ! i \<noteq> 0"
  using nth_mem by (fastforce simp: cstr_def)

text \<open>A region that a write at \<open>dst\<close> leaves alone.\<close>

definition separate :: "nat \<Rightarrow> nat \<Rightarrow> nat \<Rightarrow> nat \<Rightarrow> bool" where
  "separate p n q k \<longleftrightarrow> p + n \<le> q \<or> q + k \<le> p"

lemma strlen_loop_cstr:
  assumes "cstr m s xs" and "len \<le> length xs"
  shows "strlen_loop m s len = Inr (length xs)"
  using assms(2)
proof (induction "length xs - len" arbitrary: len)
  case 0
  then show ?case using cstr_nth [OF assms(1), of len] by (subst strlen_loop.simps) (simp add: load_ok)
next
  case (Suc d)
  then have lt: "len < length xs" by simp
  then show ?case
    using Suc cstr_nth [OF assms(1), of len] cstr_nonzero [OF assms(1), of len]
    by (subst strlen_loop.simps) (simp add: load_ok)
qed

lemma strlen_cstr: "cstr m s xs \<Longrightarrow> strlen m s = Inr (length xs)"
  by (simp add: strlen_def strlen_loop_cstr)

lemma strcpy_loop_cstr:
  assumes s: "cstr m src xs" and room: "dst + length xs < length m"
    and sep: "separate src (length xs + 1) dst (length xs + 1)" and "i \<le> length xs"
  shows "strcpy_loop dst src i (poke dst (take i xs) m) = Inr (poke dst (xs @ [0]) m)"
  using assms(4)
proof (induction "length xs - i" arbitrary: i)
  case 0
  then have i: "i = length xs" by simp
  have "poke dst xs m ! (src + length xs) = 0"
    using cstr_nth [OF s, of "length xs"] sep room by (subst nth_poke) (auto simp: separate_def)
  moreover have "src + length xs < length m" using cstr_nth [OF s, of "length xs"] by simp
  ultimately show ?case
    using room i poke_snoc [of dst xs m 0] by (subst strcpy_loop.simps) (simp add: load_ok store_ok)
next
  case (Suc d)
  then have lt: "i < length xs" by simp
  let ?m = "poke dst (take i xs) m"
  have len: "length (take i xs) = i" using lt by simp
  have "?m ! (src + i) = xs ! i"
    using cstr_nth [OF s, of i] sep room lt by (subst nth_poke) (auto simp: separate_def)
  moreover have "src + i < length m" using cstr_nth [OF s, of i] lt by simp
  moreover have "?m[dst + i := xs ! i] = poke dst (take (i + 1) xs) m"
    using poke_snoc [of dst "take i xs" m "xs ! i"] room lt by (simp add: take_Suc_conv_app_nth)
  moreover have "length ?m = length m" using room lt by (intro length_poke) simp
  ultimately have "strcpy_loop dst src i ?m = strcpy_loop dst src (i + 1) (poke dst (take (i + 1) xs) m)"
    using room lt cstr_nonzero [OF s lt] by (subst strcpy_loop.simps) (simp add: load_ok store_ok)
  then show ?case using Suc.hyps(1) [of "i + 1"] Suc.hyps(2) lt by simp
qed

lemma memset_loop_eq:
  assumes "p + n \<le> length m" and "i \<le> n"
  shows "memset_loop p c n i m = Inr (poke (p + i) (replicate (n - i) c) m)"
  using assms
proof (induction "n - i" arbitrary: i m)
  case 0
  then show ?case by (subst memset_loop.simps) simp
next
  case (Suc d)
  then have lt: "i < n" and d: "n - i = Suc d" by simp_all
  have "memset_loop p c n i m = memset_loop p c n (i + 1) (m[p + i := c])"
    using lt Suc.prems by (subst memset_loop.simps) (simp add: store_ok)
  also have "\<dots> = Inr (poke (p + (i + 1)) (replicate (n - (i + 1)) c) (m[p + i := c]))"
    using Suc lt by (intro Suc.hyps(1)) auto
  also have "poke (p + (i + 1)) (replicate (n - (i + 1)) c) (m[p + i := c]) = poke (p + i) (replicate (n - i) c) m"
    using lt Suc.prems by (intro nth_equalityI) (auto simp: nth_poke nth_list_update)
  finally show ?case .
qed

lemma memcpy_loop_eq:
  assumes "bytes_at m inp xs" and "out + length xs \<le> length m" and sep: "separate inp (length xs) out (length xs)"
    and "i \<le> length xs"
  shows "memcpy_loop out inp (length xs) i (poke out (take i xs) m) = Inr (poke out xs m)"
  using assms(4)
proof (induction "length xs - i" arbitrary: i)
  case 0
  then show ?case by (subst memcpy_loop.simps) simp
next
  case (Suc d)
  then have lt: "i < length xs" by simp
  let ?m = "poke out (take i xs) m"
  have b: "inp + i < length m" "m ! (inp + i) = xs ! i" using bytes_atD [OF assms(1) lt] by auto
  have "?m ! (inp + i) = xs ! i" using b sep assms(2) lt by (subst nth_poke) (auto simp: separate_def)
  moreover have "length ?m = length m" using assms(2) lt by (intro length_poke) simp
  moreover have "?m[out + i := xs ! i] = poke out (take (i + 1) xs) m"
    using poke_snoc [of out "take i xs" m "xs ! i"] assms(2) lt by (simp add: take_Suc_conv_app_nth)
  ultimately have "memcpy_loop out inp (length xs) i ?m = memcpy_loop out inp (length xs) (i + 1) (poke out (take (i + 1) xs) m)"
    using assms(2) lt b by (subst memcpy_loop.simps) (simp add: load_ok store_ok)
  then show ?case using Suc.hyps(1) [of "i + 1"] Suc.hyps(2) lt by simp
qed

lemma strncpy_loop_eq:
  assumes s: "cstr m src xs" and room: "dst + n \<le> length m" and sep: "separate src (length xs + 1) dst n"
    and "i \<le> min n (length xs)"
  shows "strncpy_loop dst src n i (poke dst (take i xs) m) =
    Inr (min n (length xs), poke dst (take n xs) m)"
  using assms(4)
proof (induction "min n (length xs) - i" arbitrary: i)
  case 0
  then have i: "i = min n (length xs)" by simp
  show ?case
  proof (cases "i < n")
    case True
    then have l: "i = length xs" using i by auto
    have "poke dst xs m ! (src + length xs) = 0"
      using cstr_nth [OF s, of "length xs"] sep room True l by (subst nth_poke) (auto simp: separate_def)
    moreover have "src + length xs < length m" using cstr_nth [OF s, of "length xs"] by simp
    ultimately show ?thesis using True l room by (subst strncpy_loop.simps) (simp add: load_ok)
  next
    case False
    then have "i = n" "n \<le> length xs" using i by auto
    then show ?thesis by (subst strncpy_loop.simps) (simp add: min_absorb1)
  qed
next
  case (Suc d)
  then have lt: "i < length xs" "i < n" by simp_all
  let ?m = "poke dst (take i xs) m"
  have "?m ! (src + i) = xs ! i"
    using cstr_nth [OF s, of i] sep room lt by (subst nth_poke) (auto simp: separate_def)
  moreover have "src + i < length m" using cstr_nth [OF s, of i] lt by simp
  moreover have "?m[dst + i := xs ! i] = poke dst (take (i + 1) xs) m"
    using poke_snoc [of dst "take i xs" m "xs ! i"] room lt by (simp add: take_Suc_conv_app_nth)
  moreover have "length ?m = length m" using room lt by (intro length_poke) simp
  ultimately have "strncpy_loop dst src n i ?m = strncpy_loop dst src n (i + 1) (poke dst (take (i + 1) xs) m)"
    using room lt cstr_nonzero [OF s lt(1)] by (subst strncpy_loop.simps) (simp add: load_ok store_ok)
  then show ?case using Suc.hyps(1) [of "i + 1"] Suc.hyps(2) lt by simp
qed

lemma poke_poke:
  assumes "p + length xs + length ys \<le> length m"
  shows "poke (p + length xs) ys (poke p xs m) = poke p (xs @ ys) m"
  using assms by (intro nth_equalityI) (auto simp: nth_poke nth_append)

section \<open>Reference orders\<close>

text \<open>What \<open>strcmp\<close> computes on the lists of characters.\<close>

fun cmp_bytes :: "u8 list \<Rightarrow> u8 list \<Rightarrow> int" where
  "cmp_bytes [] [] = 0"
| "cmp_bytes [] (b # ys) = - uint b"
| "cmp_bytes (a # xs) [] = uint a"
| "cmp_bytes (a # xs) (b # ys) = (if a = b then cmp_bytes xs ys else uint a - uint b)"

lemma uint_pos: "(a :: 'a::len word) \<noteq> 0 \<Longrightarrow> 0 < uint a"
  using uint_ge_0 [of a] by (simp add: less_le unsigned_eq_0_iff)

lemma uint_inject: "uint a = uint b \<longleftrightarrow> a = b"
  by (simp add: word_uint_eq_iff)

lemma cmp_bytes_0: "0 \<notin> set xs \<Longrightarrow> 0 \<notin> set ys \<Longrightarrow> cmp_bytes xs ys = 0 \<longleftrightarrow> xs = ys"
  by (induction xs ys rule: cmp_bytes.induct) (auto simp: unsigned_eq_0_iff uint_inject)

lemma cmp_bytes_less: "0 \<notin> set xs \<Longrightarrow> 0 \<notin> set ys \<Longrightarrow> cmp_bytes xs ys < 0 \<longleftrightarrow> ord_class.lexordp xs ys"
proof (induction xs ys rule: cmp_bytes.induct)
  case (2 b ys)
  then show ?case using uint_pos [of b] by simp
next
  case (3 a xs)
  then show ?case using uint_pos [of a] by simp
next
  case (4 a xs b ys)
  moreover have "uint a \<noteq> uint b \<or> a = b" by (simp add: uint_inject)
  ultimately show ?case by (auto simp: word_less_def)
qed simp

lemma cstr_Cons:
  assumes "cstr m s (x # xs)"
  shows "cstr m (s + 1) xs"
proof -
  have "bytes_at m (s + 1) (xs @ [0])"
    unfolding bytes_at_def
  proof (intro conjI allI impI)
    show "s + 1 + length (xs @ [0]) \<le> length m" using assms by (simp add: cstr_def bytes_at_def)
    fix i assume "i < length (xs @ [0])"
    then show "m ! (s + 1 + i) = (xs @ [0]) ! i"
      using assms by (auto simp: cstr_def dest!: bytes_atD [where i = "Suc i"])
  qed
  then show ?thesis using assms by (simp add: cstr_def)
qed

lemma cstr_hd:
  assumes "cstr m s xs"
  shows "load m s = Inr (case xs of [] \<Rightarrow> 0 | x # _ \<Rightarrow> x)"
  using cstr_nth [OF assms, of 0] by (cases xs) (simp_all add: load_ok)

lemma strcmp_eq: "cstr m s1 xs \<Longrightarrow> cstr m s2 ys \<Longrightarrow> strcmp m s1 s2 = Inr (cmp_bytes xs ys)"
proof (induction xs ys arbitrary: s1 s2 rule: cmp_bytes.induct)
  case (4 a xs b ys)
  have nz: "a \<noteq> 0" using 4 by (auto simp: cstr_def)
  show ?case
  proof (cases "a = b")
    case True
    then have "strcmp m (s1 + 1) (s2 + 1) = Inr (cmp_bytes xs ys)"
      using 4 by (intro "4.IH" cstr_Cons) auto
    then show ?thesis
      using True nz cstr_hd [OF "4.prems"(1)] cstr_hd [OF "4.prems"(2)] by (subst strcmp.simps) simp
  next
    case False
    then show ?thesis
      using cstr_hd [OF "4.prems"(1)] cstr_hd [OF "4.prems"(2)] by (subst strcmp.simps) simp
  qed
next
  case (2 b ys)
  then have "b \<noteq> 0" by (auto simp: cstr_def)
  then show ?case using cstr_hd [OF "2"(1)] cstr_hd [OF "2"(2)] by (subst strcmp.simps) simp
next
  case (3 a xs)
  then have "a \<noteq> 0" by (auto simp: cstr_def)
  then show ?case using cstr_hd [OF "3"(1)] cstr_hd [OF "3"(2)] by (subst strcmp.simps) simp
next
  case 1
  then show ?case using cstr_hd [OF 1(1)] cstr_hd [OF 1(2)] by (subst strcmp.simps) simp
qed

lemma memcmp_loop_eq:
  assumes "bytes_at m p xs" and "bytes_at m q ys" and "length ys = length xs" and "i \<le> length xs"
  shows "memcmp_loop m p q (length xs) i =
    Inr (if drop i xs = drop i ys then 0 else if ord_class.lexordp (drop i xs) (drop i ys) then - 1 else 1)"
  using assms(4)
proof (induction "length xs - i" arbitrary: i)
  case 0
  then show ?case using assms(3) by (subst memcmp_loop.simps) simp
next
  case (Suc d)
  then have lt: "i < length xs" by simp
  have ab: "load m (p + i) = Inr (xs ! i)" "load m (q + i) = Inr (ys ! i)"
    using bytes_atD [OF assms(1) lt] bytes_atD [OF assms(2), of i] lt assms(3) by (simp_all add: load_ok)
  have dr: "drop i xs = xs ! i # drop (i + 1) xs" "drop i ys = ys ! i # drop (i + 1) ys"
    using lt assms(3) by (simp_all add: Cons_nth_drop_Suc)
  show ?case
    using lt ab Suc.hyps(1) [of "i + 1"] Suc.hyps(2)
    by (subst memcmp_loop.simps) (auto simp: dr not_less_iff_gr_or_eq)
qed

section \<open>Properties\<close>

text \<open>
  \<open>strcpy\<close>, \<open>strncpy\<close> and \<open>strcat\<close> on strings that do not overlap write exactly the bytes the C
  standard asks for and nothing else, and return the destination: the string with its zero; \<open>n\<close>
  bytes, cut or filled up with zeros; the second string behind the first.
\<close>

theorem str_copy_correct:
  assumes "cstr m src xs"
  shows "(dst + length xs < length m \<and> separate src (length xs + 1) dst (length xs + 1) \<longrightarrow>
      strcpy dst src m = Inr (dst, poke dst (xs @ [0]) m)) \<and>
    (dst + n \<le> length m \<and> separate src (length xs + 1) dst n \<longrightarrow>
      strncpy dst src n m = Inr (dst, poke dst (take n (xs @ replicate n 0)) m)) \<and>
    (cstr m dst ys \<and> dst + length ys + length xs < length m \<and>
     separate src (length xs + 1) (dst + length ys) (length xs + 1) \<longrightarrow>
      strcat dst src m = Inr (dst, poke (dst + length ys) (xs @ [0]) m))"
proof (intro conjI impI, goal_cases)
  case 1
  then show ?case using strcpy_loop_cstr [OF assms, of dst 0] by (simp add: strcpy_def)
next
  case 2
  let ?k = "min n (length xs)"
  have loop: "strncpy_loop dst src n 0 m = Inr (?k, poke dst (take n xs) m)"
    using strncpy_loop_eq [OF assms conjunct1 [OF 2] conjunct2 [OF 2], of 0] by simp
  have len: "length (poke dst (take n xs) m) = length m" using 2 by (intro length_poke) auto
  have "memset_loop dst 0 n ?k (poke dst (take n xs) m) =
      Inr (poke (dst + ?k) (replicate (n - ?k) 0) (poke dst (take n xs) m))"
    using 2 len by (intro memset_loop_eq) (auto simp: min_def)
  also have "poke (dst + ?k) (replicate (n - ?k) 0) (poke dst (take n xs) m) =
      poke dst (take n xs @ replicate (n - ?k) 0) m"
  proof -
    have k: "length (take n xs) = ?k" "?k \<le> n" by (simp_all add: min.commute)
    then have "dst + length (take n xs) + length (replicate (n - ?k) (0 :: u8)) \<le> length m" using 2 by simp
    from poke_poke [OF this] show ?thesis unfolding k(1) .
  qed
  also have "take n xs @ replicate (n - ?k) 0 = take n (xs @ replicate n 0)" by (simp add: min_def)
  finally show ?case using loop by (simp add: strncpy_def)
next
  case 3
  then show ?case
    using strlen_cstr [of m dst ys] strcpy_loop_cstr [OF assms, of "dst + length ys" 0] by (simp add: strcat_def)
qed

theorem str_copy_correct_witness:
  "strcpy 4 0 [104, 105, 0, 9, 9, 9, 9, 9] = Inr (4, [104, 105, 0, 9, 104, 105, 0, 9])"
proof -
  have "cstr [104, 105, 0, 9, 9, 9, 9, 9] 0 [104, 105]" by (simp add: cstr_def bytes_at_take)
  from conjunct1 [OF str_copy_correct [OF this, of 4]] show ?thesis by (simp add: separate_def poke_def)
qed

text \<open>
  \<open>strcmp\<close> of two C strings is 0 exactly for equal strings and negative exactly when the first
  comes first in the lexicographic order of unsigned bytes; \<open>memcmp\<close> of two regions is 0, -1 or 1
  by the same order.
\<close>

theorem str_compare_correct:
  assumes "cstr m s1 xs" and "cstr m s2 ys" and "bytes_at m p us" and "bytes_at m q vs" and "length us = length vs"
  shows "(\<exists>r. strcmp m s1 s2 = Inr r \<and> (r = 0 \<longleftrightarrow> xs = ys) \<and> (r < 0 \<longleftrightarrow> ord_class.lexordp xs ys)) \<and>
    memcmp m p q (length us) = Inr (if us = vs then 0 else if ord_class.lexordp us vs then - 1 else 1)"
proof
  have "0 \<notin> set xs" "0 \<notin> set ys" using assms(1,2) by (simp_all add: cstr_def)
  then show "\<exists>r. strcmp m s1 s2 = Inr r \<and> (r = 0 \<longleftrightarrow> xs = ys) \<and> (r < 0 \<longleftrightarrow> ord_class.lexordp xs ys)"
    using strcmp_eq [OF assms(1,2)] cmp_bytes_0 cmp_bytes_less by auto
  have "us = vs" if "p = q"
    using that assms(3-5) by (intro nth_equalityI) (auto simp: bytes_at_def)
  then show "memcmp m p q (length us) = Inr (if us = vs then 0 else if ord_class.lexordp us vs then - 1 else 1)"
    using memcmp_loop_eq [OF assms(3,4) assms(5) [symmetric], of 0] by (auto simp: memcmp_def)
qed

theorem str_compare_correct_witness:
  "\<exists>r. strcmp [97, 0, 98, 0] 0 2 = Inr r \<and> r < 0"
proof -
  have "cstr [97, 0, 98, 0] 0 [97]" "cstr [97, 0, 98, 0] 2 [98]" "bytes_at [97, 0, 98, 0] 0 []"
    by (simp_all add: cstr_def bytes_at_take)
  from str_compare_correct [OF this(1,2,3,3)] show ?thesis by auto
qed

text \<open>
  \<open>memset\<close> and \<open>memcpy\<close> between regions that do not overlap write exactly the \<open>n\<close> bytes asked
  for; one byte behind the end of the memory is a bad access.
\<close>

theorem mem_write_correct:
  assumes "s + n \<le> length m" and "bytes_at m inp xs" and "out + length xs \<le> length m"
    and "separate inp (length xs) out (length xs)"
  shows "memset s c n m = Inr (s, poke s (replicate n (ucast c)) m) \<and>
    memcpy out inp (length xs) m = Inr (out, poke out xs m)"
  using memset_loop_eq [OF assms(1), of 0 "ucast c"] memcpy_loop_eq [OF assms(2-4), of 0]
  by (simp add: memset_def memcpy_def)

theorem mem_write_correct_witness:
  "memset 1 0x1FF 2 [1, 2, 3, 4] = Inr (1, [1, 255, 255, 4]) \<and> memcpy 2 0 2 [1, 2, 3, 4] = Inr (2, [1, 2, 1, 2])"
proof -
  have "bytes_at [1, 2, 3, 4] 0 [1, 2]" by (simp add: bytes_at_take)
  moreover have "replicate 2 c = [c, c]" for c :: u8 by (simp add: numeral_2_eq_2)
  ultimately show ?thesis
    using mem_write_correct [of 1 2 "[1, 2, 3, 4]" 0 "[1, 2]" 2 "0x1FF"] by (simp add: separate_def poke_def flip: numeral_2_eq_2)
qed

end
