(* ===== verification/Klib_Stdlib.thy ===== *)
theory Klib_Stdlib
  imports Base
begin

text \<open>
  \<open>abstract-machine/klib/src/stdlib.c\<close>: the pseudo-random generator, \<open>abs\<close>, \<open>atoi\<close>, and the
  bump allocator behind \<open>malloc\<close>.
\<close>

unbundle bit_operations_syntax

section \<open>rand, srand, abs\<close>

text \<open>\<open>next\<close> is an \<open>unsigned long\<close> of 64 bits; the result is cut to \<open>unsigned int\<close> first.\<close>

definition rand :: "u64 \<Rightarrow> u32 \<times> u64" where
  "rand nxt =
     (let nxt = nxt * 1103515245 + 12345
      in ((ucast (nxt div 65536) :: u32) mod 32768, nxt))"

definition srand :: "u32 \<Rightarrow> u64" where
  "srand seed = ucast seed"

definition abs_int :: "u32 \<Rightarrow> u32" where
  "abs_int x = (if sint x < 0 then - x else x)"

section \<open>atoi\<close>

text \<open>On the bytes of the string before its zero; the \<open>int\<close> arithmetic wraps around at 32 bits,
  as the compiled code does; C leaves a signed overflow undefined.\<close>

fun atoi_digits :: "u32 \<Rightarrow> u8 list \<Rightarrow> u32" where
  "atoi_digits x [] = x"
| "atoi_digits x (c # s) =
     (if chr (CHR ''0'') \<le> c \<and> c \<le> chr (CHR ''9'')
      then atoi_digits (x * 10 + ucast c - ucast (chr (CHR ''0''))) s else x)"

fun atoi :: "u8 list \<Rightarrow> u32" where
  "atoi [] = 0"
| "atoi (c # s) = (if c = chr (CHR '' '') then atoi s else atoi_digits 0 (c # s))"

section \<open>malloc\<close>

text \<open>
  The static variables, the bounds of the heap, and the heap's memory by 64-bit words.
\<close>

record malloc_st =
  hbrk :: addr
  is_malloc_reset :: bool
  area_start :: addr
  area_end :: addr
  words :: "addr \<Rightarrow> u64"

definition malloc_reset :: "malloc_st \<Rightarrow> malloc_st" where
  "malloc_reset st = st\<lparr>hbrk := ROUNDUP (area_start st) 8\<rparr>"

text \<open>
  The loop that clears the words from \<open>p\<close> up to \<open>hbrk\<close>. The fuel is the number of words between
  them, which is exact when both are multiples of 8.
\<close>

fun zero_loop :: "nat \<Rightarrow> addr \<Rightarrow> addr \<Rightarrow> (addr \<Rightarrow> u64) \<Rightarrow> (addr \<Rightarrow> u64) res" where
  "zero_loop 0 p e w = (if p \<noteq> e then Inl OutOfFuel else Inr w)"
| "zero_loop (Suc fuel) p e w = (if p \<noteq> e then zero_loop fuel (p + 8) e (w(p := 0)) else Inr w)"

definition malloc :: "u64 \<Rightarrow> malloc_st \<Rightarrow> (addr \<times> malloc_st) res" where
  "malloc sz st =
     (let st = (if \<not> is_malloc_reset st then malloc_reset (st\<lparr>is_malloc_reset := True\<rparr>) else st);
          sz = ROUNDUP sz 8;
          old = hbrk st;
          st = st\<lparr>hbrk := hbrk st + sz\<rparr>
      in res_bind (guard AssertFail (area_start st \<le> hbrk st \<and> hbrk st < area_end st)) (\<lambda>_.
         res_bind (zero_loop (unat (hbrk st - old) div 8) old (hbrk st) (words st)) (\<lambda>w.
           Inr (old, st\<lparr>words := w\<rparr>))))"

definition free :: "addr \<Rightarrow> malloc_st \<Rightarrow> malloc_st" where
  "free ptr st = st"

section \<open>The generator\<close>

primrec rands :: "nat \<Rightarrow> u64 \<Rightarrow> u32 list" where
  "rands 0 nxt = []"
| "rands (Suc n) nxt = fst (rand nxt) # rands n (snd (rand nxt))"

lemma rand_bits: "fst (rand nxt) = ucast (drop_bit 16 (take_bit 31 (snd (rand nxt))))"
proof -
  have "(ucast (x div 65536) :: u32) mod 32768 = ucast (drop_bit 16 (take_bit 31 x))" for x :: u64
  proof -
    have "x div 65536 = drop_bit 16 x" by (simp add: drop_bit_eq_div)
    moreover have "(y :: u32) mod 32768 = take_bit 15 y" for y by (simp add: take_bit_eq_mod)
    ultimately show ?thesis
      by (simp add: bit_eq_iff bit_take_bit_iff bit_drop_bit_eq bit_ucast_iff)
  qed
  then show ?thesis by (simp add: rand_def Let_def)
qed

lemma rand_step_31:
  assumes "take_bit 31 a = take_bit 31 (b :: u64)"
  shows "take_bit 31 (snd (rand a)) = take_bit 31 (snd (rand b))"
proof -
  have low: "unat (take_bit 31 y) = unat y mod 2 ^ 31" for y :: u64
    unfolding unsigned_take_bit_eq by (rule take_bit_eq_mod)
  have step: "unat (take_bit 31 (x * 1103515245 + 12345)) = (unat (take_bit 31 x) * 1103515245 + 12345) mod 2 ^ 31" for x :: u64
  proof -
    have "unat (x * 1103515245 + 12345) = (unat x * 1103515245 + 12345) mod 2 ^ 64"
      by (simp add: unat_word_ariths mod_simps)
    then have "unat (take_bit 31 (x * 1103515245 + 12345)) = (unat x * 1103515245 + 12345) mod 2 ^ 64 mod 2 ^ 31"
      by (simp only: low)
    also have "\<dots> = (unat x * 1103515245 + 12345) mod 2 ^ 31" by (rule mod_mod_cancel) (simp add: le_imp_power_dvd)
    also have "\<dots> = (unat x mod 2 ^ 31 * 1103515245 + 12345) mod 2 ^ 31" by (metis mod_add_left_eq mod_mult_left_eq)
    finally show ?thesis by (simp only: low)
  qed
  have "unat (take_bit 31 (snd (rand a))) = unat (take_bit 31 (snd (rand b)))"
    unfolding rand_def Let_def snd_conv step assms ..
  then show ?thesis by (simp add: word_unat_eq_iff)
qed

text \<open>
  Every number \<open>rand\<close> returns lies from 0 to 32767, and the sequence is that of a 31-bit
  generator: two states that agree in their low 31 bits give the same numbers for ever.
\<close>

theorem rand_sequence:
  assumes "take_bit 31 a = take_bit 31 b"
  shows "rands n a = rands n b \<and> (\<forall>r \<in> set (rands n a). r < 32768)"
proof -
  have lt: "fst (rand x) < 32768" for x by (simp add: rand_def Let_def word_less_nat_alt unat_mod)
  have "rands n a = rands n b" using assms
  proof (induction n arbitrary: a b)
    case (Suc n)
    note step = rand_step_31 [OF Suc.prems]
    have "fst (rand a) = fst (rand b)" unfolding rand_bits step ..
    then show ?case using Suc.IH [OF step] by simp
  qed simp
  moreover have "\<forall>r \<in> set (rands n a). r < 32768"
    by (induction n arbitrary: a) (simp_all add: lt)
  ultimately show ?thesis by simp
qed

theorem rand_sequence_witness:
  "rands 3 1 = rands 3 (1 + 2 ^ 31)"
  using rand_sequence [of 1 "1 + 2 ^ 31" 3] by simp

section \<open>Decimal numbers\<close>

text \<open>The numeral of \<open>n\<close> to a base from 2 to 16, most significant digit first.\<close>

definition digit :: "nat \<Rightarrow> u8" where
  "digit d = (if d \<le> 9 then of_nat d + chr (CHR ''0'') else of_nat d + chr (CHR ''a'') - 0xA)"

function numeral_str :: "nat \<Rightarrow> nat \<Rightarrow> u8 list" where
  "numeral_str b n = (if n < b \<or> b < 2 then [digit n] else numeral_str b (n div b) @ [digit (n mod b)])"
  by pat_completeness auto
termination by (relation "measure snd") (auto simp: div_less_dividend)

declare numeral_str.simps [simp del]

lemma atoi_digits_append:
  assumes "\<And>c. c \<in> set s \<Longrightarrow> chr (CHR ''0'') \<le> c \<and> c \<le> chr (CHR ''9'')"
  shows "atoi_digits x (s @ t) = atoi_digits (atoi_digits x s) t"
  using assms by (induction x s rule: atoi_digits.induct) auto

lemma chr_digits: "chr (CHR ''0'') = 48" "chr (CHR ''9'') = 57" "chr (CHR '' '') = 32" "chr (CHR ''a'') = 97"
  by (simp_all add: chr_def)

lemma digit_le_9:
  assumes "d \<le> 9"
  shows "chr (CHR ''0'') \<le> digit d \<and> digit d \<le> chr (CHR ''9'')" and "ucast (digit d) = (of_nat d + 48 :: u32)"
proof -
  have "d \<in> {0, 1, 2, 3, 4, 5, 6, 7, 8, 9}" using assms by auto
  then show "chr (CHR ''0'') \<le> digit d \<and> digit d \<le> chr (CHR ''9'')" "ucast (digit d) = (of_nat d + 48 :: u32)"
    by (auto simp: digit_def chr_digits)
qed

lemma numeral_str_10_digits: "c \<in> set (numeral_str 10 n) \<Longrightarrow> chr (CHR ''0'') \<le> c \<and> c \<le> chr (CHR ''9'')"
proof (induction "10 :: nat" n rule: numeral_str.induct)
  case (1 n)
  show ?case
  proof (cases "n < 10")
    case True
    then show ?thesis using 1(2) digit_le_9 [of n] by (subst (asm) numeral_str.simps) simp
  next
    case False
    then have "c \<in> set (numeral_str 10 (n div 10)) \<or> c = digit (n mod 10)"
      using 1(2) by (subst (asm) numeral_str.simps) auto
    moreover have "n mod 10 \<le> 9" using pos_mod_bound [of 10 "int n"] by simp
    ultimately show ?thesis using 1(1) digit_le_9(1) [of "n mod 10"] False by auto
  qed
qed

lemma atoi_digits_numeral: "atoi_digits 0 (numeral_str 10 n) = of_nat n"
proof (induction "10 :: nat" n rule: numeral_str.induct)
  case (1 n)
  show ?case
  proof (cases "n < 10")
    case True
    then show ?thesis
      using digit_le_9 [of n] by (subst numeral_str.simps) (simp add: chr_digits)
  next
    case False
    have le: "n mod 10 \<le> 9" using pos_mod_bound [of 10 "int n"] by simp
    have "atoi_digits 0 (numeral_str 10 n) =
        atoi_digits (atoi_digits 0 (numeral_str 10 (n div 10))) [digit (n mod 10)]"
      using False numeral_str_10_digits by (subst numeral_str.simps) (simp add: atoi_digits_append)
    also have "\<dots> = of_nat (n div 10) * 10 + of_nat (n mod 10)"
      using 1 False digit_le_9 [OF le] by (simp add: chr_digits)
    also have "\<dots> = (of_nat (n div 10 * 10 + n mod 10) :: u32)"
      by (simp only: of_nat_add of_nat_mult of_nat_numeral)
    finally show ?thesis by (simp only: div_mult_mod_eq)
  qed
qed

lemma atoi_numeral: "atoi (numeral_str 10 n) = of_nat n"
proof -
  obtain c s where cs: "numeral_str 10 n = c # s" by (cases "numeral_str 10 n") (subst (asm) numeral_str.simps, auto split: if_splits)
  have "chr (CHR ''0'') \<le> c" using numeral_str_10_digits [of c n] cs by simp
  then have "c \<noteq> chr (CHR '' '')" by (auto simp: chr_digits)
  then show ?thesis using atoi_digits_numeral [of n] by (simp add: cs)
qed

section \<open>The bump allocator\<close>

text \<open>The state between calls: the break is 8-aligned and inside the heap, which ends below 2^63.\<close>

definition malloc_ok :: "malloc_st \<Rightarrow> bool" where
  "malloc_ok st \<longleftrightarrow> unat (area_end st) \<le> 2 ^ 63 \<and> unat (area_start st) + 8 \<le> unat (area_end st) \<and>
     (is_malloc_reset st \<longrightarrow> 8 dvd unat (hbrk st) \<and> area_start st \<le> hbrk st \<and> hbrk st < area_end st)"

text \<open>The break the next call starts from.\<close>

definition brk_of :: "malloc_st \<Rightarrow> addr" where
  "brk_of st = (if is_malloc_reset st then hbrk st else ROUNDUP (area_start st) 8)"

lemma brk_of_ok:
  assumes "malloc_ok st"
  shows "8 dvd unat (brk_of st)" and "area_start st \<le> brk_of st" and "unat (brk_of st) \<le> 2 ^ 63"
proof -
  have u: "unat (ROUNDUP (area_start st) (2 ^ 3)) = (unat (area_start st) + (2 ^ 3 - 1)) div 2 ^ 3 * 2 ^ 3"
    using assms by (intro unat_ROUNDUP) (auto simp: malloc_ok_def)
  then have "8 dvd unat (ROUNDUP (area_start st) 8)" "unat (area_start st) \<le> unat (ROUNDUP (area_start st) 8)"
      "unat (ROUNDUP (area_start st) 8) < unat (area_start st) + 8"
    using roundup_nat_bounds [of 8 "unat (area_start st)"] by simp_all
  then show "8 dvd unat (brk_of st)" "area_start st \<le> brk_of st" "unat (brk_of st) \<le> 2 ^ 63"
    using assms by (auto simp: brk_of_def malloc_ok_def word_le_nat_alt word_less_nat_alt)
qed

lemma zero_loop_eq:
  assumes "unat p + 8 * n < 2 ^ 64" and "e = p + of_nat (8 * n)" and "8 dvd unat p"
  shows "\<exists>w'. zero_loop n p e w = Inr w' \<and>
    (\<forall>a. 8 dvd unat a \<longrightarrow> w' a = (if unat p \<le> unat a \<and> unat a < unat p + 8 * n then 0 else w a))"
  using assms
proof (induction n arbitrary: p w)
  case 0
  then show ?case by auto
next
  case (Suc n)
  have u8: "unat (p + 8) = unat p + 8" using Suc.prems(1) by (subst unat_add_nowrap) simp_all
  have "of_nat (8 * Suc n) \<noteq> (0 :: u64)"
  proof
    assume "of_nat (8 * Suc n) = (0 :: u64)"
    then have "unat (of_nat (8 * Suc n) :: u64) = 0" by (simp only: unat_0)
    moreover have "unat (of_nat (8 * Suc n) :: u64) = 8 * Suc n"
      using Suc.prems(1) by (intro unat_of_nat_small) simp
    ultimately show False by simp
  qed
  then have ne: "p \<noteq> e" using Suc.prems(2) by simp
  have e: "e = p + 8 + of_nat (8 * n)" using Suc.prems(2) by simp
  have "\<exists>w'. zero_loop n (p + 8) e (w(p := 0)) = Inr w' \<and>
      (\<forall>a. 8 dvd unat a \<longrightarrow> w' a = (if unat (p + 8) \<le> unat a \<and> unat a < unat (p + 8) + 8 * n then 0 else (w(p := 0)) a))"
    by (rule Suc.IH [OF _ e]) (use Suc.prems u8 in simp_all)
  then obtain w' where w': "zero_loop n (p + 8) e (w(p := 0)) = Inr w'"
      "\<forall>a. 8 dvd unat a \<longrightarrow> w' a = (if unat p + 8 \<le> unat a \<and> unat a < unat p + 8 + 8 * n then 0 else (w(p := 0)) a)"
    unfolding u8 by blast
  have "w' a = (if unat p \<le> unat a \<and> unat a < unat p + 8 * Suc n then 0 else w a)" if a: "8 dvd unat a" for a
  proof -
    have "unat a < unat p + 8 \<longrightarrow> unat p \<le> unat a \<longrightarrow> a = p"
    proof (intro impI)
      assume "unat a < unat p + 8" "unat p \<le> unat a"
      moreover have "8 dvd unat a - unat p" using a Suc.prems(3) by simp
      ultimately have "unat a - unat p = 0" using dvd_imp_le [of 8 "unat a - unat p"] by linarith
      then have "unat a = unat p" using \<open>unat p \<le> unat a\<close> by simp
      then show "a = p" by (simp add: word_unat_eq_iff)
    qed
    then show ?thesis using w'(2) a by auto
  qed
  then show ?case using ne w'(1) by auto
qed

lemma malloc_run:
  assumes ok: "malloc_ok st" and room: "unat (brk_of st) + (unat sz + 7) div 8 * 8 < unat (area_end st)"
  shows "\<exists>st'. malloc sz st = Inr (brk_of st, st') \<and> malloc_ok st' \<and> is_malloc_reset st' \<and>
    unat (hbrk st') = unat (brk_of st) + (unat sz + 7) div 8 * 8 \<and>
    area_start st' = area_start st \<and> area_end st' = area_end st \<and>
    (\<forall>a. 8 dvd unat a \<longrightarrow> words st' a =
       (if unat (brk_of st) \<le> unat a \<and> unat a < unat (hbrk st') then 0 else words st a))"
proof -
  let ?n = "(unat sz + 7) div 8" and ?old = "brk_of st"
  have "unat sz \<le> ?n * 8" using roundup_nat_bounds(1) [of 8 "unat sz"] by simp
  then have "unat sz < 2 ^ 63" using room ok by (simp add: malloc_ok_def)
  then have "unat (ROUNDUP sz (2 ^ 3)) = ?n * 8" by (subst unat_ROUNDUP) simp_all
  moreover have lim: "unat ?old + 8 * ?n < 2 ^ 63" using room ok by (simp add: malloc_ok_def)
  moreover have un: "unat (of_nat (8 * ?n) :: u64) = 8 * ?n" using lim by (intro unat_of_nat_small) simp
  ultimately have "unat (ROUNDUP sz 8) = unat (of_nat (8 * ?n) :: u64)" by simp
  then have sz: "ROUNDUP sz 8 = of_nat (8 * ?n)" unfolding word_unat_eq_iff .
  have ub: "unat (?old + of_nat (8 * ?n)) = unat ?old + 8 * ?n" using lim un by (subst unat_add_nowrap) simp_all
  obtain w where w: "zero_loop ?n ?old (?old + of_nat (8 * ?n)) (words st) = Inr w"
      "\<forall>a. 8 dvd unat a \<longrightarrow> w a = (if unat ?old \<le> unat a \<and> unat a < unat ?old + 8 * ?n then 0 else words st a)"
    using zero_loop_eq [of ?old ?n "?old + of_nat (8 * ?n)" "words st"] lim brk_of_ok(1) [OF ok] by auto
  let ?st = "st\<lparr>is_malloc_reset := True, hbrk := ?old + of_nat (8 * ?n), words := w\<rparr>"
  have g: "area_start st \<le> ?old + of_nat (8 * ?n) \<and> ?old + of_nat (8 * ?n) < area_end st"
    using brk_of_ok(2) [OF ok] room ub by (simp add: word_le_nat_alt word_less_nat_alt mult.commute)
  have fuel: "unat (?old + of_nat (8 * ?n) - ?old) div 8 = ?n" using un by simp
  have "malloc sz st = Inr (?old, ?st)"
    using g w(1) fuel unfolding malloc_def Let_def sz
    by (cases "is_malloc_reset st") (simp_all add: malloc_reset_def brk_of_def)
  moreover have "malloc_ok ?st" using ok g ub brk_of_ok(1) [OF ok] by (auto simp: malloc_ok_def)
  ultimately show ?thesis using w(2) ub by (intro exI [of _ ?st]) (simp add: mult.commute)
qed

section \<open>Properties\<close>

lemma atoi_spaces: "atoi (replicate k (chr (CHR '' '')) @ s) = atoi s"
  by (induction k) simp_all

lemma atoi_prefix:
  assumes "\<not> (chr (CHR ''0'') \<le> c \<and> c \<le> chr (CHR ''9''))"
  shows "atoi (numeral_str 10 n @ c # rest) = of_nat n"
proof -
  obtain d s where ds: "numeral_str 10 n = d # s" by (cases "numeral_str 10 n") (subst (asm) numeral_str.simps, auto split: if_splits)
  have "chr (CHR ''0'') \<le> d" using numeral_str_10_digits [of d n] ds by simp
  then have "d \<noteq> chr (CHR '' '')" by (auto simp: chr_digits)
  then have "atoi (numeral_str 10 n @ c # rest) = atoi_digits 0 (numeral_str 10 n @ c # rest)" by (simp add: ds)
  also have "\<dots> = of_nat n"
    using atoi_digits_append [of "numeral_str 10 n"] numeral_str_10_digits atoi_digits_numeral [of n] assms by auto
  finally show ?thesis .
qed

text \<open>
  \<open>malloc\<close> with room left returns the next multiple of 8 at or above the old break, clears
  every word of the new object and no other, and moves the break to the object's end, rounded up
  to 8; so the objects of successive calls do not overlap.
\<close>

theorem malloc_correct:
  assumes "malloc_ok st" and "unat (brk_of st) + (unat sz + 7) div 8 * 8 < unat (area_end st)"
  shows "\<exists>p st'. malloc sz st = Inr (p, st') \<and> malloc_ok st' \<and> 8 dvd unat p \<and> area_start st \<le> p \<and>
    unat p + unat sz \<le> unat (brk_of st') \<and> brk_of st' < area_end st \<and>
    (\<forall>a. 8 dvd unat a \<longrightarrow> words st' a = (if p \<le> a \<and> a < brk_of st' then 0 else words st a)) \<and>
    (\<forall>sz' q st''. malloc sz' st' = Inr (q, st'') \<longrightarrow> q = brk_of st')"
proof -
  obtain st' where st': "malloc sz st = Inr (brk_of st, st')" "malloc_ok st'" "is_malloc_reset st'"
      "unat (hbrk st') = unat (brk_of st) + (unat sz + 7) div 8 * 8"
      "area_start st' = area_start st" "area_end st' = area_end st"
      "\<forall>a. 8 dvd unat a \<longrightarrow> words st' a =
         (if unat (brk_of st) \<le> unat a \<and> unat a < unat (hbrk st') then 0 else words st a)"
    using malloc_run [OF assms] by blast
  have "unat sz \<le> (unat sz + 7) div 8 * 8" using roundup_nat_bounds(1) [of 8 "unat sz"] by simp
  moreover have "q = brk_of st'" if "malloc sz' st' = Inr (q, st'')" for sz' q st''
    using that st'(3) by (auto simp: malloc_def Let_def brk_of_def res_bind_eq_Inr split: if_splits)
  ultimately show ?thesis
    using st' assms brk_of_ok [OF assms(1)]
    by (intro exI [of _ "brk_of st"] exI [of _ st']) (auto simp: brk_of_def word_le_nat_alt word_less_nat_alt)
qed

definition ex_malloc :: malloc_st where
  "ex_malloc = \<lparr>hbrk = 0, is_malloc_reset = False, area_start = 4, area_end = 100, words = (\<lambda>_. 7)\<rparr>"

theorem malloc_correct_witness:
  "\<exists>p st'. malloc 10 ex_malloc = Inr (p, st') \<and> malloc_ok st' \<and> 8 dvd unat p"
proof -
  have "brk_of ex_malloc = 8" by (simp add: brk_of_def ex_malloc_def ROUNDUP_def)
  moreover have "malloc_ok ex_malloc" by (simp add: malloc_ok_def ex_malloc_def)
  ultimately show ?thesis using malloc_correct [of ex_malloc 10] by (auto simp: ex_malloc_def)
qed

text \<open>
  A request of the last seven sizes below 2^64 rounds up to 0. \<open>malloc\<close> passes its assertion
  and returns the break as an object of no bytes, instead of failing.
\<close>

theorem malloc_huge:
  assumes "malloc_ok st" and "is_malloc_reset st" and "2 ^ 64 - 7 \<le> unat sz"
  shows "malloc sz st = Inr (hbrk st, st)"
proof -
  have "unat sz < 2 ^ LENGTH(64)" by (rule unsigned_less)
  then have small: "unat (sz + 7) < 8" using assms(3) by (simp add: unat_word_ariths le_mod_geq)
  have "ROUNDUP sz 8 = ROUNDDOWN (sz + 7) (2 ^ 3)" by (simp add: ROUNDUP_def ROUNDDOWN_def add.commute)
  then have "unat (ROUNDUP sz 8) = 0" using small by (simp only: unat_ROUNDDOWN) simp
  then have "ROUNDUP sz 8 = 0" by (simp add: unat_eq_zero)
  then show ?thesis
    using assms(1,2) by (simp add: malloc_def malloc_ok_def)
qed

theorem malloc_huge_witness:
  "\<exists>st. malloc 0xFFFFFFFFFFFFFFFF st = Inr (hbrk st, st)"
proof -
  let ?st = "ex_malloc\<lparr>hbrk := 8, is_malloc_reset := True\<rparr>"
  have "malloc_ok ?st" "is_malloc_reset ?st" by (simp_all add: malloc_ok_def ex_malloc_def)
  moreover have "2 ^ 64 - 7 \<le> unat (0xFFFFFFFFFFFFFFFF :: u64)" by simp
  ultimately have "malloc 0xFFFFFFFFFFFFFFFF ?st = Inr (hbrk ?st, ?st)" by (rule malloc_huge)
  then show ?thesis by blast
qed

text \<open>
  \<open>atoi\<close> reads back every decimal numeral below 2^32, behind any number of spaces and before
  the end or anything that is not a digit.
\<close>

theorem atoi_correct:
  assumes "n < 2 ^ 32" and "rest = [] \<or> \<not> (chr (CHR ''0'') \<le> List.hd rest \<and> List.hd rest \<le> chr (CHR ''9''))"
  shows "unat (atoi (replicate k (chr (CHR '' '')) @ numeral_str 10 n @ rest)) = n"
proof -
  have "atoi (numeral_str 10 n @ rest) = of_nat n"
    using assms(2) atoi_numeral [of n] atoi_prefix [of "List.hd rest" n "tl rest"] by (cases rest) auto
  then show ?thesis using assms(1) unat_of_nat_small [of n, where 'a = 32] by (simp add: atoi_spaces)
qed

theorem atoi_correct_witness:
  "unat (atoi ([chr (CHR '' '')] @ numeral_str 10 42 @ [chr (CHR ''x'')])) = 42"
proof -
  have "\<not> (chr (CHR ''0'') \<le> List.hd [chr (CHR ''x'')] \<and> List.hd [chr (CHR ''x'')] \<le> chr (CHR ''9''))"
    by (simp add: chr_def)
  then show ?thesis using atoi_correct [of 42 "[chr (CHR ''x'')]" 1] by simp
qed

end
