(* ===== verification/Klib_Stdio.thy ===== *)
theory Klib_Stdio
  imports Klib_Stdlib
begin

text \<open>
  Formatted output, \<open>abstract-machine/klib/src/stdio.c\<close>: \<open>sitoa\<close>, \<open>vsprintf\<close>, \<open>sprintf\<close>,
  \<open>printf\<close>. The routines only append at \<open>out\<close>, so the model returns the characters written.
\<close>

unbundle bit_operations_syntax

section \<open>Numbers\<close>

definition FILL_ZERO :: u32 where "FILL_ZERO = 1"
definition PUT_PLUS :: u32 where "PUT_PLUS = 2"
definition PUT_MINUS :: u32 where "PUT_MINUS = 4"
definition BASE_2 :: u32 where "BASE_2 = 8"
definition BASE_10 :: u32 where "BASE_10 = 16"

text \<open>
  The do-while loop of \<open>sitoa\<close>: the digits in the order they go into \<open>tmp\<close>, least significant
  first. The base is 2, 10 or 16; the test \<open>1 < base\<close> is only there for the recursion to end.
\<close>

definition digit_char :: "u32 \<Rightarrow> u8" where
  "digit_char rem = (if rem \<le> 9 then ucast rem + chr (CHR ''0'') else ucast rem + chr (CHR ''a'') - 0xA)"

function sitoa_digits :: "u32 \<Rightarrow> u32 \<Rightarrow> u8 list" where
  "sitoa_digits base num =
     (let c = digit_char (num mod base); num = num div base
      in if num \<noteq> 0 \<and> 1 < base then c # sitoa_digits base num else [c])"
  by pat_completeness auto
termination
proof (relation "measure (\<lambda>(base, num). unat num)", goal_cases)
  case (2 base num _ num')
  then have "0 < unat num" by (auto simp: unat_gt_0)
  moreover have "1 < unat base" using 2 by (simp add: word_less_nat_alt)
  ultimately show ?case using 2 by (simp add: unat_div)
qed simp

declare sitoa_digits.simps [simp del]

definition sitoa :: "u32 \<Rightarrow> int \<Rightarrow> u32 \<Rightarrow> u8 list" where
  "sitoa num width flags =
     (let base = (if flags AND BASE_2 \<noteq> 0 then 2 else if flags AND BASE_10 \<noteq> 0 then 10 else 16);
          tmp = sitoa_digits base num;
          width = width - int (length tmp);
          fill = (if flags AND FILL_ZERO \<noteq> 0 then chr (CHR ''0'') else chr (CHR '' ''));
          sign = (if flags AND PUT_MINUS \<noteq> 0 then [chr (CHR ''-'')]
                  else if flags AND PUT_PLUS \<noteq> 0 then [chr (CHR ''+'')] else [])
      in replicate (nat width) fill @ sign @ rev tmp)"

section \<open>The format interpreter\<close>

text \<open>
  An argument as the x86-64 convention passes it: a 64-bit slot for integers and pointers to
  print, or a string pointer, \<open>None\<close> for \<open>NULL\<close>. Reading an argument that is missing or of the
  other kind is undefined in C.
\<close>

datatype va = Slot u64 | Str "u8 list option"

definition va_int :: "va list \<Rightarrow> (u32 \<times> va list) res" where
  "va_int ap = (case ap of Slot v # ap \<Rightarrow> Inr (ucast v, ap) | _ \<Rightarrow> Inl BadAccess)"

definition va_str :: "va list \<Rightarrow> (u8 list option \<times> va list) res" where
  "va_str ap = (case ap of Str p # ap \<Rightarrow> Inr (p, ap) | _ \<Rightarrow> Inl BadAccess)"

definition is_digit :: "u8 \<Rightarrow> bool" where
  "is_digit c \<longleftrightarrow> chr (CHR ''0'') \<le> c \<and> c \<le> chr (CHR ''9'')"

text \<open>
  \<open>vsprintf\<close> over the bytes of the format before its zero; \<open>redo_spec\<close> is the code from that label on.
  The negation of the smallest \<open>int\<close> under \<open>%d\<close> wraps around, as the compiled code does; C leaves it undefined.
\<close>

fun vsprintf :: "u8 list \<Rightarrow> u8 list \<Rightarrow> va list \<Rightarrow> u8 list res"
  and redo_spec :: "u8 list \<Rightarrow> int \<Rightarrow> u32 \<Rightarrow> u8 list \<Rightarrow> va list \<Rightarrow> u8 list res" where
  "vsprintf out [] ap = Inr out"
| "vsprintf out (c # fmt) ap =
     (if c \<noteq> chr (CHR ''%'') then vsprintf (out @ [c]) fmt ap else redo_spec out 0 0 fmt ap)"
| "redo_spec out width flags [] ap = Inl AssertFail"
| "redo_spec out width flags (c # fmt) ap =
     (if c = chr (CHR ''%'') then vsprintf (out @ [c]) fmt ap
      else if c = chr (CHR ''c'') then
        res_bind (va_int ap) (\<lambda>(v, ap). vsprintf (out @ [ucast v]) fmt ap)
      else if c = chr (CHR ''d'') then
        res_bind (va_int ap) (\<lambda>(num, ap).
          let (num, flags) = (if sint num < 0 then (- num, flags OR PUT_MINUS) else (num, flags))
          in vsprintf (out @ sitoa num width (flags OR BASE_10)) fmt ap)
      else if c = chr (CHR ''u'') then
        res_bind (va_int ap) (\<lambda>(v, ap). vsprintf (out @ sitoa v width (flags OR BASE_10)) fmt ap)
      else if c = chr (CHR ''p'') then
        res_bind (va_int ap) (\<lambda>(v, ap). vsprintf (out @ sitoa v 12 (flags OR FILL_ZERO)) fmt ap)
      else if c = chr (CHR ''x'') then
        res_bind (va_int ap) (\<lambda>(v, ap). vsprintf (out @ sitoa v width flags) fmt ap)
      else if c = chr (CHR ''b'') then
        res_bind (va_int ap) (\<lambda>(v, ap). vsprintf (out @ sitoa v width (flags OR BASE_2)) fmt ap)
      else if c = chr (CHR ''s'') then
        res_bind (va_str ap) (\<lambda>(p, ap).
          case p of None \<Rightarrow> vsprintf out fmt ap | Some s \<Rightarrow> vsprintf (out @ s) fmt ap)
      else if is_digit c then
        (let flags = (if c = chr (CHR ''0'') \<and> width = 0 then flags OR FILL_ZERO else flags)
         in redo_spec out (width * 10 + uint c - uint (chr (CHR ''0''))) flags fmt ap)
      else if c = chr (CHR ''+'') then redo_spec out width (flags OR PUT_PLUS) fmt ap
      else Inl AssertFail)"

text \<open>\<open>sprintf\<close> returns the length; the zero at the end is written behind the characters.\<close>

definition sprintf :: "u8 list \<Rightarrow> va list \<Rightarrow> (nat \<times> u8 list) res" where
  "sprintf fmt ap = res_bind (vsprintf [] fmt ap) (\<lambda>out. Inr (length out, out @ [0]))"

text \<open>
  \<open>printf\<close> formats into a buffer of 2048 bytes and puts what comes before the first zero on the
  terminal. Writing behind the buffer is a bad access.
\<close>

definition printf :: "u8 list \<Rightarrow> va list \<Rightarrow> (nat \<times> u8 list) res" where
  "printf fmt ap =
     res_bind (vsprintf [] fmt ap) (\<lambda>out.
     res_bind (guard BadAccess (length out < 2048)) (\<lambda>_.
       Inr (length out, takeWhile (\<lambda>c. c \<noteq> 0) out)))"

definition snprintf :: "nat \<Rightarrow> u8 list \<Rightarrow> va list \<Rightarrow> (nat \<times> u8 list) res" where
  "snprintf n fmt ap = Inl Panic"

definition vsnprintf :: "nat \<Rightarrow> u8 list \<Rightarrow> va list \<Rightarrow> (nat \<times> u8 list) res" where
  "vsnprintf n fmt ap = Inl Panic"

section \<open>The digits\<close>

lemma digit_char_eq:
  assumes "unat r < 16"
  shows "digit_char r = digit (unat r)"
proof -
  have "r \<le> 9 \<longleftrightarrow> unat r \<le> 9" by (simp add: word_le_nat_alt)
  moreover have "(ucast r :: u8) = of_nat (unat r)"
    by (simp add: of_nat_unat)
  ultimately show ?thesis by (simp add: digit_char_def digit_def)
qed

lemma rev_sitoa_digits:
  "2 \<le> unat b \<Longrightarrow> unat b \<le> 16 \<Longrightarrow> rev (sitoa_digits b n) = numeral_str (unat b) (unat n)"
proof (induction b n rule: sitoa_digits.induct)
  case (1 base num)
  have u: "unat (num div base) = unat num div unat base" "unat (num mod base) = unat num mod unat base"
    by (simp_all add: unat_div unat_mod)
  have "unat num mod unat base < 16" using 1(2,3) mod_less_divisor [of "unat base" "unat num"] by linarith
  then have c: "digit_char (num mod base) = digit (unat num mod unat base)"
    using digit_char_eq [of "num mod base"] u by simp
  have b1: "1 < base" using 1(2) by (simp add: word_less_nat_alt)
  show ?case
  proof (cases "num div base = 0")
    case True
    then have "unat num div unat base = 0" using u by simp
    then have "unat num < unat base" using 1(2) by (simp add: div_eq_0_iff)
    then show ?thesis
      using True c by (subst sitoa_digits.simps, subst numeral_str.simps) (simp add: Let_def)
  next
    case False
    then have "unat num div unat base \<noteq> 0" using u by (metis unat_eq_zero)
    then have "\<not> unat num < unat base" by auto
    moreover have "rev (sitoa_digits base (num div base)) = numeral_str (unat base) (unat num div unat base)"
      using 1(1) [OF refl refl] False b1 1(2,3) u by simp
    ultimately show ?thesis
      using False c b1 1(2) by (subst sitoa_digits.simps, subst numeral_str.simps) (simp add: Let_def)
  qed
qed

lemma sitoa_digits_bound:
  assumes "2 \<le> unat b"
  shows "unat n < 2 ^ k \<Longrightarrow> 0 < k \<Longrightarrow> length (sitoa_digits b n) \<le> k"
proof (induction k arbitrary: n)
  case (Suc k)
  have u: "unat (n div b) = unat n div unat b" by (simp add: unat_div)
  have "unat n div unat b \<le> unat n div 2" using assms by (intro div_le_mono2) simp_all
  then have lt: "unat (n div b) < 2 ^ k" using Suc.prems(1) u by simp
  have "length (sitoa_digits b (n div b)) \<le> k" if "n div b \<noteq> 0"
  proof -
    have "k \<noteq> 0"
    proof
      assume "k = 0"
      then have "unat (n div b) = 0" using lt by simp
      then show False using that by (simp add: unat_eq_zero)
    qed
    then show ?thesis using Suc.IH [OF lt] by simp
  qed
  then show ?case by (subst sitoa_digits.simps) (simp add: Let_def)
qed simp

section \<open>Properties\<close>

text \<open>
  C35: \<open>sitoa\<close> writes, in this order, the fill characters that bring the digits to the width, zeros under
  \<open>FILL_ZERO\<close> and spaces otherwise; the sign, \<open>-\<close> under \<open>PUT_MINUS\<close>, else \<open>+\<close> under \<open>PUT_PLUS\<close>, else none,
  which is not counted in the width; and the numeral of its argument in base 2, 10 or 16, most significant digit first. The digits
  fit the 32 bytes of \<open>tmp\<close>.
\<close>

theorem sitoa_numeral:
  fixes num :: u32
  assumes "base = (if flags AND BASE_2 \<noteq> 0 then 2 else if flags AND BASE_10 \<noteq> 0 then 10 else 16)"
  defines "digits \<equiv> numeral_str (unat base) (unat num)"
  shows "sitoa num width flags =
      replicate (nat width - length digits) (if flags AND FILL_ZERO \<noteq> 0 then chr (CHR ''0'') else chr (CHR '' '')) @
      (if flags AND PUT_MINUS \<noteq> 0 then [chr (CHR ''-'')] else if flags AND PUT_PLUS \<noteq> 0 then [chr (CHR ''+'')] else []) @ digits \<and>
    length (sitoa_digits base num) \<le> 32"
proof
  have b: "2 \<le> unat base" "unat base \<le> 16" using assms(1) by auto
  have "unat num < 2 ^ LENGTH(32)" by (rule unsigned_less)
  then show "length (sitoa_digits base num) \<le> 32" using sitoa_digits_bound [OF b(1), of num 32] by simp
  have r: "rev (sitoa_digits base num) = digits" unfolding digits_def by (rule rev_sitoa_digits [OF b])
  then have l: "length (sitoa_digits base num) = length digits" by (metis length_rev)
  have "nat (width - int n) = nat width - n" for n by linarith
  then show "sitoa num width flags =
      replicate (nat width - length digits) (if flags AND FILL_ZERO \<noteq> 0 then chr (CHR ''0'') else chr (CHR '' '')) @
      (if flags AND PUT_MINUS \<noteq> 0 then [chr (CHR ''-'')] else if flags AND PUT_PLUS \<noteq> 0 then [chr (CHR ''+'')] else []) @ digits"
    unfolding sitoa_def Let_def assms(1) [symmetric] r l by simp
qed

theorem sitoa_numeral_witness:
  "sitoa 255 4 FILL_ZERO = replicate (4 - length (numeral_str 16 255)) (chr (CHR ''0'')) @ numeral_str 16 255"
proof -
  have "16 = (if FILL_ZERO AND BASE_2 \<noteq> 0 then 2 else if FILL_ZERO AND BASE_10 \<noteq> 0 then 10 else (16 :: u32))"
    by (simp add: FILL_ZERO_def BASE_2_def BASE_10_def)
  from sitoa_numeral [OF this, of 255 4] show ?thesis by (simp add: FILL_ZERO_def PUT_MINUS_def PUT_PLUS_def)
qed

lemma chr_codes:
  "chr (CHR ''%'') = 37" "chr (CHR ''c'') = 99" "chr (CHR ''d'') = 100" "chr (CHR ''-'') = 45" "chr (CHR ''+'') = 43"
  "chr (CHR ''u'') = 117" "chr (CHR ''p'') = 112" "chr (CHR ''x'') = 120" "chr (CHR ''b'') = 98" "chr (CHR ''s'') = 115"
  by (simp_all add: chr_def)

lemma sprintf_d_eq:
  "sprintf [chr (CHR ''%''), chr (CHR ''d'')] [Slot v] =
   (let num = ucast v :: u32;
        s = (if sint num < 0 then chr (CHR ''-'') # numeral_str 10 (unat (- num)) else numeral_str 10 (unat num))
    in Inr (length s, s @ [0]))"
proof -
  have r: "rev (sitoa_digits 10 n) = numeral_str 10 (unat n)" for n
    using rev_sitoa_digits [of 10 n] by simp
  have "nat (- int (length x)) = 0" for x :: "u8 list" by simp
  then have pos: "sitoa n 0 BASE_10 = numeral_str 10 (unat n)"
    and neg: "sitoa n 0 (PUT_MINUS OR BASE_10) = chr (CHR ''-'') # numeral_str 10 (unat n)" for n
    by (simp_all add: sitoa_def r Let_def BASE_10_def BASE_2_def PUT_MINUS_def PUT_PLUS_def FILL_ZERO_def)
  show ?thesis
    by (simp add: sprintf_def va_int_def chr_codes Let_def pos neg)
qed

text \<open>
  C36: \<open>sprintf\<close> with \<open>%d\<close> prints every \<open>int\<close> in decimal, the smallest one included, and returns
  the number of characters; \<open>atoi\<close> reads back what it printed for any value that is not negative.
\<close>

theorem sprintf_atoi_round_trip:
  "(\<exists>s. sprintf [chr (CHR ''%''), chr (CHR ''d'')] [Slot v] = Inr (length s, s @ [0]) \<and>
     (if sint (ucast v :: u32) < 0 then s = chr (CHR ''-'') # numeral_str 10 (unat (- (ucast v :: u32)))
      else s = numeral_str 10 (unat (ucast v :: u32)) \<and> atoi s = ucast v))"
  unfolding sprintf_d_eq using atoi_numeral [of "unat (ucast v :: u32)"] by (simp add: Let_def)

text \<open>
  What differs from the C standard: the zeros of a field go in front of the sign, and the sign
  is not counted in the width, so \<open>%05d\<close> of -42 is \<open>000-42\<close> (the standard's is \<open>-0042\<close>); \<open>%p\<close> of
  a 64-bit pointer prints its low 32 bits only.
\<close>

theorem printf_divergence:
  "vsprintf [] [chr (CHR ''%''), chr (CHR ''0''), chr (CHR ''5''), chr (CHR ''d'')] [Slot (- 42)] =
     Inr (List.map chr ''000-42'') \<and>
   vsprintf [] [chr (CHR ''%''), chr (CHR ''p'')] [Slot 0x100000000] = Inr (List.map chr ''000000000000'')"
  by code_simp

end
