(* ===== verification/Klib_Int64.thy ===== *)
theory Klib_Int64
  imports Base
begin

text \<open>
  64-bit division for 32-bit targets, \<open>abstract-machine/klib/src/int64.c\<close>: the unsigned and signed
  division and remainder routines the compiler calls, and the bit counts. A \<open>di_int\<close> and a \<open>du_int\<close>
  are both a 64-bit word; signedness is in the operations.
\<close>

unbundle bit_operations_syntax

section \<open>The code\<close>

text \<open>\<open>__builtin_clz\<close> and \<open>__builtin_ctz\<close>: the leading and trailing zero bits of a non-zero value.\<close>

fun bit_len :: "nat \<Rightarrow> nat" where
  "bit_len n = (if n = 0 then 0 else Suc (bit_len (n div 2)))"

declare bit_len.simps [simp del]

fun low_zeros :: "nat \<Rightarrow> nat" where
  "low_zeros n = (if n = 0 \<or> odd n then 0 else Suc (low_zeros (n div 2)))"

declare low_zeros.simps [simp del]

definition builtin_clz :: "u32 \<Rightarrow> u32" where
  "builtin_clz x = of_nat (32 - bit_len (unat x))"

definition builtin_ctz :: "u32 \<Rightarrow> u32" where
  "builtin_ctz x = of_nat (low_zeros (unat x))"

text \<open>The two views of a double word: \<open>all\<close> and the halves \<open>s.low\<close> and \<open>s.high\<close>.\<close>

record udwords =
  u_low :: u32
  u_high :: u32

definition all_of :: "udwords \<Rightarrow> u64" where
  "all_of u = push_bit 32 (ucast (u_high u)) OR ucast (u_low u)"

definition udw :: "u64 \<Rightarrow> udwords" where
  "udw w = \<lparr>u_low = ucast w, u_high = ucast (drop_bit 32 w)\<rparr>"

text \<open>Shifts by an \<open>unsigned\<close> amount.\<close>

abbreviation shl :: "u32 \<Rightarrow> u32 \<Rightarrow> u32" where "shl x n \<equiv> push_bit (unat n) x"
abbreviation shr :: "u32 \<Rightarrow> u32 \<Rightarrow> u32" where "shr x n \<equiv> drop_bit (unat n) x"

text \<open>One round of the loop: shift \<open>r:q:carry\<close> left by one, subtract \<open>d\<close> from \<open>r\<close> where it fits.\<close>

definition udiv_round :: "udwords \<Rightarrow> udwords \<Rightarrow> udwords \<Rightarrow> u32 \<Rightarrow> udwords \<times> udwords \<times> u32" where
  "udiv_round d r q carry =
     (let r = \<lparr>u_low = u_low r, u_high = shl (u_high r) 1 OR shr (u_low r) 31\<rparr>;
          r = \<lparr>u_low = shl (u_low r) 1 OR shr (u_high q) 31, u_high = u_high r\<rparr>;
          q = \<lparr>u_low = u_low q, u_high = shl (u_high q) 1 OR shr (u_low q) 31\<rparr>;
          q = \<lparr>u_low = shl (u_low q) 1 OR carry, u_high = u_high q\<rparr>;
          s = signed_drop_bit 63 (all_of d - all_of r - 1)
      in (udw (all_of r - (all_of d AND s)), q, ucast (s AND 1)))"

primrec udiv_loop :: "nat \<Rightarrow> udwords \<Rightarrow> udwords \<Rightarrow> udwords \<Rightarrow> u32 \<Rightarrow> udwords \<times> udwords \<times> u32" where
  "udiv_loop 0 d r q carry = (r, q, carry)"
| "udiv_loop (Suc sr) d r q carry = (case udiv_round d r q carry of (r, q, carry) \<Rightarrow> udiv_loop sr d r q carry)"

text \<open>The part after the special cases; the result is the quotient and \<open>*rem\<close>.\<close>

definition udiv_finish :: "u32 \<Rightarrow> udwords \<Rightarrow> udwords \<Rightarrow> udwords \<Rightarrow> u64 \<times> u64" where
  "udiv_finish sr d r q =
     (case udiv_loop (unat sr) d r q 0 of (r, q, carry) \<Rightarrow> (push_bit 1 (all_of q) OR ucast carry, all_of r))"

text \<open>\<open>q.all = n.all << (64 - sr)\<close> and \<open>r.all = n.all >> sr\<close> for \<open>0 < sr < 32\<close>, as the code writes them.\<close>

definition udiv_start :: "udwords \<Rightarrow> u32 \<Rightarrow> udwords \<times> udwords" where
  "udiv_start n sr =
     (\<lparr>u_low = shl (u_high n) (32 - sr) OR shr (u_low n) sr, u_high = shr (u_high n) sr\<rparr>,
      \<lparr>u_low = 0, u_high = shl (u_low n) (32 - sr)\<rparr>)"

text \<open>A division by zero is undefined.\<close>

definition div32 :: "u32 \<Rightarrow> u32 \<Rightarrow> (u32 \<times> u32) res" where
  "div32 x y = res_bind (guard BadAccess (y \<noteq> 0)) (\<lambda>_. Inr (x div y, x mod y))"

definition udivmoddi4 :: "u64 \<Rightarrow> u64 \<Rightarrow> (u64 \<times> u64) res" where
  "udivmoddi4 a b =
     (let n = udw a; d = udw b in
      if u_high n = 0 then
        if u_high d = 0 then
          res_bind (div32 (u_low n) (u_low d)) (\<lambda>(q, r). Inr (ucast q, ucast r))
        else Inr (0, ucast (u_low n))
      else if u_low d = 0 then
        if u_high d = 0 then
          res_bind (div32 (u_high n) (u_low d)) (\<lambda>(q, r). Inr (ucast q, ucast r))
        else if u_low n = 0 then
          res_bind (div32 (u_high n) (u_high d)) (\<lambda>(q, r). Inr (ucast q, all_of \<lparr>u_low = 0, u_high = r\<rparr>))
        else if u_high d AND (u_high d - 1) = 0 then
          Inr (ucast (shr (u_high n) (builtin_ctz (u_high d))), all_of \<lparr>u_low = u_low n, u_high = u_high n AND (u_high d - 1)\<rparr>)
        else
          let sr = builtin_clz (u_high d) - builtin_clz (u_high n) in
          if sr > 32 - 2 then Inr (0, all_of n)
          else let sr = sr + 1; (r, q) = udiv_start n sr in Inr (udiv_finish sr d r q)
      else if u_high d = 0 then
        if u_low d AND (u_low d - 1) = 0 then
          if u_low d = 1 then Inr (all_of n, ucast (u_low n AND (u_low d - 1)))
          else
            let sr = builtin_ctz (u_low d) in
            Inr (all_of \<lparr>u_low = shl (u_high n) (32 - sr) OR shr (u_low n) sr, u_high = shr (u_high n) sr\<rparr>,
                 ucast (u_low n AND (u_low d - 1)))
        else
          let sr = 1 + 32 + builtin_clz (u_low d) - builtin_clz (u_high n);
              (r, q) =
                (if sr = 32 then (\<lparr>u_low = u_high n, u_high = 0\<rparr>, \<lparr>u_low = 0, u_high = u_low n\<rparr>)
                 else if sr < 32 then udiv_start n sr
                 else (\<lparr>u_low = shr (u_high n) (sr - 32), u_high = 0\<rparr>,
                       \<lparr>u_low = shl (u_low n) (64 - sr), u_high = shl (u_high n) (64 - sr) OR shr (u_low n) (sr - 32)\<rparr>))
          in Inr (udiv_finish sr d r q)
      else
        let sr = builtin_clz (u_high d) - builtin_clz (u_high n) in
        if sr > 32 - 1 then Inr (0, all_of n)
        else
          let sr = sr + 1;
              (r, q) =
                (if sr = 32 then (\<lparr>u_low = u_high n, u_high = 0\<rparr>, \<lparr>u_low = 0, u_high = u_low n\<rparr>)
                 else udiv_start n sr)
          in Inr (udiv_finish sr d r q))"

text \<open>The callers; \<open>signed_drop_bit 63\<close> is the arithmetic shift that copies the sign to every bit.\<close>

definition udivdi3 :: "u64 \<Rightarrow> u64 \<Rightarrow> u64 res" where
  "udivdi3 a b = res_bind (udivmoddi4 a b) (\<lambda>(q, r). Inr q)"

definition umoddi3 :: "u64 \<Rightarrow> u64 \<Rightarrow> u64 res" where
  "umoddi3 a b = res_bind (udivmoddi4 a b) (\<lambda>(q, r). Inr r)"

definition divdi3 :: "u64 \<Rightarrow> u64 \<Rightarrow> u64 res" where
  "divdi3 a b =
     (let s_a = signed_drop_bit 63 a; s_b = signed_drop_bit 63 b;
          a = (a XOR s_a) - s_a; b = (b XOR s_b) - s_b; s_a = s_a XOR s_b
      in res_bind (udivmoddi4 a b) (\<lambda>(q, r). Inr ((q XOR s_a) - s_a)))"

definition divmoddi4 :: "u64 \<Rightarrow> u64 \<Rightarrow> (u64 \<times> u64) res" where
  "divmoddi4 a b = res_bind (divdi3 a b) (\<lambda>d. Inr (d, a - d * b))"

definition moddi3 :: "u64 \<Rightarrow> u64 \<Rightarrow> u64 res" where
  "moddi3 a b =
     (let s = signed_drop_bit 63 b; b = (b XOR s) - s; s = signed_drop_bit 63 a; a = (a XOR s) - s
      in res_bind (udivmoddi4 a b) (\<lambda>(q, r). Inr ((r XOR s) - s)))"

text \<open>The bit counts: \<open>t\<close> is 0 or the step, computed from a comparison.\<close>

definition clzsi2 :: "u32 \<Rightarrow> u32" where
  "clzsi2 a =
     (let x = a;
          t = push_bit 4 (of_bool (x AND 0xFFFF0000 = 0)); x = shr x (16 - t); r = t;
          t = push_bit 3 (of_bool (x AND 0xFF00 = 0)); x = shr x (8 - t); r = r + t;
          t = push_bit 2 (of_bool (x AND 0xF0 = 0)); x = shr x (4 - t); r = r + t;
          t = push_bit 1 (of_bool (x AND 0xC = 0)); x = shr x (2 - t); r = r + t
      in r + ((2 - x) AND - of_bool (x AND 2 = 0)))"

definition ctzsi2 :: "u32 \<Rightarrow> u32" where
  "ctzsi2 a =
     (let x = a;
          t = push_bit 4 (of_bool (x AND 0x0000FFFF = 0)); x = shr x t; r = t;
          t = push_bit 3 (of_bool (x AND 0x00FF = 0)); x = shr x t; r = r + t;
          t = push_bit 2 (of_bool (x AND 0x0F = 0)); x = shr x t; r = r + t;
          t = push_bit 1 (of_bool (x AND 0x3 = 0)); x = shr x t; x = x AND 3; r = r + t
      in r + ((2 - shr x 1) AND - of_bool (x AND 1 = 0)))"

definition ctzdi2 :: "u64 \<Rightarrow> u32" where
  "ctzdi2 a =
     (let x = udw a; f = - of_bool (u_low x = 0)
      in ctzsi2 ((u_high x AND f) OR (u_low x AND NOT f)) + (f AND 32))"

definition clzdi2 :: "u64 \<Rightarrow> u32" where
  "clzdi2 a =
     (let x = udw a; f = - of_bool (u_high x = 0)
      in clzsi2 ((u_high x AND NOT f) OR (u_low x AND f)) + (f AND 32))"

section \<open>Bits and numbers\<close>

lemma bit_all_of: "bit (all_of u) i \<longleftrightarrow> (if i < 32 then bit (u_low u) i else bit (u_high u) (i - 32))"
  by (auto simp: all_of_def bit_simps dest: bit_imp_le_length)

lemma bit_udw:
  "bit (u_low (udw w)) i \<longleftrightarrow> i < 32 \<and> bit w i" "bit (u_high (udw w)) i \<longleftrightarrow> i < 32 \<and> bit w (i + 32)"
  by (auto simp: udw_def bit_simps add.commute dest: bit_imp_le_length)

lemma all_of_udw [simp]: "all_of (udw w) = w"
  by (rule bit_word_eqI) (auto simp: bit_all_of udw_def bit_simps)

lemma udw_all_of [simp]: "udw (all_of u) = u"
proof -
  have "u_low (udw (all_of u)) = u_low u" "u_high (udw (all_of u)) = u_high u"
    by (rule bit_word_eqI; auto simp: udw_def bit_simps bit_all_of)+
  then show ?thesis by simp
qed

lemma unat_all_of: "unat (all_of u) = unat (u_high u) * 2 ^ 32 + unat (u_low u)"
proof -
  have "all_of u = push_bit 32 (ucast (u_high u)) + ucast (u_low u)"
    unfolding all_of_def by (rule disjunctive_add_eq_or [symmetric], rule bit_word_eqI) (auto simp: bit_simps dest: bit_imp_le_length)
  moreover have h: "unat (u_high u) < 2 ^ LENGTH(32)" and l: "unat (u_low u) < 2 ^ LENGTH(32)" by (rule unsigned_less)+
  have "unat (push_bit 32 (ucast (u_high u)) :: u64) = take_bit 64 (push_bit 32 (unat (u_high u)))"
    by (simp add: unsigned_push_bit_eq unat_ucast_up)
  then have "unat (push_bit 32 (ucast (u_high u)) :: u64) = unat (u_high u) * 2 ^ 32"
    using h by (simp add: push_bit_eq_mult take_bit_nat_eq_self_iff)
  ultimately show ?thesis using h l by (simp add: unat_add_nowrap unat_ucast_up)
qed

lemma unat_udw: "unat w = unat (u_high (udw w)) * 2 ^ 32 + unat (u_low (udw w))"
  using unat_all_of [of "udw w"] by simp

lemma push_bit_1_or: "c = 0 \<or> c = 1 \<Longrightarrow> push_bit 1 (x :: 'a::len word) OR c = 2 * x + c"
  by (auto simp: or_one_eq push_bit_eq_mult mult.commute)

lemma unat_uminus:
  fixes x :: "'a::len word"
  assumes "0 < unat x"
  shows "unat (- x) = 2 ^ LENGTH('a) - unat x"
proof -
  let ?n = "2 ^ LENGTH('a) - unat x"
  have le: "unat x \<le> 2 ^ LENGTH('a)" using unsigned_less less_imp_le by blast
  have "of_nat ?n + x = (of_nat (?n + unat x) :: 'a word)" by simp
  also have "\<dots> = 0" using le by simp
  finally have "- x = of_nat ?n" by (simp add: add_eq_0_iff2)
  moreover have "?n < 2 ^ LENGTH('a)" using assms by simp
  ultimately show ?thesis by (simp only: unat_of_nat_small)
qed

text \<open>\<open>bit_len\<close> brackets a number between powers of two.\<close>

lemma bit_len_0 [simp]: "bit_len 0 = 0"
  by (simp add: bit_len.simps)

lemma bit_len_eq_0 [simp]: "bit_len n = 0 \<longleftrightarrow> n = 0"
  by (subst bit_len.simps) simp

lemma less_pow_bit_len: "n < 2 ^ k \<longleftrightarrow> bit_len n \<le> k"
proof (induction n arbitrary: k rule: bit_len.induct)
  case (1 n)
  show ?case
  proof (cases k)
    case 0
    then show ?thesis by simp
  next
    case (Suc j)
    show ?thesis
    proof (cases "n = 0")
      case False
      have "n < 2 ^ k \<longleftrightarrow> n div 2 < 2 ^ j" using Suc by (auto simp: less_mult_imp_div_less mult.commute)
      also have "\<dots> \<longleftrightarrow> bit_len (n div 2) \<le> j" using 1 False by blast
      finally show ?thesis using False Suc by (subst bit_len.simps) simp
    qed simp
  qed
qed

lemma pow_bit_len_le: "0 < n \<Longrightarrow> 2 ^ (bit_len n - 1) \<le> n"
  using less_pow_bit_len [of n "bit_len n - 1"] bit_len_eq_0 [of n] by linarith

lemma bit_len_word: "bit_len (unat (x :: 'a::len word)) \<le> LENGTH('a)"
  using less_pow_bit_len unsigned_less by blast

lemma bit_len_high: "0 < h \<Longrightarrow> l < 2 ^ 32 \<Longrightarrow> bit_len (h * 2 ^ 32 + l) = 32 + bit_len h"
proof (rule antisym)
  assume h: "0 < h" and l: "l < 2 ^ 32"
  have "h * 2 ^ 32 + l < (h + 1) * 2 ^ 32" using l by simp
  also have "h + 1 \<le> 2 ^ bit_len h" using less_pow_bit_len [of h "bit_len h"] by simp
  then have "(h + 1) * 2 ^ 32 \<le> 2 ^ bit_len h * 2 ^ 32" by (rule mult_le_mono1)
  finally have "h * 2 ^ 32 + l < 2 ^ (bit_len h + 32)" unfolding power_add .
  then show "bit_len (h * 2 ^ 32 + l) \<le> 32 + bit_len h" using less_pow_bit_len [THEN iffD1] add.commute by metis
  have "2 ^ (bit_len h - 1) * 2 ^ 32 \<le> h * 2 ^ 32" using pow_bit_len_le [OF h] by (rule mult_le_mono1)
  moreover have "bit_len h \<noteq> 0" using h by simp
  then have "bit_len h - 1 + 32 = 31 + bit_len h" by linarith
  ultimately have "\<not> h * 2 ^ 32 + l < 2 ^ (31 + bit_len h)" by (metis leD le_add1 order_trans power_add)
  then show "32 + bit_len h \<le> bit_len (h * 2 ^ 32 + l)" unfolding less_pow_bit_len by linarith
qed

section \<open>The loop\<close>

lemma sign_bits: "signed_drop_bit 63 (w :: u64) = (if 2 ^ 63 \<le> unat w then - 1 else 0)"
proof -
  have "bit w 63 \<longleftrightarrow> 2 ^ 63 \<le> unat w"
  proof -
    have "unat w < 2 ^ LENGTH(64)" by (rule unsigned_less)
    then have "unat w div 2 ^ 63 < 2" by (intro less_mult_imp_div_less) simp
    then have "odd (unat w div 2 ^ 63) \<longleftrightarrow> 2 ^ 63 \<le> unat w"
      by (cases "unat w div 2 ^ 63" rule: nat.exhaust) (auto simp: div_eq_0_iff not_less less_Suc_eq)
    moreover have "bit w 63 \<longleftrightarrow> bit (unat w) 63" by (simp add: bit_unsigned_iff)
    ultimately show ?thesis by (simp only: bit_iff_odd)
  qed
  then show ?thesis by (auto intro!: bit_word_eqI simp: bit_simps Suc_le_eq split: if_splits)
qed

text \<open>The shift of \<open>r:q\<close> on halves is one on double words.\<close>

lemma udiv_shift_r:
  "all_of \<lparr>u_low = shl (u_low r) 1 OR shr (u_high q) 31, u_high = shl (u_high r) 1 OR shr (u_low r) 31\<rparr> =
     push_bit 1 (all_of r) OR drop_bit 63 (all_of q)"
  by (rule bit_word_eqI) (auto simp: bit_all_of bit_simps dest: bit_imp_le_length simp del: push_bit_Suc)

lemma udiv_shift_q:
  "c = 0 \<or> c = 1 \<Longrightarrow> all_of \<lparr>u_low = shl (u_low q) 1 OR c, u_high = shl (u_high q) 1 OR shr (u_low q) 31\<rparr> =
     push_bit 1 (all_of q) OR ucast c"
  by (rule bit_word_eqI) (auto simp: bit_all_of bit_simps bit_1_iff dest: bit_imp_le_length simp del: push_bit_Suc)

lemma udiv_round_all:
  assumes "c = 0 \<or> c = 1"
  obtains r1 q1 s where "udiv_round d r q c = (udw (r1 - (all_of d AND s)), q1, ucast (s AND 1))"
    and "r1 = 2 * all_of r + drop_bit 63 (all_of q)" and "all_of q1 = 2 * all_of q + ucast c"
    and "s = signed_drop_bit 63 (all_of d - r1 - 1)"
proof -
  have top: "drop_bit 63 (all_of q) = 0 \<or> drop_bit 63 (all_of q) = 1"
  proof -
    have "unat (all_of q) < 2 ^ LENGTH(64)" by (rule unsigned_less)
    then have "unat (drop_bit 63 (all_of q)) < 2"
      unfolding unat_drop_bit by (intro less_mult_imp_div_less) simp
    then have "unat (drop_bit 63 (all_of q)) = unat (0 :: u64) \<or> unat (drop_bit 63 (all_of q)) = unat (1 :: u64)"
      unfolding unsigned_0 unsigned_1 by linarith
    then show ?thesis by (simp only: word_unat_eq_iff)
  qed
  have "(ucast c :: u64) = 0 \<or> (ucast c :: u64) = 1" using assms by auto
  then show ?thesis
    using that [OF _ refl _ refl] udiv_shift_r [of r q] udiv_shift_q [OF assms, of q] push_bit_1_or [OF top, of "all_of r"]
      push_bit_1_or [of "ucast c" "all_of q"]
    by (simp add: udiv_round_def Let_def)
qed

text \<open>
  One round in numbers. \<open>N\<close> is the dividend; with \<open>k\<close> bits of it still to come, \<open>r\<close> is the remainder
  of the bits seen, and \<open>q\<close> holds the bits to come above the quotient of the bits seen, whose last bit
  is in the carry.
\<close>

lemma shifted_top_bit:
  fixes m y k c :: nat
  assumes "k \<le> 63" "y < 2 ^ (63 - k)" "m < 2 ^ Suc k" "c \<le> 1"
  shows "(m * 2 ^ (63 - k) + y) div 2 ^ 63 = m div 2 ^ k"
    and "(2 * (m * 2 ^ (63 - k) + y) + c) mod 2 ^ 64 = (m mod 2 ^ k) * 2 ^ (64 - k) + (2 * y + c)"
proof -
  have e: "(2 :: nat) ^ 63 = 2 ^ (63 - k) * 2 ^ k" and e': "(2 :: nat) ^ (64 - k) = 2 * 2 ^ (63 - k)"
    using assms(1) by (simp_all add: power_add [symmetric] Suc_diff_le flip: power_Suc)
  have "(m * 2 ^ (63 - k) + y) div 2 ^ 63 = (m * 2 ^ (63 - k) + y) div 2 ^ (63 - k) div 2 ^ k"
    unfolding e by (simp only: div_mult2_eq)
  then show top: "(m * 2 ^ (63 - k) + y) div 2 ^ 63 = m div 2 ^ k"
    using assms(2) by (simp add: div_mult_self3)
  define P z w :: nat where "P = 2 ^ (63 - k)" and "z = m div 2 ^ k" and "w = m mod 2 ^ k"
  have m: "m = z * 2 ^ k + w" unfolding z_def w_def by (rule div_mult_mod_eq [symmetric])
  have e64: "(2 :: nat) ^ 64 = 2 * P * 2 ^ k" using e by (simp add: P_def mult.commute)
  have "w + 1 \<le> 2 ^ k" by (simp add: w_def Suc_leI)
  then have "(w + 1) * (2 * P) \<le> 2 ^ k * (2 * P)" by (rule mult_le_mono1)
  then have "w * (2 * P) + (2 * y + c) < 2 ^ 64" unfolding e64 using assms(2,4) P_def by (simp add: algebra_simps)
  moreover have "2 * (m * P + y) + c = 2 ^ 64 * z + (w * (2 * P) + (2 * y + c))" unfolding m e64 by (simp only: algebra_simps)
  ultimately show "(2 * (m * 2 ^ (63 - k) + y) + c) mod 2 ^ 64 = (m mod 2 ^ k) * 2 ^ (64 - k) + (2 * y + c)"
    unfolding e' P_def [symmetric] w_def [symmetric] by (simp only: mod_mult_self4 mod_less)
qed

lemma udiv_round_ok:
  assumes c: "c = 0 \<or> c = 1" and d: "0 < unat (all_of d)"
    and R: "R = 2 * unat (all_of r) + unat (all_of q) div 2 ^ 63" "R < 2 ^ 64" "R < 2 * unat (all_of d)"
    and big: "unat (all_of d) \<le> 2 ^ 63 \<or> 2 ^ 63 \<le> R"
  shows "\<exists>r' q' c'. udiv_round d r q c = (r', q', c') \<and> (c' = 0 \<or> c' = 1) \<and>
    unat c' = of_bool (unat (all_of d) \<le> R) \<and> unat (all_of r') = (if unat (all_of d) \<le> R then R - unat (all_of d) else R) \<and>
    unat (all_of q') = (2 * unat (all_of q) + unat c) mod 2 ^ 64"
proof -
  let ?D = "all_of d"
  obtain r1 q1 s where u: "udiv_round d r q c = (udw (r1 - (?D AND s)), q1, ucast (s AND 1))"
      "r1 = 2 * all_of r + drop_bit 63 (all_of q)" "all_of q1 = 2 * all_of q + ucast c" "s = signed_drop_bit 63 (?D - r1 - 1)"
    by (rule udiv_round_all [OF c])
  have r1: "unat r1 = R"
    using R(1,2) unfolding u(2) by (simp add: unat_word_ariths unat_drop_bit mod_simps)
  have q1: "unat (all_of q1) = (2 * unat (all_of q) + unat c) mod 2 ^ 64"
    unfolding u(3) by (simp add: unat_word_ariths unat_ucast_up mod_simps)
  have s: "s = (if unat ?D \<le> R then - 1 else 0)"
  proof (cases "unat ?D \<le> R")
    case True
    have "?D - r1 - 1 = - (r1 - ?D + 1)" by simp
    moreover have n: "unat (r1 - ?D + 1) = R - unat ?D + 1"
      using True R(2) d r1 by (subst unat_add_nowrap) (simp_all add: unat_sub word_le_nat_alt)
    ultimately have "unat (?D - r1 - 1) = 2 ^ 64 - (R - unat ?D + 1)"
      using unat_uminus [of "r1 - ?D + 1"] by simp
    moreover have "R - unat ?D + 1 \<le> 2 ^ 63" using R(2,3) big True by (elim disjE) simp_all
    ultimately have "2 ^ 63 \<le> unat (?D - r1 - 1)" by simp
    then show ?thesis using True by (simp add: u(4) sign_bits)
  next
    case False
    then have "unat (?D - r1) = unat ?D - R" using r1 by (simp add: unat_sub word_le_nat_alt)
    moreover from this have "unat (?D - r1 - 1) = unat (?D - r1) - 1" using False by (simp add: unat_sub word_le_nat_alt)
    moreover have "unat ?D < 2 ^ LENGTH(64)" by (rule unsigned_less)
    then have "unat ?D < 2 ^ 63 + 2 ^ 63" by simp
    ultimately have "unat (?D - r1 - 1) < 2 ^ 63" using False big by linarith
    then show ?thesis using False by (simp add: u(4) sign_bits)
  qed
  show ?thesis
  proof (cases "unat ?D \<le> R")
    case True
    then have "unat (r1 - ?D) = R - unat ?D" using r1 by (simp add: unat_sub word_le_nat_alt)
    then show ?thesis using True u(1) q1 s by simp
  next
    case False
    then show ?thesis using u(1) q1 s r1 by simp
  qed
qed

lemma udiv_loop_ok:
  fixes N :: nat
  defines "D \<equiv> \<lambda>d. unat (all_of d)"
  assumes "c = 0 \<or> c = 1" "0 < D d" "k \<le> 63" "N < 2 ^ 64" "D d \<le> 2 ^ 63 \<or> k \<le> 1 \<and> 2 ^ 63 \<le> N"
    and "unat (all_of r) = N div 2 ^ k mod D d"
    and "unat (all_of q) = N mod 2 ^ k * 2 ^ (64 - k) + y" "2 * y + unat c = N div 2 ^ k div D d"
  shows "\<exists>r' q' c'. udiv_loop k d r q c = (r', q', c') \<and> (c' = 0 \<or> c' = 1) \<and> unat (all_of r') = N mod D d \<and> 2 * unat (all_of q') + unat c' = N div D d"
  using assms(2-)
proof (induction k arbitrary: r q c y)
  case 0
  then show ?case by simp
next
  case (Suc k)
  let ?M = "N div 2 ^ Suc k"
  define R where "R = 2 * unat (all_of r) + unat (all_of q) div 2 ^ 63"
  have k: "k \<le> 63" "64 - Suc k = 63 - k" using Suc.prems(3) by simp_all
  have "(2 :: nat) ^ 64 = 2 ^ (63 - k) * 2 ^ Suc k" using k(1) by (simp add: power_add [symmetric] flip: power_Suc)
  then have "N < 2 ^ (63 - k) * 2 ^ Suc k" using Suc.prems(4) by (simp only:)
  then have M: "?M < 2 ^ (63 - k)" by (rule less_mult_imp_div_less)
  have "2 * y + unat c \<le> ?M" unfolding Suc.prems(8) by (rule div_le_dividend)
  then have y: "y < 2 ^ (63 - k)" using M by linarith
  have m: "N mod 2 ^ Suc k < 2 ^ Suc k" by simp
  let ?b = "N mod 2 ^ Suc k div 2 ^ k"
  have c1: "unat c \<le> 1" using Suc.prems(1) by auto
  note t = shifted_top_bit [OF k(1) y m c1]
  have bit: "R = 2 * (?M mod D d) + ?b" using Suc.prems(6,7) t(1) by (simp only: R_def k(2))
  have b: "?b < 2" using m by (intro less_mult_imp_div_less) (simp only: power_Suc)
  have half: "N div 2 ^ k = 2 * ?M + ?b"
  proof -
    have "N = ?M * 2 ^ Suc k + N mod 2 ^ Suc k" by (rule div_mult_mod_eq [symmetric])
    also have "?M * 2 ^ Suc k = 2 ^ k * (2 * ?M)" by simp
    finally have "N div 2 ^ k = (2 ^ k * (2 * ?M) + N mod 2 ^ Suc k) div 2 ^ k" by (rule arg_cong)
    moreover have "(2 :: nat) ^ k \<noteq> 0" by simp
    ultimately show ?thesis by (simp only: div_mult_self4 [OF \<open>2 ^ k \<noteq> 0\<close>])
  qed
  have "R \<le> N div 2 ^ k" using bit half mod_less_eq_dividend [of ?M "D d"] by linarith
  also have "\<dots> \<le> N" by (rule div_le_dividend)
  finally have "R < 2 ^ 64" using Suc.prems(4) by (rule le_less_trans)
  note R64 = this
  have R2: "R < 2 * D d" using bit b mod_less_divisor [OF Suc.prems(2), of ?M] by linarith
  have "D d \<le> 2 ^ 63 \<or> 2 ^ 63 \<le> R"
  proof (cases "D d \<le> 2 ^ 63")
    case False
    then have "k = 0" "2 ^ 63 \<le> N" using Suc.prems(5) by simp_all
    moreover have "?M < D d" using M False \<open>k = 0\<close> by simp
    ultimately show ?thesis using bit half by simp
  qed simp
  note R = R64 R2 this
  obtain r' q' c' where s: "udiv_round d r q c = (r', q', c')" "c' = 0 \<or> c' = 1" "unat c' = of_bool (D d \<le> R)"
      "unat (all_of r') = (if D d \<le> R then R - D d else R)" "unat (all_of q') = (2 * unat (all_of q) + unat c) mod 2 ^ 64"
    using udiv_round_ok [OF Suc.prems(1) Suc.prems(2) [unfolded D_def] R_def R(1) R(2,3) [unfolded D_def]]
    unfolding D_def by blast
  have q': "unat (all_of q') = N mod 2 ^ k * 2 ^ (64 - k) + (2 * y + unat c)"
    using t(2) mod_mod_cancel [OF le_imp_power_dvd [of k "Suc k" 2], of N] unfolding s(5) Suc.prems(7) k(2) by simp
  have N: "N div 2 ^ k = D d * (2 * (?M div D d)) + R"
    unfolding half bit using mult_div_mod_eq [of "D d" ?M] by (simp only: algebra_simps)
  have c': "2 * (2 * y + unat c) + unat c' = N div 2 ^ k div D d" and r': "unat (all_of r') = N div 2 ^ k mod D d"
  proof -
    have d: "D d \<noteq> 0" using Suc.prems(2) by simp
    have "R div D d = of_bool (D d \<le> R) \<and> R mod D d = (if D d \<le> R then R - D d else R)"
      using R(2) by (simp add: le_div_geq le_mod_geq not_le)
    then show "2 * (2 * y + unat c) + unat c' = N div 2 ^ k div D d" "unat (all_of r') = N div 2 ^ k mod D d"
      unfolding N Suc.prems(8) s(3,4) by (simp_all only: div_mult_self4 [OF d] mod_mult_self4)
  qed
  have "D d \<le> 2 ^ 63 \<or> k \<le> 1 \<and> 2 ^ 63 \<le> N" using Suc.prems(5) by auto
  then show ?case using Suc.IH [OF s(2) Suc.prems(2) k(1) Suc.prems(4) _ r' q' c'] by (simp only: s(1) udiv_loop.simps prod.case)
qed

text \<open>Once \<open>r\<close> and \<open>q\<close> are set up, the loop divides.\<close>

lemma udiv_finish_ok:
  assumes sr: "0 < unat sr" "unat sr \<le> 63" and d: "all_of d = b" "0 < unat b"
    and r: "all_of r = drop_bit (unat sr) a" and q: "all_of q = push_bit (64 - unat sr) a"
    and start: "unat a div 2 ^ unat sr < unat b" and big: "unat b \<le> 2 ^ 63 \<or> unat sr \<le> 1 \<and> 2 ^ 63 \<le> unat a"
  shows "udiv_finish sr d r q = (a div b, a mod b)"
proof -
  let ?k = "unat sr" and ?N = "unat a"
  have N: "?N < 2 ^ 64" using unsigned_less [of a, where ?'a = nat] by simp
  have r': "unat (all_of r) = ?N div 2 ^ ?k mod unat b" using start by (simp add: r unat_drop_bit)
  have "unat (push_bit (64 - ?k) a) = ?N * 2 ^ (64 - ?k) mod 2 ^ 64"
    by (simp only: unsigned_push_bit_eq, simp add: push_bit_eq_mult take_bit_eq_mod)
  also have "(2 :: nat) ^ 64 = 2 ^ ?k * 2 ^ (64 - ?k)" using sr(2) by (simp flip: power_add)
  finally have q': "unat (all_of q) = ?N mod 2 ^ ?k * 2 ^ (64 - ?k) + 0" by (simp only: q mult_mod_left add_0_right)
  obtain r2 q2 c2 where l: "udiv_loop ?k d r q 0 = (r2, q2, c2)" "c2 = 0 \<or> c2 = 1" "unat (all_of r2) = ?N mod unat b"
      "2 * unat (all_of q2) + unat c2 = ?N div unat b"
    using udiv_loop_ok [of 0 d ?k ?N r q 0] r' q' d sr(2) N big start by auto
  have r2: "all_of r2 = a mod b" by (simp add: word_unat_eq_iff l(3) unat_mod_distrib)
  have "push_bit 1 (all_of q2) OR ucast c2 = 2 * all_of q2 + ucast c2" using l(2) by (intro push_bit_1_or) auto
  moreover have "?N div unat b < 2 ^ LENGTH(64)" using le_less_trans [OF div_le_dividend N] by simp
  then have "unat (2 * all_of q2 + ucast c2 :: u64) = ?N div unat b"
    using l(2,4) by (auto simp: unat_word_ariths)
  then have "2 * all_of q2 + ucast c2 = a div b" by (simp add: word_unat_eq_iff unat_div_distrib)
  ultimately show ?thesis by (simp add: udiv_finish_def l(1) r2)
qed

section \<open>Setting it up\<close>

lemma clz_diff:
  "bit_len (unat d) \<le> bit_len (unat n) \<Longrightarrow> unat (builtin_clz d - builtin_clz n) = bit_len (unat n) - bit_len (unat d)"
  "bit_len (unat n) < bit_len (unat d) \<Longrightarrow> builtin_clz d - builtin_clz n > 31"
proof -
  have u: "unat (builtin_clz x) = 32 - bit_len (unat x)" for x
    unfolding builtin_clz_def by (rule unat_of_nat_small) simp
  have le: "bit_len (unat x) \<le> 32" for x :: u32 using bit_len_word [of x] by simp
  show "unat (builtin_clz d - builtin_clz n) = bit_len (unat n) - bit_len (unat d)" if "bit_len (unat d) \<le> bit_len (unat n)"
  proof -
    have "builtin_clz n \<le> builtin_clz d" using that le [of n] by (simp add: word_le_nat_alt u)
    then show ?thesis using that le [of n] le [of d] by (simp add: unat_sub u)
  qed
  show "builtin_clz d - builtin_clz n > 31" if "bit_len (unat n) < bit_len (unat d)"
  proof -
    have "builtin_clz d < builtin_clz n" using that le [of n] le [of d] by (simp add: word_less_nat_alt u)
    then have "unat (builtin_clz n - builtin_clz d) = bit_len (unat d) - bit_len (unat n)"
      using that le [of n] le [of d] by (simp add: unat_sub u)
    then have "unat (- (builtin_clz n - builtin_clz d)) = 2 ^ 32 - (bit_len (unat d) - bit_len (unat n))"
      using that unat_uminus [of "builtin_clz n - builtin_clz d"] by simp
    then show ?thesis using le [of d] by (simp add: word_less_nat_alt)
  qed
qed

lemma start_below:
  assumes "0 < D" "bit_len D \<le> bit_len N" "bit_len N \<le> 64" "sr = bit_len N - bit_len D + 1"
  shows "N div 2 ^ sr < D" and "D \<le> 2 ^ 63 \<or> sr \<le> 1 \<and> 2 ^ 63 \<le> N"
proof -
  have D: "bit_len D \<noteq> 0" using assms(1) by simp
  then have "bit_len N = bit_len D - 1 + sr" using assms(2,4) by linarith
  then have "N < 2 ^ (bit_len D - 1) * 2 ^ sr" using less_pow_bit_len [of N "bit_len N"] by (simp add: power_add)
  then have "N div 2 ^ sr < 2 ^ (bit_len D - 1)" by (rule less_mult_imp_div_less)
  then show "N div 2 ^ sr < D" using pow_bit_len_le [OF assms(1)] by (rule less_le_trans)
  show "D \<le> 2 ^ 63 \<or> sr \<le> 1 \<and> 2 ^ 63 \<le> N"
  proof (rule disjCI)
    assume "\<not> (sr \<le> 1 \<and> 2 ^ 63 \<le> N)"
    then have "bit_len D \<le> 63" using assms(2-4) less_pow_bit_len [of N 63] by linarith
    then show "D \<le> 2 ^ 63" using less_pow_bit_len [of D 63] by simp
  qed
qed

lemma udiv_start_ok:
  assumes "0 < unat sr" "unat sr < 32"
  shows "all_of (fst (udiv_start n sr)) = drop_bit (unat sr) (all_of n)"
    and "all_of (snd (udiv_start n sr)) = push_bit (64 - unat sr) (all_of n)"
proof -
  have e: "unat (32 - sr) = 32 - unat sr" using assms(2) by (simp add: unat_sub word_le_nat_alt)
  show "all_of (fst (udiv_start n sr)) = drop_bit (unat sr) (all_of n)"
    using assms by (intro bit_word_eqI) (auto simp: udiv_start_def e bit_all_of bit_simps add.commute [of "unat sr"] dest: bit_imp_le_length)
  show "all_of (snd (udiv_start n sr)) = push_bit (64 - unat sr) (all_of n)"
    using assms by (intro bit_word_eqI) (auto simp: udiv_start_def e bit_all_of bit_simps add.commute [of "unat sr"] dest: bit_imp_le_length)
qed

lemma udiv_start_32:
  "all_of \<lparr>u_low = u_high n, u_high = 0\<rparr> = drop_bit 32 (all_of n)" "all_of \<lparr>u_low = 0, u_high = u_low n\<rparr> = push_bit 32 (all_of n)"
  by (rule bit_word_eqI; auto simp: bit_all_of bit_simps dest: bit_imp_le_length)+

lemma udiv_start_above:
  assumes "32 < unat sr" "unat sr < 64"
  shows "all_of \<lparr>u_low = shr (u_high n) (sr - 32), u_high = 0\<rparr> = drop_bit (unat sr) (all_of n)"
    and "all_of \<lparr>u_low = shl (u_low n) (64 - sr), u_high = shl (u_high n) (64 - sr) OR shr (u_low n) (sr - 32)\<rparr> =
      push_bit (64 - unat sr) (all_of n)"
proof -
  have e: "unat (64 - sr) = 64 - unat sr" "unat (sr - 32) = unat sr - 32"
    using assms by (simp_all add: unat_sub word_le_nat_alt)
  show "all_of \<lparr>u_low = shr (u_high n) (sr - 32), u_high = 0\<rparr> = drop_bit (unat sr) (all_of n)"
    using assms by (intro bit_word_eqI) (auto simp: e bit_all_of bit_simps add.commute [of "unat sr"] dest: bit_imp_le_length)
  show "all_of \<lparr>u_low = shl (u_low n) (64 - sr), u_high = shl (u_high n) (64 - sr) OR shr (u_low n) (sr - 32)\<rparr> =
      push_bit (64 - unat sr) (all_of n)"
    using assms by (intro bit_word_eqI) (auto simp: e bit_all_of bit_simps add.commute [of "unat sr"] dest: bit_imp_le_length)
qed

text \<open>The test for a power of two.\<close>

lemma power_of_two:
  assumes "(x :: u32) \<noteq> 0" "x AND (x - 1) = 0"
  obtains j where "j < 32" "x = 2 ^ j"
proof -
  define j where "j = bit_len (unat x) - 1"
  have x: "0 < unat x" using assms(1) by (simp add: unat_gt_0)
  then have "bit_len (unat x) \<noteq> 0" by simp
  then have j: "j < 32" "2 ^ j \<le> unat x" "unat x < 2 ^ Suc j"
    using bit_len_word [of x] pow_bit_len_le [OF x] less_pow_bit_len [of "unat x" "Suc j"] by (simp_all add: j_def)
  have top: "bit w j" if "2 ^ j \<le> unat w" "unat w < 2 ^ Suc j" for w :: u32
  proof -
    have "unat w div 2 ^ j = 1" using that by (intro div_nat_eqI) simp_all
    then have "bit (unat w) j" by (simp add: bit_iff_odd)
    then show ?thesis by (simp add: bit_unsigned_iff)
  qed
  have "unat (x - 1) = unat x - 1" using x by (simp add: unat_sub word_le_nat_alt)
  have "unat x = 2 ^ j"
  proof (rule ccontr)
    assume "unat x \<noteq> 2 ^ j"
    then have "2 ^ j \<le> unat (x - 1)" "unat (x - 1) < 2 ^ Suc j"
      using j(2,3) \<open>unat (x - 1) = unat x - 1\<close> by linarith+
    then have "bit (x AND (x - 1)) j" using top j(2,3) by (simp add: bit_and_iff)
    then show False using assms(2) by simp
  qed
  then show ?thesis using j(1) that by (simp add: word_unat_eq_iff unat_pow2)
qed

lemma ctz_pow: "j < 32 \<Longrightarrow> unat (builtin_ctz (2 ^ j)) = j"
proof -
  assume j: "j < 32"
  have "low_zeros (2 ^ k) = k" for k by (induction k) (subst low_zeros.simps, simp)+
  then show ?thesis using j by (simp add: builtin_ctz_def unat_pow2 unat_of_nat_small)
qed

lemma div_mod_pow:
  "J < 64 \<Longrightarrow> (a :: u64) div 2 ^ J = drop_bit J a" "J < 64 \<Longrightarrow> a mod 2 ^ J = take_bit J a"
  by (simp_all add: word_unat_eq_iff unat_div_distrib unat_mod_distrib unat_pow2 unat_drop_bit unsigned_take_bit_eq take_bit_eq_mod)

section \<open>What the routines compute\<close>

text \<open>The common part of the general cases: the dividend has at least as many bits as the divisor.\<close>

lemma udiv_general:
  assumes n: "u_high (udw a) \<noteq> 0" and b: "b \<noteq> 0" and le: "bit_len (unat b) \<le> bit_len (unat a)"
    and sr: "unat sr = bit_len (unat a) - bit_len (unat b) + 1" "unat sr \<le> 63"
    and r: "all_of r = drop_bit (unat sr) a" and q: "all_of q = push_bit (64 - unat sr) a"
  shows "udiv_finish sr (udw b) r q = (a div b, a mod b)"
proof -
  have "0 < unat b" using b by (simp add: unat_gt_0)
  moreover have "bit_len (unat a) \<le> 64" using bit_len_word [of a] by simp
  ultimately show ?thesis using start_below [OF _ le _ sr(1)] sr r q by (intro udiv_finish_ok) auto
qed

lemma bit_len_udw:
  "u_high (udw a) \<noteq> 0 \<Longrightarrow> bit_len (unat a) = 32 + bit_len (unat (u_high (udw a)))"
  "u_high (udw a) = 0 \<Longrightarrow> unat a = unat (u_low (udw a))"
proof -
  have l: "unat (u_low (udw a)) < 2 ^ 32" using unsigned_less [of "u_low (udw a)", where ?'a = nat] by simp
  show "bit_len (unat a) = 32 + bit_len (unat (u_high (udw a)))" if "u_high (udw a) \<noteq> 0"
    using bit_len_high [OF _ l, of "unat (u_high (udw a))"] that unat_udw [of a] by (simp add: unat_gt_0)
  show "unat a = unat (u_low (udw a))" if "u_high (udw a) = 0" using that unat_udw [of a] by simp
qed

text \<open>The cases, one by one.\<close>

lemma udiv_small: "u_high (udw a) = 0 \<Longrightarrow> u_high (udw b) = 0 \<Longrightarrow> b \<noteq> 0 \<Longrightarrow> udivmoddi4 a b = Inr (a div b, a mod b)"
proof -
  assume h: "u_high (udw a) = 0" "u_high (udw b) = 0" "b \<noteq> 0"
  then have "u_low (udw b) \<noteq> 0" using bit_len_udw(2) [OF h(2)] by (metis unsigned_0 unsigned_eq_0_iff)
  moreover have "ucast (u_low (udw a) div u_low (udw b)) = a div b" "ucast (u_low (udw a) mod u_low (udw b)) = a mod b"
    using h bit_len_udw(2) by (simp_all add: word_unat_eq_iff unat_ucast_up unat_div_distrib unat_mod_distrib)
  ultimately show ?thesis using h by (simp add: udivmoddi4_def Let_def div32_def)
qed

lemma udiv_less: "u_high (udw a) = 0 \<Longrightarrow> u_high (udw b) \<noteq> 0 \<Longrightarrow> udivmoddi4 a b = Inr (a div b, a mod b)"
proof -
  assume h: "u_high (udw a) = 0" "u_high (udw b) \<noteq> 0"
  have "unat (u_low (udw a)) < 2 ^ 32" using unsigned_less [of "u_low (udw a)", where ?'a = nat] by simp
  moreover have "2 ^ 32 \<le> unat b"
  proof -
    have "1 \<le> unat (u_high (udw b))" using h(2) by (simp add: unat_gt_0 Suc_le_eq)
    then show ?thesis using unat_udw [of b] by simp
  qed
  ultimately have "unat a < unat b" using bit_len_udw(2) [OF h(1)] by linarith
  then have "a div b = 0" "a mod b = a" by (simp_all add: word_unat_eq_iff unat_div_distrib unat_mod_distrib)
  moreover have "ucast (u_low (udw a)) = a" using bit_len_udw(2) [OF h(1)] by (simp add: word_unat_eq_iff unat_ucast_up)
  ultimately show ?thesis using h by (simp add: udivmoddi4_def Let_def)
qed

lemma all_of_parts: "u_high (udw b) = h \<Longrightarrow> u_low (udw b) = l \<Longrightarrow> b = all_of \<lparr>u_low = l, u_high = h\<rparr>"
  by (metis all_of_udw udwords.surjective old.unit.exhaust)

lemma udiv_round_multiple:
  assumes "u_low (udw b) = 0" "u_low (udw a) = 0" "u_high (udw a) \<noteq> 0" "u_high (udw b) \<noteq> 0"
  shows "udivmoddi4 a b = Inr (a div b, a mod b)"
proof -
  let ?n = "u_high (udw a)" and ?d = "u_high (udw b)"
  have a: "unat a = unat ?n * 2 ^ 32" and b: "unat b = unat ?d * 2 ^ 32" using assms(1,2) unat_udw by simp_all
  have "ucast (?n div ?d) = a div b" by (simp add: word_unat_eq_iff unat_ucast_up unat_div_distrib a b)
  moreover have "all_of \<lparr>u_low = 0, u_high = ?n mod ?d\<rparr> = a mod b"
    by (simp add: word_unat_eq_iff unat_all_of unat_mod_distrib a b mult_mod_left)
  ultimately show ?thesis using assms by (simp add: udivmoddi4_def Let_def div32_def)
qed

lemma udiv_pow_high:
  assumes "u_low (udw b) = 0" "u_low (udw a) \<noteq> 0" "u_high (udw a) \<noteq> 0" "u_high (udw b) = 2 ^ j" "j < 32"
  shows "udivmoddi4 a b = Inr (a div b, a mod b)"
proof -
  let ?n = "udw a"
  have nz: "(2 :: u32) ^ j \<noteq> 0" using assms(5) by (simp add: unat_pow2 word_unat_eq_iff)
  have m: "(2 :: u32) ^ j - 1 = mask j" by (simp add: mask_eq_exp_minus_1)
  have "unat b = 2 ^ (32 + j)" using assms(1,4,5) unat_udw [of b] by (simp add: unat_pow2 power_add)
  also have "\<dots> = unat (2 ^ (32 + j) :: u64)" using assms(5) by (intro unat_pow2 [symmetric]) simp
  finally have b: "b = 2 ^ (32 + j)" by (simp only: word_unat_eq_iff)
  have e: "32 + j + i = i + j + 32" for i by simp
  have "drop_bit (32 + j) (all_of ?n) = ucast (shr (u_high ?n) (builtin_ctz (2 ^ j)))"
    using assms(5) by (intro bit_word_eqI) (auto simp: ctz_pow bit_udw bit_simps e add.commute [of j] dest: bit_imp_le_length)
  moreover have "take_bit (32 + j) (all_of ?n) = all_of \<lparr>u_low = u_low ?n, u_high = u_high ?n AND mask j\<rparr>"
    using assms(5) by (intro bit_word_eqI) (auto simp: bit_all_of bit_udw bit_simps dest: bit_imp_le_length)
  moreover have "(2 :: u32) ^ j AND (2 ^ j - 1) = 0" unfolding m by (intro bit_word_eqI) (auto simp: bit_simps)
  ultimately show ?thesis
    using assms nz m div_mod_pow [of "32 + j" a] by (simp add: udivmoddi4_def Let_def b)
qed

lemma udiv_pow_low:
  assumes "u_high (udw b) = 0" "u_high (udw a) \<noteq> 0" "u_low (udw b) = 2 ^ j" "j < 32"
  shows "udivmoddi4 a b = Inr (a div b, a mod b)"
proof -
  let ?n = "udw a"
  have nz: "(2 :: u32) ^ j \<noteq> 0" using assms(4) by (simp add: unat_pow2 word_unat_eq_iff)
  have m: "(2 :: u32) ^ j - 1 = mask j" by (simp add: mask_eq_exp_minus_1)
  have b: "b = 2 ^ j" using assms(1,3,4) bit_len_udw(2) [of b] by (simp add: word_unat_eq_iff unat_pow2)
  have c: "unat (builtin_ctz (2 ^ j)) = j" using assms(4) by (rule ctz_pow)
  have "take_bit j (all_of ?n) = ucast (u_low ?n AND mask j)"
    using assms(4) by (intro bit_word_eqI) (auto simp: bit_udw bit_simps dest: bit_imp_le_length)
  moreover have "drop_bit j (all_of ?n) = all_of \<lparr>u_low = shl (u_high ?n) (32 - builtin_ctz (2 ^ j)) OR shr (u_low ?n) (builtin_ctz (2 ^ j)),
      u_high = shr (u_high ?n) (builtin_ctz (2 ^ j))\<rparr>" if "0 < j"
    using udiv_start_ok(1) [of "builtin_ctz (2 ^ j)" ?n] that assms(4) c by (simp add: udiv_start_def)
  moreover have "(2 :: u32) ^ j AND (2 ^ j - 1) = 0" unfolding m by (intro bit_word_eqI) (auto simp: bit_simps)
  moreover have "(2 :: u32) ^ j = 1 \<longleftrightarrow> j = 0" using assms(4) by (simp add: word_unat_eq_iff unat_pow2)
  ultimately show ?thesis
    using assms nz m div_mod_pow [of j a] by (cases "j = 0") (simp_all add: udivmoddi4_def Let_def b)
qed

text \<open>The general cases: the code's \<open>sr\<close> is the difference of the lengths plus one.\<close>

lemma udiv_high:
  assumes n: "u_high (udw a) \<noteq> 0" and d: "u_high (udw b) \<noteq> 0" and not_pow: "\<And>j. j < 32 \<Longrightarrow> u_high (udw b) = 2 ^ j \<Longrightarrow> u_low (udw b) \<noteq> 0"
    and low: "u_low (udw b) = 0 \<Longrightarrow> u_low (udw a) \<noteq> 0"
  shows "udivmoddi4 a b = Inr (a div b, a mod b)"
proof -
  define sr where "sr = builtin_clz (u_high (udw b)) - builtin_clz (u_high (udw a))"
  let ?A = "bit_len (unat (u_high (udw a)))" and ?B = "bit_len (unat (u_high (udw b)))"
  note len = bit_len_udw(1) [OF n] bit_len_udw(1) [OF d]
  have b: "b \<noteq> 0" using d by (auto simp: udw_def)
  have le32: "?A \<le> 32" "?B \<noteq> 0" using bit_len_word [of "u_high (udw a)"] d by (simp_all add: unsigned_eq_0_iff)
  have pow: "u_high (udw b) AND (u_high (udw b) - 1) \<noteq> 0" if "u_low (udw b) = 0"
    using power_of_two [OF d] not_pow that by metis
  show ?thesis
  proof (cases "?B \<le> ?A")
    case False
    then have "unat a < unat b"
      using len less_pow_bit_len [of "unat a" "bit_len (unat a)"] less_pow_bit_len [of "unat b" "bit_len (unat a)"] by linarith
    then have "a div b = 0" "a mod b = a" by (simp_all add: word_unat_eq_iff unat_div_distrib unat_mod_distrib)
    moreover have "31 < sr" using clz_diff(2) False by (simp add: sr_def)
    then have "30 < sr" by (simp add: word_less_nat_alt)
    ultimately show ?thesis
      using n d pow low \<open>31 < sr\<close> by (simp add: udivmoddi4_def Let_def sr_def [symmetric])
  next
    case True
    then have s: "unat sr = ?A - ?B" using clz_diff(1) by (simp add: sr_def)
    then have s1: "unat (sr + 1) = unat sr + 1" using le32 by (subst unat_add_nowrap) simp_all
    have eq: "unat (sr + 1) = bit_len (unat a) - bit_len (unat b) + 1" using s s1 len by simp
    have le: "bit_len (unat b) \<le> bit_len (unat a)" using len True by simp
    have small: "unat (sr + 1) \<le> 63" using s1 s le32 by linarith
    note fin = udiv_general [OF n b le eq small]
    have "unat sr \<le> 31" using s le32 by linarith
    then have not31: "\<not> 31 < sr" by (simp add: word_less_nat_alt)
    have not30: "\<not> 30 < sr" if "u_low (udw b) = 0"
    proof
      assume "30 < sr"
      then have "?B \<le> 1" using s le32 by (simp add: word_less_nat_alt)
      then have "unat (u_high (udw b)) < 2" using less_pow_bit_len [of "unat (u_high (udw b))" 1] by simp
      moreover have "unat (u_high (udw b)) \<noteq> 0" using d by (simp add: unsigned_eq_0_iff)
      ultimately have "unat (u_high (udw b)) = unat (1 :: u32)" unfolding unsigned_1 by linarith
      then have "u_high (udw b) = 2 ^ 0" by (simp add: word_unat_eq_iff)
      then show False using not_pow [of 0] that by simp
    qed
    show ?thesis
    proof (cases "sr + 1 = 32")
      case True
      then have "sr = 31" by (simp add: eq_diff_eq [symmetric])
      then have "u_low (udw b) \<noteq> 0" using not30 by auto
      moreover have "udiv_finish 32 (udw b) \<lparr>u_low = u_high (udw a), u_high = 0\<rparr> \<lparr>u_low = 0, u_high = u_low (udw a)\<rparr> = (a div b, a mod b)"
        using fin udiv_start_32 [of "udw a"] True by simp
      ultimately show ?thesis using n d \<open>sr = 31\<close> by (simp add: udivmoddi4_def Let_def sr_def [symmetric])
    next
      case False
      then have "unat (sr + 1) \<noteq> 32" by (simp add: word_unat_eq_iff)
      then have "0 < unat (sr + 1)" "unat (sr + 1) < 32" using s1 \<open>unat sr \<le> 31\<close> by linarith+
      note st = udiv_start_ok [OF this, of "udw a"]
      have "udiv_finish (sr + 1) (udw b) (fst (udiv_start (udw a) (sr + 1))) (snd (udiv_start (udw a) (sr + 1))) = (a div b, a mod b)"
        by (rule fin) (simp_all only: st all_of_udw)
      then show ?thesis
        using n d not30 not31 pow low False by (simp add: udivmoddi4_def Let_def sr_def [symmetric] split_def)
    qed
  qed
qed

lemma udiv_low:
  assumes n: "u_high (udw a) \<noteq> 0" and d: "u_high (udw b) = 0" "u_low (udw b) \<noteq> 0" and not_pow: "\<And>j. j < 32 \<Longrightarrow> u_low (udw b) \<noteq> 2 ^ j"
  shows "udivmoddi4 a b = Inr (a div b, a mod b)"
proof -
  define sr where "sr = 1 + 32 + builtin_clz (u_low (udw b)) - builtin_clz (u_high (udw a))"
  let ?A = "bit_len (unat (u_high (udw a)))" and ?B = "bit_len (unat (u_low (udw b)))"
  have len: "bit_len (unat a) = 32 + ?A" "bit_len (unat b) = ?B" using bit_len_udw n d(1) by simp_all
  have le32: "?A \<le> 32" "?B \<le> 32" using bit_len_word [of "u_high (udw a)"] bit_len_word [of "u_low (udw b)"] by simp_all
  have A: "?A \<noteq> 0" using n by (simp add: unsigned_eq_0_iff)
  have B: "2 \<le> ?B"
  proof (rule ccontr)
    assume "\<not> 2 \<le> ?B"
    then have "unat (u_low (udw b)) < 2" using less_pow_bit_len [of "unat (u_low (udw b))" 1] by simp
    moreover have "unat (u_low (udw b)) \<noteq> 0" using d(2) by (simp add: unsigned_eq_0_iff)
    ultimately have "unat (u_low (udw b)) = unat (1 :: u32)" unfolding unsigned_1 by linarith
    then have "u_low (udw b) = 2 ^ 0" by (simp add: word_unat_eq_iff)
    then show False using not_pow [of 0] by simp
  qed
  have b: "b \<noteq> 0" using d(2) by (auto simp: udw_def)
  have u: "unat (builtin_clz x) = 32 - bit_len (unat x)" for x
    unfolding builtin_clz_def by (rule unat_of_nat_small) simp
  have sr: "unat sr = 32 + ?A - ?B + 1"
  proof -
    have "unat (33 + builtin_clz (u_low (udw b))) = 33 + (32 - ?B)" by (subst unat_add_nowrap) (simp_all add: u)
    moreover have "builtin_clz (u_high (udw a)) \<le> 33 + builtin_clz (u_low (udw b))"
      using calculation by (simp add: word_le_nat_alt u)
    ultimately have "unat (33 + builtin_clz (u_low (udw b)) - builtin_clz (u_high (udw a))) = 33 + (32 - ?B) - (32 - ?A)"
      by (simp add: unat_sub u)
    then show ?thesis using le32 by (simp add: sr_def)
  qed
  have eq: "unat sr = bit_len (unat a) - bit_len (unat b) + 1" and le: "bit_len (unat b) \<le> bit_len (unat a)"
    using sr len le32 by simp_all
  have small: "unat sr \<le> 63" "0 < unat sr" using sr le32 A B by linarith+
  note fin = udiv_general [OF n b le eq small(1)]
  have notpow: "u_low (udw b) AND (u_low (udw b) - 1) \<noteq> 0" using power_of_two [OF d(2)] not_pow by metis
  have code: "udivmoddi4 a b =
      (case (if sr = 32 then (\<lparr>u_low = u_high (udw a), u_high = 0\<rparr>, \<lparr>u_low = 0, u_high = u_low (udw a)\<rparr>)
         else if sr < 32 then udiv_start (udw a) sr
         else (\<lparr>u_low = shr (u_high (udw a)) (sr - 32), u_high = 0\<rparr>,
               \<lparr>u_low = shl (u_low (udw a)) (64 - sr), u_high = shl (u_high (udw a)) (64 - sr) OR shr (u_low (udw a)) (sr - 32)\<rparr>))
       of (r, q) \<Rightarrow> Inr (udiv_finish sr (udw b) r q))"
    by (simp only: udivmoddi4_def Let_def sr_def n d notpow if_True if_False simp_thms)
  consider "sr = 32" | "unat sr < 32" "sr < 32" | "32 < unat sr" "\<not> sr < 32" "sr \<noteq> 32"
    using linorder_neqE_nat [of "unat sr" "unat (32 :: u32)"] by (auto simp: word_less_nat_alt word_unat_eq_iff)
  then show ?thesis
  proof cases
    case 1
    have "udiv_finish 32 (udw b) \<lparr>u_low = u_high (udw a), u_high = 0\<rparr> \<lparr>u_low = 0, u_high = u_low (udw a)\<rparr> = (a div b, a mod b)"
      using fin udiv_start_32 [of "udw a"] 1 by simp
    then show ?thesis using 1 by (simp add: code)
  next
    case 2
    note st = udiv_start_ok [OF small(2) 2(1), of "udw a"]
    have "udiv_finish sr (udw b) (fst (udiv_start (udw a) sr)) (snd (udiv_start (udw a) sr)) = (a div b, a mod b)"
      by (rule fin) (simp_all only: st all_of_udw)
    then show ?thesis using 2 by (auto simp: code split_def)
  next
    case 3
    have "unat sr < 64" using small(1) by simp
    note st = udiv_start_above [OF 3(1) this, of "udw a"]
    have "udiv_finish sr (udw b) \<lparr>u_low = shr (u_high (udw a)) (sr - 32), u_high = 0\<rparr>
      \<lparr>u_low = shl (u_low (udw a)) (64 - sr), u_high = shl (u_high (udw a)) (64 - sr) OR shr (u_low (udw a)) (sr - 32)\<rparr> = (a div b, a mod b)"
      by (rule fin) (simp_all only: st all_of_udw)
    then show ?thesis using 3 by (simp only: code if_False prod.case)
  qed
qed

text \<open>
  C27: for every divisor that is not zero \<open>__udivmoddi4\<close> gives the quotient and the remainder of the
  two 64-bit numbers, whichever of its eight cases they fall in and however many rounds its shift and
  subtract loop makes; by zero it divides by zero, which is undefined.
\<close>

theorem udivmoddi4_correct:
  "udivmoddi4 a b = (if b = 0 then Inl BadAccess else Inr (a div b, a mod b))"
proof -
  let ?ah = "u_high (udw a)" and ?bh = "u_high (udw b)" and ?bl = "u_low (udw b)"
  have "udivmoddi4 a b = Inr (a div b, a mod b)" if b: "b \<noteq> 0"
  proof (cases "?ah = 0")
    case True
    then show ?thesis using udiv_small udiv_less b by blast
  next
    case a: False
    show ?thesis
    proof (cases "?bh = 0")
      case True
      then have "?bl \<noteq> 0" using b bit_len_udw(2) [of b] by (auto simp: word_unat_eq_iff)
      then show ?thesis using udiv_pow_low udiv_low a True by blast
    next
      case False
      show ?thesis
      proof (cases "?bl = 0")
        case True
        then show ?thesis using udiv_round_multiple udiv_pow_high udiv_high a False by metis
      next
        case low: False
        then show ?thesis using udiv_high a False by blast
      qed
    qed
  qed
  moreover have "udivmoddi4 a 0 = Inl BadAccess"
    by (simp add: udivmoddi4_def Let_def div32_def udw_def)
  ultimately show ?thesis by simp
qed

text \<open>Signs: taking the absolute value, and putting a sign on.\<close>

lemma sint_unat: "sint (a :: u64) = (if 2 ^ 63 \<le> unat a then int (unat a) - 2 ^ 64 else int (unat a))"
proof -
  have lt: "uint a < 2 ^ 64" "0 \<le> uint a" using unsigned_less [of a, where ?'a = int] by simp_all
  have "sint a = signed_take_bit 63 (uint a)" by (simp add: sint_uint)
  also have "\<dots> = (uint a + 2 ^ 63) mod 2 ^ 64 - 2 ^ 63"
    by (simp only: signed_take_bit_eq_take_bit_shift take_bit_eq_mod) simp
  finally have s: "sint a = (uint a + 2 ^ 63) mod 2 ^ 64 - 2 ^ 63" .
  have le: "2 ^ 63 \<le> unat a \<longleftrightarrow> 2 ^ 63 \<le> uint a"
    using of_nat_le_iff [of "2 ^ 63" "unat a", where ?'a = int] by simp
  show ?thesis
  proof (cases "2 ^ 63 \<le> uint a")
    case True
    then have "(uint a + 2 ^ 63) mod 2 ^ 64 = uint a + 2 ^ 63 - 2 ^ 64"
      using lt by (intro int_mod_pos_eq [of _ _ 1]) simp_all
    then show ?thesis using True le s by simp
  next
    case False
    then have "(uint a + 2 ^ 63) mod 2 ^ 64 = uint a + 2 ^ 63" using lt by (intro mod_pos_pos_trivial) simp_all
    then show ?thesis using False le s by simp
  qed
qed

definition put_sign :: "bool \<Rightarrow> u64 \<Rightarrow> u64" where
  "put_sign neg x = (x XOR (if neg then - 1 else 0)) - (if neg then - 1 else 0)"

lemma put_sign: "put_sign neg x = (if neg then - x else x)"
  by (simp add: put_sign_def not_eq_complement)

lemma magnitude: "int (unat (put_sign (2 ^ 63 \<le> unat a) a)) = \<bar>sint (a :: u64)\<bar>"
proof (cases "2 ^ 63 \<le> unat a")
  case True
  then have "unat (- a) = 2 ^ 64 - unat a" using unat_uminus [of a] by simp
  moreover have "unat a < 2 ^ 64" "uint a < 2 ^ 64"
    using unsigned_less [of a, where ?'a = nat] unsigned_less [of a, where ?'a = int] by simp_all
  ultimately show ?thesis using True by (simp add: put_sign sint_unat of_nat_diff)
qed (simp add: put_sign sint_unat)

lemma divided:
  fixes a b q r :: u64
  assumes b: "b \<noteq> 0"
  defines "x \<equiv> put_sign (2 ^ 63 \<le> unat a) a" and "y \<equiv> put_sign (2 ^ 63 \<le> unat b) b"
  shows "y \<noteq> 0" and "put_sign ((2 ^ 63 \<le> unat a) \<noteq> (2 ^ 63 \<le> unat b)) (x div y) = word_of_int (sint a sdiv sint b)"
    and "put_sign (2 ^ 63 \<le> unat a) (x mod y) = word_of_int (sint a smod sint b)"
proof -
  show "y \<noteq> 0" using b by (simp add: y_def put_sign)
  have w: "(word_of_int (int (unat w)) :: u64) = w" for w by simp
  have d: "x div y = word_of_int (\<bar>sint a\<bar> div \<bar>sint b\<bar>)" and m: "x mod y = word_of_int (\<bar>sint a\<bar> mod \<bar>sint b\<bar>)"
    using w [of "x div y"] w [of "x mod y"] magnitude [of a] magnitude [of b]
    by (simp_all only: x_def y_def unat_div_distrib unat_mod_distrib of_nat_div of_nat_mod)
  have sa: "2 ^ 63 \<le> unat a \<longleftrightarrow> sint a < 0" and sb: "2 ^ 63 \<le> unat b \<longleftrightarrow> sint b < 0"
    using unsigned_less [of a, where ?'a = int] unsigned_less [of b, where ?'a = int] by (simp_all add: sint_unat)
  show "put_sign ((2 ^ 63 \<le> unat a) \<noteq> (2 ^ 63 \<le> unat b)) (x div y) = word_of_int (sint a sdiv sint b)"
    unfolding put_sign d sa sb by (auto simp: signed_divide_int_def sgn_if)
  show "put_sign (2 ^ 63 \<le> unat a) (x mod y) = word_of_int (sint a smod sint b)"
    unfolding put_sign m sa by (auto simp: signed_modulo_int_def sgn_if)
qed

text \<open>
  C28: the signed routines divide rounding towards zero, as C's \<open>/\<close> and \<open>%\<close> do: for a divisor that is
  not zero \<open>__divdi3\<close> gives the quotient, \<open>__moddi3\<close> the remainder with the dividend's sign, and
  \<open>__divmoddi4\<close> both, all modulo 2^64, so that the least number divided by -1 is itself.
\<close>

theorem signed_division_correct:
  assumes "b \<noteq> 0"
  shows "divdi3 a b = Inr (word_of_int (sint a sdiv sint b)) \<and> moddi3 a b = Inr (word_of_int (sint a smod sint b)) \<and>
    divmoddi4 a b = Inr (word_of_int (sint a sdiv sint b), word_of_int (sint a smod sint b))"
proof -
  let ?na = "2 ^ 63 \<le> unat a" and ?nb = "2 ^ 63 \<le> unat b"
  note d = divided(1) [OF assms] divided(2,3) [OF assms, of a]
  have s: "(w XOR signed_drop_bit 63 w) - signed_drop_bit 63 w = put_sign (2 ^ 63 \<le> unat w) w" for w :: u64
    by (simp only: sign_bits put_sign_def)
  have ss: "signed_drop_bit 63 a XOR signed_drop_bit 63 b = (if ?na \<noteq> ?nb then - 1 else 0)" by (simp add: sign_bits)
  have div: "divdi3 a b = Inr (word_of_int (sint a sdiv sint b))"
    unfolding divdi3_def Let_def s ss udivmoddi4_correct using d(1,2) by (simp add: put_sign_def)
  moreover have "moddi3 a b = Inr (word_of_int (sint a smod sint b))"
    unfolding moddi3_def Let_def s udivmoddi4_correct using d(1,3) by (simp add: put_sign_def sign_bits)
  moreover have "a - word_of_int (sint a sdiv sint b) * b = word_of_int (sint a smod sint b)"
  proof -
    have w: "(word_of_int (sint w) :: u64) = w" for w by simp
    have "word_of_int (sint a smod sint b) = (word_of_int (sint a - sint a sdiv sint b * sint b) :: u64)"
      by (simp only: minus_sdiv_mult_eq_smod)
    also have "\<dots> = word_of_int (sint a) - word_of_int (sint a sdiv sint b) * word_of_int (sint b)"
      by (simp only: of_int_diff of_int_mult)
    finally show ?thesis by (simp only: w)
  qed
  ultimately show ?thesis by (simp add: divmoddi4_def)
qed

lemma signed_division_correct_witness:
  "divdi3 (-7) 2 = Inr (-3) \<and> moddi3 (-7) 2 = Inr (-1) \<and> divmoddi4 (-7) 2 = Inr (-3, -1)"
  using signed_division_correct [of 2 "-7"] by (simp add: signed_divide_int_def signed_modulo_int_def)

section \<open>Counting bits\<close>

text \<open>The step of a count: a comparison times a power of two.\<close>

lemma step_of_bool:
  assumes "k < 5"
  shows "unat (push_bit k (of_bool c) :: u32) = (if c then 2 ^ k else 0)"
    and "unat (2 ^ k - push_bit k (of_bool c) :: u32) = (if c then 0 else 2 ^ k)"
proof -
  have "unat (2 ^ k :: u32) = 2 ^ k" using assms by (intro unat_pow2) simp
  then show "unat (push_bit k (of_bool c) :: u32) = (if c then 2 ^ k else 0)"
    "unat (2 ^ k - push_bit k (of_bool c) :: u32) = (if c then 0 else 2 ^ k)"
    by (simp_all add: push_bit_eq_mult)
qed

lemma bit_len_div: "bit_len (n div 2 ^ k) = bit_len n - k"
proof (induction k arbitrary: n)
  case (Suc k)
  have "bit_len (n div 2 ^ Suc k) = bit_len (n div 2 div 2 ^ k)" by (simp add: div_mult2_eq)
  also have "\<dots> = bit_len (n div 2) - k" by (rule Suc)
  also have "bit_len (n div 2) = bit_len n - 1" by (cases "n = 0") (simp_all add: bit_len.simps [of n])
  finally show ?case by simp
qed simp

lemma high_half_zero:
  assumes "unat (x :: u32) < 2 ^ (2 * w)" "\<And>i. bit M i \<longleftrightarrow> w \<le> i \<and> i < 2 * w" "w < 32"
  shows "x AND M = 0 \<longleftrightarrow> unat x < 2 ^ w"
proof
  assume z: "x AND M = 0"
  have "take_bit w x = x"
  proof (rule bit_word_eqI)
    fix i assume "i < LENGTH(32)"
    have "\<not> bit x i" if "w \<le> i"
    proof (cases "i < 2 * w")
      case True
      then show ?thesis using z that assms(2) [of i] by (metis bit_0_eq bit_and_iff bot_apply bot_bool_def)
    next
      case False
      then have "(2 :: nat) ^ (2 * w) \<le> 2 ^ i" by (intro power_increasing) simp_all
      then have "unat x < 2 ^ i" using assms(1) by (rule less_le_trans [rotated])
      then have "\<not> bit (unat x) i" by (simp add: bit_iff_odd)
      then show ?thesis by (simp add: bit_unsigned_iff)
    qed
    then show "bit (take_bit w x) i \<longleftrightarrow> bit x i" by (auto simp: bit_simps not_le [symmetric])
  qed
  then have "unat x = unat x mod 2 ^ w" by (metis take_bit_eq_mod unsigned_take_bit_eq)
  then show "unat x < 2 ^ w" by (metis mod_less_divisor zero_less_numeral zero_less_power)
next
  assume "unat x < 2 ^ w"
  then have "\<not> bit x i" if "w \<le> i" for i
  proof -
    have "unat x < 2 ^ i" using \<open>unat x < 2 ^ w\<close> power_increasing [OF that, of "2 :: nat"] by linarith
    then have "\<not> bit (unat x) i" by (simp add: bit_iff_odd)
    then show ?thesis by (simp add: bit_unsigned_iff)
  qed
  then show "x AND M = 0" using assms(2) by (intro bit_word_eqI) (auto simp: bit_simps)
qed

lemma clz_round:
  fixes x M :: u32
  assumes "x \<noteq> 0" "unat x < 2 ^ (2 * 2 ^ k)" "\<And>i. bit M i \<longleftrightarrow> 2 ^ k \<le> i \<and> i < 2 * 2 ^ k" "k < 5"
  defines "t \<equiv> push_bit k (of_bool (x AND M = 0))"
  defines "x' \<equiv> shr x (2 ^ k - t)"
  shows "x' \<noteq> 0" and "unat x' < 2 ^ 2 ^ k" and "unat t + (2 ^ k - bit_len (unat x')) = 2 * 2 ^ k - bit_len (unat x)"
proof -
  have "(2 :: nat) ^ k \<le> 2 ^ 4" using assms(4) by (intro power_increasing) simp_all
  then have z: "x AND M = 0 \<longleftrightarrow> unat x < 2 ^ 2 ^ k" using high_half_zero [OF assms(2,3)] by simp
  have x': "unat x' = (if unat x < 2 ^ 2 ^ k then unat x else unat x div 2 ^ 2 ^ k)"
    unfolding x'_def t_def using step_of_bool(2) [OF assms(4), of "x AND M = 0"] by (simp add: unat_drop_bit z)
  have "0 < unat x'" using assms(1) by (auto simp: x' unat_gt_0 div_greater_zero_iff not_less)
  then show "x' \<noteq> 0" by (simp add: unat_gt_0)
  have "(2 :: nat) ^ (2 * 2 ^ k) = 2 ^ 2 ^ k * 2 ^ 2 ^ k" by (simp add: mult_2 power_add)
  then show "unat x' < 2 ^ 2 ^ k" using assms(2) by (auto simp: x' intro: less_mult_imp_div_less)
  have "unat t = (if unat x < 2 ^ 2 ^ k then 2 ^ k else 0)"
    unfolding t_def using step_of_bool(1) [OF assms(4)] z by simp
  then show "unat t + (2 ^ k - bit_len (unat x')) = 2 * 2 ^ k - bit_len (unat x)"
    using less_pow_bit_len [of "unat x" "2 ^ k"] by (auto simp: x' bit_len_div)
qed

lemma half_masks:
  "bit (0xFFFF0000 :: u32) i \<longleftrightarrow> 2 ^ 4 \<le> i \<and> i < 2 * 2 ^ 4" "bit (0xFF00 :: u32) i \<longleftrightarrow> 2 ^ 3 \<le> i \<and> i < 2 * 2 ^ 3"
  "bit (0xF0 :: u32) i \<longleftrightarrow> 2 ^ 2 \<le> i \<and> i < 2 * 2 ^ 2" "bit (0xC :: u32) i \<longleftrightarrow> 2 ^ 1 \<le> i \<and> i < 2 * 2 ^ 1"
proof -
  have m: "(0xFFFF0000 :: u32) = push_bit 16 (mask 16)" "(0xFF00 :: u32) = push_bit 8 (mask 8)"
    "(0xF0 :: u32) = push_bit 4 (mask 4)" "(0xC :: u32) = push_bit 2 (mask 2)"
    by (simp_all add: mask_eq_exp_minus_1 push_bit_eq_mult)
  have "bit (push_bit w (mask w) :: u32) i \<longleftrightarrow> w \<le> i \<and> i < 2 * w" if "w \<le> 16" for w
    using that by (auto simp: bit_push_bit_iff bit_mask_iff)
  then show "bit (0xFFFF0000 :: u32) i \<longleftrightarrow> 2 ^ 4 \<le> i \<and> i < 2 * 2 ^ 4" "bit (0xFF00 :: u32) i \<longleftrightarrow> 2 ^ 3 \<le> i \<and> i < 2 * 2 ^ 3"
    "bit (0xF0 :: u32) i \<longleftrightarrow> 2 ^ 2 \<le> i \<and> i < 2 * 2 ^ 2" "bit (0xC :: u32) i \<longleftrightarrow> 2 ^ 1 \<le> i \<and> i < 2 * 2 ^ 1"
    unfolding m by simp_all
qed

lemma clz_last:
  assumes "(x :: u32) \<noteq> 0" "unat x < 4"
  shows "unat ((2 - x) AND - of_bool (x AND 2 = 0)) = 2 - bit_len (unat x)"
proof -
  have "unat x \<noteq> 0" using assms(1) by (simp add: unsigned_eq_0_iff)
  then consider "unat x = unat (1 :: u32)" | "unat x = unat (2 :: u32)" | "unat x = unat (3 :: u32)"
    using assms(2) by fastforce
  then have "x = 1 \<or> x = 2 \<or> x = 3" by (simp only: word_unat_eq_iff [symmetric]) blast
  then show ?thesis by (auto simp: bit_len.simps)
qed

lemma clzsi2_ok: "a \<noteq> 0 \<Longrightarrow> clzsi2 a = builtin_clz a"
proof -
  assume a: "a \<noteq> 0"
  define t1 where "t1 = push_bit 4 (of_bool (a AND 0xFFFF0000 = 0) :: u32)"
  define x1 where "x1 = shr a (16 - t1)"
  have e1: "x1 = shr a (2 ^ 4 - t1)" by (simp add: x1_def)
  define t2 where "t2 = push_bit 3 (of_bool (x1 AND 0xFF00 = 0) :: u32)"
  define x2 where "x2 = shr x1 (8 - t2)"
  have e2: "x2 = shr x1 (2 ^ 3 - t2)" by (simp add: x2_def)
  define t3 where "t3 = push_bit 2 (of_bool (x2 AND 0xF0 = 0) :: u32)"
  define x3 where "x3 = shr x2 (4 - t3)"
  have e3: "x3 = shr x2 (2 ^ 2 - t3)" by (simp add: x3_def)
  define t4 where "t4 = push_bit 1 (of_bool (x3 AND 0xC = 0) :: u32)"
  define x4 where "x4 = shr x3 (2 - t4)"
  have e4: "x4 = shr x3 (2 ^ 1 - t4)" by (simp add: x4_def)
  define u where "u = (2 - x4) AND - of_bool (x4 AND 2 = 0)"
  have "unat a < 2 ^ (2 * 2 ^ 4)" using unsigned_less [of a, where ?'a = nat] by simp
  note r1 = clz_round [OF a this half_masks(1), folded t1_def, folded e1, simplified]
  have "unat x1 < 2 ^ (2 * 2 ^ 3)" using r1(2) by simp
  note r2 = clz_round [OF r1(1) this half_masks(2), folded t2_def, folded e2, simplified]
  have "unat x2 < 2 ^ (2 * 2 ^ 2)" using r2(2) by simp
  note r3 = clz_round [OF r2(1) this half_masks(3), folded t3_def, folded e3, simplified]
  have "unat x3 < 2 ^ (2 * 2 ^ 1)" using r3(2) by simp
  note r4 = clz_round [OF r3(1) this half_masks(4), folded t4_def, folded e4, simplified]
  have "unat x4 < 4" using r4(2) by simp
  note last = clz_last [OF r4(1) this, folded u_def]
  have "clzsi2 a = t1 + t2 + t3 + t4 + u"
    by (simp only: clzsi2_def Let_def t1_def [symmetric] x1_def [symmetric] t2_def [symmetric] x2_def [symmetric]
      t3_def [symmetric] x3_def [symmetric] t4_def [symmetric] x4_def [symmetric] u_def [symmetric])
  moreover have sum: "unat t1 + unat t2 + unat t3 + unat t4 + unat u = 32 - bit_len (unat a)"
    using r1(3) r2(3) r3(3) r4(3) last by linarith
  then have "unat (t1 + t2 + t3 + t4 + u) = 32 - bit_len (unat a)" by (simp add: unat_word_ariths mod_simps)
  ultimately show ?thesis
    unfolding builtin_clz_def sum [symmetric] by (simp add: of_nat_unat)
qed

text \<open>The same from the other end: the bits above may hold anything.\<close>

lemma low_zeros_ge: "0 < n \<Longrightarrow> k \<le> low_zeros n \<longleftrightarrow> n mod 2 ^ k = 0"
proof (induction k arbitrary: n)
  case (Suc k)
  show ?case
  proof (cases "odd n")
    case True
    then have "n mod 2 ^ Suc k \<noteq> 0" by (auto simp: mod_eq_0_iff_dvd dest: dvd_trans [of 2])
    then show ?thesis using True by (simp add: low_zeros.simps [of n])
  next
    case False
    then have n: "n = 2 * (n div 2)" "0 < n div 2" using Suc.prems by auto
    have "n mod 2 ^ Suc k = 2 * (n div 2 mod 2 ^ k)" by (subst n(1)) (simp only: power_Suc mult_mod_right)
    then have "n mod 2 ^ Suc k = 0 \<longleftrightarrow> k \<le> low_zeros (n div 2)" using Suc.IH [OF n(2)] by simp
    then show ?thesis using False Suc.prems by (simp add: low_zeros.simps [of n])
  qed
qed simp

lemma low_zeros_div:
  assumes "0 < n" "n mod 2 ^ k = 0"
  shows "low_zeros n = k + low_zeros (n div 2 ^ k)" and "0 < n div 2 ^ k"
proof -
  have n: "n = 2 ^ k * (n div 2 ^ k)" using assms(2) by (metis mult_div_mod_eq add_0_right)
  then show pos: "0 < n div 2 ^ k" using assms(1) by (metis gr0I mult_0_right less_irrefl)
  have "low_zeros (2 ^ k * m) = k + low_zeros m" if "0 < m" for m
    using that by (induction k) (auto simp: low_zeros.simps [of "2 * _"] mult.assoc)
  then show "low_zeros n = k + low_zeros (n div 2 ^ k)" using n pos by metis
qed

lemma ctz_round:
  fixes x :: u32
  assumes "x \<noteq> 0" "low_zeros (unat x) < 2 * 2 ^ k" "k < 5"
  defines "t \<equiv> push_bit k (of_bool (x AND mask (2 ^ k) = 0))"
  defines "x' \<equiv> shr x t"
  shows "x' \<noteq> 0" and "low_zeros (unat x') < 2 ^ k" and "unat t + low_zeros (unat x') = low_zeros (unat x)"
proof -
  have pos: "0 < unat x" using assms(1) by (simp add: unat_gt_0)
  have "x AND mask (2 ^ k) = 0 \<longleftrightarrow> unat x mod 2 ^ 2 ^ k = 0"
    by (simp only: take_bit_eq_mask [symmetric] word_unat_eq_iff unat_take_bit unsigned_0)
  then have z: "x AND mask (2 ^ k) = 0 \<longleftrightarrow> 2 ^ k \<le> low_zeros (unat x)" using low_zeros_ge [OF pos] by simp
  have t: "unat t = (if 2 ^ k \<le> low_zeros (unat x) then 2 ^ k else 0)"
    unfolding t_def using step_of_bool(1) [OF assms(3)] z by simp
  show "x' \<noteq> 0" "low_zeros (unat x') < 2 ^ k" "unat t + low_zeros (unat x') = low_zeros (unat x)"
  proof -
    have "0 < unat x' \<and> low_zeros (unat x') < 2 ^ k \<and> unat t + low_zeros (unat x') = low_zeros (unat x)"
    proof (cases "2 ^ k \<le> low_zeros (unat x)")
      case True
      then have "unat x mod 2 ^ 2 ^ k = 0" using low_zeros_ge [OF pos] by blast
      then show ?thesis using low_zeros_div [OF pos, of "2 ^ k"] assms(2) t True by (simp add: x'_def unat_drop_bit)
    next
      case False
      then show ?thesis using t pos by (simp add: x'_def unat_drop_bit)
    qed
    then show "x' \<noteq> 0" "low_zeros (unat x') < 2 ^ k" "unat t + low_zeros (unat x') = low_zeros (unat x)" by auto
  qed
qed

lemma ctz_last:
  assumes "(x :: u32) \<noteq> 0" "low_zeros (unat x) < 2"
  shows "unat ((2 - shr (x AND 3) 1) AND - of_bool ((x AND 3) AND 1 = 0)) = low_zeros (unat x)"
proof -
  have pos: "0 < unat x" using assms(1) by (simp add: unat_gt_0)
  have x: "x AND 3 = x AND mask 2" by (simp add: mask_eq_exp_minus_1)
  have u: "unat (x AND 3) = unat x mod 4" unfolding x take_bit_eq_mask [symmetric] unat_take_bit by simp
  have "unat x mod 4 \<noteq> 0" using low_zeros_ge [OF pos, of 2] assms(2) by simp
  then consider "unat (x AND 3) = unat (1 :: u32)" | "unat (x AND 3) = unat (2 :: u32)" | "unat (x AND 3) = unat (3 :: u32)"
    using mod_less_divisor [of 4 "unat x"] u by fastforce
  then have c: "x AND 3 = 1 \<or> x AND 3 = 2 \<or> x AND 3 = 3" by (simp only: word_unat_eq_iff [symmetric]) blast
  have o: "odd (unat x) \<longleftrightarrow> odd (unat (x AND 3))" unfolding u by presburger
  have z: "low_zeros (unat x) = (if odd (unat x) then 0 else 1)"
    using assms(2) low_zeros_ge [OF pos, of 1] by (auto simp: even_iff_mod_2_eq_zero)
  have "unat ((2 - shr y 1) AND - of_bool (y AND 1 = 0)) = (if odd (unat y) then 0 else 1)"
    if "y = 1 \<or> y = 2 \<or> y = 3" for y :: u32 using that by auto
  then show ?thesis using c unfolding z o by blast
qed

lemma ctzsi2_ok: "a \<noteq> 0 \<Longrightarrow> ctzsi2 a = builtin_ctz a"
proof -
  assume a: "a \<noteq> 0"
  have pos: "0 < unat a" using a by (simp add: unat_gt_0)
  have m: "(0x0000FFFF :: u32) = mask (2 ^ 4)" "(0x00FF :: u32) = mask (2 ^ 3)" "(0x0F :: u32) = mask (2 ^ 2)" "(0x3 :: u32) = mask (2 ^ 1)"
    by (simp_all add: mask_eq_exp_minus_1)
  define t1 where "t1 = push_bit 4 (of_bool (a AND 0x0000FFFF = 0) :: u32)"
  define x1 where "x1 = shr a t1"
  define t2 where "t2 = push_bit 3 (of_bool (x1 AND 0x00FF = 0) :: u32)"
  define x2 where "x2 = shr x1 t2"
  define t3 where "t3 = push_bit 2 (of_bool (x2 AND 0x0F = 0) :: u32)"
  define x3 where "x3 = shr x2 t3"
  define t4 where "t4 = push_bit 1 (of_bool (x3 AND 0x3 = 0) :: u32)"
  define x4 where "x4 = shr x3 t4"
  define u where "u = (2 - shr (x4 AND 3) 1) AND - of_bool ((x4 AND 3) AND 1 = 0)"
  have lt: "low_zeros (unat a) < 32"
  proof (rule ccontr)
    assume "\<not> low_zeros (unat a) < 32"
    then have "unat a mod 2 ^ 32 = 0" using low_zeros_ge [OF pos, of 32] by simp
    then show False using pos unsigned_less [of a, where ?'a = nat] by simp
  qed
  then have "low_zeros (unat a) < 2 * 2 ^ 4" by simp
  note r1 = ctz_round [OF a this, folded m, folded t1_def, folded x1_def, simplified]
  have "low_zeros (unat x1) < 2 * 2 ^ 3" using r1(2) by simp
  note r2 = ctz_round [OF r1(1) this, folded m, folded t2_def, folded x2_def, simplified]
  have "low_zeros (unat x2) < 2 * 2 ^ 2" using r2(2) by simp
  note r3 = ctz_round [OF r2(1) this, folded m, folded t3_def, folded x3_def, simplified]
  have "low_zeros (unat x3) < 2 * 2 ^ 1" using r3(2) by simp
  note r4 = ctz_round [OF r3(1) this, folded m, folded t4_def, folded x4_def, simplified]
  have "low_zeros (unat x4) < 2" using r4(2) by simp
  note last = ctz_last [OF r4(1) this, folded u_def]
  have "ctzsi2 a = t1 + t2 + t3 + t4 + u"
    by (simp only: ctzsi2_def Let_def t1_def [symmetric] x1_def [symmetric] t2_def [symmetric] x2_def [symmetric]
      t3_def [symmetric] x3_def [symmetric] t4_def [symmetric] x4_def [symmetric] u_def [symmetric])
  moreover have sum: "unat t1 + unat t2 + unat t3 + unat t4 + unat u = low_zeros (unat a)"
    using r1(3) r2(3) r3(3) r4(3) last by linarith
  ultimately show ?thesis
    unfolding builtin_ctz_def sum [symmetric] by (simp add: of_nat_unat)
qed

text \<open>
  The bit counts are right on every non-zero argument: the four-step searches of \<open>__clzsi2\<close> and
  \<open>__ctzsi2\<close> give the leading and the trailing zero bits, and the 64-bit versions, which choose a half
  without branching, give them for double words.
\<close>

theorem bit_counts_correct:
  assumes "a \<noteq> 0" and "w \<noteq> 0"
  shows "clzsi2 a = builtin_clz a \<and> ctzsi2 a = builtin_ctz a \<and>
    clzdi2 w = of_nat (64 - bit_len (unat w)) \<and> ctzdi2 w = of_nat (low_zeros (unat w))"
proof -
  let ?h = "u_high (udw w)" and ?l = "u_low (udw w)"
  have c: "of_nat (m + 32) = (of_nat m + 32 :: u32)" for m by simp
  have clz: "clzdi2 w = of_nat (64 - bit_len (unat w))"
  proof (cases "?h = 0")
    case True
    then have l: "unat w = unat ?l" by (rule bit_len_udw(2))
    then have "?l \<noteq> 0" using assms(2) by (auto simp: word_unat_eq_iff)
    moreover have "bit_len (unat ?l) \<le> 32" using bit_len_word [of ?l] by simp
    then have "64 - bit_len (unat ?l) = 32 - bit_len (unat ?l) + 32" by simp
    moreover have "clzdi2 w = builtin_clz ?l + 32" using True \<open>?l \<noteq> 0\<close> by (simp add: clzdi2_def Let_def clzsi2_ok)
    ultimately show ?thesis unfolding builtin_clz_def l by (simp only: c)
  next
    case False
    then have "64 - bit_len (unat w) = 32 - bit_len (unat ?h)" using bit_len_udw(1) by simp
    then show ?thesis using False by (simp add: clzdi2_def Let_def clzsi2_ok builtin_clz_def)
  qed
  have pos: "0 < unat w" using assms(2) by (simp add: unat_gt_0)
  have ctz: "ctzdi2 w = of_nat (low_zeros (unat w))"
  proof (cases "?l = 0")
    case True
    then have w: "unat w = unat ?h * 2 ^ 32" using unat_udw [of w] by simp
    then have "?h \<noteq> 0" using pos by (auto simp: unat_gt_0)
    moreover have "low_zeros (unat w) = low_zeros (unat ?h) + 32" using low_zeros_div(1) [OF pos, of 32] w by simp
    moreover have "ctzdi2 w = builtin_ctz ?h + 32" using True \<open>?h \<noteq> 0\<close> by (simp add: ctzdi2_def Let_def ctzsi2_ok)
    ultimately show ?thesis unfolding builtin_ctz_def by (simp only: c)
  next
    case False
    then have l: "0 < unat ?l" by (simp add: unat_gt_0)
    have mod: "unat w mod 2 ^ k = unat ?l mod 2 ^ k" if "k \<le> 32" for k
    proof -
      have "unat w = 2 ^ k * (unat ?h * 2 ^ (32 - k)) + unat ?l" using that unat_udw [of w] by (simp add: mult.left_commute flip: power_add)
      then show ?thesis by (simp only: mod_mult_self4)
    qed
    let ?z = "low_zeros (unat ?l)"
    have lt: "?z < 32"
    proof (rule ccontr)
      assume "\<not> ?z < 32"
      then have "unat ?l mod 2 ^ 32 = 0" using low_zeros_ge [OF l, of 32] by (simp only: not_less)
      then show False using l unsigned_less [of ?l, where ?'a = nat] by simp
    qed
    have "?z \<le> low_zeros (unat w)"
      using low_zeros_ge [OF pos, of ?z] low_zeros_ge [OF l, of ?z] mod [of ?z] lt by (simp only: less_imp_le order_refl simp_thms)
    moreover have "\<not> Suc ?z \<le> low_zeros (unat w)"
      using low_zeros_ge [OF pos, of "Suc ?z"] low_zeros_ge [OF l, of "Suc ?z"] mod [of "Suc ?z"] lt by (simp only: Suc_leI simp_thms) simp
    ultimately have "low_zeros (unat w) = ?z" by linarith
    then show ?thesis using False by (simp add: ctzdi2_def Let_def ctzsi2_ok builtin_ctz_def)
  qed
  show ?thesis using clz ctz clzsi2_ok ctzsi2_ok assms(1) by blast
qed

lemma bit_counts_correct_witness:
  "clzsi2 0x1F = 27 \<and> ctzsi2 0x18 = 3 \<and> clzdi2 0x1F00000000 = 27 \<and> ctzdi2 0x1800000000 = 35"
  using bit_counts_correct [of "0x18" "0x1800000000"] bit_counts_correct [of "0x1F" "0x1F00000000"]
  by (simp add: builtin_clz_def builtin_ctz_def bit_len.simps low_zeros.simps)

end
