(* ===== verification/Fifo_Spec.thy ===== *)
theory Fifo_Spec
  imports Base
begin

text \<open>
  Ring buffers: what the three queues of the program share (the input device's events, the native
  platform's key queue, the terminal's line buffer), and the contract of a bounded first-in
  first-out queue as a locale, with what its users get from it.
\<close>

section \<open>The elements of a ring\<close>

text \<open>The \<open>n\<close> slots of \<open>buf\<close>, read from \<open>front\<close> round to \<open>rear\<close>.\<close>

definition ring_len :: "nat \<Rightarrow> nat \<Rightarrow> nat \<Rightarrow> nat" where
  "ring_len n front rear = (rear + n - front) mod n"

definition ring :: "'e list \<Rightarrow> nat \<Rightarrow> nat \<Rightarrow> 'e list" where
  "ring buf front rear =
     List.map (\<lambda>i. buf ! ((front + i) mod length buf)) [0..<ring_len (length buf) front rear]"

lemma length_ring [simp]: "length (ring buf front rear) = ring_len (length buf) front rear"
  by (simp add: ring_def)

lemma ring_len_cases:
  assumes "front < n" and "rear < n"
  shows "ring_len n front rear = (if front \<le> rear then rear - front else rear + n - front)"
  using assms by (auto simp: ring_len_def mod_if)

lemma ring_empty [simp]: "front < length buf \<Longrightarrow> ring buf front front = []"
  by (simp add: ring_def ring_len_def)

lemma next_slot: "i < n \<Longrightarrow> Suc i mod n = (if Suc i = n then 0 else Suc i)"
  by auto

lemma ring_len_step:
  assumes "front < n" and "rear < n" and "(rear + 1) mod n \<noteq> front"
  shows "ring_len n front ((rear + 1) mod n) = Suc (ring_len n front rear)"
    and "ring_len n front rear + 1 < n"
proof -
  have "(rear + 1) mod n = (if Suc rear = n then 0 else Suc rear)" using next_slot [OF assms(2)] by simp
  then show "ring_len n front ((rear + 1) mod n) = Suc (ring_len n front rear)" "ring_len n front rear + 1 < n"
    using assms by (simp_all add: ring_len_cases split: if_splits) linarith+
qed

lemma ring_len_full:
  assumes "front < n" and "rear < n"
  shows "(rear + 1) mod n = front \<longleftrightarrow> ring_len n front rear + 1 = n"
proof -
  have "(rear + 1) mod n = (if Suc rear = n then 0 else Suc rear)" using next_slot [OF assms(2)] by simp
  then show ?thesis using assms by (simp add: ring_len_cases) linarith
qed

lemma rear_slot:
  assumes "front < n" and "rear < n"
  shows "(front + ring_len n front rear) mod n = rear"
  using assms by (auto simp: ring_len_cases mod_if)

lemma ring_slot_inject:
  fixes front n i j :: nat
  assumes "front < n" and "i < n" and "j < n" and "(front + i) mod n = (front + j) mod n"
  shows "i = j"
proof -
  have "(front + k) mod n = (if front + k < n then front + k else front + k - n)" if "k < n" for k
    using assms(1) that by (simp add: mod_if)
  then show ?thesis using assms by (simp split: if_splits)
qed

lemma ring_put:
  assumes "front < length buf" and "rear < length buf" and "(rear + 1) mod length buf \<noteq> front"
  shows "ring (buf[rear := e]) front ((rear + 1) mod length buf) = ring buf front rear @ [e]"
proof -
  let ?n = "length buf" and ?k = "ring_len (length buf) front rear"
  note step = ring_len_step [OF assms]
  have "buf[rear := e] ! ((front + i) mod ?n) = buf ! ((front + i) mod ?n)" if "i < ?k" for i
  proof -
    have "(front + i) mod ?n \<noteq> rear"
    proof
      assume "(front + i) mod ?n = rear"
      then have "i = ?k" using ring_slot_inject [of front ?n i ?k] rear_slot [OF assms(1,2)] that step(2) assms(1) by simp
      then show False using that by simp
    qed
    then show ?thesis by simp
  qed
  moreover have "buf[rear := e] ! ((front + ?k) mod ?n) = e" using rear_slot [OF assms(1,2)] assms(2) by simp
  moreover have "ring_len ?n front ((rear + 1) mod ?n) = Suc ?k" by (rule step(1))
  ultimately show ?thesis by (simp add: ring_def)
qed

lemma ring_get:
  assumes "front < length buf" and "rear < length buf" and "front \<noteq> rear"
  shows "ring buf front rear = buf ! front # ring buf ((front + 1) mod length buf) rear"
proof -
  let ?n = "length buf"
  have len: "ring_len ?n front rear = Suc (ring_len ?n ((front + 1) mod ?n) rear)"
  proof -
    have "(front + 1) mod ?n = (if Suc front = ?n then 0 else Suc front)" using next_slot [OF assms(1)] by simp
    moreover have "ring_len ?n front rear = (if front \<le> rear then rear - front else rear + ?n - front)"
      by (rule ring_len_cases [OF assms(1,2)])
    moreover have "0 < ?n" using assms(1) by linarith
    then have "ring_len ?n 0 rear = rear" using ring_len_cases [of 0 ?n rear] assms(2) by simp
    moreover have "Suc front < ?n \<Longrightarrow>
        ring_len ?n (Suc front) rear = (if Suc front \<le> rear then rear - Suc front else rear + ?n - Suc front)"
      using ring_len_cases [of "Suc front" ?n rear] assms by auto
    ultimately show ?thesis using assms by (cases "Suc front = ?n") (auto split: if_splits)
  qed
  have "((front + 1) mod ?n + i) mod ?n = (front + Suc i) mod ?n" for i by (simp add: mod_add_left_eq)
  then show ?thesis
    unfolding ring_def len by (simp add: upt_conv_Cons map_Suc_upt [symmetric] o_def del: upt_Suc) (use assms(1) in simp)
qed

section \<open>The contract\<close>

text \<open>A run of insertions and removals; the elements taken out, in order.\<close>

datatype 'e qop = Enq 'e | Deq

primrec run_queue :: "('e \<Rightarrow> 'q \<Rightarrow> 'q res) \<Rightarrow> ('q \<Rightarrow> ('e \<times> 'q) res) \<Rightarrow> 'e qop list \<Rightarrow> 'q \<Rightarrow> ('e list \<times> 'q) res" where
  "run_queue enq deq [] q = Inr ([], q)"
| "run_queue enq deq (c # cs) q =
     (case c of
        Enq e \<Rightarrow> res_bind (enq e q) (run_queue enq deq cs)
      | Deq \<Rightarrow> res_bind (deq q) (\<lambda>(e, q). res_bind (run_queue enq deq cs q) (\<lambda>(es, q). Inr (e # es, q))))"

text \<open>What the run does to the list of elements; it never removes from an empty queue or exceeds \<open>cap\<close>.\<close>

primrec run_list :: "'e qop list \<Rightarrow> 'e list \<Rightarrow> 'e list \<times> 'e list" where
  "run_list [] xs = ([], xs)"
| "run_list (c # cs) xs =
     (case c of
        Enq e \<Rightarrow> run_list cs (xs @ [e])
      | Deq \<Rightarrow> (case xs of [] \<Rightarrow> ([], []) | x # xs \<Rightarrow> (case run_list cs xs of (es, ys) \<Rightarrow> (x # es, ys))))"

primrec fair_run :: "nat \<Rightarrow> 'e qop list \<Rightarrow> nat \<Rightarrow> bool" where
  "fair_run cap [] n = True"
| "fair_run cap (c # cs) n =
     (case c of Enq e \<Rightarrow> n < cap \<and> fair_run cap cs (n + 1) | Deq \<Rightarrow> 0 < n \<and> fair_run cap cs (n - 1))"

locale bounded_fifo =
  fixes ok :: "'q \<Rightarrow> bool" and elems :: "'q \<Rightarrow> 'e list" and cap :: nat
    and enq :: "'e \<Rightarrow> 'q \<Rightarrow> 'q res" and deq :: "'q \<Rightarrow> ('e \<times> 'q) res"
  assumes enq_ok: "ok q \<Longrightarrow> length (elems q) < cap \<Longrightarrow> \<exists>q'. enq e q = Inr q' \<and> ok q' \<and> elems q' = elems q @ [e]"
    and deq_ok: "ok q \<Longrightarrow> elems q = x # xs \<Longrightarrow> \<exists>q'. deq q = Inr (x, q') \<and> ok q' \<and> elems q' = xs"
begin

text \<open>Every fair run ends without a fault and takes out what the list of elements says.\<close>

lemma run_refines_list:
  "ok q \<Longrightarrow> fair_run cap cs (length (elems q)) \<Longrightarrow>
   \<exists>q'. run_queue enq deq cs q = Inr (fst (run_list cs (elems q)), q') \<and> ok q' \<and> elems q' = snd (run_list cs (elems q))"
proof (induction cs arbitrary: q)
  case (Cons c cs)
  show ?case
  proof (cases c)
    case (Enq e)
    then obtain q' where "enq e q = Inr q'" "ok q'" "elems q' = elems q @ [e]"
      using enq_ok Cons.prems by auto
    then show ?thesis using Cons.IH [of q'] Cons.prems Enq by auto
  next
    case Deq
    then obtain x xs where x: "elems q = x # xs" using Cons.prems by (cases "elems q") auto
    obtain q' where "deq q = Inr (x, q')" "ok q'" "elems q' = xs" using deq_ok [OF Cons.prems(1) x] by blast
    then show ?thesis using Cons.IH [of q'] Cons.prems Deq x by (auto split: prod.splits)
  qed
qed simp

text \<open>First in, first out: what came out and what is left is what was there and went in.\<close>

lemma run_list_conserves:
  "fair_run cap cs (length xs) \<Longrightarrow>
   fst (run_list cs xs) @ snd (run_list cs xs) = xs @ concat (List.map (\<lambda>c. case c of Enq e \<Rightarrow> [e] | Deq \<Rightarrow> []) cs)"
proof (induction cs arbitrary: xs)
  case (Cons c cs)
  show ?case
  proof (cases c)
    case (Enq e)
    then show ?thesis using Cons.IH [of "xs @ [e]"] Cons.prems by simp
  next
    case Deq
    then obtain x ys where "xs = x # ys" using Cons.prems by (cases xs) auto
    then show ?thesis using Cons.IH [of ys] Cons.prems Deq by (auto split: prod.splits)
  qed
qed simp

lemma fifo:
  assumes "ok q" and "fair_run cap cs (length (elems q))"
  shows "\<exists>out q'. run_queue enq deq cs q = Inr (out, q') \<and> ok q' \<and>
    out @ elems q' = elems q @ concat (List.map (\<lambda>c. case c of Enq e \<Rightarrow> [e] | Deq \<Rightarrow> []) cs)"
  using run_refines_list [OF assms] run_list_conserves [OF assms(2)] by auto

end

end
