(* ===== verification/Kmt.thy ===== *)
theory Kmt
  imports Base
begin

text \<open>
  The thread library \<open>kmt\<close>: the repository holds only its stub (\<open>kernel/src/kmt.c\<close>), so what
  the devices use of it is a parameter, with its documented behaviour as a predicate and one
  instance that satisfies it.
\<close>

section \<open>The thread library's interface\<close>

text \<open>The operations of \<open>kmt\<close> the devices use, over its own types of locks and semaphores.\<close>

record ('l, 's) kmt =
  k_spin_lock :: "'l \<Rightarrow> 'l res"
  k_spin_unlock :: "'l \<Rightarrow> 'l"
  k_sem_wait :: "'s \<Rightarrow> 's res"
  k_sem_signal :: "'s \<Rightarrow> 's"

text \<open>
  What its documentation promises: \<open>free\<close> tells a lock nobody holds, which can be taken and given
  back; \<open>count\<close> is a semaphore's value, a wait on a positive one returns and takes one away.
\<close>

definition kmt_ok :: "('l, 's) kmt \<Rightarrow> ('l \<Rightarrow> bool) \<Rightarrow> ('s \<Rightarrow> nat) \<Rightarrow> bool" where
  "kmt_ok K free count \<longleftrightarrow>
     (\<forall>l. free l \<longrightarrow> (\<exists>l'. k_spin_lock K l = Inr l' \<and> free (k_spin_unlock K l'))) \<and>
     (\<forall>s. count (k_sem_signal K s) = count s + 1) \<and>
     (\<forall>s. 0 < count s \<longrightarrow> (\<exists>s'. k_sem_wait K s = Inr s' \<and> count s' + 1 = count s))"

lemma kmt_ok_wait: "kmt_ok K free count \<Longrightarrow> 0 < count s \<Longrightarrow> \<exists>s'. k_sem_wait K s = Inr s' \<and> count s' + 1 = count s"
  by (simp add: kmt_ok_def)

lemma kmt_ok_signal: "kmt_ok K free count \<Longrightarrow> count (k_sem_signal K s) = count s + 1"
  by (simp add: kmt_ok_def)

text \<open>An instance: a lock is a flag, a semaphore its value; waiting on 0 blocks for ever.\<close>

definition plain_kmt :: "(bool, nat) kmt" where
  "plain_kmt = \<lparr>k_spin_lock = (\<lambda>l. if l then Inl Deadlock else Inr True), k_spin_unlock = (\<lambda>_. False),
     k_sem_wait = (\<lambda>s. if s = 0 then Inl Deadlock else Inr (s - 1)), k_sem_signal = Suc\<rparr>"

lemma plain_kmt_ok: "kmt_ok plain_kmt (\<lambda>l. \<not> l) (\<lambda>s. s)"
  by (auto simp: kmt_ok_def plain_kmt_def)

end
