(* ===== verification/Dev_Input.thy ===== *)
theory Dev_Input
  imports Fifo_Spec Kmt
begin

text \<open>
  The keyboard: the input device \<open>kernel/src/dev/dev_input.c\<close> (event queue, modifier keys, key map,
  one round of the input task) and the key queue of the native platform,
  \<open>am/src/native/ioe/input.c\<close>. The thread library \<open>kmt\<close> is a parameter.
\<close>

unbundle bit_operations_syntax

section \<open>State\<close>

definition NEVENTS :: nat where
  "NEVENTS = 128"

record input_event =
  ev_ctrl :: bool
  ev_alt :: bool
  ev_data :: "16 word"

record ('l, 's) input_t =
  i_lock :: 'l
  event_sem :: 's
  events :: "input_event list"
  front :: nat
  rear :: nat
  capslock :: bool
  lshift :: bool
  rshift :: bool
  lctrl :: bool
  rctrl :: bool
  lalt :: bool
  ralt :: bool

definition event :: "bool \<Rightarrow> bool \<Rightarrow> u8 \<Rightarrow> input_event" where
  "event ctrl alt data = \<lparr>ev_ctrl = ctrl, ev_alt = alt, ev_data = ucast data\<rparr>"

definition is_empty :: "('l, 's) input_t \<Rightarrow> bool" where
  "is_empty inp \<longleftrightarrow> rear inp = front inp"

section \<open>The event queue\<close>

text \<open>The code of \<open>push_event\<close> and \<open>pop_event\<close> between lock and unlock.\<close>

definition push_crit :: "input_event \<Rightarrow> ('l, 's) input_t \<Rightarrow> ('l, 's) input_t res" where
  "push_crit ev inp =
     res_bind (guard BadAccess (rear inp < length (events inp))) (\<lambda>_.
     let inp = inp\<lparr>events := (events inp)[rear inp := ev], rear := (rear inp + 1) mod NEVENTS\<rparr>
     in res_bind (guard Panic (\<not> is_empty inp)) (\<lambda>_. Inr inp))"

definition pop_crit :: "('l, 's) input_t \<Rightarrow> (input_event \<times> ('l, 's) input_t) res" where
  "pop_crit inp =
     res_bind (guard Panic (\<not> is_empty inp)) (\<lambda>_.
     let idx = front inp;
         inp = inp\<lparr>front := (front inp + 1) mod NEVENTS\<rparr>
     in res_bind (guard BadAccess (idx < length (events inp))) (\<lambda>_. Inr (events inp ! idx, inp)))"

definition push_event :: "('l, 's) kmt \<Rightarrow> input_event \<Rightarrow> ('l, 's) input_t \<Rightarrow> ('l, 's) input_t res" where
  "push_event K ev inp =
     res_bind (k_spin_lock K (i_lock inp)) (\<lambda>l.
     res_bind (push_crit ev (inp\<lparr>i_lock := l\<rparr>)) (\<lambda>inp.
     let inp = inp\<lparr>i_lock := k_spin_unlock K (i_lock inp)\<rparr>
     in Inr (inp\<lparr>event_sem := k_sem_signal K (event_sem inp)\<rparr>)))"

definition pop_event :: "('l, 's) kmt \<Rightarrow> ('l, 's) input_t \<Rightarrow> (input_event \<times> ('l, 's) input_t) res" where
  "pop_event K inp =
     res_bind (k_sem_wait K (event_sem inp)) (\<lambda>s.
     let inp = inp\<lparr>event_sem := s\<rparr> in
     res_bind (k_spin_lock K (i_lock inp)) (\<lambda>l.
     res_bind (pop_crit (inp\<lparr>i_lock := l\<rparr>)) (\<lambda>(ev, inp).
       Inr (ev, inp\<lparr>i_lock := k_spin_unlock K (i_lock inp)\<rparr>))))"

text \<open>\<open>sizeof(struct input_event)\<close>: three bit fields in one 32-bit unit.\<close>

definition SIZEOF_EVENT :: int where
  "SIZEOF_EVENT = 4"

definition input_read :: "('l, 's) kmt \<Rightarrow> int \<Rightarrow> ('l, 's) input_t \<Rightarrow> (int \<times> input_event option \<times> ('l, 's) input_t) res" where
  "input_read K count inp =
     res_bind (pop_event K inp) (\<lambda>(ev, inp).
       if SIZEOF_EVENT \<le> count then Inr (SIZEOF_EVENT, Some ev, inp) else Inr (0, None, inp))"

definition input_write :: "int" where
  "input_write = 0"

text \<open>
  \<open>input_init\<close> without its allocation: the event array comes from \<open>pmm->alloc\<close> with whatever it
  holds; \<open>kmt->spin_init\<close> and \<open>kmt->sem_init\<close> give the lock and the semaphore.
\<close>

definition input_init :: "input_event list \<Rightarrow> 'l \<Rightarrow> 's \<Rightarrow> ('l, 's) input_t \<Rightarrow> ('l, 's) input_t" where
  "input_init buf lk sem inp = inp\<lparr>events := buf, front := 0, rear := 0, i_lock := lk, event_sem := sem\<rparr>"

section \<open>The key map\<close>

text \<open>The names of \<open>AM_KEYS\<close> in \<open>amdev.h\<close>; a key's code is its place, from 1.\<close>

definition AM_KEYS :: "string list" where
  "AM_KEYS =
     [''ESCAPE'', ''F1'', ''F2'', ''F3'', ''F4'', ''F5'', ''F6'', ''F7'', ''F8'', ''F9'', ''F10'', ''F11'', ''F12'',
      ''GRAVE'', ''1'', ''2'', ''3'', ''4'', ''5'', ''6'', ''7'', ''8'', ''9'', ''0'', ''MINUS'', ''EQUALS'', ''BACKSPACE'',
      ''TAB'', ''Q'', ''W'', ''E'', ''R'', ''T'', ''Y'', ''U'', ''I'', ''O'', ''P'', ''LEFTBRACKET'', ''RIGHTBRACKET'', ''BACKSLASH'',
      ''CAPSLOCK'', ''A'', ''S'', ''D'', ''F'', ''G'', ''H'', ''J'', ''K'', ''L'', ''SEMICOLON'', ''APOSTROPHE'', ''RETURN'',
      ''LSHIFT'', ''Z'', ''X'', ''C'', ''V'', ''B'', ''N'', ''M'', ''COMMA'', ''PERIOD'', ''SLASH'', ''RSHIFT'',
      ''LCTRL'', ''APPLICATION'', ''LALT'', ''SPACE'', ''RALT'', ''RCTRL'',
      ''UP'', ''DOWN'', ''LEFT'', ''RIGHT'', ''INSERT'', ''DELETE'', ''HOME'', ''END'', ''PAGEUP'', ''PAGEDOWN'']"

fun index_of :: "'a \<Rightarrow> 'a list \<Rightarrow> nat" where
  "index_of x [] = 0"
| "index_of x (y # ys) = (if x = y then 1 else (case index_of x ys of 0 \<Rightarrow> 0 | Suc n \<Rightarrow> Suc (Suc n)))"

definition AM_KEY :: "string \<Rightarrow> int" where
  "AM_KEY name = int (index_of name AM_KEYS)"

text \<open>The initialiser of \<open>keymap\<close>; entries it does not name are 0.\<close>

definition keymap_init :: "(string \<times> char \<times> char) list" where
  "keymap_init =
     [(''0'', CHR ''0'', CHR '')''), (''1'', CHR ''1'', CHR ''!''), (''2'', CHR ''2'', CHR ''@''), (''3'', CHR ''3'', CHR ''#''),
      (''4'', CHR ''4'', CHR ''$''), (''5'', CHR ''5'', CHR ''%''), (''6'', CHR ''6'', CHR ''^''), (''7'', CHR ''7'', CHR ''&''),
      (''8'', CHR ''8'', CHR ''*''), (''9'', CHR ''9'', CHR ''(''),
      (''A'', CHR ''a'', CHR ''A''), (''B'', CHR ''b'', CHR ''B''), (''C'', CHR ''c'', CHR ''C''), (''D'', CHR ''d'', CHR ''D''),
      (''E'', CHR ''e'', CHR ''E''), (''F'', CHR ''f'', CHR ''F''), (''G'', CHR ''g'', CHR ''G''), (''H'', CHR ''h'', CHR ''H''),
      (''I'', CHR ''i'', CHR ''I''), (''J'', CHR ''j'', CHR ''J''), (''K'', CHR ''k'', CHR ''K''), (''L'', CHR ''l'', CHR ''L''),
      (''M'', CHR ''m'', CHR ''M''), (''N'', CHR ''n'', CHR ''N''), (''O'', CHR ''o'', CHR ''O''), (''P'', CHR ''p'', CHR ''P''),
      (''Q'', CHR ''q'', CHR ''Q''), (''R'', CHR ''r'', CHR ''R''), (''S'', CHR ''s'', CHR ''S''), (''T'', CHR ''t'', CHR ''T''),
      (''U'', CHR ''u'', CHR ''U''), (''V'', CHR ''v'', CHR ''V''), (''W'', CHR ''w'', CHR ''W''), (''X'', CHR ''x'', CHR ''X''),
      (''Y'', CHR ''y'', CHR ''Y''), (''Z'', CHR ''z'', CHR ''Z''),
      (''GRAVE'', CHR 0x60, CHR ''~''), (''MINUS'', CHR ''-'', CHR ''_''), (''EQUALS'', CHR ''='', CHR ''+''),
      (''LEFTBRACKET'', CHR ''['', CHR ''{''), (''RIGHTBRACKET'', CHR '']'', CHR ''}''), (''BACKSLASH'', CHR 0x5C, CHR ''|''),
      (''SEMICOLON'', CHR '';'', CHR '':''), (''APOSTROPHE'', CHR 0x27, CHR 0x22), (''RETURN'', CHR 0x0A, CHR 0x0A),
      (''COMMA'', CHR '','', CHR ''<''), (''PERIOD'', CHR ''.'', CHR ''>''), (''SLASH'', CHR ''/'', CHR ''?''),
      (''SPACE'', CHR '' '', CHR '' ''), (''BACKSPACE'', CHR 0x08, CHR 0x08)]"

definition keymap :: "int \<Rightarrow> (u8 \<times> u8) res" where
  "keymap code =
     (if 0 \<le> code \<and> code < 256
      then Inr (case List.find (\<lambda>(k, _, _). AM_KEY k = code) keymap_init of
                  None \<Rightarrow> (0, 0) | Some (_, a, b) \<Rightarrow> (chr a, chr b))
      else Inl BadAccess)"

section \<open>Keys\<close>

definition input_keydown :: "('l, 's) kmt \<Rightarrow> bool \<Rightarrow> int \<Rightarrow> ('l, 's) input_t \<Rightarrow> ('l, 's) input_t res" where
  "input_keydown K down code inp =
     (if down then
        if code = AM_KEY ''CAPSLOCK'' then Inr (inp\<lparr>capslock := \<not> capslock inp\<rparr>)
        else if code = AM_KEY ''LCTRL'' then Inr (inp\<lparr>lctrl := True\<rparr>)
        else if code = AM_KEY ''RCTRL'' then Inr (inp\<lparr>rctrl := True\<rparr>)
        else if code = AM_KEY ''LALT'' then Inr (inp\<lparr>lalt := True\<rparr>)
        else if code = AM_KEY ''RALT'' then Inr (inp\<lparr>ralt := True\<rparr>)
        else if code = AM_KEY ''LSHIFT'' then Inr (inp\<lparr>lshift := True\<rparr>)
        else if code = AM_KEY ''RSHIFT'' then Inr (inp\<lparr>rshift := True\<rparr>)
        else
          res_bind (keymap code) (\<lambda>(ch, ch_shift).
            if ch \<noteq> 0 then
              let shift = lshift inp \<or> rshift inp;
                  ctrl = lctrl inp \<or> rctrl inp;
                  alt = lalt inp \<or> ralt inp
              in if ctrl \<or> alt then push_event K (event ctrl alt ch) inp
                 else
                   let shift = (if chr (CHR ''a'') \<le> ch \<and> ch \<le> chr (CHR ''z'') then shift \<noteq> capslock inp else shift)
                   in if shift then push_event K (event False False ch_shift) inp
                      else push_event K (event False False ch) inp
            else Inr inp)
      else
        if code = AM_KEY ''LCTRL'' then Inr (inp\<lparr>lctrl := False\<rparr>)
        else if code = AM_KEY ''RCTRL'' then Inr (inp\<lparr>rctrl := False\<rparr>)
        else if code = AM_KEY ''LALT'' then Inr (inp\<lparr>lalt := False\<rparr>)
        else if code = AM_KEY ''RALT'' then Inr (inp\<lparr>ralt := False\<rparr>)
        else if code = AM_KEY ''LSHIFT'' then Inr (inp\<lparr>lshift := False\<rparr>)
        else if code = AM_KEY ''RSHIFT'' then Inr (inp\<lparr>rshift := False\<rparr>)
        else Inr inp)"

text \<open>
  One round of \<open>dev_input_task\<close>: the keys the keyboard register delivers before it reads 0, then
  the timer; the clock is the low 32 bits of the uptime in microseconds.
\<close>

fun drain_keys :: "('l, 's) kmt \<Rightarrow> (bool \<times> int) list \<Rightarrow> ('l, 's) input_t \<Rightarrow> ('l, 's) input_t res" where
  "drain_keys K [] inp = Inr inp"
| "drain_keys K ((down, code) # keys) inp =
     (if code \<noteq> 0 then res_bind (input_keydown K down code inp) (drain_keys K keys) else Inr inp)"

definition input_task_round ::
  "('l, 's) kmt \<Rightarrow> (bool \<times> int) list \<Rightarrow> u64 \<Rightarrow> u32 \<Rightarrow> ('l, 's) input_t \<Rightarrow> (u32 \<times> ('l, 's) input_t) res" where
  "input_task_round K keys uptime known_time inp =
     res_bind (drain_keys K keys inp) (\<lambda>inp.
     let time = ucast uptime in
     if 100 < (time - known_time) div 1000 \<and> is_empty inp
     then res_bind (push_event K (event False False 0) inp) (\<lambda>inp. Inr (time, inp))
     else Inr (known_time, inp))"

section \<open>The native key queue\<close>

definition KEY_QUEUE_LEN :: nat where
  "KEY_QUEUE_LEN = 1024"

definition KEYDOWN_MASK :: u32 where
  "KEYDOWN_MASK = 0x8000"

record key_queue =
  keys :: "u32 list"
  key_f :: nat
  key_r :: nat

text \<open>The critical sections of \<open>event_thread\<close> and \<open>__am_input_keybrd\<close>.\<close>

definition key_put :: "u32 \<Rightarrow> key_queue \<Rightarrow> key_queue res" where
  "key_put am_code q =
     res_bind (guard BadAccess (key_r q < length (keys q))) (\<lambda>_.
       Inr (q\<lparr>keys := (keys q)[key_r q := am_code], key_r := (key_r q + 1) mod KEY_QUEUE_LEN\<rparr>))"

definition key_get :: "key_queue \<Rightarrow> (u32 \<times> key_queue) res" where
  "key_get q =
     (if key_f q \<noteq> key_r q
      then res_bind (guard BadAccess (key_f q < length (keys q))) (\<lambda>_.
             Inr (keys q ! key_f q, q\<lparr>key_f := (key_f q + 1) mod KEY_QUEUE_LEN\<rparr>))
      else Inr (0, q))"

text \<open>SDL's event, by the code \<open>keymap[scancode]\<close> the platform's own table gives for it.\<close>

definition key_event :: "u32 \<Rightarrow> bool \<Rightarrow> key_queue \<Rightarrow> key_queue res" where
  "key_event code down q =
     (if code \<noteq> 0 then key_put (code OR (if down then KEYDOWN_MASK else 0)) q else Inr q)"

definition am_input_keybrd :: "key_queue \<Rightarrow> (bool \<times> u32 \<times> key_queue) res" where
  "am_input_keybrd q =
     res_bind (key_get q) (\<lambda>(k, q). Inr (k AND KEYDOWN_MASK \<noteq> 0, k AND NOT KEYDOWN_MASK, q))"

section \<open>Both rings are bounded queues\<close>

definition ring_ok :: "('l, 's) input_t \<Rightarrow> bool" where
  "ring_ok inp \<longleftrightarrow> length (events inp) = NEVENTS \<and> front inp < NEVENTS \<and> rear inp < NEVENTS"

definition in_elems :: "('l, 's) input_t \<Rightarrow> input_event list" where
  "in_elems inp = ring (events inp) (front inp) (rear inp)"

text \<open>The keyboard's modifiers, which the queue operations leave alone.\<close>

definition mods :: "('l, 's) input_t \<Rightarrow> bool list" where
  "mods inp = [capslock inp, lshift inp, rshift inp, lctrl inp, rctrl inp, lalt inp, ralt inp]"

lemma mods_upd [simp]:
  "mods (inp\<lparr>i_lock := l\<rparr>) = mods inp" "mods (inp\<lparr>event_sem := s\<rparr>) = mods inp"
  "mods (inp\<lparr>events := b\<rparr>) = mods inp" "mods (inp\<lparr>front := n\<rparr>) = mods inp" "mods (inp\<lparr>rear := n\<rparr>) = mods inp"
  by (simp_all add: mods_def)

lemma push_crit_ok:
  assumes "ring_ok inp" and "length (in_elems inp) < NEVENTS - 1"
  shows "\<exists>inp'. push_crit ev inp = Inr inp' \<and> ring_ok inp' \<and> in_elems inp' = in_elems inp @ [ev] \<and>
    mods inp' = mods inp \<and> i_lock inp' = i_lock inp \<and> event_sem inp' = event_sem inp"
proof -
  have r: "length (events inp) = NEVENTS" "front inp < length (events inp)" "rear inp < length (events inp)"
    using assms(1) by (simp_all add: ring_ok_def)
  have nf: "(rear inp + 1) mod length (events inp) \<noteq> front inp"
    using assms(2) ring_len_full [OF r(2,3)] r(1) by (simp add: in_elems_def)
  then show ?thesis
    using r ring_put [OF r(2,3) nf, of ev]
    by (auto simp: push_crit_def is_empty_def Let_def ring_ok_def in_elems_def NEVENTS_def)
qed

lemma push_crit_full:
  assumes "ring_ok inp" and "length (in_elems inp) = NEVENTS - 1"
  shows "push_crit ev inp = Inl Panic"
proof -
  have r: "length (events inp) = NEVENTS" "front inp < length (events inp)" "rear inp < length (events inp)"
    using assms(1) by (simp_all add: ring_ok_def)
  then have "(rear inp + 1) mod NEVENTS = front inp"
    using assms(2) ring_len_full [OF r(2,3)] by (simp add: in_elems_def NEVENTS_def)
  then show ?thesis using r by (simp add: push_crit_def is_empty_def Let_def)
qed

lemma pop_crit_ok:
  assumes "ring_ok inp" and "in_elems inp = x # xs"
  shows "\<exists>inp'. pop_crit inp = Inr (x, inp') \<and> ring_ok inp' \<and> in_elems inp' = xs \<and>
    mods inp' = mods inp \<and> i_lock inp' = i_lock inp \<and> event_sem inp' = event_sem inp"
proof -
  have r: "length (events inp) = NEVENTS" "front inp < length (events inp)" "rear inp < length (events inp)"
    using assms(1) by (simp_all add: ring_ok_def)
  have ne: "front inp \<noteq> rear inp"
  proof
    assume "front inp = rear inp"
    then show False using assms(2) ring_empty [OF r(2)] by (simp add: in_elems_def)
  qed
  then show ?thesis
    using r ring_get [OF r(2,3) ne] assms(2)
    by (auto simp: pop_crit_def is_empty_def Let_def ring_ok_def in_elems_def NEVENTS_def)
qed

interpretation input_ring: bounded_fifo ring_ok in_elems "NEVENTS - 1" push_crit pop_crit
  by unfold_locales (use push_crit_ok pop_crit_ok in blast)+

definition keys_ok :: "key_queue \<Rightarrow> bool" where
  "keys_ok q \<longleftrightarrow> length (keys q) = KEY_QUEUE_LEN \<and> key_f q < KEY_QUEUE_LEN \<and> key_r q < KEY_QUEUE_LEN"

definition key_elems :: "key_queue \<Rightarrow> u32 list" where
  "key_elems q = ring (keys q) (key_f q) (key_r q)"

lemma key_put_ok:
  assumes "keys_ok q" and "length (key_elems q) < KEY_QUEUE_LEN - 1"
  shows "\<exists>q'. key_put k q = Inr q' \<and> keys_ok q' \<and> key_elems q' = key_elems q @ [k]"
proof -
  have r: "length (keys q) = KEY_QUEUE_LEN" "key_f q < length (keys q)" "key_r q < length (keys q)"
    using assms(1) by (simp_all add: keys_ok_def)
  have nf: "(key_r q + 1) mod length (keys q) \<noteq> key_f q"
    using assms(2) ring_len_full [OF r(2,3)] r(1) by (simp add: key_elems_def)
  then show ?thesis
    using r ring_put [OF r(2,3) nf, of k] by (simp add: key_put_def keys_ok_def key_elems_def KEY_QUEUE_LEN_def)
qed

lemma key_get_ok:
  assumes "keys_ok q" and "key_elems q = x # xs"
  shows "\<exists>q'. key_get q = Inr (x, q') \<and> keys_ok q' \<and> key_elems q' = xs"
proof -
  have r: "length (keys q) = KEY_QUEUE_LEN" "key_f q < length (keys q)" "key_r q < length (keys q)"
    using assms(1) by (simp_all add: keys_ok_def)
  have ne: "key_f q \<noteq> key_r q"
  proof
    assume "key_f q = key_r q"
    then show False using assms(2) ring_empty [OF r(2)] by (simp add: key_elems_def)
  qed
  then show ?thesis
    using r ring_get [OF r(2,3) ne] assms(2) by (simp add: key_get_def keys_ok_def key_elems_def KEY_QUEUE_LEN_def)
qed

interpretation key_ring: bounded_fifo keys_ok key_elems "KEY_QUEUE_LEN - 1" key_put key_get
  by unfold_locales (use key_put_ok key_get_ok in blast)+

section \<open>Events under the lock\<close>

text \<open>Between two operations: the ring is well formed, the lock free, the semaphore counts the events.\<close>

definition input_ok :: "('l \<Rightarrow> bool) \<Rightarrow> ('s \<Rightarrow> nat) \<Rightarrow> ('l, 's) input_t \<Rightarrow> bool" where
  "input_ok unheld count inp \<longleftrightarrow> ring_ok inp \<and> unheld (i_lock inp) \<and> count (event_sem inp) = length (in_elems inp)"

lemma ring_part_upd [simp]:
  "ring_ok (inp\<lparr>i_lock := l\<rparr>) = ring_ok inp" "ring_ok (inp\<lparr>event_sem := s\<rparr>) = ring_ok inp"
  "in_elems (inp\<lparr>i_lock := l\<rparr>) = in_elems inp" "in_elems (inp\<lparr>event_sem := s\<rparr>) = in_elems inp"
  by (simp_all add: ring_ok_def in_elems_def)

lemma push_event_ok:
  assumes K: "kmt_ok K unheld count" and ok: "input_ok unheld count inp" and room: "length (in_elems inp) < NEVENTS - 1"
  shows "\<exists>inp'. push_event K ev inp = Inr inp' \<and> input_ok unheld count inp' \<and>
    in_elems inp' = in_elems inp @ [ev] \<and> mods inp' = mods inp"
proof -
  obtain l where l: "k_spin_lock K (i_lock inp) = Inr l" "unheld (k_spin_unlock K l)"
    using K ok by (auto simp: kmt_ok_def input_ok_def)
  have "ring_ok (inp\<lparr>i_lock := l\<rparr>)" using ok by (simp add: input_ok_def)
  then obtain inp' where p: "push_crit ev (inp\<lparr>i_lock := l\<rparr>) = Inr inp'" "ring_ok inp'"
      "in_elems inp' = in_elems inp @ [ev]" "mods inp' = mods inp" "i_lock inp' = l" "event_sem inp' = event_sem inp"
    using push_crit_ok [of "inp\<lparr>i_lock := l\<rparr>" ev] room by auto
  have "count (k_sem_signal K (event_sem inp)) = count (event_sem inp) + 1" using K by (simp add: kmt_ok_def)
  then show ?thesis
    using l p ok by (simp add: push_event_def input_ok_def)
qed

lemma pop_event_ok:
  assumes K: "kmt_ok K unheld count" and ok: "input_ok unheld count inp" and x: "in_elems inp = x # xs"
  shows "\<exists>inp'. pop_event K inp = Inr (x, inp') \<and> input_ok unheld count inp' \<and> in_elems inp' = xs \<and> mods inp' = mods inp"
proof -
  have "0 < count (event_sem inp)" using ok x by (simp add: input_ok_def)
  then obtain s where s: "k_sem_wait K (event_sem inp) = Inr s" "count s + 1 = count (event_sem inp)"
    using K unfolding kmt_ok_def by blast
  obtain l where l: "k_spin_lock K (i_lock inp) = Inr l" "unheld (k_spin_unlock K l)"
    using K ok by (auto simp: kmt_ok_def input_ok_def)
  have "ring_ok (inp\<lparr>event_sem := s, i_lock := l\<rparr>)" using ok by (simp add: input_ok_def)
  then obtain inp' where p: "pop_crit (inp\<lparr>event_sem := s, i_lock := l\<rparr>) = Inr (x, inp')" "ring_ok inp'"
      "in_elems inp' = xs" "mods inp' = mods inp" "i_lock inp' = l" "event_sem inp' = s"
    using pop_crit_ok [of "inp\<lparr>event_sem := s, i_lock := l\<rparr>" x xs] x by auto
  show ?thesis
    using s l p ok x by (simp add: pop_event_def input_ok_def)
qed

section \<open>Properties\<close>

definition ex_input :: "(bool, nat) input_t" where
  "ex_input = \<lparr>i_lock = False, event_sem = 0, events = replicate NEVENTS (event False False 0), front = 120, rear = 120,
     capslock = False, lshift = False, rshift = False, lctrl = False, rctrl = False, lalt = False, ralt = False\<rparr>"

lemma ex_input_ok: "input_ok (\<lambda>l. \<not> l) (\<lambda>s. s) ex_input" and ex_input_empty: "in_elems ex_input = []"
  by (simp_all add: input_ok_def ring_ok_def in_elems_def ex_input_def NEVENTS_def)

text \<open>
  Any interleaving of \<open>push_event\<close> and \<open>pop_event\<close> that keeps from 0 to 127 events in the ring
  runs without a panic and gives the events out in the order they came in, whatever the indices
  were at the start; one more event than 127 panics.
\<close>

theorem input_queue_fifo:
  assumes "ring_ok inp" and "fair_run (NEVENTS - 1) cs (length (in_elems inp))"
  shows "(\<exists>out inp'. run_queue push_crit pop_crit cs inp = Inr (out, inp') \<and> ring_ok inp' \<and>
      out @ in_elems inp' = in_elems inp @ concat (List.map (\<lambda>c. case c of Enq e \<Rightarrow> [e] | Deq \<Rightarrow> []) cs)) \<and>
    (length (in_elems inp) = NEVENTS - 1 \<longrightarrow> push_crit ev inp = Inl Panic)"
  using input_ring.fifo [OF assms] push_crit_full [OF assms(1)] by simp

theorem input_queue_fifo_witness:
  "\<exists>out inp'. run_queue push_crit pop_crit [Enq (event False False 1), Enq (event False False 2), Deq] ex_input = Inr (out, inp') \<and>
     out @ in_elems inp' = [event False False 1, event False False 2]"
proof -
  have "ring_ok ex_input" using ex_input_ok by (simp add: input_ok_def)
  moreover have "fair_run (NEVENTS - 1) [Enq (event False False 1), Enq (event False False 2), Deq] (length (in_elems ex_input))"
    by (simp add: ex_input_empty NEVENTS_def)
  ultimately show ?thesis
    using input_queue_fifo [of ex_input "[Enq (event False False 1), Enq (event False False 2), Deq]"]
    by (auto simp: ex_input_empty)
qed

lemma input_read_ok:
  assumes K: "kmt_ok K unheld count" and ok: "input_ok unheld count inp" and x: "in_elems inp = x # xs"
  shows "\<exists>inp'. input_read K SIZEOF_EVENT inp = Inr (SIZEOF_EVENT, Some x, inp') \<and> input_ok unheld count inp' \<and>
    in_elems inp' = xs \<and> mods inp' = mods inp"
  using pop_event_ok [OF assms] by (auto simp: input_read_def)

text \<open>Reading \<open>n\<close> events one after the other.\<close>

primrec read_events :: "('l, 's) kmt \<Rightarrow> nat \<Rightarrow> ('l, 's) input_t \<Rightarrow> (input_event list \<times> ('l, 's) input_t) res" where
  "read_events K 0 inp = Inr ([], inp)"
| "read_events K (Suc n) inp =
     res_bind (input_read K SIZEOF_EVENT inp) (\<lambda>(r, ev, inp).
     res_bind (read_events K n inp) (\<lambda>(es, inp). Inr (the ev # es, inp)))"

lemma read_events_ok:
  assumes K: "kmt_ok K unheld count"
  shows "input_ok unheld count inp \<Longrightarrow> n = length (in_elems inp) \<Longrightarrow>
    \<exists>inp'. read_events K n inp = Inr (in_elems inp, inp') \<and> input_ok unheld count inp' \<and> in_elems inp' = []"
proof (induction n arbitrary: inp)
  case 0
  then show ?case by simp
next
  case (Suc n)
  then obtain x xs where x: "in_elems inp = x # xs" by (cases "in_elems inp") auto
  obtain inp1 where i: "input_read K SIZEOF_EVENT inp = Inr (SIZEOF_EVENT, Some x, inp1)" "input_ok unheld count inp1"
      "in_elems inp1 = xs"
    using input_read_ok [OF K Suc.prems(1) x] by blast
  then obtain inp' where "read_events K n inp1 = Inr (in_elems inp1, inp')" "input_ok unheld count inp'" "in_elems inp' = []"
    using Suc.IH [OF i(2)] Suc.prems(2) x by auto
  then show ?case using i(1,3) x by auto
qed

text \<open>The key map: its entries are found by the codes of \<open>amdev.h\<close>, which are all different.\<close>

lemma length_AM_KEYS: "length AM_KEYS = 82"
  by (simp add: AM_KEYS_def)

lemma index_of_pos: "x \<in> set xs \<Longrightarrow> 0 < index_of x xs \<and> index_of x xs \<le> length xs"
  by (induction xs) (auto split: nat.splits)

lemma index_of_inj: "x \<in> set xs \<Longrightarrow> index_of x xs = index_of y xs \<Longrightarrow> x = y"
  by (induction xs) (auto dest: index_of_pos split: nat.splits if_splits)

lemma keymap_init_keys: "distinct (List.map fst keymap_init)" "list_all (\<lambda>k. k \<in> set AM_KEYS) (List.map fst keymap_init)"
  by (simp_all add: keymap_init_def) (simp add: AM_KEYS_def)

lemma find_key:
  "distinct (List.map fst es) \<Longrightarrow> \<forall>k \<in> set (List.map fst es). k \<in> set AM_KEYS \<Longrightarrow> (k, a, b) \<in> set es \<Longrightarrow>
    List.find (\<lambda>(k', _, _). AM_KEY k' = AM_KEY k) es = Some (k, a, b)"
proof (induction es)
  case Nil
  then show ?case by simp
next
  case (Cons e es)
  obtain k1 a1 b1 where e: "e = (k1, a1, b1)" by (cases e)
  show ?case
  proof (cases "k1 = k")
    case True
    then have "(k, a, b) \<notin> set es" using Cons.prems(1) e by force
    then show ?thesis using True Cons.prems(3) e by simp
  next
    case False
    then have "index_of k1 AM_KEYS \<noteq> index_of k AM_KEYS" using index_of_inj [of k1] Cons.prems(2) e by auto
    then show ?thesis using False Cons e by (simp add: AM_KEY_def)
  qed
qed

lemma keymap_entry:
  assumes "(k, a, b) \<in> set keymap_init"
  shows "k \<in> set AM_KEYS \<and> keymap (AM_KEY k) = Inr (chr a, chr b)"
proof -
  have ks: "\<forall>k \<in> set (List.map fst keymap_init). k \<in> set AM_KEYS"
    using keymap_init_keys by (auto simp: list_all_iff)
  then have k: "k \<in> set AM_KEYS" using assms by force
  then have "index_of k AM_KEYS \<le> 82" using index_of_pos [OF k] length_AM_KEYS by simp
  then show ?thesis
    using find_key [OF keymap_init_keys(1) ks assms] k by (simp add: keymap_def AM_KEY_def)
qed

lemma letter_pairs:
  "list_all (\<lambda>(d, c). ([c], d, c) \<in> set keymap_init) (zip ''abcdefghijklmnopqrstuvwxyz'' ''ABCDEFGHIJKLMNOPQRSTUVWXYZ'')"
  "list_all (\<lambda>(d, c). chr d = chr c + 32) (zip ''abcdefghijklmnopqrstuvwxyz'' ''ABCDEFGHIJKLMNOPQRSTUVWXYZ'')"
  by (simp_all add: keymap_init_def chr_def)

lemma letter_entry:
  assumes "c \<in> set ''ABCDEFGHIJKLMNOPQRSTUVWXYZ''"
  shows "\<exists>d. ([c], d, c) \<in> set keymap_init \<and> chr d = chr c + 32"
proof -
  obtain i where i: "i < length ''ABCDEFGHIJKLMNOPQRSTUVWXYZ''" "''ABCDEFGHIJKLMNOPQRSTUVWXYZ'' ! i = c"
    using assms by (meson in_set_conv_nth)
  let ?d = "''abcdefghijklmnopqrstuvwxyz'' ! i"
  have "(?d, c) \<in> set (zip ''abcdefghijklmnopqrstuvwxyz'' ''ABCDEFGHIJKLMNOPQRSTUVWXYZ'')"
    using i unfolding in_set_zip by (intro exI [of _ i]) simp
  then show ?thesis using letter_pairs unfolding list_all_iff by blast
qed

lemma keymap_letters:
  assumes c: "c \<in> set ''ABCDEFGHIJKLMNOPQRSTUVWXYZ''"
  shows "keymap (AM_KEY [c]) = Inr (chr c + 32, chr c) \<and> chr (CHR ''a'') \<le> chr c + 32 \<and> chr c + 32 \<le> chr (CHR ''z'') \<and>
     AM_KEY [c] \<noteq> 0 \<and>
     AM_KEY [c] \<notin> set (List.map AM_KEY [''CAPSLOCK'', ''LCTRL'', ''RCTRL'', ''LALT'', ''RALT'', ''LSHIFT'', ''RSHIFT''])"
proof -
  obtain d where m: "([c], d, c) \<in> set keymap_init" "chr d = chr c + 32" using letter_entry [OF c] by blast
  have k: "[c] \<in> set AM_KEYS" "keymap (AM_KEY [c]) = Inr (chr c + 32, chr c)"
    using keymap_entry [OF m(1)] m(2) by simp_all
  have r: "chr (CHR ''a'') \<le> chr c + 32" "chr c + 32 \<le> chr (CHR ''z'')"
    using c by (auto simp: chr_def)
  have "AM_KEY [c] \<notin> set (List.map AM_KEY [''CAPSLOCK'', ''LCTRL'', ''RCTRL'', ''LALT'', ''RALT'', ''LSHIFT'', ''RSHIFT''])"
    using index_of_inj [OF k(1)] by (auto simp: AM_KEY_def)
  then show ?thesis using k r index_of_pos [OF k(1)] by (simp add: AM_KEY_def)
qed

text \<open>A letter key without Ctrl and Alt: Shift and Caps Lock together choose the case.\<close>

definition upper :: "('l, 's) input_t \<Rightarrow> bool" where
  "upper inp \<longleftrightarrow> (lshift inp \<or> rshift inp) \<noteq> capslock inp"

lemma letter_down:
  assumes "c \<in> set ''ABCDEFGHIJKLMNOPQRSTUVWXYZ''"
    and "\<not> lctrl inp" "\<not> rctrl inp" "\<not> lalt inp" "\<not> ralt inp"
  shows "input_keydown K True (AM_KEY [c]) inp =
    push_event K (event False False (if upper inp then chr c else chr c + 32)) inp"
proof -
  have k: "keymap (AM_KEY [c]) = Inr (chr c + 32, chr c)" "chr (CHR ''a'') \<le> chr c + 32" "chr c + 32 \<le> chr (CHR ''z'')"
      "AM_KEY [c] \<notin> set (List.map AM_KEY [''CAPSLOCK'', ''LCTRL'', ''RCTRL'', ''LALT'', ''RALT'', ''LSHIFT'', ''RSHIFT''])"
    using keymap_letters [OF assms(1)] by blast+
  have "0 < chr (CHR ''a'')" by (simp add: chr_def)
  then have "chr c + 32 \<noteq> 0" using k(2) by (metis not_le word_le_0_iff)
  then show ?thesis
    using k assms(2-5) by (simp add: input_keydown_def upper_def Let_def)
qed

lemma letter_up:
  assumes "c \<in> set ''ABCDEFGHIJKLMNOPQRSTUVWXYZ''"
  shows "input_keydown K False (AM_KEY [c]) inp = Inr inp"
  using keymap_letters [OF assms] by (simp add: input_keydown_def)

text \<open>What the keyboard delivers when the letter keys of \<open>cs\<close> are hit one after the other.\<close>

definition typing :: "string \<Rightarrow> (bool \<times> int) list" where
  "typing cs = concat (List.map (\<lambda>c. [(True, AM_KEY [c]), (False, AM_KEY [c])]) cs)"

definition typed :: "bool \<Rightarrow> string \<Rightarrow> input_event list" where
  "typed up cs = List.map (\<lambda>c. event False False (if up then chr c else chr c + 32)) cs"

lemma drain_typing:
  assumes K: "kmt_ok K unheld count"
  shows "set cs \<subseteq> set ''ABCDEFGHIJKLMNOPQRSTUVWXYZ'' \<Longrightarrow> input_ok unheld count inp \<Longrightarrow>
    length (in_elems inp) + length cs \<le> NEVENTS - 1 \<Longrightarrow> \<not> lctrl inp \<and> \<not> rctrl inp \<and> \<not> lalt inp \<and> \<not> ralt inp \<Longrightarrow>
    \<exists>inp'. drain_keys K (typing cs) inp = Inr inp' \<and> input_ok unheld count inp' \<and>
      in_elems inp' = in_elems inp @ typed (upper inp) cs \<and> mods inp' = mods inp"
proof (induction cs arbitrary: inp)
  case Nil
  then show ?case by (simp add: typing_def typed_def)
next
  case (Cons c cs)
  have c: "c \<in> set ''ABCDEFGHIJKLMNOPQRSTUVWXYZ''" using Cons.prems(1) by simp
  let ?ev = "event False False (if upper inp then chr c else chr c + 32)"
  obtain inp1 where i: "push_event K ?ev inp = Inr inp1" "input_ok unheld count inp1"
      "in_elems inp1 = in_elems inp @ [?ev]" "mods inp1 = mods inp"
    using push_event_ok [OF K Cons.prems(2), of ?ev] Cons.prems(3) by auto
  have m: "\<not> lctrl inp1 \<and> \<not> rctrl inp1 \<and> \<not> lalt inp1 \<and> \<not> ralt inp1" "upper inp1 = upper inp"
    using i(4) Cons.prems(4) by (simp_all add: mods_def upper_def)
  have "drain_keys K (typing (c # cs)) inp = drain_keys K (typing cs) inp1"
    using letter_down [OF c, of inp K] letter_up [OF c, of K inp1] Cons.prems(4) i(1) keymap_letters [OF c]
    by (simp add: typing_def)
  moreover have "\<exists>inp'. drain_keys K (typing cs) inp1 = Inr inp' \<and> input_ok unheld count inp' \<and>
      in_elems inp' = in_elems inp1 @ typed (upper inp1) cs \<and> mods inp' = mods inp1"
    using Cons.prems(1,3) i(2,3) m(1) by (intro Cons.IH) auto
  ultimately show ?case using i(3,4) m(2) by (auto simp: typed_def)
qed

text \<open>
  Typing. With any \<open>kmt\<close> that keeps its promises and neither Ctrl nor Alt held, hitting letter
  keys and reading the device gives the letters back in order, in upper case exactly when one of
  Shift and Caps Lock is on, behind the events that were waiting; lock, semaphore and ring agree
  again at the end.
\<close>

theorem typing_reads_back:
  assumes "kmt_ok K unheld count" and "input_ok unheld count inp" and "set cs \<subseteq> set ''ABCDEFGHIJKLMNOPQRSTUVWXYZ''"
    and "length (in_elems inp) + length cs \<le> NEVENTS - 1" and "\<not> lctrl inp \<and> \<not> rctrl inp \<and> \<not> lalt inp \<and> \<not> ralt inp"
  shows "\<exists>inp1 inp2. drain_keys K (typing cs) inp = Inr inp1 \<and>
    read_events K (length (in_elems inp) + length cs) inp1 = Inr (in_elems inp @ typed (upper inp) cs, inp2) \<and>
    input_ok unheld count inp2 \<and> in_elems inp2 = []"
proof -
  obtain inp1 where i: "drain_keys K (typing cs) inp = Inr inp1" "input_ok unheld count inp1"
      "in_elems inp1 = in_elems inp @ typed (upper inp) cs"
    using drain_typing [OF assms(1,3,2,4,5)] by blast
  then show ?thesis
    using read_events_ok [OF assms(1) i(2), of "length (in_elems inp) + length cs"] by (auto simp: typed_def)
qed

theorem typing_reads_back_witness:
  "\<exists>inp1 inp2. drain_keys plain_kmt (typing ''HI'') ex_input = Inr inp1 \<and>
     read_events plain_kmt 2 inp1 = Inr ([event False False 104, event False False 105], inp2)"
proof -
  have "\<not> lctrl ex_input \<and> \<not> rctrl ex_input \<and> \<not> lalt ex_input \<and> \<not> ralt ex_input" "\<not> upper ex_input"
    by (simp_all add: ex_input_def upper_def)
  moreover have "typed False ''HI'' = [event False False 104, event False False 105]" by (simp add: typed_def chr_def)
  ultimately show ?thesis
    using typing_reads_back [OF plain_kmt_ok ex_input_ok, of "''HI''"] by (auto simp: ex_input_empty NEVENTS_def numeral_2_eq_2)
qed

text \<open>
  The native key queue keeps up to 1023 events in order and gives each key code below 0x8000
  back with its direction; the 1024th event, which nothing checks for, empties the queue: all the
  events that were waiting are lost.
\<close>

theorem native_key_queue:
  assumes "keys_ok q"
  shows "(key_elems q = [] \<and> code < KEYDOWN_MASK \<and> code \<noteq> 0 \<longrightarrow>
      (\<exists>q1 q2. key_event code down q = Inr q1 \<and> am_input_keybrd q1 = Inr (down, code, q2) \<and> key_elems q2 = [])) \<and>
    (fair_run (KEY_QUEUE_LEN - 1) cs (length (key_elems q)) \<longrightarrow>
      (\<exists>out q'. run_queue key_put key_get cs q = Inr (out, q') \<and>
        out @ key_elems q' = key_elems q @ concat (List.map (\<lambda>c. case c of Enq e \<Rightarrow> [e] | Deq \<Rightarrow> []) cs))) \<and>
    (length (key_elems q) = KEY_QUEUE_LEN - 1 \<longrightarrow> (\<exists>q'. key_put k q = Inr q' \<and> keys_ok q' \<and> key_elems q' = []))"
proof (intro conjI impI)
  assume e: "key_elems q = [] \<and> code < KEYDOWN_MASK \<and> code \<noteq> 0"
  let ?k = "code OR (if down then KEYDOWN_MASK else 0)"
  obtain q1 where q1: "key_put ?k q = Inr q1" "keys_ok q1" "key_elems q1 = [?k]"
    using key_put_ok [OF assms, of ?k] e by (auto simp: KEY_QUEUE_LEN_def)
  obtain q2 where q2: "key_get q1 = Inr (?k, q2)" "key_elems q2 = []" using key_get_ok [OF q1(2,3)] by blast
  have low: "\<not> bit code 15"
  proof
    assume "bit code 15"
    then have "bit (unat code) 15" by (simp add: bit_unsigned_iff)
    then have "odd (unat code div 2 ^ 15)" by (rule bit_iff_odd [THEN iffD1])
    moreover have "unat code div 2 ^ 15 = 0" using e by (simp add: KEYDOWN_MASK_def word_less_nat_alt)
    ultimately show False by (metis even_zero)
  qed
  have mask: "bit KEYDOWN_MASK n \<longleftrightarrow> n = 15" for n
  proof -
    have K: "KEYDOWN_MASK = (2 :: u32) ^ 15" by (simp add: KEYDOWN_MASK_def)
    have "bit ((2 :: u32) ^ 15) n \<longleftrightarrow> n = 15" by (subst bit_exp_iff) auto
    then show ?thesis by (subst K)
  qed
  have "(?k AND KEYDOWN_MASK \<noteq> 0) = down" "?k AND NOT KEYDOWN_MASK = code"
  proof -
    have "code AND KEYDOWN_MASK = 0" by (rule bit_word_eqI) (auto simp: bit_simps mask low)
    moreover have "KEYDOWN_MASK \<noteq> 0" by (simp add: KEYDOWN_MASK_def)
    ultimately show "(?k AND KEYDOWN_MASK \<noteq> 0) = down" by (simp add: bit.conj_disj_distrib2)
    show "?k AND NOT KEYDOWN_MASK = code" by (rule bit_word_eqI) (auto simp: bit_simps mask low)
  qed
  then show "\<exists>q1 q2. key_event code down q = Inr q1 \<and> am_input_keybrd q1 = Inr (down, code, q2) \<and> key_elems q2 = []"
    using q1(1) q2 e by (auto simp: key_event_def am_input_keybrd_def)
next
  assume "fair_run (KEY_QUEUE_LEN - 1) cs (length (key_elems q))"
  from key_ring.fifo [OF assms this] show "\<exists>out q'. run_queue key_put key_get cs q = Inr (out, q') \<and>
      out @ key_elems q' = key_elems q @ concat (List.map (\<lambda>c. case c of Enq e \<Rightarrow> [e] | Deq \<Rightarrow> []) cs)"
    by blast
next
  assume full: "length (key_elems q) = KEY_QUEUE_LEN - 1"
  have r: "length (keys q) = KEY_QUEUE_LEN" "key_f q < length (keys q)" "key_r q < length (keys q)"
    using assms by (simp_all add: keys_ok_def)
  have "(key_r q + 1) mod KEY_QUEUE_LEN = key_f q"
    using full ring_len_full [OF r(2,3)] r(1) by (simp add: key_elems_def KEY_QUEUE_LEN_def)
  then show "\<exists>q'. key_put k q = Inr q' \<and> keys_ok q' \<and> key_elems q' = []"
    using r by (simp add: key_put_def keys_ok_def key_elems_def)
qed

theorem native_key_queue_witness:
  "\<exists>q1 q2. key_event 43 True \<lparr>keys = replicate 1024 0, key_f = 1023, key_r = 1023\<rparr> = Inr q1 \<and>
     am_input_keybrd q1 = Inr (True, 43, q2)"
proof -
  let ?q = "\<lparr>keys = replicate 1024 0, key_f = 1023, key_r = 1023\<rparr>"
  have "keys_ok ?q" "key_elems ?q = []" by (simp_all add: keys_ok_def key_elems_def KEY_QUEUE_LEN_def)
  moreover have "(43 :: u32) < KEYDOWN_MASK \<and> (43 :: u32) \<noteq> 0" by (simp add: KEYDOWN_MASK_def)
  ultimately show ?thesis using conjunct1 [OF native_key_queue [of ?q 43 True]] by blast
qed

end
