(* ===== verification/Dev_Line.thy ===== *)
theory Dev_Line
  imports Fifo_Spec Kmt
begin

text \<open>
  The line buffer of the terminal, \<open>kernel/src/dev/dev_tty.c\<close>: \<open>tty_enqueue\<close>,
  \<open>tty_pop_back\<close>, \<open>tty_cook\<close> and \<open>tty_read\<close>, and the line discipline they
  implement: a list of finished lines and the line being typed.
\<close>

section \<open>The queue\<close>

text \<open>The pointers are places in \<open>qbuf\<close>; \<open>end\<close> is its length.\<close>

record tty_queue =
  qbuf :: "u8 list"
  qfront :: nat
  qrear :: nat

definition TTY_COOK_BUF_SZ :: nat where
  "TTY_COOK_BUF_SZ = 1024"

definition tty_enqueue :: "u8 \<Rightarrow> tty_queue \<Rightarrow> tty_queue res" where
  "tty_enqueue ch q =
     res_bind (guard BadAccess (qrear q < length (qbuf q))) (\<lambda>_.
     let q = q\<lparr>qbuf := (qbuf q)[qrear q := ch], qrear := qrear q + 1\<rparr>;
         q = (if qrear q = length (qbuf q) then q\<lparr>qrear := 0\<rparr> else q)
     in res_bind (guard Panic (qrear q \<noteq> qfront q)) (\<lambda>_.
          Inr (q\<lparr>qbuf := (qbuf q)[qrear q := 0]\<rparr>)))"

definition tty_pop_back :: "tty_queue \<Rightarrow> (int \<times> tty_queue) res" where
  "tty_pop_back q =
     (if qfront q \<noteq> length (qbuf q) then
        let pos = (if qrear q = 0 then length (qbuf q) else qrear q)
        in res_bind (guard BadAccess (0 < pos \<and> pos - 1 < length (qbuf q))) (\<lambda>_.
             if qbuf q ! (pos - 1) \<noteq> 0
             then Inr (0, q\<lparr>qrear := pos - 1, qbuf := (qbuf q)[pos - 1 := 0]\<rparr>)
             else Inr (1, q))
      else Inr (1, q))"

text \<open>\<open>*q->front\<close> and the step of \<open>q->front\<close> in the loop of \<open>tty_read\<close>.\<close>

definition tty_dequeue :: "tty_queue \<Rightarrow> (u8 \<times> tty_queue) res" where
  "tty_dequeue q =
     res_bind (guard BadAccess (qfront q < length (qbuf q))) (\<lambda>_.
     let ch = qbuf q ! qfront q;
         q = q\<lparr>qfront := qfront q + 1\<rparr>;
         q = (if qfront q = length (qbuf q) then q\<lparr>qfront := 0\<rparr> else q)
     in Inr (ch, q))"

text \<open>
  The loop of \<open>tty_read\<close>: it stops at the first 0. A buffer that has no 0 is read round and round
  for ever; the fuel is the buffer's length, after which everything has been seen. \<open>out\<close> is
  what has been stored in the caller's buffer, \<open>nread\<close> its length.
\<close>

fun tty_read_loop :: "nat \<Rightarrow> int \<Rightarrow> u8 list \<Rightarrow> tty_queue \<Rightarrow> (u8 list \<times> tty_queue) res" where
  "tty_read_loop 0 count out q = Inl OutOfFuel"
| "tty_read_loop (Suc fuel) count out q =
     res_bind (tty_dequeue q) (\<lambda>(ch, q).
       let out = (if int (length out) < count \<and> ch \<noteq> 0 then out @ [ch] else out)
       in if ch = 0 then Inr (out, q) else tty_read_loop fuel count out q)"

section \<open>The terminal's input side\<close>

text \<open>The fields of \<open>tty_t\<close> its reader and its cook share; the lock is a semaphore of value 1.\<close>

record 's tty_in =
  t_lock :: 's
  cooked :: 's
  queue :: tty_queue

definition tty_cook :: "('l, 's) kmt \<Rightarrow> u8 \<Rightarrow> ('s, 'a) tty_in_scheme \<Rightarrow> (int \<times> ('s, 'a) tty_in_scheme) res" where
  "tty_cook K ch tty =
     res_bind (k_sem_wait K (t_lock tty)) (\<lambda>l.
     let tty = tty\<lparr>t_lock := l\<rparr> in
     res_bind
       (if ch = 10 then
          res_bind (tty_enqueue ch (queue tty)) (\<lambda>q.
          res_bind (tty_enqueue 0 q) (\<lambda>q.
            Inr (0, tty\<lparr>queue := q, cooked := k_sem_signal K (cooked tty)\<rparr>)))
        else if ch = 8 then
          res_bind (tty_pop_back (queue tty)) (\<lambda>(ret, q). Inr (ret, tty\<lparr>queue := q\<rparr>))
        else res_bind (tty_enqueue ch (queue tty)) (\<lambda>q. Inr (0, tty\<lparr>queue := q\<rparr>)))
       (\<lambda>(ret, tty). Inr (ret, tty\<lparr>t_lock := k_sem_signal K (t_lock tty)\<rparr>)))"

definition tty_read :: "('l, 's) kmt \<Rightarrow> int \<Rightarrow> ('s, 'a) tty_in_scheme \<Rightarrow> (int \<times> u8 list \<times> ('s, 'a) tty_in_scheme) res" where
  "tty_read K count tty =
     res_bind (k_sem_wait K (cooked tty)) (\<lambda>c.
     let tty = tty\<lparr>cooked := c\<rparr> in
     res_bind (k_sem_wait K (t_lock tty)) (\<lambda>l.
     let tty = tty\<lparr>t_lock := l\<rparr> in
     res_bind (tty_read_loop (length (qbuf (queue tty))) count [] (queue tty)) (\<lambda>(out, q).
       Inr (int (length out), out, tty\<lparr>queue := q, t_lock := k_sem_signal K (t_lock tty)\<rparr>))))"

section \<open>The queue as a ring\<close>

definition tq_ok :: "tty_queue \<Rightarrow> bool" where
  "tq_ok q \<longleftrightarrow> length (qbuf q) = TTY_COOK_BUF_SZ \<and> qfront q < TTY_COOK_BUF_SZ \<and> qrear q < TTY_COOK_BUF_SZ"

definition tq_elems :: "tty_queue \<Rightarrow> u8 list" where
  "tq_elems q = ring (qbuf q) (qfront q) (qrear q)"

text \<open>The slot before place \<open>i\<close>; \<open>tty_pop_back\<close> looks at the one before \<open>rear\<close>.\<close>

definition slot_before :: "nat \<Rightarrow> nat" where
  "slot_before i = (if i = 0 then TTY_COOK_BUF_SZ else i) - 1"

lemma tq_len: "0 < TTY_COOK_BUF_SZ" "1 < TTY_COOK_BUF_SZ"
  by (simp_all add: TTY_COOK_BUF_SZ_def)

lemma tty_enqueue_eq:
  assumes "tq_ok q" and "length (tq_elems q) < TTY_COOK_BUF_SZ - 1"
  defines "r \<equiv> (qrear q + 1) mod TTY_COOK_BUF_SZ"
  shows "tty_enqueue ch q = Inr (q\<lparr>qbuf := (qbuf q)[qrear q := ch, r := 0], qrear := r\<rparr>)"
    and "r \<noteq> qfront q"
proof -
  have q: "length (qbuf q) = TTY_COOK_BUF_SZ" "qfront q < TTY_COOK_BUF_SZ" "qrear q < TTY_COOK_BUF_SZ"
    using assms(1) by (simp_all add: tq_ok_def)
  show ne: "r \<noteq> qfront q"
    using ring_len_full [OF q(2,3)] assms(2) q(1) by (auto simp: r_def tq_elems_def)
  have "r = (if qrear q + 1 = TTY_COOK_BUF_SZ then 0 else qrear q + 1)"
    using next_slot [OF q(3)] by (simp add: r_def)
  then show "tty_enqueue ch q = Inr (q\<lparr>qbuf := (qbuf q)[qrear q := ch, r := 0], qrear := r\<rparr>)"
    using ne q by (auto simp: tty_enqueue_def Let_def split: if_splits)
qed

lemma slot_before_next: "i < TTY_COOK_BUF_SZ \<Longrightarrow> slot_before ((i + 1) mod TTY_COOK_BUF_SZ) = i"
  using tq_len by (auto simp: slot_before_def mod_Suc)

lemma next_slot_before: "i < TTY_COOK_BUF_SZ \<Longrightarrow> (slot_before i + 1) mod TTY_COOK_BUF_SZ = i"
  using tq_len by (auto simp: slot_before_def)

lemma slot_before_less [simp]: "i < TTY_COOK_BUF_SZ \<Longrightarrow> slot_before i < TTY_COOK_BUF_SZ"
  using tq_len by (auto simp: slot_before_def)

lemma ring_update_rear:
  assumes "front < length buf" and "rear < length buf"
  shows "ring (buf[rear := x]) front rear = ring buf front rear"
proof -
  let ?n = "length buf" and ?k = "ring_len (length buf) front rear"
  have k: "?k < ?n" using assms by (simp add: ring_len_cases) linarith
  have "(front + i) mod ?n \<noteq> rear" if "i < ?k" for i
    using ring_slot_inject [of front ?n i ?k] rear_slot [OF assms] that k assms(1) by auto
  then have "buf[rear := x] ! ((front + i) mod ?n) = buf ! ((front + i) mod ?n)" if "i < ?k" for i
    using that by (metis nth_list_update_neq)
  then show ?thesis by (simp add: ring_def)
qed

text \<open>The slot before the front stays 0: \<open>tty_pop_back\<close> relies on it when the queue is empty.\<close>

definition front_guarded :: "tty_queue \<Rightarrow> bool" where
  "front_guarded q \<longleftrightarrow> qbuf q ! slot_before (qfront q) = 0"

lemma tq_okD:
  assumes "tq_ok q"
  shows "length (qbuf q) = TTY_COOK_BUF_SZ" "qfront q < TTY_COOK_BUF_SZ" "qrear q < TTY_COOK_BUF_SZ"
  using assms by (simp_all add: tq_ok_def)

lemma tty_enqueue_ok:
  assumes ok: "tq_ok q" and room: "length (tq_elems q) < TTY_COOK_BUF_SZ - 1"
  shows "\<exists>q'. tty_enqueue ch q = Inr q' \<and> tq_ok q' \<and> tq_elems q' = tq_elems q @ [ch] \<and>
    (front_guarded q \<longrightarrow> front_guarded q')"
proof -
  note q = tq_okD [OF ok]
  let ?r = "(qrear q + 1) mod TTY_COOK_BUF_SZ"
  let ?q = "q\<lparr>qbuf := (qbuf q)[qrear q := ch, ?r := 0], qrear := ?r\<rparr>"
  have ne: "?r \<noteq> qfront q" by (rule tty_enqueue_eq(2) [OF ok room])
  have "?r < TTY_COOK_BUF_SZ" using tq_len(1) by simp
  then have "tq_elems ?q = tq_elems q @ [ch]"
    using ring_update_rear [of "qfront q" "(qbuf q)[qrear q := ch]" ?r 0]
      ring_put [of "qfront q" "qbuf q" "qrear q" ch] q ne by (simp add: tq_elems_def)
  moreover have "tq_ok ?q" using q tq_len(1) by (simp add: tq_ok_def)
  moreover have "qrear q \<noteq> slot_before (qfront q)" using next_slot_before [OF q(2)] ne by auto
  then have "front_guarded q \<longrightarrow> front_guarded ?q"
    using q tq_len(1) by (simp add: front_guarded_def nth_list_update)
  ultimately show ?thesis using tty_enqueue_eq(1) [OF ok room, of ch] by blast
qed

lemma tty_dequeue_ok:
  assumes ok: "tq_ok q" and x: "tq_elems q = x # xs"
  shows "\<exists>q'. tty_dequeue q = Inr (x, q') \<and> tq_ok q' \<and> tq_elems q' = xs \<and> qbuf q' = qbuf q \<and> (x = 0 \<longrightarrow> front_guarded q')"
proof -
  note q = tq_okD [OF ok]
  let ?f = "(qfront q + 1) mod TTY_COOK_BUF_SZ"
  have "qfront q \<noteq> qrear q" using x q by (auto simp: tq_elems_def)
  then have e: "qbuf q ! qfront q = x" "ring (qbuf q) ?f (qrear q) = xs"
    using ring_get [of "qfront q" "qbuf q" "qrear q"] x q by (simp_all add: tq_elems_def)
  have f: "?f = (if qfront q + 1 = TTY_COOK_BUF_SZ then 0 else qfront q + 1)" using next_slot [OF q(2)] by simp
  have "tty_dequeue q = Inr (x, q\<lparr>qfront := ?f\<rparr>)"
    using q e(1) by (auto simp: tty_dequeue_def Let_def f)
  moreover have "tq_ok (q\<lparr>qfront := ?f\<rparr>)" using q tq_len(1) by (simp add: tq_ok_def)
  moreover have "front_guarded (q\<lparr>qfront := ?f\<rparr>) \<longleftrightarrow> x = 0"
    using slot_before_next [OF q(2)] e(1) by (simp add: front_guarded_def)
  ultimately show ?thesis using e(2) by (auto simp: tq_elems_def)
qed

interpretation line_ring: bounded_fifo tq_ok tq_elems "TTY_COOK_BUF_SZ - 1" tty_enqueue tty_dequeue
  by unfold_locales (use tty_enqueue_ok tty_dequeue_ok in blast)+

lemma tty_pop_back_eq:
  assumes "tq_ok q"
  shows "tty_pop_back q =
    (if qbuf q ! slot_before (qrear q) \<noteq> 0
     then Inr (0, q\<lparr>qrear := slot_before (qrear q), qbuf := (qbuf q)[slot_before (qrear q) := 0]\<rparr>)
     else Inr (1, q))"
  using tq_okD [OF assms] tq_len(1) by (auto simp: tty_pop_back_def slot_before_def Let_def)

lemma last_slot:
  assumes ok: "tq_ok q" and x: "tq_elems q = xs @ [x]"
  shows "qbuf q ! slot_before (qrear q) = x"
    and "tq_elems (q\<lparr>qrear := slot_before (qrear q), qbuf := (qbuf q)[slot_before (qrear q) := 0]\<rparr>) = xs"
proof -
  note q = tq_okD [OF ok]
  let ?s = "slot_before (qrear q)"
  have s: "?s < TTY_COOK_BUF_SZ" "(?s + 1) mod TTY_COOK_BUF_SZ = qrear q" using q next_slot_before by simp_all
  have "qfront q \<noteq> qrear q" using x q by (auto simp: tq_elems_def)
  then have "ring ((qbuf q)[?s := 0, ?s := qbuf q ! ?s]) (qfront q) (qrear q) =
      ring ((qbuf q)[?s := 0]) (qfront q) ?s @ [qbuf q ! ?s]"
    using ring_put [of "qfront q" "(qbuf q)[?s := 0]" ?s "qbuf q ! ?s"] q s by simp
  then have "tq_elems q = ring ((qbuf q)[?s := 0]) (qfront q) ?s @ [qbuf q ! ?s]" by (simp add: tq_elems_def)
  then show "qbuf q ! ?s = x" "tq_elems (q\<lparr>qrear := ?s, qbuf := (qbuf q)[?s := 0]\<rparr>) = xs"
    using x by (simp_all add: tq_elems_def)
qed

lemma tty_pop_back_some:
  assumes ok: "tq_ok q" and g: "front_guarded q" and x: "tq_elems q = xs @ [x]" and nz: "x \<noteq> 0"
  shows "\<exists>q'. tty_pop_back q = Inr (0, q') \<and> tq_ok q' \<and> front_guarded q' \<and> tq_elems q' = xs"
proof -
  note q = tq_okD [OF ok]
  let ?q = "q\<lparr>qrear := slot_before (qrear q), qbuf := (qbuf q)[slot_before (qrear q) := 0]\<rparr>"
  have "tq_ok ?q" "front_guarded ?q"
    using q g by (simp_all add: tq_ok_def front_guarded_def nth_list_update)
  then show ?thesis using tty_pop_back_eq [OF ok] last_slot [OF ok x] nz by simp
qed

lemma tty_pop_back_none:
  assumes ok: "tq_ok q" and g: "front_guarded q" and e: "tq_elems q = [] \<or> last (tq_elems q) = 0"
  shows "tty_pop_back q = Inr (1, q)"
proof (cases "tq_elems q" rule: rev_cases)
  case Nil
  note q = tq_okD [OF ok]
  have "ring_len TTY_COOK_BUF_SZ (qfront q) (qrear q) = 0"
    using arg_cong [OF Nil, of length] q by (simp add: tq_elems_def)
  then have "qrear q = qfront q" using q rear_slot [of "qfront q" TTY_COOK_BUF_SZ "qrear q"] by simp
  then show ?thesis using tty_pop_back_eq [OF ok] g by (simp add: front_guarded_def)
next
  case (snoc xs x)
  then show ?thesis using tty_pop_back_eq [OF ok] last_slot(1) [OF ok snoc] e by simp
qed

section \<open>The line discipline\<close>

text \<open>
  Finished lines, and the line being typed. Return finishes a line, backspace takes back the last
  character of the line being typed and reports whether there was one.
\<close>

type_synonym line_state = "u8 list list \<times> u8 list"

definition ld_cook :: "u8 \<Rightarrow> line_state \<Rightarrow> int \<times> line_state" where
  "ld_cook ch = (\<lambda>(ds, cur).
     if ch = 10 then (0, ds @ [cur @ [10]], [])
     else if ch = 8 then (if cur = [] then (1, ds, cur) else (0, ds, butlast cur))
     else (0, ds, cur @ [ch]))"

definition ld_read :: "int \<Rightarrow> line_state \<Rightarrow> u8 list \<times> line_state" where
  "ld_read count = (\<lambda>(ds, cur). (take (nat count) (List.hd ds), (tl ds, cur)))"

text \<open>How a state lies in the queue: each finished line with a 0 behind it.\<close>

definition ld_bytes :: "line_state \<Rightarrow> u8 list" where
  "ld_bytes = (\<lambda>(ds, cur). concat (List.map (\<lambda>l. l @ [0]) ds) @ cur)"

definition line_ok :: "tty_queue \<Rightarrow> line_state \<Rightarrow> bool" where
  "line_ok q st \<longleftrightarrow> tq_ok q \<and> front_guarded q \<and> tq_elems q = ld_bytes st \<and>
     0 \<notin> set (snd st) \<and> (\<forall>l \<in> set (fst st). 0 \<notin> set l)"

lemma tty_read_loop_ok:
  "tq_ok q \<Longrightarrow> tq_elems q = l @ 0 # rest \<Longrightarrow> 0 \<notin> set l \<Longrightarrow> length l < fuel \<Longrightarrow>
   \<exists>q'. tty_read_loop fuel count out q = Inr (out @ take (nat count - length out) l, q') \<and>
     tq_ok q' \<and> tq_elems q' = rest \<and> qbuf q' = qbuf q \<and> front_guarded q'"
proof (induction l arbitrary: fuel out q)
  case Nil
  obtain q' where "tty_dequeue q = Inr (0, q')" "tq_ok q'" "tq_elems q' = rest" "qbuf q' = qbuf q" "front_guarded q'"
    using tty_dequeue_ok [OF Nil(1), of 0 rest] Nil(2) by auto
  then show ?case using Nil(4) by (cases fuel) auto
next
  case (Cons x l)
  obtain q' where q': "tty_dequeue q = Inr (x, q')" "tq_ok q'" "tq_elems q' = l @ 0 # rest" "qbuf q' = qbuf q"
    using tty_dequeue_ok [OF Cons.prems(1), of x "l @ 0 # rest"] Cons.prems(2) by auto
  obtain f where f: "fuel = Suc f" "length l < f" using Cons.prems(4) by (cases fuel) auto
  let ?out = "if int (length out) < count then out @ [x] else out"
  obtain q'' where "tty_read_loop f count ?out q' = Inr (?out @ take (nat count - length ?out) l, q'')"
      "tq_ok q''" "tq_elems q'' = rest" "qbuf q'' = qbuf q'" "front_guarded q''"
    using Cons.IH [OF q'(2,3), of f ?out] Cons.prems(3) f(2) by auto
  moreover have "?out @ take (nat count - length ?out) l = out @ take (nat count - length out) (x # l)"
  proof (cases "int (length out) < count")
    case True
    then have "nat count - length out = Suc (nat count - Suc (length out))" by linarith
    then show ?thesis using True by simp
  qed simp
  ultimately show ?case using q'(1,4) f(1) Cons.prems(3) by auto
qed

text \<open>One key: the code does to the queue what the discipline says, as long as there is room.\<close>

definition key_room :: "u8 \<Rightarrow> line_state \<Rightarrow> bool" where
  "key_room ch st \<longleftrightarrow> ch \<noteq> 0 \<and>
     (ch \<noteq> 8 \<longrightarrow> length (ld_bytes st) + (if ch = 10 then 2 else 1) < TTY_COOK_BUF_SZ)"

definition tin_ok :: "('s \<Rightarrow> nat) \<Rightarrow> ('s, 'a) tty_in_scheme \<Rightarrow> line_state \<Rightarrow> bool" where
  "tin_ok count tty st \<longleftrightarrow> line_ok (queue tty) st \<and> count (t_lock tty) = 1 \<and> count (cooked tty) = length (fst st)"

lemma line_ok_finish:
  assumes q: "line_ok q (ds, cur)" and room: "length (ld_bytes (ds, cur)) + 2 < TTY_COOK_BUF_SZ"
  shows "\<exists>q1 q2. tty_enqueue 10 q = Inr q1 \<and> tty_enqueue 0 q1 = Inr q2 \<and> line_ok q2 (ds @ [cur @ [10]], [])"
proof -
  have ok: "tq_ok q" "front_guarded q" "tq_elems q = ld_bytes (ds, cur)" using q by (simp_all add: line_ok_def)
  have r: "length (tq_elems q) < TTY_COOK_BUF_SZ - 1" unfolding ok(3) using room by simp
  obtain q1 where q1: "tty_enqueue 10 q = Inr q1" "tq_ok q1" "front_guarded q1" "tq_elems q1 = tq_elems q @ [10]"
    using tty_enqueue_ok [OF ok(1) r, of 10] ok(2) by blast
  have r1: "length (tq_elems q1) < TTY_COOK_BUF_SZ - 1" unfolding q1(4) ok(3) using room by simp
  obtain q2 where "tty_enqueue 0 q1 = Inr q2" "tq_ok q2" "front_guarded q2" "tq_elems q2 = tq_elems q1 @ [0]"
    using tty_enqueue_ok [OF q1(2) r1, of 0] q1(3) by blast
  then show ?thesis using q1 ok(3) q by (auto simp: line_ok_def ld_bytes_def)
qed

lemma line_ok_char:
  assumes q: "line_ok q (ds, cur)" and ch: "ch \<noteq> 0" and room: "length (ld_bytes (ds, cur)) + 1 < TTY_COOK_BUF_SZ"
  shows "\<exists>q1. tty_enqueue ch q = Inr q1 \<and> line_ok q1 (ds, cur @ [ch])"
proof -
  have ok: "tq_ok q" "front_guarded q" "tq_elems q = ld_bytes (ds, cur)" using q by (simp_all add: line_ok_def)
  have r: "length (tq_elems q) < TTY_COOK_BUF_SZ - 1" unfolding ok(3) using room by simp
  obtain q1 where "tty_enqueue ch q = Inr q1" "tq_ok q1" "front_guarded q1" "tq_elems q1 = tq_elems q @ [ch]"
    using tty_enqueue_ok [OF ok(1) r, of ch] ok(2) by blast
  then show ?thesis using ok(3) q ch by (auto simp: line_ok_def ld_bytes_def)
qed

lemma line_ok_backspace:
  assumes q: "line_ok q (ds, cur)"
  shows "\<exists>q1. tty_pop_back q = Inr (if cur = [] then 1 else 0, q1) \<and> line_ok q1 (ds, butlast cur)"
proof (cases cur rule: rev_cases)
  case Nil
  have "tq_elems q = [] \<or> last (tq_elems q) = 0"
    using q Nil by (cases ds rule: rev_cases) (auto simp: line_ok_def ld_bytes_def)
  then show ?thesis using tty_pop_back_none [of q] q Nil by (auto simp: line_ok_def)
next
  case (snoc xs x)
  have "tq_elems q = (concat (List.map (\<lambda>l. l @ [0]) ds) @ xs) @ [x]" "x \<noteq> 0"
    using q snoc by (auto simp: line_ok_def ld_bytes_def)
  then show ?thesis using tty_pop_back_some [of q] q snoc by (fastforce simp: line_ok_def ld_bytes_def)
qed

text \<open>Keys and reads, against the terminal and against the discipline.\<close>

datatype line_op = Key u8 | ReadLine int

primrec run_tty :: "('l, 's) kmt \<Rightarrow> line_op list \<Rightarrow> ('s, 'a) tty_in_scheme \<Rightarrow> ((int \<times> u8 list) list \<times> ('s, 'a) tty_in_scheme) res" where
  "run_tty K [] tty = Inr ([], tty)"
| "run_tty K (c # cs) tty =
     res_bind (case c of
         Key ch \<Rightarrow> res_bind (tty_cook K ch tty) (\<lambda>(ret, tty). Inr ((ret, []), tty))
       | ReadLine n \<Rightarrow> res_bind (tty_read K n tty) (\<lambda>(ret, out, tty). Inr ((ret, out), tty))) (\<lambda>(r, tty).
     res_bind (run_tty K cs tty) (\<lambda>(rs, tty). Inr (r # rs, tty)))"

primrec run_ld :: "line_op list \<Rightarrow> line_state \<Rightarrow> (int \<times> u8 list) list \<times> line_state" where
  "run_ld [] st = ([], st)"
| "run_ld (c # cs) st =
     (let (r, st) = (case c of
         Key ch \<Rightarrow> (let (ret, st) = ld_cook ch st in ((ret, []), st))
       | ReadLine n \<Rightarrow> (let (out, st) = ld_read n st in ((int (length out), out), st)));
         (rs, st) = run_ld cs st
      in (r # rs, st))"

text \<open>Keys are typed only while there is room, lines read only when one is finished.\<close>

primrec ld_fair :: "line_op list \<Rightarrow> line_state \<Rightarrow> bool" where
  "ld_fair [] st = True"
| "ld_fair (c # cs) st =
     (case c of
        Key ch \<Rightarrow> key_room ch st \<and> ld_fair cs (snd (ld_cook ch st))
      | ReadLine n \<Rightarrow> fst st \<noteq> [] \<and> ld_fair cs (snd (ld_read n st)))"

lemma tty_cook_ok:
  assumes K: "kmt_ok K unheld count" and t: "tin_ok count tty st" and room: "key_room ch st"
  shows "\<exists>tty'. tty_cook K ch tty = Inr (fst (ld_cook ch st), tty') \<and> tin_ok count tty' (snd (ld_cook ch st))"
proof -
  obtain ds cur where st: "st = (ds, cur)" by (cases st)
  have q: "line_ok (queue tty) (ds, cur)" and c: "count (t_lock tty) = 1" "count (cooked tty) = length ds"
    using t st by (simp_all add: tin_ok_def)
  obtain l where l: "k_sem_wait K (t_lock tty) = Inr l" "count l = 0"
    using kmt_ok_wait [OF K, of "t_lock tty"] c(1) by auto
  note s = kmt_ok_signal [OF K]
  consider "ch = 10" | "ch = 8" | "ch \<noteq> 10" "ch \<noteq> 8" by blast
  then show ?thesis
  proof cases
    case 1
    have "length (ld_bytes (ds, cur)) + 2 < TTY_COOK_BUF_SZ" using room st 1 by (simp add: key_room_def)
    then obtain q1 q2 where "tty_enqueue 10 (queue tty) = Inr q1" "tty_enqueue 0 q1 = Inr q2"
        "line_ok q2 (ds @ [cur @ [10]], [])"
      using line_ok_finish [OF q] by blast
    then show ?thesis using 1 l s c st by (simp add: tty_cook_def ld_cook_def tin_ok_def Let_def)
  next
    case 2
    obtain q1 where "tty_pop_back (queue tty) = Inr (if cur = [] then 1 else 0, q1)" "line_ok q1 (ds, butlast cur)"
      using line_ok_backspace [OF q] by blast
    then show ?thesis using 2 l s c st by (auto simp: tty_cook_def ld_cook_def tin_ok_def Let_def)
  next
    case 3
    have "length (ld_bytes (ds, cur)) + 1 < TTY_COOK_BUF_SZ" "ch \<noteq> 0" using room st 3 by (simp_all add: key_room_def)
    then obtain q1 where "tty_enqueue ch (queue tty) = Inr q1" "line_ok q1 (ds, cur @ [ch])"
      using line_ok_char [OF q] by blast
    then show ?thesis using 3 l s c st by (simp add: tty_cook_def ld_cook_def tin_ok_def Let_def)
  qed
qed

lemma tty_read_ok:
  assumes K: "kmt_ok K unheld count" and t: "tin_ok count tty st" and d: "fst st \<noteq> []"
  shows "\<exists>tty'. tty_read K n tty = Inr (int (length (fst (ld_read n st))), fst (ld_read n st), tty') \<and>
    tin_ok count tty' (snd (ld_read n st))"
proof -
  obtain x ds cur where st: "st = (x # ds, cur)" using d by (cases st) (auto simp: neq_Nil_conv)
  have q: "line_ok (queue tty) (x # ds, cur)" and c: "count (t_lock tty) = 1" "count (cooked tty) = Suc (length ds)"
    using t st by (simp_all add: tin_ok_def)
  obtain w where w: "k_sem_wait K (cooked tty) = Inr w" "count w = length ds"
    using kmt_ok_wait [OF K, of "cooked tty"] c(2) by auto
  obtain l where l: "k_sem_wait K (t_lock tty) = Inr l" "count l = 0"
    using kmt_ok_wait [OF K, of "t_lock tty"] c(1) by auto
  have e: "tq_ok (queue tty)" "tq_elems (queue tty) = x @ 0 # ld_bytes (ds, cur)" "0 \<notin> set x"
    using q by (simp_all add: line_ok_def ld_bytes_def)
  have "length (tq_elems (queue tty)) < TTY_COOK_BUF_SZ"
    using tq_okD [OF e(1)] by (simp add: tq_elems_def ring_len_def)
  then have "length x < length (qbuf (queue tty))" using e(2) tq_okD(1) [OF e(1)] by simp
  from tty_read_loop_ok [OF e this, of n "[]"] obtain q' where
    "tty_read_loop (length (qbuf (queue tty))) n [] (queue tty) = Inr (take (nat n) x, q')"
    "tq_ok q'" "tq_elems q' = ld_bytes (ds, cur)" "front_guarded q'" by auto
  then show ?thesis using w l c st q kmt_ok_signal [OF K]
    by (simp add: tty_read_def ld_read_def tin_ok_def line_ok_def Let_def)
qed

lemma run_tty_ok:
  assumes K: "kmt_ok K unheld count"
  shows "tin_ok count tty st \<Longrightarrow> ld_fair cs st \<Longrightarrow>
    \<exists>tty'. run_tty K cs tty = Inr (fst (run_ld cs st), tty') \<and> tin_ok count tty' (snd (run_ld cs st))"
proof (induction cs arbitrary: tty st)
  case (Cons c cs)
  show ?case
  proof (cases c)
    case (Key ch)
    then obtain tty1 where "tty_cook K ch tty = Inr (fst (ld_cook ch st), tty1)" "tin_ok count tty1 (snd (ld_cook ch st))"
      using tty_cook_ok [OF K Cons.prems(1)] Cons.prems(2) by auto
    then show ?thesis using Cons.IH [of tty1 "snd (ld_cook ch st)"] Cons.prems(2) Key
      by (auto simp: split_beta Let_def)
  next
    case (ReadLine n)
    then obtain tty1 where "tty_read K n tty = Inr (int (length (fst (ld_read n st))), fst (ld_read n st), tty1)"
        "tin_ok count tty1 (snd (ld_read n st))"
      using tty_read_ok [OF K Cons.prems(1)] Cons.prems(2) by auto
    then show ?thesis using Cons.IH [of tty1 "snd (ld_read n st)"] Cons.prems(2) ReadLine
      by (auto simp: split_beta Let_def)
  qed
qed simp

section \<open>Where it breaks\<close>

lemma length_tq_elems:
  assumes "tq_ok q"
  shows "length (tq_elems q) \<le> TTY_COOK_BUF_SZ - 1"
proof -
  have "length (tq_elems q) < TTY_COOK_BUF_SZ" using tq_okD [OF assms] by (simp add: tq_elems_def ring_len_def)
  then show ?thesis by linarith
qed

lemma tty_enqueue_full:
  assumes "tq_ok q" and "length (tq_elems q) = TTY_COOK_BUF_SZ - 1"
  shows "tty_enqueue ch q = Inl Panic"
proof -
  note q = tq_okD [OF assms(1)]
  have "(qrear q + 1) mod TTY_COOK_BUF_SZ = qfront q"
    using ring_len_full [OF q(2,3)] assms(2) q(1) tq_len by (auto simp: tq_elems_def)
  moreover have "(qrear q + 1) mod TTY_COOK_BUF_SZ = (if qrear q + 1 = TTY_COOK_BUF_SZ then 0 else qrear q + 1)"
    using next_slot [OF q(3)] by simp
  ultimately show ?thesis using q by (auto simp: tty_enqueue_def Let_def split: if_splits)
qed

lemma tty_cook_full:
  assumes K: "kmt_ok K unheld count" and t: "tin_ok count tty st"
    and ch: "ch \<noteq> 0" "ch \<noteq> 8" and full: "\<not> key_room ch st"
  shows "tty_cook K ch tty = Inl Panic"
proof -
  have q: "line_ok (queue tty) st" and c: "count (t_lock tty) = 1" using t by (simp_all add: tin_ok_def)
  obtain l where l: "k_sem_wait K (t_lock tty) = Inr l" using kmt_ok_wait [OF K, of "t_lock tty"] c by auto
  have ok: "tq_ok (queue tty)" "tq_elems (queue tty) = ld_bytes st" using q by (simp_all add: line_ok_def)
  have len: "length (ld_bytes st) \<le> TTY_COOK_BUF_SZ - 1" using length_tq_elems [OF ok(1)] ok(2) by simp
  show ?thesis
  proof (cases "length (ld_bytes st) = TTY_COOK_BUF_SZ - 1")
    case True
    then have "tty_enqueue ch (queue tty) = Inl Panic" for ch using tty_enqueue_full [OF ok(1)] ok(2) by simp
    then show ?thesis using l ch by (simp add: tty_cook_def Let_def)
  next
    case False
    then have 10: "ch = 10" "length (ld_bytes st) = TTY_COOK_BUF_SZ - 2"
      using full ch len tq_len by (simp_all add: key_room_def split: if_splits)
    have r: "length (tq_elems (queue tty)) < TTY_COOK_BUF_SZ - 1" unfolding ok(2) 10(2) using tq_len by linarith
    obtain q1 where q1: "tty_enqueue 10 (queue tty) = Inr q1" "tq_ok q1" "tq_elems q1 = tq_elems (queue tty) @ [10]"
      using tty_enqueue_ok [OF ok(1) r, of 10] by blast
    have "length (tq_elems q1) = TTY_COOK_BUF_SZ - 1" unfolding q1(3) ok(2) using 10(2) tq_len by simp
    then have "tty_enqueue 0 q1 = Inl Panic" by (rule tty_enqueue_full [OF q1(2)])
    then show ?thesis using l q1(1) 10(1) by (simp add: tty_cook_def Let_def)
  qed
qed

text \<open>The queue \<open>tty_init\<close> sets up over the bytes \<open>buf\<close> that \<open>pmm->alloc\<close> gave it.\<close>

definition fresh_tty :: "'s \<Rightarrow> 's \<Rightarrow> u8 list \<Rightarrow> 's tty_in" where
  "fresh_tty lk ck buf = \<lparr>t_lock = lk, cooked = ck, queue = \<lparr>qbuf = buf, qfront = 0, qrear = 0\<rparr>\<rparr>"

lemma fresh_tty_ok:
  assumes "length buf = TTY_COOK_BUF_SZ" and "count lk = 1" and "count ck = 0" and "last buf = 0"
  shows "tin_ok count (fresh_tty lk ck buf) ([], [])"
proof -
  have "buf \<noteq> []" using assms(1) tq_len by auto
  then have "buf ! slot_before 0 = 0" using assms(1,4) by (simp add: last_conv_nth slot_before_def)
  then show ?thesis using assms tq_len
    by (simp add: fresh_tty_def tin_ok_def line_ok_def tq_ok_def front_guarded_def tq_elems_def ld_bytes_def)
qed

section \<open>Properties\<close>

text \<open>
  C18: the terminal's input side implements the line discipline. Any sequence of keys and line reads
  that leaves room and reads only finished lines runs without a fault on the real queue, each key
  and each read returns what the discipline says (backspace reports whether it took a character
  back, a read gives the oldest line cut to its count), and queue and semaphores agree with the
  discipline again at the end.
\<close>

theorem tty_line_discipline:
  assumes "kmt_ok K unheld count" and "tin_ok count tty st" and "ld_fair cs st"
  shows "\<exists>tty'. run_tty K cs tty = Inr (fst (run_ld cs st), tty') \<and> tin_ok count tty' (snd (run_ld cs st))"
  using assms by (rule run_tty_ok)

theorem tty_line_discipline_witness:
  "\<exists>tty'. run_tty plain_kmt [Key 104, Key 8, Key 8, Key 111, Key 107, Key 10, ReadLine 2] (fresh_tty 1 0 (replicate 1024 0)) =
     Inr ([(0, []), (0, []), (1, []), (0, []), (0, []), (0, []), (2, [111, 107])], tty')"
proof -
  let ?cs = "[Key 104, Key 8, Key 8, Key 111, Key 107, Key 10, ReadLine 2]"
  have "tin_ok (\<lambda>s. s) (fresh_tty 1 0 (replicate 1024 0)) ([], [])"
    by (rule fresh_tty_ok) (simp_all add: TTY_COOK_BUF_SZ_def)
  moreover have "ld_fair ?cs ([], [])" by (simp add: key_room_def ld_bytes_def ld_cook_def ld_read_def TTY_COOK_BUF_SZ_def)
  moreover have "fst (run_ld ?cs ([], [])) = [(0, []), (0, []), (1, []), (0, []), (0, []), (0, []), (2, [111, 107])]"
    by (simp add: ld_cook_def ld_read_def)
  ultimately show ?thesis using tty_line_discipline [OF plain_kmt_ok] by metis
qed

text \<open>
  The room the discipline asks for is exact, and running out of it stops the kernel: any key but
  backspace typed when its bytes do not fit ends in \<open>panic("tty queue full")\<close>. Nothing limits the
  length of a line, so 1024 keys without Return (or without a reader) do that.
\<close>

theorem tty_queue_overflow:
  assumes "kmt_ok K unheld count" and "tin_ok count tty st" and "ch \<noteq> 0 \<and> ch \<noteq> 8" and "\<not> key_room ch st"
  shows "tty_cook K ch tty = Inl Panic"
  using assms tty_cook_full by blast

theorem tty_queue_overflow_witness:
  "tty_cook plain_kmt 97 (fresh_tty 1 0 (replicate 1023 97 @ [0]) \<lparr>queue := \<lparr>qbuf = replicate 1023 97 @ [0], qfront = 0, qrear = 1023\<rparr>\<rparr>) =
     Inl Panic"
proof -
  let ?q = "\<lparr>qbuf = replicate 1023 97 @ [0], qfront = 0, qrear = 1023\<rparr> :: tty_queue"
  have "tq_elems ?q = List.map (\<lambda>i. qbuf ?q ! i) [0..<1023]"
    by (simp add: tq_elems_def ring_def ring_len_def cong: map_cong)
  also have "\<dots> = replicate 1023 97" by (rule nth_equalityI) (simp_all add: nth_append)
  finally have e: "tq_elems ?q = replicate 1023 97" .
  have "line_ok ?q ([], replicate 1023 97)"
    unfolding line_ok_def e by (simp add: tq_ok_def front_guarded_def slot_before_def TTY_COOK_BUF_SZ_def ld_bytes_def nth_append)
  then have "tin_ok (\<lambda>s. s) (fresh_tty 1 0 (replicate 1023 97 @ [0]) \<lparr>queue := ?q\<rparr>) ([], replicate 1023 97)"
    by (simp add: tin_ok_def fresh_tty_def)
  moreover have "\<not> key_room 97 ([], replicate 1023 97)" by (simp add: key_room_def ld_bytes_def TTY_COOK_BUF_SZ_def)
  ultimately show ?thesis using tty_queue_overflow [OF plain_kmt_ok, of _ _ 97] by simp
qed

text \<open>
  C39: \<open>tty_init\<close> does not clear the buffer it allocates. When its last byte happens not to be 0,
  backspace on the empty terminal takes that stale byte back: the queue then claims 1023 characters
  nobody typed, and whatever key but backspace comes next stops the kernel.
\<close>

theorem tty_stale_backspace:
  assumes "kmt_ok K unheld count" and "count lk = 1" and "length buf = TTY_COOK_BUF_SZ" and "last buf \<noteq> 0"
  shows "\<exists>tty. tty_cook K 8 (fresh_tty lk ck buf) = Inr (0, tty) \<and> length (tq_elems (queue tty)) = TTY_COOK_BUF_SZ - 1 \<and>
    (\<forall>ch. ch \<noteq> 8 \<longrightarrow> tty_cook K ch tty = Inl Panic)"
proof -
  obtain l where l: "k_sem_wait K lk = Inr l" "count l = 0" using kmt_ok_wait [OF assms(1), of lk] assms(2) by auto
  obtain l' where l': "k_sem_wait K (k_sem_signal K l) = Inr l'"
    using kmt_ok_wait [OF assms(1), of "k_sem_signal K l"] kmt_ok_signal [OF assms(1)] by auto
  let ?q = "\<lparr>qbuf = buf[TTY_COOK_BUF_SZ - 1 := 0], qfront = 0, qrear = TTY_COOK_BUF_SZ - 1\<rparr>"
  let ?t = "\<lparr>t_lock = k_sem_signal K l, cooked = ck, queue = ?q\<rparr>"
  have "buf \<noteq> []" using assms(3) tq_len by auto
  then have "buf ! (TTY_COOK_BUF_SZ - 1) \<noteq> 0" using assms(3,4) by (simp add: last_conv_nth)
  then have 1: "tty_cook K 8 (fresh_tty lk ck buf) = Inr (0, ?t)"
    using l(1) assms(3) tq_len by (simp add: tty_cook_def fresh_tty_def tty_pop_back_def Let_def)
  have ok: "tq_ok ?q" "length (tq_elems ?q) = TTY_COOK_BUF_SZ - 1"
    using assms(3) by (simp_all add: tq_ok_def tq_elems_def ring_len_def TTY_COOK_BUF_SZ_def)
  have "tty_cook K ch ?t = Inl Panic" if "ch \<noteq> 8" for ch
    using l' that tty_enqueue_full [OF ok] by (simp add: tty_cook_def Let_def)
  then show ?thesis using 1 ok(2) by auto
qed

theorem tty_stale_backspace_witness:
  "\<exists>tty. tty_cook plain_kmt 8 (fresh_tty 1 0 (replicate 1024 255)) = Inr (0, tty) \<and> tty_cook plain_kmt 97 tty = Inl Panic"
proof -
  have "length (replicate 1024 255 :: u8 list) = TTY_COOK_BUF_SZ" "last (replicate 1024 255 :: u8 list) \<noteq> 0"
    by (simp_all add: TTY_COOK_BUF_SZ_def)
  from tty_stale_backspace [OF plain_kmt_ok _ this, of 1 0] show ?thesis by fastforce
qed

end
