(* ===== verification/Bytes.thy ===== *)
theory Bytes
  imports Base
begin

text \<open>
  How objects lie in memory: little-endian words, arrays of fixed-size objects, and a copy of bytes
  over part of an object.
\<close>

unbundle bit_operations_syntax

definition le16 :: "u16 \<Rightarrow> u8 list" where
  "le16 w = [ucast w, ucast (drop_bit 8 w)]"

definition of_le16 :: "u8 list \<Rightarrow> u16" where
  "of_le16 bs = ucast (bs ! 0) OR push_bit 8 (ucast (bs ! 1))"

definition le32 :: "u32 \<Rightarrow> u8 list" where
  "le32 w = [ucast w, ucast (drop_bit 8 w), ucast (drop_bit 16 w), ucast (drop_bit 24 w)]"

definition of_le32 :: "u8 list \<Rightarrow> u32" where
  "of_le32 bs = ucast (bs ! 0) OR push_bit 8 (ucast (bs ! 1)) OR push_bit 16 (ucast (bs ! 2)) OR push_bit 24 (ucast (bs ! 3))"

lemma length_le [simp]: "length (le16 w) = 2" "length (le32 v) = 4"
  by (simp_all add: le16_def le32_def)

lemma of_le16_le16 [simp]: "of_le16 (le16 w @ bs) = w"
  by (rule bit_word_eqI) (auto simp: of_le16_def le16_def bit_simps)

lemma of_le32_le32 [simp]: "of_le32 (le32 w @ bs) = w"
proof (rule bit_word_eqI)
  fix n assume "n < LENGTH(32)"
  then consider "n < 8" | "8 \<le> n \<and> n < 16" | "16 \<le> n \<and> n < 24" | "24 \<le> n \<and> n < 32" by fastforce
  then show "bit (of_le32 (le32 w @ bs)) n \<longleftrightarrow> bit w n"
    by cases (auto simp: of_le32_def le32_def bit_simps)
qed

text \<open>Arrays: the bytes of the elements one after the other, and back.\<close>

definition array_bytes :: "('a \<Rightarrow> u8 list) \<Rightarrow> 'a list \<Rightarrow> u8 list" where
  "array_bytes enc xs = concat (List.map enc xs)"

definition of_array_bytes :: "nat \<Rightarrow> (u8 list \<Rightarrow> 'a) \<Rightarrow> nat \<Rightarrow> u8 list \<Rightarrow> 'a list" where
  "of_array_bytes sz dec n bs = List.map (\<lambda>i. dec (take sz (drop (i * sz) bs))) [0..<n]"

lemma length_array_bytes: "(\<And>x. x \<in> set xs \<Longrightarrow> length (enc x) = sz) \<Longrightarrow> length (array_bytes enc xs) = length xs * sz"
  by (induction xs) (auto simp: array_bytes_def)

lemma length_of_array_bytes [simp]: "length (of_array_bytes sz dec n bs) = n"
  by (simp add: of_array_bytes_def)

lemma of_array_bytes_Suc:
  "of_array_bytes sz dec (Suc n) bs = dec (take sz bs) # of_array_bytes sz dec n (drop sz bs)"
  unfolding of_array_bytes_def
  by (simp add: upt_conv_Cons map_Suc_upt [symmetric] o_def add.commute del: upt_Suc)

lemma array_bytes_round_trip:
  assumes "\<And>x. x \<in> set xs \<Longrightarrow> length (enc x) = sz \<and> dec (enc x) = x"
  shows "of_array_bytes sz dec (length xs) (array_bytes enc xs @ bs) = xs"
  using assms
proof (induction xs)
  case (Cons x xs)
  then have "length (enc x) = sz" "dec (enc x) = x" by auto
  then show ?case using Cons by (simp add: of_array_bytes_Suc array_bytes_def)
qed (simp add: of_array_bytes_def)

text \<open>\<open>memcpy\<close> of \<open>new\<close> to place \<open>off\<close> of an object of the bytes \<open>bs\<close>.\<close>

definition overwrite :: "int \<Rightarrow> u8 list \<Rightarrow> u8 list \<Rightarrow> u8 list res" where
  "overwrite off new bs =
     res_bind (guard BadAccess (0 \<le> off \<and> nat off + length new \<le> length bs)) (\<lambda>_.
       Inr (take (nat off) bs @ new @ drop (nat off + length new) bs))"

lemma overwrite_element:
  assumes sz: "\<And>x. x \<in> set xs \<Longrightarrow> length (enc x) = sz" and k: "k < length xs" and e: "length (enc e) = sz"
  shows "overwrite (int (k * sz)) (enc e) (array_bytes enc xs) = Inr (array_bytes enc (xs[k := e]))"
proof -
  have split: "xs = take k xs @ xs ! k # drop (Suc k) xs" using k by (rule id_take_nth_drop)
  have t: "length (array_bytes enc (take k xs)) = k * sz"
    using length_array_bytes [of "take k xs" enc sz] sz k by (auto dest: in_set_takeD)
  have "length (array_bytes enc xs) = length xs * sz" using length_array_bytes sz by blast
  moreover have "k * sz + sz \<le> length xs * sz" using k by (metis Suc_leI add.commute mult_Suc mult_le_mono1)
  ultimately have room: "k * sz + sz \<le> length (array_bytes enc xs)" by simp
  have a: "array_bytes enc xs = array_bytes enc (take k xs) @ enc (xs ! k) @ array_bytes enc (drop (Suc k) xs)"
    using arg_cong [OF split, of "array_bytes enc"] by (simp add: array_bytes_def)
  have b: "array_bytes enc (xs[k := e]) = array_bytes enc (take k xs) @ enc e @ array_bytes enc (drop (Suc k) xs)"
    using k by (simp add: upd_conv_take_nth_drop array_bytes_def)
  have "length (enc (xs ! k)) = sz" using sz k by simp
  then have "take (k * sz) (array_bytes enc xs) = array_bytes enc (take k xs)"
      "drop (k * sz + sz) (array_bytes enc xs) = array_bytes enc (drop (Suc k) xs)"
    using t by (simp_all add: a)
  then show ?thesis using room e by (simp add: overwrite_def b del: of_nat_mult)
qed

end
