(* ===== verification/Gpu.thy ===== *)
theory Gpu
  imports Base
begin

text \<open>
  The frame buffer of the qemu platform, \<open>am/src/x86/qemu/ioe.c\<close> (\<open>gpu_init\<close>, \<open>gpu_config\<close>,
  \<open>gpu_fbdraw\<close>), and the contract of a drawing surface that the kernel's frame buffer device relies
  on.
\<close>

section \<open>The code\<close>

record pixel =
  px_b :: u8
  px_g :: u8
  px_r :: u8

definition R :: "u32 \<Rightarrow> u8" where "R p = ucast (drop_bit 16 p)"
definition G :: "u32 \<Rightarrow> u8" where "G p = ucast (drop_bit 8 p)"
definition B :: "u32 \<Rightarrow> u8" where "B p = ucast p"

definition to_pixel :: "u32 \<Rightarrow> pixel" where
  "to_pixel p = \<lparr>px_b = B p, px_g = G p, px_r = R p\<rparr>"

text \<open>\<open>display.w\<close>, \<open>display.h\<close> and the pixels \<open>fb\<close> points to.\<close>

record gpu_st =
  disp_w :: int
  disp_h :: int
  disp_fb :: "pixel list"

definition gpu_init :: "u16 \<Rightarrow> u16 \<Rightarrow> pixel list \<Rightarrow> gpu_st" where
  "gpu_init width height mem = \<lparr>disp_w = uint width, disp_h = uint height, disp_fb = mem\<rparr>"

definition gpu_config :: "gpu_st \<Rightarrow> int \<times> int" where
  "gpu_config g = (disp_w g, disp_h g)"

text \<open>The inner loop writes \<open>len\<close> pixels from place \<open>px\<close>, read from \<open>off\<close> on.\<close>

function fbdraw_row :: "u32 list \<Rightarrow> int \<Rightarrow> int \<Rightarrow> int \<Rightarrow> int \<Rightarrow> pixel list \<Rightarrow> pixel list res" where
  "fbdraw_row pixels off px len i m =
     (if i < len then
        res_bind (guard BadAccess (0 \<le> off + i \<and> off + i < int (length pixels))) (\<lambda>_.
        res_bind (guard BadAccess (0 \<le> px + i \<and> px + i < int (length m))) (\<lambda>_.
          fbdraw_row pixels off px len (i + 1) (m[nat (px + i) := to_pixel (pixels ! nat (off + i))])))
      else Inr m)"
  by pat_completeness auto
termination by (relation "measure (\<lambda>(pixels, off, px, len, i, m). nat (len - i))") auto

declare fbdraw_row.simps [simp del]

function fbdraw_rows ::
  "u32 list \<Rightarrow> int \<Rightarrow> int \<Rightarrow> int \<Rightarrow> int \<Rightarrow> int \<Rightarrow> int \<Rightarrow> int \<Rightarrow> int \<Rightarrow> pixel list \<Rightarrow> pixel list res" where
  "fbdraw_rows pixels W H x y w h len j m =
     (if j < h then
        res_bind (if y + j < H then fbdraw_row pixels (j * w) (x + (j + y) * W) len 0 m else Inr m)
          (fbdraw_rows pixels W H x y w h len (j + 1))
      else Inr m)"
  by pat_completeness auto
termination by (relation "measure (\<lambda>(pixels, W, H, x, y, w, h, len, j, m). nat (h - j))") auto

declare fbdraw_rows.simps [simp del]

definition gpu_fbdraw :: "int \<Rightarrow> int \<Rightarrow> u32 list \<Rightarrow> int \<Rightarrow> int \<Rightarrow> gpu_st \<Rightarrow> gpu_st res" where
  "gpu_fbdraw x y pixels w h g =
     (let W = disp_w g; H = disp_h g;
          len = (if W \<le> x + w then W - x else w)
      in res_bind (fbdraw_rows pixels W H x y w h len 0 (disp_fb g)) (\<lambda>m. Inr (g\<lparr>disp_fb := m\<rparr>)))"

section \<open>What it draws\<close>

definition gpu_ok :: "gpu_st \<Rightarrow> bool" where
  "gpu_ok g \<longleftrightarrow> 0 \<le> disp_w g \<and> 0 \<le> disp_h g \<and> int (length (disp_fb g)) = disp_w g * disp_h g"

text \<open>The pixel in column \<open>X\<close> of row \<open>Y\<close>.\<close>

definition screen :: "gpu_st \<Rightarrow> int \<Rightarrow> int \<Rightarrow> pixel" where
  "screen g X Y = disp_fb g ! nat (X + Y * disp_w g)"

lemma fbdraw_row_ok:
  "0 \<le> i \<Longrightarrow> 0 \<le> off \<Longrightarrow> off + len \<le> int (length pixels) \<Longrightarrow> 0 \<le> px \<Longrightarrow> px + len \<le> int (length m) \<Longrightarrow>
   \<exists>m'. fbdraw_row pixels off px len i m = Inr m' \<and> length m' = length m \<and>
     (\<forall>k. 0 \<le> k \<longrightarrow> m' ! nat k = (if px + i \<le> k \<and> k < px + len then to_pixel (pixels ! nat (off + (k - px))) else m ! nat k))"
proof (induction pixels off px len i m rule: fbdraw_row.induct)
  case (1 pixels off px len i m)
  show ?case
  proof (cases "i < len")
    case True
    let ?m = "m[nat (px + i) := to_pixel (pixels ! nat (off + i))]"
    have g: "0 \<le> off + i \<and> off + i < int (length pixels)" "0 \<le> px + i \<and> px + i < int (length m)"
      using 1 True by auto
    obtain m' where m': "fbdraw_row pixels off px len (i + 1) ?m = Inr m'" "length m' = length m"
        "\<forall>k. 0 \<le> k \<longrightarrow> m' ! nat k =
          (if px + (i + 1) \<le> k \<and> k < px + len then to_pixel (pixels ! nat (off + (k - px))) else ?m ! nat k)"
      using 1(1) True g 1(2-6) by auto
    have "m' ! nat k = (if px + i \<le> k \<and> k < px + len then to_pixel (pixels ! nat (off + (k - px))) else m ! nat k)"
      if "0 \<le> k" for k
    proof (cases "k = px + i")
      case True
      then show ?thesis using m'(3) g \<open>i < len\<close> by (auto simp: nat_less_iff)
    next
      case False
      then have "nat k \<noteq> nat (px + i)" using that g(2) by linarith
      then show ?thesis using m'(3) that False by auto
    qed
    then show ?thesis using m'(1,2) True g by (subst fbdraw_row.simps) simp
  qed (subst fbdraw_row.simps, auto)
qed

text \<open>Places of different rows and columns differ.\<close>

lemma place_in_row:
  fixes X Y W x len r :: int
  assumes "0 \<le> X" "X < W" "0 \<le> x" "x + len \<le> W"
  shows "x + r * W \<le> X + Y * W \<and> X + Y * W < x + r * W + len \<longleftrightarrow> Y = r \<and> x \<le> X \<and> X < x + len"
proof
  assume a: "x + r * W \<le> X + Y * W \<and> X + Y * W < x + r * W + len"
  have "Y = r"
  proof (rule ccontr)
    assume "Y \<noteq> r"
    then consider "Y + 1 \<le> r" | "r + 1 \<le> Y" by linarith
    then show False
    proof cases
      case 1
      then have "(Y + 1) * W \<le> r * W" using assms by (intro mult_right_mono) auto
      then show False using a assms by (simp add: algebra_simps)
    next
      case 2
      then have "(r + 1) * W \<le> Y * W" using assms by (intro mult_right_mono) auto
      then show False using a assms by (simp add: algebra_simps)
    qed
  qed
  then show "Y = r \<and> x \<le> X \<and> X < x + len" using a by auto
qed auto

lemma fbdraw_rows_ok:
  "0 \<le> j \<Longrightarrow> 0 \<le> x \<Longrightarrow> 0 \<le> y \<Longrightarrow> 0 \<le> w \<Longrightarrow> len \<le> w \<Longrightarrow> x + len \<le> W \<Longrightarrow> 0 \<le> W \<Longrightarrow>
   int (length pixels) = w * h \<Longrightarrow> int (length m) = W * H \<Longrightarrow>
   \<exists>m'. fbdraw_rows pixels W H x y w h len j m = Inr m' \<and> length m' = length m \<and>
     (\<forall>X Y. 0 \<le> X \<longrightarrow> X < W \<longrightarrow> 0 \<le> Y \<longrightarrow> Y < H \<longrightarrow> m' ! nat (X + Y * W) =
       (if x \<le> X \<and> X < x + len \<and> y + j \<le> Y \<and> Y < y + h
        then to_pixel (pixels ! nat ((Y - y) * w + (X - x))) else m ! nat (X + Y * W)))"
proof (induction pixels W H x y w h len j m rule: fbdraw_rows.induct)
  case (1 pixels W H x y w h len j m)
  note a = 1(2-10)
  show ?case
  proof (cases "j < h")
    case True
    have "\<exists>m1. (if y + j < H then fbdraw_row pixels (j * w) (x + (j + y) * W) len 0 m else Inr m) = Inr m1 \<and>
        length m1 = length m \<and>
        (\<forall>X Y. 0 \<le> X \<longrightarrow> X < W \<longrightarrow> 0 \<le> Y \<longrightarrow> Y < H \<longrightarrow> m1 ! nat (X + Y * W) =
          (if x \<le> X \<and> X < x + len \<and> Y = y + j then to_pixel (pixels ! nat ((Y - y) * w + (X - x)))
           else m ! nat (X + Y * W)))"
    proof (cases "y + j < H")
      case row: True
      have "(j + 1) * w \<le> h * w" "(y + j + 1) * W \<le> H * W"
        using True row a by (auto intro!: mult_right_mono)
      then have "j * w + len \<le> int (length pixels)" "x + (j + y) * W + len \<le> int (length m)"
        using a by (simp_all add: algebra_simps)
      then obtain m1 where m1: "fbdraw_row pixels (j * w) (x + (j + y) * W) len 0 m = Inr m1" "length m1 = length m"
          "\<forall>k. 0 \<le> k \<longrightarrow> m1 ! nat k = (if x + (j + y) * W \<le> k \<and> k < x + (j + y) * W + len
            then to_pixel (pixels ! nat (j * w + (k - (x + (j + y) * W)))) else m ! nat k)"
        using fbdraw_row_ok [of 0 "j * w" len pixels "x + (j + y) * W" m] a by auto
      have "m1 ! nat (X + Y * W) = (if x \<le> X \<and> X < x + len \<and> Y = y + j
          then to_pixel (pixels ! nat ((Y - y) * w + (X - x))) else m ! nat (X + Y * W))"
        if "0 \<le> X" "X < W" "0 \<le> Y" "Y < H" for X Y
      proof -
        have "0 \<le> X + Y * W" using that by simp
        then show ?thesis
          using m1(3) place_in_row [of X W x len "j + y" Y] that a by (auto simp: algebra_simps)
      qed
      then show ?thesis using m1(1,2) row by simp
    qed auto
    then obtain m1 where m1: "(if y + j < H then fbdraw_row pixels (j * w) (x + (j + y) * W) len 0 m else Inr m) = Inr m1"
        "length m1 = length m" "\<And>X Y. 0 \<le> X \<Longrightarrow> X < W \<Longrightarrow> 0 \<le> Y \<Longrightarrow> Y < H \<Longrightarrow> m1 ! nat (X + Y * W) =
          (if x \<le> X \<and> X < x + len \<and> Y = y + j then to_pixel (pixels ! nat ((Y - y) * w + (X - x)))
           else m ! nat (X + Y * W))"
      by blast
    obtain m' where m': "fbdraw_rows pixels W H x y w h len (j + 1) m1 = Inr m'" "length m' = length m1"
        "\<And>X Y. 0 \<le> X \<Longrightarrow> X < W \<Longrightarrow> 0 \<le> Y \<Longrightarrow> Y < H \<Longrightarrow> m' ! nat (X + Y * W) =
          (if x \<le> X \<and> X < x + len \<and> y + (j + 1) \<le> Y \<and> Y < y + h
           then to_pixel (pixels ! nat ((Y - y) * w + (X - x))) else m1 ! nat (X + Y * W))"
      using 1(1) [OF True, of m1] a m1(2) by auto
    have "fbdraw_rows pixels W H x y w h len j m = Inr m'"
      using True m1(1) m'(1) by (subst fbdraw_rows.simps) simp
    moreover have "m' ! nat (X + Y * W) = (if x \<le> X \<and> X < x + len \<and> y + j \<le> Y \<and> Y < y + h
        then to_pixel (pixels ! nat ((Y - y) * w + (X - x))) else m ! nat (X + Y * W))"
      if "0 \<le> X" "X < W" "0 \<le> Y" "Y < H" for X Y
      using m'(3) [OF that] m1(3) [OF that] True by auto
    ultimately show ?thesis using m'(2) m1(2) by auto
  next
    case False
    then have "fbdraw_rows pixels W H x y w h len j m = Inr m" by (subst fbdraw_rows.simps) simp
    then show ?thesis using False by auto
  qed
qed

section \<open>The contract of a drawing surface\<close>

text \<open>
  Drawing a \<open>w * h\<close> picture at a place right of and below the origin changes the pixels it covers,
  as far as they are on the screen, and no other.
\<close>

definition drawn :: "int \<times> int \<Rightarrow> (int \<Rightarrow> int \<Rightarrow> pixel) \<Rightarrow> (int \<Rightarrow> int \<Rightarrow> pixel) \<Rightarrow> int \<Rightarrow> int \<Rightarrow> u32 list \<Rightarrow> int \<Rightarrow> int \<Rightarrow> bool" where
  "drawn d old new x y ps w h \<longleftrightarrow>
     (\<forall>X Y. 0 \<le> X \<longrightarrow> X < fst d \<longrightarrow> 0 \<le> Y \<longrightarrow> Y < snd d \<longrightarrow> new X Y =
       (if x \<le> X \<and> X < x + w \<and> y \<le> Y \<and> Y < y + h then to_pixel (ps ! nat ((Y - y) * w + (X - x))) else old X Y))"

lemma drawnD:
  assumes "drawn d old new x y ps w h" and "0 \<le> X" "X < fst d" "0 \<le> Y" "Y < snd d"
  shows "new X Y = (if x \<le> X \<and> X < x + w \<and> y \<le> Y \<and> Y < y + h then to_pixel (ps ! nat ((Y - y) * w + (X - x))) else old X Y)"
  using assms by (simp add: drawn_def)

text \<open>Tiles of 8 by 8 pixels; \<open>on_screen\<close>: the tile lies wholly on a screen of size \<open>d\<close>.\<close>

definition tile_of :: "(int \<Rightarrow> int \<Rightarrow> pixel) \<Rightarrow> int \<times> int \<Rightarrow> pixel list" where
  "tile_of pix = (\<lambda>(bx, br). List.map (\<lambda>k. pix (8 * bx + int (k mod 8)) (8 * br + int (k div 8))) [0..<64])"

definition on_screen :: "int \<times> int \<Rightarrow> int \<times> int \<Rightarrow> bool" where
  "on_screen d = (\<lambda>(bx, br). 0 \<le> bx \<and> 0 \<le> br \<and> 8 * bx + 8 \<le> fst d \<and> 8 * br + 8 \<le> snd d)"

lemma drawn_tile:
  assumes d: "drawn d old new (8 * bx) (8 * br) ps 8 8" and l: "length ps = 64" and q: "on_screen d q"
  shows "tile_of new q = (if q = (bx, br) then List.map to_pixel ps else tile_of old q)"
proof -
  obtain cx cy where c: "q = (cx, cy)" by (cases q)
  have e: "new (8 * cx + int (k mod 8)) (8 * cy + int (k div 8)) =
      (if q = (bx, br) then to_pixel (ps ! k) else old (8 * cx + int (k mod 8)) (8 * cy + int (k div 8)))"
    if k: "k < 64" for k
  proof -
    have r: "int (k mod 8) < 8" "int (k div 8) < 8" using k by auto
    have s: "0 \<le> cx" "0 \<le> cy" "8 * cx + 8 \<le> fst d" "8 * cy + 8 \<le> snd d" using q c by (simp_all add: on_screen_def)
    have n: "nat ((8 * br + int (k div 8) - 8 * br) * 8 + (8 * bx + int (k mod 8) - 8 * bx)) = k"
    proof -
      have "int (k div 8) * 8 + int (k mod 8) = int k"
        by (metis div_mult_mod_eq of_nat_add of_nat_mult of_nat_numeral)
      then show ?thesis by simp
    qed
    have "8 * bx \<le> 8 * cx + int (k mod 8) \<and> 8 * cx + int (k mod 8) < 8 * bx + 8 \<and>
        8 * br \<le> 8 * cy + int (k div 8) \<and> 8 * cy + int (k div 8) < 8 * br + 8 \<longleftrightarrow> q = (bx, br)"
      using r c by auto
    then show ?thesis
      using drawnD [OF d, of "8 * cx + int (k mod 8)" "8 * cy + int (k div 8)"] r s c n by auto
  qed
  show ?thesis
  proof (cases "q = (bx, br)")
    case True
    then have "tile_of new q = List.map (\<lambda>k. to_pixel (ps ! k)) [0..<64]"
      using e c by (simp add: tile_of_def)
    also have "\<dots> = List.map to_pixel ps" using l by (simp add: list_eq_iff_nth_eq)
    finally show ?thesis using True by simp
  next
    case False
    then have "new (8 * cx + int (k mod 8)) (8 * cy + int (k div 8)) = old (8 * cx + int (k mod 8)) (8 * cy + int (k div 8))"
      if "k < 64" for k using e [OF that] by (simp only: if_False)
    then have "tile_of new q = tile_of old q" by (simp add: tile_of_def c)
    then show ?thesis using False by simp
  qed
qed

locale surface =
  fixes ok :: "'g \<Rightarrow> bool" and dims :: "'g \<Rightarrow> int \<times> int" and pix :: "'g \<Rightarrow> int \<Rightarrow> int \<Rightarrow> pixel"
    and draw :: "int \<Rightarrow> int \<Rightarrow> u32 list \<Rightarrow> int \<Rightarrow> int \<Rightarrow> 'g \<Rightarrow> 'g res"
  assumes draw_ok: "ok g \<Longrightarrow> 0 \<le> x \<Longrightarrow> 0 \<le> y \<Longrightarrow> 0 \<le> w \<Longrightarrow> int (length ps) = w * h \<Longrightarrow>
      \<exists>g'. draw x y ps w h g = Inr g' \<and> ok g' \<and> dims g' = dims g \<and> drawn (dims g) (pix g) (pix g') x y ps w h"
begin

lemma draw_tile:
  assumes "ok g" and "0 \<le> bx" and "0 \<le> br" and "length ps = 64"
  shows "\<exists>g'. draw (8 * bx) (8 * br) ps 8 8 g = Inr g' \<and> ok g' \<and> dims g' = dims g \<and>
    (\<forall>q. on_screen (dims g) q \<longrightarrow>
      tile_of (pix g') q = (if q = (bx, br) then List.map to_pixel ps else tile_of (pix g) q))"
  using draw_ok [of g "8 * bx" "8 * br" 8 ps 8] drawn_tile [where ps = ps] assms by fastforce

end

lemma gpu_fbdraw_ok:
  assumes g: "gpu_ok g" and x: "0 \<le> x" "0 \<le> y" "0 \<le> w" and l: "int (length ps) = w * h"
  shows "\<exists>g'. gpu_fbdraw x y ps w h g = Inr g' \<and> gpu_ok g' \<and> gpu_config g' = gpu_config g \<and>
    drawn (gpu_config g) (screen g) (screen g') x y ps w h"
proof -
  let ?W = "disp_w g" and ?H = "disp_h g"
  let ?len = "if ?W \<le> x + w then ?W - x else w"
  have len: "?len \<le> w" "x + ?len \<le> ?W" by auto
  have gd: "0 \<le> ?W" "int (length (disp_fb g)) = ?W * ?H" using g by (simp_all add: gpu_ok_def)
  obtain m where m: "fbdraw_rows ps ?W ?H x y w h ?len 0 (disp_fb g) = Inr m" "length m = length (disp_fb g)"
      "\<And>X Y. 0 \<le> X \<Longrightarrow> X < ?W \<Longrightarrow> 0 \<le> Y \<Longrightarrow> Y < ?H \<Longrightarrow> m ! nat (X + Y * ?W) =
        (if x \<le> X \<and> X < x + ?len \<and> y + 0 \<le> Y \<and> Y < y + h
         then to_pixel (ps ! nat ((Y - y) * w + (X - x))) else disp_fb g ! nat (X + Y * ?W))"
    using fbdraw_rows_ok [OF order_refl x len gd(1) l gd(2)] by blast
  have "drawn (gpu_config g) (screen g) (screen (g\<lparr>disp_fb := m\<rparr>)) x y ps w h"
    using m(3) by (auto simp: drawn_def screen_def gpu_config_def)
  then show ?thesis using m(1,2) g by (simp add: gpu_fbdraw_def gpu_ok_def gpu_config_def Let_def)
qed

interpretation qemu: surface gpu_ok gpu_config screen gpu_fbdraw
  by unfold_locales (rule gpu_fbdraw_ok)

end
