(* ===== verification/Dev_Fb.thy ===== *)
theory Dev_Fb
  imports Bytes Gpu Kmt
begin

text \<open>
  The frame buffer device, \<open>kernel/src/dev/dev_video.c\<close>: textures, the font, and sprites drawn
  with the platform's \<open>AM_GPU_FBDRAW\<close>, here the \<open>draw\<close> of a surface \<open>'g\<close>. The buffers the callers
  pass are bytes, as the code casts them.
\<close>

unbundle bit_operations_syntax

section \<open>Data\<close>

definition NTEXTURE :: nat where "NTEXTURE = 16384"
definition NSPRITE :: nat where "NSPRITE = 16384"
definition TEXTURE_W :: nat where "TEXTURE_W = 8"
definition TEXTURE_H :: nat where "TEXTURE_H = 8"
definition SPRITE_BRK :: int where "SPRITE_BRK = 16777216"

record display_info =
  width :: u32
  height :: u32
  num_displays :: u32
  current :: u32
  num_textures :: u32
  num_sprites :: u32

definition info_bytes :: "display_info \<Rightarrow> u8 list" where
  "info_bytes i = le32 (width i) @ le32 (height i) @ le32 (num_displays i) @ le32 (current i) @
     le32 (num_textures i) @ le32 (num_sprites i)"

definition of_info_bytes :: "u8 list \<Rightarrow> display_info" where
  "of_info_bytes bs = \<lparr>width = of_le32 bs, height = of_le32 (drop 4 bs), num_displays = of_le32 (drop 8 bs),
     current = of_le32 (drop 12 bs), num_textures = of_le32 (drop 16 bs), num_sprites = of_le32 (drop 20 bs)\<rparr>"

definition SIZEOF_INFO :: int where "SIZEOF_INFO = 24"

text \<open>A texture is its 64 pixels; in memory 256 bytes.\<close>

definition texture_bytes :: "u32 list \<Rightarrow> u8 list" where
  "texture_bytes t = array_bytes le32 t"

definition of_texture_bytes :: "u8 list \<Rightarrow> u32 list" where
  "of_texture_bytes bs = of_array_bytes 4 of_le32 64 bs"

text \<open>\<open>struct sprite\<close>, packed into 8 bytes: the bit fields \<open>display\<close> and \<open>z\<close> share the last two.\<close>

record sprite =
  texture :: u16
  sp_x :: u16
  sp_y :: u16
  sp_display :: "4 word"
  sp_z :: "12 word"

definition sprite_bytes :: "sprite \<Rightarrow> u8 list" where
  "sprite_bytes sp = le16 (texture sp) @ le16 (sp_x sp) @ le16 (sp_y sp) @
     le16 (ucast (sp_display sp) OR push_bit 4 (ucast (sp_z sp)))"

definition of_sprite_bytes :: "u8 list \<Rightarrow> sprite" where
  "of_sprite_bytes bs = \<lparr>texture = of_le16 bs, sp_x = of_le16 (drop 2 bs), sp_y = of_le16 (drop 4 bs),
     sp_display = ucast (of_le16 (drop 6 bs)), sp_z = ucast (drop_bit 4 (of_le16 (drop 6 bs)))\<rparr>"

definition SIZEOF_SPRITE :: nat where "SIZEOF_SPRITE = 8"

record 's fb_t =
  fb_sem :: 's
  info :: display_info
  textures :: "u32 list list"

section \<open>Textures\<close>

text \<open>\<open>bitmask >> (7 - x) & 1\<close> of row \<open>y\<close> of the upper or lower half of a glyph, \<open>*px++\<close>.\<close>

definition texture_px :: "bool \<Rightarrow> u8 list \<Rightarrow> u32 \<Rightarrow> u32 \<Rightarrow> nat \<Rightarrow> nat \<Rightarrow> u32" where
  "texture_px lower bits fg bg y x =
     (let bitmask = (if lower then bits ! (y + TEXTURE_H) else bits ! y)
      in if drop_bit (7 - x) bitmask AND 1 \<noteq> 0 then fg else bg)"

definition texture_fill :: "bool \<Rightarrow> u8 list \<Rightarrow> u32 \<Rightarrow> u32 \<Rightarrow> u32 list" where
  "texture_fill lower bits fg bg =
     concat (List.map (\<lambda>y. List.map (texture_px lower bits fg bg y) [0..<TEXTURE_W]) [0..<TEXTURE_H])"

primrec font_load_loop :: "nat \<Rightarrow> u8 list \<Rightarrow> nat \<Rightarrow> u32 list list \<Rightarrow> u32 list list" where
  "font_load_loop 0 font ch ts = ts"
| "font_load_loop (Suc n) font ch ts =
     (let glyph = drop (16 * ch) font;
          ts = ts[ch * 2 + 1 := texture_fill False glyph 0xeeeeee 0];
          ts = ts[ch * 2 + 2 := texture_fill True glyph 0xeeeeee 0]
      in font_load_loop n font (ch + 1) ts)"

definition font_load :: "u8 list \<Rightarrow> 's fb_t \<Rightarrow> 's fb_t" where
  "font_load font fb = fb\<lparr>textures := font_load_loop 256 font 0 (textures fb)\<rparr>"

text \<open>
  \<open>fb_init\<close>: \<open>ts\<close> is what the allocated textures hold, \<open>cfg\<close> what \<open>AM_GPU_CONFIG\<close> answers,
  \<open>sem\<close> the semaphore \<open>kmt->sem_init\<close> gives with value 1.
\<close>

definition fb_init :: "u8 list \<Rightarrow> u32 list list \<Rightarrow> int \<times> int \<Rightarrow> 's \<Rightarrow> int \<times> 's fb_t" where
  "fb_init font ts cfg sem =
     (0, font_load font \<lparr>fb_sem = sem,
        info = \<lparr>width = of_int (fst cfg), height = of_int (snd cfg), num_displays = 8, current = 0,
                num_textures = of_nat NTEXTURE, num_sprites = of_nat NSPRITE\<rparr>,
        textures = ts\<rparr>)"

section \<open>Reading and writing the device\<close>

definition fb_read :: "'s fb_t \<Rightarrow> int \<Rightarrow> int \<Rightarrow> int \<times> u8 list option" where
  "fb_read fb offset count =
     (if offset \<noteq> 0 then (0, None)
      else if count \<noteq> SIZEOF_INFO then (0, None)
      else (0, Some (info_bytes (info fb))))"

text \<open>The sprites of \<open>[buf, buf + count)\<close>, drawn in order.\<close>

type_synonym 'g draw = "int \<Rightarrow> int \<Rightarrow> u32 list \<Rightarrow> int \<Rightarrow> int \<Rightarrow> 'g \<Rightarrow> 'g res"

fun draw_sprites :: "'g draw \<Rightarrow> 's fb_t \<Rightarrow> sprite list \<Rightarrow> 'g \<Rightarrow> 'g res" where
  "draw_sprites draw fb [] g = Inr g"
| "draw_sprites draw fb (sp # sps) g =
     res_bind
       (if 0 < texture sp \<and> ucast (sp_display sp) = current (info fb) then
          res_bind (guard BadAccess (unat (texture sp) < length (textures fb))) (\<lambda>_.
            draw (uint (sp_x sp)) (uint (sp_y sp)) (textures fb ! unat (texture sp)) (int TEXTURE_W) (int TEXTURE_H) g)
        else Inr g)
       (draw_sprites draw fb sps)"

definition fb_write ::
  "('l, 's) kmt \<Rightarrow> 'g draw \<Rightarrow> int \<Rightarrow> u8 list \<Rightarrow> int \<Rightarrow> 's fb_t \<Rightarrow> 'g \<Rightarrow> (int \<times> 's fb_t \<times> 'g) res" where
  "fb_write K draw offset buf count fb g =
     res_bind (k_sem_wait K (fb_sem fb)) (\<lambda>s.
     let fb = fb\<lparr>fb_sem := s\<rparr> in
     res_bind
       (if offset = 0 then
          res_bind (guard BadAccess (SIZEOF_INFO \<le> int (length buf))) (\<lambda>_.
          let inf = of_info_bytes buf
          in if current (info fb) \<noteq> current inf
             then Inr (fb\<lparr>info := (info fb)\<lparr>current := current inf\<rparr>\<rparr>, g)
             else Inr (fb, g))
        else if offset < SPRITE_BRK then
          res_bind (guard BadAccess (0 \<le> count \<and> count \<le> int (length buf))) (\<lambda>_.
          res_bind (overwrite offset (take (nat count) buf) (array_bytes texture_bytes (textures fb))) (\<lambda>bs.
            Inr (fb\<lparr>textures := of_array_bytes 256 of_texture_bytes (length (textures fb)) bs\<rparr>, g)))
        else
          let n = (nat count + SIZEOF_SPRITE - 1) div SIZEOF_SPRITE
          in res_bind (guard BadAccess (n * SIZEOF_SPRITE \<le> length buf)) (\<lambda>_.
             res_bind (draw_sprites draw fb (of_array_bytes SIZEOF_SPRITE of_sprite_bytes n buf) g) (\<lambda>g.
               Inr (fb, g))))
       (\<lambda>(fb, g). Inr (count, fb\<lparr>fb_sem := k_sem_signal K (fb_sem fb)\<rparr>, g)))"

section \<open>Round trips\<close>

lemma length_bytes [simp]: "length (sprite_bytes sp) = 8" "length (info_bytes i) = 24"
  by (simp_all add: sprite_bytes_def info_bytes_def)

lemma bitfield_round_trip:
  fixes d :: "4 word" and z :: "12 word"
  defines "w \<equiv> (ucast d OR push_bit 4 (ucast z) :: u16)"
  shows "ucast w = d" "ucast (drop_bit 4 w) = z"
  unfolding w_def by (rule bit_word_eqI; auto simp: bit_simps dest: bit_imp_le_length)+

lemma of_sprite_bytes_round_trip [simp]: "of_sprite_bytes (sprite_bytes sp) = sp"
proof -
  have "drop 2 (sprite_bytes sp) = le16 (sp_x sp) @ le16 (sp_y sp) @ le16 (ucast (sp_display sp) OR push_bit 4 (ucast (sp_z sp)))"
    "drop 4 (sprite_bytes sp) = le16 (sp_y sp) @ le16 (ucast (sp_display sp) OR push_bit 4 (ucast (sp_z sp)))"
    "drop 6 (sprite_bytes sp) = le16 (ucast (sp_display sp) OR push_bit 4 (ucast (sp_z sp))) @ []"
    by (simp_all add: sprite_bytes_def)
  moreover have "of_le16 (sprite_bytes sp) = texture sp" by (simp add: sprite_bytes_def)
  ultimately show ?thesis by (simp only: of_sprite_bytes_def of_le16_le16 bitfield_round_trip) simp
qed

lemma of_info_bytes_round_trip [simp]: "of_info_bytes (info_bytes i) = i"
proof -
  have "drop 4 (info_bytes i) = le32 (height i) @ le32 (num_displays i) @ le32 (current i) @ le32 (num_textures i) @ le32 (num_sprites i)"
    "drop 8 (info_bytes i) = le32 (num_displays i) @ le32 (current i) @ le32 (num_textures i) @ le32 (num_sprites i)"
    "drop 12 (info_bytes i) = le32 (current i) @ le32 (num_textures i) @ le32 (num_sprites i)"
    "drop 16 (info_bytes i) = le32 (num_textures i) @ le32 (num_sprites i)"
    "drop 20 (info_bytes i) = le32 (num_sprites i) @ []"
    by (simp_all add: info_bytes_def)
  moreover have "of_le32 (info_bytes i) = width i" by (simp add: info_bytes_def)
  ultimately show ?thesis by (simp only: of_info_bytes_def of_le32_le32) simp
qed

lemma texture_bytes_round_trip:
  assumes "length t = 64"
  shows "length (texture_bytes t) = 256" and "of_texture_bytes (texture_bytes t) = t"
proof -
  show "length (texture_bytes t) = 256"
    using length_array_bytes [of t le32 4] assms by (simp add: texture_bytes_def)
  have "of_array_bytes 4 of_le32 (length t) (array_bytes le32 t @ []) = t"
  proof (rule array_bytes_round_trip)
    show "length (le32 x) = 4 \<and> of_le32 (le32 x) = x" if "x \<in> set t" for x
      using of_le32_le32 [of x "[]"] by simp
  qed
  then show "of_texture_bytes (texture_bytes t) = t" using assms by (simp add: of_texture_bytes_def texture_bytes_def)
qed

section \<open>The font\<close>

lemma length_texture_fill [simp]: "length (texture_fill lower bits fg bg) = 64"
  by (simp add: texture_fill_def TEXTURE_W_def TEXTURE_H_def length_concat o_def sum_list_triv)

lemma texture_fill_nth:
  assumes "x < 8" and "y < 8"
  shows "texture_fill lower bits fg bg ! (8 * y + x) = texture_px lower bits fg bg y x"
proof -
  have "concat (List.map (\<lambda>y. List.map (texture_px lower bits fg bg y) [0..<8]) [0..<n]) ! (8 * y + x) =
      texture_px lower bits fg bg y x" if "y < n" for n
    using that
  proof (induction n)
    case (Suc n)
    have l: "length (concat (List.map (\<lambda>y. List.map (texture_px lower bits fg bg y) [0..<8]) [0..<n])) = 8 * n"
      by (simp add: length_concat o_def sum_list_triv)
    show ?case
    proof (cases "y = n")
      case True
      then show ?thesis using l assms(1) by (simp add: nth_append)
    next
      case False
      then have "y < n" using Suc.prems by simp
      then have "8 * y + x < 8 * n" using assms(1) by linarith
      then show ?thesis using Suc.IH \<open>y < n\<close> l by (simp add: nth_append)
    qed
  qed simp
  then show ?thesis using assms(2) by (simp add: texture_fill_def TEXTURE_W_def TEXTURE_H_def)
qed

definition glyph_top :: "u8 list \<Rightarrow> nat \<Rightarrow> u32 list" where
  "glyph_top font ch = texture_fill False (drop (16 * ch) font) 0xeeeeee 0"

definition glyph_bottom :: "u8 list \<Rightarrow> nat \<Rightarrow> u32 list" where
  "glyph_bottom font ch = texture_fill True (drop (16 * ch) font) 0xeeeeee 0"

lemma font_load_loop_ok:
  "2 * (ch + n) < length ts \<Longrightarrow>
   length (font_load_loop n font ch ts) = length ts \<and>
   (\<forall>c. c < ch \<longrightarrow> font_load_loop n font ch ts ! (2 * c + 1) = ts ! (2 * c + 1) \<and>
       font_load_loop n font ch ts ! (2 * c + 2) = ts ! (2 * c + 2)) \<and>
   (\<forall>c. ch \<le> c \<and> c < ch + n \<longrightarrow> font_load_loop n font ch ts ! (2 * c + 1) = glyph_top font c \<and>
       font_load_loop n font ch ts ! (2 * c + 2) = glyph_bottom font c)"
proof (induction n arbitrary: ch ts)
  case (Suc n)
  let ?ts = "ts[ch * 2 + 1 := glyph_top font ch, ch * 2 + 2 := glyph_bottom font ch]"
  have s: "font_load_loop (Suc n) font ch ts = font_load_loop n font (ch + 1) ?ts"
    by (simp add: glyph_top_def glyph_bottom_def Let_def)
  have IH: "length (font_load_loop n font (ch + 1) ?ts) = length ?ts"
    "\<And>c. c < ch + 1 \<Longrightarrow> font_load_loop n font (ch + 1) ?ts ! (2 * c + 1) = ?ts ! (2 * c + 1) \<and>
       font_load_loop n font (ch + 1) ?ts ! (2 * c + 2) = ?ts ! (2 * c + 2)"
    "\<And>c. ch + 1 \<le> c \<and> c < ch + 1 + n \<Longrightarrow> font_load_loop n font (ch + 1) ?ts ! (2 * c + 1) = glyph_top font c \<and>
       font_load_loop n font (ch + 1) ?ts ! (2 * c + 2) = glyph_bottom font c"
    using Suc.IH [of "ch + 1" ?ts] Suc.prems by auto
  have old: "?ts ! (2 * c + 1) = ts ! (2 * c + 1)" "?ts ! (2 * c + 2) = ts ! (2 * c + 2)" if "c < ch" for c
    using that by simp_all
  have new: "?ts ! (2 * ch + 1) = glyph_top font ch" "?ts ! (2 * ch + 2) = glyph_bottom font ch"
    using Suc.prems by (simp_all add: mult.commute)
  show ?case unfolding s
  proof (intro conjI allI impI)
    fix c assume "c < ch"
    then show "font_load_loop n font (ch + 1) ?ts ! (2 * c + 1) = ts ! (2 * c + 1)"
      "font_load_loop n font (ch + 1) ?ts ! (2 * c + 2) = ts ! (2 * c + 2)"
      using IH(2) [of c] old by simp_all
  next
    fix c assume c: "ch \<le> c \<and> c < ch + Suc n"
    show "font_load_loop n font (ch + 1) ?ts ! (2 * c + 1) = glyph_top font c"
      "font_load_loop n font (ch + 1) ?ts ! (2 * c + 2) = glyph_bottom font c"
      using c IH(2) [of c] IH(3) [of c] new by (cases "c = ch"; simp)+
  qed (use IH(1) in simp)
qed auto

section \<open>Sprites on a surface\<close>

text \<open>
  What one sprite does to the tile \<open>q\<close>. Sprites at multiples of 8 cover one tile each, so a list of
  them leaves on each tile the texture of the last one there.
\<close>

definition sprite_place :: "sprite \<Rightarrow> int \<times> int" where
  "sprite_place sp = (uint (sp_x sp) div 8, uint (sp_y sp) div 8)"

definition visible :: "'s fb_t \<Rightarrow> sprite \<Rightarrow> bool" where
  "visible fb sp \<longleftrightarrow> 0 < texture sp \<and> ucast (sp_display sp) = current (info fb)"

definition sprite_effect :: "'s fb_t \<Rightarrow> int \<times> int \<Rightarrow> sprite \<Rightarrow> pixel list \<Rightarrow> pixel list" where
  "sprite_effect fb q sp t =
     (if visible fb sp \<and> sprite_place sp = q then List.map to_pixel (textures fb ! unat (texture sp)) else t)"

definition sprite_ok :: "'s fb_t \<Rightarrow> sprite \<Rightarrow> bool" where
  "sprite_ok fb sp \<longleftrightarrow> 8 dvd uint (sp_x sp) \<and> 8 dvd uint (sp_y sp) \<and>
     unat (texture sp) < length (textures fb) \<and> length (textures fb ! unat (texture sp)) = 64"

context surface begin

lemma draw_sprites_ok:
  "ok g \<Longrightarrow> \<forall>sp \<in> set sps. sprite_ok fb sp \<Longrightarrow>
   \<exists>g'. draw_sprites draw fb sps g = Inr g' \<and> ok g' \<and> dims g' = dims g \<and>
     (\<forall>q. on_screen (dims g) q \<longrightarrow> tile_of (pix g') q = fold (sprite_effect fb q) sps (tile_of (pix g) q))"
proof (induction sps arbitrary: g)
  case Nil
  then show ?case by simp
next
  case (Cons sp sps)
  have sp: "sprite_ok fb sp" and rest: "\<forall>sp \<in> set sps. sprite_ok fb sp" using Cons.prems(2) by simp_all
  show ?case
  proof (cases "visible fb sp")
    case True
    obtain bx br where b: "uint (sp_x sp) = 8 * bx" "uint (sp_y sp) = 8 * br" using sp by (auto simp: sprite_ok_def elim!: dvdE)
    have place: "sprite_place sp = (bx, br)" using b by (simp add: sprite_place_def)
    have "0 \<le> uint (sp_x sp)" "0 \<le> uint (sp_y sp)" by simp_all
    then have pos: "0 \<le> bx" "0 \<le> br" unfolding b by simp_all
    let ?ps = "textures fb ! unat (texture sp)"
    obtain g1 where g1: "draw (8 * bx) (8 * br) ?ps 8 8 g = Inr g1" "ok g1" "dims g1 = dims g"
        "\<And>q. on_screen (dims g) q \<Longrightarrow> tile_of (pix g1) q = (if q = (bx, br) then List.map to_pixel ?ps else tile_of (pix g) q)"
      using draw_tile [OF Cons.prems(1) pos, of ?ps] sp by (auto simp: sprite_ok_def)
    obtain g' where g': "draw_sprites draw fb sps g1 = Inr g'" "ok g'" "dims g' = dims g1"
        "\<And>q. on_screen (dims g1) q \<Longrightarrow> tile_of (pix g') q = fold (sprite_effect fb q) sps (tile_of (pix g1) q)"
      using Cons.IH [OF g1(2) rest] by blast
    have "tile_of (pix g1) q = sprite_effect fb q sp (tile_of (pix g) q)" if "on_screen (dims g) q" for q
      using g1(4) [OF that] True place by (auto simp: sprite_effect_def)
    moreover have "draw_sprites draw fb (sp # sps) g = Inr g'"
      using True b g1(1) g'(1) sp by (simp add: visible_def sprite_ok_def TEXTURE_W_def TEXTURE_H_def)
    ultimately show ?thesis using g' g1(3) by auto
  next
    case False
    then have "draw_sprites draw fb (sp # sps) g = draw_sprites draw fb sps g" by (auto simp: visible_def)
    moreover have "sprite_effect fb q sp t = t" for q t using False by (simp add: sprite_effect_def)
    ultimately show ?thesis using Cons.IH [OF Cons.prems(1) rest] by simp
  qed
qed

lemma fb_write_sprites:
  assumes K: "kmt_ok K unheld count" and sem: "count (fb_sem fb) = 1" and g: "ok g"
    and sps: "\<forall>sp \<in> set sps. sprite_ok fb sp"
  shows "\<exists>s g'. fb_write K draw SPRITE_BRK (array_bytes sprite_bytes sps) (int (length sps * 8)) fb g =
      Inr (int (length sps * 8), fb\<lparr>fb_sem := s\<rparr>, g') \<and>
    count s = 1 \<and> ok g' \<and> dims g' = dims g \<and>
    (\<forall>q. on_screen (dims g) q \<longrightarrow> tile_of (pix g') q = fold (sprite_effect fb q) sps (tile_of (pix g) q))"
proof -
  obtain s where s: "k_sem_wait K (fb_sem fb) = Inr s" "count s = 0"
    using kmt_ok_wait [OF K, of "fb_sem fb"] sem by auto
  let ?fb = "fb\<lparr>fb_sem := s\<rparr>"
  have same: "sprite_ok ?fb sp = sprite_ok fb sp" "sprite_effect ?fb q sp t = sprite_effect fb q sp t" for sp q t
    by (simp_all add: sprite_ok_def sprite_effect_def visible_def)
  have eff: "sprite_effect ?fb q = sprite_effect fb q" for q by (intro ext) (rule same(2))
  obtain g' where g': "draw_sprites draw ?fb sps g = Inr g'" "ok g'" "dims g' = dims g"
      "\<forall>q. on_screen (dims g) q \<longrightarrow> tile_of (pix g') q = fold (sprite_effect fb q) sps (tile_of (pix g) q)"
    using draw_sprites_ok [OF g, of sps ?fb] sps unfolding eff by (auto simp: same)
  have n: "(7 + nat (int (length sps) * 8)) div 8 = length sps" by (simp add: nat_mult_distrib)
  have "of_array_bytes 8 of_sprite_bytes (length sps) (array_bytes sprite_bytes sps @ []) = sps"
    by (rule array_bytes_round_trip) simp
  moreover have "length (array_bytes sprite_bytes sps) = length sps * 8" by (rule length_array_bytes) simp
  ultimately have "fb_write K draw SPRITE_BRK (array_bytes sprite_bytes sps) (int (length sps * 8)) fb g =
      Inr (int (length sps * 8), ?fb\<lparr>fb_sem := k_sem_signal K s\<rparr>, g')"
    using s(1) g'(1) n by (simp add: fb_write_def SPRITE_BRK_def SIZEOF_SPRITE_def Let_def)
  then show ?thesis using g' kmt_ok_signal [OF K, of s] s(2) by auto
qed

end

lemma glyph_pixel:
  assumes "length font = 4096" and "ch < 256" and "x < 8" and "y < 8"
  shows "glyph_top font ch ! (8 * y + x) = (if bit (font ! (16 * ch + y)) (7 - x) then 0xeeeeee else 0)"
    and "glyph_bottom font ch ! (8 * y + x) = (if bit (font ! (16 * ch + y + 8)) (7 - x) then 0xeeeeee else 0)"
proof -
  have b: "drop_bit n w AND 1 \<noteq> 0 \<longleftrightarrow> bit w n" for n :: nat and w :: u8
    by (simp add: and_one_eq bit_iff_odd_drop_bit odd_iff_mod_2_eq_one)
  show "glyph_top font ch ! (8 * y + x) = (if bit (font ! (16 * ch + y)) (7 - x) then 0xeeeeee else 0)"
    "glyph_bottom font ch ! (8 * y + x) = (if bit (font ! (16 * ch + y + 8)) (7 - x) then 0xeeeeee else 0)"
    unfolding glyph_top_def glyph_bottom_def texture_fill_nth [OF assms(3,4)]
    using assms by (simp_all add: texture_px_def b TEXTURE_H_def add.assoc)
qed

text \<open>The state \<open>fb_init\<close> leaves: each character's two textures, all textures of full size.\<close>

definition fb_ready :: "u8 list \<Rightarrow> 's fb_t \<Rightarrow> bool" where
  "fb_ready font fb \<longleftrightarrow> 512 < length (textures fb) \<and>
     (\<forall>ch < 256. textures fb ! (2 * ch + 1) = glyph_top font ch \<and> textures fb ! (2 * ch + 2) = glyph_bottom font ch)"

lemma fb_init_ready:
  assumes "length ts = NTEXTURE"
  shows "fb_ready font (snd (fb_init font ts cfg sem)) \<and> fb_sem (snd (fb_init font ts cfg sem)) = sem \<and>
    current (info (snd (fb_init font ts cfg sem))) = 0 \<and> length (textures (snd (fb_init font ts cfg sem))) = NTEXTURE"
  using font_load_loop_ok [of 0 256 ts font] assms
  by (simp add: fb_ready_def fb_init_def font_load_def NTEXTURE_def)

lemma length_glyph [simp]: "length (glyph_top font ch) = 64" "length (glyph_bottom font ch) = 64"
  by (simp_all add: glyph_top_def glyph_bottom_def)

text \<open>The two sprites the terminal sends for the character \<open>ch\<close> at the tiles \<open>(bx, br)\<close> and below.\<close>

definition glyph_sprites :: "4 word \<Rightarrow> u8 \<Rightarrow> nat \<Rightarrow> nat \<Rightarrow> sprite list" where
  "glyph_sprites d ch bx br =
     [\<lparr>texture = ucast ch * 2 + 1, sp_x = of_nat (8 * bx), sp_y = of_nat (8 * br), sp_display = d, sp_z = 0\<rparr>,
      \<lparr>texture = ucast ch * 2 + 2, sp_x = of_nat (8 * bx), sp_y = of_nat (8 * br + 8), sp_display = d, sp_z = 0\<rparr>]"

lemma glyph_texture:
  fixes ch :: u8
  shows "unat (ucast ch * 2 + 1 :: u16) = 2 * unat ch + 1" "unat (ucast ch * 2 + 2 :: u16) = 2 * unat ch + 2"
proof -
  have "unat ch < 256" using unsigned_less [of ch] by simp
  moreover have "unat (ucast ch :: u16) = unat ch" by (rule unat_ucast_up) simp
  ultimately show "unat (ucast ch * 2 + 1 :: u16) = 2 * unat ch + 1" "unat (ucast ch * 2 + 2 :: u16) = 2 * unat ch + 2"
    by (simp_all add: unat_word_ariths)
qed

text \<open>Places within the 16 bits of a sprite.\<close>

definition small_place :: "nat \<Rightarrow> nat \<Rightarrow> bool" where
  "small_place bx br \<longleftrightarrow> 8 * bx < 2 ^ 16 \<and> 8 * br + 8 < 2 ^ 16"

lemma sprite_coordinate: "n < 2 ^ 16 \<Longrightarrow> uint (of_nat n :: u16) = int n"
proof -
  assume "n < 2 ^ 16"
  then have u: "unat (of_nat n :: u16) = n" by (intro unat_of_nat_small) simp
  have "uint (of_nat n :: u16) = int (unat (of_nat n :: u16))" by simp
  then show ?thesis by (simp only: u)
qed

lemma glyph_sprites_ok:
  assumes fb: "fb_ready font fb" and pl: "small_place bx br"
  shows "\<forall>sp \<in> set (glyph_sprites d ch bx br). sprite_ok fb sp"
    and "ucast d = current (info fb) \<Longrightarrow> fold (sprite_effect fb q) (glyph_sprites d ch bx br) t =
      (if q = (int bx, int br) then List.map to_pixel (glyph_top font (unat ch))
       else if q = (int bx, int br + 1) then List.map to_pixel (glyph_bottom font (unat ch)) else t)"
    and "ucast d \<noteq> current (info fb) \<Longrightarrow> fold (sprite_effect fb q) (glyph_sprites d ch bx br) t = t"
proof -
  have c: "unat ch < 256" using unsigned_less [of ch] by simp
  have t: "unat (ucast ch * 2 + 1 :: u16) < length (textures fb)" "unat (ucast ch * 2 + 2 :: u16) < length (textures fb)"
      "textures fb ! unat (ucast ch * 2 + 1 :: u16) = glyph_top font (unat ch)"
      "textures fb ! unat (ucast ch * 2 + 2 :: u16) = glyph_bottom font (unat ch)"
    using fb c by (simp_all add: fb_ready_def glyph_texture)
  have nz: "0 < (ucast ch * 2 + 1 :: u16)" "0 < (ucast ch * 2 + 2 :: u16)"
    unfolding word_less_nat_alt glyph_texture by simp_all
  have xy: "uint (of_nat (8 * bx) :: u16) = int (8 * bx)" "uint (of_nat (8 * br) :: u16) = int (8 * br)"
      "uint (of_nat (8 * br + 8) :: u16) = int (8 * br + 8)"
    using pl by (auto simp only: small_place_def intro!: sprite_coordinate)
  show "\<forall>sp \<in> set (glyph_sprites d ch bx br). sprite_ok fb sp"
    unfolding glyph_sprites_def using t
    by (simp add: sprite_ok_def xy del: of_nat_mult of_nat_add) simp
  have p: "sprite_place (\<lparr>texture = ucast ch * 2 + 1, sp_x = of_nat (8 * bx), sp_y = of_nat (8 * br), sp_display = d, sp_z = 0\<rparr>) = (int bx, int br)"
    "sprite_place (\<lparr>texture = ucast ch * 2 + 2, sp_x = of_nat (8 * bx), sp_y = of_nat (8 * br + 8), sp_display = d, sp_z = 0\<rparr>) = (int bx, int br + 1)"
    by (simp_all only: sprite_place_def sprite.simps xy) simp_all
  show "fold (sprite_effect fb q) (glyph_sprites d ch bx br) t =
      (if q = (int bx, int br) then List.map to_pixel (glyph_top font (unat ch))
       else if q = (int bx, int br + 1) then List.map to_pixel (glyph_bottom font (unat ch)) else t)"
    if "ucast d = current (info fb)"
    using that nz unfolding glyph_sprites_def by (auto simp: sprite_effect_def p visible_def t simp del: of_nat_mult of_nat_add)
  show "fold (sprite_effect fb q) (glyph_sprites d ch bx br) t = t" if "ucast d \<noteq> current (info fb)"
    using that by (simp add: glyph_sprites_def sprite_effect_def visible_def)
qed

section \<open>Properties\<close>

text \<open>
  Characters reach the screen. After \<open>fb_init\<close> with a 4096-byte font, writing the two sprites of
  the character \<open>ch\<close> for the display in front draws it on the qemu frame buffer: the two tiles show
  the glyph, bit \<open>7 - x\<close> of byte \<open>16 * ch + y\<close> deciding column \<open>x\<close> of row \<open>y\<close>, every other tile
  keeps its pixels, and sprites of another display change nothing.
\<close>

theorem fb_draws_glyph:
  assumes "kmt_ok K unheld count" and "count sem = 1" and "length font = 4096" and "length ts = NTEXTURE" and "gpu_ok g"
    and "small_place bx br"
  defines "fb \<equiv> snd (fb_init font ts (gpu_config g) sem)"
  shows "\<exists>fb' g'. fb_write K gpu_fbdraw SPRITE_BRK (array_bytes sprite_bytes (glyph_sprites d ch bx br)) 16 fb g = Inr (16, fb', g') \<and>
    gpu_ok g' \<and> gpu_config g' = gpu_config g \<and>
    (\<forall>q. on_screen (gpu_config g) q \<longrightarrow> tile_of (screen g') q =
      (if d = 0 \<and> q = (int bx, int br) then List.map to_pixel (glyph_top font (unat ch))
       else if d = 0 \<and> q = (int bx, int br + 1) then List.map to_pixel (glyph_bottom font (unat ch))
       else tile_of (screen g) q)) \<and>
    (\<forall>x y. x < 8 \<and> y < 8 \<longrightarrow>
      glyph_top font (unat ch) ! (8 * y + x) = (if bit (font ! (16 * unat ch + y)) (7 - x) then 0xeeeeee else 0) \<and>
      glyph_bottom font (unat ch) ! (8 * y + x) = (if bit (font ! (16 * unat ch + y + 8)) (7 - x) then 0xeeeeee else 0))"
proof -
  have fb: "fb_ready font fb" "fb_sem fb = sem" "current (info fb) = 0"
    using fb_init_ready [OF assms(4), of font "gpu_config g" sem] by (simp_all add: fb_def)
  have d: "ucast d = (0 :: u32) \<longleftrightarrow> d = 0"
  proof -
    have "unat (ucast d :: u32) = unat d" by (rule unat_ucast_up) simp
    then show ?thesis by (metis unsigned_0 unsigned_eq_0_iff)
  qed
  have "length (glyph_sprites d ch bx br) = 2" by (simp add: glyph_sprites_def)
  then obtain s g' where g': "fb_write K gpu_fbdraw SPRITE_BRK (array_bytes sprite_bytes (glyph_sprites d ch bx br)) 16 fb g =
      Inr (16, fb\<lparr>fb_sem := s\<rparr>, g')" "gpu_ok g'" "gpu_config g' = gpu_config g"
      "\<And>q. on_screen (gpu_config g) q \<Longrightarrow> tile_of (screen g') q =
        fold (sprite_effect fb q) (glyph_sprites d ch bx br) (tile_of (screen g) q)"
    using qemu.fb_write_sprites [OF assms(1) _ assms(5) glyph_sprites_ok(1) [OF fb(1) assms(6)], of d ch] assms(2) fb(2)
    by auto
  have "tile_of (screen g') q = (if d = 0 \<and> q = (int bx, int br) then List.map to_pixel (glyph_top font (unat ch))
       else if d = 0 \<and> q = (int bx, int br + 1) then List.map to_pixel (glyph_bottom font (unat ch))
       else tile_of (screen g) q)" if "on_screen (gpu_config g) q" for q
    using g'(4) [OF that] glyph_sprites_ok(2,3) [OF fb(1) assms(6), of d] fb(3) d by (cases "d = 0") auto
  moreover have "unat ch < 256" using unsigned_less [of ch] by simp
  ultimately show ?thesis using g'(1-3) glyph_pixel [OF assms(3)] by blast
qed

text \<open>A screen of 16 by 16 pixels, as the witness uses it.\<close>

definition ex_screen :: gpu_st where
  "ex_screen = gpu_init 16 16 (replicate 256 (to_pixel 0))"

lemma ex_screen_ok: "gpu_ok ex_screen \<and> gpu_config ex_screen = (16, 16)"
  by (simp add: ex_screen_def gpu_init_def gpu_ok_def gpu_config_def)

theorem fb_draws_glyph_witness:
  "\<exists>fb' g'. fb_write plain_kmt gpu_fbdraw SPRITE_BRK (array_bytes sprite_bytes (glyph_sprites 0 65 1 0)) 16
      (snd (fb_init (replicate 4096 255) (replicate NTEXTURE []) (16, 16) 1)) ex_screen = Inr (16, fb', g') \<and>
    tile_of (screen g') (1, 0) = List.map to_pixel (glyph_top (replicate 4096 255) 65)"
proof -
  have "kmt_ok plain_kmt (\<lambda>l. \<not> l) (\<lambda>s. s)" by (rule plain_kmt_ok)
  moreover have "small_place 1 0" by (simp add: small_place_def)
  ultimately obtain fb' g' where g': "fb_write plain_kmt gpu_fbdraw SPRITE_BRK (array_bytes sprite_bytes (glyph_sprites 0 65 1 0)) 16
      (snd (fb_init (replicate 4096 255) (replicate NTEXTURE []) (gpu_config ex_screen) 1)) ex_screen = Inr (16, fb', g')"
    "\<forall>q. on_screen (gpu_config ex_screen) q \<longrightarrow> tile_of (screen g') q =
      (if (0 :: 4 word) = 0 \<and> q = (int 1, int 0) then List.map to_pixel (glyph_top (replicate 4096 255) (unat (65 :: u8)))
       else if (0 :: 4 word) = 0 \<and> q = (int 1, int 0 + 1) then List.map to_pixel (glyph_bottom (replicate 4096 255) (unat (65 :: u8)))
       else tile_of (screen ex_screen) q)"
    using fb_draws_glyph [of plain_kmt "\<lambda>l. \<not> l" "\<lambda>s. s" 1 "replicate 4096 255" "replicate NTEXTURE []" ex_screen 1 0 0 65]
      ex_screen_ok by auto
  moreover have "on_screen (gpu_config ex_screen) (1, 0)" using ex_screen_ok by (simp add: on_screen_def)
  ultimately show ?thesis using ex_screen_ok by (intro exI [of _ fb'] exI [of _ g']) simp
qed

text \<open>
  A write below \<open>SPRITE_BRK\<close> is a copy into the textures that nothing checks. 256 bytes at
  \<open>256 * t\<close> replace exactly texture \<open>t\<close> when there is one; the offsets up to \<open>SPRITE_BRK\<close> that the
  device's layout in \<open>devices.h\<close> gives to textures 16384 to 65535, which \<open>fb_init\<close> never
  allocates, write past the end of the allocation.
\<close>

theorem fb_texture_upload:
  assumes "kmt_ok K unheld count" and "count (fb_sem fb) = 1" and "\<forall>x \<in> set (textures fb). length x = 64"
    and "length (textures fb) = NTEXTURE" and "length tx = 64" and "0 < t" and "t < 65536"
  shows "fb_write K draw (256 * int t) (texture_bytes tx) 256 fb g =
    (if t < NTEXTURE
     then Inr (256, fb\<lparr>fb_sem := k_sem_signal K (projr (k_sem_wait K (fb_sem fb))), textures := (textures fb)[t := tx]\<rparr>, g)
     else Inl BadAccess)"
proof -
  obtain s where s: "k_sem_wait K (fb_sem fb) = Inr s"
    using kmt_ok_wait [OF assms(1), of "fb_sem fb"] assms(2) by auto
  let ?bs = "array_bytes texture_bytes (textures fb)"
  note tx = texture_bytes_round_trip [OF assms(5)]
  have lens: "\<And>x. x \<in> set (textures fb) \<Longrightarrow> length (texture_bytes x) = 256"
    using assms(3) texture_bytes_round_trip(1) by blast
  have off: "256 * int t \<noteq> 0" "256 * int t < SPRITE_BRK" using assms(6,7) by (simp_all add: SPRITE_BRK_def)
  show ?thesis
  proof (cases "t < NTEXTURE")
    case True
    have "overwrite (int (t * 256)) (texture_bytes tx) ?bs = Inr (array_bytes texture_bytes ((textures fb)[t := tx]))"
      using overwrite_element [of "textures fb" texture_bytes 256 t tx] lens True assms(4) tx(1) by auto
    moreover have "of_array_bytes 256 of_texture_bytes (length ((textures fb)[t := tx]))
        (array_bytes texture_bytes ((textures fb)[t := tx]) @ []) = (textures fb)[t := tx]"
      by (rule array_bytes_round_trip)
        (use assms(3,5) texture_bytes_round_trip set_update_subset_insert in \<open>fastforce dest!: set_update_subset_insert [THEN subsetD]\<close>)
    ultimately show ?thesis using s off True tx(1) by (simp add: fb_write_def Let_def mult.commute)
  next
    case False
    have "length ?bs = NTEXTURE * 256" using length_array_bytes [of "textures fb" texture_bytes 256] lens assms(4) by auto
    then have "overwrite (256 * int t) (texture_bytes tx) ?bs = Inl BadAccess"
      using False tx(1) by (simp add: overwrite_def nat_mult_distrib)
    then show ?thesis using s off False tx(1) by (simp add: fb_write_def Let_def)
  qed
qed

theorem fb_texture_upload_witness:
  "fb_write plain_kmt gpu_fbdraw (256 * int 16384) (texture_bytes (replicate 64 7)) 256
     \<lparr>fb_sem = 1, info = of_info_bytes (replicate 24 0), textures = replicate NTEXTURE (replicate 64 0)\<rparr> ex_screen = Inl BadAccess"
  using fb_texture_upload [OF plain_kmt_ok,
    of "\<lparr>fb_sem = 1, info = of_info_bytes (replicate 24 0), textures = replicate NTEXTURE (replicate 64 0)\<rparr>" "replicate 64 7" 16384 gpu_fbdraw ex_screen]
  by (simp add: NTEXTURE_def)

end
