(* ===== verification/Dev_Tty.thy ===== *)
theory Dev_Tty
  imports Dev_Line Dev_Fb
begin

text \<open>
  The output side of the terminal, \<open>kernel/src/dev/dev_tty.c\<close>: the character cells, the cursor,
  the dirty marks, and the rendering of dirty cells as sprites of the frame buffer device.
\<close>

section \<open>State\<close>

record character =
  c_metadata :: u32
  c_ch :: u8

definition tty_defaultch :: character where
  "tty_defaultch = \<lparr>c_metadata = 0, c_ch = 0\<rparr>"

text \<open>
  \<open>tty_t\<close>: the fields shared with the reader, then the screen. \<open>cursor\<close> is a place in \<open>cells\<close>
  (the array \<open>buf\<close>); \<open>end\<close> is the place \<open>t_size\<close>.
\<close>

record 's tty_t = "'s tty_in" +
  t_display :: int
  t_lines :: nat
  t_columns :: nat
  t_size :: nat
  cells :: "character list"
  cursor :: nat
  dirty :: "u8 list"

section \<open>Changes of the cells and the cursor\<close>

text \<open>
  \<open>memmove\<close> of \<open>n\<close> elements from place \<open>k\<close> of an array to its start. On the native platform it is
  the C library's; klib's own \<open>memmove\<close> only panics (\<open>libc\<close> tells which one is linked).
\<close>

definition move_down :: "bool \<Rightarrow> nat \<Rightarrow> nat \<Rightarrow> 'a list \<Rightarrow> 'a list res" where
  "move_down libc k n xs =
     (if \<not> libc then Inl Panic
      else res_bind (guard BadAccess (k + n \<le> length xs)) (\<lambda>_. Inr (take n (drop k xs) @ drop n xs)))"

primrec clear_cells :: "nat \<Rightarrow> nat \<Rightarrow> character list \<Rightarrow> character list res" where
  "clear_cells 0 i cs = Inr cs"
| "clear_cells (Suc n) i cs =
     res_bind (guard BadAccess (i < length cs)) (\<lambda>_. clear_cells n (i + 1) (cs[i := tty_defaultch]))"

definition tty_upd_scrollup :: "bool \<Rightarrow> 's tty_t \<Rightarrow> 's tty_t res" where
  "tty_upd_scrollup libc tty =
     (let move_sz = t_columns tty * (t_lines tty - 1)
      in res_bind (move_down libc (t_columns tty) move_sz (cells tty)) (\<lambda>cs.
         res_bind (move_down libc (t_columns tty) move_sz (dirty tty)) (\<lambda>ds.
         res_bind (guard BadAccess (t_columns tty \<le> cursor tty)) (\<lambda>_.
         let cur = cursor tty - t_columns tty
         in res_bind (clear_cells (t_columns tty) cur cs) (\<lambda>cs.
            Inr (tty\<lparr>cells := cs, dirty := ds, cursor := cur\<rparr>))))))"

text \<open>The column of a place; \<open>%\<close> by 0 is a fault.\<close>

definition column_of :: "'s tty_t \<Rightarrow> nat \<Rightarrow> nat res" where
  "column_of tty i = res_bind (guard BadAccess (t_columns tty \<noteq> 0)) (\<lambda>_. Inr (i mod t_columns tty))"

definition tty_upd_cr :: "'s tty_t \<Rightarrow> 's tty_t res" where
  "tty_upd_cr tty = res_bind (column_of tty (cursor tty)) (\<lambda>x. Inr (tty\<lparr>cursor := cursor tty - x\<rparr>))"

definition tty_upd_lf :: "'s tty_t \<Rightarrow> 's tty_t" where
  "tty_upd_lf tty = tty\<lparr>cursor := cursor tty + t_columns tty\<rparr>"

definition set_ch :: "nat \<Rightarrow> u8 \<Rightarrow> 's tty_t \<Rightarrow> 's tty_t res" where
  "set_ch i c tty =
     res_bind (guard BadAccess (i < length (cells tty))) (\<lambda>_.
       Inr (tty\<lparr>cells := (cells tty)[i := (cells tty ! i)\<lparr>c_ch := c\<rparr>]\<rparr>))"

definition tty_upd_backsp :: "'s tty_t \<Rightarrow> 's tty_t res" where
  "tty_upd_backsp tty =
     (if 0 < cursor tty then
        let tty = tty\<lparr>cursor := cursor tty - 1\<rparr> in set_ch (cursor tty) 0 tty
      else Inr tty)"

definition tty_upd_putc :: "u8 \<Rightarrow> 's tty_t \<Rightarrow> 's tty_t res" where
  "tty_upd_putc c tty =
     res_bind (set_ch (cursor tty) c tty) (\<lambda>tty. Inr (tty\<lparr>cursor := cursor tty + 1\<rparr>))"

section \<open>Dirty marks\<close>

definition tty_mark :: "nat \<Rightarrow> 's tty_t \<Rightarrow> 's tty_t res" where
  "tty_mark i tty =
     res_bind (guard BadAccess (i < length (dirty tty))) (\<lambda>_. Inr (tty\<lparr>dirty := (dirty tty)[i := 1]\<rparr>))"

primrec tty_mark_from :: "nat \<Rightarrow> nat \<Rightarrow> 's tty_t \<Rightarrow> 's tty_t res" where
  "tty_mark_from 0 i tty = Inr tty"
| "tty_mark_from (Suc n) i tty = res_bind (tty_mark i tty) (tty_mark_from n (i + 1))"

definition tty_mark_line :: "nat \<Rightarrow> 's tty_t \<Rightarrow> 's tty_t res" where
  "tty_mark_line i tty = res_bind (column_of tty i) (\<lambda>x. tty_mark_from (t_columns tty) (i - x) tty)"

definition tty_mark_all :: "'s tty_t \<Rightarrow> 's tty_t res" where
  "tty_mark_all tty = tty_mark_from (t_size tty) 0 tty"

section \<open>Characters\<close>

definition tty_putc :: "bool \<Rightarrow> u8 \<Rightarrow> 's tty_t \<Rightarrow> 's tty_t res" where
  "tty_putc libc c tty =
     (if c = 13 then
        res_bind (tty_upd_cr tty) (\<lambda>tty. tty_mark_line (cursor tty) tty)
      else if c = 8 then
        res_bind (tty_upd_backsp tty) (\<lambda>tty.
        res_bind (tty_mark (cursor tty) tty) (\<lambda>tty. tty_mark (cursor tty + 1) tty))
      else if c = 10 then
        res_bind (tty_upd_cr tty) (\<lambda>tty.
        let tty = tty_upd_lf tty in
        if cursor tty = t_size tty then res_bind (tty_upd_scrollup libc tty) tty_mark_all
        else res_bind (tty_mark_line (cursor tty - t_columns tty) tty) (\<lambda>tty. tty_mark_line (cursor tty) tty))
      else
        res_bind (tty_upd_putc c tty) (\<lambda>tty.
        if cursor tty = t_size tty then res_bind (tty_upd_scrollup libc tty) tty_mark_all
        else res_bind (tty_mark (cursor tty - 1) tty) (\<lambda>tty. tty_mark (cursor tty) tty)))"

primrec tty_puts :: "bool \<Rightarrow> u8 list \<Rightarrow> 's tty_t \<Rightarrow> 's tty_t res" where
  "tty_puts libc [] tty = Inr tty"
| "tty_puts libc (c # cs) tty = res_bind (tty_putc libc c tty) (tty_puts libc cs)"

section \<open>Rendering\<close>

text \<open>What a cell shows: the cursor's block, when it is shown, or the character.\<close>

definition shown :: "bool \<Rightarrow> 's tty_t \<Rightarrow> nat \<Rightarrow> u8" where
  "shown show_cursor tty i = (if i = cursor tty \<and> show_cursor then 0xdb else c_ch (cells tty ! i))"

definition cell_sprites :: "bool \<Rightarrow> 's tty_t \<Rightarrow> nat \<Rightarrow> nat \<Rightarrow> nat \<Rightarrow> sprite list" where
  "cell_sprites show_cursor tty i x y =
     (if dirty tty ! i \<noteq> 0 then
        let draw = shown show_cursor tty i
        in [\<lparr>texture = ucast draw * 2 + 1, sp_x = of_nat (x * 8), sp_y = of_nat (y * 16), sp_display = of_int (t_display tty), sp_z = 0\<rparr>,
            \<lparr>texture = ucast draw * 2 + 2, sp_x = of_nat (x * 8), sp_y = of_nat (y * 16 + 8), sp_display = of_int (t_display tty), sp_z = 0\<rparr>]
      else [])"

text \<open>The two loops; the cell of column \<open>x\<close> of line \<open>y\<close> is the \<open>y * columns + x\<close>-th the pointers reach.\<close>

definition tty_sprites :: "bool \<Rightarrow> 's tty_t \<Rightarrow> sprite list" where
  "tty_sprites show_cursor tty =
     concat (List.map (\<lambda>y. concat (List.map (\<lambda>x.
       cell_sprites show_cursor tty (y * t_columns tty + x) x y) [0..<t_columns tty])) [0..<t_lines tty])"

definition tty_render ::
  "('l, 's) kmt \<Rightarrow> 'g draw \<Rightarrow> bool \<Rightarrow> 's tty_t \<Rightarrow> 's fb_t \<Rightarrow> 'g \<Rightarrow> ('s tty_t \<times> 's fb_t \<times> 'g) res" where
  "tty_render K draw show_cursor tty fb g =
     res_bind (k_sem_wait K (t_lock tty)) (\<lambda>l.
     let tty = tty\<lparr>t_lock := l\<rparr> in
     res_bind (guard BadAccess (t_lines tty * t_columns tty \<le> length (cells tty) \<and>
                                t_lines tty * t_columns tty \<le> length (dirty tty))) (\<lambda>_.
     let sps = tty_sprites show_cursor tty in
     res_bind (guard BadAccess (length sps \<le> t_size tty * 2)) (\<lambda>_.
     res_bind (fb_write K draw SPRITE_BRK (array_bytes sprite_bytes sps) (int (length sps * 8)) fb g) (\<lambda>(_, fb, g).
     res_bind (guard BadAccess (t_size tty \<le> length (dirty tty))) (\<lambda>_.
     let tty = tty\<lparr>dirty := replicate (t_size tty) 0 @ drop (t_size tty) (dirty tty)\<rparr>
     in Inr (tty\<lparr>t_lock := k_sem_signal K (t_lock tty)\<rparr>, fb, g))))))"

definition tty_write ::
  "('l, 's) kmt \<Rightarrow> 'g draw \<Rightarrow> bool \<Rightarrow> bool \<Rightarrow> u8 list \<Rightarrow> int \<Rightarrow> 's tty_t \<Rightarrow> 's fb_t \<Rightarrow> 'g \<Rightarrow> (int \<times> 's tty_t \<times> 's fb_t \<times> 'g) res" where
  "tty_write K draw libc show_cursor buf count tty fb g =
     res_bind (k_sem_wait K (t_lock tty)) (\<lambda>l.
     let tty = tty\<lparr>t_lock := l\<rparr> in
     res_bind (guard BadAccess (count \<le> int (length buf))) (\<lambda>_.
     res_bind (tty_puts libc (take (nat count) buf) tty) (\<lambda>tty.
     let tty = tty\<lparr>t_lock := k_sem_signal K (t_lock tty)\<rparr> in
     res_bind (tty_render K draw show_cursor tty fb g) (\<lambda>(tty, fb, g). Inr (count, tty, fb, g)))))"

section \<open>Initialisation\<close>

definition welcome_text :: string where
  "welcome_text =
     '' 1111112 11111112112      111112 1111112 '' @ [CHR 0x0A] @
     ''11533311211533336114     1153311211533112'' @ [CHR 0x0A] @
     ''114   11411111112114     1111111411111156'' @ [CHR 0x0A] @
     ''114   11473333114114     1153311411533112'' @ [CHR 0x0A] @
     ''7111111561111111411111112114  11411111156'' @ [CHR 0x0A] @
     '' 7333336 7333333673333336736  7367333336 '' @ [CHR 0x0A]"

definition welcome_char :: "u8 \<Rightarrow> u8" where
  "welcome_char c =
     (if c = chr (CHR ''1'') then 219 else if c = chr (CHR ''2'') then 187 else if c = chr (CHR ''3'') then 205
      else if c = chr (CHR ''4'') then 186 else if c = chr (CHR ''5'') then 201 else if c = chr (CHR ''6'') then 188
      else if c = chr (CHR ''7'') then 200 else c)"

definition welcome_bytes :: "u8 list" where
  "welcome_bytes = List.map (welcome_char \<circ> chr) welcome_text"

text \<open>
  \<open>tty_init\<close> of terminal \<open>tty_id\<close>; \<open>got n\<close> tells whether \<open>pmm->alloc\<close> has \<open>n\<close> bytes for it or answers
  \<open>NULL\<close>, which no request checks: with no memory for the cells or the marks the first loop or \<open>memset\<close> writes through
  \<open>NULL\<close>, with none for the sprites the first cell that is rendered does, and a line buffer at \<open>NULL\<close> is one without a byte.
  \<open>qbytes\<close> is what the allocated line buffer holds, \<open>lk\<close> and \<open>ck\<close> are the semaphores \<open>sem_init\<close> gives with values 1 and 0.
\<close>

definition tty_init ::
  "('l, 's) kmt \<Rightarrow> 'g draw \<Rightarrow> bool \<Rightarrow> bool \<Rightarrow> (nat \<Rightarrow> bool) \<Rightarrow> int \<Rightarrow> u8 list \<Rightarrow> 's \<Rightarrow> 's \<Rightarrow> 's fb_t \<Rightarrow> 'g \<Rightarrow> ('s tty_t \<times> 's fb_t \<times> 'g) res" where
  "tty_init K draw libc show_cursor got tty_id qbytes lk ck fb g =
     (let lns = unat (height (info fb)) div 16;
          cols = unat (width (info fb)) div 8;
          sz = cols * lns;
          tty = \<lparr>t_lock = lk, cooked = ck, queue = \<lparr>qbuf = (if got TTY_COOK_BUF_SZ then qbytes else []), qfront = 0, qrear = 0\<rparr>,
                 t_display = tty_id - 1, t_lines = lns, t_columns = cols, t_size = sz,
                 cells = replicate sz tty_defaultch, cursor = 0, dirty = replicate sz 0\<rparr>
      in res_bind (guard BadAccess (got (sz * 8) \<and> got sz)) (\<lambda>_.
         if got (sz * 2 * 8) then
           res_bind (tty_write K draw libc show_cursor welcome_bytes (int (length welcome_bytes)) tty fb g) (\<lambda>(_, tty, fb, g).
             Inr (tty, fb, g))
         else
           res_bind (k_sem_wait K (t_lock tty)) (\<lambda>l.
           res_bind (tty_puts libc welcome_bytes (tty\<lparr>t_lock := l\<rparr>)) (\<lambda>_. Inl BadAccess))))"

end
