(* ===== verification/Tty_Screen.thy ===== *)
theory Tty_Screen
  imports Dev_Tty
begin

text \<open>
  What the terminal's characters do: each one against the cells, the cursor and the dirty marks;
  the well-formedness they keep; the glass terminal they implement.
\<close>

section \<open>Marks\<close>

definition marked :: "(nat \<Rightarrow> bool) \<Rightarrow> u8 list \<Rightarrow> u8 list" where
  "marked P d = List.map (\<lambda>k. if P k then 1 else d ! k) [0..<length d]"

lemma length_marked [simp]: "length (marked P d) = length d"
  by (simp add: marked_def)

lemma marked_nth: "k < length d \<Longrightarrow> marked P d ! k = (if P k then 1 else d ! k)"
  by (simp add: marked_def)

lemma marked_single: "i < length d \<Longrightarrow> d[i := 1] = marked (\<lambda>k. k = i) d"
  by (rule nth_equalityI) (simp_all add: marked_nth nth_list_update)

lemma marked_marked: "marked P (marked Q d) = marked (\<lambda>k. P k \<or> Q k) d"
  by (rule nth_equalityI) (simp_all add: marked_nth)

lemma tty_mark_ok: "i < length (dirty tty) \<Longrightarrow> tty_mark i tty = Inr (tty\<lparr>dirty := marked (\<lambda>k. k = i) (dirty tty)\<rparr>)"
  by (simp add: tty_mark_def marked_single)

lemma tty_mark_from_ok:
  "i + n \<le> length (dirty tty) \<Longrightarrow>
   tty_mark_from n i tty = Inr (tty\<lparr>dirty := marked (\<lambda>k. i \<le> k \<and> k < i + n) (dirty tty)\<rparr>)"
proof (induction n arbitrary: i tty)
  case 0
  have "marked (\<lambda>k. i \<le> k \<and> k < i) (dirty tty) = dirty tty" by (rule nth_equalityI) (auto simp: marked_nth)
  then show ?case by simp
next
  case (Suc n)
  have "(\<lambda>k. i + 1 \<le> k \<and> k < i + 1 + n \<or> k = i) = (\<lambda>k. i \<le> k \<and> k < i + Suc n)" by auto
  then show ?case using Suc.IH [of "i + 1" "tty\<lparr>dirty := marked (\<lambda>k. k = i) (dirty tty)\<rparr>"] Suc.prems
    by (simp add: tty_mark_ok marked_marked)
qed

section \<open>Geometry\<close>

definition screen_ok :: "'s tty_t \<Rightarrow> bool" where
  "screen_ok tty \<longleftrightarrow> 0 < t_columns tty \<and> 0 < t_lines tty \<and> 1 < t_size tty \<and> t_size tty = t_columns tty * t_lines tty \<and>
     length (cells tty) = t_size tty \<and> length (dirty tty) = t_size tty \<and> cursor tty < t_size tty"

lemma screen_okD:
  assumes "screen_ok tty"
  shows "0 < t_columns tty" "0 < t_lines tty" "1 < t_size tty" "t_size tty = t_columns tty * t_lines tty"
    "length (cells tty) = t_size tty" "length (dirty tty) = t_size tty" "cursor tty < t_size tty"
  using assms by (simp_all add: screen_ok_def)

text \<open>The start of the line a place is in, and the line below.\<close>

definition line_start :: "'s tty_t \<Rightarrow> nat \<Rightarrow> nat" where
  "line_start tty i = i - i mod t_columns tty"

lemma line_start_eq: "line_start tty i = i div t_columns tty * t_columns tty"
  unfolding line_start_def by (simp add: minus_mod_eq_div_mult)

lemma line_fits:
  assumes "screen_ok tty" and "i < t_size tty"
  shows "line_start tty i + t_columns tty \<le> t_size tty" and "line_start tty i \<le> i" and "i < line_start tty i + t_columns tty"
proof -
  note s = screen_okD [OF assms(1)]
  have "i div t_columns tty < t_lines tty" using assms(2) s(4) by (simp add: less_mult_imp_div_less mult.commute)
  then have "(i div t_columns tty + 1) * t_columns tty \<le> t_lines tty * t_columns tty" by (intro mult_right_mono) auto
  then show "line_start tty i + t_columns tty \<le> t_size tty" unfolding line_start_eq s(4) by (simp add: algebra_simps)
  show "line_start tty i \<le> i" by (simp add: line_start_def)
  show "i < line_start tty i + t_columns tty" unfolding line_start_def
    using mod_less_divisor [OF s(1), of i] mod_less_eq_dividend [of i "t_columns tty"] by linarith
qed

lemma tty_mark_line_ok:
  assumes "screen_ok tty" and "i < t_size tty"
  shows "tty_mark_line i tty =
    Inr (tty\<lparr>dirty := marked (\<lambda>k. line_start tty i \<le> k \<and> k < line_start tty i + t_columns tty) (dirty tty)\<rparr>)"
proof -
  have "column_of tty i = Inr (i mod t_columns tty)" using screen_okD(1) [OF assms(1)] by (simp add: column_of_def)
  then show ?thesis
    using tty_mark_from_ok [of "line_start tty i" "t_columns tty" tty] line_fits(1) [OF assms] screen_okD(6) [OF assms(1)]
    by (simp add: tty_mark_line_def line_start_def)
qed

lemma tty_upd_cr_ok: "screen_ok tty \<Longrightarrow> tty_upd_cr tty = Inr (tty\<lparr>cursor := line_start tty (cursor tty)\<rparr>)"
  by (simp add: tty_upd_cr_def column_of_def line_start_def screen_ok_def)

section \<open>Scrolling\<close>

lemma clear_cells_ok:
  "i + n \<le> length cs \<Longrightarrow> clear_cells n i cs = Inr (take i cs @ replicate n tty_defaultch @ drop (i + n) cs)"
proof (induction n arbitrary: i cs)
  case (Suc n)
  have "take (i + 1) (cs[i := tty_defaultch]) = take i cs @ [tty_defaultch]"
    using Suc.prems by (simp add: take_Suc_conv_app_nth)
  then show ?case using Suc.IH [of "i + 1" "cs[i := tty_defaultch]"] Suc.prems by simp
qed simp

text \<open>With the cursor behind the last cell: everything moves up a line, the last line is blank.\<close>

lemma scroll_ok:
  assumes g: "0 < t_columns tty" "0 < t_lines tty" "t_size tty = t_columns tty * t_lines tty"
    and l: "length (cells tty) = t_size tty" "length (dirty tty) = t_size tty" and c: "cursor tty = t_size tty"
  shows "res_bind (tty_upd_scrollup True tty) tty_mark_all =
    Inr (tty\<lparr>cells := drop (t_columns tty) (cells tty) @ replicate (t_columns tty) tty_defaultch,
             cursor := t_size tty - t_columns tty, dirty := replicate (t_size tty) 1\<rparr>)"
proof -
  let ?c = "t_columns tty" and ?n = "t_columns tty * (t_lines tty - 1)"
  have n: "?c + ?n = t_size tty" using g by (cases "t_lines tty") simp_all
  then have n': "t_size tty - ?c = ?n" by linarith
  have mv: "move_down True ?c ?n xs = Inr (drop ?c xs @ drop ?n xs)" if "length xs = t_size tty" for xs :: "'b list"
    using n that by (simp add: move_down_def)
  have cl: "clear_cells ?c ?n (drop ?c (cells tty) @ drop ?n (cells tty)) =
      Inr (drop ?c (cells tty) @ replicate ?c tty_defaultch)"
    using clear_cells_ok [of ?n ?c "drop ?c (cells tty) @ drop ?n (cells tty)"] n n' l(1) by simp
  let ?d = "drop ?c (dirty tty) @ drop ?n (dirty tty)"
  have up: "tty_upd_scrollup True tty =
      Inr (tty\<lparr>cells := drop ?c (cells tty) @ replicate ?c tty_defaultch, dirty := ?d, cursor := ?n\<rparr>)"
    using mv [OF l(1)] mv [OF l(2)] cl n c by (simp add: tty_upd_scrollup_def n' Let_def)
  have len: "length ?d = t_size tty" using n n' l(2) by simp
  then have "marked (\<lambda>k. 0 \<le> k \<and> k < 0 + t_size tty) ?d = replicate (t_size tty) 1"
    by (intro nth_equalityI) (simp_all add: marked_nth)
  then show ?thesis unfolding up using len n' by (simp add: tty_mark_all_def tty_mark_from_ok)
qed

section \<open>Every character\<close>

text \<open>The outcome, by cases; the fields that are not the screen's stay.\<close>

definition screen_upd :: "character list \<Rightarrow> nat \<Rightarrow> u8 list \<Rightarrow> 's tty_t \<Rightarrow> 's tty_t" where
  "screen_upd cs cur d tty = tty\<lparr>cells := cs, cursor := cur, dirty := d\<rparr>"

definition put_cell :: "nat \<Rightarrow> u8 \<Rightarrow> 's tty_t \<Rightarrow> character list" where
  "put_cell i c tty = (cells tty)[i := (cells tty ! i)\<lparr>c_ch := c\<rparr>]"

definition scrolled :: "character list \<Rightarrow> 's tty_t \<Rightarrow> 's tty_t" where
  "scrolled cs tty = screen_upd (drop (t_columns tty) cs @ replicate (t_columns tty) tty_defaultch)
     (t_size tty - t_columns tty) (replicate (t_size tty) 1) tty"

lemma tty_putc_cr:
  assumes "screen_ok tty"
  shows "tty_putc libc 13 tty = Inr (screen_upd (cells tty) (line_start tty (cursor tty))
    (marked (\<lambda>k. line_start tty (cursor tty) \<le> k \<and> k < line_start tty (cursor tty) + t_columns tty) (dirty tty)) tty)"
proof -
  note f = line_fits [OF assms screen_okD(7) [OF assms]]
  let ?t = "tty\<lparr>cursor := line_start tty (cursor tty)\<rparr>"
  have lt: "line_start tty (cursor tty) < t_size tty" using f screen_okD(1) [OF assms] by linarith
  then have "screen_ok ?t" using assms by (simp add: screen_ok_def)
  from tty_mark_line_ok [OF this, of "line_start tty (cursor tty)"] lt
  have "tty_mark_line (line_start tty (cursor tty)) ?t = Inr (?t\<lparr>dirty :=
      marked (\<lambda>k. line_start ?t (line_start tty (cursor tty)) \<le> k \<and> k < line_start ?t (line_start tty (cursor tty)) + t_columns tty) (dirty tty)\<rparr>)"
    by simp
  moreover have "line_start ?t (line_start tty (cursor tty)) = line_start tty (cursor tty)"
    using screen_okD(1) [OF assms] by (simp add: line_start_eq)
  ultimately show ?thesis using tty_upd_cr_ok [OF assms] by (simp add: tty_putc_def screen_upd_def)
qed

lemma tty_putc_bs:
  assumes "screen_ok tty"
  shows "tty_putc libc 8 tty = Inr
    (if 0 < cursor tty
     then screen_upd (put_cell (cursor tty - 1) 0 tty) (cursor tty - 1) (marked (\<lambda>k. k = cursor tty \<or> k = cursor tty - 1) (dirty tty)) tty
     else screen_upd (cells tty) 0 (marked (\<lambda>k. k = 1 \<or> k = 0) (dirty tty)) tty)"
  using screen_okD [OF assms]
  by (auto simp: tty_putc_def tty_upd_backsp_def set_ch_def tty_mark_ok marked_marked screen_upd_def put_cell_def Let_def)

lemma tty_putc_lf:
  assumes ok: "screen_ok tty"
  defines "below \<equiv> line_start tty (cursor tty) + t_columns tty"
  shows "tty_putc True 10 tty = Inr
    (if below = t_size tty then scrolled (cells tty) tty
     else screen_upd (cells tty) below
       (marked (\<lambda>k. line_start tty (cursor tty) \<le> k \<and> k < below + t_columns tty) (dirty tty)) tty)"
proof -
  note s = screen_okD [OF ok] and f = line_fits [OF ok screen_okD(7) [OF ok]]
  let ?t = "tty\<lparr>cursor := below\<rparr>"
  have lf: "res_bind (tty_upd_cr tty) (\<lambda>tty. Inr (tty_upd_lf tty)) = Inr ?t"
    using tty_upd_cr_ok [OF ok] by (simp add: tty_upd_lf_def below_def)
  show ?thesis
  proof (cases "below = t_size tty")
    case True
    have "res_bind (tty_upd_scrollup True ?t) tty_mark_all = Inr (scrolled (cells tty) tty)"
      using scroll_ok [of ?t] s True by (simp add: scrolled_def screen_upd_def)
    then show ?thesis using True tty_upd_cr_ok [OF ok] by (simp add: tty_putc_def tty_upd_lf_def below_def Let_def)
  next
    case False
    then have lt: "below < t_size tty" using f(1) by (simp add: below_def)
    have ok': "screen_ok ?t" using ok lt by (simp add: screen_ok_def)
    have ls: "line_start ?t (below - t_columns tty) = line_start tty (cursor tty)" "line_start ?t below = below"
      using s(1) by (simp_all add: line_start_eq below_def add_mult_distrib [symmetric] flip: mult_Suc)
        (metis add.commute mult_Suc nonzero_mult_div_cancel_right not_less0)+
    have 1: "tty_mark_line (below - t_columns tty) ?t =
        Inr (?t\<lparr>dirty := marked (\<lambda>k. line_start tty (cursor tty) \<le> k \<and> k < below) (dirty tty)\<rparr>)"
      using tty_mark_line_ok [OF ok', of "below - t_columns tty"] lt ls(1) by (simp add: below_def)
    let ?t2 = "?t\<lparr>dirty := marked (\<lambda>k. line_start tty (cursor tty) \<le> k \<and> k < below) (dirty tty)\<rparr>"
    have ok2: "screen_ok ?t2" using ok' by (simp add: screen_ok_def)
    have ls2: "line_start ?t2 below = below" using ls(2) by (simp add: line_start_def)
    have m: "(\<lambda>k. below \<le> k \<and> k < below + t_columns tty \<or> line_start tty (cursor tty) \<le> k \<and> k < below) =
        (\<lambda>k. line_start tty (cursor tty) \<le> k \<and> k < below + t_columns tty)"
      by (rule ext) (auto simp: below_def)
    have 2: "tty_mark_line below ?t2 = Inr (?t2\<lparr>dirty :=
        marked (\<lambda>k. line_start tty (cursor tty) \<le> k \<and> k < below + t_columns tty) (dirty tty)\<rparr>)"
      using tty_mark_line_ok [OF ok2, of below] lt ls2 by (simp add: marked_marked m)
    show ?thesis using 1 2 False tty_upd_cr_ok [OF ok]
      by (simp add: tty_putc_def tty_upd_lf_def below_def [symmetric] screen_upd_def Let_def)
  qed
qed

lemma tty_putc_char:
  assumes ok: "screen_ok tty" and c: "c \<noteq> 13" "c \<noteq> 8" "c \<noteq> 10"
  shows "tty_putc True c tty = Inr
    (if cursor tty + 1 = t_size tty then scrolled (put_cell (cursor tty) c tty) tty
     else screen_upd (put_cell (cursor tty) c tty) (cursor tty + 1)
       (marked (\<lambda>k. k = cursor tty + 1 \<or> k = cursor tty) (dirty tty)) tty)"
proof -
  note s = screen_okD [OF ok]
  let ?t = "tty\<lparr>cells := put_cell (cursor tty) c tty, cursor := cursor tty + 1\<rparr>"
  have p: "tty_upd_putc c tty = Inr ?t" using s by (simp add: tty_upd_putc_def set_ch_def put_cell_def)
  show ?thesis
  proof (cases "cursor tty + 1 = t_size tty")
    case True
    have "res_bind (tty_upd_scrollup True ?t) tty_mark_all = Inr (scrolled (put_cell (cursor tty) c tty) tty)"
      using scroll_ok [of ?t] s True by (simp add: scrolled_def screen_upd_def put_cell_def)
    then show ?thesis using True c p by (simp add: tty_putc_def)
  next
    case False
    then show ?thesis using c p s by (simp add: tty_putc_def tty_mark_ok marked_marked screen_upd_def)
  qed
qed

section \<open>The glass terminal\<close>

text \<open>
  The reference: rows of characters, the cursor as row and column. Return goes to the first column,
  newline to the first column of the next row, which scrolls on the last one; a character is put at
  the cursor, which wraps at the end of a row; backspace steps back, over the row's start too, and
  blanks the character there.
\<close>

record glass =
  g_rows :: "u8 list list"
  g_row :: nat
  g_col :: nat

definition g_newline :: "glass \<Rightarrow> glass" where
  "g_newline g =
     (if g_row g + 1 < length (g_rows g) then g\<lparr>g_row := g_row g + 1, g_col := 0\<rparr>
      else g\<lparr>g_rows := tl (g_rows g) @ [replicate (length (List.hd (g_rows g))) 0], g_col := 0\<rparr>)"

definition set_cell :: "nat \<Rightarrow> nat \<Rightarrow> u8 \<Rightarrow> u8 list list \<Rightarrow> u8 list list" where
  "set_cell r k v rows = rows[r := (rows ! r)[k := v]]"

definition g_back :: "glass \<Rightarrow> glass" where
  "g_back g =
     (if g_row g = 0 \<and> g_col g = 0 then g
      else let r = (if g_col g = 0 then g_row g - 1 else g_row g);
               k = (if g_col g = 0 then length (List.hd (g_rows g)) else g_col g) - 1
           in g\<lparr>g_rows := set_cell r k 0 (g_rows g), g_row := r, g_col := k\<rparr>)"

definition g_put :: "u8 \<Rightarrow> glass \<Rightarrow> glass" where
  "g_put c g =
     (let g = g\<lparr>g_rows := set_cell (g_row g) (g_col g) c (g_rows g)\<rparr>
      in if g_col g + 1 = length (List.hd (g_rows g)) then g_newline g else g\<lparr>g_col := g_col g + 1\<rparr>)"

definition glass_putc :: "u8 \<Rightarrow> glass \<Rightarrow> glass" where
  "glass_putc c g =
     (if c = 13 then g\<lparr>g_col := 0\<rparr> else if c = 8 then g_back g else if c = 10 then g_newline g else g_put c g)"

text \<open>The glass terminal a \<open>tty_t\<close> is.\<close>

definition rows_of :: "nat \<Rightarrow> nat \<Rightarrow> (nat \<Rightarrow> u8) \<Rightarrow> u8 list list" where
  "rows_of c l f = List.map (\<lambda>r. List.map (\<lambda>k. f (r * c + k)) [0..<c]) [0..<l]"

definition glass_of :: "'s tty_t \<Rightarrow> glass" where
  "glass_of tty = \<lparr>g_rows = rows_of (t_columns tty) (t_lines tty) (\<lambda>i. c_ch (cells tty ! i)),
     g_row = cursor tty div t_columns tty, g_col = cursor tty mod t_columns tty\<rparr>"

lemma rows_of_shape: "length (rows_of c l f) = l" "r < l \<Longrightarrow> length (rows_of c l f ! r) = c" "0 < l \<Longrightarrow> length (List.hd (rows_of c l f)) = c"
  by (simp_all add: rows_of_def hd_map)

lemma place_bound: "r < l \<Longrightarrow> k < c \<Longrightarrow> r * c + k < c * (l :: nat)"
proof -
  assume "r < l" "k < c"
  then have "(r + 1) * c \<le> l * c" by (intro mult_right_mono) auto
  then show ?thesis using \<open>k < c\<close> by (simp add: algebra_simps)
qed

lemma rows_of_cong: "(\<And>i. i < c * l \<Longrightarrow> f i = g i) \<Longrightarrow> rows_of c l f = rows_of c l g"
  by (simp add: rows_of_def place_bound)

lemma rows_of_upd:
  assumes "0 < c" and "i < c * l"
  shows "rows_of c l (f(i := v)) = set_cell (i div c) (i mod c) v (rows_of c l f)"
proof (rule nth_equalityI)
  show "length (rows_of c l (f(i := v))) = length (set_cell (i div c) (i mod c) v (rows_of c l f))"
    by (simp add: rows_of_def set_cell_def)
next
  fix r assume "r < length (rows_of c l (f(i := v)))"
  then have r: "r < l" by (simp add: rows_of_def)
  have "r * c + k = i \<longleftrightarrow> r = i div c \<and> k = i mod c" if "k < c" for k
    using that by auto
  moreover have "i div c < l" using assms by (simp add: less_mult_imp_div_less mult.commute)
  ultimately show "rows_of c l (f(i := v)) ! r = set_cell (i div c) (i mod c) v (rows_of c l f) ! r"
    using r by (cases "r = i div c") (auto simp: rows_of_def set_cell_def intro!: nth_equalityI)
qed

lemma rows_of_scroll:
  assumes "0 < l"
  shows "rows_of c l (\<lambda>i. if i + c < c * l then f (i + c) else 0) = tl (rows_of c l f) @ [replicate c 0]"
proof (rule nth_equalityI)
  show "length (rows_of c l (\<lambda>i. if i + c < c * l then f (i + c) else 0)) = length (tl (rows_of c l f) @ [replicate c 0])"
    using assms by (simp add: rows_of_def)
next
  fix r assume "r < length (rows_of c l (\<lambda>i. if i + c < c * l then f (i + c) else 0))"
  then have r: "r < l" by (simp add: rows_of_def)
  have "r * c + k + c < c * l \<longleftrightarrow> r + 1 < l" if "k < c" for k
    using place_bound [of "r + 1" l k c] place_bound [OF r that] that r
    by (cases "r + 1 = l") (auto simp: algebra_simps)
  then show "rows_of c l (\<lambda>i. if i + c < c * l then f (i + c) else 0) ! r = (tl (rows_of c l f) @ [replicate c 0]) ! r"
    using r by (intro nth_equalityI) (auto simp: rows_of_def nth_append nth_tl algebra_simps)
qed

section \<open>One character: well-formedness, marks, refinement\<close>

text \<open>Cells that are not marked afterwards were not marked before and show what they showed.\<close>

definition quiet :: "'s tty_t \<Rightarrow> 's tty_t \<Rightarrow> bool" where
  "quiet old new \<longleftrightarrow>
     (\<forall>i < t_size old. dirty new ! i = 0 \<longrightarrow> dirty old ! i = 0 \<and> (\<forall>show_cursor. shown show_cursor new i = shown show_cursor old i))"

lemma quiet_refl: "quiet tty tty"
  by (simp add: quiet_def)

lemma quiet_trans: "quiet a b \<Longrightarrow> t_size b = t_size a \<Longrightarrow> quiet b c \<Longrightarrow> quiet a c"
  by (simp add: quiet_def)

definition putc_ok :: "u8 \<Rightarrow> 's tty_t \<Rightarrow> 's tty_t \<Rightarrow> bool" where
  "putc_ok c old new \<longleftrightarrow> (\<exists>cs cur d. new = screen_upd cs cur d old) \<and> screen_ok new \<and> quiet old new \<and>
     glass_of new = glass_putc c (glass_of old)"

lemma glass_of_upd:
  "glass_of (screen_upd cs cur d tty) = \<lparr>g_rows = rows_of (t_columns tty) (t_lines tty) (\<lambda>i. c_ch (cs ! i)),
     g_row = cur div t_columns tty, g_col = cur mod t_columns tty\<rparr>"
  by (simp add: glass_of_def screen_upd_def)

lemma screen_ok_upd:
  "screen_ok tty \<Longrightarrow> length cs = t_size tty \<Longrightarrow> length d = t_size tty \<Longrightarrow> cur < t_size tty \<Longrightarrow>
    screen_ok (screen_upd cs cur d tty)"
  by (simp add: screen_ok_def screen_upd_def)

lemma put_cell_ch: "screen_ok tty \<Longrightarrow> i < t_size tty \<Longrightarrow> (\<lambda>k. c_ch (put_cell i c tty ! k)) = (\<lambda>k. c_ch (cells tty ! k))(i := c)"
  by (rule ext) (simp add: put_cell_def nth_list_update screen_okD)

lemma put_rows:
  assumes "screen_ok tty" and "i < t_size tty"
  shows "rows_of (t_columns tty) (t_lines tty) (\<lambda>k. c_ch (put_cell i c tty ! k)) =
    set_cell (i div t_columns tty) (i mod t_columns tty) c (g_rows (glass_of tty))"
  using rows_of_upd screen_okD [OF assms(1)] assms by (simp add: put_cell_ch glass_of_def)

lemma last_line:
  assumes "screen_ok tty"
  shows "line_start tty (cursor tty) + t_columns tty = t_size tty \<longleftrightarrow> \<not> g_row (glass_of tty) + 1 < t_lines tty"
    and "(t_size tty - t_columns tty) div t_columns tty = t_lines tty - 1" "(t_size tty - t_columns tty) mod t_columns tty = 0"
proof -
  note s = screen_okD [OF assms]
  have r: "cursor tty div t_columns tty < t_lines tty" using s by (simp add: less_mult_imp_div_less mult.commute)
  have "line_start tty (cursor tty) + t_columns tty = (cursor tty div t_columns tty + 1) * t_columns tty"
    by (simp add: line_start_eq)
  also have "\<dots> = t_size tty \<longleftrightarrow> cursor tty div t_columns tty + 1 = t_lines tty"
    unfolding s(4) mult.commute [of "t_columns tty"] using s(1) by (subst mult_cancel2) simp
  finally show "line_start tty (cursor tty) + t_columns tty = t_size tty \<longleftrightarrow> \<not> g_row (glass_of tty) + 1 < t_lines tty"
    using r by (auto simp: glass_of_def)
  have "t_size tty - t_columns tty = (t_lines tty - 1) * t_columns tty" using s by (simp add: algebra_simps)
  then show "(t_size tty - t_columns tty) div t_columns tty = t_lines tty - 1" "(t_size tty - t_columns tty) mod t_columns tty = 0"
    using s(1) by simp_all
qed

text \<open>Scrolling, of the cells \<open>cs\<close> whose rows are \<open>rs\<close>.\<close>

lemma scrolled_ok:
  assumes ok: "screen_ok tty" and l: "length cs = t_size tty"
  shows "screen_ok (scrolled cs tty)" "quiet tty (scrolled cs tty)"
    and "glass_of (scrolled cs tty) =
      \<lparr>g_rows = tl (rows_of (t_columns tty) (t_lines tty) (\<lambda>i. c_ch (cs ! i))) @ [replicate (t_columns tty) 0],
       g_row = t_lines tty - 1, g_col = 0\<rparr>"
proof -
  note s = screen_okD [OF ok]
  have le: "t_columns tty \<le> t_size tty" unfolding s(4) using s(2) by simp
  show "screen_ok (scrolled cs tty)" unfolding scrolled_def
    by (rule screen_ok_upd [OF ok]) (use s le l in simp_all)
  show "quiet tty (scrolled cs tty)" using s by (simp add: quiet_def scrolled_def screen_upd_def)
  have c: "c_ch ((drop (t_columns tty) cs @ replicate (t_columns tty) tty_defaultch) ! i) =
      (if i + t_columns tty < t_columns tty * t_lines tty then c_ch (cs ! (i + t_columns tty)) else 0)"
    if "i < t_columns tty * t_lines tty" for i
    using that l s(4) le by (auto simp: nth_append tty_defaultch_def add.commute)
  show "glass_of (scrolled cs tty) =
      \<lparr>g_rows = tl (rows_of (t_columns tty) (t_lines tty) (\<lambda>i. c_ch (cs ! i))) @ [replicate (t_columns tty) 0],
       g_row = t_lines tty - 1, g_col = 0\<rparr>"
    unfolding scrolled_def glass_of_upd last_line(2,3) [OF ok]
    using rows_of_scroll [OF s(2), of "t_columns tty" "\<lambda>i. c_ch (cs ! i)"] by (simp add: rows_of_cong [OF c])
qed

lemma glass_shape:
  assumes "screen_ok tty"
  shows "length (g_rows (glass_of tty)) = t_lines tty" "length (List.hd (g_rows (glass_of tty))) = t_columns tty"
    "length (List.hd (set_cell r k v (g_rows (glass_of tty)))) = t_columns tty"
    "length (set_cell r k v (g_rows (glass_of tty))) = t_lines tty"
proof -
  note s = screen_okD [OF assms]
  show 1: "length (g_rows (glass_of tty)) = t_lines tty" "length (List.hd (g_rows (glass_of tty))) = t_columns tty"
    using s by (simp_all add: glass_of_def rows_of_shape)
  have hd_update: "List.hd (xs[r := y]) = (if r = 0 then y else List.hd xs)" if "xs \<noteq> []" for xs and y :: "u8 list"
    using that by (cases xs; cases r) simp_all
  have ne: "g_rows (glass_of tty) \<noteq> []" using 1(1) s(2) by auto
  then show "length (List.hd (set_cell r k v (g_rows (glass_of tty)))) = t_columns tty"
    using 1(2) hd_update [OF ne] by (cases "r = 0") (simp_all add: set_cell_def hd_conv_nth [OF ne, symmetric])
  show "length (set_cell r k v (g_rows (glass_of tty))) = t_lines tty" using 1(1) by (simp add: set_cell_def)
qed

lemma screen_upd_fields [simp]:
  "t_columns (screen_upd cs cur d tty) = t_columns tty" "t_lines (screen_upd cs cur d tty) = t_lines tty"
  "t_size (screen_upd cs cur d tty) = t_size tty" "dirty (screen_upd cs cur d tty) = d"
  "cursor (screen_upd cs cur d tty) = cur" "cells (screen_upd cs cur d tty) = cs"
  "t_display (screen_upd cs cur d tty) = t_display tty" "t_lock (screen_upd cs cur d tty) = t_lock tty"
  "cooked (screen_upd cs cur d tty) = cooked tty" "queue (screen_upd cs cur d tty) = queue tty"
  by (simp_all add: screen_upd_def)

text \<open>When the marks cover the old and the new cursor and every changed cell, the step is quiet.\<close>

lemma quiet_upd:
  assumes ok: "screen_ok tty" and P: "P (cursor tty)" "P cur"
    and same: "\<And>i. i < t_size tty \<Longrightarrow> \<not> P i \<Longrightarrow> cs ! i = cells tty ! i"
  shows "quiet tty (screen_upd cs cur (marked P (dirty tty)) tty)"
  unfolding quiet_def
proof (intro allI impI)
  fix i assume i: "i < t_size tty" and d: "dirty (screen_upd cs cur (marked P (dirty tty)) tty) ! i = 0"
  then have "\<not> P i" "dirty tty ! i = 0"
    using screen_okD(6) [OF ok] by (simp_all add: marked_nth split: if_splits)
  then show "dirty tty ! i = 0 \<and> (\<forall>show_cursor. shown show_cursor (screen_upd cs cur (marked P (dirty tty)) tty) i = shown show_cursor tty i)"
    using P same [OF i] by (auto simp: shown_def)
qed

lemma putc_okI:
  assumes "screen_ok tty" and "length cs = t_size tty" and "cur < t_size tty" and "P (cursor tty)" "P cur"
    and "\<And>i. i < t_size tty \<Longrightarrow> \<not> P i \<Longrightarrow> cs ! i = cells tty ! i"
    and "glass_of (screen_upd cs cur (marked P (dirty tty)) tty) = glass_putc c (glass_of tty)"
  shows "putc_ok c tty (screen_upd cs cur (marked P (dirty tty)) tty)"
  using assms screen_okD(6) [OF assms(1)] by (auto simp: putc_ok_def intro: screen_ok_upd quiet_upd)

lemma putc_cr_ok:
  assumes ok: "screen_ok tty"
  shows "\<exists>tty'. tty_putc True 13 tty = Inr tty' \<and> putc_ok 13 tty tty'"
proof -
  note s = screen_okD [OF ok] and f = line_fits [OF ok screen_okD(7) [OF ok]]
  have "glass_of (screen_upd (cells tty) (line_start tty (cursor tty))
      (marked (\<lambda>k. line_start tty (cursor tty) \<le> k \<and> k < line_start tty (cursor tty) + t_columns tty) (dirty tty)) tty) =
    glass_putc 13 (glass_of tty)"
    unfolding glass_of_upd using s(1) by (simp add: glass_putc_def glass_of_def line_start_eq)
  then have "putc_ok 13 tty (screen_upd (cells tty) (line_start tty (cursor tty))
      (marked (\<lambda>k. line_start tty (cursor tty) \<le> k \<and> k < line_start tty (cursor tty) + t_columns tty) (dirty tty)) tty)"
    by (intro putc_okI [OF ok]) (use s f in auto)
  then show ?thesis using tty_putc_cr [OF ok] by blast
qed

lemma putc_bs_ok:
  assumes ok: "screen_ok tty"
  shows "\<exists>tty'. tty_putc True 8 tty = Inr tty' \<and> putc_ok 8 tty tty'"
proof (cases "0 < cursor tty")
  case True
  note s = screen_okD [OF ok]
  let ?p = "cursor tty - 1"
  have "glass_putc 8 (glass_of tty) = (glass_of tty)\<lparr>g_rows :=
      set_cell (?p div t_columns tty) (?p mod t_columns tty) 0 (g_rows (glass_of tty)),
      g_row := ?p div t_columns tty, g_col := ?p mod t_columns tty\<rparr>"
  proof -
    obtain i where i: "cursor tty = Suc i" using True by (cases "cursor tty") auto
    have "\<not> (Suc i div t_columns tty = 0 \<and> Suc i mod t_columns tty = 0)"
      by (metis Suc_neq_Zero add_0 div_mult_mod_eq mult_0)
    moreover have e: "t_columns tty - Suc 0 = i mod t_columns tty" if "Suc (i mod t_columns tty) = t_columns tty"
      using that by simp
    ultimately show ?thesis
      using s(1) glass_shape(2) [OF ok] unfolding i
      by (auto simp: e glass_putc_def g_back_def glass_of_def i mod_Suc div_Suc Let_def)
  qed
  then have g: "glass_of (screen_upd (put_cell ?p 0 tty) ?p (marked (\<lambda>k. k = cursor tty \<or> k = ?p) (dirty tty)) tty) =
      glass_putc 8 (glass_of tty)"
    unfolding glass_of_upd using put_rows [OF ok, of ?p 0] s(7) by (simp add: glass_of_def)
  have "putc_ok 8 tty (screen_upd (put_cell ?p 0 tty) ?p (marked (\<lambda>k. k = cursor tty \<or> k = ?p) (dirty tty)) tty)"
    by (rule putc_okI [OF ok _ _ _ _ _ g]) (use s in \<open>auto simp: put_cell_def\<close>)
  then show ?thesis using tty_putc_bs [OF ok] True by simp
next
  case False
  note s = screen_okD [OF ok]
  have g: "glass_of (screen_upd (cells tty) 0 (marked (\<lambda>k. k = 1 \<or> k = 0) (dirty tty)) tty) = glass_putc 8 (glass_of tty)"
    unfolding glass_of_upd using False by (simp add: glass_of_def glass_putc_def g_back_def)
  have "putc_ok 8 tty (screen_upd (cells tty) 0 (marked (\<lambda>k. k = 1 \<or> k = 0) (dirty tty)) tty)"
    by (rule putc_okI [OF ok _ _ _ _ _ g]) (use s False in auto)
  then show ?thesis using tty_putc_bs [OF ok] False by simp
qed

lemma putc_lf_ok:
  assumes ok: "screen_ok tty"
  shows "\<exists>tty'. tty_putc True 10 tty = Inr tty' \<and> putc_ok 10 tty tty'"
proof (cases "line_start tty (cursor tty) + t_columns tty = t_size tty")
  case True
  note s = screen_okD [OF ok] and sc = scrolled_ok [OF ok s(5)]
  have r: "g_row (glass_of tty) < t_lines tty"
    using s by (simp add: glass_of_def less_mult_imp_div_less mult.commute)
  have "glass_of (scrolled (cells tty) tty) = glass_putc 10 (glass_of tty)"
    using last_line(1) [OF ok] True r glass_shape(1,2) [OF ok] unfolding sc(3)
    by (simp add: glass_putc_def g_newline_def) (auto simp: glass_of_def)
  then have "putc_ok 10 tty (scrolled (cells tty) tty)" using sc by (auto simp: putc_ok_def scrolled_def)
  then show ?thesis using tty_putc_lf [OF ok] True by auto
next
  case False
  note s = screen_okD [OF ok] and f = line_fits [OF ok screen_okD(7) [OF ok]]
  let ?b = "line_start tty (cursor tty) + t_columns tty"
  have b: "?b = (cursor tty div t_columns tty + 1) * t_columns tty" by (simp add: line_start_eq)
  have lt: "?b < t_size tty" using False f(1) by simp
  have g: "glass_of (screen_upd (cells tty) ?b (marked (\<lambda>k. line_start tty (cursor tty) \<le> k \<and> k < ?b + t_columns tty) (dirty tty)) tty) =
      glass_putc 10 (glass_of tty)"
    unfolding glass_of_upd b using last_line(1) [OF ok] False glass_shape(1) [OF ok] s(1)
    by (simp add: glass_putc_def g_newline_def) (auto simp: glass_of_def)
  have "putc_ok 10 tty (screen_upd (cells tty) ?b (marked (\<lambda>k. line_start tty (cursor tty) \<le> k \<and> k < ?b + t_columns tty) (dirty tty)) tty)"
    by (rule putc_okI [OF ok _ _ _ _ _ g]) (use s f lt in auto)
  then show ?thesis using tty_putc_lf [OF ok] False by auto
qed

lemma putc_char_ok:
  assumes ok: "screen_ok tty" and c: "c \<noteq> 13" "c \<noteq> 8" "c \<noteq> 10"
  shows "\<exists>tty'. tty_putc True c tty = Inr tty' \<and> putc_ok c tty tty'"
proof -
  note s = screen_okD [OF ok] and f = line_fits [OF ok screen_okD(7) [OF ok]]
  let ?r = "cursor tty div t_columns tty" and ?k = "cursor tty mod t_columns tty"
  let ?rows = "set_cell ?r ?k c (g_rows (glass_of tty))"
  have rows: "rows_of (t_columns tty) (t_lines tty) (\<lambda>k. c_ch (put_cell (cursor tty) c tty ! k)) = ?rows"
    by (rule put_rows [OF ok s(7)])
  have put: "glass_putc c (glass_of tty) =
      (if ?k + 1 = t_columns tty then g_newline \<lparr>g_rows = ?rows, g_row = ?r, g_col = ?k\<rparr>
       else \<lparr>g_rows = ?rows, g_row = ?r, g_col = ?k + 1\<rparr>)"
    using c glass_shape(3) [OF ok] by (simp add: glass_putc_def g_put_def glass_of_def Let_def)
  have k: "?k < t_columns tty" using s(1) by simp
  have cur: "cursor tty = line_start tty (cursor tty) + ?k" by (simp add: line_start_eq)
  have r: "?r < t_lines tty" using s by (simp add: less_mult_imp_div_less mult.commute)
  have ll: "line_start tty (cursor tty) + t_columns tty = t_size tty \<longleftrightarrow> \<not> ?r + 1 < t_lines tty"
    using last_line(1) [OF ok] by (simp add: glass_of_def)
  show ?thesis
  proof (cases "cursor tty + 1 = t_size tty")
    case True
    then have e: "?k + 1 = t_columns tty" "\<not> ?r + 1 < t_lines tty" using f k cur ll by linarith+
    have l: "length (put_cell (cursor tty) c tty) = t_size tty" using s by (simp add: put_cell_def)
    note sc = scrolled_ok [OF ok l]
    have "glass_of (scrolled (put_cell (cursor tty) c tty) tty) = glass_putc c (glass_of tty)"
      unfolding sc(3) rows put using e r glass_shape(3,4) [OF ok] by (simp add: g_newline_def)
    then have "putc_ok c tty (scrolled (put_cell (cursor tty) c tty) tty)" using sc by (auto simp: putc_ok_def scrolled_def)
    then show ?thesis using tty_putc_char [OF ok c] True by auto
  next
    case False
    then have lt: "cursor tty + 1 < t_size tty" using s(7) by simp
    have step: "\<lparr>g_rows = ?rows, g_row = (cursor tty + 1) div t_columns tty, g_col = (cursor tty + 1) mod t_columns tty\<rparr> =
        glass_putc c (glass_of tty)"
    proof (cases "?k + 1 = t_columns tty")
      case True
      then have "?r + 1 < t_lines tty" using ll lt cur by linarith
      then show ?thesis using True glass_shape(4) [OF ok] unfolding put
        by (simp add: g_newline_def div_Suc mod_Suc)
    next
      case False
      then show ?thesis unfolding put by (simp add: div_Suc mod_Suc)
    qed
    have g: "glass_of (screen_upd (put_cell (cursor tty) c tty) (cursor tty + 1)
        (marked (\<lambda>k. k = cursor tty + 1 \<or> k = cursor tty) (dirty tty)) tty) = glass_putc c (glass_of tty)"
      unfolding glass_of_upd rows by (rule step)
    have "putc_ok c tty (screen_upd (put_cell (cursor tty) c tty) (cursor tty + 1)
        (marked (\<lambda>k. k = cursor tty + 1 \<or> k = cursor tty) (dirty tty)) tty)"
      by (rule putc_okI [OF ok _ _ _ _ _ g]) (use s lt in \<open>auto simp: put_cell_def\<close>)
    then show ?thesis using tty_putc_char [OF ok c] False by simp
  qed
qed

lemma tty_putc_ok: "screen_ok tty \<Longrightarrow> \<exists>tty'. tty_putc True c tty = Inr tty' \<and> putc_ok c tty tty'"
  using putc_cr_ok [of tty] putc_bs_ok [of tty] putc_lf_ok [of tty] putc_char_ok [of tty c] by (cases "c = 13 \<or> c = 8 \<or> c = 10") auto

text \<open>Strings.\<close>

definition puts_ok :: "u8 list \<Rightarrow> 's tty_t \<Rightarrow> 's tty_t \<Rightarrow> bool" where
  "puts_ok cs old new \<longleftrightarrow> (\<exists>cells cur d. new = screen_upd cells cur d old) \<and> screen_ok new \<and> quiet old new \<and>
     glass_of new = fold glass_putc cs (glass_of old)"

lemma screen_upd_twice [simp]: "screen_upd cs cur d (screen_upd cs' cur' d' tty) = screen_upd cs cur d tty"
  by (simp add: screen_upd_def)

lemma tty_puts_ok: "screen_ok tty \<Longrightarrow> \<exists>tty'. tty_puts True cs tty = Inr tty' \<and> puts_ok cs tty tty'"
proof (induction cs arbitrary: tty)
  case Nil
  have "tty = screen_upd (cells tty) (cursor tty) (dirty tty) tty" by (simp add: screen_upd_def)
  then have "\<exists>cs cur d. tty = screen_upd cs cur d tty" by blast
  then have "puts_ok [] tty tty" using Nil quiet_refl unfolding puts_ok_def by simp
  then show ?case by simp
next
  case (Cons c cs)
  obtain t1 where t1: "tty_putc True c tty = Inr t1" "putc_ok c tty t1" using tty_putc_ok [OF Cons.prems] by blast
  then have "screen_ok t1" by (simp add: putc_ok_def)
  then obtain t2 where t2: "tty_puts True cs t1 = Inr t2" "puts_ok cs t1 t2" using Cons.IH by blast
  obtain a b d where u1: "t1 = screen_upd a b d tty" using t1(2) by (auto simp: putc_ok_def)
  moreover obtain a' b' d' where "t2 = screen_upd a' b' d' t1" using t2(2) by (auto simp: puts_ok_def)
  ultimately have "t2 = screen_upd a' b' d' tty" by simp
  then have "\<exists>cells cur d. t2 = screen_upd cells cur d tty" by blast
  moreover have "t_size t1 = t_size tty" using u1 by simp
  then have "quiet tty t2" using t1(2) t2(2) quiet_trans [of tty t1 t2] by (simp add: puts_ok_def putc_ok_def)
  ultimately have "puts_ok (c # cs) tty t2" using t1(2) t2(2) by (simp add: puts_ok_def putc_ok_def)
  then show ?case using t1(1) t2(1) by simp
qed

end
