(* ===== verification/Tty_Display.thy ===== *)
theory Tty_Display
  imports Tty_Screen
begin

text \<open>
  From the terminal to the pixels: \<open>tty_render\<close> and \<open>tty_write\<close> over a drawing surface. The screen
  of the terminal in front always shows what its cells and its cursor say, although only the cells
  marked dirty are drawn.
\<close>

section \<open>The sprites of the dirty cells\<close>

text \<open>The two loops visit the cells in order.\<close>

lemma nested_places:
  fixes F :: "nat \<Rightarrow> nat \<Rightarrow> nat \<Rightarrow> 'a list"
  assumes "0 < c"
  shows "concat (List.map (\<lambda>y. concat (List.map (\<lambda>x. F (y * c + x) x y) [0..<c])) [0..<l]) =
    concat (List.map (\<lambda>i. F i (i mod c) (i div c)) [0..<c * l])"
proof (induction l)
  case (Suc l)
  have "[0..<c * l + c] = [0..<c * l] @ [c * l..<c * l + c]" by (rule upt_add_eq_append) simp
  then have "[0..<c * Suc l] = [0..<c * l] @ List.map (\<lambda>x. l * c + x) [0..<c]"
    using map_add_upt [of "l * c" c] by (simp add: mult.commute add.commute)
  moreover have "List.map (\<lambda>x. F (l * c + x) ((l * c + x) mod c) ((l * c + x) div c)) [0..<c] =
      List.map (\<lambda>x. F (l * c + x) x l) [0..<c]"
    by (rule map_cong) (use assms in auto)
  ultimately have "concat (List.map (\<lambda>i. F i (i mod c) (i div c)) [0..<c * Suc l]) =
      concat (List.map (\<lambda>i. F i (i mod c) (i div c)) [0..<c * l]) @ concat (List.map (\<lambda>x. F (l * c + x) x l) [0..<c])"
    by (simp only: map_append concat_append map_map o_def)
  then show ?case using Suc by simp
qed simp

definition place_sprites :: "bool \<Rightarrow> 's tty_t \<Rightarrow> nat \<Rightarrow> sprite list" where
  "place_sprites show_cursor tty i =
     (if dirty tty ! i \<noteq> 0
      then glyph_sprites (of_int (t_display tty)) (shown show_cursor tty i) (i mod t_columns tty) (2 * (i div t_columns tty))
      else [])"

lemma tty_sprites_eq:
  assumes "screen_ok tty"
  shows "tty_sprites show_cursor tty = concat (List.map (place_sprites show_cursor tty) [0..<t_size tty])"
proof -
  have "cell_sprites show_cursor tty i (i mod t_columns tty) (i div t_columns tty) = place_sprites show_cursor tty i" for i
    by (simp add: cell_sprites_def place_sprites_def glyph_sprites_def mult.commute Let_def)
  then show ?thesis
    using nested_places [OF screen_okD(1) [OF assms], of "cell_sprites show_cursor tty" "t_lines tty"]
    by (simp add: tty_sprites_def screen_okD(4) [OF assms])
qed

lemma length_place_sprites: "length (concat (List.map (place_sprites show_cursor tty) [0..<n])) \<le> n * 2"
  by (induction n) (auto simp: place_sprites_def glyph_sprites_def)

section \<open>What the screen shows\<close>

text \<open>The upper and the lower tile of cell \<open>i\<close>; a screen large enough for all cells.\<close>

definition upper_tile :: "'s tty_t \<Rightarrow> nat \<Rightarrow> int \<times> int" where
  "upper_tile tty i = (int (i mod t_columns tty), int (2 * (i div t_columns tty)))"

definition lower_tile :: "'s tty_t \<Rightarrow> nat \<Rightarrow> int \<times> int" where
  "lower_tile tty i = (int (i mod t_columns tty), int (2 * (i div t_columns tty)) + 1)"

definition fits :: "'s tty_t \<Rightarrow> int \<times> int \<Rightarrow> bool" where
  "fits tty d \<longleftrightarrow> 8 * int (t_columns tty) \<le> fst d \<and> 16 * int (t_lines tty) \<le> snd d \<and> fst d \<le> 2 ^ 16 \<and> snd d \<le> 2 ^ 16"

definition cell_shows :: "u8 list \<Rightarrow> (int \<Rightarrow> int \<Rightarrow> pixel) \<Rightarrow> 's tty_t \<Rightarrow> nat \<Rightarrow> u8 \<Rightarrow> bool" where
  "cell_shows font pix tty i c \<longleftrightarrow>
     tile_of pix (upper_tile tty i) = List.map to_pixel (glyph_top font (unat c)) \<and>
     tile_of pix (lower_tile tty i) = List.map to_pixel (glyph_bottom font (unat c))"

lemma place_ok:
  assumes ok: "screen_ok tty" and f: "fits tty d" and i: "i < t_size tty"
  shows "on_screen d (upper_tile tty i)" "on_screen d (lower_tile tty i)"
    and "small_place (i mod t_columns tty) (2 * (i div t_columns tty))"
proof -
  note s = screen_okD [OF ok]
  have "i mod t_columns tty < t_columns tty" using s(1) by simp
  then have x: "int (i mod t_columns tty) + 1 \<le> int (t_columns tty)" by linarith
  have "i div t_columns tty < t_lines tty" using i s(4) by (simp add: less_mult_imp_div_less mult.commute)
  then have y: "int (i div t_columns tty) + 1 \<le> int (t_lines tty)" by linarith
  show "on_screen d (upper_tile tty i)" "on_screen d (lower_tile tty i)"
    using x y f by (simp_all add: on_screen_def upper_tile_def lower_tile_def fits_def)
  have "int (8 * (i mod t_columns tty)) < int (2 ^ 16)" "int (8 * (2 * (i div t_columns tty)) + 8) < int (2 ^ 16)"
    using x y f by (simp_all add: fits_def)
  then show "small_place (i mod t_columns tty) (2 * (i div t_columns tty))"
    unfolding small_place_def of_nat_less_iff by blast
qed

text \<open>Different cells have different tiles.\<close>

lemma tiles_differ:
  assumes "upper_tile tty i = upper_tile tty j \<or> lower_tile tty i = lower_tile tty j"
  shows "i = j"
proof -
  have "i mod t_columns tty = j mod t_columns tty" "i div t_columns tty = j div t_columns tty"
    using assms by (auto simp: upper_tile_def lower_tile_def)
  then show ?thesis by (metis div_mult_mod_eq)
qed

lemma upper_lower: "upper_tile tty i \<noteq> lower_tile tty j"
proof -
  have "2 * int a \<noteq> 2 * int b + 1" for a b by presburger
  then show ?thesis by (simp add: upper_tile_def lower_tile_def)
qed

text \<open>The effect of the first \<open>n\<close> cells' sprites.\<close>

definition drawn_top :: "u8 list \<Rightarrow> bool \<Rightarrow> 's tty_t \<Rightarrow> nat \<Rightarrow> pixel list" where
  "drawn_top font show_cursor tty i = List.map to_pixel (glyph_top font (unat (shown show_cursor tty i)))"

definition drawn_bottom :: "u8 list \<Rightarrow> bool \<Rightarrow> 's tty_t \<Rightarrow> nat \<Rightarrow> pixel list" where
  "drawn_bottom font show_cursor tty i = List.map to_pixel (glyph_bottom font (unat (shown show_cursor tty i)))"

lemma place_effect:
  assumes fb: "fb_ready font fb" and cur: "ucast (of_int (t_display tty) :: 4 word) = current (info fb)"
    and pl: "small_place (i mod t_columns tty) (2 * (i div t_columns tty))"
  shows "fold (sprite_effect fb q) (place_sprites show_cursor tty i) t =
    (if dirty tty ! i = 0 then t else if q = upper_tile tty i then drawn_top font show_cursor tty i
     else if q = lower_tile tty i then drawn_bottom font show_cursor tty i else t)"
  using glyph_sprites_ok(2) [OF fb pl cur]
  by (simp add: place_sprites_def upper_tile_def lower_tile_def drawn_top_def drawn_bottom_def)

lemma cells_effect:
  assumes fb: "fb_ready font fb" and cur: "ucast (of_int (t_display tty) :: 4 word) = current (info fb)"
    and pl: "\<And>i. i < n \<Longrightarrow> small_place (i mod t_columns tty) (2 * (i div t_columns tty))"
  shows "fold (sprite_effect fb (upper_tile tty j)) (concat (List.map (place_sprites show_cursor tty) [0..<n])) t =
      (if j < n \<and> dirty tty ! j \<noteq> 0 then drawn_top font show_cursor tty j else t)"
    and "fold (sprite_effect fb (lower_tile tty j)) (concat (List.map (place_sprites show_cursor tty) [0..<n])) t =
      (if j < n \<and> dirty tty ! j \<noteq> 0 then drawn_bottom font show_cursor tty j else t)"
  using pl
proof (induction n)
  case (Suc n)
  { case 1
    have "upper_tile tty j = upper_tile tty n \<longleftrightarrow> j = n" using tiles_differ by blast
    then show ?case
      using Suc(1) 1 place_effect [OF fb cur 1, of n "upper_tile tty j"] upper_lower [of tty j n] by (auto simp: less_Suc_eq) }
  { case 2
    have "lower_tile tty j = lower_tile tty n \<longleftrightarrow> j = n" using tiles_differ by blast
    then show ?case
      using Suc(2) 2 place_effect [OF fb cur 2, of n "lower_tile tty j"] upper_lower [of tty n j] by (auto simp: less_Suc_eq) }
qed auto

lemma hidden_effect:
  assumes fb: "fb_ready font fb" and cur: "ucast (of_int (t_display tty) :: 4 word) \<noteq> current (info fb)"
    and pl: "\<And>i. i < n \<Longrightarrow> small_place (i mod t_columns tty) (2 * (i div t_columns tty))"
  shows "fold (sprite_effect fb q) (concat (List.map (place_sprites show_cursor tty) [0..<n])) t = t"
  using pl
proof (induction n)
  case (Suc n)
  have "fold (sprite_effect fb q) (place_sprites show_cursor tty n) t = t" for t
    using glyph_sprites_ok(3) [OF fb Suc.prems [of n] cur] by (simp add: place_sprites_def)
  then show ?case using Suc by simp
qed simp

lemma place_sprites_ok:
  assumes fb: "fb_ready font fb" and pl: "\<And>i. i < n \<Longrightarrow> small_place (i mod t_columns tty) (2 * (i div t_columns tty))"
  shows "\<forall>sp \<in> set (concat (List.map (place_sprites show_cursor tty) [0..<n])). sprite_ok fb sp"
  using glyph_sprites_ok(1) [OF fb pl] by (auto simp: place_sprites_def split: if_splits)

section \<open>Rendering and writing\<close>

text \<open>The frame buffer device as the terminals use it, free to be taken.\<close>

definition fb_free :: "u8 list \<Rightarrow> ('s \<Rightarrow> nat) \<Rightarrow> 's fb_t \<Rightarrow> bool" where
  "fb_free font count fb \<longleftrightarrow> fb_ready font fb \<and> count (fb_sem fb) = 1"

definition in_front :: "'s tty_t \<Rightarrow> 's fb_t \<Rightarrow> bool" where
  "in_front tty fb \<longleftrightarrow> ucast (of_int (t_display tty) :: 4 word) = current (info fb)"

text \<open>Only the semaphores changed.\<close>

definition same_fb :: "('s \<Rightarrow> nat) \<Rightarrow> 's fb_t \<Rightarrow> 's fb_t \<Rightarrow> bool" where
  "same_fb count fb fb' \<longleftrightarrow> (\<exists>s. fb' = fb\<lparr>fb_sem := s\<rparr> \<and> count s = 1)"

definition rendered :: "('s \<Rightarrow> nat) \<Rightarrow> 's tty_t \<Rightarrow> 's tty_t \<Rightarrow> bool" where
  "rendered count tty tty' \<longleftrightarrow> (\<exists>l. tty' = tty\<lparr>dirty := replicate (t_size tty) 0, t_lock := l\<rparr> \<and> count l = 1)"

text \<open>The cells that are not dirty are on the screen.\<close>

definition synced :: "u8 list \<Rightarrow> bool \<Rightarrow> (int \<Rightarrow> int \<Rightarrow> pixel) \<Rightarrow> 's tty_t \<Rightarrow> bool" where
  "synced font show_cursor pix tty \<longleftrightarrow>
     (\<forall>i < t_size tty. dirty tty ! i = 0 \<longrightarrow> cell_shows font pix tty i (shown show_cursor tty i))"

context surface begin

lemma tty_render_ok:
  assumes K: "kmt_ok K unheld count" and lk: "count (t_lock tty) = 1" and fb: "fb_free font count fb" and g: "ok g"
    and ok: "screen_ok tty" and f: "fits tty (dims g)"
  shows "\<exists>tty' fb' g'. tty_render K draw show_cursor tty fb g = Inr (tty', fb', g') \<and>
    rendered count tty tty' \<and> same_fb count fb fb' \<and> ok g' \<and> dims g' = dims g \<and>
    (in_front tty fb \<longrightarrow> synced font show_cursor (pix g) tty \<longrightarrow> synced font show_cursor (pix g') tty') \<and>
    (\<not> in_front tty fb \<longrightarrow> (\<forall>q. on_screen (dims g) q \<longrightarrow> tile_of (pix g') q = tile_of (pix g) q))"
proof -
  note s = screen_okD [OF ok]
  obtain l where l: "k_sem_wait K (t_lock tty) = Inr l" "count l = 0" using kmt_ok_wait [OF K, of "t_lock tty"] lk by auto
  let ?t = "tty\<lparr>t_lock := l\<rparr>"
  let ?sps = "concat (List.map (place_sprites show_cursor ?t) [0..<t_size tty])"
  have okt: "screen_ok ?t" using ok by (simp add: screen_ok_def)
  have ft: "fits ?t (dims g)" using f by (simp add: fits_def)
  have pl: "small_place (i mod t_columns ?t) (2 * (i div t_columns ?t))" if "i < t_size tty" for i
    using place_ok(3) [OF okt ft] that by simp
  have rd: "fb_ready font fb" "count (fb_sem fb) = 1" using fb by (simp_all add: fb_free_def)
  obtain sm g' where w: "fb_write K draw SPRITE_BRK (array_bytes sprite_bytes ?sps) (int (length ?sps * 8)) fb g =
      Inr (int (length ?sps * 8), fb\<lparr>fb_sem := sm\<rparr>, g')" "count sm = 1" "ok g'" "dims g' = dims g"
      "\<And>q. on_screen (dims g) q \<Longrightarrow> tile_of (pix g') q = fold (sprite_effect fb q) ?sps (tile_of (pix g) q)"
    using fb_write_sprites [OF K rd(2) g place_sprites_ok [OF rd(1) pl]] by blast
  let ?t' = "tty\<lparr>dirty := replicate (t_size tty) 0, t_lock := k_sem_signal K l\<rparr>"
  have r: "rendered count tty ?t'" using kmt_ok_signal [OF K, of l] l(2) by (auto simp: rendered_def)
  have sp: "tty_sprites show_cursor ?t = ?sps" using tty_sprites_eq [OF okt] by simp
  have len: "length ?sps \<le> t_size tty * 2" by (rule length_place_sprites)
  have sz: "t_lines tty * t_columns tty = t_size tty" using s(4) by (simp add: mult.commute)
  have run: "tty_render K draw show_cursor tty fb g = Inr (?t', fb\<lparr>fb_sem := sm\<rparr>, g')"
    using l(1) sp len s(5,6) sz w(1) by (simp add: tty_render_def Let_def)
  have "synced font show_cursor (pix g') ?t'" if "in_front tty fb" "synced font show_cursor (pix g) tty"
    unfolding synced_def
  proof (intro allI impI)
    fix i assume i: "i < t_size ?t'"
    have c: "ucast (of_int (t_display ?t) :: 4 word) = current (info fb)" using that(1) by (simp add: in_front_def)
    have tiles: "upper_tile ?t i = upper_tile tty i" "lower_tile ?t i = lower_tile tty i" "shown show_cursor ?t i = shown show_cursor tty i"
      by (simp_all add: upper_tile_def lower_tile_def shown_def)
    have "tile_of (pix g') (upper_tile tty i) = (if dirty tty ! i \<noteq> 0 then drawn_top font show_cursor tty i else tile_of (pix g) (upper_tile tty i))"
      "tile_of (pix g') (lower_tile tty i) = (if dirty tty ! i \<noteq> 0 then drawn_bottom font show_cursor tty i else tile_of (pix g) (lower_tile tty i))"
      using w(5) place_ok(1,2) [OF ok f, of i] cells_effect [OF rd(1) c pl, of "t_size tty" i] i
      by (simp_all add: tiles drawn_top_def drawn_bottom_def)
    then have "cell_shows font (pix g') tty i (shown show_cursor tty i)"
      using that(2) i by (auto simp: cell_shows_def synced_def drawn_top_def drawn_bottom_def)
    then show "cell_shows font (pix g') ?t' i (shown show_cursor ?t' i)"
      by (simp add: cell_shows_def upper_tile_def lower_tile_def shown_def)
  qed
  moreover have "tile_of (pix g') q = tile_of (pix g) q" if "\<not> in_front tty fb" "on_screen (dims g) q" for q
    using w(5) [OF that(2)] hidden_effect [OF rd(1) _ pl] that(1) by (simp add: in_front_def)
  ultimately show ?thesis using run r w(2-4) by (auto simp: same_fb_def)
qed

text \<open>A quiet change of the terminal keeps it in step with the screen.\<close>

lemma synced_quiet:
  assumes "synced font show_cursor p old" and "quiet old new" and "t_size new = t_size old" "t_columns new = t_columns old"
  shows "synced font show_cursor p new"
  using assms by (auto simp: synced_def quiet_def cell_shows_def upper_tile_def lower_tile_def)

lemma tty_write_ok:
  assumes K: "kmt_ok K unheld count" and lk: "count (t_lock tty) = 1" and fb: "fb_free font count fb" and g: "ok g"
    and ok: "screen_ok tty" and f: "fits tty (dims g)" and n: "n \<le> int (length buf)"
  shows "\<exists>tty' fb' g'. tty_write K draw True show_cursor buf n tty fb g = Inr (n, tty', fb', g') \<and>
    screen_ok tty' \<and> fits tty' (dims g') \<and> count (t_lock tty') = 1 \<and> queue tty' = queue tty \<and> cooked tty' = cooked tty \<and>
    t_display tty' = t_display tty \<and> glass_of tty' = fold glass_putc (take (nat n) buf) (glass_of tty) \<and>
    dirty tty' = replicate (t_size tty') 0 \<and>
    same_fb count fb fb' \<and> ok g' \<and> dims g' = dims g \<and>
    (in_front tty fb \<longrightarrow> synced font show_cursor (pix g) tty \<longrightarrow> synced font show_cursor (pix g') tty') \<and>
    (\<not> in_front tty fb \<longrightarrow> (\<forall>q. on_screen (dims g) q \<longrightarrow> tile_of (pix g') q = tile_of (pix g) q))"
proof -
  obtain l where l: "k_sem_wait K (t_lock tty) = Inr l" "count l = 0" using kmt_ok_wait [OF K, of "t_lock tty"] lk by auto
  let ?t = "tty\<lparr>t_lock := l\<rparr>"
  have okt: "screen_ok ?t" using ok by (simp add: screen_ok_def)
  obtain t1 where t1: "tty_puts True (take (nat n) buf) ?t = Inr t1" "puts_ok (take (nat n) buf) ?t t1"
    using tty_puts_ok [OF okt] by blast
  obtain cs cur d where u: "t1 = screen_upd cs cur d ?t" using t1(2) by (auto simp: puts_ok_def)
  let ?t1 = "t1\<lparr>t_lock := k_sem_signal K l\<rparr>"
  have okt1: "screen_ok ?t1" using t1(2) by (simp add: puts_ok_def screen_ok_def)
  have f1: "fits ?t1 (dims g)" using f u by (simp add: fits_def)
  have front: "in_front ?t1 fb = in_front tty fb" using u by (simp add: in_front_def)
  have c1: "count (t_lock ?t1) = 1" using kmt_ok_signal [OF K, of l] l(2) by simp
  obtain t2 fb' g' where r: "tty_render K draw show_cursor ?t1 fb g = Inr (t2, fb', g')"
    "rendered count ?t1 t2" "same_fb count fb fb'" "ok g'" "dims g' = dims g"
    "in_front ?t1 fb \<longrightarrow> synced font show_cursor (pix g) ?t1 \<longrightarrow> synced font show_cursor (pix g') t2"
    "\<not> in_front ?t1 fb \<longrightarrow> (\<forall>q. on_screen (dims g) q \<longrightarrow> tile_of (pix g') q = tile_of (pix g) q)"
    using tty_render_ok [OF K c1 fb g okt1 f1] by blast
  obtain l2 where t2: "t2 = ?t1\<lparr>dirty := replicate (t_size ?t1) 0, t_lock := l2\<rparr>" "count l2 = 1"
    using r(2) by (auto simp: rendered_def)
  have run: "tty_write K draw True show_cursor buf n tty fb g = Inr (n, t2, fb', g')"
    using l(1) n t1(1) u r(1) by (simp add: tty_write_def Let_def)
  have gl: "glass_of t2 = fold glass_putc (take (nat n) buf) (glass_of tty)"
    using t1(2) t2(1) by (simp add: puts_ok_def glass_of_def)
  have q: "quiet ?t t1" using t1(2) by (simp add: puts_ok_def)
  have "synced font show_cursor (pix g) ?t1" if "synced font show_cursor (pix g) tty"
  proof -
    have "synced font show_cursor (pix g) ?t"
      using that by (simp add: synced_def cell_shows_def upper_tile_def lower_tile_def shown_def)
    then have "synced font show_cursor (pix g) t1" by (rule synced_quiet [OF _ q]) (use u in simp_all)
    then show ?thesis by (simp add: synced_def cell_shows_def upper_tile_def lower_tile_def shown_def)
  qed
  moreover have "screen_ok t2" "fits t2 (dims g')" using okt1 f1 t2(1) r(5) by (simp_all add: screen_ok_def fits_def)
  moreover have "count (t_lock t2) = 1" "queue t2 = queue tty" "cooked t2 = cooked tty" "t_display t2 = t_display tty"
      "dirty t2 = replicate (t_size t2) 0"
    using t2 u by simp_all
  ultimately show ?thesis using run r front gl by blast
qed

end

section \<open>Properties\<close>

text \<open>The terminal in front, in step with the screen, and everything free to be used.\<close>

definition console_ok :: "u8 list \<Rightarrow> ('s \<Rightarrow> nat) \<Rightarrow> bool \<Rightarrow> 's tty_t \<Rightarrow> 's fb_t \<Rightarrow> gpu_st \<Rightarrow> bool" where
  "console_ok font count show_cursor tty fb g \<longleftrightarrow>
     count (t_lock tty) = 1 \<and> fb_free font count fb \<and> gpu_ok g \<and> screen_ok tty \<and> fits tty (gpu_config g) \<and>
     in_front tty fb \<and> synced font show_cursor (screen g) tty"

lemma same_fb_free: "same_fb count fb fb' \<Longrightarrow> fb_free font count fb \<Longrightarrow> fb_free font count fb' \<and> info fb' = info fb"
  by (auto simp: same_fb_def fb_free_def fb_ready_def)

text \<open>
  C15: writing to the terminal in front, on a platform with a working \<open>memmove\<close>. Any bytes are
  accepted without a fault; the cells and the cursor become what the glass terminal makes of the
  bytes; and although only dirty cells are drawn, the qemu screen afterwards shows the glyph of
  every cell, with the cursor's block where the cursor is.
\<close>

theorem tty_write_displays:
  assumes "kmt_ok K unheld count" and "console_ok font count show_cursor tty fb g" and "n \<le> int (length buf)"
  shows "\<exists>tty' fb' g'. tty_write K gpu_fbdraw True show_cursor buf n tty fb g = Inr (n, tty', fb', g') \<and>
    console_ok font count show_cursor tty' fb' g' \<and>
    glass_of tty' = fold glass_putc (take (nat n) buf) (glass_of tty) \<and>
    (\<forall>i < t_size tty'. cell_shows font (screen g') tty' i (shown show_cursor tty' i))"
proof -
  have c: "count (t_lock tty) = 1" "fb_free font count fb" "gpu_ok g" "screen_ok tty" "fits tty (gpu_config g)" "in_front tty fb"
      "synced font show_cursor (screen g) tty"
    using assms(2) by (simp_all add: console_ok_def)
  obtain tty' fb' g' where w: "tty_write K gpu_fbdraw True show_cursor buf n tty fb g = Inr (n, tty', fb', g')"
      "screen_ok tty'" "fits tty' (gpu_config g')" "count (t_lock tty') = 1" "t_display tty' = t_display tty"
      "glass_of tty' = fold glass_putc (take (nat n) buf) (glass_of tty)" "dirty tty' = replicate (t_size tty') 0"
      "same_fb count fb fb'" "gpu_ok g'" "synced font show_cursor (screen g') tty'"
    using qemu.tty_write_ok [OF assms(1) c(1-5) assms(3)] c(6,7) by blast
  have "fb_free font count fb'" "in_front tty' fb'"
    using same_fb_free [OF w(8) c(2)] c(6) w(5) by (simp_all add: in_front_def)
  then have "console_ok font count show_cursor tty' fb' g'" using w by (simp add: console_ok_def)
  moreover have "\<forall>i < t_size tty'. cell_shows font (screen g') tty' i (shown show_cursor tty' i)"
    using w(7,10) by (simp add: synced_def)
  ultimately show ?thesis using w(1,6) by blast
qed

text \<open>A terminal of two columns and one line, all of it dirty, on the screen of 16 by 16 pixels.\<close>

definition ex_tty :: "nat tty_t" where
  "ex_tty = \<lparr>t_lock = 1, cooked = 0, queue = \<lparr>qbuf = replicate 1024 0, qfront = 0, qrear = 0\<rparr>,
     t_display = 0, t_lines = 1, t_columns = 2, t_size = 2, cells = replicate 2 tty_defaultch, cursor = 0, dirty = replicate 2 1\<rparr>"

definition ex_fb :: "nat fb_t" where
  "ex_fb = snd (fb_init (replicate 4096 255) (replicate NTEXTURE []) (16, 16) 1)"

lemma ex_console_ok: "console_ok (replicate 4096 255) (\<lambda>s. s) True ex_tty ex_fb ex_screen"
proof -
  have "fb_ready (replicate 4096 255) ex_fb \<and> fb_sem ex_fb = 1 \<and> current (info ex_fb) = 0"
    using fb_init_ready [of "replicate NTEXTURE []" "replicate 4096 255" "(16, 16)" "1 :: nat"] by (simp add: ex_fb_def)
  then show ?thesis using ex_screen_ok
    by (simp add: console_ok_def fb_free_def screen_ok_def fits_def in_front_def synced_def ex_tty_def nth_Cons' numeral_2_eq_2)
qed

theorem tty_write_displays_witness:
  "\<exists>tty' fb' g'. tty_write plain_kmt gpu_fbdraw True True [65, 10, 66] 3 ex_tty ex_fb ex_screen = Inr (3, tty', fb', g') \<and>
     glass_of tty' = \<lparr>g_rows = [[66, 0]], g_row = 0, g_col = 1\<rparr> \<and>
     (\<forall>i < t_size tty'. cell_shows (replicate 4096 255) (screen g') tty' i (shown True tty' i))"
proof -
  have "fold glass_putc (take (nat 3) [65, 10, 66]) (glass_of ex_tty) = \<lparr>g_rows = [[66, 0]], g_row = 0, g_col = 1\<rparr>"
    by code_simp
  then show ?thesis using tty_write_displays [OF plain_kmt_ok ex_console_ok, of 3 "[65, 10, 66]"] by fastforce
qed

text \<open>
  On the AbstractMachine itself the terminal stops the kernel at the first scroll: klib's
  \<open>memmove\<close> only panics, and a newline on the last line is enough to reach it. The refinement above
  holds for the native platform, whose C library has a \<open>memmove\<close>.
\<close>

theorem tty_scroll_panics:
  assumes "screen_ok tty" and "cursor tty div t_columns tty + 1 = t_lines tty"
  shows "tty_putc False 10 tty = Inl Panic"
proof -
  have "line_start tty (cursor tty) + t_columns tty = t_size tty"
    using last_line(1) [OF assms(1)] assms(2) by (simp add: glass_of_def)
  then show ?thesis using tty_upd_cr_ok [OF assms(1)]
    by (simp add: tty_putc_def tty_upd_lf_def tty_upd_scrollup_def move_down_def Let_def)
qed

theorem tty_scroll_panics_witness: "tty_putc False 10 ex_tty = Inl Panic"
  using tty_scroll_panics [of ex_tty] ex_console_ok by (simp add: console_ok_def ex_tty_def)

end
