(* ===== verification/Tty_Task.thy ===== *)
theory Tty_Task
  imports Tty_Display Dev_Input
begin

text \<open>
  \<open>dev_tty_task\<close> of \<open>kernel/src/dev/dev_tty.c\<close>: the task that takes events from the input device
  and gives them to the terminal in front, and how the two terminals share the screen.
\<close>

section \<open>The task\<close>

text \<open>
  The task's variables and the devices it uses. \<open>d_second\<close>: \<open>ttydev\<close> is \<open>tty2\<close>; \<open>d_cursor\<close> is the
  global \<open>show_cursor\<close>; \<open>d_log\<close> holds what \<open>printf\<close> was given.
\<close>

record ('l, 's, 'g) desk =
  d_in :: "('l, 's) input_t"
  d_tty1 :: "'s tty_t"
  d_tty2 :: "'s tty_t"
  d_second :: bool
  d_fb :: "'s fb_t"
  d_gpu :: 'g
  d_cursor :: bool
  d_time :: u64
  d_log :: "string list"

definition tty_of :: "('l, 's, 'g) desk \<Rightarrow> 's tty_t" where
  "tty_of d = (if d_second d then d_tty2 d else d_tty1 d)"

definition set_tty :: "'s tty_t \<Rightarrow> ('l, 's, 'g) desk \<Rightarrow> ('l, 's, 'g) desk" where
  "set_tty tty d = (if d_second d then d\<lparr>d_tty2 := tty\<rparr> else d\<lparr>d_tty1 := tty\<rparr>)"

text \<open>\<open>ttydev->ops->write(ttydev, 0, buf, count)\<close>.\<close>

definition desk_write ::
  "('l, 's) kmt \<Rightarrow> 'g draw \<Rightarrow> bool \<Rightarrow> u8 list \<Rightarrow> ('l, 's, 'g) desk \<Rightarrow> ('l, 's, 'g) desk res" where
  "desk_write K draw libc buf d =
     res_bind (tty_write K draw libc (d_cursor d) buf (int (length buf)) (tty_of d) (d_fb d) (d_gpu d)) (\<lambda>(_, tty, fb, g).
       Inr (set_tty tty (d\<lparr>d_fb := fb, d_gpu := g\<rparr>)))"

text \<open>Before the loop: everything is drawn once.\<close>

definition tty_task_start :: "('l, 's) kmt \<Rightarrow> 'g draw \<Rightarrow> u64 \<Rightarrow> ('l, 's, 'g) desk \<Rightarrow> ('l, 's, 'g) desk res" where
  "tty_task_start K draw now d =
     res_bind (tty_mark_all (d_tty1 d)) (\<lambda>tty.
     res_bind (tty_render K draw (d_cursor d) tty (d_fb d) (d_gpu d)) (\<lambda>(tty, fb, g).
       Inr (d\<lparr>d_tty1 := tty, d_second := False, d_fb := fb, d_gpu := g, d_time := now\<rparr>)))"

text \<open>Alt-1 and Alt-2 choose the terminal.\<close>

definition task_alt :: "('l, 's) kmt \<Rightarrow> 'g draw \<Rightarrow> bool \<Rightarrow> u16 \<Rightarrow> ('l, 's, 'g) desk \<Rightarrow> ('l, 's, 'g) desk res" where
  "task_alt K draw libc data d =
     (let nxt = (if data = 49 then False else d_second d);
          nxt = (if data = 50 then True else nxt)
      in if nxt \<noteq> d_second d then
           let d = d\<lparr>d_log := d_log d @ [''(tty) Switch to '' @ (if nxt then ''tty2'' else ''tty1'')], d_second := nxt\<rparr>;
               inf = \<lparr>width = 0, height = 0, num_displays = 0, current = of_int (t_display (tty_of d)),
                      num_textures = 0, num_sprites = 0\<rparr>
           in res_bind (tty_mark_all (tty_of d)) (\<lambda>tty.
              let d = set_tty tty d in
              res_bind (fb_write K draw 0 (info_bytes inf) SIZEOF_INFO (d_fb d) (d_gpu d)) (\<lambda>(_, fb, g).
                desk_write K draw libc [] (d\<lparr>d_fb := fb, d_gpu := g\<rparr>)))
         else Inr d)"

text \<open>A plain key is cooked, and echoed unless \<open>tty_cook\<close> says it changed nothing.\<close>

definition task_key :: "('l, 's) kmt \<Rightarrow> 'g draw \<Rightarrow> bool \<Rightarrow> u8 \<Rightarrow> ('l, 's, 'g) desk \<Rightarrow> ('l, 's, 'g) desk res" where
  "task_key K draw libc c d =
     res_bind (tty_cook K c (tty_of d)) (\<lambda>(ret, tty).
       let d = set_tty tty d in if ret = 0 then desk_write K draw libc [c] d else Inr d)"

text \<open>The cursor blinks, and stays on while keys come.\<close>

definition task_blink :: "('l, 's) kmt \<Rightarrow> 'g draw \<Rightarrow> bool \<Rightarrow> bool \<Rightarrow> u64 \<Rightarrow> ('l, 's, 'g) desk \<Rightarrow> ('l, 's, 'g) desk res" where
  "task_blink K draw libc changed now d =
     (if changed \<or> 500 < (now - d_time d) div 1000 then
        let d = d\<lparr>d_time := now, d_cursor := \<not> d_cursor d \<or> changed\<rparr>
        in res_bind (tty_mark (cursor (tty_of d)) (tty_of d)) (\<lambda>tty. desk_write K draw libc [] (set_tty tty d))
      else Inr d)"

text \<open>One round of the loop; \<open>now\<close> is what \<open>AM_TIMER_UPTIME\<close> says after the event.\<close>

definition tty_task_round ::
  "('l, 's) kmt \<Rightarrow> 'g draw \<Rightarrow> bool \<Rightarrow> u64 \<Rightarrow> ('l, 's, 'g) desk \<Rightarrow> ('l, 's, 'g) desk res" where
  "tty_task_round K draw libc now d =
     res_bind (input_read K SIZEOF_EVENT (d_in d)) (\<lambda>(nread, evo, inp).
     res_bind (guard Panic (nread \<noteq> 0)) (\<lambda>_.
     let ev = the evo; d = d\<lparr>d_in := inp\<rparr> in
     res_bind (if ev_alt ev then task_alt K draw libc (ev_data ev) d else Inr d) (\<lambda>d.
     let d = (if ev_ctrl ev \<and> ev_data ev = 99 then d\<lparr>d_log := d_log d @ [''(tty) Ctrl-c pressed.'']\<rparr> else d) in
     res_bind (if \<not> ev_ctrl ev \<and> \<not> ev_alt ev \<and> ev_data ev \<noteq> 0 then task_key K draw libc (ucast (ev_data ev)) d else Inr d) (\<lambda>d.
       task_blink K draw libc (ev_data ev \<noteq> 0) now d))))"

primrec tty_task_rounds :: "('l, 's) kmt \<Rightarrow> 'g draw \<Rightarrow> bool \<Rightarrow> u64 list \<Rightarrow> ('l, 's, 'g) desk \<Rightarrow> ('l, 's, 'g) desk res" where
  "tty_task_rounds K draw libc [] d = Inr d"
| "tty_task_rounds K draw libc (now # nows) d =
     res_bind (tty_task_round K draw libc now d) (tty_task_rounds K draw libc nows)"

section \<open>What it should do\<close>

text \<open>
  The abstract desk: which terminal is in front, and for each terminal the glass screen and the
  line discipline.
\<close>

record adesk =
  a_second :: bool
  a_glass1 :: glass
  a_glass2 :: glass
  a_line1 :: line_state
  a_line2 :: line_state

definition a_key :: "u8 \<Rightarrow> adesk \<Rightarrow> adesk" where
  "a_key c a =
     (if a_second a then
        (let (ret, st) = ld_cook c (a_line2 a)
         in a\<lparr>a_line2 := st, a_glass2 := if ret = 0 then glass_putc c (a_glass2 a) else a_glass2 a\<rparr>)
      else
        (let (ret, st) = ld_cook c (a_line1 a)
         in a\<lparr>a_line1 := st, a_glass1 := if ret = 0 then glass_putc c (a_glass1 a) else a_glass1 a\<rparr>))"

definition a_event :: "input_event \<Rightarrow> adesk \<Rightarrow> adesk" where
  "a_event ev a =
     (if ev_alt ev then
        (if ev_data ev = 50 then a\<lparr>a_second := True\<rparr> else if ev_data ev = 49 then a\<lparr>a_second := False\<rparr> else a)
      else if \<not> ev_ctrl ev \<and> ev_data ev \<noteq> 0 then a_key (ucast (ev_data ev)) a
      else a)"

section \<open>The invariant\<close>

definition term_ok :: "('s \<Rightarrow> nat) \<Rightarrow> int \<times> int \<Rightarrow> 's tty_t \<Rightarrow> line_state \<Rightarrow> glass \<Rightarrow> bool" where
  "term_ok count dm tty st gl \<longleftrightarrow> tin_ok count tty st \<and> screen_ok tty \<and> fits tty dm \<and> glass_of tty = gl"

definition desk_ok :: "u8 list \<Rightarrow> ('s \<Rightarrow> nat) \<Rightarrow> ('l, 's, gpu_st) desk \<Rightarrow> adesk \<Rightarrow> bool" where
  "desk_ok font count d a \<longleftrightarrow>
     term_ok count (gpu_config (d_gpu d)) (d_tty1 d) (a_line1 a) (a_glass1 a) \<and>
     term_ok count (gpu_config (d_gpu d)) (d_tty2 d) (a_line2 a) (a_glass2 a) \<and>
     t_display (d_tty1 d) = 0 \<and> t_display (d_tty2 d) = 1 \<and>
     d_second d = a_second a \<and> fb_free font count (d_fb d) \<and> gpu_ok (d_gpu d) \<and>
     in_front (tty_of d) (d_fb d) \<and> synced font (d_cursor d) (screen (d_gpu d)) (tty_of d)"

lemma desk_okD:
  assumes "desk_ok font count d a"
  shows "term_ok count (gpu_config (d_gpu d)) (d_tty1 d) (a_line1 a) (a_glass1 a)"
    "term_ok count (gpu_config (d_gpu d)) (d_tty2 d) (a_line2 a) (a_glass2 a)"
    "t_display (d_tty1 d) = 0" "t_display (d_tty2 d) = 1"
    "d_second d = a_second a" "fb_free font count (d_fb d)" "gpu_ok (d_gpu d)"
    "in_front (tty_of d) (d_fb d)" "synced font (d_cursor d) (screen (d_gpu d)) (tty_of d)"
  using assms by (simp_all add: desk_ok_def)

definition a_line :: "adesk \<Rightarrow> line_state" where "a_line a = (if a_second a then a_line2 a else a_line1 a)"
definition a_glass :: "adesk \<Rightarrow> glass" where "a_glass a = (if a_second a then a_glass2 a else a_glass1 a)"

definition a_set :: "line_state \<Rightarrow> glass \<Rightarrow> adesk \<Rightarrow> adesk" where
  "a_set st gl a = (if a_second a then a\<lparr>a_line2 := st, a_glass2 := gl\<rparr> else a\<lparr>a_line1 := st, a_glass1 := gl\<rparr>)"

lemma a_set_simps [simp]:
  "a_second (a_set st gl a) = a_second a" "a_line (a_set st gl a) = st" "a_glass (a_set st gl a) = gl"
  "a_set st gl (a_set st' gl' a) = a_set st gl a" "a_set (a_line a) (a_glass a) a = a"
  by (simp_all add: a_set_def a_line_def a_glass_def)

lemma a_key_eq:
  "a_key c a = a_set (snd (ld_cook c (a_line a))) (if fst (ld_cook c (a_line a)) = 0 then glass_putc c (a_glass a) else a_glass a) a"
  by (simp add: a_key_def a_set_def a_line_def a_glass_def split_beta)

lemma desk_set_simps [simp]:
  "tty_of (set_tty tty d) = tty" "d_fb (set_tty tty d) = d_fb d" "d_gpu (set_tty tty d) = d_gpu d"
  "d_cursor (set_tty tty d) = d_cursor d" "d_second (set_tty tty d) = d_second d" "d_in (set_tty tty d) = d_in d"
  "d_time (set_tty tty d) = d_time d" "d_log (set_tty tty d) = d_log d"
  by (simp_all add: tty_of_def set_tty_def)

lemma tty_of_simps [simp]:
  "tty_of (d\<lparr>d_in := x1\<rparr>) = tty_of d" "tty_of (d\<lparr>d_fb := x2\<rparr>) = tty_of d" "tty_of (d\<lparr>d_gpu := x3\<rparr>) = tty_of d"
  "tty_of (d\<lparr>d_cursor := x4\<rparr>) = tty_of d" "tty_of (d\<lparr>d_time := x5\<rparr>) = tty_of d" "tty_of (d\<lparr>d_log := x6\<rparr>) = tty_of d"
  by (simp_all add: tty_of_def)

text \<open>Nothing waits to be drawn.\<close>

definition clean :: "('l, 's, 'g) desk \<Rightarrow> bool" where
  "clean d \<longleftrightarrow> dirty (tty_of d) = replicate (t_size (tty_of d)) 0"

text \<open>The terminal in front.\<close>

lemma front_ok:
  assumes "desk_ok font count d a"
  shows "term_ok count (gpu_config (d_gpu d)) (tty_of d) (a_line a) (a_glass a)"
    and "t_display (tty_of d) = (if d_second d then 1 else 0)"
  using desk_okD [OF assms] by (simp_all add: tty_of_def a_line_def a_glass_def)

text \<open>Replacing it, and the devices it draws on.\<close>

lemma desk_ok_set:
  assumes d: "desk_ok font count d a"
    and t: "term_ok count (gpu_config g) tty st gl" "t_display tty = t_display (tty_of d)"
    and g: "gpu_config g = gpu_config (d_gpu d)" "gpu_ok g"
    and fb: "same_fb count (d_fb d) fb" and s: "synced font sc (screen g) tty"
  shows "desk_ok font count (set_tty tty (d\<lparr>d_fb := fb, d_gpu := g, d_cursor := sc\<rparr>)) (a_set st gl a)"
proof -
  note k = desk_okD [OF d]
  have "fb_free font count fb" "info fb = info (d_fb d)" using same_fb_free [OF fb k(6)] by simp_all
  moreover have "in_front tty fb" using k(8) t(2) calculation(2) by (simp add: in_front_def)
  ultimately show ?thesis
    using k(1-5) t g s front_ok(2) [OF d]
    by (cases "d_second d") (simp_all add: desk_ok_def set_tty_def a_set_def tty_of_def)
qed

lemma same_fb_refl: "fb_free font count fb \<Longrightarrow> same_fb count fb fb"
  unfolding same_fb_def fb_free_def by (rule exI [of _ "fb_sem fb"]) simp

section \<open>The steps of a round\<close>

lemma term_ok_dirty:
  assumes "term_ok count dm tty st gl" and "length ds = t_size tty"
  shows "term_ok count dm (tty\<lparr>dirty := ds\<rparr>) st gl"
  using assms by (simp add: term_ok_def tin_ok_def screen_ok_def fits_def glass_of_def)

lemma desk_write_ok:
  assumes K: "kmt_ok K unheld count" and d: "desk_ok font count d a"
  shows "\<exists>d'. desk_write K gpu_fbdraw True buf d = Inr d' \<and>
    desk_ok font count d' (a_set (a_line a) (fold glass_putc buf (a_glass a)) a) \<and> d_in d' = d_in d \<and> clean d'"
proof -
  note k = desk_okD [OF d]
  have t: "tin_ok count (tty_of d) (a_line a)" "screen_ok (tty_of d)" "fits (tty_of d) (gpu_config (d_gpu d))" "glass_of (tty_of d) = a_glass a"
    using front_ok(1) [OF d] by (simp_all add: term_ok_def)
  have lk: "count (t_lock (tty_of d)) = 1" using t(1) by (simp add: tin_ok_def)
  obtain tty' fb' g' where w: "tty_write K gpu_fbdraw True (d_cursor d) buf (int (length buf)) (tty_of d) (d_fb d) (d_gpu d) =
      Inr (int (length buf), tty', fb', g')"
      "screen_ok tty'" "fits tty' (gpu_config g')" "count (t_lock tty') = 1" "queue tty' = queue (tty_of d)" "cooked tty' = cooked (tty_of d)"
      "t_display tty' = t_display (tty_of d)" "glass_of tty' = fold glass_putc buf (glass_of (tty_of d))"
      "dirty tty' = replicate (t_size tty') 0" "same_fb count (d_fb d) fb'" "gpu_ok g'" "gpu_config g' = gpu_config (d_gpu d)"
      "synced font (d_cursor d) (screen g') tty'"
    using qemu.tty_write_ok [OF K lk k(6,7) t(2,3), of "int (length buf)" buf "d_cursor d"] k(8,9) by auto
  let ?d = "set_tty tty' (d\<lparr>d_fb := fb', d_gpu := g'\<rparr>)"
  have "term_ok count (gpu_config g') tty' (a_line a) (fold glass_putc buf (a_glass a))"
    using w t by (simp add: term_ok_def tin_ok_def)
  from desk_ok_set [OF d this w(7,12,11,10,13)]
  have "desk_ok font count ?d (a_set (a_line a) (fold glass_putc buf (a_glass a)) a)" by simp
  moreover have "desk_write K gpu_fbdraw True buf d = Inr ?d" using w(1) by (simp add: desk_write_def)
  ultimately show ?thesis using w(9) by (auto simp: clean_def)
qed

text \<open>Marking cells only.\<close>

lemma desk_mark:
  assumes d: "desk_ok font count d a" and l: "length ds = t_size (tty_of d)"
    and s: "synced font sc (screen (d_gpu d)) ((tty_of d)\<lparr>dirty := ds\<rparr>)"
  shows "desk_ok font count (set_tty ((tty_of d)\<lparr>dirty := ds\<rparr>) (d\<lparr>d_cursor := sc\<rparr>)) a"
proof -
  note k = desk_okD [OF d]
  have "desk_ok font count (set_tty ((tty_of d)\<lparr>dirty := ds\<rparr>) (d\<lparr>d_fb := d_fb d, d_gpu := d_gpu d, d_cursor := sc\<rparr>))
      (a_set (a_line a) (a_glass a) a)"
    by (rule desk_ok_set [OF d term_ok_dirty [OF front_ok(1) [OF d] l]])
      (use k(6,7) same_fb_refl [OF k(6)] s in simp_all)
  then show ?thesis by simp
qed

lemma task_blink_ok:
  assumes K: "kmt_ok K unheld count" and d: "desk_ok font count d a"
  shows "\<exists>d'. task_blink K gpu_fbdraw True changed now d = Inr d' \<and> desk_ok font count d' a \<and> d_in d' = d_in d \<and>
    (clean d \<longrightarrow> clean d')"
proof (cases "changed \<or> 500 < (now - d_time d) div 1000")
  case True
  let ?sc = "\<not> d_cursor d \<or> changed" and ?t = "tty_of d"
  let ?ds = "marked (\<lambda>k. k = cursor ?t) (dirty ?t)"
  have ok: "screen_ok ?t" using front_ok(1) [OF d] by (simp add: term_ok_def)
  have l: "length ?ds = t_size ?t" using screen_okD(6) [OF ok] by simp
  have "synced font ?sc (screen (d_gpu d)) (?t\<lparr>dirty := ?ds\<rparr>)"
    using desk_okD(9) [OF d] screen_okD(6) [OF ok]
    by (auto simp: synced_def marked_nth cell_shows_def upper_tile_def lower_tile_def shown_def split: if_splits)
  from desk_mark [OF d l this]
  have 1: "desk_ok font count (set_tty (?t\<lparr>dirty := ?ds\<rparr>) (d\<lparr>d_cursor := ?sc\<rparr>)) a" .
  have 2: "desk_ok font count (set_tty (?t\<lparr>dirty := ?ds\<rparr>) (d\<lparr>d_time := now, d_cursor := ?sc\<rparr>)) a"
    using 1 by (simp add: desk_ok_def set_tty_def tty_of_def split: if_splits)
  have "tty_mark (cursor ?t) ?t = Inr (?t\<lparr>dirty := ?ds\<rparr>)"
    using tty_mark_ok [of "cursor ?t" ?t] screen_okD(6,7) [OF ok] by simp
  then have "task_blink K gpu_fbdraw True changed now d =
      desk_write K gpu_fbdraw True [] (set_tty (?t\<lparr>dirty := ?ds\<rparr>) (d\<lparr>d_time := now, d_cursor := ?sc\<rparr>))"
    using True by (simp add: task_blink_def Let_def)
  then show ?thesis using desk_write_ok [OF K 2, of "[]"] by auto
next
  case False
  then show ?thesis using d by (simp add: task_blink_def)
qed

text \<open>\<open>tty_cook\<close> touches only the input side.\<close>

lemma tty_cook_frame:
  assumes "tty_cook K c tty = Inr (r, tty')"
  shows "tty' = tty\<lparr>t_lock := t_lock tty', cooked := cooked tty', queue := queue tty'\<rparr>"
  using assms by (cases "c = 10"; cases "c = 8") (auto simp: tty_cook_def res_bind_eq_Inr Let_def)

lemma task_key_ok:
  assumes K: "kmt_ok K unheld count" and d: "desk_ok font count d a" and room: "key_room c (a_line a)"
  shows "\<exists>d'. task_key K gpu_fbdraw True c d = Inr d' \<and> desk_ok font count d' (a_key c a) \<and> d_in d' = d_in d \<and>
    (clean d \<longrightarrow> clean d')"
proof -
  note t = front_ok(1) [OF d] and k = desk_okD [OF d]
  have tin: "tin_ok count (tty_of d) (a_line a)" using t by (simp add: term_ok_def)
  obtain t1 where t1: "tty_cook K c (tty_of d) = Inr (fst (ld_cook c (a_line a)), t1)"
      "tin_ok count t1 (snd (ld_cook c (a_line a)))"
    using tty_cook_ok [OF K tin room] by blast
  obtain l ck q where u: "t1 = (tty_of d)\<lparr>t_lock := l, cooked := ck, queue := q\<rparr>"
    using tty_cook_frame [OF t1(1)] by metis
  have "synced font (d_cursor d) (screen (d_gpu d)) t1"
    using k(9) u by (simp add: synced_def cell_shows_def upper_tile_def lower_tile_def shown_def)
  moreover have "term_ok count (gpu_config (d_gpu d)) t1 (snd (ld_cook c (a_line a))) (a_glass a)"
    using t t1(2) u by (simp add: term_ok_def screen_ok_def fits_def glass_of_def)
  moreover have "t_display t1 = t_display (tty_of d)" using u by simp
  ultimately have "desk_ok font count (set_tty t1 (d\<lparr>d_fb := d_fb d, d_gpu := d_gpu d, d_cursor := d_cursor d\<rparr>))
      (a_set (snd (ld_cook c (a_line a))) (a_glass a) a)"
    by (intro desk_ok_set [OF d]) (use k(6,7) same_fb_refl [OF k(6)] in simp_all)
  then have d1: "desk_ok font count (set_tty t1 d) (a_set (snd (ld_cook c (a_line a))) (a_glass a) a)" by simp
  show ?thesis
  proof (cases "fst (ld_cook c (a_line a)) = 0")
    case True
    then show ?thesis using desk_write_ok [OF K d1, of "[c]"] t1(1) by (auto simp: task_key_def a_key_eq)
  next
    case False
    have "clean d \<longrightarrow> clean (set_tty t1 d)" using u by (simp add: clean_def)
    then show ?thesis using False d1 t1(1) by (simp add: task_key_def a_key_eq)
  qed
qed

lemma tty_mark_all_ok:
  assumes "screen_ok tty"
  shows "tty_mark_all tty = Inr (tty\<lparr>dirty := replicate (t_size tty) 1\<rparr>)"
proof -
  have "marked (\<lambda>k. 0 \<le> k \<and> k < 0 + t_size tty) (dirty tty) = replicate (t_size tty) 1"
    using screen_okD(6) [OF assms] by (intro nth_equalityI) (simp_all add: marked_nth)
  then show ?thesis using tty_mark_from_ok [of 0 "t_size tty" tty] screen_okD(6) [OF assms] by (simp add: tty_mark_all_def)
qed

text \<open>Bringing display \<open>k\<close> to the front.\<close>

lemma fb_write_info:
  assumes K: "kmt_ok K unheld count" and fb: "fb_free font count fb"
  shows "\<exists>fb'. fb_write K draw 0 (info_bytes nfo) SIZEOF_INFO fb g = Inr (SIZEOF_INFO, fb', g) \<and>
    fb_free font count fb' \<and> current (info fb') = current nfo"
proof -
  have f: "fb_ready font fb" "count (fb_sem fb) = 1" using fb by (simp_all add: fb_free_def)
  obtain s where s: "k_sem_wait K (fb_sem fb) = Inr s" "count s = 0" using kmt_ok_wait [OF K, of "fb_sem fb"] f(2) by auto
  then show ?thesis
    using f(1) kmt_ok_signal [OF K, of s]
    by (auto simp: fb_write_def SIZEOF_INFO_def fb_free_def fb_ready_def Let_def)
qed

lemma task_alt_ok:
  assumes K: "kmt_ok K unheld count" and d: "desk_ok font count d a" and e: "ev_alt ev"
  shows "\<exists>d'. task_alt K gpu_fbdraw True (ev_data ev) d = Inr d' \<and> desk_ok font count d' (a_event ev a) \<and> d_in d' = d_in d \<and>
    (clean d \<longrightarrow> clean d')"
proof -
  note k = desk_okD [OF d]
  define nxt where "nxt = (if ev_data ev = 50 then True else if ev_data ev = 49 then False else d_second d)"
  have a: "a_event ev a = a\<lparr>a_second := nxt\<rparr>" using e k(5) by (auto simp: a_event_def nxt_def)
  show ?thesis
  proof (cases "nxt = d_second d")
    case True
    then have "task_alt K gpu_fbdraw True (ev_data ev) d = Inr d" by (auto simp: task_alt_def nxt_def Let_def split: if_splits)
    then show ?thesis using d a True k(5) by simp
  next
    case False
    let ?d = "d\<lparr>d_log := d_log d @ [''(tty) Switch to '' @ (if nxt then ''tty2'' else ''tty1'')], d_second := nxt\<rparr>"
    let ?inf = "\<lparr>width = 0, height = 0, num_displays = 0, current = of_int (t_display (tty_of ?d)), num_textures = 0, num_sprites = 0\<rparr>"
    have t: "term_ok count (gpu_config (d_gpu d)) (tty_of ?d) (a_line (a\<lparr>a_second := nxt\<rparr>)) (a_glass (a\<lparr>a_second := nxt\<rparr>))"
      using k(1,2) by (simp add: tty_of_def a_line_def a_glass_def)
    then have ok: "screen_ok (tty_of ?d)" by (simp add: term_ok_def)
    let ?t = "(tty_of ?d)\<lparr>dirty := replicate (t_size (tty_of ?d)) 1\<rparr>"
    have tt: "term_ok count (gpu_config (d_gpu d)) ?t (a_line (a\<lparr>a_second := nxt\<rparr>)) (a_glass (a\<lparr>a_second := nxt\<rparr>))"
      by (rule term_ok_dirty [OF t]) simp
    obtain fb' where fb': "fb_write K gpu_fbdraw 0 (info_bytes ?inf) SIZEOF_INFO (d_fb d) (d_gpu d) = Inr (SIZEOF_INFO, fb', d_gpu d)"
      "fb_free font count fb'" "current (info fb') = of_int (t_display (tty_of ?d))"
      using fb_write_info [OF K k(6), of gpu_fbdraw ?inf "d_gpu d"] by auto
    let ?d2 = "set_tty ?t ?d\<lparr>d_fb := fb', d_gpu := d_gpu d\<rparr>"
    have disp: "t_display (tty_of ?d) = (if nxt then 1 else 0)" using k(3,4) by (simp add: tty_of_def)
    have d2: "desk_ok font count ?d2 (a\<lparr>a_second := nxt\<rparr>)"
      using tt k(1-4,7) fb'(2,3) disp
      by (cases nxt) (simp_all add: desk_ok_def set_tty_def tty_of_def a_line_def a_glass_def in_front_def synced_def)
    have "task_alt K gpu_fbdraw True (ev_data ev) d = desk_write K gpu_fbdraw True [] ?d2"
    proof -
      have n: "(if ev_data ev = 50 then True else if ev_data ev = 49 then False else d_second d) = nxt" by (simp add: nxt_def)
      show ?thesis
        unfolding task_alt_def Let_def n using False fb'(1) tty_mark_all_ok [OF ok] by simp
    qed
    then show ?thesis using desk_write_ok [OF K d2, of "[]"] a by (auto simp: set_tty_def)
  qed
qed

section \<open>Rounds\<close>

text \<open>A plain key needs room in the line buffer of the terminal in front.\<close>

definition event_room :: "input_event \<Rightarrow> adesk \<Rightarrow> bool" where
  "event_room ev a \<longleftrightarrow>
     (\<not> ev_ctrl ev \<and> \<not> ev_alt ev \<and> ev_data ev \<noteq> 0 \<longrightarrow> key_room (ucast (ev_data ev)) (a_line a))"

primrec desk_fair :: "input_event list \<Rightarrow> adesk \<Rightarrow> bool" where
  "desk_fair [] a = True"
| "desk_fair (ev # evs) a = (event_room ev a \<and> desk_fair evs (a_event ev a))"

lemma desk_ok_other:
  "desk_ok font count d a \<Longrightarrow> desk_ok font count (d\<lparr>d_in := x\<rparr>) a"
  "desk_ok font count d a \<Longrightarrow> desk_ok font count (d\<lparr>d_log := y\<rparr>) a"
  by (simp_all add: desk_ok_def)

lemma tty_task_round_ok:
  assumes K: "kmt_ok K unheld count" and d: "desk_ok font count d a" and i: "input_ok unheld count (d_in d)"
    and e: "in_elems (d_in d) = ev # evs" and room: "event_room ev a" and c: "clean d"
  shows "\<exists>d'. tty_task_round K gpu_fbdraw True now d = Inr d' \<and> desk_ok font count d' (a_event ev a) \<and>
    input_ok unheld count (d_in d') \<and> in_elems (d_in d') = evs \<and> clean d'"
proof -
  obtain inp where inp: "input_read K SIZEOF_EVENT (d_in d) = Inr (SIZEOF_EVENT, Some ev, inp)" "input_ok unheld count inp"
      "in_elems inp = evs"
    using input_read_ok [OF K i e] by blast
  let ?d0 = "d\<lparr>d_in := inp\<rparr>"
  have d0: "desk_ok font count ?d0 a" by (rule desk_ok_other(1) [OF d])
  have c0: "clean ?d0" using c by (simp add: clean_def)
  define a1 where "a1 = (if ev_alt ev then a_event ev a else a)"
  obtain d1 where d1: "(if ev_alt ev then task_alt K gpu_fbdraw True (ev_data ev) ?d0 else Inr ?d0) = Inr d1"
      "desk_ok font count d1 a1" "d_in d1 = inp" "clean d1"
    using task_alt_ok [OF K d0, of ev] d0 c0 unfolding a1_def by (cases "ev_alt ev") auto
  define d2 where "d2 = (if ev_ctrl ev \<and> ev_data ev = 99 then d1\<lparr>d_log := d_log d1 @ [''(tty) Ctrl-c pressed.'']\<rparr> else d1)"
  have d2: "desk_ok font count d2 a1" "d_in d2 = inp" "clean d2"
    using d1 desk_ok_other(2) [OF d1(2)] by (simp_all add: d2_def clean_def)
  let ?plain = "\<not> ev_ctrl ev \<and> \<not> ev_alt ev \<and> ev_data ev \<noteq> 0"
  obtain d3 where d3: "(if ?plain then task_key K gpu_fbdraw True (ucast (ev_data ev)) d2 else Inr d2) = Inr d3"
      "desk_ok font count d3 (a_event ev a)" "d_in d3 = inp" "clean d3"
  proof (cases ?plain)
    case True
    then have a: "a1 = a" "a_event ev a = a_key (ucast (ev_data ev)) a" "key_room (ucast (ev_data ev)) (a_line a)"
      using room by (auto simp: a1_def a_event_def event_room_def)
    have "desk_ok font count d2 a" using d2(1) a(1) by simp
    from task_key_ok [OF K this a(3)] obtain d3 where "task_key K gpu_fbdraw True (ucast (ev_data ev)) d2 = Inr d3"
        "desk_ok font count d3 (a_key (ucast (ev_data ev)) a)" "d_in d3 = d_in d2" "clean d3"
      using d2(3) by blast
    then show thesis using that [of d3] True a(2) d2(2) by simp
  next
    case False
    then have "a_event ev a = a1" by (auto simp: a1_def a_event_def)
    then show thesis using that [of d2] False d2 by auto
  qed
  obtain d4 where d4: "task_blink K gpu_fbdraw True (ev_data ev \<noteq> 0) now d3 = Inr d4" "desk_ok font count d4 (a_event ev a)"
      "d_in d4 = d_in d3" "clean d4"
    using task_blink_ok [OF K d3(2), of "ev_data ev \<noteq> 0" now] d3(4) by blast
  have "tty_task_round K gpu_fbdraw True now d = Inr d4"
  proof -
    have nz: "(SIZEOF_EVENT \<noteq> 0) = True" by (simp add: SIZEOF_EVENT_def)
    show ?thesis
      by (simp only: tty_task_round_def inp(1) res_bind_simps prod.case nz guard_simps option.sel Let_def d1(1)
        d2_def [symmetric] d3(1) d4(1))
  qed
  then show ?thesis using d4 d3(3) inp(2,3) by simp
qed

lemma tty_task_rounds_ok:
  assumes K: "kmt_ok K unheld count"
  shows "desk_ok font count d a \<Longrightarrow> input_ok unheld count (d_in d) \<Longrightarrow> clean d \<Longrightarrow> desk_fair (in_elems (d_in d)) a \<Longrightarrow>
    length nows = length (in_elems (d_in d)) \<Longrightarrow>
    \<exists>d'. tty_task_rounds K gpu_fbdraw True nows d = Inr d' \<and> desk_ok font count d' (fold a_event (in_elems (d_in d)) a) \<and>
      input_ok unheld count (d_in d') \<and> in_elems (d_in d') = [] \<and> clean d'"
proof (induction nows arbitrary: d a)
  case (Cons now nows)
  obtain ev evs where e: "in_elems (d_in d) = ev # evs" using Cons.prems(5) by (cases "in_elems (d_in d)") auto
  have r: "event_room ev a" "desk_fair evs (a_event ev a)" using Cons.prems(4) e by simp_all
  obtain d1 where d1: "tty_task_round K gpu_fbdraw True now d = Inr d1" "desk_ok font count d1 (a_event ev a)"
      "input_ok unheld count (d_in d1)" "in_elems (d_in d1) = evs" "clean d1"
    using tty_task_round_ok [OF K Cons.prems(1,2) e r(1) Cons.prems(3)] by blast
  then obtain d' where "tty_task_rounds K gpu_fbdraw True nows d1 = Inr d'" "desk_ok font count d' (fold a_event evs (a_event ev a))"
      "input_ok unheld count (d_in d')" "in_elems (d_in d') = []" "clean d'"
    using Cons.IH [OF d1(2,3,5)] r(2) Cons.prems(5) e by auto
  then show ?case using d1(1) e by auto
qed auto

section \<open>From boot to the first event\<close>

text \<open>A blank glass terminal; a screen of \<open>w\<close> by \<open>h\<close> pixels with room for two characters.\<close>

definition blank_glass :: "nat \<Rightarrow> nat \<Rightarrow> glass" where
  "blank_glass c l = \<lparr>g_rows = replicate l (replicate c 0), g_row = 0, g_col = 0\<rparr>"

definition screen_size_ok :: "int \<Rightarrow> int \<Rightarrow> bool" where
  "screen_size_ok w h \<longleftrightarrow> 16 \<le> w \<and> 16 \<le> h \<and> w < 2 ^ 16 \<and> h < 2 ^ 16"

definition fb_info_ok :: "'s fb_t \<Rightarrow> int \<times> int \<Rightarrow> bool" where
  "fb_info_ok fb d \<longleftrightarrow> uint (width (info fb)) = fst d \<and> uint (height (info fb)) = snd d"

text \<open>Where no character can take the cursor to the end of the cells, \<open>memmove\<close> is not called.\<close>

lemma line_start_le: "line_start tty i \<le> i"
  by (simp add: line_start_def)

lemma tty_putc_no_scroll:
  assumes ok: "screen_ok tty" and c: "c \<noteq> 13" "c \<noteq> 8" and room: "cursor tty + (if c = 10 then t_columns tty else 1) < t_size tty"
  shows "\<exists>tty'. tty_putc True c tty = Inr tty' \<and> tty_putc False c tty = Inr tty' \<and> screen_ok tty' \<and>
    cursor tty' \<le> cursor tty + (if c = 10 then t_columns tty else 1) \<and> t_columns tty' = t_columns tty \<and> t_size tty' = t_size tty"
proof -
  obtain tty' where p: "tty_putc True c tty = Inr tty'" "putc_ok c tty tty'" using tty_putc_ok [OF ok] by blast
  have sc: "screen_ok tty'" using p(2) by (simp add: putc_ok_def)
  show ?thesis
  proof (cases "c = 10")
    case True
    have "line_start tty (cursor tty) + t_columns tty < t_size tty" using line_start_le [of tty "cursor tty"] room True by simp
    then have "tty_putc False 10 tty = tty_putc True 10 tty" "tty' = screen_upd (cells tty) (line_start tty (cursor tty) + t_columns tty)
        (marked (\<lambda>k. line_start tty (cursor tty) \<le> k \<and> k < line_start tty (cursor tty) + t_columns tty + t_columns tty) (dirty tty)) tty"
      using tty_upd_cr_ok [OF ok] p(1) tty_putc_lf [OF ok] True by (simp_all add: tty_putc_def tty_upd_lf_def)
    then show ?thesis using True p(1) sc line_start_le [of tty "cursor tty"] by (simp add: screen_upd_def)
  next
    case False
    have "set_ch (cursor tty) c tty = Inr (tty\<lparr>cells := (cells tty)[cursor tty := (cells tty ! cursor tty)\<lparr>c_ch := c\<rparr>]\<rparr>)"
      using screen_okD [OF ok] by (simp add: set_ch_def)
    then have "tty_putc False c tty = tty_putc True c tty"
      using room False c by (simp add: tty_putc_def tty_upd_putc_def)
    moreover have "tty' = screen_upd (put_cell (cursor tty) c tty) (cursor tty + 1) (marked (\<lambda>k. k = cursor tty + 1 \<or> k = cursor tty) (dirty tty)) tty"
      using p(1) tty_putc_char [OF ok c False] room False by simp
    ultimately show ?thesis using False p(1) sc by (simp add: screen_upd_def)
  qed
qed

definition reach :: "nat \<Rightarrow> u8 list \<Rightarrow> nat" where
  "reach cols cs = sum_list (List.map (\<lambda>c. if c = 10 then cols else 1) cs)"

lemma tty_puts_no_scroll:
  "screen_ok tty \<Longrightarrow> 13 \<notin> set cs \<Longrightarrow> 8 \<notin> set cs \<Longrightarrow> cursor tty + reach (t_columns tty) cs < t_size tty \<Longrightarrow>
   tty_puts False cs tty = tty_puts True cs tty"
proof (induction cs arbitrary: tty)
  case (Cons c cs)
  have c: "c \<noteq> 13" "c \<noteq> 8" using Cons.prems(2,3) by auto
  have "cursor tty + (if c = 10 then t_columns tty else 1) < t_size tty" using Cons.prems(4) by (simp add: reach_def)
  from tty_putc_no_scroll [OF Cons.prems(1) c this] obtain tty' where t: "tty_putc True c tty = Inr tty'" "tty_putc False c tty = Inr tty'"
    "screen_ok tty'" "cursor tty' \<le> cursor tty + (if c = 10 then t_columns tty else 1)" "t_columns tty' = t_columns tty" "t_size tty' = t_size tty"
    by blast
  have "cursor tty' + reach (t_columns tty') cs < t_size tty'" using t(4-6) Cons.prems(4) by (simp add: reach_def)
  then show ?case using Cons.IH [OF t(3)] Cons.prems(2,3) t(1,2) by simp
qed simp

lemma welcome_reach: "reach c welcome_bytes = length welcome_bytes - 6 + 6 * c" "length welcome_bytes = 252" "13 \<notin> set welcome_bytes" "8 \<notin> set welcome_bytes"
  by (simp_all add: reach_def welcome_bytes_def welcome_text_def welcome_char_def chr_def)

lemma tty_init_ok:
  assumes K: "kmt_ok K unheld count" and lk: "count lk = 1" "count ck = 0"
    and q: "length qb = TTY_COOK_BUF_SZ" "last qb = 0" and fb: "fb_free font count fb" "fb_info_ok fb (w, h)"
    and g: "gpu_ok g" "gpu_config g = (w, h)" and sz: "screen_size_ok w h"
    and libc: "libc \<or> 320 \<le> w \<and> 240 \<le> h" and got: "\<And>n. got n \<longleftrightarrow> n \<le> 16 * 2 ^ 20"
  shows "if 2 ^ 20 < nat (w div 8) * nat (h div 16) then tty_init K gpu_fbdraw libc sc got k qb lk ck fb g = Inl BadAccess
    else \<exists>tty' fb' g'. tty_init K gpu_fbdraw libc sc got k qb lk ck fb g = Inr (tty', fb', g') \<and>
    term_ok count (w, h) tty' ([], []) (fold glass_putc welcome_bytes (blank_glass (nat (w div 8)) (nat (h div 16)))) \<and>
    t_display tty' = k - 1 \<and> same_fb count fb fb' \<and> gpu_ok g' \<and> gpu_config g' = (w, h)"
proof -
  let ?l = "unat (height (info fb)) div 16" and ?c = "unat (width (info fb)) div 8"
  have i: "int (unat (width (info fb))) = w" "int (unat (height (info fb))) = h" using fb(2) by (simp_all add: fb_info_ok_def)
  have cl: "int ?c = w div 8" "int ?l = h div 16" by (simp_all only: zdiv_int i) simp_all
  then have n: "?c = nat (w div 8)" "?l = nat (h div 16)" by linarith+
  have "2 \<le> w div 8" "1 \<le> h div 16" using sz by (auto simp: screen_size_ok_def)
  then have pos: "2 \<le> ?c" "1 \<le> ?l" using cl by linarith+
  have gq: "got TTY_COOK_BUF_SZ" by (simp add: got TTY_COOK_BUF_SZ_def)
  let ?t = "\<lparr>t_lock = lk, cooked = ck, queue = \<lparr>qbuf = qb, qfront = 0, qrear = 0\<rparr>, t_display = k - 1, t_lines = ?l,
    t_columns = ?c, t_size = ?c * ?l, cells = replicate (?c * ?l) tty_defaultch, cursor = 0, dirty = replicate (?c * ?l) 0\<rparr>"
  have "2 * 1 \<le> ?c * ?l" by (rule mult_le_mono) (use pos in simp_all)
  then have ok: "screen_ok ?t" using pos by (simp add: screen_ok_def)
  have puts: "tty_puts libc welcome_bytes (?t\<lparr>t_lock := l\<rparr>) = tty_puts True welcome_bytes (?t\<lparr>t_lock := l\<rparr>)" for l
  proof (cases libc)
    case False
    then have "40 \<le> w div 8" "15 \<le> h div 16" using libc by auto
    then have "40 \<le> ?c" "15 \<le> ?l" using cl by linarith+
    then have "40 * 9 \<le> ?c * (?l - 6)" by (intro mult_le_mono) simp_all
    moreover have "?c * ?l = ?c * (?l - 6) + 6 * ?c" using \<open>15 \<le> ?l\<close> by (simp add: diff_mult_distrib2)
    ultimately have r: "reach ?c welcome_bytes < ?c * ?l" by (simp add: welcome_reach)
    have "screen_ok (?t\<lparr>t_lock := l\<rparr>)" using ok by (simp add: screen_ok_def)
    then show ?thesis using tty_puts_no_scroll [of "?t\<lparr>t_lock := l\<rparr>" welcome_bytes] r welcome_reach(3,4) False by simp
  qed simp
  have tk: "take (nat (int (length welcome_bytes))) welcome_bytes = welcome_bytes" by simp
  have wr: "tty_write K gpu_fbdraw libc sc welcome_bytes (int (length welcome_bytes)) ?t fb g =
      tty_write K gpu_fbdraw True sc welcome_bytes (int (length welcome_bytes)) ?t fb g"
    unfolding tty_write_def Let_def tk puts by simp
  have "8 * (w div 8) \<le> w" "16 * (h div 16) \<le> h" by simp_all
  then have f: "fits ?t (gpu_config g)" using cl sz g(2) by (simp add: fits_def screen_size_ok_def)
  have "rows_of ?c ?l (\<lambda>i. c_ch (replicate (?c * ?l) tty_defaultch ! i)) = rows_of ?c ?l (\<lambda>_. 0)"
    by (rule rows_of_cong) (simp add: tty_defaultch_def)
  also have "\<dots> = replicate ?l (replicate ?c 0)" by (simp add: rows_of_def map_replicate_trivial map_replicate_const)
  finally have gl: "glass_of ?t = blank_glass ?c ?l" by (simp add: glass_of_def blank_glass_def)
  have tin: "tin_ok count ?t ([], [])"
    using fresh_tty_ok [of qb count lk ck] q lk by (simp add: tin_ok_def fresh_tty_def)
  have lk': "count (t_lock ?t) = 1" using lk(1) by simp
  obtain tty' fb' g' where w: "tty_write K gpu_fbdraw True sc welcome_bytes (int (length welcome_bytes)) ?t fb g =
      Inr (int (length welcome_bytes), tty', fb', g')" "screen_ok tty'" "fits tty' (gpu_config g')" "count (t_lock tty') = 1"
      "queue tty' = queue ?t" "cooked tty' = cooked ?t" "t_display tty' = t_display ?t"
      "glass_of tty' = fold glass_putc welcome_bytes (glass_of ?t)" "same_fb count fb fb'" "gpu_ok g'" "gpu_config g' = gpu_config g"
    using qemu.tty_write_ok [OF K lk' fb(1) g(1) ok f order_refl [of "int (length welcome_bytes)"], of sc] unfolding tk by blast
  have "term_ok count (w, h) tty' ([], []) (fold glass_putc welcome_bytes (blank_glass (nat (w div 8)) (nat (h div 16))))"
    using w(2-6,8,11) gl tin g(2) unfolding n term_ok_def tin_ok_def by simp
  moreover have "tty_init K gpu_fbdraw libc sc got k qb lk ck fb g = Inr (tty', fb', g')" if "?c * ?l \<le> 2 ^ 20"
    unfolding tty_init_def Let_def if_P [OF gq] wr w(1) using that by (simp add: got)
  moreover have "t_display tty' = k - 1" using w(7) by simp
  moreover have "gpu_config g' = (w, h)" using w(11) g(2) by simp
  moreover have "tty_init K gpu_fbdraw libc sc got k qb lk ck fb g = Inl BadAccess" if big: "2 ^ 20 < ?c * ?l"
  proof -
    obtain l where l: "k_sem_wait K (t_lock ?t) = Inr l" using kmt_ok_wait [OF K, of "t_lock ?t"] lk by auto
    have "screen_ok (?t\<lparr>t_lock := l\<rparr>)" using ok by (simp add: screen_ok_def)
    then obtain t1 where "tty_puts True welcome_bytes (?t\<lparr>t_lock := l\<rparr>) = Inr t1" using tty_puts_ok by blast
    then have p: "tty_puts libc welcome_bytes (?t\<lparr>t_lock := l\<rparr>) = Inr t1" using puts by simp
    have "\<not> got (?c * ?l * 2 * 8)" using big by (simp add: got)
    then show ?thesis unfolding tty_init_def Let_def if_P [OF gq] using l p by simp
  qed
  ultimately show ?thesis using w(9,10) n by (simp add: not_less)
qed

text \<open>
  \<open>dev_init\<close>'s calls for the frame buffer and the two terminals, then the start of the task; the
  rest of the desk is \<open>d\<close>. \<open>libc\<close> tells which \<open>memmove\<close> is linked, \<open>got k n\<close> whether \<open>pmm->alloc\<close> has \<open>n\<close>
  bytes for terminal \<open>k\<close>; the requests of fixed size that \<open>fb_init\<close> makes, at most 4 MiB, are taken to succeed.
\<close>

definition console_boot ::
  "(bool, nat) kmt \<Rightarrow> bool \<Rightarrow> (int \<Rightarrow> nat \<Rightarrow> bool) \<Rightarrow> u8 list \<Rightarrow> u32 list list \<Rightarrow> u8 list \<Rightarrow> u8 list \<Rightarrow> u64 \<Rightarrow>
   (bool, nat, gpu_st) desk \<Rightarrow> (bool, nat, gpu_st) desk res" where
  "console_boot K libc got font ts qb1 qb2 now d =
     res_bind (tty_init K gpu_fbdraw libc (d_cursor d) (got 1) 1 qb1 1 0 (snd (fb_init font ts (gpu_config (d_gpu d)) 1)) (d_gpu d)) (\<lambda>(t1, fb, g).
     res_bind (tty_init K gpu_fbdraw libc (d_cursor d) (got 2) 2 qb2 1 0 fb g) (\<lambda>(t2, fb, g).
       tty_task_start K gpu_fbdraw now (d\<lparr>d_tty1 := t1, d_tty2 := t2, d_fb := fb, d_gpu := g\<rparr>)))"

lemma synced_all_dirty: "dirty tty = replicate (t_size tty) 1 \<Longrightarrow> synced font sc p tty"
  by (simp add: synced_def)

lemma tty_task_start_ok:
  assumes K: "kmt_ok K unheld count" and t: "term_ok count (gpu_config (d_gpu d)) (d_tty1 d) st1 gl1"
      "term_ok count (gpu_config (d_gpu d)) (d_tty2 d) st2 gl2" "t_display (d_tty1 d) = 0" "t_display (d_tty2 d) = 1"
    and fb: "fb_free font count (d_fb d)" "current (info (d_fb d)) = 0" and g: "gpu_ok (d_gpu d)"
  shows "\<exists>d'. tty_task_start K gpu_fbdraw now d = Inr d' \<and> clean d' \<and> d_in d' = d_in d \<and>
    desk_ok font count d' \<lparr>a_second = False, a_glass1 = gl1, a_glass2 = gl2, a_line1 = st1, a_line2 = st2\<rparr>"
proof -
  let ?t = "(d_tty1 d)\<lparr>dirty := replicate (t_size (d_tty1 d)) 1\<rparr>"
  have ok: "screen_ok (d_tty1 d)" using t(1) by (simp add: term_ok_def)
  have tt: "term_ok count (gpu_config (d_gpu d)) ?t st1 gl1" by (rule term_ok_dirty [OF t(1)]) simp
  then have p: "screen_ok ?t" "fits ?t (gpu_config (d_gpu d))" "count (t_lock ?t) = 1" by (simp_all add: term_ok_def tin_ok_def)
  have fr: "in_front ?t (d_fb d)" using t(3) fb(2) by (simp add: in_front_def)
  have sy: "synced font (d_cursor d) (screen (d_gpu d)) ?t" by (rule synced_all_dirty) simp
  obtain tty' fb' g' where r: "tty_render K gpu_fbdraw (d_cursor d) ?t (d_fb d) (d_gpu d) = Inr (tty', fb', g')"
      "rendered count ?t tty'" "same_fb count (d_fb d) fb'" "gpu_ok g'" "gpu_config g' = gpu_config (d_gpu d)"
      "synced font (d_cursor d) (screen g') tty'"
    using qemu.tty_render_ok [OF K p(3) fb(1) g p(1,2), of "d_cursor d"] fr sy by blast
  let ?d = "d\<lparr>d_tty1 := tty', d_second := False, d_fb := fb', d_gpu := g', d_time := now\<rparr>"
  obtain l where u: "tty' = ?t\<lparr>dirty := replicate (t_size ?t) 0, t_lock := l\<rparr>" "count l = 1" using r(2) by (auto simp: rendered_def)
  have "term_ok count (gpu_config (d_gpu d)) tty' st1 gl1"
    using tt u by (simp add: term_ok_def tin_ok_def screen_ok_def fits_def glass_of_def)
  moreover have "fb_free font count fb'" "info fb' = info (d_fb d)" using same_fb_free [OF r(3) fb(1)] by simp_all
  ultimately have "desk_ok font count ?d \<lparr>a_second = False, a_glass1 = gl1, a_glass2 = gl2, a_line1 = st1, a_line2 = st2\<rparr>"
    using t r fb(2) u(1) by (simp add: desk_ok_def tty_of_def in_front_def)
  moreover have "tty_task_start K gpu_fbdraw now d = Inr ?d"
    using tty_mark_all_ok [OF ok] r(1) by (simp add: tty_task_start_def)
  moreover have "clean ?d" using u(1) by (simp add: clean_def tty_of_def)
  ultimately show ?thesis by auto
qed

section \<open>Properties\<close>

text \<open>
  C14: the console. With any \<open>kmt\<close> that keeps its promises, a working \<open>memmove\<close> and room in the line
  buffers, \<open>dev_tty_task\<close> handles any queue of events without a fault: terminals, line buffers and
  the choice of the terminal become what the events say (a key is cooked by the terminal in front
  and echoed when it changed something, Alt-1 and Alt-2 switch), the input queue is empty, and the
  qemu screen shows every cell of the terminal in front.
\<close>

theorem console_refines:
  assumes "kmt_ok K unheld count" and "desk_ok font count d a" and "input_ok unheld count (d_in d)" and "clean d"
    and "desk_fair (in_elems (d_in d)) a" and "length nows = length (in_elems (d_in d))"
  shows "\<exists>d'. tty_task_rounds K gpu_fbdraw True nows d = Inr d' \<and>
    desk_ok font count d' (fold a_event (in_elems (d_in d)) a) \<and> in_elems (d_in d') = [] \<and>
    (\<forall>i < t_size (tty_of d'). cell_shows font (screen (d_gpu d')) (tty_of d') i (shown (d_cursor d') (tty_of d') i))"
proof -
  obtain d' where d': "tty_task_rounds K gpu_fbdraw True nows d = Inr d'"
      "desk_ok font count d' (fold a_event (in_elems (d_in d)) a)" "in_elems (d_in d') = []" "clean d'"
    using tty_task_rounds_ok [OF assms(1-5)] assms(6) by blast
  have "\<forall>i < t_size (tty_of d'). cell_shows font (screen (d_gpu d')) (tty_of d') i (shown (d_cursor d') (tty_of d') i)"
    using desk_okD(9) [OF d'(2)] d'(4) by (simp add: synced_def clean_def)
  then show ?thesis using d' by blast
qed

text \<open>A desk for the witness: two small terminals and a blank font on a black screen.\<close>

definition ex_desk :: "input_event list \<Rightarrow> (bool, nat, gpu_st) desk" where
  "ex_desk evs = \<lparr>d_in = ex_input\<lparr>event_sem := length evs, events := evs @ replicate (NEVENTS - length evs) (event False False 0),
       front := 0, rear := length evs\<rparr>,
     d_tty1 = ex_tty\<lparr>dirty := replicate 2 0\<rparr>, d_tty2 = ex_tty\<lparr>t_display := 1\<rparr>, d_second = False,
     d_fb = snd (fb_init (replicate 4096 0) (replicate NTEXTURE []) (16, 16) 1), d_gpu = ex_screen,
     d_cursor = True, d_time = 0, d_log = []\<rparr>"

definition ex_adesk :: adesk where
  "ex_adesk = \<lparr>a_second = False, a_glass1 = \<lparr>g_rows = [[0, 0]], g_row = 0, g_col = 0\<rparr>,
     a_glass2 = \<lparr>g_rows = [[0, 0]], g_row = 0, g_col = 0\<rparr>, a_line1 = ([], []), a_line2 = ([], [])\<rparr>"

lemma blank_glyph:
  assumes "c < 256"
  shows "glyph_top (replicate 4096 0) c = replicate 64 0" "glyph_bottom (replicate 4096 0) c = replicate 64 0"
proof -
  have px: "glyph_top (replicate 4096 0) c ! (8 * (i div 8) + i mod 8) = 0 \<and> glyph_bottom (replicate 4096 0) c ! (8 * (i div 8) + i mod 8) = 0"
    if "i < 64" for i
  proof -
    have "i mod 8 < 8" "i div 8 < 8" "16 * c + i div 8 + 8 < 4096" using that assms by auto
    then show ?thesis using glyph_pixel [of "replicate 4096 0" c "i mod 8" "i div 8"] assms by simp
  qed
  have "8 * (i div 8) + i mod 8 = i" for i :: nat by simp
  then show "glyph_top (replicate 4096 0) c = replicate 64 0" "glyph_bottom (replicate 4096 0) c = replicate 64 0"
    using px by (auto intro!: nth_equalityI)
qed

lemma black_tile:
  assumes "on_screen (16, 16) q"
  shows "tile_of (screen ex_screen) q = replicate 64 (to_pixel 0)"
proof -
  obtain x y where q: "q = (x, y)" by (cases q)
  have "screen ex_screen (8 * x + int (k mod 8)) (8 * y + int (k div 8)) = to_pixel 0" if "k < 64" for k
  proof -
    have "int (k mod 8) \<le> 7" "int (k div 8) \<le> 7" using that by auto
    moreover have "x \<le> 1" "y \<le> 1" using assms q by (simp_all add: on_screen_def)
    moreover have "8 * x + a + (8 * y + b) * 16 < 256" if "a \<le> 7" "b \<le> 7" "x \<le> 1" "y \<le> 1" for a b :: int
    proof -
      have "8 * x + a + (128 * y + 16 * b) < 256" using that by linarith
      then show ?thesis by (simp add: algebra_simps)
    qed
    ultimately have "8 * x + int (k mod 8) + (8 * y + int (k div 8)) * 16 < 256" by blast
    then have "nat (8 * x + int (k mod 8) + (8 * y + int (k div 8)) * 16) < 256" by simp
    then show ?thesis by (simp add: screen_def ex_screen_def gpu_init_def)
  qed
  then show ?thesis by (auto simp: tile_of_def q intro!: nth_equalityI)
qed

lemma ex_desk_ok: "desk_ok (replicate 4096 0) (\<lambda>s. s) (ex_desk evs) ex_adesk" "clean (ex_desk evs)"
proof -
  have fb: "fb_free (replicate 4096 0) (\<lambda>s. s) (d_fb (ex_desk evs))" "current (info (d_fb (ex_desk evs))) = 0"
    using fb_init_ready [of "replicate NTEXTURE []" "replicate 4096 0" "(16, 16)" "1 :: nat"] by (simp_all add: ex_desk_def fb_free_def)
  have g: "gpu_config (d_gpu (ex_desk evs)) = (16, 16)" "gpu_ok (d_gpu (ex_desk evs))" using ex_screen_ok by (simp_all add: ex_desk_def)
  have tin: "tin_ok (\<lambda>s. s) (tty :: nat tty_t) ([], [])" if "t_lock tty = 1" "cooked tty = 0" "queue tty = queue ex_tty" for tty
    using that fresh_tty_ok [of "replicate 1024 0" "\<lambda>s. s" 1 0]
    by (simp add: tin_ok_def fresh_tty_def ex_tty_def TTY_COOK_BUF_SZ_def)
  have t: "term_ok (\<lambda>s. s) (16, 16) (d_tty1 (ex_desk evs)) ([], []) \<lparr>g_rows = [[0, 0]], g_row = 0, g_col = 0\<rparr>"
      "term_ok (\<lambda>s. s) (16, 16) (d_tty2 (ex_desk evs)) ([], []) \<lparr>g_rows = [[0, 0]], g_row = 0, g_col = 0\<rparr>"
    unfolding term_ok_def
    by (intro conjI tin; simp add: ex_desk_def ex_tty_def screen_ok_def fits_def glass_of_def rows_of_def tty_defaultch_def numeral_2_eq_2)+
  let ?t = "d_tty1 (ex_desk evs)"
  have ok: "screen_ok ?t" "fits ?t (16, 16)" using t(1) by (simp_all add: term_ok_def)
  have "cell_shows (replicate 4096 0) (screen ex_screen) ?t i (shown True ?t i)" if "i < t_size ?t" for i
  proof -
    have "unat (shown True ?t i) < 256" using unsigned_less [of "shown True ?t i"] by simp
    then show ?thesis
      using black_tile place_ok(1,2) [OF ok that] by (simp add: cell_shows_def blank_glyph)
  qed
  then have s: "synced (replicate 4096 0) True (screen ex_screen) ?t" by (simp add: synced_def)
  then show "desk_ok (replicate 4096 0) (\<lambda>s. s) (ex_desk evs) ex_adesk"
    using fb t g unfolding desk_ok_def g(1)
    by (simp add: ex_adesk_def tty_of_def in_front_def) (simp add: ex_desk_def ex_tty_def)
  show "clean (ex_desk evs)" by (simp add: clean_def tty_of_def ex_desk_def ex_tty_def)
qed

lemma ex_desk_input:
  assumes "length evs < NEVENTS"
  shows "input_ok (\<lambda>l. \<not> l) (\<lambda>s. s) (d_in (ex_desk evs))" "in_elems (d_in (ex_desk evs)) = evs"
proof -
  have r: "ring (evs @ replicate (NEVENTS - length evs) (event False False 0)) 0 (length evs) = evs"
    using assms by (auto simp: ring_def ring_len_def nth_append intro!: nth_equalityI)
  show e: "in_elems (d_in (ex_desk evs)) = evs" using r by (simp add: in_elems_def ex_desk_def)
  show "input_ok (\<lambda>l. \<not> l) (\<lambda>s. s) (d_in (ex_desk evs))"
    using assms e by (simp add: input_ok_def ring_ok_def) (simp add: ex_desk_def ex_input_def NEVENTS_def)
qed

theorem console_refines_witness:
  "\<exists>d'. tty_task_rounds plain_kmt gpu_fbdraw True [0, 0, 0] (ex_desk [event False False 65, event False True 50, event True False 99]) = Inr d' \<and>
     in_elems (d_in d') = []"
proof -
  let ?evs = "[event False False 65, event False True 50, event True False 99]"
  have "length ?evs < NEVENTS" by (simp add: NEVENTS_def)
  note i = ex_desk_input [OF this]
  have "desk_fair ?evs ex_adesk"
    by (simp add: event_room_def a_event_def event_def key_room_def a_line_def ex_adesk_def ld_bytes_def TTY_COOK_BUF_SZ_def)
  then show ?thesis
    using console_refines [OF plain_kmt_ok ex_desk_ok(1) i(1) ex_desk_ok(2), of "[0, 0, 0]"] i(2) by auto
qed

text \<open>Booting, step by step.\<close>

lemma console_boot_ok:
  assumes "kmt_ok K unheld (\<lambda>s. s)" and "length ts = NTEXTURE" and "length qb1 = TTY_COOK_BUF_SZ \<and> last qb1 = 0"
    and "length qb2 = TTY_COOK_BUF_SZ \<and> last qb2 = 0" and "gpu_ok (d_gpu d) \<and> gpu_config (d_gpu d) = (w, h)" and "screen_size_ok w h"
    and "libc \<or> 320 \<le> w \<and> 240 \<le> h" and "\<And>k n. got k n \<longleftrightarrow> n \<le> 16 * 2 ^ 20"
  defines "gl \<equiv> fold glass_putc welcome_bytes (blank_glass (nat (w div 8)) (nat (h div 16)))"
  shows "if 2 ^ 20 < nat (w div 8) * nat (h div 16) then console_boot K libc got font ts qb1 qb2 now d = Inl BadAccess
    else \<exists>d'. console_boot K libc got font ts qb1 qb2 now d = Inr d' \<and> clean d' \<and> d_in d' = d_in d \<and>
    desk_ok font (\<lambda>s. s) d' \<lparr>a_second = False, a_glass1 = gl, a_glass2 = gl, a_line1 = ([], []), a_line2 = ([], [])\<rparr>"
proof -
  let ?fb = "snd (fb_init font ts (gpu_config (d_gpu d)) (1 :: nat))"
  have fb: "fb_free font (\<lambda>s. s) ?fb" "current (info ?fb) = 0"
    using fb_init_ready [OF assms(2), of font "gpu_config (d_gpu d)" "1 :: nat"] by (simp_all add: fb_free_def)
  have u32: "uint (of_int x :: u32) = x" if "16 \<le> x" "x < 2 ^ 16" for x :: int
    using that by (simp add: unsigned_of_int take_bit_int_eq_self_iff)
  have "uint (of_int w :: u32) = w" "uint (of_int h :: u32) = h" using assms(6) u32 by (simp_all add: screen_size_ok_def)
  then have i: "fb_info_ok ?fb (w, h)" using assms(5) by (simp add: fb_info_ok_def fb_init_def font_load_def)
  have g: "gpu_ok (d_gpu d)" "gpu_config (d_gpu d) = (w, h)" using assms(5) by simp_all
  have q: "length qb1 = TTY_COOK_BUF_SZ" "last qb1 = 0" "length qb2 = TTY_COOK_BUF_SZ" "last qb2 = 0" using assms(3,4) by simp_all
  have one: "(\<lambda>s. s) (1 :: nat) = 1" "(\<lambda>s. s) (0 :: nat) = 0" by simp_all
  note init1 = tty_init_ok [OF assms(1) one q(1,2) fb(1) i g assms(6,7) assms(8) [of 1], where sc = "d_cursor d" and k = 1]
  show ?thesis
  proof (cases "2 ^ 20 < nat (w div 8) * nat (h div 16)")
    case True
    then show ?thesis using init1 by (simp add: console_boot_def)
  next
    case False
    obtain t1 fb1 g1 where 1: "tty_init K gpu_fbdraw libc (d_cursor d) (got 1) 1 qb1 1 0 ?fb (d_gpu d) = Inr (t1, fb1, g1)"
        "term_ok (\<lambda>s. s) (w, h) t1 ([], []) gl" "t_display t1 = 0" "same_fb (\<lambda>s. s) ?fb fb1" "gpu_ok g1" "gpu_config g1 = (w, h)"
      using init1 False unfolding gl_def by auto
    have fb1: "fb_free font (\<lambda>s. s) fb1" "info fb1 = info ?fb" using same_fb_free [OF 1(4) fb(1)] by simp_all
    then have i1: "fb_info_ok fb1 (w, h)" using i by (simp add: fb_info_ok_def)
    obtain t2 fb2 g2 where 2: "tty_init K gpu_fbdraw libc (d_cursor d) (got 2) 2 qb2 1 0 fb1 g1 = Inr (t2, fb2, g2)"
        "term_ok (\<lambda>s. s) (w, h) t2 ([], []) gl" "t_display t2 = 1" "same_fb (\<lambda>s. s) fb1 fb2" "gpu_ok g2" "gpu_config g2 = (w, h)"
      using tty_init_ok [OF assms(1) one q(3,4) fb1(1) i1 1(5,6) assms(6,7) assms(8) [of 2], where sc = "d_cursor d" and k = 2] False unfolding gl_def by auto
    have fb2: "fb_free font (\<lambda>s. s) fb2" "current (info fb2) = 0" using same_fb_free [OF 2(4) fb1(1)] fb1(2) fb(2) by simp_all
    let ?d = "d\<lparr>d_tty1 := t1, d_tty2 := t2, d_fb := fb2, d_gpu := g2\<rparr>"
    have "\<exists>d'. tty_task_start K gpu_fbdraw now ?d = Inr d' \<and> clean d' \<and> d_in d' = d_in ?d \<and>
        desk_ok font (\<lambda>s. s) d' \<lparr>a_second = False, a_glass1 = gl, a_glass2 = gl, a_line1 = ([], []), a_line2 = ([], [])\<rparr>"
      by (rule tty_task_start_ok [OF assms(1)]) (use 1 2 fb2 in simp_all)
    then show ?thesis using 1(1) 2(1) False by (simp add: console_boot_def)
  qed
qed

text \<open>
  C37: the console's invariant is what booting establishes. Let the surface be from 16 by 16 to 65535 by 65535 pixels, and at least
  320 by 240 where \<open>memmove\<close> is klib's, which only panics; let the semaphores keep their contract, the line buffers' last byte be 0, and \<open>pmm->alloc\<close> serve every
  request up to its limit of 16 MiB and answer \<open>NULL\<close> to larger ones. With at most 2^20 character cells, the
  initialisation of the frame buffer and of both terminals and the start of the task run without a fault and without a scroll on klib's
  \<open>memmove\<close>; each terminal holds the welcome text, the first one is in front, and all its cells are on the screen. With more cells
  \<open>tty_init\<close> writes through \<open>NULL\<close>.
\<close>

theorem console_boots:
  assumes "kmt_ok K unheld (\<lambda>s. s)" and "length ts = NTEXTURE" and "length qb1 = TTY_COOK_BUF_SZ \<and> last qb1 = 0"
    and "length qb2 = TTY_COOK_BUF_SZ \<and> last qb2 = 0" and "gpu_ok (d_gpu d) \<and> gpu_config (d_gpu d) = (w, h)" and "screen_size_ok w h"
    and "libc \<or> 320 \<le> w \<and> 240 \<le> h" and "\<And>k n. got k n \<longleftrightarrow> n \<le> 16 * 2 ^ 20"
  defines "gl \<equiv> fold glass_putc welcome_bytes (blank_glass (nat (w div 8)) (nat (h div 16)))"
  shows "if 2 ^ 20 < nat (w div 8) * nat (h div 16) then console_boot K libc got font ts qb1 qb2 now d = Inl BadAccess
    else \<exists>d'. console_boot K libc got font ts qb1 qb2 now d = Inr d' \<and> clean d' \<and> d_in d' = d_in d \<and>
    desk_ok font (\<lambda>s. s) d' \<lparr>a_second = False, a_glass1 = gl, a_glass2 = gl, a_line1 = ([], []), a_line2 = ([], [])\<rparr>"
  using console_boot_ok [OF assms(1-8)] unfolding gl_def .

theorem console_boots_witness:
  "\<exists>d'. console_boot plain_kmt True (\<lambda>_ n. n \<le> 16 * 2 ^ 20) (replicate 4096 0) (replicate NTEXTURE []) (replicate 1024 0) (replicate 1024 0) 5
     (ex_desk []) = Inr d' \<and> clean d'"
proof -
  let ?got = "\<lambda>(_ :: int) n :: nat. n \<le> 16 * 2 ^ 20"
  have q: "length (replicate 1024 0 :: u8 list) = TTY_COOK_BUF_SZ \<and> last (replicate 1024 0 :: u8 list) = 0" by (simp add: TTY_COOK_BUF_SZ_def)
  have g: "gpu_ok (d_gpu (ex_desk [])) \<and> gpu_config (d_gpu (ex_desk [])) = (16, 16)" using ex_screen_ok by (simp add: ex_desk_def)
  have s: "screen_size_ok 16 16" "True \<or> 320 \<le> (16 :: int) \<and> 240 \<le> (16 :: int)" by (simp_all add: screen_size_ok_def)
  have t: "length (replicate NTEXTURE ([] :: u32 list)) = NTEXTURE" by simp
  show ?thesis
    using console_boots [OF plain_kmt_ok t q q g s, of ?got "replicate 4096 0" 5] by auto
qed

end
