(* ===== verification/Vme.thy ===== *)
theory Vme
  imports Base
begin

text \<open>
  Page tables, \<open>abstract-machine/am/src/x86/qemu/vme.c\<close> as compiled for x86_64: the tree of four
  levels under the root in \<open>as->ptr\<close>, the walk that builds it, \<open>protect\<close>, \<open>map\<close> and \<open>unprotect\<close>.

  Physical memory is a map from the address of an eight-byte cell to its word. The callbacks
  \<open>pgalloc\<close> and \<open>pgfree\<close> that \<open>vme_init\<close> stores are arguments of the operations; they act on the
  whole state, the memory included, as the C functions do. An \<open>AddrSpace\<close> is given by the address
  of its field \<open>ptr\<close>, since the walk starts there; its other two fields are a record.
\<close>

unbundle bit_operations_syntax

section \<open>Configuration\<close>

record ptinfo =
  pt_name :: string
  pt_mask :: u64
  pt_shift :: nat
  pt_bits :: nat

record mmu_config =
  mmu_pgsize :: int
  ptlevels :: nat
  pgtables :: "ptinfo list"

definition mmu :: mmu_config where
  "mmu = \<lparr>mmu_pgsize = 4096, ptlevels = 4, pgtables =
     [\<lparr>pt_name = ''CR3'', pt_mask = 0x000000000000, pt_shift = 0, pt_bits = 0\<rparr>,
      \<lparr>pt_name = ''PML4'', pt_mask = 0xff8000000000, pt_shift = 39, pt_bits = 9\<rparr>,
      \<lparr>pt_name = ''PDPT'', pt_mask = 0x007fc0000000, pt_shift = 30, pt_bits = 9\<rparr>,
      \<lparr>pt_name = ''PD'', pt_mask = 0x00003fe00000, pt_shift = 21, pt_bits = 9\<rparr>,
      \<lparr>pt_name = ''PT'', pt_mask = 0x0000001ff000, pt_shift = 12, pt_bits = 9\<rparr>]\<rparr>"

record Area =
  ar_start :: addr
  ar_end :: addr

record vm_area =
  vm_range :: Area
  vm_kernel :: bool

definition vm_areas :: "vm_area list" where
  "vm_areas =
     [\<lparr>vm_range = \<lparr>ar_start = 0x100000000000, ar_end = 0x108000000000\<rparr>, vm_kernel = False\<rparr>,
      \<lparr>vm_range = \<lparr>ar_start = 0x000000000000, ar_end = 0x008000000000\<rparr>, vm_kernel = True\<rparr>]"

definition uvm_area :: Area where
  "uvm_area = vm_range (vm_areas ! 0)"

definition PTE_P :: u64 where "PTE_P = 1"
definition PTE_W :: u64 where "PTE_W = 2"
definition PTE_U :: u64 where "PTE_U = 4"
definition CR0_PG :: u64 where "CR0_PG = 0x80000000"
definition PML4_ADDR :: addr where "PML4_ADDR = 0x1000"

definition MMAP_NONE :: u32 where "MMAP_NONE = 0"
definition MMAP_READ :: u32 where "MMAP_READ = 1"
definition MMAP_WRITE :: u32 where "MMAP_WRITE = 2"

definition IN_RANGE :: "addr \<Rightarrow> Area \<Rightarrow> bool" where
  "IN_RANGE p area \<longleftrightarrow> ar_start area \<le> p \<and> p < ar_end area"

section \<open>State\<close>

type_synonym phys_mem = "addr \<Rightarrow> u64"

text \<open>
  \<open>source\<close> is whatever the page allocator keeps; \<open>kpt\<close> is the file's variable, \<open>cr0\<close> and \<open>cr3\<close> the
  registers \<open>vme_init\<close> writes.
\<close>

record 'a vm =
  phys :: phys_mem
  source :: 'a
  kpt :: addr
  cr0 :: u64
  cr3 :: u64

record AddrSpace =
  as_pgsize :: int
  as_area :: Area

type_synonym 'a pgalloc = "int \<Rightarrow> 'a vm \<Rightarrow> (addr \<times> 'a vm) res"
type_synonym 'a pgfree = "addr \<Rightarrow> 'a vm \<Rightarrow> 'a vm res"

text \<open>The element \<open>pt[i]\<close> of an array of \<open>uintptr_t\<close>.\<close>

definition cell :: "addr \<Rightarrow> nat \<Rightarrow> addr" where
  "cell pt i = pt + 8 * of_nat i"

definition poke_cell :: "addr \<Rightarrow> u64 \<Rightarrow> 'a vm \<Rightarrow> 'a vm" where
  "poke_cell x e s = s\<lparr>phys := (phys s)(x := e)\<rparr>"

section \<open>Operations\<close>

text \<open>The loop of \<open>pgallocz\<close>; \<open>pgsize / sizeof(uintptr_t)\<close> is 512.\<close>

primrec zero_cells :: "nat \<Rightarrow> addr \<Rightarrow> nat \<Rightarrow> phys_mem \<Rightarrow> phys_mem" where
  "zero_cells 0 base i m = m"
| "zero_cells (Suc n) base i m = zero_cells n base (i + 1) (m(cell base i := 0))"

definition pgallocz :: "'a pgalloc \<Rightarrow> 'a vm \<Rightarrow> (addr \<times> 'a vm) res" where
  "pgallocz pgalloc s =
     res_bind (pgalloc (mmu_pgsize mmu) s) (\<lambda>(base, s).
     res_bind (guard Panic (base \<noteq> 0)) (\<lambda>_.
     Inr (base, s\<lparr>phys := zero_cells (nat (mmu_pgsize mmu div 8)) base 0 (phys s)\<rparr>)))"

definition indexof :: "addr \<Rightarrow> ptinfo \<Rightarrow> nat" where
  "indexof a info = unat (drop_bit (pt_shift info) (a AND pt_mask info))"

definition baseof :: "addr \<Rightarrow> addr" where
  "baseof a = a AND NOT (of_int (mmu_pgsize mmu - 1))"

text \<open>
  The loop of \<open>ptwalk\<close> over the levels \<open>i\<close> to \<open>ptlevels\<close>, given by their descriptions; the last of
  them returns the address of the entry. Behind it stands \<open>bug()\<close>.
\<close>

fun ptwalk_loop :: "'a pgalloc \<Rightarrow> addr \<Rightarrow> u64 \<Rightarrow> ptinfo list \<Rightarrow> addr \<Rightarrow> 'a vm \<Rightarrow> (addr \<times> 'a vm) res" where
  "ptwalk_loop pgalloc a flags [] cur s = Inl Panic"
| "ptwalk_loop pgalloc a flags [info] cur s = Inr (cell cur (indexof a info), s)"
| "ptwalk_loop pgalloc a flags (info # info' # infos) cur s =
     (let x = cell cur (indexof a info); e = phys s x in
      if e AND PTE_P = 0
      then res_bind (pgallocz pgalloc s) (\<lambda>(next_page, s).
             ptwalk_loop pgalloc a flags (info' # infos) next_page
               (poke_cell x (next_page OR PTE_P OR flags) s))
      else ptwalk_loop pgalloc a flags (info' # infos) (baseof e) s)"

definition ptwalk :: "'a pgalloc \<Rightarrow> addr \<Rightarrow> addr \<Rightarrow> u64 \<Rightarrow> 'a vm \<Rightarrow> (addr \<times> 'a vm) res" where
  "ptwalk pgalloc as a flags s = ptwalk_loop pgalloc a flags (take (ptlevels mmu + 1) (pgtables mmu)) as s"

text \<open>A loop over a range of indices whose body may fault.\<close>

primrec for_each :: "('i \<Rightarrow> 's \<Rightarrow> 's res) \<Rightarrow> 'i list \<Rightarrow> 's \<Rightarrow> 's res" where
  "for_each f [] s = Inr s"
| "for_each f (i # is) s = res_bind (f i s) (for_each f is)"

definition is_user :: "u64 \<Rightarrow> bool" where
  "is_user e \<longleftrightarrow> e AND PTE_P \<noteq> 0 \<and> e AND PTE_U \<noteq> 0"

text \<open>
  \<open>teardown\<close> from level \<open>level\<close> on, whose descriptions and those of the levels below it are the list;
  it is empty exactly when \<open>level > ptlevels\<close>.
\<close>

primrec teardown :: "'a pgfree \<Rightarrow> ptinfo list \<Rightarrow> nat \<Rightarrow> addr \<Rightarrow> 'a vm \<Rightarrow> 'a vm res" where
  "teardown pgfree [] level pt s = Inr s"
| "teardown pgfree (info # infos) level pt s =
     res_bind (for_each (\<lambda>index s.
         if phys s (cell pt index) AND PTE_P \<noteq> 0 \<and> phys s (cell pt index) AND PTE_U \<noteq> 0
         then teardown pgfree infos (level + 1) (baseof (phys s (cell pt index))) s
         else Inr s) [0..<2 ^ pt_bits info] s) (\<lambda>s.
     if 1 \<le> level then pgfree pt s else Inr s)"

definition unprotect :: "'a pgfree \<Rightarrow> addr \<Rightarrow> 'a vm \<Rightarrow> 'a vm res" where
  "unprotect pgfree as s = teardown pgfree (take (ptlevels mmu + 1) (pgtables mmu)) 0 as s"

definition vme_init :: "nat \<Rightarrow> 'a vm \<Rightarrow> (bool \<times> 'a vm) res" where
  "vme_init cpu_current s =
     res_bind (guard Panic (cpu_current = 0)) (\<lambda>_.
     let s = s\<lparr>kpt := PML4_ADDR\<rparr>;
         s = s\<lparr>cr3 := kpt s\<rparr>;
         s = s\<lparr>cr0 := cr0 s OR CR0_PG\<rparr>
     in Inr (True, s))"

text \<open>
  The inner loop of \<open>protect\<close>, with a bound on its rounds; 513 rounds are one more than there are
  entries in a table.
\<close>

primrec protect_loop :: "nat \<Rightarrow> ptinfo \<Rightarrow> addr \<Rightarrow> addr \<Rightarrow> addr \<Rightarrow> addr \<Rightarrow> phys_mem \<Rightarrow> phys_mem res" where
  "protect_loop 0 info table kt cur e m = Inl OutOfFuel"
| "protect_loop (Suc n) info table kt cur e m =
     (if cur = e then Inr m
      else
        let index = indexof cur info
        in protect_loop n info table kt (cur + 2 ^ pt_shift info) e (m(cell table index := m (cell kt index))))"

definition protect :: "'a pgalloc \<Rightarrow> addr \<Rightarrow> 'a vm \<Rightarrow> (AddrSpace \<times> 'a vm) res" where
  "protect pgalloc as s =
     res_bind (pgallocz pgalloc s) (\<lambda>(table, s).
     res_bind (for_each (\<lambda>vma m.
         if vm_kernel vma
         then protect_loop 513 (pgtables mmu ! 1) table (kpt s) (ar_start (vm_range vma)) (ar_end (vm_range vma)) m
         else Inr m) vm_areas (phys s)) (\<lambda>m.
     Inr (\<lparr>as_pgsize = mmu_pgsize mmu, as_area = uvm_area\<rparr>,
          poke_cell as (table OR PTE_P OR PTE_U) (s\<lparr>phys := m\<rparr>))))"

text \<open>\<open>map\<close>; \<open>prot\<close> is an \<open>int\<close> of flags.\<close>

definition vme_map :: "'a pgalloc \<Rightarrow> addr \<Rightarrow> addr \<Rightarrow> addr \<Rightarrow> u32 \<Rightarrow> 'a vm \<Rightarrow> 'a vm res" where
  "vme_map pgalloc as va pa prot s =
     res_bind (guard Panic (IN_RANGE va uvm_area)) (\<lambda>_.
     res_bind (guard Panic (va = ROUNDDOWN va 4096 \<and> pa = ROUNDDOWN pa 4096)) (\<lambda>_.
     res_bind (ptwalk pgalloc as va (PTE_W OR PTE_U) s) (\<lambda>(ptentry, s).
     res_bind
       (if prot = MMAP_NONE
        then res_bind (guard Panic (phys s ptentry AND PTE_P \<noteq> 0)) (\<lambda>_. Inr (poke_cell ptentry 0 s))
        else res_bind (guard Panic (phys s ptentry AND PTE_P = 0)) (\<lambda>_.
          let pte = pa OR PTE_P OR PTE_U OR (if prot AND MMAP_WRITE \<noteq> 0 then PTE_W else 0)
          in Inr (poke_cell ptentry pte s))) (\<lambda>s.
     res_bind (ptwalk pgalloc as va (PTE_W OR PTE_U) s) (\<lambda>(_, s). Inr s)))))"

text \<open>
  The registers of a \<open>Context\<close>, \<open>rax\<close> to \<open>r15\<close> in the order of the struct as \<open>gprs\<close>, and the context
  \<open>ucontext\<close> makes at the top of the kernel stack.
\<close>

record Context =
  ctx_cr3 :: addr
  gprs :: "u64 list"
  rip :: u64
  cs :: u64
  rflags :: u64
  rsp :: u64
  ss :: u64
  rsp0 :: u64

definition SIZEOF_CONTEXT :: u64 where "SIZEOF_CONTEXT = 176"
definition USEL :: "u64 \<Rightarrow> u64" where "USEL seg = push_bit 3 seg OR 3"
definition SEG_UCODE :: u64 where "SEG_UCODE = 3"
definition SEG_UDATA :: u64 where "SEG_UDATA = 4"
definition FL_IF :: u64 where "FL_IF = 0x200"

definition ucontext :: "addr \<Rightarrow> Area \<Rightarrow> addr \<Rightarrow> 'a vm \<Rightarrow> addr \<times> Context" where
  "ucontext as kstack entry s =
     (let ctx = ar_end kstack - SIZEOF_CONTEXT in
      (ctx, \<lparr>ctx_cr3 = phys s as, gprs = replicate 15 0, rip = entry, cs = USEL SEG_UCODE, rflags = FL_IF,
             rsp = ar_end uvm_area, ss = USEL SEG_UDATA, rsp0 = ar_end kstack\<rparr>))"

end
