(* ===== verification/Vme_Tree.thy ===== *)
theory Vme_Tree
  imports Vme
begin

text \<open>
  The tree of page tables in memory: its pages, its well-formedness, and the entry it has for an
  address. A change inside one subtree leaves the rest of the tree as it is.
\<close>

unbundle bit_operations_syntax

section \<open>Pages and cells\<close>

definition page_addr :: "addr \<Rightarrow> bool" where
  "page_addr p \<longleftrightarrow> baseof p = p"

lemma baseof_mask: "baseof a = a AND NOT (mask 12)"
  by (simp add: baseof_def mmu_def mask_eq_exp_minus_1)

lemma page_addr_baseof [simp]: "page_addr (baseof a)"
  by (simp add: page_addr_def baseof_mask and.assoc)

lemma page_addr_dvd: "page_addr p \<longleftrightarrow> 4096 dvd unat p"
  unfolding page_addr_def baseof_mask ROUNDDOWN_pow2 [symmetric] ROUNDDOWN_id_iff by simp

lemma unat_cell:
  assumes "page_addr p" and "i < 512"
  shows "unat (cell p i) = unat p + 8 * i"
proof -
  obtain k where k: "unat p = 4096 * k" using assms(1) by (auto simp: page_addr_dvd)
  have "unat p < 4096 * 2 ^ 52" using unsigned_less [of p, where ?'a = nat] by simp
  then have "k + 1 \<le> 2 ^ 52" by (simp add: k)
  then have "4096 * (k + 1) \<le> 4096 * 2 ^ 52" by (rule mult_le_mono2)
  then have lt: "unat p + 8 * i < 2 ^ LENGTH(64)" using assms(2) k by simp
  have "unat (8 * of_nat i :: u64) = 8 * i"
    using unat_of_nat_small [where ?'a = 64, of "8 * i"] lt by simp
  then show ?thesis using lt by (simp add: cell_def unat_add_nowrap)
qed

lemma baseof_cell [simp]:
  assumes "page_addr p" and "i < 512"
  shows "baseof (cell p i) = p"
proof -
  obtain k where k: "unat p = 4096 * k" using assms(1) by (auto simp: page_addr_dvd)
  have "unat (baseof (cell p i)) = (4096 * k + 8 * i) div 4096 * 4096"
    by (simp add: baseof_mask unat_and_not_mask unat_cell [OF assms] k)
  also have "(4096 * k + 8 * i) div 4096 = k" using assms(2) by simp
  finally have "unat (baseof (cell p i)) = unat p" by (simp add: k)
  then show ?thesis by (rule unsigned_word_eqI)
qed

lemma cell_inj:
  assumes "page_addr p" and "i < 512" and "j < 512"
  shows "cell p i = cell p j \<longleftrightarrow> i = j"
proof
  assume "cell p i = cell p j"
  then have "unat p + 8 * i = unat p + 8 * j"
    using unat_cell [OF assms(1,2)] unat_cell [OF assms(1,3)] by metis
  then show "i = j" by simp
qed simp

lemma zero_cells_at:
  "zero_cells n base i m x = (if \<exists>k<n. x = cell base (i + k) then 0 else m x)"
proof (induction n arbitrary: i m)
  case (Suc n)
  have "zero_cells (Suc n) base i m x = zero_cells n base (i + 1) (m(cell base i := 0)) x" by simp
  also have "\<dots> = (if \<exists>k<n. x = cell base (i + 1 + k) then 0 else (m(cell base i := 0)) x)" by (rule Suc)
  also have "\<dots> = (if \<exists>k<Suc n. x = cell base (i + k) then 0 else m x)"
    by (auto simp: less_Suc_eq_0_disj)
  finally show ?case .
qed simp

section \<open>Entries\<close>

abbreviation present :: "u64 \<Rightarrow> bool" where
  "present e \<equiv> e AND PTE_P \<noteq> 0"

lemma is_user_present: "is_user e \<Longrightarrow> present e"
  by (simp add: is_user_def)

lemma not_user_0 [simp]: "\<not> is_user 0"
  by (simp add: is_user_def)

lemma present_bit: "present e \<longleftrightarrow> bit e 0"
  by (simp add: PTE_P_def and_one_eq bit_0 odd_iff_mod_2_eq_one)

lemma user_bit: "is_user e \<longleftrightarrow> bit e 0 \<and> bit e 2"
proof -
  have "e AND PTE_U \<noteq> 0 \<longleftrightarrow> bit e 2"
    using and_exp_eq_0_iff_not_bit [of e 2] by (simp add: PTE_U_def)
  then show ?thesis using present_bit by (simp add: is_user_def)
qed

lemma PTE_bits:
  "bit PTE_P n \<longleftrightarrow> n = 0" "bit PTE_W n \<longleftrightarrow> n = 1" "bit PTE_U n \<longleftrightarrow> n = 2"
proof -
  have e: "PTE_P = 2 ^ 0" "PTE_W = 2 ^ 1" "PTE_U = 2 ^ 2"
    by (simp_all add: PTE_P_def PTE_W_def PTE_U_def)
  have b: "bit (2 ^ k :: u64) n \<longleftrightarrow> n = k" if "k < 64" for k
    using that by (auto simp: bit_exp_iff)
  show "bit PTE_P n \<longleftrightarrow> n = 0" "bit PTE_W n \<longleftrightarrow> n = 1" "bit PTE_U n \<longleftrightarrow> n = 2"
    unfolding e by (rule b, simp)+
qed

text \<open>An entry that points to page \<open>p\<close> with flags among the low bits.\<close>

lemma entry_base:
  assumes "page_addr p" and "\<And>n. bit f n \<Longrightarrow> n < 12"
  shows "baseof (p OR f) = p"
proof (rule bit_word_eqI)
  fix n assume n: "n < LENGTH(64)"
  have "bit (p AND NOT (mask 12)) n \<longleftrightarrow> bit p n"
    using assms(1) by (simp add: page_addr_def baseof_mask)
  then have "bit p n \<longleftrightarrow> bit p n \<and> 12 \<le> n"
    using n by (auto simp: bit_and_iff bit_not_iff bit_mask_iff)
  then show "bit (baseof (p OR f)) n \<longleftrightarrow> bit p n"
    using assms(2) [of n] n by (auto simp: baseof_mask bit_simps)
qed

lemma table_entry:
  assumes "page_addr p"
  shows "baseof (p OR PTE_P OR (PTE_W OR PTE_U)) = p" "is_user (p OR PTE_P OR (PTE_W OR PTE_U))"
    "baseof (p OR PTE_P OR PTE_U) = p" "is_user (p OR PTE_P OR PTE_U)"
proof -
  show "baseof (p OR PTE_P OR (PTE_W OR PTE_U)) = p"
    unfolding or.assoc by (rule entry_base [OF assms]) (auto simp: bit_or_iff PTE_bits)
  show "baseof (p OR PTE_P OR PTE_U) = p"
    unfolding or.assoc by (rule entry_base [OF assms]) (auto simp: bit_or_iff PTE_bits)
  show "is_user (p OR PTE_P OR (PTE_W OR PTE_U))" "is_user (p OR PTE_P OR PTE_U)"
    by (simp_all add: user_bit bit_or_iff PTE_bits)
qed

section \<open>The tree\<close>

text \<open>The pages of the tables under \<open>pt\<close>: those that entries of user space lead to.\<close>

primrec tables :: "ptinfo list \<Rightarrow> phys_mem \<Rightarrow> addr \<Rightarrow> addr set" where
  "tables [] m pt = {}"
| "tables (u # us) m pt =
     insert pt (\<Union>i<512. if is_user (m (cell pt i)) then tables us m (baseof (m (cell pt i))) else {})"

definition kid :: "ptinfo list \<Rightarrow> phys_mem \<Rightarrow> addr \<Rightarrow> nat \<Rightarrow> addr set" where
  "kid us m pt i = (if is_user (m (cell pt i)) then tables us m (baseof (m (cell pt i))) else {})"

lemma tables_Cons: "tables (u # us) m pt = insert pt (\<Union>i<512. kid us m pt i)"
  by (simp add: kid_def)

text \<open>
  Entries are absent or of user space, those of the kernel's slots \<open>K\<close> never of user space; the
  tables below different entries are different pages.
\<close>

primrec tree_ok :: "nat set \<Rightarrow> ptinfo list \<Rightarrow> phys_mem \<Rightarrow> addr \<Rightarrow> bool" where
  "tree_ok K [] m pt \<longleftrightarrow> True"
| "tree_ok K (u # us) m pt \<longleftrightarrow> page_addr pt \<and>
     (\<forall>i<512. if i \<in> K then \<not> is_user (m (cell pt i)) else present (m (cell pt i)) \<longrightarrow> is_user (m (cell pt i))) \<and>
     (\<forall>i<512. is_user (m (cell pt i)) \<longrightarrow> tree_ok {} us m (baseof (m (cell pt i)))) \<and>
     (\<forall>i<512. pt \<notin> kid us m pt i) \<and>
     (\<forall>i<512. \<forall>j<512. i \<noteq> j \<longrightarrow> kid us m pt i \<inter> kid us m pt j = {})"

text \<open>Where the walk for an address ends, when every table on the way is there, and the entry there.\<close>

fun leaf_cell :: "ptinfo list \<Rightarrow> phys_mem \<Rightarrow> addr \<Rightarrow> addr \<Rightarrow> addr option" where
  "leaf_cell [] m pt va = None"
| "leaf_cell [u] m pt va = Some (cell pt (indexof va u))"
| "leaf_cell (u # u' # us) m pt va =
     (let e = m (cell pt (indexof va u)) in
      if present e then leaf_cell (u' # us) m (baseof e) va else None)"

definition entry :: "ptinfo list \<Rightarrow> phys_mem \<Rightarrow> addr \<Rightarrow> addr \<Rightarrow> u64" where
  "entry us m pt va = (case leaf_cell us m pt va of None \<Rightarrow> 0 | Some c \<Rightarrow> m c)"

definition lv :: "ptinfo \<Rightarrow> bool" where
  "lv u \<longleftrightarrow> pt_bits u = 9 \<and> (\<forall>a. indexof a u < 512)"

definition user_va :: "nat set \<Rightarrow> ptinfo list \<Rightarrow> addr \<Rightarrow> bool" where
  "user_va K us va \<longleftrightarrow> us \<noteq> [] \<and> indexof va (hd us) \<notin> K"

lemma user_va_low [simp]: "user_va {} us va \<longleftrightarrow> us \<noteq> []"
  by (simp add: user_va_def)

section \<open>Changes outside the tree, and inside one subtree\<close>

lemma kid_subset: "i < 512 \<Longrightarrow> kid us m pt i \<subseteq> tables (u # us) m pt"
  by (auto simp: kid_def)

lemma tables_split:
  "i < 512 \<Longrightarrow> tables (u # us) m pt = insert pt (kid us m pt i \<union> (\<Union>j\<in>{..<512} - {i}. kid us m pt j))"
  by (auto simp: tables_Cons simp del: tables.simps)

lemma kid_apart:
  assumes "tree_ok K (u # us) m pt" and "i < 512"
  shows "pt \<notin> kid us m pt i" and "j < 512 \<Longrightarrow> j \<noteq> i \<Longrightarrow> kid us m pt i \<inter> kid us m pt j = {}"
  using assms by simp_all

lemma tree_frame:
  assumes "tree_ok K us m pt" and "\<And>x. baseof x \<in> tables us m pt \<Longrightarrow> m' x = m x"
  shows "tables us m' pt = tables us m pt \<and> tree_ok K us m' pt"
  using assms
proof (induction us arbitrary: K pt)
  case (Cons u us)
  have pg: "page_addr pt" using Cons.prems(1) by simp
  have e: "m' (cell pt i) = m (cell pt i)" if "i < 512" for i
    using that pg by (intro Cons.prems(2)) simp
  have sub: "tables us m' (baseof (m (cell pt i))) = tables us m (baseof (m (cell pt i))) \<and>
      tree_ok {} us m' (baseof (m (cell pt i)))" if "i < 512" "is_user (m (cell pt i))" for i
  proof (rule Cons.IH)
    show "tree_ok {} us m (baseof (m (cell pt i)))" using Cons.prems(1) that by simp
    show "m' x = m x" if "baseof x \<in> tables us m (baseof (m (cell pt i)))" for x
      using that \<open>i < 512\<close> \<open>is_user (m (cell pt i))\<close> by (intro Cons.prems(2)) auto
  qed
  then have k: "kid us m' pt i = kid us m pt i" if "i < 512" for i
    using that e by (simp add: kid_def)
  then have "tables (u # us) m' pt = tables (u # us) m pt" by (simp only: tables_Cons) auto
  moreover have "tree_ok K (u # us) m' pt" using Cons.prems(1) by (simp add: e k sub)
  ultimately show ?case by blast
qed simp

lemma leaf_in_tables:
  assumes "tree_ok K us m pt" and "\<And>u. u \<in> set us \<Longrightarrow> lv u" and "user_va K us va" and "leaf_cell us m pt va = Some c"
  shows "baseof c \<in> tables us m pt"
  using assms
proof (induction us arbitrary: K pt rule: induct_list012)
  case (2 u)
  then show ?case by (auto simp: lv_def)
next
  case (3 u u' us)
  let ?i = "indexof va u"
  have i: "?i < 512" "?i \<notin> K" using 3(4,5) by (auto simp: lv_def user_va_def)
  have p: "present (m (cell pt ?i))" "leaf_cell (u' # us) m (baseof (m (cell pt ?i))) va = Some c"
    using 3(6) by (auto simp: Let_def split: if_splits)
  then have usr: "is_user (m (cell pt ?i))" "tree_ok {} (u' # us) m (baseof (m (cell pt ?i)))"
    using 3(3) i by auto
  have "baseof c \<in> kid (u' # us) m pt ?i"
    using 3(2) [OF usr(2) _ _ p(2)] 3(4) usr(1) by (simp add: kid_def)
  then show ?case using kid_subset [OF i(1)] by blast
qed simp

lemma leaf_frame:
  assumes "tree_ok K us m pt" and "\<And>u. u \<in> set us \<Longrightarrow> lv u" and "user_va K us va"
    and "\<And>x. baseof x \<in> tables us m pt \<Longrightarrow> m' x = m x"
  shows "leaf_cell us m' pt va = leaf_cell us m pt va \<and> entry us m' pt va = entry us m pt va"
proof -
  have "leaf_cell us m' pt va = leaf_cell us m pt va"
    using assms
  proof (induction us arbitrary: K pt rule: induct_list012)
    case (3 u u' us)
    let ?i = "indexof va u" and ?e = "m (cell pt (indexof va u))"
    have i: "?i < 512" "?i \<notin> K" using 3(4,5) by (auto simp: lv_def user_va_def)
    have e: "m' (cell pt ?i) = ?e" using 3(3) i by (intro 3(6)) simp
    show ?case
    proof (cases "present ?e")
      case True
      then have usr: "is_user ?e" "tree_ok {} (u' # us) m (baseof ?e)" using 3(3) i by auto
      have "leaf_cell (u' # us) m' (baseof ?e) va = leaf_cell (u' # us) m (baseof ?e) va"
      proof (rule 3(2) [OF usr(2)])
        show "m' x = m x" if "baseof x \<in> tables (u' # us) m (baseof ?e)" for x
          using that usr(1) kid_subset [OF i(1), of "u' # us" m pt u] by (intro 3(6)) (auto simp: kid_def)
      qed (use 3(4) in auto)
      then show ?thesis using e by (simp add: Let_def)
    qed (simp add: e Let_def)
  qed simp_all
  then show ?thesis
    using leaf_in_tables [OF assms(1-3)] assms(4) by (auto simp: entry_def split: option.splits)
qed

text \<open>
  Only the entry \<open>i\<close> of a table and what is below it changed, and what is below it now is a tree of
  pages that no other entry leads to.
\<close>

lemma tree_child:
  assumes ok: "tree_ok K (u # us) m pt" and i: "i < 512" "i \<notin> K"
    and e: "present (m' (cell pt i)) \<longrightarrow> is_user (m' (cell pt i))"
    and sub: "is_user (m' (cell pt i)) \<Longrightarrow> tree_ok {} us m' (baseof (m' (cell pt i)))"
    and apart: "pt \<notin> kid us m' pt i" "\<And>j. j < 512 \<Longrightarrow> j \<noteq> i \<Longrightarrow> kid us m' pt i \<inter> kid us m pt j = {}"
    and same: "\<And>x. baseof x \<notin> kid us m' pt i \<Longrightarrow> x \<noteq> cell pt i \<Longrightarrow> m' x = m x"
  shows "tree_ok K (u # us) m' pt"
    and "tables (u # us) m' pt = insert pt (kid us m' pt i \<union> (\<Union>j\<in>{..<512} - {i}. kid us m pt j))"
    and "\<And>j. j < 512 \<Longrightarrow> j \<noteq> i \<Longrightarrow> m' (cell pt j) = m (cell pt j) \<and> kid us m' pt j = kid us m pt j"
proof -
  have pg: "page_addr pt" using ok by simp
  have c: "m' (cell pt j) = m (cell pt j)" if "j < 512" "j \<noteq> i" for j
    using that apart(1) pg i(1) by (intro same) (simp_all add: cell_inj)
  have s: "tables us m' (baseof (m (cell pt j))) = tables us m (baseof (m (cell pt j))) \<and>
      tree_ok {} us m' (baseof (m (cell pt j)))" if j: "j < 512" "j \<noteq> i" "is_user (m (cell pt j))" for j
  proof (rule tree_frame)
    show "tree_ok {} us m (baseof (m (cell pt j)))" using ok j by simp
    fix x assume x: "baseof x \<in> tables us m (baseof (m (cell pt j)))"
    then have "baseof x \<in> kid us m pt j" using j(3) by (simp add: kid_def)
    moreover have "pt \<notin> kid us m pt j" using ok j(1) by simp
    ultimately show "m' x = m x"
      using apart(2) [OF j(1,2)] pg i(1) by (intro same) auto
  qed
  have k: "kid us m' pt j = kid us m pt j" if "j < 512" "j \<noteq> i" for j
    using s [OF that] c [OF that] by (simp add: kid_def)
  show "\<And>j. j < 512 \<Longrightarrow> j \<noteq> i \<Longrightarrow> m' (cell pt j) = m (cell pt j) \<and> kid us m' pt j = kid us m pt j"
    using c k by blast
  have "{..<512} = insert i ({..<512} - {i})" using i(1) by auto
  then have "(\<Union>j<512. kid us m' pt j) = kid us m' pt i \<union> (\<Union>j\<in>{..<512} - {i}. kid us m' pt j)" by blast
  also have "(\<Union>j\<in>{..<512} - {i}. kid us m' pt j) = (\<Union>j\<in>{..<512} - {i}. kid us m pt j)" using k by auto
  finally show "tables (u # us) m' pt = insert pt (kid us m' pt i \<union> (\<Union>j\<in>{..<512} - {i}. kid us m pt j))"
    by (simp only: tables_Cons)
  have 1: "if j \<in> K then \<not> is_user (m' (cell pt j)) else present (m' (cell pt j)) \<longrightarrow> is_user (m' (cell pt j))"
    if "j < 512" for j using ok that c [OF that] e i(2) by (cases "j = i") auto
  have 2: "tree_ok {} us m' (baseof (m' (cell pt j)))" if "j < 512" "is_user (m' (cell pt j))" for j
    using sub s [of j] c [of j] that by (cases "j = i") auto
  have 3: "pt \<notin> kid us m' pt j" if "j < 512" for j
    using ok that apart(1) k [of j] by (cases "j = i") auto
  have 4: "kid us m' pt j \<inter> kid us m' pt l = {}" if "j < 512" "l < 512" "j \<noteq> l" for j l
  proof -
    consider "j = i" "l \<noteq> i" | "l = i" "j \<noteq> i" | "j \<noteq> i" "l \<noteq> i" using \<open>j \<noteq> l\<close> by blast
    then show ?thesis
    proof cases
      case 1 then show ?thesis using apart(2) [of l] k [of l] that by simp
    next
      case 2 then show ?thesis using apart(2) [of j] k [of j] that by auto
    next
      case 3 then show ?thesis using ok k [of j] k [of l] that by simp
    qed
  qed
  show "tree_ok K (u # us) m' pt" unfolding tree_ok.simps using pg 1 2 3 4 by blast
qed

section \<open>Writing an entry\<close>

definition same_path :: "ptinfo list \<Rightarrow> addr \<Rightarrow> addr \<Rightarrow> bool" where
  "same_path us va va' \<longleftrightarrow> (\<forall>u \<in> set us. indexof va u = indexof va' u)"

lemma same_path_leaf: "same_path us va va' \<Longrightarrow> leaf_cell us m pt va = leaf_cell us m pt va'"
  by (induction us arbitrary: pt rule: induct_list012) (auto simp: same_path_def Let_def)

lemma leaf_step:
  assumes "tree_ok K (u # u' # us) m pt" and "lv u" and "user_va K (u # u' # us) va"
    and "leaf_cell (u # u' # us) m pt va = Some c"
  shows "is_user (m (cell pt (indexof va u)))" "tree_ok {} (u' # us) m (baseof (m (cell pt (indexof va u))))"
    "leaf_cell (u' # us) m (baseof (m (cell pt (indexof va u)))) va = Some c"
proof -
  have i: "indexof va u < 512" "indexof va u \<notin> K" using assms(2,3) by (auto simp: lv_def user_va_def)
  have p: "present (m (cell pt (indexof va u)))"
    using assms(4) by (auto simp: Let_def split: if_splits)
  then show "leaf_cell (u' # us) m (baseof (m (cell pt (indexof va u)))) va = Some c"
    using assms(4) by (simp add: Let_def)
  show u: "is_user (m (cell pt (indexof va u)))" using assms(1) i p by auto
  then show "tree_ok {} (u' # us) m (baseof (m (cell pt (indexof va u))))" using assms(1) i by simp
qed

lemma leaf_inj:
  assumes "tree_ok K us m pt" and "\<And>u. u \<in> set us \<Longrightarrow> lv u" and "user_va K us va" and "user_va K us va'"
    and "leaf_cell us m pt va = Some c" and "leaf_cell us m pt va' = Some c"
  shows "same_path us va va'"
  using assms
proof (induction us arbitrary: K pt rule: induct_list012)
  case (2 u)
  then show ?case using cell_inj [of pt "indexof va u" "indexof va' u"] by (auto simp: same_path_def lv_def)
next
  case (3 u u' us)
  let ?i = "indexof va u" and ?i' = "indexof va' u"
  have l: "lv u" using 3(4) by simp
  then have i: "?i < 512" "?i' < 512" by (auto simp: lv_def)
  note a = leaf_step [OF 3(3) l 3(5,7)] and a' = leaf_step [OF 3(3) l 3(6,8)]
  have "baseof c \<in> kid (u' # us) m pt ?i" "baseof c \<in> kid (u' # us) m pt ?i'"
    using leaf_in_tables [OF a(2) _ _ a(3)] leaf_in_tables [OF a'(2) _ _ a'(3)] 3(4) a(1) a'(1) by (simp_all add: kid_def)
  then have e: "?i = ?i'" using 3(3) i by (simp only: tree_ok.simps) blast
  then have "same_path (u' # us) va va'"
    using 3(2) [OF a(2) _ _ _ a(3)] a'(3) 3(4) by simp
  then show ?case using e by (simp add: same_path_def)
qed simp

lemma leaf_update:
  assumes "tree_ok K us m pt" and "\<And>u. u \<in> set us \<Longrightarrow> lv u" and "user_va K us va"
    and "leaf_cell us m pt va = Some c" and "present e \<longrightarrow> is_user e"
  shows "tree_ok K us (m(c := e)) pt \<and> tables us (m(c := e)) pt = tables us m pt \<and>
    (\<forall>va'. user_va K us va' \<longrightarrow> leaf_cell us (m(c := e)) pt va' = leaf_cell us m pt va')"
  using assms
proof (induction us arbitrary: K pt rule: induct_list012)
  case (2 u)
  let ?i = "indexof va u"
  have i: "?i < 512" "?i \<notin> K" using 2(2,3) by (auto simp: lv_def user_va_def)
  have c: "c = cell pt ?i" using 2(4) by simp
  have k: "kid [] m' pt j = {}" for m' j by (simp add: kid_def)
  have "tree_ok K [u] (m(c := e)) pt"
    using 2(1,5) i by (intro tree_child(1) [OF 2(1) i]) (auto simp: k c)
  then show ?case by (simp only: tables_Cons k leaf_cell.simps) simp
next
  case (3 u u' us)
  let ?i = "indexof va u" and ?m = "m(c := e)"
  have l: "lv u" using 3(4) by simp
  then have i: "?i < 512" "?i \<notin> K" using 3(5) by (auto simp: lv_def user_va_def)
  note a = leaf_step [OF 3(3) l 3(5,6)]
  have pg: "page_addr pt" using 3(3) by simp
  have ck: "baseof c \<in> kid (u' # us) m pt ?i"
    using leaf_in_tables [OF a(2) _ _ a(3)] 3(4) a(1) by (simp add: kid_def)
  have up: "pt \<notin> kid (u' # us) m pt ?i" "\<And>j. j < 512 \<Longrightarrow> j \<noteq> ?i \<Longrightarrow> kid (u' # us) m pt ?i \<inter> kid (u' # us) m pt j = {}"
    using 3(3) i by simp_all
  have ne: "c \<noteq> cell pt j" if "j < 512" for j using ck up(1) pg that by auto
  have e0: "?m (cell pt ?i) = m (cell pt ?i)" using ne [OF i(1)] by simp
  have lv': "\<And>w. w \<in> set (u' # us) \<Longrightarrow> lv w" using 3(4) by auto
  have low: "user_va {} (u' # us) va'" for va' by simp
  note ih = 3(2) [OF a(2) lv' low a(3) 3(7)]
  have IH: "tree_ok {} (u' # us) ?m (baseof (m (cell pt ?i)))"
    "tables (u' # us) ?m (baseof (m (cell pt ?i))) = tables (u' # us) m (baseof (m (cell pt ?i)))"
    "\<And>va'. leaf_cell (u' # us) ?m (baseof (m (cell pt ?i))) va' = leaf_cell (u' # us) m (baseof (m (cell pt ?i))) va'"
    using conjunct1 [OF ih] conjunct1 [OF conjunct2 [OF ih]] low conjunct2 [OF conjunct2 [OF ih]] by blast+
  have k: "kid (u' # us) ?m pt ?i = kid (u' # us) m pt ?i"
    by (simp only: kid_def e0 IH(2))
  have same: "?m x = m x" if "baseof x \<notin> kid (u' # us) ?m pt ?i" for x using that ck k by auto
  have h: "present (?m (cell pt ?i)) \<longrightarrow> is_user (?m (cell pt ?i))"
    "is_user (?m (cell pt ?i)) \<Longrightarrow> tree_ok {} (u' # us) ?m (baseof (?m (cell pt ?i)))"
    "pt \<notin> kid (u' # us) ?m pt ?i"
    "\<And>j. j < 512 \<Longrightarrow> j \<noteq> ?i \<Longrightarrow> kid (u' # us) ?m pt ?i \<inter> kid (u' # us) m pt j = {}"
    using a(1) up IH(1) by (simp_all only: e0 k) auto
  note ch = tree_child(1,2) [where m' = ?m, OF 3(3) i h same]
  have "tables (u # u' # us) ?m pt = tables (u # u' # us) m pt"
    unfolding tables_split [OF i(1), of u "u' # us" m pt] by (rule ch(2) [unfolded k])
  moreover have "leaf_cell (u # u' # us) ?m pt va' = leaf_cell (u # u' # us) m pt va'"
    if v: "user_va K (u # u' # us) va'" for va'
  proof -
    let ?j = "indexof va' u"
    have j: "?j < 512" "?j \<notin> K" using l v by (auto simp: lv_def user_va_def)
    have e1: "?m (cell pt ?j) = m (cell pt ?j)" using ne [OF j(1)] by simp
    have "leaf_cell (u' # us) ?m (baseof (m (cell pt ?j))) va' = leaf_cell (u' # us) m (baseof (m (cell pt ?j))) va'"
      if p: "present (m (cell pt ?j))"
    proof (cases "?j = ?i")
      case False
      have us: "is_user (m (cell pt ?j))" "tree_ok {} (u' # us) m (baseof (m (cell pt ?j)))"
        using 3(3) j p by auto
      have "?m x = m x" if "baseof x \<in> tables (u' # us) m (baseof (m (cell pt ?j)))" for x
        using that us(1) ck up(2) [OF j(1) False] by (auto simp: kid_def)
      then show ?thesis using leaf_frame [OF us(2), of va' ?m] 3(4) by simp
    qed (simp add: IH(3))
    then show ?thesis using e1 by (simp add: Let_def)
  qed
  ultimately show ?case using ch(1) by blast
qed simp

lemma entry_update:
  assumes "tree_ok K us m pt" and "\<And>u. u \<in> set us \<Longrightarrow> lv u" and "user_va K us va"
    and "leaf_cell us m pt va = Some c" and "present e \<longrightarrow> is_user e" and "user_va K us va'"
  shows "entry us (m(c := e)) pt va' = (if same_path us va va' then e else entry us m pt va')"
proof -
  have l: "leaf_cell us (m(c := e)) pt va' = leaf_cell us m pt va'"
    using leaf_update [OF assms(1-5)] assms(6) by blast
  show ?thesis
  proof (cases "same_path us va va'")
    case True
    then have "leaf_cell us m pt va' = Some c" using same_path_leaf [OF True, of m pt] assms(4) by simp
    then show ?thesis using l True by (simp add: entry_def)
  next
    case False
    then show ?thesis using l leaf_inj [OF assms(1,2,3,6,4)] by (auto simp: entry_def split: option.splits)
  qed
qed

section \<open>Growing the tree\<close>

lemma zero_tree:
  assumes "page_addr p" and "\<forall>i<512. m (cell p i) = 0"
  shows "tree_ok {} (u # us) m p" "tables (u # us) m p = {p}" "lv u \<Longrightarrow> entry (u # us) m p va = 0"
proof -
  have k: "kid us m p i = {}" if "i < 512" for i using assms(2) that by (simp add: kid_def)
  show "tables (u # us) m p = {p}" using k by (simp add: tables_Cons del: tables.simps)
  show "tree_ok {} (u # us) m p" using assms k by simp
  show "entry (u # us) m p va = 0" if "lv u"
  proof -
    have "m (cell p (indexof va u)) = 0" using assms(2) that by (simp add: lv_def)
    then show ?thesis by (cases us) (simp_all add: entry_def Let_def)
  qed
qed

lemma entry_step:
  "entry (u # u' # us) m pt va =
     (if present (m (cell pt (indexof va u))) then entry (u' # us) m (baseof (m (cell pt (indexof va u)))) va else 0)"
  by (simp add: entry_def Let_def)

text \<open>
  The walk went on below entry \<open>i\<close> of \<open>pt\<close>, in a subtree that it made or extended with pages that
  were not part of the tree: what the subtree gained, the tree gained.
\<close>

lemma walk_join:
  assumes ok: "tree_ok K (u # u' # us) m pt" and lv: "\<forall>w \<in> set (u # u' # us). lv w"
    and va: "user_va K (u # u' # us) va" and i: "i = indexof va u"
    and e: "is_user (m' (cell pt i))" "baseof (m' (cell pt i)) = q"
    and sub: "tree_ok {} (u' # us) m' q" "tables (u' # us) m' q = T" "leaf_cell (u' # us) m' q va = Some c"
    and apart: "pt \<notin> T" "\<forall>j<512. j \<noteq> i \<longrightarrow> T \<inter> kid (u' # us) m pt j = {}"
    and same: "\<forall>x. baseof x \<notin> T \<longrightarrow> x \<noteq> cell pt i \<longrightarrow> m' x = m x"
    and ent: "\<forall>va'. indexof va' u = i \<longrightarrow> entry (u' # us) m' q va' = entry (u # u' # us) m pt va'"
  shows "tree_ok K (u # u' # us) m' pt"
    and "tables (u # u' # us) m' pt = insert pt (T \<union> (\<Union>j\<in>{..<512} - {i}. kid (u' # us) m pt j))"
    and "leaf_cell (u # u' # us) m' pt va = Some c"
    and "user_va K (u # u' # us) va' \<Longrightarrow> entry (u # u' # us) m' pt va' = entry (u # u' # us) m pt va'"
proof -
  have i': "i < 512" "i \<notin> K" using lv va i by (auto simp: lv_def user_va_def)
  have k: "kid (u' # us) m' pt i = T" using e sub(2) by (simp add: kid_def)
  have h: "present (m' (cell pt i)) \<longrightarrow> is_user (m' (cell pt i))"
    "is_user (m' (cell pt i)) \<Longrightarrow> tree_ok {} (u' # us) m' (baseof (m' (cell pt i)))"
    "pt \<notin> kid (u' # us) m' pt i"
    "\<And>j. j < 512 \<Longrightarrow> j \<noteq> i \<Longrightarrow> kid (u' # us) m' pt i \<inter> kid (u' # us) m pt j = {}"
    "\<And>x. baseof x \<notin> kid (u' # us) m' pt i \<Longrightarrow> x \<noteq> cell pt i \<Longrightarrow> m' x = m x"
    using e sub(1) apart same unfolding k by simp_all
  note ch = tree_child(1,2) [where m' = m', OF ok i' h]
  show "tree_ok K (u # u' # us) m' pt"
    and "tables (u # u' # us) m' pt = insert pt (T \<union> (\<Union>j\<in>{..<512} - {i}. kid (u' # us) m pt j))"
    using ch unfolding k by blast+
  show "leaf_cell (u # u' # us) m' pt va = Some c"
    using e sub(3) i by (simp add: Let_def is_user_present)
  show "entry (u # u' # us) m' pt va' = entry (u # u' # us) m pt va'" if v: "user_va K (u # u' # us) va'"
  proof (cases "indexof va' u = i")
    case True
    then show ?thesis using ent True e by (simp add: entry_step [of u u' us m'] is_user_present)
  next
    case False
    let ?j = "indexof va' u"
    have j: "?j < 512" "?j \<notin> K" using lv v by (auto simp: lv_def user_va_def)
    have "page_addr pt" using ok by simp
    then have m: "m' (cell pt ?j) = m (cell pt ?j)"
      using False j(1) i'(1) apart(1) same by (simp add: cell_inj)
    have "entry (u' # us) m' (baseof (m (cell pt ?j))) va' = entry (u' # us) m (baseof (m (cell pt ?j))) va'"
      if p: "present (m (cell pt ?j))"
    proof -
      have us: "is_user (m (cell pt ?j))" "tree_ok {} (u' # us) m (baseof (m (cell pt ?j)))"
        using ok j p by auto
      have pt: "pt \<notin> kid (u' # us) m pt ?j" "page_addr pt" using ok j(1) by simp_all
      have "m' x = m x" if "baseof x \<in> tables (u' # us) m (baseof (m (cell pt ?j)))" for x
      proof -
        have "baseof x \<in> kid (u' # us) m pt ?j" using that us(1) by (simp add: kid_def)
        moreover have "T \<inter> kid (u' # us) m pt ?j = {}" using apart(2) j(1) False by blast
        ultimately have "baseof x \<notin> T" "x \<noteq> cell pt i" using pt i'(1) by auto
        then show ?thesis using same by blast
      qed
      then show ?thesis using leaf_frame [OF us(2), of va' m'] lv by simp
    qed
    then show ?thesis by (simp add: entry_step m)
  qed
qed

end
