(* ===== verification/Vme_Walk.thy ===== *)
theory Vme_Walk
  imports Vme_Tree
begin

text \<open>
  The operations of \<open>vme.c\<close> over any source of pages: what \<open>pgalloc\<close> and \<open>pgfree\<close> promise is the
  locale \<open>page_source\<close>, and the walk, \<open>map\<close>, \<open>protect\<close> and \<open>unprotect\<close> are proved once inside it.
\<close>

unbundle bit_operations_syntax

text \<open>
  \<open>live s\<close> are the pages handed out and not yet given back, and \<open>outside x s\<close> says that the cell \<open>x\<close>
  lies in memory that is someone else's: it is in no page the source hands out. A page may hold
  anything when it is handed out, and its contents are lost when it is given back.
\<close>

text \<open>\<open>n\<close> pages handed out one after the other, with any writes to memory between.\<close>

inductive grows :: "'a pgalloc \<Rightarrow> nat \<Rightarrow> 'a vm \<Rightarrow> 'a vm \<Rightarrow> bool" for pgalloc where
  none: "grows pgalloc 0 s s"
| page: "grows pgalloc n s t \<Longrightarrow> pgalloc 4096 t = Inr (p, t') \<Longrightarrow> p \<noteq> 0 \<Longrightarrow> grows pgalloc (Suc n) s (t'\<lparr>phys := m\<rparr>)"

lemma grows_once: "pgalloc 4096 s = Inr (p, t) \<Longrightarrow> p \<noteq> 0 \<Longrightarrow> grows pgalloc 1 s (t\<lparr>phys := m\<rparr>)"
  unfolding One_nat_def by (rule grows.page [OF grows.none])

lemma pgallocz_grows: "pgallocz pgalloc s = Inr (p, t) \<Longrightarrow> grows pgalloc 1 s (t\<lparr>phys := m\<rparr>)"
  by (auto simp: pgallocz_def mmu_def res_bind_eq_Inr grows_once [unfolded One_nat_def] split: if_splits)

lemma grows_trans: "grows pgalloc k t u \<Longrightarrow> grows pgalloc n s t \<Longrightarrow> grows pgalloc (n + k) s u"
  by (induction rule: grows.induct) (auto intro: grows.page)

text \<open>Some request among the next \<open>n\<close> is refused, those before it having been granted.\<close>

definition runs_out :: "'a pgalloc \<Rightarrow> nat \<Rightarrow> 'a vm \<Rightarrow> bool" where
  "runs_out pgalloc n s \<longleftrightarrow> (\<exists>k<n. \<exists>t t'. grows pgalloc k s t \<and> pgalloc 4096 t = Inr (0, t'))"

lemma runs_out_mono: "runs_out pgalloc n s \<Longrightarrow> n \<le> m \<Longrightarrow> runs_out pgalloc m s"
  unfolding runs_out_def by (meson order_less_le_trans)

lemma runs_out_now: "pgalloc 4096 s = Inr (0, t) \<Longrightarrow> runs_out pgalloc (Suc n) s"
  unfolding runs_out_def using grows.none by blast

lemma runs_out_later: "grows pgalloc 1 s t \<Longrightarrow> runs_out pgalloc n t \<Longrightarrow> runs_out pgalloc (Suc n) s"
  unfolding runs_out_def using grows_trans [of pgalloc _ t _ 1 s] by fastforce

lemma regroup: "insert a (A \<union> N \<union> X) = insert a (A \<union> X) \<union> N"
  by blast

locale page_source =
  fixes inv :: "'a vm \<Rightarrow> bool" and live :: "'a vm \<Rightarrow> addr set" and outside :: "addr \<Rightarrow> 'a vm \<Rightarrow> bool"
    and pgalloc :: "'a pgalloc" and pgfree :: "'a pgfree"
  assumes alloc: "inv s \<Longrightarrow> \<exists>p s'. pgalloc 4096 s = Inr (p, s') \<and> inv s' \<and> kpt s' = kpt s \<and>
      (\<forall>x. outside x s \<longrightarrow> outside x s') \<and>
      (if p = 0 then live s' = live s
       else page_addr p \<and> p \<notin> live s \<and> live s' = insert p (live s) \<and> (\<forall>x. outside x s \<longrightarrow> baseof x \<noteq> p) \<and>
         (\<forall>x. baseof x \<noteq> p \<longrightarrow> phys s' x = phys s x))"
    and free: "inv s \<Longrightarrow> p \<in> live s \<Longrightarrow> \<exists>s'. pgfree p s = Inr s' \<and> inv s' \<and> kpt s' = kpt s \<and>
      (\<forall>x. outside x s \<longrightarrow> outside x s') \<and> live s' = live s - {p} \<and> (\<forall>x. baseof x \<noteq> p \<longrightarrow> phys s' x = phys s x)"
    and outside_live: "inv s \<Longrightarrow> outside x s \<Longrightarrow> baseof x \<notin> live s"
    and poke [simp]: "inv (s\<lparr>phys := m\<rparr>) = inv s" "live (s\<lparr>phys := m\<rparr>) = live s" "outside x (s\<lparr>phys := m\<rparr>) = outside x s"
begin

lemma poke_cell_simps [simp]:
  "inv (poke_cell x e s) = inv s" "live (poke_cell x e s) = live s" "outside y (poke_cell x e s) = outside y s"
  "kpt (poke_cell x e s) = kpt s" "phys (poke_cell x e s) = (phys s)(x := e)"
  by (simp_all add: poke_cell_def)

lemma pgallocz_ok:
  assumes "inv s"
  shows "pgallocz pgalloc s = Inl Panic \<and> runs_out pgalloc 1 s \<or>
    (\<exists>p s'. pgallocz pgalloc s = Inr (p, s') \<and> inv s' \<and> kpt s' = kpt s \<and> (\<forall>x. outside x s \<longrightarrow> outside x s' \<and> baseof x \<noteq> p) \<and>
       page_addr p \<and> p \<notin> live s \<and> live s' = insert p (live s) \<and> (\<forall>i<512. phys s' (cell p i) = 0) \<and>
       (\<forall>x. baseof x \<noteq> p \<longrightarrow> phys s' x = phys s x))"
proof -
  obtain p t where t: "pgalloc 4096 s = Inr (p, t)" "inv t" "kpt t = kpt s" "\<forall>x. outside x s \<longrightarrow> outside x t"
      "if p = 0 then live t = live s
       else page_addr p \<and> p \<notin> live s \<and> live t = insert p (live s) \<and> (\<forall>x. outside x s \<longrightarrow> baseof x \<noteq> p) \<and>
         (\<forall>x. baseof x \<noteq> p \<longrightarrow> phys t x = phys s x)"
    using alloc [OF assms] by blast
  show ?thesis
  proof (cases "p = 0")
    case True
    then have "runs_out pgalloc 1 s" using t(1) runs_out_now [of pgalloc s t 0] by simp
    then show ?thesis using t(1) True by (simp add: pgallocz_def mmu_def)
  next
    case False
    let ?s = "t\<lparr>phys := zero_cells 512 p 0 (phys t)\<rparr>"
    have pg: "page_addr p" using t(5) False by simp
    have run: "pgallocz pgalloc s = Inr (p, ?s)" using t(1) False by (simp add: pgallocz_def mmu_def)
    have "phys ?s (cell p i) = 0" if "i < 512" for i
      using that by (simp add: zero_cells_at del: zero_cells.simps) blast
    moreover have "phys ?s x = phys s x" if "baseof x \<noteq> p" for x
      using that pg t(5) False by (auto simp: zero_cells_at simp del: zero_cells.simps)
    ultimately show ?thesis using run t False by simp
  qed
qed

section \<open>The walk\<close>

definition walked :: "nat set \<Rightarrow> ptinfo list \<Rightarrow> addr \<Rightarrow> addr \<Rightarrow> 'a vm \<Rightarrow> addr \<Rightarrow> 'a vm \<Rightarrow> bool" where
  "walked K us va pt s c s' \<longleftrightarrow>
     inv s' \<and> kpt s' = kpt s \<and> (\<forall>x. outside x s \<longrightarrow> outside x s') \<and> live s \<subseteq> live s' \<and>
     tables us (phys s') pt = tables us (phys s) pt \<union> (live s' - live s) \<and>
     tree_ok K us (phys s') pt \<and> leaf_cell us (phys s') pt va = Some c \<and>
     (\<forall>va'. user_va K us va' \<longrightarrow> entry us (phys s') pt va' = entry us (phys s) pt va') \<and>
     (\<forall>x. baseof x \<notin> tables us (phys s') pt \<longrightarrow> phys s' x = phys s x)"

lemma walkedD:
  assumes "walked K us va pt s c s'"
  shows "inv s'" "kpt s' = kpt s" "\<And>x. outside x s \<Longrightarrow> outside x s'" "live s \<subseteq> live s'"
    "tables us (phys s') pt = tables us (phys s) pt \<union> (live s' - live s)"
    "tree_ok K us (phys s') pt" "leaf_cell us (phys s') pt va = Some c"
    "\<And>va'. user_va K us va' \<Longrightarrow> entry us (phys s') pt va' = entry us (phys s) pt va'"
    "\<And>x. baseof x \<notin> tables us (phys s') pt \<Longrightarrow> phys s' x = phys s x"
  using assms by (simp_all add: walked_def)

lemma walkedI:
  assumes "inv s'" "kpt s' = kpt s" "\<And>x. outside x s \<Longrightarrow> outside x s'" "live s \<subseteq> live s'"
    "tables us (phys s') pt = tables us (phys s) pt \<union> (live s' - live s)"
    "tree_ok K us (phys s') pt" "leaf_cell us (phys s') pt va = Some c"
    "\<And>va'. user_va K us va' \<Longrightarrow> entry us (phys s') pt va' = entry us (phys s) pt va'"
    "\<And>x. baseof x \<notin> tables us (phys s') pt \<Longrightarrow> phys s' x = phys s x"
  shows "walked K us va pt s c s'"
  using assms by (simp add: walked_def)

lemma ptwalk_loop_ok:
  assumes "inv s" and "tree_ok K us (phys s) pt" and "tables us (phys s) pt \<subseteq> live s"
    and "\<forall>u \<in> set us. lv u" and "user_va K us va"
  shows "ptwalk_loop pgalloc va (PTE_W OR PTE_U) us pt s = Inl Panic \<and> runs_out pgalloc (length us - 1) s \<or>
    (\<exists>c s'. ptwalk_loop pgalloc va (PTE_W OR PTE_U) us pt s = Inr (c, s') \<and> walked K us va pt s c s')"
  using assms
proof (induction us arbitrary: K pt s rule: induct_list012)
  case 1
  then show ?case by (simp add: user_va_def)
next
  case (2 u)
  then show ?case by (simp add: walked_def)
next
  case (3 u u' us)
  note inv = 3(3) and ok = 3(4) and sub = 3(5) and lvs = 3(6) and va = 3(7)
  let ?i = "indexof va u"
  let ?x = "cell pt ?i"
  have i: "?i < 512" "?i \<notin> K" using lvs va by (auto simp: lv_def user_va_def)
  have pg: "page_addr pt" using ok by simp
  have lv': "\<forall>w \<in> set (u' # us). lv w" and va': "user_va {} (u' # us) va" using lvs by auto
  have live_kid: "kid (u' # us) (phys s) pt j \<subseteq> live s" if "j < 512" for j
    using kid_subset [OF that] sub by blast
  have ptl: "pt \<in> live s" using sub by auto
  have split: "tables (u # u' # us) (phys s) pt =
      insert pt (kid (u' # us) (phys s) pt ?i \<union> (\<Union>j\<in>{..<512} - {?i}. kid (u' # us) (phys s) pt j))"
    by (rule tables_split [OF i(1)])
  show ?case
  proof (cases "present (phys s ?x)")
    case True
    let ?q = "baseof (phys s ?x)"
    have usr: "is_user (phys s ?x)" "tree_ok {} (u' # us) (phys s) ?q" using ok i True by auto
    have kq: "kid (u' # us) (phys s) pt ?i = tables (u' # us) (phys s) ?q" using usr(1) by (simp add: kid_def)
    have run: "ptwalk_loop pgalloc va (PTE_W OR PTE_U) (u # u' # us) pt s =
        ptwalk_loop pgalloc va (PTE_W OR PTE_U) (u' # us) ?q s" using True by (simp add: Let_def)
    consider "ptwalk_loop pgalloc va (PTE_W OR PTE_U) (u' # us) ?q s = Inl Panic \<and> runs_out pgalloc (length (u' # us) - 1) s"
      | c s' where "ptwalk_loop pgalloc va (PTE_W OR PTE_U) (u' # us) ?q s = Inr (c, s')" "walked {} (u' # us) va ?q s c s'"
      using 3(2) [OF inv usr(2) live_kid [OF i(1), unfolded kq] lv' va'] by blast
    then show ?thesis
    proof cases
      case 1
      then show ?thesis using run runs_out_mono [of pgalloc "length (u' # us) - 1" s "length (u # u' # us) - 1"] by simp
    next
      case (2 c s')
      note w = walkedD [OF 2(2)]
      let ?T = "tables (u' # us) (phys s') ?q"
      have T: "?T = kid (u' # us) (phys s) pt ?i \<union> (live s' - live s)" using w(5) kq by simp
      have up: "pt \<notin> ?T" "\<forall>j<512. j \<noteq> ?i \<longrightarrow> ?T \<inter> kid (u' # us) (phys s) pt j = {}"
        unfolding T using kid_apart [OF ok] i(1) ptl live_kid by blast+
      have same: "\<forall>x. baseof x \<notin> ?T \<longrightarrow> x \<noteq> ?x \<longrightarrow> phys s' x = phys s x" using w(9) by blast
      have x: "phys s' ?x = phys s ?x" by (rule w(9)) (use up(1) pg i in \<open>simp del: tables.simps\<close>)
      have e: "is_user (phys s' ?x)" "baseof (phys s' ?x) = ?q" using usr(1) x by simp_all
      have ent: "\<forall>va'. indexof va' u = ?i \<longrightarrow> entry (u' # us) (phys s') ?q va' = entry (u # u' # us) (phys s) pt va'"
        using w(8) True by (simp add: entry_step [of u u' us "phys s"])
      note j = walk_join [where m' = "phys s'", OF ok lvs va refl e w(6) refl w(7) up same ent]
      have "walked K (u # u' # us) va pt s c s'"
      proof (rule walkedI [OF w(1-4) _ j(1,3,4)])
        show t: "tables (u # u' # us) (phys s') pt = tables (u # u' # us) (phys s) pt \<union> (live s' - live s)"
          unfolding j(2) split T by (rule regroup)
        show "phys s' y = phys s y" if "baseof y \<notin> tables (u # u' # us) (phys s') pt" for y
          using that unfolding j(2) by (intro w(9)) blast
      qed
      then show ?thesis using run 2(1) by auto
    qed
  next
    case False
    then have none: "kid (u' # us) (phys s) pt ?i = {}" using is_user_present by (auto simp: kid_def)
    consider "pgallocz pgalloc s = Inl Panic \<and> runs_out pgalloc 1 s"
      | p s1 where "pgallocz pgalloc s = Inr (p, s1)" "inv s1" "kpt s1 = kpt s" "\<forall>x. outside x s \<longrightarrow> outside x s1"
          "page_addr p" "p \<notin> live s" "live s1 = insert p (live s)" "\<forall>i<512. phys s1 (cell p i) = 0"
          "\<forall>x. baseof x \<noteq> p \<longrightarrow> phys s1 x = phys s x"
      using pgallocz_ok [OF inv] by blast
    then show ?thesis
    proof cases
      case 1
      then show ?thesis using False runs_out_mono [of pgalloc 1 s "length (u # u' # us) - 1"] by (simp add: Let_def)
    next
      case (2 p s1)
      let ?e = "p OR PTE_P OR (PTE_W OR PTE_U)"
      let ?s2 = "poke_cell ?x ?e s1"
      have ptp: "pt \<noteq> p" using ptl 2(6) by auto
      have z: "\<forall>k<512. phys ?s2 (cell p k) = 0"
        using 2(5,8) ptp pg i by (auto dest: arg_cong [of _ _ baseof])
      have run: "ptwalk_loop pgalloc va (PTE_W OR PTE_U) (u # u' # us) pt s =
          ptwalk_loop pgalloc va (PTE_W OR PTE_U) (u' # us) p ?s2"
        using False 2(1) by (simp add: Let_def)
      note zt = zero_tree [OF 2(5), of "phys ?s2", OF z]
      have g: "grows pgalloc 1 s ?s2" unfolding poke_cell_def by (rule pgallocz_grows [OF 2(1)])
      have pre1: "inv ?s2" using 2(2) by simp
      have pre2: "tables (u' # us) (phys ?s2) p \<subseteq> live ?s2"
        unfolding zt(2) using 2(7) by simp
      consider "ptwalk_loop pgalloc va (PTE_W OR PTE_U) (u' # us) p ?s2 = Inl Panic \<and> runs_out pgalloc (length (u' # us) - 1) ?s2"
        | c s' where "ptwalk_loop pgalloc va (PTE_W OR PTE_U) (u' # us) p ?s2 = Inr (c, s')" "walked {} (u' # us) va p ?s2 c s'"
        using 3(2) [OF pre1 zt(1) pre2 lv' va'] by blast
      then show ?thesis
      proof cases
        case 1
        then show ?thesis using run runs_out_later [OF g] by simp
      next
        case c: (2 c s')
        note w = walkedD [OF c(2)]
        let ?T = "tables (u' # us) (phys s') p"
        have l2: "live ?s2 = insert p (live s)" by (simp add: 2(7))
        have "{p} \<union> (live s' - insert p (live s)) = live s' - live s" using w(4) 2(6) unfolding l2 by blast
        then have T: "?T = live s' - live s" using w(5) unfolding zt(2) l2 by (rule trans [rotated])
        have up: "pt \<notin> ?T" "\<forall>j<512. j \<noteq> ?i \<longrightarrow> ?T \<inter> kid (u' # us) (phys s) pt j = {}"
          unfolding T using ptl live_kid by blast+
        have x: "phys s' ?x = ?e" using w(9) [of ?x] up(1) pg i by (simp del: tables.simps)
        have "p \<in> ?T" by simp
        then have same: "\<forall>y. baseof y \<notin> ?T \<longrightarrow> y \<noteq> ?x \<longrightarrow> phys s' y = phys s y"
          using w(9) 2(9) by (metis fun_upd_other poke_cell_simps(5))
        have e: "is_user (phys s' ?x)" "baseof (phys s' ?x) = p" using table_entry [OF 2(5)] x by simp_all
        have ent: "\<forall>va'. indexof va' u = ?i \<longrightarrow> entry (u' # us) (phys s') p va' = entry (u # u' # us) (phys s) pt va'"
          using w(8) False zt(3) lv' by (simp add: entry_step [of u u' us "phys s"])
        note j = walk_join [where m' = "phys s'", OF ok lvs va refl e w(6) refl w(7) up same ent]
        have "walked K (u # u' # us) va pt s c s'"
        proof (rule walkedI [OF w(1) _ _ _ _ j(1,3,4)])
          show "kpt s' = kpt s" using w(2) 2(3) by simp
          show "outside y s'" if "outside y s" for y using w(3) [of y] that 2(4) by simp
          show "live s \<subseteq> live s'" using w(4) 2(7) by auto
          show "tables (u # u' # us) (phys s') pt = tables (u # u' # us) (phys s) pt \<union> (live s' - live s)"
            unfolding j(2) split T none Un_empty_left by (rule regroup [where A = "{}", unfolded Un_empty_left])
          show "phys s' y = phys s y" if "baseof y \<notin> tables (u # u' # us) (phys s') pt" for y
          proof -
            have "baseof y \<notin> ?T" "baseof y \<noteq> pt" using that unfolding j(2) by blast+
            moreover from this have "y \<noteq> ?x" using baseof_cell [OF pg i(1)] by blast
            ultimately show ?thesis using same by blast
          qed
        qed
        then show ?thesis using run c(1) by auto
      qed
    qed
  qed
qed

end

end
