(* ===== verification/Vme_Ops.thy ===== *)
theory Vme_Ops
  imports Vme_Walk
begin

text \<open>
  Address spaces over a source of pages: an address space's table pages are pages the source has
  handed out, \<open>protect\<close> makes one, \<open>map\<close> changes the entry of one page, and \<open>unprotect\<close> gives back
  exactly its tables.
\<close>

unbundle bit_operations_syntax

section \<open>The levels\<close>

definition levels :: "ptinfo list" where
  "levels = drop 1 (pgtables mmu)"

lemma levels_simp:
  "levels = [\<lparr>pt_name = ''PML4'', pt_mask = 0xff8000000000, pt_shift = 39, pt_bits = 9\<rparr>,
     \<lparr>pt_name = ''PDPT'', pt_mask = 0x007fc0000000, pt_shift = 30, pt_bits = 9\<rparr>,
     \<lparr>pt_name = ''PD'', pt_mask = 0x00003fe00000, pt_shift = 21, pt_bits = 9\<rparr>,
     \<lparr>pt_name = ''PT'', pt_mask = 0x0000001ff000, pt_shift = 12, pt_bits = 9\<rparr>]"
  by (simp add: levels_def mmu_def)

lemma length_levels: "length levels - 1 = 3"
  by (simp add: levels_simp)

definition CR3_info :: ptinfo where
  "CR3_info = \<lparr>pt_name = ''CR3'', pt_mask = 0, pt_shift = 0, pt_bits = 0\<rparr>"

lemma all_levels: "take (ptlevels mmu + 1) (pgtables mmu) = CR3_info # levels"
  by (simp add: levels_simp mmu_def CR3_info_def)

lemma cell_0 [simp]: "cell p 0 = p"
  by (simp add: cell_def)

lemma index_CR3 [simp]: "indexof va CR3_info = 0"
  by (simp add: indexof_def CR3_info_def)

lemma indexof_field:
  assumes "pt_mask u = push_bit (pt_shift u) (mask 9)"
  shows "indexof a u = unat (take_bit 9 (drop_bit (pt_shift u) a))"
proof -
  have "drop_bit (pt_shift u) (a AND pt_mask u) = take_bit 9 (drop_bit (pt_shift u) a)"
    unfolding assms by (rule bit_word_eqI) (auto simp: bit_simps dest: bit_imp_le_length)
  then show ?thesis by (simp add: indexof_def)
qed

lemma level_masks: "u \<in> set levels \<Longrightarrow> pt_mask u = push_bit (pt_shift u) (mask 9) \<and> pt_bits u = 9"
  by (auto simp: levels_simp mask_eq_exp_minus_1 push_bit_eq_mult)

lemma index_less: "u \<in> set levels \<Longrightarrow> indexof a u < 512"
proof -
  assume u: "u \<in> set levels"
  have "indexof a u = take_bit 9 (unat (drop_bit (pt_shift u) a))"
    using indexof_field [of u a] level_masks [OF u] by (simp add: unsigned_take_bit_eq)
  then show ?thesis using take_bit_nat_less_exp [of 9 "unat (drop_bit (pt_shift u) a)"] by simp
qed

lemma lv_levels: "\<forall>u \<in> set levels. lv u"
  using level_masks index_less by (simp add: lv_def)

text \<open>Addresses of user space start in slot 32 of the root, those of the kernel are slot 0.\<close>

lemma user_slot:
  assumes "IN_RANGE va uvm_area"
  shows "indexof va (hd levels) = 32" and "user_va {0} levels va"
proof -
  have r: "0x100000000000 \<le> unat va" "unat va < 0x108000000000"
    using assms by (simp_all add: IN_RANGE_def uvm_area_def vm_areas_def word_le_nat_alt word_less_nat_alt)
  have "indexof va (hd levels) = unat va div 2 ^ 39 mod 2 ^ 9"
    using indexof_field [of "hd levels" va] level_masks [of "hd levels"]
    by (simp add: levels_simp unat_take_bit unat_drop_bit)
  also have "unat va div 2 ^ 39 = 32" using r by (simp add: div_nat_eqI)
  also have "(32 :: nat) mod 2 ^ 9 = 32" by simp
  finally show "indexof va (hd levels) = 32" .
  then show "user_va {0} levels va" by (simp add: user_va_def levels_simp)
qed

text \<open>Two pages of user space with the same path are the same page.\<close>

definition user_page :: "addr \<Rightarrow> bool" where
  "user_page va \<longleftrightarrow> IN_RANGE va uvm_area \<and> page_addr va"

lemma low_bits:
  assumes "user_page va" and "n < 12 \<or> 47 \<le> n"
  shows "\<not> bit va n"
  using assms(2)
proof
  assume "n < 12"
  have "va AND NOT (mask 12) = va" using assms(1) by (simp add: user_page_def page_addr_def baseof_mask)
  then have "bit va n \<longleftrightarrow> bit (va AND NOT (mask 12)) n" by simp
  then show ?thesis using \<open>n < 12\<close> by (simp add: bit_simps)
next
  assume n: "47 \<le> n"
  have "va < 0x108000000000"
    using assms(1) by (simp add: user_page_def IN_RANGE_def uvm_area_def vm_areas_def)
  then have "unat va < 2 ^ 47" by (simp add: word_less_nat_alt)
  also have "(2 :: nat) ^ 47 \<le> 2 ^ n" using n by (rule power_increasing) simp
  finally have "drop_bit n (unat va) = 0" by (simp add: drop_bit_eq_div)
  then have "\<not> bit (unat va) n" by (simp add: bit_iff_odd_drop_bit)
  then show ?thesis by (simp add: bit_unsigned_iff)
qed

lemma same_path_page:
  assumes "user_page va" and "user_page va'" and "same_path levels va va'"
  shows "va = va'"
proof (rule bit_word_eqI)
  fix n assume "n < LENGTH(64)"
  have f: "bit va (k + j) = bit va' (k + j)" if "k \<in> {12, 21, 30, 39}" "j < 9" for k j
  proof -
    have "k \<in> pt_shift ` set levels" using that(1) by (auto simp: levels_simp)
    then obtain u where u: "u \<in> set levels" "pt_shift u = k" by blast
    have m: "pt_mask u = push_bit (pt_shift u) (mask 9)" using level_masks [OF u(1)] by simp
    have "indexof va u = indexof va' u" using assms(3) u(1) by (simp add: same_path_def)
    then have "unat (take_bit 9 (drop_bit k va)) = unat (take_bit 9 (drop_bit k va'))"
      unfolding indexof_field [OF m] u(2) .
    then have "take_bit 9 (drop_bit k va) = take_bit 9 (drop_bit k va')" by (rule unsigned_word_eqI)
    then have "bit (take_bit 9 (drop_bit k va)) j = bit (take_bit 9 (drop_bit k va')) j" by simp
    then show ?thesis using that(2) by (simp add: bit_take_bit_iff bit_drop_bit_eq)
  qed
  consider "n < 12 \<or> 47 \<le> n" | "12 \<le> n" "n < 21" | "21 \<le> n" "n < 30" | "30 \<le> n" "n < 39" | "39 \<le> n" "n < 47"
    by linarith
  then show "bit va n = bit va' n"
  proof cases
    case 1
    then show ?thesis using low_bits [OF assms(1)] low_bits [OF assms(2)] by blast
  qed (use f [of 12 "n - 12"] f [of 21 "n - 21"] f [of 30 "n - 30"] f [of 39 "n - 39"] in simp_all)
qed

section \<open>Address spaces\<close>

text \<open>The root table, the pages of the tables, and the entry for an address, 0 when a table is missing.\<close>

definition vm_root :: "'a vm \<Rightarrow> addr \<Rightarrow> addr" where
  "vm_root s as = baseof (phys s as)"

definition vm_pages :: "'a vm \<Rightarrow> addr \<Rightarrow> addr set" where
  "vm_pages s as = tables levels (phys s) (vm_root s as)"

definition vm_entry :: "'a vm \<Rightarrow> addr \<Rightarrow> addr \<Rightarrow> u64" where
  "vm_entry s as va = entry levels (phys s) (vm_root s as) va"

definition space_ok :: "('a vm \<Rightarrow> addr set) \<Rightarrow> (addr \<Rightarrow> 'a vm \<Rightarrow> bool) \<Rightarrow> addr \<Rightarrow> 'a vm \<Rightarrow> bool" where
  "space_ok live outside as s \<longleftrightarrow>
     outside as s \<and> is_user (phys s as) \<and> tree_ok {0} levels (phys s) (vm_root s as) \<and> vm_pages s as \<subseteq> live s"

text \<open>From \<open>s\<close> to \<open>s'\<close> only the entry of the page \<open>va\<close> changed, to \<open>e\<close>, and new tables came in.\<close>

definition space_step ::
  "('a vm \<Rightarrow> addr set) \<Rightarrow> (addr \<Rightarrow> 'a vm \<Rightarrow> bool) \<Rightarrow> addr \<Rightarrow> addr \<Rightarrow> u64 \<Rightarrow> 'a vm \<Rightarrow> 'a vm \<Rightarrow> bool" where
  "space_step live outside as va e s s' \<longleftrightarrow>
     space_ok live outside as s' \<and> kpt s' = kpt s \<and> (\<forall>x. outside x s \<longrightarrow> outside x s') \<and> live s \<subseteq> live s' \<and>
     vm_pages s' as = vm_pages s as \<union> (live s' - live s) \<and>
     (\<forall>va'. user_page va' \<longrightarrow> vm_entry s' as va' = (if va' = va then e else vm_entry s as va')) \<and>
     (\<forall>x. baseof x \<notin> vm_pages s' as \<longrightarrow> phys s' x = phys s x)"

definition pte_of :: "addr \<Rightarrow> u32 \<Rightarrow> u64" where
  "pte_of pa prot = pa OR PTE_P OR PTE_U OR (if prot AND MMAP_WRITE \<noteq> 0 then PTE_W else 0)"

lemma pte_of_user: "is_user (pte_of pa prot)"
  by (simp add: pte_of_def user_bit bit_or_iff PTE_bits)

lemma page_addr_ROUNDDOWN: "va = ROUNDDOWN va 4096 \<longleftrightarrow> page_addr va"
  using ROUNDDOWN_pow2 [of va 12] by (auto simp: page_addr_def baseof_mask)

lemma ptwalk_again:
  "leaf_cell us (phys s) pt va = Some c \<Longrightarrow> ptwalk_loop pgalloc va flags us pt s = Inr (c, s)"
  by (induction us arbitrary: pt rule: induct_list012) (auto simp: Let_def split: if_splits)

lemma ptwalk_root:
  assumes "is_user (phys s as)"
  shows "ptwalk pgalloc as va flags s = ptwalk_loop pgalloc va flags levels (vm_root s as) s"
proof -
  obtain l ls where l: "levels = l # ls" using levels_simp by blast
  have "present (phys s as)" using assms by (rule is_user_present)
  then show ?thesis unfolding ptwalk_def all_levels l by (simp add: vm_root_def Let_def)
qed

context page_source
begin

lemma ptwalk_ok:
  assumes "inv s" and "space_ok live outside as s" and "IN_RANGE va uvm_area"
  shows "ptwalk pgalloc as va (PTE_W OR PTE_U) s = Inl Panic \<and> runs_out pgalloc 3 s \<or>
    (\<exists>c s'. ptwalk pgalloc as va (PTE_W OR PTE_U) s = Inr (c, s') \<and> walked {0} levels va (vm_root s as) s c s' \<and>
       phys s' as = phys s as)"
proof -
  have ok: "is_user (phys s as)" "tree_ok {0} levels (phys s) (vm_root s as)" "vm_pages s as \<subseteq> live s" "outside as s"
    using assms(2) by (simp_all add: space_ok_def)
  have "phys s' as = phys s as" if w: "walked {0} levels va (vm_root s as) s c s'" for c s'
  proof (rule walkedD(9) [OF w])
    have "tables levels (phys s') (vm_root s as) \<subseteq> live s'"
      using walkedD(4,5) [OF w] ok(3) by (auto simp: vm_pages_def)
    moreover have "baseof as \<notin> live s'" using outside_live walkedD(1,3) [OF w] ok(4) by blast
    ultimately show "baseof as \<notin> tables levels (phys s') (vm_root s as)" by blast
  qed
  then show ?thesis
    unfolding ptwalk_root [OF ok(1)]
    using ptwalk_loop_ok [OF assms(1) ok(2) ok(3) [unfolded vm_pages_def] lv_levels user_slot(2) [OF assms(3)]]
    unfolding length_levels by blast
qed

text \<open>Writing the entry the walk led to.\<close>

lemma walked_write:
  assumes "inv s" and "space_ok live outside as s" and "user_page va"
    and w: "walked {0} levels va (vm_root s as) s c s'" and same: "phys s' as = phys s as"
    and e: "present e \<longrightarrow> is_user e"
  shows "phys s' c = vm_entry s as va" and "inv (poke_cell c e s')"
    and "space_step live outside as va e s (poke_cell c e s')"
    and "ptwalk pgalloc as va (PTE_W OR PTE_U) (poke_cell c e s') = Inr (c, poke_cell c e s')"
proof -
  let ?s = "poke_cell c e s'" and ?r = "vm_root s as"
  note wd = walkedD [OF w]
  have ok: "is_user (phys s as)" "vm_pages s as \<subseteq> live s" "outside as s"
    using assms(2) by (simp_all add: space_ok_def)
  have va: "user_va {0} levels va" using assms(3) user_slot(2) by (simp add: user_page_def)
  have sub: "tables levels (phys s') ?r \<subseteq> live s'" using wd(4,5) ok(2) by (auto simp: vm_pages_def)
  have lv: "\<And>u. u \<in> set levels \<Longrightarrow> lv u" using lv_levels by blast
  have c: "baseof c \<in> tables levels (phys s') ?r" by (rule leaf_in_tables [OF wd(6) lv va wd(7)])
  then have ne: "c \<noteq> as" using sub outside_live [OF wd(1) wd(3) [OF ok(3)]] by blast
  have r: "vm_root ?s as = ?r" using ne same by (simp add: vm_root_def)
  have upd: "tree_ok {0} levels (phys ?s) ?r" "tables levels (phys ?s) ?r = tables levels (phys s') ?r"
    "leaf_cell levels (phys ?s) ?r va = Some c"
    using leaf_update [OF wd(6) lv va wd(7) e] va wd(7) by simp_all
  show "phys s' c = vm_entry s as va"
    using wd(8) [OF va] wd(7) by (simp add: vm_entry_def entry_def)
  show "inv ?s" using wd(1) by simp
  have u: "is_user (phys ?s as)" using ok(1) same ne by simp
  then show "ptwalk pgalloc as va (PTE_W OR PTE_U) ?s = Inr (c, ?s)"
    unfolding ptwalk_root [OF u] r by (intro ptwalk_again upd(3))
  have pages: "vm_pages ?s as = vm_pages s as \<union> (live s' - live s)"
    unfolding vm_pages_def r upd(2) by (rule wd(5))
  have "vm_entry ?s as va' = (if va' = va then e else vm_entry s as va')" if v: "user_page va'" for va'
  proof -
    have va': "user_va {0} levels va'" using v user_slot(2) by (simp add: user_page_def)
    have "vm_entry ?s as va' = (if same_path levels va va' then e else entry levels (phys s') ?r va')"
      unfolding vm_entry_def r using entry_update [OF wd(6) lv va wd(7) e va'] by simp
    also have "same_path levels va va' \<longleftrightarrow> va' = va"
      using same_path_page [OF assms(3) v] by (auto simp: same_path_def)
    finally show ?thesis using wd(8) [OF va'] by (simp add: vm_entry_def)
  qed
  moreover have "phys ?s x = phys s x" if "baseof x \<notin> vm_pages ?s as" for x
    using that c wd(9) [of x] unfolding vm_pages_def r upd(2) by auto
  moreover have "space_ok live outside as ?s"
    unfolding space_ok_def vm_pages_def r upd(2) using u upd(1) sub wd(3) [OF ok(3)] by simp
  ultimately show "space_step live outside as va e s ?s"
    unfolding space_step_def using pages wd(2,3,4) by simp
qed

lemma vme_map_ok:
  assumes "inv s" and "space_ok live outside as s"
  shows "\<not> (user_page va \<and> page_addr pa) \<Longrightarrow> vme_map pgalloc as va pa prot s = Inl Panic"
    and "user_page va \<Longrightarrow> page_addr pa \<Longrightarrow>
      vme_map pgalloc as va pa prot s = Inl Panic \<and> runs_out pgalloc 3 s \<or>
      (if (prot = MMAP_NONE) = present (vm_entry s as va)
       then \<exists>s'. vme_map pgalloc as va pa prot s = Inr s' \<and> inv s' \<and>
              space_step live outside as va (if prot = MMAP_NONE then 0 else pte_of pa prot) s s'
       else vme_map pgalloc as va pa prot s = Inl Panic)"
proof -
  show "vme_map pgalloc as va pa prot s = Inl Panic" if "\<not> (user_page va \<and> page_addr pa)"
    using that by (auto simp: vme_map_def user_page_def page_addr_ROUNDDOWN)
  assume va: "user_page va" and pa: "page_addr pa"
  have r: "IN_RANGE va uvm_area" "va = ROUNDDOWN va 4096 \<and> pa = ROUNDDOWN pa 4096"
    using va pa by (simp_all add: user_page_def page_addr_ROUNDDOWN)
  let ?e = "if prot = MMAP_NONE then 0 else pte_of pa prot"
  have e: "present ?e \<longrightarrow> is_user ?e" using pte_of_user by simp
  consider "ptwalk pgalloc as va (PTE_W OR PTE_U) s = Inl Panic" "runs_out pgalloc 3 s"
    | c s' where "ptwalk pgalloc as va (PTE_W OR PTE_U) s = Inr (c, s')" "walked {0} levels va (vm_root s as) s c s'"
        "phys s' as = phys s as"
    using ptwalk_ok [OF assms r(1)] by blast
  then show "vme_map pgalloc as va pa prot s = Inl Panic \<and> runs_out pgalloc 3 s \<or>
      (if (prot = MMAP_NONE) = present (vm_entry s as va)
       then \<exists>s'. vme_map pgalloc as va pa prot s = Inr s' \<and> inv s' \<and> space_step live outside as va ?e s s'
       else vme_map pgalloc as va pa prot s = Inl Panic)"
  proof cases
    case 1
    then show ?thesis using r by (simp add: vme_map_def)
  next
    case (2 c s')
    note w = walked_write [OF assms va 2(2,3) e]
    have run: "vme_map pgalloc as va pa prot s =
        (if (prot = MMAP_NONE) = present (phys s' c)
         then res_bind (ptwalk pgalloc as va (PTE_W OR PTE_U) (poke_cell c ?e s')) (\<lambda>(_, s). Inr s) else Inl Panic)"
      using r 2(1) by (simp add: vme_map_def pte_of_def Let_def)
    show ?thesis
    proof (cases "(prot = MMAP_NONE) = present (vm_entry s as va)")
      case True
      then have "vme_map pgalloc as va pa prot s = Inr (poke_cell c ?e s')" using run w(1,4) by simp
      then show ?thesis using True w(2,3) by simp
    next
      case False
      then show ?thesis using run w(1) by simp
    qed
  qed
qed

text \<open>Another address space, with tables and a root of its own, is not touched.\<close>

lemma other_space:
  assumes "inv s" and "space_ok live outside as s" and "space_ok live outside as2 s" and "as2 \<noteq> as"
    and "vm_pages s as \<inter> vm_pages s as2 = {}" and st: "space_step live outside as va e s s'" and "inv s'"
  shows "space_ok live outside as2 s'" and "vm_pages s' as2 = vm_pages s as2" and "vm_pages s' as \<inter> vm_pages s' as2 = {}"
    and "IN_RANGE va' uvm_area \<Longrightarrow> vm_entry s' as2 va' = vm_entry s as2 va'"
proof -
  have a: "vm_pages s' as = vm_pages s as \<union> (live s' - live s)" "live s \<subseteq> live s'"
    "\<And>x. baseof x \<notin> vm_pages s' as \<Longrightarrow> phys s' x = phys s x" "\<And>x. outside x s \<Longrightarrow> outside x s'"
    "vm_pages s' as \<subseteq> live s'"
    using st unfolding space_step_def space_ok_def by blast+
  have ok: "is_user (phys s as2)" "tree_ok {0} levels (phys s) (vm_root s as2)" "vm_pages s as2 \<subseteq> live s" "outside as2 s"
    using assms(3) by (simp_all add: space_ok_def)
  have "baseof as2 \<notin> vm_pages s' as" using outside_live [OF assms(7) a(4) [OF ok(4)]] a(5) by blast
  then have r: "phys s' as2 = phys s as2" "vm_root s' as2 = vm_root s as2" using a(3) by (simp_all add: vm_root_def)
  have same: "phys s' x = phys s x" if "baseof x \<in> tables levels (phys s) (vm_root s as2)" for x
    using that a(1,3) assms(5) ok(3) unfolding vm_pages_def by blast
  note f = tree_frame [OF ok(2) same]
  show "vm_pages s' as2 = vm_pages s as2" using f unfolding vm_pages_def r by blast
  then show "vm_pages s' as \<inter> vm_pages s' as2 = {}" using a(1) assms(5) ok(3) by blast
  show "space_ok live outside as2 s'"
    using f ok a(2,4) unfolding space_ok_def vm_pages_def r by auto
  show "vm_entry s' as2 va' = vm_entry s as2 va'" if "IN_RANGE va' uvm_area"
    using leaf_frame [OF ok(2) _ user_slot(2) [OF that] same] lv_levels unfolding vm_entry_def r by blast
qed

section \<open>Taking a tree down\<close>

text \<open>From \<open>s\<close> to \<open>s'\<close> the pages of \<open>D\<close> were given back.\<close>

definition freed :: "addr set \<Rightarrow> 'a vm \<Rightarrow> 'a vm \<Rightarrow> bool" where
  "freed D s s' \<longleftrightarrow> inv s' \<and> kpt s' = kpt s \<and> (\<forall>x. outside x s \<longrightarrow> outside x s') \<and> live s' = live s - D \<and>
     (\<forall>x. baseof x \<notin> D \<longrightarrow> phys s' x = phys s x)"

lemma freed_trans: "freed D s t \<Longrightarrow> freed E t u \<Longrightarrow> freed (D \<union> E) s u"
  by (auto simp: freed_def)

lemma pgfree_freed: "inv s \<Longrightarrow> p \<in> live s \<Longrightarrow> \<exists>s'. pgfree p s = Inr s' \<and> freed {p} s s'"
  using free [of s p] by (auto simp: freed_def)

text \<open>The loop over the entries of \<open>pt\<close>: each subtree is found as it was and given back.\<close>

lemma teardown_loop:
  assumes "inv t" and "distinct is" and "set is \<subseteq> {..<512}" and "tree_ok K (u # us) m pt"
    and "\<And>i. i \<in> set is \<Longrightarrow> kid us m pt i \<subseteq> live t"
    and "\<And>i x. i \<in> set is \<Longrightarrow> baseof x \<in> kid us m pt i \<Longrightarrow> phys t x = m x"
    and "\<And>i. i \<in> set is \<Longrightarrow> phys t (cell pt i) = m (cell pt i)"
    and g: "\<And>q t. inv t \<Longrightarrow> tree_ok {} us (phys t) q \<Longrightarrow> tables us (phys t) q \<subseteq> live t \<Longrightarrow>
      \<exists>t'. g q t = Inr t' \<and> freed (tables us (phys t) q) t t'"
  shows "\<exists>t'. for_each (\<lambda>i s. if is_user (phys s (cell pt i)) then g (baseof (phys s (cell pt i))) s else Inr s) is t = Inr t' \<and>
    freed (\<Union>i\<in>set is. kid us m pt i) t t'"
  using assms(1-3,5-7)
proof (induction "is" arbitrary: t)
  case Nil
  then show ?case by (simp add: freed_def)
next
  case (Cons i "is")
  note inv = Cons.prems(1) and dist = Cons.prems(2) and range = Cons.prems(3)
    and lv = Cons.prems(4) and sam = Cons.prems(5) and ent = Cons.prems(6)
  have i: "i < 512" using range by simp
  have pg: "page_addr pt" using assms(4) by simp
  have c: "phys t (cell pt i) = m (cell pt i)" by (rule ent) simp
  let ?f = "\<lambda>i s. if is_user (phys s (cell pt i)) then g (baseof (phys s (cell pt i))) s else Inr s"
  have "\<exists>t1. ?f i t = Inr t1 \<and> freed (kid us m pt i) t t1"
  proof (cases "is_user (m (cell pt i))")
    case True
    let ?q = "baseof (m (cell pt i))"
    have k: "kid us m pt i = tables us m ?q" using True by (simp add: kid_def)
    have "tree_ok {} us m ?q" using assms(4) i True by simp
    moreover have "phys t x = m x" if "baseof x \<in> tables us m ?q" for x
      using that sam [of i x] k by simp
    ultimately have f: "tables us (phys t) ?q = tables us m ?q" "tree_ok {} us (phys t) ?q"
      using tree_frame [of "{}" us m ?q "phys t"] by blast+
    have "\<exists>t1. g ?q t = Inr t1 \<and> freed (tables us (phys t) ?q) t t1"
      by (rule g [OF inv f(2)]) (use lv [of i] k f(1) in simp)
    then show ?thesis using True c k f(1) by simp
  next
    case False
    then have "?f i t = Inr t" "kid us m pt i = {}" using c by (simp_all add: kid_def)
    then show ?thesis using inv by (simp add: freed_def)
  qed
  then obtain t1 where t1: "?f i t = Inr t1" "freed (kid us m pt i) t t1" by blast
  have fr: "inv t1" "live t1 = live t - kid us m pt i" "\<And>x. baseof x \<notin> kid us m pt i \<Longrightarrow> phys t1 x = phys t x"
    using t1(2) by (simp_all add: freed_def)
  have apart: "kid us m pt j \<inter> kid us m pt i = {}" "pt \<notin> kid us m pt i" if "j \<in> set is" for j
  proof -
    have "j < 512" "j \<noteq> i" using that dist range by auto
    then show "kid us m pt j \<inter> kid us m pt i = {}" "pt \<notin> kid us m pt i"
      using kid_apart(2) [OF assms(4) \<open>j < 512\<close> i] kid_apart(1) [OF assms(4) i] by blast+
  qed
  have "\<exists>t2. for_each ?f is t1 = Inr t2 \<and> freed (\<Union>i\<in>set is. kid us m pt i) t1 t2"
  proof (rule Cons.IH [OF fr(1)])
    show "distinct is" "set is \<subseteq> {..<512}" using dist range by simp_all
    show "kid us m pt j \<subseteq> live t1" if "j \<in> set is" for j
      using that lv [of j] apart [OF that] unfolding fr(2) by auto
    show "phys t1 x = m x" if "j \<in> set is" "baseof x \<in> kid us m pt j" for j x
      using that sam [of j x] apart [OF that(1)] fr(3) [of x] by auto
    show "phys t1 (cell pt j) = m (cell pt j)" if "j \<in> set is" for j
      using that ent [of j] apart [OF that] fr(3) [of "cell pt j"] pg range by auto
  qed
  then obtain t2 where t2: "for_each ?f is t1 = Inr t2" "freed (\<Union>i\<in>set is. kid us m pt i) t1 t2" by blast
  have "freed (\<Union>i\<in>set (i # is). kid us m pt i) t t2" using freed_trans [OF t1(2) t2(2)] by simp
  then show ?case using t1(1) t2(1) by auto
qed

lemma teardown_ok:
  assumes "inv s" and "tree_ok K us (phys s) pt" and "tables us (phys s) pt \<subseteq> live s" and "\<forall>u \<in> set us. lv u"
    and "1 \<le> level"
  shows "\<exists>s'. teardown pgfree us level pt s = Inr s' \<and> freed (tables us (phys s) pt) s s'"
  using assms
proof (induction us arbitrary: K pt s level)
  case Nil
  then show ?case by (simp add: freed_def)
next
  case (Cons u us)
  note inv = Cons.prems(1) and ok = Cons.prems(2) and sub = Cons.prems(3)
  have bits: "[0..<2 ^ pt_bits u] = [0..<512]" using Cons.prems(4) by (simp add: lv_def)
  have kids: "kid us (phys s) pt i \<subseteq> live s" if "i < 512" for i using kid_subset [OF that] sub by blast
  let ?f = "\<lambda>i s. if is_user (phys s (cell pt i)) then teardown pgfree us (level + 1) (baseof (phys s (cell pt i))) s else Inr s"
  have "\<exists>t. for_each ?f [0..<512] s = Inr t \<and> freed (\<Union>i\<in>set [0..<512]. kid us (phys s) pt i) s t"
  proof (rule teardown_loop [OF inv _ _ ok])
    show "\<exists>t'. teardown pgfree us (level + 1) q t = Inr t' \<and> freed (tables us (phys t) q) t t'"
      if "inv t" "tree_ok {} us (phys t) q" "tables us (phys t) q \<subseteq> live t" for q t
      using that Cons.prems(4) by (intro Cons.IH) auto
  qed (use kids in auto)
  then obtain t where t: "for_each ?f [0..<512] s = Inr t" "freed (\<Union>i<512. kid us (phys s) pt i) s t"
    by (auto simp: atLeast0LessThan)
  have "pt \<in> live t" "inv t"
    using t(2) sub kid_apart(1) [OF ok] by (auto simp: freed_def)
  then obtain s' where s': "pgfree pt t = Inr s'" "freed {pt} t s'" using pgfree_freed by blast
  have "freed (tables (u # us) (phys s) pt) s s'"
    using freed_trans [OF t(2) s'(2)] by (simp add: tables_Cons Un_commute del: tables.simps)
  moreover have "teardown pgfree (u # us) level pt s = Inr s'"
    using t(1) s'(1) Cons.prems(5) unfolding teardown.simps bits is_user_def [symmetric] by simp
  ultimately show ?case by blast
qed

lemma unprotect_ok:
  assumes "inv s" and "space_ok live outside as s"
  shows "\<exists>s'. unprotect pgfree as s = Inr s' \<and> freed (vm_pages s as) s s'"
proof -
  have ok: "is_user (phys s as)" "tree_ok {0} levels (phys s) (vm_root s as)" "vm_pages s as \<subseteq> live s"
    using assms(2) by (simp_all add: space_ok_def)
  obtain s' where s': "teardown pgfree levels 1 (vm_root s as) s = Inr s'" "freed (vm_pages s as) s s'"
    using teardown_ok [OF assms(1) ok(2) ok(3) [unfolded vm_pages_def] lv_levels, of 1] by (auto simp: vm_pages_def)
  have "unprotect pgfree as s = Inr s'"
    using s'(1) ok(1) unfolding unprotect_def all_levels by (simp add: CR3_info_def is_user_def vm_root_def)
  then show ?thesis using s'(2) by blast
qed

section \<open>A new address space\<close>

lemma protect_loop_kernel:
  "protect_loop 513 (pgtables mmu ! Suc 0) table kt 0 0x008000000000 m = Inr (m(table := m kt))"
proof -
  have "protect_loop (Suc (Suc n)) (pgtables mmu ! Suc 0) table kt 0 0x008000000000 m = Inr (m(table := m kt))" for n
    by (simp add: mmu_def indexof_def Let_def)
  moreover have "Suc (Suc 511) = 513" by simp
  ultimately show ?thesis by metis
qed

lemma protect_ok:
  assumes "inv s" and "outside as s" and "outside (kpt s) s" and "\<not> is_user (phys s (kpt s))" and "as \<noteq> kpt s"
  shows "protect pgalloc as s = Inl Panic \<and> runs_out pgalloc 1 s \<or>
    (\<exists>s' p. protect pgalloc as s = Inr (\<lparr>as_pgsize = 4096, as_area = uvm_area\<rparr>, s') \<and> inv s' \<and>
       space_ok live outside as s' \<and> kpt s' = kpt s \<and> (\<forall>x. outside x s \<longrightarrow> outside x s') \<and>
       p \<notin> live s \<and> live s' = insert p (live s) \<and> vm_pages s' as = {p} \<and> vm_root s' as = p \<and>
       phys s' p = phys s (kpt s) \<and> (\<forall>va. IN_RANGE va uvm_area \<longrightarrow> vm_entry s' as va = 0) \<and>
       (\<forall>x. baseof x \<noteq> p \<longrightarrow> x \<noteq> as \<longrightarrow> phys s' x = phys s x))"
proof -
  consider "pgallocz pgalloc s = Inl Panic" "runs_out pgalloc 1 s"
    | p s1 where "pgallocz pgalloc s = Inr (p, s1)" "inv s1" "kpt s1 = kpt s" "\<forall>x. outside x s \<longrightarrow> outside x s1 \<and> baseof x \<noteq> p"
        "page_addr p" "p \<notin> live s" "live s1 = insert p (live s)" "\<forall>i<512. phys s1 (cell p i) = 0"
        "\<forall>x. baseof x \<noteq> p \<longrightarrow> phys s1 x = phys s x"
    using pgallocz_ok [OF assms(1)] by blast
  then show ?thesis
  proof cases
    case 1
    then show ?thesis by (simp add: protect_def)
  next
    case (2 p s1)
    have pgsize: "mmu_pgsize mmu = 4096" by (simp add: mmu_def)
    let ?e = "p OR PTE_P OR PTE_U"
    let ?s = "poke_cell as ?e (s1\<lparr>phys := (phys s1)(p := phys s1 (kpt s))\<rparr>)"
    have run: "protect pgalloc as s = Inr (\<lparr>as_pgsize = 4096, as_area = uvm_area\<rparr>, ?s)"
      using 2(1,3) pgsize by (simp add: protect_def vm_areas_def protect_loop_kernel)
    have bp: "baseof p = p" using 2(5) by (simp add: page_addr_def)
    have ne: "as \<noteq> p" "baseof as \<noteq> p" "baseof (kpt s) \<noteq> p" using 2(4) assms(2,3) bp by auto
    have m: "phys ?s x = phys s x" if "baseof x \<noteq> p" "x \<noteq> as" for x
      using that 2(9) bp by auto
    have root: "phys ?s p = phys s (kpt s)" using ne 2(9) by simp
    have as: "phys ?s as = ?e" by simp
    then have r: "vm_root ?s as = p" "is_user (phys ?s as)" using table_entry(3,4) [OF 2(5)] by (simp_all add: vm_root_def)
    have z: "phys ?s (cell p i) = (if i = 0 then phys s (kpt s) else 0)" if "i < 512" for i
    proof (cases "i = 0")
      case True
      then show ?thesis using root by simp
    next
      case False
      then have "cell p i \<noteq> p" using cell_inj [OF 2(5) that, of 0] by simp
      moreover have "cell p i \<noteq> as" using baseof_cell [OF 2(5) that] ne(2) by auto
      ultimately show ?thesis using 2(8) that False by simp
    qed
    obtain l ls where l: "levels = l # ls" using levels_simp by blast
    have nk: "\<not> is_user (phys ?s (cell p i))" if "i < 512" for i unfolding z [OF that] using assms(4) by simp
    then have k: "kid ls (phys ?s) p i = {}" if "i < 512" for i using that by (simp only: kid_def if_False)
    have pages: "vm_pages ?s as = {p}"
      unfolding vm_pages_def r l tables_Cons using k by simp
    have slot: "if i \<in> {0} then \<not> is_user (phys ?s (cell p i)) else present (phys ?s (cell p i)) \<longrightarrow> is_user (phys ?s (cell p i))"
      if "i < 512" for i
      unfolding z [OF that] using assms(4) by simp
    have "p \<notin> kid ls (phys ?s) p i" "kid ls (phys ?s) p i \<inter> kid ls (phys ?s) p j = {}" if "i < 512" for i j
      unfolding k [OF that] by simp_all
    then have "tree_ok {0} levels (phys ?s) p"
      unfolding l tree_ok.simps using 2(5) nk slot by blast
    then have sp: "space_ok live outside as ?s"
      unfolding space_ok_def pages using r 2(4,7) assms(2) by simp
    have "vm_entry ?s as va = 0" if va: "IN_RANGE va uvm_area" for va
    proof -
      have i: "indexof va l = 32" using user_slot(1) [OF va] unfolding l list.sel(1) .
      have "phys ?s (cell p (indexof va l)) = 0" unfolding i using z [of 32] by simp
      then have "leaf_cell (l # ls) (phys ?s) p va = None \<or> entry (l # ls) (phys ?s) p va = 0"
        by (cases ls) (simp_all add: entry_def Let_def del: poke_cell_simps(5))
      then show ?thesis unfolding vm_entry_def r l by (auto simp: entry_def)
    qed
    then show ?thesis using run sp r(1) pages root m 2(2,3,4,6,7) by (intro disjI2 exI [of _ ?s] exI [of _ p]) simp
  qed
qed

end

end
