(* ===== verification/Vme_Kernel.thy ===== *)
theory Vme_Kernel
  imports Vme_Ops Pmm
begin

text \<open>
  Virtual memory over the kernel's own allocator: \<open>kalloc\<close> and \<open>kfree\<close> as the callbacks of
  \<open>vme_init\<close>, shown to be a source of pages, and what address spaces then promise.
\<close>

unbundle bit_operations_syntax

section \<open>The callbacks\<close>

text \<open>
  \<open>kalloc\<close> on a CPU, for the \<open>int\<close> the callback gets, and \<open>kfree\<close>, after which the allocator writes
  what it likes into the page: \<open>junk\<close> is arbitrary.
\<close>

definition kernel_pgalloc :: "nat \<Rightarrow> nat \<Rightarrow> slabs pgalloc" where
  "kernel_pgalloc cpu cpus n s =
     res_bind (kalloc cpu cpus (of_int n) (source s)) (\<lambda>(p, a). Inr (p, s\<lparr>source := a\<rparr>))"

definition kernel_pgfree :: "(addr \<Rightarrow> u64) \<Rightarrow> slabs pgfree" where
  "kernel_pgfree junk p s =
     res_bind (kfree p (source s)) (\<lambda>a.
       Inr (s\<lparr>source := a, phys := (\<lambda>x. if baseof x = p then junk x else phys s x)\<rparr>))"

text \<open>
  The pages handed out are the objects of 4096 bytes. Cells in other objects, and those below the
  heap, belong to others. \<open>os\<close> are the objects of other sizes.
\<close>

definition vm_live :: "slabs vm \<Rightarrow> addr set" where
  "vm_live s = {p. (unat p, 4096) \<in> objs (source s)}"

definition vm_outside :: "addr \<Rightarrow> slabs vm \<Rightarrow> bool" where
  "vm_outside x s \<longleftrightarrow> unat x < 65536 \<or> (\<exists>(a, n) \<in> objs (source s). n \<noteq> 4096 \<and> a \<le> unat x \<and> unat x < a + n)"

definition vm_inv :: "nat \<Rightarrow> nat \<Rightarrow> (nat \<times> nat) set \<Rightarrow> slabs vm \<Rightarrow> bool" where
  "vm_inv cpu cpus os s \<longleftrightarrow> cpu < cpus \<and> kmm_inv cpus (source s) \<and> {x \<in> objs (source s). snd x \<noteq> 4096} = os"

section \<open>They are a source of pages\<close>

lemma obj_4096:
  assumes "pmm_inv st" and "(a, 4096) \<in> objs st"
  shows "4096 dvd a" and "65536 \<le> a"
proof -
  have ok: "pages_ok st" "pages_slab_ok st" using assms(1) by (simp_all add: pmm_inv_def page_inv_def)
  have "(a, 4096) \<notin> page_objs st" by (auto simp: page_objs_def)
  then have "(a, 4096) \<in> slab_objs st" using assms(2) by (simp add: objs_def)
  then show "4096 dvd a" by (auto simp: slab_objs_def slab_objs_at_def page_chunks_def)
  have "unat (G_start st) \<le> a" using objs_inside_heap [OF assms] by simp
  moreover have "65536 \<le> unat (G_start st)" using ok(1) by (auto simp: pages_ok_def dvd_imp_le unat_gt_0)
  ultimately show "65536 \<le> a" by simp
qed

lemma baseof_bounds: "unat (baseof x) \<le> unat x" "unat x < unat (baseof x) + 4096"
proof -
  have "unat (baseof x) = unat x div 4096 * 4096" by (simp add: baseof_mask unat_and_not_mask)
  then show "unat (baseof x) \<le> unat x" "unat x < unat (baseof x) + 4096"
    using div_mult_mod_eq [of "unat x" 4096] mod_less_divisor [of 4096 "unat x"] by linarith+
qed

lemma obj_size_page: "obj_size 4096 = 4096"
  by (simp add: obj_size_def nextPower_2_def)

lemma outside_not_live:
  assumes "kmm_inv cpus st" and "(unat p, 4096) \<in> objs st"
    and "unat x < 65536 \<or> (\<exists>(a, n) \<in> objs st. n \<noteq> 4096 \<and> a \<le> unat x \<and> unat x < a + n)"
  shows "baseof x \<noteq> p"
proof
  assume p: "baseof x = p"
  have inv: "pmm_inv st" "pages_ok st" "pages_slab_ok st" using assms(1) by (simp_all add: kmm_inv_def pmm_inv_def page_inv_def)
  have b: "unat p \<le> unat x" "unat x < unat p + 4096" using baseof_bounds [of x] unfolding p by blast+
  have "\<not> unat x < 65536" using obj_4096(2) [OF inv(1) assms(2)] b(1) by linarith
  then obtain a n where an: "(a, n) \<in> objs st" "n \<noteq> 4096" "a \<le> unat x" "unat x < a + n" using assms(3) by blast
  have "(a, n) \<noteq> (unat p, 4096)" using an(2) by simp
  then have "apart (a, n) (unat p, 4096)" by (rule objs_apart [OF inv(2,3) an(1) assms(2)])
  then show False using an(3,4) b by (simp add: apart_def)
qed

interpretation kvm: page_source "vm_inv cpu cpus os" vm_live vm_outside "kernel_pgalloc cpu cpus" "kernel_pgfree junk" for cpu cpus os junk
proof (unfold_locales, goal_cases)
  case (1 s)
  have inv: "kmm_inv cpus (source s)" "{x \<in> objs (source s). snd x \<noteq> 4096} = os" "cpu < cpus" using 1(1) by (simp_all add: vm_inv_def)
  have le: "4096 \<le> MAX_ALLOC" by (simp add: MAX_ALLOC_def)
  from kmm_get [OF inv(1,3) le, unfolded obj_size_page] obtain p a where k: "kalloc cpu cpus 4096 (source s) = Inr (p, a)" "kmm_inv cpus a"
      "if p = 0 then objs a = objs (source s)
       else (unat p, 4096) \<notin> objs (source s) \<and> objs a = insert (unat p, 4096) (objs (source s))"
    by (elim exE conjE)
  let ?s = "s\<lparr>source := a\<rparr>"
  have run: "kernel_pgalloc cpu cpus 4096 s = Inr (p, ?s)" using k(1) by (simp add: kernel_pgalloc_def)
  have inv': "vm_inv cpu cpus os ?s" using k(2,3) inv(2,3) by (auto simp: vm_inv_def split: if_splits)
  have out: "\<forall>x. vm_outside x s \<longrightarrow> vm_outside x ?s" using k(3) by (auto simp: vm_outside_def split: if_splits)
  show ?case
  proof (cases "p = 0")
    case True
    then show ?thesis using run inv' out k(3) by (auto simp: vm_live_def)
  next
    case False
    have new: "(unat p, 4096) \<in> objs a" using k(3) False by simp
    have "page_addr p" using obj_4096(1) [OF _ new] k(2) by (simp add: page_addr_dvd kmm_inv_def)
    moreover have "\<forall>x. vm_outside x s \<longrightarrow> baseof x \<noteq> p"
    proof (intro allI impI)
      fix x assume "vm_outside x s"
      then have "vm_outside x ?s" using out by blast
      then show "baseof x \<noteq> p" using outside_not_live [OF k(2) new] by (simp add: vm_outside_def)
    qed
    moreover have "p \<notin> vm_live s" "vm_live ?s = insert p (vm_live s)"
      using k(3) False by (auto simp: vm_live_def dest: unsigned_word_eqI)
    ultimately show ?thesis using run inv' out False by (intro exI [of _ p] exI [of _ ?s]) simp
  qed
next
  case (2 s p)
  have inv: "kmm_inv cpus (source s)" "{x \<in> objs (source s). snd x \<noteq> 4096} = os" "cpu < cpus" using 2(1) by (simp_all add: vm_inv_def)
  obtain a where k: "kfree p (source s) = Inr a" "kmm_inv cpus a" "objs a = objs (source s) - {(unat p, 4096)}"
    using kmm_put [OF inv(1), of p 4096] 2(2) by (auto simp: vm_live_def)
  let ?s = "s\<lparr>source := a, phys := (\<lambda>x. if baseof x = p then junk x else phys s x)\<rparr>"
  have "kernel_pgfree junk p s = Inr ?s" using k(1) by (simp add: kernel_pgfree_def)
  moreover have "{x \<in> objs a. snd x \<noteq> 4096} = {x \<in> objs (source s). snd x \<noteq> 4096}" unfolding k(3) by auto
  then have "vm_inv cpu cpus os ?s" using k(2) inv(2,3) by (simp add: vm_inv_def)
  moreover have "\<forall>x. vm_outside x s \<longrightarrow> vm_outside x ?s"
    unfolding vm_outside_def by (simp add: k(3)) blast
  moreover have "vm_live ?s = vm_live s - {p}" by (auto simp: vm_live_def k(3) dest: unsigned_word_eqI)
  ultimately show ?case by simp
next
  case (3 s x)
  have "kmm_inv cpus (source s)" using 3(1) by (simp add: vm_inv_def)
  then show ?case using 3(2) outside_not_live [of cpus "source s" "baseof x" x] by (auto simp: vm_live_def vm_outside_def)
qed (simp_all add: vm_inv_def vm_live_def vm_outside_def)

section \<open>Running out of pages\<close>

text \<open>The 64 KiB pages of the heap that no one has. A page for a table takes at most one of them.\<close>

definition free_pages :: "slabs \<Rightarrow> nat set" where
  "free_pages st = {i. i < n_meta st \<and> \<not> is_alloc (Meta st i)}"

lemma finite_free_pages [simp]: "finite (free_pages st)"
  by (simp add: free_pages_def)

lemma kalloc_page:
  assumes "kmm_inv cpus st" and "cpu < cpus"
  obtains p st' where "kalloc cpu cpus 4096 st = Inr (p, st')" and "p = 0 \<Longrightarrow> free_pages st = {}"
    and "kmm_inv cpus st'" and "card (free_pages st) \<le> card (free_pages st') + 1"
proof -
  have inv: "pmm_inv st" "n_slab st = cpus" "n_meta st + 255 \<le> META_SZ" using assms(1) by (simp_all add: kmm_inv_def)
  have "kalloc cpu cpus 4096 st = S_alloc cpu (n_slab st) (2 ^ (8 + 4)) st"
    by (simp add: kalloc_def MAX_ALLOC_def nextPower_2_def inv(2) Let_def)
  moreover from S_alloc_spec [OF inv(1), of cpu 8] assms(2) inv(2) obtain p st' i where
      a: "S_alloc cpu (n_slab st) (2 ^ (8 + 4)) st = Inr (p, st')" "alloc_result st (2 ^ (8 + 4)) p st'"
        "p = 0 \<longrightarrow> (\<forall>i<n_meta st. is_alloc (Meta st i))" "\<forall>l. l \<noteq> i \<longrightarrow> is_alloc (Meta st' l) = is_alloc (Meta st l)"
    by (auto simp: SLAB_SIZE_def)
  ultimately have run: "kalloc cpu cpus 4096 st = Inr (p, st')" by simp
  have r: "n_meta st' = n_meta st" "kmm_inv cpus st'"
    using a(2) inv by (auto simp: alloc_result_def kmm_inv_def split: if_splits)
  have "free_pages st \<subseteq> insert i (free_pages st')" using a(4) r(1) by (auto simp: free_pages_def)
  then have "card (free_pages st) \<le> card (insert i (free_pages st'))" by (intro card_mono) simp_all
  also have "\<dots> \<le> card (free_pages st') + 1" by (simp add: card_insert_le_m1)
  finally have "card (free_pages st) \<le> card (free_pages st') + 1" .
  moreover have "free_pages st = {}" if "p = 0" using that a(3) by (auto simp: free_pages_def)
  ultimately show thesis using that run r(2) by blast
qed

lemma grows_pages:
  assumes "grows (kernel_pgalloc cpu cpus) n s t" and "kmm_inv cpus (source s)" and "cpu < cpus"
  shows "kmm_inv cpus (source t) \<and> card (free_pages (source s)) \<le> card (free_pages (source t)) + n"
  using assms
proof (induction rule: grows.induct)
  case (none s)
  then show ?case by simp
next
  case (page n s t p t' m)
  have t: "kmm_inv cpus (source t)" "card (free_pages (source s)) \<le> card (free_pages (source t)) + n"
    using page.IH page.prems by blast+
  obtain q a where q: "kalloc cpu cpus 4096 (source t) = Inr (q, a)" "kmm_inv cpus a"
      "card (free_pages (source t)) \<le> card (free_pages a) + 1"
    using kalloc_page [OF t(1) page.prems(2)] by metis
  have "source (t'\<lparr>phys := m\<rparr>) = a" using page.hyps(2) q(1) by (auto simp: kernel_pgalloc_def)
  then show ?case using q(2,3) t(2) by simp
qed

lemma runs_out_pages:
  assumes "runs_out (kernel_pgalloc cpu cpus) n s" and "kmm_inv cpus (source s)" and "cpu < cpus"
  shows "card (free_pages (source s)) < n"
proof -
  obtain k t t' where k: "k < n" "grows (kernel_pgalloc cpu cpus) k s t" "kernel_pgalloc cpu cpus 4096 t = Inr (0, t')"
    using assms(1) by (auto simp: runs_out_def)
  have t: "kmm_inv cpus (source t)" "card (free_pages (source s)) \<le> card (free_pages (source t)) + k"
    using grows_pages [OF k(2) assms(2,3)] by blast+
  obtain q a where q: "kalloc cpu cpus 4096 (source t) = Inr (q, a)" "q = 0 \<Longrightarrow> free_pages (source t) = {}"
    using kalloc_page [OF t(1) assms(3)] by metis
  have "q = 0" using k(3) q(1) by (simp add: kernel_pgalloc_def)
  then show ?thesis using q(2) t(2) k(1) by simp
qed

section \<open>A program of maps\<close>

text \<open>What a list of calls of \<open>map\<close> does to the entries of the user pages, and the calls run one by one.\<close>

definition map_entry :: "addr \<times> addr \<times> u32 \<Rightarrow> (addr \<Rightarrow> u64) \<Rightarrow> addr \<Rightarrow> u64" where
  "map_entry = (\<lambda>(va, pa, prot) f. f(va := if prot = MMAP_NONE then 0 else pte_of pa prot))"

definition run_maps :: "'a pgalloc \<Rightarrow> addr \<Rightarrow> (addr \<times> addr \<times> u32) list \<Rightarrow> 'a vm \<Rightarrow> 'a vm res" where
  "run_maps pgalloc as = for_each (\<lambda>(va, pa, prot). vme_map pgalloc as va pa prot)"

text \<open>What every state of the program keeps, with the pages \<open>base\<close> the address space did not take.\<close>

definition in_life :: "addr \<Rightarrow> addr set \<Rightarrow> phys_mem \<Rightarrow> slabs vm \<Rightarrow> bool" where
  "in_life as base m s \<longleftrightarrow> space_ok vm_live vm_outside as s \<and> vm_live s = base \<union> vm_pages s as \<and>
     base \<inter> vm_pages s as = {} \<and> (\<forall>x. baseof x \<in> base \<longrightarrow> phys s x = m x)"

lemma run_maps_ok:
  assumes "vm_inv cpu cpus os s" and "in_life as base m s" and "run_maps (kernel_pgalloc cpu cpus) as reqs s = Inr s'"
    and "\<And>va. user_page va \<Longrightarrow> vm_entry s as va = f va"
  shows "vm_inv cpu cpus os s' \<and> in_life as base m s' \<and> (\<forall>va. user_page va \<longrightarrow> vm_entry s' as va = fold map_entry reqs f va)"
  using assms
proof (induction reqs arbitrary: s f)
  case Nil
  then show ?case by (simp add: run_maps_def)
next
  case (Cons c reqs)
  obtain va pa prot where c: "c = (va, pa, prot)" by (cases c)
  let ?map = "vme_map (kernel_pgalloc cpu cpus) as va pa prot s"
  have life: "space_ok vm_live vm_outside as s" "vm_live s = base \<union> vm_pages s as" "base \<inter> vm_pages s as = {}"
    "\<And>x. baseof x \<in> base \<Longrightarrow> phys s x = m x"
    using Cons.prems(2) by (auto simp: in_life_def)
  obtain s1 where s1: "?map = Inr s1" "run_maps (kernel_pgalloc cpu cpus) as reqs s1 = Inr s'"
    using Cons.prems(3) by (auto simp: run_maps_def c res_bind_eq_Inr)
  note mp = kvm.vme_map_ok [OF Cons.prems(1) life(1)]
  have ok: "user_page va" "page_addr pa" using mp(1) [of va pa prot] s1(1) by auto
  have e: "vm_inv cpu cpus os s1 \<and> space_step vm_live vm_outside as va (if prot = MMAP_NONE then 0 else pte_of pa prot) s s1"
  proof (cases "(prot = MMAP_NONE) = present (vm_entry s as va)")
    case True
    then show ?thesis using mp(2) [OF ok, of prot] unfolding s1(1) by simp
  next
    case False
    then show ?thesis using mp(2) [OF ok, of prot] unfolding s1(1) by simp
  qed
  then have st: "space_ok vm_live vm_outside as s1" "vm_live s \<subseteq> vm_live s1"
    "vm_pages s1 as = vm_pages s as \<union> (vm_live s1 - vm_live s)"
    "\<And>va'. user_page va' \<Longrightarrow> vm_entry s1 as va' = (if va' = va then if prot = MMAP_NONE then 0 else pte_of pa prot else vm_entry s as va')"
    "\<And>x. baseof x \<notin> vm_pages s1 as \<Longrightarrow> phys s1 x = phys s x"
    unfolding space_step_def by blast+
  have "in_life as base m s1"
  proof -
    have "base \<inter> vm_pages s1 as = {}" "vm_live s1 = base \<union> vm_pages s1 as"
      using st(2,3) life(2,3) by blast+
    moreover have "phys s1 x = m x" if "baseof x \<in> base" for x
      using st(5) [of x] life(4) [OF that] that calculation(1) by auto
    ultimately show ?thesis using st(1) by (simp add: in_life_def)
  qed
  moreover have "vm_entry s1 as va' = map_entry c f va'" if "user_page va'" for va'
    using st(4) [OF that] Cons.prems(4) [OF that] by (simp add: map_entry_def c)
  ultimately show ?case
    using Cons.IH [of s1 "map_entry c f"] e s1(2) by simp
qed

section \<open>Taking and giving back\<close>

lemma objs_from_live:
  assumes "vm_inv cpu cpus os s" and "vm_inv cpu cpus os t" and "vm_live s = vm_live t"
  shows "objs (source s) = objs (source t)"
proof -
  have sub: "objs (source s) \<subseteq> objs (source t)"
    if "vm_inv cpu cpus os s" "vm_inv cpu cpus os t" "vm_live s = vm_live t" for s t :: "slabs vm"
  proof
    fix x assume x: "x \<in> objs (source s)"
    show "x \<in> objs (source t)"
    proof (cases "snd x = 4096")
      case False
      then show ?thesis using x that(1,2) by (auto simp: vm_inv_def)
    next
      case True
      have inv: "pmm_inv (source s)" "pages_ok (source s)"
        using that(1) by (simp_all add: vm_inv_def kmm_inv_def pmm_inv_def page_inv_def)
      have a: "(fst x, 4096) \<in> objs (source s)" using x True by (metis prod.collapse)
      have "fst x + 4096 \<le> unat (heap_end (source s))" using objs_inside_heap [OF inv(1) a] by simp
      also have "\<dots> \<le> 2 ^ 63" using inv(2) by (simp add: pages_ok_def)
      finally have "unat (of_nat (fst x) :: addr) = fst x" by (intro unat_of_nat_small) simp
      then have "of_nat (fst x) \<in> vm_live s" using a by (simp add: vm_live_def)
      then show ?thesis using that(3) \<open>unat (of_nat (fst x) :: addr) = fst x\<close> True
        by (metis (mono_tags, lifting) mem_Collect_eq prod.collapse vm_live_def)
    qed
  qed
  show ?thesis using sub [OF assms] sub [OF assms(2,1) assms(3) [symmetric]] by blast
qed

section \<open>Properties\<close>

text \<open>
  C11: \<open>map\<close> with \<open>kalloc\<close> as its source of pages. In an address space whose tables are well formed
  it panics exactly on an address outside the user area or not at a page boundary, on mapping a
  mapped page and unmapping an unmapped one, or when fewer than three pages of the heap are free and
  a table cannot be had. Otherwise the entry the hardware finds for the page is the new one, the
  entry of every other user page is unchanged, the address space stays well formed, the pages it took
  are those of its new tables, and neither a page held before that is no table of its own nor a cell
  of another object changes.
\<close>

theorem vme_map_correct:
  assumes "cpu < cpus" and "kmm_inv cpus (source s)" and "space_ok vm_live vm_outside as s"
  shows "if \<not> (user_page va \<and> page_addr pa) \<or> (prot = MMAP_NONE) \<noteq> present (vm_entry s as va)
    then vme_map (kernel_pgalloc cpu cpus) as va pa prot s = Inl Panic
    else vme_map (kernel_pgalloc cpu cpus) as va pa prot s = Inl Panic \<and> card (free_pages (source s)) < 3 \<or>
      (\<exists>s'. vme_map (kernel_pgalloc cpu cpus) as va pa prot s = Inr s' \<and> kmm_inv cpus (source s') \<and>
         space_ok vm_live vm_outside as s' \<and>
         (\<forall>va'. user_page va' \<longrightarrow> vm_entry s' as va' =
            (if va' = va then if prot = MMAP_NONE then 0 else pte_of pa prot else vm_entry s as va')) \<and>
         vm_live s \<subseteq> vm_live s' \<and> vm_pages s' as = vm_pages s as \<union> (vm_live s' - vm_live s) \<and>
         {x \<in> objs (source s'). snd x \<noteq> 4096} = {x \<in> objs (source s). snd x \<noteq> 4096} \<and>
         (\<forall>x. baseof x \<in> vm_live s - vm_pages s as \<or> vm_outside x s \<longrightarrow> phys s' x = phys s x))"
proof -
  let ?os = "{x \<in> objs (source s). snd x \<noteq> 4096}"
  let ?map = "vme_map (kernel_pgalloc cpu cpus) as va pa prot s" and ?e = "if prot = MMAP_NONE then 0 else pte_of pa prot"
  have inv: "vm_inv cpu cpus ?os s" using assms(1,2) by (simp add: vm_inv_def)
  note mp = kvm.vme_map_ok [OF inv assms(3)]
  show ?thesis
  proof (cases "\<not> (user_page va \<and> page_addr pa) \<or> (prot = MMAP_NONE) \<noteq> present (vm_entry s as va)")
    case True
    then have "?map = Inl Panic" using mp(1) [of va pa prot] mp(2) [of va pa prot] by auto
    then show ?thesis using True by simp
  next
    case False
    then have ok: "user_page va" "page_addr pa" "(prot = MMAP_NONE) = present (vm_entry s as va)" by simp_all
    consider "?map = Inl Panic" "runs_out (kernel_pgalloc cpu cpus) 3 s"
      | s' where "?map = Inr s'" "vm_inv cpu cpus ?os s'" "space_step vm_live vm_outside as va ?e s s'"
      using mp(2) [OF ok(1,2), of prot] ok(3) by auto
    then show ?thesis
    proof cases
      case 1
      then show ?thesis using False runs_out_pages [OF 1(2) assms(2,1)] by simp
    next
      case (2 s')
      have st: "space_ok vm_live vm_outside as s'" "vm_live s \<subseteq> vm_live s'" "\<And>x. vm_outside x s \<Longrightarrow> vm_outside x s'"
        "vm_pages s' as = vm_pages s as \<union> (vm_live s' - vm_live s)"
        "\<forall>va'. user_page va' \<longrightarrow> vm_entry s' as va' = (if va' = va then ?e else vm_entry s as va')"
        "\<And>x. baseof x \<notin> vm_pages s' as \<Longrightarrow> phys s' x = phys s x"
        using 2(3) unfolding space_step_def by blast+
      have "phys s' x = phys s x" if x: "baseof x \<in> vm_live s - vm_pages s as \<or> vm_outside x s" for x
      proof (rule st(6))
        have "vm_pages s' as \<subseteq> vm_live s'" using st(1) by (simp add: space_ok_def)
        then show "baseof x \<notin> vm_pages s' as"
          using x kvm.outside_live [OF 2(2) st(3)] st(4) by blast
      qed
      moreover have "kmm_inv cpus (source s')" "{x \<in> objs (source s'). snd x \<noteq> 4096} = ?os"
        using 2(2) by (simp_all add: vm_inv_def)
      ultimately show ?thesis using False 2(1) st(1,2,4,5) by auto
    qed
  qed
qed

text \<open>
  C5: the life of an address space. \<open>protect\<close> makes it, with no user page mapped and the kernel's
  slot of the root table shared; any calls of \<open>map\<close> that do not panic, mapping and unmapping, leave
  the entries of the user pages as the same updates of a function from pages to entries would; and
  \<open>unprotect\<close> then ends without a fault and leaves exactly the objects that were held before
  \<open>protect\<close>: every table is given back once and nothing else is. No page held before is changed.
\<close>

theorem address_space_life:
  assumes "cpu < cpus" and "kmm_inv cpus (source s)" and "vm_outside as s" and "vm_outside (kpt s) s" and "as \<noteq> kpt s"
    and "\<not> is_user (phys s (kpt s))" and "protect (kernel_pgalloc cpu cpus) as s = Inr (a, s1)"
    and "run_maps (kernel_pgalloc cpu cpus) as reqs s1 = Inr s2"
  shows "(\<forall>va. user_page va \<longrightarrow> vm_entry s1 as va = 0) \<and> phys s1 (cell (vm_root s1 as) 0) = phys s (cell (kpt s) 0) \<and>
    (\<forall>va. user_page va \<longrightarrow> vm_entry s2 as va = fold map_entry reqs (\<lambda>_. 0) va) \<and>
    (\<exists>s3. unprotect (kernel_pgfree junk) as s2 = Inr s3 \<and> kmm_inv cpus (source s3) \<and> objs (source s3) = objs (source s) \<and>
       (\<forall>x. baseof x \<in> vm_live s \<longrightarrow> phys s3 x = phys s x))"
proof -
  let ?os = "{x \<in> objs (source s). snd x \<noteq> 4096}"
  have inv: "vm_inv cpu cpus ?os s" using assms(1,2) by (simp add: vm_inv_def)
  obtain p where p: "vm_inv cpu cpus ?os s1" "space_ok vm_live vm_outside as s1" "p \<notin> vm_live s" "vm_live s1 = insert p (vm_live s)"
      "vm_pages s1 as = {p}" "vm_root s1 as = p" "phys s1 p = phys s (kpt s)"
      "\<And>va. IN_RANGE va uvm_area \<Longrightarrow> vm_entry s1 as va = 0" "\<And>x. baseof x \<noteq> p \<Longrightarrow> x \<noteq> as \<Longrightarrow> phys s1 x = phys s x"
    using kvm.protect_ok [OF inv assms(3,4,6,5)] assms(7) by auto
  have as: "baseof as \<notin> vm_live s" by (rule kvm.outside_live [OF inv assms(3)])
  have "phys s1 x = phys s x" if "baseof x \<in> vm_live s" for x
    using that p(3) as by (intro p(9)) auto
  then have "in_life as (vm_live s) (phys s) s1"
    unfolding in_life_def using p(2,3,4,5) by simp
  moreover have e: "\<forall>va. user_page va \<longrightarrow> vm_entry s1 as va = 0" using p(8) by (simp add: user_page_def)
  ultimately have run: "vm_inv cpu cpus ?os s2" "in_life as (vm_live s) (phys s) s2"
    "\<forall>va. user_page va \<longrightarrow> vm_entry s2 as va = fold map_entry reqs (\<lambda>_. 0) va"
    using run_maps_ok [OF p(1) _ assms(8), of "vm_live s" "phys s" "\<lambda>_. 0"] by blast+
  have life: "space_ok vm_live vm_outside as s2" "vm_live s2 = vm_live s \<union> vm_pages s2 as" "vm_live s \<inter> vm_pages s2 as = {}"
    "\<And>x. baseof x \<in> vm_live s \<Longrightarrow> phys s2 x = phys s x"
    using run(2) unfolding in_life_def by blast+
  obtain s3 where s3: "unprotect (kernel_pgfree junk) as s2 = Inr s3" "kvm.freed cpu cpus ?os (vm_pages s2 as) s2 s3"
    using kvm.unprotect_ok [OF run(1) life(1), of junk] by blast
  have fr: "vm_inv cpu cpus ?os s3" "vm_live s3 = vm_live s2 - vm_pages s2 as"
    "\<And>x. baseof x \<notin> vm_pages s2 as \<Longrightarrow> phys s3 x = phys s2 x"
    using s3(2) unfolding kvm.freed_def by blast+
  have "objs (source s3) = objs (source s)"
    by (rule objs_from_live [OF fr(1) inv]) (use fr(2) life(2,3) in blast)
  moreover have "phys s3 x = phys s x" if "baseof x \<in> vm_live s" for x
    using fr(3) [of x] life(3,4) that by auto
  ultimately show ?thesis
    using e run(3) s3(1) fr(1) p(6,7) by (auto simp: vm_inv_def)
qed

text \<open>
  The machine of the witnesses: the booted kernel of one CPU with a heap of 28 pages, the boot page
  table at \<open>PML4_ADDR\<close>, and an \<open>AddrSpace\<close> in the kernel's data below the heap.
\<close>

definition ex_vm :: "slabs \<Rightarrow> slabs vm" where
  "ex_vm st = \<lparr>phys = (\<lambda>x. if x = PML4_ADDR then 0x2003 else 0), source = st, kpt = PML4_ADDR, cr0 = CR0_PG, cr3 = PML4_ADDR\<rparr>"

lemma ex_vm_ok:
  "vm_outside 0x8000 (ex_vm st)" "vm_outside (kpt (ex_vm st)) (ex_vm st)" "0x8000 \<noteq> kpt (ex_vm st)"
  "\<not> is_user (phys (ex_vm st) (kpt (ex_vm st)))"
  by (simp_all add: ex_vm_def vm_outside_def PML4_ADDR_def is_user_def PTE_P_def PTE_U_def)

lemma protect_pages:
  assumes "protect (kernel_pgalloc cpu cpus) as s = Inr (a, s1)" and "kmm_inv cpus (source s)" and "cpu < cpus"
  shows "card (free_pages (source s)) \<le> card (free_pages (source s1)) + 1"
proof -
  obtain p t m where t: "pgallocz (kernel_pgalloc cpu cpus) s = Inr (p, t)" "source s1 = source (t\<lparr>phys := m\<rparr>)"
    using assms(1) by (auto simp: protect_def res_bind_eq_Inr poke_cell_def)
  show ?thesis using grows_pages [OF pgallocz_grows [OF t(1)] assms(2,3)] unfolding t(2) by blast
qed

text \<open>An address space made, and a page mapped in it.\<close>

lemma ex_space:
  obtains s a s1 s2 where "vm_inv 0 1 {} s" and "objs (source s) = {}" and "s = ex_vm (source s)"
    and "protect (kernel_pgalloc 0 1) 0x8000 s = Inr (a, s1)" and "vm_inv 0 1 {} s1" and "space_ok vm_live vm_outside 0x8000 s1"
    and "vm_entry s1 0x8000 0x100000000000 = 0" and "3 \<le> card (free_pages (source s1))"
    and "vme_map (kernel_pgalloc 0 1) 0x8000 0x100000000000 0x5000 1 s1 = Inr s2"
proof -
  let ?boot = "ex_kboot\<lparr>heap_end := 0x2F0000\<rparr>"
  have b: "first_page (unat (heap_start ?boot)) \<le> unat (heap_end ?boot)" "unat (heap_end ?boot) \<le> 2 ^ 63"
    "28 = (unat (heap_end ?boot) - first_page (unat (heap_start ?boot))) div 65536" "28 < META_SZ"
    "1 \<le> SLAB_CPUS" "SLAB_SIZE * 1 \<le> 28"
    using ex_first_page by (simp_all add: ex_kboot_def META_SZ_val SLAB_CPUS_def SLAB_SIZE_def)
  obtain st where st: "pmm_inv st" "objs st = {}" "n_slab st = 1" "n_meta st = 28"
      "\<forall>l<28. is_alloc (Meta st l) \<longleftrightarrow> l < SLAB_SIZE * 1"
    using pmm_init_ok [OF b] by blast
  have "free_pages st = {9..<28}" using st(4,5) by (auto simp: free_pages_def SLAB_SIZE_def)
  then have c: "card (free_pages st) = 19" by simp
  let ?s = "ex_vm st"
  have k: "kmm_inv 1 (source ?s)" using st by (simp add: kmm_inv_def ex_vm_def META_SZ_val)
  then have inv: "vm_inv 0 1 {} ?s" using st(2) by (simp add: vm_inv_def ex_vm_def)
  have no: "\<not> runs_out (kernel_pgalloc 0 1) 1 ?s"
    using runs_out_pages [OF _ k, of 0 1] c by (auto simp: ex_vm_def)
  obtain a s1 where s1: "protect (kernel_pgalloc 0 1) 0x8000 ?s = Inr (a, s1)" "vm_inv 0 1 {} s1"
      "space_ok vm_live vm_outside 0x8000 s1" "\<And>va. IN_RANGE va uvm_area \<Longrightarrow> vm_entry s1 0x8000 va = 0"
    using kvm.protect_ok [OF inv ex_vm_ok(1,2,4,3)] no by blast
  have va: "user_page 0x100000000000" "page_addr 0x5000"
    by (simp_all add: user_page_def IN_RANGE_def uvm_area_def vm_areas_def page_addr_dvd)
  then have e: "vm_entry s1 0x8000 0x100000000000 = 0" using s1(4) by (simp add: user_page_def)
  have c1: "18 \<le> card (free_pages (source s1))" using protect_pages [OF s1(1) k] c by (simp add: ex_vm_def)
  have k1: "kmm_inv 1 (source s1)" using s1(2) by (simp add: vm_inv_def)
  have "\<not> runs_out (kernel_pgalloc 0 1) 3 s1" using runs_out_pages [OF _ k1, of 0 3] c1 by auto
  then obtain s2 where s2: "vme_map (kernel_pgalloc 0 1) 0x8000 0x100000000000 0x5000 1 s1 = Inr s2"
    using kvm.vme_map_ok(2) [OF s1(2,3) va, of 1] e by (auto simp: MMAP_NONE_def)
  show thesis by (rule that [OF inv _ _ s1(1,2,3) e _ s2]) (use st(2) c1 in \<open>simp_all add: ex_vm_def\<close>)
qed

theorem vme_map_correct_witness:
  "\<exists>s s'. space_ok vm_live vm_outside 0x8000 s \<and> vme_map (kernel_pgalloc 0 1) 0x8000 0x100000000000 0x5000 1 s = Inr s' \<and>
     vm_entry s' 0x8000 0x100000000000 = 0x5005"
proof -
  obtain s s2 where s: "vm_inv 0 1 {} s" "space_ok vm_live vm_outside 0x8000 s" "vm_entry s 0x8000 0x100000000000 = 0"
      "vme_map (kernel_pgalloc 0 1) 0x8000 0x100000000000 0x5000 1 s = Inr s2"
    using ex_space by metis
  have k: "kmm_inv 1 (source s)" using s(1) by (simp add: vm_inv_def)
  have va: "user_page 0x100000000000" "page_addr 0x5000"
    by (simp_all add: user_page_def IN_RANGE_def uvm_area_def vm_areas_def page_addr_dvd)
  have "vm_entry s2 0x8000 0x100000000000 = pte_of 0x5000 1"
    using vme_map_correct [OF _ k s(2), of 0 "0x100000000000" "0x5000" 1] va s(3,4) by (auto simp: MMAP_NONE_def)
  also have "pte_of 0x5000 1 = 0x5005" by (simp add: pte_of_def PTE_P_def PTE_U_def MMAP_WRITE_def)
  finally show ?thesis using s(2,4) by blast
qed

theorem address_space_life_witness:
  "\<exists>s a s1 s2 s3. protect (kernel_pgalloc 0 1) 0x8000 s = Inr (a, s1) \<and>
     run_maps (kernel_pgalloc 0 1) 0x8000 [(0x100000000000, 0x5000, 1)] s1 = Inr s2 \<and>
     vm_entry s2 0x8000 0x100000000000 = 0x5005 \<and>
     unprotect (kernel_pgfree (\<lambda>_. 7)) 0x8000 s2 = Inr s3 \<and> objs (source s3) = {}"
proof -
  obtain s a s1 s2 where s: "vm_inv 0 1 {} s" "objs (source s) = {}" "s = ex_vm (source s)"
      "protect (kernel_pgalloc 0 1) 0x8000 s = Inr (a, s1)"
      "vme_map (kernel_pgalloc 0 1) 0x8000 0x100000000000 0x5000 1 s1 = Inr s2"
    by (rule ex_space)
  have k: "kmm_inv 1 (source s)" using s(1) by (simp add: vm_inv_def)
  have run: "run_maps (kernel_pgalloc 0 1) 0x8000 [(0x100000000000, 0x5000, 1)] s1 = Inr s2"
    using s(5) by (simp add: run_maps_def)
  have ok: "vm_outside 0x8000 s" "vm_outside (kpt s) s" "0x8000 \<noteq> kpt s" "\<not> is_user (phys s (kpt s))"
    using ex_vm_ok [of "source s"] s(3) by simp_all
  have va: "user_page 0x100000000000"
    by (simp add: user_page_def IN_RANGE_def uvm_area_def vm_areas_def page_addr_dvd)
  note life = address_space_life [OF _ k ok s(4) run, of "\<lambda>_. 7"]
  have "vm_entry s2 0x8000 0x100000000000 = pte_of 0x5000 1"
    using life va by (simp add: map_entry_def MMAP_NONE_def)
  also have "pte_of 0x5000 1 = 0x5005" by (simp add: pte_of_def PTE_P_def PTE_U_def MMAP_WRITE_def)
  finally have "vm_entry s2 0x8000 0x100000000000 = 0x5005" .
  moreover obtain s3 where "unprotect (kernel_pgfree (\<lambda>_. 7)) 0x8000 s2 = Inr s3" "objs (source s3) = {}"
    using life s(2) by auto
  ultimately show ?thesis using s(4) run by blast
qed

end
