(* ===== verification/Disk_Spec.thy ===== *)
theory Disk_Spec
  imports Bytes
begin

text \<open>
  The disk registers of \<open>am/include/amdev.h\<close> as the kernel uses them, and the contract of a block
  device: blocks of a fixed size that are read and replaced one at a time.
\<close>

text \<open>Replacing part of a byte array.\<close>

definition patch :: "nat \<Rightarrow> u8 list \<Rightarrow> u8 list \<Rightarrow> u8 list" where
  "patch off new xs = take off xs @ new @ drop (off + length new) xs"

lemma length_patch [simp]: "off + length new \<le> length xs \<Longrightarrow> length (patch off new xs) = length xs"
  by (simp add: patch_def)

lemma patch_nth:
  "off + length new \<le> length xs \<Longrightarrow> i < length xs \<Longrightarrow>
    patch off new xs ! i = (if off \<le> i \<and> i < off + length new then new ! (i - off) else xs ! i)"
  by (auto simp: patch_def nth_append)

lemma patch_empty [simp]: "patch off [] xs = xs"
  by (simp add: patch_def)

lemma read_patch: "off + length new \<le> length xs \<Longrightarrow> take (length new) (drop off (patch off new xs)) = new"
  by (simp add: patch_def)

text \<open>Two pieces one behind the other are one.\<close>

lemma patch_patch:
  assumes "off + length a + length b \<le> length xs"
  shows "patch (off + length a) b (patch off a xs) = patch off (a @ b) xs"
  using assms by (intro nth_equalityI) (auto simp: patch_nth nth_append)

text \<open>A piece within a block, put there by replacing the whole block.\<close>

lemma patch_block:
  assumes "i + length new \<le> sz" and "off + sz \<le> length xs"
  shows "patch off (patch i new (take sz (drop off xs))) xs = patch (off + i) new xs"
  using assms by (intro nth_equalityI) (auto simp: patch_nth)

lemma overwrite_patch:
  "off + length new \<le> length bs \<Longrightarrow> overwrite (int off) new bs = Inr (patch off new bs)"
  by (simp add: overwrite_def patch_def flip: of_nat_add)

section \<open>The registers\<close>

text \<open>
  \<open>AM_DISK_CONFIG\<close> (present, blksz, blkcnt), \<open>AM_DISK_STATUS\<close> (ready) and \<open>AM_DISK_BLKIO\<close>, which takes
  the direction, the bytes of the buffer, the first block and the number of blocks, and gives the
  bytes of the buffer back.
\<close>

record 'd disk_io =
  disk_config :: "'d \<Rightarrow> bool \<times> u32 \<times> u32"
  disk_status :: "'d \<Rightarrow> bool"
  disk_blkio :: "bool \<Rightarrow> u8 list \<Rightarrow> u32 \<Rightarrow> u32 \<Rightarrow> 'd \<Rightarrow> (u8 list \<times> 'd) res"

section \<open>The contract\<close>

locale disk =
  fixes io :: "'d disk_io" and ok :: "'d \<Rightarrow> bool" and content :: "'d \<Rightarrow> u8 list" and sz :: nat
  assumes config: "ok d \<Longrightarrow> \<exists>bsz cnt. disk_config io d = (True, bsz, cnt) \<and> unat bsz = sz \<and> length (content d) = unat cnt * sz"
    and ready: "ok d \<Longrightarrow> disk_status io d"
    and small: "ok d \<Longrightarrow> length (content d) < 2 ^ 31"
    and read_block: "ok d \<Longrightarrow> length b = sz \<Longrightarrow> (unat k + 1) * sz \<le> length (content d) \<Longrightarrow>
      \<exists>d'. disk_blkio io False b k 1 d = Inr (take sz (drop (unat k * sz) (content d)), d') \<and> ok d' \<and> content d' = content d"
    and write_block: "ok d \<Longrightarrow> length b = sz \<Longrightarrow> (unat k + 1) * sz \<le> length (content d) \<Longrightarrow>
      \<exists>d'. disk_blkio io True b k 1 d = Inr (b, d') \<and> ok d' \<and> content d' = patch (unat k * sz) b (content d)"
    and block_size: "\<exists>j < 31. sz = 2 ^ j"
begin

text \<open>What was written is read back.\<close>

lemma read_after_write:
  assumes "ok d" and "(unat k + 1) * sz \<le> length (content d)" and "length b = sz" and "length b' = sz"
  shows "\<exists>d' d''. disk_blkio io True b k 1 d = Inr (b, d') \<and> disk_blkio io False b' k 1 d' = Inr (b, d'') \<and> content d'' = content d'"
proof -
  obtain d' where d': "disk_blkio io True b k 1 d = Inr (b, d')" "ok d'" "content d' = patch (unat k * sz) b (content d)"
    using write_block [OF assms(1,3,2)] by blast
  have l: "unat k * sz + length b \<le> length (content d)" using assms(2,3) by simp
  then have "(unat k + 1) * sz \<le> length (content d')" using d'(3) assms(3) by simp
  then obtain d'' where "disk_blkio io False b' k 1 d' = Inr (take sz (drop (unat k * sz) (content d')), d'')" "content d'' = content d'"
    using read_block [OF d'(2) assms(4)] by blast
  then show ?thesis using d' read_patch [OF l] assms(3) by auto
qed

lemma block_size_pos: "0 < sz"
  using block_size by auto

end

end
