(* ===== verification/Dev_Sd.thy ===== *)
theory Dev_Sd
  imports Disk_Spec
begin

text \<open>
  The SCSI disk of the kernel, \<open>kernel/src/dev/dev_sd.c\<close>: byte-granular reads and writes on top of
  whole blocks, over any disk that keeps the contract of \<open>Disk_Spec\<close>, and the disk of the native
  platform, \<open>am/src/native/ioe/disk.c\<close>, which keeps it.
\<close>

unbundle bit_operations_syntax

section \<open>The code\<close>

text \<open>\<open>buf\<close> with the bytes it points to.\<close>

record sd_t =
  sd_blkcnt :: u32
  sd_blksz :: u32
  sd_buf :: "u8 list"

text \<open>
  \<open>dev->ptr\<close> after \<open>sd_init\<close>: no disk is \<open>NULL\<close>. The bytes of the buffer are those the allocator
  left there; where it returned \<open>NULL\<close> there are none.
\<close>

definition sd_init :: "'d disk_io \<Rightarrow> (u32 \<Rightarrow> u8 list) \<Rightarrow> 'd \<Rightarrow> sd_t option" where
  "sd_init io pmm_alloc d =
     (case disk_config io d of (present, blksz, blkcnt) \<Rightarrow>
        if \<not> present then None
        else Some \<lparr>sd_blkcnt = blkcnt, sd_blksz = blksz, sd_buf = pmm_alloc blksz\<rparr>)"

text \<open>The loop on the status register ends at once or never.\<close>

definition blk_read :: "'d disk_io \<Rightarrow> u8 list \<Rightarrow> u32 \<Rightarrow> u32 \<Rightarrow> 'd \<Rightarrow> (u8 list \<times> 'd) res" where
  "blk_read io buf blkno blkcnt d =
     res_bind (disk_blkio io False buf blkno blkcnt d) (\<lambda>(buf, d).
     res_bind (guard Deadlock (disk_status io d)) (\<lambda>_. Inr (buf, d)))"

definition blk_write :: "'d disk_io \<Rightarrow> u8 list \<Rightarrow> u32 \<Rightarrow> u32 \<Rightarrow> 'd \<Rightarrow> (u8 list \<times> 'd) res" where
  "blk_write io buf blkno blkcnt d =
     res_bind (disk_blkio io True buf blkno blkcnt d) (\<lambda>(buf, d).
     res_bind (guard Deadlock (disk_status io d)) (\<lambda>_. Inr (buf, d)))"

text \<open>\<open>n\<close> bytes from place \<open>off\<close> of an object, as \<open>memcpy\<close> reads them.\<close>

definition bytes_at :: "u32 \<Rightarrow> u32 \<Rightarrow> u8 list \<Rightarrow> u8 list res" where
  "bytes_at off n bs =
     res_bind (guard BadAccess (unat off + unat n \<le> length bs)) (\<lambda>_. Inr (take (unat n) (drop (unat off) bs)))"

text \<open>\<open>n\<close> of one round: the rest of the block, or what is left to do.\<close>

definition sd_chunk :: "u32 \<Rightarrow> u32 \<Rightarrow> u32 \<Rightarrow> u32 \<Rightarrow> u32 \<Rightarrow> u32" where
  "sd_chunk blksz offset st count pos =
     (let n = blksz - (offset - st) in if n > count - pos then count - pos else n)"

fun sd_read_loop ::
  "nat \<Rightarrow> 'd disk_io \<Rightarrow> u32 \<Rightarrow> u32 \<Rightarrow> u32 \<Rightarrow> u32 \<Rightarrow> u8 list \<Rightarrow> sd_t \<Rightarrow> 'd \<Rightarrow> (u32 \<times> u8 list \<times> sd_t \<times> 'd) res" where
  "sd_read_loop 0 io st offset pos count buf sd d = Inl OutOfFuel"
| "sd_read_loop (Suc fuel) io st offset pos count buf sd d =
     (if pos < count then
        let n = sd_chunk (sd_blksz sd) offset st count pos in
        res_bind (guard BadAccess (sd_blksz sd \<noteq> 0)) (\<lambda>_.
        res_bind (blk_read io (sd_buf sd) (st div sd_blksz sd) 1 d) (\<lambda>(block, d).
        res_bind (bytes_at (offset - st) n block) (\<lambda>bs.
        res_bind (overwrite (uint pos) bs buf) (\<lambda>buf.
          sd_read_loop fuel io (st + sd_blksz sd) (st + sd_blksz sd) (pos + n) count buf (sd\<lparr>sd_buf := block\<rparr>) d))))
      else Inr (pos, buf, sd, d))"

definition sd_read :: "'d disk_io \<Rightarrow> sd_t option \<Rightarrow> u32 \<Rightarrow> u8 list \<Rightarrow> u32 \<Rightarrow> 'd \<Rightarrow> (u32 \<times> u8 list \<times> sd_t \<times> 'd) res" where
  "sd_read io ptr offset buf count d =
     (case ptr of None \<Rightarrow> Inl Panic
      | Some sd \<Rightarrow> sd_read_loop (Suc (unat count)) io (ROUNDDOWN offset (sd_blksz sd)) offset 0 count buf sd d)"

fun sd_write_loop ::
  "nat \<Rightarrow> 'd disk_io \<Rightarrow> u32 \<Rightarrow> u32 \<Rightarrow> u32 \<Rightarrow> u32 \<Rightarrow> u8 list \<Rightarrow> sd_t \<Rightarrow> 'd \<Rightarrow> (u32 \<times> sd_t \<times> 'd) res" where
  "sd_write_loop 0 io st offset pos count buf sd d = Inl OutOfFuel"
| "sd_write_loop (Suc fuel) io st offset pos count buf sd d =
     (if pos < count then
        let n = sd_chunk (sd_blksz sd) offset st count pos in
        res_bind (guard BadAccess (sd_blksz sd \<noteq> 0)) (\<lambda>_.
        res_bind (if n < sd_blksz sd then blk_read io (sd_buf sd) (st div sd_blksz sd) 1 d else Inr (sd_buf sd, d)) (\<lambda>(block, d).
        res_bind (bytes_at pos n buf) (\<lambda>bs.
        res_bind (overwrite (uint (offset - st)) bs block) (\<lambda>block.
        res_bind (blk_write io block (st div sd_blksz sd) 1 d) (\<lambda>(block, d).
          sd_write_loop fuel io (st + sd_blksz sd) (st + sd_blksz sd) (pos + n) count buf (sd\<lparr>sd_buf := block\<rparr>) d)))))
      else Inr (pos, sd, d))"

definition sd_write :: "'d disk_io \<Rightarrow> sd_t option \<Rightarrow> u32 \<Rightarrow> u8 list \<Rightarrow> u32 \<Rightarrow> 'd \<Rightarrow> (u32 \<times> sd_t \<times> 'd) res" where
  "sd_write io ptr offset buf count d =
     (case ptr of None \<Rightarrow> Inl Panic
      | Some sd \<Rightarrow> sd_write_loop (Suc (unat count)) io (ROUNDDOWN offset (sd_blksz sd)) offset 0 count buf sd d)"

section \<open>One round\<close>

lemma sd_round:
  assumes bs: "unat blksz = 2 ^ j" "j < 31" and st: "st = ROUNDDOWN offset blksz"
    and pos: "pos < count" and room: "unat offset + (unat count - unat pos) < 2 ^ 31"
  defines "n \<equiv> sd_chunk blksz offset st count pos"
  shows "blksz \<noteq> 0"
    and "unat st = unat offset div unat blksz * unat blksz"
    and "unat (offset - st) = unat offset mod unat blksz"
    and "unat (st div blksz) = unat offset div unat blksz"
    and "unat n = min (unat blksz - unat offset mod unat blksz) (unat count - unat pos)"
    and "unat (pos + n) = unat pos + unat n"
    and "unat (st + blksz) = unat offset div unat blksz * unat blksz + unat blksz"
    and "st + blksz = ROUNDDOWN (st + blksz) blksz"
proof -
  let ?sz = "unat blksz"
  have b: "blksz = 2 ^ j" using bs by (simp add: word_unat_eq_iff unat_pow2)
  have lt: "?sz < 2 ^ 31" unfolding bs(1) using bs(2) by (rule power_strict_increasing) simp
  show nz: "blksz \<noteq> 0" using bs by (metis power_not_zero unsigned_0 zero_neq_numeral)
  then have pz: "0 < ?sz" by (simp add: unat_gt_0)
  show u: "unat st = unat offset div ?sz * ?sz"
    unfolding st b using bs by (simp add: unat_ROUNDDOWN unat_pow2)
  have le: "unat st \<le> unat offset" unfolding u by (rule div_times_less_eq_dividend)
  show off: "unat (offset - st) = unat offset mod ?sz"
    using le u by (simp add: unat_sub word_le_nat_alt minus_div_mult_eq_mod)
  show "unat (st div blksz) = unat offset div ?sz" using u pz by (simp add: unat_div_distrib)
  have m: "unat offset mod ?sz < ?sz" using pz by simp
  have k: "unat (blksz - (offset - st)) = ?sz - unat offset mod ?sz"
    using m off by (simp add: unat_sub word_le_nat_alt)
  have c: "unat (count - pos) = unat count - unat pos" using pos by (simp add: unat_sub word_le_nat_alt word_less_nat_alt)
  show n: "unat n = min (?sz - unat offset mod ?sz) (unat count - unat pos)"
    unfolding n_def sd_chunk_def Let_def by (simp add: k c word_less_nat_alt)
  have "unat count < 2 ^ LENGTH(32)" by (rule unsigned_less)
  then show "unat (pos + n) = unat pos + unat n"
    using n pos by (intro unat_add_nowrap) (simp add: word_less_nat_alt)
  have "unat st + ?sz < 2 ^ LENGTH(32)" using le lt room by simp
  then show a: "unat (st + blksz) = unat offset div ?sz * ?sz + ?sz" using u unat_add_nowrap by metis
  have "2 ^ j dvd unat (st + blksz)" unfolding a using bs by simp
  then show "st + blksz = ROUNDDOWN (st + blksz) blksz" unfolding b using ROUNDDOWN_id_iff by metis
qed

text \<open>Where the transfer goes on, it goes on at the next byte.\<close>

lemma next_byte:
  fixes sz :: nat
  assumes "unat n = min (sz - b mod sz) (c - p)" and "p + unat n < c" and "0 < sz"
  shows "b div sz * sz + sz = b + unat n"
proof -
  have "b = b div sz * sz + b mod sz" by (rule div_mult_mod_eq [symmetric])
  moreover have "b mod sz < sz" using assms(3) by simp
  moreover have "unat n = sz - b mod sz" using assms(1,2) by linarith
  ultimately show ?thesis by linarith
qed

lemma whole_block:
  fixes sz :: nat
  assumes "b < l" and "sz dvd l" and "0 < sz"
  shows "(b div sz + 1) * sz \<le> l"
proof -
  obtain k where k: "l = sz * k" using assms(2) by blast
  then have "b div sz < k" using assms(1,3) by (simp add: less_mult_imp_div_less mult.commute)
  then show ?thesis unfolding k by (metis Suc_eq_plus1 Suc_leI mult.commute mult_le_mono2)
qed

section \<open>Reading and writing at any place\<close>

context disk begin

definition sd_ok :: "sd_t \<Rightarrow> bool" where
  "sd_ok sd \<longleftrightarrow> unat (sd_blksz sd) = sz \<and> length (sd_buf sd) = sz"

lemma blk_read_ok:
  assumes "ok d" "length b = sz" "(unat k + 1) * sz \<le> length (content d)"
  shows "\<exists>d'. blk_read io b k 1 d = Inr (take sz (drop (unat k * sz) (content d)), d') \<and> ok d' \<and> content d' = content d"
  using read_block [OF assms] ready by (auto simp: blk_read_def)

lemma blk_write_ok:
  assumes "ok d" "length b = sz" "(unat k + 1) * sz \<le> length (content d)"
  shows "\<exists>d'. blk_write io b k 1 d = Inr (b, d') \<and> ok d' \<and> content d' = patch (unat k * sz) b (content d)"
  using write_block [OF assms] ready by (auto simp: blk_write_def)

lemma content_blocks: "ok d \<Longrightarrow> sz dvd length (content d)"
  using config by fastforce

lemma sd_init_ok:
  assumes "ok d" and "\<And>n. length (pmm_alloc n) = unat n"
  shows "\<exists>sd. sd_init io pmm_alloc d = Some sd \<and> sd_ok sd \<and> length (content d) = unat (sd_blkcnt sd) * sz"
  using config [OF assms(1)] assms(2) by (auto simp: sd_init_def sd_ok_def)

text \<open>What both loops know of a round: \<open>n\<close> bytes, at least one, from inside a block of the disk.\<close>

lemma sd_step:
  assumes "ok d" "sd_ok sd" "st = ROUNDDOWN offset (sd_blksz sd)" "pos < count"
    and fit: "unat offset + (unat count - unat pos) \<le> length (content d)"
  defines "n \<equiv> sd_chunk (sd_blksz sd) offset st count pos"
  shows "sd_blksz sd \<noteq> 0"
    and "unat (offset - st) = unat offset mod sz"
    and "unat (st div sd_blksz sd) = unat offset div sz"
    and "st + sd_blksz sd = ROUNDDOWN (st + sd_blksz sd) (sd_blksz sd)"
    and "unat (pos + n) = unat pos + unat n"
    and "(unat offset div sz + 1) * sz \<le> length (content d)"
    and "unat offset mod sz + unat n \<le> sz"
    and "0 < unat n" and "unat pos + unat n \<le> unat count"
    and "pos + n < count \<Longrightarrow> unat (st + sd_blksz sd) = unat offset + unat n"
proof -
  let ?b = "unat offset" and ?p = "unat pos" and ?c = "unat count"
  have bz: "unat (sd_blksz sd) = sz" using assms(2) by (simp add: sd_ok_def)
  obtain j where j: "sz = 2 ^ j" "j < 31" using block_size by blast
  have room: "?b + (?c - ?p) < 2 ^ 31" using fit small [OF assms(1)] by linarith
  note r = sd_round [OF bz [unfolded j(1)] j(2) assms(3,4) room, folded n_def, unfolded bz]
  have p: "?p < ?c" using assms(4) by (simp add: word_less_nat_alt)
  have m: "?b mod sz < sz" using block_size_pos by simp
  show "sd_blksz sd \<noteq> 0" "unat (offset - st) = ?b mod sz" "unat (st div sd_blksz sd) = ?b div sz"
      "st + sd_blksz sd = ROUNDDOWN (st + sd_blksz sd) (sd_blksz sd)" "unat (pos + n) = ?p + unat n"
    by (fact r)+
  show "(?b div sz + 1) * sz \<le> length (content d)"
    using fit p by (intro whole_block content_blocks assms(1) block_size_pos) linarith
  show "?b mod sz + unat n \<le> sz" "0 < unat n" "?p + unat n \<le> ?c" using r(5) m p by linarith+
  show "unat (st + sd_blksz sd) = ?b + unat n" if "pos + n < count"
    unfolding r(7) using that by (intro next_byte [OF r(5) _ block_size_pos]) (simp add: word_less_nat_alt r(6))
qed

text \<open>The read loop: \<open>count - pos\<close> bytes from \<open>offset\<close> on, in place \<open>pos\<close> of the buffer.\<close>

lemma sd_read_loop_ok:
  assumes "ok d" "sd_ok sd" "st = ROUNDDOWN offset (sd_blksz sd)" "pos \<le> count"
    and "pos < count \<Longrightarrow> unat offset + (unat count - unat pos) \<le> length (content d)"
    and "unat count \<le> length buf" "unat count - unat pos < fuel"
  shows "\<exists>sd' d'. sd_read_loop fuel io st offset pos count buf sd d =
      Inr (count, patch (unat pos) (take (unat count - unat pos) (drop (unat offset) (content d))) buf, sd', d') \<and>
      sd_ok sd' \<and> ok d' \<and> content d' = content d"
  using assms
proof (induction fuel arbitrary: st offset pos buf sd d)
  case (Suc fuel)
  let ?b = "unat offset" and ?p = "unat pos" and ?c = "unat count" and ?xs = "content d"
  define n where "n = sd_chunk (sd_blksz sd) offset st count pos"
  show ?case
  proof (cases "pos < count")
    case False
    then have "pos = count" using Suc.prems(4) by simp
    then show ?thesis using Suc.prems by auto
  next
    case True
    have bz: "unat (sd_blksz sd) = sz" "length (sd_buf sd) = sz" using Suc.prems(2) by (simp_all add: sd_ok_def)
    have fit: "?b + (?c - ?p) \<le> length ?xs" using Suc.prems(5) True by blast
    note r = sd_step [OF Suc.prems(1-3) True fit, folded n_def]
    have p: "?p < ?c" using True by (simp add: word_less_nat_alt)
    obtain d1 where d1: "blk_read io (sd_buf sd) (st div sd_blksz sd) 1 d = Inr (take sz (drop (?b div sz * sz) ?xs), d1)"
        "ok d1" "content d1 = ?xs"
      using blk_read_ok [OF Suc.prems(1) bz(2), of "st div sd_blksz sd"] r(3,6) by auto
    let ?block = "take sz (drop (?b div sz * sz) ?xs)"
    have lb: "length ?block = sz" using r(6) by simp
    have bytes: "bytes_at (offset - st) n ?block = Inr (take (unat n) (drop ?b ?xs))"
      using r(2,7) lb by (simp add: bytes_at_def drop_take)
    note n0 = r(8) and nc = r(9)
    let ?new = "take (unat n) (drop ?b ?xs)"
    have ln: "length ?new = unat n" using fit nc p by simp
    have ow: "overwrite (uint pos) ?new buf = Inr (patch ?p ?new buf)"
      using overwrite_patch [of ?p ?new buf] ln nc Suc.prems(6) by simp
    let ?sd = "sd\<lparr>sd_buf := ?block\<rparr>"
    have "\<exists>sd' d'. sd_read_loop fuel io (st + sd_blksz sd) (st + sd_blksz sd) (pos + n) count (patch ?p ?new buf) ?sd d1 =
        Inr (count, patch (?p + unat n) (take (?c - (?p + unat n)) (drop (?b + unat n) ?xs)) (patch ?p ?new buf), sd', d') \<and>
        sd_ok sd' \<and> ok d' \<and> content d' = ?xs"
    proof -
      have "sd_ok ?sd" using bz lb by (simp add: sd_ok_def)
      moreover have "st + sd_blksz sd = ROUNDDOWN (st + sd_blksz sd) (sd_blksz ?sd)" using r(4) by simp
      moreover have "pos + n \<le> count" using nc r(5) by (simp add: word_le_nat_alt)
      moreover have "unat (st + sd_blksz sd) + (?c - unat (pos + n)) \<le> length (content d1)" if "pos + n < count"
        using r(10) [OF that] d1(3) fit nc r(5) by simp
      moreover have "?c \<le> length (patch ?p ?new buf)" using ln nc Suc.prems(6) by simp
      moreover have "?c - unat (pos + n) < fuel" using Suc.prems(7) n0 r(5) p by simp
      ultimately have ih: "\<exists>sd' d'. sd_read_loop fuel io (st + sd_blksz sd) (st + sd_blksz sd) (pos + n) count (patch ?p ?new buf) ?sd d1 =
          Inr (count, patch (unat (pos + n)) (take (?c - unat (pos + n)) (drop (unat (st + sd_blksz sd)) (content d1))) (patch ?p ?new buf), sd', d') \<and>
          sd_ok sd' \<and> ok d' \<and> content d' = content d1"
        by (intro Suc.IH [OF d1(2)])
      have "take (?c - unat (pos + n)) (drop (unat (st + sd_blksz sd)) ?xs) = take (?c - (?p + unat n)) (drop (?b + unat n) ?xs)"
      proof (cases "pos + n < count")
        case False
        then show ?thesis using r(5) nc by (simp add: word_less_nat_alt)
      qed (simp add: r(5,10))
      then show ?thesis using ih by (simp only: d1(3) r(5))
    qed
    moreover have "patch (?p + unat n) (take (?c - (?p + unat n)) (drop (?b + unat n) ?xs)) (patch ?p ?new buf) =
        patch ?p (take (?c - ?p) (drop ?b ?xs)) buf"
    proof -
      have "take (?c - ?p) (drop ?b ?xs) = ?new @ take (?c - (?p + unat n)) (drop (?b + unat n) ?xs)"
        using nc by (simp add: take_add [symmetric] add.commute flip: drop_drop)
      moreover have "length (take (?c - (?p + unat n)) (drop (?b + unat n) ?xs)) = ?c - (?p + unat n)" using fit nc by simp
      ultimately show ?thesis
        using patch_patch [of ?p ?new "take (?c - (?p + unat n)) (drop (?b + unat n) ?xs)" buf] ln nc Suc.prems(6) by simp
    qed
    ultimately show ?thesis
      by (simp only: sd_read_loop.simps True r(1) n_def [symmetric] Let_def if_True d1(1) bytes ow res_bind_simps
          guard_def not_False_eq_True prod.case)
  qed
qed simp

lemma sd_read_ok:
  assumes "ok d" "sd_ok sd" "unat offset + unat count \<le> length (content d)" "unat count \<le> length buf"
  shows "\<exists>sd' d'. sd_read io (Some sd) offset buf count d =
      Inr (count, patch 0 (take (unat count) (drop (unat offset) (content d))) buf, sd', d') \<and>
      sd_ok sd' \<and> ok d' \<and> content d' = content d"
  using sd_read_loop_ok [OF assms(1,2) refl, of 0 count offset buf "Suc (unat count)"] assms(3,4)
  by (simp add: sd_read_def)

text \<open>The write loop: the same for the disk.\<close>

lemma sd_write_loop_ok:
  assumes "ok d" "sd_ok sd" "st = ROUNDDOWN offset (sd_blksz sd)" "pos \<le> count"
    and "pos < count \<Longrightarrow> unat offset + (unat count - unat pos) \<le> length (content d)"
    and "unat count \<le> length buf" "unat count - unat pos < fuel"
  shows "\<exists>sd' d'. sd_write_loop fuel io st offset pos count buf sd d = Inr (count, sd', d') \<and> sd_ok sd' \<and> ok d' \<and>
      content d' = (if pos < count then patch (unat offset) (take (unat count - unat pos) (drop (unat pos) buf)) (content d) else content d)"
  using assms
proof (induction fuel arbitrary: st offset pos sd d)
  case (Suc fuel)
  let ?b = "unat offset" and ?p = "unat pos" and ?c = "unat count" and ?xs = "content d"
  define n where "n = sd_chunk (sd_blksz sd) offset st count pos"
  show ?case
  proof (cases "pos < count")
    case False
    then have "pos = count" using Suc.prems(4) by simp
    then show ?thesis using Suc.prems by auto
  next
    case True
    have bz: "unat (sd_blksz sd) = sz" "length (sd_buf sd) = sz" using Suc.prems(2) by (simp_all add: sd_ok_def)
    have fit: "?b + (?c - ?p) \<le> length ?xs" using Suc.prems(5) True by blast
    note r = sd_step [OF Suc.prems(1-3) True fit, folded n_def]
    have p: "?p < ?c" using True by (simp add: word_less_nat_alt)
    let ?new = "take (unat n) (drop ?p buf)" and ?at = "?b div sz * sz"
    have ln: "length ?new = unat n" using r(9) Suc.prems(6) by simp
    have at: "?at + ?b mod sz = ?b" by simp
    have inside: "?at + sz \<le> length ?xs" using r(6) by simp
    obtain block d0 where d0: "(if n < sd_blksz sd then blk_read io (sd_buf sd) (st div sd_blksz sd) 1 d else Inr (sd_buf sd, d)) = Inr (block, d0)"
        "ok d0" "content d0 = ?xs" "length block = sz" "n < sd_blksz sd \<Longrightarrow> block = take sz (drop ?at ?xs)"
    proof (cases "n < sd_blksz sd")
      case True
      then show ?thesis
        using blk_read_ok [OF Suc.prems(1) bz(2), of "st div sd_blksz sd"] r(3,6) inside that by auto
    qed (use that bz Suc.prems(1) in auto)
    have "patch (?b mod sz) ?new block = patch (?b mod sz) ?new (take sz (drop ?at ?xs))"
    proof (cases "n < sd_blksz sd")
      case False
      then have "unat n = sz" "?b mod sz = 0" using r(7) bz(1) by (simp_all add: word_less_nat_alt)
      then show ?thesis using ln d0(4) inside by (simp add: patch_def)
    qed (simp add: d0(5))
    note full = this
    let ?block = "patch (?b mod sz) ?new block"
    have lb: "length ?block = sz" using r(7) ln d0(4) by simp
    have "uint (offset - st) = int (?b mod sz)" by (simp flip: r(2))
    then have ow: "overwrite (uint (offset - st)) ?new block = Inr ?block"
      using overwrite_patch [of "?b mod sz" ?new block] ln r(7) d0(4) by simp
    have bytes: "bytes_at pos n buf = Inr ?new"
      using r(9) Suc.prems(6) by (simp add: bytes_at_def)
    obtain d1 where d1: "blk_write io ?block (st div sd_blksz sd) 1 d0 = Inr (?block, d1)" "ok d1"
        "content d1 = patch ?at ?block ?xs"
      using blk_write_ok [OF d0(2) lb, of "st div sd_blksz sd"] d0(3) r(3,6) by auto
    have put: "content d1 = patch ?b ?new ?xs"
      using patch_block [of "?b mod sz" ?new sz ?at ?xs] r(7) ln inside at by (simp only: d1(3) full)
    let ?sd = "sd\<lparr>sd_buf := ?block\<rparr>"
    have "sd_ok ?sd" using bz lb by (simp add: sd_ok_def)
    moreover have "st + sd_blksz sd = ROUNDDOWN (st + sd_blksz sd) (sd_blksz ?sd)" using r(4) by simp
    moreover have "pos + n \<le> count" using r(5,9) by (simp add: word_le_nat_alt)
    moreover have "length (content d1) = length ?xs" using fit r(9) ln by (simp add: put)
    then have "unat (st + sd_blksz sd) + (?c - unat (pos + n)) \<le> length (content d1)" if "pos + n < count"
      using r(10) [OF that] fit r(5,9) by simp
    moreover have "?c - unat (pos + n) < fuel" using Suc.prems(7) r(5,8) p by simp
    ultimately have "\<exists>sd' d'. sd_write_loop fuel io (st + sd_blksz sd) (st + sd_blksz sd) (pos + n) count buf ?sd d1 =
        Inr (count, sd', d') \<and> sd_ok sd' \<and> ok d' \<and> content d' =
          (if pos + n < count then patch (unat (st + sd_blksz sd)) (take (?c - unat (pos + n)) (drop (unat (pos + n)) buf)) (content d1)
           else content d1)"
      by (intro Suc.IH [OF d1(2)] Suc.prems(6))
    moreover have "(if pos + n < count then patch (unat (st + sd_blksz sd)) (take (?c - unat (pos + n)) (drop (unat (pos + n)) buf)) (content d1)
        else content d1) = patch ?b (take (?c - ?p) (drop ?p buf)) ?xs"
    proof -
      have all: "take (?c - ?p) (drop ?p buf) = ?new @ take (?c - (?p + unat n)) (drop (?p + unat n) buf)"
        using r(9) by (simp add: take_add [symmetric] add.commute flip: drop_drop)
      show ?thesis
      proof (cases "pos + n < count")
        case True
        have "?b + length ?new + length (take (?c - (?p + unat n)) (drop (?p + unat n) buf)) \<le> length ?xs"
          using fit r(9) ln Suc.prems(6) by simp
        then show ?thesis using patch_patch [of ?b ?new _ ?xs] True ln by (simp only: r(5) r(10) [OF True] put all if_True)
      next
        case False
        then have "?c - (?p + unat n) = 0" using r(5) by (simp add: word_less_nat_alt)
        then show ?thesis using False by (simp add: put all)
      qed
    qed
    ultimately show ?thesis
      by (simp only: sd_write_loop.simps True r(1) n_def [symmetric] Let_def if_True d0(1) d1(1) bytes ow res_bind_simps
          guard_def not_False_eq_True prod.case)
  qed
qed simp

lemma sd_write_ok:
  assumes "ok d" "sd_ok sd" "unat offset + unat count \<le> length (content d)" "unat count \<le> length buf"
  shows "\<exists>sd' d'. sd_write io (Some sd) offset buf count d = Inr (count, sd', d') \<and> sd_ok sd' \<and> ok d' \<and>
      content d' = patch (unat offset) (take (unat count) buf) (content d)"
proof (cases "0 < count")
  case True
  then show ?thesis
    using sd_write_loop_ok [OF assms(1,2) refl, of 0 count offset buf "Suc (unat count)"] assms(3,4)
    by (simp add: sd_write_def)
next
  case False
  then have "count = 0" using word_neq_0_conv by blast
  then show ?thesis using assms(1,2) by (simp add: sd_write_def)
qed

text \<open>A write is read back, wherever it lies on the disk and however many blocks it spans.\<close>

lemma sd_write_read:
  assumes "ok d" "sd_ok sd" "unat offset + unat count \<le> length (content d)" "length data = unat count" "length buf = unat count"
  shows "\<exists>sd' d' sd'' d''. sd_write io (Some sd) offset data count d = Inr (count, sd', d') \<and>
      sd_read io (Some sd') offset buf count d' = Inr (count, data, sd'', d'') \<and>
      content d'' = patch (unat offset) data (content d)"
proof -
  obtain sd' d' where w: "sd_write io (Some sd) offset data count d = Inr (count, sd', d')" "sd_ok sd'" "ok d'"
      "content d' = patch (unat offset) data (content d)"
    using sd_write_ok [OF assms(1-3), of data] assms(4) by auto
  have "take (unat count) (drop (unat offset) (content d')) = data"
    using read_patch [of "unat offset" data "content d"] assms(3,4) w(4) by simp
  moreover have "unat offset + unat count \<le> length (content d')" using w(4) assms(3,4) by simp
  ultimately show ?thesis
    using sd_read_ok [OF w(3,2), of offset count buf] w assms(4,5) by (auto simp: patch_def)
qed

end

end
