(* ===== verification/Disk_Native.thy ===== *)
theory Disk_Native
  imports Dev_Sd
begin

text \<open>
  The disk of the native platform, \<open>am/src/native/ioe/disk.c\<close>: an image file, read and written with the
  standard library's streams. It keeps the contract of \<open>Disk_Spec\<close> when the image is a whole number of
  blocks, so the kernel's SCSI disk works on it at any byte offset.
\<close>

unbundle bit_operations_syntax

section \<open>The code\<close>

text \<open>A stream: the bytes of the file and the position. Seeking before the start fails and moves nothing.\<close>

record stream =
  st_bytes :: "u8 list"
  st_pos :: nat

definition fseek_set :: "int \<Rightarrow> stream \<Rightarrow> stream" where
  "fseek_set off f = (if 0 \<le> off then f\<lparr>st_pos := nat off\<rparr> else f)"

text \<open>One item of \<open>n\<close> bytes: the number of items transferred, and what became of the buffer.\<close>

definition fread_item :: "nat \<Rightarrow> u8 list \<Rightarrow> stream \<Rightarrow> nat \<times> u8 list \<times> stream" where
  "fread_item n buf f =
     (let got = take n (drop (st_pos f) (st_bytes f))
      in (if n \<noteq> 0 \<and> length got = n then 1 else 0, got @ drop (length got) buf, f\<lparr>st_pos := st_pos f + length got\<rparr>))"

text \<open>Writing past the end fills the gap with zeros.\<close>

definition fwrite_item :: "nat \<Rightarrow> u8 list \<Rightarrow> stream \<Rightarrow> nat \<times> stream" where
  "fwrite_item n buf f =
     (if n = 0 then (0, f)
      else (1, \<lparr>st_bytes = take (st_pos f) (st_bytes f) @ replicate (st_pos f - length (st_bytes f)) 0 @ take n buf @
                  drop (st_pos f + n) (st_bytes f), st_pos = st_pos f + n\<rparr>))"

definition BLKSZ :: int where "BLKSZ = 512"

record native_disk =
  disk_size :: u32
  disk_fp :: "stream option"

text \<open>\<open>None\<close>: no image is named or it cannot be opened.\<close>

definition am_disk_init :: "u8 list option \<Rightarrow> native_disk" where
  "am_disk_init img =
     (case img of None \<Rightarrow> \<lparr>disk_size = 0, disk_fp = None\<rparr>
      | Some bytes \<Rightarrow> \<lparr>disk_size = of_nat ((length bytes + 511) div 512), disk_fp = Some \<lparr>st_bytes = bytes, st_pos = 0\<rparr>\<rparr>)"

definition am_disk_config :: "native_disk \<Rightarrow> bool \<times> u32 \<times> u32" where
  "am_disk_config d = (disk_fp d \<noteq> None, of_int BLKSZ, disk_size d)"

definition am_disk_status :: "native_disk \<Rightarrow> bool" where
  "am_disk_status d = True"

text \<open>A product of two \<open>int\<close>s that does not fit is undefined, and so is a transfer past the buffer's end.\<close>

definition am_disk_blkio :: "bool \<Rightarrow> u8 list \<Rightarrow> u32 \<Rightarrow> u32 \<Rightarrow> native_disk \<Rightarrow> (u8 list \<times> native_disk) res" where
  "am_disk_blkio write buf blkno blkcnt d =
     (case disk_fp d of None \<Rightarrow> Inr (buf, d)
      | Some f \<Rightarrow>
        let off = sint blkno * BLKSZ; n = sint blkcnt * BLKSZ in
        res_bind (guard BadAccess (- (2 ^ 31) \<le> off \<and> off < 2 ^ 31 \<and> 0 \<le> n \<and> n < 2 ^ 31 \<and> n \<le> int (length buf))) (\<lambda>_.
        let f = fseek_set off f;
            (ret, buf, f) = (if write then let (ret, f) = fwrite_item (nat n) buf f in (ret, buf, f) else fread_item (nat n) buf f)
        in res_bind (guard AssertFail (ret = 1)) (\<lambda>_. Inr (buf, d\<lparr>disk_fp := Some f\<rparr>))))"

definition native_io :: "native_disk disk_io" where
  "native_io = \<lparr>disk_config = am_disk_config, disk_status = am_disk_status, disk_blkio = am_disk_blkio\<rparr>"

section \<open>It is a disk\<close>

definition image :: "native_disk \<Rightarrow> u8 list" where
  "image d = (case disk_fp d of None \<Rightarrow> [] | Some f \<Rightarrow> st_bytes f)"

definition native_disk_ok :: "native_disk \<Rightarrow> bool" where
  "native_disk_ok d \<longleftrightarrow> disk_fp d \<noteq> None \<and> length (image d) = unat (disk_size d) * 512 \<and> length (image d) < 2 ^ 31"

lemma am_disk_init_ok:
  assumes "512 dvd length bytes" and "length bytes < 2 ^ 31"
  shows "native_disk_ok (am_disk_init (Some bytes))" and "image (am_disk_init (Some bytes)) = bytes"
proof -
  obtain k where k: "length bytes = 512 * k" using assms(1) by blast
  then have "(length bytes + 511) div 512 = k" by simp
  moreover have "k < 2 ^ LENGTH(32)" using k assms(2) by simp
  ultimately have u: "unat (of_nat ((length bytes + 511) div 512) :: u32) = k" by (simp only: unat_of_nat_small)
  show i: "image (am_disk_init (Some bytes)) = bytes"
    by (simp add: image_def am_disk_init_def)
  have "unat (disk_size (am_disk_init (Some bytes))) = k" using u by (simp only: am_disk_init_def option.case native_disk.simps)
  moreover have "disk_fp (am_disk_init (Some bytes)) \<noteq> None" by (simp add: am_disk_init_def)
  ultimately show "native_disk_ok (am_disk_init (Some bytes))" unfolding native_disk_ok_def i using k assms(2) by (metis mult.commute)
qed

text \<open>A block inside an image below 2 GiB is a small non-negative \<open>int\<close>.\<close>

lemma sint_small: "unat (k :: u32) < 2 ^ 31 \<Longrightarrow> sint k = int (unat k)"
proof -
  assume "unat k < 2 ^ 31"
  then have "int (unat k) < int (2 ^ 31)" by (simp only: of_nat_less_iff)
  then have "uint k < 2 ^ 31" by simp
  then have "signed_take_bit 31 (uint k) = uint k" using unsigned_greater_eq [of k, where ?'a = int]
    by (intro signed_take_bit_int_eq_self) linarith+
  then show ?thesis by (simp add: sint_uint)
qed

lemma native_block:
  assumes "native_disk_ok d" and "(unat (k :: u32) + 1) * 512 \<le> length (image d)" and "length b = 512"
  obtains f where "disk_fp d = Some f" "image d = st_bytes f"
    "am_disk_blkio False b k 1 d =
       (case fread_item 512 b (f\<lparr>st_pos := unat k * 512\<rparr>) of (ret, buf, f) \<Rightarrow>
          res_bind (guard AssertFail (ret = 1)) (\<lambda>_. Inr (buf, d\<lparr>disk_fp := Some f\<rparr>)))"
    "am_disk_blkio True b k 1 d =
       (case fwrite_item 512 b (f\<lparr>st_pos := unat k * 512\<rparr>) of (ret, f) \<Rightarrow>
          res_bind (guard AssertFail (ret = 1)) (\<lambda>_. Inr (b, d\<lparr>disk_fp := Some f\<rparr>)))"
proof -
  obtain f where f: "disk_fp d = Some f" "image d = st_bytes f" using assms(1) by (auto simp: native_disk_ok_def image_def)
  have "unat k * 512 < 2 ^ 31" using assms(1,2) by (simp add: native_disk_ok_def)
  then have "int (unat k * 512) < int (2 ^ 31)" and "unat k < 2 ^ 31" by (simp_all only: of_nat_less_iff)
  then have lt: "int (unat k) * 512 < 2 ^ 31" and k: "sint k = int (unat k)" using sint_small by simp_all
  have one: "sint (1 :: u32) * BLKSZ = 512" by (simp add: BLKSZ_def)
  have "- (2 ^ 31) \<le> int (unat k) * 512 \<and> int (unat k) * 512 < 2 ^ 31 \<and> 0 \<le> (512 :: int) \<and> (512 :: int) < 2 ^ 31 \<and> 512 \<le> int (length b)"
    using order_trans [of "- (2 ^ 31)" 0 "int (unat k) * 512"] lt assms(3) by (simp only: of_nat_numeral) simp
  then have "guard BadAccess (- (2 ^ 31) \<le> int (unat k) * 512 \<and> int (unat k) * 512 < 2 ^ 31 \<and> 0 \<le> (512 :: int) \<and> (512 :: int) < 2 ^ 31 \<and>
      512 \<le> int (length b)) = Inr ()" by (simp only: guard_eq_Inr)
  moreover have "fseek_set (int (unat k) * 512) f = f\<lparr>st_pos := unat k * 512\<rparr>" by (simp add: fseek_set_def nat_mult_distrib)
  moreover have "sint k * BLKSZ = int (unat k) * 512" by (simp add: k BLKSZ_def)
  ultimately show ?thesis
    using f by (intro that [of f]) (simp_all only: am_disk_blkio_def one Let_def option.case res_bind_simps nat_numeral if_True if_False split_def fst_conv snd_conv)
qed

lemma native_read:
  assumes "native_disk_ok d" "length b = 512" "(unat (k :: u32) + 1) * 512 \<le> length (image d)"
  shows "\<exists>d'. am_disk_blkio False b k 1 d = Inr (take 512 (drop (unat k * 512) (image d)), d') \<and> native_disk_ok d' \<and> image d' = image d"
proof -
  obtain f where f: "disk_fp d = Some f" "image d = st_bytes f"
    "am_disk_blkio False b k 1 d = (case fread_item 512 b (f\<lparr>st_pos := unat k * 512\<rparr>) of (ret, buf, f) \<Rightarrow>
        res_bind (guard AssertFail (ret = 1)) (\<lambda>_. Inr (buf, d\<lparr>disk_fp := Some f\<rparr>)))"
    by (rule native_block [OF assms(1,3,2)])
  let ?got = "take 512 (drop (unat k * 512) (st_bytes f))" and ?f = "f\<lparr>st_pos := unat k * 512 + 512\<rparr>"
  have "length ?got = 512" using assms(3) f(2) by simp
  then have "fread_item 512 b (f\<lparr>st_pos := unat k * 512\<rparr>) = (1, ?got, ?f)"
    using assms(2) by (simp add: fread_item_def Let_def)
  then have "am_disk_blkio False b k 1 d = Inr (?got, d\<lparr>disk_fp := Some ?f\<rparr>)" by (simp add: f(3))
  moreover have "image (d\<lparr>disk_fp := Some ?f\<rparr>) = image d" by (simp add: image_def f(1))
  ultimately show ?thesis using f(2) assms(1) by (auto simp: native_disk_ok_def)
qed

lemma native_write:
  assumes "native_disk_ok d" "length b = 512" "(unat (k :: u32) + 1) * 512 \<le> length (image d)"
  shows "\<exists>d'. am_disk_blkio True b k 1 d = Inr (b, d') \<and> native_disk_ok d' \<and> image d' = patch (unat k * 512) b (image d)"
proof -
  obtain f where f: "disk_fp d = Some f" "image d = st_bytes f"
    "am_disk_blkio True b k 1 d = (case fwrite_item 512 b (f\<lparr>st_pos := unat k * 512\<rparr>) of (ret, f) \<Rightarrow>
        res_bind (guard AssertFail (ret = 1)) (\<lambda>_. Inr (b, d\<lparr>disk_fp := Some f\<rparr>)))"
    by (rule native_block [OF assms(1,3,2)])
  let ?f = "\<lparr>st_bytes = patch (unat k * 512) b (st_bytes f), st_pos = unat k * 512 + 512\<rparr>"
  have fit: "unat k * 512 + length b \<le> length (st_bytes f)" using assms(2,3) f(2) by simp
  then have "unat k * 512 - length (st_bytes f) = 0" by simp
  then have "fwrite_item 512 b (f\<lparr>st_pos := unat k * 512\<rparr>) = (1, ?f)"
    using assms(2) by (simp add: fwrite_item_def patch_def)
  then have "am_disk_blkio True b k 1 d = Inr (b, d\<lparr>disk_fp := Some ?f\<rparr>)" by (simp add: f(3))
  moreover have i: "image (d\<lparr>disk_fp := Some ?f\<rparr>) = patch (unat k * 512) b (image d)" by (simp add: image_def f(1))
  moreover have "native_disk_ok (d\<lparr>disk_fp := Some ?f\<rparr>)"
    using fit assms(1) unfolding native_disk_ok_def i by (simp add: f(2))
  ultimately show ?thesis by blast
qed

interpretation native: disk native_io native_disk_ok image 512
proof
  fix d :: native_disk and b :: "u8 list" and k :: u32
  show "\<exists>bsz cnt. disk_config native_io d = (True, bsz, cnt) \<and> unat bsz = 512 \<and> length (image d) = unat cnt * 512"
    if "native_disk_ok d"
    using that by (simp add: native_io_def am_disk_config_def native_disk_ok_def BLKSZ_def)
  show "disk_status native_io d" by (simp add: native_io_def am_disk_status_def)
  show "length (image d) < 2 ^ 31" if "native_disk_ok d" using that by (simp add: native_disk_ok_def)
  show "\<exists>d'. disk_blkio native_io False b k 1 d = Inr (take 512 (drop (unat k * 512) (image d)), d') \<and> native_disk_ok d' \<and> image d' = image d"
    if "native_disk_ok d" "length b = 512" "(unat k + 1) * 512 \<le> length (image d)"
    using native_read [OF that] by (simp only: native_io_def disk_io.simps)
  show "\<exists>d'. disk_blkio native_io True b k 1 d = Inr (b, d') \<and> native_disk_ok d' \<and> image d' = patch (unat k * 512) b (image d)"
    if "native_disk_ok d" "length b = 512" "(unat k + 1) * 512 \<le> length (image d)"
    using native_write [OF that] by (simp only: native_io_def disk_io.simps)
  show "\<exists>j<31. (512 :: nat) = 2 ^ j" by (intro exI [of _ 9]) simp
qed

section \<open>The SCSI disk on it\<close>

text \<open>The kernel's disk after booting on an image, with a buffer from the allocator.\<close>

definition native_boot :: "u8 list \<Rightarrow> sd_t option \<times> native_disk" where
  "native_boot bytes = (let d = am_disk_init (Some bytes) in (sd_init native_io (\<lambda>n. replicate (unat n) 0) d, d))"

lemma native_boot_ok:
  assumes "512 dvd length bytes" and "length bytes < 2 ^ 31"
  shows "\<exists>sd d. native_boot bytes = (Some sd, d) \<and> native.sd_ok sd \<and> native_disk_ok d \<and> image d = bytes"
  using native.sd_init_ok [OF am_disk_init_ok(1) [OF assms], of "\<lambda>n. replicate (unat n) 0"] am_disk_init_ok [OF assms]
  by (auto simp: native_boot_def Let_def)

text \<open>
  C20: on a disk image of whole blocks below 2 GiB, a write of any bytes at any byte offset inside the
  disk succeeds with the number of bytes asked for, a read of the same range gives these bytes, every
  byte outside the range is what it was, and both loops end; so the block-by-block transfer, with its
  read-modify-write of partial first and last blocks, is invisible to the caller.
\<close>

theorem sd_round_trip:
  assumes "512 dvd length bytes" and "length bytes < 2 ^ 31"
    and "unat offset + length data \<le> length bytes" and "length data = unat count" and "length buf = unat count"
  shows "\<exists>sd d. native_boot bytes = (Some sd, d) \<and>
    (\<exists>sd' d' sd'' d''. sd_write native_io (Some sd) offset data count d = Inr (count, sd', d') \<and>
      sd_read native_io (Some sd') offset buf count d' = Inr (count, data, sd'', d'') \<and>
      image d'' = take (unat offset) bytes @ data @ drop (unat offset + length data) bytes)"
proof -
  obtain sd d where b: "native_boot bytes = (Some sd, d)" "native.sd_ok sd" "native_disk_ok d" "image d = bytes"
    using native_boot_ok [OF assms(1,2)] by blast
  then show ?thesis
    using native.sd_write_read [OF b(3,2), of offset count data buf] assms(3-5) by (simp add: patch_def)
qed

lemma sd_round_trip_witness:
  "\<exists>sd d. native_boot (replicate 1024 0) = (Some sd, d) \<and>
    (\<exists>sd' d' sd'' d''. sd_write native_io (Some sd) 511 [1, 2, 3] 3 d = Inr (3, sd', d') \<and>
      sd_read native_io (Some sd') 511 [0, 0, 0] 3 d' = Inr (3, [1, 2, 3], sd'', d'') \<and>
      image d'' = take 511 (replicate 1024 0) @ [1, 2, 3] @ drop 514 (replicate 1024 0))"
  using sd_round_trip [of "replicate 1024 0" 511 "[1, 2, 3]" 3 "[0, 0, 0]"] by simp

text \<open>Without an image there is no disk, and reads and writes panic.\<close>

lemma sd_no_disk:
  "sd_init native_io alloc (am_disk_init None) = None"
  "sd_read io None offset buf count d = Inl Panic" "sd_write io None offset data count d = Inl Panic"
  by (simp_all add: sd_init_def native_io_def am_disk_config_def am_disk_init_def sd_read_def sd_write_def)

text \<open>
  On an image whose last block is not full the disk reports that block as one of its blocks, yet
  reading a byte of it stops with a failed assertion, even a byte the file holds.
\<close>

theorem sd_ragged_image:
  assumes "length bytes = 512 * n + r" and "0 < r" "r < 512" "n < 2 ^ 22 - 1"
  shows "\<exists>sd d. native_boot bytes = (Some sd, d) \<and> unat (sd_blkcnt sd) = n + 1 \<and>
    sd_read native_io (Some sd) (of_nat (512 * n)) [0] 1 d = Inl AssertFail"
proof -
  let ?f = "\<lparr>st_bytes = bytes, st_pos = 0\<rparr>" and ?k = "of_nat n :: u32" and ?b = "replicate 512 0 :: u8 list"
  have "(length bytes + 511) div 512 = n + 1" using assms(1-3) by simp
  moreover have "unat (of_nat (n + 1) :: u32) = n + 1" using assms(4) by (intro unat_of_nat_small) simp
  ultimately have boot: "native_boot bytes =
      (Some \<lparr>sd_blkcnt = of_nat (n + 1), sd_blksz = 512, sd_buf = ?b\<rparr>, \<lparr>disk_size = of_nat (n + 1), disk_fp = Some ?f\<rparr>)"
    and cnt: "unat (of_nat (n + 1) :: u32) = n + 1"
    by (simp_all add: native_boot_def Let_def sd_init_def native_io_def am_disk_config_def am_disk_init_def BLKSZ_def)
  have un: "unat (of_nat (512 * n) :: u32) = 512 * n" and uk: "unat ?k = n"
    using assms(4) by (intro unat_of_nat_small; simp)+
  let ?o = "of_nat (512 * n) :: u32"
  have "2 ^ 9 dvd unat ?o" by (simp only: un) simp
  then have st: "ROUNDDOWN ?o 512 = ?o" using ROUNDDOWN_id_iff [of ?o 9] by simp
  have k: "?o div 512 = ?k" by (simp add: word_unat_eq_iff unat_div_distrib un uk del: of_nat_mult)
  have sk: "sint ?k = int n" using assms(4) uk by (simp add: sint_small)
  have rd: "fread_item 512 ?b (fseek_set (int n * 512) ?f) =
      (0, drop (512 * n) bytes @ drop r ?b, \<lparr>st_bytes = bytes, st_pos = 512 * n + r\<rparr>)"
    using assms(1-3) by (simp add: fread_item_def fseek_set_def Let_def nat_mult_distrib mult.commute)
  have bad: "am_disk_blkio False ?b ?k 1 \<lparr>disk_size = of_nat (n + 1), disk_fp = Some ?f\<rparr> = Inl AssertFail"
    using assms(4) rd by (simp add: am_disk_blkio_def BLKSZ_def Let_def sk)
  have "sd_read native_io (Some \<lparr>sd_blkcnt = of_nat (n + 1), sd_blksz = 512, sd_buf = ?b\<rparr>) ?o [0] 1
      \<lparr>disk_size = of_nat (n + 1), disk_fp = Some ?f\<rparr> = Inl AssertFail"
    using bad by (simp add: sd_read_def st k blk_read_def native_io_def Let_def del: of_nat_mult of_nat_add)
  then show ?thesis using boot cnt by auto
qed

lemma sd_ragged_image_witness:
  "\<exists>sd d. native_boot (replicate 700 0) = (Some sd, d) \<and> unat (sd_blkcnt sd) = 1 + 1 \<and>
    sd_read native_io (Some sd) 512 [0] 1 d = Inl AssertFail"
  using sd_ragged_image [of "replicate 700 0" 1 188] by simp

end
