(* ===== verification/Port_Io.thy ===== *)
theory Port_Io
  imports Base
begin

text \<open>
  The port instructions of \<open>am/src/x86/x86.h\<close>. What is behind a port is not code of the repository: the
  devices are an argument, a state \<open>'h\<close> and the four accesses that step it.
\<close>

record 'h port_io =
  inb :: "u16 \<Rightarrow> 'h \<Rightarrow> u8 \<times> 'h"
  outb :: "u16 \<Rightarrow> u8 \<Rightarrow> 'h \<Rightarrow> 'h"
  inl :: "u16 \<Rightarrow> 'h \<Rightarrow> u32 \<times> 'h"
  outl :: "u16 \<Rightarrow> u32 \<Rightarrow> 'h \<Rightarrow> 'h"

text \<open>A wait that never ends is \<open>Deadlock\<close>.\<close>

definition forever :: "'a option \<Rightarrow> 'a res" where
  "forever m = (case m of None \<Rightarrow> Inl Deadlock | Some x \<Rightarrow> Inr x)"

lemma forever_simps [simp]: "forever None = Inl Deadlock" "forever (Some x) = Inr x"
  by (simp_all add: forever_def)

end
