(* ===== verification/Disk_Ata.thy ===== *)
theory Disk_Ata
  imports Dev_Sd Port_Io
begin

text \<open>
  The disk of the qemu platform, \<open>am/src/x86/qemu/ioe.c\<close>: programmed I/O to an ATA drive, one sector per
  command. The drive is an argument; its documented behaviour is the predicate \<open>ata_drive\<close>. On any such
  drive the driver keeps the contract of \<open>Disk_Spec\<close>, and the kernel's SCSI disk works on it.
\<close>

unbundle bit_operations_syntax

section \<open>The driver\<close>

definition BLKSZ_ata :: u32 where "BLKSZ_ata = 512"
definition DISKSZ :: u32 where "DISKSZ = push_bit 20 64"

definition disk_config_ata :: "'h \<Rightarrow> bool \<times> u32 \<times> u32" where
  "disk_config_ata h = (True, BLKSZ_ata, DISKSZ div BLKSZ_ata)"

definition disk_status_ata :: "'h \<Rightarrow> bool" where
  "disk_status_ata h = True"

text \<open>Polling the status register until the drive is ready and not busy.\<close>

partial_function (option) wait_disk :: "'h port_io \<Rightarrow> 'h \<Rightarrow> 'h option" where
  "wait_disk P h = (case inb P 0x1f7 h of (st, h) \<Rightarrow> if st AND 0xc0 \<noteq> 0x40 then wait_disk P h else Some h)"

text \<open>The two inner loops, over the words at \<open>ptr\<close>.\<close>

primrec write_words :: "'h port_io \<Rightarrow> nat \<Rightarrow> u8 list \<Rightarrow> 'h \<Rightarrow> 'h" where
  "write_words P 0 ptr h = h"
| "write_words P (Suc i) ptr h = write_words P i (drop 4 ptr) (outl P 0x1f0 (of_le32 ptr) h)"

primrec read_words :: "'h port_io \<Rightarrow> nat \<Rightarrow> 'h \<Rightarrow> u8 list \<times> 'h" where
  "read_words P 0 h = ([], h)"
| "read_words P (Suc i) h = (let (w, h) = inl P 0x1f0 h; (bs, h) = read_words P i h in (le32 w @ bs, h))"

definition send_command :: "'h port_io \<Rightarrow> bool \<Rightarrow> u32 \<Rightarrow> 'h \<Rightarrow> 'h" where
  "send_command P write blkno h =
     (let h = outb P 0x1f2 1 h;
          h = outb P 0x1f3 (ucast blkno) h;
          h = outb P 0x1f4 (ucast (drop_bit 8 blkno)) h;
          h = outb P 0x1f5 (ucast (drop_bit 16 blkno)) h;
          h = outb P 0x1f6 (ucast (drop_bit 24 blkno OR 0xe0)) h
      in outb P 0x1f7 (if write then 0x30 else 0x20) h)"

text \<open>The loop over the sectors; \<open>ptr\<close> is the place in the buffer.\<close>

primrec blkio_loop :: "'h port_io \<Rightarrow> bool \<Rightarrow> nat \<Rightarrow> u32 \<Rightarrow> nat \<Rightarrow> u8 list \<Rightarrow> 'h \<Rightarrow> (u8 list \<times> 'h) res" where
  "blkio_loop P write 0 blkno ptr buf h = Inr (buf, h)"
| "blkio_loop P write (Suc remain) blkno ptr buf h =
     res_bind (forever (wait_disk P h)) (\<lambda>h.
     res_bind (forever (wait_disk P (send_command P write blkno h))) (\<lambda>h.
     res_bind (guard BadAccess (ptr + 512 \<le> length buf)) (\<lambda>_.
     if write
     then blkio_loop P write remain (blkno + 1) (ptr + 512) buf (write_words P (unat (BLKSZ_ata div 4)) (drop ptr buf) h)
     else (let (bs, h) = read_words P (unat (BLKSZ_ata div 4)) h
       in blkio_loop P write remain (blkno + 1) (ptr + 512) (patch ptr bs buf) h))))"

definition disk_blkio_ata :: "'h port_io \<Rightarrow> bool \<Rightarrow> u8 list \<Rightarrow> u32 \<Rightarrow> u32 \<Rightarrow> 'h \<Rightarrow> (u8 list \<times> 'h) res" where
  "disk_blkio_ata P write buf blkno blkcnt h = blkio_loop P write (unat blkcnt) blkno 0 buf h"

definition ata_io :: "'h port_io \<Rightarrow> 'h disk_io" where
  "ata_io P = \<lparr>disk_config = disk_config_ata, disk_status = disk_status_ata, disk_blkio = disk_blkio_ata P\<rparr>"

section \<open>The drive\<close>

text \<open>What the driver can see of a drive: the sector registers, the transfer under way and the data.\<close>

datatype transfer = Idle | Sending "u8 list" | Receiving "u8 list"

record ata =
  sectors :: u8
  lba0 :: u8
  lba1 :: u8
  lba2 :: u8
  drive :: u8
  xfer :: transfer
  platter :: "u8 list"

definition lba :: "ata \<Rightarrow> nat" where
  "lba a = unat (lba0 a) + 2 ^ 8 * unat (lba1 a) + 2 ^ 16 * unat (lba2 a) + 2 ^ 24 * unat (drive a AND 0x0f)"

text \<open>
  The status register reads busy or not ready a bounded number of times, \<open>busy\<close>, after each command or sector and
  reading it changes nothing else.
\<close>

definition ata_status :: "'h port_io \<Rightarrow> ('h \<Rightarrow> bool) \<Rightarrow> ('h \<Rightarrow> nat) \<Rightarrow> ('h \<Rightarrow> ata) \<Rightarrow> bool" where
  "ata_status P ok busy view \<longleftrightarrow> (\<forall>h. ok h \<longrightarrow> (\<exists>st h'. inb P 0x1f7 h = (st, h') \<and> ok h' \<and> view h' = view h \<and>
     (if st AND 0xc0 = 0x40 then busy h' = 0 else busy h' < busy h)))"

text \<open>The registers of a drive that is ready and idle.\<close>

definition set_register :: "u16 \<Rightarrow> u8 \<Rightarrow> ata \<Rightarrow> ata" where
  "set_register r v a =
     (if r = 0x1f2 then a\<lparr>sectors := v\<rparr> else if r = 0x1f3 then a\<lparr>lba0 := v\<rparr> else if r = 0x1f4 then a\<lparr>lba1 := v\<rparr>
      else if r = 0x1f5 then a\<lparr>lba2 := v\<rparr> else a\<lparr>drive := v\<rparr>)"

definition ata_registers :: "'h port_io \<Rightarrow> ('h \<Rightarrow> bool) \<Rightarrow> ('h \<Rightarrow> nat) \<Rightarrow> ('h \<Rightarrow> ata) \<Rightarrow> bool" where
  "ata_registers P ok busy view \<longleftrightarrow> (\<forall>h v. \<forall>r \<in> {0x1f2, 0x1f3, 0x1f4, 0x1f5, 0x1f6}. ok h \<and> busy h = 0 \<and> xfer (view h) = Idle \<longrightarrow>
     ok (outb P r v h) \<and> busy (outb P r v h) = 0 \<and> view (outb P r v h) = set_register r v (view h))"

text \<open>The commands 0x20 and 0x30 for one sector of the first drive, addressed by 28 bits.\<close>

definition ata_command :: "'h port_io \<Rightarrow> ('h \<Rightarrow> bool) \<Rightarrow> ('h \<Rightarrow> nat) \<Rightarrow> ('h \<Rightarrow> ata) \<Rightarrow> bool" where
  "ata_command P ok busy view \<longleftrightarrow> (\<forall>h. ok h \<and> busy h = 0 \<and> xfer (view h) = Idle \<and> sectors (view h) = 1 \<and>
     drive (view h) AND 0xf0 = 0xe0 \<and> (lba (view h) + 1) * 512 \<le> length (platter (view h)) \<longrightarrow>
     ok (outb P 0x1f7 0x20 h) \<and>
     view (outb P 0x1f7 0x20 h) = (view h)\<lparr>xfer := Sending (take 512 (drop (lba (view h) * 512) (platter (view h))))\<rparr> \<and>
     ok (outb P 0x1f7 0x30 h) \<and> view (outb P 0x1f7 0x30 h) = (view h)\<lparr>xfer := Receiving []\<rparr>)"

text \<open>The data register; the sector is written when its last word has come.\<close>

definition ata_data_in :: "'h port_io \<Rightarrow> ('h \<Rightarrow> bool) \<Rightarrow> ('h \<Rightarrow> nat) \<Rightarrow> ('h \<Rightarrow> ata) \<Rightarrow> bool" where
  "ata_data_in P ok busy view \<longleftrightarrow> (\<forall>h w bs. ok h \<and> busy h = 0 \<and> xfer (view h) = Sending (le32 w @ bs) \<longrightarrow>
     (\<exists>h'. inl P 0x1f0 h = (w, h') \<and> ok h' \<and> (bs \<noteq> [] \<longrightarrow> busy h' = 0) \<and>
        view h' = (view h)\<lparr>xfer := if bs = [] then Idle else Sending bs\<rparr>))"

definition ata_data_out :: "'h port_io \<Rightarrow> ('h \<Rightarrow> bool) \<Rightarrow> ('h \<Rightarrow> nat) \<Rightarrow> ('h \<Rightarrow> ata) \<Rightarrow> bool" where
  "ata_data_out P ok busy view \<longleftrightarrow> (\<forall>h w bs. ok h \<and> busy h = 0 \<and> xfer (view h) = Receiving bs \<and> length bs + 4 \<le> 512 \<longrightarrow>
     (let h' = outl P 0x1f0 w h; bs = bs @ le32 w in ok h' \<and>
        (if length bs = 512 then view h' = (view h)\<lparr>xfer := Idle, platter := patch (lba (view h) * 512) bs (platter (view h))\<rparr>
         else busy h' = 0 \<and> view h' = (view h)\<lparr>xfer := Receiving bs\<rparr>)))"

definition ata_drive :: "'h port_io \<Rightarrow> ('h \<Rightarrow> bool) \<Rightarrow> ('h \<Rightarrow> nat) \<Rightarrow> ('h \<Rightarrow> ata) \<Rightarrow> bool" where
  "ata_drive P ok busy view \<longleftrightarrow> ata_status P ok busy view \<and> ata_registers P ok busy view \<and> ata_command P ok busy view \<and>
     ata_data_in P ok busy view \<and> ata_data_out P ok busy view"

section \<open>One sector\<close>

lemma wait_disk_ok:
  assumes "ata_drive P ok busy view" and "ok h"
  shows "\<exists>h'. wait_disk P h = Some h' \<and> ok h' \<and> busy h' = 0 \<and> view h' = view h"
  using assms(2)
proof (induction "busy h" arbitrary: h rule: less_induct)
  case less
  obtain st h' where h': "inb P 0x1f7 h = (st, h')" "ok h'" "view h' = view h"
    "if st AND 0xc0 = 0x40 then busy h' = 0 else busy h' < busy h"
    using assms(1) less.prems unfolding ata_drive_def ata_status_def by blast
  show ?case
  proof (cases "st AND 0xc0 = 0x40")
    case True
    then show ?thesis using h' by (subst wait_disk.simps) simp
  next
    case False
    then have "busy h' < busy h" using h'(4) by simp
    then obtain h2 where "wait_disk P h' = Some h2" "ok h2" "busy h2 = 0" "view h2 = view h'"
      using less.hyps h'(2) by blast
    then show ?thesis using False h' by (subst wait_disk.simps) simp
  qed
qed

text \<open>The 28 bits of a sector number, as the five registers hold them.\<close>

lemma drive_bits:
  assumes "unat (x :: u32) < 16"
  shows "unat (ucast (x OR 0xe0) AND 0x0f :: u8) = unat x" and "ucast (x OR 0xe0) AND 0xf0 = (0xe0 :: u8)"
proof -
  have "x = of_nat (unat x)" by simp
  moreover have "unat x \<in> {0, 1, 2, 3, 4, 5, 6, 7, 8, 9, 10, 11, 12, 13, 14, 15}" using assms by (simp add: numeral_eq_Suc less_Suc_eq)
  ultimately have "x \<in> of_nat ` {0, 1, 2, 3, 4, 5, 6, 7, 8, 9, 10, 11, 12, 13, 14, 15}" by (rule image_eqI)
  then show "unat (ucast (x OR 0xe0) AND 0x0f :: u8) = unat x" and "ucast (x OR 0xe0) AND 0xf0 = (0xe0 :: u8)"
    by (simp_all, safe) simp_all
qed

lemma unat_byte: "unat (ucast (w :: u32) :: u8) = unat w mod 256"
  by (simp add: unsigned_ucast_eq take_bit_eq_mod)

lemma lba_registers:
  assumes "unat (k :: u32) < 2 ^ 28"
  shows "unat (ucast k :: u8) + 2 ^ 8 * unat (ucast (drop_bit 8 k) :: u8) + 2 ^ 16 * unat (ucast (drop_bit 16 k) :: u8) +
    2 ^ 24 * unat (ucast (drop_bit 24 k OR 0xe0) AND 0x0f :: u8) = unat k"
proof -
  have "unat (drop_bit 24 k) < 16" using assms by (simp add: unat_drop_bit)
  then have d: "unat (ucast (drop_bit 24 k OR 0xe0) AND 0x0f :: u8) = unat k div 2 ^ 24" by (simp only: drive_bits unat_drop_bit)
  have "n mod 256 + 256 * (n div 256 mod 256) + 65536 * (n div 65536 mod 256) + 16777216 * (n div 16777216) = n" for n :: nat
  proof -
    have "n div 65536 = n div 256 div 256" "n div 16777216 = n div 256 div 256 div 256" by (simp_all flip: div_mult2_eq)
    moreover have "x mod 256 + 256 * (x div 256) = x" for x :: nat by simp
    from this [of n] this [of "n div 256"] this [of "n div 256 div 256"]
    have "n mod 256 + 256 * (n div 256 mod 256) + 65536 * (n div 256 div 256 mod 256) + 16777216 * (n div 256 div 256 div 256) = n"
      by linarith
    ultimately show ?thesis by simp
  qed
  then show ?thesis unfolding d by (simp add: unat_byte unat_drop_bit)
qed

text \<open>After the six port writes the drive transfers the sector.\<close>

lemma send_command_ok:
  assumes "ata_drive P ok busy view" and "ok h" "busy h = 0" "xfer (view h) = Idle"
    and "unat blkno < 2 ^ 28" and "(unat blkno + 1) * 512 \<le> length (platter (view h))"
  shows "\<exists>a. lba a = unat blkno \<and> platter a = platter (view h) \<and> ok (send_command P write blkno h) \<and>
    view (send_command P write blkno h) =
      a\<lparr>xfer := if write then Receiving [] else Sending (take 512 (drop (unat blkno * 512) (platter (view h))))\<rparr>"
proof -
  have reg: "ok (outb P r v h) \<and> busy (outb P r v h) = 0 \<and> view (outb P r v h) = set_register r v (view h)"
    if "ok h \<and> busy h = 0 \<and> view h = a" "r \<in> {0x1f2, 0x1f3, 0x1f4, 0x1f5, 0x1f6}" "xfer a = Idle" for r v h a
  proof -
    have "ata_registers P ok busy view" using assms(1) by (simp add: ata_drive_def)
    from this [unfolded ata_registers_def, rule_format, OF that(2)] show ?thesis using that(1,3) by blast
  qed
  let ?h1 = "outb P 0x1f2 1 h"
  let ?h2 = "outb P 0x1f3 (ucast blkno) ?h1"
  let ?h3 = "outb P 0x1f4 (ucast (drop_bit 8 blkno)) ?h2"
  let ?h4 = "outb P 0x1f5 (ucast (drop_bit 16 blkno)) ?h3"
  let ?h5 = "outb P 0x1f6 (ucast (drop_bit 24 blkno OR 0xe0)) ?h4"
  let ?a1 = "(view h)\<lparr>sectors := 1\<rparr>"
  let ?a2 = "?a1\<lparr>lba0 := ucast blkno\<rparr>"
  let ?a3 = "?a2\<lparr>lba1 := ucast (drop_bit 8 blkno)\<rparr>"
  let ?a4 = "?a3\<lparr>lba2 := ucast (drop_bit 16 blkno)\<rparr>"
  let ?a = "?a4\<lparr>drive := ucast (drop_bit 24 blkno OR 0xe0)\<rparr>"
  have h1: "ok ?h1 \<and> busy ?h1 = 0 \<and> view ?h1 = ?a1" using reg [of h "view h" "0x1f2" 1] assms(2-4) by (simp add: set_register_def)
  have h2: "ok ?h2 \<and> busy ?h2 = 0 \<and> view ?h2 = ?a2" using reg [OF h1, of "0x1f3"] h1 assms(4) by (simp add: set_register_def)
  have h3: "ok ?h3 \<and> busy ?h3 = 0 \<and> view ?h3 = ?a3" using reg [OF h2, of "0x1f4"] h2 assms(4) by (simp add: set_register_def)
  have h4: "ok ?h4 \<and> busy ?h4 = 0 \<and> view ?h4 = ?a4" using reg [OF h3, of "0x1f5"] h3 assms(4) by (simp add: set_register_def)
  have h5: "ok ?h5" "busy ?h5 = 0" "view ?h5 = ?a" using reg [OF h4, of "0x1f6"] h4 assms(4) by (simp_all add: set_register_def)
  have l: "lba ?a = unat blkno" using lba_registers [OF assms(5)] by (simp add: lba_def)
  have "unat (drop_bit 24 blkno) < 16" using assms(5) by (simp add: unat_drop_bit)
  then have "drive ?a AND 0xf0 = 0xe0" by (simp add: drive_bits(2))
  then have "ok (outb P 0x1f7 0x20 ?h5)" "view (outb P 0x1f7 0x20 ?h5) = ?a\<lparr>xfer := Sending (take 512 (drop (unat blkno * 512) (platter (view h))))\<rparr>"
    "ok (outb P 0x1f7 0x30 ?h5)" "view (outb P 0x1f7 0x30 ?h5) = ?a\<lparr>xfer := Receiving []\<rparr>"
    using assms(1,4,6) h5 l unfolding ata_drive_def ata_command_def by simp_all
  then show ?thesis
    by (intro exI [of _ ?a]) (simp add: send_command_def Let_def l)
qed

lemma le32_of_le32: "4 \<le> length bs \<Longrightarrow> le32 (of_le32 bs) = take 4 bs"
proof -
  assume "4 \<le> length bs"
  then obtain a b c d bs' where bs: "bs = a # b # c # d # bs'"
    by (cases bs; cases "tl bs"; cases "tl (tl bs)"; cases "tl (tl (tl bs))") auto
  have "ucast (of_le32 bs) = a" "ucast (drop_bit 8 (of_le32 bs)) = b" "ucast (drop_bit 16 (of_le32 bs)) = c" "ucast (drop_bit 24 (of_le32 bs)) = d"
    by (rule bit_word_eqI; auto simp: of_le32_def bs bit_simps dest: bit_imp_le_length)+
  then show ?thesis by (simp add: le32_def bs)
qed

lemma data_in:
  assumes "ata_drive P ok busy view" and "ok h" "busy h = 0" "xfer (view h) = Sending bs" "4 \<le> length bs"
  obtains h' where "inl P 0x1f0 h = (of_le32 bs, h')" "ok h'" "drop 4 bs \<noteq> [] \<longrightarrow> busy h' = 0"
    "view h' = (view h)\<lparr>xfer := if drop 4 bs = [] then Idle else Sending (drop 4 bs)\<rparr>"
proof -
  have "ata_data_in P ok busy view" using assms(1) by (simp add: ata_drive_def)
  moreover have "xfer (view h) = Sending (le32 (of_le32 bs) @ drop 4 bs)" using assms(4,5) by (simp add: le32_of_le32)
  ultimately have "\<exists>h'. inl P 0x1f0 h = (of_le32 bs, h') \<and> ok h' \<and> (drop 4 bs \<noteq> [] \<longrightarrow> busy h' = 0) \<and>
      view h' = (view h)\<lparr>xfer := if drop 4 bs = [] then Idle else Sending (drop 4 bs)\<rparr>"
    using assms(2,3) unfolding ata_data_in_def by blast
  then show ?thesis using that by blast
qed

lemma read_words_ok:
  assumes "ata_drive P ok busy view"
  shows "ok h \<Longrightarrow> busy h = 0 \<Longrightarrow> xfer (view h) = Sending bs \<Longrightarrow> length bs = 4 * Suc n \<Longrightarrow>
    \<exists>h'. read_words P (Suc n) h = (bs, h') \<and> ok h' \<and> view h' = (view h)\<lparr>xfer := Idle\<rparr>"
proof (induction n arbitrary: h bs)
  case 0
  then obtain h' where "inl P 0x1f0 h = (of_le32 bs, h')" "ok h'" "view h' = (view h)\<lparr>xfer := Idle\<rparr>"
    using data_in [OF assms, of h bs] by auto
  then show ?case using 0(4) by (simp add: le32_of_le32)
next
  case (Suc n)
  then obtain h' where h': "inl P 0x1f0 h = (of_le32 bs, h')" "ok h'" "busy h' = 0" "view h' = (view h)\<lparr>xfer := Sending (drop 4 bs)\<rparr>"
    using data_in [OF assms, of h bs] by auto
  then obtain h2 where h2: "read_words P (Suc n) h' = (drop 4 bs, h2)" "ok h2" "view h2 = (view h')\<lparr>xfer := Idle\<rparr>"
    using Suc.IH [of h' "drop 4 bs"] Suc.prems(4) by auto
  have "read_words P (Suc (Suc n)) h = (le32 (of_le32 bs) @ drop 4 bs, h2)"
    unfolding read_words.simps(2) [of P "Suc n"] h'(1) by (simp only: Let_def h2(1) split_def fst_conv snd_conv)
  then show ?case using h'(4) h2(2,3) Suc.prems(4) by (simp add: le32_of_le32)
qed

lemma data_out:
  assumes "ata_drive P ok busy view" and "ok h" "busy h = 0" "xfer (view h) = Receiving bs" "4 \<le> length ptr" "length bs + 4 \<le> 512"
  shows "ok (outl P 0x1f0 (of_le32 ptr) h)"
    "if length bs + 4 = 512
     then view (outl P 0x1f0 (of_le32 ptr) h) =
       (view h)\<lparr>xfer := Idle, platter := patch (lba (view h) * 512) (bs @ take 4 ptr) (platter (view h))\<rparr>
     else busy (outl P 0x1f0 (of_le32 ptr) h) = 0 \<and> view (outl P 0x1f0 (of_le32 ptr) h) = (view h)\<lparr>xfer := Receiving (bs @ take 4 ptr)\<rparr>"
proof -
  have "ata_data_out P ok busy view" using assms(1) by (simp add: ata_drive_def)
  then have "let h' = outl P 0x1f0 (of_le32 ptr) h; bs = bs @ le32 (of_le32 ptr) in ok h' \<and>
      (if length bs = 512 then view h' = (view h)\<lparr>xfer := Idle, platter := patch (lba (view h) * 512) bs (platter (view h))\<rparr>
       else busy h' = 0 \<and> view h' = (view h)\<lparr>xfer := Receiving bs\<rparr>)"
    using assms(2-4,6) unfolding ata_data_out_def by blast
  then show "ok (outl P 0x1f0 (of_le32 ptr) h)"
    "if length bs + 4 = 512
     then view (outl P 0x1f0 (of_le32 ptr) h) =
       (view h)\<lparr>xfer := Idle, platter := patch (lba (view h) * 512) (bs @ take 4 ptr) (platter (view h))\<rparr>
     else busy (outl P 0x1f0 (of_le32 ptr) h) = 0 \<and> view (outl P 0x1f0 (of_le32 ptr) h) = (view h)\<lparr>xfer := Receiving (bs @ take 4 ptr)\<rparr>"
    using assms(5) by (simp_all add: Let_def le32_of_le32)
qed

lemma write_words_ok:
  assumes "ata_drive P ok busy view"
  shows "ok h \<Longrightarrow> busy h = 0 \<Longrightarrow> xfer (view h) = Receiving bs \<Longrightarrow> length bs + 4 * Suc n = 512 \<Longrightarrow> 4 * Suc n \<le> length ptr \<Longrightarrow>
    ok (write_words P (Suc n) ptr h) \<and> view (write_words P (Suc n) ptr h) =
      (view h)\<lparr>xfer := Idle, platter := patch (lba (view h) * 512) (bs @ take (4 * Suc n) ptr) (platter (view h))\<rparr>"
proof (induction n arbitrary: h bs ptr)
  case 0
  then show ?case
    using data_out [OF assms, of h bs ptr] by simp
next
  case (Suc n)
  let ?h = "outl P 0x1f0 (of_le32 ptr) h" and ?bs = "bs @ take 4 ptr"
  have h: "ok ?h" "busy ?h = 0" "view ?h = (view h)\<lparr>xfer := Receiving ?bs\<rparr>"
    using data_out [OF assms Suc.prems(1-3), of ptr] Suc.prems(4,5) by simp_all
  have "lba (view ?h) = lba (view h)" by (simp add: h(3) lba_def)
  moreover have "take 4 ptr @ take (4 * Suc n) (drop 4 ptr) = take (4 * Suc (Suc n)) ptr"
    using take_add [of 4 "4 * Suc n" ptr] by simp
  moreover have "ok (write_words P (Suc n) (drop 4 ptr) ?h) \<and> view (write_words P (Suc n) (drop 4 ptr) ?h) =
      (view ?h)\<lparr>xfer := Idle, platter := patch (lba (view ?h) * 512) (?bs @ take (4 * Suc n) (drop 4 ptr)) (platter (view ?h))\<rparr>"
    using Suc.prems(4,5) by (intro Suc.IH) (simp_all add: h)
  ultimately show ?case
    unfolding write_words.simps(2) [of P "Suc n"] using h(3) by simp
qed

section \<open>Any number of sectors\<close>

text \<open>A drive of at most 2 to the 28 sectors that is between commands.\<close>

definition ata_idle :: "('h \<Rightarrow> bool) \<Rightarrow> ('h \<Rightarrow> ata) \<Rightarrow> 'h \<Rightarrow> bool" where
  "ata_idle ok view h \<longleftrightarrow> ok h \<and> xfer (view h) = Idle \<and> length (platter (view h)) \<le> 2 ^ 28 * 512"

lemma words_per_sector: "unat (BLKSZ_ata div 4) = Suc 127"
  by (simp add: BLKSZ_ata_def)

lemma sector_ok:
  assumes "ata_drive P ok busy view" and "ata_idle ok view h" and "(unat blkno + 1) * 512 \<le> length (platter (view h))"
    and "ptr + 512 \<le> length buf"
  shows "\<exists>h'. ata_idle ok view h' \<and>
    platter (view h') = (if write then patch (unat blkno * 512) (take 512 (drop ptr buf)) (platter (view h)) else platter (view h)) \<and>
    blkio_loop P write (Suc remain) blkno ptr buf h =
      blkio_loop P write remain (blkno + 1) (ptr + 512)
        (if write then buf else patch ptr (take 512 (drop (unat blkno * 512) (platter (view h)))) buf) h'"
proof -
  obtain h1 where h1: "wait_disk P h = Some h1" "ok h1" "busy h1 = 0" "view h1 = view h"
    using wait_disk_ok [OF assms(1)] assms(2) unfolding ata_idle_def by blast
  have "unat blkno < 2 ^ 28" using assms(2,3) by (simp add: ata_idle_def)
  then obtain a where a: "lba a = unat blkno" "platter a = platter (view h)" "ok (send_command P write blkno h1)"
    "view (send_command P write blkno h1) =
      a\<lparr>xfer := if write then Receiving [] else Sending (take 512 (drop (unat blkno * 512) (platter (view h))))\<rparr>"
    using send_command_ok [OF assms(1) h1(2,3), of blkno "write"] assms(2,3) h1(4) by (auto simp: ata_idle_def)
  obtain h2 where h2: "wait_disk P (send_command P write blkno h1) = Some h2" "ok h2" "busy h2 = 0"
    "view h2 = a\<lparr>xfer := if write then Receiving [] else Sending (take 512 (drop (unat blkno * 512) (platter (view h))))\<rparr>"
    using wait_disk_ok [OF assms(1) a(3)] a(4) by auto
  have l: "lba (view h2) = unat blkno" using h2(4) a(1) by (simp add: lba_def)
  show ?thesis
  proof (cases "write")
    case True
    let ?h = "write_words P (Suc 127) (drop ptr buf) h2"
    have "ok ?h \<and> view ?h = (view h2)\<lparr>xfer := Idle, platter := patch (lba (view h2) * 512) ([] @ take (4 * Suc 127) (drop ptr buf)) (platter (view h2))\<rparr>"
      using assms(4) h2 True by (intro write_words_ok [OF assms(1)]) simp_all
    then have "ok ?h" "xfer (view ?h) = Idle" "platter (view ?h) = patch (unat blkno * 512) (take 512 (drop ptr buf)) (platter (view h))"
      using l h2(4) a(2) by simp_all
    then show ?thesis
      using True assms(2-4) h1(1) h2(1)
      by (intro exI [of _ ?h]) (simp add: ata_idle_def words_per_sector del: write_words.simps)
  next
    case False
    let ?bs = "take 512 (drop (unat blkno * 512) (platter (view h)))"
    have "length ?bs = 4 * Suc 127" using assms(3) by simp
    then obtain h3 where "read_words P (Suc 127) h2 = (?bs, h3)" "ok h3" "view h3 = (view h2)\<lparr>xfer := Idle\<rparr>"
      using read_words_ok [OF assms(1) h2(2,3), of ?bs 127] h2(4) False by auto
    then show ?thesis
      using False assms(2,4) h1(1) h2(1,4) a(2)
      by (intro exI [of _ h3]) (simp add: ata_idle_def words_per_sector Let_def del: read_words.simps)
  qed
qed

lemma blkio_loop_ok:
  assumes "ata_drive P ok busy view"
  shows "ata_idle ok view h \<Longrightarrow> (unat blkno + remain) * 512 \<le> length (platter (view h)) \<Longrightarrow> ptr + remain * 512 = length buf \<Longrightarrow>
    \<exists>h'. blkio_loop P write remain blkno ptr buf h =
        Inr (if write then buf else patch ptr (take (remain * 512) (drop (unat blkno * 512) (platter (view h)))) buf, h') \<and>
      ata_idle ok view h' \<and>
      platter (view h') = (if write then patch (unat blkno * 512) (drop ptr buf) (platter (view h)) else platter (view h))"
proof (induction remain arbitrary: blkno ptr buf h)
  case 0
  then show ?case by simp
next
  case (Suc remain)
  let ?bs = "take 512 (drop (unat blkno * 512) (platter (view h)))"
  let ?buf = "if write then buf else patch ptr ?bs buf"
  have one: "(unat blkno + 1) * 512 \<le> length (platter (view h))" and room: "ptr + 512 \<le> length buf" using Suc.prems(2,3) by simp_all
  obtain h1 where h1: "ata_idle ok view h1"
    "platter (view h1) = (if write then patch (unat blkno * 512) (take 512 (drop ptr buf)) (platter (view h)) else platter (view h))"
    "blkio_loop P write (Suc remain) blkno ptr buf h = blkio_loop P write remain (blkno + 1) (ptr + 512) ?buf h1"
    using sector_ok [OF assms Suc.prems(1) one room] by blast
  have lp: "length (platter (view h1)) = length (platter (view h))" using one room h1(2) by simp
  have lb: "length ?buf = length buf" using one room by simp
  have "unat blkno + 1 < 2 ^ 32" using one Suc.prems(1) by (simp add: ata_idle_def)
  then have k: "unat (blkno + 1) = unat blkno + 1" by (subst unat_add_nowrap) simp_all
  obtain h2 where h2: "blkio_loop P write remain (blkno + 1) (ptr + 512) ?buf h1 =
      Inr (if write then ?buf else patch (ptr + 512) (take (remain * 512) (drop (unat (blkno + 1) * 512) (platter (view h1)))) ?buf, h2)"
    "ata_idle ok view h2"
    "platter (view h2) = (if write then patch (unat (blkno + 1) * 512) (drop (ptr + 512) ?buf) (platter (view h1)) else platter (view h1))"
    using Suc.IH [of h1 "blkno + 1" "ptr + 512" ?buf] h1(1) Suc.prems(2,3) by (auto simp: lp lb k)
  show ?case
  proof (cases "write")
    case True
    have "patch (unat blkno * 512 + length (take 512 (drop ptr buf))) (drop (ptr + 512) buf) (patch (unat blkno * 512) (take 512 (drop ptr buf)) (platter (view h))) =
        patch (unat blkno * 512) (take 512 (drop ptr buf) @ drop (ptr + 512) buf) (platter (view h))"
      using Suc.prems(2,3) by (intro patch_patch) simp
    moreover have "take 512 (drop ptr buf) @ drop (ptr + 512) buf = drop ptr buf"
      using append_take_drop_id [of 512 "drop ptr buf"] by (simp add: add.commute)
    ultimately show ?thesis using True h1 h2 room by (intro exI [of _ h2]) (simp add: k add.commute [of "512 :: nat"])
  next
    case False
    have "patch (ptr + length ?bs) (take (remain * 512) (drop (unat blkno * 512 + 512) (platter (view h)))) (patch ptr ?bs buf) =
        patch ptr (?bs @ take (remain * 512) (drop (unat blkno * 512 + 512) (platter (view h)))) buf"
      using Suc.prems(2,3) by (intro patch_patch) simp
    moreover have "?bs @ take (remain * 512) (drop (unat blkno * 512 + 512) (platter (view h))) =
        take (Suc remain * 512) (drop (unat blkno * 512) (platter (view h)))"
      using take_add [of 512 "remain * 512" "drop (unat blkno * 512) (platter (view h))"] by (simp add: add.commute)
    moreover have "length ?bs = 512" using one by simp
    ultimately show ?thesis using False h1 h2 by (intro exI [of _ h2]) (simp add: k add.commute [of "512 :: nat"])
  qed
qed

lemma ata_is_disk:
  assumes "ata_drive P ok busy view"
  shows "disk (ata_io P) (\<lambda>h. ata_idle ok view h \<and> length (platter (view h)) = unat DISKSZ) (platter \<circ> view) 512"
proof
  fix h b and k :: u32
  show "\<exists>bsz cnt. disk_config (ata_io P) h = (True, bsz, cnt) \<and> unat bsz = 512 \<and> length ((platter \<circ> view) h) = unat cnt * 512"
    if "ata_idle ok view h \<and> length (platter (view h)) = unat DISKSZ"
    using that by (simp add: ata_io_def disk_config_ata_def BLKSZ_ata_def DISKSZ_def)
  show "disk_status (ata_io P) h" by (simp add: ata_io_def disk_status_ata_def)
  show "length ((platter \<circ> view) h) < 2 ^ 31" if "ata_idle ok view h \<and> length (platter (view h)) = unat DISKSZ"
    using that by (simp add: DISKSZ_def)
  show "\<exists>d'. disk_blkio (ata_io P) False b k 1 h = Inr (take 512 (drop (unat k * 512) ((platter \<circ> view) h)), d') \<and>
      (ata_idle ok view d' \<and> length (platter (view d')) = unat DISKSZ) \<and> (platter \<circ> view) d' = (platter \<circ> view) h"
    if "ata_idle ok view h \<and> length (platter (view h)) = unat DISKSZ" "length b = 512" "(unat k + 1) * 512 \<le> length ((platter \<circ> view) h)"
  proof -
    have "length (take 512 (drop (unat k * 512) (platter (view h)))) = length b" using that(2,3) by simp
    then have "patch 0 (take 512 (drop (unat k * 512) (platter (view h)))) b = take 512 (drop (unat k * 512) (platter (view h)))"
      by (simp add: patch_def)
    then show ?thesis
      using blkio_loop_ok [OF assms, of h k 1 0 b False] that by (auto simp: ata_io_def disk_blkio_ata_def)
  qed
  show "\<exists>d'. disk_blkio (ata_io P) True b k 1 h = Inr (b, d') \<and>
      (ata_idle ok view d' \<and> length (platter (view d')) = unat DISKSZ) \<and> (platter \<circ> view) d' = patch (unat k * 512) b ((platter \<circ> view) h)"
    if "ata_idle ok view h \<and> length (platter (view h)) = unat DISKSZ" "length b = 512" "(unat k + 1) * 512 \<le> length ((platter \<circ> view) h)"
    using blkio_loop_ok [OF assms, of h k 1 0 b True] that by (auto simp: ata_io_def disk_blkio_ata_def)
  show "\<exists>j<31. (512 :: nat) = 2 ^ j" by (intro exI [of _ 9]) simp
qed

section \<open>The properties\<close>

text \<open>A drive that answers after three polls.\<close>

record sim_drive =
  sim_busy :: nat
  sim_view :: ata

definition sim_command :: "u8 \<Rightarrow> ata \<Rightarrow> ata" where
  "sim_command v a = a\<lparr>xfer := if v = 0x30 then Receiving [] else Sending (take 512 (drop (lba a * 512) (platter a)))\<rparr>"

definition sim_ports :: "sim_drive port_io" where
  "sim_ports = \<lparr>inb = (\<lambda>_ h. (if sim_busy h = 0 then 0x50 else 0x80, h\<lparr>sim_busy := sim_busy h - 1\<rparr>)),
     outb = (\<lambda>r v h. if r = 0x1f7 then \<lparr>sim_busy = 3, sim_view = sim_command v (sim_view h)\<rparr>
       else h\<lparr>sim_view := set_register r v (sim_view h)\<rparr>),
     inl = (\<lambda>_ h. case xfer (sim_view h) of
         Sending bs \<Rightarrow> (of_le32 bs, h\<lparr>sim_view := (sim_view h)\<lparr>xfer := if drop 4 bs = [] then Idle else Sending (drop 4 bs)\<rparr>\<rparr>)
       | _ \<Rightarrow> (0, h)),
     outl = (\<lambda>_ w h. case xfer (sim_view h) of
         Receiving bs \<Rightarrow> (let bs = bs @ le32 w; a = sim_view h in
           if length bs = 512 then \<lparr>sim_busy = 3, sim_view = a\<lparr>xfer := Idle, platter := patch (lba a * 512) bs (platter a)\<rparr>\<rparr>
           else h\<lparr>sim_view := a\<lparr>xfer := Receiving bs\<rparr>\<rparr>)
       | _ \<Rightarrow> h)\<rparr>"

definition sim_disk :: "u8 list \<Rightarrow> sim_drive" where
  "sim_disk bytes = \<lparr>sim_busy = 2, sim_view = \<lparr>sectors = 0, lba0 = 0, lba1 = 0, lba2 = 0, drive = 0, xfer = Idle, platter = bytes\<rparr>\<rparr>"

lemma sim_is_drive: "ata_drive sim_ports (\<lambda>_. True) sim_busy sim_view"
proof -
  have "ata_status sim_ports (\<lambda>_. True) sim_busy sim_view"
    by (auto simp: ata_status_def sim_ports_def)
  moreover have "ata_registers sim_ports (\<lambda>_. True) sim_busy sim_view"
    by (simp add: ata_registers_def sim_ports_def)
  moreover have "ata_command sim_ports (\<lambda>_. True) sim_busy sim_view"
    by (simp add: ata_command_def sim_ports_def sim_command_def)
  moreover have "ata_data_in sim_ports (\<lambda>_. True) sim_busy sim_view"
    by (auto simp: ata_data_in_def sim_ports_def)
  moreover have "ata_data_out sim_ports (\<lambda>_. True) sim_busy sim_view"
    by (simp add: ata_data_out_def sim_ports_def Let_def)
  ultimately show ?thesis by (simp add: ata_drive_def)
qed

lemma sim_idle: "length bytes \<le> 2 ^ 28 * 512 \<Longrightarrow> ata_idle (\<lambda>_. True) sim_view (sim_disk bytes)"
  by (simp add: ata_idle_def sim_disk_def)

text \<open>
  C21: on every drive that behaves as ATA documents and is idle, the driver's transfer of any number
  of sectors on the disk ends without a fault: a read fills the buffer with the bytes of these
  sectors and changes nothing on the disk, a write leaves the buffer and replaces exactly these
  sectors, and the drive is idle again.
\<close>

theorem ata_transfer_correct:
  assumes "ata_drive P ok busy view" and "ata_idle ok view h"
    and "(unat blkno + unat blkcnt) * 512 \<le> length (platter (view h))" and "length buf = unat blkcnt * 512"
  shows "\<exists>h'. disk_blkio_ata P write buf blkno blkcnt h =
      Inr (if write then buf else take (unat blkcnt * 512) (drop (unat blkno * 512) (platter (view h))), h') \<and>
    ata_idle ok view h' \<and>
    platter (view h') = (if write then patch (unat blkno * 512) buf (platter (view h)) else platter (view h))"
proof -
  let ?bs = "take (unat blkcnt * 512) (drop (unat blkno * 512) (platter (view h)))"
  have "length ?bs = length buf" using assms(3,4) by (simp add: algebra_simps)
  then have "patch 0 ?bs buf = ?bs" by (simp add: patch_def)
  then show ?thesis
    using blkio_loop_ok [OF assms(1,2), of blkno "unat blkcnt" 0 buf "write"] assms(3,4) by (auto simp: disk_blkio_ata_def)
qed

lemma ata_transfer_correct_witness:
  "\<exists>h'. disk_blkio_ata sim_ports True (replicate 1024 7) 1 2 (sim_disk (replicate 2048 0)) =
      Inr (if True then replicate 1024 7 else take (unat (2 :: u32) * 512) (drop (unat (1 :: u32) * 512) (platter (sim_view (sim_disk (replicate 2048 0))))), h') \<and>
    ata_idle (\<lambda>_. True) sim_view h' \<and>
    platter (sim_view h') = (if True then patch (unat (1 :: u32) * 512) (replicate 1024 7) (platter (sim_view (sim_disk (replicate 2048 0))))
      else platter (sim_view (sim_disk (replicate 2048 0))))"
  by (rule ata_transfer_correct [OF sim_is_drive sim_idle]) (simp_all add: sim_disk_def)

text \<open>
  C19: the kernel's SCSI disk works on the qemu platform: over every ATA drive of 64 MiB, bytes written
  at any offset are read back from it, and no byte outside the range has changed.
\<close>

theorem sd_on_ata:
  assumes "ata_drive P ok busy view" and "ata_idle ok view h" and "length (platter (view h)) = unat DISKSZ"
    and "\<forall>n. length (pmm_alloc n) = unat n"
    and "unat offset + length data \<le> unat DISKSZ" and "length data = unat count" and "length buf = unat count"
  shows "\<exists>sd sd' h' sd'' h''. sd_init (ata_io P) pmm_alloc h = Some sd \<and>
    sd_write (ata_io P) (Some sd) offset data count h = Inr (count, sd', h') \<and>
    sd_read (ata_io P) (Some sd') offset buf count h' = Inr (count, data, sd'', h'') \<and>
    platter (view h'') = take (unat offset) (platter (view h)) @ data @ drop (unat offset + length data) (platter (view h))"
proof -
  note d = ata_is_disk [OF assms(1)]
  have h: "ata_idle ok view h \<and> length (platter (view h)) = unat DISKSZ" using assms(2,3) by simp
  obtain sd where sd: "sd_init (ata_io P) pmm_alloc h = Some sd" "disk.sd_ok 512 sd"
    using disk.sd_init_ok [OF d h, of pmm_alloc] assms(4) by auto
  then show ?thesis
    using disk.sd_write_read [OF d h sd(2), of offset count data buf] assms(3,5-7) by (auto simp: patch_def)
qed

lemma sd_on_ata_witness:
  "\<exists>sd sd' h' sd'' h''. sd_init (ata_io sim_ports) (\<lambda>n. replicate (unat n) 0) (sim_disk (replicate (unat DISKSZ) 0)) = Some sd \<and>
    sd_write (ata_io sim_ports) (Some sd) 511 [1, 2, 3] 3 (sim_disk (replicate (unat DISKSZ) 0)) = Inr (3, sd', h') \<and>
    sd_read (ata_io sim_ports) (Some sd') 511 [0, 0, 0] 3 h' = Inr (3, [1, 2, 3], sd'', h'') \<and>
    platter (sim_view h'') = take (unat (511 :: u32)) (platter (sim_view (sim_disk (replicate (unat DISKSZ) 0)))) @ [1, 2, 3] @
      drop (unat (511 :: u32) + length [1, 2, 3 :: u8]) (platter (sim_view (sim_disk (replicate (unat DISKSZ) 0))))"
proof (rule sd_on_ata [OF sim_is_drive sim_idle])
  have D: "unat DISKSZ = 67108864" by (simp add: DISKSZ_def)
  show "length (replicate (unat DISKSZ) 0) \<le> 2 ^ 28 * 512" by (simp add: D)
  show "length (platter (sim_view (sim_disk (replicate (unat DISKSZ) 0)))) = unat DISKSZ" by (simp add: sim_disk_def)
  show "unat (511 :: u32) + length [1, 2, 3 :: u8] \<le> unat DISKSZ" by (simp add: D)
qed simp_all

end
