(* ===== verification/Native_Vme.thy ===== *)
theory Native_Vme
  imports Vme
begin

text \<open>
  Virtual memory of the native platform, \<open>am/src/native/vme.c\<close> with the two calls of \<open>platform.c\<close>: an address
  space is a list of \<open>PageMap\<close> nodes with a table that finds the node of an address, and switching to it maps
  every page of the list into the process with \<open>mmap\<close>. Nodes and heads are objects in pages that the caller's
  \<open>pgalloc\<close> returns, so they live in a store; the mappings of the process are a map from page addresses to the
  offset in the memory file and the protection.
\<close>

unbundle bit_operations_syntax

section \<open>Data\<close>

definition USER_SPACE :: Area where
  "USER_SPACE = \<lparr>ar_start = 0x40000000, ar_end = 0xc0000000\<rparr>"

definition PMEM_START :: addr where "PMEM_START = 0x1000000"

record PageMap =
  pm_va :: addr
  pm_pa :: addr
  pm_next :: addr
  pm_prot :: u32
  is_mapped :: bool
  pm_key :: string

text \<open>The table of \<open>hsearch_r\<close>: its entries, and the number it was created for.\<close>

record VMHead =
  vh_head :: addr
  vh_hash :: "(string \<times> addr) list"
  vh_nel :: nat
  nr_page :: nat

text \<open>\<open>spare\<close> is what \<open>pgalloc\<close> keeps, \<open>host\<close> the mappings of the process, \<open>vm_head\<close> that of \<open>thiscpu\<close>.\<close>

record 'a native =
  spare :: 'a
  nodes :: "addr \<rightharpoonup> PageMap"
  heads :: "addr \<rightharpoonup> VMHead"
  host :: "addr \<rightharpoonup> addr \<times> u32"
  vm_head :: addr
  vme_enable :: bool

definition deref :: "(addr \<rightharpoonup> 'b) \<Rightarrow> addr \<Rightarrow> 'b res" where
  "deref m p = (case m p of None \<Rightarrow> Inl BadAccess | Some x \<Rightarrow> Inr x)"

lemma deref_simps [simp]: "m p = Some x \<Longrightarrow> deref m p = Inr x" "m p = None \<Longrightarrow> deref m p = Inl BadAccess"
  by (simp_all add: deref_def)

section \<open>The process\<close>

text \<open>The protection bits are 1 for reading, 2 for writing and 4 for executing.\<close>

definition host_prot :: "u32 \<Rightarrow> u32" where
  "host_prot prot = (if prot AND MMAP_READ \<noteq> 0 then 1 OR 4 else 0) OR (if prot AND MMAP_WRITE \<noteq> 0 then 2 else 0)"

definition pmem_map :: "addr \<Rightarrow> addr \<Rightarrow> u32 \<Rightarrow> 'a native \<Rightarrow> 'a native" where
  "pmem_map va pa prot s = s\<lparr>host := (host s)(va \<mapsto> (pa - PMEM_START, host_prot prot))\<rparr>"

definition pmem_unmap :: "addr \<Rightarrow> 'a native \<Rightarrow> 'a native" where
  "pmem_unmap va s = s\<lparr>host := (host s)(va := None)\<rparr>"

section \<open>Keys\<close>

text \<open>The digits \<open>"%x"\<close> prints; as the value has the type of a pointer, its low 32 bits are printed.\<close>

definition hex_char :: "nat \<Rightarrow> char" where
  "hex_char d = ''0123456789abcdef'' ! d"

fun hex_digits :: "nat \<Rightarrow> string" where
  "hex_digits n = (if n < 16 then [hex_char n] else hex_digits (n div 16) @ [hex_char (n mod 16)])"

declare hex_digits.simps [simp del]

definition key_of :: "addr \<Rightarrow> string" where
  "key_of va = hex_digits (unat (ucast va :: u32))"

section \<open>Operations\<close>

definition vme_init_native :: "'a native \<Rightarrow> bool \<times> 'a native" where
  "vme_init_native s = (True, s\<lparr>vme_enable := True\<rparr>)"

definition protect_native :: "u32 \<Rightarrow> ('a \<Rightarrow> addr \<times> 'a) \<Rightarrow> 'a native \<Rightarrow> (addr \<times> 'a native) res" where
  "protect_native pgsize pgalloc s =
     (let (h, a) = pgalloc (spare s)
      in res_bind (guard AssertFail (h \<noteq> 0)) (\<lambda>_.
         let max_pg = unat (ar_end USER_SPACE - ar_start USER_SPACE) div unat pgsize
         in Inr (h, s\<lparr>spare := a, heads := (heads s)(h \<mapsto> \<lparr>vh_head = 0, vh_hash = [], vh_nel = max_pg, nr_page = 0\<rparr>)\<rparr>)))"

definition unprotect_native :: "addr \<Rightarrow> 'a native \<Rightarrow> 'a native" where
  "unprotect_native h s = s"

text \<open>The two loops of \<open>__am_switch\<close> over a list; \<open>None\<close> is a list that does not end.\<close>

partial_function (option) unmap_all :: "addr \<Rightarrow> 'a native \<Rightarrow> 'a native res option" where
  "unmap_all pp s =
     (if pp = 0 then Some (Inr s)
      else case nodes s pp of
        None \<Rightarrow> Some (Inl BadAccess)
      | Some p \<Rightarrow> unmap_all (pm_next p)
          (if is_mapped p then (pmem_unmap (pm_va p) s)\<lparr>nodes := (nodes s)(pp \<mapsto> p\<lparr>is_mapped := False\<rparr>)\<rparr> else s))"

partial_function (option) map_all :: "addr \<Rightarrow> 'a native \<Rightarrow> 'a native res option" where
  "map_all pp s =
     (if pp = 0 then Some (Inr s)
      else case nodes s pp of
        None \<Rightarrow> Some (Inl BadAccess)
      | Some p \<Rightarrow> if IN_RANGE (pm_va p) USER_SPACE
          then map_all (pm_next p) ((pmem_map (pm_va p) (pm_pa p) (pm_prot p) s)\<lparr>nodes := (nodes s)(pp \<mapsto> p\<lparr>is_mapped := True\<rparr>)\<rparr>)
          else Some (Inl AssertFail))"

text \<open>The list loops give a result or do not end, which is \<open>Deadlock\<close>.\<close>

definition ends :: "'b res option \<Rightarrow> 'b res" where
  "ends m = (case m of None \<Rightarrow> Inl Deadlock | Some r \<Rightarrow> r)"

lemma ends_simps [simp]: "ends (Some r) = r" "ends None = Inl Deadlock"
  by (simp_all add: ends_def)

definition switch_native :: "addr \<Rightarrow> 'a native \<Rightarrow> 'a native res" where
  "switch_native head s =
     (if \<not> vme_enable s then Inr s
      else
        let now_head = vm_head s
        in if head = now_head then Inr (s\<lparr>vm_head := head\<rparr>)
           else
             res_bind (if now_head \<noteq> 0 then res_bind (deref (heads s) now_head) (\<lambda>h. ends (unmap_all (vh_head h) s)) else Inr s) (\<lambda>s.
             res_bind (if head \<noteq> 0 then res_bind (deref (heads s) head) (\<lambda>h. ends (map_all (vh_head h) s)) else Inr s) (\<lambda>s.
             Inr (s\<lparr>vm_head := head\<rparr>))))"

text \<open>
  \<open>as\<close> is the address of the head. The node is found in the table or made; either way it becomes the first of the list.
\<close>

definition map_find :: "('a \<Rightarrow> addr \<times> 'a) \<Rightarrow> addr \<Rightarrow> addr \<Rightarrow> VMHead \<Rightarrow> 'a native \<Rightarrow> (addr \<times> PageMap \<times> VMHead \<times> 'a native) res" where
  "map_find pgalloc as va h s =
     (let buf = key_of va
      in case map_of (vh_hash h) buf of
           None \<Rightarrow>
             (let (pp, a) = pgalloc (spare s)
              in res_bind (guard BadAccess (pp \<noteq> 0)) (\<lambda>_.
                 res_bind (guard AssertFail (length (vh_hash h) < vh_nel h)) (\<lambda>_.
                 Inr (pp, \<lparr>pm_va = 0, pm_pa = 0, pm_next = 0, pm_prot = 0, is_mapped = False, pm_key = key_of va\<rparr>,
                   h\<lparr>vh_hash := (key_of va, pp) # vh_hash h, nr_page := nr_page h + 1\<rparr>, s\<lparr>spare := a\<rparr>))))
         | Some pp \<Rightarrow> res_bind (deref (nodes s) pp) (\<lambda>p. Inr (pp, p, h, s)))"

definition map_native :: "u32 \<Rightarrow> ('a \<Rightarrow> addr \<times> 'a) \<Rightarrow> addr \<Rightarrow> addr \<Rightarrow> addr \<Rightarrow> u32 \<Rightarrow> 'a native \<Rightarrow> 'a native res" where
  "map_native pgsize pgalloc as va pa prot s =
     res_bind (guard AssertFail (IN_RANGE va USER_SPACE)) (\<lambda>_.
     res_bind (guard AssertFail (va mod ucast pgsize = 0)) (\<lambda>_.
     res_bind (guard AssertFail (pa mod ucast pgsize = 0)) (\<lambda>_.
     res_bind (guard AssertFail (as \<noteq> 0)) (\<lambda>_.
     res_bind (deref (heads s) as) (\<lambda>h.
     res_bind (map_find pgalloc as va h s) (\<lambda>(pp, p, h, s).
     let p = p\<lparr>pm_va := va, pm_pa := pa, pm_prot := prot, is_mapped := False, pm_next := vh_head h\<rparr>;
         s = s\<lparr>nodes := (nodes s)(pp \<mapsto> p), heads := (heads s)(as \<mapsto> h\<lparr>vh_head := pp\<rparr>)\<rparr>
     in if as = vm_head s
        then Inr ((pmem_map va pa prot s)\<lparr>nodes := (nodes s)(pp \<mapsto> p\<lparr>is_mapped := True\<rparr>)\<rparr>)
        else Inr s))))))"

definition in_userspace_native :: "addr \<Rightarrow> 'a native \<Rightarrow> bool" where
  "in_userspace_native a s \<longleftrightarrow> vme_enable s \<and> vm_head s \<noteq> 0 \<and> IN_RANGE a USER_SPACE"

section \<open>Keys are unique\<close>

lemma hex_char_inj: "i < 16 \<Longrightarrow> j < 16 \<Longrightarrow> hex_char i = hex_char j \<longleftrightarrow> i = j"
proof -
  assume "i < 16" "j < 16"
  have "distinct ''0123456789abcdef''" by simp
  then show ?thesis using \<open>i < 16\<close> \<open>j < 16\<close> unfolding hex_char_def by (subst nth_eq_iff_index_eq) simp_all
qed

lemma hex_digits_not_Nil: "hex_digits n \<noteq> []"
  by (subst hex_digits.simps) simp

lemma hex_digits_inj: "hex_digits m = hex_digits n \<Longrightarrow> m = n"
proof (induction m arbitrary: n rule: hex_digits.induct)
  case (1 m)
  show ?case
  proof (cases "m < 16")
    case True
    have "n < 16"
    proof (rule ccontr)
      assume "\<not> n < 16"
      then have "length (hex_digits n) > 1" using hex_digits_not_Nil [of "n div 16"] by (subst hex_digits.simps) simp
      moreover have "length (hex_digits m) = 1" using True by (subst hex_digits.simps) simp
      ultimately show False using 1(2) by simp
    qed
    then show ?thesis using True 1(2) hex_digits.simps [of m] hex_digits.simps [of n] hex_char_inj by simp
  next
    case False
    have m: "hex_digits m = hex_digits (m div 16) @ [hex_char (m mod 16)]" using False by (subst hex_digits.simps) simp
    have "\<not> n < 16"
    proof
      assume "n < 16"
      then have "length (hex_digits n) = 1" by (subst hex_digits.simps) simp
      moreover have "length (hex_digits m) > 1" unfolding m using hex_digits_not_Nil [of "m div 16"] by simp
      ultimately show False using 1(2) by simp
    qed
    then have n: "hex_digits n = hex_digits (n div 16) @ [hex_char (n mod 16)]" by (subst hex_digits.simps) simp
    have "hex_digits (m div 16) = hex_digits (n div 16)" "hex_char (m mod 16) = hex_char (n mod 16)" using 1(2) m n by simp_all
    then have "m div 16 = n div 16" "m mod 16 = n mod 16" using 1(1) [OF False] hex_char_inj by simp_all
    then show ?thesis by (metis div_mult_mod_eq)
  qed
qed

lemma user_low: "IN_RANGE va USER_SPACE \<Longrightarrow> unat (ucast va :: u32) = unat va"
proof -
  assume "IN_RANGE va USER_SPACE"
  then have "unat va < 2 ^ 32" by (simp add: IN_RANGE_def USER_SPACE_def word_less_nat_alt)
  then show ?thesis by (simp add: unsigned_ucast_eq take_bit_nat_eq_self_iff)
qed

lemma key_of_inj: "IN_RANGE va USER_SPACE \<Longrightarrow> IN_RANGE vb USER_SPACE \<Longrightarrow> key_of va = key_of vb \<Longrightarrow> va = vb"
  by (auto simp: key_of_def user_low dest!: hex_digits_inj intro: unsigned_word_eqI)

section \<open>Lists of nodes\<close>

primrec path :: "(addr \<rightharpoonup> PageMap) \<Rightarrow> addr \<Rightarrow> addr list \<Rightarrow> bool" where
  "path m p [] \<longleftrightarrow> p = 0"
| "path m p (x # xs) \<longleftrightarrow> p = x \<and> x \<noteq> 0 \<and> (\<exists>n. m x = Some n \<and> path m (pm_next n) xs)"

lemma path_frame: "(\<And>x. x \<in> set xs \<Longrightarrow> map_option pm_next (m' x) = map_option pm_next (m x)) \<Longrightarrow> path m p xs \<Longrightarrow> path m' p xs"
proof (induction xs arbitrary: p)
  case (Cons x xs)
  from Cons.prems(2) obtain n where n: "p = x" "x \<noteq> 0" "m x = Some n" "path m (pm_next n) xs" by auto
  have "map_option pm_next (m' x) = Some (pm_next n)" using Cons.prems(1) [of x] n(3) by simp
  then obtain n' where "m' x = Some n'" "pm_next n' = pm_next n" by auto
  then show ?case using n Cons.IH [of "pm_next n"] Cons.prems(1) by auto
qed simp

lemma path_node: "path m p xs \<Longrightarrow> x \<in> set xs \<Longrightarrow> x \<noteq> 0 \<and> (\<exists>n. m x = Some n)"
  by (induction xs arbitrary: p) auto

text \<open>The mapping a list of nodes stands for, and what the process then has.\<close>

abbreviation node :: "(addr \<rightharpoonup> PageMap) \<Rightarrow> addr \<Rightarrow> PageMap" where
  "node m x \<equiv> the (m x)"

type_synonym space = "addr \<rightharpoonup> addr \<times> u32"

definition space_of :: "(addr \<rightharpoonup> PageMap) \<Rightarrow> addr list \<Rightarrow> space" where
  "space_of m xs = map_of (List.map (\<lambda>x. (pm_va (node m x), (pm_pa (node m x), pm_prot (node m x)))) xs)"

definition host_view :: "space \<Rightarrow> space" where
  "host_view sp = (\<lambda>va. map_option (\<lambda>(pa, prot). (pa - PMEM_START, host_prot prot)) (sp va))"

lemma host_view_upd: "host_view (sp(va \<mapsto> (pa, prot))) = (host_view sp)(va \<mapsto> (pa - PMEM_START, host_prot prot))"
  by (auto simp: host_view_def)

lemma host_view_empty [simp]: "host_view Map.empty = Map.empty"
  by (simp add: host_view_def)

lemma dom_host_view: "dom (host_view sp) = dom sp"
  by (simp add: host_view_def dom_def)

lemma space_of_Cons: "space_of m (x # xs) = (space_of m xs)(pm_va (node m x) \<mapsto> (pm_pa (node m x), pm_prot (node m x)))"
  by (simp add: space_of_def)

lemma space_of_Nil [simp]: "space_of m [] = Map.empty"
  by (simp add: space_of_def)

lemma dom_space_of: "dom (space_of m xs) = (\<lambda>x. pm_va (node m x)) ` set xs"
  by (simp add: space_of_def dom_map_of_conv_image_fst image_image)

lemma space_of_frame:
  assumes "\<And>x. x \<in> set xs \<Longrightarrow> pm_va (node m' x) = pm_va (node m x) \<and> pm_pa (node m' x) = pm_pa (node m x) \<and> pm_prot (node m' x) = pm_prot (node m x)"
  shows "space_of m' xs = space_of m xs"
  unfolding space_of_def using assms by (intro arg_cong [where f = map_of] map_cong) simp_all

text \<open>The nodes with their marks set to \<open>b\<close>.\<close>

definition marked :: "bool \<Rightarrow> addr set \<Rightarrow> (addr \<rightharpoonup> PageMap) \<Rightarrow> addr \<rightharpoonup> PageMap" where
  "marked b A m = (\<lambda>x. if x \<in> A then map_option (\<lambda>n. n\<lparr>is_mapped := b\<rparr>) (m x) else m x)"

lemma marked_fields:
  "map_option pm_next (marked b A m x) = map_option pm_next (m x)"
  "m x = Some n \<Longrightarrow> pm_va (node (marked b A m) x) = pm_va n \<and> pm_pa (node (marked b A m) x) = pm_pa n \<and>
     pm_prot (node (marked b A m) x) = pm_prot n \<and> is_mapped (node (marked b A m) x) = (if x \<in> A then b else is_mapped n)"
  "m x = Some n \<Longrightarrow> \<exists>n'. marked b A m x = Some n'"
  by (cases "m x"; simp add: marked_def)+

lemma marked_insert: "m x = Some n \<Longrightarrow> x \<notin> A \<Longrightarrow> marked b A (m(x \<mapsto> n\<lparr>is_mapped := b\<rparr>)) = marked b (insert x A) m"
  by (auto simp: marked_def fun_eq_iff)

lemma map_all_ok:
  assumes "path (nodes s) p xs" and "distinct xs" and "\<And>x. x \<in> set xs \<Longrightarrow> IN_RANGE (pm_va (node (nodes s) x)) USER_SPACE"
    and "distinct (List.map (\<lambda>x. pm_va (node (nodes s) x)) xs)"
  shows "map_all p s = Some (Inr (s\<lparr>host := host s ++ host_view (space_of (nodes s) xs), nodes := marked True (set xs) (nodes s)\<rparr>))"
  using assms
proof (induction xs arbitrary: p s)
  case Nil
  then show ?case by (subst map_all.simps) (simp add: marked_def)
next
  case (Cons x xs)
  from Cons.prems(1) obtain n where n: "p = x" "x \<noteq> 0" "nodes s x = Some n" "path (nodes s) (pm_next n) xs" by auto
  let ?s = "(pmem_map (pm_va n) (pm_pa n) (pm_prot n) s)\<lparr>nodes := (nodes s)(x \<mapsto> n\<lparr>is_mapped := True\<rparr>)\<rparr>"
  have same: "((nodes s)(x \<mapsto> n\<lparr>is_mapped := True\<rparr>)) y = nodes s y" if "y \<in> set xs" for y using that Cons.prems(2) by auto
  have "path (nodes ?s) (pm_next n) xs" by (rule path_frame [OF _ n(4)]) (simp add: n(3))
  moreover have "distinct (List.map (\<lambda>x. pm_va (node (nodes ?s) x)) xs)"
    using Cons.prems(4) by (simp add: distinct_map inj_on_def same del: fun_upd_apply)
  ultimately have i: "map_all (pm_next n) ?s = Some (Inr (?s\<lparr>host := host ?s ++ host_view (space_of (nodes ?s) xs),
      nodes := marked True (set xs) (nodes ?s)\<rparr>))"
    using Cons.prems(2,3) by (intro Cons.IH) (auto simp: same simp del: fun_upd_apply)
  have sp: "space_of (nodes ?s) xs = space_of (nodes s) xs" by (rule space_of_frame) (simp add: same del: fun_upd_apply)
  have "pm_va n \<notin> dom (space_of (nodes s) xs)" using Cons.prems(4) n(3) by (simp add: dom_space_of)
  then have "host ?s ++ host_view (space_of (nodes ?s) xs) = host s ++ host_view (space_of (nodes s) (x # xs))"
    unfolding sp using n(3) by (auto simp: space_of_Cons host_view_def pmem_map_def map_add_def fun_eq_iff split: option.splits)
  moreover have "marked True (set xs) (nodes ?s) = marked True (set (x # xs)) (nodes s)"
    using marked_insert [of "nodes s" x n "set xs" True] n(3) Cons.prems(2) by simp
  moreover have "map_all p s = map_all (pm_next n) ?s"
    using n Cons.prems(3) [of x] by (subst map_all.simps) simp
  ultimately show ?case using i by (simp add: pmem_map_def)
qed

lemma unmap_all_ok:
  assumes "path (nodes s) p xs" and "distinct xs" and "\<And>x. x \<in> set xs \<Longrightarrow> is_mapped (node (nodes s) x)"
  shows "unmap_all p s = Some (Inr (s\<lparr>host := host s |` (- dom (space_of (nodes s) xs)), nodes := marked False (set xs) (nodes s)\<rparr>))"
  using assms
proof (induction xs arbitrary: p s)
  case Nil
  then show ?case by (subst unmap_all.simps) (simp add: marked_def restrict_map_def)
next
  case (Cons x xs)
  from Cons.prems(1) obtain n where n: "p = x" "x \<noteq> 0" "nodes s x = Some n" "path (nodes s) (pm_next n) xs" by auto
  let ?s = "(pmem_unmap (pm_va n) s)\<lparr>nodes := (nodes s)(x \<mapsto> n\<lparr>is_mapped := False\<rparr>)\<rparr>"
  have same: "((nodes s)(x \<mapsto> n\<lparr>is_mapped := False\<rparr>)) y = nodes s y" if "y \<in> set xs" for y using that Cons.prems(2) by auto
  have "path (nodes ?s) (pm_next n) xs" by (rule path_frame [OF _ n(4)]) (simp add: n(3))
  then have i: "unmap_all (pm_next n) ?s = Some (Inr (?s\<lparr>host := host ?s |` (- dom (space_of (nodes ?s) xs)),
      nodes := marked False (set xs) (nodes ?s)\<rparr>))"
    using Cons.prems(2,3) by (intro Cons.IH) (auto simp: same simp del: fun_upd_apply)
  have sp: "space_of (nodes ?s) xs = space_of (nodes s) xs" by (rule space_of_frame) (simp add: same del: fun_upd_apply)
  have "host ?s |` (- dom (space_of (nodes ?s) xs)) = host s |` (- dom (space_of (nodes s) (x # xs)))"
    unfolding sp using n(3) by (auto simp: space_of_Cons pmem_unmap_def restrict_map_def fun_eq_iff)
  moreover have "marked False (set xs) (nodes ?s) = marked False (set (x # xs)) (nodes s)"
    using marked_insert [of "nodes s" x n "set xs" False] n(3) Cons.prems(2) by simp
  moreover have "unmap_all p s = unmap_all (pm_next n) ?s"
    using n Cons.prems(3) [of x] by (subst unmap_all.simps) simp
  ultimately show ?case using i by (simp add: pmem_unmap_def)
qed

section \<open>The invariant\<close>

text \<open>
  \<open>L h\<close> are the nodes of the space at \<open>h\<close>: a list that ends, for distinct pages of the user space, found by
  their keys, and marked exactly when the space is the current one.
\<close>

definition head_ok :: "u32 \<Rightarrow> (addr \<rightharpoonup> PageMap) \<Rightarrow> addr \<Rightarrow> addr list \<Rightarrow> addr \<Rightarrow> VMHead \<Rightarrow> bool" where
  "head_ok pgsize m cur xs h v \<longleftrightarrow> path m (vh_head v) xs \<and> distinct xs \<and> distinct (List.map (\<lambda>x. pm_va (node m x)) xs) \<and>
     (\<forall>x \<in> set xs. IN_RANGE (pm_va (node m x)) USER_SPACE \<and> unat (pm_va (node m x)) mod unat pgsize = 0 \<and>
        is_mapped (node m x) = (h = cur)) \<and>
     vh_hash v = List.map (\<lambda>x. (key_of (pm_va (node m x)), x)) xs \<and> nr_page v = length xs \<and> vh_nel v = 0x80000000 div unat pgsize"

definition native_ok :: "u32 \<Rightarrow> ('a \<Rightarrow> addr set) \<Rightarrow> 'a native \<Rightarrow> (addr \<Rightarrow> addr list) \<Rightarrow> bool" where
  "native_ok pgsize got s L \<longleftrightarrow> vme_enable s \<and> heads s 0 = None \<and>
     (\<forall>h v. heads s h = Some v \<longrightarrow> head_ok pgsize (nodes s) (vm_head s) (L h) h v \<and> insert h (set (L h)) \<subseteq> got (spare s)) \<and>
     (\<forall>h \<in> dom (heads s). \<forall>h' \<in> dom (heads s). h \<noteq> h' \<longrightarrow> set (L h) \<inter> set (L h') = {}) \<and>
     (vm_head s = 0 \<or> vm_head s \<in> dom (heads s)) \<and>
     host s = (if vm_head s = 0 then Map.empty else host_view (space_of (nodes s) (L (vm_head s))))"

text \<open>What the caller's \<open>pgalloc\<close> promises while it has pages left: one it has not given out.\<close>

definition page_supply :: "('a \<Rightarrow> addr \<times> 'a) \<Rightarrow> ('a \<Rightarrow> addr set) \<Rightarrow> ('a \<Rightarrow> nat) \<Rightarrow> bool" where
  "page_supply pgalloc got room \<longleftrightarrow> (\<forall>a. 0 < room a \<longrightarrow> (\<exists>p a'. pgalloc a = (p, a') \<and> p \<noteq> 0 \<and> p \<notin> got a \<and>
     got a' = insert p (got a) \<and> room a' = room a - 1))"

lemma head_ok_change:
  assumes "head_ok pgsize m cur xs h v" and "\<And>x. map_option pm_next (m' x) = map_option pm_next (m x) \<or> x \<notin> set xs"
    and "\<And>x. x \<in> set xs \<Longrightarrow> pm_va (node m' x) = pm_va (node m x) \<and> is_mapped (node m' x) = (h = cur')"
  shows "head_ok pgsize m' cur' xs h v"
proof -
  have p: "path m' (vh_head v) xs" by (rule path_frame [of xs m' m]) (use assms(1,2) in \<open>auto simp: head_ok_def\<close>)
  have e: "List.map (\<lambda>x. pm_va (node m' x)) xs = List.map (\<lambda>x. pm_va (node m x)) xs"
    "List.map (\<lambda>x. (key_of (pm_va (node m' x)), x)) xs = List.map (\<lambda>x. (key_of (pm_va (node m x)), x)) xs"
    using assms(3) by simp_all
  show ?thesis
    unfolding head_ok_def e using p assms(1,3) by (simp add: head_ok_def)
qed

lemma head_ok_frame:
  assumes "head_ok pgsize m cur xs h v" and "\<And>x. x \<in> set xs \<Longrightarrow> m' x = m x"
  shows "head_ok pgsize m' cur xs h v"
  using assms(1) by (rule head_ok_change) (use assms in \<open>auto simp: head_ok_def\<close>)

lemma head_ok_marked:
  assumes "head_ok pgsize m cur xs h v"
  shows "set xs \<subseteq> A \<Longrightarrow> b = (h = cur') \<Longrightarrow> head_ok pgsize (marked b A m) cur' xs h v"
    and "set xs \<inter> A = {} \<Longrightarrow> (h = cur) = (h = cur') \<Longrightarrow> head_ok pgsize (marked b A m) cur' xs h v"
proof -
  have n: "\<exists>n. m x = Some n" if "x \<in> set xs" for x using assms that path_node unfolding head_ok_def by blast
  have f: "pm_va (node (marked b A m) x) = pm_va (node m x)"
    "is_mapped (node (marked b A m) x) = (if x \<in> A then b else is_mapped (node m x))" if "x \<in> set xs" for x
    using n [OF that] marked_fields(2) by fastforce+
  have u: "is_mapped (node m x) = (h = cur)" if "x \<in> set xs" for x using assms that by (simp add: head_ok_def)
  show "head_ok pgsize (marked b A m) cur' xs h v" if "set xs \<subseteq> A" "b = (h = cur')"
    by (rule head_ok_change [OF assms]) (use that f in \<open>auto simp: marked_fields(1)\<close>)
  show "head_ok pgsize (marked b A m) cur' xs h v" if "set xs \<inter> A = {}" "(h = cur) = (h = cur')"
  proof (rule head_ok_change [OF assms])
    fix x assume x: "x \<in> set xs"
    then have "x \<notin> A" using that(1) by blast
    then show "pm_va (node (marked b A m) x) = pm_va (node m x) \<and> is_mapped (node (marked b A m) x) = (h = cur')"
      using f [OF x] u [OF x] that(2) by simp
  qed (simp add: marked_fields(1))
qed

lemma space_of_marked: "path m p xs \<Longrightarrow> space_of (marked b A m) xs = space_of m xs"
proof (rule space_of_frame)
  fix x assume "path m p xs" "x \<in> set xs"
  then obtain n where "m x = Some n" using path_node by blast
  then show "pm_va (node (marked b A m) x) = pm_va (node m x) \<and> pm_pa (node (marked b A m) x) = pm_pa (node m x) \<and>
      pm_prot (node (marked b A m) x) = pm_prot (node m x)"
    using marked_fields(2) [of m x n b A] by simp
qed

lemma native_okD:
  assumes "native_ok pgsize got s L"
  shows "vme_enable s" and "heads s 0 = None" and "heads s h = Some v \<Longrightarrow> head_ok pgsize (nodes s) (vm_head s) (L h) h v"
    and "heads s h = Some v \<Longrightarrow> h \<in> got (spare s)" and "heads s h = Some v \<Longrightarrow> x \<in> set (L h) \<Longrightarrow> x \<in> got (spare s)"
    and "h \<in> dom (heads s) \<Longrightarrow> h' \<in> dom (heads s) \<Longrightarrow> h \<noteq> h' \<Longrightarrow> set (L h) \<inter> set (L h') = {}"
    and "vm_head s = 0 \<or> vm_head s \<in> dom (heads s)"
    and "host s = (if vm_head s = 0 then Map.empty else host_view (space_of (nodes s) (L (vm_head s))))"
  using assms unfolding native_ok_def by (blast, blast, blast, blast, blast, blast, blast, blast)

section \<open>Protect\<close>

lemma protect_native_ok:
  assumes "native_ok pgsize got s L" and "page_supply pgalloc got room" and "0 < room (spare s)"
  shows "\<exists>h s'. protect_native pgsize pgalloc s = Inr (h, s') \<and> h \<noteq> 0 \<and> h \<notin> dom (heads s) \<and> dom (heads s') = insert h (dom (heads s)) \<and>
    native_ok pgsize got s' (L(h := [])) \<and> nodes s' = nodes s \<and> vm_head s' = vm_head s \<and> room (spare s') = room (spare s) - 1"
proof -
  obtain h a where a: "pgalloc (spare s) = (h, a)" "h \<noteq> 0" "h \<notin> got (spare s)" "got a = insert h (got (spare s))" "room a = room (spare s) - 1"
    using assms(2,3) unfolding page_supply_def by blast
  let ?v = "\<lparr>vh_head = 0, vh_hash = [], vh_nel = unat (ar_end USER_SPACE - ar_start USER_SPACE) div unat pgsize, nr_page = 0\<rparr>"
  let ?s = "s\<lparr>spare := a, heads := (heads s)(h \<mapsto> ?v)\<rparr>"
  note ok = native_okD [OF assms(1)]
  have new: "h \<notin> dom (heads s)" using ok(4) a(3) by blast
  then have cur: "vm_head s \<noteq> h" using ok(7) a(2) by metis
  have h: "head_ok pgsize (nodes s) (vm_head s) [] h ?v" by (simp add: head_ok_def USER_SPACE_def)
  have "head_ok pgsize (nodes s) (vm_head s) ((L(h := [])) h') h' v \<and> insert h' (set ((L(h := [])) h')) \<subseteq> got a"
    if "heads ?s h' = Some v" for h' v
  proof (cases "h' = h")
    case True
    then show ?thesis using that h a(4) by simp
  next
    case False
    then have "heads s h' = Some v" using that by simp
    then show ?thesis using False a(4) ok(3-5) by auto
  qed
  moreover have "set ((L(h := [])) h1) \<inter> set ((L(h := [])) h2) = {}"
    if "h1 \<in> dom (heads ?s)" "h2 \<in> dom (heads ?s)" "h1 \<noteq> h2" for h1 h2
  proof (cases "h1 = h \<or> h2 = h")
    case False
    then have "h1 \<in> dom (heads s)" "h2 \<in> dom (heads s)" using that(1,2) by auto
    then show ?thesis using ok(6) that(3) False by simp
  qed auto
  ultimately have "native_ok pgsize got ?s (L(h := []))"
    unfolding native_ok_def using ok(1,2,7,8) a(2) cur by simp
  moreover have "protect_native pgsize pgalloc s = Inr (h, ?s)" using a(1,2) by (simp add: protect_native_def Let_def)
  ultimately show ?thesis using new a(2,5) by auto
qed

section \<open>Switch\<close>

lemma unmap_current:
  assumes "native_ok pgsize got s L" and "vm_head s \<noteq> 0"
  shows "\<exists>v. heads s (vm_head s) = Some v \<and> unmap_all (vh_head v) s =
    Some (Inr (s\<lparr>host := Map.empty, nodes := marked False (set (L (vm_head s))) (nodes s)\<rparr>))"
proof -
  note ok = assms(1) [unfolded native_ok_def]
  obtain v where v: "heads s (vm_head s) = Some v" using ok assms(2) by auto
  then have h: "head_ok pgsize (nodes s) (vm_head s) (L (vm_head s)) (vm_head s) v" using ok by blast
  have "host s |` (- dom (space_of (nodes s) (L (vm_head s)))) = Map.empty"
  proof -
    have "dom (host s) = dom (space_of (nodes s) (L (vm_head s)))" using ok assms(2) by (simp add: dom_host_view)
    moreover have "m |` (- dom m) = Map.empty" for m :: space by (auto simp: restrict_map_def fun_eq_iff)
    ultimately show ?thesis by metis
  qed
  moreover have "unmap_all (vh_head v) s = Some (Inr (s\<lparr>host := host s |` (- dom (space_of (nodes s) (L (vm_head s)))),
      nodes := marked False (set (L (vm_head s))) (nodes s)\<rparr>))"
    using h by (intro unmap_all_ok) (simp_all add: head_ok_def)
  ultimately show ?thesis using v by simp
qed

text \<open>After the current space is left there is none: the process has no user page and no node is marked.\<close>

lemma leave_ok:
  assumes "native_ok pgsize got s L"
  shows "\<exists>s'. (if vm_head s \<noteq> 0 then res_bind (deref (heads s) (vm_head s)) (\<lambda>h. ends (unmap_all (vh_head h) s)) else Inr s) = Inr s' \<and>
    native_ok pgsize got (s'\<lparr>vm_head := 0\<rparr>) L \<and> heads s' = heads s \<and> spare s' = spare s \<and> host s' = Map.empty \<and> vme_enable s' \<and>
    (\<forall>h \<in> dom (heads s). space_of (nodes s') (L h) = space_of (nodes s) (L h))"
proof (cases "vm_head s = 0")
  case True
  then show ?thesis using assms by (auto simp: native_ok_def intro!: exI [of _ s])
next
  case False
  let ?c = "vm_head s"
  let ?s = "s\<lparr>host := Map.empty, nodes := marked False (set (L ?c)) (nodes s)\<rparr>"
  note ok = assms(1) [unfolded native_ok_def]
  obtain v where v: "heads s ?c = Some v" "unmap_all (vh_head v) s = Some (Inr ?s)" using unmap_current [OF assms False] by blast
  have "head_ok pgsize (nodes ?s) 0 (L h) h w \<and> insert h (set (L h)) \<subseteq> got (spare s)" if "heads s h = Some w" for h w
  proof -
    have "h \<noteq> 0" using ok that by auto
    moreover have "head_ok pgsize (nodes s) ?c (L h) h w" "insert h (set (L h)) \<subseteq> got (spare s)" using ok that by blast+
    moreover have "h \<noteq> ?c \<Longrightarrow> set (L h) \<inter> set (L ?c) = {}" using ok that v(1) by blast
    ultimately show ?thesis by (cases "h = ?c") (simp_all add: head_ok_marked [where cur = ?c])
  qed
  then have "native_ok pgsize got (?s\<lparr>vm_head := 0\<rparr>) L" using ok by (simp add: native_ok_def)
  moreover have "space_of (nodes ?s) (L h) = space_of (nodes s) (L h)" if "h \<in> dom (heads s)" for h
    using ok that by (auto simp: head_ok_def intro: space_of_marked)
  ultimately show ?thesis using v ok by (intro exI [of _ ?s]) (simp add: False)
qed

lemma enter_ok:
  assumes "native_ok pgsize got (s\<lparr>vm_head := 0\<rparr>) L" and "heads s h = Some v" and "host s = Map.empty"
  shows "\<exists>s'. map_all (vh_head v) s = Some (Inr s') \<and> native_ok pgsize got (s'\<lparr>vm_head := h\<rparr>) L \<and> heads s' = heads s \<and> spare s' = spare s \<and>
    (\<forall>h \<in> dom (heads s). space_of (nodes s') (L h) = space_of (nodes s) (L h))"
proof -
  note ok = assms(1) [unfolded native_ok_def, simplified]
  have v: "head_ok pgsize (nodes s) 0 (L h) h v" "h \<noteq> 0" using ok assms(2) by auto
  let ?s = "s\<lparr>host := host_view (space_of (nodes s) (L h)), nodes := marked True (set (L h)) (nodes s)\<rparr>"
  have "map_all (vh_head v) s = Some (Inr (s\<lparr>host := host s ++ host_view (space_of (nodes s) (L h)), nodes := marked True (set (L h)) (nodes s)\<rparr>))"
    using v(1) by (intro map_all_ok) (simp_all add: head_ok_def)
  then have m: "map_all (vh_head v) s = Some (Inr ?s)" using assms(3) by simp
  have sp: "space_of (nodes ?s) (L k) = space_of (nodes s) (L k)" if "k \<in> dom (heads s)" for k
    using ok that by (auto simp: head_ok_def intro: space_of_marked)
  have "head_ok pgsize (nodes ?s) h (L k) k w \<and> insert k (set (L k)) \<subseteq> got (spare s)" if "heads s k = Some w" for k w
  proof -
    have "k \<noteq> 0" using ok that by auto
    moreover have "head_ok pgsize (nodes s) 0 (L k) k w" "insert k (set (L k)) \<subseteq> got (spare s)" using ok that by blast+
    moreover have "k \<noteq> h \<Longrightarrow> set (L k) \<inter> set (L h) = {}" using ok that assms(2) by blast
    ultimately show ?thesis by (cases "k = h") (simp_all add: head_ok_marked [where cur = 0])
  qed
  then have "native_ok pgsize got (?s\<lparr>vm_head := h\<rparr>) L"
    using ok assms(2) v(2) sp [of h] domI [of "heads s" h v] by (auto simp: native_ok_def)
  then show ?thesis using m sp by (intro exI [of _ ?s]) simp
qed

lemma switch_ok:
  assumes "native_ok pgsize got s L" and "h = 0 \<or> h \<in> dom (heads s)"
  shows "\<exists>s'. switch_native h s = Inr s' \<and> native_ok pgsize got s' L \<and> heads s' = heads s \<and> vm_head s' = h \<and> spare s' = spare s \<and>
    (\<forall>k \<in> dom (heads s). space_of (nodes s') (L k) = space_of (nodes s) (L k))"
proof (cases "h = vm_head s")
  case True
  have "s\<lparr>vm_head := h\<rparr> = s" by (simp add: True)
  then have "switch_native h s = Inr s" using True assms(1) by (simp add: switch_native_def native_ok_def)
  then show ?thesis using assms(1) True by simp
next
  case False
  obtain s1 where s1: "(if vm_head s \<noteq> 0 then res_bind (deref (heads s) (vm_head s)) (\<lambda>h. ends (unmap_all (vh_head h) s)) else Inr s) = Inr s1"
    "native_ok pgsize got (s1\<lparr>vm_head := 0\<rparr>) L" "heads s1 = heads s" "spare s1 = spare s" "host s1 = Map.empty"
    "\<forall>h \<in> dom (heads s). space_of (nodes s1) (L h) = space_of (nodes s) (L h)"
    using leave_ok [OF assms(1)] by blast
  have en: "vme_enable s" using assms(1) by (simp add: native_ok_def)
  show ?thesis
  proof (cases "h = 0")
    case True
    then have "switch_native h s = Inr (s1\<lparr>vm_head := h\<rparr>)" using False en s1(1) by (simp add: switch_native_def Let_def)
    then show ?thesis using True s1 by simp
  next
    case h: False
    then obtain v where v: "heads s h = Some v" using assms(2) by auto
    then have v1: "heads s1 h = Some v" using s1(3) by simp
    obtain s2 where s2: "map_all (vh_head v) s1 = Some (Inr s2)" "native_ok pgsize got (s2\<lparr>vm_head := h\<rparr>) L" "heads s2 = heads s1"
      "spare s2 = spare s1" "\<forall>h \<in> dom (heads s1). space_of (nodes s2) (L h) = space_of (nodes s1) (L h)"
      using enter_ok [OF s1(2) v1 s1(5)] by blast
    have "switch_native h s = Inr (s2\<lparr>vm_head := h\<rparr>)"
      using False en s1(1,3) h v s2(1) by (simp add: switch_native_def Let_def)
    then show ?thesis using s1 s2 by simp
  qed
qed

section \<open>Map\<close>

text \<open>The table was created for as many pages as the user space has.\<close>

lemma pages_fit:
  assumes "unat (pgsize :: u32) dvd 0x40000000" and "distinct vas" and "va \<notin> set vas"
    and "\<And>x. x \<in> insert va (set vas) \<Longrightarrow> IN_RANGE x USER_SPACE \<and> unat x mod unat pgsize = 0"
  shows "length vas < 0x80000000 div unat pgsize"
proof -
  let ?g = "unat pgsize"
  have g: "0 < ?g" using assms(1) by (cases "?g = 0") simp_all
  obtain q where q: "0x40000000 = ?g * q" using assms(1) by blast
  let ?f = "\<lambda>x. unat x div ?g"
  have "?f ` insert va (set vas) \<subseteq> {q ..< 3 * q}"
  proof
    fix y assume "y \<in> ?f ` insert va (set vas)"
    then obtain x where x: "x \<in> insert va (set vas)" "y = unat x div ?g" by blast
    have "IN_RANGE x USER_SPACE" using assms(4) [OF x(1)] by blast
    then have r: "0x40000000 \<le> unat x" "unat x < 0xc0000000"
      by (simp_all add: IN_RANGE_def USER_SPACE_def word_le_nat_alt word_less_nat_alt)
    have "q \<le> y" using r(1) div_le_mono [of "?g * q" "unat x" ?g] g x(2) unfolding q by simp
    moreover have "unat x < 3 * q * ?g"
    proof -
      have "3 * q * ?g = 3 * (?g * q)" by simp
      also have "\<dots> = 3 * 0x40000000" by (simp only: q)
      finally show ?thesis using r(2) by linarith
    qed
    then have "y < 3 * q" unfolding x(2) by (rule less_mult_imp_div_less)
    ultimately show "y \<in> {q ..< 3 * q}" by simp
  qed
  then have "card (?f ` insert va (set vas)) \<le> card {q ..< 3 * q}" by (rule card_mono [rotated]) simp
  moreover have "inj_on ?f (insert va (set vas))"
  proof (rule inj_onI)
    fix x y assume "x \<in> insert va (set vas)" "y \<in> insert va (set vas)" and d: "unat x div ?g = unat y div ?g"
    then have "unat x mod ?g = 0" "unat y mod ?g = 0" using assms(4) [of x] assms(4) [of y] by simp_all
    then have "unat x div ?g * ?g + unat x mod ?g = unat y div ?g * ?g + unat y mod ?g" by (simp only: d)
    then have "unat x = unat y" by (simp only: div_mult_mod_eq)
    then show "x = y" by (rule unsigned_word_eqI)
  qed
  then have "card (?f ` insert va (set vas)) = Suc (length vas)"
    using assms(2,3) by (simp add: card_image distinct_card)
  moreover have "2 * q * ?g div ?g = 2 * q" using g by simp
  moreover have "2 * q * ?g = 2 * (?g * q)" by simp
  then have "2 * q * ?g = 2 * 0x40000000" by (simp only: q)
  then have "2 * q * ?g = 0x80000000" by simp
  ultimately show ?thesis by simp
qed

lemma head_ok_Cons:
  assumes "head_ok pgsize m cur xs h v" and "pp \<noteq> 0" "pp \<notin> set xs" and "pm_va n \<notin> dom (space_of m xs)"
    and "IN_RANGE (pm_va n) USER_SPACE" "unat (pm_va n) mod unat pgsize = 0" and "pm_next n = vh_head v" "is_mapped n = (h = cur)"
  shows "head_ok pgsize (m(pp \<mapsto> n)) cur (pp # xs) h
    (v\<lparr>vh_head := pp, vh_hash := (key_of (pm_va n), pp) # vh_hash v, nr_page := nr_page v + 1\<rparr>)"
proof -
  have "head_ok pgsize (m(pp \<mapsto> n)) cur xs h v" by (rule head_ok_frame [OF assms(1)]) (use assms(3) in auto)
  moreover have "pm_va n \<notin> (\<lambda>x. pm_va (node (m(pp \<mapsto> n)) x)) ` set xs"
  proof
    assume "pm_va n \<in> (\<lambda>x. pm_va (node (m(pp \<mapsto> n)) x)) ` set xs"
    then obtain x where x: "x \<in> set xs" "pm_va n = pm_va (node (m(pp \<mapsto> n)) x)" by blast
    then have "pm_va n = pm_va (node m x)" using assms(3) by (cases "x = pp") simp_all
    then show False using x(1) assms(4) [unfolded dom_space_of] by blast
  qed
  moreover have "(m(pp \<mapsto> n)) pp = Some n" by simp
  moreover define m' where "m' = m(pp \<mapsto> n)"
  ultimately have "head_ok pgsize m' cur xs h v" "pm_va n \<notin> (\<lambda>x. pm_va (node m' x)) ` set xs" "m' pp = Some n" by simp_all
  then have "head_ok pgsize m' cur (pp # xs) h (v\<lparr>vh_head := pp, vh_hash := (key_of (pm_va n), pp) # vh_hash v, nr_page := nr_page v + 1\<rparr>)"
    using assms(2,3,5-8) by (simp add: head_ok_def)
  then show ?thesis unfolding m'_def .
qed

lemma page_aligned_iff: "(x :: u64) mod ucast (pgsize :: u32) = 0 \<longleftrightarrow> unat x mod unat pgsize = 0"
  by (simp add: unat_mod unat_ucast_up flip: unat_eq_0)

lemma key_found:
  assumes hv: "head_ok pgsize m cur xs h v" and x: "x \<in> set xs"
  shows "map_of (vh_hash v) (key_of (pm_va (node m x))) = Some x"
proof (rule map_of_is_SomeI)
  show "(key_of (pm_va (node m x)), x) \<in> set (vh_hash v)" using hv x by (auto simp: head_ok_def)
  have "inj_on (\<lambda>x. key_of (pm_va (node m x))) (set xs)"
  proof (rule inj_onI)
    fix x y assume xy: "x \<in> set xs" "y \<in> set xs" "key_of (pm_va (node m x)) = key_of (pm_va (node m y))"
    then have "pm_va (node m x) = pm_va (node m y)" using hv by (intro key_of_inj) (simp_all add: head_ok_def)
    then show "x = y" using hv xy by (auto simp: head_ok_def distinct_map dest: inj_onD)
  qed
  then show "distinct (List.map fst (vh_hash v))" using hv by (simp add: head_ok_def distinct_map o_def comp_inj_on)
qed

lemma key_not_found:
  assumes "head_ok pgsize m cur xs h v" and "va \<notin> dom (space_of m xs)" and "IN_RANGE va USER_SPACE"
  shows "map_of (vh_hash v) (key_of va) = None"
proof -
  have "key_of va \<notin> fst ` set (vh_hash v)"
  proof
    assume "key_of va \<in> fst ` set (vh_hash v)"
    then obtain x where x: "x \<in> set xs" "key_of va = key_of (pm_va (node m x))" using assms(1) by (auto simp: head_ok_def)
    then have "va = pm_va (node m x)" using key_of_inj [of va "pm_va (node m x)"] assms(1,3) by (simp add: head_ok_def)
    then show False using x(1) assms(2) by (simp add: dom_space_of)
  qed
  then show ?thesis by (simp add: map_of_eq_None_iff)
qed

lemma map_ok:
  assumes "native_ok pgsize got s L" and "page_supply pgalloc got room" and "0 < room (spare s)" and "unat pgsize dvd 0x40000000"
    and "h \<in> dom (heads s)" and "IN_RANGE va USER_SPACE" "unat va mod unat pgsize = 0" "unat pa mod unat pgsize = 0"
    and "va \<notin> dom (space_of (nodes s) (L h))"
  shows "\<exists>pp s'. map_native pgsize pgalloc h va pa prot s = Inr s' \<and> native_ok pgsize got s' (L(h := pp # L h)) \<and>
    dom (heads s') = dom (heads s) \<and> vm_head s' = vm_head s \<and> room (spare s') = room (spare s) - 1 \<and>
    space_of (nodes s') (pp # L h) = (space_of (nodes s) (L h))(va \<mapsto> (pa, prot)) \<and>
    (\<forall>k \<in> dom (heads s). k \<noteq> h \<longrightarrow> space_of (nodes s') (L k) = space_of (nodes s) (L k))"
proof -
  note ok = native_okD [OF assms(1)]
  obtain v where v: "heads s h = Some v" using assms(5) by blast
  note hv = ok(3) [OF v]
  have h0: "h \<noteq> 0" using ok(2) v by auto
  obtain pp a where a: "pgalloc (spare s) = (pp, a)" "pp \<noteq> 0" "pp \<notin> got (spare s)" "got a = insert pp (got (spare s))" "room a = room (spare s) - 1"
    using assms(2,3) unfolding page_supply_def by blast
  have fresh: "pp \<notin> set (L k)" if "k \<in> dom (heads s)" for k using ok(5) a(3) that by blast
  have "length (List.map (\<lambda>x. pm_va (node (nodes s) x)) (L h)) < 0x80000000 div unat pgsize"
    using hv assms(6,7,9) by (intro pages_fit [OF assms(4)]) (auto simp: head_ok_def dom_space_of)
  then have room: "length (vh_hash v) < vh_nel v" using hv by (simp add: head_ok_def)
  let ?p = "\<lparr>pm_va = va, pm_pa = pa, pm_next = vh_head v, pm_prot = prot, is_mapped = False, pm_key = key_of va\<rparr>"
  let ?n = "?p\<lparr>is_mapped := (h = vm_head s)\<rparr>"
  let ?v = "v\<lparr>vh_head := pp, vh_hash := (key_of va, pp) # vh_hash v, nr_page := nr_page v + 1\<rparr>"
  let ?s = "s\<lparr>spare := a, nodes := (nodes s)(pp \<mapsto> ?n), heads := (heads s)(h \<mapsto> ?v),
      host := if h = vm_head s then (host s)(va \<mapsto> (pa - PMEM_START, host_prot prot)) else host s\<rparr>"
  let ?L = "L(h := pp # L h)"
  have f: "map_find pgalloc h va v s = Inr (pp, \<lparr>pm_va = 0, pm_pa = 0, pm_next = 0, pm_prot = 0, is_mapped = False, pm_key = key_of va\<rparr>,
      v\<lparr>vh_hash := (key_of va, pp) # vh_hash v, nr_page := nr_page v + 1\<rparr>, s\<lparr>spare := a\<rparr>)"
    using key_not_found [OF hv assms(9,6)] a(1,2) room by (simp add: map_find_def Let_def)
  have r: "map_native pgsize pgalloc h va pa prot s = Inr ?s"
    using assms(6-8) h0 v f by (cases s; cases v) (simp add: map_native_def page_aligned_iff pmem_map_def Let_def)
  have new: "head_ok pgsize ((nodes s)(pp \<mapsto> ?n)) (vm_head s) (pp # L h) h ?v"
    using head_ok_Cons [OF hv a(2) fresh [OF assms(5)], of ?n] assms(6,7,9) by simp
  have other: "nodes ?s x = nodes s x" if "x \<in> set (L k)" "k \<in> dom (heads s)" for x k
    using fresh [OF that(2)] that(1) by auto
  have sp: "space_of (nodes ?s) (L k) = space_of (nodes s) (L k)" if "k \<in> dom (heads s)" for k
    by (rule space_of_frame) (use other that in simp)
  have sph: "space_of (nodes ?s) (pp # L h) = (space_of (nodes s) (L h))(va \<mapsto> (pa, prot))"
    using sp [OF assms(5)] by (simp add: space_of_Cons)
  have "head_ok pgsize (nodes ?s) (vm_head s) (?L k) k u \<and> insert k (set (?L k)) \<subseteq> got a" if "heads ?s k = Some u" for k u
  proof (cases "k = h")
    case True
    then show ?thesis using that new a(4) ok(4,5) [OF v] by auto
  next
    case False
    then have k: "heads s k = Some u" using that by simp
    then have "head_ok pgsize (nodes ?s) (vm_head s) (L k) k u"
      using other by (intro head_ok_frame [OF ok(3) [OF k]]) blast
    then show ?thesis using False a(4) ok(4,5) [OF k] by auto
  qed
  moreover have "set (?L h1) \<inter> set (?L h2) = {}" if "h1 \<in> dom (heads ?s)" "h2 \<in> dom (heads ?s)" "h1 \<noteq> h2" for h1 h2
  proof -
    have d: "h1 \<in> dom (heads s)" "h2 \<in> dom (heads s)" using that(1,2) assms(5) by auto
    then show ?thesis using ok(6) [OF d that(3)] that(3) fresh [OF d(1)] fresh [OF d(2)] by auto
  qed
  moreover have "host ?s = (if vm_head s = 0 then Map.empty else host_view (space_of (nodes ?s) (?L (vm_head s))))"
  proof (cases "h = vm_head s")
    case True
    then show ?thesis using ok(8) h0 sph by (simp add: host_view_upd)
  next
    case False
    then show ?thesis using ok(7,8) sp [of "vm_head s"] by (cases "vm_head s = 0") simp_all
  qed
  ultimately have "native_ok pgsize got ?s ?L"
    using ok(1,2,7) h0 assms(5) unfolding native_ok_def by auto
  moreover have "dom (heads ?s) = dom (heads s)" using assms(5) by auto
  ultimately show ?thesis using r sph sp a(5) by (intro exI [of _ pp] exI [of _ ?s]) simp
qed

section \<open>Clients\<close>

text \<open>Calls on address spaces, which are numbered in the order they are made; \<open>Switch None\<close> is a kernel context.\<close>

datatype space_op = Protect | Map_page nat addr addr u32 | Switch "nat option"

primrec run_ops :: "u32 \<Rightarrow> ('a \<Rightarrow> addr \<times> 'a) \<Rightarrow> space_op list \<Rightarrow> addr list \<Rightarrow> 'a native \<Rightarrow> (addr list \<times> 'a native) res" where
  "run_ops pgsize pgalloc [] hs s = Inr (hs, s)"
| "run_ops pgsize pgalloc (c # ops) hs s =
     (case c of
        Protect \<Rightarrow> res_bind (protect_native pgsize pgalloc s) (\<lambda>(h, s). run_ops pgsize pgalloc ops (hs @ [h]) s)
      | Map_page i va pa prot \<Rightarrow> res_bind (map_native pgsize pgalloc (hs ! i) va pa prot s) (run_ops pgsize pgalloc ops hs)
      | Switch i \<Rightarrow> res_bind (switch_native (case i of None \<Rightarrow> 0 | Some i \<Rightarrow> hs ! i) s) (run_ops pgsize pgalloc ops hs))"

text \<open>What they mean: a list of maps and the number of the current one.\<close>

fun spec_op :: "space_op \<Rightarrow> space list \<times> nat option \<Rightarrow> space list \<times> nat option" where
  "spec_op Protect (ms, c) = (ms @ [Map.empty], c)"
| "spec_op (Map_page i va pa prot) (ms, c) = (ms[i := (ms ! i)(va \<mapsto> (pa, prot))], c)"
| "spec_op (Switch i) (ms, c) = (ms, i)"

text \<open>The calls a client may make: pages of the user space, each mapped once in a space.\<close>

fun op_allowed :: "u32 \<Rightarrow> space_op \<Rightarrow> space list \<Rightarrow> bool" where
  "op_allowed pgsize Protect ms = True"
| "op_allowed pgsize (Map_page i va pa prot) ms = (i < length ms \<and> IN_RANGE va USER_SPACE \<and> unat va mod unat pgsize = 0 \<and>
     unat pa mod unat pgsize = 0 \<and> va \<notin> dom (ms ! i))"
| "op_allowed pgsize (Switch i) ms = (case i of None \<Rightarrow> True | Some i \<Rightarrow> i < length ms)"

fun ops_allowed :: "u32 \<Rightarrow> space_op list \<Rightarrow> space list \<times> nat option \<Rightarrow> bool" where
  "ops_allowed pgsize [] st = True"
| "ops_allowed pgsize (c # ops) st = (op_allowed pgsize c (fst st) \<and> ops_allowed pgsize ops (spec_op c st))"

definition current_space :: "space list \<times> nat option \<Rightarrow> space" where
  "current_space st = (case snd st of None \<Rightarrow> Map.empty | Some i \<Rightarrow> fst st ! i)"

definition implements :: "u32 \<Rightarrow> ('a \<Rightarrow> addr set) \<Rightarrow> addr list \<Rightarrow> 'a native \<Rightarrow> (addr \<Rightarrow> addr list) \<Rightarrow> space list \<times> nat option \<Rightarrow> bool" where
  "implements pgsize got hs s L st \<longleftrightarrow> native_ok pgsize got s L \<and> distinct hs \<and> set hs = dom (heads s) \<and>
     List.map (\<lambda>h. space_of (nodes s) (L h)) hs = fst st \<and>
     (case snd st of None \<Rightarrow> vm_head s = 0 | Some i \<Rightarrow> i < length hs \<and> vm_head s = hs ! i)"

lemma implements_host: "implements pgsize got hs s L st \<Longrightarrow> host s = host_view (current_space st)"
proof -
  assume i: "implements pgsize got hs s L st"
  then have h: "host s = (if vm_head s = 0 then Map.empty else host_view (space_of (nodes s) (L (vm_head s))))"
    and z: "0 \<notin> set hs"
  proof -
    have n: "native_ok pgsize got s L" and d: "set hs = dom (heads s)" using i by (simp_all add: implements_def)
    show "host s = (if vm_head s = 0 then Map.empty else host_view (space_of (nodes s) (L (vm_head s))))" by (rule native_okD(8) [OF n])
    show "0 \<notin> set hs" using native_okD(2) [OF n] by (simp add: d domIff)
  qed
  show ?thesis
  proof (cases "snd st")
    case None
    then show ?thesis using i h by (simp add: implements_def current_space_def)
  next
    case (Some k)
    then have k: "k < length hs" "vm_head s = hs ! k" "fst st = List.map (\<lambda>h. space_of (nodes s) (L h)) hs"
      using i by (simp_all add: implements_def)
    then have "vm_head s \<noteq> 0" using z by (metis nth_mem)
    then show ?thesis using Some h k by (simp add: current_space_def)
  qed
qed

lemma run_ops_implement:
  assumes "page_supply pgalloc got room" and "unat pgsize dvd 0x40000000"
  shows "implements pgsize got hs s L st \<Longrightarrow> ops_allowed pgsize ops st \<Longrightarrow> length ops \<le> room (spare s) \<Longrightarrow>
    \<exists>hs' s' L'. run_ops pgsize pgalloc ops hs s = Inr (hs', s') \<and> implements pgsize got hs' s' L' (foldl (\<lambda>st c. spec_op c st) st ops)"
proof (induction ops arbitrary: hs s L st)
  case Nil
  then show ?case by auto
next
  case (Cons c ops)
  obtain ms cur where st: "st = (ms, cur)" by fastforce
  have im: "native_ok pgsize got s L" "distinct hs" "set hs = dom (heads s)" "List.map (\<lambda>h. space_of (nodes s) (L h)) hs = ms"
    "case cur of None \<Rightarrow> vm_head s = 0 | Some i \<Rightarrow> i < length hs \<and> vm_head s = hs ! i"
    using Cons.prems(1) by (simp_all add: implements_def st)
  have r: "0 < room (spare s)" using Cons.prems(3) by simp
  show ?case
  proof (cases c)
    case Protect
    obtain h s' where p: "protect_native pgsize pgalloc s = Inr (h, s')" "h \<noteq> 0" "h \<notin> dom (heads s)" "dom (heads s') = insert h (dom (heads s))"
      "native_ok pgsize got s' (L(h := []))" "nodes s' = nodes s" "vm_head s' = vm_head s" "room (spare s') = room (spare s) - 1"
      using protect_native_ok [OF im(1) assms(1) r] by blast
    have "List.map (\<lambda>k. space_of (nodes s') ((L(h := [])) k)) hs = ms"
    proof -
      have "k \<noteq> h" if "k \<in> set hs" for k using that im(3) p(3) by blast
      then have "List.map (\<lambda>k. space_of (nodes s') ((L(h := [])) k)) hs = List.map (\<lambda>k. space_of (nodes s) (L k)) hs"
        using p(6) by (intro map_cong) simp_all
      then show ?thesis using im(4) by simp
    qed
    then have "implements pgsize got (hs @ [h]) s' (L(h := [])) (spec_op c st)"
      using im p by (auto simp: implements_def st Protect nth_append split: option.splits)
    from Cons.IH [OF this] show ?thesis using Cons.prems p(1,8) by (auto simp: Protect)
  next
    case (Map_page i va pa prot)
    then have al: "i < length ms" "IN_RANGE va USER_SPACE" "unat va mod unat pgsize = 0" "unat pa mod unat pgsize = 0" "va \<notin> dom (ms ! i)"
      using Cons.prems(2) by (simp_all add: st)
    let ?h = "hs ! i"
    have i: "i < length hs" "ms ! i = space_of (nodes s) (L ?h)" using al(1) im(4) by auto
    then have h: "?h \<in> dom (heads s)" using im(3) by (metis nth_mem)
    obtain pp s' where m: "map_native pgsize pgalloc ?h va pa prot s = Inr s'" "native_ok pgsize got s' (L(?h := pp # L ?h))"
      "dom (heads s') = dom (heads s)" "vm_head s' = vm_head s" "room (spare s') = room (spare s) - 1"
      "space_of (nodes s') (pp # L ?h) = (space_of (nodes s) (L ?h))(va \<mapsto> (pa, prot))"
      "\<forall>k \<in> dom (heads s). k \<noteq> ?h \<longrightarrow> space_of (nodes s') (L k) = space_of (nodes s) (L k)"
      using map_ok [OF im(1) assms(1) r assms(2) h al(2-4) al(5) [unfolded i(2)], of prot] unfolding i(2) by blast
    have "List.map (\<lambda>k. space_of (nodes s') ((L(?h := pp # L ?h)) k)) hs = ms[i := (ms ! i)(va \<mapsto> (pa, prot))]"
    proof (rule nth_equalityI)
      fix j assume "j < length (List.map (\<lambda>k. space_of (nodes s') ((L(?h := pp # L ?h)) k)) hs)"
      then have j: "j < length hs" by simp
      then have "hs ! j \<in> dom (heads s)" "ms ! j = space_of (nodes s) (L (hs ! j))" using im(3,4) by auto
      moreover have "hs ! j = ?h \<longleftrightarrow> j = i" using im(2) i(1) j by (simp add: nth_eq_iff_index_eq)
      ultimately show "List.map (\<lambda>k. space_of (nodes s') ((L(?h := pp # L ?h)) k)) hs ! j = ms[i := (ms ! i)(va \<mapsto> (pa, prot))] ! j"
        using m(6,7) j i(2) al(1) by (cases "j = i") simp_all
    qed (use im(4) in auto)
    then have "implements pgsize got hs s' (L(?h := pp # L ?h)) (spec_op c st)"
      using im m(2-4) by (cases cur) (simp_all add: implements_def st Map_page)
    from Cons.IH [OF this] show ?thesis using Cons.prems m(1,5) by (auto simp: Map_page)
  next
    case (Switch i)
    let ?h = "case i of None \<Rightarrow> 0 | Some i \<Rightarrow> hs ! i"
    have i: "case i of None \<Rightarrow> True | Some k \<Rightarrow> k < length hs"
      using Cons.prems(2) im(4) by (auto simp: Switch st split: option.splits)
    then have "?h = 0 \<or> ?h \<in> dom (heads s)" using im(3) nth_mem by (auto split: option.splits)
    then obtain s' where w: "switch_native ?h s = Inr s'" "native_ok pgsize got s' L" "heads s' = heads s" "vm_head s' = ?h" "spare s' = spare s"
      "\<forall>k \<in> dom (heads s). space_of (nodes s') (L k) = space_of (nodes s) (L k)"
      using switch_ok [OF im(1)] by blast
    have "List.map (\<lambda>h. space_of (nodes s') (L h)) hs = ms" unfolding im(4) [symmetric] using im(3) w(6) by (intro map_cong) simp_all
    then have "implements pgsize got hs s' L (spec_op c st)"
      using im w(2-4) i by (simp add: implements_def st Switch split: option.splits)
    from Cons.IH [OF this] show ?thesis using Cons.prems w(1,5) by (auto simp: Switch)
  qed
qed

section \<open>The properties\<close>

text \<open>The state after \<open>vme_init\<close>.\<close>

definition native_boot :: "'a \<Rightarrow> 'a native" where
  "native_boot a = snd (vme_init_native \<lparr>spare = a, nodes = Map.empty, heads = Map.empty, host = Map.empty, vm_head = 0, vme_enable = False\<rparr>)"

lemma run_from_boot:
  assumes "page_supply pgalloc got room" and "unat pgsize dvd 0x40000000" and "length ops \<le> room a"
    and "ops_allowed pgsize ops ([], None)"
  shows "\<exists>hs s L. run_ops pgsize pgalloc ops [] (native_boot a) = Inr (hs, s) \<and>
    implements pgsize got hs s L (foldl (\<lambda>st c. spec_op c st) ([], None) ops)"
proof -
  have "implements pgsize got [] (native_boot a) (\<lambda>_. []) ([], None)"
    by (simp add: implements_def native_ok_def native_boot_def vme_init_native_def)
  moreover have "length ops \<le> room (spare (native_boot a))" using assms(3) by (simp add: native_boot_def vme_init_native_def)
  ultimately show ?thesis using run_ops_implement [OF assms(1,2) _ assms(4)] by blast
qed

text \<open>
  C23: Address spaces of the native platform behave as maps: whatever calls of \<open>protect\<close>, \<open>map\<close> and context switches
  a client makes, each page once in a space, none fails while the caller's \<open>pgalloc\<close> has pages, and
  afterwards the user pages of the process are exactly those of the current space, each at its physical page and with the
  rights asked for; in a context without a space there are none.
\<close>

theorem native_spaces_refine:
  assumes "page_supply pgalloc got room" and "unat pgsize dvd 0x40000000" and "length ops \<le> room a"
    and "ops_allowed pgsize ops ([], None)"
  shows "\<exists>hs s. run_ops pgsize pgalloc ops [] (native_boot a) = Inr (hs, s) \<and>
    host s = host_view (current_space (foldl (\<lambda>st c. spec_op c st) ([], None) ops))"
  using run_from_boot [OF assms] implements_host by blast

text \<open>Pages from a counter, at most 100 of them.\<close>

definition sim_page :: "nat \<Rightarrow> addr" where
  "sim_page n = 0x2000000 + 0x1000 * of_nat n"

lemma sim_page_inj: "k < n \<Longrightarrow> n < 100 \<Longrightarrow> sim_page n \<noteq> sim_page k" "n < 100 \<Longrightarrow> sim_page n \<noteq> 0"
proof -
  have u: "unat (sim_page n) = 0x2000000 + 0x1000 * n" if "n < 100" for n
  proof -
    have "unat (of_nat n :: addr) = n" using that by (intro unat_of_nat_small) simp
    then have "unat (0x1000 * of_nat n :: addr) = 0x1000 * n" using that by (simp add: unat_word_ariths)
    then show ?thesis using that unfolding sim_page_def by (subst unat_add_nowrap) simp_all
  qed
  show "sim_page n \<noteq> sim_page k" if "k < n" "n < 100" using u [of n] u [of k] that by auto
  show "sim_page n \<noteq> 0" if "n < 100" using u [OF that] by auto
qed

lemma sim_supply: "page_supply (\<lambda>n. (sim_page n, n + 1)) (\<lambda>n. sim_page ` {..<n}) (\<lambda>n. 100 - n)"
  unfolding page_supply_def using sim_page_inj by (auto simp: lessThan_Suc)

lemma native_spaces_refine_witness:
  "\<exists>hs s. run_ops 4096 (\<lambda>n. (sim_page n, n + 1)) [Protect, Map_page 0 0x40000000 0x3000000 3, Protect, Switch (Some 0),
      Map_page 0 0x40001000 0x3001000 1, Switch (Some 1), Switch (Some 0)] [] (native_boot 0) = Inr (hs, s) \<and>
    host s = [0x40000000 \<mapsto> (0x2000000, 7), 0x40001000 \<mapsto> (0x2001000, 5)]"
proof -
  let ?ops = "[Protect, Map_page 0 0x40000000 0x3000000 3, Protect, Switch (Some 0),
      Map_page 0 0x40001000 0x3001000 1, Switch (Some 1), Switch (Some 0)]"
  have "unat (4096 :: u32) dvd 0x40000000" by simp
  moreover have "ops_allowed 4096 ?ops ([], None)" by (simp add: IN_RANGE_def USER_SPACE_def)
  moreover have "length ?ops \<le> 100 - (0 :: nat)" by simp
  ultimately obtain hs s where r: "run_ops 4096 (\<lambda>n. (sim_page n, n + 1)) ?ops [] (native_boot 0) = Inr (hs, s)"
    "host s = host_view (current_space (foldl (\<lambda>st c. spec_op c st) ([], None) ?ops))"
    using native_spaces_refine [OF sim_supply, of 4096 ?ops 0] by blast
  moreover have "host_view (current_space (foldl (\<lambda>st c. spec_op c st) ([], None) ?ops)) =
      [0x40000000 \<mapsto> (0x2000000, 7), 0x40001000 \<mapsto> (0x2001000, 5)]"
    by (simp add: current_space_def host_view_upd PMEM_START_def host_prot_def MMAP_READ_def MMAP_WRITE_def)
  ultimately show ?thesis by metis
qed

text \<open>A list that comes back to itself.\<close>

definition circular :: "addr set \<Rightarrow> (addr \<rightharpoonup> PageMap) \<Rightarrow> bool" where
  "circular C m \<longleftrightarrow> (\<forall>x \<in> C. x \<noteq> 0 \<and> (\<exists>n. m x = Some n \<and> pm_next n \<in> C \<and> IN_RANGE (pm_va n) USER_SPACE))"

lemma map_all_circular:
  assumes "map_all p s = Some r"
  shows "p \<notin> C \<or> \<not> circular C (nodes s)"
proof (rule map_all.raw_induct [OF _ assms, where P = "\<lambda>p s r. p \<notin> C \<or> \<not> circular C (nodes s)"])
  fix f p s r
  assume IH: "\<And>p (s :: 'a native) r. f p s = Some r \<Longrightarrow> p \<notin> C \<or> \<not> circular C (nodes s)"
    and step: "(if p = 0 then Some (Inr s)
      else case nodes s p of
        None \<Rightarrow> Some (Inl BadAccess)
      | Some n \<Rightarrow> if IN_RANGE (pm_va n) USER_SPACE
          then f (pm_next n) ((pmem_map (pm_va n) (pm_pa n) (pm_prot n) s)\<lparr>nodes := (nodes s)(p \<mapsto> n\<lparr>is_mapped := True\<rparr>)\<rparr>)
          else Some (Inl AssertFail)) = Some r"
  show "p \<notin> C \<or> \<not> circular C (nodes s)"
  proof (rule ccontr)
    assume "\<not> (p \<notin> C \<or> \<not> circular C (nodes s))"
    then have c: "p \<in> C" "circular C (nodes s)" by simp_all
    then obtain n where n: "p \<noteq> 0" "nodes s p = Some n" "pm_next n \<in> C" "IN_RANGE (pm_va n) USER_SPACE" by (auto simp: circular_def)
    let ?s = "(pmem_map (pm_va n) (pm_pa n) (pm_prot n) s)\<lparr>nodes := (nodes s)(p \<mapsto> n\<lparr>is_mapped := True\<rparr>)\<rparr>"
    have "f (pm_next n) ?s = Some r" using step n by simp
    then have "\<not> circular C (nodes ?s)" using IH n(3) by blast
    moreover have "circular C (nodes ?s)" using c(2) n by (auto simp: circular_def)
    ultimately show False by blast
  qed
qed

lemma path_next:
  "path m p (xs @ x # ys) \<Longrightarrow> p \<in> insert x (set xs) \<and> (\<forall>y \<in> set xs. \<exists>n. m y = Some n \<and> pm_next n \<in> insert x (set xs))"
proof (induction xs arbitrary: p)
  case (Cons y xs)
  then obtain n where n: "p = y" "m y = Some n" "path m (pm_next n) (xs @ x # ys)" by auto
  with Cons.IH [OF n(3)] show ?case by auto
qed simp

text \<open>The first node of a list, set before the list it is in the middle of.\<close>

lemma relinked_circular:
  assumes hv: "head_ok pgsize m cur zs h v" and pp: "pp \<in> set zs" and n: "pm_next n = vh_head v" "IN_RANGE (pm_va n) USER_SPACE"
  shows "\<exists>C. circular C (m(pp \<mapsto> n)) \<and> pp \<in> C"
proof -
  obtain xs ys where L: "zs = xs @ pp # ys" using pp by (meson split_list)
  then have p: "path m (vh_head v) (xs @ pp # ys)" using hv by (simp add: head_ok_def)
  have pp0: "pp \<noteq> 0" using p path_node [of m "vh_head v" "xs @ pp # ys" pp] by simp
  let ?C = "insert pp (set xs)"
  have "circular ?C (m(pp \<mapsto> n))"
    unfolding circular_def
  proof
    fix x assume x: "x \<in> ?C"
    show "x \<noteq> 0 \<and> (\<exists>k. (m(pp \<mapsto> n)) x = Some k \<and> pm_next k \<in> ?C \<and> IN_RANGE (pm_va k) USER_SPACE)"
    proof (cases "x = pp")
      case True
      then show ?thesis using n pp0 path_next [OF p] by simp
    next
      case False
      then have xs: "x \<in> set xs" using x by simp
      then obtain k where k: "m x = Some k" "pm_next k \<in> ?C" using path_next [OF p] by blast
      have "x \<in> set zs" using xs L by simp
      then have "IN_RANGE (pm_va k) USER_SPACE" "x \<noteq> 0" using hv k(1) path_node unfolding head_ok_def by fastforce+
      then show ?thesis using False k by simp
    qed
  qed
  then show ?thesis by blast
qed

text \<open>
  C38: In every state with the invariant of the operations, while virtual memory is on and no space is current, mapping a page a second time in a space, to any page-aligned physical address, which \<open>map\<close>
  does without complaint, makes its node the first of
  the list while the list still leads to it: a context switch to that space never ends.
\<close>

theorem native_remap_hangs:
  assumes "native_ok pgsize got s L" and "vm_head s = 0" and "h \<in> dom (heads s)" and "va \<in> dom (space_of (nodes s) (L h))"
    and "unat pa mod unat pgsize = 0"
  shows "\<exists>s'. map_native pgsize pgalloc h va pa prot s = Inr s' \<and> switch_native h s' = Inl Deadlock"
proof -
  note ok = native_okD [OF assms(1)]
  obtain v where v: "heads s h = Some v" using assms(3) by blast
  note hv = ok(3) [OF v]
  have h0: "h \<noteq> 0" using ok(2) v by auto
  obtain pp where pp: "pp \<in> set (L h)" "va = pm_va (node (nodes s) pp)" using assms(4) by (auto simp: dom_space_of)
  then obtain n where n: "nodes s pp = Some n" "pp \<noteq> 0" using hv path_node unfolding head_ok_def by metis
  have va: "pm_va n = va" using pp(2) n(1) by simp
  have range: "IN_RANGE va USER_SPACE" "unat va mod unat pgsize = 0" using hv pp by (simp_all add: head_ok_def)
  have "map_of (vh_hash v) (key_of va) = Some pp" using key_found [OF hv pp(1)] pp(2) by simp
  then have f: "map_find pgalloc h va v s = Inr (pp, n, v, s)" using n(1) by (simp add: map_find_def Let_def)
  let ?n = "n\<lparr>pm_va := va, pm_pa := pa, pm_prot := prot, is_mapped := False, pm_next := vh_head v\<rparr>"
  let ?s = "s\<lparr>nodes := (nodes s)(pp \<mapsto> ?n), heads := (heads s)(h \<mapsto> v\<lparr>vh_head := pp\<rparr>)\<rparr>"
  have r: "map_native pgsize pgalloc h va pa prot s = Inr ?s"
    using range assms(2,5) h0 v f by (simp add: map_native_def page_aligned_iff Let_def)
  obtain C where "circular C (nodes ?s)" "pp \<in> C" using relinked_circular [OF hv pp(1), of ?n] range(1) by auto
  then have "map_all pp ?s = None" using map_all_circular [of pp ?s _ C] by (cases "map_all pp ?s") simp_all
  then have "switch_native h ?s = Inl Deadlock"
    using ok(1) assms(2) h0 by (simp add: switch_native_def Let_def)
  then show ?thesis using r by blast
qed

lemma native_remap_hangs_witness:
  "\<exists>hs s s'. run_ops 4096 (\<lambda>n. (sim_page n, n + 1)) [Protect, Map_page 0 0x40000000 0x3000000 3] [] (native_boot 0) = Inr (hs, s) \<and>
    map_native 4096 (\<lambda>n. (sim_page n, n + 1)) (hs ! 0) 0x40000000 0x3001000 3 s = Inr s' \<and> switch_native (hs ! 0) s' = Inl Deadlock"
proof -
  let ?ops = "[Protect, Map_page 0 0x40000000 0x3000000 3]"
  have g: "unat (4096 :: u32) dvd 0x40000000" by simp
  have "ops_allowed 4096 ?ops ([], None)" by (simp add: IN_RANGE_def USER_SPACE_def)
  then obtain hs s L where r: "run_ops 4096 (\<lambda>n. (sim_page n, n + 1)) ?ops [] (native_boot 0) = Inr (hs, s)"
    "implements 4096 (\<lambda>n. sim_page ` {..<n}) hs s L (foldl (\<lambda>st c. spec_op c st) ([], None) ?ops)"
    using run_from_boot [OF sim_supply g, of ?ops 0] by auto
  then have i: "native_ok 4096 (\<lambda>n. sim_page ` {..<n}) s L" "set hs = dom (heads s)" "vm_head s = 0"
    "List.map (\<lambda>h. space_of (nodes s) (L h)) hs = [[0x40000000 \<mapsto> (0x3000000, 3)]]"
    by (simp_all add: implements_def)
  have "length (List.map (\<lambda>h. space_of (nodes s) (L h)) hs) = 1" unfolding i(4) by simp
  then obtain h where hs: "hs = [h]" by (auto simp: length_Suc_conv)
  then have "h \<in> dom (heads s)" "0x40000000 \<in> dom (space_of (nodes s) (L h))" using i(2,4) by auto
  then obtain s' where "map_native 4096 (\<lambda>n. (sim_page n, n + 1)) h 0x40000000 0x3001000 3 s = Inr s'" "switch_native h s' = Inl Deadlock"
    using native_remap_hangs [OF i(1,3), of h "0x40000000" "0x3001000"] by auto
  then show ?thesis using r(1) hs by auto
qed

end
