(* ===== verification/Trm_Qemu.thy ===== *)
theory Trm_Qemu
  imports Pmm Vme Bytes Port_Io
begin

text \<open>
  Start of the qemu platform, \<open>am/src/x86/qemu/trm.c\<close>: the size of the memory, the table of processors,
  the segments, and the message of \<open>halt\<close>. Memory that the firmware fills is a function from physical
  addresses to bytes; the port devices are an argument.
\<close>

unbundle bit_operations_syntax

section \<open>Memory\<close>

text \<open>\<open>end_addr\<close> is the address of the linker's symbol \<open>end\<close>.\<close>

definition heap_init :: "'h port_io \<Rightarrow> addr \<Rightarrow> 'h \<Rightarrow> Area \<times> 'h" where
  "heap_init P end_addr h =
     (let h = outb P 0x70 0x34 h;
          (lo, h) = inb P 0x71 h;
          h = outb P 0x70 0x35 h;
          (hi, h) = inb P 0x71 h;
          lo = ucast lo :: u32; hi = ucast hi + 1 :: u32
      in (\<lparr>ar_start = ROUNDUP end_addr (2 ^ 20), ar_end = ucast (push_bit 16 (lo OR push_bit 8 hi))\<rparr>, h))"

text \<open>
  The documented content of the two registers: the number \<open>k\<close> of blocks of 64 KiB above 16 MiB, low byte and
  high byte, whatever was accessed before.
\<close>

definition cmos_memory :: "'h port_io \<Rightarrow> nat \<Rightarrow> bool" where
  "cmos_memory P k \<longleftrightarrow> k < 2 ^ 16 \<and>
     (\<forall>h. fst (inb P 0x71 (outb P 0x70 0x34 h)) = of_nat (k mod 256) \<and> fst (inb P 0x71 (outb P 0x70 0x35 h)) = of_nat (k div 256))"

lemma or_bytes:
  assumes "unat (lo :: u32) < 2 ^ 8"
  shows "lo OR push_bit 8 hi = lo + push_bit 8 hi"
proof -
  have "lo AND push_bit 8 hi = 0"
  proof (rule bit_word_eqI)
    fix n
    have "\<not> bit lo n" if "8 \<le> n"
    proof -
      have "unat lo < 2 ^ n" using assms that by (metis power_increasing less_le_trans one_le_numeral)
      then have "unat lo div 2 ^ n = 0" by simp
      then have "\<not> bit (unat lo) n" unfolding bit_iff_odd by simp
      then show ?thesis by (simp add: bit_unsigned_iff impossible_bit)
    qed
    then show "bit (lo AND push_bit 8 hi) n = bit (0 :: u32) n" by (auto simp: bit_simps)
  qed
  then show ?thesis by (rule disjunctive_add_eq_or [symmetric])
qed

lemma heap_init_end:
  assumes "cmos_memory P k" and "k + 256 < 2 ^ 16"
  shows "unat (ar_end (fst (heap_init P end_addr h))) = 2 ^ 24 + k * 65536"
proof -
  let ?lo = "of_nat (k mod 256) :: u32" and ?hi = "of_nat (k div 256) + 1 :: u32"
  have b: "ucast (of_nat n :: u8) = (of_nat n :: u32)" if "n < 256" for n
    using that by (simp add: word_unat_eq_iff unat_ucast_up unat_of_nat_small)
  have "k div 256 < 256" using assms by simp
  then have "ar_end (fst (heap_init P end_addr h)) = ucast (push_bit 16 (?lo OR push_bit 8 ?hi))"
    using assms(1) b [of "k mod 256"] b [of "k div 256"]
    by (simp add: heap_init_def cmos_memory_def Let_def split_def del: of_nat_mod)
  moreover have "unat ?lo = k mod 256" by (intro unat_of_nat_small) simp
  then have "?lo OR push_bit 8 ?hi = of_nat (k mod 256) + of_nat (256 * (k div 256 + 1))"
    by (subst or_bytes) (simp_all add: push_bit_eq_mult algebra_simps)
  then have "?lo OR push_bit 8 ?hi = of_nat (k + 256)"
    by (simp only: of_nat_add [symmetric]) (simp add: algebra_simps)
  then have "push_bit 16 (?lo OR push_bit 8 ?hi) = of_nat ((k + 256) * 65536)" by (simp add: push_bit_eq_mult)
  moreover have "unat (of_nat ((k + 256) * 65536) :: u32) = (k + 256) * 65536"
    using assms(2) by (intro unat_of_nat_small) simp
  moreover have "unat (ucast (of_nat ((k + 256) * 65536) :: u32) :: addr) = unat (of_nat ((k + 256) * 65536) :: u32)"
    by (rule unat_ucast_up) simp
  ultimately show ?thesis by (simp only: add_mult_distrib) simp
qed

section \<open>The serial line\<close>

definition putch :: "'h port_io \<Rightarrow> u8 \<Rightarrow> 'h \<Rightarrow> 'h" where
  "putch P ch h = outb P 0x3f8 ch h"

text \<open>What \<open>halt\<close> prints before it switches the machine off.\<close>

definition hex :: string where "hex = ''0123456789abcdef''"

definition halt_char :: "nat \<Rightarrow> u32 \<Rightarrow> char \<Rightarrow> u8" where
  "halt_char cpu code ch =
     (if ch = CHR ''$'' then chr (hex ! cpu)
      else if ch = CHR ''0'' then chr (hex ! unat (code AND 0xf))
      else if ch = CHR ''4'' then chr (hex ! unat (drop_bit 4 code AND 0xf))
      else chr ch)"

definition halt_print :: "'h port_io \<Rightarrow> nat \<Rightarrow> u32 \<Rightarrow> 'h \<Rightarrow> 'h" where
  "halt_print P cpu code h = fold (\<lambda>ch. putch P (halt_char cpu code ch)) (''CPU #$ Halt (40).'' @ [CHR 0x0A]) h"

section \<open>Processors\<close>

definition MAX_CPU :: nat where "MAX_CPU = 8"

definition mem32 :: "(nat \<Rightarrow> u8) \<Rightarrow> nat \<Rightarrow> u32" where
  "mem32 m a = of_le32 (List.map (\<lambda>i. m (a + i)) [0..<4])"

definition mem16 :: "(nat \<Rightarrow> u8) \<Rightarrow> nat \<Rightarrow> u16" where
  "mem16 m a = of_le16 (List.map (\<lambda>i. m (a + i)) [0..<2])"

text \<open>The offsets of \<open>MPDesc.conf\<close>, \<open>MPConf.length\<close>, \<open>MPConf.lapicaddr\<close> and the size of \<open>MPConf\<close>.\<close>

definition MPDESC_CONF :: nat where "MPDESC_CONF = 4"
definition MPCONF_LENGTH :: nat where "MPCONF_LENGTH = 4"
definition MPCONF_LAPICADDR :: nat where "MPCONF_LAPICADDR = 36"
definition SIZEOF_MPCONF :: nat where "SIZEOF_MPCONF = 44"

text \<open>The loop over the entries from \<open>ptr\<close> to \<open>stop\<close>: 20 bytes for a processor, 8 for anything else.\<close>

function mp_loop :: "(nat \<Rightarrow> u8) \<Rightarrow> nat \<Rightarrow> nat \<Rightarrow> nat \<Rightarrow> nat res" where
  "mp_loop m stop ptr ncpu =
     (if ptr < stop
      then if m ptr = 0
           then res_bind (guard Panic (\<not> MAX_CPU < ncpu + 1)) (\<lambda>_. mp_loop m stop (ptr + 12 + 8) (ncpu + 1))
           else mp_loop m stop (ptr + 8) ncpu
      else Inr ncpu)"
  by pat_completeness auto

termination by (relation "measure (\<lambda>(m, stop, ptr, ncpu). stop - ptr)") auto

declare mp_loop.simps [simp del]

text \<open>
  The scan for the signature and the processors it leads to: the address of the local APICs and how many
  there are. The scan goes up one byte at a time until just below 16 MiB.
\<close>

definition lapic_init :: "(nat \<Rightarrow> u8) \<Rightarrow> nat \<Rightarrow> (addr \<times> nat) res" where
  "lapic_init m ncpu =
     (case List.find (\<lambda>st. mem32 m st = 0x5f504d5f) [0xf0000..<0xffffff] of
        None \<Rightarrow> Inl Panic
      | Some st \<Rightarrow>
        let conf = unat (mem32 m (st + MPDESC_CONF)) in
        res_bind (mp_loop m (conf + unat (mem16 m (conf + MPCONF_LENGTH))) (conf + SIZEOF_MPCONF) ncpu) (\<lambda>ncpu.
        Inr (ucast (mem32 m (conf + MPCONF_LAPICADDR)), ncpu)))"

text \<open>An entry of the table: a processor (type 0, 20 bytes) or one of the other types (8 bytes).\<close>

datatype mp_entry = Processor "u8 list" | Other u8 "u8 list"

fun entry_ok :: "mp_entry \<Rightarrow> bool" where
  "entry_ok (Processor bs) \<longleftrightarrow> length bs = 19"
| "entry_ok (Other t bs) \<longleftrightarrow> t \<noteq> 0 \<and> length bs = 7"

fun entry_bytes :: "mp_entry \<Rightarrow> u8 list" where
  "entry_bytes (Processor bs) = 0 # bs"
| "entry_bytes (Other t bs) = t # bs"

definition is_processor :: "mp_entry \<Rightarrow> bool" where
  "is_processor e = (case e of Processor _ \<Rightarrow> True | Other _ _ \<Rightarrow> False)"

definition bytes_from :: "(nat \<Rightarrow> u8) \<Rightarrow> nat \<Rightarrow> u8 list \<Rightarrow> bool" where
  "bytes_from m a bs \<longleftrightarrow> (\<forall>i < length bs. m (a + i) = bs ! i)"

lemma bytes_from_append: "bytes_from m a (bs @ ds) \<longleftrightarrow> bytes_from m a bs \<and> bytes_from m (a + length bs) ds"
proof
  assume l: "bytes_from m a (bs @ ds)"
  have "m (a + length bs + i) = ds ! i" if "i < length ds" for i
    using l [unfolded bytes_from_def, rule_format, of "length bs + i"] that by (simp add: add.assoc)
  moreover have "m (a + i) = bs ! i" if "i < length bs" for i
    using l [unfolded bytes_from_def, rule_format, of i] that by (simp add: nth_append)
  ultimately show "bytes_from m a bs \<and> bytes_from m (a + length bs) ds" by (simp add: bytes_from_def)
next
  assume r: "bytes_from m a bs \<and> bytes_from m (a + length bs) ds"
  show "bytes_from m a (bs @ ds)"
    unfolding bytes_from_def
  proof (intro allI impI)
    fix i assume i: "i < length (bs @ ds)"
    show "m (a + i) = (bs @ ds) ! i"
    proof (cases "i < length bs")
      case False
      have "m (a + length bs + (i - length bs)) = ds ! (i - length bs)"
        by (rule r [THEN conjunct2, unfolded bytes_from_def, rule_format]) (use False i in simp)
      then show ?thesis using False by (simp add: nth_append)
    qed (use r in \<open>simp add: bytes_from_def nth_append\<close>)
  qed
qed

lemma mp_loop_counts:
  "list_all entry_ok es \<Longrightarrow> bytes_from m ptr (concat (List.map entry_bytes es)) \<Longrightarrow>
    stop = ptr + length (concat (List.map entry_bytes es)) \<Longrightarrow>
    mp_loop m stop ptr ncpu =
      (let n = ncpu + length (filter is_processor es) in if MAX_CPU < n \<and> filter is_processor es \<noteq> [] then Inl Panic else Inr n)"
proof (induction es arbitrary: ptr ncpu)
  case Nil
  then show ?case by (simp add: mp_loop.simps)
next
  case (Cons e es)
  have b: "bytes_from m ptr (entry_bytes e)" "bytes_from m (ptr + length (entry_bytes e)) (concat (List.map entry_bytes es))"
    using Cons.prems(2) by (simp_all add: bytes_from_append)
  note IH = Cons.IH [OF _ b(2)]
  show ?case
  proof (cases e)
    case (Processor bs)
    then have "m ptr = 0" "length (entry_bytes e) = 20"
      using b(1) [unfolded bytes_from_def, rule_format, of 0] Cons.prems(1) by simp_all
    moreover from this(2) have "mp_loop m stop (20 + ptr) (ncpu + 1) =
        (let n = ncpu + 1 + length (filter is_processor es) in if MAX_CPU < n \<and> filter is_processor es \<noteq> [] then Inl Panic else Inr n)"
      using IH [of "ncpu + 1"] Cons.prems(1,3) by (simp add: add.commute)
    ultimately show ?thesis
      using Processor Cons.prems(3) by (subst mp_loop.simps) (auto simp: is_processor_def Let_def)
  next
    case (Other t bs)
    then have "m ptr \<noteq> 0" "length (entry_bytes e) = 8"
      using b(1) [unfolded bytes_from_def, rule_format, of 0] Cons.prems(1) by simp_all
    moreover from this(2) have "mp_loop m stop (ptr + 8) ncpu =
        (let n = ncpu + length (filter is_processor es) in if MAX_CPU < n \<and> filter is_processor es \<noteq> [] then Inl Panic else Inr n)"
      using IH [of ncpu] Cons.prems(1,3) by simp
    ultimately show ?thesis
      using Other Cons.prems(3) by (subst mp_loop.simps) (auto simp: is_processor_def Let_def)
  qed
qed

section \<open>Segments\<close>

text \<open>The bit fields of a segment descriptor, from the low end.\<close>

record SegDesc =
  lim_15_0 :: "16 word"
  base_15_0 :: "16 word"
  base_23_16 :: "8 word"
  sd_type :: "4 word"
  sd_s :: "1 word"
  sd_dpl :: "2 word"
  sd_p :: "1 word"
  lim_19_16 :: "4 word"
  sd_avl :: "1 word"
  sd_l :: "1 word"
  sd_db :: "1 word"
  sd_g :: "1 word"
  base_31_24 :: "8 word"

definition SEG64 :: "u32 \<Rightarrow> u32 \<Rightarrow> SegDesc" where
  "SEG64 type dpl = \<lparr>lim_15_0 = 0, base_15_0 = 0, base_23_16 = 0, sd_type = ucast type, sd_s = 1, sd_dpl = ucast dpl, sd_p = 1,
     lim_19_16 = 0, sd_avl = 0, sd_l = 1, sd_db = 0, sd_g = 0, base_31_24 = 0\<rparr>"

definition SEG16 :: "u32 \<Rightarrow> u64 \<Rightarrow> u64 \<Rightarrow> u32 \<Rightarrow> SegDesc" where
  "SEG16 type base lim dpl = \<lparr>lim_15_0 = ucast (lim AND 0xffff), base_15_0 = ucast (base AND 0xffff),
     base_23_16 = ucast (drop_bit 16 base AND 0xff), sd_type = ucast type, sd_s = 0, sd_dpl = ucast dpl, sd_p = 1,
     lim_19_16 = ucast (drop_bit 16 lim), sd_avl = 0, sd_l = 0, sd_db = 1, sd_g = 0, base_31_24 = ucast (drop_bit 24 base)\<rparr>"

definition DPL_KERN :: u32 where "DPL_KERN = 0"
definition DPL_USER :: u32 where "DPL_USER = 3"
definition STA_X :: u32 where "STA_X = 8"
definition STA_W :: u32 where "STA_W = 2"
definition STA_R :: u32 where "STA_R = 2"
definition STS_T32A :: u32 where "STS_T32A = 9"
definition SEG_KCODE :: u64 where "SEG_KCODE = 1"
definition SEG_KDATA :: u64 where "SEG_KDATA = 2"
definition SEG_TSS :: u64 where "SEG_TSS = 5"
definition KSEL :: "u64 \<Rightarrow> u64" where "KSEL seg = push_bit 3 seg OR 0"
definition SIZEOF_TSS :: u64 where "SIZEOF_TSS = 104"

text \<open>
  The table of a CPU with its task state at address \<open>tss\<close>; what is loaded into the processor is the
  table and the selector of the task state.
\<close>

definition percpu_initgdt :: "u64 \<Rightarrow> SegDesc list \<Rightarrow> (SegDesc list \<times> u16) res" where
  "percpu_initgdt tss gdt =
     (let gdt = gdt[1 := SEG64 (STA_X OR STA_R) DPL_KERN, 2 := SEG64 STA_W DPL_KERN, 3 := SEG64 (STA_X OR STA_R) DPL_USER,
                4 := SEG64 STA_W DPL_USER, 5 := SEG16 STS_T32A tss (SIZEOF_TSS - 1) DPL_KERN]
      in res_bind (guard Panic (drop_bit 32 tss = 0)) (\<lambda>_. Inr (gdt, ucast (KSEL SEG_TSS))))"

text \<open>What the processor makes of it: the base, and the descriptor a selector picks.\<close>

definition seg_base :: "SegDesc \<Rightarrow> u64" where
  "seg_base d = ucast (base_15_0 d) OR push_bit 16 (ucast (base_23_16 d)) OR push_bit 24 (ucast (base_31_24 d))"

definition seg_limit :: "SegDesc \<Rightarrow> u64" where
  "seg_limit d = ucast (lim_15_0 d) OR push_bit 16 (ucast (lim_19_16 d))"

definition selected :: "SegDesc list \<Rightarrow> u64 \<Rightarrow> SegDesc" where
  "selected gdt sel = gdt ! unat (drop_bit 3 sel)"

lemma low_mask: "(0xffff :: u64) = mask 16" "(0xff :: u64) = mask 8"
  by (simp_all add: mask_eq_exp_minus_1)

lemma seg_base_SEG16:
  assumes "drop_bit 32 base = 0"
  shows "seg_base (SEG16 type base lim dpl) = base"
proof (rule bit_word_eqI)
  fix n assume n: "n < LENGTH(64)"
  have hi: "\<not> bit base n" if "32 \<le> n"
  proof -
    have "bit (drop_bit 32 base) (n - 32) = bit base n" using that by (simp add: bit_drop_bit_eq)
    then show ?thesis using assms by simp
  qed
  consider "n < 16" | "16 \<le> n" "n < 24" | "24 \<le> n" "n < 32" | "32 \<le> n" by linarith
  then show "bit (seg_base (SEG16 type base lim dpl)) n = bit base n"
    unfolding seg_base_def SEG16_def SegDesc.simps low_mask by cases (use hi n in \<open>auto simp: bit_simps\<close>)
qed

section \<open>The properties\<close>

text \<open>The tables the firmware leaves: the first signature is at \<open>st\<close> and its configuration table has the entries \<open>es\<close>.\<close>

definition mp_tables :: "(nat \<Rightarrow> u8) \<Rightarrow> nat \<Rightarrow> mp_entry list \<Rightarrow> u32 \<Rightarrow> bool" where
  "mp_tables m st es lapic \<longleftrightarrow>
     0xf0000 \<le> st \<and> st < 0xffffff \<and> mem32 m st = 0x5f504d5f \<and> (\<forall>x. 0xf0000 \<le> x \<and> x < st \<longrightarrow> mem32 m x \<noteq> 0x5f504d5f) \<and>
     (let conf = unat (mem32 m (st + MPDESC_CONF)) in
       list_all entry_ok es \<and> bytes_from m (conf + SIZEOF_MPCONF) (concat (List.map entry_bytes es)) \<and>
       unat (mem16 m (conf + MPCONF_LENGTH)) = SIZEOF_MPCONF + length (concat (List.map entry_bytes es)) \<and>
       mem32 m (conf + MPCONF_LAPICADDR) = lapic)"

lemma find_upt:
  assumes "a \<le> st" and "st < b" and "p st" and "\<forall>x. a \<le> x \<and> x < st \<longrightarrow> \<not> p x"
  shows "List.find p [a..<b] = Some st"
  unfolding find_Some_iff using assms by (intro exI [of _ "st - a"]) auto

lemma lapic_init_ok:
  assumes "mp_tables m st es lapic" and "length (filter is_processor es) \<le> MAX_CPU"
  shows "lapic_init m 0 = Inr (ucast lapic, length (filter is_processor es))"
proof -
  have f: "List.find (\<lambda>st. mem32 m st = 0x5f504d5f) [0xf0000..<0xffffff] = Some st"
    by (rule find_upt) (use assms(1) in \<open>auto simp: mp_tables_def\<close>)
  show ?thesis
    using assms mp_loop_counts [of es m "unat (mem32 m (st + MPDESC_CONF)) + SIZEOF_MPCONF" _ 0]
    unfolding lapic_init_def f option.case by (simp add: mp_tables_def Let_def add.assoc)
qed

lemma heap_start_round:
  assumes "unat end_addr \<le> 2 ^ 23"
  shows "unat (ar_start (fst (heap_init P end_addr h))) = (unat end_addr + (2 ^ 20 - 1)) div 2 ^ 20 * 2 ^ 20"
proof -
  have "ar_start (fst (heap_init P end_addr h)) = ROUNDUP end_addr (2 ^ 20)" by (simp add: heap_init_def Let_def split_def)
  then show ?thesis using assms by (simp only:) (rule unat_ROUNDUP, simp_all)
qed

text \<open>
  C10: booting. On a machine with \<open>k\<close> blocks of 64 KiB above 16 MiB, less than 512 MiB in all, whose firmware
  lists at most eight processors, and with a kernel image that ends below 8 MiB, the boot code finds
  the local APICs and the number of processors, and the heap it hands to \<open>pmm_init\<close>, from the first MiB
  boundary behind the image to the end of memory, is one on which the allocator's
  initialisation succeeds for that many processors, with its invariant holding and nothing allocated.
\<close>

theorem boot_establishes_allocator:
  assumes "cmos_memory P k" and "k + 256 < 2 ^ 13" and "unat end_addr \<le> 2 ^ 23"
    and "mp_tables m mp es lapic" and "length (filter is_processor es) \<le> MAX_CPU"
    and "heap_start st = ar_start (fst (heap_init P end_addr h))" and "heap_end st = ar_end (fst (heap_init P end_addr h))"
  shows "\<exists>n st'. lapic_init m 0 = Inr (ucast lapic, n) \<and> n = length (filter is_processor es) \<and>
    pmm_init n st = Inr st' \<and> pmm_inv st' \<and> objs st' = {} \<and> n_slab st' = n"
proof -
  let ?n = "length (filter is_processor es)" and ?s = "(unat end_addr + (2 ^ 20 - 1)) div 2 ^ 20"
  let ?p = "2 ^ 8 + k - 16 * ?s - 3"
  have hs: "unat (heap_start st) = ?s * 2 ^ 20" using assms(3,6) heap_start_round by simp
  have he: "unat (heap_end st) = 2 ^ 24 + k * 65536" unfolding assms(7) by (rule heap_init_end [OF assms(1)]) (use assms(2) in simp)
  have s: "?s \<le> 8" using assms(3) by simp
  have fp: "first_page (unat (heap_start st)) = (16 * ?s + 3) * 65536" 
  proof -
    have "?s * 2 ^ 20 + 24 * META_SZ + 65535 = (16 * ?s + 3) * 65536 + 65535" by (simp add: META_SZ_def)
    moreover have "((16 * ?s + 3) * 65536 + 65535) div 65536 = 16 * ?s + 3" by simp
    ultimately show ?thesis unfolding hs first_page_def by (simp only:)
  qed
  have "(unat (heap_end st) - first_page (unat (heap_start st))) div 65536 = ?p"
  proof -
    have "unat (heap_end st) - first_page (unat (heap_start st)) = ?p * 65536"
      unfolding he fp by (simp add: algebra_simps)
    then show ?thesis by simp
  qed
  moreover have "SLAB_SIZE * ?n \<le> 72" using assms(5) by (simp add: SLAB_SIZE_def MAX_CPU_def)
  moreover have "?p \<ge> 125" "?p < META_SZ" using s assms(2) by (simp_all add: META_SZ_def)
  moreover have "first_page (unat (heap_start st)) \<le> unat (heap_end st)" unfolding fp he using s by simp
  moreover have "unat (heap_end st) \<le> 2 ^ 63" unfolding he using assms(2) by simp
  moreover have "?n \<le> SLAB_CPUS" using assms(5) by (simp add: MAX_CPU_def SLAB_CPUS_def)
  ultimately obtain st' where "pmm_init ?n st = Inr st'" "pmm_inv st'" "objs st' = {}" "n_slab st' = ?n"
    using pmm_init_ok [of st ?p ?n] by auto
  then show ?thesis using lapic_init_ok [OF assms(4,5)] by blast
qed

text \<open>A machine with 128 MiB, two processors and one bus.\<close>

definition ex_ports :: "u8 port_io" where
  "ex_ports = \<lparr>inb = (\<lambda>_ h. (if h = 0x34 then 0 else 7, h)), outb = (\<lambda>_ v h. v), inl = (\<lambda>_ h. (0, h)), outl = (\<lambda>_ _ h. h)\<rparr>"

definition ex_entries :: "mp_entry list" where
  "ex_entries = [Processor (replicate 19 1), Processor (replicate 19 2), Other 1 (replicate 7 0)]"

definition ex_table :: "u8 list" where
  "ex_table = [0x5f, 0x4d, 0x50, 0x5f] @ le32 0xf0010 @ replicate 8 0 @
     [0x50, 0x43, 0x4d, 0x50] @ le16 92 @ replicate 30 0 @ le32 0xfee00000 @ replicate 4 0 @
     concat (List.map entry_bytes ex_entries)"

definition ex_bios :: "nat \<Rightarrow> u8" where
  "ex_bios a = (if 0xf0000 \<le> a \<and> a - 0xf0000 < length ex_table then ex_table ! (a - 0xf0000) else 0)"

lemma ex_bios_tables: "mp_tables ex_bios 0xf0000 ex_entries 0xfee00000"
proof -
  have t: "length ex_table = 108" "take 4 ex_table = [0x5f, 0x4d, 0x50, 0x5f]" "take 4 (drop 4 ex_table) = le32 0xf0010"
    "take 2 (drop 20 ex_table) = le16 92" "take 4 (drop 52 ex_table) = le32 0xfee00000"
    "drop 60 ex_table = concat (List.map entry_bytes ex_entries)" "length (concat (List.map entry_bytes ex_entries)) = 48"
    by (simp_all add: ex_table_def ex_entries_def le32_def le16_def)
  have b: "List.map (\<lambda>i. ex_bios (a + i)) [0..<n] = take n (drop (a - 0xf0000) ex_table)"
    if "0xf0000 \<le> a" "a - 0xf0000 + n \<le> 108" for a n
    using that by (intro nth_equalityI) (auto simp: t(1) ex_bios_def)
  have m: "mem32 ex_bios 0xf0000 = 0x5f504d5f" "mem32 ex_bios 0xf0004 = 0xf0010" "mem16 ex_bios 0xf0014 = 92"
    "mem32 ex_bios 0xf0034 = 0xfee00000"
    unfolding mem32_def mem16_def using t of_le32_le32 [of "0xf0010" "[]"] of_le32_le32 [of "0xfee00000" "[]"] of_le16_le16 [of 92 "[]"]
    by (simp_all add: b) (simp add: of_le32_def)
  have "ex_bios (0xf003c + i) = concat (List.map entry_bytes ex_entries) ! i" if "i < 48" for i
    using that t(1) by (simp add: ex_bios_def flip: t(6))
  then have "bytes_from ex_bios 0xf003c (concat (List.map entry_bytes ex_entries))" by (simp add: bytes_from_def t(7))
  moreover have "list_all entry_ok ex_entries" by (simp add: ex_entries_def)
  moreover have "\<forall>x. 0xf0000 \<le> x \<and> x < 0xf0000 \<longrightarrow> mem32 ex_bios x \<noteq> 0x5f504d5f" by auto
  ultimately show ?thesis
    using m t(7) by (simp add: mp_tables_def Let_def MPDESC_CONF_def MPCONF_LENGTH_def MPCONF_LAPICADDR_def SIZEOF_MPCONF_def)
qed

theorem boot_establishes_allocator_witness:
  "\<exists>n st'. lapic_init ex_bios 0 = Inr (ucast (0xfee00000 :: u32), n) \<and> n = length (filter is_processor ex_entries) \<and>
    pmm_init n (ex_kboot\<lparr>heap_start := ar_start (fst (heap_init ex_ports 0x123456 0)), heap_end := ar_end (fst (heap_init ex_ports 0x123456 0))\<rparr>) = Inr st' \<and>
    pmm_inv st' \<and> objs st' = {} \<and> n_slab st' = n"
proof (rule boot_establishes_allocator [OF _ _ _ ex_bios_tables])
  show "cmos_memory ex_ports 1792" by (simp add: cmos_memory_def ex_ports_def)
qed (simp_all add: ex_entries_def is_processor_def MAX_CPU_def)

end
