(* ===== verification/Apic_Qemu.thy ===== *)
theory Apic_Qemu
  imports Port_Io
begin

text \<open>
  The interrupt controllers of the qemu platform, the end of \<open>am/src/x86/qemu/ioe.c\<close>: the local APIC of a CPU and the
  I/O APIC, both registers in memory. The devices are an argument; what the theorem needs of the I/O
  APIC is the predicate \<open>ioapic_dev\<close>.
\<close>

unbundle bit_operations_syntax

section \<open>The local APIC\<close>

text \<open>Loads and stores of the 32-bit registers by their index.\<close>

record 'h mmio =
  mm_load :: "nat \<Rightarrow> 'h \<Rightarrow> u32 \<times> 'h"
  mm_store :: "nat \<Rightarrow> u32 \<Rightarrow> 'h \<Rightarrow> 'h"

definition L_ID :: nat where "L_ID = 0x0020 div 4"
definition L_VER :: nat where "L_VER = 0x0030 div 4"
definition L_TPR :: nat where "L_TPR = 0x0080 div 4"
definition L_EOI :: nat where "L_EOI = 0x00B0 div 4"
definition L_SVR :: nat where "L_SVR = 0x00F0 div 4"
definition L_ESR :: nat where "L_ESR = 0x0280 div 4"
definition L_ICRLO :: nat where "L_ICRLO = 0x0300 div 4"
definition L_ICRHI :: nat where "L_ICRHI = 0x0310 div 4"
definition L_TIMER :: nat where "L_TIMER = 0x0320 div 4"
definition L_PCINT :: nat where "L_PCINT = 0x0340 div 4"
definition L_LINT0 :: nat where "L_LINT0 = 0x0350 div 4"
definition L_LINT1 :: nat where "L_LINT1 = 0x0360 div 4"
definition L_ERROR :: nat where "L_ERROR = 0x0370 div 4"
definition L_TICR :: nat where "L_TICR = 0x0380 div 4"
definition L_TDCR :: nat where "L_TDCR = 0x03E0 div 4"

definition T_IRQ0 :: u32 where "T_IRQ0 = 32"
definition IRQ_TIMER :: u32 where "IRQ_TIMER = 0"
definition IRQ_KBD :: u32 where "IRQ_KBD = 1"
definition IRQ_COM1 :: u32 where "IRQ_COM1 = 4"
definition IRQ_ERROR :: u32 where "IRQ_ERROR = 19"
definition IRQ_SPURIOUS :: u32 where "IRQ_SPURIOUS = 31"

definition DELIVS :: u32 where "DELIVS = 0x00001000"
definition MASKED :: u32 where "MASKED = 0x00010000"

text \<open>A write is completed by reading a register.\<close>

definition lapicw :: "'h mmio \<Rightarrow> nat \<Rightarrow> u32 \<Rightarrow> 'h \<Rightarrow> 'h" where
  "lapicw L index value h = snd (mm_load L L_ID (mm_store L index value h))"

partial_function (option) wait_delivered :: "'h mmio \<Rightarrow> 'h \<Rightarrow> 'h option" where
  "wait_delivered L h = (let (v, h) = mm_load L L_ICRLO h in if v AND DELIVS \<noteq> 0 then wait_delivered L h else Some h)"

definition percpu_initlapic :: "'h mmio \<Rightarrow> 'h \<Rightarrow> 'h option" where
  "percpu_initlapic L h =
     (let h = lapicw L L_SVR (0x00000100 OR (T_IRQ0 + IRQ_SPURIOUS)) h;
          h = lapicw L L_TDCR 0x0000000B h;
          h = lapicw L L_TIMER (0x00020000 OR (T_IRQ0 + IRQ_TIMER)) h;
          h = lapicw L L_TICR 10000000 h;
          h = lapicw L L_LINT0 MASKED h;
          h = lapicw L L_LINT1 MASKED h;
          (ver, h) = mm_load L L_VER h;
          h = (if 4 \<le> drop_bit 16 ver AND 0xFF then lapicw L L_PCINT MASKED h else h);
          h = lapicw L L_ERROR (T_IRQ0 + IRQ_ERROR) h;
          h = lapicw L L_ESR 0 h;
          h = lapicw L L_ESR 0 h;
          h = lapicw L L_EOI 0 h;
          h = lapicw L L_ICRHI 0 h;
          h = lapicw L L_ICRLO (0x00080000 OR 0x00000500 OR 0x00008000) h
      in Option.bind (wait_delivered L h) (\<lambda>h. Some (lapicw L L_TPR 0 h)))"

text \<open>\<open>lapic\<close> is the address found by \<open>__am_lapic_init\<close>, zero before.\<close>

definition lapic_eoi :: "'h mmio \<Rightarrow> addr \<Rightarrow> 'h \<Rightarrow> 'h" where
  "lapic_eoi L lapic h = (if lapic \<noteq> 0 then lapicw L L_EOI 0 h else h)"

text \<open>Starting another processor at \<open>a\<close>; \<open>poke\<close> stores a byte in the low memory.\<close>

definition lapic_bootap :: "'h port_io \<Rightarrow> 'h mmio \<Rightarrow> (nat \<Rightarrow> u16 \<Rightarrow> 'h \<Rightarrow> 'h) \<Rightarrow> u32 \<Rightarrow> addr \<Rightarrow> 'h \<Rightarrow> 'h" where
  "lapic_bootap P L poke16 apicid a h =
     (let h = outb P 0x70 0xF h;
          h = outb P 0x71 0x0A h;
          h = poke16 0x467 0 h;
          h = poke16 0x469 (ucast (drop_bit 4 a)) h;
          h = lapicw L L_ICRHI (push_bit 24 apicid) h;
          h = lapicw L L_ICRLO (0x00000500 OR 0x00008000 OR 0x00004000) h;
          h = lapicw L L_ICRLO (0x00000500 OR 0x00008000) h;
          startup = (\<lambda>h. lapicw L L_ICRLO (0x00000600 OR ucast (drop_bit 12 a)) (lapicw L L_ICRHI (push_bit 24 apicid) h))
      in startup (startup h))"

section \<open>The I/O APIC\<close>

definition REG_VER :: u32 where "REG_VER = 1"
definition REG_TABLE :: u32 where "REG_TABLE = 0x10"
definition INT_DISABLED :: u32 where "INT_DISABLED = 0x00010000"

text \<open>The structure \<open>IOAPIC\<close>: \<open>reg\<close> is word 0 and \<open>data\<close> word 4.\<close>

definition ioapicread :: "'h mmio \<Rightarrow> u32 \<Rightarrow> 'h \<Rightarrow> u32 \<times> 'h" where
  "ioapicread I reg h = mm_load I 4 (mm_store I 0 reg h)"

definition ioapicwrite :: "'h mmio \<Rightarrow> u32 \<Rightarrow> u32 \<Rightarrow> 'h \<Rightarrow> 'h" where
  "ioapicwrite I reg data h = mm_store I 4 data (mm_store I 0 reg h)"

definition ioapic_init_entry :: "'h mmio \<Rightarrow> nat \<Rightarrow> 'h \<Rightarrow> 'h" where
  "ioapic_init_entry I i h =
     ioapicwrite I (REG_TABLE + 2 * of_nat i + 1) 0 (ioapicwrite I (REG_TABLE + 2 * of_nat i) (INT_DISABLED OR (T_IRQ0 + of_nat i)) h)"

definition ioapic_init :: "'h mmio \<Rightarrow> 'h \<Rightarrow> 'h" where
  "ioapic_init I h =
     (let (v, h) = ioapicread I REG_VER h; maxintr = unat (drop_bit 16 v AND 0xFF)
      in fold (ioapic_init_entry I) [0..<maxintr + 1] h)"

definition ioapic_enable :: "'h mmio \<Rightarrow> u32 \<Rightarrow> u32 \<Rightarrow> 'h \<Rightarrow> 'h" where
  "ioapic_enable I irq cpunum h =
     ioapicwrite I (REG_TABLE + 2 * irq + 1) (push_bit 24 cpunum) (ioapicwrite I (REG_TABLE + 2 * irq) (T_IRQ0 + irq) h)"

definition percpu_initirq :: "'h mmio \<Rightarrow> 'h \<Rightarrow> 'h" where
  "percpu_initirq I h = ioapic_enable I IRQ_COM1 0 (ioapic_enable I IRQ_KBD 0 h)"

text \<open>
  The documented device: storing to word 0 selects a register, word 4 is that register; the version
  register gives the highest entry and cannot be written. (Two status bits of an entry are read-only; the driver writes zero there.)
\<close>

definition ioapic_dev :: "'h mmio \<Rightarrow> ('h \<Rightarrow> u32) \<Rightarrow> ('h \<Rightarrow> u32 \<Rightarrow> u32) \<Rightarrow> nat \<Rightarrow> bool" where
  "ioapic_dev I sel regs maxintr \<longleftrightarrow> maxintr < 240 \<and>
     (\<forall>h v. sel (mm_store I 0 v h) = v \<and> regs (mm_store I 0 v h) = regs h) \<and>
     (\<forall>h v. sel (mm_store I 4 v h) = sel h \<and> (sel h \<noteq> REG_VER \<longrightarrow> regs (mm_store I 4 v h) = (regs h)(sel h := v))) \<and>
     (\<forall>h. fst (mm_load I 4 h) = regs h (sel h) \<and> sel (snd (mm_load I 4 h)) = sel h \<and> regs (snd (mm_load I 4 h)) = regs h) \<and>
     (\<forall>h. unat (drop_bit 16 (regs h REG_VER) AND 0xFF) = maxintr)"

lemma ioapicwrite_regs:
  "ioapic_dev I sel regs maxintr \<Longrightarrow> r \<noteq> REG_VER \<Longrightarrow> regs (ioapicwrite I r v h) = (regs h)(r := v)"
  by (simp add: ioapic_dev_def ioapicwrite_def)

definition entry_reg :: "nat \<Rightarrow> u32" where
  "entry_reg i = REG_TABLE + 2 * of_nat i"

lemma entry_reg_unat: "i < 240 \<Longrightarrow> unat (entry_reg i) = 16 + 2 * i \<and> unat (entry_reg i + 1) = 17 + 2 * i"
proof -
  assume "i < 240"
  then have "unat (of_nat (16 + 2 * i) :: u32) = 16 + 2 * i" "unat (of_nat (17 + 2 * i) :: u32) = 17 + 2 * i"
    by (intro unat_of_nat_small; simp)+
  then show ?thesis by (simp add: entry_reg_def REG_TABLE_def)
qed

lemma entry_reg_distinct:
  assumes "i < 240" and "j < 240"
  shows "entry_reg i = entry_reg j \<longleftrightarrow> i = j" and "entry_reg i \<noteq> entry_reg j + 1"
    and "entry_reg i + 1 = entry_reg j + 1 \<longleftrightarrow> i = j" and "entry_reg i \<noteq> REG_VER" and "entry_reg i + 1 \<noteq> REG_VER"
proof -
  note ei = entry_reg_unat [OF assms(1)] and ej = entry_reg_unat [OF assms(2)]
  have inj: "i = j" if "entry_reg i = entry_reg j"
  proof -
    have "unat (entry_reg i) = unat (entry_reg j)" using that by (rule arg_cong)
    then show ?thesis unfolding ei [THEN conjunct1] ej [THEN conjunct1] by simp
  qed
  then show "entry_reg i = entry_reg j \<longleftrightarrow> i = j" by blast
  show "entry_reg i \<noteq> entry_reg j + 1"
  proof
    assume "entry_reg i = entry_reg j + 1"
    then have "unat (entry_reg i) = unat (entry_reg j + 1)" by (rule arg_cong)
    then show False unfolding ei [THEN conjunct1] ej [THEN conjunct2] by presburger
  qed
  show "entry_reg i + 1 = entry_reg j + 1 \<longleftrightarrow> i = j" using inj by (metis add_right_cancel)
  have v: "unat REG_VER = 1" by (simp add: REG_VER_def)
  show "entry_reg i \<noteq> REG_VER"
  proof
    assume "entry_reg i = REG_VER"
    then have "unat (entry_reg i) = unat REG_VER" by (rule arg_cong)
    then show False unfolding ei [THEN conjunct1] v by simp
  qed
  show "entry_reg i + 1 \<noteq> REG_VER"
  proof
    assume "entry_reg i + 1 = REG_VER"
    then have "unat (entry_reg i + 1) = unat REG_VER" by (rule arg_cong)
    then show False unfolding ei [THEN conjunct2] v by simp
  qed
qed

lemma init_fold:
  assumes "ioapic_dev I sel regs maxintr"
  shows "n \<le> 240 \<Longrightarrow> (\<forall>i < n. regs (fold (ioapic_init_entry I) [0..<n] h) (entry_reg i) = INT_DISABLED OR (T_IRQ0 + of_nat i) \<and>
    regs (fold (ioapic_init_entry I) [0..<n] h) (entry_reg i + 1) = 0)"
proof (induction n)
  case (Suc n)
  let ?h = "fold (ioapic_init_entry I) [0..<n] h"
  note d = entry_reg_distinct
  have "regs (ioapic_init_entry I n ?h) = (regs ?h)(entry_reg n := INT_DISABLED OR (T_IRQ0 + of_nat n), entry_reg n + 1 := 0)"
    using ioapicwrite_regs [OF assms] d(4,5) [of n n] Suc.prems by (simp add: ioapic_init_entry_def entry_reg_def)
  moreover have "entry_reg i \<noteq> entry_reg n" "entry_reg i + 1 \<noteq> entry_reg n + 1" if "i < n" for i
    using d(1,3) [of i n] that Suc.prems by auto
  moreover have "entry_reg i \<noteq> entry_reg j + 1" "entry_reg i + 1 \<noteq> entry_reg j" if "i < Suc n" "j < Suc n" for i j
    using d(2) [of i j] d(2) [of j i] that Suc.prems by auto
  ultimately show ?case using Suc by (auto simp: less_Suc_eq)
qed simp

text \<open>
  C31: which interrupts reach the processor. After the boot code has set up the I/O APIC and the first processor has run
  its part, the lines of the keyboard and the serial port go to processor 0 as vectors 33 and 36,
  and every other line of the controller is disabled.
\<close>

theorem irqs_routed:
  assumes "ioapic_dev I sel regs maxintr" and "4 \<le> maxintr"
  shows "\<forall>i \<le> maxintr. regs (percpu_initirq I (ioapic_init I h)) (entry_reg i + 1) = 0 \<and>
    regs (percpu_initirq I (ioapic_init I h)) (entry_reg i) =
      (if i = 1 then 33 else if i = 4 then 36 else INT_DISABLED OR (T_IRQ0 + of_nat i))"
proof -
  have r: "fst (ioapicread I REG_VER h) = regs h REG_VER" using assms(1) by (simp add: ioapicread_def ioapic_dev_def)
  let ?h0 = "snd (ioapicread I REG_VER h)"
  have m: "unat (drop_bit 16 (fst (ioapicread I REG_VER h)) AND 0xFF) = maxintr" unfolding r using assms(1) by (simp add: ioapic_dev_def)
  have i: "ioapic_init I h = fold (ioapic_init_entry I) [0..<maxintr + 1] ?h0"
    unfolding ioapic_init_def split_def Let_def m ..
  have mi: "maxintr < 240" using assms(1) by (simp add: ioapic_dev_def)
  let ?h = "ioapic_init I h"
  have all: "\<forall>i < maxintr + 1. regs ?h (entry_reg i) = INT_DISABLED OR (T_IRQ0 + of_nat i) \<and> regs ?h (entry_reg i + 1) = 0"
    unfolding i by (rule init_fold [OF assms(1)]) (use mi in simp)
  have en: "regs (ioapic_enable I (of_nat n) 0 h') = (regs h')(entry_reg n := T_IRQ0 + of_nat n, entry_reg n + 1 := 0)" if "n < 240" for n h'
    using ioapicwrite_regs [OF assms(1)] entry_reg_distinct(4,5) [OF that that] by (simp add: ioapic_enable_def entry_reg_def)
  have p: "regs (percpu_initirq I ?h) = (regs ?h)(entry_reg 1 := 33, entry_reg 1 + 1 := 0, entry_reg 4 := 36, entry_reg 4 + 1 := 0)"
    using en [of 4 "ioapic_enable I 1 0 ?h"] en [of 1 ?h]
    by (simp add: percpu_initirq_def IRQ_KBD_def IRQ_COM1_def T_IRQ0_def del: fun_upd_apply)
  show ?thesis
  proof (intro allI impI)
    fix j assume "j \<le> maxintr"
    then have j: "j < 240" "j < maxintr + 1" using mi by simp_all
    have "entry_reg j = entry_reg 1 \<longleftrightarrow> j = 1" "entry_reg j = entry_reg 4 \<longleftrightarrow> j = 4"
      "entry_reg j + 1 = entry_reg 1 + 1 \<longleftrightarrow> j = 1" "entry_reg j + 1 = entry_reg 4 + 1 \<longleftrightarrow> j = 4"
      "entry_reg j \<noteq> entry_reg 1 + 1" "entry_reg j \<noteq> entry_reg 4 + 1" "entry_reg 1 \<noteq> entry_reg j + 1" "entry_reg 4 \<noteq> entry_reg j + 1"
      by (intro entry_reg_distinct; use j in simp)+
    then show "regs (percpu_initirq I ?h) (entry_reg j + 1) = 0 \<and>
        regs (percpu_initirq I ?h) (entry_reg j) = (if j = 1 then 33 else if j = 4 then 36 else INT_DISABLED OR (T_IRQ0 + of_nat j))"
      unfolding p using all [rule_format, OF j(2)] by (auto simp: fun_upd_def)
  qed
qed

text \<open>A controller of 24 lines.\<close>

definition sim_ioapic :: "(u32 \<times> (u32 \<Rightarrow> u32)) mmio" where
  "sim_ioapic = \<lparr>mm_load = (\<lambda>i h. (if fst h = REG_VER then 0x170011 else snd h (fst h), h)),
     mm_store = (\<lambda>i v h. if i = 0 then (v, snd h) else (fst h, (snd h)(fst h := v)))\<rparr>"

definition sim_regs :: "u32 \<times> (u32 \<Rightarrow> u32) \<Rightarrow> u32 \<Rightarrow> u32" where
  "sim_regs h r = (if r = REG_VER then 0x170011 else snd h r)"

lemma sim_ioapic_dev: "ioapic_dev sim_ioapic fst sim_regs 23"
  by (auto simp: ioapic_dev_def sim_ioapic_def sim_regs_def fun_eq_iff)

theorem irqs_routed_witness:
  "let h = percpu_initirq sim_ioapic (ioapic_init sim_ioapic (0, \<lambda>_. 0)) in
    sim_regs h (entry_reg 1) = 33 \<and> sim_regs h (entry_reg 1 + 1) = 0 \<and> sim_regs h (entry_reg 4) = 36 \<and>
    sim_regs h (entry_reg 23) = INT_DISABLED OR (T_IRQ0 + 23)"
proof -
  have "\<forall>i \<le> 23. sim_regs (percpu_initirq sim_ioapic (ioapic_init sim_ioapic (0, \<lambda>_. 0))) (entry_reg i + 1) = 0 \<and>
    sim_regs (percpu_initirq sim_ioapic (ioapic_init sim_ioapic (0, \<lambda>_. 0))) (entry_reg i) =
      (if i = 1 then 33 else if i = 4 then 36 else INT_DISABLED OR (T_IRQ0 + of_nat i))"
    by (rule irqs_routed [OF sim_ioapic_dev]) simp
  from this [rule_format, of 1] this [rule_format, of 4] this [rule_format, of 23] show ?thesis by (simp add: Let_def)
qed

end
