(* ===== verification/Cte_Qemu.thy ===== *)
theory Cte_Qemu
  imports Trm_Qemu Apic_Qemu
begin

text \<open>
  Interrupts and context switches on x86_64: the gates, the entry and exit code of \<open>trap64.S\<close>, and the
  dispatch of \<open>cte.c\<close>. The handler of the kernel is an argument. The stack of an interrupt is a list of
  words, the top first, as the stubs push them.
\<close>

unbundle bit_operations_syntax

section \<open>The machine\<close>

text \<open>The registers an interrupt meets; \<open>c_gprs\<close> are \<open>rax\<close> to \<open>r15\<close> in the order of \<open>Context\<close>.\<close>

record cpu =
  c_gprs :: "u64 list"
  c_rip :: u64
  c_cs :: u64
  c_rflags :: u64
  c_rsp :: u64
  c_ss :: u64
  c_cr2 :: u64
  c_cr3 :: u64
  c_tss_rsp0 :: u64

text \<open>What the processor pushes: the state, and for some exceptions an error code.\<close>

definition hw_frame :: "u64 option \<Rightarrow> cpu \<Rightarrow> u64 list" where
  "hw_frame err c = (case err of None \<Rightarrow> [] | Some e \<Rightarrow> [e]) @ [c_rip c, c_cs c, c_rflags c, c_rsp c, c_ss c]"

section \<open>The stubs\<close>

text \<open>\<open>IRQS\<close>: number, privilege level, whether the hardware pushes an error code.\<close>

definition IRQS :: "(nat \<times> u32 \<times> bool) list" where
  "IRQS = [(0, DPL_KERN, False), (1, DPL_KERN, False), (2, DPL_KERN, False), (3, DPL_KERN, False), (4, DPL_KERN, False),
     (5, DPL_KERN, False), (6, DPL_KERN, False), (7, DPL_KERN, False), (8, DPL_KERN, True), (9, DPL_KERN, False),
     (10, DPL_KERN, True), (11, DPL_KERN, True), (12, DPL_KERN, True), (13, DPL_KERN, True), (14, DPL_KERN, True),
     (15, DPL_KERN, False), (16, DPL_KERN, False), (19, DPL_KERN, False), (31, DPL_KERN, False), (32, DPL_KERN, False),
     (33, DPL_KERN, False), (34, DPL_KERN, False), (35, DPL_KERN, False), (36, DPL_KERN, False), (37, DPL_KERN, False),
     (38, DPL_KERN, False), (39, DPL_KERN, False), (40, DPL_KERN, False), (41, DPL_KERN, False), (42, DPL_KERN, False),
     (43, DPL_KERN, False), (44, DPL_KERN, False), (45, DPL_KERN, False), (46, DPL_KERN, False), (47, DPL_KERN, False),
     (128, DPL_USER, False), (129, DPL_USER, False)]"

text \<open>\<open>__am_irq<id>\<close> pushes a zero where the hardware pushes nothing, and the number; \<open>__am_irqall\<close> a zero and -1.\<close>

definition irq_stub :: "nat \<Rightarrow> u64 list \<Rightarrow> u64 list" where
  "irq_stub v stk =
     (case map_of IRQS v of
        Some (_, err) \<Rightarrow> of_nat v # (if err then stk else 0 # stk)
      | None \<Rightarrow> - 1 # 0 # stk)"

text \<open>\<open>trap\<close>: six words are left as they are, the registers and a word for \<open>cr3\<close> go on top.\<close>

definition trap_push :: "u64 list \<Rightarrow> cpu \<Rightarrow> u64 list \<Rightarrow> u64 list" where
  "trap_push junk c stk = 0 # c_gprs c @ junk @ stk"

record trap_frame =
  saved_context :: Context
  tf_irq :: u64
  errcode :: u64
  tf_rip :: u64
  tf_cs :: u64
  tf_rflags :: u64
  tf_rsp :: u64
  tf_ss :: u64

text \<open>The structure that lies at the stack pointer.\<close>

definition context_at :: "u64 list \<Rightarrow> Context" where
  "context_at w = \<lparr>ctx_cr3 = w ! 0, gprs = take 15 (drop 1 w), rip = w ! 16, cs = w ! 17, rflags = w ! 18, rsp = w ! 19,
     ss = w ! 20, rsp0 = w ! 21\<rparr>"

definition frame_at :: "u64 list \<Rightarrow> trap_frame" where
  "frame_at w = \<lparr>saved_context = context_at w, tf_irq = w ! 22, errcode = w ! 23, tf_rip = w ! 24, tf_cs = w ! 25,
     tf_rflags = w ! 26, tf_rsp = w ! 27, tf_ss = w ! 28\<rparr>"

text \<open>\<open>__am_iret\<close>: the registers of a context are loaded, \<open>iretq\<close> last.\<close>

definition am_iret :: "Context \<Rightarrow> cpu \<Rightarrow> cpu" where
  "am_iret ctx c = c\<lparr>c_gprs := gprs ctx, c_rip := rip ctx, c_cs := cs ctx, c_rflags := rflags ctx, c_rsp := rsp ctx, c_ss := ss ctx\<rparr>"

section \<open>Dispatch\<close>

datatype event_kind = EVENT_NULL | EVENT_YIELD | EVENT_SYSCALL | EVENT_PAGEFAULT | EVENT_ERROR | EVENT_IRQ_TIMER | EVENT_IRQ_IODEV

record Event =
  ev_event :: event_kind
  ev_cause :: u64
  ev_ref :: u64
  ev_msg :: string

definition EX_SYSCALL :: u64 where "EX_SYSCALL = 0x80"
definition EX_YIELD :: u64 where "EX_YIELD = 0x81"

definition event_of :: "trap_frame \<Rightarrow> cpu \<Rightarrow> Event" where
  "event_of tf c =
     (let ev = (\<lambda>e msg. \<lparr>ev_event = e, ev_cause = 0, ev_ref = 0, ev_msg = msg\<rparr>); n = tf_irq tf in
      if n = 32 + 0 then ev EVENT_IRQ_TIMER ''timer interrupt (lapic)''
      else if n = 32 + 1 then ev EVENT_IRQ_IODEV ''I/O device IRQ1 (keyboard)''
      else if n = 32 + 4 then ev EVENT_IRQ_IODEV ''I/O device IRQ4 (COM1)''
      else if n = EX_SYSCALL then ev EVENT_SYSCALL ''int $0x80 system call''
      else if n = EX_YIELD then ev EVENT_YIELD ''int $0x81 yield''
      else if n = 0 then ev EVENT_ERROR ''DE #0 divide by zero''
      else if n = 6 then ev EVENT_ERROR ''UD #6 invalid opcode''
      else if n = 7 then ev EVENT_ERROR ''NM #7 coprocessor error''
      else if n = 8 then ev EVENT_ERROR ''DF #8 double fault''
      else if n = 10 then ev EVENT_ERROR ''TS #10 invalid TSS''
      else if n = 11 then ev EVENT_ERROR ''NP #11 segment/gate not present''
      else if n = 12 then ev EVENT_ERROR ''SS #12 stack fault''
      else if n = 13 then ev EVENT_ERROR ''GP #13, general protection fault''
      else if n = 14 then
        \<lparr>ev_event = EVENT_PAGEFAULT,
         ev_cause = (if errcode tf AND 0x1 \<noteq> 0 then ucast MMAP_NONE else 0) OR
           (if errcode tf AND 0x2 \<noteq> 0 then ucast MMAP_WRITE else ucast MMAP_READ),
         ev_ref = c_cr2 c, ev_msg = ''PF #14, page fault, @cause: PROT_XXX''\<rparr>
      else \<lparr>ev_event = EVENT_ERROR, ev_cause = errcode tf, ev_ref = 0, ev_msg = ''unrecognized interrupt/exception''\<rparr>)"

text \<open>The context with what the stub has left open.\<close>

definition complete_context :: "trap_frame \<Rightarrow> cpu \<Rightarrow> Context" where
  "complete_context tf c = (saved_context tf)\<lparr>rip := tf_rip tf, cs := tf_cs tf, rflags := tf_rflags tf, rsp := tf_rsp tf,
     rsp0 := c_tss_rsp0 c, ss := tf_ss tf, ctx_cr3 := c_cr3 c\<rparr>"

text \<open>\<open>__am_irq_handle\<close> up to and with the return: \<open>handler\<close> is \<open>user_handler\<close>, with the state \<open>'s\<close> of the kernel.\<close>

type_synonym 's handler = "Event \<Rightarrow> Context \<Rightarrow> 's \<Rightarrow> Context option \<times> 's"

definition irq_handle :: "'h mmio \<Rightarrow> addr \<Rightarrow> 's handler \<Rightarrow> trap_frame \<Rightarrow> cpu \<Rightarrow> 'h \<Rightarrow> 's \<Rightarrow> (cpu \<times> 'h \<times> 's) res" where
  "irq_handle L lapic handler tf c h s =
     (let ctx = complete_context tf c;
          h = (if 32 \<le> tf_irq tf \<and> tf_irq tf < 64 then lapic_eoi L lapic h else h);
          (ret, s) = handler (event_of tf c) ctx s
      in case ret of
           None \<Rightarrow> Inl Panic
         | Some ret \<Rightarrow>
             let c = (if ctx_cr3 ret \<noteq> 0 then c\<lparr>c_cr3 := ctx_cr3 ret, c_tss_rsp0 := rsp0 ret\<rparr> else c)
             in Inr (am_iret ret c, h, s))"

text \<open>An interrupt from the hardware's push to the return.\<close>

definition interrupt :: "'h mmio \<Rightarrow> addr \<Rightarrow> 's handler \<Rightarrow> u64 list \<Rightarrow> nat \<Rightarrow> u64 option \<Rightarrow> cpu \<Rightarrow> 'h \<Rightarrow> 's \<Rightarrow> (cpu \<times> 'h \<times> 's) res" where
  "interrupt L lapic handler junk v err c h s =
     irq_handle L lapic handler (frame_at (trap_push junk c (irq_stub v (hw_frame err c)))) c h s"

section \<open>Contexts and gates\<close>

text \<open>\<open>kcontext\<close>: \<open>start\<close> is the address of \<open>__am_kcontext_start\<close>.\<close>

definition kcontext :: "u64 \<Rightarrow> Area \<Rightarrow> addr \<Rightarrow> u64 \<Rightarrow> addr \<times> Context" where
  "kcontext start kstack entry arg =
     (ar_end kstack - SIZEOF_CONTEXT,
      \<lparr>ctx_cr3 = 0, gprs = (replicate 15 0)[6 := arg, 5 := entry], rip = start, cs = KSEL SEG_KCODE, rflags = FL_IF,
       rsp = ar_end kstack, ss = 0, rsp0 = 0\<rparr>)"

text \<open>\<open>__am_kcontext_start\<close>: the address of the panic for a return is pushed, then the jump to \<open>rsi\<close>.\<close>

definition kcontext_start :: "cpu \<Rightarrow> cpu" where
  "kcontext_start c = c\<lparr>c_rsp := c_rsp c - 8, c_rip := c_gprs c ! 5\<rparr>"

record GateDesc64 =
  g_off_15_0 :: "16 word"
  g_cs :: "16 word"
  g_isv :: "3 word"
  g_zero1 :: "5 word"
  g_type :: "4 word"
  g_zero2 :: "1 word"
  g_dpl :: "2 word"
  g_p :: "1 word"
  g_off_31_16 :: "16 word"
  g_off_63_32 :: "32 word"
  g_rsv :: "32 word"

definition GATE64 :: "u32 \<Rightarrow> u64 \<Rightarrow> u64 \<Rightarrow> u32 \<Rightarrow> GateDesc64" where
  "GATE64 type sel entry dpl = \<lparr>g_off_15_0 = ucast (entry AND 0xffff), g_cs = ucast sel, g_isv = 0, g_zero1 = 0, g_type = ucast type,
     g_zero2 = 0, g_dpl = ucast dpl, g_p = 1, g_off_31_16 = ucast (drop_bit 16 entry AND 0xffff),
     g_off_63_32 = ucast (drop_bit 32 entry), g_rsv = 0\<rparr>"

definition STS_TG :: u32 where "STS_TG = 0xf"
definition NR_IRQ :: nat where "NR_IRQ = 256"

text \<open>\<open>cte_init\<close>: \<open>irqall\<close> and \<open>irq\<close> are the addresses of the stubs. The second part of the result is the kernel's handler.\<close>

definition cte_init :: "nat \<Rightarrow> u64 \<Rightarrow> (nat \<Rightarrow> u64) \<Rightarrow> 's handler option \<Rightarrow> (GateDesc64 list \<times> 's handler) res" where
  "cte_init cpu irqall irq handler =
     res_bind (guard Panic (cpu = 0)) (\<lambda>_.
     case handler of None \<Rightarrow> Inl Panic
     | Some f \<Rightarrow>
       let idt = replicate NR_IRQ (GATE64 STS_TG (KSEL SEG_KCODE) irqall DPL_KERN);
           idt = fold (\<lambda>(v, dpl, err) idt. idt[v := GATE64 STS_TG (KSEL SEG_KCODE) (irq v) dpl]) IRQS idt
       in Inr (idt, f))"

text \<open>The address in a gate, as the processor reads it.\<close>

definition gate_offset :: "GateDesc64 \<Rightarrow> u64" where
  "gate_offset g = ucast (g_off_15_0 g) OR push_bit 16 (ucast (g_off_31_16 g)) OR push_bit 32 (ucast (g_off_63_32 g))"

section \<open>A switch\<close>

text \<open>The context that stands for a state of the processor.\<close>

definition context_of :: "cpu \<Rightarrow> Context" where
  "context_of c = \<lparr>ctx_cr3 = c_cr3 c, gprs = c_gprs c, rip = c_rip c, cs = c_cs c, rflags = c_rflags c, rsp = c_rsp c,
     ss = c_ss c, rsp0 = c_tss_rsp0 c\<rparr>"

text \<open>What each vector means.\<close>

definition kind_of :: "nat \<Rightarrow> event_kind" where
  "kind_of v = (if v = 32 then EVENT_IRQ_TIMER else if v \<in> {33, 36} then EVENT_IRQ_IODEV else if v = 128 then EVENT_SYSCALL
     else if v = 129 then EVENT_YIELD else if v = 14 then EVENT_PAGEFAULT else EVENT_ERROR)"

lemma length_15: "length xs = 15 \<Longrightarrow> \<exists>a0 a1 a2 a3 a4 a5 a6 a7 a8 a9 a10 a11 a12 a13 a14.
    xs = [a0, a1, a2, a3, a4, a5, a6, a7, a8, a9, a10, a11, a12, a13, a14]"
  by (simp add: length_Suc_conv numeral_eq_Suc) blast

lemma length_6: "length xs = 6 \<Longrightarrow> \<exists>a0 a1 a2 a3 a4 a5. xs = [a0, a1, a2, a3, a4, a5]"
  by (simp add: length_Suc_conv numeral_eq_Suc) blast

text \<open>The stubs build the structure that \<open>cte.c\<close> reads.\<close>

lemma frame_words:
  assumes "length (c_gprs c) = 15" and "length junk = 6" and "stk = n # e # hw_frame None c"
  shows "complete_context (frame_at (trap_push junk c stk)) c = context_of c"
    and "tf_irq (frame_at (trap_push junk c stk)) = n" and "errcode (frame_at (trap_push junk c stk)) = e"
proof -
  obtain a0 a1 a2 a3 a4 a5 a6 a7 a8 a9 a10 a11 a12 a13 a14 where g: "c_gprs c = [a0, a1, a2, a3, a4, a5, a6, a7, a8, a9, a10, a11, a12, a13, a14]"
    using length_15 [OF assms(1)] by blast
  obtain j0 j1 j2 j3 j4 j5 where j: "junk = [j0, j1, j2, j3, j4, j5]" using length_6 [OF assms(2)] by blast
  have w: "trap_push junk c stk = [0, a0, a1, a2, a3, a4, a5, a6, a7, a8, a9, a10, a11, a12, a13, a14, j0, j1, j2, j3, j4, j5,
      n, e, c_rip c, c_cs c, c_rflags c, c_rsp c, c_ss c]"
    by (simp add: trap_push_def g j assms(3) hw_frame_def)
  show "complete_context (frame_at (trap_push junk c stk)) c = context_of c"
    "tf_irq (frame_at (trap_push junk c stk)) = n" "errcode (frame_at (trap_push junk c stk)) = e"
    unfolding w by (simp_all add: complete_context_def frame_at_def context_at_def context_of_def g)
qed

lemma stub_words:
  assumes "(v, d, err) \<in> set IRQS" and "err = (code \<noteq> None)"
  shows "irq_stub v (hw_frame code c) = of_nat v # (case code of None \<Rightarrow> 0 | Some e \<Rightarrow> e) # hw_frame None c"
proof -
  have "distinct (List.map fst IRQS)" by (simp add: IRQS_def)
  then have "map_of IRQS v = Some (d, err)" using assms(1) by simp
  then show ?thesis using assms(2) by (cases code) (simp_all add: irq_stub_def hw_frame_def)
qed

lemma kind_ok:
  assumes "(v, d, err) \<in> set IRQS" and "tf_irq tf = of_nat v"
  shows "ev_event (event_of tf c) = kind_of v"
proof -
  have "\<forall>(v, _) \<in> set IRQS. \<forall>tf. tf_irq tf = of_nat v \<longrightarrow> ev_event (event_of tf c) = kind_of v"
    unfolding IRQS_def by (simp add: event_of_def Let_def kind_of_def EX_SYSCALL_def EX_YIELD_def)
  then show ?thesis using assms by blast
qed

text \<open>
  C6: context switches are exact. Take any interrupt or exception for which there is a stub, with an error code exactly
  where the table says so. The kernel's handler is called with the kind of event that belongs to the
  vector and a context that holds the interrupted state, and whatever state \<open>a\<close> the context it returns
  was taken from, the processor goes on in exactly that state, page table and kernel stack included; so
  a thread that is put aside and later chosen again does not notice.
\<close>

theorem context_switch_exact:
  assumes "(v, d, err) \<in> set IRQS" and "err = (code \<noteq> None)"
    and "length (c_gprs c) = 15" and "length junk = 6" and "c_cr3 a \<noteq> 0"
    and "\<forall>ev. ev_event ev = kind_of v \<longrightarrow> handler ev (context_of c) s = (Some (context_of a), s')"
  shows "\<exists>h'. interrupt L lapic handler junk v code c h s = Inr (a\<lparr>c_cr2 := c_cr2 c\<rparr>, h', s')"
proof -
  let ?tf = "frame_at (trap_push junk c (irq_stub v (hw_frame code c)))"
  note f = frame_words [OF assms(3,4) stub_words [OF assms(1,2)]]
  have "handler (event_of ?tf c) (complete_context ?tf c) s = (Some (context_of a), s')"
    using assms(6) kind_ok [OF assms(1) f(2)] unfolding f(1) by blast
  then show ?thesis
    using assms(5) by (simp add: interrupt_def irq_handle_def Let_def am_iret_def context_of_def)
qed

definition ex_cpu :: "u64 \<Rightarrow> cpu" where
  "ex_cpu n = \<lparr>c_gprs = replicate 15 n, c_rip = n, c_cs = 8, c_rflags = 0x202, c_rsp = n + 1, c_ss = 16, c_cr2 = 0, c_cr3 = 0x1000, c_tss_rsp0 = n + 2\<rparr>"

definition ex_lapic :: "unit mmio" where
  "ex_lapic = \<lparr>mm_load = (\<lambda>_ h. (0, h)), mm_store = (\<lambda>_ _ h. h)\<rparr>"

text \<open>A handler that alternates between two threads on the timer.\<close>

definition ex_handler :: "Context handler" where
  "ex_handler ev ctx s = (if ev_event ev = EVENT_IRQ_TIMER then (Some s, ctx) else (Some ctx, s))"

theorem context_switch_exact_witness:
  "\<exists>h'. interrupt ex_lapic 0xfee00000 ex_handler (replicate 6 9) 32 None (ex_cpu 1) () (context_of (ex_cpu 2)) =
    Inr ((ex_cpu 2)\<lparr>c_cr2 := c_cr2 (ex_cpu 1)\<rparr>, h', context_of (ex_cpu 1))"
  by (rule context_switch_exact [where d = DPL_KERN and err = False])
    (simp_all add: IRQS_def ex_cpu_def ex_handler_def kind_of_def)

text \<open>
  A new kernel thread. When the handler returns the context that \<open>kcontext\<close> made, the processor leaves the interrupt
  in kernel mode with interrupts enabled and the page table it had, and after the two instructions of
  the start code it is at the first instruction of \<open>entry\<close> with \<open>arg\<close> as its argument and an empty stack that ends at the area given,
  but for the return address.
\<close>

theorem new_thread_starts:
  assumes "(v, d, err) \<in> set IRQS" and "err = (code \<noteq> None)" and "length (c_gprs c) = 15" and "length junk = 6"
    and "\<forall>ev. ev_event ev = kind_of v \<longrightarrow> handler ev (context_of c) s = (Some (snd (kcontext start kstack entry arg)), s')"
  shows "\<exists>c' h'. interrupt L lapic handler junk v code c h s = Inr (c', h', s') \<and>
    c_rip c' = start \<and> c_cr3 c' = c_cr3 c \<and> c_cs c' AND 3 = 0 \<and> c_rflags c' AND FL_IF \<noteq> 0 \<and>
    c_rip (kcontext_start c') = entry \<and> c_gprs (kcontext_start c') ! 6 = arg \<and> c_rsp (kcontext_start c') = ar_end kstack - 8"
proof -
  let ?tf = "frame_at (trap_push junk c (irq_stub v (hw_frame code c)))"
  note f = frame_words [OF assms(3,4) stub_words [OF assms(1,2)]]
  have "handler (event_of ?tf c) (complete_context ?tf c) s = (Some (snd (kcontext start kstack entry arg)), s')"
    using assms(5) kind_ok [OF assms(1) f(2)] unfolding f(1) by blast
  then show ?thesis
    by (simp add: interrupt_def irq_handle_def Let_def am_iret_def kcontext_def kcontext_start_def FL_IF_def KSEL_def SEG_KCODE_def
        nth_list_update)
qed

theorem new_thread_starts_witness:
  "\<exists>c' h'. interrupt ex_lapic 0 ex_handler (replicate 6 9) 32 None (ex_cpu 1) ()
      (snd (kcontext 0x100 \<lparr>ar_start = 0x8000, ar_end = 0xA000\<rparr> 0x5000 7)) = Inr (c', h', context_of (ex_cpu 1)) \<and>
    c_rip c' = 0x100 \<and> c_cr3 c' = c_cr3 (ex_cpu 1) \<and> c_cs c' AND 3 = 0 \<and> c_rflags c' AND FL_IF \<noteq> 0 \<and>
    c_rip (kcontext_start c') = 0x5000 \<and> c_gprs (kcontext_start c') ! 6 = 7 \<and>
    c_rsp (kcontext_start c') = ar_end \<lparr>ar_start = 0x8000, ar_end = 0xA000\<rparr> - 8"
  by (rule new_thread_starts [where d = DPL_KERN and err = False])
    (simp_all add: IRQS_def ex_cpu_def ex_handler_def kind_of_def)

lemma gate_offset_GATE64: "gate_offset (GATE64 type sel entry dpl) = entry"
proof (rule bit_word_eqI)
  fix n assume n: "n < LENGTH(64)"
  consider "n < 16" | "16 \<le> n" "n < 32" | "32 \<le> n" by linarith
  then show "bit (gate_offset (GATE64 type sel entry dpl)) n = bit entry n"
    unfolding gate_offset_def GATE64_def GateDesc64.simps low_mask by cases (use n in \<open>auto simp: bit_simps\<close>)
qed

lemma fold_gates:
  "distinct (List.map fst xs) \<Longrightarrow> v < length idt \<Longrightarrow>
    fold (\<lambda>(v, d, e) idt. idt[v := g v d]) xs idt ! v = (case map_of xs v of None \<Rightarrow> idt ! v | Some (d, _) \<Rightarrow> g v d)"
proof (induction xs arbitrary: idt)
  case (Cons x xs)
  obtain v' d e where x: "x = (v', d, e)" using prod_cases3 by blast
  have "fold (\<lambda>(v, d, e) idt. idt[v := g v d]) xs (idt[v' := g v' d]) ! v =
      (case map_of xs v of None \<Rightarrow> idt[v' := g v' d] ! v | Some (d, _) \<Rightarrow> g v d)"
    using Cons by simp
  moreover have "map_of xs v' = None" using Cons.prems(1) x by (simp add: map_of_eq_None_iff)
  ultimately show ?case using x Cons.prems(2) by (auto simp: nth_list_update split: option.splits)
qed simp

text \<open>
  C32: the table of gates. \<open>cte_init\<close> on the first processor, given a handler, succeeds; every vector below 256
  then has a present trap gate into the kernel's code segment, at the stub of its own for the vectors
  of the list and at the common stub for the others, and user code may raise only the vectors of
  the system call and of \<open>yield\<close> itself.
\<close>

theorem idt_covers_all_vectors:
  "\<exists>idt. cte_init 0 irqall irq (Some f) = Inr (idt, f) \<and> length idt = NR_IRQ \<and>
    list_all (\<lambda>v. gate_offset (idt ! v) = (if v \<in> fst ` set IRQS then irq v else irqall) \<and> g_p (idt ! v) = 1 \<and>
      g_type (idt ! v) = ucast STS_TG \<and> g_cs (idt ! v) = ucast (KSEL SEG_KCODE) \<and>
      (g_dpl (idt ! v) = (if v = 128 \<or> v = 129 then 3 else 0))) [0..<NR_IRQ]"
proof -
  let ?g = "\<lambda>v dpl. GATE64 STS_TG (KSEL SEG_KCODE) (irq v) dpl"
  let ?idt = "fold (\<lambda>(v, d, e) idt. idt[v := ?g v d]) IRQS (replicate NR_IRQ (GATE64 STS_TG (KSEL SEG_KCODE) irqall DPL_KERN))"
  have len: "length (fold (\<lambda>(v, d, e) idt. idt[v := ?g v d]) xs idt) = length idt" for xs and idt :: "GateDesc64 list"
    by (induction xs arbitrary: idt) (simp_all add: split_def)
  have d: "distinct (List.map fst IRQS)" by (simp add: IRQS_def)
  have at: "?idt ! v = (case map_of IRQS v of None \<Rightarrow> GATE64 STS_TG (KSEL SEG_KCODE) irqall DPL_KERN | Some (d, _) \<Rightarrow> ?g v d)"
    if "v < NR_IRQ" for v
    using fold_gates [OF d, of v "replicate NR_IRQ (GATE64 STS_TG (KSEL SEG_KCODE) irqall DPL_KERN)" ?g] that by (simp split: option.split)
  have dpl: "d = (if v = 128 \<or> v = 129 then DPL_USER else DPL_KERN)" if "map_of IRQS v = Some (d, e)" for v d e
  proof -
    have "\<forall>(v, d, e) \<in> set IRQS. d = (if v = 128 \<or> v = 129 then DPL_USER else DPL_KERN)" by (simp add: IRQS_def)
    then show ?thesis using map_of_SomeD [OF that] by blast
  qed
  have user: "map_of IRQS v \<noteq> None" if "v = 128 \<or> v = 129" for v
    using that by (auto simp: IRQS_def)
  have "gate_offset (?idt ! v) = (if v \<in> fst ` set IRQS then irq v else irqall) \<and> g_p (?idt ! v) = 1 \<and>
      g_type (?idt ! v) = ucast STS_TG \<and> g_cs (?idt ! v) = ucast (KSEL SEG_KCODE) \<and>
      (g_dpl (?idt ! v) = (if v = 128 \<or> v = 129 then 3 else 0))" if v: "v < NR_IRQ" for v
  proof (cases "map_of IRQS v")
    case None
    then have a: "?idt ! v = GATE64 STS_TG (KSEL SEG_KCODE) irqall DPL_KERN" using at [OF v] by (simp only: option.case)
    have "v \<noteq> 128" "v \<noteq> 129" using user [of v] None by blast+
    moreover have "v \<notin> fst ` set IRQS" using None by (simp add: map_of_eq_None_iff)
    ultimately show ?thesis by (simp add: a gate_offset_GATE64) (simp add: GATE64_def DPL_KERN_def)
  next
    case (Some p)
    then obtain d e where p: "map_of IRQS v = Some (d, e)" by (cases p) simp
    then have "v \<in> fst ` set IRQS" by (metis map_of_eq_None_iff option.distinct(1))
    then show ?thesis
      using dpl [OF p] by (simp add: at [OF v] p gate_offset_GATE64) (simp add: GATE64_def DPL_KERN_def DPL_USER_def)
  qed
  then show ?thesis by (intro exI [of _ ?idt]) (simp add: cte_init_def len list_all_iff)
qed

text \<open>A page fault on a missing page and one against the protection give the same event: \<open>MMAP_NONE\<close> is zero.\<close>

lemma pagefault_cause_same:
  "tf_irq tf = 14 \<Longrightarrow> event_of (tf\<lparr>errcode := e OR 1\<rparr>) c = event_of (tf\<lparr>errcode := e AND NOT 1\<rparr>) c"
proof -
  have "(e OR 1) AND 0x2 = e AND 0x2" "(e AND NOT 1) AND 0x2 = e AND 0x2"
    by (rule bit_word_eqI; simp add: bit_simps; auto)+
  then show "tf_irq tf = 14 \<Longrightarrow> ?thesis" by (simp add: event_of_def Let_def MMAP_NONE_def EX_SYSCALL_def EX_YIELD_def)
qed

end
