(* ===== verification/Native_Cte.thy ===== *)
theory Native_Cte
  imports Native_Vme Cte_Qemu
begin

text \<open>
  Traps of the native platform, \<open>am/src/native/cte.c\<close> with \<open>ucontext\<close> of \<open>vme.c\<close> and \<open>trap.S\<close>: a trap is a
  signal. The signal handler turns it into an event, saves the interrupted context below the stack and goes back into
  \<open>irq_handle\<close>, which calls the kernel's handler and then touches the address \<open>0x100008\<close>, whose signal restores the
  context the kernel chose. The \<open>Event\<close> is that of \<open>Cte_Qemu\<close>.
\<close>

unbundle bit_operations_syntax

section \<open>Data\<close>

datatype signal = SIGUSR1 | SIGUSR2 | SIGVTALRM | SIGSEGV | SIG_other nat

datatype si_code = SEGV_MAPERR | SEGV_ACCERR | SI_other u32

datatype greg = REG_RIP | REG_RSP | REG_RDI | REG_RSI | REG_other nat

text \<open>\<open>ucontext_t\<close>: the registers, the signal mask, and what the code only copies.\<close>

record 'f uctx =
  gregs :: "greg \<Rightarrow> u64"
  uc_sigmask :: "signal set"
  uc_rest :: 'f

record 'f nctx =
  nc_ksp :: u64
  nc_vm_head :: addr
  nc_uc :: "'f uctx"

text \<open>What the process has: its address spaces, the rest of \<open>thiscpu\<close>, and the contexts in its memory.\<close>

record ('a, 'f) proc =
  vmem :: "'a native"
  ksp :: u64
  cpu_ev :: Event
  ctxs :: "addr \<rightharpoonup> 'f nctx"

text \<open>
  Where the linker puts the program and the functions a context starts in, the size of a \<open>Context\<close>, which the system's
  \<open>ucontext_t\<close> determines, the name of a signal, and the context \<open>uc_example\<close> that is saved at the start.
\<close>

record 'f image =
  text_area :: Area
  sigprocmask_at :: addr
  irq_handle_at :: addr
  kcontext_start_at :: addr
  panic_on_return_at :: addr
  context_size :: u64
  strsignal :: "signal \<Rightarrow> string"
  uc_example :: "'f uctx"

text \<open>The mask of \<open>init_platform\<close>.\<close>

definition intr_sigmask :: "signal set" where
  "intr_sigmask = {SIGVTALRM, SIGUSR1}"

definition SYSCALL_INSTR_LEN :: u64 where "SYSCALL_INSTR_LEN = 7"

section \<open>The signal handler\<close>

text \<open>\<open>c->uc = *uc\<close>: the other members of the object keep what they have.\<close>

definition save_uc :: "addr \<Rightarrow> 'f uctx \<Rightarrow> ('a, 'f) proc \<Rightarrow> ('a, 'f) proc" where
  "save_uc c uc s = s\<lparr>ctxs := (ctxs s)(c \<mapsto>
     (case ctxs s c of None \<Rightarrow> \<lparr>nc_ksp = 0, nc_vm_head = 0, nc_uc = uc\<rparr> | Some x \<Rightarrow> x\<lparr>nc_uc := uc\<rparr>))\<rparr>"

definition setup_stack :: "'f image \<Rightarrow> event_kind \<Rightarrow> 'f uctx \<Rightarrow> ('a, 'f) proc \<Rightarrow> 'f uctx \<times> ('a, 'f) proc" where
  "setup_stack im event uc s =
     (let rip = gregs uc REG_RIP;
          trap_from_user = in_userspace_native rip (vmem s);
          signal_safe = (IN_RANGE rip (text_area im) \<or> trap_from_user \<or> rip = sigprocmask_at im + 13)
      in if (event = EVENT_IRQ_IODEV \<or> event = EVENT_IRQ_TIMER) \<and> \<not> signal_safe then (uc, s)
         else
           let rip = (if event = EVENT_SYSCALL then rip + SYSCALL_INSTR_LEN else rip);
               uc = uc\<lparr>gregs := (gregs uc)(REG_RIP := rip)\<rparr>;
               rsp = (if trap_from_user then ksp s else gregs uc REG_RSP);
               rsp = rsp - context_size im;
               rsp = (if (rsp + 8) mod 16 \<noteq> 0 then rsp - 8 else rsp);
               c = rsp;
               s = save_uc c uc s
           in (uc\<lparr>uc_sigmask := intr_sigmask, gregs := (gregs uc)(REG_RDI := c, REG_RIP := irq_handle_at im, REG_RSP := c)\<rparr>, s))"

definition iret :: "'f uctx \<Rightarrow> ('a, 'f) proc \<Rightarrow> ('f uctx \<times> ('a, 'f) proc) res" where
  "iret uc s = res_bind (deref (ctxs s) (gregs uc REG_RDI)) (\<lambda>c. Inr (nc_uc c, s\<lparr>ksp := nc_ksp c\<rparr>))"

text \<open>The two pages the kernel is called through.\<close>

definition TRAP_SYSCALL :: addr where "TRAP_SYSCALL = 0x100000"
definition TRAP_IRET :: addr where "TRAP_IRET = 0x100008"

definition segv_event :: "si_code \<Rightarrow> addr \<Rightarrow> ('a, 'f) proc \<Rightarrow> Event \<Rightarrow> Event res" where
  "segv_event code a s ev =
     (let ev = (if code = SEGV_ACCERR \<and> a = TRAP_SYSCALL then ev\<lparr>ev_event := EVENT_SYSCALL\<rparr> else ev)
      in if in_userspace_native a (vmem s) then
           res_bind (guard AssertFail (ev_event ev = EVENT_ERROR)) (\<lambda>_.
           res_bind (case code of SEGV_MAPERR \<Rightarrow> Inr MMAP_READ | SEGV_ACCERR \<Rightarrow> Inr MMAP_WRITE | SI_other _ \<Rightarrow> Inl AssertFail) (\<lambda>cause.
           Inr (ev\<lparr>ev_event := EVENT_PAGEFAULT, ev_cause := ucast cause, ev_ref := a\<rparr>)))
         else Inr ev)"

definition code_value :: "si_code \<Rightarrow> u64" where
  "code_value code = (case code of SEGV_MAPERR \<Rightarrow> 1 | SEGV_ACCERR \<Rightarrow> 2 | SI_other n \<Rightarrow> ucast n)"

definition sig_handler :: "'f image \<Rightarrow> signal \<Rightarrow> si_code \<Rightarrow> addr \<Rightarrow> 'f uctx \<Rightarrow> ('a, 'f) proc \<Rightarrow> ('f uctx \<times> ('a, 'f) proc) res" where
  "sig_handler im sig code a uc s =
     (let ev = \<lparr>ev_event = EVENT_ERROR, ev_cause = 0, ev_ref = 0, ev_msg = []\<rparr>
      in if sig = SIGSEGV \<and> code = SEGV_ACCERR \<and> a = TRAP_IRET then iret uc (s\<lparr>cpu_ev := ev\<rparr>)
         else
           res_bind (case sig of
               SIGUSR1 \<Rightarrow> Inr (ev\<lparr>ev_event := EVENT_IRQ_IODEV\<rparr>)
             | SIGUSR2 \<Rightarrow> Inr (ev\<lparr>ev_event := EVENT_YIELD\<rparr>)
             | SIGVTALRM \<Rightarrow> Inr (ev\<lparr>ev_event := EVENT_IRQ_TIMER\<rparr>)
             | SIGSEGV \<Rightarrow> segv_event code a s ev
             | SIG_other _ \<Rightarrow> Inr ev) (\<lambda>ev.
           let ev = (if ev_event ev = EVENT_ERROR then ev\<lparr>ev_ref := a, ev_cause := code_value code, ev_msg := strsignal im sig\<rparr> else ev)
           in Inr (setup_stack im (ev_event ev) uc (s\<lparr>cpu_ev := ev\<rparr>))))"

section \<open>The kernel\<close>

text \<open>\<open>user_handler\<close>: its argument is the event, the address of the context, and all the process has.\<close>

type_synonym ('a, 'f) user_handler = "Event \<Rightarrow> addr \<Rightarrow> ('a, 'f) proc \<Rightarrow> addr \<times> ('a, 'f) proc"

text \<open>\<open>irq_handle\<close> up to the call of the address \<open>0x100008\<close>; the result is the argument of that call.\<close>

definition irq_handle_native :: "('a, 'f) user_handler \<Rightarrow> addr \<Rightarrow> ('a, 'f) proc \<Rightarrow> (addr \<times> ('a, 'f) proc) res" where
  "irq_handle_native user_handler c s =
     res_bind (deref (ctxs s) c) (\<lambda>x.
     let s = s\<lparr>ctxs := (ctxs s)(c \<mapsto> x\<lparr>nc_vm_head := vm_head (vmem s), nc_ksp := ksp s\<rparr>)\<rparr>
     in res_bind (guard AssertFail (ev_event (cpu_ev s) \<noteq> EVENT_ERROR)) (\<lambda>_.
        let (c, s) = user_handler (cpu_ev s) c s
        in res_bind (guard AssertFail (c \<noteq> 0)) (\<lambda>_.
           res_bind (deref (ctxs s) c) (\<lambda>x.
           res_bind (switch_native (nc_vm_head x) (vmem s)) (\<lambda>v.
           Inr (c, s\<lparr>vmem := v\<rparr>))))))"

text \<open>
  A signal, from the instruction it interrupts to the one that runs next: the handler of the signal returns into
  \<open>irq_handle\<close> or to where it was; the call of \<open>0x100008\<close> is a second signal, at which the machine has \<open>junk\<close> but for
  the argument.
\<close>

definition native_trap ::
    "'f image \<Rightarrow> ('a, 'f) user_handler \<Rightarrow> 'f uctx \<Rightarrow> signal \<Rightarrow> si_code \<Rightarrow> addr \<Rightarrow> 'f uctx \<Rightarrow> ('a, 'f) proc \<Rightarrow> ('f uctx \<times> ('a, 'f) proc) res" where
  "native_trap im user_handler junk sig code a uc s =
     res_bind (sig_handler im sig code a uc s) (\<lambda>(uc, s).
     if gregs uc REG_RIP = irq_handle_at im then
       res_bind (irq_handle_native user_handler (gregs uc REG_RDI) s) (\<lambda>(c, s).
       sig_handler im SIGSEGV SEGV_ACCERR TRAP_IRET (junk\<lparr>gregs := (gregs junk)(REG_RDI := c)\<rparr>) s)
     else Inr (uc, s))"

section \<open>Contexts and interrupts\<close>

definition kcontext_native :: "'f image \<Rightarrow> Area \<Rightarrow> addr \<Rightarrow> u64 \<Rightarrow> ('a, 'f) proc \<Rightarrow> addr \<times> ('a, 'f) proc" where
  "kcontext_native im kstack entry arg s =
     (let c = ar_end kstack - context_size im;
          ex = uc_example im;
          uc = ex\<lparr>gregs := (gregs ex)(REG_RIP := kcontext_start_at im, REG_RSP := ar_end kstack, REG_RDI := arg, REG_RSI := entry),
            uc_sigmask := {}\<rparr>;
          s = save_uc c uc s
      in (c, s\<lparr>ctxs := (ctxs s)(c := map_option (\<lambda>x. x\<lparr>nc_vm_head := 0\<rparr>) (ctxs s c))\<rparr>))"

definition ucontext_native :: "'f image \<Rightarrow> addr \<Rightarrow> Area \<Rightarrow> addr \<Rightarrow> ('a, 'f) proc \<Rightarrow> addr \<times> ('a, 'f) proc" where
  "ucontext_native im as kstack entry s =
     (let c = ar_end kstack - context_size im;
          ex = uc_example im;
          uc = ex\<lparr>gregs := (gregs ex)(REG_RIP := entry, REG_RSP := ar_end USER_SPACE), uc_sigmask := {}\<rparr>;
          s = save_uc c uc s
      in (c, s\<lparr>ctxs := (ctxs s)(c := map_option (\<lambda>x. x\<lparr>nc_vm_head := as, nc_ksp := ar_end kstack\<rparr>) (ctxs s c))\<rparr>))"

text \<open>\<open>__am_kcontext_start\<close> up to the first instruction of the entry, with the return address it pushes.\<close>

definition native_kcontext_start :: "'f image \<Rightarrow> 'f uctx \<Rightarrow> 'f uctx \<times> (addr \<times> u64)" where
  "native_kcontext_start im uc =
     (let rsp = gregs uc REG_RSP AND 0xfffffffffffffff0; rsp = rsp - 8
      in (uc\<lparr>gregs := (gregs uc)(REG_RSP := rsp, REG_RIP := gregs uc REG_RSI)\<rparr>, (rsp, panic_on_return_at im)))"

definition ienabled_native :: "'f uctx \<Rightarrow> bool" where
  "ienabled_native uc \<longleftrightarrow> SIGVTALRM \<notin> uc_sigmask uc"

definition iset_native :: "bool \<Rightarrow> 'f uctx \<Rightarrow> 'f uctx" where
  "iset_native enable uc = uc\<lparr>uc_sigmask := (if enable then uc_sigmask uc - intr_sigmask else uc_sigmask uc \<union> intr_sigmask)\<rparr>"

text \<open>\<open>yield\<close> raises \<open>SIGUSR2\<close>, which is not in the mask of interrupts.\<close>

definition yield_native :: "'f image \<Rightarrow> ('a, 'f) user_handler \<Rightarrow> 'f uctx \<Rightarrow> 'f uctx \<Rightarrow> ('a, 'f) proc \<Rightarrow> ('f uctx \<times> ('a, 'f) proc) res" where
  "yield_native im user_handler junk uc s = native_trap im user_handler junk SIGUSR2 (SI_other 0) 0 uc s"


section \<open>Saving a context\<close>

lemma mod_0_uint: "(x :: u64) mod n = 0 \<longleftrightarrow> uint x mod uint n = 0"
  by (subst unsigned_eq_0_iff [symmetric], subst uint_mod) (rule refl)

lemma mod_8_16: "(x :: u64) mod 8 = 0 \<Longrightarrow> (x + 8) mod 16 \<noteq> 0 \<Longrightarrow> x mod 16 = 0"
proof -
  assume a: "x mod 8 = 0" "(x + 8) mod 16 \<noteq> 0"
  have "uint (x + 8) mod 16 = (uint x + 8) mod 18446744073709551616 mod 16" by (simp add: uint_word_ariths)
  also have "\<dots> = (uint x + 8) mod 16" by (rule mod_mod_cancel) simp
  finally have "(uint x + 8) mod 16 \<noteq> 0" using a(2) unfolding mod_0_uint by simp
  moreover have "uint x mod 8 = 0" using a(1) unfolding mod_0_uint by simp
  ultimately have "uint x mod 16 = 0" by presburger
  then show "x mod 16 = 0" unfolding mod_0_uint by simp
qed

lemma mod_8_minus: "(x :: u64) mod 8 = 0 \<Longrightarrow> y mod 8 = 0 \<Longrightarrow> (x - y) mod 8 = 0"
proof -
  assume a: "x mod 8 = 0" "y mod 8 = 0"
  have "uint (x - y) mod 8 = (uint x - uint y) mod 18446744073709551616 mod 8" by (simp add: uint_word_ariths)
  also have "\<dots> = (uint x - uint y) mod 8" by (rule mod_mod_cancel) simp
  also have "\<dots> = 0"
  proof -
    have "uint x mod 8 = 0" "uint y mod 8 = 0" using a unfolding mod_0_uint by simp_all
    then have "8 dvd uint x" "8 dvd uint y" by (simp_all only: dvd_eq_mod_eq_0)
    then have "8 dvd uint x - uint y" by (rule dvd_diff)
    then show ?thesis by (simp only: dvd_eq_mod_eq_0)
  qed
  finally have "uint (x - y) mod 8 = 0" .
  then show "(x - y) mod 8 = 0" unfolding mod_0_uint by simp
qed

text \<open>Where the context goes: on the kernel stack after a trap from user space, else below the interrupted function.\<close>

definition stack_base :: "'f uctx \<Rightarrow> ('a, 'f) proc \<Rightarrow> addr" where
  "stack_base uc s = (if in_userspace_native (gregs uc REG_RIP) (vmem s) then ksp s else gregs uc REG_RSP)"

definition save_addr :: "'f image \<Rightarrow> addr \<Rightarrow> addr" where
  "save_addr im base = (let r = base - context_size im in if (r + 8) mod 16 \<noteq> 0 then r - 8 else r)"

definition stack_ok :: "'f image \<Rightarrow> addr \<Rightarrow> bool" where
  "stack_ok im base \<longleftrightarrow> base mod 8 = 0 \<and> context_size im mod 8 = 0 \<and> unat (context_size im) + 8 < unat base"

lemma save_addr_bounds:
  assumes "stack_ok im base"
  shows "(save_addr im base + 8) mod 16 = 0" and "save_addr im base \<noteq> 0"
    and "unat (save_addr im base) + unat (context_size im) \<le> unat base" "unat base \<le> unat (save_addr im base) + unat (context_size im) + 8"
proof -
  let ?r = "base - context_size im"
  have "?r mod 8 = 0" using assms by (intro mod_8_minus) (simp_all add: stack_ok_def)
  then show "(save_addr im base + 8) mod 16 = 0" using mod_8_16 [of ?r] by (auto simp: save_addr_def Let_def)
  have r: "unat ?r = unat base - unat (context_size im)"
    using assms by (intro unat_sub) (simp add: stack_ok_def word_le_nat_alt)
  then have "8 \<le> unat ?r" using assms unfolding stack_ok_def by linarith
  then have "unat (?r - 8) = unat ?r - 8" by (subst unat_sub) (simp_all add: word_le_nat_alt)
  then have "unat (save_addr im base) = unat ?r \<or> unat (save_addr im base) = unat ?r - 8" by (simp add: save_addr_def Let_def)
  then show "unat (save_addr im base) + unat (context_size im) \<le> unat base"
    "unat base \<le> unat (save_addr im base) + unat (context_size im) + 8"
    using r assms by (auto simp: stack_ok_def)
  have "0 < unat (save_addr im base)" using \<open>_ \<or> _\<close> r assms by (auto simp: stack_ok_def)
  then show "save_addr im base \<noteq> 0" by auto
qed

text \<open>An interrupt that comes inside of a shared library is given up.\<close>

definition given_up :: "'f image \<Rightarrow> event_kind \<Rightarrow> 'f uctx \<Rightarrow> ('a, 'f) proc \<Rightarrow> bool" where
  "given_up im e uc s \<longleftrightarrow> e \<in> {EVENT_IRQ_IODEV, EVENT_IRQ_TIMER} \<and> \<not> IN_RANGE (gregs uc REG_RIP) (text_area im) \<and>
     \<not> in_userspace_native (gregs uc REG_RIP) (vmem s) \<and> gregs uc REG_RIP \<noteq> sigprocmask_at im + 13"

text \<open>The instruction the context goes on with: after a system call, the one behind it.\<close>

definition resumed :: "event_kind \<Rightarrow> 'f uctx \<Rightarrow> 'f uctx" where
  "resumed e uc = (if e = EVENT_SYSCALL then uc\<lparr>gregs := (gregs uc)(REG_RIP := gregs uc REG_RIP + 7)\<rparr> else uc)"

lemma setup_stack_given_up: "given_up im e uc s \<Longrightarrow> setup_stack im e uc s = (uc, s)"
  by (auto simp: setup_stack_def given_up_def Let_def)

lemma setup_stack_saves:
  assumes "\<not> given_up im e uc s"
  shows "setup_stack im e uc s =
    ((resumed e uc)\<lparr>uc_sigmask := intr_sigmask, gregs := (gregs uc)(REG_RDI := save_addr im (stack_base uc s),
       REG_RIP := irq_handle_at im, REG_RSP := save_addr im (stack_base uc s))\<rparr>,
     save_uc (save_addr im (stack_base uc s)) (resumed e uc) s)"
proof -
  have u: "uc\<lparr>gregs := (gregs uc)(REG_RIP := gregs uc REG_RIP)\<rparr> = uc" by simp
  have "\<not> ((e = EVENT_IRQ_IODEV \<or> e = EVENT_IRQ_TIMER) \<and>
      \<not> (IN_RANGE (gregs uc REG_RIP) (text_area im) \<or> in_userspace_native (gregs uc REG_RIP) (vmem s) \<or>
         gregs uc REG_RIP = sigprocmask_at im + 13))"
    using assms by (auto simp: given_up_def)
  note n = if_not_P [OF this]
  show ?thesis unfolding setup_stack_def Let_def n
    by (cases "e = EVENT_SYSCALL") (simp_all add: u resumed_def stack_base_def save_addr_def Let_def SYSCALL_INSTR_LEN_def fun_upd_twist)
qed

section \<open>Events\<close>

text \<open>What a signal means, with the page faults of user space.\<close>

definition trap_event :: "'f image \<Rightarrow> signal \<Rightarrow> si_code \<Rightarrow> addr \<Rightarrow> ('a, 'f) proc \<Rightarrow> Event" where
  "trap_event im sig code a s =
     (let ev = (\<lambda>e. \<lparr>ev_event = e, ev_cause = 0, ev_ref = 0, ev_msg = []\<rparr>)
      in if sig = SIGUSR1 then ev EVENT_IRQ_IODEV else if sig = SIGVTALRM then ev EVENT_IRQ_TIMER else if sig = SIGUSR2 then ev EVENT_YIELD
         else if sig = SIGSEGV \<and> in_userspace_native a (vmem s) then
           \<lparr>ev_event = EVENT_PAGEFAULT, ev_cause = (if code = SEGV_MAPERR then ucast MMAP_READ else ucast MMAP_WRITE), ev_ref = a, ev_msg = []\<rparr>
         else if sig = SIGSEGV \<and> code = SEGV_ACCERR \<and> a = TRAP_SYSCALL then ev EVENT_SYSCALL
         else \<lparr>ev_event = EVENT_ERROR, ev_cause = code_value code, ev_ref = a, ev_msg = strsignal im sig\<rparr>)"

lemma trap_page_not_user: "\<not> in_userspace_native TRAP_SYSCALL v" "\<not> in_userspace_native TRAP_IRET v"
  by (simp_all add: in_userspace_native_def IN_RANGE_def USER_SPACE_def TRAP_SYSCALL_def TRAP_IRET_def)

lemma sig_handler_iret: "sig_handler im SIGSEGV SEGV_ACCERR TRAP_IRET uc s =
    res_bind (deref (ctxs s) (gregs uc REG_RDI)) (\<lambda>x. Inr (nc_uc x,
      s\<lparr>cpu_ev := \<lparr>ev_event = EVENT_ERROR, ev_cause = 0, ev_ref = 0, ev_msg = []\<rparr>, ksp := nc_ksp x\<rparr>))"
  by (simp add: sig_handler_def iret_def Let_def)

text \<open>The pages of the user space fail only with the two codes of the system, or the assertion does.\<close>

lemma sig_handler_event:
  assumes "\<not> (sig = SIGSEGV \<and> code = SEGV_ACCERR \<and> a = TRAP_IRET)"
  shows "sig_handler im sig code a uc s =
    (if sig = SIGSEGV \<and> in_userspace_native a (vmem s) \<and> code \<notin> {SEGV_MAPERR, SEGV_ACCERR} then Inl AssertFail
     else let e = trap_event im sig code a s in Inr (setup_stack im (ev_event e) uc (s\<lparr>cpu_ev := e\<rparr>)))"
proof (cases sig)
  case SIGSEGV
  have n: "a \<noteq> TRAP_SYSCALL" if "in_userspace_native a (vmem s)" using trap_page_not_user(1) that by blast
  show ?thesis using SIGSEGV assms n
    by (cases code) (auto simp: sig_handler_def segv_event_def trap_event_def Let_def)
qed (simp_all add: sig_handler_def trap_event_def Let_def)

text \<open>What the kernel may be told.\<close>

definition event_ok :: "('a, 'f) proc \<Rightarrow> Event \<Rightarrow> bool" where
  "event_ok s e = (case ev_event e of
     EVENT_PAGEFAULT \<Rightarrow> ev_cause e \<in> {ucast MMAP_READ, ucast MMAP_WRITE} \<and> in_userspace_native (ev_ref e) (vmem s)
   | EVENT_ERROR \<Rightarrow> True
   | EVENT_NULL \<Rightarrow> False
   | _ \<Rightarrow> ev_cause e = 0 \<and> ev_ref e = 0)"

lemma trap_event_ok: "event_ok s (trap_event im sig code a s)"
  by (simp add: event_ok_def trap_event_def Let_def)

text \<open>\<open>__am_irq_handle\<close> gets a context that holds what was interrupted, on a stack it does not share with it.\<close>

definition entered :: "'f image \<Rightarrow> 'f uctx \<Rightarrow> ('a, 'f) proc \<Rightarrow> 'f uctx \<Rightarrow> ('a, 'f) proc \<Rightarrow> bool" where
  "entered im uc s uc' s' \<longleftrightarrow>
     (let c = gregs uc' REG_RDI; base = stack_base uc s
      in gregs uc' REG_RIP = irq_handle_at im \<and> gregs uc' REG_RSP = c \<and> (c + 8) mod 16 = 0 \<and> \<not> ienabled_native uc' \<and>
         unat c + unat (context_size im) \<le> unat base \<and> unat base \<le> unat c + unat (context_size im) + 8 \<and>
         (\<exists>x. ctxs s' = (ctxs s)(c \<mapsto> x) \<and> nc_uc x = resumed (ev_event (cpu_ev s')) uc))"

lemma save_uc_at: "\<exists>x. ctxs (save_uc c uc s) = (ctxs s)(c \<mapsto> x) \<and> nc_uc x = uc"
  by (cases "ctxs s c") (simp_all add: save_uc_def, (rule exI, rule conjI, rule refl, simp)+)

lemma save_uc_simps [simp]: "vmem (save_uc c uc s) = vmem s" "ksp (save_uc c uc s) = ksp s" "cpu_ev (save_uc c uc s) = cpu_ev s"
  by (simp_all add: save_uc_def)

lemma given_up_ev [simp]: "given_up im e uc (s\<lparr>cpu_ev := v\<rparr>) = given_up im e uc s"
  by (simp add: given_up_def)

lemma stack_base_ev [simp]: "stack_base uc (s\<lparr>cpu_ev := v\<rparr>) = stack_base uc s"
  by (simp add: stack_base_def)

text \<open>
  C24: Every signal but the one that ends a trap gives the kernel a well-formed event, a page fault with the address in
  user space and the cause read or write, or stops on an assertion. The address spaces and the kernel stack are left
  alone. An interrupt in a shared library changes nothing else and the code there goes on; any other signal enters the kernel with
  interrupts off, on an aligned stack, with the interrupted context, after a system call at the next
  instruction, in an object right below the stack it came from.
\<close>

theorem native_signals_well_formed:
  assumes "sig_handler im sig code a uc s = Inr (uc', s')" and "\<not> (sig = SIGSEGV \<and> code = SEGV_ACCERR \<and> a = TRAP_IRET)"
    and "stack_ok im (stack_base uc s)"
  shows "event_ok s (cpu_ev s') \<and> vmem s' = vmem s \<and> ksp s' = ksp s \<and>
    (if given_up im (ev_event (cpu_ev s')) uc s then uc' = uc \<and> ctxs s' = ctxs s else entered im uc s uc' s')"
proof -
  let ?e = "trap_event im sig code a s"
  let ?s = "s\<lparr>cpu_ev := ?e\<rparr>"
  have r: "setup_stack im (ev_event ?e) uc ?s = (uc', s')"
    using assms(1) unfolding sig_handler_event [OF assms(2)] by (simp add: Let_def split: if_splits)
  show ?thesis
  proof (cases "given_up im (ev_event ?e) uc s")
    case True
    then have "uc' = uc" "s' = ?s" using r setup_stack_given_up [of im "ev_event ?e" uc ?s] by simp_all
    then show ?thesis using True trap_event_ok by simp
  next
    case False
    let ?c = "save_addr im (stack_base uc s)"
    have u: "uc' = (resumed (ev_event ?e) uc)\<lparr>uc_sigmask := intr_sigmask, gregs := (gregs uc)(REG_RDI := ?c,
       REG_RIP := irq_handle_at im, REG_RSP := ?c)\<rparr>" and s': "s' = save_uc ?c (resumed (ev_event ?e) uc) ?s"
      using r setup_stack_saves [of im "ev_event ?e" uc ?s] False by simp_all
    obtain x where x: "ctxs s' = (ctxs s)(?c \<mapsto> x)" "nc_uc x = resumed (ev_event ?e) uc"
      using save_uc_at [of ?c "resumed (ev_event ?e) uc" ?s] s' by auto
    have e: "cpu_ev s' = ?e" by (simp add: s')
    have g: "gregs uc' REG_RDI = ?c" and "gregs uc' REG_RIP = irq_handle_at im" "gregs uc' REG_RSP = ?c" "\<not> ienabled_native uc'"
      by (simp_all add: u ienabled_native_def intr_sigmask_def)
    then have "entered im uc s uc' s'" using x save_addr_bounds [OF assms(3)] unfolding entered_def Let_def e g by blast
    then show ?thesis using False trap_event_ok [of s im sig code a] unfolding e by (simp add: s')
  qed
qed

text \<open>A program in the megabyte at \<open>0x400000\<close>.\<close>

definition sim_uc :: "u64 \<Rightarrow> u64 \<Rightarrow> unit uctx" where
  "sim_uc pc stk = \<lparr>gregs = (\<lambda>_. 0)(REG_RIP := pc, REG_RSP := stk), uc_sigmask = {}, uc_rest = ()\<rparr>"

definition sim_image :: "unit image" where
  "sim_image = \<lparr>text_area = \<lparr>ar_start = 0x400000, ar_end = 0x500000\<rparr>, sigprocmask_at = 0x7f0000000000, irq_handle_at = 0x400200,
     kcontext_start_at = 0x400300, panic_on_return_at = 0x400400, context_size = 1112, strsignal = (\<lambda>_. ''signal''), uc_example = sim_uc 0 0\<rparr>"

definition sim_proc :: "(nat, unit) proc" where
  "sim_proc = \<lparr>vmem = native_boot 0, ksp = 0,
     cpu_ev = \<lparr>ev_event = EVENT_NULL, ev_cause = 0, ev_ref = 0, ev_msg = []\<rparr>,
     ctxs = [0x9000 \<mapsto> \<lparr>nc_ksp = 0x8000, nc_vm_head = 0, nc_uc = sim_uc 0x400500 0x9500\<rparr>]\<rparr>"

lemma sim_stack: "stack_ok sim_image (stack_base (sim_uc 0x400100 0x7000) sim_proc)" "save_addr sim_image (stack_base (sim_uc 0x400100 0x7000) sim_proc) = 0x6ba8"
  by (simp_all add: stack_ok_def stack_base_def save_addr_def sim_image_def sim_uc_def in_userspace_native_def sim_proc_def
    native_boot_def vme_init_native_def)

lemma sim_safe: "\<not> given_up sim_image e (sim_uc 0x400100 0x7000) sim_proc"
  by (simp add: given_up_def sim_image_def sim_uc_def IN_RANGE_def)

lemma native_signals_well_formed_witness:
  "\<exists>uc' s'. sig_handler sim_image SIGVTALRM (SI_other 0) 0 (sim_uc 0x400100 0x7000) sim_proc = Inr (uc', s') \<and>
     ev_event (cpu_ev s') = EVENT_IRQ_TIMER \<and> entered sim_image (sim_uc 0x400100 0x7000) sim_proc uc' s'"
proof -
  have r: "sig_handler sim_image SIGVTALRM (SI_other 0) 0 (sim_uc 0x400100 0x7000) sim_proc =
      Inr (setup_stack sim_image EVENT_IRQ_TIMER (sim_uc 0x400100 0x7000)
        (sim_proc\<lparr>cpu_ev := \<lparr>ev_event = EVENT_IRQ_TIMER, ev_cause = 0, ev_ref = 0, ev_msg = []\<rparr>\<rparr>))" (is "_ = Inr (setup_stack _ _ ?uc ?s)")
    by (simp add: sig_handler_def Let_def)
  obtain uc' s' where u: "setup_stack sim_image EVENT_IRQ_TIMER ?uc ?s = (uc', s')" by fastforce
  have "ev_event (cpu_ev s') = EVENT_IRQ_TIMER"
    using u setup_stack_saves [of sim_image EVENT_IRQ_TIMER ?uc ?s] sim_safe by auto
  then show ?thesis
    using native_signals_well_formed [OF r [unfolded u] _ sim_stack(1)] r u sim_safe by auto
qed

section \<open>A trap\<close>

text \<open>What the handler of the kernel is called with.\<close>

definition kernel_sees :: "'f image \<Rightarrow> Event \<Rightarrow> 'f uctx \<Rightarrow> ('a, 'f) proc \<Rightarrow> ('a, 'f) proc" where
  "kernel_sees im e uc s = s\<lparr>cpu_ev := e, ctxs := (ctxs s)(save_addr im (stack_base uc s) \<mapsto>
     \<lparr>nc_ksp = ksp s, nc_vm_head = vm_head (vmem s), nc_uc = resumed (ev_event e) uc\<rparr>)\<rparr>"

lemma nctx_complete: "x\<lparr>nc_uc := uc, nc_vm_head := h, nc_ksp := k\<rparr> = \<lparr>nc_ksp = k, nc_vm_head = h, nc_uc = uc\<rparr>" for x :: "'f nctx"
  by (cases x) simp

lemma save_then_complete:
  "(save_uc c uc s)\<lparr>ctxs := (ctxs (save_uc c uc s))(c \<mapsto> (the (ctxs (save_uc c uc s) c))\<lparr>nc_vm_head := h, nc_ksp := k\<rparr>)\<rparr> =
   s\<lparr>ctxs := (ctxs s)(c \<mapsto> \<lparr>nc_ksp = k, nc_vm_head = h, nc_uc = uc\<rparr>)\<rparr>"
  by (cases "ctxs s c") (simp_all add: save_uc_def nctx_complete)

lemma enter_kernel:
  assumes "\<not> (sig = SIGSEGV \<and> code = SEGV_ACCERR \<and> a = TRAP_IRET)" and "sig = SIGSEGV \<Longrightarrow> code \<in> {SEGV_MAPERR, SEGV_ACCERR}"
    and "\<not> given_up im (ev_event (trap_event im sig code a s)) uc s" and "ev_event (trap_event im sig code a s) \<noteq> EVENT_ERROR"
  shows "native_trap im user_handler junk sig code a uc s =
    (let (c, s) = user_handler (trap_event im sig code a s) (save_addr im (stack_base uc s)) (kernel_sees im (trap_event im sig code a s) uc s)
     in res_bind (res_bind (guard AssertFail (c \<noteq> 0)) (\<lambda>_. res_bind (deref (ctxs s) c) (\<lambda>x.
          res_bind (switch_native (nc_vm_head x) (vmem s)) (\<lambda>v. Inr (c, s\<lparr>vmem := v\<rparr>))))) (\<lambda>(c, s).
        sig_handler im SIGSEGV SEGV_ACCERR TRAP_IRET (junk\<lparr>gregs := (gregs junk)(REG_RDI := c)\<rparr>) s))"
proof -
  let ?e = "trap_event im sig code a s" and ?c = "save_addr im (stack_base uc s)"
  let ?s = "save_uc ?c (resumed (ev_event ?e) uc) (s\<lparr>cpu_ev := ?e\<rparr>)"
  have "\<not> (sig = SIGSEGV \<and> in_userspace_native a (vmem s) \<and> code \<notin> {SEGV_MAPERR, SEGV_ACCERR})" using assms(2) by blast
  then have h: "sig_handler im sig code a uc s = Inr (setup_stack im (ev_event ?e) uc (s\<lparr>cpu_ev := ?e\<rparr>))"
    by (simp only: sig_handler_event [OF assms(1)] if_False Let_def)
  obtain x where x: "ctxs ?s ?c = Some x" using save_uc_at [of ?c] by (metis fun_upd_same)
  then have k: "?s\<lparr>ctxs := (ctxs ?s)(?c \<mapsto> x\<lparr>nc_vm_head := vm_head (vmem s), nc_ksp := ksp s\<rparr>)\<rparr> = kernel_sees im ?e uc s"
    using save_then_complete [of ?c "resumed (ev_event ?e) uc" "s\<lparr>cpu_ev := ?e\<rparr>" "ksp s" "vm_head (vmem s)"]
    by (simp add: kernel_sees_def)
  have e: "cpu_ev (kernel_sees im ?e uc s) = ?e" by (simp add: kernel_sees_def)
  have "irq_handle_native user_handler ?c ?s =
    (let (c, s) = user_handler ?e ?c (kernel_sees im ?e uc s)
     in res_bind (guard AssertFail (c \<noteq> 0)) (\<lambda>_. res_bind (deref (ctxs s) c) (\<lambda>x.
          res_bind (switch_native (nc_vm_head x) (vmem s)) (\<lambda>v. Inr (c, s\<lparr>vmem := v\<rparr>)))))"
    using assms(4) unfolding irq_handle_native_def deref_simps(1) [where m = "ctxs ?s", OF x] by (simp add: k e Let_def)
  then show ?thesis using assms(3) setup_stack_saves [of im "ev_event ?e" uc "s\<lparr>cpu_ev := ?e\<rparr>"]
    by (simp add: native_trap_def h split_beta Let_def)
qed

text \<open>
  C22: A trap is exact. For every signal that is an event of the kernel, the handler of the kernel gets that
  event and the address of a context with all of the interrupted one, its address space and its kernel stack; and the context
  it returns, this one or any other, is then what runs: every register, the mask of signals and the kernel stack
  are those of the context, its address space is the current one, and the pages of the process are exactly the pages of this space.
\<close>

theorem native_trap_exact:
  assumes "\<not> (sig = SIGSEGV \<and> code = SEGV_ACCERR \<and> a = TRAP_IRET)" and "sig = SIGSEGV \<Longrightarrow> code \<in> {SEGV_MAPERR, SEGV_ACCERR}"
    and "\<not> given_up im (ev_event (trap_event im sig code a s)) uc s" and "ev_event (trap_event im sig code a s) \<noteq> EVENT_ERROR"
    and "user_handler (trap_event im sig code a s) (save_addr im (stack_base uc s)) (kernel_sees im (trap_event im sig code a s) uc s) = (c, s1)"
    and "c \<noteq> 0" "ctxs s1 c = Some x" and "native_ok pgsize got (vmem s1) L" "nc_vm_head x = 0 \<or> nc_vm_head x \<in> dom (heads (vmem s1))"
  shows "\<exists>s2. native_trap im user_handler junk sig code a uc s = Inr (nc_uc x, s2) \<and> ksp s2 = nc_ksp x \<and> ctxs s2 = ctxs s1 \<and>
    vm_head (vmem s2) = nc_vm_head x \<and>
    host (vmem s2) = (if nc_vm_head x = 0 then Map.empty else host_view (space_of (native.nodes (vmem s1)) (L (nc_vm_head x))))"
proof -
  obtain v where v: "switch_native (nc_vm_head x) (vmem s1) = Inr v" "native_ok pgsize got v L" "vm_head v = nc_vm_head x"
    "\<forall>k \<in> dom (heads (vmem s1)). space_of (native.nodes v) (L k) = space_of (native.nodes (vmem s1)) (L k)"
    using switch_ok [OF assms(8,9)] by blast
  have "host v = (if nc_vm_head x = 0 then Map.empty else host_view (space_of (native.nodes (vmem s1)) (L (nc_vm_head x))))"
    using native_okD(8) [OF v(2)] v(3,4) assms(9) by (auto split: if_splits)
  moreover have "native_trap im user_handler junk sig code a uc s =
      Inr (nc_uc x, s1\<lparr>vmem := v, cpu_ev := \<lparr>ev_event = EVENT_ERROR, ev_cause = 0, ev_ref = 0, ev_msg = []\<rparr>, ksp := nc_ksp x\<rparr>)"
    by (subst enter_kernel [OF assms(1) assms(2) assms(3,4)]) (simp_all add: assms(5-7) v(1) sig_handler_iret)
  ultimately show ?thesis using v(3) by (intro exI conjI) (assumption | simp)+
qed

text \<open>A handler that goes on with the other thread at \<open>0x9000\<close>, after a timer interrupt.\<close>

lemma native_trap_exact_witness:
  "\<exists>s2. native_trap sim_image (\<lambda>e c s. (0x9000, s)) (sim_uc 0 0) SIGVTALRM (SI_other 0) 0 (sim_uc 0x400100 0x7000) sim_proc =
      Inr (sim_uc 0x400500 0x9500, s2) \<and> ksp s2 = 0x8000 \<and>
    ctxs s2 0x6ba8 = Some \<lparr>nc_ksp = 0, nc_vm_head = 0, nc_uc = sim_uc 0x400100 0x7000\<rparr>"
proof -
  let ?e = "trap_event sim_image SIGVTALRM (SI_other 0) 0 sim_proc"
  let ?s1 = "kernel_sees sim_image ?e (sim_uc 0x400100 0x7000) sim_proc"
  have e: "ev_event ?e = EVENT_IRQ_TIMER" by (simp add: trap_event_def Let_def)
  have c: "ctxs ?s1 = [0x9000 \<mapsto> \<lparr>nc_ksp = 0x8000, nc_vm_head = 0, nc_uc = sim_uc 0x400500 0x9500\<rparr>,
      0x6ba8 \<mapsto> \<lparr>nc_ksp = 0, nc_vm_head = 0, nc_uc = sim_uc 0x400100 0x7000\<rparr>]"
    unfolding kernel_sees_def sim_stack(2) e by (simp add: sim_proc_def resumed_def native_boot_def vme_init_native_def)
  have "native_ok 4096 (\<lambda>_. {}) (vmem ?s1) (\<lambda>_. [])"
    by (simp add: kernel_sees_def sim_proc_def native_ok_def native_boot_def vme_init_native_def)
  from native_trap_exact [where user_handler = "\<lambda>e c s. (0x9000, s)" and junk = "sim_uc 0 0" and c = "0x9000" and s = sim_proc and
      im = sim_image and uc = "sim_uc 0x400100 0x7000" and sig = SIGVTALRM and code = "SI_other 0" and a = 0 and
      x = "\<lparr>nc_ksp = 0x8000, nc_vm_head = 0, nc_uc = sim_uc 0x400500 0x9500\<rparr>", OF _ _ sim_safe _ _ _ _ this]
  show ?thesis using e c by auto
qed

section \<open>New contexts\<close>

text \<open>A new kernel thread enters its function with its argument, an aligned stack, interrupts on and no address space.\<close>

lemma native_thread_starts:
  assumes "kcontext_native im kstack entry arg s = (c, s')"
  shows "\<exists>x. ctxs s' c = Some x \<and> nc_vm_head x = 0 \<and> ienabled_native (nc_uc x) \<and> gregs (nc_uc x) REG_RIP = kcontext_start_at im \<and>
    (let (uc, push) = native_kcontext_start im (nc_uc x)
     in gregs uc REG_RIP = entry \<and> gregs uc REG_RDI = arg \<and> gregs uc REG_RSP + 8 = ar_end kstack AND 0xfffffffffffffff0 \<and>
        push = (gregs uc REG_RSP, panic_on_return_at im) \<and> uc_sigmask uc = {})"
  using assms(1) save_uc_at [of c _ s]
  by (auto simp: kcontext_native_def Let_def ienabled_native_def native_kcontext_start_def save_uc_def split: option.splits)

text \<open>A user context starts at its entry on the end of the user space, in its own address space.\<close>

lemma native_user_starts:
  assumes "ucontext_native im as kstack entry s = (c, s')"
  shows "\<exists>x. ctxs s' c = Some x \<and> nc_vm_head x = as \<and> nc_ksp x = ar_end kstack \<and> ienabled_native (nc_uc x) \<and>
    gregs (nc_uc x) REG_RIP = entry \<and> gregs (nc_uc x) REG_RSP = 0xc0000000"
  using assms by (auto simp: ucontext_native_def Let_def ienabled_native_def save_uc_def USER_SPACE_def split: option.splits)

lemma iset_ienabled: "ienabled_native (iset_native b uc) = b"
  by (simp add: ienabled_native_def iset_native_def intr_sigmask_def)

text \<open>\<open>yield\<close> reaches the kernel whether interrupts are on or not, from any code.\<close>

lemma yield_enters: "\<not> given_up im (ev_event (trap_event im SIGUSR2 code a s)) uc s" "SIGUSR2 \<notin> intr_sigmask"
  by (simp_all add: given_up_def trap_event_def Let_def intr_sigmask_def)

end
