(* ===== verification/Ioe_Qemu.thy ===== *)
theory Ioe_Qemu
  imports Dev_Input Port_Io
begin

text \<open>
  The serial line, the clock and the keyboard of the qemu platform, \<open>am/src/x86/qemu/ioe.c\<close>. The devices
  behind the ports are an argument; what the theorems need of them is stated by the predicates
  \<open>keyboard\<close> and \<open>cmos\<close>.
\<close>

unbundle bit_operations_syntax

section \<open>Serial line\<close>

definition COM1 :: u16 where "COM1 = 0x3f8"

definition uart_init :: "'h port_io \<Rightarrow> 'h \<Rightarrow> 'h" where
  "uart_init P h =
     (let h = outb P (COM1 + 2) 0 h;
          h = outb P (COM1 + 3) 0x80 h;
          h = outb P (COM1 + 0) (word_of_int (115200 div 9600)) h;
          h = outb P (COM1 + 1) 0 h;
          h = outb P (COM1 + 3) 0x03 h;
          h = outb P (COM1 + 4) 0 h;
          h = outb P (COM1 + 1) 0x01 h;
          h = snd (inb P (COM1 + 2) h)
      in snd (inb P (COM1 + 0) h))"

definition uart_tx :: "'h port_io \<Rightarrow> u8 \<Rightarrow> 'h \<Rightarrow> 'h" where
  "uart_tx P data h = outb P COM1 data h"

definition uart_rx :: "'h port_io \<Rightarrow> 'h \<Rightarrow> u8 \<times> 'h" where
  "uart_rx P h = (let (s, h) = inb P (COM1 + 5) h in if s AND 0x1 \<noteq> 0 then inb P COM1 h else (- 1, h))"

section \<open>Keyboard\<close>

text \<open>The designated initialisers of \<open>keylut\<close>, as they stand; the last one for an index is the one that counts.\<close>

definition keylut_init :: "(u8 \<times> string) list" where
  "keylut_init = [
    (0x01, ''ESCAPE''), (0x02, ''1''), (0x03, ''2''), (0x04, ''3''), (0x05, ''4''), (0x06, ''5''), (0x07, ''6''),
    (0x08, ''7''), (0x09, ''8''), (0x0a, ''9''), (0x0b, ''0''), (0x0c, ''MINUS''), (0x0d, ''EQUALS''),
    (0x0e, ''BACKSPACE''), (0x0f, ''TAB''), (0x10, ''Q''), (0x11, ''W''), (0x12, ''E''), (0x13, ''R''),
    (0x14, ''T''), (0x15, ''Y''), (0x16, ''U''), (0x17, ''I''), (0x18, ''O''), (0x19, ''P''),
    (0x1a, ''LEFTBRACKET''), (0x1b, ''RIGHTBRACKET''), (0x1c, ''RETURN''), (0x1d, ''LCTRL''), (0x1e, ''A''),
    (0x1f, ''S''), (0x20, ''D''), (0x21, ''F''), (0x22, ''G''), (0x23, ''H''), (0x24, ''J''), (0x25, ''K''),
    (0x26, ''L''), (0x27, ''SEMICOLON''), (0x28, ''APOSTROPHE''), (0x29, ''GRAVE''), (0x2a, ''LSHIFT''),
    (0x2b, ''BACKSLASH''), (0x2c, ''Z''), (0x2d, ''X''), (0x2e, ''C''), (0x2f, ''V''), (0x30, ''B''), (0x31, ''N''),
    (0x32, ''M''), (0x33, ''COMMA''), (0x34, ''PERIOD''), (0x35, ''SLASH''), (0x36, ''RSHIFT''), (0x38, ''LALT''),
    (0x38, ''RALT''), (0x39, ''SPACE''), (0x3a, ''CAPSLOCK''), (0x3b, ''F1''), (0x3c, ''F2''), (0x3d, ''F3''),
    (0x3e, ''F4''), (0x3f, ''F5''), (0x40, ''F6''), (0x41, ''F7''), (0x42, ''F8''), (0x43, ''F9''), (0x44, ''F10''),
    (0x48, ''INSERT''), (0x4b, ''HOME''), (0x4d, ''END''), (0x50, ''DELETE''), (0x57, ''F11''), (0x58, ''F12''),
    (0x5b, ''APPLICATION'')]"

definition keylut :: "u8 \<Rightarrow> int" where
  "keylut code = (case map_of (rev keylut_init) code of None \<Rightarrow> 0 | Some k \<Rightarrow> AM_KEY k)"

definition input_keybrd :: "'h port_io \<Rightarrow> 'h \<Rightarrow> (bool \<times> int) \<times> 'h" where
  "input_keybrd P h =
     (let (s, h) = inb P 0x64 h in
      if s AND 0x1 \<noteq> 0
      then (let (code, h) = inb P 0x60 h in ((code < 128, keylut (code AND 0x7f)), h))
      else ((False, 0), h))"

text \<open>The inner loop of \<open>dev_input_task\<close> on these registers; \<open>None\<close> when keys never stop coming.\<close>

partial_function (option) drain_ports ::
  "('l, 's) kmt \<Rightarrow> 'h port_io \<Rightarrow> ('l, 's) input_t \<Rightarrow> 'h \<Rightarrow> (('l, 's) input_t \<times> 'h) res option" where
  "drain_ports K P inp h =
     (case input_keybrd P h of ((down, code), h) \<Rightarrow>
        if code \<noteq> 0
        then (case input_keydown K down code inp of
            Inl e \<Rightarrow> Some (Inl e)
          | Inr inp \<Rightarrow> drain_ports K P inp h)
        else Some (Inr (inp, h)))"

text \<open>The keyboard controller: \<open>codes\<close> are the scan codes waiting, the lowest status bit tells whether there are any.\<close>

definition keyboard :: "'h port_io \<Rightarrow> ('h \<Rightarrow> bool) \<Rightarrow> ('h \<Rightarrow> u8 list) \<Rightarrow> bool" where
  "keyboard P ok codes \<longleftrightarrow> (\<forall>h. ok h \<longrightarrow>
     (\<exists>s h'. inb P 0x64 h = (s, h') \<and> ok h' \<and> codes h' = codes h \<and> (s AND 0x1 \<noteq> 0 \<longleftrightarrow> codes h \<noteq> [])) \<and>
     (\<forall>b bs. codes h = b # bs \<longrightarrow> (\<exists>h'. inb P 0x60 h = (b, h') \<and> ok h' \<and> codes h' = bs)))"

definition key_of :: "u8 \<Rightarrow> bool \<times> int" where
  "key_of code = (code < 128, keylut (code AND 0x7f))"

lemma input_keybrd_ok:
  assumes "keyboard P ok codes" and "ok h"
  shows "\<exists>h'. input_keybrd P h = ((case codes h of [] \<Rightarrow> (False, 0) | b # _ \<Rightarrow> key_of b), h') \<and> ok h' \<and> codes h' = tl (codes h)"
proof -
  obtain s h1 where s: "inb P 0x64 h = (s, h1)" "ok h1" "codes h1 = codes h" "s AND 0x1 \<noteq> 0 \<longleftrightarrow> codes h \<noteq> []"
    using assms unfolding keyboard_def by blast
  show ?thesis
  proof (cases "codes h")
    case Nil
    then show ?thesis using s by (simp add: input_keybrd_def)
  next
    case (Cons b bs)
    then have "codes h1 = b # bs" using s(3) by simp
    then obtain h2 where "inb P 0x60 h1 = (b, h2)" "ok h2" "codes h2 = bs"
      using assms(1) s(2) unfolding keyboard_def by blast
    then show ?thesis using s(1,4) Cons by (simp add: input_keybrd_def key_of_def)
  qed
qed

text \<open>Codes that all stand for keys are taken one by one, as the kernel's loop expects.\<close>

lemma drain_ports_ok:
  assumes "keyboard P ok codes"
  shows "ok h \<Longrightarrow> \<forall>b \<in> set (codes h). snd (key_of b) \<noteq> 0 \<Longrightarrow> drain_keys K (List.map key_of (codes h)) inp = Inr inp' \<Longrightarrow>
    \<exists>h'. drain_ports K P inp h = Some (Inr (inp', h')) \<and> ok h' \<and> codes h' = []"
proof (induction "codes h" arbitrary: h inp)
  case Nil
  then obtain h' where "input_keybrd P h = ((False, 0), h')" "ok h'" "codes h' = []"
    using input_keybrd_ok [OF assms Nil(2)] by (auto simp flip: Nil(1))
  then show ?case using Nil(1,4) by (subst drain_ports.simps) simp
next
  case (Cons b bs)
  obtain h1 where h1: "input_keybrd P h = (key_of b, h1)" "ok h1" "codes h1 = bs"
    using input_keybrd_ok [OF assms Cons(3)] by (auto simp flip: Cons(2))
  obtain down code where k: "key_of b = (down, code)" by fastforce
  then have code: "code \<noteq> 0" using Cons(4) by (auto simp flip: Cons(2))
  then obtain inp1 where i: "input_keydown K down code inp = Inr inp1" "drain_keys K (List.map key_of bs) inp1 = Inr inp'"
    using Cons(5) k by (auto simp: res_bind_eq_Inr simp flip: Cons(2))
  moreover have "\<forall>b \<in> set bs. snd (key_of b) \<noteq> 0" using Cons(4) by (auto simp flip: Cons(2))
  ultimately have "\<exists>h'. drain_ports K P inp1 h1 = Some (Inr (inp', h')) \<and> ok h' \<and> codes h' = []"
    using Cons(1) h1(2,3) by simp
  then show ?case using h1(1) k code i(1) by (subst drain_ports.simps) simp
qed

text \<open>The scan codes of hitting letter keys: pressed, released.\<close>

definition make_code :: "char \<Rightarrow> u8" where
  "make_code c = (case List.find (\<lambda>(_, k). k = [c]) keylut_init of None \<Rightarrow> 0 | Some (code, _) \<Rightarrow> code)"

definition hitting :: "string \<Rightarrow> u8 list" where
  "hitting cs = concat (List.map (\<lambda>c. [make_code c, make_code c OR 0x80]) cs)"

lemma letter_rows:
  "\<forall>c \<in> set ''ABCDEFGHIJKLMNOPQRSTUVWXYZ''. make_code c < 128 \<and> map_of (rev keylut_init) (make_code c) = Some [c]"
  by code_simp

lemma letter_codes:
  assumes "c \<in> set ''ABCDEFGHIJKLMNOPQRSTUVWXYZ''"
  shows "key_of (make_code c) = (True, AM_KEY [c])" and "key_of (make_code c OR 0x80) = (False, AM_KEY [c])"
proof -
  have "make_code c < 128 \<and> map_of (rev keylut_init) (make_code c) = Some [c]" by (rule bspec [OF letter_rows assms])
  then have c: "make_code c < 128" "keylut (make_code c) = AM_KEY [c]" by (simp_all only: keylut_def option.case)
  have seven: "0x7f = (mask 7 :: u8)" by (simp add: mask_eq_exp_minus_1)
  have low: "\<not> bit (make_code c) 7"
  proof
    assume "bit (make_code c) 7"
    then have "bit (unat (make_code c)) 7" by (simp add: bit_unsigned_iff)
    then have "odd (unat (make_code c) div 2 ^ 7)" by (rule bit_iff_odd [THEN iffD1])
    moreover have "unat (make_code c) div 2 ^ 7 = 0" using c(1) by (simp add: word_less_nat_alt)
    ultimately show False by (metis even_zero)
  qed
  have bit8: "bit (0x80 :: u8) n \<longleftrightarrow> n = 7" for n
  proof -
    have "(0x80 :: u8) = 2 ^ 7" by simp
    then show ?thesis by (simp only: bit_exp_iff) auto
  qed
  have "make_code c AND 0x7f = make_code c"
    unfolding seven by (rule bit_word_eqI) (use low in \<open>auto simp: bit_simps less_Suc_eq numeral_eq_Suc\<close>)
  moreover have "(make_code c OR 0x80) AND 0x7f = make_code c"
    unfolding seven by (rule bit_word_eqI) (use low in \<open>auto simp: bit_simps bit8 less_Suc_eq numeral_eq_Suc\<close>)
  moreover have "\<not> make_code c OR 0x80 < 128"
  proof
    assume "make_code c OR 0x80 < 128"
    then have "unat (make_code c OR 0x80) < 2 ^ 7" by (simp add: word_less_nat_alt)
    then have "\<not> bit (unat (make_code c OR 0x80)) 7" by (simp add: bit_iff_odd)
    then show False by (simp add: bit_unsigned_iff bit_or_iff bit8)
  qed
  ultimately show "key_of (make_code c) = (True, AM_KEY [c])" "key_of (make_code c OR 0x80) = (False, AM_KEY [c])"
    using c by (simp_all add: key_of_def)
qed

lemma hitting_typing:
  "set cs \<subseteq> set ''ABCDEFGHIJKLMNOPQRSTUVWXYZ'' \<Longrightarrow> List.map key_of (hitting cs) = typing cs"
proof (induction cs)
  case (Cons c cs)
  then have "c \<in> set ''ABCDEFGHIJKLMNOPQRSTUVWXYZ''" "List.map key_of (hitting cs) = typing cs" by auto
  then show ?case using letter_codes [of c] by (simp add: hitting_def typing_def)
qed (simp add: hitting_def typing_def)

lemma typing_keys: "set cs \<subseteq> set ''ABCDEFGHIJKLMNOPQRSTUVWXYZ'' \<Longrightarrow> \<forall>k \<in> set (typing cs). snd k \<noteq> 0"
proof (induction cs)
  case (Cons c cs)
  then have "AM_KEY [c] \<noteq> 0" using keymap_letters [of c] by auto
  then show ?case using Cons by (auto simp: typing_def)
qed (simp add: typing_def)

text \<open>
  C29: from the keyboard controller to the reader. Let the controller and the semaphores and spin locks keep their contracts, the codes of hitting the letter keys \<open>cs\<close>
  wait in the controller, neither Ctrl nor Alt be held, and the events that wait in the input queue and these letters be at most 127
  together, one less than the queue holds, since the code panics when it is full. Then the input task's loop ends with the controller
  empty and without a fault, and reading the input
  device gives these letters in order behind the events that were waiting, in upper case exactly when
  one of Shift and Caps Lock is on.
\<close>

theorem scancodes_read_back:
  assumes "keyboard P ok codes" and "ok h" and "codes h = hitting cs" and "set cs \<subseteq> set ''ABCDEFGHIJKLMNOPQRSTUVWXYZ''"
    and "kmt_ok K unheld count" and "input_ok unheld count inp" and "length (in_elems inp) + length cs \<le> NEVENTS - 1"
    and "\<not> lctrl inp \<and> \<not> rctrl inp \<and> \<not> lalt inp \<and> \<not> ralt inp"
  shows "\<exists>inp1 h' inp2. drain_ports K P inp h = Some (Inr (inp1, h')) \<and> codes h' = [] \<and>
    read_events K (length (in_elems inp) + length cs) inp1 = Inr (in_elems inp @ typed (upper inp) cs, inp2)"
proof -
  obtain inp1 where i: "drain_keys K (typing cs) inp = Inr inp1" "input_ok unheld count inp1"
      "in_elems inp1 = in_elems inp @ typed (upper inp) cs"
    using drain_typing [OF assms(5,4,6,7,8)] by blast
  have "\<forall>b \<in> set (codes h). snd (key_of b) \<noteq> 0"
    using typing_keys [OF assms(4)] by (simp flip: hitting_typing [OF assms(4)] add: assms(3))
  moreover have "drain_keys K (List.map key_of (codes h)) inp = Inr inp1" using i(1) hitting_typing [OF assms(4)] assms(3) by simp
  ultimately obtain h' where "drain_ports K P inp h = Some (Inr (inp1, h'))" "codes h' = []"
    using drain_ports_ok [OF assms(1,2)] by blast
  moreover have "length (in_elems inp1) = length (in_elems inp) + length cs" by (simp add: i(3) typed_def)
  ultimately show ?thesis
    using read_events_ok [OF assms(5) i(2), of "length (in_elems inp) + length cs"] i(3) by (auto simp: typed_def)
qed

definition sim_keyboard :: "u8 list port_io" where
  "sim_keyboard = \<lparr>inb = (\<lambda>p h. if p = 0x64 then (if h = [] then 0x14 else 0x15, h) else (case h of [] \<Rightarrow> (0, []) | b # bs \<Rightarrow> (b, bs))),
     outb = (\<lambda>_ _ h. h), inl = (\<lambda>_ h. (0, h)), outl = (\<lambda>_ _ h. h)\<rparr>"

lemma sim_keyboard_ok: "keyboard sim_keyboard (\<lambda>_. True) (\<lambda>h. h)"
  by (simp add: keyboard_def sim_keyboard_def)

theorem scancodes_read_back_witness:
  "\<exists>inp1 h' inp2. drain_ports plain_kmt sim_keyboard ex_input (hitting ''OK'') = Some (Inr (inp1, h')) \<and> h' = [] \<and>
    read_events plain_kmt (length (in_elems ex_input) + length ''OK'') inp1 = Inr (in_elems ex_input @ typed (upper ex_input) ''OK'', inp2)"
  by (rule scancodes_read_back [OF sim_keyboard_ok _ _ _ plain_kmt_ok ex_input_ok])
    (simp_all add: ex_input_empty NEVENTS_def, simp_all add: ex_input_def)

text \<open>No code stands for the left Alt key: its row is overwritten by the next one.\<close>

lemma no_left_alt: "(0x38, ''LALT'') \<in> set keylut_init \<and> keylut 0x38 = AM_KEY ''RALT''"
  by (simp add: keylut_init_def keylut_def)

section \<open>Clock\<close>

record rtc =
  year :: int
  month :: int
  day :: int
  hour :: int
  minute :: int
  second :: int

definition read_rtc :: "'h port_io \<Rightarrow> u8 \<Rightarrow> 'h \<Rightarrow> int \<times> 'h" where
  "read_rtc P reg h =
     (let h = outb P 0x70 reg h;
          (ret, h) = inb P 0x71 h
      in (uint (ret AND 0xf) + uint (drop_bit 4 ret) * 10, h))"

definition read_rtc_async :: "'h port_io \<Rightarrow> 'h \<Rightarrow> rtc \<times> 'h" where
  "read_rtc_async P h =
     (let (s, h) = read_rtc P 0 h;
          (mi, h) = read_rtc P 2 h;
          (ho, h) = read_rtc P 4 h;
          (d, h) = read_rtc P 7 h;
          (mo, h) = read_rtc P 8 h;
          (y, h) = read_rtc P 9 h
      in (\<lparr>year = y + 2000, month = mo, day = d, hour = ho, minute = mi, second = s\<rparr>, h))"

partial_function (option) wait_sec :: "'h port_io \<Rightarrow> 'h \<Rightarrow> (rtc \<times> 'h) option" where
  "wait_sec P h =
     (let (t0, h) = read_rtc_async P h;
          (t1, h) = read_rtc_async P h
      in if second t0 \<noteq> second t1 then Some (t1, h) else wait_sec P h)"

text \<open>
  The instruction \<open>rdtsc\<close> is an argument like the ports. The division by the seconds between two
  changes of the clock is by at least one.
\<close>

partial_function (option) estimate_freq :: "'h port_io \<Rightarrow> ('h \<Rightarrow> u64 \<times> 'h) \<Rightarrow> 'h \<Rightarrow> (u32 \<times> 'h) option" where
  "estimate_freq P rdtsc h =
     Option.bind (wait_sec P h) (\<lambda>(rtc1, h).
     let (tsc1, h) = rdtsc h; t1 = word_of_int (minute rtc1 * 60 + second rtc1) :: u64 in
     Option.bind (wait_sec P h) (\<lambda>(rtc2, h).
     let (tsc2, h) = rdtsc h; t2 = word_of_int (minute rtc2 * 60 + second rtc2) :: u64 in
     if t2 \<le> t1 then estimate_freq P rdtsc h
     else Some (ucast (drop_bit 20 (tsc2 - tsc1) div (t2 - t1)), h)))"

partial_function (option) timer_rtc :: "'h port_io \<Rightarrow> 'h \<Rightarrow> (rtc \<times> 'h) option" where
  "timer_rtc P h =
     (let (rtc, h) = read_rtc_async P h;
          (tmp, h) = read_rtc P 0 h
      in if tmp \<noteq> second rtc then timer_rtc P h else Some (rtc, h))"

record timer_st =
  freq_mhz :: u32
  boot_date :: rtc
  uptsc :: u64

definition timer_init :: "'h port_io \<Rightarrow> ('h \<Rightarrow> u64 \<times> 'h) \<Rightarrow> 'h \<Rightarrow> (timer_st \<times> 'h) option" where
  "timer_init P rdtsc h =
     Option.bind (estimate_freq P rdtsc h) (\<lambda>(freq, h).
     Option.bind (timer_rtc P h) (\<lambda>(date, h).
     let (tsc, h) = rdtsc h in Some (\<lparr>freq_mhz = freq, boot_date = date, uptsc = tsc\<rparr>, h)))"

definition timer_uptime :: "timer_st \<Rightarrow> ('h \<Rightarrow> u64 \<times> 'h) \<Rightarrow> 'h \<Rightarrow> (u64 \<times> 'h) res" where
  "timer_uptime t rdtsc h =
     res_bind (guard BadAccess (freq_mhz t \<noteq> 0)) (\<lambda>_.
     let (tsc, h) = rdtsc h in Inr ((tsc - uptsc t) div ucast (freq_mhz t), h))"

section \<open>The date is one the clock showed\<close>

text \<open>The registers of the clock chip hold two decimal digits; the selected one is read from port 0x71.\<close>

definition bcd :: "int \<Rightarrow> u8" where
  "bcd n = word_of_int (n div 10 * 16 + n mod 10)"

definition reg_value :: "u8 \<Rightarrow> rtc \<Rightarrow> int" where
  "reg_value r t = (if r = 0 then second t else if r = 2 then minute t else if r = 4 then hour t else if r = 7 then day t
     else if r = 8 then month t else year t - 2000)"

text \<open>
  An access takes time: the clock, whose seconds \<open>now\<close> counts, may step, but then not for the next hundred
  accesses; \<open>left\<close> is how many are certain to come before the next step.
\<close>

definition elapses :: "('h \<Rightarrow> nat) \<Rightarrow> ('h \<Rightarrow> nat) \<Rightarrow> nat \<Rightarrow> 'h \<Rightarrow> 'h \<Rightarrow> bool" where
  "elapses now left n h h' \<longleftrightarrow> (now h' = now h \<and> left h \<le> left h' + n) \<or>
     (now h' = Suc (now h) \<and> left h < n \<and> 100 \<le> left h' + n)"

definition cmos :: "'h port_io \<Rightarrow> ('h \<Rightarrow> bool) \<Rightarrow> ('h \<Rightarrow> u8) \<Rightarrow> ('h \<Rightarrow> nat) \<Rightarrow> ('h \<Rightarrow> nat) \<Rightarrow> (nat \<Rightarrow> rtc) \<Rightarrow> bool" where
  "cmos P ok sel now left date \<longleftrightarrow>
     (\<forall>t. second (date (Suc t)) \<noteq> second (date t)) \<and>
     (\<forall>t. \<forall>r \<in> {0, 2, 4, 7, 8, 9}. 0 \<le> reg_value r (date t) \<and> reg_value r (date t) < 100) \<and>
     (\<forall>h v. ok h \<longrightarrow> ok (outb P 0x70 v h) \<and> sel (outb P 0x70 v h) = v \<and> elapses now left 1 h (outb P 0x70 v h)) \<and>
     (\<forall>h. ok h \<and> sel h \<in> {0, 2, 4, 7, 8, 9} \<longrightarrow>
        (\<exists>h'. inb P 0x71 h = (bcd (reg_value (sel h) (date (now h))), h') \<and> ok h' \<and> elapses now left 1 h h'))"

lemma elapses_trans:
  "elapses now left m h h1 \<Longrightarrow> elapses now left n h1 h2 \<Longrightarrow> m + n \<le> 100 \<Longrightarrow> elapses now left (m + n) h h2"
  unfolding elapses_def by linarith

lemma elapses_now: "elapses now left n h h' \<Longrightarrow> now h \<le> now h' \<and> now h' \<le> Suc (now h)"
  unfolding elapses_def by linarith

lemma bcd_digits:
  assumes "0 \<le> n" and "n < 100"
  shows "uint (bcd n AND 0xf) + uint (drop_bit 4 (bcd n)) * 10 = n"
proof -
  have "n div 10 \<in> {0..9}" "n mod 10 \<in> {0..9}" using assms by auto
  then have n: "0 \<le> n div 10 * 16 + n mod 10" "n div 10 * 16 + n mod 10 < 256" by auto
  then have u: "uint (bcd n) = n div 10 * 16 + n mod 10"
    unfolding bcd_def unsigned_of_int by (simp add: take_bit_int_eq_self)
  have f: "(0xf :: u8) = mask 4" by (simp add: mask_eq_exp_minus_1)
  have "uint (bcd n AND 0xf) = uint (bcd n) mod 16" unfolding f take_bit_eq_mask [symmetric] unsigned_take_bit_eq by (simp add: take_bit_eq_mod)
  moreover have "uint (drop_bit 4 (bcd n)) = uint (bcd n) div 16"
    unfolding drop_bit_eq_div uint_div by simp
  ultimately show ?thesis using \<open>n mod 10 \<in> {0..9}\<close> by (simp add: u)
qed

lemma read_rtc_ok:
  assumes "cmos P ok sel now left date" and "ok h" and "r \<in> {0, 2, 4, 7, 8, 9}"
  shows "\<exists>t h'. read_rtc P r h = (reg_value r (date t), h') \<and> ok h' \<and> elapses now left 2 h h' \<and> now h \<le> t \<and> t \<le> now h'"
proof -
  let ?h = "outb P 0x70 r h"
  have h: "ok ?h" "sel ?h = r" "elapses now left 1 h ?h" using assms(1,2) by (simp_all add: cmos_def)
  then obtain h' where h': "inb P 0x71 ?h = (bcd (reg_value r (date (now ?h))), h')" "ok h'" "elapses now left 1 ?h h'"
    using assms(1,3) unfolding cmos_def by metis
  have "0 \<le> reg_value r (date (now ?h)) \<and> reg_value r (date (now ?h)) < 100" using assms(1,3) unfolding cmos_def by blast
  then have "read_rtc P r h = (reg_value r (date (now ?h)), h')"
    by (simp add: read_rtc_def Let_def h'(1) bcd_digits)
  moreover have "elapses now left 2 h h'" using elapses_trans [OF h(3) h'(3)] by (simp add: numeral_2_eq_2)
  ultimately show ?thesis using h'(2) elapses_now [OF h(3)] elapses_now [OF h'(3)] by blast
qed

text \<open>One round of the loop: if the second has not changed, nothing has.\<close>

lemma rtc_round:
  assumes "cmos P ok sel now left date" and "ok h"
  shows "\<exists>rtc h1 tmp h2 t. read_rtc_async P h = (rtc, h1) \<and> read_rtc P 0 h1 = (tmp, h2) \<and> ok h2 \<and> elapses now left 14 h h2 \<and>
    now h \<le> t \<and> t \<le> now h2 \<and> (if tmp = second rtc then rtc = date t else now h2 = Suc (now h))"
proof -
  obtain t0 a0 where 0: "read_rtc P 0 h = (second (date t0), a0)" "ok a0" "elapses now left 2 h a0" "now h \<le> t0" "t0 \<le> now a0"
    using read_rtc_ok [OF assms, of 0] by (auto simp: reg_value_def)
  obtain t2 a2 where 2: "read_rtc P 2 a0 = (minute (date t2), a2)" "ok a2" "elapses now left 2 a0 a2" "now a0 \<le> t2" "t2 \<le> now a2"
    using read_rtc_ok [OF assms(1) 0(2), of 2] by (auto simp: reg_value_def)
  obtain t4 a4 where 4: "read_rtc P 4 a2 = (hour (date t4), a4)" "ok a4" "elapses now left 2 a2 a4" "now a2 \<le> t4" "t4 \<le> now a4"
    using read_rtc_ok [OF assms(1) 2(2), of 4] by (auto simp: reg_value_def)
  obtain t7 a7 where 7: "read_rtc P 7 a4 = (day (date t7), a7)" "ok a7" "elapses now left 2 a4 a7" "now a4 \<le> t7" "t7 \<le> now a7"
    using read_rtc_ok [OF assms(1) 4(2), of 7] by (auto simp: reg_value_def)
  obtain t8 a8 where 8: "read_rtc P 8 a7 = (month (date t8), a8)" "ok a8" "elapses now left 2 a7 a8" "now a7 \<le> t8" "t8 \<le> now a8"
    using read_rtc_ok [OF assms(1) 7(2), of 8] by (auto simp: reg_value_def)
  obtain t9 a9 where 9: "read_rtc P 9 a8 = (year (date t9) - 2000, a9)" "ok a9" "elapses now left 2 a8 a9" "now a8 \<le> t9" "t9 \<le> now a9"
    using read_rtc_ok [OF assms(1) 8(2), of 9] by (auto simp: reg_value_def)
  obtain t h2 where T: "read_rtc P 0 a9 = (second (date t), h2)" "ok h2" "elapses now left 2 a9 h2" "now a9 \<le> t" "t \<le> now h2"
    using read_rtc_ok [OF assms(1) 9(2), of 0] by (auto simp: reg_value_def)
  have "elapses now left (2 + 2 + 2 + 2 + 2 + 2 + 2) h h2"
    by (intro elapses_trans [OF elapses_trans [OF elapses_trans [OF elapses_trans [OF elapses_trans [OF elapses_trans [OF
          0(3) 2(3)] 4(3)] 7(3)] 8(3)] 9(3)] T(3)]) simp_all
  then have e: "elapses now left 14 h h2" by simp
  let ?rtc = "\<lparr>year = year (date t9), month = month (date t8), day = day (date t7), hour = hour (date t4),
    minute = minute (date t2), second = second (date t0)\<rparr>"
  have "read_rtc_async P h = (?rtc, a9)" by (simp add: read_rtc_async_def Let_def 0(1) 2(1) 4(1) 7(1) 8(1) 9(1))
  moreover have "if second (date t) = second ?rtc then ?rtc = date t else now h2 = Suc (now h)"
  proof (cases "t0 = t")
    case True
    then have "t2 = t" "t4 = t" "t7 = t" "t8 = t" "t9 = t" using 0 2 4 7 8 9 T by linarith+
    then show ?thesis using True by simp
  next
    case False
    then have "t = Suc t0 \<and> now h2 = Suc (now h)"
      using elapses_now [OF e] 0(4,5) 2(4,5) 4(4,5) 7(4,5) 8(4,5) 9(4,5) T(4,5) by linarith
    moreover from this have "second (date t) \<noteq> second (date t0)" using assms(1) by (simp add: cmos_def)
    ultimately show ?thesis by simp
  qed
  moreover have "now h \<le> t" using 0(4,5) 2(4,5) 4(4,5) 7(4,5) 8(4,5) 9(4,5) T(4) by linarith
  ultimately show ?thesis using T(1,2,5) e by blast
qed

text \<open>
  C30: reading the date ends, with a date the clock showed during the call. The fields are read one after the other and the clock may
  step in between; the loop repeats until the second is the same before and after, which takes at
  most two rounds, and then all fields belong to one moment.
\<close>

theorem timer_rtc_snapshot:
  assumes "cmos P ok sel now left date" and "ok h"
  shows "\<exists>t h'. timer_rtc P h = Some (date t, h') \<and> ok h' \<and> now h \<le> t \<and> t \<le> now h' \<and> now h' \<le> Suc (now h)"
proof -
  obtain rtc h1 tmp h2 t where r: "read_rtc_async P h = (rtc, h1)" "read_rtc P 0 h1 = (tmp, h2)" "ok h2" "elapses now left 14 h h2"
    "now h \<le> t" "t \<le> now h2" "if tmp = second rtc then rtc = date t else now h2 = Suc (now h)"
    using rtc_round [OF assms] by blast
  show ?thesis
  proof (cases "tmp = second rtc")
    case True
    then show ?thesis using r elapses_now [OF r(4)] by (subst timer_rtc.simps) auto
  next
    case False
    then have late: "now h2 = Suc (now h)" "86 \<le> left h2" using r(4,7) unfolding elapses_def by auto
    obtain rtc' h3 tmp' h4 t' where r': "read_rtc_async P h2 = (rtc', h3)" "read_rtc P 0 h3 = (tmp', h4)" "ok h4" "elapses now left 14 h2 h4"
      "now h2 \<le> t'" "t' \<le> now h4" "if tmp' = second rtc' then rtc' = date t' else now h4 = Suc (now h2)"
      using rtc_round [OF assms(1) r(3)] by blast
    have "now h4 = now h2" using r'(4) late(2) unfolding elapses_def by linarith
    then have "timer_rtc P h2 = Some (date t', h4)" using r'(1,2,7) by (subst timer_rtc.simps) (auto split: if_splits)
    moreover have "timer_rtc P h = timer_rtc P h2" using False r(1,2) by (subst timer_rtc.simps) simp
    ultimately show ?thesis using r'(3,5,6) late(1) \<open>now h4 = now h2\<close> by (intro exI [of _ t'] exI [of _ h4]) simp
  qed
qed

text \<open>A clock that is about to step from 23:59:59 to the next year.\<close>

record sim_clock =
  sim_now :: nat
  sim_left :: nat
  sim_sel :: u8

definition sim_date :: "nat \<Rightarrow> rtc" where
  "sim_date t = (if t = 0 then \<lparr>year = 2022, month = 12, day = 31, hour = 23, minute = 59, second = 59\<rparr>
     else \<lparr>year = 2023, month = 1, day = 1, hour = 0, minute = 0, second = int (t - 1) mod 60\<rparr>)"

definition sim_step :: "sim_clock \<Rightarrow> sim_clock" where
  "sim_step h = (if sim_left h = 0 then h\<lparr>sim_now := Suc (sim_now h), sim_left := 1000\<rparr> else h\<lparr>sim_left := sim_left h - 1\<rparr>)"

definition sim_cmos :: "sim_clock port_io" where
  "sim_cmos = \<lparr>inb = (\<lambda>_ h. (bcd (reg_value (sim_sel h) (sim_date (sim_now h))), sim_step h)),
     outb = (\<lambda>_ v h. (sim_step h)\<lparr>sim_sel := v\<rparr>), inl = (\<lambda>_ h. (0, h)), outl = (\<lambda>_ _ h. h)\<rparr>"

lemma sim_cmos_ok: "cmos sim_cmos (\<lambda>_. True) sim_sel sim_now sim_left sim_date"
proof -
  have "int t mod 60 \<noteq> (int t + 1) mod 60" for t by (simp add: mod_eq_dvd_iff)
  then have "second (sim_date (Suc t)) \<noteq> second (sim_date t)" for t
    by (cases t) (simp_all add: sim_date_def, metis add.commute)
  moreover have "\<forall>r \<in> {0, 2, 4, 7, 8, 9}. 0 \<le> reg_value r (sim_date t) \<and> reg_value r (sim_date t) < 100" for t
    by (simp add: reg_value_def sim_date_def, intro impI less_trans [OF pos_mod_bound]) simp_all
  moreover have "elapses sim_now sim_left 1 h (sim_step h)" for h by (simp add: elapses_def sim_step_def)
  moreover from this have "elapses sim_now sim_left 1 h ((sim_step h)\<lparr>sim_sel := v\<rparr>)" for h v by (simp add: elapses_def)
  ultimately show ?thesis by (simp add: cmos_def sim_cmos_def)
qed

theorem timer_rtc_snapshot_witness:
  "\<exists>t h'. timer_rtc sim_cmos \<lparr>sim_now = 0, sim_left = 5, sim_sel = 0\<rparr> = Some (sim_date t, h') \<and> sim_now h' \<le> 1"
  using timer_rtc_snapshot [OF sim_cmos_ok, of "\<lparr>sim_now = 0, sim_left = 5, sim_sel = 0\<rparr>"] by auto

end
