(* ===== verification/Console_Qemu.thy ===== *)
theory Console_Qemu
  imports Ioe_Qemu Tty_Task Term_Font
begin

text \<open>
  The console of the qemu platform from end to end: scan codes in the keyboard controller, the input
  task, the queue of events, the terminal task with its line discipline, and the pixels of the frame
  buffer in the kernel's font.
\<close>

section \<open>Letters on the abstract desk\<close>

definition letter_bytes :: "bool \<Rightarrow> string \<Rightarrow> u8 list" where
  "letter_bytes up cs = List.map (\<lambda>c. if up then chr c else chr c + 32) cs"

lemma letter_byte:
  assumes "c \<in> set ''ABCDEFGHIJKLMNOPQRSTUVWXYZ''" and "b = (if up then chr c else chr c + 32)"
  shows "b \<noteq> 0" and "b \<noteq> 8" and "b \<noteq> 10"
proof -
  have "\<forall>c \<in> set ''ABCDEFGHIJKLMNOPQRSTUVWXYZ''. \<forall>up. (if up then chr c else chr c + 32) \<notin> {0, 8, 10}"
    by (simp add: chr_def)
  from this [rule_format, OF assms(1), of up] have "b \<notin> {0, 8, 10}" unfolding assms(2) .
  then show "b \<noteq> 0" "b \<noteq> 8" "b \<noteq> 10" by auto
qed

lemma letter_event:
  assumes "c \<in> set ''ABCDEFGHIJKLMNOPQRSTUVWXYZ''" and "b = (if up then chr c else chr c + 32)" and "a_line a = (ds, cur)"
  shows "a_event (event False False b) a = a_set (ds, cur @ [b]) (glass_putc b (a_glass a)) a"
    and "length (ld_bytes (ds, cur)) + 1 < TTY_COOK_BUF_SZ \<Longrightarrow> event_room (event False False b) a"
proof -
  note b = letter_byte [OF assms(1,2)]
  have u: "ucast (ucast b :: u16) = b" by (rule bit_word_eqI) (simp add: bit_simps)
  then have "(ucast b :: u16) \<noteq> 0" using b(1) by (metis unsigned_0)
  then have d: "ucast (ev_data (event False False b)) = b" "ev_data (event False False b) \<noteq> 0"
    "\<not> ev_alt (event False False b)" "\<not> ev_ctrl (event False False b)"
    using u by (simp_all add: event_def)
  have "ld_cook b (a_line a) = (0, ds, cur @ [b])" using b assms(3) by (simp add: ld_cook_def)
  then show "a_event (event False False b) a = a_set (ds, cur @ [b]) (glass_putc b (a_glass a)) a"
    using d by (simp add: a_event_def a_key_eq)
  show "length (ld_bytes (ds, cur)) + 1 < TTY_COOK_BUF_SZ \<Longrightarrow> event_room (event False False b) a"
    using d b assms(3) by (simp add: event_room_def key_room_def)
qed

lemma letters_events:
  "set cs \<subseteq> set ''ABCDEFGHIJKLMNOPQRSTUVWXYZ'' \<Longrightarrow> a_line a = (ds, cur) \<Longrightarrow>
    length (ld_bytes (ds, cur)) + length cs < TTY_COOK_BUF_SZ \<Longrightarrow>
    fold a_event (typed up cs) a = a_set (ds, cur @ letter_bytes up cs) (fold glass_putc (letter_bytes up cs) (a_glass a)) a \<and>
    desk_fair (typed up cs) a"
proof (induction cs arbitrary: a cur)
  case Nil
  then show ?case using a_set_simps(5) [of a] by (simp add: typed_def letter_bytes_def)
next
  case (Cons c cs)
  let ?b = "if up then chr c else chr c + 32"
  have c: "c \<in> set ''ABCDEFGHIJKLMNOPQRSTUVWXYZ''" and cs: "set cs \<subseteq> set ''ABCDEFGHIJKLMNOPQRSTUVWXYZ''" using Cons.prems(1) by auto
  note e = letter_event [OF c refl [of ?b] Cons.prems(2)]
  let ?a = "a_set (ds, cur @ [?b]) (glass_putc ?b (a_glass a)) a"
  have "length (ld_bytes (ds, cur @ [?b])) = length (ld_bytes (ds, cur)) + 1" by (simp add: ld_bytes_def)
  then have "fold a_event (typed up cs) ?a =
        a_set (ds, (cur @ [?b]) @ letter_bytes up cs) (fold glass_putc (letter_bytes up cs) (a_glass ?a)) ?a \<and> desk_fair (typed up cs) ?a"
    using Cons.prems(3) by (intro Cons.IH cs) simp_all
  moreover have "event_room (event False False ?b) a" using Cons.prems(3) by (intro e(2)) simp
  ultimately show ?case using e(1) by (simp add: typed_def letter_bytes_def)
qed

section \<open>From the keyboard to the pixels\<close>

text \<open>
  C7: typing on the console, end to end, over the qemu platform's keyboard and screen and with a \<open>memmove\<close> that works, which
  klib's does not: linked with that one the kernel panics at the first scroll. Let the controller and the semaphores and spin locks keep their contracts, and let the scan codes of hitting at most 127 letter
  keys \<open>cs\<close> wait in the keyboard controller, which is one less than the input queue holds; let that queue be empty, neither Ctrl nor
  Alt be held, the line being typed have room for the letters, and the console satisfy its invariant with nothing left to draw.
  Then the input task
  empties the controller, the terminal task handles the events, neither faults nor blocks, the letters are appended to the line
  being typed in the terminal in front and echoed there, and its cells can be read off the screen: each
  cell with a printable character shows the glyph of that character and of no other one.
\<close>

theorem keystrokes_reach_screen:
  assumes "keyboard P ok codes" and "ok h" and "codes h = hitting cs" and "set cs \<subseteq> set ''ABCDEFGHIJKLMNOPQRSTUVWXYZ''"
    and "kmt_ok K unheld count" and "desk_ok term_font count d a" and "clean d"
    and "input_ok unheld count (d_in d)" and "in_elems (d_in d) = []" and "length cs \<le> NEVENTS - 1"
    and "\<not> lctrl (d_in d) \<and> \<not> rctrl (d_in d) \<and> \<not> lalt (d_in d) \<and> \<not> ralt (d_in d)"
    and "a_line a = (ds, cur)" and "length (ld_bytes (ds, cur)) + length cs < TTY_COOK_BUF_SZ" and "length nows = length cs"
  shows "\<exists>inp h' d'. drain_ports K P (d_in d) h = Some (Inr (inp, h')) \<and> codes h' = [] \<and>
    tty_task_rounds K gpu_fbdraw True nows (d\<lparr>d_in := inp\<rparr>) = Inr d' \<and> in_elems (d_in d') = [] \<and>
    desk_ok term_font count d' (a_set (ds, cur @ letter_bytes (upper (d_in d)) cs)
      (fold glass_putc (letter_bytes (upper (d_in d)) cs) (a_glass a)) a) \<and>
    (\<forall>i < t_size (tty_of d'). printable (shown (d_cursor d') (tty_of d') i) \<longrightarrow>
      (\<forall>c. printable c \<longrightarrow> (cell_shows term_font (screen (d_gpu d')) (tty_of d') i c \<longleftrightarrow> c = shown (d_cursor d') (tty_of d') i)))"
proof -
  obtain inp where i: "drain_keys K (typing cs) (d_in d) = Inr inp" "input_ok unheld count inp"
      "in_elems inp = typed (upper (d_in d)) cs"
    using drain_typing [OF assms(5,4,8)] assms(9,10,11) by auto
  have "\<forall>b \<in> set (codes h). snd (key_of b) \<noteq> 0"
    using typing_keys [OF assms(4)] by (simp flip: hitting_typing [OF assms(4)] add: assms(3))
  moreover have "drain_keys K (List.map key_of (codes h)) (d_in d) = Inr inp" using i(1) hitting_typing [OF assms(4)] assms(3) by simp
  ultimately obtain h' where h': "drain_ports K P (d_in d) h = Some (Inr (inp, h'))" "codes h' = []"
    using drain_ports_ok [OF assms(1,2)] by blast
  note l = letters_events [OF assms(4,12,13), of "upper (d_in d)"]
  have "\<exists>d'. tty_task_rounds K gpu_fbdraw True nows (d\<lparr>d_in := inp\<rparr>) = Inr d' \<and>
      desk_ok term_font count d' (fold a_event (in_elems (d_in (d\<lparr>d_in := inp\<rparr>))) a) \<and>
      input_ok unheld count (d_in d') \<and> in_elems (d_in d') = [] \<and> clean d'"
    using assms(7,14) i(2,3) l
    by (intro tty_task_rounds_ok [OF assms(5) desk_ok_other(1) [OF assms(6)]]) (simp_all add: clean_def typed_def)
  then obtain d' where d': "tty_task_rounds K gpu_fbdraw True nows (d\<lparr>d_in := inp\<rparr>) = Inr d'" "in_elems (d_in d') = []" "clean d'"
      "desk_ok term_font count d' (a_set (ds, cur @ letter_bytes (upper (d_in d)) cs)
        (fold glass_putc (letter_bytes (upper (d_in d)) cs) (a_glass a)) a)"
    using l i(3) by auto
  have "\<forall>i < t_size (tty_of d'). cell_shows term_font (screen (d_gpu d')) (tty_of d') i (shown (d_cursor d') (tty_of d') i)"
    using desk_okD(9) [OF d'(4)] d'(3) by (simp add: synced_def clean_def)
  then show ?thesis using h' d' cell_shows_printable by blast
qed

theorem keystrokes_reach_screen_witness:
  "\<exists>d inp h' d'. console_boot plain_kmt True (\<lambda>_ n. n \<le> 16 * 2 ^ 20) term_font (replicate NTEXTURE []) (replicate 1024 0) (replicate 1024 0) 5 (ex_desk []) = Inr d \<and>
    drain_ports plain_kmt sim_keyboard (d_in d) (hitting ''OK'') = Some (Inr (inp, h')) \<and> h' = [] \<and>
    tty_task_rounds plain_kmt gpu_fbdraw True [6, 7] (d\<lparr>d_in := inp\<rparr>) = Inr d' \<and>
    (\<forall>i < t_size (tty_of d'). printable (shown (d_cursor d') (tty_of d') i) \<longrightarrow>
      (\<forall>c. printable c \<longrightarrow> (cell_shows term_font (screen (d_gpu d')) (tty_of d') i c \<longleftrightarrow> c = shown (d_cursor d') (tty_of d') i)))"
proof -
  let ?gl = "fold glass_putc welcome_bytes (blank_glass (nat (16 div 8)) (nat (16 div 16)))"
  let ?a = "\<lparr>a_second = False, a_glass1 = ?gl, a_glass2 = ?gl, a_line1 = ([], []), a_line2 = ([], [])\<rparr>"
  have q: "length (replicate 1024 0 :: u8 list) = TTY_COOK_BUF_SZ \<and> List.last (replicate 1024 0 :: u8 list) = 0" by (simp add: TTY_COOK_BUF_SZ_def)
  have g: "gpu_ok (d_gpu (ex_desk [])) \<and> gpu_config (d_gpu (ex_desk [])) = (16, 16)" using ex_screen_ok by (simp add: ex_desk_def)
  have s: "screen_size_ok 16 16" "True \<or> 320 \<le> (16 :: int) \<and> 240 \<le> (16 :: int)" by (simp_all add: screen_size_ok_def)
  have t: "length (replicate NTEXTURE ([] :: u32 list)) = NTEXTURE" by simp
  let ?got = "\<lambda>(_ :: int) n :: nat. n \<le> 16 * 2 ^ 20"
  obtain d where d: "console_boot plain_kmt True ?got term_font (replicate NTEXTURE []) (replicate 1024 0) (replicate 1024 0) 5 (ex_desk []) = Inr d"
      "clean d" "d_in d = d_in (ex_desk [])" "desk_ok term_font (\<lambda>s. s) d ?a"
    using console_boot_ok [OF plain_kmt_ok t q q g s, of ?got term_font 5] by auto
  have "length ([] :: input_event list) < NEVENTS" by (simp add: NEVENTS_def)
  then have i: "input_ok (\<lambda>l. \<not> l) (\<lambda>s. s) (d_in d)" "in_elems (d_in d) = []"
    using ex_desk_input d(3) by simp_all
  have m: "\<not> lctrl (d_in d) \<and> \<not> rctrl (d_in d) \<and> \<not> lalt (d_in d) \<and> \<not> ralt (d_in d)"
    unfolding d(3) by (simp add: ex_desk_def ex_input_def)
  have l: "a_line ?a = ([], [])" "length (ld_bytes ([], [])) + length ''OK'' < TTY_COOK_BUF_SZ"
    by (simp_all add: a_line_def ld_bytes_def TTY_COOK_BUF_SZ_def)
  have n: "length ''OK'' \<le> NEVENTS - 1" "length [6, 7 :: u64] = length ''OK''" "set ''OK'' \<subseteq> set ''ABCDEFGHIJKLMNOPQRSTUVWXYZ''"
    by (simp_all add: NEVENTS_def)
  show ?thesis
    using keystrokes_reach_screen [OF sim_keyboard_ok TrueI refl n(3) plain_kmt_ok d(4,2) i n(1) m l n(2)] d(1) by blast
qed

end
