(* ===== verification/Gpu_Render.thy ===== *)
theory Gpu_Render
  imports Gpu Bytes
begin

text \<open>
  The accelerated drawing of the qemu platform, \<open>am/src/x86/qemu/ioe.c\<close> (\<open>gpu_memcpy\<close>, \<open>vbuf_alloc\<close>, \<open>render\<close>,
  \<open>gpu_render\<close>): a tree of canvases lies in the video memory \<open>vmem\<close>; each is drawn, scaled, into a box of its parent, the
  root into the frame buffer. A canvas with children is first put together in \<open>vbuf\<close>.
\<close>

section \<open>Data\<close>

definition VMEM_SIZE :: int where "VMEM_SIZE = 512 * 1024"
definition AM_GPU_NULL :: u32 where "AM_GPU_NULL = 0xffffffff"
definition AM_GPU_TEXTURE :: u16 where "AM_GPU_TEXTURE = 1"
definition AM_GPU_SUBTREE :: u16 where "AM_GPU_SUBTREE = 2"

text \<open>
  \<open>vmem\<close> by bytes, \<open>vbuf\<close> by pixels, which all its users have: a pixel is three bytes. \<open>vbuf_head\<close> is the number of
  bytes given out.
\<close>

record accel =
  vmem :: "int \<Rightarrow> u8"
  vbuf :: "int \<Rightarrow> pixel"
  vbuf_head :: int
  gpu :: gpu_st

text \<open>What a \<open>struct pixel *\<close> points into.\<close>

datatype surf = In_fb | In_vbuf int | In_vmem int | Null

definition get_px :: "surf \<Rightarrow> int \<Rightarrow> accel \<Rightarrow> pixel res" where
  "get_px s i a =
     (case s of
        In_fb \<Rightarrow> res_bind (guard BadAccess (0 \<le> i \<and> i < int (length (disp_fb (gpu a))))) (\<lambda>_. Inr (disp_fb (gpu a) ! nat i))
      | In_vbuf k \<Rightarrow> res_bind (guard BadAccess (0 \<le> k + i \<and> 3 * (k + i) + 3 \<le> VMEM_SIZE)) (\<lambda>_. Inr (vbuf a (k + i)))
      | In_vmem p \<Rightarrow> res_bind (guard BadAccess (0 \<le> p + 3 * i \<and> p + 3 * i + 3 \<le> VMEM_SIZE)) (\<lambda>_.
          Inr \<lparr>px_b = vmem a (p + 3 * i), px_g = vmem a (p + 3 * i + 1), px_r = vmem a (p + 3 * i + 2)\<rparr>)
      | Null \<Rightarrow> Inl BadAccess)"

definition put_px :: "surf \<Rightarrow> int \<Rightarrow> pixel \<Rightarrow> accel \<Rightarrow> accel res" where
  "put_px s i x a =
     (case s of
        In_fb \<Rightarrow> res_bind (guard BadAccess (0 \<le> i \<and> i < int (length (disp_fb (gpu a))))) (\<lambda>_.
          Inr (a\<lparr>gpu := (gpu a)\<lparr>disp_fb := (disp_fb (gpu a))[nat i := x]\<rparr>\<rparr>))
      | In_vbuf k \<Rightarrow> res_bind (guard BadAccess (0 \<le> k + i \<and> 3 * (k + i) + 3 \<le> VMEM_SIZE)) (\<lambda>_. Inr (a\<lparr>vbuf := (vbuf a)(k + i := x)\<rparr>))
      | _ \<Rightarrow> Inl BadAccess)"

text \<open>The members of a \<open>struct gpu_canvas\<close> at \<open>p\<close>, which is packed.\<close>

definition rd16 :: "accel \<Rightarrow> int \<Rightarrow> u16 res" where
  "rd16 a p = res_bind (guard BadAccess (0 \<le> p \<and> p + 2 \<le> VMEM_SIZE)) (\<lambda>_. Inr (of_le16 [vmem a p, vmem a (p + 1)]))"

definition rd32 :: "accel \<Rightarrow> int \<Rightarrow> u32 res" where
  "rd32 a p = res_bind (guard BadAccess (0 \<le> p \<and> p + 4 \<le> VMEM_SIZE)) (\<lambda>_.
     Inr (of_le32 [vmem a p, vmem a (p + 1), vmem a (p + 2), vmem a (p + 3)]))"

record gpu_canvas =
  cv_type :: u16
  cv_w :: int
  cv_h :: int
  cv_x1 :: int
  cv_y1 :: int
  cv_w1 :: int
  cv_h1 :: int

definition rd_canvas :: "accel \<Rightarrow> int \<Rightarrow> gpu_canvas res" where
  "rd_canvas a p =
     res_bind (rd16 a p) (\<lambda>t. res_bind (rd16 a (p + 2)) (\<lambda>w. res_bind (rd16 a (p + 4)) (\<lambda>h.
     res_bind (rd16 a (p + 6)) (\<lambda>x1. res_bind (rd16 a (p + 8)) (\<lambda>y1. res_bind (rd16 a (p + 10)) (\<lambda>w1. res_bind (rd16 a (p + 12)) (\<lambda>h1.
     Inr \<lparr>cv_type = t, cv_w = uint w, cv_h = uint h, cv_x1 = uint x1, cv_y1 = uint y1, cv_w1 = uint w1, cv_h1 = uint h1\<rparr>)))))))"

definition rd_sibling :: "accel \<Rightarrow> int \<Rightarrow> u32 res" where "rd_sibling a p = rd32 a (p + 14)"
definition rd_child :: "accel \<Rightarrow> int \<Rightarrow> u32 res" where "rd_child a p = rd32 a (p + 18)"

definition rd_texture :: "accel \<Rightarrow> int \<Rightarrow> (int \<times> int \<times> u32) res" where
  "rd_texture a p = res_bind (rd16 a (p + 18)) (\<lambda>w. res_bind (rd16 a (p + 20)) (\<lambda>h. res_bind (rd32 a (p + 22)) (\<lambda>pixels.
     Inr (uint w, uint h, pixels))))"

section \<open>Operations\<close>

text \<open>\<open>to_host\<close>: the offset in \<open>vmem\<close>, or none.\<close>

definition to_host :: "u32 \<Rightarrow> int option" where
  "to_host ptr = (if ptr = AM_GPU_NULL then None else Some (uint ptr))"

primrec memcpy_loop :: "int \<Rightarrow> u8 list \<Rightarrow> accel \<Rightarrow> accel res" where
  "memcpy_loop d [] a = Inr a"
| "memcpy_loop d (x # xs) a =
     res_bind (guard BadAccess (0 \<le> d \<and> d < VMEM_SIZE)) (\<lambda>_. memcpy_loop (d + 1) xs (a\<lparr>vmem := (vmem a)(d := x)\<rparr>))"

definition gpu_memcpy :: "u32 \<Rightarrow> u8 list \<Rightarrow> accel \<Rightarrow> accel res" where
  "gpu_memcpy dest src a =
     (case to_host dest of
        None \<Rightarrow> if src = [] then Inr a else Inl BadAccess
      | Some d \<Rightarrow> memcpy_loop d src a)"

text \<open>A size that does not fit \<open>int\<close> is implementation-defined and taken as a fault; the result is the first pixel.\<close>

definition vbuf_alloc :: "int \<Rightarrow> accel \<Rightarrow> (int \<times> accel) res" where
  "vbuf_alloc sz a =
     res_bind (guard BadAccess (sz < 2 ^ 31)) (\<lambda>_.
     let ret = vbuf_head a; head = vbuf_head a + sz
     in res_bind (guard Panic (head \<le> VMEM_SIZE)) (\<lambda>_.
        Inr (ret div 3, a\<lparr>vbuf_head := head,
          vbuf := (\<lambda>i. if ret div 3 \<le> i \<and> i < head div 3 then \<lparr>px_b = 0, px_g = 0, px_r = 0\<rparr> else vbuf a i)\<rparr>)))"

text \<open>
  The two loops at the end of \<open>render\<close>, over the pairs \<open>i\<close>, \<open>j\<close> in their order. The products are of \<open>int\<close>, and overflow is
  undefined.
\<close>

primrec draw_cells :: "(int \<times> int) list \<Rightarrow> gpu_canvas \<Rightarrow> int \<Rightarrow> int \<Rightarrow> surf \<Rightarrow> int \<Rightarrow> surf \<Rightarrow> accel \<Rightarrow> accel res" where
  "draw_cells [] cv w h px_local W px a = Inr a"
| "draw_cells (c # cs) cv w h px_local W px a =
     (let (i, j) = c; x = cv_x1 cv + i; y = cv_y1 cv + j
      in res_bind (guard BadAccess (j * h < 2 ^ 31 \<and> i * w < 2 ^ 31 \<and> W * y + x < 2 ^ 31)) (\<lambda>_.
         res_bind (get_px px_local (w * (j * h div cv_h1 cv) + (i * w div cv_w1 cv)) a) (\<lambda>v.
         res_bind (put_px px (W * y + x) v a) (draw_cells cs cv w h px_local W px))))"

definition cells :: "gpu_canvas \<Rightarrow> (int \<times> int) list" where
  "cells cv = List.product [0 .. cv_w1 cv - 1] [0 .. cv_h1 cv - 1]"

text \<open>
  \<open>render\<close> of the canvas at \<open>p\<close> into \<open>px\<close>, which is \<open>W\<close> pixels wide; with \<open>sibs\<close> it is the loop over the siblings from \<open>p\<close> on.
  \<open>None\<close> is a tree that does not end.
\<close>

abbreviation res_then :: "'a res option \<Rightarrow> ('a \<Rightarrow> 'b res option) \<Rightarrow> 'b res option" where
  "res_then m f \<equiv> Option.bind m (\<lambda>r. case r of Inl e \<Rightarrow> Some (Inl e) | Inr x \<Rightarrow> f x)"

partial_function (option) render :: "bool \<Rightarrow> int \<Rightarrow> int \<Rightarrow> surf \<Rightarrow> accel \<Rightarrow> accel res option" where
  "render sibs p W px a =
     res_then (Some (rd_canvas a p)) (\<lambda>cv.
     res_then
       (if cv_type cv = AM_GPU_TEXTURE then
          Some (res_bind (rd_texture a p) (\<lambda>(w, h, pixels).
            Inr (w, h, case to_host pixels of None \<Rightarrow> Null | Some q \<Rightarrow> In_vmem q, a)))
        else if cv_type cv = AM_GPU_SUBTREE then
          res_then (Some (vbuf_alloc (cv_w cv * cv_h cv * 3) a)) (\<lambda>(k, a).
          res_then (Some (rd_child a p)) (\<lambda>child.
          res_then (case to_host child of None \<Rightarrow> Some (Inr a) | Some ch \<Rightarrow> render True ch (cv_w cv) (In_vbuf k) a) (\<lambda>a.
          Some (Inr (cv_w cv, cv_h cv, In_vbuf k, a)))))
        else Some (Inl Panic)) (\<lambda>(w, h, px_local, a).
     res_then (Some (draw_cells (cells cv) cv w h px_local W px a)) (\<lambda>a.
     if sibs then
       res_then (Some (rd_sibling a p)) (\<lambda>sib. case to_host sib of None \<Rightarrow> Some (Inr a) | Some s \<Rightarrow> render True s W px a)
     else Some (Inr a))))"

definition gpu_render :: "u32 \<Rightarrow> accel \<Rightarrow> accel res option" where
  "gpu_render root a =
     (let a = a\<lparr>vbuf_head := 0\<rparr>
      in case to_host root of None \<Rightarrow> Some (Inl BadAccess) | Some p \<Rightarrow> render False p (disp_w (gpu a)) In_fb a)"

section \<open>Upload\<close>

lemma memcpy_loop_ok:
  "0 \<le> d \<Longrightarrow> d + int (length src) \<le> VMEM_SIZE \<Longrightarrow>
    memcpy_loop d src a = Inr (a\<lparr>vmem := (\<lambda>i. if d \<le> i \<and> i < d + int (length src) then src ! nat (i - d) else vmem a i)\<rparr>)"
proof (induction src arbitrary: d a)
  case Nil
  show ?case by (cases a) (auto simp: fun_eq_iff)
next
  case (Cons x xs)
  have "(\<lambda>i. if d + 1 \<le> i \<and> i < d + 1 + int (length xs) then xs ! nat (i - (d + 1)) else if i = d then x else vmem a i) =
      (\<lambda>i. if d \<le> i \<and> i < d + int (length (x # xs)) then (x # xs) ! nat (i - d) else vmem a i)"
    by (auto simp: fun_eq_iff nth_Cons' nat_diff_distrib' intro: arg_cong [where f = "(!) xs"])
  then show ?case using Cons by (simp add: fun_upd_def cong: if_cong)
qed

text \<open>An upload that fits is there to be read, and changes nothing else; one that does not is a write outside of the memory.\<close>

lemma gpu_memcpy_ok:
  assumes "dest \<noteq> AM_GPU_NULL"
  shows "uint dest + int (length src) \<le> VMEM_SIZE \<Longrightarrow> gpu_memcpy dest src a =
      Inr (a\<lparr>vmem := (\<lambda>i. if uint dest \<le> i \<and> i < uint dest + int (length src) then src ! nat (i - uint dest) else vmem a i)\<rparr>)"
    and "VMEM_SIZE < uint dest + int (length src) \<Longrightarrow> src \<noteq> [] \<Longrightarrow> gpu_memcpy dest src a = Inl BadAccess"
proof -
  show "uint dest + int (length src) \<le> VMEM_SIZE \<Longrightarrow> gpu_memcpy dest src a =
      Inr (a\<lparr>vmem := (\<lambda>i. if uint dest \<le> i \<and> i < uint dest + int (length src) then src ! nat (i - uint dest) else vmem a i)\<rparr>)"
    using memcpy_loop_ok [of "uint dest" src a] assms by (simp add: gpu_memcpy_def to_host_def)
  have "VMEM_SIZE < d + int (length src) \<Longrightarrow> src \<noteq> [] \<Longrightarrow> memcpy_loop d src a = Inl BadAccess" for d
  proof (induction src arbitrary: d a)
    case (Cons x xs)
    then show ?case by (cases "xs = []") auto
  qed simp
  then show "VMEM_SIZE < uint dest + int (length src) \<Longrightarrow> src \<noteq> [] \<Longrightarrow> gpu_memcpy dest src a = Inl BadAccess"
    using assms by (simp add: gpu_memcpy_def to_host_def)
qed

section \<open>Images\<close>

type_synonym image = "int \<Rightarrow> int \<Rightarrow> pixel"

definition peek :: "surf \<Rightarrow> int \<Rightarrow> accel \<Rightarrow> pixel" where
  "peek s i a = (case s of
     In_fb \<Rightarrow> disp_fb (gpu a) ! nat i
   | In_vbuf k \<Rightarrow> vbuf a (k + i)
   | In_vmem p \<Rightarrow> \<lparr>px_b = vmem a (p + 3 * i), px_g = vmem a (p + 3 * i + 1), px_r = vmem a (p + 3 * i + 2)\<rparr>
   | Null \<Rightarrow> \<lparr>px_b = 0, px_g = 0, px_r = 0\<rparr>)"

definition view :: "surf \<Rightarrow> int \<Rightarrow> accel \<Rightarrow> image" where
  "view s W a x y = peek s (W * y + x) a"

text \<open>There are \<open>n\<close> pixels to use.\<close>

definition surf_ok :: "surf \<Rightarrow> int \<Rightarrow> accel \<Rightarrow> bool" where
  "surf_ok s n a \<longleftrightarrow> (case s of
     In_fb \<Rightarrow> n \<le> int (length (disp_fb (gpu a)))
   | In_vbuf k \<Rightarrow> 0 \<le> k \<and> 3 * (k + n) \<le> vbuf_head a
   | In_vmem p \<Rightarrow> 0 \<le> p \<and> p + 3 * n \<le> VMEM_SIZE
   | Null \<Rightarrow> False)"

definition head_ok :: "accel \<Rightarrow> bool" where
  "head_ok a \<longleftrightarrow> 0 \<le> vbuf_head a \<and> vbuf_head a \<le> VMEM_SIZE \<and> 3 dvd vbuf_head a"

text \<open>Only the \<open>n\<close> pixels of \<open>s\<close> may differ, but for what \<open>vbuf\<close> has behind \<open>m\<close> pixels.\<close>

definition untouched :: "surf \<Rightarrow> int \<Rightarrow> int \<Rightarrow> bool" where
  "untouched s n i \<longleftrightarrow> (\<forall>k. s = In_vbuf k \<longrightarrow> \<not> (k \<le> i \<and> i < k + n))"

definition only :: "int \<Rightarrow> surf \<Rightarrow> int \<Rightarrow> accel \<Rightarrow> accel \<Rightarrow> bool" where
  "only m s n a a' \<longleftrightarrow> vmem a' = vmem a \<and> disp_w (gpu a') = disp_w (gpu a) \<and> disp_h (gpu a') = disp_h (gpu a) \<and>
     length (disp_fb (gpu a')) = length (disp_fb (gpu a)) \<and> (s \<noteq> In_fb \<longrightarrow> gpu a' = gpu a) \<and>
     (\<forall>i < m. untouched s n i \<longrightarrow> vbuf a' i = vbuf a i)"

lemma only_refl [simp]: "only m s n a a"
  by (simp add: only_def)

lemma only_trans: "only m s n a b \<Longrightarrow> only m' s n b c \<Longrightarrow> m \<le> m' \<Longrightarrow> only m s n a c"
  unfolding only_def by auto

lemma get_px_ok: "surf_ok s n a \<Longrightarrow> head_ok a \<Longrightarrow> 0 \<le> i \<Longrightarrow> i < n \<Longrightarrow> get_px s i a = Inr (peek s i a)"
  by (cases s) (auto simp: surf_ok_def head_ok_def get_px_def peek_def)

lemma put_px_ok:
  assumes "surf_ok s n a" "head_ok a" "0 \<le> i" "i < n" "\<And>q. s \<noteq> In_vmem q"
  shows "\<exists>a'. put_px s i v a = Inr a' \<and> only m s n a a' \<and> vbuf_head a' = vbuf_head a \<and>
    (\<forall>j. 0 \<le> j \<longrightarrow> peek s j a' = (if j = i then v else peek s j a))"
  using assms by (cases s) (auto simp: surf_ok_def head_ok_def put_px_def peek_def only_def untouched_def nth_list_update)

lemma surf_ok_only: "surf_ok s n a \<Longrightarrow> only m s' n' a a' \<Longrightarrow> vbuf_head a \<le> vbuf_head a' \<Longrightarrow> surf_ok s n a'"
  by (cases s) (auto simp: surf_ok_def only_def)

text \<open>A source that lies apart from where is drawn.\<close>

definition apart :: "surf \<Rightarrow> surf \<Rightarrow> int \<Rightarrow> bool" where
  "apart src dst n \<longleftrightarrow> (case src of In_vmem _ \<Rightarrow> True | In_vbuf k \<Rightarrow> (\<forall>l. dst = In_vbuf l \<longrightarrow> l + n \<le> k) | _ \<Rightarrow> False)"

lemma peek_apart:
  assumes "apart src dst n" and "only m dst n a a'" and "surf_ok src l a" "vbuf_head a \<le> 3 * m" "0 \<le> i" "i < l"
  shows "peek src i a' = peek src i a"
proof (cases src)
  case (In_vbuf k)
  then have "k + i < m" using assms(3,4,6) by (simp add: surf_ok_def)
  moreover have "untouched dst n (k + i)" using assms(1,5) In_vbuf by (auto simp: apart_def untouched_def)
  ultimately have "vbuf a' (k + i) = vbuf a (k + i)" using assms(2) unfolding only_def by blast
  then show ?thesis using In_vbuf by (simp add: peek_def)
qed (use assms(1,2) in \<open>auto simp: apart_def peek_def only_def\<close>)

section \<open>Drawing a canvas\<close>

definition in_box :: "int \<Rightarrow> int \<Rightarrow> gpu_canvas \<Rightarrow> bool" where
  "in_box W H cv \<longleftrightarrow> 0 \<le> cv_x1 cv \<and> 0 \<le> cv_y1 cv \<and> 0 \<le> cv_w1 cv \<and> 0 \<le> cv_h1 cv \<and>
     cv_x1 cv + cv_w1 cv \<le> W \<and> cv_y1 cv + cv_h1 cv \<le> H"

text \<open>No product overflows.\<close>

definition no_overflow :: "gpu_canvas \<Rightarrow> int \<Rightarrow> int \<Rightarrow> bool" where
  "no_overflow cv w h \<longleftrightarrow> cv_w1 cv * w \<le> 2 ^ 31 \<and> cv_h1 cv * h \<le> 2 ^ 31"

text \<open>The box of the canvas shows the source, scaled.\<close>

definition blit :: "gpu_canvas \<Rightarrow> int \<Rightarrow> int \<Rightarrow> image \<Rightarrow> image \<Rightarrow> image" where
  "blit cv w h src dst = (\<lambda>x y.
     if cv_x1 cv \<le> x \<and> x < cv_x1 cv + cv_w1 cv \<and> cv_y1 cv \<le> y \<and> y < cv_y1 cv + cv_h1 cv
     then src ((x - cv_x1 cv) * w div cv_w1 cv) ((y - cv_y1 cv) * h div cv_h1 cv) else dst x y)"

lemma row_inj:
  fixes W :: int
  assumes "0 \<le> x" "x < W" "0 \<le> x'" "x' < W"
  shows "W * y + x = W * y' + x' \<longleftrightarrow> x = x' \<and> y = y'"
proof
  assume "W * y + x = W * y' + x'"
  then have "(W * y + x) mod W = (W * y' + x') mod W" "(W * y + x) div W = (W * y' + x') div W" by simp_all
  then show "x = x' \<and> y = y'" using assms by simp
qed simp

lemma in_range: "0 \<le> (x :: int) \<Longrightarrow> x < W \<Longrightarrow> 0 \<le> y \<Longrightarrow> y < H \<Longrightarrow> 0 \<le> W * y + x \<and> W * y + x < W * H"
proof -
  assume a: "0 \<le> x" "x < W" "0 \<le> y" "y < H"
  have "W * y + x < W * (y + 1)" using a by (simp add: algebra_simps)
  also have "\<dots> \<le> W * H" using a by (intro mult_left_mono) auto
  finally show ?thesis using a by simp
qed

lemma scaled: "0 \<le> (i :: int) \<Longrightarrow> i < n \<Longrightarrow> 0 < w \<Longrightarrow> 0 \<le> i * w div n \<and> i * w div n < w"
proof -
  assume a: "0 \<le> i" "i < n" "0 < w"
  have "i * w < w * n" using a by (metis mult.commute mult_less_cancel_left_pos)
  have "i * w div n < w"
  proof (rule ccontr)
    assume "\<not> ?thesis"
    then have "w * n \<le> i * w div n * n" using a by (intro mult_right_mono) simp_all
    moreover have "i * w div n * n + i * w mod n = i * w" by (rule div_mult_mod_eq)
    moreover have "0 \<le> i * w mod n" using a by (intro pos_mod_sign) simp
    ultimately show False using \<open>i * w < w * n\<close> by linarith
  qed
  then show ?thesis using a by (simp add: pos_imp_zdiv_nonneg_iff)
qed

definition in_cells :: "gpu_canvas \<Rightarrow> int \<times> int \<Rightarrow> bool" where
  "in_cells cv c \<longleftrightarrow> 0 \<le> fst c \<and> fst c < cv_w1 cv \<and> 0 \<le> snd c \<and> snd c < cv_h1 cv"

definition texel :: "gpu_canvas \<Rightarrow> int \<Rightarrow> int \<Rightarrow> image \<Rightarrow> int \<times> int \<Rightarrow> pixel" where
  "texel cv w h src c = src (fst c * w div cv_w1 cv) (snd c * h div cv_h1 cv)"

lemma texel_apart:
  assumes "apart src px n" and "only m px n a a'" and "surf_ok src (w * h) a" "vbuf_head a \<le> 3 * m" and "0 < w" "0 < h" and "in_cells cv c"
  shows "texel cv w h (view src w a') c = texel cv w h (view src w a) c"
proof -
  have "0 \<le> fst c * w div cv_w1 cv \<and> fst c * w div cv_w1 cv < w" "0 \<le> snd c * h div cv_h1 cv \<and> snd c * h div cv_h1 cv < h"
    using assms(5-7) scaled by (simp_all add: in_cells_def)
  then have "0 \<le> w * (snd c * h div cv_h1 cv) + fst c * w div cv_w1 cv \<and> w * (snd c * h div cv_h1 cv) + fst c * w div cv_w1 cv < w * h"
    using in_range by blast
  then show ?thesis using peek_apart [OF assms(1-4)] by (simp add: texel_def view_def)
qed

lemma draw_cells_ok:
  assumes "in_box W H cv" and "0 < w" "0 < h" and "\<And>q. px \<noteq> In_vmem q" and "apart src px (W * H)"
    and "no_overflow cv w h" and "W * H \<le> 2 ^ 31"
  shows "\<lbrakk>surf_ok px (W * H) a; surf_ok src (w * h) a; head_ok a; vbuf_head a \<le> 3 * m; \<forall>c \<in> set cs. in_cells cv c\<rbrakk> \<Longrightarrow>
    \<exists>a'. draw_cells cs cv w h src W px a = Inr a' \<and> only m px (W * H) a a' \<and> vbuf_head a' = vbuf_head a \<and>
      (\<forall>x y. 0 \<le> x \<and> x < W \<and> 0 \<le> y \<and> y < H \<longrightarrow> view px W a' x y =
        (if (x - cv_x1 cv, y - cv_y1 cv) \<in> set cs then texel cv w h (view src w a) (x - cv_x1 cv, y - cv_y1 cv) else view px W a x y))"
proof (induction cs arbitrary: a)
  case (Cons c cs)
  obtain i j where c: "c = (i, j)" by (cases c)
  have ij: "0 \<le> i" "i < cv_w1 cv" "0 \<le> j" "j < cv_h1 cv" using Cons.prems(5) c by (simp_all add: in_cells_def)
  let ?x = "cv_x1 cv + i" and ?y = "cv_y1 cv + j"
  have xy: "0 \<le> ?x" "?x < W" "0 \<le> ?y" "?y < H" using assms(1) ij by (simp_all add: in_box_def)
  let ?t = "texel cv w h (view src w a) (i, j)"
  have "0 \<le> w * (j * h div cv_h1 cv) + i * w div cv_w1 cv \<and> w * (j * h div cv_h1 cv) + i * w div cv_w1 cv < w * h"
    using scaled [OF ij(1,2) assms(2)] scaled [OF ij(3,4) assms(3)] in_range by blast
  then have g: "get_px src (w * (j * h div cv_h1 cv) + i * w div cv_w1 cv) a = Inr ?t"
    using get_px_ok [OF Cons.prems(2,3)] by (simp add: texel_def view_def)
  have "i * w < cv_w1 cv * w" "j * h < cv_h1 cv * h" using ij assms(2,3) by simp_all
  then have nf: "j * h < 2 ^ 31" "i * w < 2 ^ 31" "W * ?y + ?x < 2 ^ 31"
    using assms(6,7) in_range [OF xy] unfolding no_overflow_def by linarith+
  obtain a1 where a1: "put_px px (W * ?y + ?x) ?t a = Inr a1" "only m px (W * H) a a1" "vbuf_head a1 = vbuf_head a"
    "\<forall>k. 0 \<le> k \<longrightarrow> peek px k a1 = (if k = W * ?y + ?x then ?t else peek px k a)"
    using put_px_ok [OF Cons.prems(1,3) _ _ assms(4), of "W * ?y + ?x" ?t m] in_range [OF xy] by blast
  have v1: "view px W a1 x y = (if x = ?x \<and> y = ?y then ?t else view px W a x y)" if "0 \<le> x" "x < W" "0 \<le> y" "y < H" for x y
  proof -
    have "0 \<le> W * y + x" "W * y + x = W * ?y + ?x \<longleftrightarrow> x = ?x \<and> y = ?y"
      using in_range [OF that] row_inj [OF that(1,2) xy(1,2)] by auto
    then show ?thesis using a1(4) by (simp add: view_def)
  qed
  have s1: "surf_ok px (W * H) a1" "surf_ok src (w * h) a1" "head_ok a1" "vbuf_head a1 \<le> 3 * m"
    using surf_ok_only [OF Cons.prems(1) a1(2)] surf_ok_only [OF Cons.prems(2) a1(2)] a1(3) Cons.prems(3,4) by (simp_all add: head_ok_def)
  obtain a2 where a2: "draw_cells cs cv w h src W px a1 = Inr a2" "only m px (W * H) a1 a2" "vbuf_head a2 = vbuf_head a1"
    "\<forall>x y. 0 \<le> x \<and> x < W \<and> 0 \<le> y \<and> y < H \<longrightarrow> view px W a2 x y =
        (if (x - cv_x1 cv, y - cv_y1 cv) \<in> set cs then texel cv w h (view src w a1) (x - cv_x1 cv, y - cv_y1 cv) else view px W a1 x y)"
    using Cons.IH [OF s1] Cons.prems(5) by auto
  have "view px W a2 x y = (if (x - cv_x1 cv, y - cv_y1 cv) \<in> set (c # cs) then
      texel cv w h (view src w a) (x - cv_x1 cv, y - cv_y1 cv) else view px W a x y)" if p: "0 \<le> x" "x < W" "0 \<le> y" "y < H" for x y
  proof (cases "(x - cv_x1 cv, y - cv_y1 cv) \<in> set cs")
    case True
    then have "in_cells cv (x - cv_x1 cv, y - cv_y1 cv)" using Cons.prems(5) by simp
    then have "texel cv w h (view src w a1) (x - cv_x1 cv, y - cv_y1 cv) = texel cv w h (view src w a) (x - cv_x1 cv, y - cv_y1 cv)"
      by (rule texel_apart [OF assms(5) a1(2) Cons.prems(2,4) assms(2,3)])
    then show ?thesis using a2(4) p True by simp
  next
    case False
    have "x = ?x \<and> y = ?y \<longleftrightarrow> (x - cv_x1 cv, y - cv_y1 cv) = c" by (auto simp: c)
    then show ?thesis using a2(4) p False v1 [OF p] by (auto simp: c)
  qed
  moreover have "only m px (W * H) a a2" using only_trans [OF a1(2) a2(2)] by simp
  moreover have "draw_cells (c # cs) cv w h src W px a = Inr a2" using g a1(1) a2(1) nf by (simp add: c)
  ultimately show ?case using a1(3) a2(3) by (intro exI [of _ a2]) simp
qed simp

lemma draw_canvas:
  assumes "in_box W H cv" and "0 < w" "0 < h" and "\<And>q. px \<noteq> In_vmem q" and "apart src px (W * H)"
    and "no_overflow cv w h" and "W * H \<le> 2 ^ 31" and "surf_ok px (W * H) a" "surf_ok src (w * h) a" "head_ok a" "vbuf_head a \<le> 3 * m"
  shows "\<exists>a'. draw_cells (cells cv) cv w h src W px a = Inr a' \<and> only m px (W * H) a a' \<and> vbuf_head a' = vbuf_head a \<and>
      (\<forall>x y. 0 \<le> x \<and> x < W \<and> 0 \<le> y \<and> y < H \<longrightarrow> view px W a' x y = blit cv w h (view src w a) (view px W a) x y)"
proof -
  have c: "c \<in> set (cells cv) \<longleftrightarrow> in_cells cv c" for c by (cases c) (auto simp: cells_def in_cells_def)
  then obtain a' where "draw_cells (cells cv) cv w h src W px a = Inr a'" "only m px (W * H) a a'" "vbuf_head a' = vbuf_head a"
    "\<forall>x y. 0 \<le> x \<and> x < W \<and> 0 \<le> y \<and> y < H \<longrightarrow> view px W a' x y =
        (if (x - cv_x1 cv, y - cv_y1 cv) \<in> set (cells cv) then texel cv w h (view src w a) (x - cv_x1 cv, y - cv_y1 cv) else view px W a x y)"
    using draw_cells_ok [OF assms(1-7) assms(8-11), of "cells cv"] by blast
  moreover have "(x - cv_x1 cv, y - cv_y1 cv) \<in> set (cells cv) \<longleftrightarrow>
      cv_x1 cv \<le> x \<and> x < cv_x1 cv + cv_w1 cv \<and> cv_y1 cv \<le> y \<and> y < cv_y1 cv + cv_h1 cv" for x y
    by (auto simp: c in_cells_def)
  ultimately show ?thesis by (intro exI [of _ a']) (simp add: blit_def texel_def)
qed

section \<open>Trees\<close>

datatype tree = Texture gpu_canvas int int image | Subtree gpu_canvas "tree list"

text \<open>What a tree looks like: children one over the other, on black.\<close>

fun paint :: "tree \<Rightarrow> image \<Rightarrow> image" where
  "paint (Texture cv w h tx) dst = blit cv w h tx dst"
| "paint (Subtree cv ts) dst = blit cv (cv_w cv) (cv_h cv) (fold paint ts (\<lambda>_ _. \<lparr>px_b = 0, px_g = 0, px_r = 0\<rparr>)) dst"

text \<open>The tree that lies in the video memory from a canvas on, and the list from a pointer on.\<close>

definition texture_at :: "accel \<Rightarrow> u32 \<Rightarrow> int \<Rightarrow> int \<Rightarrow> image \<Rightarrow> bool" where
  "texture_at a q w h tx \<longleftrightarrow> q \<noteq> AM_GPU_NULL \<and> uint q + 3 * (w * h) \<le> VMEM_SIZE \<and>
     (\<forall>x y. 0 \<le> x \<and> x < w \<and> 0 \<le> y \<and> y < h \<longrightarrow> view (In_vmem (uint q)) w a x y = tx x y)"

fun holds :: "accel \<Rightarrow> int \<Rightarrow> tree \<Rightarrow> bool"
  and holds_list :: "accel \<Rightarrow> int option \<Rightarrow> tree list \<Rightarrow> bool" where
  "holds a p (Texture cv w h tx) \<longleftrightarrow> rd_canvas a p = Inr cv \<and> cv_type cv = AM_GPU_TEXTURE \<and>
     (\<exists>q. rd_texture a p = Inr (w, h, q) \<and> texture_at a q w h tx)"
| "holds a p (Subtree cv ts) \<longleftrightarrow> rd_canvas a p = Inr cv \<and> cv_type cv = AM_GPU_SUBTREE \<and>
     (\<exists>c. rd_child a p = Inr c \<and> holds_list a (to_host c) ts)"
| "holds_list a q [] \<longleftrightarrow> q = None"
| "holds_list a q (t # ts) \<longleftrightarrow> (\<exists>p s. q = Some p \<and> holds a p t \<and> rd_sibling a p = Inr s \<and> holds_list a (to_host s) ts)"

text \<open>Boxes lie inside of their parent, and canvases have pixels.\<close>

fun fits :: "int \<Rightarrow> int \<Rightarrow> tree \<Rightarrow> bool" where
  "fits W H (Texture cv w h tx) \<longleftrightarrow> in_box W H cv \<and> no_overflow cv w h \<and> 0 < w \<and> 0 < h"
| "fits W H (Subtree cv ts) \<longleftrightarrow> in_box W H cv \<and> no_overflow cv (cv_w cv) (cv_h cv) \<and> 0 < cv_w cv \<and> 0 < cv_h cv \<and> (\<forall>t \<in> set ts. fits (cv_w cv) (cv_h cv) t)"

text \<open>The pixels that are put together in \<open>vbuf\<close>, all canvases with children at once.\<close>

fun need :: "tree \<Rightarrow> int" where
  "need (Texture cv w h tx) = 0"
| "need (Subtree cv ts) = cv_w cv * cv_h cv + sum_list (List.map need ts)"

lemma need_nonneg: "fits W H t \<Longrightarrow> 0 \<le> need t"
  by (induction W H t rule: fits.induct) (auto intro!: add_nonneg_nonneg sum_list_nonneg)

lemma rd_frame:
  assumes "vmem a' = vmem a"
  shows "rd_canvas a' p = rd_canvas a p" "rd_texture a' p = rd_texture a p" "rd_child a' p = rd_child a p" "rd_sibling a' p = rd_sibling a p"
    "view (In_vmem q) w a' = view (In_vmem q) w a"
  using assms by (simp_all add: rd_canvas_def rd_texture_def rd_child_def rd_sibling_def rd16_def rd32_def view_def peek_def fun_eq_iff)

lemma holds_frame:
  "vmem a' = vmem a \<Longrightarrow> holds a' p t = holds a p t"
  "vmem a' = vmem a \<Longrightarrow> holds_list a' q ts = holds_list a q ts"
proof (induction a p t and a q ts rule: holds_holds_list.induct)
  case (1 a p cv w h tx)
  then show ?case by (simp add: rd_frame [of a' a] texture_at_def)
next
  case (2 a p cv ts)
  then show ?case by (simp add: rd_frame [of a' a])
next
  case (4 a q t ts)
  then show ?case by (simp add: rd_frame [of a' a])
qed simp

text \<open>Inside of a box only the source's own pixels count.\<close>

lemma blit_cong:
  assumes "in_box W H cv" and "0 < w" "0 < h" and "\<And>x y. 0 \<le> x \<Longrightarrow> x < w \<Longrightarrow> 0 \<le> y \<Longrightarrow> y < h \<Longrightarrow> src x y = src' x y"
    and "dst x y = dst' x y"
  shows "blit cv w h src dst x y = blit cv w h src' dst' x y"
  using assms(4) [of "(x - cv_x1 cv) * w div cv_w1 cv" "(y - cv_y1 cv) * h div cv_h1 cv"]
    scaled [of "x - cv_x1 cv" "cv_w1 cv" w] scaled [of "y - cv_y1 cv" "cv_h1 cv" h] assms(2,3,5)
  by (auto simp: blit_def)

definition agree :: "int \<Rightarrow> int \<Rightarrow> image \<Rightarrow> image \<Rightarrow> bool" where
  "agree W H f g \<longleftrightarrow> (\<forall>x y. 0 \<le> x \<and> x < W \<and> 0 \<le> y \<and> y < H \<longrightarrow> f x y = g x y)"

lemma agree_paint: "fits W H t \<Longrightarrow> agree W H f g \<Longrightarrow> agree W H (paint t f) (paint t g)"
  by (cases t) (auto simp: agree_def intro: blit_cong)

lemma agree_fold: "\<forall>t \<in> set ts. fits W H t \<Longrightarrow> agree W H f g \<Longrightarrow> agree W H (fold paint ts f) (fold paint ts g)"
  by (induction ts arbitrary: f g) (auto intro: agree_paint)

lemma agree_trans: "agree W H f g \<Longrightarrow> agree W H g h \<Longrightarrow> agree W H f h"
  by (simp add: agree_def)

section \<open>Allocation\<close>

lemma vbuf_alloc_ok:
  assumes "head_ok a" and "0 < w" "0 < h" "vbuf_head a + 3 * (w * h) \<le> VMEM_SIZE"
  shows "\<exists>k a'. vbuf_alloc (w * h * 3) a = Inr (k, a') \<and> vbuf_head a' = vbuf_head a + 3 * (w * h) \<and> head_ok a' \<and> vbuf_head a = 3 * k \<and>
    surf_ok (In_vbuf k) (w * h) a' \<and> agree w h (view (In_vbuf k) w a') (\<lambda>_ _. \<lparr>px_b = 0, px_g = 0, px_r = 0\<rparr>) \<and>
    vmem a' = vmem a \<and> gpu a' = gpu a \<and> (\<forall>i < k. vbuf a' i = vbuf a i)"
proof -
  obtain k where k: "vbuf_head a = 3 * k" using assms(1) by (auto simp: head_ok_def)
  have k0: "0 \<le> k" using assms(1) k by (simp add: head_ok_def)
  have pos: "0 < w * h" using assms(2,3) by simp
  have d: "(3 * k + w * h * 3) div 3 = k + w * h" by simp
  let ?a = "a\<lparr>vbuf_head := 3 * k + w * h * 3, vbuf := (\<lambda>i. if k \<le> i \<and> i < k + w * h then \<lparr>px_b = 0, px_g = 0, px_r = 0\<rparr> else vbuf a i)\<rparr>"
  have "vbuf_alloc (w * h * 3) a = Inr (k, ?a)"
    using assms(4) k k0 d by (simp add: vbuf_alloc_def VMEM_SIZE_def Let_def)
  moreover have "agree w h (view (In_vbuf k) w ?a) (\<lambda>_ _. \<lparr>px_b = 0, px_g = 0, px_r = 0\<rparr>)"
    using in_range [of _ w _ h] by (auto simp: agree_def view_def peek_def)
  moreover have "head_ok ?a" using assms(4) k k0 pos by (simp add: head_ok_def)
  ultimately show ?thesis using k k0 by (intro exI [of _ k] exI [of _ ?a]) (simp add: surf_ok_def)
qed

section \<open>The renderer paints the tree\<close>

lemma render_siblings:
  "render True p W px a = res_then (render False p W px a) (\<lambda>a. res_then (Some (rd_sibling a p)) (\<lambda>sib.
     case to_host sib of None \<Rightarrow> Some (Inr a) | Some s \<Rightarrow> render True s W px a))"
  by (subst (1 2) render.simps) (auto split: sum.splits option.splits bind_splits)

text \<open>\<open>a'\<close> is \<open>a\<close> with \<open>f\<close> in place of the \<open>W\<close> by \<open>H\<close> pixels of \<open>px\<close>, and \<open>n\<close> pixels more of \<open>vbuf\<close> given out.\<close>

definition drew :: "surf \<Rightarrow> int \<Rightarrow> int \<Rightarrow> int \<Rightarrow> image \<Rightarrow> accel \<Rightarrow> accel \<Rightarrow> bool" where
  "drew px W H n f a a' \<longleftrightarrow> only (vbuf_head a div 3) px (W * H) a a' \<and> vbuf_head a' = vbuf_head a + 3 * n \<and> head_ok a' \<and>
     agree W H (view px W a') f"

definition ready :: "surf \<Rightarrow> int \<Rightarrow> int \<Rightarrow> int \<Rightarrow> accel \<Rightarrow> bool" where
  "ready px W H n a \<longleftrightarrow> (\<forall>q. px \<noteq> In_vmem q) \<and> W * H \<le> 2 ^ 31 \<and> surf_ok px (W * H) a \<and> head_ok a \<and> vbuf_head a + 3 * n \<le> VMEM_SIZE"

definition draws :: "tree \<Rightarrow> bool" where
  "draws t \<longleftrightarrow> (\<forall>a p W H px. holds a p t \<and> fits W H t \<and> ready px W H (need t) a \<longrightarrow>
     (\<exists>a'. render False p W px a = Some (Inr a') \<and> drew px W H (need t) (paint t (view px W a)) a a'))"

lemma drawsD: "draws t \<Longrightarrow> holds a p t \<Longrightarrow> fits W H t \<Longrightarrow> ready px W H (need t) a \<Longrightarrow>
    \<exists>a'. render False p W px a = Some (Inr a') \<and> drew px W H (need t) (paint t (view px W a)) a a'"
  unfolding draws_def by blast

lemma ready_only:
  assumes "ready px W H (n + n') a" and "drew px W H n f a a'" and "0 \<le> n"
  shows "ready px W H n' a'"
proof -
  have "3 dvd vbuf_head a" "3 dvd vbuf_head a'" using assms by (simp_all add: ready_def drew_def head_ok_def)
  then show ?thesis using assms unfolding ready_def drew_def
    by (cases px) (auto simp: surf_ok_def only_def head_ok_def)
qed

lemma drew_trans:
  assumes "drew px W H n f a b" and "drew px W H n' g b c" and "0 \<le> n"
  shows "drew px W H (n + n') g a c"
proof -
  have "vbuf_head a div 3 \<le> vbuf_head b div 3" using assms(1,3) by (intro zdiv_mono1) (simp_all add: drew_def)
  then show ?thesis using assms only_trans unfolding drew_def by (auto simp: algebra_simps)
qed

lemma render_list_ok:
  assumes "\<forall>t \<in> set ts. draws t"
  shows "holds_list a q ts \<Longrightarrow> \<forall>t \<in> set ts. fits W H t \<Longrightarrow> ready px W H (sum_list (List.map need ts)) a \<Longrightarrow>
    \<exists>a'. (case q of None \<Rightarrow> Some (Inr a) | Some p \<Rightarrow> render True p W px a) = Some (Inr a') \<and>
      drew px W H (sum_list (List.map need ts)) (fold paint ts (view px W a)) a a'"
  using assms
proof (induction ts arbitrary: a q)
  case Nil
  then show ?case by (simp add: drew_def ready_def agree_def)
next
  case (Cons t ts)
  obtain p s where p: "q = Some p" "holds a p t" "rd_sibling a p = Inr s" "holds_list a (to_host s) ts" using Cons.prems(1) by auto
  let ?n = "sum_list (List.map need ts)"
  have f: "fits W H t" "\<forall>t \<in> set ts. fits W H t" using Cons.prems(2) by simp_all
  then have nn: "0 \<le> need t" "0 \<le> ?n" by (auto intro!: sum_list_nonneg need_nonneg [of W H])
  have "ready px W H (need t) a" using Cons.prems(3) nn by (simp add: ready_def)
  then obtain a1 where a1: "render False p W px a = Some (Inr a1)" "drew px W H (need t) (paint t (view px W a)) a a1"
    using drawsD [OF _ p(2) f(1)] Cons.prems(4) by auto
  have v: "vmem a1 = vmem a" using a1(2) by (simp add: drew_def only_def)
  have "ready px W H (need t + ?n) a" using Cons.prems(3) by simp
  then have "ready px W H ?n a1" using ready_only a1(2) nn(1) by blast
  moreover have "holds_list a1 (to_host s) ts" using p(4) holds_frame(2) [OF v] by simp
  ultimately obtain a2 where a2: "(case to_host s of None \<Rightarrow> Some (Inr a1) | Some p \<Rightarrow> render True p W px a1) = Some (Inr a2)"
    "drew px W H ?n (fold paint ts (view px W a1)) a1 a2"
    using Cons.IH [of a1 "to_host s"] f(2) Cons.prems(4) by auto
  have "agree W H (fold paint ts (view px W a1)) (fold paint ts (paint t (view px W a)))"
    using a1(2) f(2) by (intro agree_fold) (simp_all add: drew_def)
  then have "drew px W H ?n (fold paint ts (paint t (view px W a))) a1 a2"
    using a2(2) agree_trans unfolding drew_def by blast
  then have "drew px W H (need t + ?n) (fold paint ts (paint t (view px W a))) a a2" using drew_trans a1(2) nn(1) by blast
  moreover have "render True p W px a = Some (Inr a2)"
    using a1(1) a2(1) p(3) rd_frame(4) [OF v] by (subst render_siblings) simp
  ultimately show ?case using p(1) by simp
qed

text \<open>Nothing changed below \<open>k\<close> pixels of \<open>vbuf\<close>.\<close>

definition below :: "int \<Rightarrow> accel \<Rightarrow> accel \<Rightarrow> bool" where
  "below k a a' \<longleftrightarrow> vmem a' = vmem a \<and> gpu a' = gpu a \<and> (\<forall>i < k. vbuf a' i = vbuf a i)"

lemma below_only: "below k a a' \<Longrightarrow> only k px n a a'"
  by (simp add: below_def only_def)

lemma below_agree:
  assumes "below k a a'" and "surf_ok px (W * H) a" "vbuf_head a \<le> 3 * k"
  shows "agree W H (view px W a') (view px W a)"
proof -
  have "peek px (W * y + x) a' = peek px (W * y + x) a" if "0 \<le> x" "x < W" "0 \<le> y" "y < H" for x y
    using in_range [OF that] assms by (cases px) (auto simp: below_def surf_ok_def peek_def)
  then show ?thesis by (simp add: agree_def view_def)
qed

lemma texture_draws: "draws (Texture cv w h tx)"
  unfolding draws_def
proof (intro allI impI, elim conjE)
  fix a p W H px
  assume h: "holds a p (Texture cv w h tx)" and f: "fits W H (Texture cv w h tx)" and r: "ready px W H (need (Texture cv w h tx)) a"
  obtain q where q: "rd_texture a p = Inr (w, h, q)" "texture_at a q w h tx" using h by auto
  have box: "in_box W H cv" "0 < w" "0 < h" and nf: "no_overflow cv w h" "W * H \<le> 2 ^ 31" using f r by (simp_all add: ready_def)
  have s: "surf_ok (In_vmem (uint q)) (w * h) a" using q(2) by (simp add: surf_ok_def texture_at_def)
  have px: "\<And>q. px \<noteq> In_vmem q" "surf_ok px (W * H) a" "head_ok a" "vbuf_head a \<le> 3 * (vbuf_head a div 3)"
    using r by (auto simp: ready_def head_ok_def)
  obtain a' where a': "draw_cells (cells cv) cv w h (In_vmem (uint q)) W px a = Inr a'" "only (vbuf_head a div 3) px (W * H) a a'"
    "vbuf_head a' = vbuf_head a" "agree W H (view px W a') (blit cv w h (view (In_vmem (uint q)) w a) (view px W a))"
    using draw_canvas [OF box px(1) _ nf px(2) s px(3,4)] by (auto simp: apart_def agree_def)
  have "render False p W px a = Some (Inr a')"
    using h q a'(1) by (subst render.simps) (simp add: to_host_def texture_at_def)
  moreover have "agree W H (blit cv w h (view (In_vmem (uint q)) w a) (view px W a)) (blit cv w h tx (view px W a))"
    using q(2) box by (auto simp: agree_def texture_at_def intro: blit_cong)
  then have "agree W H (view px W a') (paint (Texture cv w h tx) (view px W a))" using agree_trans a'(4) by auto
  ultimately show "\<exists>a'. render False p W px a = Some (Inr a') \<and>
      drew px W H (need (Texture cv w h tx)) (paint (Texture cv w h tx) (view px W a)) a a'"
    using a'(2,3) px(3) by (intro exI [of _ a']) (simp add: drew_def head_ok_def)
qed

lemma subtree_draws:
  assumes "\<forall>t \<in> set ts. draws t"
  shows "draws (Subtree cv ts)"
  unfolding draws_def
proof (intro allI impI, elim conjE)
  fix a p W H px
  assume h: "holds a p (Subtree cv ts)" and f: "fits W H (Subtree cv ts)" and r: "ready px W H (need (Subtree cv ts)) a"
  let ?w = "cv_w cv" and ?h = "cv_h cv" and ?n = "sum_list (List.map need ts)"
  obtain c where c: "rd_canvas a p = Inr cv" "cv_type cv = AM_GPU_SUBTREE" "rd_child a p = Inr c" "holds_list a (to_host c) ts" using h by auto
  have box: "in_box W H cv" "0 < ?w" "0 < ?h" and nf: "no_overflow cv ?w ?h" "W * H \<le> 2 ^ 31" and ch: "\<forall>t \<in> set ts. fits ?w ?h t" using f r by (simp_all add: ready_def)
  have nn: "0 \<le> ?n" using ch by (auto intro!: sum_list_nonneg need_nonneg [of ?w ?h])
  have px: "\<And>q. px \<noteq> In_vmem q" "surf_ok px (W * H) a" "head_ok a" using r by (auto simp: ready_def)
  have room: "vbuf_head a + 3 * (?w * ?h) + 3 * ?n \<le> VMEM_SIZE" using r by (simp add: ready_def algebra_simps)
  obtain k a1 where a1: "vbuf_alloc (?w * ?h * 3) a = Inr (k, a1)" "vbuf_head a1 = vbuf_head a + 3 * (?w * ?h)" "head_ok a1" "vbuf_head a = 3 * k"
    "surf_ok (In_vbuf k) (?w * ?h) a1" "agree ?w ?h (view (In_vbuf k) ?w a1) (\<lambda>_ _. \<lparr>px_b = 0, px_g = 0, px_r = 0\<rparr>)"
    "vmem a1 = vmem a" "gpu a1 = gpu a" "\<forall>i < k. vbuf a1 i = vbuf a i"
    using vbuf_alloc_ok [OF px(3) box(2,3)] room nn by auto
  have "?w * ?h \<le> 2 ^ 31" using room nn px(3) by (simp add: head_ok_def VMEM_SIZE_def)
  then have "ready (In_vbuf k) ?w ?h ?n a1" using a1(2,3,5) room by (simp add: ready_def)
  moreover have "holds_list a1 (to_host c) ts" using c(4) holds_frame(2) [OF a1(7)] by simp
  ultimately obtain a2 where a2: "(case to_host c of None \<Rightarrow> Some (Inr a1) | Some q \<Rightarrow> render True q ?w (In_vbuf k) a1) = Some (Inr a2)"
    "drew (In_vbuf k) ?w ?h ?n (fold paint ts (view (In_vbuf k) ?w a1)) a1 a2"
    using render_list_ok [OF assms, of a1 "to_host c" ?w ?h "In_vbuf k"] ch by blast
  have o2: "only (k + ?w * ?h) (In_vbuf k) (?w * ?h) a1 a2" using a2(2) a1(2,4) by (simp add: drew_def)
  have "0 < ?w * ?h" using box(2,3) by simp
  then have b: "below k a a2" using o2 a1(7-9) by (auto simp: below_def only_def untouched_def)
  have h2: "vbuf_head a2 = vbuf_head a + 3 * (?w * ?h + ?n)" "head_ok a2" using a2(2) a1(2) by (simp_all add: drew_def)
  have img: "agree ?w ?h (view (In_vbuf k) ?w a2) (fold paint ts (\<lambda>_ _. \<lparr>px_b = 0, px_g = 0, px_r = 0\<rparr>))"
    using a2(2) agree_fold [OF ch a1(6)] agree_trans unfolding drew_def by blast
  have s2: "surf_ok px (W * H) a2" "surf_ok (In_vbuf k) (?w * ?h) a2"
    using surf_ok_only [OF px(2) below_only [OF b]] surf_ok_only [OF a1(5) o2] h2(1) a1(2) nn \<open>0 < ?w * ?h\<close> by simp_all
  have "apart (In_vbuf k) px (W * H)" using px(2) a1(4) by (auto simp: apart_def surf_ok_def)
  moreover have m: "vbuf_head a2 \<le> 3 * (k + ?w * ?h + ?n)" using h2(1) a1(4) by simp
  ultimately obtain a3 where a3: "draw_cells (cells cv) cv ?w ?h (In_vbuf k) W px a2 = Inr a3"
    "only (k + ?w * ?h + ?n) px (W * H) a2 a3" "vbuf_head a3 = vbuf_head a2"
    "agree W H (view px W a3) (blit cv ?w ?h (view (In_vbuf k) ?w a2) (view px W a2))"
    using draw_canvas [OF box px(1) _ nf s2 h2(2) m] by (auto simp: agree_def)
  have "agree W H (view px W a2) (view px W a)" using below_agree [OF b px(2)] a1(4) by simp
  then have "agree W H (blit cv ?w ?h (view (In_vbuf k) ?w a2) (view px W a2)) (paint (Subtree cv ts) (view px W a))"
    using img box by (auto simp: agree_def intro: blit_cong)
  then have "agree W H (view px W a3) (paint (Subtree cv ts) (view px W a))" using a3(4) agree_trans by blast
  moreover have "only k px (W * H) a a3" using only_trans [OF below_only [OF b] a3(2)] nn \<open>0 < ?w * ?h\<close> by simp
  moreover have "vbuf_head a div 3 = k" using a1(4) by simp
  ultimately have "drew px W H (need (Subtree cv ts)) (paint (Subtree cv ts) (view px W a)) a a3"
    using a3(3) h2 by (simp add: drew_def head_ok_def)
  moreover have "render False p W px a = Some (Inr a3)"
    using c(1-3) a1(1) a2(1) a3(1) rd_frame(3) [OF a1(7)] by (subst render.simps) (simp add: AM_GPU_SUBTREE_def AM_GPU_TEXTURE_def)
  ultimately show "\<exists>a'. render False p W px a = Some (Inr a') \<and>
      drew px W H (need (Subtree cv ts)) (paint (Subtree cv ts) (view px W a)) a a'" by blast
qed

lemma draws_all: "draws t"
  by (induction t) (auto intro: texture_draws subtree_draws)

text \<open>
  C17: Accelerated drawing. Where the video memory holds a tree of canvases, each in a box of its parent, whose inner nodes have
  together no more pixels than fit into the buffer, rendering it ends without a fault, and the screen
  shows the tree: every texture and every put-together node scaled to its box, later siblings over earlier ones, and what was
  on the screen where no box is. The video memory stays as it was.
\<close>

theorem gpu_render_paints:
  assumes "gpu_ok (gpu a)" and "root \<noteq> AM_GPU_NULL" and "holds a (uint root) t" and "fits (disp_w (gpu a)) (disp_h (gpu a)) t"
    and "3 * need t \<le> VMEM_SIZE" and "disp_w (gpu a) * disp_h (gpu a) \<le> 2 ^ 31"
  shows "\<exists>a'. gpu_render root a = Some (Inr a') \<and> gpu_ok (gpu a') \<and> vmem a' = vmem a \<and>
    agree (disp_w (gpu a)) (disp_h (gpu a)) (screen (gpu a')) (paint t (screen (gpu a)))"
proof -
  let ?a = "a\<lparr>vbuf_head := 0\<rparr>" and ?W = "disp_w (gpu a)" and ?H = "disp_h (gpu a)"
  have v: "view In_fb (disp_w (gpu b)) b = screen (gpu b)" for b
    by (simp add: view_def peek_def screen_def fun_eq_iff add.commute mult.commute)
  have "ready In_fb ?W ?H (need t) ?a" using assms(1,5,6) by (simp add: ready_def surf_ok_def head_ok_def gpu_ok_def VMEM_SIZE_def)
  moreover have "holds ?a (uint root) t" using assms(3) holds_frame(1) [of ?a a] by simp
  ultimately obtain a' where a': "render False (uint root) ?W In_fb ?a = Some (Inr a')"
    "drew In_fb ?W ?H (need t) (paint t (view In_fb ?W ?a)) ?a a'"
    using drawsD [OF draws_all _ assms(4)] by blast
  have w: "disp_w (gpu a') = ?W" "disp_h (gpu a') = ?H" "length (disp_fb (gpu a')) = length (disp_fb (gpu a))" "vmem a' = vmem a"
    using a'(2) by (simp_all add: drew_def only_def)
  have "agree ?W ?H (screen (gpu a')) (paint t (screen (gpu a)))"
    using a'(2) v [of a'] v [of ?a] w(1) by (simp add: drew_def)
  then show ?thesis using a'(1) w assms(1,2) by (intro exI [of _ a']) (simp add: gpu_render_def to_host_def gpu_ok_def)
qed

text \<open>A screen of two by two; the root has one child, a texture of one pixel that fills the right half.\<close>

definition sim_bytes :: "u8 list" where
  "sim_bytes = [2, 0, 2, 0, 2, 0, 0, 0, 0, 0, 2, 0, 2, 0, 255, 255, 255, 255, 32, 0, 0, 0, 0, 0, 0, 0, 0, 0, 0, 0, 0, 0,
     1, 0, 0, 0, 0, 0, 1, 0, 0, 0, 1, 0, 2, 0, 255, 255, 255, 255, 1, 0, 1, 0, 64, 0, 0, 0, 0, 0, 0, 0, 0, 0, 10, 20, 30]"

definition sim_accel :: accel where
  "sim_accel = \<lparr>vmem = (\<lambda>i. if 0 \<le> i \<and> i < 67 then sim_bytes ! nat i else 0), vbuf = (\<lambda>_. \<lparr>px_b = 7, px_g = 7, px_r = 7\<rparr>), vbuf_head = 99,
     gpu = \<lparr>disp_w = 2, disp_h = 2, disp_fb = replicate 4 \<lparr>px_b = 255, px_g = 255, px_r = 255\<rparr>\<rparr>\<rparr>"

definition sim_tree :: tree where
  "sim_tree = Subtree \<lparr>cv_type = 2, cv_w = 2, cv_h = 2, cv_x1 = 0, cv_y1 = 0, cv_w1 = 2, cv_h1 = 2\<rparr>
     [Texture \<lparr>cv_type = 1, cv_w = 0, cv_h = 0, cv_x1 = 1, cv_y1 = 0, cv_w1 = 1, cv_h1 = 2\<rparr> 1 1 (\<lambda>_ _. \<lparr>px_b = 10, px_g = 20, px_r = 30\<rparr>)]"

lemma unit_square: "(\<forall>x y. 0 \<le> x \<and> x < (1 :: int) \<and> 0 \<le> y \<and> y < (1 :: int) \<longrightarrow> P x y) \<longleftrightarrow> P 0 0"
proof -
  have "0 \<le> x \<and> x < 1 \<longleftrightarrow> x = 0" for x :: int by auto
  then show ?thesis by (metis order_refl)
qed

lemma gpu_render_paints_witness:
  "\<exists>a'. gpu_render 0 sim_accel = Some (Inr a') \<and> screen (gpu a') 0 0 = \<lparr>px_b = 0, px_g = 0, px_r = 0\<rparr> \<and>
    screen (gpu a') 1 1 = \<lparr>px_b = 10, px_g = 20, px_r = 30\<rparr>"
proof -
  have "gpu_ok (gpu sim_accel)" by (simp add: gpu_ok_def sim_accel_def)
  moreover have "(0 :: u32) \<noteq> AM_GPU_NULL" by (simp add: AM_GPU_NULL_def)
  moreover have "holds sim_accel (uint (0 :: u32)) sim_tree"
    by (simp add: sim_tree_def sim_accel_def sim_bytes_def rd_canvas_def rd16_def rd_child_def rd32_def VMEM_SIZE_def of_le16_def of_le32_def
      AM_GPU_SUBTREE_def AM_GPU_TEXTURE_def to_host_def AM_GPU_NULL_def rd_sibling_def rd_texture_def texture_at_def view_def peek_def unit_square)
  moreover have "fits (disp_w (gpu sim_accel)) (disp_h (gpu sim_accel)) sim_tree" by (simp add: sim_tree_def sim_accel_def in_box_def no_overflow_def)
  moreover have "3 * need sim_tree \<le> VMEM_SIZE" by (simp add: sim_tree_def VMEM_SIZE_def)
  moreover have "disp_w (gpu sim_accel) * disp_h (gpu sim_accel) \<le> 2 ^ 31" by (simp add: sim_accel_def)
  ultimately obtain a' where a': "gpu_render 0 sim_accel = Some (Inr a')"
    "agree (disp_w (gpu sim_accel)) (disp_h (gpu sim_accel)) (screen (gpu a')) (paint sim_tree (screen (gpu sim_accel)))"
    using gpu_render_paints by blast
  have d: "disp_w (gpu sim_accel) = 2" "disp_h (gpu sim_accel) = 2" by (simp_all add: sim_accel_def)
  have "screen (gpu a') 0 0 = paint sim_tree (screen (gpu sim_accel)) 0 0" "screen (gpu a') 1 1 = paint sim_tree (screen (gpu sim_accel)) 1 1"
    using a'(2) unfolding agree_def d by simp_all
  then show ?thesis using a'(1) by (simp add: sim_tree_def blit_def)
qed

end
