(* ===== verification/Boot_Qemu.thy ===== *)
theory Boot_Qemu
  imports Disk_Ata
begin

text \<open>
  The boot loader of the qemu platform, \<open>am/src/x86/qemu/boot/main.c\<close>: 32-bit code that reads the
  arguments and the ELF image of the kernel from the ATA drive into memory and jumps to its entry. Memory is a
  byte for each 32-bit address; \<open>None\<close> is a run that does not end (a drive that stays busy, a
  copy whose end lies in the last sector of the address space). The offsets of the header fields are those of
  \<open>elf.h\<close>.
\<close>

unbundle bit_operations_syntax

section \<open>Memory\<close>

type_synonym ram = "u32 \<Rightarrow> u8"

definition ram16 :: "ram \<Rightarrow> u32 \<Rightarrow> u16" where
  "ram16 m a = of_le16 [m a, m (a + 1)]"

definition ram32 :: "ram \<Rightarrow> u32 \<Rightarrow> u32" where
  "ram32 m a = of_le32 [m a, m (a + 1), m (a + 2), m (a + 3)]"

definition ram64 :: "ram \<Rightarrow> u32 \<Rightarrow> u64" where
  "ram64 m a = ucast (ram32 m a) OR push_bit 32 (ucast (ram32 m (a + 4)))"

definition store32 :: "ram \<Rightarrow> u32 \<Rightarrow> u32 \<Rightarrow> ram" where
  "store32 m a w = m(a := ucast w, a + 1 := ucast (drop_bit 8 w), a + 2 := ucast (drop_bit 16 w), a + 3 := ucast (drop_bit 24 w))"

section \<open>The loader\<close>

definition SECTSIZE :: u32 where "SECTSIZE = 512"
definition ARGSIZE :: u32 where "ARGSIZE = 1024"
definition BOOTREC_ADDR :: u32 where "BOOTREC_ADDR = 0x07000"
definition MAINARG_ADDR :: u32 where "MAINARG_ADDR = 0x10000"
definition EM_X86_64 :: u16 where "EM_X86_64 = 62"

primrec inl_words :: "'h port_io \<Rightarrow> nat \<Rightarrow> u32 \<Rightarrow> ram \<Rightarrow> 'h \<Rightarrow> ram \<times> 'h" where
  "inl_words P 0 buf m h = (m, h)"
| "inl_words P (Suc i) buf m h = (let (w, h) = inl P 0x1f0 h in inl_words P i (buf + 4) (store32 m buf w) h)"

definition read_disk :: "'h port_io \<Rightarrow> u32 \<Rightarrow> u32 \<Rightarrow> ram \<Rightarrow> 'h \<Rightarrow> (ram \<times> 'h) option" where
  "read_disk P buf sect m h = Option.bind (wait_disk P h) (\<lambda>h.
     let h = outb P 0x1f2 1 h;
         h = outb P 0x1f3 (ucast sect) h;
         h = outb P 0x1f4 (ucast (drop_bit 8 sect)) h;
         h = outb P 0x1f5 (ucast (drop_bit 16 sect)) h;
         h = outb P 0x1f6 (ucast (drop_bit 24 sect OR 0xE0)) h;
         h = outb P 0x1f7 0x20 h
     in Option.bind (wait_disk P h) (\<lambda>h. Some (inl_words P (unat (SECTSIZE div 4)) buf m h)))"

text \<open>The loop reads whole sectors from the one that holds the first byte on.\<close>

partial_function (option) copy_loop :: "'h port_io \<Rightarrow> u32 \<Rightarrow> u32 \<Rightarrow> u32 \<Rightarrow> ram \<Rightarrow> 'h \<Rightarrow> (ram \<times> 'h) option" where
  "copy_loop P ed cur sect m h =
     (if cur < ed then Option.bind (read_disk P cur sect m h) (\<lambda>(m, h). copy_loop P ed (cur + SECTSIZE) (sect + 1) m h)
      else Some (m, h))"

text \<open>\<open>nbytes\<close> and \<open>disk_offset\<close> are of the type \<open>int\<close>; the division rounds towards zero.\<close>

definition copy_from_disk :: "'h port_io \<Rightarrow> u32 \<Rightarrow> u32 \<Rightarrow> u32 \<Rightarrow> ram \<Rightarrow> 'h \<Rightarrow> (ram \<times> 'h) option" where
  "copy_from_disk P buf nbytes disk_offset m h =
     (let cur = buf AND NOT (SECTSIZE - 1);
          ed = buf + nbytes;
          sect = word_of_int (sint disk_offset sdiv 512) + ARGSIZE div SECTSIZE + 1
      in copy_loop P ed cur sect m h)"

function bss_loop :: "u32 \<Rightarrow> u32 \<Rightarrow> u32 \<Rightarrow> ram \<Rightarrow> ram" where
  "bss_loop memsz i bss m = (if i = memsz then m else bss_loop memsz (i + 1) (bss + 1) (m(bss := 0)))"
  by pat_completeness auto
termination
proof (relation "measure (\<lambda>(memsz, i, bss, m). unat (memsz - i))")
  fix memsz i bss :: u32 and m :: ram
  assume "i \<noteq> memsz"
  then have "memsz - i \<noteq> 0" by simp
  then have "unat (memsz - i - 1) < unat (memsz - i)" by (simp add: unat_minus_one unat_gt_0)
  moreover have "memsz - (i + 1) = memsz - i - 1" by simp
  ultimately have "unat (memsz - (i + 1)) < unat (memsz - i)" by (simp only:)
  then show "((memsz, i + 1, bss + 1, m(bss := 0)), memsz, i, bss, m) \<in> measure (\<lambda>(memsz, i, bss, m). unat (memsz - i))"
    by simp
qed simp

declare bss_loop.simps [simp del]

definition load_program :: "'h port_io \<Rightarrow> u32 \<Rightarrow> u32 \<Rightarrow> u32 \<Rightarrow> u32 \<Rightarrow> ram \<Rightarrow> 'h \<Rightarrow> (ram \<times> 'h) option" where
  "load_program P filesz memsz paddr offset m h =
     Option.bind (copy_from_disk P paddr filesz offset m h) (\<lambda>(m, h). Some (bss_loop memsz filesz (paddr + filesz) m, h))"

text \<open>The loops read the headers in memory, and the number of segments before every one.\<close>

partial_function (option) load_elf64_loop :: "'h port_io \<Rightarrow> u32 \<Rightarrow> u32 \<Rightarrow> nat \<Rightarrow> ram \<Rightarrow> 'h \<Rightarrow> (ram \<times> 'h) option" where
  "load_elf64_loop P elf ph i m h =
     (if i < unat (ram16 m (elf + 56))
      then Option.bind (load_program P (ucast (ram64 m (ph + 32))) (ucast (ram64 m (ph + 40))) (ucast (ram64 m (ph + 24)))
             (ucast (ram64 m (ph + 8))) m h) (\<lambda>(m, h). load_elf64_loop P elf (ph + 56) (i + 1) m h)
      else Some (m, h))"

definition load_elf64 :: "'h port_io \<Rightarrow> u32 \<Rightarrow> ram \<Rightarrow> 'h \<Rightarrow> (ram \<times> 'h) option" where
  "load_elf64 P elf m h = load_elf64_loop P elf (elf + ucast (ram64 m (elf + 32))) 0 m h"

partial_function (option) load_elf32_loop :: "'h port_io \<Rightarrow> u32 \<Rightarrow> u32 \<Rightarrow> nat \<Rightarrow> ram \<Rightarrow> 'h \<Rightarrow> (ram \<times> 'h) option" where
  "load_elf32_loop P elf ph i m h =
     (if i < unat (ram16 m (elf + 44))
      then Option.bind (load_program P (ram32 m (ph + 16)) (ram32 m (ph + 20)) (ram32 m (ph + 12)) (ram32 m (ph + 4)) m h)
             (\<lambda>(m, h). load_elf32_loop P elf (ph + 32) (i + 1) m h)
      else Some (m, h))"

definition load_elf32 :: "'h port_io \<Rightarrow> u32 \<Rightarrow> ram \<Rightarrow> 'h \<Rightarrow> (ram \<times> 'h) option" where
  "load_elf32 P elf m h = load_elf32_loop P elf (elf + ram32 m (elf + 28)) 0 m h"

text \<open>The first result is the address the loader jumps to.\<close>

definition load_kernel :: "'h port_io \<Rightarrow> ram \<Rightarrow> 'h \<Rightarrow> (u32 \<times> ram \<times> 'h) option" where
  "load_kernel P m h =
     (let elf = 0x8000; is_ap = ram32 m (BOOTREC_ADDR + 4)
      in Option.bind
           (if is_ap = 0
            then Option.bind (copy_from_disk P MAINARG_ADDR 1024 (- 1024) m h) (\<lambda>(m, h).
                 Option.bind (copy_from_disk P elf 4096 0 m h) (\<lambda>(m, h).
                   if ram16 m (elf + 18) = EM_X86_64 then load_elf64 P elf m h else load_elf32 P elf m h))
            else Some (m, h))
           (\<lambda>(m, h). Some (if ram16 m (elf + 18) = EM_X86_64 then ucast (ram64 m (elf + 24)) else ram32 m (elf + 24), m, h)))"

section \<open>One sector\<close>

text \<open>Memory with the bytes \<open>bs\<close> at \<open>a\<close>.\<close>

definition fill :: "u32 \<Rightarrow> u8 list \<Rightarrow> ram \<Rightarrow> ram" where
  "fill buf bs m = (\<lambda>a. if unat (a - buf) < length bs then bs ! unat (a - buf) else m a)"

lemma fill_eq:
  assumes "unat buf + length bs \<le> 2 ^ 32"
  shows "fill buf bs m a = (if unat buf \<le> unat a \<and> unat a < unat buf + length bs then bs ! (unat a - unat buf) else m a)"
  using assms unsigned_less [of a] by (auto simp: fill_def unat_sub_if')

lemma fill_store32:
  assumes "length bs + 4 \<le> 2 ^ 32"
  shows "fill (buf + 4) bs (store32 m buf w) = fill buf (le32 w @ bs) m"
proof
  fix a
  define d where "d = a - buf"
  have a: "a = buf + d" "a - buf = d" "a - (buf + 4) = d - 4" by (simp_all add: d_def)
  show "fill (buf + 4) bs (store32 m buf w) a = fill buf (le32 w @ bs) m a"
  proof (cases "unat d < 4")
    case True
    then have "unat d \<in> {0, 1, 2, 3}" by auto
    moreover have "d = of_nat (unat d)" by simp
    ultimately have "d \<in> of_nat ` {0, 1, 2, 3}" by blast
    then have "d = 0 \<or> d = 1 \<or> d = 2 \<or> d = 3" by simp
    moreover have "unat (- 1 :: u32) = 4294967295" by (simp add: unsigned_minus_1_eq_mask mask_eq_exp_minus_1)
    ultimately show ?thesis
      using assms by (elim disjE) (simp_all add: fill_def a store32_def le32_def)
  next
    case False
    then have "unat (d - 4) = unat d - 4" by (simp add: unat_sub word_le_nat_alt)
    moreover from False have "d \<noteq> 0" "d \<noteq> 1" "d \<noteq> 2" "d \<noteq> 3" by auto
    ultimately show ?thesis
      using False by (auto simp: fill_def a store32_def nth_append)
  qed
qed

lemma inl_words_read_words:
  assumes "4 * n \<le> 2 ^ 32"
  shows "inl_words P n buf m h = (fill buf (fst (read_words P n h)) m, snd (read_words P n h)) \<and>
    length (fst (read_words P n h)) = 4 * n"
  using assms
proof (induction n arbitrary: buf m h)
  case 0
  then show ?case by (simp add: fill_def)
next
  case (Suc n)
  obtain w h' where w: "inl P 0x1f0 h = (w, h')" by fastforce
  obtain bs h'' where r: "read_words P n h' = (bs, h'')" by fastforce
  have i: "inl_words P n (buf + 4) (store32 m buf w) h' = (fill (buf + 4) bs (store32 m buf w), h'')" "length bs = 4 * n"
    using Suc.IH [of "buf + 4" "store32 m buf w" h'] Suc.prems r by simp_all
  then show ?case
    using Suc.prems by (simp add: w r fill_store32)
qed

lemma read_disk_ok:
  assumes "ata_drive P ok busy view" and "ata_idle ok view h" and "(unat sect + 1) * 512 \<le> length (platter (view h))"
  shows "\<exists>h'. read_disk P buf sect m h = Some (fill buf (take 512 (drop (unat sect * 512) (platter (view h)))) m, h') \<and>
    ata_idle ok view h' \<and> platter (view h') = platter (view h)"
proof -
  obtain h1 where h1: "wait_disk P h = Some h1" "ok h1" "busy h1 = 0" "view h1 = view h"
    using wait_disk_ok [OF assms(1)] assms(2) unfolding ata_idle_def by blast
  let ?h = "send_command P False sect h1"
  let ?bs = "take 512 (drop (unat sect * 512) (platter (view h)))"
  have "unat sect < 2 ^ 28" using assms(2,3) by (simp add: ata_idle_def)
  then obtain a where a: "lba a = unat sect" "platter a = platter (view h)" "ok ?h" "view ?h = a\<lparr>xfer := Sending ?bs\<rparr>"
    using send_command_ok [OF assms(1) h1(2,3), of sect False] assms(2,3) h1(4) by (auto simp: ata_idle_def)
  obtain h2 where h2: "wait_disk P ?h = Some h2" "ok h2" "busy h2 = 0" "view h2 = a\<lparr>xfer := Sending ?bs\<rparr>"
    using wait_disk_ok [OF assms(1) a(3)] a(4) by auto
  have "length ?bs = 4 * Suc 127" using assms(3) by simp
  then obtain h3 where h3: "read_words P (Suc 127) h2 = (?bs, h3)" "ok h3" "view h3 = (view h2)\<lparr>xfer := Idle\<rparr>"
    using read_words_ok [OF assms(1) h2(2,3), of ?bs 127] h2(4) by auto
  have "unat (SECTSIZE div 4) = Suc 127" by (simp add: SECTSIZE_def)
  then have "inl_words P (unat (SECTSIZE div 4)) buf m h2 = (fill buf ?bs m, h3)"
    using inl_words_read_words [of "Suc 127" P buf m h2] h3(1) by simp
  moreover have "read_disk P buf sect m h =
      Option.bind (wait_disk P h) (\<lambda>h. Option.bind (wait_disk P (send_command P False sect h))
        (\<lambda>h. Some (inl_words P (unat (SECTSIZE div 4)) buf m h)))"
    by (simp add: read_disk_def send_command_def Let_def)
  ultimately have "read_disk P buf sect m h = Some (fill buf ?bs m, h3)" using h1(1) h2(1) by simp
  moreover have "ata_idle ok view h3" "platter (view h3) = platter (view h)"
    using assms(2) h3 h2(4) a(2) by (simp_all add: ata_idle_def)
  ultimately show ?thesis by blast
qed

section \<open>Any number of sectors\<close>

lemma fill_empty [simp]: "fill buf [] m = m"
  by (simp add: fill_def)

lemma fill_fill:
  assumes "unat buf + length bs + length cs \<le> 2 ^ 32" and "cs \<noteq> [] \<Longrightarrow> unat b = unat buf + length bs"
  shows "fill b cs (fill buf bs m) = fill buf (bs @ cs) m"
proof (cases "cs = []")
  case False
  with assms(2) have b: "unat b = unat buf + length bs" by simp
  show ?thesis
    by (rule ext) (use assms(1) in \<open>auto simp: fill_eq b nth_append\<close>)
qed simp

text \<open>The loop runs once for every sector that begins before the end.\<close>

definition sectors_to :: "nat \<Rightarrow> nat \<Rightarrow> nat" where
  "sectors_to cur ed = (ed - cur + 511) div 512"

lemma copy_loop_ok:
  assumes "ata_drive P ok busy view"
  shows "ata_idle ok view h \<Longrightarrow> unat cur mod 512 = 0 \<Longrightarrow> unat ed \<le> 2 ^ 32 - 512 \<Longrightarrow>
    (unat sect + sectors_to (unat cur) (unat ed)) * 512 \<le> length (platter (view h)) \<Longrightarrow>
    \<exists>h'. copy_loop P ed cur sect m h =
        Some (fill cur (take (sectors_to (unat cur) (unat ed) * 512) (drop (unat sect * 512) (platter (view h)))) m, h') \<and>
      ata_idle ok view h' \<and> platter (view h') = platter (view h)"
proof (induction "sectors_to (unat cur) (unat ed)" arbitrary: cur sect m h)
  case 0
  then have "\<not> cur < ed" by (simp add: sectors_to_def word_less_nat_alt)
  moreover have "sectors_to (unat cur) (unat ed) = 0" using 0 by simp
  ultimately show ?case using 0 by (subst copy_loop.simps) (auto simp: sectors_to_def)
next
  case (Suc n)
  from Suc(2) have lt: "unat cur < unat ed" by (simp add: sectors_to_def)
  then have "unat cur + 512 < 2 ^ 32" using Suc.prems(3) by simp
  then have c: "unat (cur + SECTSIZE) = unat cur + 512" by (simp add: SECTSIZE_def unat_add_nowrap)
  have n: "n = sectors_to (unat (cur + SECTSIZE)) (unat ed)"
    using Suc(2) lt unfolding c sectors_to_def by arith
  let ?p = "platter (view h)"
  have one: "(unat sect + 1) * 512 \<le> length ?p" using Suc.prems(4) unfolding Suc(2) [symmetric] by simp
  then have "unat sect + 1 < 2 ^ 32" using Suc.prems(1) by (simp add: ata_idle_def)
  then have k: "unat (sect + 1) = unat sect + 1" by (subst unat_add_nowrap) simp_all
  obtain h1 where h1: "read_disk P cur sect m h = Some (fill cur (take 512 (drop (unat sect * 512) ?p)) m, h1)"
    "ata_idle ok view h1" "platter (view h1) = ?p"
    using read_disk_ok [OF assms Suc.prems(1) one] by blast
  let ?m = "fill cur (take 512 (drop (unat sect * 512) ?p)) m"
  have "unat (cur + SECTSIZE) mod 512 = 0" using Suc.prems(2) by (simp add: c)
  moreover have "(unat (sect + 1) + sectors_to (unat (cur + SECTSIZE)) (unat ed)) * 512 \<le> length (platter (view h1))"
    using Suc.prems(4) unfolding Suc(2) [symmetric] k h1(3) n [symmetric] by simp
  ultimately obtain h2 where h2: "copy_loop P ed (cur + SECTSIZE) (sect + 1) ?m h1 =
      Some (fill (cur + SECTSIZE) (take (n * 512) (drop (unat (sect + 1) * 512) ?p)) ?m, h2)"
    "ata_idle ok view h2" "platter (view h2) = ?p"
    using Suc.hyps(1) [OF n h1(2), of "sect + 1" ?m] Suc.prems(3) h1(3) n by auto
  have room: "unat cur + Suc n * 512 \<le> 2 ^ 32"
  proof -
    have "Suc n * 512 \<le> unat ed - unat cur + 511"
      using div_times_less_eq_dividend [of "unat ed - unat cur + 511" 512] Suc(2) by (simp only: sectors_to_def)
    then show ?thesis using Suc.prems(3) lt by simp
  qed
  have l: "length (take 512 (drop (unat sect * 512) ?p)) = 512" using one by simp
  have "fill (cur + SECTSIZE) (take (n * 512) (drop (unat (sect + 1) * 512) ?p)) ?m =
      fill cur (take 512 (drop (unat sect * 512) ?p) @ take (n * 512) (drop (unat (sect + 1) * 512) ?p)) m"
  proof (rule fill_fill)
    have "length (take (n * 512) (drop (unat (sect + 1) * 512) ?p)) \<le> n * 512" by simp
    then show "unat cur + length (take 512 (drop (unat sect * 512) ?p)) + length (take (n * 512) (drop (unat (sect + 1) * 512) ?p)) \<le> 2 ^ 32"
      using room unfolding l by simp
  qed (simp only: l c)
  also have "take 512 (drop (unat sect * 512) ?p) @ take (n * 512) (drop (unat (sect + 1) * 512) ?p) =
      take (Suc n * 512) (drop (unat sect * 512) ?p)"
    using take_add [of 512 "n * 512" "drop (unat sect * 512) ?p"] by (simp add: k [unfolded add.commute [of _ 1]] add.commute)
  finally have "copy_loop P ed cur sect m h = Some (fill cur (take (Suc n * 512) (drop (unat sect * 512) ?p)) m, h2)"
    using lt h1(1) h2(1) by (subst copy_loop.simps) (simp add: word_less_nat_alt)
  then show ?case using h2(2,3) unfolding Suc(2) [symmetric] by blast
qed

section \<open>A segment\<close>

record seg =
  p_filesz :: u32
  p_memsz :: u32
  p_paddr :: u32
  p_offset :: u32

definition load_seg :: "'h port_io \<Rightarrow> seg \<Rightarrow> ram \<Rightarrow> 'h \<Rightarrow> (ram \<times> 'h) option" where
  "load_seg P s = load_program P (p_filesz s) (p_memsz s) (p_paddr s) (p_offset s)"

text \<open>The image follows the boot sector and two sectors of arguments.\<close>

definition file_of :: "u8 list \<Rightarrow> u8 list" where
  "file_of img = drop 1536 img"

text \<open>The addresses that are written to: whole sectors, then the zeros.\<close>

definition sector_start :: "nat \<Rightarrow> nat" where
  "sector_start a = a div 512 * 512"

definition sector_end :: "nat \<Rightarrow> nat" where
  "sector_end a = (a + 511) div 512 * 512"

definition touched :: "seg \<Rightarrow> nat set" where
  "touched s = {sector_start (unat (p_paddr s)) ..< max (sector_end (unat (p_paddr s) + unat (p_filesz s))) (unat (p_paddr s) + unat (p_memsz s))}"

definition occupied :: "seg \<Rightarrow> nat set" where
  "occupied s = {unat (p_paddr s) ..< unat (p_paddr s) + unat (p_memsz s)}"

text \<open>A segment the loader can load: a linker keeps the address and the offset equal modulo the page size.\<close>

definition seg_ok :: "u8 list \<Rightarrow> seg \<Rightarrow> bool" where
  "seg_ok img s \<longleftrightarrow> unat (p_filesz s) \<le> unat (p_memsz s) \<and> unat (p_paddr s) mod 512 = unat (p_offset s) mod 512 \<and>
     unat (p_paddr s) + unat (p_memsz s) \<le> 2 ^ 32 - 512 \<and>
     unat (p_offset s) < 2 ^ 31 \<and> 1536 + sector_end (unat (p_offset s) + unat (p_filesz s)) \<le> length img"

lemma bss_loop_fill: "bss_loop memsz i bss m = fill bss (replicate (unat (memsz - i)) 0) m"
proof (induction memsz i bss m rule: bss_loop.induct)
  case (1 memsz i bss m)
  show ?case
  proof (cases "i = memsz")
    case True
    then show ?thesis by (simp add: bss_loop.simps)
  next
    case False
    then have "memsz - i \<noteq> 0" by simp
    then have n: "unat (memsz - i) = Suc (unat (memsz - (i + 1)))"
      by (simp add: unat_minus_one unat_gt_0 diff_diff_eq [symmetric])
    let ?n = "unat (memsz - (i + 1))"
    have "?n < 2 ^ 32 - 1" using unsigned_less [of "memsz - i", where ?'a = nat] n by simp
    have "fill (bss + 1) (replicate ?n 0) (m(bss := 0)) = fill bss (replicate (Suc ?n) 0) m"
    proof
      fix a
      show "fill (bss + 1) (replicate ?n 0) (m(bss := 0)) a = fill bss (replicate (Suc ?n) 0) m a"
      proof (cases "a = bss")
        case True
        then show ?thesis
          using \<open>?n < 2 ^ 32 - 1\<close> by (simp add: fill_def unsigned_minus_1_eq_mask mask_eq_exp_minus_1)
      next
        case False
        then have "a - bss \<noteq> 0" by simp
        then have "unat (a - bss) = Suc (unat (a - (bss + 1)))"
          by (simp add: unat_minus_one unat_gt_0 diff_diff_eq [symmetric])
        then show ?thesis using False by (simp add: fill_def)
      qed
    qed
    then show ?thesis
      using 1 [OF False] False n by (subst bss_loop.simps) (simp del: fun_upd_apply)
  qed
qed

lemma sint_unat_pos:
  assumes "unat (w :: u32) < 2 ^ 31"
  shows "sint w = int (unat w)"
proof -
  have "sint w = signed_take_bit 31 (uint w)" by (simp add: sint_uint)
  also have "\<dots> = uint w"
  proof (rule signed_take_bit_int_eq_self)
    have "0 \<le> uint w" by simp
    then show "- (2 ^ 31) \<le> uint w" by (rule order_trans [rotated]) simp
    have "uint w = int (unat w)" by simp
    also have "\<dots> < int (2 ^ 31)" using assms by (simp only: of_nat_less_iff)
    finally show "uint w < 2 ^ 31" by simp
  qed
  finally show ?thesis by simp
qed

lemma sector_of_offset:
  assumes "unat off < 2 ^ 31"
  shows "unat (word_of_int (sint (off :: u32) sdiv 512) + ARGSIZE div SECTSIZE + 1 :: u32) = unat off div 512 + 3"
proof -
  have "word_of_int (sint off sdiv 512) = (of_nat (unat off div 512) :: u32)"
  proof -
    have "int n sdiv 512 = int (n div 512)" for n by (cases "n = 0") (simp_all add: signed_divide_int_def zdiv_int)
    then show ?thesis by (simp only: sint_unat_pos [OF assms] of_int_of_nat_eq)
  qed
  moreover have "word_of_int (sint off sdiv 512) + ARGSIZE div SECTSIZE + 1 = (word_of_int (sint off sdiv 512) + 3 :: u32)"
    by (simp add: ARGSIZE_def SECTSIZE_def)
  moreover have "unat (of_nat (unat off div 512) + 3 :: u32) = unat off div 512 + 3"
    using assms by (subst unat_add_nowrap) (simp_all add: unat_of_nat_small)
  ultimately show ?thesis by (simp only:)
qed

lemma sector_bounds:
  "sector_start a \<le> a" "a < sector_start a + 512" "a \<le> sector_end a" "sector_start a mod 512 = 0"
  "sector_end a \<le> a + 511" "a \<le> b \<Longrightarrow> sector_start a \<le> sector_end b"
proof -
  have d: "x div 512 * 512 + x mod 512 = x" "x mod 512 < 512" for x :: nat by simp_all
  show "sector_start a \<le> a" "a < sector_start a + 512" "sector_start a mod 512 = 0"
    using d [of a] unfolding sector_start_def by (linarith, linarith, simp)
  have "x \<le> sector_end x" "sector_end x \<le> x + 511" for x
    using d [of "x + 511"] unfolding sector_end_def by linarith+
  then show "a \<le> sector_end a" "sector_end a \<le> a + 511" by blast+
  have "b \<le> sector_end b" using \<open>\<And>x. x \<le> sector_end x\<close> .
  with \<open>sector_start a \<le> a\<close> show "sector_start a \<le> sector_end b" if "a \<le> b"
    using that by linarith
qed

lemma sector_shift:
  assumes "(b :: nat) mod 512 = c mod 512"
  shows "sector_start c + b = sector_start b + c" and "sector_end (b + n) + c = sector_end (c + n) + b"
proof -
  have b: "x = x mod 512 + x div 512 * 512" for x :: nat by simp
  from b [of b] b [of c] assms show "sector_start c + b = sector_start b + c"
    unfolding sector_start_def by linarith
  have "(x + n + 511) div 512 * 512 + x mod 512 = (x mod 512 + n + 511) div 512 * 512 + x" for x :: nat
  proof -
    have "x + n + 511 = x mod 512 + n + 511 + x div 512 * 512" using b [of x] by linarith
    then have "(x + n + 511) div 512 = x div 512 + (x mod 512 + n + 511) div 512" by (simp only: div_mult_self1)
    then show ?thesis using b [of x] by (simp add: algebra_simps)
  qed
  from this [of b] this [of c] show "sector_end (b + n) + c = sector_end (c + n) + b"
    unfolding sector_end_def assms by linarith
qed

lemma nth_take_drop: "j < n \<Longrightarrow> k + n \<le> length xs \<Longrightarrow> take n (drop k xs) ! j = xs ! (k + j)"
  by simp

text \<open>The bytes the copy puts into memory, by the distance between address and offset.\<close>

lemma copy_from_disk_ok:
  assumes "ata_drive P ok busy view" and "ata_idle ok view h"
    and "unat buf mod 512 = unat off mod 512" and "unat buf + unat nbytes \<le> 2 ^ 32 - 512" and "unat off < 2 ^ 31"
    and "1536 + sector_end (unat off + unat nbytes) \<le> length (platter (view h))"
  shows "\<exists>m' h'. copy_from_disk P buf nbytes off m h = Some (m', h') \<and> ata_idle ok view h' \<and>
    platter (view h') = platter (view h) \<and>
    (\<forall>a. m' a = (if sector_start (unat buf) \<le> unat a \<and> unat a < sector_end (unat buf + unat nbytes)
       then file_of (platter (view h)) ! (unat a + unat off - unat buf) else m a))"
proof -
  let ?b = "unat buf" and ?o = "unat off" and ?n = "unat nbytes" and ?p = "platter (view h)"
  let ?cur = "buf AND NOT (SECTSIZE - 1)" and ?sect = "word_of_int (sint off sdiv 512) + ARGSIZE div SECTSIZE + 1 :: u32"
  have cur: "unat ?cur = sector_start ?b"
    using unat_ROUNDDOWN [of buf 9] by (simp add: ROUNDDOWN_def SECTSIZE_def sector_start_def)
  have ed: "unat (buf + nbytes) = ?b + ?n" using assms(4) by (intro unat_add_nowrap) simp
  have sect: "unat ?sect = ?o div 512 + 3" by (rule sector_of_offset [OF assms(5)])
  let ?k = "sectors_to (sector_start ?b) (?b + ?n)"
  have k: "sector_start ?b + ?k * 512 = sector_end (?b + ?n)"
  proof -
    have "?b + ?n - sector_start ?b + 511 + ?b div 512 * 512 = ?b + ?n + 511"
      using sector_bounds(1) [of ?b] by (simp add: sector_start_def)
    then have "(?b + ?n + 511) div 512 = ?b div 512 + (?b + ?n - sector_start ?b + 511) div 512"
      by (metis div_mult_self1 zero_neq_numeral)
    then show ?thesis by (simp add: sectors_to_def sector_end_def) (simp add: sector_start_def)
  qed
  have e: "sector_end (?b + ?n) \<le> 2 ^ 32" using sector_bounds(5) [of "?b + ?n"] assms(4) by simp
  have o: "sector_start ?o + ?b = sector_start ?b + ?o"
    by (rule sector_shift [OF assms(3)])
  have "sector_end (?b + ?n) + ?o = sector_end (?o + ?n) + ?b" by (rule sector_shift [OF assms(3)])
  then have ko: "sector_start ?o + ?k * 512 = sector_end (?o + ?n)" using k o by linarith
  have room: "(unat ?sect + ?k) * 512 \<le> length ?p"
    using assms(6) ko unfolding sect sector_start_def by simp
  have "sector_start ?b mod 512 = 0" by (rule sector_bounds)
  with room obtain h' where h': "copy_loop P (buf + nbytes) ?cur ?sect m h = Some (fill ?cur (take (?k * 512) (drop (unat ?sect * 512) ?p)) m, h')"
    "ata_idle ok view h'" "platter (view h') = ?p"
    using copy_loop_ok [OF assms(1,2), of ?cur "buf + nbytes" ?sect m] assms(4) unfolding cur ed by auto
  let ?bs = "take (?k * 512) (drop (unat ?sect * 512) ?p)"
  have l: "length ?bs = ?k * 512" using room by simp
  have "fill ?cur ?bs m a = (if sector_start ?b \<le> unat a \<and> unat a < sector_end (?b + ?n)
       then file_of ?p ! (unat a + ?o - ?b) else m a)" for a
  proof -
    have "unat ?sect * 512 + (unat a - sector_start ?b) = 1536 + (unat a + ?o - ?b)" if "sector_start ?b \<le> unat a"
    proof -
      define d where "d = unat a - sector_start ?b"
      have d: "unat a = sector_start ?b + d" using that by (simp add: d_def)
      then have e: "unat a + ?o - ?b = sector_start ?o + d" using o by linarith
      have d': "unat a - sector_start ?b = d" using d by linarith
      show ?thesis using d' unfolding e sect sector_start_def add_mult_distrib by linarith
    qed
    then have i: "?bs ! (unat a - sector_start ?b) = file_of ?p ! (unat a + ?o - ?b)"
      if "sector_start ?b \<le> unat a" "unat a < sector_end (?b + ?n)"
    proof -
      have "unat a - sector_start ?b < ?k * 512" using that k by linarith
      then have "?bs ! (unat a - sector_start ?b) = ?p ! (unat ?sect * 512 + (unat a - sector_start ?b))"
        using room by (intro nth_take_drop) (simp_all only: add_mult_distrib)
      also have "\<dots> = ?p ! (1536 + (unat a + ?o - ?b))" using \<open>sector_start ?b \<le> unat a \<Longrightarrow> _\<close> that(1) by simp
      also have "\<dots> = file_of ?p ! (unat a + ?o - ?b)" using room unfolding file_of_def sect by (intro nth_drop [symmetric]) simp
      finally show ?thesis .
    qed
    have "fill ?cur ?bs m a = (if sector_start ?b \<le> unat a \<and> unat a < sector_start ?b + ?k * 512
       then ?bs ! (unat a - sector_start ?b) else m a)"
      using fill_eq [of ?cur ?bs m a] k e unfolding cur l by simp
    then show ?thesis unfolding k using i by auto
  qed
  moreover have "copy_from_disk P buf nbytes off m h = copy_loop P (buf + nbytes) ?cur ?sect m h"
    by (simp add: copy_from_disk_def)
  ultimately show ?thesis using h' by auto
qed

lemma load_seg_ok:
  assumes "ata_drive P ok busy view" and "ata_idle ok view h" and "seg_ok (platter (view h)) s"
  shows "\<exists>m' h'. load_seg P s m h = Some (m', h') \<and> ata_idle ok view h' \<and> platter (view h') = platter (view h) \<and>
    (\<forall>a. unat a \<notin> touched s \<longrightarrow> m' a = m a) \<and>
    (\<forall>k < unat (p_memsz s). m' (p_paddr s + of_nat k) =
       (if k < unat (p_filesz s) then file_of (platter (view h)) ! (unat (p_offset s) + k) else 0))"
proof -
  let ?b = "unat (p_paddr s)" and ?o = "unat (p_offset s)" and ?f = "unat (p_filesz s)" and ?n = "unat (p_memsz s)"
  have s: "?f \<le> ?n" "?b mod 512 = ?o mod 512" "?b + ?n \<le> 2 ^ 32 - 512" "?o < 2 ^ 31" "1536 + sector_end (?o + ?f) \<le> length (platter (view h))"
    using assms(3) by (simp_all add: seg_ok_def)
  from s(1,3) have "?b + ?f \<le> 2 ^ 32 - 512" by simp
  then obtain m1 h1 where m1: "copy_from_disk P (p_paddr s) (p_filesz s) (p_offset s) m h = Some (m1, h1)"
    "ata_idle ok view h1" "platter (view h1) = platter (view h)"
    "\<And>a. m1 a = (if sector_start ?b \<le> unat a \<and> unat a < sector_end (?b + ?f)
       then file_of (platter (view h)) ! (unat a + ?o - ?b) else m a)"
    using copy_from_disk_ok [OF assms(1,2) s(2) _ s(4,5)] by blast
  let ?bss = "p_paddr s + p_filesz s" and ?z = "replicate (unat (p_memsz s - p_filesz s)) (0 :: u8)"
  have bss: "unat ?bss = ?b + ?f" using s(1,3) by (intro unat_add_nowrap) simp
  have z: "length ?z = ?n - ?f" using s(1) by (simp add: unat_sub word_le_nat_alt)
  have fill: "fill ?bss ?z m1 a = (if ?b + ?f \<le> unat a \<and> unat a < ?b + ?n then 0 else m1 a)" for a
    using s(1,3) z by (subst fill_eq) (auto simp: bss)
  have r: "load_seg P s m h = Some (fill ?bss ?z m1, h1)"
    by (simp add: load_seg_def load_program_def m1(1) bss_loop_fill)
  have out: "fill ?bss ?z m1 a = m a" if "unat a \<notin> touched s" for a
    using that sector_bounds(1) [of ?b] unfolding fill m1(4) touched_def by auto
  have "fill ?bss ?z m1 (p_paddr s + of_nat k) = (if k < ?f then file_of (platter (view h)) ! (?o + k) else 0)" if "k < ?n" for k
  proof -
    have "unat (of_nat k :: u32) = k" using that s(3) by (intro unat_of_nat_small) simp
    then have a: "unat (p_paddr s + of_nat k) = ?b + k" using that s(3) by (subst unat_add_nowrap) simp_all
    show ?thesis
      using that sector_bounds(1) [of ?b] sector_bounds(3) [of "?b + ?f"] unfolding fill m1(4) a by (auto simp: add.commute)
  qed
  then show ?thesis using r m1(2,3) out by blast
qed

section \<open>All segments\<close>

primrec load_segs :: "'h port_io \<Rightarrow> seg list \<Rightarrow> ram \<Rightarrow> 'h \<Rightarrow> (ram \<times> 'h) option" where
  "load_segs P [] m h = Some (m, h)"
| "load_segs P (s # ss) m h = Option.bind (load_seg P s m h) (\<lambda>(m, h). load_segs P ss m h)"

definition loaded :: "u8 list \<Rightarrow> seg \<Rightarrow> ram \<Rightarrow> bool" where
  "loaded f s m \<longleftrightarrow> (\<forall>k < unat (p_memsz s). m (p_paddr s + of_nat k) = (if k < unat (p_filesz s) then f ! (unat (p_offset s) + k) else 0))"

lemma loaded_frame:
  assumes "loaded f s m" and "unat (p_paddr s) + unat (p_memsz s) \<le> 2 ^ 32" and "\<And>a. unat a \<in> occupied s \<Longrightarrow> m' a = m a"
  shows "loaded f s m'"
  unfolding loaded_def
proof (intro allI impI)
  fix k assume k: "k < unat (p_memsz s)"
  then have "unat (of_nat k :: u32) = k" using unsigned_less [of "p_memsz s", where ?'a = nat] by (intro unat_of_nat_small) simp
  then have "unat (p_paddr s + of_nat k) = unat (p_paddr s) + k" using k assms(2) by (subst unat_add_nowrap) simp_all
  then have "unat (p_paddr s + of_nat k) \<in> occupied s" using k by (simp add: occupied_def)
  then show "m' (p_paddr s + of_nat k) = (if k < unat (p_filesz s) then f ! (unat (p_offset s) + k) else 0)"
    using assms(1,3) k by (simp add: loaded_def)
qed

lemma load_segs_ok:
  assumes "ata_drive P ok busy view"
  shows "ata_idle ok view h \<Longrightarrow> \<forall>s \<in> set ss. seg_ok (platter (view h)) s \<Longrightarrow>
    sorted_wrt (\<lambda>s t. touched t \<inter> occupied s = {}) ss \<Longrightarrow>
    \<exists>m' h'. load_segs P ss m h = Some (m', h') \<and> ata_idle ok view h' \<and> platter (view h') = platter (view h) \<and>
      (\<forall>a. unat a \<notin> \<Union> (touched ` set ss) \<longrightarrow> m' a = m a) \<and> (\<forall>s \<in> set ss. loaded (file_of (platter (view h))) s m')"
proof (induction ss arbitrary: m h)
  case (Cons s ss)
  let ?f = "file_of (platter (view h))"
  have s: "seg_ok (platter (view h)) s" using Cons.prems(2) by simp
  obtain m1 h1 where m1: "load_seg P s m h = Some (m1, h1)" "ata_idle ok view h1" "platter (view h1) = platter (view h)"
    "\<forall>a. unat a \<notin> touched s \<longrightarrow> m1 a = m a" "loaded ?f s m1"
    using load_seg_ok [OF assms Cons.prems(1) s, of m] unfolding loaded_def by blast
  have "\<forall>s \<in> set ss. seg_ok (platter (view h1)) s" "sorted_wrt (\<lambda>s t. touched t \<inter> occupied s = {}) ss"
    using Cons.prems(2,3) m1(3) by simp_all
  from Cons.IH [OF m1(2) this, of m1] obtain m2 h2 where m2: "load_segs P ss m1 h1 = Some (m2, h2)" "ata_idle ok view h2"
    "platter (view h2) = platter (view h)" "\<forall>a. unat a \<notin> \<Union> (touched ` set ss) \<longrightarrow> m2 a = m1 a" "\<forall>s \<in> set ss. loaded ?f s m2"
    unfolding m1(3) by blast
  have "loaded ?f s m2"
  proof (rule loaded_frame [OF m1(5)])
    show "unat (p_paddr s) + unat (p_memsz s) \<le> 2 ^ 32" using s by (simp add: seg_ok_def)
    show "m2 a = m1 a" if "unat a \<in> occupied s" for a
      using that m2(4) Cons.prems(3) by auto
  qed
  moreover have "load_segs P (s # ss) m h = Some (m2, h2)" using m1(1) m2(1) by simp
  moreover have "\<forall>a. unat a \<notin> \<Union> (touched ` set (s # ss)) \<longrightarrow> m2 a = m a" using m1(4) m2(4) by simp
  ultimately show ?case using m2(2,3,5) by auto
qed simp

section \<open>The headers\<close>

text \<open>What the image says, read from the file.\<close>

definition file16 :: "u8 list \<Rightarrow> nat \<Rightarrow> u16" where
  "file16 f k = of_le16 [f ! k, f ! (k + 1)]"

definition file32 :: "u8 list \<Rightarrow> nat \<Rightarrow> u32" where
  "file32 f k = of_le32 [f ! k, f ! (k + 1), f ! (k + 2), f ! (k + 3)]"

definition file64 :: "u8 list \<Rightarrow> nat \<Rightarrow> u64" where
  "file64 f k = ucast (file32 f k) OR push_bit 32 (ucast (file32 f (k + 4)))"

definition is_elf64 :: "u8 list \<Rightarrow> bool" where
  "is_elf64 f \<longleftrightarrow> file16 f 18 = EM_X86_64"

definition phdr64 :: "u8 list \<Rightarrow> nat \<Rightarrow> seg" where
  "phdr64 f p = \<lparr>p_filesz = ucast (file64 f (p + 32)), p_memsz = ucast (file64 f (p + 40)),
     p_paddr = ucast (file64 f (p + 24)), p_offset = ucast (file64 f (p + 8))\<rparr>"

definition phdr32 :: "u8 list \<Rightarrow> nat \<Rightarrow> seg" where
  "phdr32 f p = \<lparr>p_filesz = file32 f (p + 16), p_memsz = file32 f (p + 20), p_paddr = file32 f (p + 12), p_offset = file32 f (p + 4)\<rparr>"

definition phdr_size :: "u8 list \<Rightarrow> nat" where
  "phdr_size f = (if is_elf64 f then 56 else 32)"

definition phoff :: "u8 list \<Rightarrow> nat" where
  "phoff f = (if is_elf64 f then unat (ucast (file64 f 32) :: u32) else unat (file32 f 28))"

definition phnum :: "u8 list \<Rightarrow> nat" where
  "phnum f = unat (if is_elf64 f then file16 f 56 else file16 f 44)"

definition segment :: "u8 list \<Rightarrow> nat \<Rightarrow> seg" where
  "segment f i = (if is_elf64 f then phdr64 else phdr32) f (phoff f + phdr_size f * i)"

definition segments :: "u8 list \<Rightarrow> seg list" where
  "segments f = List.map (segment f) [0..<phnum f]"

definition entry_of :: "u8 list \<Rightarrow> u32" where
  "entry_of f = (if is_elf64 f then ucast (file64 f 24) else file32 f 24)"

text \<open>
  An image the loader can start: the headers are in its first 4096 bytes, every segment lies above the loader's
  memory, and no segment shares a sector with an earlier one.
\<close>

definition bootable :: "u8 list \<Rightarrow> bool" where
  "bootable img \<longleftrightarrow> (let f = file_of img in 4096 \<le> length f \<and> phoff f + phdr_size f * phnum f \<le> 4096 \<and>
     (\<forall>s \<in> set (segments f). seg_ok img s \<and> touched s \<subseteq> {0x10400..}) \<and>
     sorted_wrt (\<lambda>s t. touched t \<inter> occupied s = {}) (segments f))"

text \<open>The first 4096 bytes of the file are in memory at 0x8000.\<close>

definition header_in :: "u8 list \<Rightarrow> ram \<Rightarrow> bool" where
  "header_in f m \<longleftrightarrow> (\<forall>k < 4096. m (0x8000 + of_nat k) = f ! k)"

lemma ram_header:
  assumes "header_in f m"
  shows "k + 2 \<le> 4096 \<Longrightarrow> ram16 m (0x8000 + of_nat k) = file16 f k"
    and "k + 4 \<le> 4096 \<Longrightarrow> ram32 m (0x8000 + of_nat k) = file32 f k"
    and "k + 8 \<le> 4096 \<Longrightarrow> ram64 m (0x8000 + of_nat k) = file64 f k"
proof -
  have b: "m (0x8000 + of_nat k + of_nat j) = f ! (k + j)" if "k + j < 4096" for k j
    using assms that unfolding header_in_def by (metis add.assoc of_nat_add)
  show "ram16 m (0x8000 + of_nat k) = file16 f k" if "k + 2 \<le> 4096"
    using b [of k 0] b [of k 1] that by (simp add: ram16_def file16_def)
  have w: "ram32 m (0x8000 + of_nat k) = file32 f k" if "k + 4 \<le> 4096" for k
    using b [of k 0] b [of k 1] b [of k 2] b [of k 3] that by (simp add: ram32_def file32_def)
  then show "ram32 m (0x8000 + of_nat k) = file32 f k" if "k + 4 \<le> 4096" using that .
  show "ram64 m (0x8000 + of_nat k) = file64 f k" if "k + 8 \<le> 4096"
    using w [of k] w [of "k + 4"] that by (simp add: ram64_def file64_def add.assoc [symmetric])
qed

lemma low_address: "k < 2 ^ 16 \<Longrightarrow> unat (0x8000 + of_nat k :: u32) = 0x8000 + k" "k < 2 ^ 16 \<Longrightarrow> unat (0x10000 + of_nat k :: u32) = 0x10000 + k"
proof -
  assume "k < 2 ^ 16"
  moreover from this have "unat (of_nat k :: u32) = k" by (intro unat_of_nat_small) simp
  ultimately show "unat (0x8000 + of_nat k :: u32) = 0x8000 + k" "unat (0x10000 + of_nat k :: u32) = 0x10000 + k"
    by (simp_all add: unat_add_nowrap)
qed

lemma header_frame:
  assumes "header_in f m" and "\<And>a. unat a < 0x10400 \<Longrightarrow> m' a = m a"
  shows "header_in f m'"
  unfolding header_in_def
proof (intro allI impI)
  fix k :: nat assume "k < 4096"
  then show "m' (0x8000 + of_nat k) = f ! k" using assms low_address(1) [of k] by (simp add: header_in_def)
qed

lemma segment_step:
  assumes "ata_drive P ok busy view" and "ata_idle ok view h" and "header_in f m"
    and "seg_ok (platter (view h)) s" and "touched s \<subseteq> {0x10400..}"
  shows "\<exists>m' h'. load_seg P s m h = Some (m', h') \<and> ata_idle ok view h' \<and> platter (view h') = platter (view h) \<and> header_in f m'"
proof -
  obtain m1 h1 where m1: "load_seg P s m h = Some (m1, h1)" "ata_idle ok view h1" "platter (view h1) = platter (view h)"
    "\<forall>a. unat a \<notin> touched s \<longrightarrow> m1 a = m a"
    using load_seg_ok [OF assms(1,2,4), of m] by blast
  moreover have "header_in f m1" using m1(4) assms(5) by (intro header_frame [OF assms(3)]) force
  ultimately show ?thesis by blast
qed

text \<open>As long as the segments lie above the headers, each loop loads the segments the file lists.\<close>

lemma elf64_loop:
  assumes "ata_drive P ok busy view" and "is_elf64 f" and "phoff f + 56 * phnum f \<le> 4096"
  shows "i \<le> phnum f \<Longrightarrow> header_in f m \<Longrightarrow> ata_idle ok view h \<Longrightarrow> ph = 0x8000 + of_nat (phoff f + 56 * i) \<Longrightarrow>
    \<forall>s \<in> segment f ` {i..<phnum f}. seg_ok (platter (view h)) s \<and> touched s \<subseteq> {0x10400..} \<Longrightarrow>
    load_elf64_loop P 0x8000 ph i m h = load_segs P (List.map (segment f) [i..<phnum f]) m h"
proof (induction "phnum f - i" arbitrary: i ph m h)
  case 0
  have "unat (ram16 m (0x8000 + 56)) = phnum f"
    using ram_header(1) [OF 0(3), of 56] assms(2) by (simp add: phnum_def)
  then show ?case using 0 by (subst load_elf64_loop.simps) simp
next
  case (Suc n)
  then have i: "i < phnum f" "n = phnum f - (i + 1)" "i + 1 \<le> phnum f" by simp_all
  have n: "unat (ram16 m (0x8000 + 56)) = phnum f"
    using ram_header(1) [OF Suc.prems(2), of 56] assms(2) by (simp add: phnum_def)
  let ?s = "segment f i"
  have w: "ram64 m (ph + of_nat k) = file64 f (phoff f + 56 * i + k)" if "k \<le> 48" for k
    using ram_header(3) [OF Suc.prems(2), of "phoff f + 56 * i + k"] that assms(3) i(1)
    by (simp add: Suc.prems(4) add.assoc)
  have s: "load_seg P ?s = load_program P (ucast (ram64 m (ph + 32))) (ucast (ram64 m (ph + 40))) (ucast (ram64 m (ph + 24))) (ucast (ram64 m (ph + 8)))"
    using w [of 8] w [of 24] w [of 32] w [of 40] assms(2) by (simp add: load_seg_def segment_def phdr64_def phdr_size_def)
  have "seg_ok (platter (view h)) ?s" "touched ?s \<subseteq> {0x10400..}" using Suc.prems(5) i by auto
  then obtain m1 h1 where m1: "load_seg P ?s m h = Some (m1, h1)" "ata_idle ok view h1" "platter (view h1) = platter (view h)"
    "header_in f m1"
    using segment_step [OF assms(1) Suc.prems(3,2)] by blast
  have "\<forall>s \<in> segment f ` {i + 1..<phnum f}. seg_ok (platter (view h1)) s \<and> touched s \<subseteq> {0x10400..}"
    using Suc.prems(5) m1(3) by auto
  moreover have "ph + 56 = 0x8000 + of_nat (phoff f + 56 * (i + 1))" by (simp add: Suc.prems(4))
  ultimately have "load_elf64_loop P 0x8000 (ph + 56) (i + 1) m1 h1 = load_segs P (List.map (segment f) [i + 1..<phnum f]) m1 h1"
    using Suc.hyps(1) [OF i(2,3)] m1(2,4) by blast
  moreover have "load_elf64_loop P 0x8000 ph i m h = Option.bind (load_seg P ?s m h)
      (\<lambda>(m, h). load_elf64_loop P 0x8000 (ph + 56) (i + 1) m h)"
    unfolding s using i n by (subst load_elf64_loop.simps) simp
  ultimately show ?case using m1(1) i by (simp add: upt_conv_Cons)
qed

lemma elf32_loop:
  assumes "ata_drive P ok busy view" and "\<not> is_elf64 f" and "phoff f + 32 * phnum f \<le> 4096"
  shows "i \<le> phnum f \<Longrightarrow> header_in f m \<Longrightarrow> ata_idle ok view h \<Longrightarrow> ph = 0x8000 + of_nat (phoff f + 32 * i) \<Longrightarrow>
    \<forall>s \<in> segment f ` {i..<phnum f}. seg_ok (platter (view h)) s \<and> touched s \<subseteq> {0x10400..} \<Longrightarrow>
    load_elf32_loop P 0x8000 ph i m h = load_segs P (List.map (segment f) [i..<phnum f]) m h"
proof (induction "phnum f - i" arbitrary: i ph m h)
  case 0
  have "unat (ram16 m (0x8000 + 44)) = phnum f"
    using ram_header(1) [OF 0(3), of 44] assms(2) by (simp add: phnum_def)
  then show ?case using 0 by (subst load_elf32_loop.simps) simp
next
  case (Suc n)
  then have i: "i < phnum f" "n = phnum f - (i + 1)" "i + 1 \<le> phnum f" by simp_all
  have n: "unat (ram16 m (0x8000 + 44)) = phnum f"
    using ram_header(1) [OF Suc.prems(2), of 44] assms(2) by (simp add: phnum_def)
  let ?s = "segment f i"
  have w: "ram32 m (ph + of_nat k) = file32 f (phoff f + 32 * i + k)" if "k \<le> 28" for k
    using ram_header(2) [OF Suc.prems(2), of "phoff f + 32 * i + k"] that assms(3) i(1)
    by (simp add: Suc.prems(4) add.assoc)
  have s: "load_seg P ?s = load_program P (ram32 m (ph + 16)) (ram32 m (ph + 20)) (ram32 m (ph + 12)) (ram32 m (ph + 4))"
    using w [of 4] w [of 12] w [of 16] w [of 20] assms(2) by (simp add: load_seg_def segment_def phdr32_def phdr_size_def)
  have "seg_ok (platter (view h)) ?s" "touched ?s \<subseteq> {0x10400..}" using Suc.prems(5) i by auto
  then obtain m1 h1 where m1: "load_seg P ?s m h = Some (m1, h1)" "ata_idle ok view h1" "platter (view h1) = platter (view h)"
    "header_in f m1"
    using segment_step [OF assms(1) Suc.prems(3,2)] by blast
  have "\<forall>s \<in> segment f ` {i + 1..<phnum f}. seg_ok (platter (view h1)) s \<and> touched s \<subseteq> {0x10400..}"
    using Suc.prems(5) m1(3) by auto
  moreover have "ph + 32 = 0x8000 + of_nat (phoff f + 32 * (i + 1))" by (simp add: Suc.prems(4))
  ultimately have "load_elf32_loop P 0x8000 (ph + 32) (i + 1) m1 h1 = load_segs P (List.map (segment f) [i + 1..<phnum f]) m1 h1"
    using Suc.hyps(1) [OF i(2,3)] m1(2,4) by blast
  moreover have "load_elf32_loop P 0x8000 ph i m h = Option.bind (load_seg P ?s m h)
      (\<lambda>(m, h). load_elf32_loop P 0x8000 (ph + 32) (i + 1) m h)"
    unfolding s using i n by (subst load_elf32_loop.simps) simp
  ultimately show ?case using m1(1) i by (simp add: upt_conv_Cons)
qed

section \<open>The whole boot\<close>

lemma copy_args_ok:
  assumes "ata_drive P ok busy view" and "ata_idle ok view h" and "1536 \<le> length (platter (view h))"
  shows "\<exists>h'. copy_from_disk P MAINARG_ADDR 1024 (- 1024) m h = Some (fill MAINARG_ADDR (take 1024 (drop 512 (platter (view h)))) m, h') \<and>
    ata_idle ok view h' \<and> platter (view h') = platter (view h)"
proof -
  have "sint (- 1024 :: u32) = - 1024" by (simp add: sint_uint)
  then have "word_of_int (sint (- 1024 :: u32) sdiv 512) + ARGSIZE div SECTSIZE + 1 = (1 :: u32)"
    by (simp add: ARGSIZE_def SECTSIZE_def signed_divide_int_def)
  then have "copy_from_disk P MAINARG_ADDR 1024 (- 1024) m h = copy_loop P 0x10400 MAINARG_ADDR 1 m h"
    by (simp add: copy_from_disk_def MAINARG_ADDR_def SECTSIZE_def)
  moreover have "sectors_to (unat MAINARG_ADDR) (unat (0x10400 :: u32)) = 2" by (simp add: sectors_to_def MAINARG_ADDR_def)
  ultimately show ?thesis
    using copy_loop_ok [OF assms(1,2), of MAINARG_ADDR "0x10400" 1 m] assms(3) by (simp add: MAINARG_ADDR_def)
qed

text \<open>Arguments and headers, the part before the segments.\<close>

lemma copy_headers_ok:
  assumes "ata_drive P ok busy view" and "ata_idle ok view h" and "4096 \<le> length (file_of (platter (view h)))"
  shows "\<exists>m' h'. Option.bind (copy_from_disk P MAINARG_ADDR 1024 (- 1024) m h) (\<lambda>(m, h). copy_from_disk P 0x8000 4096 0 m h) = Some (m', h') \<and>
    ata_idle ok view h' \<and> platter (view h') = platter (view h) \<and> header_in (file_of (platter (view h))) m' \<and>
    (\<forall>k < 1024. m' (0x10000 + of_nat k) = platter (view h) ! (512 + k))"
proof -
  let ?p = "platter (view h)"
  have l: "5632 \<le> length ?p" using assms(3) by (simp add: file_of_def)
  let ?m0 = "fill MAINARG_ADDR (take 1024 (drop 512 ?p)) m"
  obtain h0 where h0: "copy_from_disk P MAINARG_ADDR 1024 (- 1024) m h = Some (?m0, h0)" "ata_idle ok view h0" "platter (view h0) = ?p"
    using copy_args_ok [OF assms(1,2)] l by auto
  obtain m1 h1 where m1: "copy_from_disk P 0x8000 4096 0 ?m0 h0 = Some (m1, h1)" "ata_idle ok view h1" "platter (view h1) = ?p"
    "\<And>a. m1 a = (if 0x8000 \<le> unat a \<and> unat a < 0x9000 then file_of ?p ! (unat a - 0x8000) else ?m0 a)"
    using copy_from_disk_ok [OF assms(1) h0(2), of "0x8000" 0 4096 ?m0] l h0(3) by (auto simp: sector_start_def sector_end_def)
  have "header_in (file_of ?p) m1"
    unfolding header_in_def
  proof (intro allI impI)
    fix k :: nat assume "k < 4096"
    then show "m1 (0x8000 + of_nat k) = file_of ?p ! k" using low_address(1) [of k] by (simp add: m1(4))
  qed
  moreover have "m1 (0x10000 + of_nat k) = ?p ! (512 + k)" if "k < 1024" for k
  proof -
    have "?m0 (0x10000 + of_nat k) = ?p ! (512 + k)"
      using low_address(2) [of k] that l by (subst fill_eq) (simp_all add: MAINARG_ADDR_def)
    then show ?thesis using low_address(2) [of k] that by (simp add: m1(4))
  qed
  ultimately show ?thesis using h0(1) m1(1-3) by auto
qed

text \<open>The class of the file decides which of the two loops runs and where the entry is read.\<close>

lemma machine_class: "header_in f m \<Longrightarrow> ram16 m (0x8000 + 18) = EM_X86_64 \<longleftrightarrow> is_elf64 f"
  using ram_header(1) [of f m 18] by (simp add: is_elf64_def)

lemma entry_class: "header_in f m \<Longrightarrow>
    (if ram16 m (0x8000 + 18) = EM_X86_64 then ucast (ram64 m (0x8000 + 24)) else ram32 m (0x8000 + 24)) = entry_of f"
  using machine_class [of f m] ram_header(2,3) [of f m 24] by (simp add: entry_of_def)

lemma load_class:
  assumes "ata_drive P ok busy view" and "header_in f m" "ata_idle ok view h"
    and "phoff f + phdr_size f * phnum f \<le> 4096"
    and "\<forall>s \<in> segment f ` {0..<phnum f}. seg_ok (platter (view h)) s \<and> touched s \<subseteq> {0x10400..}"
  shows "(if ram16 m (0x8000 + 18) = EM_X86_64 then load_elf64 P 0x8000 m h else load_elf32 P 0x8000 m h) = load_segs P (segments f) m h"
proof (cases "is_elf64 f")
  case True
  then have "0x8000 + ucast (ram64 m (0x8000 + 32)) = (0x8000 + of_nat (phoff f + 56 * 0) :: u32)"
    using ram_header(3) [OF assms(2), of 32] by (simp add: phoff_def)
  then have "load_elf64 P 0x8000 m h = load_segs P (segments f) m h"
    using elf64_loop [OF assms(1) True _ _ assms(2,3) _ assms(5)] assms(4) True by (simp add: load_elf64_def segments_def phdr_size_def)
  then show ?thesis using machine_class [OF assms(2)] True by simp
next
  case False
  then have "0x8000 + ram32 m (0x8000 + 28) = (0x8000 + of_nat (phoff f + 32 * 0) :: u32)"
    using ram_header(2) [OF assms(2), of 28] by (simp add: phoff_def)
  then have "load_elf32 P 0x8000 m h = load_segs P (segments f) m h"
    using elf32_loop [OF assms(1) False _ _ assms(2,3) _ assms(5)] assms(4) False by (simp add: load_elf32_def segments_def phdr_size_def)
  then show ?thesis using machine_class [OF assms(2)] False by simp
qed

text \<open>A processor that finds \<open>is_ap\<close> set jumps to the entry.\<close>

lemma load_kernel_ap:
  assumes "header_in f m"
  shows "load_kernel P (store32 m (BOOTREC_ADDR + 4) 1) g = Some (entry_of f, store32 m (BOOTREC_ADDR + 4) 1, g)"
proof -
  let ?m = "store32 m (BOOTREC_ADDR + 4) 1"
  have "ram32 ?m (BOOTREC_ADDR + 4) \<noteq> 0" by (simp add: ram32_def store32_def of_le32_def BOOTREC_ADDR_def)
  moreover have "header_in f ?m"
    unfolding header_in_def
  proof (intro allI impI)
    fix k :: nat assume k: "k < 4096"
    then have "unat (0x8000 + of_nat k :: u32) = 0x8000 + k" using low_address(1) by simp
    then have "0x8000 + of_nat k \<noteq> c" if "unat c < 0x8000" for c :: u32 using that by (metis le_add1 linorder_not_le)
    from this [of "0x7004"] this [of "0x7005"] this [of "0x7006"] this [of "0x7007"]
    show "?m (0x8000 + of_nat k) = f ! k" using assms k by (simp add: store32_def BOOTREC_ADDR_def header_in_def)
  qed
  ultimately show ?thesis using entry_class [of f ?m] by (simp add: load_kernel_def Let_def)
qed

text \<open>
  C8: on every ATA drive that holds a bootable image, the boot loader of the first processor ends: it has put the
  bytes of every segment of the ELF file, 64-bit or 32-bit, at the segment's address and zeros in the rest of its
  memory, the argument string at \<open>MAINARG_ADDR\<close>, and jumps to the entry of the file; the disk is as it was. A
  processor started later, with \<open>is_ap\<close> set, writes nothing and jumps to the same entry.
\<close>

theorem boot_loads_kernel:
  assumes "ata_drive P ok busy view" and "ata_idle ok view h" and "bootable (platter (view h))"
    and "ram32 m (BOOTREC_ADDR + 4) = 0"
  shows "\<exists>m' h'. load_kernel P m h = Some (entry_of (file_of (platter (view h))), m', h') \<and>
    ata_idle ok view h' \<and> platter (view h') = platter (view h) \<and>
    (\<forall>s \<in> set (segments (file_of (platter (view h)))). loaded (file_of (platter (view h))) s m') \<and>
    (\<forall>k < 1024. m' (MAINARG_ADDR + of_nat k) = platter (view h) ! (512 + k)) \<and>
    (\<forall>g. load_kernel P (store32 m' (BOOTREC_ADDR + 4) 1) g =
       Some (entry_of (file_of (platter (view h))), store32 m' (BOOTREC_ADDR + 4) 1, g))"
proof -
  let ?p = "platter (view h)" and ?f = "file_of (platter (view h))"
  have b: "4096 \<le> length ?f" "phoff ?f + phdr_size ?f * phnum ?f \<le> 4096"
    "\<forall>s \<in> set (segments ?f). seg_ok ?p s \<and> touched s \<subseteq> {0x10400..}"
    "sorted_wrt (\<lambda>s t. touched t \<inter> occupied s = {}) (segments ?f)"
    using assms(3) unfolding bootable_def Let_def by blast+
  obtain m1 h1 where m1: "Option.bind (copy_from_disk P MAINARG_ADDR 1024 (- 1024) m h) (\<lambda>(m, h). copy_from_disk P 0x8000 4096 0 m h) = Some (m1, h1)"
    "ata_idle ok view h1" "platter (view h1) = ?p" "header_in ?f m1" "\<forall>k < 1024. m1 (0x10000 + of_nat k) = ?p ! (512 + k)"
    using copy_headers_ok [OF assms(1,2) b(1)] by blast
  obtain m2 h2 where m2: "load_segs P (segments ?f) m1 h1 = Some (m2, h2)" "ata_idle ok view h2" "platter (view h2) = ?p"
    "\<forall>a. unat a \<notin> \<Union> (touched ` set (segments ?f)) \<longrightarrow> m2 a = m1 a" "\<forall>s \<in> set (segments ?f). loaded ?f s m2"
    using load_segs_ok [OF assms(1) m1(2) _ b(4), of m1] b(3) m1(3) by auto
  have low: "m2 a = m1 a" if "unat a < 0x10400" for a
  proof -
    have "unat a \<notin> \<Union> (touched ` set (segments ?f))"
    proof
      assume "unat a \<in> \<Union> (touched ` set (segments ?f))"
      then obtain s where "s \<in> set (segments ?f)" "unat a \<in> touched s" by blast
      with b(3) have "unat a \<in> {0x10400..}" by blast
      with that show False by simp
    qed
    with m2(4) show ?thesis by blast
  qed
  then have head: "header_in ?f m2" by (intro header_frame [OF m1(4)])
  have segs: "\<forall>s \<in> segment ?f ` {0..<phnum ?f}. seg_ok (platter (view h1)) s \<and> touched s \<subseteq> {0x10400..}"
    using b(3) m1(3) by (auto simp: segments_def)
  note load = trans [OF load_class [OF assms(1) m1(4,2) b(2) segs] m2(1)]
  obtain m0 h0 where "copy_from_disk P MAINARG_ADDR 1024 (- 1024) m h = Some (m0, h0)" "copy_from_disk P 0x8000 4096 0 m0 h0 = Some (m1, h1)"
    using m1(1) by (auto simp: bind_eq_Some_conv split: prod.splits)
  then have "load_kernel P m h = Some (entry_of ?f, m2, h2)"
    using assms(4) load entry_class [OF head] by (simp add: load_kernel_def Let_def)
  moreover have "m2 (MAINARG_ADDR + of_nat k) = ?p ! (512 + k)" if "k < 1024" for k
    using low [of "0x10000 + of_nat k"] low_address(2) [of k] m1(5) that by (simp add: MAINARG_ADDR_def)
  moreover have "load_kernel P (store32 m2 (BOOTREC_ADDR + 4) 1) g = Some (entry_of ?f, store32 m2 (BOOTREC_ADDR + 4) 1, g)" for g
    by (rule load_kernel_ap [OF head])
  ultimately show ?thesis using m2(2,3,5) by blast
qed

text \<open>An image with one segment of three bytes in 600 bytes of memory at 1 MiB.\<close>

definition sim_headers :: "u8 list" where
  "sim_headers =
    [127, 69, 76, 70, 2, 0, 0, 0, 0, 0, 0, 0, 0, 0, 0, 0, 0, 0, 62, 0, 0, 0, 0, 0,
     0, 0, 16, 0, 0, 0, 0, 0, 64, 0, 0, 0, 0, 0, 0, 0, 0, 0, 0, 0, 0, 0, 0, 0,
     0, 0, 0, 0, 0, 0, 0, 0, 1, 0, 0, 0, 0, 0, 0, 0, 1, 0, 0, 0, 0, 0, 0, 0,
     0, 16, 0, 0, 0, 0, 0, 0, 0, 0, 16, 0, 0, 0, 0, 0, 0, 0, 16, 0, 0, 0, 0, 0,
     3, 0, 0, 0, 0, 0, 0, 0, 88, 2, 0, 0, 0, 0, 0, 0, 0, 0, 0, 0, 0, 0, 0, 0]"

definition sim_image :: "u8 list" where
  "sim_image = replicate 1536 0 @ sim_headers @ replicate 3976 0 @ [1, 2, 3] @ replicate 509 0"

lemma sim_file: "file_of sim_image = sim_headers @ replicate 3976 0 @ [1, 2, 3] @ replicate 509 0"
  by (simp add: file_of_def sim_image_def)

lemma length_sim_image [simp]: "length sim_image = 6144"
  by (simp add: sim_image_def sim_headers_def)

lemma sim_segments: "segments (file_of sim_image) = [\<lparr>p_filesz = 3, p_memsz = 600, p_paddr = 0x100000, p_offset = 4096\<rparr>]"
  and sim_phdrs: "phoff (file_of sim_image) = 64" "phdr_size (file_of sim_image) = 56" "phnum (file_of sim_image) = 1"
proof -
  have m: "is_elf64 (file_of sim_image)"
    by (simp add: is_elf64_def file16_def of_le16_def sim_file nth_append sim_headers_def EM_X86_64_def)
  show p: "phoff (file_of sim_image) = 64" "phdr_size (file_of sim_image) = 56" "phnum (file_of sim_image) = 1"
    using m by (simp_all add: phoff_def phdr_size_def phnum_def file64_def file32_def file16_def of_le32_def of_le16_def sim_file nth_append sim_headers_def)
  have "phdr64 (file_of sim_image) 64 = \<lparr>p_filesz = 3, p_memsz = 600, p_paddr = 0x100000, p_offset = 4096\<rparr>"
    by (simp add: phdr64_def file64_def file32_def of_le32_def sim_file nth_append sim_headers_def)
  then show "segments (file_of sim_image) = [\<lparr>p_filesz = 3, p_memsz = 600, p_paddr = 0x100000, p_offset = 4096\<rparr>]"
    using m by (simp add: segments_def segment_def p)
qed

lemma sim_bootable: "bootable sim_image"
  unfolding bootable_def Let_def sim_segments sim_phdrs
  by (auto simp: file_of_def seg_ok_def touched_def sector_start_def sector_end_def)

lemma boot_loads_kernel_witness:
  "\<exists>m' h'. load_kernel sim_ports (\<lambda>_. 0) (sim_disk sim_image) = Some (0x100000, m', h') \<and>
    platter (sim_view h') = sim_image \<and> loaded (file_of sim_image) \<lparr>p_filesz = 3, p_memsz = 600, p_paddr = 0x100000, p_offset = 4096\<rparr> m'"
proof -
  have v: "platter (sim_view (sim_disk sim_image)) = sim_image" by (simp add: sim_disk_def)
  have "is_elf64 (file_of sim_image)"
    by (simp add: is_elf64_def file16_def of_le16_def sim_file nth_append sim_headers_def EM_X86_64_def)
  then have e: "entry_of (file_of sim_image) = 0x100000"
    by (simp add: entry_of_def file64_def file32_def of_le32_def sim_file nth_append sim_headers_def)
  have "ata_idle (\<lambda>_. True) sim_view (sim_disk sim_image)" by (rule sim_idle) simp
  moreover have "ram32 (\<lambda>_. 0) (BOOTREC_ADDR + 4) = 0" by (simp add: ram32_def of_le32_def)
  ultimately show ?thesis
    using boot_loads_kernel [OF sim_is_drive, of "sim_disk sim_image" "\<lambda>_. 0"] sim_bootable unfolding v e sim_segments by auto
qed

end
