(* ===== verification/Mpe_Qemu.thy ===== *)
theory Mpe_Qemu
  imports Boot_Qemu
begin

text \<open>
  The start of the other processors and the stop of all, \<open>am/src/x86/qemu/mpe.c\<close>, as interleavings of the
  processors' steps: the first processor boots them one after the other through the boot record at 0x7000 and
  waits for each by an exchange; whoever halts resets all others into a loop of one instruction.
\<close>

unbundle bit_operations_syntax

section \<open>The boot record\<close>

text \<open>
  Where a processor that starts at the boot record goes: the near and the short jump of 16-bit code, relative to the
  next instruction.
\<close>

definition record_target :: "u32 \<Rightarrow> u32" where
  "record_target jmp_code =
     (if jmp_code AND 0xff = 0xe9 then BOOTREC_ADDR + 3 + (drop_bit 8 jmp_code AND 0xffff)
      else if jmp_code AND 0xff = 0xeb then BOOTREC_ADDR + 2 + scast (ucast (drop_bit 8 jmp_code) :: u8)
      else 0)"

definition JMP_LOADER :: u32 where "JMP_LOADER = 0x000bfde9"
definition JMP_SELF :: u32 where "JMP_SELF = 0x0000feeb"

lemma record_targets: "record_target JMP_LOADER = 0x7c00" "record_target JMP_SELF = BOOTREC_ADDR"
  by (simp_all add: record_target_def JMP_LOADER_def JMP_SELF_def BOOTREC_ADDR_def)

section \<open>The processors\<close>

text \<open>
  Where a processor is: in the kernel before \<open>mpe_init\<close> (the first), in the loop of \<open>mpe_init\<close> about to boot
  processor \<open>c\<close> or polling for it; off, at the boot record, in the boot loader and the start code on the
  shared stack, in a second boot of the first processor, in \<open>othercpu_entry\<close> before and after
  \<open>__am_percpu_init\<close>, in the user's entry, in the loop of \<open>__am_stop_the_world\<close>, halted, or in the loop of the boot record.
\<close>

datatype mp_pc = Kernel | Boot_next nat | Wait_ready nat | Off | At_record | Loader | Boot_again
  | Percpu_init | Announce | User | Stopping nat | Halted | Spinning_at_record

record mp =
  jmp_code :: u32
  is_ap :: u32
  ap_ready :: u32
  pcs :: "nat \<Rightarrow> mp_pc"

definition goto :: "nat \<Rightarrow> mp_pc \<Rightarrow> mp \<Rightarrow> mp" where
  "goto i pc s = s\<lparr>pcs := (pcs s)(i := pc)\<rparr>"

definition xchg :: "u32 \<Rightarrow> u32 \<Rightarrow> u32 \<times> u32" where
  "xchg val newval = (val, newval)"

text \<open>\<open>__am_lapic_bootap\<close>: the INIT interrupt resets the processor, the startup interrupt sets it going at the record.\<close>

definition bootap :: "nat \<Rightarrow> mp \<Rightarrow> mp" where
  "bootap c s = goto c At_record s"

text \<open>The steps of \<open>mpe_init\<close>: entry, one round of the loop, one round of the wait.\<close>

definition mpe_enter :: "mp \<Rightarrow> mp" where
  "mpe_enter s = goto 0 (Boot_next 1) (s\<lparr>jmp_code := JMP_LOADER\<rparr>)"

definition mpe_next :: "nat \<Rightarrow> nat \<Rightarrow> mp \<Rightarrow> mp" where
  "mpe_next ncpu c s = (if c < ncpu then bootap c (goto 0 (Wait_ready c) (s\<lparr>is_ap := 1\<rparr>)) else goto 0 User s)"

definition mpe_poll :: "nat \<Rightarrow> mp \<Rightarrow> mp" where
  "mpe_poll c s = (let (old, new) = xchg (ap_ready s) 0; s = s\<lparr>ap_ready := new\<rparr>
     in goto 0 (if old \<noteq> 1 then Wait_ready c else Boot_next (c + 1)) s)"

text \<open>The jump of the boot record, and \<open>_start_c\<close> with the switch to the processor's own stack.\<close>

definition run_record :: "nat \<Rightarrow> mp \<Rightarrow> mp" where
  "run_record i s = goto i (if record_target (jmp_code s) = 0x7c00 then Loader else Spinning_at_record) s"

definition start_c :: "nat \<Rightarrow> mp \<Rightarrow> mp" where
  "start_c i s = goto i (if is_ap s \<noteq> 0 then Percpu_init else Boot_again) s"

definition othercpu_announce :: "nat \<Rightarrow> mp \<Rightarrow> mp" where
  "othercpu_announce i s = (let (old, new) = xchg (ap_ready s) 1 in goto i User (s\<lparr>ap_ready := new\<rparr>))"

text \<open>\<open>halt\<close>, called or reached by the \<open>panic\<close> after a user's entry that returns.\<close>

definition stop_enter :: "nat \<Rightarrow> mp \<Rightarrow> mp" where
  "stop_enter i s = goto i (Stopping 0) (s\<lparr>jmp_code := JMP_SELF\<rparr>)"

definition stop_next :: "nat \<Rightarrow> nat \<Rightarrow> nat \<Rightarrow> mp \<Rightarrow> mp" where
  "stop_next ncpu i c s =
     (if c < ncpu then (let s = (if c \<noteq> i then bootap c s else s) in goto i (Stopping (c + 1)) s) else goto i Halted s)"

inductive mp_step :: "nat \<Rightarrow> mp \<Rightarrow> mp \<Rightarrow> bool" for ncpu where
  enter: "pcs s 0 = Kernel \<Longrightarrow> mp_step ncpu s (mpe_enter s)"
| boot: "pcs s 0 = Boot_next c \<Longrightarrow> mp_step ncpu s (mpe_next ncpu c s)"
| poll: "pcs s 0 = Wait_ready c \<Longrightarrow> mp_step ncpu s (mpe_poll c s)"
| record_jump: "pcs s i = At_record \<Longrightarrow> mp_step ncpu s (run_record i s)"
| start: "pcs s i = Loader \<Longrightarrow> mp_step ncpu s (start_c i s)"
| percpu: "pcs s i = Percpu_init \<Longrightarrow> mp_step ncpu s (goto i Announce s)"
| announce: "pcs s i = Announce \<Longrightarrow> mp_step ncpu s (othercpu_announce i s)"
| halt: "pcs s i = Kernel \<or> pcs s i = User \<Longrightarrow> mp_step ncpu s (stop_enter i s)"
| stop: "pcs s i = Stopping c \<Longrightarrow> mp_step ncpu s (stop_next ncpu i c s)"

definition mp_boot :: mp where
  "mp_boot = \<lparr>jmp_code = 0, is_ap = 0, ap_ready = 0, pcs = (\<lambda>i. if i = 0 then Kernel else Off)\<rparr>"

inductive mp_reachable :: "nat \<Rightarrow> mp \<Rightarrow> bool" for ncpu where
  start: "mp_reachable ncpu mp_boot"
| step: "mp_reachable ncpu s \<Longrightarrow> mp_step ncpu s t \<Longrightarrow> mp_reachable ncpu t"

inductive_cases mp_stepE: "mp_step ncpu s t"

lemmas mp_defs = mpe_enter_def mpe_next_def mpe_poll_def run_record_def start_c_def othercpu_announce_def
  stop_enter_def stop_next_def bootap_def goto_def xchg_def

section \<open>The invariant\<close>

definition asleep :: "mp_pc \<Rightarrow> bool" where
  "asleep pc \<longleftrightarrow> pc = At_record \<or> pc = Spinning_at_record"

text \<open>Before anyone halts: what the place of the first processor says of the others.\<close>

definition booting :: "nat \<Rightarrow> mp \<Rightarrow> bool" where
  "booting ncpu s \<longleftrightarrow> (case pcs s 0 of
       Kernel \<Rightarrow> ap_ready s = 0 \<and> (\<forall>i > 0. pcs s i = Off)
     | Boot_next c \<Rightarrow> jmp_code s = JMP_LOADER \<and> ap_ready s = 0 \<and> 1 \<le> c \<and> (c = 1 \<or> c \<le> ncpu) \<and>
         (\<forall>i > 0. pcs s i = (if i < c then User else Off))
     | Wait_ready c \<Rightarrow> jmp_code s = JMP_LOADER \<and> is_ap s = 1 \<and> 1 \<le> c \<and> c < ncpu \<and>
         (\<forall>i > 0. i \<noteq> c \<longrightarrow> pcs s i = (if i < c then User else Off)) \<and>
         (if ap_ready s = 1 then pcs s c = User else ap_ready s = 0 \<and> pcs s c \<in> {At_record, Loader, Percpu_init, Announce})
     | User \<Rightarrow> jmp_code s = JMP_LOADER \<and> (\<forall>i > 0. pcs s i = (if i < ncpu then User else Off))
     | _ \<Rightarrow> False)"

text \<open>After: nobody leaves the boot record any more, and what a stopping processor has gone past is asleep.\<close>

definition stop_ok :: "nat \<Rightarrow> u32 \<Rightarrow> (nat \<Rightarrow> mp_pc) \<Rightarrow> bool" where
  "stop_ok ncpu ap pc \<longleftrightarrow> (\<forall>i. pc i \<noteq> Kernel) \<and> (\<forall>c. pc 0 = Boot_next c \<or> pc 0 = Wait_ready c \<longrightarrow> 1 \<le> c) \<and>
     (\<forall>i. pc i = Loader \<longrightarrow> ap = 1) \<and> (\<forall>i. pc i \<noteq> Boot_again) \<and>
     (\<forall>i j. pc i = Loader \<and> pc j = Loader \<longrightarrow> i = j) \<and>
     (\<forall>i j c. pc i = Stopping c \<and> j < c \<and> j \<noteq> i \<longrightarrow> asleep (pc j)) \<and>
     (\<forall>i j. pc i = Halted \<and> j < ncpu \<and> j \<noteq> i \<longrightarrow> asleep (pc j))"

definition stopping :: "nat \<Rightarrow> mp \<Rightarrow> bool" where
  "stopping ncpu s \<longleftrightarrow> jmp_code s = JMP_SELF \<and> stop_ok ncpu (is_ap s) (pcs s)"

lemma stop_ok_upd:
  assumes "\<And>i. i \<noteq> a \<Longrightarrow> f i \<noteq> Kernel \<and> f i \<noteq> Boot_again" and "\<And>i. i \<noteq> a \<Longrightarrow> f i = Loader \<Longrightarrow> ap = 1"
    and "\<And>c. f 0 = Boot_next c \<or> f 0 = Wait_ready c \<Longrightarrow> 1 \<le> c" and "\<And>i j. f i = Loader \<Longrightarrow> f j = Loader \<Longrightarrow> i = j"
    and "\<And>i j c. i \<noteq> a \<Longrightarrow> f i = Stopping c \<Longrightarrow> j < c \<Longrightarrow> j \<noteq> i \<Longrightarrow> asleep (f j)"
    and "\<And>i j. i \<noteq> a \<Longrightarrow> f i = Halted \<Longrightarrow> j < ncpu \<Longrightarrow> j \<noteq> i \<Longrightarrow> asleep (f j)"
    and "asleep (f a) \<Longrightarrow> asleep pc" and "pc \<noteq> Kernel" "pc \<noteq> Boot_again" "pc \<noteq> Loader"
    and "\<And>c. pc = Boot_next c \<or> pc = Wait_ready c \<Longrightarrow> 1 \<le> c"
    and "\<And>j c. pc = Stopping c \<Longrightarrow> j < c \<Longrightarrow> j \<noteq> a \<Longrightarrow> asleep (f j)"
    and "\<And>j. pc = Halted \<Longrightarrow> j < ncpu \<Longrightarrow> j \<noteq> a \<Longrightarrow> asleep (f j)"
  shows "stop_ok ncpu ap (f(a := pc))"
  unfolding stop_ok_def
proof (intro conjI allI impI)
  fix i j c
  show "(f(a := pc)) i \<noteq> Kernel" "(f(a := pc)) i \<noteq> Boot_again" using assms(1) [of i] assms(8,9) by simp_all
  show "1 \<le> c" if "(f(a := pc)) 0 = Boot_next c \<or> (f(a := pc)) 0 = Wait_ready c"
    using that assms(3) [of c] assms(11) [of c] by (cases "a = 0") simp_all
  show "ap = 1" if "(f(a := pc)) i = Loader" using that assms(2) [of i] assms(10) by (cases "i = a") simp_all
  show "i = j" if "(f(a := pc)) i = Loader \<and> (f(a := pc)) j = Loader"
    using that assms(4) [of i j] assms(10) by (cases "i = a"; cases "j = a") simp_all
  have keep: "asleep ((f(a := pc)) j)" if "asleep (f j)" using that assms(7) by (cases "j = a") simp_all
  show "asleep ((f(a := pc)) j)" if "(f(a := pc)) i = Stopping c \<and> j < c \<and> j \<noteq> i"
    using that keep assms(5) [of i c j] assms(12) [of c j] by (cases "i = a") simp_all
  show "asleep ((f(a := pc)) j)" if "(f(a := pc)) i = Halted \<and> j < ncpu \<and> j \<noteq> i"
    using that keep assms(6) [of i j] assms(13) [of j] by (cases "i = a") simp_all
qed

definition mp_inv :: "nat \<Rightarrow> mp \<Rightarrow> bool" where
  "mp_inv ncpu s \<longleftrightarrow> booting ncpu s \<or> stopping ncpu s"

lemma mp_inv_boot: "mp_inv ncpu mp_boot"
  by (simp add: mp_inv_def booting_def mp_boot_def)

lemma booting_places:
  assumes "booting ncpu s"
  shows "pcs s 0 \<in> {Kernel, User} \<or> (\<exists>c \<ge> 1. pcs s 0 = Boot_next c \<or> pcs s 0 = Wait_ready c)"
    and "0 < i \<Longrightarrow> pcs s i \<in> {Off, User} \<or> pcs s 0 = Wait_ready i \<and> pcs s i \<in> {At_record, Loader, Percpu_init, Announce}"
    and "pcs s i = Loader \<Longrightarrow> pcs s 0 = Wait_ready i" and "pcs s i \<noteq> Boot_again" "pcs s i \<noteq> Halted" "pcs s i \<noteq> Stopping c"
    and "pcs s i = Loader \<Longrightarrow> is_ap s = 1"
proof -
  show z: "pcs s 0 \<in> {Kernel, User} \<or> (\<exists>c \<ge> 1. pcs s 0 = Boot_next c \<or> pcs s 0 = Wait_ready c)"
    using assms unfolding booting_def by (auto split: mp_pc.splits)
  have p: "pcs s i \<in> {Off, User} \<or> pcs s 0 = Wait_ready i \<and> pcs s i \<in> {At_record, Loader, Percpu_init, Announce}" if "i > 0" for i
  proof (cases "pcs s 0")
    case (Wait_ready c)
    then show ?thesis using assms that by (cases "i = c") (auto simp: booting_def split: if_splits)
  qed (use assms that in \<open>auto simp: booting_def\<close>)
  then show "0 < i \<Longrightarrow> pcs s i \<in> {Off, User} \<or> pcs s 0 = Wait_ready i \<and> pcs s i \<in> {At_record, Loader, Percpu_init, Announce}" .
  show l: "pcs s i = Loader \<Longrightarrow> pcs s 0 = Wait_ready i" and "pcs s i \<noteq> Boot_again" "pcs s i \<noteq> Halted" "pcs s i \<noteq> Stopping c"
    using p [of i] z by (cases "i = 0"; auto)+
  show "pcs s i = Loader \<Longrightarrow> is_ap s = 1" using l assms by (simp add: booting_def)
qed

lemma booting_ap:
  assumes "booting ncpu s" and "pcs s i = At_record \<or> pcs s i = Loader \<or> pcs s i = Percpu_init \<or> pcs s i = Announce"
  shows "0 < i \<and> pcs s 0 = Wait_ready i"
proof (cases "i = 0")
  case True
  then show ?thesis using booting_places(1) [OF assms(1)] assms(2) by auto
next
  case False
  then show ?thesis using booting_places(2) [OF assms(1), of i] assms(2) by auto
qed

lemma booting_step:
  assumes "booting ncpu s" and "mp_step ncpu s t"
  shows "mp_inv ncpu t"
  using assms(2)
proof cases
  case enter
  then show ?thesis using assms(1) by (auto simp: mp_inv_def booting_def mp_defs)
next
  case (boot c)
  then have b: "jmp_code s = JMP_LOADER" "ap_ready s = 0" "1 \<le> c" "c = 1 \<or> c \<le> ncpu" "\<forall>i > 0. pcs s i = (if i < c then User else Off)"
    using assms(1) by (simp_all add: booting_def)
  show ?thesis
  proof (cases "c < ncpu")
    case True
    then show ?thesis using b boot by (auto simp: mp_inv_def booting_def mp_defs)
  next
    case False
    then show ?thesis using b boot by (auto simp: mp_inv_def booting_def mp_defs)
  qed
next
  case (poll c)
  then show ?thesis using assms(1) by (auto simp: mp_inv_def booting_def mp_defs less_Suc_eq split: if_splits)
next
  case (record_jump i)
  then show ?thesis using assms(1) booting_ap [OF assms(1), of i] by (auto simp: mp_inv_def booting_def mp_defs record_targets)
next
  case (start i)
  then show ?thesis using assms(1) booting_ap [OF assms(1), of i] by (auto simp: mp_inv_def booting_def mp_defs split: if_splits)
next
  case (percpu i)
  then show ?thesis using assms(1) booting_ap [OF assms(1), of i] by (auto simp: mp_inv_def booting_def mp_defs split: if_splits)
next
  case (announce i)
  then show ?thesis using assms(1) booting_ap [OF assms(1), of i] by (auto simp: mp_inv_def booting_def mp_defs split: if_splits)
next
  case (halt i)
  note places = booting_places [OF assms(1)]
  have unique: "i = j" if "pcs s i = Loader" "pcs s j = Loader" for i j
    using places(3) [OF that(1)] places(3) [OF that(2)] by simp
  have kernel: "pcs s j \<noteq> Kernel" if "0 < j" for j using places(2) [OF that] by auto
  have first: "1 \<le> c" if "pcs s 0 = Boot_next c \<or> pcs s 0 = Wait_ready c" for c using places(1) that by auto
  have "i = 0" if "pcs s 0 = Kernel" using halt(2) that assms(1) kernel by (cases "i = 0") (auto simp: booting_def)
  then have others: "pcs s j \<noteq> Kernel" if "j \<noteq> i" for j using that kernel by (cases "j = 0") auto
  have awake: "\<not> asleep (pcs s i)" using halt(2) by (auto simp: asleep_def)
  have "stop_ok ncpu (is_ap s) ((pcs s)(i := Stopping 0))"
  proof (rule stop_ok_upd)
    show "pcs s j \<noteq> Kernel \<and> pcs s j \<noteq> Boot_again" if "j \<noteq> i" for j using others [OF that] places(4) by simp
    show "is_ap s = 1" if "pcs s j = Loader" for j using places(7) [OF that] .
    show "1 \<le> c" if "pcs s 0 = Boot_next c \<or> pcs s 0 = Wait_ready c" for c using first [OF that] .
    show "j = k" if "pcs s j = Loader" "pcs s k = Loader" for j k using unique [OF that] .
  qed (simp_all add: places(5,6) awake)
  then have "stopping ncpu t" unfolding halt(1) by (simp add: stopping_def stop_enter_def goto_def)
  then show ?thesis by (simp add: mp_inv_def)
next
  case (stop i c)
  then show ?thesis using booting_places(6) [OF assms(1)] by blast
qed

lemma stopping_goto:
  assumes "stopping ncpu s" and "asleep (pcs s a) \<Longrightarrow> asleep pc" and "pc \<noteq> Loader" "pc \<noteq> Boot_again" "pc \<noteq> Kernel"
    and "\<And>c. pc = Boot_next c \<or> pc = Wait_ready c \<Longrightarrow> 1 \<le> c"
    and "\<And>c j. pc = Stopping c \<Longrightarrow> j < c \<Longrightarrow> j \<noteq> a \<Longrightarrow> asleep (pcs s j)"
    and "\<And>j. pc = Halted \<Longrightarrow> j < ncpu \<Longrightarrow> j \<noteq> a \<Longrightarrow> asleep (pcs s j)"
  shows "stopping ncpu (goto a pc s)"
proof -
  have "stop_ok ncpu (is_ap s) (pcs s)" "jmp_code s = JMP_SELF" using assms(1) by (simp_all add: stopping_def)
  moreover from this(1) have "stop_ok ncpu (is_ap s) ((pcs s)(a := pc))"
    using assms(2-8) by (intro stop_ok_upd) (unfold stop_ok_def, blast+)
  ultimately show ?thesis by (simp add: stopping_def goto_def)
qed

lemma stopping_flags:
  "stopping ncpu (s\<lparr>ap_ready := v\<rparr>) = stopping ncpu s" "stopping ncpu s \<Longrightarrow> stopping ncpu (s\<lparr>is_ap := 1\<rparr>)"
  "stopping ncpu s \<Longrightarrow> stopping ncpu (s\<lparr>jmp_code := JMP_SELF\<rparr>)"
proof -
  have "stop_ok ncpu 1 pc" if "stop_ok ncpu ap pc" for ap pc using that unfolding stop_ok_def by blast
  then show "stopping ncpu s \<Longrightarrow> stopping ncpu (s\<lparr>is_ap := 1\<rparr>)" by (auto simp: stopping_def)
qed (simp_all add: stopping_def)

lemma asleep_simps [simp]: "asleep At_record" "asleep Spinning_at_record" "\<not> asleep User" "\<not> asleep (Stopping c)" "\<not> asleep Loader"
  "\<not> asleep (Boot_next c)" "\<not> asleep (Wait_ready c)" "\<not> asleep Percpu_init" "\<not> asleep Announce" "\<not> asleep Kernel"
  by (simp_all add: asleep_def)

lemma stopping_step:
  assumes "stopping ncpu s" and "mp_step ncpu s t"
  shows "stopping ncpu t"
  using assms(2)
proof cases
  case enter
  then show ?thesis using assms(1) by (simp add: stopping_def stop_ok_def)
next
  case (boot c)
  have c: "1 \<le> c" using assms(1) boot unfolding stopping_def stop_ok_def by blast
  have "stopping ncpu (goto 0 (Wait_ready c) (s\<lparr>is_ap := 1\<rparr>))"
    using boot c by (intro stopping_goto stopping_flags assms(1)) simp_all
  then have "stopping ncpu (goto c At_record (goto 0 (Wait_ready c) (s\<lparr>is_ap := 1\<rparr>)))" by (rule stopping_goto) simp_all
  moreover have "stopping ncpu (goto 0 User s)" using boot by (intro stopping_goto assms(1)) simp_all
  ultimately show ?thesis using boot by (simp add: mpe_next_def bootap_def)
next
  case (poll c)
  have "1 \<le> c" using assms(1) poll unfolding stopping_def stop_ok_def by blast
  then have "stopping ncpu (goto 0 (if ap_ready s \<noteq> 1 then Wait_ready c else Boot_next (c + 1)) (s\<lparr>ap_ready := 0\<rparr>))"
    using poll assms(1) by (intro stopping_goto) (auto simp: stopping_flags split: if_splits)
  then show ?thesis using poll by (simp add: mpe_poll_def xchg_def)
next
  case (record_jump i)
  have "record_target (jmp_code s) \<noteq> 0x7c00" using assms(1) by (simp add: stopping_def record_targets BOOTREC_ADDR_def)
  moreover have "stopping ncpu (goto i Spinning_at_record s)" by (intro stopping_goto assms(1)) simp_all
  ultimately show ?thesis using record_jump by (simp add: run_record_def)
next
  case (start i)
  have "is_ap s \<noteq> 0" using assms(1) start unfolding stopping_def stop_ok_def by fastforce
  moreover have "stopping ncpu (goto i Percpu_init s)" using start by (intro stopping_goto assms(1)) simp_all
  ultimately show ?thesis using start by (simp add: start_c_def)
next
  case (percpu i)
  then show ?thesis by (auto intro!: stopping_goto assms(1))
next
  case (announce i)
  then have "stopping ncpu (goto i User (s\<lparr>ap_ready := 1\<rparr>))" using assms(1) by (intro stopping_goto) (simp_all add: stopping_flags)
  then show ?thesis using announce by (simp add: othercpu_announce_def xchg_def)
next
  case (halt i)
  then have "stopping ncpu (goto i (Stopping 0) (s\<lparr>jmp_code := JMP_SELF\<rparr>))"
    by (intro stopping_goto stopping_flags assms(1)) auto
  then show ?thesis using halt by (simp add: stop_enter_def)
next
  case (stop i c)
  have past: "asleep (pcs s j)" if "j < c" "j \<noteq> i" for j using assms(1) stop that unfolding stopping_def stop_ok_def by blast
  show ?thesis
  proof (cases "c < ncpu")
    case True
    let ?s = "if c \<noteq> i then goto c At_record s else s"
    have "stopping ncpu (goto c At_record s)" by (intro stopping_goto assms(1)) simp_all
    then have "stopping ncpu ?s" using assms(1) by simp
    then have "stopping ncpu (goto i (Stopping (c + 1)) ?s)"
    proof (rule stopping_goto)
      have "pcs ?s i = Stopping c" using stop by (simp add: goto_def)
      then show "asleep (pcs ?s i) \<Longrightarrow> asleep (Stopping (c + 1))" by simp
    qed (use past in \<open>auto simp: goto_def less_Suc_eq\<close>)
    then show ?thesis using stop True by (auto simp: stop_next_def bootap_def Let_def)
  next
    case False
    then have "stopping ncpu (goto i Halted s)" using stop past by (intro stopping_goto assms(1)) auto
    then show ?thesis using stop False by (simp add: stop_next_def)
  qed
qed

lemma mp_reachable_inv: "mp_reachable ncpu s \<Longrightarrow> mp_inv ncpu s"
proof (induction rule: mp_reachable.induct)
  case start
  show ?case by (rule mp_inv_boot)
next
  case (step s t)
  then show ?case using booting_step stopping_step unfolding mp_inv_def by blast
qed

section \<open>All processors come up\<close>

text \<open>The run in which each processor starts as soon as it is booted.\<close>

definition up_to :: "nat \<Rightarrow> u32 \<Rightarrow> mp" where
  "up_to c ap = \<lparr>jmp_code = JMP_LOADER, is_ap = ap, ap_ready = 0,
     pcs = (\<lambda>i. if i = 0 then Boot_next c else if i < c then User else Off)\<rparr>"

lemma boot_one:
  assumes "mp_reachable ncpu (up_to c ap)" and "1 \<le> c" and "c < ncpu"
  shows "mp_reachable ncpu (up_to (c + 1) 1)"
proof -
  let ?s1 = "mpe_next ncpu c (up_to c ap)"
  let ?s2 = "run_record c ?s1" let ?s3 = "start_c c ?s2" let ?s4 = "goto c Announce ?s3"
  let ?s5 = "othercpu_announce c ?s4" let ?s6 = "mpe_poll c ?s5"
  note c = assms(2,3)
  have s1: "mp_reachable ncpu ?s1" using assms(1) by (rule mp_reachable.step) (rule mp_step.boot, simp add: up_to_def)
  have s2: "mp_reachable ncpu ?s2" using s1 by (rule mp_reachable.step) (rule mp_step.record_jump, use c in \<open>simp add: up_to_def mp_defs\<close>)
  have s3: "mp_reachable ncpu ?s3"
    using s2 by (rule mp_reachable.step) (rule mp_step.start, use c in \<open>simp add: up_to_def mp_defs record_targets\<close>)
  have s4: "mp_reachable ncpu ?s4" using s3 by (rule mp_reachable.step) (rule mp_step.percpu, use c in \<open>simp add: up_to_def mp_defs\<close>)
  have s5: "mp_reachable ncpu ?s5" using s4 by (rule mp_reachable.step) (rule mp_step.announce, simp add: mp_defs)
  have s6: "mp_reachable ncpu ?s6" using s5 by (rule mp_reachable.step) (rule mp_step.poll, use c in \<open>simp add: up_to_def mp_defs\<close>)
  moreover have "?s6 = up_to (c + 1) 1"
    using c by (auto simp: up_to_def mp_defs record_targets fun_eq_iff)
  ultimately show ?thesis by simp
qed

lemma all_up:
  assumes "1 \<le> c" and "c \<le> ncpu"
  shows "\<exists>ap. mp_reachable ncpu (up_to c ap)"
  using assms
proof (induction c rule: dec_induct)
  case base
  have "mp_reachable ncpu (mpe_enter mp_boot)"
    by (rule mp_reachable.step [OF mp_reachable.start]) (rule mp_step.enter, simp add: mp_boot_def)
  moreover have "mpe_enter mp_boot = up_to 1 0" by (auto simp: mp_defs mp_boot_def up_to_def fun_eq_iff)
  ultimately show ?case by metis
next
  case (step c)
  then show ?case using boot_one [of ncpu c] by fastforce
qed

section \<open>The properties\<close>

text \<open>
  C9: in every interleaving of the processors, at most one of them is in the boot loader and the start code, whose
  memory and stack are shared; none starts as the first processor a second time; as long as nobody has halted, the
  first processor enters the user's code only when every other one is in it; and when a processor has halted, every
  other one is asleep at the boot record, which jumps to itself. For every number of processors there is a run
  in which all of them enter the user's code.
\<close>

theorem processors_start_and_stop:
  assumes "mp_reachable ncpu s"
  shows "(\<forall>i j. pcs s i = Loader \<and> pcs s j = Loader \<longrightarrow> i = j) \<and> (\<forall>i. pcs s i \<noteq> Boot_again) \<and>
    (pcs s 0 = User \<and> jmp_code s \<noteq> JMP_SELF \<longrightarrow> (\<forall>i < ncpu. pcs s i = User)) \<and>
    (\<forall>i. pcs s i = Halted \<longrightarrow> jmp_code s = JMP_SELF \<and> (\<forall>j < ncpu. j \<noteq> i \<longrightarrow> pcs s j = At_record \<or> pcs s j = Spinning_at_record)) \<and>
    (0 < ncpu \<longrightarrow> (\<exists>t. mp_reachable ncpu t \<and> (\<forall>i < ncpu. pcs t i = User)))"
proof -
  have "\<exists>t. mp_reachable ncpu t \<and> (\<forall>i < ncpu. pcs t i = User)" if "0 < ncpu"
  proof -
    from that have "1 \<le> ncpu" by simp
    then obtain ap where r: "mp_reachable ncpu (up_to ncpu ap)" using all_up [of ncpu ncpu] by blast
    have "mp_reachable ncpu (mpe_next ncpu ncpu (up_to ncpu ap))"
      using r by (rule mp_reachable.step) (rule mp_step.boot, simp add: up_to_def)
    moreover have "pcs (mpe_next ncpu ncpu (up_to ncpu ap)) i = User" if "i < ncpu" for i
      using that by (simp add: mp_defs up_to_def)
    ultimately show ?thesis by blast
  qed
  moreover have "mp_inv ncpu s" using assms by (rule mp_reachable_inv)
  then consider "booting ncpu s" | "stopping ncpu s" unfolding mp_inv_def by blast
  then have "(\<forall>i j. pcs s i = Loader \<and> pcs s j = Loader \<longrightarrow> i = j) \<and> (\<forall>i. pcs s i \<noteq> Boot_again) \<and>
    (pcs s 0 = User \<and> jmp_code s \<noteq> JMP_SELF \<longrightarrow> (\<forall>i < ncpu. pcs s i = User)) \<and>
    (\<forall>i. pcs s i = Halted \<longrightarrow> jmp_code s = JMP_SELF \<and> (\<forall>j < ncpu. j \<noteq> i \<longrightarrow> pcs s j = At_record \<or> pcs s j = Spinning_at_record))"
  proof cases
    case 1
    note places = booting_places [OF 1]
    have "i = j" if "pcs s i = Loader" "pcs s j = Loader" for i j using places(3) [OF that(1)] places(3) [OF that(2)] by simp
    moreover have "pcs s 0 = User \<Longrightarrow> \<forall>i < ncpu. pcs s i = User"
    proof (intro allI impI)
      fix i assume "pcs s 0 = User" "i < ncpu"
      then show "pcs s i = User" using 1 by (cases "i = 0") (auto simp: booting_def)
    qed
    ultimately show ?thesis using places(4,5) by blast
  next
    case 2
    then show ?thesis unfolding stopping_def stop_ok_def asleep_def by blast
  qed
  ultimately show ?thesis by blast
qed

lemma processors_start_and_stop_witness:
  "mp_reachable 2 (stop_enter 0 mp_boot) \<and> pcs (stop_enter 0 mp_boot) 0 = Stopping 0 \<and>
    (\<forall>i. pcs (stop_enter 0 mp_boot) i \<noteq> Boot_again)"
proof -
  have r: "mp_reachable 2 (stop_enter 0 mp_boot)"
    by (rule mp_reachable.step [OF mp_reachable.start]) (rule mp_step.halt, simp add: mp_boot_def)
  then show ?thesis using processors_start_and_stop [OF r] by (simp add: stop_enter_def goto_def)
qed

section \<open>The counts\<close>

definition cpu_count :: "u32 \<Rightarrow> u32" where
  "cpu_count am_ncpu = am_ncpu"

text \<open>The number of the processor is in the high byte of word 8 of its local APIC.\<close>

definition cpu_current :: "u32 \<Rightarrow> u32" where
  "cpu_current lapic_8 = drop_bit 24 lapic_8"

end
