(* ===== verification/Kernel_Main.thy ===== *)
theory Kernel_Main
  imports Ioe_Qemu Disk_Ata Gpu_Render Cte_Qemu Mpe_Qemu
begin

text \<open>
  The device registers of the qemu platform behind one table, the end of its part of \<open>am/src/x86/qemu/ioe.c\<close>, and the start of the
  kernel on it: \<open>kernel/framework/main.c\<close> with the modules \<open>os\<close> of \<open>kernel/src/os.c\<close> and \<open>pmm\<close>.
\<close>

section \<open>Registers\<close>

text \<open>The handlers of the table; the numbers are those of \<open>amdev.h\<close>.\<close>

datatype io_handler = Uart_config | Uart_tx | Uart_rx | Timer_config | Timer_rtc | Timer_uptime | Input_config | Input_keybrd
  | Gpu_config | Gpu_fbdraw | Gpu_status | Gpu_memcpy | Gpu_render | Audio_config | Disk_config | Disk_status | Disk_blkio | Net_config | Fail

definition lut_init :: "(nat \<times> io_handler) list" where
  "lut_init = [(1, Uart_config), (2, Uart_tx), (3, Uart_rx), (4, Timer_config), (5, Timer_rtc), (6, Timer_uptime),
     (7, Input_config), (8, Input_keybrd), (9, Gpu_config), (11, Gpu_fbdraw), (10, Gpu_status), (12, Gpu_memcpy), (13, Gpu_render),
     (14, Audio_config), (18, Disk_config), (19, Disk_status), (20, Disk_blkio), (21, Net_config)]"

text \<open>The array with its initialisers, and the loop of \<open>ioe_init\<close> that fills the rest.\<close>

definition lut_start :: "io_handler option list" where
  "lut_start = fold (\<lambda>(r, f) l. l[r := Some f]) lut_init (replicate 128 None)"

definition lut_fill :: "io_handler option list \<Rightarrow> io_handler option list" where
  "lut_fill l = fold (\<lambda>i l. if l ! i = None then l[i := Some Fail] else l) [0..<128] l"

text \<open>What the registers of a device have, read or written.\<close>

datatype io_buf = Uart_data u8 | Present bool | Timer_present bool bool | Date rtc | Uptime u64 | Key bool int
  | Gpu_info bool bool int int int | Ready bool | Draw int int "u32 list" int int | Copy u32 "u8 list" | Root u32
  | Disk_info bool u32 u32 | Block_io bool "u8 list" u32 u32

record 'h devices =
  hw :: 'h
  clock :: timer_st
  gpu_dev :: accel
  lut :: "io_handler option list"

definition ends_in :: "'b option \<Rightarrow> 'b res" where
  "ends_in m = (case m of None \<Rightarrow> Inl Deadlock | Some x \<Rightarrow> Inr x)"

lemma ends_in_simps [simp]: "ends_in (Some x) = Inr x" "ends_in None = Inl Deadlock"
  by (simp_all add: ends_in_def)

text \<open>One handler on its buffer; a buffer of another register is a type error of the caller.\<close>

definition run_handler :: "'h port_io \<Rightarrow> ('h \<Rightarrow> u64 \<times> 'h) \<Rightarrow> io_handler \<Rightarrow> io_buf \<Rightarrow> 'h devices \<Rightarrow> (io_buf \<times> 'h devices) res" where
  "run_handler P rdtsc f b d =
     (case f of
        Uart_config \<Rightarrow> (case b of Present _ \<Rightarrow> Inr (Present True, d)
        | _ \<Rightarrow> Inl BadAccess)
      | Uart_tx \<Rightarrow> (case b of Uart_data c \<Rightarrow> Inr (Uart_data c, d\<lparr>hw := uart_tx P c (hw d)\<rparr>)
        | _ \<Rightarrow> Inl BadAccess)
      | Uart_rx \<Rightarrow> (case b of Uart_data _ \<Rightarrow> (let (c, h) = uart_rx P (hw d) in Inr (Uart_data c, d\<lparr>hw := h\<rparr>))
        | _ \<Rightarrow> Inl BadAccess)
      | Timer_config \<Rightarrow> (case b of Timer_present _ _ \<Rightarrow> Inr (Timer_present True True, d)
        | _ \<Rightarrow> Inl BadAccess)
      | Timer_rtc \<Rightarrow> (case b of Date _ \<Rightarrow> res_bind (ends_in (timer_rtc P (hw d))) (\<lambda>(t, h). Inr (Date t, d\<lparr>hw := h\<rparr>))
        | _ \<Rightarrow> Inl BadAccess)
      | Timer_uptime \<Rightarrow> (case b of Uptime _ \<Rightarrow> res_bind (timer_uptime (clock d) rdtsc (hw d)) (\<lambda>(t, h). Inr (Uptime t, d\<lparr>hw := h\<rparr>))
        | _ \<Rightarrow> Inl BadAccess)
      | Input_config \<Rightarrow> (case b of Present _ \<Rightarrow> Inr (Present True, d)
        | _ \<Rightarrow> Inl BadAccess)
      | Input_keybrd \<Rightarrow> (case b of Key _ _ \<Rightarrow> (let ((down, code), h) = input_keybrd P (hw d) in Inr (Key down code, d\<lparr>hw := h\<rparr>))
        | _ \<Rightarrow> Inl BadAccess)
      | Gpu_config \<Rightarrow> (case b of Gpu_info _ _ _ _ _ \<Rightarrow> (let (w, h) = gpu_config (gpu (gpu_dev d)) in Inr (Gpu_info True False w h VMEM_SIZE, d))
        | _ \<Rightarrow> Inl BadAccess)
      | Gpu_fbdraw \<Rightarrow> (case b of Draw x y ps w h \<Rightarrow> res_bind (gpu_fbdraw x y ps w h (gpu (gpu_dev d))) (\<lambda>g. Inr (Draw x y ps w h, d\<lparr>gpu_dev := (gpu_dev d)\<lparr>gpu := g\<rparr>\<rparr>))
        | _ \<Rightarrow> Inl BadAccess)
      | Gpu_status \<Rightarrow> (case b of Ready _ \<Rightarrow> Inr (Ready True, d)
        | _ \<Rightarrow> Inl BadAccess)
      | Gpu_memcpy \<Rightarrow> (case b of Copy dest src \<Rightarrow> res_bind (gpu_memcpy dest src (gpu_dev d)) (\<lambda>a. Inr (Copy dest src, d\<lparr>gpu_dev := a\<rparr>))
        | _ \<Rightarrow> Inl BadAccess)
      | Gpu_render \<Rightarrow> (case b of Root r \<Rightarrow> res_bind (ends_in (gpu_render r (gpu_dev d))) (\<lambda>m. res_bind m (\<lambda>a. Inr (Root r, d\<lparr>gpu_dev := a\<rparr>)))
        | _ \<Rightarrow> Inl BadAccess)
      | Audio_config \<Rightarrow> (case b of Present _ \<Rightarrow> Inr (Present False, d)
        | _ \<Rightarrow> Inl BadAccess)
      | Disk_config \<Rightarrow> (case b of Disk_info _ _ _ \<Rightarrow> (let (p, s, c) = disk_config_ata (hw d) in Inr (Disk_info p s c, d))
        | _ \<Rightarrow> Inl BadAccess)
      | Disk_status \<Rightarrow> (case b of Ready _ \<Rightarrow> Inr (Ready (disk_status_ata (hw d)), d)
        | _ \<Rightarrow> Inl BadAccess)
      | Disk_blkio \<Rightarrow> (case b of Block_io wr buf blkno blkcnt \<Rightarrow> res_bind (disk_blkio_ata P wr buf blkno blkcnt (hw d)) (\<lambda>(buf, h). Inr (Block_io wr buf blkno blkcnt, d\<lparr>hw := h\<rparr>))
        | _ \<Rightarrow> Inl BadAccess)
      | Net_config \<Rightarrow> (case b of Present _ \<Rightarrow> Inr (Present False, d)
        | _ \<Rightarrow> Inl BadAccess)
      | Fail \<Rightarrow> Inl Panic)"

text \<open>\<open>ioe_read\<close> and \<open>ioe_write\<close> are the same call.\<close>

definition ioe_access :: "'h port_io \<Rightarrow> ('h \<Rightarrow> u64 \<times> 'h) \<Rightarrow> nat \<Rightarrow> io_buf \<Rightarrow> 'h devices \<Rightarrow> (io_buf \<times> 'h devices) res" where
  "ioe_access P rdtsc reg buf d =
     res_bind (guard BadAccess (reg < length (lut d))) (\<lambda>_.
     case lut d ! reg of None \<Rightarrow> Inl BadAccess | Some f \<Rightarrow> run_handler P rdtsc f buf d)"

text \<open>\<open>m\<close> is the memory with the data of the firmware about the screen, \<open>mem\<close> the pixels the frame buffer starts with.\<close>

definition ioe_init :: "nat \<Rightarrow> 'h port_io \<Rightarrow> ('h \<Rightarrow> u64 \<times> 'h) \<Rightarrow> (nat \<Rightarrow> u8) \<Rightarrow> pixel list \<Rightarrow> 'h devices \<Rightarrow> 'h devices res" where
  "ioe_init cpu P rdtsc m mem d =
     res_bind (guard Panic (cpu = 0)) (\<lambda>_.
     let d = d\<lparr>lut := lut_fill (lut d), hw := uart_init P (hw d)\<rparr>
     in res_bind (ends_in (timer_init P rdtsc (hw d))) (\<lambda>(t, h).
        Inr (d\<lparr>clock := t, hw := h, gpu_dev := (gpu_dev d)\<lparr>gpu := gpu_init (mem16 m (0x4000 + 18)) (mem16 m (0x4000 + 20)) mem\<rparr>\<rparr>)))"

section \<open>The table\<close>

lemma fold_fill:
  "n \<le> length l \<Longrightarrow> length (fold (\<lambda>i l. if l ! i = None then l[i := Some Fail] else l) [0..<n] l) = length l \<and>
     (\<forall>j < length l. fold (\<lambda>i l. if l ! i = None then l[i := Some Fail] else l) [0..<n] l ! j =
       (if j < n \<and> l ! j = None then Some Fail else l ! j))"
  by (induction n) (auto simp: nth_list_update less_Suc_eq)

lemma lut_start_nth: "r < 128 \<Longrightarrow> lut_start ! r = map_of lut_init r" and length_lut_start: "length lut_start = 128"
  by (simp_all add: lut_start_def lut_init_def nth_list_update)

text \<open>Every number below 128 has a handler: its own, or the one that stops the program.\<close>

lemma lut_fill_start:
  assumes "r < 128"
  shows "lut_fill lut_start ! r = Some (case map_of lut_init r of None \<Rightarrow> Fail | Some f \<Rightarrow> f)" and "length (lut_fill lut_start) = 128"
  using fold_fill [of 128 lut_start] assms lut_start_nth [OF assms] length_lut_start
  by (simp_all add: lut_fill_def split: option.splits)

text \<open>The registers a program may use; every other one stops it.\<close>

lemma ioe_registers:
  assumes "lut d = lut_fill lut_start" and "reg < 128"
  shows "ioe_access P rdtsc reg buf d = (case map_of lut_init reg of None \<Rightarrow> Inl Panic | Some f \<Rightarrow> run_handler P rdtsc f buf d)"
  using lut_fill_start [OF assms(2)] assms by (simp add: ioe_access_def run_handler_def split: option.splits)

section \<open>The kernel\<close>

text \<open>
  The members of the module \<open>os\<close>, where one that is not initialised is null; \<open>'k\<close> is the state of the kernel's handler.
  \<open>os_run\<close> is a loop with no state.
\<close>

record 'k os_module =
  init :: "slabs \<Rightarrow> slabs res"
  trap :: "'k handler option"

definition os_init :: "nat \<Rightarrow> slabs \<Rightarrow> slabs res" where
  "os_init ncpu st = pmm_init ncpu st"

definition os :: "nat \<Rightarrow> 'k os_module" where
  "os ncpu = \<lparr>init = os_init ncpu, trap = None\<rparr>"

record ('h, 'k) kernel =
  devs :: "'h devices"
  idt :: "GateDesc64 list"
  user_handler :: "'k handler option"
  mem :: slabs
  cpus :: mp

text \<open>
  \<open>main\<close> on the first processor up to the start of the others, which then is the step relation of \<open>Mpe_Qemu\<close>; \<open>irqall\<close> and
  \<open>irq\<close> are the addresses of the stubs.
\<close>

definition kernel_main ::
    "'h port_io \<Rightarrow> ('h \<Rightarrow> u64 \<times> 'h) \<Rightarrow> (nat \<Rightarrow> u8) \<Rightarrow> pixel list \<Rightarrow> u64 \<Rightarrow> (nat \<Rightarrow> u64) \<Rightarrow> 'k os_module \<Rightarrow> ('h, 'k) kernel \<Rightarrow> ('h, 'k) kernel res" where
  "kernel_main P rdtsc m fb irqall irq md k =
     res_bind (ioe_init 0 P rdtsc m fb (devs k)) (\<lambda>d.
     res_bind (cte_init 0 irqall irq (trap md)) (\<lambda>(t, f).
     res_bind (init md (mem k)) (\<lambda>st.
     Inr (k\<lparr>devs := d, idt := t, user_handler := Some f, mem := st, cpus := mpe_enter (cpus k)\<rparr>))))"

definition kernel_boot :: "'h devices \<Rightarrow> slabs \<Rightarrow> ('h, 'k) kernel" where
  "kernel_boot d st = \<lparr>devs = d\<lparr>lut := lut_start\<rparr>, idt = [], user_handler = None, mem = st, cpus = mp_boot\<rparr>"

lemma ioe_init_ok:
  assumes "timer_init P rdtsc (uart_init P (hw d)) = Some (t, h)" and "lut d = lut_start"
  shows "\<exists>d'. ioe_init 0 P rdtsc m fb d = Inr d' \<and> lut d' = lut_fill lut_start \<and> clock d' = t \<and> hw d' = h"
  using assms by (simp add: ioe_init_def)

lemma cte_init_some: "\<exists>t. cte_init 0 irqall irq (Some f) = Inr (t, f)"
  by (simp add: cte_init_def)

lemma mpe_enter_step: "mp_step ncpu mp_boot (mpe_enter mp_boot)"
  by (rule mp_step.enter) (simp add: mp_boot_def)

text \<open>
  C12: The start of the kernel on the qemu platform, where the initialisation of the clock ends, which waits for the seconds of the
  real-time clock to change. With the module \<open>os\<close> as it stands, whose member \<open>trap\<close> nobody sets, \<open>main\<close>
  panics in \<open>cte_init\<close>, and so before the allocator is there: it does so whatever \<open>os->init\<close> would do, even fault itself. With any
  handler set it goes on to \<open>os->init\<close>, whose fault would be the kernel's; and with the module's own \<open>init\<close>, for at most 8 processors,
  on a heap of at least nine pages for each processor and less than 8192 pages, which ends in the lower half of the address space, it
  reaches the start of the other processors with every device register in the table served and any other number refused, the handler
  installed and the allocator's invariant established.
\<close>

theorem kernel_main_needs_trap:
  fixes d :: "'h devices" and f :: "'k handler"
  assumes "timer_init P rdtsc (uart_init P (hw d)) = Some (t, h)"
    and "first_page (unat (heap_start st)) \<le> unat (heap_end st)" "unat (heap_end st) \<le> 2 ^ 63"
    and "n = (unat (heap_end st) - first_page (unat (heap_start st))) div 65536" "n < META_SZ"
    and "ncpu \<le> SLAB_CPUS" "SLAB_SIZE * ncpu \<le> n"
  shows "kernel_main P rdtsc m fb irqall irq (os ncpu :: 'k os_module) (kernel_boot d st) = Inl Panic \<and>
    (\<forall>i. kernel_main P rdtsc m fb irqall irq ((os ncpu :: 'k os_module)\<lparr>init := i\<rparr>) (kernel_boot d st) = Inl Panic) \<and>
    (\<forall>i e. i st = Inl e \<longrightarrow> kernel_main P rdtsc m fb irqall irq ((os ncpu)\<lparr>init := i, trap := Some f\<rparr>) (kernel_boot d st) = Inl e) \<and>
    (\<exists>k. kernel_main P rdtsc m fb irqall irq ((os ncpu)\<lparr>trap := Some f\<rparr>) (kernel_boot d st) = Inr k \<and>
      user_handler k = Some f \<and> pmm_inv (mem k) \<and> objs (mem k) = {} \<and> n_slab (mem k) = ncpu \<and>
      mp_reachable ncpu (cpus k) \<and> pcs (cpus k) 0 = Boot_next 1 \<and>
      (\<forall>reg buf. reg < 128 \<longrightarrow> map_of lut_init reg = None \<longrightarrow> ioe_access P rdtsc reg buf (devs k) = Inl Panic) \<and>
      (\<forall>reg g buf. map_of lut_init reg = Some g \<longrightarrow> reg < 128 \<longrightarrow> ioe_access P rdtsc reg buf (devs k) = run_handler P rdtsc g buf (devs k)))"
proof -
  let ?k = "kernel_boot d st :: ('h, 'k) kernel"
  have b: "devs ?k = d\<lparr>lut := lut_start\<rparr>" "mem ?k = st" "cpus ?k = mp_boot" by (simp_all add: kernel_boot_def)
  have t: "timer_init P rdtsc (uart_init P (hw (devs ?k))) = Some (t, h)" "lut (devs ?k) = lut_start" using assms(1) b(1) by simp_all
  obtain d' where d': "ioe_init 0 P rdtsc m fb (devs ?k) = Inr d'" "lut d' = lut_fill lut_start" using ioe_init_ok [OF t] by blast
  have "cte_init 0 irqall irq (None :: 'k handler option) = Inl Panic" by (simp add: cte_init_def)
  then have any: "\<forall>i. kernel_main P rdtsc m fb irqall irq ((os ncpu)\<lparr>init := i\<rparr>) ?k = Inl Panic" "kernel_main P rdtsc m fb irqall irq (os ncpu) ?k = Inl Panic"
    using d'(1) by (simp_all add: kernel_main_def os_def)
  have trapped: "\<forall>i e. i st = Inl e \<longrightarrow> kernel_main P rdtsc m fb irqall irq ((os ncpu)\<lparr>init := i, trap := Some f\<rparr>) ?k = Inl e"
    using d'(1) b cte_init_some [of irqall irq f] by (auto simp: kernel_main_def)
  note any(2)
  moreover obtain st' where st': "pmm_init ncpu st = Inr st'" "pmm_inv st'" "objs st' = {}" "n_slab st' = ncpu"
    using pmm_init_ok [OF assms(2-7)] by blast
  moreover obtain g where g: "cte_init 0 irqall irq (Some f) = Inr (g, f)" using cte_init_some by blast
  moreover define k where "k = ?k\<lparr>devs := d', idt := g, user_handler := Some f, mem := st', cpus := mpe_enter mp_boot\<rparr>"
  ultimately have "kernel_main P rdtsc m fb irqall irq (os ncpu) ?k = Inl Panic"
    "kernel_main P rdtsc m fb irqall irq ((os ncpu)\<lparr>trap := Some f\<rparr>) ?k = Inr k"
    using d'(1) b by (simp_all add: kernel_main_def os_def os_init_def)
  moreover have "lut (devs k) = lut_fill lut_start" by (simp add: k_def d'(2))
  note r = ioe_registers [OF this]
  moreover have "mp_reachable ncpu (cpus k)" "pcs (cpus k) 0 = Boot_next 1"
    using mp_reachable.step [OF mp_reachable.start mpe_enter_step] by (simp_all add: k_def mpe_enter_def goto_def)
  ultimately show ?thesis using st' any(1) trapped by (intro conjI exI [of _ k]) (simp_all add: k_def)
qed

text \<open>A clock whose second steps at every third reading of the register of seconds.\<close>

definition sim_rtc :: "(nat \<times> u8) port_io" where
  "sim_rtc = \<lparr>inb = (\<lambda>_ h. (if snd h = 0 then bcd (int (fst h div 3)) else 1, h)),
     outb = (\<lambda>_ v h. (if v = 0 then fst h + 1 else fst h, v)), inl = (\<lambda>_ h. (0, h)), outl = (\<lambda>_ _ h. h)\<rparr>"

lemma sim_rtc_second: "n < 290 \<Longrightarrow> read_rtc sim_rtc 0 (n, s) = (int ((n + 1) div 3), (n + 1, 0))"
  using bcd_digits [of "int ((n + 1) div 3)"] by (simp add: read_rtc_def sim_rtc_def)

definition sim_at :: "nat \<Rightarrow> rtc" where
  "sim_at n = \<lparr>year = 2001, month = 1, day = 1, hour = 1, minute = 1, second = int ((n + 1) div 3)\<rparr>"

lemma sim_rtc_async: "n < 290 \<Longrightarrow> read_rtc_async sim_rtc (n, s) = (sim_at n, (n + 1, 9))"
  using sim_rtc_second [of n s] by (simp add: read_rtc_async_def) (simp add: read_rtc_def sim_rtc_def sim_at_def)

lemma sim_wait: "n < 280 \<Longrightarrow> wait_sec sim_rtc (n, s) =
    (if (n + 1) div 3 \<noteq> (n + 2) div 3 then Some (sim_at (n + 1), (n + 2, 9)) else wait_sec sim_rtc (n + 2, 9))"
  by (subst wait_sec.simps) (simp add: sim_rtc_async sim_at_def)

lemma sim_rtc_timer: "\<exists>t h. timer_init sim_rtc (\<lambda>h. (0, h)) (uart_init sim_rtc (0, 0)) = Some (t, h)"
proof -
  have "fst (uart_init sim_rtc (0, 0)) = 3" by (simp add: uart_init_def sim_rtc_def COM1_def Let_def word_of_int_numeral)
  then obtain s where u: "uart_init sim_rtc (0, 0) = (3, s)" by (cases "uart_init sim_rtc (0, 0)") simp
  have w: "wait_sec sim_rtc (3, s) = Some (sim_at 8, (9, 9))" "wait_sec sim_rtc (9, 9) = Some (sim_at 14, (15, 9))"
    by (simp_all add: sim_wait)
  have "estimate_freq sim_rtc (\<lambda>h. (0, h)) (3, s) = Some (0, (15, 9))"
    by (subst estimate_freq.simps) (simp add: w sim_at_def)
  moreover have "timer_rtc sim_rtc (15, 9) = Some (sim_at 15, (17, 0))"
    by (subst timer_rtc.simps) (simp add: sim_rtc_async sim_rtc_second, simp add: sim_at_def)
  ultimately show ?thesis by (simp add: timer_init_def u)
qed

definition sim_devs :: "(nat \<times> u8) devices" where
  "sim_devs = \<lparr>hw = (0, 0), clock = \<lparr>freq_mhz = 2000, boot_date = sim_at 0, uptsc = 0\<rparr>, gpu_dev = sim_accel, lut = []\<rparr>"

lemma kernel_main_needs_trap_witness:
  "kernel_main sim_rtc (\<lambda>h. (0, h)) (\<lambda>_. 0) [] 0x100000 (\<lambda>_. 0x100100) (os 1 :: unit os_module) (kernel_boot sim_devs ex_kboot) = Inl Panic \<and>
   (\<exists>k. kernel_main sim_rtc (\<lambda>h. (0, h)) (\<lambda>_. 0) [] 0x100000 (\<lambda>_. 0x100100)
      ((os 1 :: unit os_module)\<lparr>trap := Some (\<lambda>ev ctx s. (Some ctx, s))\<rparr>) (kernel_boot sim_devs ex_kboot) = Inr k \<and>
      pmm_inv (mem k) \<and> ioe_access sim_rtc (\<lambda>h. (0, h)) 15 (Present True) (devs k) = Inl Panic)"
proof -
  obtain t h where t: "timer_init sim_rtc (\<lambda>h. (0, h)) (uart_init sim_rtc (hw sim_devs)) = Some (t, h)"
    using sim_rtc_timer by (auto simp: sim_devs_def)
  show ?thesis
    using kernel_main_needs_trap [OF t ex_kheap, where irqall = "0x100000" and irq = "\<lambda>_. 0x100100" and m = "\<lambda>_. 0" and fb = "[]" and
      f = "(\<lambda>ev ctx s. (Some ctx, s)) :: unit handler"]
    by (auto simp: lut_init_def)
qed

end
