(* ===== verification/Libco.thy ===== *)
theory Libco
  imports Base
begin

text \<open>
  The coroutine library of user programs, \<open>libco/co.c\<close>: the pool, the round-robin choice of the next
  coroutine, yielding, waiting and the end of a coroutine. The switch of stacks by \<open>setjmp\<close>, \<open>longjmp\<close>
  and inline assembly is modelled by its effect: every coroutine has a context, which is what it
  does when it runs again.
\<close>

unbundle bit_operations_syntax

section \<open>The code\<close>

subsection \<open>Stack canaries\<close>

definition STACK_SIZE :: nat where "STACK_SIZE = 1024 * (64 + 2)"
definition CANARY_SZ :: nat where "CANARY_SZ = 256"
definition MAGIC :: u32 where "MAGIC = 0x99999999"
definition BOTTOM :: nat where "BOTTOM = STACK_SIZE div 4 - 1"

text \<open>The loops count \<open>i\<close> up to \<open>CANARY_SZ\<close>; the argument is the number of rounds left.\<close>

primrec canary_init_loop :: "nat \<Rightarrow> u32 list \<Rightarrow> u32 list" where
  "canary_init_loop 0 ptr = ptr"
| "canary_init_loop (Suc n) ptr =
     (let i = CANARY_SZ - Suc n in canary_init_loop n (ptr[i := MAGIC, BOTTOM - i := MAGIC]))"

definition canary_init :: "u32 list \<Rightarrow> u32 list" where
  "canary_init ptr = canary_init_loop CANARY_SZ ptr"

primrec canary_check_loop :: "nat \<Rightarrow> u32 list \<Rightarrow> unit res" where
  "canary_check_loop 0 ptr = Inr ()"
| "canary_check_loop (Suc n) ptr =
     (let i = CANARY_SZ - Suc n in
      res_bind (guard AssertFail (ptr ! (BOTTOM - i) = MAGIC)) (\<lambda>_.
      res_bind (guard AssertFail (ptr ! i = MAGIC)) (\<lambda>_. canary_check_loop n ptr)))"

definition canary_check :: "u32 list \<Rightarrow> unit res" where
  "canary_check ptr = canary_check_loop CANARY_SZ ptr"

subsection \<open>Coroutines\<close>

text \<open>The address of a \<open>struct co\<close>.\<close>

type_synonym coid = nat

datatype co_status = CO_NEW | CO_RUNNING | CO_WAITING | CO_DEAD

text \<open>
  What a function run as a coroutine does with the library, step by step until it returns: start a
  coroutine and go on with its address, yield, wait. It may go on forever.
\<close>

codatatype prog = Return | Yield prog | Wait coid prog | Start string prog "coid \<Rightarrow> prog"

text \<open>
  \<open>Ctx_run\<close>: about to do the next step of its function; \<open>Ctx_wait\<close>: at the test of the loop in
  \<open>co_wait\<close>; \<open>Ctx_dead\<close>: inside the \<open>co_yield\<close> after the function returned.
\<close>

datatype ctx = Ctx_run prog | Ctx_wait coid prog | Ctx_dead

record co =
  co_name :: string
  co_status :: co_status
  co_waiter :: "coid option"
  co_ctx :: ctx

definition MAXCO :: nat where "MAXCO = 128 + 8"

text \<open>\<open>POOL\<close>, the allocated structures, \<open>current\<close> and \<open>id\<close>. The address 0 is that of \<open>co_main\<close>.\<close>

record libco =
  POOL :: "coid option list"
  co_mem :: "coid \<Rightarrow> co option"
  current :: coid
  co_id :: nat

definition co_main :: coid where "co_main = 0"

definition libco_start :: "prog \<Rightarrow> libco" where
  "libco_start p = \<lparr>POOL = Some co_main # replicate (MAXCO - 1) None,
     co_mem = [co_main \<mapsto> \<lparr>co_name = ''main'', co_status = CO_RUNNING, co_waiter = None, co_ctx = Ctx_run p\<rparr>],
     current = co_main, co_id = 0\<rparr>"

text \<open>An access through a pointer to a structure; a freed one may not be accessed.\<close>

definition co_get :: "libco \<Rightarrow> coid \<Rightarrow> co res" where
  "co_get s c = (case co_mem s c of None \<Rightarrow> Inl BadAccess | Some x \<Rightarrow> Inr x)"

definition co_put :: "coid \<Rightarrow> co \<Rightarrow> libco \<Rightarrow> libco" where
  "co_put c x s = s\<lparr>co_mem := (co_mem s)(c \<mapsto> x)\<rparr>"

text \<open>The first slot that holds \<open>x\<close> gets \<open>y\<close>.\<close>

fun replace_first :: "'a \<Rightarrow> 'a \<Rightarrow> 'a list \<Rightarrow> 'a list" where
  "replace_first x y [] = []"
| "replace_first x y (z # zs) = (if z = x then y # zs else z # replace_first x y zs)"

text \<open>\<open>a\<close> is the address \<open>malloc\<close> returns.\<close>

definition co_start :: "coid \<Rightarrow> string \<Rightarrow> prog \<Rightarrow> libco \<Rightarrow> libco" where
  "co_start a name func s =
     (let s = co_put a \<lparr>co_name = name, co_status = CO_NEW, co_waiter = None, co_ctx = Ctx_run func\<rparr> s
      in s\<lparr>POOL := replace_first None (Some a) (POOL s)\<rparr>)"

text \<open>The endless loop stops here after \<open>fuel\<close> rounds.\<close>

fun fd_next_loop :: "nat \<Rightarrow> libco \<Rightarrow> nat \<Rightarrow> nat res" where
  "fd_next_loop 0 s i = Inl Deadlock"
| "fd_next_loop (Suc fuel) s i =
     (let i = (i + 1) mod MAXCO in
      case POOL s ! i of
        None \<Rightarrow> fd_next_loop fuel s i
      | Some c \<Rightarrow> res_bind (co_get s c) (\<lambda>x.
          if co_status x = CO_RUNNING \<or> co_status x = CO_NEW then Inr i else fd_next_loop fuel s i))"

definition fd_next :: "libco \<Rightarrow> libco res" where
  "fd_next s = res_bind (fd_next_loop MAXCO s (co_id s)) (\<lambda>i. Inr (s\<lparr>co_id := i\<rparr>))"

text \<open>\<open>setjmp\<close> saves the context \<open>k\<close>; then another coroutine goes on where its own context says.\<close>

definition co_yield :: "ctx \<Rightarrow> libco \<Rightarrow> libco res" where
  "co_yield k s =
     res_bind (co_get s (current s)) (\<lambda>me.
     res_bind (fd_next (co_put (current s) (me\<lparr>co_ctx := k\<rparr>) s)) (\<lambda>s.
     case POOL s ! co_id s of
       None \<Rightarrow> Inl AssertFail
     | Some c \<Rightarrow> res_bind (co_get s c) (\<lambda>x.
         if co_status x = CO_RUNNING then Inr (s\<lparr>current := c\<rparr>)
         else if co_status x = CO_NEW then Inr (co_put c (x\<lparr>co_status := CO_RUNNING\<rparr>) (s\<lparr>current := c\<rparr>))
         else Inr s)))"

text \<open>The head of \<open>co_wait\<close>.\<close>

definition co_wait :: "coid \<Rightarrow> prog \<Rightarrow> libco \<Rightarrow> libco res" where
  "co_wait c p s =
     res_bind (co_get s c) (\<lambda>x.
     let s = co_put c (x\<lparr>co_waiter := Some (current s)\<rparr>) s in
     res_bind (co_get s (current s)) (\<lambda>me.
       Inr (co_put (current s) (me\<lparr>co_status := CO_WAITING, co_ctx := Ctx_wait c p\<rparr>) s)))"

text \<open>One round of its loop, or its end, which empties the slot and frees the structure.\<close>

definition co_free :: "coid \<Rightarrow> libco \<Rightarrow> libco" where
  "co_free c s = s\<lparr>POOL := replace_first (Some c) None (POOL s), co_mem := (co_mem s)(c := None)\<rparr>"

definition co_wait_loop :: "coid \<Rightarrow> prog \<Rightarrow> libco \<Rightarrow> libco res" where
  "co_wait_loop c p s =
     res_bind (co_get s c) (\<lambda>x.
     if co_status x \<noteq> CO_DEAD then co_yield (Ctx_wait c p) s
     else
       let s = co_free c s in
       res_bind (co_get s (current s)) (\<lambda>me.
         Inr (co_put (current s) (me\<lparr>co_status := CO_RUNNING, co_ctx := Ctx_run p\<rparr>) s)))"

text \<open>The function has returned to \<open>co_yield\<close>.\<close>

definition co_return :: "libco \<Rightarrow> libco res" where
  "co_return s =
     res_bind (co_get s (current s)) (\<lambda>me.
     let s = co_put (current s) (me\<lparr>co_status := CO_DEAD\<rparr>) s in
     res_bind (case co_waiter me of
         None \<Rightarrow> Inr s
       | Some w \<Rightarrow> res_bind (co_get s w) (\<lambda>x. Inr (co_put w (x\<lparr>co_status := CO_RUNNING\<rparr>) s)))
       (co_yield Ctx_dead))"

text \<open>The running coroutine goes on by one step; \<open>a\<close> is the address a \<open>malloc\<close> in it would return.\<close>

definition co_run :: "coid \<Rightarrow> libco \<Rightarrow> libco res" where
  "co_run a s =
     res_bind (co_get s (current s)) (\<lambda>me.
     case co_ctx me of
       Ctx_dead \<Rightarrow> Inl AssertFail
     | Ctx_wait c p \<Rightarrow> co_wait_loop c p s
     | Ctx_run Return \<Rightarrow> co_return s
     | Ctx_run (Yield p) \<Rightarrow> co_yield (Ctx_run p) s
     | Ctx_run (Wait c p) \<Rightarrow> co_wait c p s
     | Ctx_run (Start name func f) \<Rightarrow> Inr (co_put (current s) (me\<lparr>co_ctx := Ctx_run (f a)\<rparr>) (co_start a name func s)))"

text \<open>The program ends when \<open>main\<close> returns. Else it goes on, with any unused address from \<open>malloc\<close>.\<close>

definition finished :: "libco \<Rightarrow> bool" where
  "finished s \<longleftrightarrow> current s = co_main \<and> (case co_mem s co_main of None \<Rightarrow> False | Some x \<Rightarrow> co_ctx x = Ctx_run Return)"

inductive co_step :: "libco \<Rightarrow> libco \<Rightarrow> bool" where
  co_step: "\<not> finished s \<Longrightarrow> co_mem s a = None \<Longrightarrow> co_run a s = Inr s' \<Longrightarrow> co_step s s'"

inductive_cases co_stepE: "co_step s s'"

section \<open>Canaries\<close>

lemma both_ends:
  assumes "length xs = B + 1" "j \<le> B" "C \<le> B" "i < C"
  shows "(if Suc i \<le> j \<and> j < C \<or> Suc i \<le> B - j \<and> B - j < C then M else xs[i := M, B - i := M] ! j) =
    (if i \<le> j \<and> j < C \<or> i \<le> B - j \<and> B - j < C then M else xs ! j)"
proof (cases "j = i \<or> j = B - i")
  case True
  then show ?thesis using assms by (auto simp: nth_list_update)
next
  case False
  then have "Suc i \<le> j \<longleftrightarrow> i \<le> j" "Suc i \<le> B - j \<longleftrightarrow> i \<le> B - j" using assms(2) by linarith+
  then show ?thesis using False by simp
qed

lemma canary_init_loop_nth:
  "n \<le> CANARY_SZ \<Longrightarrow> length ptr = BOTTOM + 1 \<Longrightarrow> j \<le> BOTTOM \<Longrightarrow>
   canary_init_loop n ptr ! j =
     (if CANARY_SZ - n \<le> j \<and> j < CANARY_SZ \<or> CANARY_SZ - n \<le> BOTTOM - j \<and> BOTTOM - j < CANARY_SZ then MAGIC else ptr ! j)"
proof (induction n arbitrary: ptr)
  case 0
  then show ?case by auto
next
  case (Suc n)
  let ?i = "CANARY_SZ - Suc n"
  have B: "CANARY_SZ \<le> BOTTOM" by (simp add: CANARY_SZ_def BOTTOM_def STACK_SIZE_def)
  have i: "CANARY_SZ - n = Suc ?i" "?i < CANARY_SZ" using Suc.prems(1) by simp_all
  have "canary_init_loop (Suc n) ptr ! j = canary_init_loop n (ptr[?i := MAGIC, BOTTOM - ?i := MAGIC]) ! j"
    by (simp add: Let_def)
  also have "\<dots> = (if Suc ?i \<le> j \<and> j < CANARY_SZ \<or> Suc ?i \<le> BOTTOM - j \<and> BOTTOM - j < CANARY_SZ then MAGIC
      else ptr[?i := MAGIC, BOTTOM - ?i := MAGIC] ! j)"
    using Suc.IH [of "ptr[?i := MAGIC, BOTTOM - ?i := MAGIC]"] Suc.prems i by simp
  also have "\<dots> = (if ?i \<le> j \<and> j < CANARY_SZ \<or> ?i \<le> BOTTOM - j \<and> BOTTOM - j < CANARY_SZ then MAGIC else ptr ! j)"
    using Suc.prems(2,3) B i(2) by (intro both_ends)
  finally show ?case .
qed

lemma canary_check_loop_ok:
  "n \<le> CANARY_SZ \<Longrightarrow> canary_check_loop n ptr = Inr () \<longleftrightarrow>
    (\<forall>i. CANARY_SZ - n \<le> i \<and> i < CANARY_SZ \<longrightarrow> ptr ! i = MAGIC \<and> ptr ! (BOTTOM - i) = MAGIC)"
proof (induction n)
  case (Suc n)
  let ?i = "CANARY_SZ - Suc n"
  have i: "CANARY_SZ - n = Suc ?i" "?i < CANARY_SZ" using Suc.prems by simp_all
  have "(\<forall>i. ?i \<le> i \<and> i < CANARY_SZ \<longrightarrow> P i) \<longleftrightarrow> P ?i \<and> (\<forall>i. Suc ?i \<le> i \<and> i < CANARY_SZ \<longrightarrow> P i)" for P
    using i(2) by (metis Suc_leD Suc_leI le_neq_implies_less le_refl)
  then show ?case using Suc.IH Suc.prems i by (auto simp: Let_def)
qed auto

text \<open>Fresh canaries pass the check, and the check fails exactly when one of the words at the ends has changed.\<close>

lemma canary_guards:
  "canary_check stack = Inr () \<longleftrightarrow> (\<forall>i < CANARY_SZ. stack ! i = MAGIC \<and> stack ! (BOTTOM - i) = MAGIC)"
  "length stack = BOTTOM + 1 \<Longrightarrow> canary_check (canary_init stack) = Inr ()"
proof -
  have c: "canary_check ptr = Inr () \<longleftrightarrow> (\<forall>i < CANARY_SZ. ptr ! i = MAGIC \<and> ptr ! (BOTTOM - i) = MAGIC)" for ptr
    using canary_check_loop_ok [of CANARY_SZ ptr] by (simp add: canary_check_def)
  then show "canary_check stack = Inr () \<longleftrightarrow> (\<forall>i < CANARY_SZ. stack ! i = MAGIC \<and> stack ! (BOTTOM - i) = MAGIC)" .
  assume l: "length stack = BOTTOM + 1"
  have B: "CANARY_SZ \<le> BOTTOM" by (simp add: CANARY_SZ_def BOTTOM_def STACK_SIZE_def)
  have "canary_init stack ! j = MAGIC" if "j \<le> BOTTOM" "j < CANARY_SZ \<or> BOTTOM - j < CANARY_SZ" for j
    using canary_init_loop_nth [OF order_refl l that(1)] that(2) by (simp add: canary_init_def)
  moreover have "i \<le> BOTTOM \<and> BOTTOM - (BOTTOM - i) < CANARY_SZ" if "i < CANARY_SZ" for i using that B by linarith
  ultimately show "canary_check (canary_init stack) = Inr ()" unfolding c by (meson diff_le_self)
qed

section \<open>The choice of the next coroutine\<close>

text \<open>Slot \<open>i\<close> holds a coroutine that can run.\<close>

definition runs :: "co option \<Rightarrow> bool" where
  "runs x = (case x of None \<Rightarrow> False | Some x \<Rightarrow> co_status x = CO_RUNNING \<or> co_status x = CO_NEW)"

definition ready_slot :: "libco \<Rightarrow> nat \<Rightarrow> bool" where
  "ready_slot s i \<longleftrightarrow> (\<exists>c. POOL s ! i = Some c \<and> runs (co_mem s c))"

definition pool_ok :: "libco \<Rightarrow> bool" where
  "pool_ok s \<longleftrightarrow> length (POOL s) = MAXCO \<and> co_id s < MAXCO \<and>
     (\<forall>i < MAXCO. \<forall>c. POOL s ! i = Some c \<longrightarrow> co_mem s c \<noteq> None) \<and>
     (\<forall>i < MAXCO. \<forall>j < MAXCO. POOL s ! i = POOL s ! j \<longrightarrow> POOL s ! i \<noteq> None \<longrightarrow> i = j)"

text \<open>How many slots lie between the last choice and slot \<open>j\<close>, going round.\<close>

definition slots_to :: "nat \<Rightarrow> nat \<Rightarrow> nat" where
  "slots_to i j = (j + MAXCO - Suc i) mod MAXCO"

lemma MAXCO_pos [simp]: "0 < MAXCO"
  by (simp add: MAXCO_def)

lemma go_round: "(a mod MAXCO + 1 + k) mod MAXCO = (a + 1 + k) mod MAXCO"
  by (simp only: add.assoc mod_add_left_eq)

lemma slots_to_eq:
  assumes "i < MAXCO" "k < MAXCO"
  shows "slots_to i ((i + 1 + k) mod MAXCO) = k"
proof -
  have "(i + 1 + k) mod MAXCO + (MAXCO - Suc i) = (i + 1 + k) mod MAXCO + MAXCO - Suc i" using assms(1) by simp
  moreover have "((i + 1 + k) mod MAXCO + (MAXCO - Suc i)) mod MAXCO = (i + 1 + k + (MAXCO - Suc i)) mod MAXCO"
    by (rule mod_add_left_eq)
  moreover have "i + 1 + k + (MAXCO - Suc i) = k + MAXCO" using assms(1) by simp
  ultimately show ?thesis using assms(2) by (simp add: slots_to_def)
qed

lemma slots_to_back: "i < MAXCO \<Longrightarrow> j < MAXCO \<Longrightarrow> (i + 1 + slots_to i j) mod MAXCO = j"
proof -
  assume i: "i < MAXCO" and j: "j < MAXCO"
  have "(i + 1 + slots_to i j) mod MAXCO = (i + 1 + (j + MAXCO - Suc i)) mod MAXCO"
    unfolding slots_to_def by (rule mod_add_right_eq)
  also have "i + 1 + (j + MAXCO - Suc i) = j + MAXCO" using i by simp
  finally show ?thesis using j by simp
qed

lemma slots_to_less: "slots_to i j < MAXCO"
  by (simp add: slots_to_def)

lemma fd_next_loop_cases:
  assumes "pool_ok s"
  shows "(\<exists>k < n. ready_slot s ((i + 1 + k) mod MAXCO) \<and> (\<forall>k' < k. \<not> ready_slot s ((i + 1 + k') mod MAXCO)) \<and>
      fd_next_loop n s i = Inr ((i + 1 + k) mod MAXCO)) \<or>
    (\<forall>k < n. \<not> ready_slot s ((i + 1 + k) mod MAXCO)) \<and> fd_next_loop n s i = Inl Deadlock"
proof (induction n arbitrary: i)
  case (Suc n)
  let ?i = "(i + 1) mod MAXCO"
  have shift: "(?i + 1 + k) mod MAXCO = (i + 1 + Suc k) mod MAXCO" for k by (simp only: go_round) simp
  have "?i < MAXCO" by simp
  then have mem: "POOL s ! ?i = Some c \<Longrightarrow> co_mem s c \<noteq> None" for c using assms unfolding pool_ok_def by blast
  show ?case
  proof (cases "ready_slot s ?i")
    case True
    then obtain c x where "POOL s ! ?i = Some c" "co_mem s c = Some x" "co_status x = CO_RUNNING \<or> co_status x = CO_NEW"
      by (auto simp: ready_slot_def runs_def split: option.splits)
    then have "fd_next_loop (Suc n) s i = Inr ((i + 1 + 0) mod MAXCO)" by (simp add: Let_def co_get_def)
    then show ?thesis using True by (intro disjI1 exI [of _ 0]) simp
  next
    case False
    then have loop: "fd_next_loop (Suc n) s i = fd_next_loop n s ?i"
      using mem by (auto simp: Let_def co_get_def ready_slot_def runs_def split: option.splits)
    from Suc.IH [of ?i] show ?thesis
    proof (elim disjE exE conjE)
      fix k assume k: "k < n" "ready_slot s ((?i + 1 + k) mod MAXCO)" "\<forall>k' < k. \<not> ready_slot s ((?i + 1 + k') mod MAXCO)"
        "fd_next_loop n s ?i = Inr ((?i + 1 + k) mod MAXCO)"
      have "\<not> ready_slot s ((i + 1 + k') mod MAXCO)" if "k' < Suc k" for k'
        using that k(3) False shift by (cases k') auto
      then show ?thesis using k loop shift by (intro disjI1 exI [of _ "Suc k"]) (auto simp only: Suc_less_eq)
    next
      assume k: "\<forall>k < n. \<not> ready_slot s ((?i + 1 + k) mod MAXCO)" "fd_next_loop n s ?i = Inl Deadlock"
      have "\<not> ready_slot s ((i + 1 + k) mod MAXCO)" if "k < Suc n" for k
        using that k(1) False shift by (cases k) auto
      then show ?thesis using k(2) loop by simp
    qed
  qed
qed simp

text \<open>
  Where some slot can run, the loop ends within \<open>MAXCO\<close> rounds and the choice comes closer to every
  such slot; where none can, it never ends.
\<close>

lemma fd_next_choice:
  assumes "pool_ok s" "j < MAXCO" "ready_slot s j"
  shows "\<exists>i. fd_next s = Inr (s\<lparr>co_id := i\<rparr>) \<and> i < MAXCO \<and> ready_slot s i \<and> (i = j \<or> slots_to i j < slots_to (co_id s) j)"
proof -
  let ?d = "co_id s" and ?K = "slots_to (co_id s) j"
  have d: "?d < MAXCO" using assms(1) by (simp add: pool_ok_def)
  have "ready_slot s ((?d + 1 + ?K) mod MAXCO)" "?K < MAXCO"
    using assms(3) slots_to_back [OF d assms(2)] slots_to_less by simp_all
  then obtain k where k: "k < MAXCO" "ready_slot s ((?d + 1 + k) mod MAXCO)" "\<forall>k' < k. \<not> ready_slot s ((?d + 1 + k') mod MAXCO)"
      "fd_next_loop MAXCO s ?d = Inr ((?d + 1 + k) mod MAXCO)"
    using fd_next_loop_cases [OF assms(1), of MAXCO ?d] by blast
  have "k \<le> ?K" using k(3) \<open>ready_slot s ((?d + 1 + ?K) mod MAXCO)\<close> by (meson not_le)
  let ?i = "(?d + 1 + k) mod MAXCO"
  have "slots_to ?i j < ?K" if "k \<noteq> ?K"
  proof -
    have lt: "k < ?K" using that \<open>k \<le> ?K\<close> by simp
    have "(?i + 1 + (?K - Suc k)) mod MAXCO = (?d + 1 + k + 1 + (?K - Suc k)) mod MAXCO" by (rule go_round)
    also have "?d + 1 + k + 1 + (?K - Suc k) = ?d + 1 + ?K" using lt by simp
    finally have "(?i + 1 + (?K - Suc k)) mod MAXCO = j" using slots_to_back [OF d assms(2)] by simp
    moreover have "?K - Suc k < MAXCO" using \<open>?K < MAXCO\<close> by simp
    ultimately have "slots_to ?i j = ?K - Suc k" using slots_to_eq [of ?i "?K - Suc k"] by simp
    then show ?thesis using lt by simp
  qed
  moreover have "?i = j" if "k = ?K" using that slots_to_back [OF d assms(2)] by simp
  ultimately show ?thesis using k by (intro exI [of _ ?i]) (auto simp: fd_next_def)
qed

lemma fd_next_hangs:
  assumes "pool_ok s" "\<And>j. j < MAXCO \<Longrightarrow> \<not> ready_slot s j"
  shows "fd_next_loop fuel s (co_id s) = Inl Deadlock" and "fd_next s = Inl Deadlock"
proof -
  show "fd_next_loop fuel s (co_id s) = Inl Deadlock" for fuel
    using fd_next_loop_cases [OF assms(1), of fuel "co_id s"] assms(2) by (meson MAXCO_pos mod_less_divisor)
  then show "fd_next s = Inl Deadlock" by (simp add: fd_next_def)
qed

section \<open>Every coroutine gets its turn\<close>

text \<open>What a step does to the pool: one slot is filled, or one is emptied.\<close>

lemma replace_first_nth:
  "i < length xs \<Longrightarrow> replace_first x y xs ! i = (if xs ! i = x \<and> x \<notin> set (take i xs) then y else xs ! i)"
  by (induction xs arbitrary: i) (auto simp: nth_Cons split: nat.splits)

lemma length_replace_first [simp]: "length (replace_first x y xs) = length xs"
  by (induction xs) auto

lemma replace_first_id: "x \<notin> set xs \<Longrightarrow> replace_first x y xs = xs"
  by (induction xs) auto

lemma co_put_simps [simp]:
  "POOL (co_put c x s) = POOL s" "current (co_put c x s) = current s" "co_id (co_put c x s) = co_id s"
  "co_mem (co_put c x s) = (co_mem s)(c \<mapsto> x)"
  by (simp_all add: co_put_def)

lemma co_put_running: "co_mem s c = Some x \<Longrightarrow> co_status x = CO_RUNNING \<Longrightarrow> co_put c (x\<lparr>co_status := CO_RUNNING\<rparr>) s = s"
proof -
  assume "co_mem s c = Some x" "co_status x = CO_RUNNING"
  then have "x\<lparr>co_status := CO_RUNNING\<rparr> = x" "(co_mem s)(c \<mapsto> x) = co_mem s" by auto
  then show ?thesis by (simp add: co_put_def)
qed

lemma co_get_eq [simp]: "co_get s c = Inr x \<longleftrightarrow> co_mem s c = Some x"
  by (simp add: co_get_def split: option.splits)

lemma fd_next_loop_Inr:
  "fd_next_loop n s i = Inr j \<Longrightarrow> j < MAXCO \<and> (\<exists>c x. POOL s ! j = Some c \<and> co_mem s c = Some x \<and> (co_status x = CO_RUNNING \<or> co_status x = CO_NEW))"
proof (induction n arbitrary: i)
  case (Suc n)
  let ?i = "(i + 1) mod MAXCO"
  show ?case
  proof (cases "POOL s ! ?i")
    case None
    then show ?thesis using Suc by (simp add: Let_def)
  next
    case (Some c)
    with Suc.prems have "res_bind (co_get s c)
        (\<lambda>x. if co_status x = CO_RUNNING \<or> co_status x = CO_NEW then Inr ?i else fd_next_loop n s ?i) = Inr j"
      by (simp only: fd_next_loop.simps Let_def option.case)
    then obtain x where x: "co_mem s c = Some x"
      "(if co_status x = CO_RUNNING \<or> co_status x = CO_NEW then Inr ?i else fd_next_loop n s ?i) = Inr j"
      by (elim res_bindE) simp
    then show ?thesis using Some Suc.IH [of ?i] by (cases "co_status x = CO_RUNNING \<or> co_status x = CO_NEW") auto
  qed
qed simp

text \<open>\<open>co_yield\<close> in pieces.\<close>

lemma co_yield_cases:
  assumes "co_yield k s = Inr s'"
  obtains me i c x where "co_mem s (current s) = Some me"
    and "fd_next (co_put (current s) (me\<lparr>co_ctx := k\<rparr>) s) = Inr (co_put (current s) (me\<lparr>co_ctx := k\<rparr>) s\<lparr>co_id := i\<rparr>)"
    and "i < MAXCO" "POOL s ! i = Some c" and "co_mem (co_put (current s) (me\<lparr>co_ctx := k\<rparr>) s) c = Some x"
    and "co_status x = CO_RUNNING \<or> co_status x = CO_NEW"
    and "s' = co_put c (x\<lparr>co_status := CO_RUNNING\<rparr>) (co_put (current s) (me\<lparr>co_ctx := k\<rparr>) s\<lparr>co_id := i, current := c\<rparr>)"
proof -
  from assms obtain me where me: "co_mem s (current s) = Some me"
      "res_bind (fd_next (co_put (current s) (me\<lparr>co_ctx := k\<rparr>) s)) (\<lambda>s. case POOL s ! co_id s of
         None \<Rightarrow> Inl AssertFail
       | Some c \<Rightarrow> res_bind (co_get s c) (\<lambda>x.
           if co_status x = CO_RUNNING then Inr (s\<lparr>current := c\<rparr>)
           else if co_status x = CO_NEW then Inr (co_put c (x\<lparr>co_status := CO_RUNNING\<rparr>) (s\<lparr>current := c\<rparr>))
           else Inr s)) = Inr s'"
    unfolding co_yield_def by (auto simp: res_bind_eq_Inr)
  let ?s = "co_put (current s) (me\<lparr>co_ctx := k\<rparr>) s"
  obtain i where i: "fd_next_loop MAXCO ?s (co_id ?s) = Inr i" "fd_next ?s = Inr (?s\<lparr>co_id := i\<rparr>)"
    using me(2) by (auto simp: fd_next_def res_bind_eq_Inr)
  then obtain c x where c: "i < MAXCO" "POOL ?s ! i = Some c" "co_mem ?s c = Some x" "co_status x = CO_RUNNING \<or> co_status x = CO_NEW"
    using fd_next_loop_Inr by blast
  have "s' = co_put c (x\<lparr>co_status := CO_RUNNING\<rparr>) (?s\<lparr>co_id := i, current := c\<rparr>)"
  proof (cases "co_status x = CO_RUNNING")
    case True
    then have "co_put c (x\<lparr>co_status := CO_RUNNING\<rparr>) (?s\<lparr>co_id := i, current := c\<rparr>) = ?s\<lparr>co_id := i, current := c\<rparr>"
      using c(3) by (intro co_put_running) simp_all
    then show ?thesis using True c me(2) unfolding i(2) by (simp add: co_get_def)
  next
    case False
    then show ?thesis using c me(2) unfolding i(2) by (simp add: co_get_def co_put_def)
  qed
  then show ?thesis using that [OF me(1) i(2)] c by simp
qed

lemma runs_upd [simp]:
  "runs (Some (x\<lparr>co_ctx := k\<rparr>)) = runs (Some x)" "runs (Some (x\<lparr>co_waiter := w\<rparr>)) = runs (Some x)"
  "runs (Some (x\<lparr>co_status := CO_RUNNING\<rparr>))"
  by (simp_all add: runs_def)

text \<open>The step yields: it chooses the next coroutine.\<close>

definition switching :: "libco \<Rightarrow> bool" where
  "switching s = (case co_mem s (current s) of None \<Rightarrow> False
     | Some me \<Rightarrow> (case co_ctx me of
         Ctx_run Return \<Rightarrow> True
       | Ctx_run (Yield p) \<Rightarrow> True
       | Ctx_wait c p \<Rightarrow> (case co_mem s c of None \<Rightarrow> False | Some x \<Rightarrow> co_status x \<noteq> CO_DEAD)
       | _ \<Rightarrow> False))"

text \<open>A coroutine that can run and is not running: what others do leaves it so.\<close>

definition in_line :: "nat \<Rightarrow> coid \<Rightarrow> libco \<Rightarrow> bool" where
  "in_line j c s \<longleftrightarrow> pool_ok s \<and> j < MAXCO \<and> POOL s ! j = Some c \<and> runs (co_mem s c)"

lemma in_line_put:
  "in_line j c s \<Longrightarrow> co_mem s d \<noteq> None \<Longrightarrow> (d = c \<Longrightarrow> runs (Some x)) \<Longrightarrow> in_line j c (co_put d x s)"
  by (auto simp: in_line_def pool_ok_def)

lemma in_line_set: "in_line j c (s\<lparr>current := d\<rparr>) = in_line j c s"
  "i < MAXCO \<Longrightarrow> in_line j c s \<Longrightarrow> in_line j c (s\<lparr>co_id := i\<rparr>)"
  by (auto simp: in_line_def pool_ok_def)

lemma co_yield_in_line:
  assumes y: "co_yield k s = Inr s'" and l: "in_line j c s"
  shows "in_line j c s' \<and> (co_id s' = j \<and> current s' = c \<or> slots_to (co_id s') j < slots_to (co_id s) j)"
proof -
  from y obtain me i d x where me: "co_mem s (current s) = Some me"
    and n: "fd_next (co_put (current s) (me\<lparr>co_ctx := k\<rparr>) s) = Inr (co_put (current s) (me\<lparr>co_ctx := k\<rparr>) s\<lparr>co_id := i\<rparr>)"
    and "i < MAXCO" and d: "POOL s ! i = Some d" "co_mem (co_put (current s) (me\<lparr>co_ctx := k\<rparr>) s) d = Some x"
    and s': "s' = co_put d (x\<lparr>co_status := CO_RUNNING\<rparr>) (co_put (current s) (me\<lparr>co_ctx := k\<rparr>) s\<lparr>co_id := i, current := d\<rparr>)"
    by (rule co_yield_cases)
  let ?s = "co_put (current s) (me\<lparr>co_ctx := k\<rparr>) s"
  have l1: "in_line j c ?s" using l me by (intro in_line_put) (auto simp: in_line_def)
  then have "ready_slot ?s j" by (simp add: in_line_def ready_slot_def)
  then obtain i' where i': "fd_next ?s = Inr (?s\<lparr>co_id := i'\<rparr>)" "i' < MAXCO" "i' = j \<or> slots_to i' j < slots_to (co_id ?s) j"
    using fd_next_choice [of ?s j] l1 by (auto simp: in_line_def)
  have "co_id (?s\<lparr>co_id := i'\<rparr>) = co_id (?s\<lparr>co_id := i\<rparr>)" using n i'(1) by (metis sum.inject(2))
  then have i: "i' = i" by simp
  have "in_line j c s'" unfolding s' using l1 i'(2) d(2) i by (intro in_line_put) (simp_all add: in_line_set)
  moreover have "i = j \<Longrightarrow> d = c" using d(1) l by (simp add: in_line_def)
  ultimately show ?thesis using i'(3) i by (auto simp: s')
qed

lemma pool_ok_fill:
  assumes "pool_ok s" "co_mem s a = None"
  shows "pool_ok (co_start a name func s)" and "j < MAXCO \<Longrightarrow> POOL s ! j = Some c \<Longrightarrow> POOL (co_start a name func s) ! j = Some c"
proof -
  let ?P = "replace_first None (Some a) (POOL s)"
  have l: "length (POOL s) = MAXCO" using assms(1) by (simp add: pool_ok_def)
  have nth: "?P ! i = POOL s ! i \<or> POOL s ! i = None \<and> ?P ! i = Some a \<and> None \<notin> set (take i (POOL s))" if "i < MAXCO" for i
    using replace_first_nth [of i "POOL s" None "Some a"] that l by auto
  have first: "i = j" if "i < MAXCO" "j < MAXCO" "POOL s ! i = None" "POOL s ! j = None"
    "None \<notin> set (take i (POOL s))" "None \<notin> set (take j (POOL s))" for i j
    using that l by (metis in_set_conv_nth length_take linorder_neqE_nat min_less_iff_conj nth_take)
  have old: "POOL s ! i \<noteq> Some a" if "i < MAXCO" for i using assms that by (auto simp: pool_ok_def)
  have "i = j" if "i < MAXCO" "j < MAXCO" "?P ! i = ?P ! j" "?P ! i \<noteq> None" for i j
    using nth [OF that(1)] nth [OF that(2)] that first [OF that(1,2)] old [OF that(1)] old [OF that(2)] assms(1)
    unfolding pool_ok_def by metis
  moreover have "((co_mem s)(a \<mapsto> x)) c \<noteq> None" if "i < MAXCO" "?P ! i = Some c" for i c x
    using nth [OF that(1)] that assms(1) by (auto simp: pool_ok_def)
  ultimately show "pool_ok (co_start a name func s)"
    using assms(1) by (simp add: pool_ok_def co_start_def Let_def)
  show "POOL (co_start a name func s) ! j = Some c" if "j < MAXCO" "POOL s ! j = Some c"
    using nth [OF that(1)] that(2) by (simp add: co_start_def Let_def)
qed

text \<open>Freeing a coroutine empties its slot and no other.\<close>

lemma pool_ok_free:
  assumes "pool_ok s"
  shows "pool_ok (co_free c s)" and "j < MAXCO \<Longrightarrow> POOL (co_free c s) ! j = (if POOL s ! j = Some c then None else POOL s ! j)"
proof -
  let ?P = "replace_first (Some c) None (POOL s)"
  have l: "length (POOL s) = MAXCO" using assms(1) by (simp add: pool_ok_def)
  have inj: "i = j" if "i < MAXCO" "j < MAXCO" "POOL s ! i = Some d" "POOL s ! j = Some d" for i j d
    using assms that unfolding pool_ok_def by (metis option.distinct(1))
  have nth: "?P ! i = (if POOL s ! i = Some c then None else POOL s ! i)" if "i < MAXCO" for i
  proof -
    have "Some c \<notin> set (take i (POOL s))" if "POOL s ! i = Some c"
    proof
      assume "Some c \<in> set (take i (POOL s))"
      then obtain k where "k < i" "POOL s ! k = Some c" by (auto simp: in_set_conv_nth)
      then show False using inj [of k i c] that \<open>i < MAXCO\<close> by simp
    qed
    then show ?thesis using replace_first_nth [of i "POOL s" "Some c" None] that l by simp
  qed
  show "POOL (co_free c s) ! j = (if POOL s ! j = Some c then None else POOL s ! j)" if "j < MAXCO"
    using nth [OF that] by (simp add: co_free_def)
  have "i = j" if "i < MAXCO" "j < MAXCO" "?P ! i = ?P ! j" "?P ! i \<noteq> None" for i j
    using that nth [OF that(1)] nth [OF that(2)] inj [OF that(1,2)] by (auto split: if_splits)
  moreover have "((co_mem s)(c := None)) d \<noteq> None" if "i < MAXCO" "?P ! i = Some d" for i d
    using that nth [OF that(1)] assms by (auto simp: pool_ok_def split: if_splits)
  ultimately show "pool_ok (co_free c s)" using assms l by (simp add: pool_ok_def co_free_def)
qed

lemma co_step_in_line:
  assumes r: "co_run a s = Inr s'" and a: "co_mem s a = None" and l: "in_line j c s" and other: "current s \<noteq> c"
  shows "in_line j c s' \<and> (if switching s then co_id s' = j \<and> current s' = c \<or> slots_to (co_id s') j < slots_to (co_id s) j
    else co_id s' = co_id s)"
proof -
  from r obtain me where me: "co_mem s (current s) = Some me" by (auto simp: co_run_def res_bind_eq_Inr)
  have alloc: "co_mem s c \<noteq> None" using l by (auto simp: in_line_def runs_def split: option.splits)
  have put: "in_line j c (co_put (current s) x s)" for x by (rule in_line_put [OF l]) (use me other in auto)
  show ?thesis
  proof (cases "co_ctx me")
    case Ctx_dead
    then show ?thesis using r me by (simp add: co_run_def co_get_def)
  next
    case (Ctx_wait d p)
    then have w: "co_wait_loop d p s = Inr s'" using r me by (simp add: co_run_def co_get_def)
    then obtain x where x: "co_mem s d = Some x" by (auto simp: co_wait_loop_def res_bind_eq_Inr)
    show ?thesis
    proof (cases "co_status x = CO_DEAD")
      case False
      then have "co_yield (Ctx_wait d p) s = Inr s'" using w x by (simp add: co_wait_loop_def co_get_def)
      then show ?thesis using co_yield_in_line [OF _ l] me Ctx_wait x False by (simp add: switching_def)
    next
      case True
      then have dc: "d \<noteq> c" using l x by (auto simp: in_line_def runs_def)
      have f: "in_line j c (co_free d s)"
        using l dc pool_ok_free(1) [of s d] pool_ok_free(2) [of s j d] by (auto simp: in_line_def co_free_def)
      have "res_bind (co_get (co_free d s) (current s)) (\<lambda>me.
         Inr (co_put (current s) (me\<lparr>co_status := CO_RUNNING, co_ctx := Ctx_run p\<rparr>) (co_free d s))) = Inr s'"
        using w x True by (simp add: co_wait_loop_def co_get_def co_free_def Let_def)
      then obtain me' where "co_mem (co_free d s) (current s) = Some me'"
          "s' = co_put (current s) (me'\<lparr>co_status := CO_RUNNING, co_ctx := Ctx_run p\<rparr>) (co_free d s)"
        by (auto simp: res_bind_eq_Inr)
      then have "in_line j c s' \<and> co_id s' = co_id s" using f other by (auto intro: in_line_put simp: co_free_def)
      then show ?thesis using me Ctx_wait x True by (simp add: switching_def)
    qed
  next
    case (Ctx_run q)
    show ?thesis
    proof (cases q)
      case (Yield p)
      then have "co_yield (Ctx_run p) s = Inr s'" using r me Ctx_run by (simp add: co_run_def co_get_def)
      then show ?thesis using co_yield_in_line [OF _ l] me Ctx_run Yield by (simp add: switching_def)
    next
      case (Wait d p)
      then have "co_wait d p s = Inr s'" using r me Ctx_run by (simp add: co_run_def co_get_def)
      then obtain x me' where x: "co_mem s d = Some x"
          "co_mem (co_put d (x\<lparr>co_waiter := Some (current s)\<rparr>) s) (current s) = Some me'"
          "s' = co_put (current s) (me'\<lparr>co_status := CO_WAITING, co_ctx := Ctx_wait d p\<rparr>) (co_put d (x\<lparr>co_waiter := Some (current s)\<rparr>) s)"
        by (auto simp: co_wait_def res_bind_eq_Inr Let_def)
      have "in_line j c (co_put d (x\<lparr>co_waiter := Some (current s)\<rparr>) s)"
        by (rule in_line_put [OF l]) (use l x(1) in \<open>auto simp: in_line_def\<close>)
      then have "in_line j c s'" unfolding x(3) by (rule in_line_put) (use x(2) other in auto)
      then show ?thesis using me Ctx_run Wait by (simp add: switching_def x(3))
    next
      case (Start name func f)
      then have s': "s' = co_put (current s) (me\<lparr>co_ctx := Ctx_run (f a)\<rparr>) (co_start a name func s)"
        using r me Ctx_run by (simp add: co_run_def co_get_def)
      have "a \<noteq> c" using a alloc by auto
      then have "in_line j c (co_start a name func s)"
        using l pool_ok_fill [OF _ a] by (auto simp: in_line_def co_start_def Let_def)
      then have "in_line j c s'" unfolding s' by (rule in_line_put) (use other me a in \<open>auto simp: co_start_def Let_def\<close>)
      then show ?thesis using me Ctx_run Start by (simp add: switching_def s' co_start_def Let_def)
    next
      case Return
      then have ret: "co_return s = Inr s'" using r me Ctx_run by (simp add: co_run_def co_get_def)
      let ?s0 = "co_put (current s) (me\<lparr>co_status := CO_DEAD\<rparr>) s"
      from ret obtain s1 where s1: "co_yield Ctx_dead s1 = Inr s'"
          "s1 = ?s0 \<or> (\<exists>w x. co_mem ?s0 w = Some x \<and> s1 = co_put w (x\<lparr>co_status := CO_RUNNING\<rparr>) ?s0)"
        unfolding co_return_def Let_def using me by (cases "co_waiter me") (auto simp: res_bind_eq_Inr)
      have "in_line j c s1 \<and> co_id s1 = co_id s"
        using s1(2)
      proof (elim disjE exE conjE)
        fix w x assume w: "co_mem ?s0 w = Some x" "s1 = co_put w (x\<lparr>co_status := CO_RUNNING\<rparr>) ?s0"
        have "in_line j c s1" unfolding w(2) by (rule in_line_put [OF put]) (use w(1) in auto)
        then show ?thesis by (simp add: w(2))
      qed (simp add: put)
      then show ?thesis using co_yield_in_line [OF s1(1)] me Ctx_run Return by (simp add: switching_def)
    qed
  qed
qed

text \<open>Steps during which \<open>c\<close> does not run; the number counts those that yield.\<close>

inductive without :: "coid \<Rightarrow> nat \<Rightarrow> libco \<Rightarrow> libco \<Rightarrow> bool" for c where
  wo_refl: "without c 0 s s"
| wo_step: "without c n s s1 \<Longrightarrow> current s1 \<noteq> c \<Longrightarrow> co_step s1 s2 \<Longrightarrow> without c (if switching s1 then Suc n else n) s s2"

lemma without_bound:
  "without c n s s' \<Longrightarrow> in_line j c s \<Longrightarrow>
    in_line j c s' \<and> (n + slots_to (co_id s') j \<le> slots_to (co_id s) j \<or> current s' = c \<and> n \<le> MAXCO)"
proof (induction rule: without.induct)
  case (wo_refl s)
  then show ?case by simp
next
  case (wo_step n s s1 s2)
  then have l: "in_line j c s1" and n: "n + slots_to (co_id s1) j \<le> slots_to (co_id s) j" by auto
  obtain a where "co_run a s1 = Inr s2" "co_mem s1 a = None" using wo_step.hyps(3) by (rule co_stepE)
  from co_step_in_line [OF this l wo_step.hyps(2)] n show ?case
    using slots_to_less [of "co_id s" j] by auto
qed

text \<open>
  C26: round robin is fair: a coroutine in the pool that can run is chosen after at most \<open>MAXCO\<close> calls of
  \<open>co_yield\<close>, whatever the other coroutines do meanwhile, be it yielding, starting others, waiting or
  ending; until then it stays ready in its slot.
\<close>

theorem co_fair:
  assumes "in_line j c s" and "without c n s s'"
  shows "in_line j c s' \<and> n \<le> MAXCO \<and> (n = MAXCO \<longrightarrow> current s' = c)"
  using without_bound [OF assms(2,1)] slots_to_less [of "co_id s" j] by auto

lemma pool_ok_start: "pool_ok (libco_start p)"
proof -
  have "POOL (libco_start p) ! i = (if i = 0 then Some co_main else None)" if "i < MAXCO" for i
    using that by (cases i) (simp_all add: libco_start_def)
  moreover have "length (POOL (libco_start p)) = MAXCO" by (simp add: libco_start_def MAXCO_def)
  ultimately show ?thesis by (auto simp: pool_ok_def libco_start_def co_main_def)
qed

lemma co_fair_witness:
  "\<exists>s s'. in_line 1 7 s \<and> without 7 1 s s' \<and> current s' = 7 \<and> in_line 1 7 s' \<and> 1 \<le> MAXCO"
proof -
  let ?q = "Yield Return" and ?t = "\<lparr>co_name = ''t'', co_status = CO_NEW, co_waiter = None, co_ctx = Ctx_run Return\<rparr>"
  define s where "s = co_start 7 ''t'' Return (libco_start ?q)"
  define me where "me = \<lparr>co_name = ''main'', co_status = CO_RUNNING, co_waiter = None, co_ctx = Ctx_run Return\<rparr>"
  have m: "co_mem s = [0 \<mapsto> me\<lparr>co_ctx := Ctx_run ?q\<rparr>, 7 \<mapsto> ?t]" "current s = 0" "co_id s = 0"
    by (simp_all add: s_def co_start_def libco_start_def Let_def co_main_def me_def)
  have "POOL s = Some 0 # replace_first None (Some 7) (replicate (MAXCO - 1) None)"
    by (simp add: s_def co_start_def libco_start_def Let_def co_main_def)
  moreover have "replicate (MAXCO - 1) (None :: coid option) = None # replicate (MAXCO - 2) None"
    by (simp add: MAXCO_def numeral_eq_Suc)
  ultimately have P: "POOL s = Some 0 # Some 7 # replicate (MAXCO - 2) None" by simp
  have pool: "pool_ok s" unfolding s_def by (intro pool_ok_fill pool_ok_start) (simp add: libco_start_def co_main_def)
  have l: "in_line 1 7 s" using pool by (simp add: in_line_def P m runs_def MAXCO_def)
  let ?s = "co_put 0 me s" and ?s' = "co_put 7 (?t\<lparr>co_status := CO_RUNNING\<rparr>) (co_put 0 me s\<lparr>co_id := 1, current := 7\<rparr>)"
  have me': "(me\<lparr>co_ctx := Ctx_run ?q, co_ctx := Ctx_run Return\<rparr>) = me" by (simp add: me_def)
  have "fd_next_loop (Suc n) ?s 0 = Inr 1" for n by (simp add: Let_def P m co_get_def MAXCO_def)
  from this [of 135] have "fd_next_loop MAXCO ?s 0 = Inr 1" by (simp add: MAXCO_def)
  then have "co_yield (Ctx_run Return) s = Inr ?s'"
    by (simp add: co_yield_def fd_next_def co_get_def m P me_def)
  then have "co_run 8 s = Inr ?s'" by (simp add: co_run_def co_get_def m)
  then have "co_step s ?s'" by (intro co_step.intros [of _ 8]) (simp_all add: finished_def m co_main_def)
  then have "without 7 (if switching s then Suc 0 else 0) s ?s'"
    using m by (intro wo_step [OF wo_refl]) simp_all
  moreover have "switching s" by (simp add: switching_def m)
  ultimately have w: "without 7 1 s ?s'" by simp
  show ?thesis using co_fair [OF l w] l w by (intro exI [of _ s] exI [of _ ?s']) simp
qed

end
