(* ===== verification/Libco_Safe.thy ===== *)
theory Libco_Safe
  imports Libco
begin

text \<open>
  What the coroutine library keeps: no use of a freed coroutine, no lost wake-up, and no hang in
  \<open>co_yield\<close> unless coroutines wait for each other in a circle. A program has to wait only for live
  coroutines that nobody else waits for, and there must be room in the pool.
\<close>

section \<open>The invariant\<close>

text \<open>
  A coroutine fits its context: a waiting one is the waiter of what it waits for, and is woken once
  that is dead, unless it is running (\<open>cur\<close>), on its way to the test of the loop.
\<close>

definition co_wf :: "coid option \<Rightarrow> libco \<Rightarrow> coid \<Rightarrow> co \<Rightarrow> bool" where
  "co_wf cur s c x \<longleftrightarrow>
     (case co_ctx x of
        Ctx_run p \<Rightarrow> co_status x = CO_NEW \<or> co_status x = CO_RUNNING
      | Ctx_wait a p \<Rightarrow> a \<noteq> c \<and> a \<noteq> co_main \<and> (\<exists>y. co_mem s a = Some y \<and> co_waiter y = Some c \<and>
          (co_status x = CO_WAITING \<and> (co_status y = CO_DEAD \<longrightarrow> cur = Some c) \<or> co_status x = CO_RUNNING \<and> co_status y = CO_DEAD))
      | Ctx_dead \<Rightarrow> co_status x = CO_DEAD \<and> c \<noteq> co_main) \<and>
     (\<forall>w. co_waiter x = Some w \<longrightarrow> (\<exists>z p. co_mem s w = Some z \<and> co_ctx z = Ctx_wait c p))"

definition parts_ok :: "coid option \<Rightarrow> libco \<Rightarrow> bool" where
  "parts_ok cur s \<longleftrightarrow> pool_ok s \<and> co_mem s co_main \<noteq> None \<and>
     (\<forall>c x. co_mem s c = Some x \<longrightarrow> (\<exists>i < MAXCO. POOL s ! i = Some c) \<and> co_wf cur s c x)"

definition co_ok :: "libco \<Rightarrow> bool" where
  "co_ok s \<longleftrightarrow> parts_ok (Some (current s)) s \<and>
     (\<exists>x. co_mem s (current s) = Some x \<and> (co_status x = CO_RUNNING \<or> co_status x = CO_WAITING))"

text \<open>Who waits for whom.\<close>

definition waits_for :: "libco \<Rightarrow> (coid \<times> coid) set" where
  "waits_for s = {(c, a). \<exists>x p. co_mem s c = Some x \<and> co_ctx x = Ctx_wait a p}"

text \<open>What the next step of the program has to respect.\<close>

definition polite :: "libco \<Rightarrow> bool" where
  "polite s \<longleftrightarrow> (\<forall>me. co_mem s (current s) = Some me \<longrightarrow>
     (\<forall>c p. co_ctx me = Ctx_run (Wait c p) \<longrightarrow> c \<noteq> current s \<and> c \<noteq> co_main \<and> (\<exists>x. co_mem s c = Some x \<and> co_waiter x = None)) \<and>
     (\<forall>n q f. co_ctx me = Ctx_run (Start n q f) \<longrightarrow> None \<in> set (POOL s)))"

lemma partsD:
  assumes "parts_ok cur s" "co_mem s c = Some x"
  shows "co_wf cur s c x" and "\<exists>i < MAXCO. POOL s ! i = Some c"
  using assms by (auto simp: parts_ok_def)

lemma co_wf_waitD:
  assumes "co_wf cur s c x" "co_ctx x = Ctx_wait a p"
  obtains y where "a \<noteq> c" "a \<noteq> co_main" "co_mem s a = Some y" "co_waiter y = Some c"
    "co_status x = CO_WAITING \<and> (co_status y = CO_DEAD \<longrightarrow> cur = Some c) \<or> co_status x = CO_RUNNING \<and> co_status y = CO_DEAD"
  using assms by (auto simp: co_wf_def)

lemma co_wf_waiterD:
  assumes "co_wf cur s c x" "co_waiter x = Some w"
  obtains z p where "co_mem s w = Some z" "co_ctx z = Ctx_wait c p"
  using assms by (auto simp: co_wf_def)

lemma co_wf_status:
  assumes "co_wf cur s c x"
  shows "co_status x = CO_NEW \<Longrightarrow> \<exists>p. co_ctx x = Ctx_run p" "co_status x = CO_WAITING \<Longrightarrow> \<exists>a p. co_ctx x = Ctx_wait a p"
    "co_status x = CO_DEAD \<Longrightarrow> co_ctx x = Ctx_dead \<and> c \<noteq> co_main"
  using assms by (auto simp: co_wf_def split: ctx.splits)

text \<open>Only the links matter to others.\<close>

definition agree :: "co \<Rightarrow> co \<Rightarrow> bool" where
  "agree y y' \<longleftrightarrow> co_waiter y' = co_waiter y \<and> co_ctx y' = co_ctx y \<and> (co_status y' = CO_DEAD \<longleftrightarrow> co_status y = CO_DEAD)"

lemma agree_refl [simp]: "agree y y"
  by (simp add: agree_def)

lemma co_wf_agree:
  assumes "co_wf cur s c x"
    and "\<And>a p y. co_ctx x = Ctx_wait a p \<Longrightarrow> co_mem s a = Some y \<Longrightarrow> co_waiter y = Some c \<Longrightarrow>
      \<exists>y'. co_mem s' a = Some y' \<and> co_waiter y' = co_waiter y \<and> (co_status y' = CO_DEAD \<longleftrightarrow> co_status y = CO_DEAD)"
    and "\<And>w z. co_waiter x = Some w \<Longrightarrow> co_mem s w = Some z \<Longrightarrow> \<exists>z'. co_mem s' w = Some z' \<and> co_ctx z' = co_ctx z"
    and "cur = Some c \<Longrightarrow> cur' = Some c \<or> (\<forall>a p. co_ctx x \<noteq> Ctx_wait a p)"
  shows "co_wf cur' s' c x"
proof -
  have "co_waiter x = Some w \<Longrightarrow> \<exists>z p. co_mem s' w = Some z \<and> co_ctx z = Ctx_wait c p" for w
    using assms(1,3) unfolding co_wf_def by metis
  moreover have "case co_ctx x of
      Ctx_run p \<Rightarrow> co_status x = CO_NEW \<or> co_status x = CO_RUNNING
    | Ctx_wait a p \<Rightarrow> a \<noteq> c \<and> a \<noteq> co_main \<and> (\<exists>y. co_mem s' a = Some y \<and> co_waiter y = Some c \<and>
        (co_status x = CO_WAITING \<and> (co_status y = CO_DEAD \<longrightarrow> cur' = Some c) \<or> co_status x = CO_RUNNING \<and> co_status y = CO_DEAD))
    | Ctx_dead \<Rightarrow> co_status x = CO_DEAD \<and> c \<noteq> co_main"
  proof (cases "co_ctx x")
    case (Ctx_wait a p)
    from co_wf_waitD [OF assms(1) Ctx_wait] obtain y where y: "a \<noteq> c" "a \<noteq> co_main" "co_mem s a = Some y" "co_waiter y = Some c"
      "co_status x = CO_WAITING \<and> (co_status y = CO_DEAD \<longrightarrow> cur = Some c) \<or> co_status x = CO_RUNNING \<and> co_status y = CO_DEAD" .
    obtain y' where "co_mem s' a = Some y'" "co_waiter y' = co_waiter y" "co_status y' = CO_DEAD \<longleftrightarrow> co_status y = CO_DEAD"
      using assms(2) [OF Ctx_wait y(3,4)] by blast
    then show ?thesis using y assms(4) Ctx_wait by auto
  qed (use assms(1) in \<open>auto simp: co_wf_def\<close>)
  ultimately show ?thesis unfolding co_wf_def by blast
qed

lemma co_wf_all_agree:
  assumes "co_wf cur s c x" and "\<And>d y. co_mem s d = Some y \<Longrightarrow> \<exists>y'. co_mem s' d = Some y' \<and> agree y y'"
    and "cur = Some c \<Longrightarrow> cur' = Some c \<or> (\<forall>a p. co_ctx x \<noteq> Ctx_wait a p)"
  shows "co_wf cur' s' c x"
  by (rule co_wf_agree [OF assms(1) _ _ assms(3)]) (fastforce dest: assms(2) simp: agree_def)+

lemma libco_start_ok: "co_ok (libco_start p)"
proof -
  note pool_ok_start [of p]
  moreover have "POOL (libco_start p) ! 0 = Some co_main" by (simp add: libco_start_def)
  ultimately show ?thesis
    by (auto simp: co_ok_def parts_ok_def co_wf_def libco_start_def split: if_splits intro!: exI [of _ 0])
qed

section \<open>Progress\<close>

lemma parts_finite: "parts_ok cur s \<Longrightarrow> finite (dom (co_mem s))"
proof -
  assume p: "parts_ok cur s"
  then have "length (POOL s) = MAXCO" by (simp add: parts_ok_def pool_ok_def)
  have "dom (co_mem s) \<subseteq> the ` set (POOL s)"
  proof
    fix c assume "c \<in> dom (co_mem s)"
    then obtain x where "co_mem s c = Some x" by blast
    then obtain i where "i < MAXCO" "POOL s ! i = Some c" using p by (auto simp: parts_ok_def)
    then have "Some c \<in> set (POOL s)" using \<open>length (POOL s) = MAXCO\<close> by (auto simp: in_set_conv_nth)
    then show "c \<in> the ` set (POOL s)" by force
  qed
  then show ?thesis by (rule finite_subset) simp
qed

text \<open>Following who waits for whom from \<open>main\<close> ends at a coroutine that can run.\<close>

lemma some_ready:
  assumes p: "parts_ok None s" and acyclic: "acyclic (waits_for s)"
  shows "\<exists>j < MAXCO. ready_slot s j"
proof -
  have "waits_for s \<subseteq> dom (co_mem s) \<times> dom (co_mem s)"
  proof
    fix e assume "e \<in> waits_for s"
    then obtain c a x q where e: "e = (c, a)" "co_mem s c = Some x" "co_ctx x = Ctx_wait a q" by (auto simp: waits_for_def)
    obtain y where "co_mem s a = Some y" by (rule co_wf_waitD [OF partsD(1) [OF p e(2)] e(3)])
    then show "e \<in> dom (co_mem s) \<times> dom (co_mem s)" using e by auto
  qed
  then have "finite (waits_for s)" using parts_finite [OF p] finite_subset by blast
  then have wf: "wf ((waits_for s)\<inverse>)" using acyclic by (intro finite_acyclic_wf_converse)
  let ?Q = "{c. \<exists>x. co_mem s c = Some x \<and> co_status x \<noteq> CO_DEAD}"
  obtain m where "co_mem s co_main = Some m" using p by (auto simp: parts_ok_def)
  moreover from this have "co_wf None s co_main m" using p by (auto simp: parts_ok_def)
  then have "co_status m \<noteq> CO_DEAD" by (auto simp: co_wf_def split: ctx.splits)
  ultimately have "co_main \<in> ?Q" by blast
  with wf [unfolded wf_eq_minimal] have "\<exists>z \<in> ?Q. \<forall>y. (y, z) \<in> (waits_for s)\<inverse> \<longrightarrow> y \<notin> ?Q" by (elim allE impE)
  then obtain z where z: "z \<in> ?Q" "\<And>y. (y, z) \<in> (waits_for s)\<inverse> \<Longrightarrow> y \<notin> ?Q" by (elim bexE) simp
  then obtain x where x: "co_mem s z = Some x" "co_status x \<noteq> CO_DEAD" by blast
  then have w: "co_wf None s z x" "\<exists>i < MAXCO. POOL s ! i = Some z" using p by (auto simp: parts_ok_def)
  have "co_status x \<noteq> CO_WAITING"
  proof
    assume "co_status x = CO_WAITING"
    then obtain a q y where a: "co_ctx x = Ctx_wait a q" "co_mem s a = Some y" "co_status y \<noteq> CO_DEAD"
      using w(1) by (auto simp: co_wf_def split: ctx.splits)
    then have "(a, z) \<in> (waits_for s)\<inverse>" using x(1) by (auto simp: waits_for_def)
    then show False using z(2) a(2,3) by blast
  qed
  then have "runs (co_mem s z)" using x by (cases "co_status x") (simp_all add: runs_def)
  then show ?thesis using w(2) by (auto simp: ready_slot_def)
qed

lemma co_yield_ok:
  assumes me: "co_mem s (current s) = Some me"
    and p: "parts_ok None (co_put (current s) (me\<lparr>co_ctx := k\<rparr>) s)"
    and r: "\<exists>j < MAXCO. ready_slot (co_put (current s) (me\<lparr>co_ctx := k\<rparr>) s) j"
  shows "\<exists>s'. co_yield k s = Inr s' \<and> co_ok s'"
proof -
  let ?s = "co_put (current s) (me\<lparr>co_ctx := k\<rparr>) s"
  obtain i where i: "fd_next ?s = Inr (?s\<lparr>co_id := i\<rparr>)" "i < MAXCO" "ready_slot ?s i"
  proof -
    obtain j where "j < MAXCO" "ready_slot ?s j" using r by blast
    moreover have "pool_ok ?s" using p by (simp add: parts_ok_def)
    ultimately show ?thesis using fd_next_choice [of ?s j] that by blast
  qed
  then obtain c x where c: "POOL ?s ! i = Some c" "co_mem ?s c = Some x" "co_status x = CO_RUNNING \<or> co_status x = CO_NEW"
    by (auto simp: ready_slot_def runs_def split: option.splits)
  let ?s' = "co_put c (x\<lparr>co_status := CO_RUNNING\<rparr>) (?s\<lparr>co_id := i, current := c\<rparr>)"
  have "co_yield k s = Inr ?s'"
  proof (cases "co_status x = CO_RUNNING")
    case True
    then have "co_put c (x\<lparr>co_status := CO_RUNNING\<rparr>) (?s\<lparr>co_id := i, current := c\<rparr>) = ?s\<lparr>co_id := i, current := c\<rparr>"
      using c(2) by (intro co_put_running) simp_all
    then show ?thesis using True c i(1) me by (simp add: co_yield_def co_get_def)
  next
    case False
    then show ?thesis using c i(1) me by (simp add: co_yield_def co_get_def co_put_def)
  qed
  moreover have "co_ok ?s'"
  proof -
    have agree: "\<exists>y'. co_mem ?s' d = Some y' \<and> agree y y'" if "co_mem ?s d = Some y" for d y
      using that c(2,3) by (cases "d = c") (auto simp: agree_def)
    have "pool_ok ?s'" using p i(2) c(2) by (auto simp: parts_ok_def pool_ok_def)
    moreover have "co_wf (Some c) ?s' d y" if d: "co_mem ?s' d = Some y" for d y
    proof (cases "d = c")
      case False
      then have "co_mem ?s d = Some y" using d by simp
      then show ?thesis by (intro co_wf_all_agree [OF partsD(1) [OF p] agree]) auto
    next
      case True
      then have y: "y = x\<lparr>co_status := CO_RUNNING\<rparr>" using d by simp
      have w: "co_wf None ?s c x" using partsD(1) [OF p c(2)] .
      have "co_wf None ?s c y"
      proof (cases "co_status x = CO_RUNNING")
        case False
        then obtain q where "co_ctx x = Ctx_run q" using c(3) co_wf_status(1) [OF w] by auto
        then show ?thesis using w by (auto simp: y co_wf_def)
      next
        case True
        then have "y = x" unfolding y by simp
        then show ?thesis using w by simp
      qed
      then show ?thesis unfolding \<open>d = c\<close> by (rule co_wf_all_agree [OF _ agree]) auto
    qed
    moreover have "co_mem ?s' co_main \<noteq> None" using p by (auto simp: parts_ok_def)
    moreover have "\<exists>i < MAXCO. POOL ?s' ! i = Some d" if "co_mem ?s' d = Some y" for d y
      using that partsD(2) [OF p, of d] c(2) by (cases "d = c") auto
    ultimately show ?thesis by (auto simp: co_ok_def parts_ok_def)
  qed
  ultimately show ?thesis by blast
qed

section \<open>Every step keeps it\<close>

text \<open>A change of one coroutine that keeps its links.\<close>

lemma parts_put:
  assumes p: "parts_ok cur s" and me: "co_mem s c = Some me" and wf: "co_wf cur' (co_put c me' s) c me'"
    and links: "co_waiter me' = co_waiter me" "co_status me' = CO_DEAD \<longleftrightarrow> co_status me = CO_DEAD"
    and ctx: "co_ctx me' = co_ctx me \<or> (\<forall>a p. co_ctx me \<noteq> Ctx_wait a p)" and cur: "cur = Some c \<or> cur' = cur"
  shows "parts_ok cur' (co_put c me' s)"
proof -
  have "co_wf cur' (co_put c me' s) d x" if d: "co_mem (co_put c me' s) d = Some x" for d x
  proof (cases "d = c")
    case False
    then have x: "co_mem s d = Some x" using d by simp
    note w = partsD(1) [OF p x]
    show ?thesis
    proof (rule co_wf_agree [OF w])
      show "\<exists>y'. co_mem (co_put c me' s) a = Some y' \<and> co_waiter y' = co_waiter y \<and> (co_status y' = CO_DEAD \<longleftrightarrow> co_status y = CO_DEAD)"
        if "co_mem s a = Some y" for a p y using that me links by (cases "a = c") auto
      show "\<exists>z'. co_mem (co_put c me' s) v = Some z' \<and> co_ctx z' = co_ctx z" if v: "co_waiter x = Some v" "co_mem s v = Some z" for v z
      proof (cases "v = c")
        case True
        obtain z' q where "co_mem s v = Some z'" "co_ctx z' = Ctx_wait d q" by (rule co_wf_waiterD [OF w v(1)])
        then show ?thesis using True me ctx v(2) by auto
      qed (use v in auto)
      show "cur = Some d \<Longrightarrow> cur' = Some d \<or> (\<forall>a p. co_ctx x \<noteq> Ctx_wait a p)" using cur False by auto
    qed
  next
    case True
    then show ?thesis using d wf by simp
  qed
  moreover have "\<exists>i < MAXCO. POOL s ! i = Some d" if "co_mem (co_put c me' s) d = Some x" for d x
    using that partsD(2) [OF p, of d] me by (cases "d = c") auto
  moreover have "pool_ok (co_put c me' s)" using p me by (auto simp: parts_ok_def pool_ok_def)
  ultimately show ?thesis using p by (auto simp: parts_ok_def)
qed

lemma co_okD:
  assumes "co_ok s"
  obtains me where "co_mem s (current s) = Some me" "parts_ok (Some (current s)) s" "co_wf (Some (current s)) s (current s) me"
    "co_status me = CO_RUNNING \<or> co_status me = CO_WAITING"
  using assms partsD(1) unfolding co_ok_def by blast

text \<open>A running coroutine at a step of its function has no one's wait to end.\<close>

lemma run_wf:
  assumes "co_wf cur s c x" "co_waiter x = co_waiter y" "co_ctx y = Ctx_run q" "co_status y = CO_RUNNING"
    and "\<And>w z p. co_waiter x = Some w \<Longrightarrow> co_mem s w = Some z \<Longrightarrow> co_ctx z = Ctx_wait c p \<Longrightarrow> \<exists>z' p'. co_mem s' w = Some z' \<and> co_ctx z' = Ctx_wait c p'"
  shows "co_wf cur' s' c y"
proof -
  have "\<exists>z p. co_mem s' w = Some z \<and> co_ctx z = Ctx_wait c p" if "co_waiter x = Some w" for w
    using co_wf_waiterD [OF assms(1) that] assms(5) [OF that] by metis
  then show ?thesis using assms(2-4) by (auto simp: co_wf_def)
qed

lemma step_yield:
  assumes ok: "co_ok s" and me: "co_mem s (current s) = Some me" "co_ctx me = Ctx_run (Yield p)"
  shows "\<exists>s'. co_yield (Ctx_run p) s = Inr s' \<and> co_ok s'"
proof -
  have p: "parts_ok (Some (current s)) s" and w: "co_wf (Some (current s)) s (current s) me"
    and st: "co_status me = CO_RUNNING"
    using ok me by (auto elim!: co_okD simp: co_wf_def)
  let ?me = "me\<lparr>co_ctx := Ctx_run p\<rparr>" and ?s = "co_put (current s) (me\<lparr>co_ctx := Ctx_run p\<rparr>) s"
  have "co_wf None ?s (current s) ?me"
    by (rule run_wf [OF w]) (use st me in \<open>auto split: if_splits\<close>)
  then have "parts_ok None ?s" using st me by (intro parts_put [OF p me(1)]) auto
  moreover obtain i where "i < MAXCO" "POOL s ! i = Some (current s)" using partsD(2) [OF p me(1)] by blast
  then have "\<exists>j < MAXCO. ready_slot ?s j" using st by (auto simp: ready_slot_def runs_def)
  ultimately show ?thesis by (intro co_yield_ok [OF me(1)])
qed

lemma co_wf_new_waiter:
  "co_wf cur s c x \<Longrightarrow> co_mem s t = Some z \<Longrightarrow> co_ctx z = Ctx_wait c p \<Longrightarrow> co_wf cur s c (x\<lparr>co_waiter := Some t\<rparr>)"
  by (auto simp: co_wf_def split: ctx.splits)

lemma step_wait:
  assumes ok: "co_ok s" and me: "co_mem s (current s) = Some me" "co_ctx me = Ctx_run (Wait c p)"
    and x: "c \<noteq> current s" "c \<noteq> co_main" "co_mem s c = Some x" "co_waiter x = None"
  shows "\<exists>s'. co_wait c p s = Inr s' \<and> co_ok s'"
proof -
  let ?t = "current s"
  have p: "parts_ok (Some ?t) s" and w: "co_wf (Some ?t) s ?t me" and st: "co_status me = CO_RUNNING"
    using ok me by (auto elim!: co_okD simp: co_wf_def)
  let ?x = "x\<lparr>co_waiter := Some ?t\<rparr>" and ?me = "me\<lparr>co_status := CO_WAITING, co_ctx := Ctx_wait c p\<rparr>"
  let ?s = "co_put ?t ?me (co_put c ?x s)"
  have "co_wait c p s = Inr ?s" using me x by (simp add: co_wait_def co_get_def Let_def)
  moreover have "co_ok ?s"
  proof -
    have wf: "co_wf (Some ?t) ?s d y" if d: "co_mem ?s d = Some y" for d y
    proof -
      consider "d = ?t" "y = ?me" | "d = c" "y = ?x" "d \<noteq> ?t" | "d \<noteq> ?t" "d \<noteq> c" "co_mem s d = Some y"
        using d x(1) by (auto split: if_splits)
      then show ?thesis
      proof cases
        case 1
        have "\<exists>z p. co_mem ?s v = Some z \<and> co_ctx z = Ctx_wait ?t p" if v: "co_waiter me = Some v" for v
        proof -
          obtain z q where z: "co_mem s v = Some z" "co_ctx z = Ctx_wait ?t q" by (rule co_wf_waiterD [OF w v])
          then have "v \<noteq> ?t" using me by auto
          then show ?thesis using z x(1,3) by (cases "v = c") auto
        qed
        then show ?thesis using 1 x by (simp add: co_wf_def)
      next
        case 2
        have "co_wf (Some ?t) ?s c x"
          by (rule co_wf_agree [OF partsD(1) [OF p x(3)]]) (use x me st in \<open>auto split: if_splits\<close>)
        then show ?thesis unfolding 2 by (rule co_wf_new_waiter [where z = ?me]) simp_all
      next
        case 3
        note wd = partsD(1) [OF p 3(3)]
        show ?thesis
        proof (rule co_wf_agree [OF wd])
          show "\<exists>y'. co_mem ?s a = Some y' \<and> co_waiter y' = co_waiter y \<and> (co_status y' = CO_DEAD \<longleftrightarrow> co_status y = CO_DEAD)"
            if "co_mem s a = Some y" "co_waiter y = Some d" for a q y
            using that me(1) st x by auto
          show "\<exists>z'. co_mem ?s v = Some z' \<and> co_ctx z' = co_ctx z" if v: "co_waiter y = Some v" "co_mem s v = Some z" for v z
          proof -
            obtain z' q where "co_mem s v = Some z'" "co_ctx z' = Ctx_wait d q" by (rule co_wf_waiterD [OF wd v(1)])
            then have "v \<noteq> ?t" using me by auto
            then show ?thesis using v x(1,3) by (cases "v = c") auto
          qed
        qed simp
      qed
    qed
    moreover have "\<exists>i < MAXCO. POOL s ! i = Some d" if "co_mem ?s d = Some y" for d y
      using that partsD(2) [OF p, of d] me(1) x(3) by (auto split: if_splits)
    moreover have "pool_ok ?s" "co_mem ?s co_main \<noteq> None" using p by (auto simp: parts_ok_def pool_ok_def)
    ultimately show ?thesis by (auto simp: co_ok_def parts_ok_def)
  qed
  ultimately show ?thesis by blast
qed

lemma step_loop:
  assumes ok: "co_ok s" and me: "co_mem s (current s) = Some me" "co_ctx me = Ctx_wait c p" and ac: "acyclic (waits_for s)"
  shows "\<exists>s'. co_wait_loop c p s = Inr s' \<and> co_ok s'"
proof -
  let ?t = "current s"
  have p: "parts_ok (Some ?t) s" and w: "co_wf (Some ?t) s ?t me"
    using ok me(1) by (auto elim!: co_okD)
  obtain x where x: "c \<noteq> ?t" "c \<noteq> co_main" "co_mem s c = Some x" "co_waiter x = Some ?t"
      "co_status me = CO_WAITING \<and> (co_status x = CO_DEAD \<longrightarrow> Some ?t = Some ?t) \<or> co_status me = CO_RUNNING \<and> co_status x = CO_DEAD"
    by (rule co_wf_waitD [OF w me(2)])
  show ?thesis
  proof (cases "co_status x = CO_DEAD")
    case False
    have same: "co_put ?t (me\<lparr>co_ctx := Ctx_wait c p\<rparr>) s = s"
    proof -
      have "me\<lparr>co_ctx := Ctx_wait c p\<rparr> = me" using me(2) by (cases me) simp
      moreover have "(co_mem s)(?t \<mapsto> me) = co_mem s" using me(1) by auto
      ultimately show ?thesis by (simp add: co_put_def)
    qed
    have "co_wf None s d y" if d: "co_mem s d = Some y" for d y
    proof (cases "d = ?t")
      case True
      then have "y = me" using d me(1) by simp
      then show ?thesis using w me(2) x False True by (simp add: co_wf_def)
    next
      case other: False
      show ?thesis by (rule co_wf_all_agree [OF partsD(1) [OF p d]]) (use other in auto)
    qed
    then have pn: "parts_ok None s" using p by (auto simp: parts_ok_def)
    have "\<exists>s'. co_yield (Ctx_wait c p) s = Inr s' \<and> co_ok s'"
      by (rule co_yield_ok [OF me(1)]) (simp_all only: same pn some_ready [OF pn ac])
    then show ?thesis using False x(3) by (simp add: co_wait_loop_def co_get_def)
  next
    case True
    let ?me = "me\<lparr>co_status := CO_RUNNING, co_ctx := Ctx_run p\<rparr>"
    let ?s = "co_put ?t ?me (co_free c s)"
    have "co_wait_loop c p s = Inr ?s"
      using True x me by (simp add: co_wait_loop_def co_get_def co_free_def Let_def)
    moreover have "co_ok ?s"
    proof -
      have mem: "co_mem ?s d = (if d = ?t then Some ?me else if d = c then None else co_mem s d)" for d
        using x(1) by (simp add: co_free_def)
      have "pool_ok (co_free c s)" using p by (intro pool_ok_free) (simp add: parts_ok_def)
      then have "pool_ok ?s" using me(1) x(1) by (auto simp: pool_ok_def co_free_def)
      moreover have "\<exists>i < MAXCO. POOL ?s ! i = Some d" if "co_mem ?s d = Some y" for d y
      proof -
        have "d \<noteq> c" "co_mem s d \<noteq> None" using that x(1) me(1) unfolding mem by (auto split: if_splits)
        then obtain i where "i < MAXCO" "POOL s ! i = Some d" using partsD(2) [OF p] by blast
        then show ?thesis using pool_ok_free(2) [of s i c] p \<open>d \<noteq> c\<close> by (auto simp: parts_ok_def)
      qed
      moreover have "co_wf (Some ?t) ?s d y" if d: "co_mem ?s d = Some y" for d y
      proof (cases "d = ?t")
        case True
        have "\<exists>z' p'. co_mem ?s v = Some z' \<and> co_ctx z' = Ctx_wait ?t p'" if "co_mem s v = Some z" "co_ctx z = Ctx_wait ?t q" for v z q
        proof -
          have "co_wf (Some ?t) s v z" using partsD(1) [OF p that(1)] .
          then have "v \<noteq> ?t" "v \<noteq> c" using that x \<open>co_status x = CO_DEAD\<close> me by (auto simp: co_wf_def)
          then show ?thesis using that mem [of v] by auto
        qed
        then have "co_wf (Some ?t) ?s ?t ?me" by (intro run_wf [OF w]) auto
        then show ?thesis using True d mem [of d] by simp
      next
        case False
        then have dc: "d \<noteq> c" "co_mem s d = Some y" using d mem [of d] by (auto split: if_splits)
        note wd = partsD(1) [OF p dc(2)]
        show ?thesis
        proof (rule co_wf_agree [OF wd])
          show "\<exists>y'. co_mem ?s a = Some y' \<and> co_waiter y' = co_waiter y \<and> (co_status y' = CO_DEAD \<longleftrightarrow> co_status y = CO_DEAD)"
            if a: "co_mem s a = Some y" "co_waiter y = Some d" for a q y
          proof -
            have "a \<noteq> c" using a x False by auto
            then show ?thesis using mem [of a] a me(1) x(5) by auto
          qed
          show "\<exists>z'. co_mem ?s v = Some z' \<and> co_ctx z' = co_ctx z" if v: "co_waiter y = Some v" "co_mem s v = Some z" for v z
          proof -
            obtain z' q where z': "co_mem s v = Some z'" "co_ctx z' = Ctx_wait d q" by (rule co_wf_waiterD [OF wd v(1)])
            then have "v \<noteq> ?t" using me dc by auto
            moreover have "v \<noteq> c" using z' partsD(1) [OF p z'(1)] x(3) True by (auto simp: co_wf_def)
            ultimately show ?thesis using v mem [of v] by auto
          qed
        qed simp
      qed
      moreover have "co_mem ?s co_main \<noteq> None" using p x(2) mem [of co_main] by (auto simp: parts_ok_def)
      moreover have "current ?s = ?t" by (simp add: co_free_def)
      ultimately show ?thesis using mem [of ?t] by (auto simp: co_ok_def parts_ok_def)
    qed
    ultimately show ?thesis by blast
  qed
qed

lemma step_return:
  assumes ok: "co_ok s" and me: "co_mem s (current s) = Some me" "co_ctx me = Ctx_run Return" and main: "current s \<noteq> co_main"
    and ac: "acyclic (waits_for s)"
  shows "\<exists>s'. co_return s = Inr s' \<and> co_ok s'"
proof -
  let ?t = "current s" and ?w = "co_waiter me"
  have p: "parts_ok (Some ?t) s" and w: "co_wf (Some ?t) s ?t me" and st: "co_status me = CO_RUNNING"
    using ok me by (auto elim!: co_okD simp: co_wf_def)
  let ?dead = "me\<lparr>co_status := CO_DEAD\<rparr>" and ?gone = "me\<lparr>co_status := CO_DEAD, co_ctx := Ctx_dead\<rparr>"
  have wait: "\<exists>z q. co_mem s v = Some z \<and> co_ctx z = Ctx_wait ?t q \<and> v \<noteq> ?t" if v: "?w = Some v" for v
  proof -
    obtain z q where z: "co_mem s v = Some z" "co_ctx z = Ctx_wait ?t q" by (rule co_wf_waiterD [OF w v])
    then have "v \<noteq> ?t" using me by auto
    then show ?thesis using z by blast
  qed
  define s1 where "s1 = (case ?w of None \<Rightarrow> co_put ?t ?dead s
    | Some v \<Rightarrow> co_put v (the (co_mem s v)\<lparr>co_status := CO_RUNNING\<rparr>) (co_put ?t ?dead s))"
  have ret: "co_return s = co_yield Ctx_dead s1"
  proof (cases ?w)
    case None
    then show ?thesis using me by (simp add: co_return_def co_get_def Let_def s1_def)
  next
    case (Some v)
    then show ?thesis using me wait [OF Some] by (auto simp: co_return_def co_get_def Let_def s1_def)
  qed
  have cur: "current s1 = ?t" "POOL s1 = POOL s" "co_id s1 = co_id s" by (simp_all add: s1_def split: option.splits)
  let ?s2 = "co_put ?t ?gone s1"
  have mem: "co_mem ?s2 d = (if d = ?t then Some ?gone
      else if Some d = ?w then Some (the (co_mem s d)\<lparr>co_status := CO_RUNNING\<rparr>) else co_mem s d)" for d
    by (simp add: s1_def split: option.splits)
  have s1me: "co_mem s1 (current s1) = Some ?dead"
    unfolding cur using wait by (auto simp: s1_def split: option.splits)
  have keep: "\<exists>z'. co_mem ?s2 v = Some z' \<and> agree z z'" if v: "v \<noteq> ?t" "co_mem s v = Some z" for v z
  proof (cases "?w = Some v")
    case True
    obtain q where "co_ctx z = Ctx_wait ?t q" using wait [OF True] v(2) by auto
    then have "co_status z \<noteq> CO_DEAD" using partsD(1) [OF p v(2)] by (auto simp: co_wf_def)
    then show ?thesis using True v mem [of v] by (simp add: agree_def)
  next
    case False
    then show ?thesis using v mem [of v] by auto
  qed
  have old: "d = ?t \<and> y = ?gone \<or> d \<noteq> ?t \<and> (\<exists>z. co_mem s d = Some z \<and> y = (if ?w = Some d then z\<lparr>co_status := CO_RUNNING\<rparr> else z))"
    if d: "co_mem ?s2 d = Some y" for d y
    using d wait [of d] mem [of d] by (cases "?w = Some d") (auto split: if_splits)
  have waiter: "\<exists>z' q. co_mem ?s2 v = Some z' \<and> co_ctx z' = Ctx_wait d q"
    if d: "co_mem s d = Some z" "co_waiter z = Some v" for d z v
  proof -
    obtain z' q where z': "co_mem s v = Some z'" "co_ctx z' = Ctx_wait d q" by (rule co_wf_waiterD [OF partsD(1) [OF p d(1)] d(2)])
    then have "v \<noteq> ?t" using me by auto
    then show ?thesis using keep [OF _ z'(1)] z'(2) by (auto simp: agree_def)
  qed
  have wf: "co_wf None ?s2 d y" if d: "co_mem ?s2 d = Some y" for d y
  proof -
    consider "d = ?t" "y = ?gone" | z where "d \<noteq> ?t" "?w = Some d" "co_mem s d = Some z" "y = z\<lparr>co_status := CO_RUNNING\<rparr>"
      | "d \<noteq> ?t" "?w \<noteq> Some d" "co_mem s d = Some y"
      using old [OF d] by (auto split: if_splits)
    then show ?thesis
    proof cases
      case 1
      then show ?thesis using main waiter [OF me(1)] by (simp add: co_wf_def)
    next
      case 2
      obtain q where "co_ctx z = Ctx_wait ?t q" using wait [OF 2(2)] 2(3) by auto
      then show ?thesis using 2 main waiter [OF 2(3)] mem [of ?t] by (simp add: co_wf_def)
    next
      case 3
      note wd = partsD(1) [OF p 3(3)]
      show ?thesis
      proof (rule co_wf_agree [OF wd])
        show "\<exists>y'. co_mem ?s2 a = Some y' \<and> co_waiter y' = co_waiter y \<and> (co_status y' = CO_DEAD \<longleftrightarrow> co_status y = CO_DEAD)"
          if a: "co_mem s a = Some y" "co_waiter y = Some d" for a q y
          using keep [OF _ a(1)] a 3(2) me(1) by (cases "a = ?t") (auto simp: agree_def)
        show "\<exists>z'. co_mem ?s2 v = Some z' \<and> co_ctx z' = co_ctx z" if v: "co_waiter y = Some v" "co_mem s v = Some z" for v z
        proof -
          obtain z' q where "co_mem s v = Some z'" "co_ctx z' = Ctx_wait d q" by (rule co_wf_waiterD [OF wd v(1)])
          then have "v \<noteq> ?t" using me by auto
          then show ?thesis using keep [OF _ v(2)] by (auto simp: agree_def)
        qed
      qed (use 3 in auto)
    qed
  qed
  have "co_mem ?s2 d \<noteq> None" if "co_mem s d \<noteq> None" for d
    using that keep [of d] mem [of d] by (cases "d = ?t") auto
  then have "pool_ok ?s2" "co_mem ?s2 co_main \<noteq> None" using p by (auto simp: parts_ok_def pool_ok_def cur)
  moreover have "\<exists>i < MAXCO. POOL ?s2 ! i = Some d" if "co_mem ?s2 d = Some y" for d y
    using old [OF that] partsD(2) [OF p, of d] me(1) by (auto simp: cur)
  ultimately have p2: "parts_ok None ?s2" using wf by (auto simp: parts_ok_def)
  have "waits_for ?s2 \<subseteq> waits_for s"
  proof
    fix e assume "e \<in> waits_for ?s2"
    then obtain d a y q where e: "e = (d, a)" "co_mem ?s2 d = Some y" "co_ctx y = Ctx_wait a q" by (auto simp: waits_for_def)
    then show "e \<in> waits_for s" using old [OF e(2)] by (auto simp: waits_for_def split: if_splits)
  qed
  then have "acyclic (waits_for ?s2)" using ac by (rule acyclic_subset [rotated])
  then have "\<exists>j < MAXCO. ready_slot ?s2 j" by (rule some_ready [OF p2])
  then have "\<exists>s'. co_yield Ctx_dead s1 = Inr s' \<and> co_ok s'"
    using co_yield_ok [OF s1me, of Ctx_dead] p2 by (simp add: cur)
  then show ?thesis by (simp add: ret)
qed

lemma step_start:
  assumes ok: "co_ok s" and me: "co_mem s (current s) = Some me" "co_ctx me = Ctx_run (Start n q f)"
    and room: "None \<in> set (POOL s)" and a: "co_mem s a = None"
  shows "co_ok (co_put (current s) (me\<lparr>co_ctx := Ctx_run (f a)\<rparr>) (co_start a n q s))"
proof -
  let ?t = "current s" and ?s = "co_start a n q s"
  have p: "parts_ok (Some ?t) s" and w: "co_wf (Some ?t) s ?t me" and st: "co_status me = CO_RUNNING"
    using ok me by (auto elim!: co_okD simp: co_wf_def)
  have pool: "pool_ok s" using p by (simp add: parts_ok_def)
  have mem: "co_mem ?s d = (if d = a then Some \<lparr>co_name = n, co_status = CO_NEW, co_waiter = None, co_ctx = Ctx_run q\<rparr> else co_mem s d)" for d
    by (simp add: co_start_def Let_def)
  have slot: "\<exists>i < MAXCO. POOL ?s ! i = Some a"
  proof -
    obtain ys zs where ys: "POOL s = ys @ None # zs" "None \<notin> set ys" using split_list_first [OF room] by blast
    then have i: "length ys < length (POOL s)" by simp
    have "POOL ?s ! length ys = Some a" using ys i by (simp add: co_start_def Let_def replace_first_nth)
    then show ?thesis using i pool by (auto simp: pool_ok_def)
  qed
  have "parts_ok (Some ?t) ?s"
  proof -
    have "co_wf (Some ?t) ?s d y" if d: "co_mem ?s d = Some y" for d y
    proof (cases "d = a")
      case True
      then show ?thesis using d mem [of d] by (auto simp: co_wf_def)
    next
      case False
      then have "co_mem s d = Some y" using d mem [of d] by simp
      then show ?thesis using a mem by (intro co_wf_all_agree [OF partsD(1) [OF p]]) auto
    qed
    moreover have "\<exists>i < MAXCO. POOL ?s ! i = Some d" if d: "co_mem ?s d = Some y" for d y
      using slot d mem [of d] partsD(2) [OF p, of d] pool_ok_fill(2) [OF pool a] by (cases "d = a") auto
    ultimately show ?thesis using pool_ok_fill(1) [OF pool a] p mem by (auto simp: parts_ok_def)
  qed
  moreover have "current ?s = ?t" "co_mem ?s ?t = Some me" using me(1) a mem [of ?t] by (auto simp: co_start_def Let_def)
  moreover from calculation have wf: "co_wf (Some ?t) ?s ?t me" using partsD(1) by blast
  have "co_wf (Some ?t) (co_put ?t (me\<lparr>co_ctx := Ctx_run (f a)\<rparr>) ?s) ?t (me\<lparr>co_ctx := Ctx_run (f a)\<rparr>)"
    by (rule run_wf [OF wf]) (use st me \<open>co_mem ?s ?t = Some me\<close> in \<open>auto split: if_splits\<close>)
  ultimately show ?thesis
    using parts_put [of "Some ?t" ?s ?t me "Some ?t" "me\<lparr>co_ctx := Ctx_run (f a)\<rparr>"] st me(2) by (simp add: co_ok_def)
qed

text \<open>
  C25: the library never accesses a freed coroutine, never loses a wake-up and never runs into its
  own assertions: in a state it keeps, every step of a program that waits only for live coroutines
  nobody waits for yet and leaves room in the pool succeeds and leads to such a state, and the search
  for the next coroutine ends, as long as coroutines do not wait for each other in a circle.
\<close>

theorem co_run_safe:
  assumes "co_ok s" and "\<not> finished s" and "polite s" and "acyclic (waits_for s)" and "co_mem s a = None"
  shows "\<exists>s'. co_run a s = Inr s' \<and> co_ok s'"
proof -
  obtain me where me: "co_mem s (current s) = Some me" "co_wf (Some (current s)) s (current s) me"
      "co_status me = CO_RUNNING \<or> co_status me = CO_WAITING"
    using assms(1) by (rule co_okD)
  note pol = assms(3) [unfolded polite_def, rule_format, OF me(1)]
  show ?thesis
  proof (cases "co_ctx me")
    case Ctx_dead
    then show ?thesis using me(2,3) by (auto simp: co_wf_def)
  next
    case (Ctx_wait c p)
    then show ?thesis using step_loop [OF assms(1) me(1) Ctx_wait assms(4)] me(1) by (simp add: co_run_def co_get_def)
  next
    case (Ctx_run q)
    show ?thesis
    proof (cases q)
      case Return
      then have "current s \<noteq> co_main" using assms(2) me(1) Ctx_run by (auto simp: finished_def)
      then show ?thesis
        using step_return [OF assms(1) me(1) _ _ assms(4)] Ctx_run Return me(1) by (simp add: co_run_def co_get_def)
    next
      case (Yield p)
      then show ?thesis using step_yield [OF assms(1) me(1)] Ctx_run me(1) by (simp add: co_run_def co_get_def)
    next
      case (Wait c p)
      then have "co_ctx me = Ctx_run (Wait c p)" using Ctx_run by simp
      then show ?thesis
        using step_wait [OF assms(1) me(1)] pol me(1) by (auto simp: co_run_def co_get_def)
    next
      case (Start n q' f)
      then have c: "co_ctx me = Ctx_run (Start n q' f)" using Ctx_run by simp
      then have "None \<in> set (POOL s)" using pol by blast
      then show ?thesis using step_start [OF assms(1) me(1) c _ assms(5)] me(1) c by (simp add: co_run_def co_get_def)
    qed
  qed
qed

lemma co_run_safe_witness:
  "\<exists>s'. co_run 7 (libco_start (Start ''t'' Return (\<lambda>a. Wait a Return))) = Inr s' \<and> co_ok s'"
proof (rule co_run_safe [OF libco_start_ok])
  let ?s = "libco_start (Start ''t'' Return (\<lambda>a. Wait a Return))"
  show "\<not> finished ?s" by (simp add: finished_def libco_start_def)
  have "MAXCO - 1 = Suc 134" by (simp add: MAXCO_def)
  then show "polite ?s" by (simp add: polite_def libco_start_def)
  have "waits_for ?s = {}" by (auto simp: waits_for_def libco_start_def)
  then show "acyclic (waits_for ?s)" by (simp add: acyclic_def)
  show "co_mem ?s 7 = None" by (simp add: libco_start_def co_main_def)
qed

section \<open>A full pool\<close>

text \<open>A coroutine outside the pool stays there: nothing points at it but the program.\<close>

definition lost :: "coid \<Rightarrow> libco \<Rightarrow> bool" where
  "lost a s \<longleftrightarrow> (\<exists>x. co_mem s a = Some x \<and> co_status x = CO_NEW) \<and> length (POOL s) = MAXCO \<and> Some a \<notin> set (POOL s) \<and>
     current s \<noteq> a \<and> (\<forall>c x. co_mem s c = Some x \<longrightarrow> co_waiter x \<noteq> Some a)"

lemma set_replace_first: "z \<in> set (replace_first x y xs) \<Longrightarrow> z = y \<or> z \<in> set xs"
  by (induction xs) (auto split: if_splits)

lemma lost_put:
  assumes "lost a s" "c = a \<Longrightarrow> co_status x = CO_NEW" "co_waiter x \<noteq> Some a"
  shows "lost a (co_put c x s)"
  using assms by (auto simp: lost_def)

lemma lost_yield:
  assumes l: "lost a s" and y: "co_yield k s = Inr s'"
  shows "lost a s'"
proof -
  from y obtain me i c x where me: "co_mem s (current s) = Some me" and i: "i < MAXCO" "POOL s ! i = Some c"
    and x: "co_mem (co_put (current s) (me\<lparr>co_ctx := k\<rparr>) s) c = Some x"
    and s': "s' = co_put c (x\<lparr>co_status := CO_RUNNING\<rparr>) (co_put (current s) (me\<lparr>co_ctx := k\<rparr>) s\<lparr>co_id := i, current := c\<rparr>)"
    by (rule co_yield_cases)
  have "Some c \<in> set (POOL s)" using i l by (metis lost_def nth_mem)
  then have ca: "c \<noteq> a" using l by (auto simp: lost_def)
  let ?s = "co_put (current s) (me\<lparr>co_ctx := k\<rparr>) s"
  have l1: "lost a ?s" by (intro lost_put [OF l]) (use l me in \<open>auto simp: lost_def\<close>)
  then have l2: "lost a (?s\<lparr>co_id := i, current := c\<rparr>)" using ca by (auto simp: lost_def)
  have "co_waiter x \<noteq> Some a" using l1 x by (auto simp: lost_def)
  then show ?thesis unfolding s' by (intro lost_put [OF l2]) (use ca in auto)
qed

lemma lost_step:
  assumes l: "lost a s" and st: "co_step s s'"
  shows "lost a s'"
proof -
  obtain b where r: "co_run b s = Inr s'" and b: "co_mem s b = None" using st by (rule co_stepE)
  obtain me where me: "co_mem s (current s) = Some me" using r by (auto simp: co_run_def res_bind_eq_Inr)
  have t: "current s \<noteq> a" "co_waiter me \<noteq> Some a" using l me by (auto simp: lost_def)
  show ?thesis
  proof (cases "co_ctx me")
    case Ctx_dead
    then show ?thesis using r me by (simp add: co_run_def co_get_def)
  next
    case (Ctx_wait c p)
    then have w: "co_wait_loop c p s = Inr s'" using r me by (simp add: co_run_def co_get_def)
    then obtain x where x: "co_mem s c = Some x" by (auto simp: co_wait_loop_def res_bind_eq_Inr)
    show ?thesis
    proof (cases "co_status x = CO_DEAD")
      case False
      then show ?thesis using w x lost_yield [OF l] by (simp add: co_wait_loop_def co_get_def)
    next
      case True
      then have "c \<noteq> a" using l x by (auto simp: lost_def)
      then have f: "lost a (co_free c s)"
        using l by (auto simp: lost_def co_free_def dest: set_replace_first split: if_splits)
      from w x True obtain me' where "co_mem (co_free c s) (current s) = Some me'"
          "s' = co_put (current s) (me'\<lparr>co_status := CO_RUNNING, co_ctx := Ctx_run p\<rparr>) (co_free c s)"
        by (auto simp: co_wait_loop_def co_get_def co_free_def Let_def split: option.splits)
      then show ?thesis using f t by (auto intro!: lost_put simp: lost_def)
    qed
  next
    case (Ctx_run q)
    show ?thesis
    proof (cases q)
      case (Yield p)
      then show ?thesis using r me Ctx_run lost_yield [OF l] by (simp add: co_run_def co_get_def)
    next
      case (Wait c p)
      then have "co_wait c p s = Inr s'" using r me Ctx_run by (simp add: co_run_def co_get_def)
      then obtain x me' where x: "co_mem s c = Some x"
          "co_mem (co_put c (x\<lparr>co_waiter := Some (current s)\<rparr>) s) (current s) = Some me'"
          "s' = co_put (current s) (me'\<lparr>co_status := CO_WAITING, co_ctx := Ctx_wait c p\<rparr>) (co_put c (x\<lparr>co_waiter := Some (current s)\<rparr>) s)"
        by (auto simp: co_wait_def res_bind_eq_Inr Let_def)
      have l1: "lost a (co_put c (x\<lparr>co_waiter := Some (current s)\<rparr>) s)"
        by (intro lost_put [OF l]) (use l x(1) t in \<open>auto simp: lost_def\<close>)
      then have "co_waiter me' \<noteq> Some a" using x(2) by (auto simp only: lost_def)
      then show ?thesis unfolding x(3) by (intro lost_put [OF l1]) (use t in auto)
    next
      case (Start n q' f)
      then have s': "s' = co_put (current s) (me\<lparr>co_ctx := Ctx_run (f b)\<rparr>) (co_start b n q' s)"
        using r me Ctx_run by (simp add: co_run_def co_get_def)
      have "b \<noteq> a" using b l by (auto simp: lost_def)
      then have "lost a (co_start b n q' s)"
        using l by (auto simp: lost_def co_start_def Let_def dest: set_replace_first)
      then show ?thesis unfolding s' by (rule lost_put) (use t in auto)
    next
      case Return
      then have ret: "co_return s = Inr s'" using r me Ctx_run by (simp add: co_run_def co_get_def)
      let ?s0 = "co_put (current s) (me\<lparr>co_status := CO_DEAD\<rparr>) s"
      from ret obtain s1 where s1: "co_yield Ctx_dead s1 = Inr s'"
          "s1 = ?s0 \<or> (\<exists>w x. co_waiter me = Some w \<and> co_mem ?s0 w = Some x \<and> s1 = co_put w (x\<lparr>co_status := CO_RUNNING\<rparr>) ?s0)"
        unfolding co_return_def Let_def using me by (cases "co_waiter me") (auto simp: res_bind_eq_Inr)
      have l0: "lost a ?s0" by (intro lost_put [OF l]) (use t in auto)
      have "lost a s1" using s1(2)
      proof (elim disjE exE conjE)
        fix w x assume w: "co_waiter me = Some w" "co_mem ?s0 w = Some x" "s1 = co_put w (x\<lparr>co_status := CO_RUNNING\<rparr>) ?s0"
        have "co_waiter x \<noteq> Some a" using l0 w(2) by (auto simp only: lost_def)
        then show ?thesis unfolding w(3) by (intro lost_put [OF l0]) (use t w(1) in auto)
      qed (simp add: l0)
      then show ?thesis using lost_yield s1(1) by blast
    qed
  qed
qed

text \<open>
  When all \<open>MAXCO\<close> slots are taken \<open>co_start\<close> drops the new coroutine silently: it returns a handle
  as usual, but the coroutine is in no slot and never runs, however the program goes on.
\<close>

theorem co_start_full:
  assumes "co_ok s" and "None \<notin> set (POOL s)" and "co_mem s a = None"
    and "co_step\<^sup>*\<^sup>* (co_start a name func s) s'"
  shows "POOL (co_start a name func s) = POOL s \<and> current s' \<noteq> a \<and> (\<exists>x. co_mem s' a = Some x \<and> co_status x = CO_NEW)"
proof -
  have p: "parts_ok (Some (current s)) s" "co_mem s (current s) \<noteq> None" using assms(1) by (auto simp: co_ok_def)
  then have len: "length (POOL s) = MAXCO" and alloc: "\<And>i c. i < MAXCO \<Longrightarrow> POOL s ! i = Some c \<Longrightarrow> co_mem s c \<noteq> None"
    by (auto simp: parts_ok_def pool_ok_def)
  have same: "POOL (co_start a name func s) = POOL s" using assms(2) by (simp add: co_start_def Let_def replace_first_id)
  have "Some a \<notin> set (POOL s)" using alloc assms(3) len by (metis in_set_conv_nth)
  moreover have "co_waiter x \<noteq> Some a" if "co_mem s c = Some x" for c x
    using partsD(1) [OF p(1) that] assms(3) by (auto simp: co_wf_def)
  ultimately have "lost a (co_start a name func s)"
    using len p(2) assms(3) same by (auto simp: lost_def co_start_def Let_def)
  with assms(4) have "lost a s'" by (induction rule: rtranclp_induct) (auto intro: lost_step)
  then show ?thesis using same by (auto simp: lost_def)
qed

text \<open>A state with no free slot: the pool of \<open>MAXCO\<close> coroutines numbered by their slots.\<close>

definition full_pool :: libco where
  "full_pool = \<lparr>POOL = List.map Some [0..<MAXCO],
     co_mem = (\<lambda>c. if c < MAXCO then Some \<lparr>co_name = [], co_status = CO_RUNNING, co_waiter = None, co_ctx = Ctx_run Return\<rparr> else None),
     current = 0, co_id = 0\<rparr>"

lemma full_pool_ok: "co_ok full_pool" "None \<notin> set (POOL full_pool)"
  by (auto simp: co_ok_def parts_ok_def pool_ok_def co_wf_def full_pool_def co_main_def split: if_splits)

lemma co_start_full_witness:
  "POOL (co_start 200 ''t'' Return full_pool) = POOL full_pool \<and>
   current (co_start 200 ''t'' Return full_pool) \<noteq> 200 \<and>
   (\<exists>x. co_mem (co_start 200 ''t'' Return full_pool) 200 = Some x \<and> co_status x = CO_NEW)"
  by (rule co_start_full [OF full_pool_ok]) (simp_all add: full_pool_def MAXCO_def)

end
