(* ===== verification/Pstree.thy ===== *)
theory Pstree
  imports Base "HOL-Library.Multiset"
begin

text \<open>
  The process tree printer, \<open>pstree/pstree.c\<close>: reading the entries of \<open>/proc\<close>, sorting them by pid
  and printing the tree below process 1. What \<open>/proc\<close> holds is an argument; what \<open>printf\<close> and
  \<open>putchar\<close> print is the result.
\<close>

section \<open>Printing\<close>

text \<open>A process; \<open>p_name\<close> are the characters in front of the terminating zero of \<open>name[64]\<close>.\<close>

record process =
  pid :: int
  p_name :: string
  ppid :: int

text \<open>A loop whose body prints and may not return.\<close>

primrec print_each :: "('a \<Rightarrow> 'b list option) \<Rightarrow> 'a list \<Rightarrow> 'b list option" where
  "print_each f [] = Some []"
| "print_each f (x # xs) =
     Option.bind (f x) (\<lambda>out. Option.bind (print_each f xs) (\<lambda>rest. Some (out @ rest)))"

lemma mono_print_each [partial_function_mono]:
  assumes "\<And>x. mono_option (\<lambda>g. F x g)"
  shows "mono_option (\<lambda>g. print_each (\<lambda>x. F x g) xs)"
proof (induction xs)
  case (Cons x xs)
  have "mono_option (\<lambda>g. Option.bind (F x g) (\<lambda>out. Option.bind (print_each (\<lambda>x. F x g) xs) (\<lambda>rest. Some (out @ rest))))"
    by (intro bind_mono assms Cons) (rule option.const_mono)
  then show ?case by simp
qed (simp add: option.const_mono)

definition put_tab :: "nat \<Rightarrow> string" where
  "put_tab n = replicate (2 * n) (CHR '' '')"

text \<open>\<open>print_pro\<close> calls itself for every process whose parent is \<open>id\<close>; \<open>None\<close> when it never returns.\<close>

partial_function (option) print_pro :: "process list \<Rightarrow> int \<Rightarrow> nat \<Rightarrow> string option" where
  "print_pro pro i depth =
     print_each (\<lambda>p.
       if pid p = i
       then Option.bind (print_each (\<lambda>q. if ppid q = i then print_pro pro (pid q) (depth + 1) else Some []) pro)
              (\<lambda>below. Some (put_tab depth @ p_name p @ [CHR 0x0A] @ below))
       else Some []) pro"

section \<open>The tree that is printed\<close>

text \<open>From each process to its parent.\<close>

definition parent :: "process list \<Rightarrow> (int \<times> int) set" where
  "parent pro = (\<lambda>q. (pid q, ppid q)) ` set pro"

text \<open>The lines of a tree: the process at its depth, then the trees of its children in table order.\<close>

inductive preorder :: "process list \<Rightarrow> nat \<Rightarrow> process \<Rightarrow> (nat \<times> process) list \<Rightarrow> bool" for pro where
  node: "list_all2 (preorder pro (Suc d)) (filter (\<lambda>q. ppid q = pid p) pro) lss \<Longrightarrow>
    preorder pro d p ((d, p) # concat lss)"

definition line :: "nat \<times> process \<Rightarrow> string" where
  "line l = put_tab (fst l) @ p_name (snd l) @ [CHR 0x0A]"

lemma print_each_some:
  assumes "\<And>x. x \<in> set xs \<Longrightarrow> f x = Some (g x)"
  shows "print_each f xs = Some (concat (List.map g xs))"
  using assms by (induction xs) auto

lemma print_each_one:
  assumes "distinct (List.map pid pro)" and "p \<in> set pro" and "\<And>q. q \<in> set pro \<Longrightarrow> pid q \<noteq> pid p \<Longrightarrow> f q = Some []"
  shows "print_each f pro = f p"
  using assms
proof (induction pro)
  case (Cons q pro)
  show ?case
  proof (cases "q = p")
    case True
    have "print_each f pro = Some (concat (List.map (\<lambda>_. []) pro))"
    proof (rule print_each_some)
      fix r assume r: "r \<in> set pro"
      moreover have "pid q \<notin> pid ` set pro" using Cons.prems(1) by simp
      ultimately have "pid r \<noteq> pid p" using True by (metis image_eqI)
      then show "f r = Some []" using Cons.prems(3) r by simp
    qed
    then show ?thesis using True by (cases "f p") simp_all
  next
    case False
    then have p: "p \<in> set pro" using Cons.prems(2) by simp
    moreover have "pid q \<notin> pid ` set pro" using Cons.prems(1) by simp
    ultimately have "pid q \<noteq> pid p" by (metis image_eqI)
    then have "f q = Some []" using Cons.prems(3) by simp
    moreover have "print_each f pro = f p" using Cons.IH p Cons.prems(1,3) by simp
    ultimately show ?thesis by (cases "f p") simp_all
  qed
qed simp

lemma single_valued_parent: "distinct (List.map pid pro) \<Longrightarrow> single_valued (parent pro)"
  unfolding single_valued_def parent_def by (auto simp: distinct_map inj_on_def)

text \<open>Different children of one process have no descendant in common.\<close>

lemma children_apart:
  assumes "single_valued R" and "acyclic R" and "(a, i) \<in> R" and "(b, i) \<in> R" and "(r, a) \<in> R\<^sup>*" and "(r, b) \<in> R\<^sup>*"
  shows "a = b"
proof (rule ccontr)
  assume ab: "a \<noteq> b"
  have no: "(x, y) \<notin> R\<^sup>*" if x: "(x, i) \<in> R" and y: "(y, i) \<in> R" and xy: "x \<noteq> y" for x y
  proof
    assume "(x, y) \<in> R\<^sup>*"
    then obtain z where z: "(x, z) \<in> R" "(z, y) \<in> R\<^sup>*" using xy by (meson converse_rtranclE)
    then have "z = i" using assms(1) x by (auto dest: single_valuedD)
    then have "(i, i) \<in> R\<^sup>+" using z(2) y by (auto intro: rtrancl_into_trancl1)
    then show False using assms(2) by (simp add: acyclic_def)
  qed
  have "(a, b) \<in> R\<^sup>* \<or> (b, a) \<in> R\<^sup>*" using single_valued_confluent [OF assms(1,5,6)] .
  then show False using no assms(3,4) ab by blast
qed

lemma descendants:
  assumes "p \<in> set pro"
  shows "{r \<in> set pro. (pid r, pid p) \<in> (parent pro)\<^sup>*} =
    {r \<in> set pro. pid r = pid p} \<union> (\<Union>q\<in>{q \<in> set pro. ppid q = pid p}. {r \<in> set pro. (pid r, pid q) \<in> (parent pro)\<^sup>*})"
proof -
  have "(pid r, pid p) \<in> (parent pro)\<^sup>* \<longleftrightarrow> pid r = pid p \<or> (\<exists>q \<in> set pro. ppid q = pid p \<and> (pid r, pid q) \<in> (parent pro)\<^sup>*)" for r
  proof -
    have "(x, pid p) \<in> parent pro \<longleftrightarrow> (\<exists>q \<in> set pro. x = pid q \<and> ppid q = pid p)" for x by (auto simp: parent_def)
    note step = this
    show ?thesis
    proof
      assume "(pid r, pid p) \<in> (parent pro)\<^sup>*"
      then show "pid r = pid p \<or> (\<exists>q \<in> set pro. ppid q = pid p \<and> (pid r, pid q) \<in> (parent pro)\<^sup>*)"
        by (cases rule: rtranclE) (auto simp: step)
    next
      assume "pid r = pid p \<or> (\<exists>q \<in> set pro. ppid q = pid p \<and> (pid r, pid q) \<in> (parent pro)\<^sup>*)"
      then show "(pid r, pid p) \<in> (parent pro)\<^sup>*"
      proof (elim disjE bexE conjE)
        fix q assume q: "q \<in> set pro" "ppid q = pid p" and d: "(pid r, pid q) \<in> (parent pro)\<^sup>*"
        show ?thesis by (rule rtrancl_into_rtrancl [OF d]) (use q step in blast)
      qed simp
    qed
  qed
  then show ?thesis by blast
qed

text \<open>The call for \<open>p\<close> returns and prints the lines \<open>ls\<close>, which are its descendants in preorder.\<close>

definition prints :: "process list \<Rightarrow> nat \<Rightarrow> process \<Rightarrow> (nat \<times> process) list \<Rightarrow> bool" where
  "prints pro d p ls \<longleftrightarrow> print_pro pro (pid p) d = Some (concat (List.map line ls)) \<and> preorder pro d p ls \<and>
     set (List.map snd ls) = {r \<in> set pro. (pid r, pid p) \<in> (parent pro)\<^sup>*} \<and> distinct (List.map snd ls)"

lemma pid_inj: "distinct (List.map pid pro) \<Longrightarrow> p \<in> set pro \<Longrightarrow> q \<in> set pro \<Longrightarrow> pid p = pid q \<Longrightarrow> p = q"
  by (auto simp: distinct_map dest: inj_onD)

lemma prints_line:
  assumes "distinct (List.map pid pro)" and "p \<in> set pro" and "i = pid p"
    and L: "\<forall>q \<in> set (filter (\<lambda>q. ppid q = i) pro). prints pro (Suc d) q (L q)"
  shows "print_pro pro i d = Some (concat (List.map line ((d, p) # concat (List.map L (filter (\<lambda>q. ppid q = i) pro)))))"
proof -
  let ?kids = "filter (\<lambda>q. ppid q = i) pro"
  let ?f = "\<lambda>p'. if pid p' = i
    then Option.bind (print_each (\<lambda>q. if ppid q = i then print_pro pro (pid q) (d + 1) else Some []) pro)
      (\<lambda>below. Some (put_tab d @ p_name p' @ [CHR 0x0A] @ below))
    else Some []"
  have "print_each (\<lambda>q. if ppid q = i then print_pro pro (pid q) (d + 1) else Some []) pro =
      Some (concat (List.map (\<lambda>q. if ppid q = i then concat (List.map line (L q)) else []) pro))"
    using L by (intro print_each_some) (auto simp: prints_def)
  moreover have "concat (List.map (\<lambda>q. if ppid q = i then concat (List.map line (L q)) else []) pro) =
      concat (List.map line (concat (List.map L ?kids)))"
    by (induction pro) simp_all
  ultimately have below: "print_each (\<lambda>q. if ppid q = i then print_pro pro (pid q) (d + 1) else Some []) pro =
      Some (concat (List.map line (concat (List.map L ?kids))))" by simp
  have "print_pro pro i d = print_each ?f pro" by (rule print_pro.simps)
  also have "\<dots> = ?f p" by (rule print_each_one [OF assms(1,2)]) (use assms(3) in simp)
  also have "\<dots> = Some (concat (List.map line ((d, p) # concat (List.map L ?kids))))"
    unfolding below using assms(3) by (simp add: line_def)
  finally show ?thesis .
qed

lemma prints_distinct:
  assumes pro: "distinct (List.map pid pro)" "acyclic (parent pro)"
    and ks: "distinct ks" "set ks \<subseteq> set (filter (\<lambda>q. ppid q = i) pro)" and L: "\<forall>q \<in> set ks. prints pro d q (L q)"
  shows "distinct (List.map snd (concat (List.map L ks)))"
  using ks L
proof (induction ks)
  case (Cons q ks)
  have dis: "r \<notin> set (List.map snd (L q))" if q': "q' \<in> set ks" and r: "r \<in> set (List.map snd (L q'))" for q' r
  proof
    assume "r \<in> set (List.map snd (L q))"
    then have "(pid r, pid q) \<in> (parent pro)\<^sup>*" "(pid r, pid q') \<in> (parent pro)\<^sup>*"
      using Cons.prems(3) q' r by (auto simp: prints_def simp del: set_map)
    moreover have in_pro: "q \<in> set pro" "q' \<in> set pro" and "ppid q = i" "ppid q' = i"
      using Cons.prems(2) q' by auto
    then have "(pid q, i) \<in> parent pro" "(pid q', i) \<in> parent pro" by (auto simp: parent_def)
    ultimately have "pid q = pid q'"
      using children_apart [OF single_valued_parent [OF pro(1)] pro(2)] by blast
    then show False using pid_inj [OF pro(1) in_pro] Cons.prems(1) q' by simp
  qed
  have "distinct (List.map snd (L q))" using Cons.prems(3) by (simp add: prints_def)
  moreover have "set (List.map snd (L q)) \<inter> set (List.map snd (concat (List.map L ks))) = {}"
  proof (rule ccontr)
    assume "\<not> ?thesis"
    then obtain r where "r \<in> set (List.map snd (L q))" "r \<in> set (List.map snd (concat (List.map L ks)))" by blast
    moreover from this(2) obtain q' where "q' \<in> set ks" "r \<in> set (List.map snd (L q'))" by auto
    ultimately show False using dis by blast
  qed
  ultimately show ?case using Cons by (simp del: set_map)
qed simp

lemma print_tree:
  assumes pro: "distinct (List.map pid pro)" "acyclic (parent pro)" and "p \<in> set pro"
  shows "\<exists>ls. prints pro d p ls"
proof -
  have wf: "wf (parent pro)" using assms(2) by (intro finite_acyclic_wf) (simp_all add: parent_def)
  have "\<forall>d. \<forall>p \<in> set pro. pid p = i \<longrightarrow> (\<exists>ls. prints pro d p ls)" for i
    using wf
  proof (induction i rule: wf_induct_rule)
    case (less i)
    show ?case
    proof (intro allI ballI impI)
      fix d p assume p: "p \<in> set pro" "pid p = i"
      let ?kids = "filter (\<lambda>q. ppid q = i) pro"
      have "\<forall>q \<in> set ?kids. \<exists>ls. prints pro (Suc d) q ls"
        using less.IH by (auto simp: parent_def)
      then obtain L where L: "\<forall>q \<in> set ?kids. prints pro (Suc d) q (L q)"
        by (elim bchoice [THEN exE])
      let ?ls = "(d, p) # concat (List.map L ?kids)"
      have "preorder pro d p ?ls"
        using L p(2) by (intro preorder.node) (auto simp: list.rel_map prints_def intro!: list.rel_refl_strong)
      moreover have "set (List.map snd ?ls) = {r \<in> set pro. (pid r, pid p) \<in> (parent pro)\<^sup>*}"
      proof -
        have "{r \<in> set pro. pid r = pid p} = {p}" using pid_inj [OF pro(1)] p(1) by auto
        moreover have "set (List.map snd (concat (List.map L ?kids))) = (\<Union>q\<in>set ?kids. set (List.map snd (L q)))" by auto
        ultimately show ?thesis unfolding descendants [OF p(1)] using L p(2) by (simp add: prints_def del: set_map)
      qed
      moreover have "distinct (List.map snd ?ls)"
      proof -
        have "p \<notin> set (List.map snd (L q))" if q: "q \<in> set ?kids" for q
        proof
          assume "p \<in> set (List.map snd (L q))"
          then have "(pid p, pid q) \<in> (parent pro)\<^sup>*" using L q by (auto simp: prints_def simp del: set_map)
          moreover have "(pid q, pid p) \<in> parent pro" using q p(2) by (auto simp: parent_def)
          ultimately have "(pid p, pid p) \<in> (parent pro)\<^sup>+" by (rule rtrancl_into_trancl1)
          then show False using assms(2) by (simp add: acyclic_def)
        qed
        moreover have "distinct ?kids" using pro(1) by (simp add: distinct_map)
        ultimately show ?thesis using prints_distinct [OF pro, of ?kids i, OF _ _ L] by auto
      qed
      ultimately have "prints pro d p ?ls"
        using prints_line [OF pro(1) p(1) p(2) [symmetric] L] p(2) by (simp add: prints_def)
      then show "\<exists>ls. prints pro d p ls" by blast
    qed
  qed
  then show ?thesis using assms(3) by blast
qed

section \<open>Sorting\<close>

text \<open>\<open>pro_sort\<close>: the inner loop keeps the index of the first smallest pid, the outer one swaps it to the front.\<close>

definition min_step :: "process list \<Rightarrow> nat \<Rightarrow> nat \<Rightarrow> nat" where
  "min_step pro j min_id = (if pid (pro ! j) < pid (pro ! min_id) then j else min_id)"

definition swap :: "process list \<Rightarrow> nat \<Rightarrow> nat \<Rightarrow> process list" where
  "swap pro i m = (let tmp = pro ! i; pro' = pro[i := pro ! m] in pro'[m := tmp])"

definition sort_step :: "nat \<Rightarrow> process list \<Rightarrow> process list" where
  "sort_step i pro = swap pro i (fold (min_step pro) [i..<length pro] i)"

definition pro_sort :: "process list \<Rightarrow> process list" where
  "pro_sort pro = fold sort_step [0..<length pro] pro"

lemma min_fold:
  "(\<forall>j \<in> set js. j < length pro) \<Longrightarrow> m < length pro \<Longrightarrow>
    fold (min_step pro) js m \<in> insert m (set js) \<and>
    (\<forall>j \<in> insert m (set js). pid (pro ! fold (min_step pro) js m) \<le> pid (pro ! j))"
proof (induction js arbitrary: m)
  case (Cons j js)
  have "min_step pro j m \<in> {j, m}" "pid (pro ! min_step pro j m) \<le> pid (pro ! j)" "pid (pro ! min_step pro j m) \<le> pid (pro ! m)"
    by (auto simp: min_step_def)
  moreover from this(1) have "min_step pro j m < length pro" using Cons.prems by auto
  ultimately show ?case using Cons.IH [of "min_step pro j m"] Cons.prems by force
qed simp

lemma swap_nth:
  "i < length pro \<Longrightarrow> m < length pro \<Longrightarrow> k < length pro \<Longrightarrow>
    swap pro i m ! k = (if k = i then pro ! m else if k = m then pro ! i else pro ! k)"
  by (auto simp: swap_def Let_def nth_list_update)

lemma swap_mset: "i < length pro \<Longrightarrow> m < length pro \<Longrightarrow> mset (swap pro i m) = mset pro"
  unfolding swap_def Let_def by (rule mset_swap)

text \<open>After \<open>i\<close> rounds the first \<open>i\<close> places are in order and nothing smaller is left behind them.\<close>

definition sorted_upto :: "nat \<Rightarrow> process list \<Rightarrow> bool" where
  "sorted_upto i pro \<longleftrightarrow> (\<forall>a < i. \<forall>b < length pro. a < b \<longrightarrow> pid (pro ! a) \<le> pid (pro ! b))"

lemma sort_step_ok:
  assumes "i < length pro" and "sorted_upto i pro"
  shows "sorted_upto (Suc i) (sort_step i pro) \<and> mset (sort_step i pro) = mset pro"
proof -
  let ?m = "fold (min_step pro) [i..<length pro] i"
  have m: "?m \<in> insert i (set [i..<length pro])" "\<forall>j \<in> insert i (set [i..<length pro]). pid (pro ! ?m) \<le> pid (pro ! j)"
    using min_fold [of "[i..<length pro]" pro i] assms(1) by auto
  then have mi: "i \<le> ?m" "?m < length pro" using assms(1) by auto
  have len: "length (swap pro i ?m) = length pro" by (simp add: swap_def Let_def)
  have "sorted_upto (Suc i) (swap pro i ?m)"
    unfolding sorted_upto_def len
  proof (intro allI impI)
    fix a b assume ab: "a < Suc i" "b < length pro" "a < b"
    show "pid (swap pro i ?m ! a) \<le> pid (swap pro i ?m ! b)"
    proof (cases "a = i")
      case True
      then show ?thesis using m(2) mi ab by (simp add: swap_nth)
    next
      case False
      then have "\<forall>c < length pro. a < c \<longrightarrow> pid (pro ! a) \<le> pid (pro ! c)" using assms(2) ab(1) by (simp add: sorted_upto_def)
      then show ?thesis using False mi ab by (auto simp: swap_nth)
    qed
  qed
  then show ?thesis using swap_mset [of i pro ?m] assms(1) mi(2) by (simp add: sort_step_def)
qed

lemma sort_fold:
  "i \<le> length pro \<Longrightarrow> sorted_upto i (fold sort_step [0..<i] pro) \<and> mset (fold sort_step [0..<i] pro) = mset pro"
proof (induction i)
  case 0
  then show ?case by (simp add: sorted_upto_def)
next
  case (Suc i)
  then have IH: "sorted_upto i (fold sort_step [0..<i] pro)" "mset (fold sort_step [0..<i] pro) = mset pro" by auto
  then have "i < length (fold sort_step [0..<i] pro)" using Suc.prems mset_eq_length by fastforce
  then show ?case using sort_step_ok [OF _ IH(1)] IH(2) by simp
qed

lemma pro_sort_ok: "mset (pro_sort pro) = mset pro \<and> sorted (List.map pid (pro_sort pro))"
proof -
  have *: "sorted_upto (length pro) (pro_sort pro)" "mset (pro_sort pro) = mset pro"
    using sort_fold [of "length pro" pro] by (simp_all add: pro_sort_def)
  moreover from this(2) have "length (pro_sort pro) = length pro" by (rule mset_eq_length)
  ultimately show ?thesis by (auto simp: sorted_upto_def sorted_iff_nth_mono_less)
qed

section \<open>Reading /proc\<close>

definition is_space :: "char \<Rightarrow> bool" where
  "is_space c \<longleftrightarrow> c \<in> {CHR 0x20, CHR 0x09, CHR 0x0A, CHR 0x0B, CHR 0x0C, CHR 0x0D}"

definition dec_digit :: "char \<Rightarrow> bool" where
  "dec_digit c \<longleftrightarrow> c \<in> set ''0123456789''"

definition digit_value :: "char \<Rightarrow> nat" where
  "digit_value c = of_char c - 48"

text \<open>
  The number at the start of a text, as \<open>atoi\<close> and the conversion \<open>%d\<close> of the C library read it, and the
  text behind it: blanks, a sign, digits. \<open>None\<close> without a digit.
\<close>

definition read_int :: "string \<Rightarrow> (int \<times> string) option" where
  "read_int s =
     (let s = dropWhile is_space s;
          neg = (s \<noteq> [] \<and> s ! 0 = CHR ''-'');
          s = (if s \<noteq> [] \<and> s ! 0 \<in> {CHR ''-'', CHR ''+''} then tl s else s);
          ds = takeWhile dec_digit s;
          n = int (foldl (\<lambda>n c. 10 * n + digit_value c) 0 ds)
      in if ds = [] then None else Some (if neg then - n else n, dropWhile dec_digit s))"

definition is_int :: "int \<Rightarrow> bool" where
  "is_int n \<longleftrightarrow> - (2 ^ 31) \<le> n \<and> n < 2 ^ 31"

text \<open>A number that is no \<open>int\<close> is undefined for both.\<close>

definition host_atoi :: "string \<Rightarrow> int res" where
  "host_atoi s = (case read_int s of None \<Rightarrow> Inr 0 | Some (n, _) \<Rightarrow> res_bind (guard BadAccess (is_int n)) (\<lambda>_. Inr n))"

text \<open>
  \<open>fscanf(fp, "%d %s %c %d", \<dots>)\<close>: at the first conversion that fails the rest of the record keeps what it
  held. The word of \<open>%s\<close> and its zero go into \<open>name[64]\<close>.
\<close>

definition scan_stat :: "string \<Rightarrow> process \<Rightarrow> process res" where
  "scan_stat s p =
     (case read_int s of
        None \<Rightarrow> Inr p
      | Some (n, s) \<Rightarrow>
          res_bind (guard BadAccess (is_int n)) (\<lambda>_.
          let p = p\<lparr>pid := n\<rparr>; s = dropWhile is_space s; w = takeWhile (\<lambda>c. \<not> is_space c) s in
          if w = [] then Inr p
          else res_bind (guard BadAccess (length w < 64)) (\<lambda>_.
            let p = p\<lparr>p_name := w\<rparr>; s = dropWhile is_space (dropWhile (\<lambda>c. \<not> is_space c) s) in
            if s = [] then Inr p
            else (case read_int (tl s) of
                None \<Rightarrow> Inr p
              | Some (n, _) \<Rightarrow> res_bind (guard BadAccess (is_int n)) (\<lambda>_. Inr (p\<lparr>ppid := n\<rparr>))))))"

text \<open>
  \<open>rm_paren\<close> copies all but the first and the last character; with fewer than two the count of
  \<open>strncpy\<close> is negative, that is, enormous.
\<close>

definition rm_paren :: "string \<Rightarrow> string res" where
  "rm_paren dst = res_bind (guard BadAccess (2 \<le> length dst \<and> length dst - 2 < 64)) (\<lambda>_.
     Inr (take (length dst - 2) (tl dst)))"

text \<open>What \<open>readdir\<close> finds: names with the content of the file \<open>stat\<close> below them, if it opens.\<close>

type_synonym proc_dir = "(string \<times> string option) list"

definition load_entry :: "bool \<Rightarrow> string \<times> string option \<Rightarrow> process \<Rightarrow> process res" where
  "load_entry show_pid e p =
     (let d_name = fst e in
      res_bind (guard BadAccess (length (''/proc/'' @ d_name @ ''/stat'') < 64)) (\<lambda>_.
      case snd e of
        None \<Rightarrow> Inl AssertFail
      | Some content \<Rightarrow>
          res_bind (scan_stat content p) (\<lambda>p.
          res_bind (rm_paren (p_name p)) (\<lambda>n.
          if show_pid
          then (let n' = n @ ''('' @ d_name @ '')'' in
            res_bind (guard BadAccess (length n' < 64)) (\<lambda>_. Inr (p\<lparr>p_name := n'\<rparr>)))
          else Inr (p\<lparr>p_name := n\<rparr>)))))"

text \<open>The two uses of \<open>get_pnum_load\<close>: counting, and filling \<open>pro\<close>.\<close>

fun get_pnum :: "proc_dir \<Rightarrow> nat \<Rightarrow> nat res" where
  "get_pnum [] num = Inr num"
| "get_pnum (e # d) num = res_bind (host_atoi (fst e)) (\<lambda>n. get_pnum d (if n \<noteq> 0 then num + 1 else num))"

fun get_load :: "bool \<Rightarrow> proc_dir \<Rightarrow> nat \<Rightarrow> process list \<Rightarrow> (nat \<times> process list) res" where
  "get_load show_pid [] num pro = Inr (num, pro)"
| "get_load show_pid (e # d) num pro = res_bind (host_atoi (fst e)) (\<lambda>n.
     if n \<noteq> 0
     then res_bind (guard BadAccess (num < length pro)) (\<lambda>_.
       res_bind (load_entry show_pid e (pro ! num)) (\<lambda>p. get_load show_pid d (num + 1) (pro[num := p])))
     else get_load show_pid d num pro)"

text \<open>
  \<open>main\<close>, after the options: the directory is read twice and may differ, \<open>garbage\<close> is what \<open>malloc\<close>
  returned. The result is what is printed, \<open>None\<close> when the recursion does not end.
\<close>

definition pstree :: "bool \<Rightarrow> bool \<Rightarrow> proc_dir \<Rightarrow> proc_dir \<Rightarrow> (nat \<Rightarrow> process) \<Rightarrow> string option res" where
  "pstree show_pid num_sort d d' garbage =
     res_bind (get_pnum d 0) (\<lambda>pnum.
     res_bind (get_load show_pid d' 0 (List.map garbage [0..<pnum + 5])) (\<lambda>(_, pro).
     let pro = take pnum pro;
         pro = (if num_sort then pro_sort pro else pro)
     in Inr (print_pro pro 1 0)))"

section \<open>What is read\<close>

definition dec_char :: "nat \<Rightarrow> char" where
  "dec_char k = ''0123456789'' ! k"

fun decimal :: "nat \<Rightarrow> string" where
  "decimal n = (if n < 10 then [dec_char n] else decimal (n div 10) @ [dec_char (n mod 10)])"

declare decimal.simps [simp del]

lemma dec_char [simp]: "k < 10 \<Longrightarrow> dec_digit (dec_char k) \<and> digit_value (dec_char k) = k"
proof -
  have "\<forall>k \<in> set [0..<10]. dec_digit (dec_char k) \<and> digit_value (dec_char k) = k" by code_simp
  then show "k < 10 \<Longrightarrow> ?thesis" by simp
qed

lemma decimal_digits: "decimal n \<noteq> [] \<and> (\<forall>c \<in> set (decimal n). dec_digit c)"
proof (induction n rule: decimal.induct)
  case (1 n)
  then show ?case by (cases "n < 10") (auto simp: decimal.simps [of n])
qed

lemma decimal_value: "foldl (\<lambda>n c. 10 * n + digit_value c) 0 (decimal n) = n"
  by (induction n rule: decimal.induct) (subst decimal.simps, auto)

lemma length_decimal: "n < 10 ^ k \<Longrightarrow> 0 < k \<Longrightarrow> length (decimal n) \<le> k"
proof (induction n arbitrary: k rule: decimal.induct)
  case (1 n)
  show ?case
  proof (cases "n < 10")
    case False
    then obtain j where j: "k = Suc j" "0 < j" using 1(2,3) by (cases k; cases "k - 1") auto
    then have "n div 10 < 10 ^ j" using 1(2) by (simp add: less_mult_imp_div_less mult.commute)
    then show ?thesis using 1(1) [OF False _ j(2)] False j(1) by (simp add: decimal.simps [of n])
  qed (use 1(3) in \<open>simp add: decimal.simps [of n]\<close>)
qed

lemma digit_no_space: "dec_digit c \<Longrightarrow> \<not> is_space c \<and> c \<noteq> CHR ''-'' \<and> c \<noteq> CHR ''+''"
  by (auto simp: dec_digit_def is_space_def)

lemma read_decimal:
  assumes "rest = [] \<or> \<not> dec_digit (rest ! 0)" and "\<forall>c \<in> set sp. is_space c"
  shows "read_int (sp @ decimal n @ rest) = Some (int n, rest)"
proof -
  obtain c cs where c: "decimal n = c # cs" using decimal_digits [of n] by (cases "decimal n") auto
  have d: "\<not> is_space c" "c \<noteq> CHR ''-''" "c \<noteq> CHR ''+''" using decimal_digits [of n] digit_no_space [of c] c by auto
  have 1: "dropWhile is_space (sp @ decimal n @ rest) = decimal n @ rest" using assms(2) c d(1) by (simp add: dropWhile_append2)
  have 2: "takeWhile dec_digit (decimal n @ rest) = decimal n"
    using decimal_digits [of n] assms(1) by (cases rest) (simp_all add: takeWhile_append2)
  have 3: "dropWhile dec_digit (decimal n @ rest) = rest"
    using decimal_digits [of n] assms(1) by (cases rest) (simp_all add: dropWhile_append2)
  have 4: "(decimal n @ rest) ! 0 \<noteq> CHR ''-''" "(decimal n @ rest) ! 0 \<noteq> CHR ''+''" using c d by simp_all
  show ?thesis
    unfolding read_int_def Let_def 1 using 4 decimal_digits [of n] decimal_value [of n] by (simp add: 2 3)
qed

text \<open>An entry of \<open>/proc\<close> that describes a process.\<close>

definition stat_text :: "process \<Rightarrow> char \<Rightarrow> string \<Rightarrow> string" where
  "stat_text q c rest = decimal (nat (pid q)) @ '' ('' @ p_name q @ '') '' @ [c] @ '' '' @ decimal (nat (ppid q)) @ CHR '' '' # rest"

definition describes :: "string \<times> string option \<Rightarrow> process \<Rightarrow> bool" where
  "describes e q \<longleftrightarrow> fst e = decimal (nat (pid q)) \<and> (\<exists>c rest. \<not> is_space c \<and> snd e = Some (stat_text q c rest))"

text \<open>The pids of Linux are positive and fit an \<open>int\<close>; the name must hold no blank and leave room for the rest.\<close>

definition ok_process :: "process \<Rightarrow> bool" where
  "ok_process q \<longleftrightarrow> 0 < pid q \<and> pid q < 2 ^ 31 \<and> 0 \<le> ppid q \<and> ppid q < 2 ^ 31 \<and>
     (\<forall>c \<in> set (p_name q). \<not> is_space c) \<and> length (p_name q) < 52"

definition shown :: "bool \<Rightarrow> process \<Rightarrow> process" where
  "shown show_pid q = (if show_pid then q\<lparr>p_name := p_name q @ ''('' @ decimal (nat (pid q)) @ '')''\<rparr> else q)"

lemma ok_pid: "ok_process q \<Longrightarrow> pid q \<noteq> 0"
  by (auto simp: ok_process_def)

lemma pid_digits: "ok_process q \<Longrightarrow> length (decimal (nat (pid q))) \<le> 10"
  by (intro length_decimal) (auto simp: ok_process_def)

lemma atoi_pid: "ok_process q \<Longrightarrow> describes e q \<Longrightarrow> host_atoi (fst e) = Inr (pid q)"
  using read_decimal [of "[]" "[]" "nat (pid q)"]
  by (simp add: host_atoi_def describes_def ok_process_def is_int_def)

lemma space [simp]: "is_space CHR '' ''" "\<not> is_space CHR ''(''" "\<not> is_space CHR '')''" "\<not> dec_digit CHR '' ''"
  by (simp_all add: is_space_def dec_digit_def)

lemma scan_stat_text:
  assumes "ok_process q" and "\<not> is_space c"
  shows "scan_stat (stat_text q c rest) p = Inr (q\<lparr>p_name := ''('' @ p_name q @ '')''\<rparr>)"
proof -
  have w: "takeWhile (\<lambda>c. \<not> is_space c) (p_name q @ CHR '')'' # CHR '' '' # r) = p_name q @ '')''"
    "dropWhile (\<lambda>c. \<not> is_space c) (p_name q @ CHR '')'' # CHR '' '' # r) = CHR '' '' # r" for r
    using assms(1) by (simp_all add: ok_process_def takeWhile_append2 dropWhile_append2)
  have "read_int (stat_text q c rest) = Some (int (nat (pid q)),
      '' ('' @ p_name q @ '') '' @ [c] @ '' '' @ decimal (nat (ppid q)) @ CHR '' '' # rest)"
    unfolding stat_text_def using read_decimal [of _ "[]"] by simp
  moreover have "read_int (CHR '' '' # decimal (nat (ppid q)) @ CHR '' '' # rest) = Some (int (nat (ppid q)), CHR '' '' # rest)"
    using read_decimal [of "CHR '' '' # rest" "'' ''" "nat (ppid q)"] by simp
  ultimately show ?thesis
    using assms by (simp add: scan_stat_def Let_def w ok_process_def is_int_def)
qed

lemma load_describes:
  assumes "ok_process q" and "describes e q"
  shows "load_entry show_pid e p = Inr (shown show_pid q)"
proof -
  obtain c rest where c: "\<not> is_space c" "snd e = Some (stat_text q c rest)" and e: "fst e = decimal (nat (pid q))"
    using assms(2) by (auto simp: describes_def)
  have "rm_paren (''('' @ p_name q @ '')'') = Inr (p_name q)"
    using assms(1) by (simp add: rm_paren_def ok_process_def)
  then show ?thesis
    using scan_stat_text [OF assms(1) c(1)] assms(1) pid_digits [OF assms(1)]
    by (simp add: load_entry_def Let_def c(2) e shown_def ok_process_def)
qed

text \<open>A directory that holds, besides other entries, one for every process of the list, in its order.\<close>

definition holds :: "proc_dir \<Rightarrow> process list \<Rightarrow> bool" where
  "holds d ps \<longleftrightarrow> list_all2 describes (filter (\<lambda>e. host_atoi (fst e) \<noteq> Inr 0) d) ps \<and> (\<forall>q \<in> set ps. ok_process q)"

lemma holds_Nil [simp]: "holds [] ps \<longleftrightarrow> ps = []"
  by (auto simp: holds_def)

lemma holds_Cons:
  "holds (e # d) ps \<longleftrightarrow> (if host_atoi (fst e) = Inr 0 then holds d ps
     else \<exists>q qs. ps = q # qs \<and> describes e q \<and> ok_process q \<and> holds d qs)"
  by (auto simp: holds_def list_all2_Cons1)

lemma get_pnum_holds: "holds d ps \<Longrightarrow> get_pnum d num = Inr (num + length ps)"
proof (induction d arbitrary: num ps)
  case (Cons e d)
  show ?case
  proof (cases "host_atoi (fst e) = Inr 0")
    case False
    then obtain q qs where "ps = q # qs" "describes e q" "ok_process q" "holds d qs"
      using Cons.prems by (auto simp: holds_Cons)
    then show ?thesis using Cons.IH [of qs "num + 1"] by (simp add: atoi_pid ok_pid)
  qed (use Cons in \<open>simp add: holds_Cons\<close>)
qed simp

lemma get_load_holds:
  "holds d ps \<Longrightarrow> num + length ps \<le> length pro \<Longrightarrow>
    get_load show_pid d num pro = Inr (num + length ps, take num pro @ List.map (shown show_pid) ps @ drop (num + length ps) pro)"
proof (induction d arbitrary: num ps pro)
  case (Cons e d)
  show ?case
  proof (cases "host_atoi (fst e) = Inr 0")
    case False
    then obtain q qs where q: "ps = q # qs" "describes e q" "ok_process q" "holds d qs"
      using Cons.prems(1) by (auto simp: holds_Cons)
    let ?pro = "pro[num := shown show_pid q]"
    have num: "num < length pro" using Cons.prems(2) q(1) by simp
    have "get_load show_pid d (num + 1) ?pro =
        Inr (num + 1 + length qs, take (num + 1) ?pro @ List.map (shown show_pid) qs @ drop (num + 1 + length qs) ?pro)"
      using Cons.prems(2) q(1) by (intro Cons.IH q(4)) simp
    moreover have "take (num + 1) ?pro = take num pro @ [shown show_pid q]"
      using num by (simp add: take_Suc_conv_app_nth)
    ultimately show ?thesis
      using q num Cons.prems(2) False by (simp add: atoi_pid ok_pid load_describes)
  qed (use Cons in \<open>simp add: holds_Cons\<close>)
qed simp

section \<open>The program\<close>

text \<open>The table that \<open>main\<close> prints.\<close>

definition table :: "bool \<Rightarrow> bool \<Rightarrow> process list \<Rightarrow> process list" where
  "table show_pid num_sort ps = (let ps = List.map (shown show_pid) ps in if num_sort then pro_sort ps else ps)"

lemma shown_pid [simp]: "pid (shown show_pid q) = pid q" "ppid (shown show_pid q) = ppid q"
  by (simp_all add: shown_def)

lemma table_mset: "mset (table show_pid num_sort ps) = mset (List.map (shown show_pid) ps)"
  by (simp add: table_def Let_def pro_sort_ok del: mset_map)

lemma table_set: "set (table show_pid num_sort ps) = shown show_pid ` set ps"
  using table_mset [of show_pid num_sort ps, THEN mset_eq_setD] by simp

lemma table_distinct: "distinct (List.map pid ps) \<Longrightarrow> distinct (List.map pid (table show_pid num_sort ps))"
proof -
  have "mset (List.map pid (table show_pid num_sort ps)) = mset (List.map pid ps)"
    unfolding mset_map [symmetric] using arg_cong [OF table_mset, of "image_mset pid"] by (simp add: multiset.map_comp comp_def)
  then show "distinct (List.map pid ps) \<Longrightarrow> ?thesis" by (metis mset_eq_imp_distinct_iff)
qed

lemma table_parent: "parent (table show_pid num_sort ps) = parent ps"
  by (simp add: parent_def table_set image_image)

lemma pstree_table:
  assumes "holds d ps" and "holds d' ps"
  shows "pstree show_pid num_sort d d' garbage = Inr (print_pro (table show_pid num_sort ps) 1 0)"
  using get_load_holds [OF assms(2), of 0 "List.map garbage [0..<length ps + 5]" show_pid]
  by (simp add: pstree_def get_pnum_holds [OF assms(1)] table_def Let_def)

text \<open>
  C33: pstree terminates and prints the tree. Where \<open>/proc\<close> holds the processes \<open>ps\<close>, with different
  pids, no process its own ancestor and names without blanks, and 1 is one of them, the program neither faults nor recurses
  forever: it prints, one a line and indented by their depth, process 1 and its descendants, each
  exactly once, parents before their children and the children of a process in the order of the table;
  with the option \<open>-n\<close> that order is by pid.
\<close>

theorem pstree_prints_tree:
  assumes "holds d ps" and "holds d' ps" and "distinct (List.map pid ps)" and "acyclic (parent ps)"
    and "p \<in> set ps" and "pid p = 1"
  shows "\<exists>ls. pstree show_pid num_sort d d' garbage = Inr (Some (concat (List.map line ls))) \<and>
    preorder (table show_pid num_sort ps) 0 (shown show_pid p) ls \<and>
    snd ` set ls = shown show_pid ` {q \<in> set ps. (pid q, 1) \<in> (parent ps)\<^sup>*} \<and> distinct (List.map snd ls) \<and>
    (num_sort \<longrightarrow> sorted (List.map pid (table show_pid num_sort ps)))"
proof -
  let ?t = "table show_pid num_sort ps"
  have "shown show_pid p \<in> set ?t" using assms(5) by (simp add: table_set)
  then obtain ls where ls: "prints ?t 0 (shown show_pid p) ls"
    using print_tree [of ?t "shown show_pid p" 0] assms(3,4) by (auto simp: table_parent table_distinct)
  have "{r \<in> set ?t. (pid r, 1) \<in> (parent ps)\<^sup>*} = shown show_pid ` {q \<in> set ps. (pid q, 1) \<in> (parent ps)\<^sup>*}"
    unfolding table_set by auto
  moreover have "num_sort \<longrightarrow> sorted (List.map pid ?t)" by (simp add: table_def Let_def pro_sort_ok)
  ultimately show ?thesis
    using ls unfolding prints_def by (intro exI [of _ ls]) (simp add: pstree_table [OF assms(1,2)] assms(6) table_parent)
qed

definition ex_proc :: "process list" where
  "ex_proc = [\<lparr>pid = 7, p_name = ''sh'', ppid = 1\<rparr>, \<lparr>pid = 1, p_name = ''init'', ppid = 0\<rparr>, \<lparr>pid = 3, p_name = ''cron'', ppid = 1\<rparr>, \<lparr>pid = 12, p_name = ''make'', ppid = 7\<rparr>]"

definition ex_dir :: proc_dir where
  "ex_dir = [(''.'', None), (''7'', Some ''7 (sh) S 1 7''), (''1'', Some ''1 (init) S 0 1''), (''self'', None), (''3'', Some ''3 (cron) S 1 3''), (''12'', Some ''12 (make) R 7 7'')]"

theorem pstree_prints_tree_witness:
  "\<exists>ls. pstree True True ex_dir ex_dir (\<lambda>_. \<lparr>pid = 5, p_name = ''?'', ppid = 5\<rparr>) = Inr (Some (concat (List.map line ls))) \<and>
    preorder (table True True ex_proc) 0 (shown True (ex_proc ! 1)) ls \<and>
    snd ` set ls = shown True ` {q \<in> set ex_proc. (pid q, 1) \<in> (parent ex_proc)\<^sup>*} \<and> distinct (List.map snd ls) \<and>
    (True \<longrightarrow> sorted (List.map pid (table True True ex_proc)))"
proof (rule pstree_prints_tree)
  have entries: "ex_dir ! 1 = (''7'', Some (stat_text (ex_proc ! 0) CHR ''S'' ''7''))"
    "ex_dir ! 2 = (''1'', Some (stat_text (ex_proc ! 1) CHR ''S'' ''1''))"
    "ex_dir ! 4 = (''3'', Some (stat_text (ex_proc ! 2) CHR ''S'' ''3''))"
    "ex_dir ! 5 = (''12'', Some (stat_text (ex_proc ! 3) CHR ''R'' ''7''))"
    "decimal (nat (pid (ex_proc ! 0))) = ''7''" "decimal (nat (pid (ex_proc ! 1))) = ''1''"
    "decimal (nat (pid (ex_proc ! 2))) = ''3''" "decimal (nat (pid (ex_proc ! 3))) = ''12''"
    by code_simp+
  have numbers: "filter (\<lambda>e. host_atoi (fst e) \<noteq> Inr 0) ex_dir = [ex_dir ! 1, ex_dir ! 2, ex_dir ! 4, ex_dir ! 5]" by code_simp
  have "\<not> is_space CHR ''S''" "\<not> is_space CHR ''R''" by code_simp+
  then have "describes (ex_dir ! 1) (ex_proc ! 0)" "describes (ex_dir ! 2) (ex_proc ! 1)"
    "describes (ex_dir ! 4) (ex_proc ! 2)" "describes (ex_dir ! 5) (ex_proc ! 3)"
    unfolding describes_def entries by auto
  then have "list_all2 describes [ex_dir ! 1, ex_dir ! 2, ex_dir ! 4, ex_dir ! 5] [ex_proc ! 0, ex_proc ! 1, ex_proc ! 2, ex_proc ! 3]"
    by simp
  moreover have "[ex_proc ! 0, ex_proc ! 1, ex_proc ! 2, ex_proc ! 3] = ex_proc" by (simp add: ex_proc_def)
  moreover have "\<forall>q \<in> set ex_proc. ok_process q" by code_simp
  ultimately show "holds ex_dir ex_proc" "holds ex_dir ex_proc" by (simp_all only: holds_def numbers simp_thms)
  show "acyclic (parent ex_proc)"
  proof (rule acyclicI_order)
    fix a b :: int assume "(a, b) \<in> parent ex_proc"
    then show "b < a" by (auto simp: parent_def ex_proc_def)
  qed
qed (simp_all add: ex_proc_def)

text \<open>A blank in a name, as in \<open>tmux: server\<close>: the third conversion reads the rest of the name and the
  parent is never stored.\<close>

lemma blank_in_name:
  "scan_stat ''9 (a b) S 1 9'' \<lparr>pid = 0, p_name = n, ppid = g\<rparr> = Inr \<lparr>pid = 9, p_name = ''(a'', ppid = g\<rparr>"
  by (simp add: scan_stat_def read_int_def is_space_def dec_digit_def digit_value_def is_int_def Let_def)

end
