(* ===== verification/Sperf.thy ===== *)
theory Sperf
  imports Pstree
begin

text \<open>
  The profiler of system calls, \<open>sperf/sperf.c\<close>: it reads the lines of \<open>strace -T\<close>, adds up the time of each call in
  a table and prints the five that took most. \<open>float\<close> is any linearly ordered type with a zero and an addition of which the
  rounding is not described; \<open>atof\<close> and the percentage are arguments.
\<close>

definition CALL_SZ :: nat where "CALL_SZ = 1000"
definition NAME_SZ :: nat where "NAME_SZ = 100"

record 'f call_t =
  call_name :: "string option"
  us :: 'f

section \<open>Lines\<close>

text \<open>\<open>get_name\<close>, from the position \<open>len\<close>; the result is what is written to \<open>name\<close>.\<close>

fun get_name_from :: "nat \<Rightarrow> string \<Rightarrow> string option" where
  "get_name_from len [] = None"
| "get_name_from len (c # cs) =
     (if len < NAME_SZ then if c \<noteq> CHR ''('' then map_option ((#) c) (get_name_from (len + 1) cs) else Some [] else None)"

definition get_name :: "string \<Rightarrow> string option" where
  "get_name ln = get_name_from 0 ln"

text \<open>The search for the last \<open><\<close>, from the position before \<open>n\<close> on to the front.\<close>

primrec find_open :: "string \<Rightarrow> nat \<Rightarrow> int" where
  "find_open ln 0 = -1"
| "find_open ln (Suc n) = (if ln ! n \<noteq> CHR ''<'' then find_open ln n else int n)"

text \<open>The copy to \<open>us\<close>: what it holds, how many characters, and the rest of the line.\<close>

fun copy_us :: "nat \<Rightarrow> string \<Rightarrow> string \<times> nat \<times> string" where
  "copy_us i [] = ([], i, [])"
| "copy_us i (c # cs) = (if i < 512 \<and> c \<noteq> CHR ''>'' then let (t, j, r) = copy_us (i + 1) cs in (c # t, j, r) else ([], i, c # cs))"

definition get_us :: "(string \<Rightarrow> 'f :: zero) \<Rightarrow> string \<Rightarrow> 'f res" where
  "get_us atof ln =
     (let pos = find_open ln (length ln)
      in if pos < 0 then Inl BadAccess
         else let (t, i, r) = copy_us 0 (drop (nat pos + 1) ln)
              in if r = [] \<or> hd r \<noteq> CHR ''>'' \<or> i = 512 then Inr 0 else Inr (atof t))"

section \<open>The table\<close>

fun call_add :: "string \<Rightarrow> 'f :: plus \<Rightarrow> 'f call_t list \<Rightarrow> 'f call_t list res" where
  "call_add name u [] = Inl AssertFail"
| "call_add name u (x # xs) =
     (case call_name x of
        Some n \<Rightarrow> if n = name then Inr (x\<lparr>us := us x + u\<rparr> # xs) else res_bind (call_add name u xs) (\<lambda>xs. Inr (x # xs))
      | None \<Rightarrow> Inr (\<lparr>call_name = Some name, us = u\<rparr> # xs))"

definition sort_inner :: "nat \<Rightarrow> nat \<Rightarrow> 'f :: linorder call_t list \<Rightarrow> 'f call_t list" where
  "sort_inner i j xs = (if us (xs ! i) < us (xs ! j) then xs[i := xs ! j, j := xs ! i] else xs)"

definition sort_outer :: "nat \<Rightarrow> 'f :: linorder call_t list \<Rightarrow> 'f call_t list" where
  "sort_outer i xs = fold (sort_inner i) [i + 1 ..< CALL_SZ] xs"

definition call_sort :: "'f :: linorder call_t list \<Rightarrow> 'f call_t list" where
  "call_sort xs = fold sort_outer [0 ..< CALL_SZ] xs"

text \<open>\<open>ratio u tot\<close> is \<open>(int)(u * 100 / tot)\<close>.\<close>

definition show_int :: "int \<Rightarrow> string" where
  "show_int k = (if k < 0 then CHR ''-'' # decimal (nat (- k)) else decimal (nat k))"

primrec print_calls :: "('f \<Rightarrow> 'f \<Rightarrow> int) \<Rightarrow> 'f \<Rightarrow> nat \<Rightarrow> 'f call_t list \<Rightarrow> string" where
  "print_calls ratio tot 0 xs = []"
| "print_calls ratio tot (Suc n) xs =
     (case call_name (hd xs) of
        None \<Rightarrow> []
      | Some name \<Rightarrow> name @ '' ('' @ show_int (ratio (us (hd xs)) tot) @ ''%)'' @ [CHR 0x0A] @ print_calls ratio tot n (tl xs))"

definition call_print_top5 :: "('f :: {linorder, plus, zero} \<Rightarrow> 'f \<Rightarrow> int) \<Rightarrow> 'f call_t list \<Rightarrow> 'f call_t list \<times> string" where
  "call_print_top5 ratio xs =
     (let xs = call_sort xs;
          tot = fold (\<lambda>x tot. if call_name x \<noteq> None then tot + us x else tot) xs 0
      in (xs, print_calls ratio tot 5 xs @ [CHR 0x0A] @ replicate 80 (CHR 0x00)))"

section \<open>The program\<close>

definition gettimeus :: "u64 \<Rightarrow> u64 \<Rightarrow> u64" where
  "gettimeus tv_sec tv_nsec = tv_sec * 1000000 + tv_nsec div 1000"

record 'f sperf =
  Calls :: "'f call_t list"
  now :: u64
  printed :: string

definition sperf_print :: "('f :: {linorder, plus, zero} \<Rightarrow> 'f \<Rightarrow> int) \<Rightarrow> 'f sperf \<Rightarrow> 'f sperf" where
  "sperf_print ratio s = (let (xs, t) = call_print_top5 ratio (Calls s) in s\<lparr>Calls := xs, printed := printed s @ t\<rparr>)"

text \<open>One line, with the time the clock shows once the call is added.\<close>

definition sperf_line :: "(string \<Rightarrow> 'f) \<Rightarrow> ('f :: {linorder, plus, zero} \<Rightarrow> 'f \<Rightarrow> int) \<Rightarrow> string \<Rightarrow> u64 \<Rightarrow> 'f sperf \<Rightarrow> 'f sperf res" where
  "sperf_line atof ratio ln t s =
     (case get_name ln of
        None \<Rightarrow> Inr s
      | Some name \<Rightarrow>
          res_bind (get_us atof ln) (\<lambda>u.
          if u = 0 then Inr s
          else res_bind (call_add name u (Calls s)) (\<lambda>xs.
            let s = s\<lparr>Calls := xs\<rparr>
            in if t - now s > 1000000 then Inr ((sperf_print ratio s)\<lparr>now := t\<rparr>) else Inr s)))"

primrec sperf_lines :: "(string \<Rightarrow> 'f) \<Rightarrow> ('f :: {linorder, plus, zero} \<Rightarrow> 'f \<Rightarrow> int) \<Rightarrow> (string \<times> u64) list \<Rightarrow> 'f sperf \<Rightarrow> 'f sperf res" where
  "sperf_lines atof ratio [] s = Inr s"
| "sperf_lines atof ratio (x # xs) s = res_bind (sperf_line atof ratio (fst x) (snd x) s) (sperf_lines atof ratio xs)"

definition sperf :: "(string \<Rightarrow> 'f) \<Rightarrow> ('f :: {linorder, plus, zero} \<Rightarrow> 'f \<Rightarrow> int) \<Rightarrow> u64 \<Rightarrow> (string \<times> u64) list \<Rightarrow> 'f sperf res" where
  "sperf atof ratio start lns =
     res_bind (sperf_lines atof ratio lns \<lparr>Calls = replicate CALL_SZ \<lparr>call_name = None, us = 0\<rparr>, now = start, printed = []\<rparr>) (\<lambda>s.
     Inr (sperf_print ratio s))"

text \<open>The traced program: its arguments, and the directories of \<open>PATH\<close> that are tried; \<open>runs\<close> is whether \<open>execve\<close> finds one.\<close>

definition strace_argv :: "string list \<Rightarrow> nat \<Rightarrow> string option list" where
  "strace_argv argv fd = List.map Some ([''strace'', ''-T'', ''-o'', ''/proc/self/fd/'' @ decimal fd] @ tl argv) @ [None]"

fun strtok_from :: "string \<Rightarrow> string \<Rightarrow> string list" where
  "strtok_from cur [] = (if cur = [] then [] else [rev cur])"
| "strtok_from cur (c # cs) = (if c = CHR '':'' then (if cur = [] then [] else [rev cur]) @ strtok_from [] cs else strtok_from (c # cur) cs)"

definition exec_strace :: "(string \<Rightarrow> bool) \<Rightarrow> string option \<Rightarrow> string res" where
  "exec_strace runs path =
     (case path of
        None \<Rightarrow> Inl BadAccess
      | Some p \<Rightarrow> (case find runs (List.map (\<lambda>token. token @ ''/strace'') (strtok_from [] p)) of None \<Rightarrow> Inl AssertFail | Some cmd \<Rightarrow> Inr cmd))"

section \<open>Parsing\<close>

lemma get_name_from_call: "CHR ''('' \<notin> set n \<Longrightarrow> len + length n < NAME_SZ \<Longrightarrow> get_name_from len (n @ CHR ''('' # r) = Some n"
  by (induction n arbitrary: len) auto

lemma get_name_from_other: "CHR ''('' \<notin> set n \<Longrightarrow> get_name_from len n = None"
  by (induction n arbitrary: len) auto

lemma find_open_skip: "CHR ''<'' \<notin> set r \<Longrightarrow> find_open (l @ r) (length (l @ r)) = find_open l (length l)"
proof (induction r rule: rev_induct)
  case (snoc c r)
  have "find_open (l @ r @ [c]) (length (l @ r)) = find_open (l @ r) (length (l @ r))"
  proof -
    have "find_open (m @ [c]) n = find_open m n" if "n \<le> length m" for m :: string and n
      using that by (induction n) (simp_all add: nth_append)
    from this [of "length (l @ r)" "l @ r"] show ?thesis by simp
  qed
  moreover have "(l @ r @ [c]) ! length (l @ r) = c" by (simp add: nth_append)
  ultimately show ?case using snoc by auto
qed simp

lemma find_open_hit: "find_open (l @ [CHR ''<'']) (length (l @ [CHR ''<''])) = int (length l)"
  by (simp add: nth_append)

lemma copy_us_time: "CHR ''>'' \<notin> set t \<Longrightarrow> i + length t < 512 \<Longrightarrow> copy_us i (t @ CHR ''>'' # r) = (t, i + length t, CHR ''>'' # r)"
  by (induction t arbitrary: i) auto

lemma get_us_time:
  assumes "CHR ''<'' \<notin> set t" "CHR ''>'' \<notin> set t" "length t < 512" and "CHR ''<'' \<notin> set r"
  shows "get_us atof (l @ CHR ''<'' # t @ CHR ''>'' # r) = Inr (atof t)"
proof -
  let ?ln = "l @ CHR ''<'' # t @ CHR ''>'' # r"
  have "?ln = (l @ [CHR ''<'']) @ (t @ CHR ''>'' # r)" by simp
  then have "find_open ?ln (length ?ln) = int (length l)"
    using find_open_skip [of "t @ CHR ''>'' # r" "l @ [CHR ''<'']"] find_open_hit [of l] assms(1,4) by simp
  then show ?thesis using copy_us_time [of t 0 r] assms(2,3) by (simp add: get_us_def)
qed

text \<open>
  A line without a time, as \<open>strace\<close> writes it for the call that ends the process: the search leaves the line at its front
  and the test after it reads the byte before.
\<close>

lemma get_us_no_time: "CHR ''<'' \<notin> set ln \<Longrightarrow> get_us atof ln = Inl BadAccess"
  using find_open_skip [of ln "[]"] by (simp add: get_us_def)

section \<open>The table as a map\<close>

definition named :: "'f call_t list \<Rightarrow> (string \<times> 'f) list" where
  "named xs = List.map (\<lambda>x. (the (call_name x), us x)) (filter (\<lambda>x. call_name x \<noteq> None) xs)"

lemma named_simps [simp]:
  "named [] = []"
  "call_name x = Some n \<Longrightarrow> named (x # xs) = (n, us x) # named xs"
  "call_name x = None \<Longrightarrow> named (x # xs) = named xs"
  by (simp_all add: named_def)

text \<open>The calls are different and stand before the free entries, which are as the program starts with them.\<close>

definition calls_ok :: "'f :: {linorder, zero} call_t list \<Rightarrow> bool" where
  "calls_ok xs \<longleftrightarrow> distinct (List.map fst (named xs)) \<and> (\<forall>x \<in> set xs. if call_name x = None then us x = 0 else 0 < us x) \<and>
     sorted_wrt (\<lambda>x y. call_name y \<noteq> None \<longrightarrow> call_name x \<noteq> None) xs"

lemma named_free: "\<forall>x \<in> set xs. call_name x = None \<Longrightarrow> named xs = []"
  by (simp add: named_def filter_empty_conv)

lemma calls_ok_Cons: "calls_ok (x # xs) \<longleftrightarrow> calls_ok xs \<and>
    (case call_name x of None \<Rightarrow> us x = 0 \<and> (\<forall>y \<in> set xs. call_name y = None) | Some n \<Rightarrow> 0 < us x \<and> n \<notin> fst ` set (named xs))"
  by (cases "call_name x") (auto simp: calls_ok_def named_free)

abbreviation bump :: "'f :: plus \<Rightarrow> 'f option \<Rightarrow> 'f" where
  "bump u old \<equiv> (case old of None \<Rightarrow> u | Some v \<Rightarrow> v + u)"

lemma call_add_ok:
  fixes u :: "'f :: {linorder, plus, zero}"
  assumes "\<And>a b :: 'f. 0 < a \<Longrightarrow> 0 < b \<Longrightarrow> 0 < a + b" and "0 < u"
  shows "calls_ok xs \<Longrightarrow> name \<in> fst ` set (named xs) \<or> length (named xs) < length xs \<Longrightarrow>
    \<exists>ys. call_add name u xs = Inr ys \<and> calls_ok ys \<and> length ys = length xs \<and> fst ` set (named ys) = insert name (fst ` set (named xs)) \<and>
      map_of (named ys) = (map_of (named xs))(name \<mapsto> bump u (map_of (named xs) name))"
proof (induction xs)
  case (Cons x xs)
  show ?case
  proof (cases "call_name x")
    case None
    then have f: "\<forall>y \<in> set xs. call_name y = None" using Cons.prems(1) by (simp add: calls_ok_Cons)
    then show ?thesis using None Cons.prems(1) assms(2) named_free [OF f] by (simp add: calls_ok_Cons fun_eq_iff)
  next
    case (Some n)
    have ok: "calls_ok xs" "0 < us x" "n \<notin> fst ` set (named xs)" using Cons.prems(1) Some by (simp_all add: calls_ok_Cons)
    show ?thesis
    proof (cases "n = name")
      case True
      then show ?thesis using Some ok assms by (auto simp: calls_ok_Cons)
    next
      case False
      then obtain ys where y: "call_add name u xs = Inr ys" "calls_ok ys" "length ys = length xs"
        "fst ` set (named ys) = insert name (fst ` set (named xs))"
        "map_of (named ys) = (map_of (named xs))(name \<mapsto> bump u (map_of (named xs) name))"
      proof -
        have "name \<in> fst ` set (named xs) \<or> length (named xs) < length xs" using Cons.prems(2) Some False by auto
        then show thesis using Cons.IH [OF ok(1)] that by blast
      qed
      have "map_of (named (x # ys)) = (map_of (named (x # xs)))(name \<mapsto> bump u (map_of (named (x # xs)) name))"
        using y(5) Some False by (simp add: fun_upd_twist)
      then show ?thesis using y Some ok False by (auto simp: calls_ok_Cons simp del: fun_upd_apply)
    qed
  qed
qed simp

section \<open>Sorting\<close>

text \<open>No entry from \<open>i\<close> on but before \<open>j\<close> is greater than one in front of it and of \<open>i\<close>.\<close>

definition desc_upto :: "nat \<Rightarrow> 'f :: linorder call_t list \<Rightarrow> bool" where
  "desc_upto i xs \<longleftrightarrow> (\<forall>k < i. \<forall>l < length xs. k < l \<longrightarrow> us (xs ! l) \<le> us (xs ! k))"

lemma sort_inner_step:
  assumes "desc_upto i xs" and "i < j" "j < length xs" and "\<forall>l < j. i < l \<longrightarrow> us (xs ! l) \<le> us (xs ! i)"
  shows "desc_upto i (sort_inner i j xs)" and "mset (sort_inner i j xs) = mset xs"
    and "\<forall>l < j + 1. i < l \<longrightarrow> us (sort_inner i j xs ! l) \<le> us (sort_inner i j xs ! i)"
proof -
  show "mset (sort_inner i j xs) = mset xs" using assms(2,3) by (simp add: sort_inner_def mset_swap)
  show "desc_upto i (sort_inner i j xs)" using assms(1-3) unfolding desc_upto_def sort_inner_def
    by (auto simp: nth_list_update)
  show "\<forall>l < j + 1. i < l \<longrightarrow> us (sort_inner i j xs ! l) \<le> us (sort_inner i j xs ! i)"
  proof (intro allI impI)
    fix l assume "l < j + 1" "i < l"
    then show "us (sort_inner i j xs ! l) \<le> us (sort_inner i j xs ! i)"
    proof (cases "l = j")
      case True
      then show ?thesis using assms(2,3) by (auto simp: sort_inner_def nth_list_update not_less)
    next
      case False
      then have "us (xs ! l) \<le> us (xs ! i)" using assms(4) \<open>l < j + 1\<close> \<open>i < l\<close> by simp
      then show ?thesis using False \<open>i < l\<close> assms(2,3) by (auto simp: sort_inner_def nth_list_update intro: order_trans less_imp_le)
    qed
  qed
qed

lemma sort_outer_step:
  assumes "desc_upto i xs" and "i < length xs" "length xs = CALL_SZ"
  shows "desc_upto (i + 1) (sort_outer i xs) \<and> mset (sort_outer i xs) = mset xs"
proof -
  have "desc_upto i (fold (sort_inner i) [i + 1 ..< j] xs) \<and> mset (fold (sort_inner i) [i + 1 ..< j] xs) = mset xs \<and>
      (\<forall>l < j. i < l \<longrightarrow> us (fold (sort_inner i) [i + 1 ..< j] xs ! l) \<le> us (fold (sort_inner i) [i + 1 ..< j] xs ! i))"
    if "i < j" "j \<le> length xs" for j
    using that
  proof (induction j)
    case (Suc j)
    show ?case
    proof (cases "j = i")
      case True
      then show ?thesis using assms(1) by simp
    next
      case False
      let ?ys = "fold (sort_inner i) [i + 1 ..< j] xs"
      have y: "desc_upto i ?ys" "mset ?ys = mset xs" "\<forall>l < j. i < l \<longrightarrow> us (?ys ! l) \<le> us (?ys ! i)" using Suc False by simp_all
      moreover have "length ?ys = length xs" using mset_eq_length [OF y(2)] .
      ultimately show ?thesis using sort_inner_step [of i ?ys j] Suc.prems False by simp
    qed
  qed simp
  note this [of "length xs"]
  then have y: "desc_upto i (sort_outer i xs)" "mset (sort_outer i xs) = mset xs"
    "\<forall>l < length xs. i < l \<longrightarrow> us (sort_outer i xs ! l) \<le> us (sort_outer i xs ! i)"
    using assms(2,3) by (simp_all add: sort_outer_def)
  moreover have "length (sort_outer i xs) = length xs" using mset_eq_length [OF y(2)] .
  ultimately show ?thesis by (auto simp: desc_upto_def less_Suc_eq)
qed

lemma call_sort_sorts:
  assumes "length xs = CALL_SZ"
  shows "mset (call_sort xs) = mset xs" and "sorted_wrt (\<lambda>x y. us y \<le> us x) (call_sort xs)"
proof -
  have s: "desc_upto i (fold sort_outer [0 ..< i] xs) \<and> mset (fold sort_outer [0 ..< i] xs) = mset xs" if "i \<le> CALL_SZ" for i
    using that
  proof (induction i)
    case (Suc i)
    let ?ys = "fold sort_outer [0 ..< i] xs"
    have y: "desc_upto i ?ys" "mset ?ys = mset xs" using Suc by simp_all
    moreover have "length ?ys = length xs" using mset_eq_length [OF y(2)] .
    ultimately show ?case using sort_outer_step [of i ?ys] Suc.prems assms by simp
  qed (simp add: desc_upto_def)
  then show m: "mset (call_sort xs) = mset xs" by (simp add: call_sort_def)
  have "length (call_sort xs) = CALL_SZ" using mset_eq_length [OF m] assms by simp
  then show "sorted_wrt (\<lambda>x y. us y \<le> us x) (call_sort xs)"
    using s [of CALL_SZ] by (auto simp: sorted_wrt_iff_nth_less call_sort_def desc_upto_def)
qed

lemma mset_named: "mset xs = mset ys \<Longrightarrow> mset (named xs) = mset (named ys)"
  by (simp add: named_def)

lemma call_sort_ok:
  assumes "calls_ok xs" and "length xs = CALL_SZ"
  shows "calls_ok (call_sort xs)" and "length (call_sort xs) = CALL_SZ" and "map_of (named (call_sort xs)) = map_of (named xs)"
    and "fst ` set (named (call_sort xs)) = fst ` set (named xs)" and "sorted_wrt (\<lambda>x y. us y \<le> us x) (call_sort xs)"
proof -
  note m = call_sort_sorts(1) [OF assms(2)]
  show "length (call_sort xs) = CALL_SZ" using mset_eq_length [OF m] assms(2) by simp
  show d: "sorted_wrt (\<lambda>x y. us y \<le> us x) (call_sort xs)" by (rule call_sort_sorts(2) [OF assms(2)])
  note n = mset_named [OF m]
  have "mset (List.map fst (named (call_sort xs))) = mset (List.map fst (named xs))" using n by simp
  then have dist: "distinct (List.map fst (named (call_sort xs)))" using assms(1) mset_eq_imp_distinct_iff unfolding calls_ok_def by blast
  have e: "set (named (call_sort xs)) = set (named xs)" using mset_eq_setD [OF n] .
  then show "fst ` set (named (call_sort xs)) = fst ` set (named xs)" by simp
  show "map_of (named (call_sort xs)) = map_of (named xs)"
    using map_of_inject_set [OF dist, of "named xs"] assms(1) e by (simp add: calls_ok_def)
  have z: "\<forall>x \<in> set (call_sort xs). if call_name x = None then us x = 0 else 0 < us x"
    using assms(1) mset_eq_setD [OF m] by (simp add: calls_ok_def)
  have "sorted_wrt (\<lambda>x y. call_name y \<noteq> None \<longrightarrow> call_name x \<noteq> None) (call_sort xs)"
  proof (rule sorted_wrt_mono_rel [OF _ d])
    fix x y assume "x \<in> set (call_sort xs)" "y \<in> set (call_sort xs)" "us y \<le> us x"
    then show "call_name y \<noteq> None \<longrightarrow> call_name x \<noteq> None" using z by (metis leD)
  qed
  then show "calls_ok (call_sort xs)" using dist z by (simp add: calls_ok_def)
qed

section \<open>A trace\<close>

text \<open>What \<open>strace -T\<close> writes: calls with their time, and lines about signals and the end, which have no parenthesis.\<close>

datatype entry = Call string string string string | Note string

fun entry_text :: "entry \<Rightarrow> string" where
  "entry_text (Call n args t rest) = n @ CHR ''('' # args @ CHR ''<'' # t @ CHR ''>'' # rest"
| "entry_text (Note n) = n"

fun entry_ok :: "(string \<Rightarrow> 'f :: {linorder, zero}) \<Rightarrow> entry \<Rightarrow> bool" where
  "entry_ok atof (Call n args t rest) \<longleftrightarrow> CHR ''('' \<notin> set n \<and> length n < 100 \<and> CHR ''<'' \<notin> set t \<and> CHR ''>'' \<notin> set t \<and> length t < 512 \<and>
     CHR ''<'' \<notin> set rest \<and> 0 \<le> atof t"
| "entry_ok atof (Note n) \<longleftrightarrow> CHR ''('' \<notin> set n"

fun entry_names :: "entry \<Rightarrow> string set" where
  "entry_names (Call n _ _ _) = {n}"
| "entry_names (Note _) = {}"

text \<open>What is to be added up, in the order of the lines.\<close>

fun account :: "(string \<Rightarrow> 'f :: {linorder, plus, zero}) \<Rightarrow> entry \<Rightarrow> (string \<rightharpoonup> 'f) \<Rightarrow> string \<rightharpoonup> 'f" where
  "account atof (Call n _ t _) m = (if atof t = 0 then m else m(n \<mapsto> bump (atof t) (m n)))"
| "account atof (Note _) m = m"

definition table_ok :: "string set \<Rightarrow> (string \<rightharpoonup> 'f) \<Rightarrow> 'f :: {linorder, plus, zero} sperf \<Rightarrow> bool" where
  "table_ok N m s \<longleftrightarrow> calls_ok (Calls s) \<and> length (Calls s) = CALL_SZ \<and> map_of (named (Calls s)) = m \<and> fst ` set (named (Calls s)) \<subseteq> N"

lemma sperf_print_ok: "table_ok N m s \<Longrightarrow> table_ok N m (sperf_print ratio s)"
  using call_sort_ok [of "Calls s"] by (simp add: table_ok_def sperf_print_def call_print_top5_def Let_def)

lemma table_ok_now [simp]: "table_ok N m (s\<lparr>now := t\<rparr>) = table_ok N m s"
  by (simp add: table_ok_def)

lemma get_name_entry: "entry_ok atof e \<Longrightarrow> get_name (entry_text e) = (case e of Call n _ _ _ \<Rightarrow> Some n | Note _ \<Rightarrow> None)"
  by (cases e) (simp_all add: get_name_def get_name_from_call get_name_from_other NAME_SZ_def)

lemma sperf_line_ok:
  fixes m :: "string \<rightharpoonup> 'f :: {linorder, plus, zero}"
  assumes "\<And>a b :: 'f. 0 < a \<Longrightarrow> 0 < b \<Longrightarrow> 0 < a + b" and "entry_ok atof e" and "finite N" "card N \<le> CALL_SZ" "entry_names e \<subseteq> N"
    and "table_ok N m s"
  shows "\<exists>s'. sperf_line atof ratio (entry_text e) t s = Inr s' \<and> table_ok N (account atof e m) s'"
proof (cases e)
  case (Note n)
  then show ?thesis using get_name_entry [OF assms(2)] assms(6) by (simp add: sperf_line_def)
next
  case (Call n args tm rest)
  have g: "get_name (entry_text e) = Some n" "get_us atof (entry_text e) = Inr (atof tm)"
    using get_name_entry [OF assms(2)] get_us_time [of tm rest atof "n @ CHR ''('' # args"] assms(2) Call by simp_all
  show ?thesis
  proof (cases "atof tm = 0")
    case True
    then show ?thesis using g assms(6) Call by (simp add: sperf_line_def)
  next
    case False
    then have pos: "0 < atof tm" using assms(2) Call by (auto simp: order_less_le)
    have ok: "calls_ok (Calls s)" "length (Calls s) = CALL_SZ" "map_of (named (Calls s)) = m" "fst ` set (named (Calls s)) \<subseteq> N"
      using assms(6) by (simp_all add: table_ok_def)
    have "n \<in> fst ` set (named (Calls s)) \<or> length (named (Calls s)) < length (Calls s)"
    proof (cases "n \<in> fst ` set (named (Calls s))")
      case False
      then have "fst ` set (named (Calls s)) \<subset> N" using ok(4) assms(5) Call by auto
      then have "card (fst ` set (named (Calls s))) < card N" by (rule psubset_card_mono [OF assms(3)])
      moreover have "card (fst ` set (named (Calls s))) = length (named (Calls s))"
        using distinct_card [of "List.map fst (named (Calls s))"] ok(1) by (simp add: calls_ok_def)
      ultimately show ?thesis using assms(4) ok(2) by simp
    qed simp
    then obtain ys where y: "call_add n (atof tm) (Calls s) = Inr ys" "calls_ok ys" "length ys = length (Calls s)"
      "fst ` set (named ys) = insert n (fst ` set (named (Calls s)))"
      "map_of (named ys) = (map_of (named (Calls s)))(n \<mapsto> bump (atof tm) (map_of (named (Calls s)) n))"
      using call_add_ok [OF assms(1) pos ok(1), of n] by blast
    have "table_ok N (account atof e m) (s\<lparr>Calls := ys\<rparr>)" using y ok assms(5) Call False by (simp add: table_ok_def)
    then show ?thesis using g y(1) False sperf_print_ok [of N "account atof e m" "s\<lparr>Calls := ys\<rparr>" ratio]
      by (simp add: sperf_line_def Let_def)
  qed
qed

lemma sperf_lines_ok:
  fixes m :: "string \<rightharpoonup> 'f :: {linorder, plus, zero}"
  assumes "\<And>a b :: 'f. 0 < a \<Longrightarrow> 0 < b \<Longrightarrow> 0 < a + b" and "finite N" "card N \<le> CALL_SZ"
  shows "\<forall>(e, t) \<in> set es. entry_ok atof e \<and> entry_names e \<subseteq> N \<Longrightarrow> table_ok N m s \<Longrightarrow>
    \<exists>s'. sperf_lines atof ratio (List.map (\<lambda>(e, t). (entry_text e, t)) es) s = Inr s' \<and> table_ok N (fold (\<lambda>(e, t). account atof e) es m) s'"
proof (induction es arbitrary: m s)
  case (Cons x es)
  obtain e t where x: "x = (e, t)" by (cases x)
  obtain s1 where "sperf_line atof ratio (entry_text e) t s = Inr s1" "table_ok N (account atof e m) s1"
  proof -
    have "entry_ok atof e" "entry_names e \<subseteq> N" using Cons.prems(1) x by simp_all
    then show thesis using sperf_line_ok [OF assms(1) _ assms(2,3) _ Cons.prems(2), where ratio = ratio and t = t] that by blast
  qed
  then show ?case using Cons.IH [of "account atof e m" s1] Cons.prems(1) x by simp
qed simp

lemma sperf_lines_append: "sperf_lines atof ratio (xs @ ys) s = res_bind (sperf_lines atof ratio xs s) (sperf_lines atof ratio ys)"
proof (induction xs arbitrary: s)
  case (Cons x xs)
  then show ?case by (cases "sperf_line atof ratio (fst x) (snd x) s") simp_all
qed simp

lemma sperf_line_no_time:
  assumes "CHR ''('' \<notin> set n" "length n < 100" "CHR ''<'' \<notin> set n" "CHR ''<'' \<notin> set r"
  shows "sperf_line atof ratio (n @ CHR ''('' # r) t s = Inl BadAccess"
proof -
  have "CHR ''<'' \<notin> set (n @ CHR ''('' # r)" using assms(3,4) by simp
  from get_us_no_time [OF this, of atof] show ?thesis
    using assms(1,2) by (simp add: sperf_line_def get_name_def get_name_from_call NAME_SZ_def)
qed

text \<open>The total that the report compares with, over the table from its front.\<close>

definition calls_total :: "'f :: {plus, zero} call_t list \<Rightarrow> 'f" where
  "calls_total xs = fold (\<lambda>x tot. if call_name x \<noteq> None then tot + us x else tot) xs 0"

text \<open>
  C34: The profiler reports what the trace says. Let the lines be calls that carry a time, with a name of less than 100 characters
  before the first parenthesis and the time, of less than 512 characters and not negative, between the last \<open><\<close> and the next
  \<open>>\<close>, and notes without a parenthesis; let there be at most 1000 different calls, and let the sum of positive times be positive.
  Then the profiler ends without a fault and its table has for each call the sum of its times, added in the order of the
  lines, however often the table was sorted and printed in between; the table is sorted by time, every call is in it once,
  and the output ends with the report of this table, the first five calls with their share of the total. A call without a time, such as
  \<open>exit_group(0) = ?\<close>, is not such a line: after any such trace it makes the profiler read before the start of the line.
\<close>

theorem sperf_sums_times:
  fixes atof :: "string \<Rightarrow> 'f :: {linorder, plus, zero}"
  assumes "\<And>a b :: 'f. 0 < a \<Longrightarrow> 0 < b \<Longrightarrow> 0 < a + b" and "\<forall>(e, t) \<in> set es. entry_ok atof e"
    and "card (\<Union>(e, t) \<in> set es. entry_names e) \<le> 1000"
  shows "\<exists>s pre. sperf atof ratio start (List.map (\<lambda>(e, t). (entry_text e, t)) es) = Inr s \<and>
    map_of (named (Calls s)) = fold (\<lambda>(e, t). account atof e) es Map.empty \<and> distinct (List.map fst (named (Calls s))) \<and>
    sorted_wrt (\<lambda>x y. us y \<le> us x) (Calls s) \<and>
    printed s = pre @ print_calls ratio (calls_total (Calls s)) 5 (Calls s) @ [CHR 0x0A] @ replicate 80 (CHR 0x00) \<and>
    (\<forall>n r t rest. CHR ''('' \<notin> set n \<and> length n < 100 \<and> CHR ''<'' \<notin> set (n @ r) \<longrightarrow>
       sperf atof ratio start (List.map (\<lambda>(e, t). (entry_text e, t)) es @ (n @ CHR ''('' # r, t) # rest) = Inl BadAccess)"
proof -
  let ?N = "\<Union>(e, t) \<in> set es. entry_names e"
  let ?s0 = "\<lparr>Calls = replicate CALL_SZ \<lparr>call_name = None, us = 0 :: 'f\<rparr>, now = start, printed = []\<rparr>"
  have "finite (entry_names e)" for e by (cases e) simp_all
  then have fin: "finite ?N" by auto
  have c: "card ?N \<le> CALL_SZ" using assms(3) by (simp add: CALL_SZ_def)
  have z: "table_ok ?N Map.empty ?s0"
    by (auto simp: table_ok_def calls_ok_def named_free sorted_wrt_iff_nth_less)
  have "\<forall>(e, t) \<in> set es. entry_ok atof e \<and> entry_names e \<subseteq> ?N" using assms(2) by auto
  then obtain s where s: "sperf_lines atof ratio (List.map (\<lambda>(e, t). (entry_text e, t)) es) ?s0 = Inr s"
    "table_ok ?N (fold (\<lambda>(e, t). account atof e) es Map.empty) s"
    using sperf_lines_ok [OF assms(1) fin c _ z] by blast
  let ?s = "sperf_print ratio s"
  have t: "table_ok ?N (fold (\<lambda>(e, t). account atof e) es Map.empty) ?s" using sperf_print_ok [OF s(2)] .
  have "Calls ?s = call_sort (Calls s)" by (simp add: sperf_print_def call_print_top5_def Let_def)
  then have "sorted_wrt (\<lambda>x y. us y \<le> us x) (Calls ?s)"
    using call_sort_ok(5) [of "Calls s"] s(2) unfolding table_ok_def by metis
  moreover have "printed ?s = printed s @ print_calls ratio (calls_total (Calls ?s)) 5 (Calls ?s) @ [CHR 0x0A] @ replicate 80 (CHR 0x00)"
    by (simp add: sperf_print_def call_print_top5_def Let_def calls_total_def)
  moreover have "\<forall>n r t rest. CHR ''('' \<notin> set n \<and> length n < 100 \<and> CHR ''<'' \<notin> set (n @ r) \<longrightarrow>
      sperf atof ratio start (List.map (\<lambda>(e, t). (entry_text e, t)) es @ (n @ CHR ''('' # r, t) # rest) = Inl BadAccess"
    by (simp add: sperf_def sperf_lines_append s(1) sperf_line_no_time)
  moreover have "sperf atof ratio start (List.map (\<lambda>(e, t). (entry_text e, t)) es) = Inr ?s" by (simp add: sperf_def s(1))
  moreover have "map_of (named (Calls ?s)) = fold (\<lambda>(e, t). account atof e) es Map.empty" "distinct (List.map fst (named (Calls ?s)))"
    using t by (simp_all add: table_ok_def calls_ok_def)
  ultimately show ?thesis by blast
qed

lemma sperf_sums_times_witness:
  "\<exists>s. sperf (\<lambda>t. length t) (\<lambda>u tot. 0) 0 [(''read(3) <**>'', 5), (''open() <***>'', 9), (''+++'', 9), (''read() <**>'', 2000000)] = Inr s \<and>
    map_of (named (Calls s)) = [''read'' \<mapsto> 4, ''open'' \<mapsto> 3] \<and>
    sperf (\<lambda>t. length t) (\<lambda>u tot. 0) 0 [(''read(3) <**>'', 5), (''open() <***>'', 9), (''+++'', 9), (''read() <**>'', 2000000),
      (''exit_group(0) = ?'', 2000001)] = Inl BadAccess"
proof -
  let ?es = "[(Call ''read'' ''3) '' ''**'' [], 5), (Call ''open'' '') '' ''***'' [], 9), (Note ''+++'', 9), (Call ''read'' '') '' ''**'' [], 2000000)]
    :: (entry \<times> u64) list"
  have "\<forall>(e, t) \<in> set ?es. entry_ok (\<lambda>t. length t) e" by simp
  moreover have "card (\<Union>(e, t) \<in> set ?es. entry_names e) \<le> 1000" by (simp add: card_insert_if)
  ultimately obtain s where "sperf (\<lambda>t. length t) (\<lambda>u tot. 0) 0 (List.map (\<lambda>(e, t). (entry_text e, t)) ?es) = Inr s"
    "map_of (named (Calls s)) = fold (\<lambda>(e, t). account (\<lambda>t. length t) e) ?es Map.empty"
    and n: "\<forall>n r t rest. CHR ''('' \<notin> set n \<and> length n < 100 \<and> CHR ''<'' \<notin> set (n @ r) \<longrightarrow>
       sperf (\<lambda>t. length t) (\<lambda>u tot. 0) 0 (List.map (\<lambda>(e, t). (entry_text e, t)) ?es @ (n @ CHR ''('' # r, t) # rest) = Inl BadAccess"
    using sperf_sums_times [where atof = "\<lambda>t. length t" and es = ?es and start = 0 and ratio = "\<lambda>u tot. 0"] by auto
  moreover have "sperf (\<lambda>t. length t) (\<lambda>u tot. 0) 0 (List.map (\<lambda>(e, t). (entry_text e, t)) ?es @ (''exit_group'' @ CHR ''('' # ''0) = ?'', 2000001) # []) =
    Inl BadAccess" using n by (simp del: append.simps)
  ultimately show ?thesis by (intro exI [of _ s]) (simp add: fun_eq_iff)
qed

end
