(* ===== verification/Spec2Isabelle.thy ===== *)
theory Spec2Isabelle
  imports Spinlock Pmm Klib_String Klib_Stdio Klib_Int64 Dev_Input Tty_Task Term_Font Vme_Kernel Disk_Native Disk_Ata Native_Cte Console_Qemu Kernel_Main Libco_Safe Sperf
begin

text \<open>
  A teaching operating system (\<open>src/kernel\<close>) on the AbstractMachine (\<open>src/abstract-machine\<close>), with the small user
  programs that come with it (\<open>src/libco\<close>, \<open>src/pstree\<close>, \<open>src/sperf\<close>). The development models the x86_64 builds,
  for the platforms \<open>x86_64-qemu\<close>, which is a bare machine, and \<open>native\<close>, a Linux process.

  \<^bold>\<open>How the parts interact\<close>

  The boot sector loads the kernel from an ATA disk and jumps to it; the start code sizes the memory, reads the
  table of processors, starts the others and hands the kernel a heap. On the heap the kernel's allocator
  gives out objects: to the page tables of address spaces, to the devices, to threads. An interrupt saves a
  context, becomes an event for the kernel's handler and ends in the context that the handler returns. The
  devices of the kernel (input, frame buffer, terminals, disk) are written against registers of the AbstractMachine,
  which each platform provides. The chain of theorems follows this: \<open>Boot_Qemu.boot_loads_kernel\<close>,
  \<open>Mpe_Qemu.processors_start_and_stop\<close>, \<open>Trm_Qemu.boot_establishes_allocator\<close>, the properties of \<open>Pmm\<close>,
  \<open>Kernel_Main.kernel_main_needs_trap\<close> for \<open>main\<close>, \<open>Vme_Kernel.address_space_life\<close> over the allocator, \<open>Cte_Qemu.context_switch_exact\<close>, and from key strokes to
  pixels \<open>Console_Qemu.keystrokes_reach_screen\<close>.

  \<^bold>\<open>Theories and sources\<close>

  \<^item> \<open>Base\<close>, \<open>Bytes\<close>, \<open>Port_Io\<close>: the prelude. Machine integers (\<open>u8\<close> to \<open>u64\<close>, \<open>addr\<close>), the faults of a C
    function (\<open>fault\<close>: a failed assertion, a panic, a bad access, a loop that never ends) with the result type \<open>res\<close>
    and \<open>res_bind\<close>, \<open>guard\<close>; objects as bytes; port instructions (\<open>x86.h\<close>).
  \<^item> \<open>Spinlock\<close>, \<open>Pmm_Size\<close>, \<open>Pmm_Page\<close>, \<open>Pmm_Slab\<close>, \<open>Pmm\<close>: \<open>kernel/src/pmm.c\<close> and \<open>pmm.h\<close>, bottom up. The
    state has the table \<open>Meta\<close> of pages, the slab lists of each processor and the free list inside of each slab page.
    \<open>Alloc_Spec\<close> is the contract of an allocator.
  \<^item> \<open>Klib_String\<close>, \<open>Klib_Stdlib\<close>, \<open>Klib_Stdio\<close>, \<open>Klib_Int64\<close>: the C library \<open>klib/src\<close>.
  \<^item> \<open>Kmt\<close>: the interface of the thread library as the devices use it; the repository has only its stub.
  \<^item> \<open>Fifo_Spec\<close>, \<open>Dev_Input\<close>: ring buffers; \<open>dev_input.c\<close> and the queue of \<open>native/ioe/input.c\<close>.
  \<^item> \<open>Gpu\<close>, \<open>Dev_Fb\<close>, \<open>Term_Font\<close>: the frame buffer of \<open>qemu/ioe.c\<close> and \<open>dev_video.c\<close> with its font; \<open>Gpu_Render\<close>: the
    canvas renderer of \<open>qemu/ioe.c\<close>.
  \<^item> \<open>Dev_Line\<close>, \<open>Dev_Tty\<close>, \<open>Tty_Screen\<close>, \<open>Tty_Display\<close>, \<open>Tty_Task\<close>: \<open>dev_tty.c\<close>: the line buffer, the
    operations on the cells, what characters do, the way to the pixels, and the task.
  \<^item> \<open>Disk_Spec\<close>, \<open>Dev_Sd\<close>, \<open>Disk_Native\<close>, \<open>Disk_Ata\<close>: \<open>dev_sd.c\<close> over the disk registers, and the two drivers
    \<open>native/ioe/disk.c\<close> and \<open>qemu/ioe.c\<close>.
  \<^item> \<open>Ioe_Qemu\<close>, \<open>Console_Qemu\<close>: serial line, clock and keyboard of \<open>qemu/ioe.c\<close>; the console from end to end.
  \<^item> \<open>Boot_Qemu\<close>, \<open>Mpe_Qemu\<close>, \<open>Trm_Qemu\<close>: \<open>qemu/boot/main.c\<close>, \<open>mpe.c\<close>, \<open>trm.c\<close>.
  \<^item> \<open>Apic_Qemu\<close>, \<open>Cte_Qemu\<close>: the interrupt controllers at the end of \<open>qemu/ioe.c\<close>; \<open>cte.c\<close> with \<open>trap64.S\<close>.
  \<^item> \<open>Vme\<close>, \<open>Vme_Tree\<close>, \<open>Vme_Walk\<close>, \<open>Vme_Ops\<close>, \<open>Vme_Kernel\<close>: \<open>qemu/vme.c\<close>; the tree of tables, the operations
    over any source of pages, and over the kernel's allocator.
  \<^item> \<open>Kernel_Main\<close>: \<open>main\<close> of \<open>kernel/framework\<close>, the module \<open>os.c\<close>, and the table of device registers in \<open>qemu/ioe.c\<close>.
  \<^item> \<open>Native_Vme\<close>, \<open>Native_Cte\<close>: \<open>native/vme.c\<close>, \<open>native/cte.c\<close>, \<open>trap.S\<close> and the parts of \<open>platform.c\<close> they use.
  \<^item> \<open>Libco\<close>, \<open>Libco_Safe\<close>: \<open>libco/co.c\<close>; \<open>Pstree\<close>: \<open>pstree/pstree.c\<close>; \<open>Sperf\<close>: \<open>sperf/sperf.c\<close>.

  Definitions have the names of the C functions; a suffix tells apart the platforms (\<open>map_native\<close>) or avoids a name of
  the library (\<open>vme_map\<close>). A C function that changes global state takes and returns the record of this state; one that
  may fault returns \<open>res\<close>; a loop over shared or concurrent state is an inductive step relation
  (\<open>Spinlock\<close>, \<open>Libco\<close>, \<open>Mpe_Qemu\<close>).

  \<^bold>\<open>Interfaces\<close>

  \<^item> \<open>allocator\<close> (\<open>Alloc_Spec\<close>): what \<open>alloc\<close> and \<open>free\<close> promise; any client that frees only what it holds is safe.
    Interpreted as \<open>pages\<close> on \<open>G_alloc\<close> and \<open>G_free\<close> and as \<open>kmm\<close> on \<open>kalloc\<close> and \<open>kfree\<close>.
  \<^item> \<open>bounded_fifo\<close> (\<open>Fifo_Spec\<close>): a queue of bounded size; interpreted as \<open>input_ring\<close>, \<open>key_ring\<close> and \<open>line_ring\<close>.
  \<^item> \<open>surface\<close> (\<open>Gpu\<close>): a screen that is drawn on by rectangles; interpreted as \<open>qemu\<close> on \<open>gpu_fbdraw\<close>.
  \<^item> \<open>disk\<close> (\<open>Disk_Spec\<close>): a block device; interpreted as \<open>native\<close> on the image file; \<open>Disk_Ata\<close> shows it for every
    drive that behaves as ATA documents.
  \<^item> \<open>page_source\<close> (\<open>Vme_Walk\<close>): where page tables come from; interpreted as \<open>kvm\<close> on \<open>kalloc\<close> and \<open>kfree\<close>.

  \<^bold>\<open>Groups of lemmas\<close>

  Each component has a predicate of well-formedness that its operations keep (\<open>kmm_inv\<close>, \<open>ring_ok\<close>, \<open>tq_ok\<close>,
  \<open>gpu_ok\<close>, \<open>native_ok\<close>, \<open>native_disk_ok\<close>, the invariants of \<open>Libco_Safe\<close> and \<open>Mpe_Qemu\<close>), a lemma for each operation on each
  branch with its faults, and an abstraction to what it stands for: sets of objects, lists, the glass terminal, maps
  from pages to entries, the bytes of a disk. The properties are stated over these abstractions, and where the code is wrong
  the theorem gives the run that shows it (\<open>G_alloc_overruns_heap\<close>, \<open>tty_stale_backspace\<close>, \<open>native_remap_hangs\<close>).

  \<^bold>\<open>Loops and bounds\<close>

  Loops over an index are structural recursion or \<open>function\<close> with a measure. Loops that wait for a device, a lock or
  a list that may be circular are \<open>partial_function (option)\<close>: \<open>None\<close> is not to return, and the properties prove that a
  result is there. Where a number of rounds is an argument it is enough by a lemma: the block loop of \<open>dev_sd.c\<close> gets one more than
  the blocks of the request, the search of \<open>co_yield\<close> makes at most \<open>MAXCO\<close> rounds, and the loop of \<open>protect\<close>
  over the kernel's areas at most 513.

  \<^bold>\<open>Conditions\<close>

  \<^item> The allocator's table \<open>Meta\<close> has 8192 entries, and its search is inside it on a heap of at most 7937 pages of 64 KiB, about
    496 MiB; the properties of \<open>kalloc\<close> have this bound. \<open>meta_at\<close> is a fault beyond the table.
  \<^item> Whether \<open>memmove\<close> works is the argument \<open>libc\<close> of the terminal's operations: klib's only panics, and so the terminal stops
    the kernel at the first scroll where klib is linked (\<open>tty_scroll_panics\<close>). The refinements of the terminal take a working one;
    \<open>console_boots\<close> holds with klib's too on a screen of 320 by 240 pixels or more, where nothing scrolls.
  \<^item> The input queue holds 127 events; the code panics when it is full.
  \<^item> Signed overflow, which C leaves undefined, wraps around in \<open>atoi\<close> and in \<open>%d\<close> of the smallest \<open>int\<close>, as compiled.

  \<^bold>\<open>Not modelled\<close>

  \<^item> Code for other builds: \<open>x86/nemu\<close>, \<open>start32.S\<close>, \<open>trap32.S\<close>, the \<open>#else\<close> branches for 32-bit x86, the headers of the other
    architectures, and the \<open>TEST\<close> variant of \<open>pmm_init\<close>.
  \<^item> The switch to protected and to long mode (\<open>boot/start.S\<close>, \<open>start64.S\<close>), and the instructions of \<open>x86.h\<close> with no state
    in the model: segment loads, \<open>hlt\<close>, \<open>pause\<close>.
  \<^item> Calls of the host system: the set-up of the native process in \<open>platform.c\<close>, its forks in \<open>mpe.c\<close>, SDL for its screen,
    sound and keyboard thread, \<open>crepl\<close>, which compiles and loads what is typed, and the command lines of the programs.
  \<^item> Stubs and tests: \<open>kmt.c\<close>, \<open>kernel/test\<close>, \<open>libco/tests\<close>, and the game \<open>amgame\<close>.
\<close>

end
